(* ===== verification/Base.thy ===== *)
theory Base
  imports Main "HOL-Library.Word" "HOL-Library.Multiset" "HOL-Library.AList"
begin

text \<open>
  The prelude of the development.  It names the machine types of the Rust code, models the parts of
  the Rust standard library that several components use (checked and saturating integer arithmetic,
  big-endian byte conversion, slices, \<open>Result\<close> with the question-mark operator, \<open>BinaryHeap\<close>,
  \<open>BTreeMap\<close>), and states the interfaces that more than one component provides:

  \<^item> \<open>fixed_codec\<close>: a fixed-width byte encoding with its inverse;
  \<^item> \<open>at_most_once\<close>: an admission filter that never admits a key twice;
  \<^item> \<open>ranked_heap\<close>: a priority queue whose comparison is a rank on its contents;
  \<^item> \<open>op_machine\<close>: a state with operations that all keep an invariant.

  Interpretations on the components' own definitions stand in the theories of the components.
\<close>

named_theorems wire_simps \<open>lengths and slices of byte encodings\<close>
named_theorems machine_simps \<open>unfolding rules of Rust integer arithmetic\<close>

section \<open>Machine types\<close>

type_synonym u8 = "8 word"
type_synonym u16 = "16 word"
type_synonym u32 = "32 word"
type_synonym u64 = "64 word"
type_synonym bytes = "u8 list"

text \<open>
  \<open>usize\<close> values are lengths and indices of in-memory sequences and are modelled as \<open>nat\<close>.
  A cast of a length to a machine word (\<open>len as u64\<close>) is \<^term>\<open>word_of_nat\<close>.  Plain \<open>+\<close> on words
  wraps, which is what an optimised Rust build does (the workspace sets no \<open>overflow-checks\<close>).
\<close>

section \<open>Results and the question-mark operator\<close>

type_synonym ('a, 'e) result = "'e + 'a"

abbreviation Ok :: "'a \<Rightarrow> ('a, 'e) result" where "Ok \<equiv> Inr"
abbreviation Err :: "'e \<Rightarrow> ('a, 'e) result" where "Err \<equiv> Inl"

definition try_bind :: "('a, 'e) result \<Rightarrow> ('a \<Rightarrow> ('b, 'e) result) \<Rightarrow> ('b, 'e) result" where
  "try_bind r f = (case r of Inl e \<Rightarrow> Inl e | Inr a \<Rightarrow> f a)"

definition map_err :: "('e \<Rightarrow> 'f) \<Rightarrow> ('a, 'e) result \<Rightarrow> ('a, 'f) result" where
  "map_err g r = (case r of Inl e \<Rightarrow> Inl (g e) | Inr a \<Rightarrow> Inr a)"

definition ok_or :: "'a option \<Rightarrow> 'e \<Rightarrow> ('a, 'e) result" where
  "ok_or m e = (case m of None \<Rightarrow> Inl e | Some a \<Rightarrow> Inr a)"

definition is_ok :: "('a, 'e) result \<Rightarrow> bool" where
  "is_ok r = (case r of Inl _ \<Rightarrow> False | Inr _ \<Rightarrow> True)"

lemma try_bind_simps [simp]:
  "try_bind (Inl e) f = Inl e" "try_bind (Inr a) f = f a"
  by (simp_all add: try_bind_def)

lemma try_bind_eq_Ok: "try_bind r f = Inr b \<longleftrightarrow> (\<exists>a. r = Inr a \<and> f a = Inr b)"
  by (cases r) simp_all

lemma map_err_simps [simp]: "map_err g (Inl e) = Inl (g e)" "map_err g (Inr a) = Inr a"
  by (simp_all add: map_err_def)

lemma map_err_eq_Ok: "map_err g r = Inr a \<longleftrightarrow> r = Inr a"
  by (cases r) simp_all

lemma ok_or_simps [simp]: "ok_or None e = Inl e" "ok_or (Some a) e = Inr a"
  by (simp_all add: ok_or_def)

lemma ok_or_eq_Ok: "ok_or m e = Inr a \<longleftrightarrow> m = Some a"
  by (cases m) simp_all

lemma is_ok_simps [simp]: "\<not> is_ok (Inl e)" "is_ok (Inr a)"
  by (simp_all add: is_ok_def)

section \<open>Checked and saturating arithmetic\<close>

definition checked_sub :: "'a::len word \<Rightarrow> 'a word \<Rightarrow> 'a word option" where
  "checked_sub a b = (if b \<le> a then Some (a - b) else None)"

definition checked_add :: "'a::len word \<Rightarrow> 'a word \<Rightarrow> 'a word option" where
  "checked_add a b = (if unat a + unat b < 2 ^ LENGTH('a) then Some (a + b) else None)"

definition saturating_sub :: "'a::len word \<Rightarrow> 'a word \<Rightarrow> 'a word" where
  "saturating_sub a b = (if b \<le> a then a - b else 0)"

definition saturating_add :: "'a::len word \<Rightarrow> 'a word \<Rightarrow> 'a word" where
  "saturating_add a b = (if unat a + unat b < 2 ^ LENGTH('a) then a + b else - 1)"

lemma unat_saturating_sub [machine_simps]: "unat (saturating_sub a b) = unat a - unat b"
  by (simp add: saturating_sub_def unat_sub word_le_nat_alt)

lemma unat_less_exp: "unat w < 2 ^ LENGTH('a)" for w :: "'a::len word"
  by (rule unsigned_less)

lemma unat_le_max [simp]: "unat w \<le> 2 ^ LENGTH('a) - Suc 0" for w :: "'a::len word"
  using unat_less_exp [of w] by linarith

lemma unat_ucast_small:
  "unat w < 2 ^ LENGTH('b) \<Longrightarrow> unat (ucast w :: 'b::len word) = unat w" for w :: "'a::len word"
  by (simp add: unsigned_ucast_eq take_bit_nat_eq_self)

lemma ucast_ucast_small:
  assumes "unat w < 2 ^ LENGTH('b)"
  shows "ucast (ucast w :: 'b::len word) = (w :: 'a::len word)"
proof -
  have "unat (ucast (ucast w :: 'b word) :: 'a word) = unat w"
    using assms unat_less_exp [of w] by (simp add: unat_ucast_small)
  then show ?thesis by (rule unsigned_word_eqI)
qed

lemma unat_add_no_overflow:
  "unat a + unat b < 2 ^ LENGTH('a) \<Longrightarrow> unat (a + b) = unat a + unat b" for a b :: "'a::len word"
  by (simp add: unat_word_ariths)

lemma unat_mult_no_overflow:
  "unat a * unat b < 2 ^ LENGTH('a) \<Longrightarrow> unat (a * b) = unat a * unat b" for a b :: "'a::len word"
  by (simp add: unat_word_ariths)

lemma unat_saturating_add [machine_simps]:
  "unat (saturating_add a b) = min (unat a + unat b) (2 ^ LENGTH('a) - 1)" for a b :: "'a::len word"
proof (cases "unat a + unat b < 2 ^ LENGTH('a)")
  case True
  then show ?thesis by (simp add: saturating_add_def unat_add_no_overflow)
next
  case False
  then show ?thesis by (simp add: saturating_add_def unsigned_minus_1_eq_mask mask_eq_exp_minus_1)
qed

lemma checked_add_Some:
  "checked_add a b = Some c \<longleftrightarrow> unat a + unat b < 2 ^ LENGTH('a) \<and> c = a + b"
  for a b c :: "'a::len word"
  by (auto simp: checked_add_def)

lemma checked_sub_Some: "checked_sub a b = Some c \<longleftrightarrow> b \<le> a \<and> c = a - b"
  by (auto simp: checked_sub_def)

lemma unat_checked_sub: "checked_sub a b = Some c \<Longrightarrow> unat c = unat a - unat b \<and> unat b \<le> unat a"
  by (auto simp: checked_sub_Some unat_sub word_le_nat_alt)

section \<open>Slices and big-endian conversion\<close>

text \<open>\<open>rslice a b xs\<close> is \<open>xs[a..b]\<close>; every use is guarded by a length check, as in the code.\<close>

definition rslice :: "nat \<Rightarrow> nat \<Rightarrow> 'a list \<Rightarrow> 'a list" where
  "rslice a b xs = take (b - a) (drop a xs)"

lemma length_slice [wire_simps]: "b \<le> length xs \<Longrightarrow> length (rslice a b xs) = b - a"
  by (simp add: rslice_def)

lemma slice_append_drop: "a \<le> b \<Longrightarrow> rslice a b xs @ drop b xs = drop a xs"
  using append_take_drop_id [of "b - a" "drop a xs"] by (simp add: rslice_def)

lemma slice_join: "a \<le> b \<Longrightarrow> b \<le> c \<Longrightarrow> rslice a b xs @ rslice b c xs = rslice a c xs"
  using take_add [of "b - a" "c - b" "drop a xs"] by (simp add: rslice_def)

lemma rslice_skip: "length a \<le> i \<Longrightarrow> rslice i j (a @ b) = rslice (i - length a) (j - length a) b"
  by (simp add: rslice_def)

lemma rslice_head: "j = length a \<Longrightarrow> rslice 0 j (a @ b) = a"
  by (simp add: rslice_def)

lemma rslice_all: "j = length a \<Longrightarrow> rslice 0 j a = a"
  by (simp add: rslice_def)

lemma rslice_Cons: "0 < i \<Longrightarrow> rslice i j (x # xs) = rslice (i - 1) (j - 1) xs"
  by (cases i) (simp_all add: rslice_def)

lemmas rslice_parse = rslice_skip rslice_head rslice_all rslice_Cons

lemma rslice_take: "j \<le> n \<Longrightarrow> rslice i j (take n a) = rslice i j a"
  by (simp add: rslice_def min_def drop_take)

text \<open>\<open>be_digits n x\<close>: the \<open>n\<close> low base-256 digits of \<open>x\<close>, most significant first.\<close>

fun be_digits :: "nat \<Rightarrow> nat \<Rightarrow> bytes" where
  "be_digits 0 x = []"
| "be_digits (Suc n) x = be_digits n (x div 256) @ [word_of_nat x]"

definition be_value :: "bytes \<Rightarrow> nat" where
  "be_value bs = foldl (\<lambda>a b. a * 256 + unat b) 0 bs"

definition to_be :: "nat \<Rightarrow> 'a::len word \<Rightarrow> bytes" where
  "to_be n w = be_digits n (unat w)"

definition of_be :: "bytes \<Rightarrow> 'a::len word" where
  "of_be bs = word_of_nat (be_value bs)"

lemma be_value_simps [simp]:
  "be_value [] = 0" "be_value (bs @ [b]) = be_value bs * 256 + unat b"
  by (simp_all add: be_value_def)

lemma length_be_digits [simp]: "length (be_digits n x) = n"
  by (induction n arbitrary: x) simp_all

lemma be_value_digits: "be_value (be_digits n x) = x mod 256 ^ n"
proof (induction n arbitrary: x)
  case (Suc n)
  have "x mod 256 ^ Suc n = 256 * (x div 256 mod 256 ^ n) + x mod 256"
    by (simp add: mod_mult2_eq)
  with Suc show ?case by (simp add: unat_of_nat)
qed simp

lemma be_value_less: "be_value bs < 256 ^ length bs"
proof (induction bs rule: rev_induct)
  case (snoc b bs)
  have "unat b < 256" using unat_less_exp [of b] by simp
  with snoc show ?case by simp
qed simp

lemma be_digits_value: "be_digits (length bs) (be_value bs) = bs"
proof (induction bs rule: rev_induct)
  case (snoc b bs)
  have b: "unat b < 256" using unat_less_exp [of b] by simp
  then have "(be_value bs * 256 + unat b) div 256 = be_value bs" by simp
  moreover have "(word_of_nat (be_value bs * 256 + unat b) :: u8) = b"
  proof -
    have "(256 :: u8) = 0" by simp
    then show ?thesis by (simp only: of_nat_add of_nat_mult of_nat_numeral) simp
  qed
  ultimately show ?case using snoc by simp
qed simp

lemma length_to_be [simp, wire_simps]: "length (to_be n w) = n"
  by (simp add: to_be_def)

lemma of_be_to_be:
  assumes "LENGTH('a) = 8 * n"
  shows "of_be (to_be n w) = (w :: 'a::len word)"
proof -
  have "(256 :: nat) ^ n = 2 ^ LENGTH('a)" by (simp add: assms power_mult)
  then show ?thesis
    using unat_less_exp [of w] by (simp add: of_be_def to_be_def be_value_digits)
qed

lemma to_be_of_be:
  assumes "LENGTH('a) = 8 * n" "length bs = n"
  shows "to_be n (of_be bs :: 'a::len word) = bs"
proof -
  have "(256 :: nat) ^ n = 2 ^ LENGTH('a)" by (simp add: assms(1) power_mult)
  then have "unat (of_be bs :: 'a word) = be_value bs"
    using be_value_less [of bs] assms(2) by (simp add: of_be_def unat_of_nat)
  then show ?thesis using be_digits_value [of bs] assms(2) by (simp add: to_be_def)
qed

section \<open>Interface: fixed-width codecs\<close>

locale fixed_codec =
  fixes enc :: "'a \<Rightarrow> 'b list" and dec :: "'b list \<Rightarrow> 'a" and width :: nat
  assumes length_enc: "length (enc x) = width"
    and dec_enc: "dec (enc x) = x"
    and enc_dec: "length bs = width \<Longrightarrow> enc (dec bs) = bs"
begin

lemma enc_inject: "enc x = enc y \<longleftrightarrow> x = y"
  by (metis dec_enc)

lemma dec_prefix: "dec (take width (enc x @ rest)) = x"
  by (simp add: length_enc dec_enc)

lemma dec_slice: "length pre = a \<Longrightarrow> b = a + width \<Longrightarrow> dec (rslice a b (pre @ enc x @ rest)) = x"
  by (simp add: rslice_def length_enc dec_enc)

lemma enc_slice: "b = a + width \<Longrightarrow> b \<le> length bs \<Longrightarrow> enc (dec (rslice a b bs)) = rslice a b bs"
  by (simp add: enc_dec length_slice)

end

interpretation be16: fixed_codec "to_be 2 :: u16 \<Rightarrow> bytes" of_be 2
  by unfold_locales (simp_all add: of_be_to_be to_be_of_be)

interpretation be32: fixed_codec "to_be 4 :: u32 \<Rightarrow> bytes" of_be 4
  by unfold_locales (simp_all add: of_be_to_be to_be_of_be)

interpretation be64: fixed_codec "to_be 8 :: u64 \<Rightarrow> bytes" of_be 8
  by unfold_locales (simp_all add: of_be_to_be to_be_of_be)

lemmas be_dec_enc [wire_simps] = be16.dec_enc be32.dec_enc be64.dec_enc

section \<open>Interface: at-most-once admission\<close>

text \<open>
  A guarded receiver handles one item per step and may report the key it accepted.  Its contract: an
  accepted key was not burnt before, is burnt afterwards, and burnt keys stay burnt.
\<close>

fun accepted_keys :: "('s \<Rightarrow> 'i \<Rightarrow> 's \<times> 'k option) \<Rightarrow> 's \<Rightarrow> 'i list \<Rightarrow> 'k list" where
  "accepted_keys step s [] = []"
| "accepted_keys step s (i # is) =
     (case step s i of (s', None) \<Rightarrow> accepted_keys step s' is
      | (s', Some k) \<Rightarrow> k # accepted_keys step s' is)"

locale at_most_once =
  fixes step :: "'s \<Rightarrow> 'i \<Rightarrow> 's \<times> 'k option" and burnt :: "'s \<Rightarrow> 'k \<Rightarrow> bool"
    and inv :: "'s \<Rightarrow> bool"
  assumes accept_fresh: "inv s \<Longrightarrow> step s i = (s', Some k) \<Longrightarrow> \<not> burnt s k"
    and accept_burns: "inv s \<Longrightarrow> step s i = (s', Some k) \<Longrightarrow> burnt s' k"
    and burnt_mono: "inv s \<Longrightarrow> step s i = (s', r) \<Longrightarrow> burnt s k \<Longrightarrow> burnt s' k"
    and step_inv: "inv s \<Longrightarrow> step s i = (s', r) \<Longrightarrow> inv s'"
begin

lemma accepted_not_burnt: "inv s \<Longrightarrow> k \<in> set (accepted_keys step s is) \<Longrightarrow> \<not> burnt s k"
proof (induction "is" arbitrary: s)
  case (Cons i "is")
  obtain s' r where st: "step s i = (s', r)" by force
  from Cons.prems(1) st have inv': "inv s'" by (rule step_inv)
  from Cons.prems(2) st have "r = Some k \<or> k \<in> set (accepted_keys step s' is)"
    by (auto split: option.splits)
  then show ?case
  proof
    assume "r = Some k"
    with st Cons.prems(1) show ?thesis by (metis accept_fresh)
  next
    assume "k \<in> set (accepted_keys step s' is)"
    with Cons.IH inv' have "\<not> burnt s' k" by blast
    with st Cons.prems(1) show ?thesis by (metis burnt_mono)
  qed
qed simp

theorem accepted_distinct: "inv s \<Longrightarrow> distinct (accepted_keys step s is)"
proof (induction "is" arbitrary: s)
  case (Cons i "is")
  obtain s' r where st: "step s i = (s', r)" by force
  from Cons.prems st have inv': "inv s'" by (rule step_inv)
  show ?case
  proof (cases r)
    case (Some k)
    then have "burnt s' k" using accept_burns Cons.prems st by blast
    then have "k \<notin> set (accepted_keys step s' is)" using accepted_not_burnt inv' by blast
    with Some st Cons.IH inv' show ?thesis by simp
  qed (use st Cons.IH inv' in simp)
qed simp

end

section \<open>Chunks\<close>

text \<open>\<open>slice::chunks\<close>: pieces of \<open>n\<close> elements, the last one possibly shorter.\<close>

definition chunks_of :: "nat \<Rightarrow> 'a list \<Rightarrow> 'a list list" where
  "chunks_of n bs = map (\<lambda>i. take n (drop (n * i) bs)) [0..<(length bs + n - 1) div n]"

lemma length_chunks_of: "length (chunks_of n bs) = (length bs + n - 1) div n"
  by (simp add: chunks_of_def)

lemma concat_chunks:
  "concat (map (\<lambda>i. take n (drop (n * i) bs)) [0..<k]) = take (n * k) bs"
proof (induction k)
  case (Suc k)
  have "take (n * Suc k) bs = take (n * k) bs @ take n (drop (n * k) bs)"
    using take_add [of "n * k" n bs] by (simp add: add.commute)
  with Suc show ?case by simp
qed simp

lemma concat_chunks_of:
  assumes "0 < n"
  shows "concat (chunks_of n bs) = bs"
proof -
  have "n * ((length bs + n - 1) div n) + (length bs + n - 1) mod n = length bs + n - 1"
    by (simp add: mult.commute)
  moreover have "(length bs + n - 1) mod n < n" using assms by simp
  ultimately have "length bs \<le> n * ((length bs + n - 1) div n)" by linarith
  then show ?thesis by (simp add: chunks_of_def concat_chunks)
qed

lemma chunk_length:
  assumes "0 < n" "i < length (chunks_of n bs)"
  shows "0 < length (chunks_of n bs ! i)" "length (chunks_of n bs ! i) \<le> n"
proof -
  have "Suc i \<le> (length bs + n - 1) div n" using assms(2) by (simp add: length_chunks_of)
  then have "Suc i * n \<le> length bs + n - 1" using assms(1) by (simp only: less_eq_div_iff_mult_less_eq)
  then have "n * i < length bs" using assms(1) by (simp add: mult.commute)
  then show "0 < length (chunks_of n bs ! i)" "length (chunks_of n bs ! i) \<le> n"
    using assms by (simp_all add: chunks_of_def)
qed

section \<open>Interface: operations that keep an invariant\<close>

locale op_machine =
  fixes step :: "'s \<Rightarrow> 'op \<Rightarrow> 's" and inv :: "'s \<Rightarrow> bool"
  assumes keeps: "inv s \<Longrightarrow> inv (step s x)"
begin

lemma run_inv: "inv s \<Longrightarrow> inv (foldl step s xs)"
  by (induction xs arbitrary: s) (auto intro: keeps)

lemma prefix_inv: "inv s \<Longrightarrow> inv (foldl step s (take n xs))"
  by (rule run_inv)

end

section \<open>\<open>BinaryHeap\<close>: a priority queue by comparison\<close>

text \<open>
  The heap is modelled by the list of its elements; \<open>lt\<close> is the element type's \<open>Ord\<close>.  \<open>peek\<close> and
  \<open>pop\<close> yield a greatest element.  Where several elements are greatest the library leaves the choice
  open and the model takes the first; no theorem about a component depends on that choice.
\<close>

fun heap_peek :: "('a \<Rightarrow> 'a \<Rightarrow> bool) \<Rightarrow> 'a list \<Rightarrow> 'a option" where
  "heap_peek lt [] = None"
| "heap_peek lt (x # xs) = Some (foldl (\<lambda>m y. if lt m y then y else m) x xs)"

definition heap_pop :: "('a \<Rightarrow> 'a \<Rightarrow> bool) \<Rightarrow> 'a list \<Rightarrow> ('a \<times> 'a list) option" where
  "heap_pop lt h = (case heap_peek lt h of None \<Rightarrow> None | Some m \<Rightarrow> Some (m, remove1 m h))"

lemma heap_fold_in: "foldl (\<lambda>m y. if lt m y then y else m) x xs \<in> insert x (set xs)"
proof (induction xs arbitrary: x)
  case (Cons y ys)
  from Cons [of "if lt x y then y else x"] show ?case by (auto split: if_splits)
qed simp

lemma heap_peek_None [simp]: "heap_peek lt h = None \<longleftrightarrow> h = []"
  by (cases h) simp_all

lemma heap_peek_in: "heap_peek lt h = Some m \<Longrightarrow> m \<in> set h"
  using heap_fold_in by (cases h) fastforce+

lemma heap_pop_None [simp]: "heap_pop lt h = None \<longleftrightarrow> h = []"
  by (auto simp: heap_pop_def split: option.splits)

lemma heap_pop_Nil [simp]: "heap_pop lt [] = None"
  by simp

lemma heap_pop_Some:
  "heap_pop lt h = Some (m, h') \<longleftrightarrow> heap_peek lt h = Some m \<and> h' = remove1 m h"
  by (auto simp: heap_pop_def split: option.splits)

lemma heap_pop_mset: "heap_pop lt h = Some (m, h') \<Longrightarrow> mset h = add_mset m (mset h')"
  by (auto simp: heap_pop_Some dest: heap_peek_in)

lemma heap_pop_length: "heap_pop lt h = Some (m, h') \<Longrightarrow> length h = Suc (length h')"
  by (drule heap_pop_mset) (metis size_add_mset size_mset)

text \<open>
  When the comparison is the reverse of a rank on the contents, \<open>peek\<close> is an element of least rank.
\<close>

locale ranked_heap =
  fixes lt :: "'a \<Rightarrow> 'a \<Rightarrow> bool" and rank :: "'a \<Rightarrow> 'k::linorder" and carrier :: "'a set"
  assumes lt_rank: "x \<in> carrier \<Longrightarrow> y \<in> carrier \<Longrightarrow> lt x y \<longleftrightarrow> rank y < rank x"
begin

lemma fold_least:
  assumes "insert x (set xs) \<subseteq> carrier" "z \<in> insert x (set xs)"
  shows "rank (foldl (\<lambda>m y. if lt m y then y else m) x xs) \<le> rank z"
  using assms
proof (induction xs arbitrary: x z)
  case (Cons y ys)
  let ?n = "if lt x y then y else x"
  have sub: "insert ?n (set ys) \<subseteq> carrier" using Cons.prems(1) by auto
  have n: "rank ?n \<le> rank x" "rank ?n \<le> rank y" using Cons.prems(1) by (auto simp: lt_rank)
  have "rank (foldl (\<lambda>m y. if lt m y then y else m) ?n ys) \<le> rank ?n"
    using Cons.IH [OF sub] by blast
  moreover have "z \<in> set ys \<Longrightarrow> rank (foldl (\<lambda>m y. if lt m y then y else m) ?n ys) \<le> rank z"
    using Cons.IH [OF sub] by blast
  ultimately show ?case using Cons.prems(2) n by (auto intro: order_trans)
qed simp

theorem peek_least:
  "set h \<subseteq> carrier \<Longrightarrow> heap_peek lt h = Some m \<Longrightarrow> z \<in> set h \<Longrightarrow> rank m \<le> rank z"
  using fold_least by (cases h) auto

lemma pop_least:
  "set h \<subseteq> carrier \<Longrightarrow> heap_pop lt h = Some (m, h') \<Longrightarrow> z \<in> set h \<Longrightarrow> rank m \<le> rank z"
  by (auto simp: heap_pop_Some dest: peek_least)

end

section \<open>\<open>BTreeMap\<close> and \<open>HashMap\<close>\<close>

text \<open>
  A \<open>BTreeMap\<close> is the list of its entries in key order.  A \<open>HashMap\<close>, whose iteration order is
  unspecified, is an association list with distinct keys (\<^const>\<open>AList.update\<close>, \<^const>\<open>AList.delete\<close>).
\<close>

fun bt_insert :: "'k::linorder \<Rightarrow> 'v \<Rightarrow> ('k \<times> 'v) list \<Rightarrow> ('k \<times> 'v) list" where
  "bt_insert k v [] = [(k, v)]"
| "bt_insert k v ((a, b) # m) =
     (if k < a then (k, v) # (a, b) # m
      else if k = a then (k, v) # m
      else (a, b) # bt_insert k v m)"

definition bt_remove :: "'k \<Rightarrow> ('k \<times> 'v) list \<Rightarrow> ('k \<times> 'v) list" where
  "bt_remove k m = filter (\<lambda>e. fst e \<noteq> k) m"

definition bt_wf :: "('k::linorder \<times> 'v) list \<Rightarrow> bool" where
  "bt_wf m = sorted_wrt (<) (map fst m)"

lemma bt_wf_Nil [simp]: "bt_wf []"
  by (simp add: bt_wf_def)

lemma bt_wf_distinct: "bt_wf m \<Longrightarrow> distinct (map fst m)"
  by (simp add: bt_wf_def strict_sorted_iff)

lemma set_bt_insert: "fst ` set (bt_insert k v m) = insert k (fst ` set m)"
  by (induction k v m rule: bt_insert.induct) auto

lemma bt_wf_insert: "bt_wf m \<Longrightarrow> bt_wf (bt_insert k v m)"
proof (induction k v m rule: bt_insert.induct)
  case (2 k v a b m)
  then show ?case using set_bt_insert [of k v m] by (auto simp: bt_wf_def)
qed (simp add: bt_wf_def)

lemma bt_wf_filter: "bt_wf m \<Longrightarrow> bt_wf (filter P m)"
  by (induction m) (auto simp: bt_wf_def)

lemma bt_wf_remove: "bt_wf m \<Longrightarrow> bt_wf (bt_remove k m)"
  by (simp add: bt_remove_def bt_wf_filter)

lemma map_of_bt_insert: "bt_wf m \<Longrightarrow> map_of (bt_insert k v m) = (map_of m)(k \<mapsto> v)"
  by (induction k v m rule: bt_insert.induct) (auto simp: bt_wf_def fun_eq_iff)

lemma map_of_bt_remove: "map_of (bt_remove k m) = (map_of m)(k := None)"
  by (induction m) (auto simp: bt_remove_def fun_eq_iff)

lemma length_keys: "distinct (map fst m) \<Longrightarrow> length m = card (dom (map_of m))"
  by (simp add: dom_map_of_conv_image_fst) (metis distinct_card length_map list.set_map)

locale map_store =
  fixes wf :: "('k \<times> 'v) list \<Rightarrow> bool"
    and ins :: "'k \<Rightarrow> 'v \<Rightarrow> ('k \<times> 'v) list \<Rightarrow> ('k \<times> 'v) list"
    and rem :: "'k \<Rightarrow> ('k \<times> 'v) list \<Rightarrow> ('k \<times> 'v) list"
  assumes wf_distinct: "wf m \<Longrightarrow> distinct (map fst m)"
    and wf_empty: "wf []"
    and wf_ins: "wf m \<Longrightarrow> wf (ins k v m)"
    and wf_rem: "wf m \<Longrightarrow> wf (rem k m)"
    and get_ins: "wf m \<Longrightarrow> map_of (ins k v m) = (map_of m)(k \<mapsto> v)"
    and get_rem: "wf m \<Longrightarrow> map_of (rem k m) = (map_of m)(k := None)"
begin

lemma size_dom: "wf m \<Longrightarrow> length m = card (dom (map_of m))"
  by (simp add: length_keys wf_distinct)

lemma size_ins_new: "wf m \<Longrightarrow> map_of m k = None \<Longrightarrow> length (ins k v m) = Suc (length m)"
  by (simp add: size_dom wf_ins get_ins finite_dom_map_of) (simp add: card_insert_if domIff finite_dom_map_of)

lemma size_ins_old: "wf m \<Longrightarrow> map_of m k = Some w \<Longrightarrow> length (ins k v m) = length m"
  by (simp add: size_dom wf_ins get_ins) (simp add: insert_absorb domI)

lemma size_rem: "wf m \<Longrightarrow> length (rem k m) \<le> length m"
  by (simp add: size_dom wf_rem get_rem card_mono finite_dom_map_of)

lemma size_rem_old: "wf m \<Longrightarrow> map_of m k = Some v \<Longrightarrow> Suc (length (rem k m)) = length m"
  by (simp add: size_dom wf_rem get_rem)
    (metis card_Suc_Diff1 domI finite_dom_map_of)

lemma in_set_iff: "wf m \<Longrightarrow> (k, v) \<in> set m \<longleftrightarrow> map_of m k = Some v"
  by (simp add: wf_distinct)

end

interpretation btree: map_store bt_wf bt_insert bt_remove
  by unfold_locales
    (simp_all add: bt_wf_distinct bt_wf_insert bt_wf_remove map_of_bt_insert map_of_bt_remove)

definition hash_wf :: "('k \<times> 'v) list \<Rightarrow> bool" where
  "hash_wf m = distinct (map fst m)"

lemma set_update_subset: "set (AList.update a v s) \<subseteq> insert (a, v) (set s)"
  by (induction s) auto

interpretation hash: map_store hash_wf AList.update AList.delete
  by unfold_locales
    (simp_all add: hash_wf_def distinct_update distinct_delete update_conv' delete_conv')

end
