(* ===== verification/Frame_Timing.thy ===== *)
theory Frame_Timing
  imports Base
begin

text \<open>
  Frame timing checkpoints: \<open>protocol/src/timing.rs\<close> (the stages, the twelve checkpoints of a frame,
  the durations derived from them, the fixed-size wire forms, the trace spans) and the stamping rules of
  \<open>remote_core/src/timing.rs\<close> (host and client trackers, alignment of client clocks).

  An \<open>Instant\<close> is a \<open>nat\<close>, nanoseconds of a monotonic clock.  A clock reading is an argument of the
  operation that performs it.
\<close>

section \<open>Stages\<close>

datatype StageId =
    Capture | EncodeQueue | HardwareEncode | PacketizeEgress | NetworkTransit
  | IngressReassembly | JitterPacing | HardwareDecode | RenderPresentation

definition stage_all :: "StageId list" where
  "stage_all = [Capture, EncodeQueue, HardwareEncode, PacketizeEgress, NetworkTransit,
     IngressReassembly, JitterPacing, HardwareDecode, RenderPresentation]"

datatype TimingCodecError =
    BufferTooShort nat nat
  | InvalidStageId u8
  | InvalidTimestampSequence StageId u32 u32

fun stage_name :: "StageId \<Rightarrow> string" where
  "stage_name Capture = ''Capture''"
| "stage_name EncodeQueue = ''EncodeQueue''"
| "stage_name HardwareEncode = ''HardwareEncode''"
| "stage_name PacketizeEgress = ''PacketizeEgress''"
| "stage_name NetworkTransit = ''NetworkTransit''"
| "stage_name IngressReassembly = ''IngressReassembly''"
| "stage_name JitterPacing = ''JitterPacing''"
| "stage_name HardwareDecode = ''HardwareDecode''"
| "stage_name RenderPresentation = ''RenderPresentation''"

fun stage_wire_id :: "StageId \<Rightarrow> u8" where
  "stage_wire_id Capture = 0"
| "stage_wire_id EncodeQueue = 1"
| "stage_wire_id HardwareEncode = 2"
| "stage_wire_id PacketizeEgress = 3"
| "stage_wire_id NetworkTransit = 4"
| "stage_wire_id IngressReassembly = 5"
| "stage_wire_id JitterPacing = 6"
| "stage_wire_id HardwareDecode = 7"
| "stage_wire_id RenderPresentation = 8"

definition stage_from_wire_id :: "u8 \<Rightarrow> (StageId, TimingCodecError) result" where
  "stage_from_wire_id wid =
     (if wid = 0 then Ok Capture else if wid = 1 then Ok EncodeQueue
      else if wid = 2 then Ok HardwareEncode else if wid = 3 then Ok PacketizeEgress
      else if wid = 4 then Ok NetworkTransit else if wid = 5 then Ok IngressReassembly
      else if wid = 6 then Ok JitterPacing else if wid = 7 then Ok HardwareDecode
      else if wid = 8 then Ok RenderPresentation else Err (InvalidStageId wid))"

definition stage_is_host :: "StageId \<Rightarrow> bool" where
  "stage_is_host s = (s \<in> {Capture, EncodeQueue, HardwareEncode, PacketizeEgress})"

definition stage_is_network :: "StageId \<Rightarrow> bool" where
  "stage_is_network s = (s = NetworkTransit)"

definition stage_is_client :: "StageId \<Rightarrow> bool" where
  "stage_is_client s =
     (s \<in> {IngressReassembly, JitterPacing, HardwareDecode, RenderPresentation})"

section \<open>Checkpoints and durations\<close>

record FrameTimingCheckpoints =
  capture_ts_us :: u64
  encode_queue_ts_us :: u32
  encode_done_ts_us :: u32
  packetize_ts_us :: u32
  send_ts_us :: u32
  recv_ts_us :: u32
  jitter_enter_ts_us :: u32
  jitter_exit_ts_us :: u32
  decode_enter_ts_us :: u32
  decode_done_ts_us :: u32
  render_submit_ts_us :: u32
  render_done_ts_us :: u32

definition checkpoints_new :: "u64 \<Rightarrow> FrameTimingCheckpoints" where
  "checkpoints_new ts = \<lparr>capture_ts_us = ts, encode_queue_ts_us = 0, encode_done_ts_us = 0,
     packetize_ts_us = 0, send_ts_us = 0, recv_ts_us = 0, jitter_enter_ts_us = 0,
     jitter_exit_ts_us = 0, decode_enter_ts_us = 0, decode_done_ts_us = 0,
     render_submit_ts_us = 0, render_done_ts_us = 0\<rparr>"

definition capture_duration_us :: "FrameTimingCheckpoints \<Rightarrow> u32 option" where
  "capture_duration_us t =
     (if encode_queue_ts_us t > 0 then Some (encode_queue_ts_us t) else None)"

definition encode_queue_duration_us :: "FrameTimingCheckpoints \<Rightarrow> u32 option" where
  "encode_queue_duration_us t =
     (if encode_done_ts_us t > 0 \<and> encode_queue_ts_us t > 0
      then Some (saturating_sub (encode_done_ts_us t) (encode_queue_ts_us t)) else None)"

definition hardware_encode_duration_us :: "FrameTimingCheckpoints \<Rightarrow> u32 option" where
  "hardware_encode_duration_us t =
     (if encode_done_ts_us t > 0 \<and> encode_queue_ts_us t > 0
      then Some (saturating_sub (encode_done_ts_us t) (encode_queue_ts_us t))
      else if encode_done_ts_us t > 0 then Some (encode_done_ts_us t) else None)"

definition packetize_egress_duration_us :: "FrameTimingCheckpoints \<Rightarrow> u32 option" where
  "packetize_egress_duration_us t =
     (if send_ts_us t > 0 \<and> encode_done_ts_us t > 0
      then Some (saturating_sub (send_ts_us t) (encode_done_ts_us t)) else None)"

definition network_transit_duration_us :: "FrameTimingCheckpoints \<Rightarrow> u32 option" where
  "network_transit_duration_us t =
     (if recv_ts_us t > 0 \<and> send_ts_us t > 0
      then Some (saturating_sub (recv_ts_us t) (send_ts_us t)) else None)"

definition ingress_reassembly_duration_us :: "FrameTimingCheckpoints \<Rightarrow> u32 option" where
  "ingress_reassembly_duration_us t =
     (if jitter_enter_ts_us t > 0 \<and> recv_ts_us t > 0
      then Some (saturating_sub (jitter_enter_ts_us t) (recv_ts_us t)) else None)"

definition jitter_pacing_duration_us :: "FrameTimingCheckpoints \<Rightarrow> u32 option" where
  "jitter_pacing_duration_us t =
     (if jitter_exit_ts_us t > 0 \<and> jitter_enter_ts_us t > 0
      then Some (saturating_sub (jitter_exit_ts_us t) (jitter_enter_ts_us t)) else None)"

definition hardware_decode_duration_us :: "FrameTimingCheckpoints \<Rightarrow> u32 option" where
  "hardware_decode_duration_us t =
     (if decode_done_ts_us t > 0 \<and> decode_enter_ts_us t > 0
      then Some (saturating_sub (decode_done_ts_us t) (decode_enter_ts_us t)) else None)"

definition render_presentation_duration_us :: "FrameTimingCheckpoints \<Rightarrow> u32 option" where
  "render_presentation_duration_us t =
     (if render_done_ts_us t > 0 \<and> render_submit_ts_us t > 0
      then Some (saturating_sub (render_done_ts_us t) (render_submit_ts_us t)) else None)"

fun stage_duration_us :: "FrameTimingCheckpoints \<Rightarrow> StageId \<Rightarrow> u32 option" where
  "stage_duration_us t Capture = capture_duration_us t"
| "stage_duration_us t EncodeQueue = encode_queue_duration_us t"
| "stage_duration_us t HardwareEncode = hardware_encode_duration_us t"
| "stage_duration_us t PacketizeEgress = packetize_egress_duration_us t"
| "stage_duration_us t NetworkTransit = network_transit_duration_us t"
| "stage_duration_us t IngressReassembly = ingress_reassembly_duration_us t"
| "stage_duration_us t JitterPacing = jitter_pacing_duration_us t"
| "stage_duration_us t HardwareDecode = hardware_decode_duration_us t"
| "stage_duration_us t RenderPresentation = render_presentation_duration_us t"

definition host_pipeline_duration_us :: "FrameTimingCheckpoints \<Rightarrow> u32 option" where
  "host_pipeline_duration_us t = (if send_ts_us t > 0 then Some (send_ts_us t) else None)"

definition client_pipeline_duration_us :: "FrameTimingCheckpoints \<Rightarrow> u32 option" where
  "client_pipeline_duration_us t =
     (if render_done_ts_us t > 0 \<and> recv_ts_us t > 0
      then Some (saturating_sub (render_done_ts_us t) (recv_ts_us t)) else None)"

definition total_e2e_duration_us :: "FrameTimingCheckpoints \<Rightarrow> u32 option" where
  "total_e2e_duration_us t =
     (if render_done_ts_us t > 0 then Some (render_done_ts_us t) else None)"

section \<open>Wire forms\<close>

definition FRAME_TIMING_CHECKPOINTS_WIRE_LEN :: nat where
  "FRAME_TIMING_CHECKPOINTS_WIRE_LEN = 52"

definition HOST_TIMING_WIRE_LEN :: nat where
  "HOST_TIMING_WIRE_LEN = 24"

definition to_wire_bytes :: "FrameTimingCheckpoints \<Rightarrow> bytes" where
  "to_wire_bytes t =
     to_be 8 (capture_ts_us t) @ to_be 4 (encode_queue_ts_us t) @ to_be 4 (encode_done_ts_us t) @
     to_be 4 (packetize_ts_us t) @ to_be 4 (send_ts_us t) @ to_be 4 (recv_ts_us t) @
     to_be 4 (jitter_enter_ts_us t) @ to_be 4 (jitter_exit_ts_us t) @
     to_be 4 (decode_enter_ts_us t) @ to_be 4 (decode_done_ts_us t) @
     to_be 4 (render_submit_ts_us t) @ to_be 4 (render_done_ts_us t)"

definition from_wire_bytes :: "bytes \<Rightarrow> (FrameTimingCheckpoints, TimingCodecError) result" where
  "from_wire_bytes bs =
     (if length bs < FRAME_TIMING_CHECKPOINTS_WIRE_LEN
      then Err (BufferTooShort FRAME_TIMING_CHECKPOINTS_WIRE_LEN (length bs))
      else Ok \<lparr>capture_ts_us = of_be (rslice 0 8 bs), encode_queue_ts_us = of_be (rslice 8 12 bs),
        encode_done_ts_us = of_be (rslice 12 16 bs), packetize_ts_us = of_be (rslice 16 20 bs),
        send_ts_us = of_be (rslice 20 24 bs), recv_ts_us = of_be (rslice 24 28 bs),
        jitter_enter_ts_us = of_be (rslice 28 32 bs), jitter_exit_ts_us = of_be (rslice 32 36 bs),
        decode_enter_ts_us = of_be (rslice 36 40 bs), decode_done_ts_us = of_be (rslice 40 44 bs),
        render_submit_ts_us = of_be (rslice 44 48 bs), render_done_ts_us = of_be (rslice 48 52 bs)\<rparr>)"

definition to_host_wire_bytes :: "FrameTimingCheckpoints \<Rightarrow> bytes" where
  "to_host_wire_bytes t =
     to_be 8 (capture_ts_us t) @ to_be 4 (encode_queue_ts_us t) @ to_be 4 (encode_done_ts_us t) @
     to_be 4 (packetize_ts_us t) @ to_be 4 (send_ts_us t)"

definition from_host_wire_bytes :: "bytes \<Rightarrow> (FrameTimingCheckpoints, TimingCodecError) result" where
  "from_host_wire_bytes bs =
     (if length bs < HOST_TIMING_WIRE_LEN
      then Err (BufferTooShort HOST_TIMING_WIRE_LEN (length bs))
      else Ok \<lparr>capture_ts_us = of_be (rslice 0 8 bs), encode_queue_ts_us = of_be (rslice 8 12 bs),
        encode_done_ts_us = of_be (rslice 12 16 bs), packetize_ts_us = of_be (rslice 16 20 bs),
        send_ts_us = of_be (rslice 20 24 bs), recv_ts_us = 0, jitter_enter_ts_us = 0,
        jitter_exit_ts_us = 0, decode_enter_ts_us = 0, decode_done_ts_us = 0,
        render_submit_ts_us = 0, render_done_ts_us = 0\<rparr>)"

section \<open>Trace spans\<close>

record TraceSpan =
  span_name :: string
  span_cat :: string
  span_ph :: char
  span_ts_us :: u64
  span_dur_us :: u64
  span_pid :: u32
  span_tid :: u32

text \<open>Decimal printing of an integer, as \<open>format!\<close> does it.\<close>

fun dec_string :: "nat \<Rightarrow> string" where
  "dec_string n = (if n < 10 then [char_of (48 + n)]
     else dec_string (n div 10) @ [char_of (48 + n mod 10)])"

declare dec_string.simps [simp del]

definition add_span :: "u64 \<Rightarrow> u64 \<Rightarrow> u32 \<Rightarrow> string \<Rightarrow> string \<Rightarrow> u32 \<Rightarrow> u32 \<Rightarrow> TraceSpan list" where
  "add_span base_ts frame_id session_id name cat start_offset end_offset =
     (if end_offset > start_offset
      then [\<lparr>span_name = name @ '' (F#'' @ dec_string (unat frame_id) @ '')'', span_cat = cat,
             span_ph = CHR ''X'', span_ts_us = base_ts + ucast start_offset,
             span_dur_us = ucast (end_offset - start_offset), span_pid = session_id, span_tid = 1\<rparr>]
      else [])"

definition to_trace_spans :: "FrameTimingCheckpoints \<Rightarrow> u64 \<Rightarrow> u32 \<Rightarrow> TraceSpan list" where
  "to_trace_spans t frame_id session_id =
     (let add = add_span (capture_ts_us t) frame_id session_id in
      add ''S1_Capture'' ''host.video'' 0 (encode_queue_ts_us t) @
      add ''S2_HardwareEncode'' ''host.video'' (encode_queue_ts_us t) (encode_done_ts_us t) @
      add ''S3_PacketizeEgress'' ''host.net'' (encode_done_ts_us t) (send_ts_us t) @
      add ''S4_NetworkTransit'' ''network'' (send_ts_us t) (recv_ts_us t) @
      add ''S5_IngressReassembly'' ''client.net'' (recv_ts_us t) (jitter_enter_ts_us t) @
      add ''S6_JitterPacing'' ''client.video'' (jitter_enter_ts_us t) (jitter_exit_ts_us t) @
      add ''S7_HardwareDecode'' ''client.video'' (decode_enter_ts_us t) (decode_done_ts_us t) @
      add ''S8_RenderPresentation'' ''client.gpu'' (render_submit_ts_us t) (render_done_ts_us t))"

section \<open>Clocks, alignment and trackers\<close>

record HighPrecisionClock =
  anchor_instant :: nat
  anchor_epoch_us :: u64

text \<open>
  \<open>u32::try_from(d).unwrap_or(u32::MAX)\<close> and the 64-bit form, for a duration in microseconds.
\<close>

definition try_from_or_max :: "nat \<Rightarrow> 'a::len word" where
  "try_from_or_max d = (if d < 2 ^ LENGTH('a) then word_of_nat d else - 1)"

definition now_epoch_us :: "HighPrecisionClock \<Rightarrow> nat \<Rightarrow> u64" where
  "now_epoch_us c now_inst =
     saturating_add (anchor_epoch_us c) (try_from_or_max ((now_inst - anchor_instant c) div 1000))"

definition delta_us :: "nat \<Rightarrow> nat \<Rightarrow> u32" where
  "delta_us start end_inst = try_from_or_max ((end_inst - start) div 1000)"

record HostFrameTracker =
  hft_clock :: HighPrecisionClock
  hft_capture_instant :: nat
  hft_checkpoints :: FrameTimingCheckpoints

definition host_start :: "HighPrecisionClock \<Rightarrow> nat \<Rightarrow> nat \<Rightarrow> HostFrameTracker" where
  "host_start c now1 now2 = \<lparr>hft_clock = c, hft_capture_instant = now1,
     hft_checkpoints = checkpoints_new (now_epoch_us c now2)\<rparr>"

definition host_with_checkpoints ::
  "FrameTimingCheckpoints \<Rightarrow> HighPrecisionClock \<Rightarrow> nat \<Rightarrow> HostFrameTracker" where
  "host_with_checkpoints t c now =
     \<lparr>hft_clock = c, hft_capture_instant = now, hft_checkpoints = t\<rparr>"

definition mark_encode_queue :: "nat \<Rightarrow> HostFrameTracker \<Rightarrow> HostFrameTracker" where
  "mark_encode_queue now h = h\<lparr>hft_checkpoints :=
     hft_checkpoints h\<lparr>encode_queue_ts_us := delta_us (hft_capture_instant h) now\<rparr>\<rparr>"

definition mark_encode_done :: "nat \<Rightarrow> HostFrameTracker \<Rightarrow> HostFrameTracker" where
  "mark_encode_done now h = h\<lparr>hft_checkpoints :=
     hft_checkpoints h\<lparr>encode_done_ts_us := delta_us (hft_capture_instant h) now\<rparr>\<rparr>"

definition mark_packetize :: "nat \<Rightarrow> HostFrameTracker \<Rightarrow> HostFrameTracker" where
  "mark_packetize now h = h\<lparr>hft_checkpoints :=
     hft_checkpoints h\<lparr>packetize_ts_us := delta_us (hft_capture_instant h) now\<rparr>\<rparr>"

definition mark_send :: "nat \<Rightarrow> HostFrameTracker \<Rightarrow> HostFrameTracker" where
  "mark_send now h = h\<lparr>hft_checkpoints :=
     hft_checkpoints h\<lparr>send_ts_us := delta_us (hft_capture_instant h) now\<rparr>\<rparr>"

text \<open>
  The \<open>i128\<close> arithmetic of \<open>aligned_client_offset_us\<close> cannot overflow and is done in \<open>int\<close>; the
  \<open>i64\<close> clock offset is a 64-bit word read by \<^const>\<open>sint\<close>.
\<close>

definition aligned_client_offset_us :: "u64 \<Rightarrow> u64 \<Rightarrow> 64 word \<Rightarrow> u32 \<Rightarrow> u32" where
  "aligned_client_offset_us capture client_now clock_offset min_offset =
     (let host_aligned = uint client_now + sint clock_offset;
          delta = max (uint min_offset) (min (host_aligned - uint capture) (2 ^ 32 - 1))
      in word_of_int delta)"

definition client_stage_offset_us :: "u64 \<Rightarrow> u64 \<Rightarrow> 64 word \<Rightarrow> u32" where
  "client_stage_offset_us capture client_now clock_offset =
     aligned_client_offset_us capture client_now clock_offset 0"

definition stamp_client_stage :: "FrameTimingCheckpoints \<Rightarrow> u64 \<Rightarrow> 64 word \<Rightarrow> u32" where
  "stamp_client_stage t client_now clock_offset =
     max (max (max (max (max (max (max
       (client_stage_offset_us (capture_ts_us t) client_now clock_offset)
       (recv_ts_us t)) (jitter_enter_ts_us t)) (jitter_exit_ts_us t)) (decode_enter_ts_us t))
       (decode_done_ts_us t)) (render_submit_ts_us t)) (render_done_ts_us t)"

definition advance_client_stage :: "u32 \<Rightarrow> u32 \<Rightarrow> u32" where
  "advance_client_stage previous_stage elapsed = saturating_add previous_stage elapsed"

record ClientFrameTracker =
  cft_clock :: HighPrecisionClock
  cft_recv_instant :: nat
  cft_checkpoints :: FrameTimingCheckpoints

definition client_start ::
  "FrameTimingCheckpoints \<Rightarrow> HighPrecisionClock \<Rightarrow> 64 word \<Rightarrow> nat \<Rightarrow> nat \<Rightarrow> ClientFrameTracker" where
  "client_start host_cp c clock_offset now1 now2 =
     \<lparr>cft_clock = c, cft_recv_instant = now1,
      cft_checkpoints = host_cp\<lparr>recv_ts_us :=
        aligned_client_offset_us (capture_ts_us host_cp) (now_epoch_us c now2) clock_offset
          (send_ts_us host_cp)\<rparr>\<rparr>"

definition client_with_recv ::
  "FrameTimingCheckpoints \<Rightarrow> HighPrecisionClock \<Rightarrow> nat \<Rightarrow> ClientFrameTracker" where
  "client_with_recv t c now = \<lparr>cft_clock = c, cft_recv_instant = now, cft_checkpoints = t\<rparr>"

definition client_offset :: "ClientFrameTracker \<Rightarrow> nat \<Rightarrow> u32" where
  "client_offset c now =
     saturating_add (recv_ts_us (cft_checkpoints c)) (delta_us (cft_recv_instant c) now)"

definition mark_jitter_enter :: "nat \<Rightarrow> ClientFrameTracker \<Rightarrow> ClientFrameTracker" where
  "mark_jitter_enter now c =
     c\<lparr>cft_checkpoints := cft_checkpoints c\<lparr>jitter_enter_ts_us := client_offset c now\<rparr>\<rparr>"

definition mark_jitter_exit :: "nat \<Rightarrow> ClientFrameTracker \<Rightarrow> ClientFrameTracker" where
  "mark_jitter_exit now c =
     c\<lparr>cft_checkpoints := cft_checkpoints c\<lparr>jitter_exit_ts_us := client_offset c now\<rparr>\<rparr>"

definition mark_decode_enter :: "nat \<Rightarrow> ClientFrameTracker \<Rightarrow> ClientFrameTracker" where
  "mark_decode_enter now c =
     c\<lparr>cft_checkpoints := cft_checkpoints c\<lparr>decode_enter_ts_us := client_offset c now\<rparr>\<rparr>"

definition mark_decode_done :: "nat \<Rightarrow> ClientFrameTracker \<Rightarrow> ClientFrameTracker" where
  "mark_decode_done now c =
     c\<lparr>cft_checkpoints := cft_checkpoints c\<lparr>decode_done_ts_us := client_offset c now\<rparr>\<rparr>"

definition mark_render_submit :: "nat \<Rightarrow> ClientFrameTracker \<Rightarrow> ClientFrameTracker" where
  "mark_render_submit now c =
     c\<lparr>cft_checkpoints := cft_checkpoints c\<lparr>render_submit_ts_us := client_offset c now\<rparr>\<rparr>"

definition mark_render_done :: "nat \<Rightarrow> ClientFrameTracker \<Rightarrow> ClientFrameTracker" where
  "mark_render_done now c =
     c\<lparr>cft_checkpoints := cft_checkpoints c\<lparr>render_done_ts_us := client_offset c now\<rparr>\<rparr>"

text \<open>
  One frame through both trackers, in the order of the stages: the host marks four checkpoints, the
  24-byte host form crosses the network, the client marks six.  \<open>h\<close> and \<open>k\<close> are the clock readings.
\<close>

definition host_frame :: "HighPrecisionClock \<Rightarrow> (nat \<Rightarrow> nat) \<Rightarrow> FrameTimingCheckpoints" where
  "host_frame c h = hft_checkpoints
     (mark_send (h 5) (mark_packetize (h 4) (mark_encode_done (h 3)
       (mark_encode_queue (h 2) (host_start c (h 0) (h 1))))))"

definition client_frame ::
  "FrameTimingCheckpoints \<Rightarrow> HighPrecisionClock \<Rightarrow> 64 word \<Rightarrow> (nat \<Rightarrow> nat) \<Rightarrow> FrameTimingCheckpoints" where
  "client_frame t c off k = cft_checkpoints
     (mark_render_done (k 7) (mark_render_submit (k 6) (mark_decode_done (k 5)
       (mark_decode_enter (k 4) (mark_jitter_exit (k 3) (mark_jitter_enter (k 2)
         (client_start t c off (k 0) (k 1))))))))"

definition ordered_checkpoints :: "FrameTimingCheckpoints \<Rightarrow> bool" where
  "ordered_checkpoints t = sorted
     [encode_queue_ts_us t, encode_done_ts_us t, packetize_ts_us t, send_ts_us t, recv_ts_us t,
      jitter_enter_ts_us t, jitter_exit_ts_us t, decode_enter_ts_us t, decode_done_ts_us t,
      render_submit_ts_us t, render_done_ts_us t]"

section \<open>Lemmas\<close>

lemma stage_wire_id_roundtrip: "stage_from_wire_id (stage_wire_id s) = Ok s"
  by (cases s) (simp_all add: stage_from_wire_id_def)

lemma stage_from_wire_id_Ok: "stage_from_wire_id w = Ok s \<Longrightarrow> stage_wire_id s = w"
  by (auto simp: stage_from_wire_id_def split: if_splits)

lemma unat_try_from_or_max:
  "unat (try_from_or_max d :: 'a::len word) = min d (2 ^ LENGTH('a) - 1)"
  by (auto simp: try_from_or_max_def unat_of_nat unsigned_minus_1_eq_mask mask_eq_exp_minus_1)

lemma delta_us_mono: "a \<le> b \<Longrightarrow> delta_us s a \<le> delta_us s b"
  by (auto simp: delta_us_def word_le_nat_alt unat_try_from_or_max min_def
      intro: div_le_mono diff_le_mono dest: div_le_mono [of "a - s" "b - s" 1000, OF diff_le_mono])

lemma saturating_add_mono: "b \<le> c \<Longrightarrow> saturating_add a b \<le> saturating_add a c"
  by (auto simp: word_le_nat_alt unat_saturating_add)

lemma saturating_add_ge: "a \<le> saturating_add a b"
  by (simp add: word_le_nat_alt unat_saturating_add)

lemma uint_aligned_client_offset:
  "uint (aligned_client_offset_us cap now off mn) =
     max (uint mn) (min (uint now + sint off - uint cap) (2 ^ 32 - 1))"
proof -
  let ?d = "max (uint mn) (min (uint now + sint off - uint cap) (2 ^ 32 - 1))"
  have "0 \<le> ?d" by (simp add: le_max_iff_disj)
  moreover have "uint mn < 2 ^ 32" using uint_bounded [of mn] by simp
  then have "?d < 2 ^ 32" by auto
  ultimately show ?thesis
    unfolding aligned_client_offset_us_def Let_def by (simp add: uint_word_of_int mod_pos_pos_trivial)
qed

lemma aligned_client_offset_ge: "mn \<le> aligned_client_offset_us cap now off mn"
  by (simp add: word_le_def uint_aligned_client_offset)

lemma client_offset_mono: "a \<le> b \<Longrightarrow> client_offset c a \<le> client_offset c b"
  by (simp add: client_offset_def saturating_add_mono delta_us_mono)

lemma client_offset_ge: "recv_ts_us (cft_checkpoints c) \<le> client_offset c a"
  by (simp add: client_offset_def saturating_add_ge)

lemmas host_marks = host_start_def mark_encode_queue_def mark_encode_done_def mark_packetize_def
  mark_send_def checkpoints_new_def

lemmas client_marks = client_start_def mark_jitter_enter_def mark_jitter_exit_def
  mark_decode_enter_def mark_decode_done_def mark_render_submit_def mark_render_done_def

lemma host_frame_fields:
  "encode_queue_ts_us (host_frame c h) = delta_us (h 0) (h 2)"
  "encode_done_ts_us (host_frame c h) = delta_us (h 0) (h 3)"
  "packetize_ts_us (host_frame c h) = delta_us (h 0) (h 4)"
  "send_ts_us (host_frame c h) = delta_us (h 0) (h 5)"
  by (simp_all add: host_frame_def host_marks)


lemma client_offset_cong:
  "cft_recv_instant c = cft_recv_instant d \<Longrightarrow>
   recv_ts_us (cft_checkpoints c) = recv_ts_us (cft_checkpoints d) \<Longrightarrow>
   client_offset c a = client_offset d a"
  by (simp add: client_offset_def)

lemma client_frame_fields:
  fixes t c off k
  defines "s \<equiv> client_start t c off (k 0) (k 1)"
  shows "encode_queue_ts_us (client_frame t c off k) = encode_queue_ts_us t"
    "encode_done_ts_us (client_frame t c off k) = encode_done_ts_us t"
    "packetize_ts_us (client_frame t c off k) = packetize_ts_us t"
    "send_ts_us (client_frame t c off k) = send_ts_us t"
    "recv_ts_us (client_frame t c off k) = recv_ts_us (cft_checkpoints s)"
    "jitter_enter_ts_us (client_frame t c off k) = client_offset s (k 2)"
    "jitter_exit_ts_us (client_frame t c off k) = client_offset s (k 3)"
    "decode_enter_ts_us (client_frame t c off k) = client_offset s (k 4)"
    "decode_done_ts_us (client_frame t c off k) = client_offset s (k 5)"
    "render_submit_ts_us (client_frame t c off k) = client_offset s (k 6)"
    "render_done_ts_us (client_frame t c off k) = client_offset s (k 7)"
  by (simp_all add: client_frame_def s_def client_marks client_offset_def)

lemma client_start_recv_ge: "send_ts_us t \<le> recv_ts_us (cft_checkpoints (client_start t c off a b))"
  by (simp add: client_start_def aligned_client_offset_ge)

lemmas wire_unfold = to_wire_bytes_def from_wire_bytes_def to_host_wire_bytes_def
  from_host_wire_bytes_def FRAME_TIMING_CHECKPOINTS_WIRE_LEN_def HOST_TIMING_WIRE_LEN_def

lemma host_wire_prefix: "take HOST_TIMING_WIRE_LEN (to_wire_bytes t) = to_host_wire_bytes t"
  by (simp add: wire_unfold)

text \<open>The part of the checkpoints that the 24-byte form carries.\<close>

definition host_part :: "FrameTimingCheckpoints \<Rightarrow> FrameTimingCheckpoints" where
  "host_part t = t\<lparr>recv_ts_us := 0, jitter_enter_ts_us := 0, jitter_exit_ts_us := 0,
     decode_enter_ts_us := 0, decode_done_ts_us := 0, render_submit_ts_us := 0,
     render_done_ts_us := 0\<rparr>"

section \<open>Properties\<close>

interpretation timing_wire: fixed_codec to_wire_bytes "\<lambda>bs. projr (from_wire_bytes bs)" 52
proof
  show "length (to_wire_bytes t) = 52" for t by (simp add: to_wire_bytes_def)
  show "projr (from_wire_bytes (to_wire_bytes t)) = t" for t
    by (simp add: wire_unfold rslice_parse be_dec_enc)
  fix bs :: bytes assume len: "length bs = 52"
  then show "to_wire_bytes (projr (from_wire_bytes bs)) = bs"
    by (simp add: wire_unfold be32.enc_slice be64.enc_slice slice_join rslice_all)
qed

lemma from_wire_bytes_Ok: "52 \<le> length bs \<Longrightarrow> from_wire_bytes bs = Ok (projr (from_wire_bytes bs))"
  by (simp add: wire_unfold)

lemma from_wire_bytes_take: "52 \<le> length bs \<Longrightarrow> from_wire_bytes (take 52 bs) = from_wire_bytes bs"
  by (simp add: wire_unfold rslice_take)

lemma from_wire_bytes_enc: "from_wire_bytes (to_wire_bytes t @ rest) = Ok t"
  using from_wire_bytes_Ok [of "to_wire_bytes t @ rest"]
    from_wire_bytes_take [of "to_wire_bytes t @ rest"] timing_wire.dec_enc [of t]
  by (simp add: timing_wire.length_enc)

lemma from_host_wire_bytes_enc: "from_host_wire_bytes (to_host_wire_bytes t @ rest) = Ok (host_part t)"
  by (simp add: wire_unfold rslice_parse be_dec_enc host_part_def)

text \<open>
  The two wire forms of the checkpoints are exact: 52 bytes decode to the checkpoints they encode,
  also when more bytes follow; 24 bytes decode to the host part with every client checkpoint zero; a
  decoded 52-byte buffer encodes back to its first 52 bytes; and a shorter buffer is rejected with the
  expected and the actual length.
\<close>

theorem timing_wire_roundtrip:
  "from_wire_bytes (to_wire_bytes t @ rest) = Ok t \<and>
   from_host_wire_bytes (to_host_wire_bytes t @ rest) = Ok (host_part t) \<and>
   (if length bs < 52 then from_wire_bytes bs = Err (BufferTooShort 52 (length bs))
    else \<exists>u. from_wire_bytes bs = Ok u \<and> to_wire_bytes u = take 52 bs) \<and>
   (if length bs < 24 then from_host_wire_bytes bs = Err (BufferTooShort 24 (length bs))
    else \<exists>u. from_host_wire_bytes bs = Ok u \<and> to_host_wire_bytes u = take 24 bs)"
proof -
  have "\<exists>u. from_wire_bytes bs = Ok u \<and> to_wire_bytes u = take 52 bs" if "52 \<le> length bs"
    using that timing_wire.enc_dec [of "take 52 bs"] from_wire_bytes_Ok [of bs]
    by (auto simp: from_wire_bytes_take)
  moreover have "\<exists>u. from_host_wire_bytes bs = Ok u \<and> to_host_wire_bytes u = take 24 bs"
    if "24 \<le> length bs"
    using that by (simp add: wire_unfold be32.enc_slice be64.enc_slice slice_join) (simp add: rslice_def)
  ultimately show ?thesis
    using from_wire_bytes_enc from_host_wire_bytes_enc by (simp add: wire_unfold)
qed

text \<open>
  A frame stamped by both trackers has ordered checkpoints.  When the clock readings of each side
  do not run backwards, the host part arrives unchanged and the client aligns it with any clock offset,
  the eleven relative checkpoints are non-decreasing, and the host, network and client durations that
  telemetry reports add up to the end-to-end latency (once the frame was sent at a positive offset).
\<close>

theorem tracked_frame_decomposes:
  assumes clocks: "mono h" "mono k"
    and arrived: "from_host_wire_bytes (to_host_wire_bytes (host_frame hc h)) = Ok t"
    and sent: "1000 \<le> h 5 - h 0"
  shows "ordered_checkpoints (client_frame t c off k) \<and>
    (\<exists>a b d e. host_pipeline_duration_us (client_frame t c off k) = Some a \<and>
       network_transit_duration_us (client_frame t c off k) = Some b \<and>
       client_pipeline_duration_us (client_frame t c off k) = Some d \<and>
       total_e2e_duration_us (client_frame t c off k) = Some e \<and>
       unat a + unat b + unat d = unat e)"
proof -
  let ?f = "client_frame t c off k"
  have t: "t = host_part (host_frame hc h)"
    using arrived from_host_wire_bytes_enc [of "host_frame hc h" "[]"] by simp
  have host: "encode_queue_ts_us t \<le> encode_done_ts_us t" "encode_done_ts_us t \<le> packetize_ts_us t"
    "packetize_ts_us t \<le> send_ts_us t"
    using clocks(1) by (simp_all add: t host_part_def host_frame_fields delta_us_mono monoD)
  have ord: "ordered_checkpoints ?f"
    unfolding ordered_checkpoints_def
    by (simp add: sorted2 sorted1 client_frame_fields host client_start_recv_ge client_offset_ge
        client_offset_mono monoD [OF clocks(2)] del: sorted_wrt.simps)
  have "0 < unat (send_ts_us ?f)"
    using sent by (simp add: client_frame_fields t host_part_def host_frame_fields delta_us_def
        unat_try_from_or_max div_greater_zero_iff)
  moreover have "unat (send_ts_us ?f) \<le> unat (recv_ts_us ?f)"
    "unat (recv_ts_us ?f) \<le> unat (render_done_ts_us ?f)"
    using ord by (auto simp: ordered_checkpoints_def word_le_nat_alt sorted2)
  ultimately show ?thesis
    using ord by (simp add: host_pipeline_duration_us_def network_transit_duration_us_def
        client_pipeline_duration_us_def total_e2e_duration_us_def word_less_nat_alt
        unat_saturating_sub)
qed

text \<open>Witness: readings one millisecond apart on both sides and a client clock three seconds behind.\<close>

lemma tracked_frame_decomposes_witness:
  "\<exists>t. ordered_checkpoints (client_frame t \<lparr>anchor_instant = 0, anchor_epoch_us = 7\<rparr> (- 3000000)
      (\<lambda>i. i * 1000000)) \<and> send_ts_us t = 5000"
  using tracked_frame_decomposes [of "\<lambda>i. i * 1000000" "\<lambda>i. i * 1000000"
      "\<lparr>anchor_instant = 0, anchor_epoch_us = 9\<rparr>"
      "host_part (host_frame \<lparr>anchor_instant = 0, anchor_epoch_us = 9\<rparr> (\<lambda>i. i * 1000000))"]
    from_host_wire_bytes_enc [of _ "[]"]
  by (intro exI [of _ "host_part (host_frame \<lparr>anchor_instant = 0, anchor_epoch_us = 9\<rparr>
      (\<lambda>i. i * 1000000))"])
    (simp add: mono_def host_part_def host_frame_fields delta_us_def try_from_or_max_def)

text \<open>
  A late client stage never moves before a stage that is already stamped, and equals the aligned
  clock reading when that reading is the latest: \<open>stamp_client_stage\<close> is the maximum of the aligned
  offset and of the seven client checkpoints, whatever the clock offset is.
\<close>

theorem stamp_client_stage_bounds:
  "stamp_client_stage t now off = Max {client_stage_offset_us (capture_ts_us t) now off,
     recv_ts_us t, jitter_enter_ts_us t, jitter_exit_ts_us t, decode_enter_ts_us t,
     decode_done_ts_us t, render_submit_ts_us t, render_done_ts_us t} \<and>
   uint (client_stage_offset_us (capture_ts_us t) now off) =
     max 0 (min (uint now + sint off - uint (capture_ts_us t)) (2 ^ 32 - 1))"
proof
  show "stamp_client_stage t now off = Max {client_stage_offset_us (capture_ts_us t) now off,
     recv_ts_us t, jitter_enter_ts_us t, jitter_exit_ts_us t, decode_enter_ts_us t,
     decode_done_ts_us t, render_submit_ts_us t, render_done_ts_us t}"
    unfolding stamp_client_stage_def
    by (simp only: Max_insert Max_singleton finite.intros insert_not_empty max.assoc
        not_False_eq_True simp_thms)
qed (simp add: client_stage_offset_us_def uint_aligned_client_offset)

end
