(* ===== verification/Wire_Types.thy ===== *)
theory Wire_Types
  imports Frame_Timing
begin

text \<open>
  The data model of \<open>protocol/src/lib.rs\<close>: lanes, content kinds, priorities, reliability, the generic
  data header and envelope with its constructors, the audio, file and clipboard objects that travel in
  envelopes, RTP packets, input events and the validation of video settings.  The wire numbers of lanes,
  kinds and priorities have their round trips here.

  Rust enum variants whose names clash across enums carry a prefix (\<open>Lane_\<close>, \<open>Kind_\<close>, \<open>Prio_\<close>), and
  so do record fields (\<open>dh_\<close>, \<open>env_\<close>, ...).  A 32-bit float is kept as its bit pattern.
\<close>

section \<open>Lanes, kinds and priorities\<close>

datatype PayloadType = VideoH265 | AudioOpus

fun payload_type_id :: "PayloadType \<Rightarrow> u8" where
  "payload_type_id VideoH265 = 96"
| "payload_type_id AudioOpus = 97"

datatype DataLane = Lane_Realtime | Lane_Interactive | Lane_Reliable | Lane_Background

definition lane_is_realtime :: "DataLane \<Rightarrow> bool" where
  "lane_is_realtime l = (l \<in> {Lane_Realtime, Lane_Interactive})"

definition lane_allows_stale_drop :: "DataLane \<Rightarrow> bool" where
  "lane_allows_stale_drop l = (l = Lane_Realtime)"

definition lane_requires_reliable_delivery :: "DataLane \<Rightarrow> bool" where
  "lane_requires_reliable_delivery l = (l \<in> {Lane_Reliable, Lane_Background})"

datatype ContentKind =
    Kind_VideoH265 | Kind_AudioOpus | Kind_Control | Kind_ClipboardText | Kind_ClipboardBinary
  | Kind_FileChunk | Kind_FileManifest | Kind_Arbitrary | Kind_ClipboardBundle | Kind_FileControl
  | Kind_AudioStreamConfig | Kind_ClipboardControl

fun default_lane :: "ContentKind \<Rightarrow> DataLane" where
  "default_lane Kind_VideoH265 = Lane_Realtime"
| "default_lane Kind_AudioOpus = Lane_Realtime"
| "default_lane Kind_AudioStreamConfig = Lane_Interactive"
| "default_lane Kind_Control = Lane_Interactive"
| "default_lane Kind_ClipboardText = Lane_Reliable"
| "default_lane Kind_ClipboardBinary = Lane_Reliable"
| "default_lane Kind_FileManifest = Lane_Reliable"
| "default_lane Kind_FileChunk = Lane_Reliable"
| "default_lane Kind_Arbitrary = Lane_Reliable"
| "default_lane Kind_ClipboardBundle = Lane_Reliable"
| "default_lane Kind_FileControl = Lane_Interactive"
| "default_lane Kind_ClipboardControl = Lane_Interactive"

datatype DataPriority = Prio_Background | Prio_Normal | Prio_Interactive | Prio_Realtime

fun priority_wire_id :: "DataPriority \<Rightarrow> u8" where
  "priority_wire_id Prio_Background = 0"
| "priority_wire_id Prio_Normal = 1"
| "priority_wire_id Prio_Interactive = 2"
| "priority_wire_id Prio_Realtime = 3"

text \<open>\<open>DataPriority\<close> derives \<open>Ord\<close>: variants compare by discriminant.\<close>

instantiation DataPriority :: linorder
begin

definition less_eq_DataPriority :: "DataPriority \<Rightarrow> DataPriority \<Rightarrow> bool" where
  "p \<le> q \<longleftrightarrow> priority_wire_id p \<le> priority_wire_id q"

definition less_DataPriority :: "DataPriority \<Rightarrow> DataPriority \<Rightarrow> bool" where
  "p < q \<longleftrightarrow> priority_wire_id p < priority_wire_id q"

instance
proof
  fix p q r :: DataPriority
  show "p < q \<longleftrightarrow> p \<le> q \<and> \<not> q \<le> p" "p \<le> p" "p \<le> q \<or> q \<le> p"
    by (auto simp: less_eq_DataPriority_def less_DataPriority_def)
  show "p \<le> q \<Longrightarrow> q \<le> r \<Longrightarrow> p \<le> r" by (simp add: less_eq_DataPriority_def)
  show "p \<le> q \<Longrightarrow> q \<le> p \<Longrightarrow> p = q" by (cases p; cases q) (simp_all add: less_eq_DataPriority_def word_le_nat_alt)
qed

end

fun priority_for_lane :: "DataLane \<Rightarrow> DataPriority" where
  "priority_for_lane Lane_Realtime = Prio_Realtime"
| "priority_for_lane Lane_Interactive = Prio_Interactive"
| "priority_for_lane Lane_Reliable = Prio_Normal"
| "priority_for_lane Lane_Background = Prio_Background"

datatype CompactRealtimeError =
    InvalidLength nat nat
  | UnsupportedVersion u8
  | UnknownFlags u8
  | InvalidLane u8
  | InvalidContentKind u8
  | InvalidPriority u8
  | NonRealtimeLane DataLane
  | UnsupportedRealtimeMetadata
  | DeadlineBeforeTimestamp u64 u64
  | DeadlineDeltaTooLarge u64
  | DeadlineDeltaWithoutFlag u16
  | DeadlineOverflow u64 u16
  | TimingError TimingCodecError

fun lane_wire_id :: "DataLane \<Rightarrow> u8" where
  "lane_wire_id Lane_Realtime = 1"
| "lane_wire_id Lane_Interactive = 2"
| "lane_wire_id Lane_Reliable = 3"
| "lane_wire_id Lane_Background = 4"

definition lane_from_wire_id :: "u8 \<Rightarrow> (DataLane, CompactRealtimeError) result" where
  "lane_from_wire_id w =
     (if w = 1 then Ok Lane_Realtime else if w = 2 then Ok Lane_Interactive
      else if w = 3 then Ok Lane_Reliable else if w = 4 then Ok Lane_Background
      else Err (InvalidLane w))"

fun kind_wire_id :: "ContentKind \<Rightarrow> u8" where
  "kind_wire_id Kind_VideoH265 = 1"
| "kind_wire_id Kind_AudioOpus = 2"
| "kind_wire_id Kind_Control = 3"
| "kind_wire_id Kind_ClipboardText = 4"
| "kind_wire_id Kind_ClipboardBinary = 5"
| "kind_wire_id Kind_FileManifest = 6"
| "kind_wire_id Kind_FileChunk = 7"
| "kind_wire_id Kind_Arbitrary = 8"
| "kind_wire_id Kind_ClipboardBundle = 9"
| "kind_wire_id Kind_FileControl = 10"
| "kind_wire_id Kind_AudioStreamConfig = 11"
| "kind_wire_id Kind_ClipboardControl = 12"

definition kind_from_wire_id :: "u8 \<Rightarrow> (ContentKind, CompactRealtimeError) result" where
  "kind_from_wire_id w =
     (if w = 1 then Ok Kind_VideoH265 else if w = 2 then Ok Kind_AudioOpus
      else if w = 3 then Ok Kind_Control else if w = 4 then Ok Kind_ClipboardText
      else if w = 5 then Ok Kind_ClipboardBinary else if w = 6 then Ok Kind_FileManifest
      else if w = 7 then Ok Kind_FileChunk else if w = 8 then Ok Kind_Arbitrary
      else if w = 9 then Ok Kind_ClipboardBundle else if w = 10 then Ok Kind_FileControl
      else if w = 11 then Ok Kind_AudioStreamConfig else if w = 12 then Ok Kind_ClipboardControl
      else Err (InvalidContentKind w))"

definition priority_from_wire_id :: "u8 \<Rightarrow> (DataPriority, CompactRealtimeError) result" where
  "priority_from_wire_id w =
     (if w = 0 then Ok Prio_Background else if w = 1 then Ok Prio_Normal
      else if w = 2 then Ok Prio_Interactive else if w = 3 then Ok Prio_Realtime
      else Err (InvalidPriority w))"

datatype ReliabilityMode = BestEffort | Reliable

definition reliability_for_lane :: "DataLane \<Rightarrow> ReliabilityMode" where
  "reliability_for_lane l = (if lane_requires_reliable_delivery l then Reliable else BestEffort)"

section \<open>Audio, file and clipboard objects\<close>

datatype AudioSource = RemoteSystem | RemoteMicrophone | RemoteMixed | ViewerMicrophoneTalkback
datatype AudioDirection = HostToClient | ClientToHost
datatype AudioCodec = Opus
datatype AudioControlTarget = ViewerTalkbackPlayback

definition remote_microphone_audio_stream_id :: "u32 \<Rightarrow> u32" where
  "remote_microphone_audio_stream_id session_id = session_id + 1"

definition remote_system_audio_stream_id :: "u32 \<Rightarrow> u32" where
  "remote_system_audio_stream_id session_id = session_id + 2"

definition viewer_talkback_audio_stream_id :: "u32 \<Rightarrow> u32" where
  "viewer_talkback_audio_stream_id session_id = session_id + 100"

record AudioStreamConfig =
  asc_stream_id :: u32
  asc_source :: AudioSource
  asc_direction :: AudioDirection
  asc_codec :: AudioCodec
  asc_sample_rate_hz :: u32
  asc_channels :: u16
  asc_frame_duration_ms :: u16

definition audio_config_new ::
  "u32 \<Rightarrow> AudioSource \<Rightarrow> AudioDirection \<Rightarrow> u32 \<Rightarrow> u16 \<Rightarrow> u16 \<Rightarrow> AudioStreamConfig" where
  "audio_config_new sid src dir rate ch dur = \<lparr>asc_stream_id = sid, asc_source = src,
     asc_direction = dir, asc_codec = Opus, asc_sample_rate_hz = rate, asc_channels = ch,
     asc_frame_duration_ms = dur\<rparr>"

definition audio_config_remote_system :: "u32 \<Rightarrow> u32 \<Rightarrow> u16 \<Rightarrow> u16 \<Rightarrow> AudioStreamConfig" where
  "audio_config_remote_system sid = audio_config_new sid RemoteSystem HostToClient"

definition audio_config_remote_microphone :: "u32 \<Rightarrow> u32 \<Rightarrow> u16 \<Rightarrow> u16 \<Rightarrow> AudioStreamConfig" where
  "audio_config_remote_microphone sid = audio_config_new sid RemoteMicrophone HostToClient"

definition audio_config_remote_mixed :: "u32 \<Rightarrow> u32 \<Rightarrow> u16 \<Rightarrow> u16 \<Rightarrow> AudioStreamConfig" where
  "audio_config_remote_mixed sid = audio_config_new sid RemoteMixed HostToClient"

definition audio_config_talkback :: "u32 \<Rightarrow> u32 \<Rightarrow> u16 \<Rightarrow> u16 \<Rightarrow> AudioStreamConfig" where
  "audio_config_talkback sid = audio_config_new sid ViewerMicrophoneTalkback ClientToHost"

record FileTransferGroup =
  ftg_group_id :: u64
  ftg_file_index :: u32
  ftg_file_count :: u32
  ftg_relative_path :: string
  ftg_group_total_size_bytes :: u64
  ftg_group_checksum_crc32 :: u32

record FileTransferManifest =
  ftm_transfer_id :: u64
  ftm_file_object_id :: u64
  ftm_name :: string
  ftm_group :: "FileTransferGroup option"
  ftm_mime_type :: "string option"
  ftm_size_bytes :: u64
  ftm_chunk_payload_len :: u32
  ftm_checksum_crc32 :: u32

record ClipboardImage =
  ci_mime_type :: string
  ci_width :: "u32 option"
  ci_height :: "u32 option"
  ci_bytes :: bytes

record ClipboardFile =
  cf_name :: string
  cf_mime_type :: "string option"
  cf_bytes :: bytes

datatype ClipboardItem = ClipText string | ClipImage ClipboardImage | ClipFile ClipboardFile

record ClipboardBundle =
  cb_bundle_id :: u64
  cb_items :: "ClipboardItem list"

definition clipboard_bundle_text :: "u64 \<Rightarrow> string \<Rightarrow> ClipboardBundle" where
  "clipboard_bundle_text bid text = \<lparr>cb_bundle_id = bid, cb_items = [ClipText text]\<rparr>"

section \<open>Headers and envelopes\<close>

record ChunkInfo =
  ck_object_id :: u64
  ck_chunk_index :: u32
  ck_total_chunks :: u32
  ck_offset :: u64
  ck_total_size :: u64

record ReliabilityInfo =
  ri_ack_id :: u64
  ri_retry_count :: u8
  ri_checksum_crc32 :: "u32 option"

record DataHeader =
  dh_version :: u8
  dh_lane :: DataLane
  dh_kind :: ContentKind
  dh_priority :: DataPriority
  dh_reliability :: ReliabilityMode
  dh_stream_id :: u32
  dh_sequence_number :: u64
  dh_timestamp_ms :: u64
  dh_deadline_ms :: "u64 option"
  dh_chunk :: "ChunkInfo option"
  dh_reliability_info :: "ReliabilityInfo option"

record DataEnvelope =
  env_header :: DataHeader
  env_payload :: bytes
  env_transport_timing :: "FrameTimingCheckpoints option"

definition envelope_new ::
  "DataLane \<Rightarrow> ContentKind \<Rightarrow> u32 \<Rightarrow> u64 \<Rightarrow> u64 \<Rightarrow> bytes \<Rightarrow> DataEnvelope" where
  "envelope_new lane kind sid seq ts payload =
     \<lparr>env_header = \<lparr>dh_version = 1, dh_lane = lane, dh_kind = kind,
        dh_priority = priority_for_lane lane, dh_reliability = reliability_for_lane lane,
        dh_stream_id = sid, dh_sequence_number = seq, dh_timestamp_ms = ts, dh_deadline_ms = None,
        dh_chunk = None, dh_reliability_info = None\<rparr>,
      env_payload = payload, env_transport_timing = None\<rparr>"

definition with_transport_timing ::
  "FrameTimingCheckpoints option \<Rightarrow> DataEnvelope \<Rightarrow> DataEnvelope" where
  "with_transport_timing t e = e\<lparr>env_transport_timing := t\<rparr>"

definition realtime_video :: "u32 \<Rightarrow> u64 \<Rightarrow> u64 \<Rightarrow> u64 \<Rightarrow> bytes \<Rightarrow> DataEnvelope" where
  "realtime_video sid seq ts deadline payload =
     (let e = envelope_new Lane_Realtime Kind_VideoH265 sid seq ts payload
      in e\<lparr>env_header := env_header e\<lparr>dh_deadline_ms := Some deadline\<rparr>\<rparr>)"

definition realtime_audio :: "u32 \<Rightarrow> u64 \<Rightarrow> u64 \<Rightarrow> bytes \<Rightarrow> DataEnvelope" where
  "realtime_audio sid seq ts payload =
     envelope_new Lane_Realtime Kind_AudioOpus sid seq ts payload"

text \<open>\<open>enc\<close> stands for \<open>bincode::serialize\<close>.\<close>

definition audio_stream_config_envelope ::
  "(AudioStreamConfig \<Rightarrow> (bytes, 'e) result) \<Rightarrow> AudioStreamConfig \<Rightarrow> u64 \<Rightarrow> u64 \<Rightarrow>
     (DataEnvelope, 'e) result" where
  "audio_stream_config_envelope enc config seq ts =
     try_bind (enc config) (\<lambda>payload. Ok
       (envelope_new Lane_Interactive Kind_AudioStreamConfig (asc_stream_id config) seq ts payload))"

definition reliable_object_chunk ::
  "ContentKind \<Rightarrow> u32 \<Rightarrow> u64 \<Rightarrow> u64 \<Rightarrow> ChunkInfo \<Rightarrow> u32 option \<Rightarrow> bytes \<Rightarrow> DataEnvelope" where
  "reliable_object_chunk kind sid seq ts chunk checksum payload =
     (let e = envelope_new Lane_Reliable kind sid seq ts payload
      in e\<lparr>env_header := env_header e\<lparr>dh_chunk := Some chunk,
           dh_reliability_info := Some \<lparr>ri_ack_id = seq, ri_retry_count = 0,
             ri_checksum_crc32 = checksum\<rparr>\<rparr>\<rparr>)"

definition envelope_is_realtime :: "DataEnvelope \<Rightarrow> bool" where
  "envelope_is_realtime e = lane_is_realtime (dh_lane (env_header e))"

definition envelope_allows_stale_drop :: "DataEnvelope \<Rightarrow> bool" where
  "envelope_allows_stale_drop e = lane_allows_stale_drop (dh_lane (env_header e))"

section \<open>RTP, input events, video settings\<close>

record RtpHeader =
  rtp_version :: u8
  rtp_payload_type :: u8
  rtp_sequence_number :: u16
  rtp_timestamp :: u32
  rtp_ssrc :: u32

record RtpPacket =
  rtp_header :: RtpHeader
  rtp_payload :: bytes

datatype TouchAction = TouchDown | TouchMove | TouchUp | TouchCancel

datatype InputEvent =
    KeyDown u32
  | KeyUp u32
  | MouseMove int int
  | MouseMoveAbsolute u16 u16
  | Key u16 bool u8
  | ModifiersChanged u8
  | MouseDown u8
  | MouseUp u8
  | MouseScroll int int
  | Touch TouchAction u32 u32 u32 u32

definition validate_video_settings ::
  "u32 \<Rightarrow> u32 \<Rightarrow> u32 \<Rightarrow> u32 \<Rightarrow> (unit, string) result" where
  "validate_video_settings width height fps bitrate_kbps =
     (if width = 0 \<or> height = 0 \<or> width > 0x7fffffff \<or> height > 0x7fffffff
      then Err ''Video dimensions must be positive and fit the capture API''
      else if fps = 0 \<or> fps > 0x7fffffff div 10
      then Err (''Frame rate must be a positive integer within the encoder'' @ [CHR 0x27] @ ''s numeric range'')
      else if bitrate_kbps = 0 then Err ''Bitrate must be a positive integer in kbps''
      else Ok ())"

section \<open>Lemmas\<close>

lemma lane_wire_roundtrip [wire_simps, simp]: "lane_from_wire_id (lane_wire_id l) = Ok l"
  by (cases l) (simp_all add: lane_from_wire_id_def)

lemma kind_wire_roundtrip [wire_simps, simp]: "kind_from_wire_id (kind_wire_id k) = Ok k"
  by (cases k) (simp_all add: kind_from_wire_id_def)

lemma priority_wire_roundtrip [wire_simps, simp]: "priority_from_wire_id (priority_wire_id p) = Ok p"
  by (cases p) (simp_all add: priority_from_wire_id_def)

lemma lane_from_wire_id_Ok: "lane_from_wire_id w = Ok l \<longleftrightarrow> w = lane_wire_id l"
  by (rule iffI, (auto simp: lane_from_wire_id_def split: if_splits) [1], simp)

lemma kind_from_wire_id_Ok: "kind_from_wire_id w = Ok k \<longleftrightarrow> w = kind_wire_id k"
  by (rule iffI, (auto simp: kind_from_wire_id_def split: if_splits) [1], simp)

lemma priority_from_wire_id_Ok: "priority_from_wire_id w = Ok p \<longleftrightarrow> w = priority_wire_id p"
  by (rule iffI, (auto simp: priority_from_wire_id_def split: if_splits) [1], simp)

lemma reliability_matches_lane: "reliability_for_lane l = BestEffort \<longleftrightarrow> lane_is_realtime l"
  by (cases l) (simp_all add: reliability_for_lane_def lane_requires_reliable_delivery_def
      lane_is_realtime_def)

end
