(* ===== verification/Object_Assembly.thy ===== *)
theory Object_Assembly
  imports Wire_Types
begin

unbundle bit_operations_syntax

text \<open>
  Reassembly of reliable objects (\<open>ReliableObjectAssembler\<close> of \<open>remote_core/src/data_plane.rs\<close>) and the
  CRC-32 of the data plane, one-shot (\<open>checksum_crc32\<close>) and streaming (\<open>StreamingCrc32\<close> of
  \<open>remote_core/src/file_transfer.rs\<close>).  The hash set of received indices is a list without repetition.
\<close>

section \<open>CRC-32\<close>

definition crc_bit :: "u32 \<Rightarrow> u32" where
  "crc_bit crc = (let mask = - (crc AND 1) in drop_bit 1 crc XOR (0xedb88320 AND mask))"

definition crc_byte :: "u32 \<Rightarrow> u8 \<Rightarrow> u32" where
  "crc_byte crc byte = (crc_bit ^^ 8) (crc XOR ucast byte)"

definition checksum_crc32 :: "bytes \<Rightarrow> u32" where
  "checksum_crc32 bs = NOT (foldl crc_byte 0xffffffff bs)"

definition crc_new :: u32 where "crc_new = 0xffffffff"

definition crc_update :: "bytes \<Rightarrow> u32 \<Rightarrow> u32" where
  "crc_update bs state = foldl crc_byte state bs"

definition crc_finalize :: "u32 \<Rightarrow> u32" where
  "crc_finalize state = NOT state"

lemma crc_streaming: "crc_finalize (fold crc_update blocks crc_new) = checksum_crc32 (concat blocks)"
proof -
  have "fold crc_update blocks s = foldl crc_byte s (concat blocks)" for s
    by (induction blocks arbitrary: s) (simp_all add: crc_update_def)
  then show ?thesis by (simp add: crc_finalize_def checksum_crc32_def crc_new_def)
qed

section \<open>The assembler\<close>

record ObjectProgress =
  op_object_id :: u64
  op_received_chunks :: u32
  op_total_chunks :: u32
  op_received_bytes :: u64
  op_total_size :: u64
  op_is_complete :: bool

record CompletedObject =
  co_object_id :: u64
  co_bytes :: bytes

datatype ObjectTransferError =
    MissingChunkMetadata
  | WrongObject u64 u64
  | InvalidChunkIndex u32 u32
  | InvalidOffset u64 u64
  | TotalSizeMismatch u64 u64
  | ChecksumMismatch u32 u32
  | Cancelled

record ReliableObjectAssembler =
  roa_object_id :: u64
  roa_total_chunks :: u32
  roa_total_size :: u64
  roa_expected_checksum_crc32 :: "u32 option"
  roa_chunks :: "bytes option list"
  roa_received_indices :: "u32 list"
  roa_received_bytes :: u64
  roa_cancelled :: bool

definition roa_new :: "u64 \<Rightarrow> u32 \<Rightarrow> u64 \<Rightarrow> u32 option \<Rightarrow> ReliableObjectAssembler" where
  "roa_new oid total_chunks total_size checksum =
     \<lparr>roa_object_id = oid, roa_total_chunks = total_chunks, roa_total_size = total_size,
      roa_expected_checksum_crc32 = checksum, roa_chunks = replicate (unat total_chunks) None,
      roa_received_indices = [], roa_received_bytes = 0, roa_cancelled = False\<rparr>"

definition expected_offset :: "nat \<Rightarrow> bytes option list \<Rightarrow> u64" where
  "expected_offset i chunks =
     sum_list (map (\<lambda>c. case c of None \<Rightarrow> 0 | Some b \<Rightarrow> word_of_nat (length b)) (take i chunks))"

definition validate_chunk ::
  "ReliableObjectAssembler \<Rightarrow> ChunkInfo \<Rightarrow> u64 \<Rightarrow> (unit, ObjectTransferError) result" where
  "validate_chunk a chunk payload_len =
     (if ck_object_id chunk \<noteq> roa_object_id a
      then Err (WrongObject (roa_object_id a) (ck_object_id chunk))
      else if ck_total_chunks chunk \<noteq> roa_total_chunks a \<or> ck_chunk_index chunk \<ge> roa_total_chunks a
      then Err (InvalidChunkIndex (ck_chunk_index chunk) (ck_total_chunks chunk))
      else if ck_total_size chunk \<noteq> roa_total_size a
      then Err (TotalSizeMismatch (roa_total_size a) (ck_total_size chunk))
      else let expected = expected_offset (unat (ck_chunk_index chunk)) (roa_chunks a) in
      if ck_offset chunk < expected then Err (InvalidOffset expected (ck_offset chunk))
      else if ck_offset chunk + payload_len > roa_total_size a
      then Err (TotalSizeMismatch (roa_total_size a) (ck_offset chunk + payload_len))
      else Ok ())"

definition roa_progress :: "ReliableObjectAssembler \<Rightarrow> ObjectProgress" where
  "roa_progress a = \<lparr>op_object_id = roa_object_id a,
     op_received_chunks = word_of_nat (length (roa_received_indices a)),
     op_total_chunks = roa_total_chunks a, op_received_bytes = roa_received_bytes a,
     op_total_size = roa_total_size a,
     op_is_complete = (word_of_nat (length (roa_received_indices a)) = roa_total_chunks a)\<rparr>"

definition push_chunk :: "DataEnvelope \<Rightarrow> ReliableObjectAssembler \<Rightarrow>
    ReliableObjectAssembler \<times> (ObjectProgress, ObjectTransferError) result" where
  "push_chunk e a =
     (if roa_cancelled a then (a, Err Cancelled)
      else case ok_or (dh_chunk (env_header e)) MissingChunkMetadata of
        Inl err \<Rightarrow> (a, Err err)
      | Inr chunk \<Rightarrow>
        (case validate_chunk a chunk (word_of_nat (length (env_payload e))) of
           Inl err \<Rightarrow> (a, Err err)
         | Inr _ \<Rightarrow>
           let i = ck_chunk_index chunk;
               a' = (if i \<in> set (roa_received_indices a) then a
                     else a\<lparr>roa_received_indices := i # roa_received_indices a,
                            roa_received_bytes := roa_received_bytes a + word_of_nat (length (env_payload e)),
                            roa_chunks := (roa_chunks a)[unat i := Some (env_payload e)]\<rparr>)
           in (a', Ok (roa_progress a'))))"

definition roa_cancel :: "ReliableObjectAssembler \<Rightarrow> ReliableObjectAssembler" where
  "roa_cancel a = a\<lparr>roa_cancelled := True\<rparr>"

fun collect_chunks :: "u64 \<Rightarrow> bytes option list \<Rightarrow> bytes \<Rightarrow> (bytes, ObjectTransferError) result" where
  "collect_chunks tot [] acc = Ok acc"
| "collect_chunks tot (None # cs) acc = Err (TotalSizeMismatch tot (word_of_nat (length acc)))"
| "collect_chunks tot (Some c # cs) acc = collect_chunks tot cs (acc @ c)"

definition roa_finish :: "ReliableObjectAssembler \<Rightarrow> (CompletedObject, ObjectTransferError) result" where
  "roa_finish a =
     (if roa_cancelled a then Err Cancelled
      else try_bind (collect_chunks (roa_total_size a) (roa_chunks a) []) (\<lambda>bs.
        if word_of_nat (length bs) \<noteq> roa_total_size a
        then Err (TotalSizeMismatch (roa_total_size a) (word_of_nat (length bs)))
        else case roa_expected_checksum_crc32 a of
          Some expected \<Rightarrow>
            if checksum_crc32 bs \<noteq> expected then Err (ChecksumMismatch expected (checksum_crc32 bs))
            else Ok \<lparr>co_object_id = roa_object_id a, co_bytes = bs\<rparr>
        | None \<Rightarrow> Ok \<lparr>co_object_id = roa_object_id a, co_bytes = bs\<rparr>))"

record ObjectChunkSpec =
  ocs_object_id :: u64
  ocs_stream_id :: u32
  ocs_sequence_number :: u64
  ocs_timestamp_ms :: u64
  ocs_chunk_index :: u32
  ocs_total_chunks :: u32
  ocs_offset :: u64
  ocs_total_size :: u64
  ocs_checksum_crc32 :: "u32 option"

definition object_chunk_envelope :: "ObjectChunkSpec \<Rightarrow> bytes \<Rightarrow> DataEnvelope" where
  "object_chunk_envelope spec payload =
     reliable_object_chunk Kind_FileChunk (ocs_stream_id spec) (ocs_sequence_number spec)
       (ocs_timestamp_ms spec)
       \<lparr>ck_object_id = ocs_object_id spec, ck_chunk_index = ocs_chunk_index spec,
        ck_total_chunks = ocs_total_chunks spec, ck_offset = ocs_offset spec,
        ck_total_size = ocs_total_size spec\<rparr>
       (ocs_checksum_crc32 spec) payload"

section \<open>Honest delivery\<close>

text \<open>
  Chunk \<open>i\<close> of an object cut into the pieces \<open>cs\<close>, on top of arbitrary stream, sequence and time data;
  \<open>run_chunks\<close> pushes chunks in the order of a list of indices.
\<close>

definition piece :: "ObjectChunkSpec \<Rightarrow> bytes list \<Rightarrow> nat \<Rightarrow> DataEnvelope" where
  "piece spec cs i = object_chunk_envelope
     (spec\<lparr>ocs_chunk_index := word_of_nat i, ocs_total_chunks := word_of_nat (length cs),
           ocs_offset := word_of_nat (length (concat (take i cs))),
           ocs_total_size := word_of_nat (length (concat cs))\<rparr>) (cs ! i)"

fun run_chunks :: "DataEnvelope list \<Rightarrow> ReliableObjectAssembler \<Rightarrow>
    ReliableObjectAssembler \<times> (ObjectProgress, ObjectTransferError) result list" where
  "run_chunks [] a = (a, [])"
| "run_chunks (e # es) a =
     (case push_chunk e a of (a', r) \<Rightarrow> case run_chunks es a' of (a'', rs) \<Rightarrow> (a'', r # rs))"

definition partial_object :: "ObjectChunkSpec \<Rightarrow> bytes list \<Rightarrow> u32 option \<Rightarrow> nat set \<Rightarrow> ReliableObjectAssembler \<Rightarrow> bool" where
  "partial_object spec cs sm got a =
     (roa_object_id a = ocs_object_id spec \<and> roa_total_chunks a = word_of_nat (length cs) \<and>
      roa_total_size a = word_of_nat (length (concat cs)) \<and> roa_expected_checksum_crc32 a = sm \<and>
      \<not> roa_cancelled a \<and> got \<subseteq> {..<length cs} \<and>
      roa_chunks a = map (\<lambda>i. if i \<in> got then Some (cs ! i) else None) [0..<length cs] \<and>
      set (roa_received_indices a) = word_of_nat ` got \<and> distinct (roa_received_indices a) \<and>
      roa_received_bytes a = word_of_nat (\<Sum>i\<in>got. length (cs ! i)))"

lemma take_concat_length: "i < length cs \<Longrightarrow> length (concat (take i cs)) + length (cs ! i) \<le> length (concat cs)"
proof -
  assume "i < length cs"
  then have "concat cs = concat (take i cs) @ cs ! i @ concat (drop (Suc i) cs)"
    by (metis append_assoc append_take_drop_id concat_append concat.simps(2) Cons_nth_drop_Suc)
  from arg_cong [OF this, of length] show ?thesis by simp
qed

lemma received_before:
  assumes "i \<le> length cs"
  shows "\<exists>n. expected_offset i (map (\<lambda>i. if i \<in> got then Some (cs ! i) else None) [0..<length cs]) =
      word_of_nat n \<and> n \<le> length (concat (take i cs))"
  using assms
proof (induction i)
  case 0
  then show ?case by (auto simp: expected_offset_def)
next
  case (Suc i)
  let ?m = "map (\<lambda>i. if i \<in> got then Some (cs ! i) else None) [0..<length cs]"
  obtain n where n: "expected_offset i ?m = word_of_nat n" "n \<le> length (concat (take i cs))"
    using Suc by auto
  have "take (Suc i) ?m = take i ?m @ [?m ! i]" using Suc.prems by (simp add: take_Suc_conv_app_nth)
  then have "expected_offset (Suc i) ?m =
      expected_offset i ?m + (if i \<in> got then word_of_nat (length (cs ! i)) else 0)"
    using Suc.prems by (simp add: expected_offset_def)
  then have "expected_offset (Suc i) ?m = word_of_nat (n + (if i \<in> got then length (cs ! i) else 0))"
    using n(1) by simp
  moreover have "concat (take (Suc i) cs) = concat (take i cs) @ cs ! i"
    using Suc.prems by (simp add: take_Suc_conv_app_nth)
  ultimately show ?case using n(2) by (intro exI [of _ "n + (if i \<in> got then length (cs ! i) else 0)"]) simp
qed

lemma word_of_nat_le: "n \<le> m \<Longrightarrow> m < 2 ^ LENGTH('a) \<Longrightarrow> (word_of_nat n :: 'a::len word) \<le> word_of_nat m"
  by (simp add: word_le_nat_alt unat_of_nat)

lemma piece_valid:
  assumes p: "partial_object spec cs sm got a" and i: "i < length cs"
    and small: "length cs < 2 ^ 32" "length (concat cs) < 2 ^ 64"
  shows "\<exists>chunk. dh_chunk (env_header (piece spec cs i)) = Some chunk \<and> ck_chunk_index chunk = word_of_nat i \<and>
    validate_chunk a chunk (word_of_nat (length (cs ! i))) = Ok ()"
proof -
  obtain n where n: "expected_offset i (roa_chunks a) = word_of_nat n" "n \<le> length (concat (take i cs))"
    using received_before [of i cs got] p i by (auto simp: partial_object_def)
  have len: "length (concat (take i cs)) + length (cs ! i) \<le> length (concat cs)"
    using take_concat_length [OF i] .
  have idx: "unat (word_of_nat i :: u32) = i" "(word_of_nat i :: u32) < word_of_nat (length cs)"
    using i small(1) by (simp_all add: word_less_nat_alt unat_of_nat)
  have off: "word_of_nat n \<le> (word_of_nat (length (concat (take i cs))) :: u64)"
    by (rule word_of_nat_le) (use n(2) len small(2) in simp_all)
  have fit: "word_of_nat (length (concat (take i cs))) + word_of_nat (length (cs ! i)) \<le>
      (word_of_nat (length (concat cs)) :: u64)"
    using word_of_nat_le [OF len, where ?'a = 64] small(2) by simp
  show ?thesis
    using p idx off fit n(1)
    by (simp add: piece_def object_chunk_envelope_def reliable_object_chunk_def Let_def
        validate_chunk_def partial_object_def not_le not_less)
qed

lemma word_of_nat_image:
  assumes "i < 2 ^ 32" "A \<subseteq> {..<2 ^ 32}"
  shows "(word_of_nat i :: u32) \<in> word_of_nat ` A \<longleftrightarrow> i \<in> A"
proof -
  have "inj_on (word_of_nat :: nat \<Rightarrow> u32) {..<2 ^ 32}"
    by (rule inj_on_inverseI [of _ unat]) (simp add: unat_of_nat)
  then show ?thesis using assms by (auto simp: inj_on_def)
qed

lemma push_piece:
  assumes p: "partial_object spec cs sm got a" and i: "i < length cs"
    and small: "length cs < 2 ^ 32" "length (concat cs) < 2 ^ 64"
  shows "partial_object spec cs sm (insert i got) (fst (push_chunk (piece spec cs i) a)) \<and>
    snd (push_chunk (piece spec cs i) a) = Ok (roa_progress (fst (push_chunk (piece spec cs i) a))) \<and>
    (i \<in> got \<longrightarrow> fst (push_chunk (piece spec cs i) a) = a)"
proof -
  obtain chunk where chunk: "dh_chunk (env_header (piece spec cs i)) = Some chunk"
    "ck_chunk_index chunk = word_of_nat i" "validate_chunk a chunk (word_of_nat (length (cs ! i))) = Ok ()"
    using piece_valid [OF assms] by blast
  have pay: "env_payload (piece spec cs i) = cs ! i"
    by (simp add: piece_def object_chunk_envelope_def reliable_object_chunk_def envelope_new_def Let_def)
  have got: "got \<subseteq> {..<2 ^ 32}" "finite got"
    using p small(1) by (auto simp: partial_object_def finite_subset)
  have seen: "word_of_nat i \<in> set (roa_received_indices a) \<longleftrightarrow> i \<in> got"
    using p word_of_nat_image [OF _ got(1), of i] i small(1) by (auto simp: partial_object_def)
  have idx: "unat (word_of_nat i :: u32) = i" using i small(1) by (simp add: unat_of_nat)
  have "(map (\<lambda>j. if j \<in> got then Some (cs ! j) else None) [0..<length cs])[i := Some (cs ! i)] =
      map (\<lambda>j. if j \<in> insert i got then Some (cs ! j) else None) [0..<length cs]"
    by (rule nth_equalityI) (use i in \<open>auto simp: nth_list_update\<close>)
  then show ?thesis
    using p i seen idx got(2) chunk
    by (auto simp: push_chunk_def pay Let_def partial_object_def insert_absorb)
qed

lemma run_pieces:
  assumes "partial_object spec cs sm got a" "set is \<subseteq> {..<length cs}"
    and small: "length cs < 2 ^ 32" "length (concat cs) < 2 ^ 64"
  shows "partial_object spec cs sm (got \<union> set is) (fst (run_chunks (map (piece spec cs) is) a)) \<and>
    list_all is_ok (snd (run_chunks (map (piece spec cs) is) a))"
  using assms(1,2)
proof (induction "is" arbitrary: a got)
  case (Cons i "is")
  note step = push_piece [OF Cons.prems(1) _ small, of i]
  have "partial_object spec cs sm (insert i got \<union> set is)
      (fst (run_chunks (map (piece spec cs) is) (fst (push_chunk (piece spec cs i) a)))) \<and>
    list_all is_ok (snd (run_chunks (map (piece spec cs) is) (fst (push_chunk (piece spec cs i) a))))"
    using Cons.IH [of "insert i got" "fst (push_chunk (piece spec cs i) a)"] step Cons.prems(2) by simp
  then show ?case using step Cons.prems(2) by (simp add: split_beta)
qed simp

lemma collect_all: "collect_chunks tot (map Some cs) acc = Ok (acc @ concat cs)"
  by (induction cs arbitrary: acc) simp_all

lemma collect_chunks_Ok:
  "collect_chunks tot chunks acc = Ok bs \<Longrightarrow> \<exists>cs. chunks = map Some cs \<and> bs = acc @ concat cs"
proof (induction tot chunks acc rule: collect_chunks.induct)
  case (3 tot c cs acc)
  then obtain ds where "cs = map Some ds" "bs = (acc @ c) @ concat ds" by auto
  then show ?case by (intro exI [of _ "c # ds"]) simp
qed auto

lemma partial_new:
  "length cs < 2 ^ 32 \<Longrightarrow> partial_object spec cs sm {}
     (roa_new (ocs_object_id spec) (word_of_nat (length cs)) (word_of_nat (length (concat cs))) sm)"
  by (simp add: partial_object_def roa_new_def unat_of_nat map_replicate_const)

lemma partial_full:
  assumes "partial_object spec cs sm {..<length cs} a"
  shows "roa_chunks a = map Some cs"
  using assms by (auto simp: partial_object_def intro: nth_equalityI)

lemma partial_complete:
  assumes p: "partial_object spec cs sm got a" and small: "length cs < 2 ^ 32"
  shows "op_is_complete (roa_progress a) \<longleftrightarrow> got = {..<length cs}"
proof -
  have sub: "got \<subseteq> {..<length cs}" using p by (simp add: partial_object_def)
  have "inj_on (word_of_nat :: nat \<Rightarrow> u32) got"
    by (rule inj_on_inverseI [of _ unat]) (use small sub in \<open>auto simp: unat_of_nat\<close>)
  then have len: "length (roa_received_indices a) = card got"
    using p distinct_card [of "roa_received_indices a"] by (simp add: partial_object_def card_image)
  have "card got \<le> length cs" using card_mono [OF finite_lessThan sub] by simp
  then have "(word_of_nat (card got) :: u32) = word_of_nat (length cs) \<longleftrightarrow> card got = length cs"
    using small by (auto simp: word_unat_eq_iff unat_of_nat)
  moreover have "card got = length cs \<longleftrightarrow> got = {..<length cs}"
    using card_subset_eq [OF finite_lessThan sub] by auto
  ultimately show ?thesis using p len by (simp add: roa_progress_def partial_object_def)
qed

lemma partial_finish:
  assumes p: "partial_object spec cs sm {..<length cs} a" and sm: "sm = None \<or> sm = Some (checksum_crc32 (concat cs))"
  shows "roa_finish a = Ok \<lparr>co_object_id = ocs_object_id spec, co_bytes = concat cs\<rparr>"
proof -
  have "\<not> roa_cancelled a \<and> roa_total_size a = word_of_nat (length (concat cs)) \<and>
      roa_expected_checksum_crc32 a = sm \<and> roa_object_id a = ocs_object_id spec"
    using p unfolding partial_object_def by blast
  then show ?thesis using sm by (auto simp: roa_finish_def partial_full [OF p] collect_all)
qed

section \<open>Properties\<close>

text \<open>
  Reassembly does not depend on the order of arrival.  When the chunks of an object arrive in any
  order, each at least once and possibly repeated, every push succeeds, the assembler reports completion,
  and \<open>finish\<close> returns the object's bytes (given the right checksum or none).
\<close>

theorem object_reassembles_any_order:
  fixes spec :: ObjectChunkSpec
  assumes arrive: "set is = {..<length cs}"
    and small: "length cs < 2 ^ 32" "length (concat cs) < 2 ^ 64"
    and sum: "sm = None \<or> sm = Some (checksum_crc32 (concat cs))"
  defines "a \<equiv> roa_new (ocs_object_id spec) (word_of_nat (length cs)) (word_of_nat (length (concat cs))) sm"
  shows "list_all is_ok (snd (run_chunks (map (piece spec cs) is) a)) \<and>
    op_is_complete (roa_progress (fst (run_chunks (map (piece spec cs) is) a))) \<and>
    roa_finish (fst (run_chunks (map (piece spec cs) is) a)) =
      Ok \<lparr>co_object_id = ocs_object_id spec, co_bytes = concat cs\<rparr>"
proof -
  let ?a = "fst (run_chunks (map (piece spec cs) is) a)"
  have run: "partial_object spec cs sm {..<length cs} ?a" "list_all is_ok (snd (run_chunks (map (piece spec cs) is) a))"
    using run_pieces [OF partial_new [OF small(1)] _ small, of "is" spec sm] arrive by (simp_all add: a_def)
  show ?thesis
    using run(2) partial_complete [OF run(1) small(1)] partial_finish [OF run(1) sum] by simp
qed

definition sample_spec :: ObjectChunkSpec where
  "sample_spec = \<lparr>ocs_object_id = 7, ocs_stream_id = 1, ocs_sequence_number = 1, ocs_timestamp_ms = 0,
     ocs_chunk_index = 0, ocs_total_chunks = 0, ocs_offset = 0, ocs_total_size = 0,
     ocs_checksum_crc32 = None\<rparr>"

lemma object_reassembles_any_order_witness:
  "roa_finish (fst (run_chunks (map (piece sample_spec [[1, 2], [3]]) [1, 0, 1]) (roa_new 7 2 3 None))) =
     Ok \<lparr>co_object_id = 7, co_bytes = [1, 2, 3]\<rparr>"
proof -
  have "set [1, 0, 1] = {..<length [[1, 2 :: u8], [3]]}" by auto
  from object_reassembles_any_order [OF this, of None sample_spec] show ?thesis
    by (simp add: sample_spec_def)
qed

text \<open>
  A finished object is exactly what was asked for: \<open>finish\<close> succeeds only when the transfer was
  not cancelled and every chunk is present; the result is the chunks in index order, of the announced
  total size and, when a checksum was announced, with that checksum.
\<close>

theorem object_finish_sound:
  assumes "roa_finish a = Ok obj"
  shows "\<not> roa_cancelled a \<and> (\<exists>cs. roa_chunks a = map Some cs \<and> co_bytes obj = concat cs) \<and>
    word_of_nat (length (co_bytes obj)) = roa_total_size a \<and> co_object_id obj = roa_object_id a \<and>
    (case roa_expected_checksum_crc32 a of None \<Rightarrow> True | Some c \<Rightarrow> checksum_crc32 (co_bytes obj) = c)"
  using assms
  by (auto simp: roa_finish_def try_bind_eq_Ok dest!: collect_chunks_Ok
      split: if_splits option.splits)

lemma object_finish_sound_witness:
  "\<exists>obj. roa_finish (roa_new 5 0 0 (Some 0)) = Ok obj \<and> checksum_crc32 (co_bytes obj) = 0"
proof -
  have "roa_finish (roa_new 5 0 0 (Some 0)) = Ok \<lparr>co_object_id = 5, co_bytes = []\<rparr>"
    by (simp add: roa_finish_def roa_new_def checksum_crc32_def)
  from object_finish_sound [OF this] this show ?thesis by (auto simp: roa_new_def)
qed

text \<open>
  The end of a chunk is checked in wrapping arithmetic.  In an optimised build a chunk whose offset
  is close to \<open>2 ^ 64\<close> passes the size check although it reaches far past the announced total size.
\<close>

theorem chunk_end_wraps:
  "\<exists>chunk. unat (ck_offset chunk) + 2 > unat (roa_total_size (roa_new 7 1 3 None)) \<and>
     validate_chunk (roa_new 7 1 3 None) chunk 2 = Ok ()"
proof -
  let ?chunk = "\<lparr>ck_object_id = 7, ck_chunk_index = 0, ck_total_chunks = 1, ck_offset = 0xffffffffffffffff, ck_total_size = 3\<rparr>"
  have "validate_chunk (roa_new 7 1 3 None) ?chunk 2 = Ok ()"
    by (simp add: validate_chunk_def roa_new_def expected_offset_def word_less_nat_alt word_le_nat_alt)
  moreover have "unat (ck_offset ?chunk) + 2 > unat (roa_total_size (roa_new 7 1 3 None))"
    by (simp add: roa_new_def)
  ultimately show ?thesis by blast
qed

end
