(* ===== verification/File_Transfer.thy ===== *)
theory File_Transfer
  imports Object_Assembly
begin

text \<open>
  File transfer (\<open>remote_core/src/file_transfer.rs\<close>): validation of manifests and names, the sending
  reader, and the receiving side with its bitmap of received chunks and its publication of the finished
  file.  An open file is its contents (and, for the reader, its position).  \<open>bincode\<close> is the parameter
  \<open>enc\<close>; the answers of the file system are arguments of the operations (a \<open>receive_fs\<close> for
  \<open>IncomingFileTransfer::start\<close>).  The random name of the temporary file is not modelled.
\<close>

section \<open>Errors, policies and names\<close>

datatype io_error = AlreadyExists | UnexpectedEof | OtherIo

datatype 'e FileTransferError =
    InvalidFileName
  | InvalidChunkPayloadLen
  | NotAFile
  | FileTooLarge u64 u64
  | TooManyChunks u64
  | UnexpectedContentKind ContentKind
  | FT_MissingChunkMetadata
  | InvalidChunk string
  | IncompleteTransfer u32 u32
  | FT_ChecksumMismatch u32 u32
  | Encode 'e
  | Decode 'e
  | Io io_error
  | ObjectTransfer ObjectTransferError

record FileReceivePolicy =
  frp_max_file_bytes :: u64
  frp_allow_overwrite :: bool

definition receive_policy_default :: FileReceivePolicy where
  "receive_policy_default =
     \<lparr>frp_max_file_bytes = 16 * 1024 * 1024 * 1024, frp_allow_overwrite = False\<rparr>"

record FileTransferSpec =
  fts_transfer_id :: u64
  fts_manifest_object_id :: u64
  fts_file_object_id :: u64
  fts_stream_id :: u32
  fts_first_sequence_number :: u64
  fts_timestamp_ms :: u64
  fts_chunk_payload_len :: nat
  fts_group :: "FileTransferGroup option"

definition transfer_spec_new :: "u64 \<Rightarrow> u64 \<Rightarrow> u64 \<Rightarrow> u32 \<Rightarrow> u64 \<Rightarrow> u64 \<Rightarrow> FileTransferSpec" where
  "transfer_spec_new tid mid fid sid first ts = \<lparr>fts_transfer_id = tid, fts_manifest_object_id = mid,
     fts_file_object_id = fid, fts_stream_id = sid, fts_first_sequence_number = first,
     fts_timestamp_ms = ts, fts_chunk_payload_len = 16 * 1024, fts_group = None\<rparr>"

text \<open>\<open>std::path::Path::components\<close> on Unix: empty parts and inner dots vanish, a leading dot is \<open>CurDir\<close>.\<close>

datatype Component = RootDir | CurDir | ParentDir | Normal string

fun split_path :: "string \<Rightarrow> string list" where
  "split_path [] = [[]]"
| "split_path (c # cs) =
     (if c = CHR ''/'' then [] # split_path cs
      else case split_path cs of [] \<Rightarrow> [[c]] | p # ps \<Rightarrow> (c # p) # ps)"

definition inner_component :: "string \<Rightarrow> Component list" where
  "inner_component p = (if p = [] \<or> p = ''.'' then [] else if p = ''..'' then [ParentDir] else [Normal p])"

definition path_components :: "string \<Rightarrow> Component list" where
  "path_components path =
     (case split_path path of
        [] \<Rightarrow> []
      | p # ps \<Rightarrow> (if p = [] \<and> ps \<noteq> [] then [RootDir] else if p = ''.'' then [CurDir] else inner_component p)
                  @ concat (map inner_component ps))"

fun is_normal :: "Component \<Rightarrow> bool" where
  "is_normal (Normal p) = True"
| "is_normal c = False"

definition is_safe_file_name :: "string \<Rightarrow> bool" where
  "is_safe_file_name name =
     (name \<noteq> [] \<and> \<not> (list_ex (\<lambda>c. c = CHR ''/'' \<or> c = CHR 0x5C \<or> c = CHR '':'') name)
      \<and> list_all is_normal (path_components name))"

definition is_safe_relative_path :: "string \<Rightarrow> bool" where
  "is_safe_relative_path path =
     (path \<noteq> [] \<and> list_all (\<lambda>c. case c of Normal p \<Rightarrow> p \<noteq> [] | _ \<Rightarrow> False) (path_components path))"

section \<open>Validation\<close>

definition validate_chunk_payload_len :: "nat \<Rightarrow> (unit, 'e FileTransferError) result" where
  "validate_chunk_payload_len n =
     (if n = 0 \<or> n > 8 * 1024 * 1024 then Err InvalidChunkPayloadLen else Ok ())"

definition chunk_count :: "u64 \<Rightarrow> nat \<Rightarrow> (u32, 'e FileTransferError) result" where
  "chunk_count sz len =
     try_bind (validate_chunk_payload_len len) (\<lambda>_.
       if sz = 0 then Ok 0
       else let count = (unat sz + len - 1) div len in
         if count > 16777216 then Err (TooManyChunks (word_of_nat count))
         else if count < 2 ^ 32 then Ok (word_of_nat count)
         else Err (TooManyChunks (word_of_nat count)))"

definition validate_group_metadata ::
  "FileTransferGroup \<Rightarrow> FileTransferManifest \<Rightarrow> (unit, 'e FileTransferError) result" where
  "validate_group_metadata g m =
     (if ftg_file_count g = 0 \<or> ftg_file_count g > 100000 \<or> ftg_file_index g \<ge> ftg_file_count g
      then Err (InvalidChunk ''file group index or count is invalid'')
      else if ftg_group_total_size_bytes g < ftm_size_bytes m
      then Err (InvalidChunk ''file group total size is smaller than file size'')
      else if \<not> is_safe_relative_path (ftg_relative_path g) then Err InvalidFileName
      else Ok ())"

definition validate_manifest ::
  "FileTransferManifest \<Rightarrow> FileReceivePolicy \<Rightarrow> (unit, 'e FileTransferError) result" where
  "validate_manifest m policy =
     (if \<not> is_safe_file_name (ftm_name m) then Err InvalidFileName
      else try_bind (case ftm_group m of None \<Rightarrow> Ok () | Some g \<Rightarrow> validate_group_metadata g m) (\<lambda>_.
        try_bind (validate_chunk_payload_len (unat (ftm_chunk_payload_len m))) (\<lambda>_.
          if ftm_size_bytes m > frp_max_file_bytes policy
          then Err (FileTooLarge (ftm_size_bytes m) (frp_max_file_bytes policy))
          else try_bind (chunk_count (ftm_size_bytes m) (unat (ftm_chunk_payload_len m))) (\<lambda>_. Ok ()))))"

definition ensure_content_kind :: "DataEnvelope \<Rightarrow> ContentKind \<Rightarrow> (unit, 'e FileTransferError) result" where
  "ensure_content_kind e expected =
     (if dh_kind (env_header e) \<noteq> expected then Err (UnexpectedContentKind (dh_kind (env_header e)))
      else Ok ())"

definition manifest_to_envelope ::
  "(FileTransferManifest \<Rightarrow> (bytes, 'e) result) \<Rightarrow> FileTransferManifest \<Rightarrow> u64 \<Rightarrow> u32 \<Rightarrow> u64 \<Rightarrow> u64 \<Rightarrow>
     (DataEnvelope, 'e FileTransferError) result" where
  "manifest_to_envelope enc m mid sid seq ts =
     try_bind (validate_manifest m receive_policy_default) (\<lambda>_.
     try_bind (map_err Encode (enc m)) (\<lambda>payload.
       Ok (reliable_object_chunk Kind_FileManifest sid seq ts
             \<lparr>ck_object_id = mid, ck_chunk_index = 0, ck_total_chunks = 1, ck_offset = 0,
              ck_total_size = word_of_nat (length payload)\<rparr>
             (Some (checksum_crc32 payload)) payload)))"

text \<open>
  File control messages: \<open>'c\<close> stands for \<open>FileTransferControl\<close>, \<open>enc\<close> and \<open>dec\<close> for its bincode form.
\<close>

definition control_to_envelope ::
  "('c \<Rightarrow> (bytes, 'e) result) \<Rightarrow> 'c \<Rightarrow> u64 \<Rightarrow> u32 \<Rightarrow> u64 \<Rightarrow> u64 \<Rightarrow> (DataEnvelope, 'e FileTransferError) result" where
  "control_to_envelope enc control oid sid seq ts =
     try_bind (map_err Encode (enc control)) (\<lambda>payload.
       let e = reliable_object_chunk Kind_FileControl sid seq ts
             \<lparr>ck_object_id = oid, ck_chunk_index = 0, ck_total_chunks = 1, ck_offset = 0,
              ck_total_size = word_of_nat (length payload)\<rparr>
             (Some (checksum_crc32 payload)) payload
       in Ok (e\<lparr>env_header := (env_header e)\<lparr>dh_lane := Lane_Interactive, dh_priority := Prio_Interactive\<rparr>\<rparr>))"

definition control_from_envelope ::
  "(bytes \<Rightarrow> ('c, 'e) result) \<Rightarrow> DataEnvelope \<Rightarrow> ('c, 'e FileTransferError) result" where
  "control_from_envelope dec e =
     try_bind (ensure_content_kind e Kind_FileControl) (\<lambda>_.
     try_bind (ok_or (dh_chunk (env_header e)) FT_MissingChunkMetadata) (\<lambda>chunk.
       if ck_chunk_index chunk \<noteq> 0 \<or> ck_total_chunks chunk \<noteq> 1 \<or> ck_offset chunk \<noteq> 0
          \<or> ck_total_size chunk \<noteq> word_of_nat (length (env_payload e))
       then Err (InvalidChunk ''file control must be a single complete object chunk'')
       else case Option.bind (dh_reliability_info (env_header e)) ri_checksum_crc32 of
         Some expected \<Rightarrow>
           if checksum_crc32 (env_payload e) \<noteq> expected
           then Err (FT_ChecksumMismatch expected (checksum_crc32 (env_payload e)))
           else map_err Decode (dec (env_payload e))
       | None \<Rightarrow> map_err Decode (dec (env_payload e))))"

text \<open>The manifest assembler: one bounded object whose bytes decode to a valid manifest.\<close>

definition manifest_from_first_chunk ::
  "DataEnvelope \<Rightarrow> (ReliableObjectAssembler, 'e FileTransferError) result" where
  "manifest_from_first_chunk e =
     try_bind (ensure_content_kind e Kind_FileManifest) (\<lambda>_.
     try_bind (ok_or (dh_chunk (env_header e)) FT_MissingChunkMetadata) (\<lambda>chunk.
       if ck_total_chunks chunk > 64 \<or> ck_total_size chunk > 64 * 1024
       then Err (InvalidChunk ''file manifest exceeds resource limit'')
       else Ok (roa_new (ck_object_id chunk) (ck_total_chunks chunk) (ck_total_size chunk)
                 (Option.bind (dh_reliability_info (env_header e)) ri_checksum_crc32))))"

definition manifest_push_chunk :: "DataEnvelope \<Rightarrow> ReliableObjectAssembler \<Rightarrow>
    ReliableObjectAssembler \<times> (ObjectProgress, 'e FileTransferError) result" where
  "manifest_push_chunk e a =
     (case ensure_content_kind e Kind_FileManifest of
        Inl err \<Rightarrow> (a, Err err)
      | Inr _ \<Rightarrow> (case push_chunk e a of (a', r) \<Rightarrow> (a', map_err ObjectTransfer r)))"

definition manifest_finish ::
  "(bytes \<Rightarrow> (FileTransferManifest, 'e) result) \<Rightarrow> FileReceivePolicy \<Rightarrow> ReliableObjectAssembler \<Rightarrow>
     (FileTransferManifest, 'e FileTransferError) result" where
  "manifest_finish dec policy a =
     try_bind (map_err ObjectTransfer (roa_finish a)) (\<lambda>completed.
     try_bind (map_err Decode (dec (co_bytes completed))) (\<lambda>m.
     try_bind (validate_manifest m policy) (\<lambda>_. Ok m)))"

section \<open>The sending reader\<close>

record FileTransferReader =
  ftr_contents :: bytes
  ftr_position :: nat
  ftr_spec :: FileTransferSpec
  ftr_manifest :: FileTransferManifest
  ftr_manifest_sent :: bool
  ftr_next_chunk_index :: u32
  ftr_offset :: u64
  ftr_total_chunks :: u32

text \<open>Reading a file of known length block by block into the streaming checksum; \<open>None\<close> is a short file.\<close>

function crc_exact :: "nat \<Rightarrow> nat \<Rightarrow> bytes \<Rightarrow> u32 \<Rightarrow> u32 option" where
  "crc_exact remaining len file state =
     (if remaining = 0 \<or> len = 0 then Some state
      else let n = min remaining len in
        if length file < n then None
        else crc_exact (remaining - n) len (drop n file) (crc_update (take n file) state))"
  by auto

termination
  by (relation "measure (\<lambda>(r, _, _, _). r)") auto

declare crc_exact.simps [simp del]

text \<open>\<open>is_file\<close> and \<open>sz\<close>: the file's metadata; the file may have changed since.\<close>

definition from_open_file ::
  "bytes \<Rightarrow> bool \<Rightarrow> u64 \<Rightarrow> string \<Rightarrow> FileTransferSpec \<Rightarrow> u64 \<Rightarrow> (FileTransferReader, 'e FileTransferError) result" where
  "from_open_file file is_file sz name spec max_file_bytes =
     try_bind (validate_chunk_payload_len (fts_chunk_payload_len spec)) (\<lambda>_.
       if \<not> is_safe_file_name name then Err InvalidFileName
       else if \<not> is_file then Err InvalidFileName
       else if sz > max_file_bytes then Err (FileTooLarge sz max_file_bytes)
       else try_bind (chunk_count sz (fts_chunk_payload_len spec)) (\<lambda>total_chunks.
         case crc_exact (unat sz) (fts_chunk_payload_len spec) file crc_new of
           None \<Rightarrow> Err (Io UnexpectedEof)
         | Some state \<Rightarrow>
             Ok \<lparr>ftr_contents = file, ftr_position = 0, ftr_spec = spec,
                 ftr_manifest = \<lparr>ftm_transfer_id = fts_transfer_id spec,
                   ftm_file_object_id = fts_file_object_id spec, ftm_name = name,
                   ftm_group = fts_group spec, ftm_mime_type = None, ftm_size_bytes = sz,
                   ftm_chunk_payload_len = word_of_nat (fts_chunk_payload_len spec),
                   ftm_checksum_crc32 = crc_finalize state\<rparr>,
                 ftr_manifest_sent = False, ftr_next_chunk_index = 0, ftr_offset = 0,
                 ftr_total_chunks = total_chunks\<rparr>))"

definition set_group :: "FileTransferGroup \<Rightarrow> FileTransferReader \<Rightarrow> FileTransferReader" where
  "set_group g r = r\<lparr>ftr_manifest := (ftr_manifest r)\<lparr>ftm_group := Some g\<rparr>\<rparr>"

definition next_envelope ::
  "(FileTransferManifest \<Rightarrow> (bytes, 'e) result) \<Rightarrow> FileTransferReader \<Rightarrow>
     FileTransferReader \<times> (DataEnvelope option, 'e FileTransferError) result" where
  "next_envelope enc r =
     (if \<not> ftr_manifest_sent r then
        (r\<lparr>ftr_manifest_sent := True\<rparr>,
         try_bind (manifest_to_envelope enc (ftr_manifest r) (fts_manifest_object_id (ftr_spec r))
             (fts_stream_id (ftr_spec r)) (fts_first_sequence_number (ftr_spec r))
             (fts_timestamp_ms (ftr_spec r)))
           (\<lambda>e. Ok (Some e)))
      else if ftr_offset r \<ge> ftm_size_bytes (ftr_manifest r) then (r, Ok None)
      else let
        remaining = ftm_size_bytes (ftr_manifest r) - ftr_offset r;
        read_len = min (unat remaining) (fts_chunk_payload_len (ftr_spec r)) in
      if length (ftr_contents r) < ftr_position r + read_len then (r, Err (Io UnexpectedEof))
      else let
        payload = rslice (ftr_position r) (ftr_position r + read_len) (ftr_contents r);
        chunk_index = ftr_next_chunk_index r;
        offset = ftr_offset r in
      (r\<lparr>ftr_position := ftr_position r + read_len,
         ftr_next_chunk_index := saturating_add chunk_index 1,
         ftr_offset := ftr_offset r + word_of_nat (length payload)\<rparr>,
       Ok (Some (reliable_object_chunk Kind_FileChunk (fts_stream_id (ftr_spec r))
         (fts_first_sequence_number (ftr_spec r) + 1 + ucast chunk_index)
         (fts_timestamp_ms (ftr_spec r))
         \<lparr>ck_object_id = ftm_file_object_id (ftr_manifest r), ck_chunk_index = chunk_index,
          ck_total_chunks = ftr_total_chunks r, ck_offset = offset,
          ck_total_size = ftm_size_bytes (ftr_manifest r)\<rparr>
         (Some (ftm_checksum_crc32 (ftr_manifest r))) payload))))"

section \<open>The receiver\<close>

record IncomingFileTransfer =
  ift_manifest :: FileTransferManifest
  ift_path :: string
  ift_allow_overwrite :: bool
  ift_file :: bytes
  ift_received_indices :: "u64 list"
  ift_received_chunks :: u32
  ift_received_bytes :: u64
  ift_total_chunks :: u32

text \<open>The new file has the announced length and reads as zeros (\<open>set_len\<close>).\<close>

text \<open>
  What the file system answers while a transfer is prepared: creating and resolving the target directory,
  \<open>symlink_metadata\<close> and \<open>create_dir\<close> for each directory below it (named by its path components), and
  creating the temporary file.
\<close>

datatype dir_entry = EntryDir | EntryOther | EntryMissing | EntryError io_error

record receive_fs =
  rfs_target :: "io_error option"
  rfs_metadata :: "Component list \<Rightarrow> dir_entry"
  rfs_create_dir :: "Component list \<Rightarrow> io_error option"
  rfs_temporary :: "io_error option"

fun walk_parents :: "receive_fs \<Rightarrow> Component list \<Rightarrow> Component list \<Rightarrow> (unit, 'e FileTransferError) result" where
  "walk_parents fs directory [] = Ok ()"
| "walk_parents fs directory (c # cs) =
     (let d = directory @ [c] in
      case rfs_metadata fs d of
        EntryOther \<Rightarrow> Err InvalidFileName
      | EntryDir \<Rightarrow> walk_parents fs d cs
      | EntryMissing \<Rightarrow> (case rfs_create_dir fs d of Some e \<Rightarrow> Err (Io e) | None \<Rightarrow> walk_parents fs d cs)
      | EntryError e \<Rightarrow> Err (Io e))"

definition io_check :: "io_error option \<Rightarrow> (unit, 'e FileTransferError) result" where
  "io_check e = (case e of None \<Rightarrow> Ok () | Some x \<Rightarrow> Err (Io x))"

definition relative_target :: "FileTransferManifest \<Rightarrow> string" where
  "relative_target m = (case ftm_group m of None \<Rightarrow> ftm_name m | Some g \<Rightarrow> ftg_relative_path g)"

definition ift_start ::
  "receive_fs \<Rightarrow> FileTransferManifest \<Rightarrow> FileReceivePolicy \<Rightarrow> (IncomingFileTransfer, 'e FileTransferError) result" where
  "ift_start fs m policy =
     try_bind (validate_manifest m policy) (\<lambda>_.
     try_bind (io_check (rfs_target fs)) (\<lambda>_.
     try_bind (walk_parents fs [] (butlast (path_components (relative_target m)))) (\<lambda>_.
     try_bind (io_check (rfs_temporary fs)) (\<lambda>_.
     try_bind (chunk_count (ftm_size_bytes m) (unat (ftm_chunk_payload_len m))) (\<lambda>total_chunks.
       Ok \<lparr>ift_manifest = m, ift_path = relative_target m,
           ift_allow_overwrite = frp_allow_overwrite policy,
           ift_file = replicate (unat (ftm_size_bytes m)) 0,
           ift_received_indices = replicate ((unat total_chunks + 63) div 64) 0,
           ift_received_chunks = 0, ift_received_bytes = 0, ift_total_chunks = total_chunks\<rparr>)))))"

definition ift_validate_chunk ::
  "IncomingFileTransfer \<Rightarrow> ChunkInfo \<Rightarrow> nat \<Rightarrow> (unit, 'e FileTransferError) result" where
  "ift_validate_chunk t chunk payload_len =
     (if ck_object_id chunk \<noteq> ftm_file_object_id (ift_manifest t)
      then Err (InvalidChunk ''object id does not match manifest file object id'')
      else if ck_total_chunks chunk \<noteq> ift_total_chunks t \<or> ck_chunk_index chunk \<ge> ift_total_chunks t
      then Err (InvalidChunk ''chunk index or total chunk count is invalid'')
      else if ck_total_size chunk \<noteq> ftm_size_bytes (ift_manifest t)
      then Err (InvalidChunk ''chunk total size does not match manifest'')
      else if payload_len > unat (ftm_chunk_payload_len (ift_manifest t))
      then Err (InvalidChunk ''chunk payload exceeds negotiated payload length'')
      else if ck_offset chunk \<noteq> ucast (ck_chunk_index chunk) * ucast (ftm_chunk_payload_len (ift_manifest t))
      then Err (InvalidChunk ''chunk offset does not match chunk index'')
      else if ck_offset chunk + word_of_nat payload_len > ftm_size_bytes (ift_manifest t)
      then Err (InvalidChunk ''chunk extends past declared file size'')
      else if ck_chunk_index chunk + 1 \<noteq> ift_total_chunks t
              \<and> payload_len \<noteq> unat (ftm_chunk_payload_len (ift_manifest t))
      then Err (InvalidChunk ''non-final chunks must fill the negotiated payload length'')
      else Ok ())"

record FileTransferProgress =
  ftp_transfer_id :: u64
  ftp_file_object_id :: u64
  ftp_received_chunks :: u32
  ftp_total_chunks :: u32
  ftp_received_bytes :: u64
  ftp_total_size :: u64
  ftp_is_complete :: bool

definition ift_progress :: "IncomingFileTransfer \<Rightarrow> FileTransferProgress" where
  "ift_progress t = \<lparr>ftp_transfer_id = ftm_transfer_id (ift_manifest t),
     ftp_file_object_id = ftm_file_object_id (ift_manifest t),
     ftp_received_chunks = ift_received_chunks t, ftp_total_chunks = ift_total_chunks t,
     ftp_received_bytes = ift_received_bytes t, ftp_total_size = ftm_size_bytes (ift_manifest t),
     ftp_is_complete = (ift_received_chunks t = ift_total_chunks t)\<rparr>"

text \<open>Writing past the end extends the file with zeros first, as a sparse write does.\<close>

definition write_at :: "nat \<Rightarrow> bytes \<Rightarrow> bytes \<Rightarrow> bytes" where
  "write_at off payload file =
     take off (file @ replicate (off - length file) 0) @ payload @ drop (off + length payload) file"

text \<open>\<open>fault = Some f\<close>: the write failed and left the contents \<open>f\<close>.\<close>

definition ift_push_chunk :: "bytes option \<Rightarrow> DataEnvelope \<Rightarrow> IncomingFileTransfer \<Rightarrow>
    IncomingFileTransfer \<times> (FileTransferProgress, 'e FileTransferError) result" where
  "ift_push_chunk fault e t =
     (case try_bind (ensure_content_kind e Kind_FileChunk) (\<lambda>_.
           try_bind (ok_or (dh_chunk (env_header e)) FT_MissingChunkMetadata) (\<lambda>chunk.
           try_bind (ift_validate_chunk t chunk (length (env_payload e))) (\<lambda>_. Ok chunk))) of
        Inl err \<Rightarrow> (t, Err err)
      | Inr chunk \<Rightarrow>
          let i = unat (ck_chunk_index chunk) div 64;
              b = push_bit (unat (ck_chunk_index chunk) mod 64) 1 in
          if ift_received_indices t ! i AND b = 0
          then case fault of
              Some f \<Rightarrow> (t\<lparr>ift_file := f\<rparr>, Err (Io OtherIo))
            | None \<Rightarrow>
                let t' = t\<lparr>ift_file := write_at (unat (ck_offset chunk)) (env_payload e) (ift_file t),
                    ift_received_indices := (ift_received_indices t)[i := ift_received_indices t ! i OR b],
                    ift_received_chunks := ift_received_chunks t + 1,
                    ift_received_bytes := ift_received_bytes t + word_of_nat (length (env_payload e))\<rparr>
                in (t', Ok (ift_progress t'))
          else (t, Ok (ift_progress t)))"

text \<open>Names for publication: the requested one, then \<open>stem (n).ext\<close>.\<close>

definition split_last_dot :: "string \<Rightarrow> (string \<times> string) option" where
  "split_last_dot name =
     (if CHR ''.'' \<in> set name
      then let r = rev name; ext = rev (takeWhile (\<lambda>c. c \<noteq> CHR ''.'') r);
               stem = rev (tl (dropWhile (\<lambda>c. c \<noteq> CHR ''.'') r))
           in if stem = [] then None else Some (stem, ext)
      else None)"

text \<open>
  The final component of a path and what precedes it, as \<open>Path::file_name\<close> and \<open>with_file_name\<close> see them:
  separators and \<open>.\<close> components at an end do not count, and a path that ends in \<open>..\<close> has no file name.
  \<open>trim_end_rev\<close> works on the reversed path.
\<close>

fun trim_end_rev :: "string \<Rightarrow> string" where
  "trim_end_rev [] = []"
| "trim_end_rev (c # cs) =
     (if c = CHR ''/'' \<or> c = CHR ''.'' \<and> cs \<noteq> [] \<and> hd cs = CHR ''/'' then trim_end_rev cs else c # cs)"

definition parent_and_name :: "string \<Rightarrow> (string \<times> string) option" where
  "parent_and_name path =
     (let r = trim_end_rev (rev path);
          name = rev (takeWhile (\<lambda>c. c \<noteq> CHR ''/'') r);
          above = dropWhile (\<lambda>c. c \<noteq> CHR ''/'') r in
      if name \<in> {[], ''.'', ''..''} then None
      else Some (if above = [] then [] else rev (trim_end_rev above) @ ''/'', name))"

definition numbered_destination :: "string \<Rightarrow> nat \<Rightarrow> string" where
  "numbered_destination path number =
     (if number = 0 then path
      else case parent_and_name path of
        None \<Rightarrow> path @ (if path = [] \<or> last path = CHR ''/'' then [] else ''/'') @ '' ('' @ dec_string number @ '')''
      | Some (dir, name) \<Rightarrow>
          (case split_last_dot name of
             None \<Rightarrow> dir @ name @ '' ('' @ dec_string number @ '')''
           | Some (stem, ext) \<Rightarrow> dir @ stem @ '' ('' @ dec_string number @ '').'' @ ext))"

text \<open>\<open>publish\<close> is the outcome of the atomic no-replace operation for a candidate name.\<close>

fun publish_loop :: "(string \<Rightarrow> io_error option) \<Rightarrow> string \<Rightarrow> nat \<Rightarrow> nat \<Rightarrow>
    (string, 'e FileTransferError) result" where
  "publish_loop publish requested number 0 = Err (Io AlreadyExists)"
| "publish_loop publish requested number (Suc n) =
     (case publish (numbered_destination requested number) of
        None \<Rightarrow> Ok (numbered_destination requested number)
      | Some AlreadyExists \<Rightarrow> publish_loop publish requested (Suc number) n
      | Some err \<Rightarrow> Err (Io err))"

text \<open>Reading a file to its end in blocks.\<close>

fun blocks :: "nat \<Rightarrow> bytes \<Rightarrow> bytes list" where
  "blocks len file = (if file = [] \<or> len = 0 then [] else take len file # blocks len (drop len file))"

declare blocks.simps [simp del]

definition checksum_file_crc32 :: "bytes \<Rightarrow> nat \<Rightarrow> (u32, 'e FileTransferError) result" where
  "checksum_file_crc32 file buffer_len =
     try_bind (validate_chunk_payload_len buffer_len) (\<lambda>_.
       Ok (crc_finalize (fold crc_update (blocks buffer_len file) crc_new)))"

text \<open>\<open>rename_error\<close>: the outcome of the overwriting rename.\<close>

definition ift_finish ::
  "(string \<Rightarrow> io_error option) \<Rightarrow> io_error option \<Rightarrow> IncomingFileTransfer \<Rightarrow> (string, 'e FileTransferError) result" where
  "ift_finish publish rename_error t =
     (if ift_received_chunks t \<noteq> ift_total_chunks t
      then Err (IncompleteTransfer (ift_received_chunks t) (ift_total_chunks t))
      else try_bind (checksum_file_crc32 (ift_file t) (unat (ftm_chunk_payload_len (ift_manifest t)))) (\<lambda>actual.
      if actual \<noteq> ftm_checksum_crc32 (ift_manifest t)
      then Err (FT_ChecksumMismatch (ftm_checksum_crc32 (ift_manifest t)) actual)
      else if ift_allow_overwrite t
      then (case rename_error of None \<Rightarrow> Ok (ift_path t) | Some err \<Rightarrow> Err (Io err))
      else publish_loop publish (ift_path t) 0 100000))"

section \<open>Checksums and counts\<close>

lemma concat_blocks: "0 < len \<Longrightarrow> concat (blocks len fl) = fl"
  by (induction len fl rule: blocks.induct) (subst blocks.simps, auto)

lemma checksum_file: 
  "0 < len \<Longrightarrow> len \<le> 8388608 \<Longrightarrow> checksum_file_crc32 fl len = Ok (checksum_crc32 fl)"
  by (simp add: checksum_file_crc32_def validate_chunk_payload_len_def crc_streaming concat_blocks)

lemma crc_exact_take:
  "0 < len \<Longrightarrow> r \<le> length fl \<Longrightarrow> crc_exact r len fl state = Some (crc_update (take r fl) state)"
proof (induction r len fl state rule: crc_exact.induct)
  case (1 r len fl state)
  show ?case
  proof (cases "r = 0")
    case False
    let ?n = "min r len"
    have split: "take r fl = take ?n fl @ take (r - ?n) (drop ?n fl)"
      using take_add [of ?n "r - ?n" fl] by simp
    have "crc_exact (r - ?n) len (drop ?n fl) (crc_update (take ?n fl) state) =
        Some (crc_update (take (r - ?n) (drop ?n fl)) (crc_update (take ?n fl) state))"
      using "1.IH" [of ?n] "1.prems" False by simp
    moreover have "crc_exact r len fl state =
        crc_exact (r - ?n) len (drop ?n fl) (crc_update (take ?n fl) state)"
      using "1.prems" False by (subst crc_exact.simps) (simp add: Let_def)
    ultimately show ?thesis by (simp add: split crc_update_def del: min_less_iff_conj)
  qed (simp add: crc_exact.simps crc_update_def)
qed

lemma chunk_count_Ok:
  assumes "chunk_count sz len = Ok n"
  shows "0 < len \<and> len \<le> 8388608 \<and> unat n = (unat sz + len - 1) div len \<and> unat n \<le> 16777216"
proof -
  have len: "0 < len" "len \<le> 8388608"
    using assms by (auto simp: chunk_count_def validate_chunk_payload_len_def split: if_splits)
  show ?thesis
  proof (cases "sz = 0")
    case True
    then show ?thesis using assms len by (auto simp: chunk_count_def validate_chunk_payload_len_def)
  next
    case False
    then show ?thesis using assms len
      by (auto simp: chunk_count_def validate_chunk_payload_len_def Let_def unat_of_nat split: if_splits)
  qed
qed

lemma ceil_div:
  fixes S L :: nat
  assumes "0 < L"
  defines "N \<equiv> (S + L - 1) div L"
  shows "S \<le> N * L" "i < N \<Longrightarrow> i * L < S" "j < S \<Longrightarrow> j div L < N"
proof -
  have N: "N * L \<le> S + L - 1" "S + L - 1 < N * L + L"
    using div_mult_mod_eq [of "S + L - 1" L] mod_less_divisor [OF assms(1), of "S + L - 1"]
    unfolding N_def by linarith+
  show S: "S \<le> N * L" using N(2) assms(1) by linarith
  show "i < N \<Longrightarrow> i * L < S"
  proof -
    assume "i < N"
    then have "i * L + L \<le> N * L" using mult_le_mono1 [of "Suc i" N L] by simp
    then show "i * L < S" using N(1) assms(1) by linarith
  qed
  show "j < S \<Longrightarrow> j div L < N" using S assms(1) by (simp add: less_mult_imp_div_less)
qed

section \<open>The receiver's bitmap and file\<close>

abbreviation chunk_len :: "IncomingFileTransfer \<Rightarrow> nat" where
  "chunk_len t \<equiv> unat (ftm_chunk_payload_len (ift_manifest t))"

abbreviation file_len :: "IncomingFileTransfer \<Rightarrow> nat" where
  "file_len t \<equiv> unat (ftm_size_bytes (ift_manifest t))"

definition bitmap_set :: "u64 list \<Rightarrow> nat set" where
  "bitmap_set bm = {i. i div 64 < length bm \<and> bit (bm ! (i div 64)) (i mod 64)}"

definition received_set :: "IncomingFileTransfer \<Rightarrow> nat set" where
  "received_set t = bitmap_set (ift_received_indices t)"

definition ift_inv :: "IncomingFileTransfer \<Rightarrow> bool" where
  "ift_inv t = (0 < chunk_len t \<and> chunk_len t \<le> 8388608 \<and>
     unat (ift_total_chunks t) = (file_len t + chunk_len t - 1) div chunk_len t \<and>
     unat (ift_total_chunks t) \<le> 16777216 \<and>
     length (ift_file t) = file_len t \<and>
     length (ift_received_indices t) = (unat (ift_total_chunks t) + 63) div 64 \<and>
     received_set t \<subseteq> {..<unat (ift_total_chunks t)} \<and>
     unat (ift_received_chunks t) = card (received_set t))"

lemma bit_clear: "k < 64 \<Longrightarrow> w AND push_bit k 1 = 0 \<longleftrightarrow> \<not> bit w k" for w :: u64
proof
  assume k: "k < 64"
  show "w AND push_bit k 1 = 0 \<Longrightarrow> \<not> bit w k"
  proof
    assume "w AND push_bit k 1 = 0" "bit w k"
    then have "\<not> bit (w AND push_bit k 1) k" by simp
    then show False using \<open>bit w k\<close> k by (simp add: bit_and_iff bit_exp_iff)
  qed
  show "\<not> bit w k \<Longrightarrow> w AND push_bit k 1 = 0"
    by (rule bit_eqI) (auto simp: bit_and_iff bit_exp_iff)
qed

lemma bitmap_insert:
  assumes "i div 64 < length bm"
  shows "bitmap_set (bm[i div 64 := bm ! (i div 64) OR push_bit (i mod 64) 1]) = insert i (bitmap_set bm)"
proof -
  have one: "bit (push_bit (i mod 64) 1 :: u64) k \<longleftrightarrow> k = i mod 64" if "k < 64" for k
    using that by (auto simp: bit_exp_iff)
  have same: "j = i" if "j div 64 = i div 64" "j mod 64 = i mod 64" for j
    using that by (metis div_mult_mod_eq)
  show ?thesis
  proof (rule set_eqI)
    fix j
    show "j \<in> bitmap_set (bm[i div 64 := bm ! (i div 64) OR push_bit (i mod 64) 1]) \<longleftrightarrow>
        j \<in> insert i (bitmap_set bm)"
    proof (cases "j div 64 = i div 64")
      case True
      then have "j mod 64 = i mod 64 \<longleftrightarrow> j = i" using same [of j] by blast
      then show ?thesis using True assms one [of "j mod 64"]
        by (auto simp: bitmap_set_def nth_list_update bit_or_iff)
    qed (use assms in \<open>auto simp: bitmap_set_def nth_list_update\<close>)
  qed
qed

lemma bitmap_empty: "bitmap_set (replicate n 0) = {}"
  by (auto simp: bitmap_set_def)

lemma write_at_length: "off + length p \<le> length f \<Longrightarrow> length (write_at off p f) = length f"
  by (simp add: write_at_def)

lemma write_at_nth:
  assumes "off + length p \<le> length f" "j < length f"
  shows "write_at off p f ! j = (if off \<le> j \<and> j < off + length p then p ! (j - off) else f ! j)"
  using assms by (auto simp: write_at_def nth_append)

text \<open>What an accepted chunk satisfies, in unbounded arithmetic: the offset is exact and nothing wraps.\<close>

lemma ift_validate_Ok:
  assumes inv: "ift_inv t" and ok: "ift_validate_chunk t chunk n = Ok ()"
  defines "i \<equiv> unat (ck_chunk_index chunk)"
  shows "i < unat (ift_total_chunks t)" "unat (ck_offset chunk) = i * chunk_len t"
    "n \<le> chunk_len t" "i * chunk_len t + n \<le> file_len t"
    "Suc i \<noteq> unat (ift_total_chunks t) \<Longrightarrow> n = chunk_len t"
proof -
  have f: "ck_chunk_index chunk < ift_total_chunks t" "n \<le> chunk_len t"
    "ck_offset chunk = ucast (ck_chunk_index chunk) * ucast (ftm_chunk_payload_len (ift_manifest t))"
    "ck_offset chunk + word_of_nat n \<le> ftm_size_bytes (ift_manifest t)"
    "ck_chunk_index chunk + 1 \<noteq> ift_total_chunks t \<Longrightarrow> n = chunk_len t"
    using ok by (auto simp: ift_validate_chunk_def not_le not_less split: if_splits)
  show i: "i < unat (ift_total_chunks t)" using f(1) by (simp add: i_def word_less_nat_alt)
  have b: "i < 2 ^ 24" "chunk_len t \<le> 2 ^ 23" using i inv by (auto simp: ift_inv_def)
  then have prod: "i * chunk_len t \<le> 2 ^ 24 * 2 ^ 23" by (intro mult_le_mono) auto
  have u: "unat (ucast (ck_chunk_index chunk) :: u64) = i"
    "unat (ucast (ftm_chunk_payload_len (ift_manifest t)) :: u64) = chunk_len t"
    using b by (simp_all add: unat_ucast_small i_def)
  show off: "unat (ck_offset chunk) = i * chunk_len t"
    using prod unfolding f(3) by (simp add: unat_word_ariths u)
  show n: "n \<le> chunk_len t" by (rule f(2))
  have "unat (word_of_nat n :: u64) = n" using n b(2) by (simp add: unat_of_nat)
  then show "i * chunk_len t + n \<le> file_len t"
    using f(4) prod n b(2) off unat_add_no_overflow [of "ck_offset chunk" "word_of_nat n"]
    by (simp add: word_le_nat_alt)
  have "unat (ck_chunk_index chunk + 1) = Suc i"
    using unat_add_no_overflow [of "ck_chunk_index chunk" 1] b(1) by (simp add: i_def)
  then show "Suc i \<noteq> unat (ift_total_chunks t) \<Longrightarrow> n = chunk_len t" using f(5) by metis
qed

text \<open>The three outcomes of a push.\<close>

lemma ift_push_cases:
  assumes inv: "ift_inv t"
  obtains (reject) err where "ift_push_chunk fault e t =
      (t, (Err err :: (FileTransferProgress, 'e FileTransferError) result))"
      "\<not> (dh_kind (env_header e) = Kind_FileChunk \<and> (\<exists>chunk. dh_chunk (env_header e) = Some chunk \<and>
         ift_validate_chunk t chunk (length (env_payload e)) = (Ok () :: (unit, 'e FileTransferError) result)))"
  | (repeat) chunk where "dh_chunk (env_header e) = Some chunk"
      "ift_validate_chunk t chunk (length (env_payload e)) = (Ok () :: (unit, 'e FileTransferError) result)"
      "unat (ck_chunk_index chunk) \<in> received_set t"
      "ift_push_chunk fault e t = (t, (Ok (ift_progress t) :: (FileTransferProgress, 'e FileTransferError) result))"
  | (failed) f chunk where "fault = Some f" "ift_push_chunk fault e t =
      (t\<lparr>ift_file := f\<rparr>, (Err (Io OtherIo) :: (FileTransferProgress, 'e FileTransferError) result))"
      "dh_chunk (env_header e) = Some chunk"
      "ift_validate_chunk t chunk (length (env_payload e)) = (Ok () :: (unit, 'e FileTransferError) result)"
  | (stored) chunk t' where "fault = None" "dh_chunk (env_header e) = Some chunk"
      "ift_validate_chunk t chunk (length (env_payload e)) = (Ok () :: (unit, 'e FileTransferError) result)"
      "unat (ck_chunk_index chunk) \<notin> received_set t"
      "ift_push_chunk fault e t = (t', (Ok (ift_progress t') :: (FileTransferProgress, 'e FileTransferError) result))"
      "ift_file t' = write_at (unat (ck_offset chunk)) (env_payload e) (ift_file t)"
      "received_set t' = insert (unat (ck_chunk_index chunk)) (received_set t)"
      "length (ift_received_indices t') = length (ift_received_indices t)"
      "ift_received_chunks t' = ift_received_chunks t + 1"
      "ift_manifest t' = ift_manifest t" "ift_total_chunks t' = ift_total_chunks t"
      "ift_path t' = ift_path t" "ift_allow_overwrite t' = ift_allow_overwrite t"
proof -
  let ?check = "try_bind (ensure_content_kind e Kind_FileChunk) (\<lambda>_.
      try_bind (ok_or (dh_chunk (env_header e)) FT_MissingChunkMetadata) (\<lambda>chunk.
      try_bind (ift_validate_chunk t chunk (length (env_payload e))) (\<lambda>_. Ok chunk)))
    :: (ChunkInfo, 'e FileTransferError) result"
  show thesis
  proof (cases ?check)
    case (Inl err)
    then have "\<not> (dh_kind (env_header e) = Kind_FileChunk \<and> (\<exists>chunk. dh_chunk (env_header e) = Some chunk \<and>
        ift_validate_chunk t chunk (length (env_payload e)) = (Ok () :: (unit, 'e FileTransferError) result)))"
      by (auto simp: ensure_content_kind_def)
    then show thesis using reject [of err] Inl by (simp add: ift_push_chunk_def)
  next
    case (Inr chunk)
    then have chunk: "dh_chunk (env_header e) = Some chunk"
      "ift_validate_chunk t chunk (length (env_payload e)) = (Ok () :: (unit, 'e FileTransferError) result)"
      by (auto simp: try_bind_eq_Ok ok_or_eq_Ok)
    let ?i = "unat (ck_chunk_index chunk)"
    have "?i < unat (ift_total_chunks t)" using ift_validate_Ok(1) [OF inv chunk(2)] .
    then have in_map: "?i div 64 < length (ift_received_indices t)" using inv by (simp add: ift_inv_def)
    have seen: "ift_received_indices t ! (?i div 64) AND push_bit (?i mod 64) 1 = 0 \<longleftrightarrow> ?i \<notin> received_set t"
      using in_map bit_clear [of "?i mod 64" "ift_received_indices t ! (?i div 64)"]
      by (simp add: received_set_def bitmap_set_def)
    show thesis
    proof (cases "?i \<in> received_set t")
      case True
      then show thesis using repeat [OF chunk] Inr seen by (simp add: ift_push_chunk_def)
    next
      case False
      show thesis
      proof (cases fault)
        case (Some f)
        then show thesis using failed [OF Some _ chunk] Inr seen False by (simp add: ift_push_chunk_def)
      next
        case None
        let ?t = "t\<lparr>ift_file := write_at (unat (ck_offset chunk)) (env_payload e) (ift_file t),
          ift_received_indices := (ift_received_indices t)
            [?i div 64 := ift_received_indices t ! (?i div 64) OR push_bit (?i mod 64) 1],
          ift_received_chunks := ift_received_chunks t + 1,
          ift_received_bytes := ift_received_bytes t + word_of_nat (length (env_payload e))\<rparr>"
        show thesis
          using stored [OF None chunk False, of ?t] Inr seen False None bitmap_insert [OF in_map]
          by (simp add: ift_push_chunk_def received_set_def Let_def)
      qed
    qed
  qed
qed

lemma received_finite: "finite (received_set t)"
proof -
  have "received_set t \<subseteq> {..<64 * length (ift_received_indices t)}"
    by (auto simp: received_set_def bitmap_set_def less_mult_imp_div_less div_less_iff_less_mult mult.commute)
  then show ?thesis by (rule finite_subset) simp
qed

lemma ift_push_inv:
  assumes inv: "ift_inv t" and fault: "\<And>f. fault = Some f \<Longrightarrow> length f = file_len t"
  shows "ift_inv (fst (ift_push_chunk fault e t :: _ \<times> (_, 'e FileTransferError) result))"
  using inv
proof (cases rule: ift_push_cases [where fault = fault and e = e and ?'e = 'e])
  case (failed f)
  then show ?thesis using inv fault [of f] by (auto simp: ift_inv_def received_set_def)
next
  case (stored chunk t')
  note v = ift_validate_Ok [OF inv stored(3)]
  have card: "card (received_set t') = card (received_set t) + 1"
    using stored(4,7) received_finite by simp
  have "card (received_set t') \<le> unat (ift_total_chunks t)"
    using stored(7) v(1) inv by (intro card_mono [of "{..<unat (ift_total_chunks t)}", simplified])
      (auto simp: ift_inv_def)
  then have "unat (ift_received_chunks t') = card (received_set t')"
    using stored(9) card inv unat_add_no_overflow [of "ift_received_chunks t" 1] by (simp add: ift_inv_def)
  moreover have "length (ift_file t') = file_len t"
    using v(2,4) inv by (simp add: stored(6) write_at_length ift_inv_def)
  ultimately show ?thesis using stored v(1) inv by (auto simp: ift_inv_def)
qed (use inv in simp_all)

lemma ift_start_inv:
  assumes "ift_start fs m policy = (Ok t :: (_, 'e FileTransferError) result)"
  shows "ift_inv t \<and> received_set t = {} \<and> ift_manifest t = m \<and> ift_allow_overwrite t = frp_allow_overwrite policy"
proof -
  obtain n where n: "chunk_count (ftm_size_bytes m) (unat (ftm_chunk_payload_len m)) = (Ok n :: (_, 'e FileTransferError) result)"
    and t: "t = \<lparr>ift_manifest = m, ift_path = relative_target m,
           ift_allow_overwrite = frp_allow_overwrite policy,
           ift_file = replicate (unat (ftm_size_bytes m)) 0,
           ift_received_indices = replicate ((unat n + 63) div 64) 0,
           ift_received_chunks = 0, ift_received_bytes = 0, ift_total_chunks = n\<rparr>"
    using assms by (auto simp: ift_start_def try_bind_eq_Ok)
  show ?thesis using chunk_count_Ok [OF n] by (simp add: t ift_inv_def received_set_def bitmap_empty)
qed

text \<open>Honest chunks of a file and the part of the file they have written.\<close>

definition holds :: "bytes \<Rightarrow> IncomingFileTransfer \<Rightarrow> bool" where
  "holds fl t = (ift_inv t \<and> length fl = file_len t \<and>
     (\<forall>j < file_len t. j div chunk_len t \<in> received_set t \<longrightarrow> ift_file t ! j = fl ! j))"

definition carries :: "bytes \<Rightarrow> IncomingFileTransfer \<Rightarrow> nat \<Rightarrow> DataEnvelope \<Rightarrow> bool" where
  "carries fl t i e = (dh_kind (env_header e) = Kind_FileChunk \<and>
     dh_chunk (env_header e) = Some \<lparr>ck_object_id = ftm_file_object_id (ift_manifest t),
       ck_chunk_index = word_of_nat i, ck_total_chunks = ift_total_chunks t,
       ck_offset = word_of_nat (i * chunk_len t), ck_total_size = ftm_size_bytes (ift_manifest t)\<rparr> \<and>
     env_payload e = take (chunk_len t) (drop (i * chunk_len t) fl))"

lemma unat_small: "n < 2 ^ LENGTH('a) \<Longrightarrow> unat (word_of_nat n :: 'a::len word) = n"
  by (simp add: unat_of_nat)

lemma carries_valid:
  assumes h: "holds fl t" and c: "carries fl t i e" and i: "i < unat (ift_total_chunks t)"
  shows "\<exists>chunk. dh_chunk (env_header e) = Some chunk \<and> unat (ck_chunk_index chunk) = i \<and>
    unat (ck_offset chunk) = i * chunk_len t \<and>
    ift_validate_chunk t chunk (length (env_payload e)) = (Ok () :: (unit, 'e FileTransferError) result)"
proof -
  let ?L = "chunk_len t" and ?S = "file_len t"
  have inv: "ift_inv t" and len: "length fl = ?S" using h by (simp_all add: holds_def)
  have L: "0 < ?L" "?L \<le> 2 ^ 23" and N: "unat (ift_total_chunks t) = (?S + ?L - 1) div ?L"
    and cap: "unat (ift_total_chunks t) \<le> 2 ^ 24"
    using inv by (simp_all add: ift_inv_def)
  have iL: "i * ?L < ?S" using ceil_div(2) [OF L(1), of i ?S] i N by simp
  have small: "i * ?L \<le> 2 ^ 24 * 2 ^ 23" using i cap L(2) by (intro mult_le_mono) auto
  have pay: "length (env_payload e) = min ?L (?S - i * ?L)" using c len by (simp add: carries_def)
  have idx: "unat (word_of_nat i :: u32) = i" using i cap by (simp add: unat_of_nat)
  have off: "unat (word_of_nat (i * ?L) :: u64) = i * ?L" by (rule unat_small) (use small in simp)
  have prod: "(ucast (word_of_nat i :: u32) :: u64) * ucast (ftm_chunk_payload_len (ift_manifest t)) =
      word_of_nat (i * ?L)"
  proof -
    let ?a = "ucast (word_of_nat i :: u32) :: u64" and ?b = "ucast (ftm_chunk_payload_len (ift_manifest t)) :: u64"
    have "unat ?a = unat (word_of_nat i :: u32)" by (rule unat_ucast_small) (use idx i cap in simp)
    moreover have "unat ?b = ?L" by (rule unat_ucast_small) (use L(2) in simp)
    ultimately have ab: "unat ?a = i" "unat ?b = ?L" using idx by simp_all
    have "unat ?a * unat ?b < 2 ^ LENGTH(64)" unfolding ab using small by simp
    then have "unat (?a * ?b) = i * ?L" using unat_mult_no_overflow [of ?a ?b] ab by metis
    then show ?thesis using off by (metis unsigned_word_eqI)
  qed
  have fit: "word_of_nat (i * ?L) + word_of_nat (min ?L (?S - i * ?L)) \<le> ftm_size_bytes (ift_manifest t)"
    using iL word_of_nat_le [of "i * ?L + min ?L (?S - i * ?L)" ?S, where ?'a = 64] unat_less_exp [of "ftm_size_bytes (ift_manifest t)"]
    by simp
  have last: "min ?L (?S - i * ?L) = ?L" if "Suc i < unat (ift_total_chunks t)"
  proof -
    have "Suc i * ?L < ?S" using ceil_div(2) [OF L(1), of "Suc i" ?S] that N by simp
    then show ?thesis by simp
  qed
  have "unat ((word_of_nat i :: u32) + 1) = Suc i"
    using unat_add_no_overflow [of "word_of_nat i :: u32" 1] idx i cap by simp
  then have final: "word_of_nat i + 1 = ift_total_chunks t \<or> min ?L (?S - i * ?L) = ?L"
    using last i by (metis Suc_lessI unsigned_word_eqI)
  have "ift_validate_chunk t \<lparr>ck_object_id = ftm_file_object_id (ift_manifest t),
       ck_chunk_index = word_of_nat i, ck_total_chunks = ift_total_chunks t,
       ck_offset = word_of_nat (i * ?L), ck_total_size = ftm_size_bytes (ift_manifest t)\<rparr>
       (length (env_payload e)) = (Ok () :: (unit, 'e FileTransferError) result)"
    using i idx fit final unfolding ift_validate_chunk_def pay
    by (simp add: prod not_less not_le word_le_nat_alt word_less_nat_alt)
  then show ?thesis using c idx off by (simp add: carries_def)
qed

lemma push_honest:
  assumes h: "holds fl t" and c: "carries fl t i e" and i: "i < unat (ift_total_chunks t)"
  defines "r \<equiv> ift_push_chunk None e t :: _ \<times> (_, 'e FileTransferError) result"
  shows "holds fl (fst r) \<and> received_set (fst r) = insert i (received_set t) \<and> is_ok (snd r) \<and>
    ift_manifest (fst r) = ift_manifest t \<and> ift_total_chunks (fst r) = ift_total_chunks t \<and>
    ift_path (fst r) = ift_path t \<and> ift_allow_overwrite (fst r) = ift_allow_overwrite t"
proof -
  obtain chunk where chunk: "dh_chunk (env_header e) = Some chunk" "unat (ck_chunk_index chunk) = i"
    "unat (ck_offset chunk) = i * chunk_len t"
    "ift_validate_chunk t chunk (length (env_payload e)) = (Ok () :: (unit, 'e FileTransferError) result)"
    using carries_valid [OF h c i] by blast
  have inv: "ift_inv t" and len: "length fl = file_len t" using h by (simp_all add: holds_def)
  have L: "0 < chunk_len t" using inv by (simp add: ift_inv_def)
  from inv show ?thesis
  proof (cases rule: ift_push_cases [where fault = None and e = e and ?'e = 'e])
    case (reject err)
    then show ?thesis using chunk c by (simp add: carries_def)
  next
    case (repeat chunk')
    then show ?thesis using h chunk by (simp add: r_def insert_absorb)
  next
    case (stored chunk' t')
    have same: "chunk' = chunk" using stored(2) chunk(1) by simp
    have fit: "i * chunk_len t + length (env_payload e) \<le> file_len t"
      using ift_validate_Ok(4) [OF inv chunk(4)] chunk(2) by simp
    have "ift_file t' ! j = fl ! j" if j: "j < file_len t" and rec: "j div chunk_len t \<in> received_set t'" for j
    proof (cases "i * chunk_len t \<le> j \<and> j < i * chunk_len t + length (env_payload e)")
      case True
      then have "env_payload e ! (j - i * chunk_len t) = fl ! j"
        using c len j by (auto simp: carries_def)
      then show ?thesis using True j fit inv
        by (simp add: stored(6) same chunk(3) write_at_nth ift_inv_def)
    next
      case False
      have "j div chunk_len t \<noteq> i"
      proof
        assume "j div chunk_len t = i"
        then have "i * chunk_len t \<le> j" "j < i * chunk_len t + chunk_len t"
          using div_mult_mod_eq [of j "chunk_len t"] mod_less_divisor [OF L, of j] by auto
        then show False using False j c len by (auto simp: carries_def min_def split: if_splits)
      qed
      then have "j div chunk_len t \<in> received_set t" using rec stored(7) same chunk(2) by simp
      then show ?thesis using False h j fit inv
        by (auto simp: holds_def stored(6) same chunk(3) write_at_nth ift_inv_def)
    qed
    moreover have "ift_inv t'" using ift_push_inv [OF inv, of None e, where ?'e = 'e] stored(5) by simp
    ultimately have "holds fl t'" using stored(10) len by (simp add: holds_def)
    then show ?thesis using stored same chunk(2) by (simp add: r_def)
  qed simp
qed

fun push_all :: "DataEnvelope list \<Rightarrow> IncomingFileTransfer \<Rightarrow>
    IncomingFileTransfer \<times> (FileTransferProgress, 'e FileTransferError) result list" where
  "push_all [] t = (t, [])"
| "push_all (e # es) t =
     (case ift_push_chunk None e t of (t', r) \<Rightarrow> case push_all es t' of (t'', rs) \<Rightarrow> (t'', r # rs))"

lemma push_all_honest:
  assumes "holds fl t" "\<And>k. k < length is \<Longrightarrow> is ! k < unat (ift_total_chunks t) \<and> carries fl t (is ! k) (es ! k)"
    "length es = length is"
  shows "case push_all es t :: _ \<times> (_, 'e FileTransferError) result list of (t', rs) \<Rightarrow>
    holds fl t' \<and> received_set t' = received_set t \<union> set is \<and> list_all is_ok rs \<and>
    ift_manifest t' = ift_manifest t \<and> ift_total_chunks t' = ift_total_chunks t \<and>
    ift_path t' = ift_path t \<and> ift_allow_overwrite t' = ift_allow_overwrite t"
  using assms
proof (induction "is" arbitrary: es t)
  case (Cons i "is")
  obtain e es' where es: "es = e # es'" using Cons.prems(3) by (cases es) auto
  let ?t = "fst (ift_push_chunk None e t :: _ \<times> (_, 'e FileTransferError) result)"
  have i: "i < unat (ift_total_chunks t)" "carries fl t i e" using Cons.prems(2) [of 0] es by auto
  note p = push_honest [OF Cons.prems(1) i(2,1), where ?'e = 'e]
  have "carries fl ?t k e' \<longleftrightarrow> carries fl t k e'" for k e' using p by (simp add: carries_def)
  then have rest: "is ! k < unat (ift_total_chunks ?t) \<and> carries fl ?t (is ! k) (es' ! k)" if "k < length is" for k
    using Cons.prems(2) [of "Suc k"] es that p by simp
  show ?case using Cons.IH [of ?t es', OF _ rest] p es Cons.prems(3) by (simp add: split_beta)
qed simp

lemma holds_complete:
  assumes h: "holds fl t" and all: "received_set t = {..<unat (ift_total_chunks t)}"
  shows "ift_file t = fl" "ift_received_chunks t = ift_total_chunks t"
proof -
  have inv: "ift_inv t" using h by (simp add: holds_def)
  show "ift_file t = fl"
  proof (rule nth_equalityI)
    show "length (ift_file t) = length fl" using h inv by (simp add: holds_def ift_inv_def)
    fix j assume "j < length (ift_file t)"
    then have j: "j < file_len t" using inv by (simp add: ift_inv_def)
    then have "j div chunk_len t < unat (ift_total_chunks t)"
      using ceil_div(3) [of "chunk_len t" j "file_len t"] inv by (simp add: ift_inv_def)
    then show "ift_file t ! j = fl ! j" using h j all by (simp add: holds_def)
  qed
  show "ift_received_chunks t = ift_total_chunks t"
    using inv all by (metis (no_types, lifting) card_lessThan ift_inv_def unsigned_word_eqI)
qed

section \<open>The reader's chunks\<close>

definition reader_ok :: "bytes \<Rightarrow> FileTransferReader \<Rightarrow> bool" where
  "reader_ok fl r = (ftr_contents r = fl \<and> length fl < 2 ^ 64 \<and>
     ftm_size_bytes (ftr_manifest r) = word_of_nat (length fl) \<and>
     0 < fts_chunk_payload_len (ftr_spec r) \<and> fts_chunk_payload_len (ftr_spec r) \<le> 2 ^ 23 \<and>
     ftm_chunk_payload_len (ftr_manifest r) = word_of_nat (fts_chunk_payload_len (ftr_spec r)) \<and>
     ftm_checksum_crc32 (ftr_manifest r) = checksum_crc32 fl \<and>
     unat (ftr_total_chunks r) =
       (length fl + fts_chunk_payload_len (ftr_spec r) - 1) div fts_chunk_payload_len (ftr_spec r) \<and>
     unat (ftr_total_chunks r) \<le> 2 ^ 24)"

definition reader_at :: "FileTransferReader \<Rightarrow> nat \<Rightarrow> FileTransferReader" where
  "reader_at r k = (let p = min (k * fts_chunk_payload_len (ftr_spec r)) (length (ftr_contents r)) in
     r\<lparr>ftr_manifest_sent := True, ftr_position := p, ftr_next_chunk_index := word_of_nat k,
       ftr_offset := word_of_nat p\<rparr>)"

lemma reader_at_simps [simp]:
  "ftr_contents (reader_at r k) = ftr_contents r" "ftr_spec (reader_at r k) = ftr_spec r"
  "ftr_manifest (reader_at r k) = ftr_manifest r" "ftr_total_chunks (reader_at r k) = ftr_total_chunks r"
  "ftr_manifest_sent (reader_at r k)" "ftr_next_chunk_index (reader_at r k) = word_of_nat k"
  by (simp_all add: reader_at_def Let_def)

lemma from_open_file_ok:
  assumes "from_open_file fl True (word_of_nat (length fl)) name spec maxb = (Ok r :: (_, 'e FileTransferError) result)"
    "length fl < 2 ^ 64"
  shows "reader_ok fl r \<and> r\<lparr>ftr_manifest_sent := True\<rparr> = reader_at r 0"
proof -
  have S: "unat (word_of_nat (length fl) :: u64) = length fl" using assms(2) by (simp add: unat_of_nat)
  obtain n state where n: "chunk_count (word_of_nat (length fl)) (fts_chunk_payload_len spec) = (Ok n :: (_, 'e FileTransferError) result)"
    and st: "crc_exact (length fl) (fts_chunk_payload_len spec) fl crc_new = Some state"
    and r: "r = \<lparr>ftr_contents = fl, ftr_position = 0, ftr_spec = spec,
                 ftr_manifest = \<lparr>ftm_transfer_id = fts_transfer_id spec,
                   ftm_file_object_id = fts_file_object_id spec, ftm_name = name,
                   ftm_group = fts_group spec, ftm_mime_type = None, ftm_size_bytes = word_of_nat (length fl),
                   ftm_chunk_payload_len = word_of_nat (fts_chunk_payload_len spec),
                   ftm_checksum_crc32 = crc_finalize state\<rparr>,
                 ftr_manifest_sent = False, ftr_next_chunk_index = 0, ftr_offset = 0,
                 ftr_total_chunks = n\<rparr>"
    using assms(1) S by (auto simp: from_open_file_def try_bind_eq_Ok split: if_splits option.splits)
  note c = chunk_count_Ok [OF n, unfolded S]
  have "state = crc_update fl crc_new" using st crc_exact_take [of "fts_chunk_payload_len spec" "length fl" fl] c by simp
  then have "crc_finalize state = checksum_crc32 fl"
    by (simp add: crc_finalize_def crc_update_def checksum_crc32_def crc_new_def)
  then show ?thesis using c assms(2) by (simp add: r reader_ok_def reader_at_def)
qed

lemma reader_step:
  assumes ok: "reader_ok fl r" and k: "k < unat (ftr_total_chunks r)"
    and t: "ift_manifest t = ftr_manifest r" "ift_total_chunks t = ftr_total_chunks r"
  shows "\<exists>e. next_envelope enc (reader_at r k) = (reader_at r (Suc k), Ok (Some e)) \<and> carries fl t k e"
proof -
  let ?L = "fts_chunk_payload_len (ftr_spec r)" and ?S = "length fl"
  have o: "ftr_contents r = fl" "?S < 2 ^ 64" "ftm_size_bytes (ftr_manifest r) = word_of_nat ?S"
    "0 < ?L" "?L \<le> 2 ^ 23" "ftm_chunk_payload_len (ftr_manifest r) = word_of_nat ?L"
    "unat (ftr_total_chunks r) = (?S + ?L - 1) div ?L" "unat (ftr_total_chunks r) \<le> 2 ^ 24"
    using ok by (simp_all add: reader_ok_def)
  define P where "P = k * ?L"
  have P: "P < ?S" using ceil_div(2) [OF o(4), of k ?S] k o(7) by (simp add: P_def)
  have S: "unat (word_of_nat ?S :: u64) = ?S" "unat (word_of_nat P :: u64) = P"
    by (rule unat_small, use o(2) P in simp)+
  have Lw: "unat (word_of_nat ?L :: u32) = ?L" using o(5) by (simp add: unat_of_nat)
  let ?n = "min (?S - P) ?L"
  have pos: "ftr_position (reader_at r k) = P" "ftr_offset (reader_at r k) = word_of_nat P"
    using P o(1) by (simp_all add: reader_at_def Let_def P_def [symmetric])
  have lt: "\<not> ftm_size_bytes (ftr_manifest r) \<le> word_of_nat P"
    using P S o(3) by (simp only: word_le_nat_alt)
  have rem: "unat (ftm_size_bytes (ftr_manifest r) - word_of_nat P) = ?S - P"
    using lt S by (subst unat_sub) (simp_all add: o(3))
  have pay: "rslice P (P + ?n) fl = take ?L (drop P fl)" "length (rslice P (P + ?n) fl) = ?n"
    using P by (simp_all add: rslice_def min_def)
  have next_k: "saturating_add (word_of_nat k) 1 = (word_of_nat (Suc k) :: u32)"
    using k o(8) by (simp add: saturating_add_def unat_of_nat)
  have next_p: "P + ?n = min (Suc k * ?L) ?S" using P by (auto simp: P_def)
  let ?e = "reliable_object_chunk Kind_FileChunk (fts_stream_id (ftr_spec r))
         (fts_first_sequence_number (ftr_spec r) + 1 + ucast (word_of_nat k :: u32))
         (fts_timestamp_ms (ftr_spec r))
         \<lparr>ck_object_id = ftm_file_object_id (ftr_manifest r), ck_chunk_index = word_of_nat k,
          ck_total_chunks = ftr_total_chunks r, ck_offset = word_of_nat P,
          ck_total_size = ftm_size_bytes (ftr_manifest r)\<rparr>
         (Some (ftm_checksum_crc32 (ftr_manifest r))) (take ?L (drop P fl))"
  have "next_envelope enc (reader_at r k) =
      ((reader_at r k)\<lparr>ftr_position := P + ?n, ftr_next_chunk_index := word_of_nat (Suc k),
         ftr_offset := word_of_nat P + word_of_nat ?n\<rparr>, Ok (Some ?e))"
    using lt P next_k unfolding next_envelope_def pos reader_at_simps o(1) Let_def rem pay by simp
  moreover have "(reader_at r k)\<lparr>ftr_position := P + ?n, ftr_next_chunk_index := word_of_nat (Suc k),
         ftr_offset := word_of_nat P + word_of_nat ?n\<rparr> = reader_at r (Suc k)"
    unfolding of_nat_add [symmetric] next_p by (simp add: reader_at_def Let_def o(1))
  moreover have "carries fl t k ?e"
    using t Lw o(6) by (simp add: carries_def reliable_object_chunk_def envelope_new_def Let_def P_def)
  ultimately show ?thesis by auto
qed

lemma reader_end:
  assumes "reader_ok fl r" "k = unat (ftr_total_chunks r)"
  shows "next_envelope enc (reader_at r k) = (reader_at r k, Ok None)"
proof -
  have "length fl \<le> k * fts_chunk_payload_len (ftr_spec r)"
    using assms ceil_div(1) [of "fts_chunk_payload_len (ftr_spec r)" "length fl"] by (simp add: reader_ok_def)
  then have "ftr_offset (reader_at r k) = ftm_size_bytes (ftr_manifest r)"
    using assms(1) by (simp add: reader_at_def Let_def reader_ok_def min_absorb2)
  then show ?thesis by (simp add: next_envelope_def)
qed

text \<open>Reading until the reader reports the end, with the number of calls as fuel.\<close>

fun read_chunks :: "(FileTransferManifest \<Rightarrow> (bytes, 'e) result) \<Rightarrow> nat \<Rightarrow> FileTransferReader \<Rightarrow> DataEnvelope list option" where
  "read_chunks enc 0 r = None"
| "read_chunks enc (Suc n) r =
     (case next_envelope enc r of
        (r', Inr None) \<Rightarrow> Some []
      | (r', Inr (Some e)) \<Rightarrow> map_option ((#) e) (read_chunks enc n r')
      | (r', Inl err) \<Rightarrow> None)"

lemma read_chunks_from:
  assumes "reader_ok fl r" "k \<le> unat (ftr_total_chunks r)"
    "ift_manifest t = ftr_manifest r" "ift_total_chunks t = ftr_total_chunks r"
  shows "\<exists>es. read_chunks enc (Suc (unat (ftr_total_chunks r) - k)) (reader_at r k) = Some es \<and>
    length es = unat (ftr_total_chunks r) - k \<and> (\<forall>i < length es. carries fl t (k + i) (es ! i))"
  using assms(2)
proof (induction "unat (ftr_total_chunks r) - k" arbitrary: k)
  case 0
  then have "k = unat (ftr_total_chunks r)" by simp
  then show ?case using reader_end [OF assms(1), of k enc] by simp
next
  case (Suc n)
  then have k: "k < unat (ftr_total_chunks r)" by simp
  obtain e where e: "next_envelope enc (reader_at r k) = (reader_at r (Suc k), Ok (Some e))" "carries fl t k e"
    using reader_step [OF assms(1) k assms(3,4)] by blast
  obtain es where es: "read_chunks enc (Suc (unat (ftr_total_chunks r) - Suc k)) (reader_at r (Suc k)) = Some es"
    "length es = unat (ftr_total_chunks r) - Suc k" "\<forall>i < length es. carries fl t (Suc k + i) (es ! i)"
  proof -
    have "n = unat (ftr_total_chunks r) - Suc k" "Suc k \<le> unat (ftr_total_chunks r)"
      using Suc.hyps(2) k by auto
    then show thesis using Suc.hyps(1) [of "Suc k"] that by blast
  qed
  have n: "unat (ftr_total_chunks r) - k = Suc (unat (ftr_total_chunks r) - Suc k)" using k by simp
  have "carries fl t (k + i) ((e # es) ! i)" if "i < length (e # es)" for i
    using that e(2) es(3) by (cases i) auto
  then show ?case using e(1) es(1,2) n by (intro exI [of _ "e # es"]) simp
qed

section \<open>Publication\<close>

lemma dec_string_nonempty: "dec_string n \<noteq> []"
  by (subst dec_string.simps) simp

lemma dec_string_inj: "dec_string m = dec_string n \<Longrightarrow> m = n"
proof (induction m arbitrary: n rule: less_induct)
  case (less m)
  have digit: "char_of (48 + a) = (char_of (48 + b) :: char) \<Longrightarrow> a < 10 \<Longrightarrow> b < 10 \<Longrightarrow> a = b" for a b :: nat
    using arg_cong [of "char_of (48 + a)" "char_of (48 + b)" "of_char :: char \<Rightarrow> nat"] by (simp add: of_char_of)
  consider "m < 10" "n < 10" | "m < 10" "\<not> n < 10" | "\<not> m < 10" "n < 10" | "\<not> m < 10" "\<not> n < 10" by blast
  then show ?case
  proof cases
    case 1
    then show ?thesis using less.prems digit by (subst (asm) (1 2) dec_string.simps) simp
  next
    case 4
    have eq: "dec_string (m div 10) @ [char_of (48 + m mod 10)] = dec_string (n div 10) @ [char_of (48 + n mod 10)]"
      using less.prems dec_string.simps [of m] dec_string.simps [of n] 4 by simp
    then have "m div 10 = n div 10" using less.IH [of "m div 10" "n div 10"] 4 by simp
    moreover have "m mod 10 = n mod 10" using eq digit [of "m mod 10" "n mod 10"] by simp
    ultimately show ?thesis by (metis div_mult_mod_eq)
  qed (use less.prems dec_string.simps [of m] dec_string.simps [of n]
      dec_string_nonempty [of "m div 10"] dec_string_nonempty [of "n div 10"] in auto)
qed

lemma split_last_dot_Some:
  assumes "split_last_dot name = Some (stem, ext)"
  shows "name = stem @ ''.'' @ ext"
proof -
  let ?r = "rev name" and ?P = "\<lambda>c. c \<noteq> CHR ''.''"
  have se: "CHR ''.'' \<in> set name" "stem = rev (tl (dropWhile ?P ?r))" "ext = rev (takeWhile ?P ?r)"
    using assms by (auto simp: split_last_dot_def Let_def split: if_splits)
  then have ne: "dropWhile ?P ?r \<noteq> []" by (auto simp: dropWhile_eq_Nil_conv)
  then have "hd (dropWhile ?P ?r) = CHR ''.''" using hd_dropWhile [of ?P ?r] by blast
  then have "?r = takeWhile ?P ?r @ CHR ''.'' # tl (dropWhile ?P ?r)"
    using ne takeWhile_dropWhile_id [of ?P ?r] by (metis list.collapse)
  from arg_cong [OF this, of rev] show ?thesis by (simp add: se)
qed

lemma dec_string_no_slash: "CHR ''/'' \<notin> set (dec_string n)"
proof (induction n rule: dec_string.induct)
  case (1 n)
  have "CHR ''/'' \<noteq> char_of (48 + d)" if "d < 10" for d :: nat
  proof
    assume "CHR ''/'' = char_of (48 + d)"
    then have "of_char CHR ''/'' = (of_char (char_of (48 + d) :: char) :: nat)" by simp
    then show False using that by simp
  qed
  then show ?case using 1 dec_string.simps [of n] by (cases "n < 10") auto
qed

lemma trim_end_rev_name:
  assumes "name \<notin> {[], ''.''}" "CHR ''/'' \<notin> set name"
  shows "trim_end_rev (rev name @ x) = rev name @ x"
proof -
  obtain c cs where n: "rev name = c # cs" using assms(1) by (cases "rev name") auto
  have "c \<noteq> CHR ''/''" "CHR ''/'' \<notin> set cs" using assms(2) n by (metis list.set_intros set_rev, metis list.set_intros(2) set_rev)
  moreover have "c = CHR ''.'' \<Longrightarrow> cs \<noteq> []" using assms(1) n by (metis insertCI rev.simps rev_rev_ident append_Nil)
  ultimately show ?thesis using n by (cases cs) auto
qed

lemma parent_and_name_join:
  assumes "name \<notin> {[], ''.'', ''..''}" "CHR ''/'' \<notin> set name" "dir = [] \<or> last dir = CHR ''/''"
  shows "map_option snd (parent_and_name (dir @ name)) = Some name"
proof -
  have t: "trim_end_rev (rev name @ rev dir) = rev name @ rev dir" using trim_end_rev_name [of name "rev dir"] assms by simp
  have "takeWhile (\<lambda>c. c \<noteq> CHR ''/'') (rev dir) = []" using assms(3) by (cases dir rule: rev_cases) auto
  then have "takeWhile (\<lambda>c. c \<noteq> CHR ''/'') (rev name @ rev dir) = rev name"
    using assms(2) by (subst takeWhile_append2) auto
  then show ?thesis using assms(1) by (simp add: parent_and_name_def t Let_def)
qed

lemma parent_and_name_Some:
  assumes "parent_and_name path = Some (dir, name)"
  shows "name \<notin> {[], ''.'', ''..''}" "CHR ''/'' \<notin> set name" "dir = [] \<or> last dir = CHR ''/''"
proof -
  define r where "r = trim_end_rev (rev path)"
  define above where "above = dropWhile (\<lambda>c. c \<noteq> CHR ''/'') r"
  define N where "N = rev (takeWhile (\<lambda>c. c \<noteq> CHR ''/'') r)"
  define D where "D = (if above = [] then [] else rev (trim_end_rev above) @ ''/'')"
  have "parent_and_name path = (if N \<in> {[], ''.'', ''..''} then None else Some (D, N))"
    unfolding parent_and_name_def Let_def r_def above_def N_def D_def by (rule refl)
  then have ND: "N \<notin> {[], ''.'', ''..''}" "name = N" "dir = D" using assms by (auto simp del: insert_iff split: if_splits)
  show "name \<notin> {[], ''.'', ''..''}" unfolding ND(2) by (fact ND(1))
  show "CHR ''/'' \<notin> set name" unfolding ND(2) N_def set_rev by (auto dest: set_takeWhileD)
  show "dir = [] \<or> last dir = CHR ''/''" unfolding ND(3) D_def by simp
qed

text \<open>The numbered names share everything but the number; none of them is the requested path.\<close>

lemma numbered_shape:
  obtains pre post where "\<And>k. numbered_destination path (Suc k) = pre @ '' ('' @ dec_string (Suc k) @ '')'' @ post"
    "\<And>k. numbered_destination path (Suc k) \<noteq> path"
proof (cases "parent_and_name path")
  case None
  let ?pre = "path @ (if path = [] \<or> last path = CHR ''/'' then [] else ''/'')"
  have "numbered_destination path (Suc k) = ?pre @ '' ('' @ dec_string (Suc k) @ '')'' @ []" for k
    using None by (simp add: numbered_destination_def)
  then show thesis using that [of ?pre "[]"] by auto
next
  case (Some dn)
  then obtain dir name where dn: "parent_and_name path = Some (dir, name)" by (cases dn) auto
  note ok = parent_and_name_Some [OF dn]
  obtain stem post where sp: "name = stem @ post"
    "\<And>k. numbered_destination path (Suc k) = dir @ stem @ '' ('' @ dec_string (Suc k) @ '')'' @ post"
  proof (cases "split_last_dot name")
    case None
    then show thesis using that [of name "[]"] dn by (simp add: numbered_destination_def)
  next
    case (Some se)
    then show thesis using that [of "fst se" "''.'' @ snd se"] dn split_last_dot_Some [of name "fst se" "snd se"]
      by (simp add: numbered_destination_def split: prod.splits)
  qed
  have "numbered_destination path (Suc k) \<noteq> path" for k
  proof
    let ?n = "stem @ '' ('' @ dec_string (Suc k) @ '')'' @ post"
    assume "numbered_destination path (Suc k) = path"
    then have p: "path = dir @ ?n" using sp(2) by simp
    have "2 < length ?n" "CHR ''/'' \<notin> set ?n"
      using ok(2) sp(1) dec_string_no_slash by auto
    then have "map_option snd (parent_and_name path) = Some ?n"
      using parent_and_name_join [of ?n dir] ok(3) p by auto
    then have "length name = length ?n" using dn by simp
    then show False using sp(1) by simp
  qed
  then show thesis using that [of "dir @ stem" post] sp(2) by simp
qed

lemma numbered_inj: "numbered_destination path m = numbered_destination path n \<Longrightarrow> m = n"
proof -
  assume eq: "numbered_destination path m = numbered_destination path n"
  obtain pre post where shape: "\<And>k. numbered_destination path (Suc k) = pre @ '' ('' @ dec_string (Suc k) @ '')'' @ post"
    and other: "\<And>k. numbered_destination path (Suc k) \<noteq> path" using numbered_shape [of path] by blast
  have zero: "numbered_destination path 0 = path" by (simp add: numbered_destination_def)
  show "m = n"
  proof (cases m; cases n)
    fix m' n' assume "m = Suc m'" "n = Suc n'"
    then show ?thesis using eq dec_string_inj [of m n] by (simp add: shape)
  qed (use eq zero other in \<open>metis\<close>)+
qed

lemma publish_loop_Ok:
  assumes "publish_loop publish requested k n = (Ok path :: (string, 'e FileTransferError) result)"
  shows "\<exists>j. k \<le> j \<and> j < k + n \<and> path = numbered_destination requested j \<and> publish path = None \<and>
    (\<forall>i. k \<le> i \<and> i < j \<longrightarrow> publish (numbered_destination requested i) = Some AlreadyExists)"
  using assms
proof (induction publish requested k n rule: publish_loop.induct)
  case (2 publish requested k n)
  show ?case
  proof (cases "publish (numbered_destination requested k)")
    case None
    then show ?thesis using "2.prems" by (intro exI [of _ k]) auto
  next
    case (Some err)
    with "2.prems" have ae: "err = AlreadyExists" 
      "publish_loop publish requested (Suc k) n = (Ok path :: (string, 'e FileTransferError) result)"
      by (auto split: io_error.splits)
    then obtain j where j: "Suc k \<le> j" "j < Suc k + n" "path = numbered_destination requested j" "publish path = None"
      "\<forall>i. Suc k \<le> i \<and> i < j \<longrightarrow> publish (numbered_destination requested i) = Some AlreadyExists"
      using "2.IH" Some by auto
    then show ?thesis using Some ae(1)
      by (intro exI [of _ j]) (auto simp: Suc_le_eq dest: le_neq_implies_less)
  qed
qed simp

interpretation receiver: op_machine
  "\<lambda>t e. fst (ift_push_chunk None e t :: _ \<times> (_, 'e FileTransferError) result)" ift_inv
  by unfold_locales (rule ift_push_inv, simp_all)

lemma split_path_no_slash: "p \<in> set (split_path path) \<Longrightarrow> CHR ''/'' \<notin> set p"
  by (induction path arbitrary: p rule: split_path.induct) (auto split: list.splits if_splits)

lemma split_path_ne: "split_path path \<noteq> []"
  by (cases path) (auto split: list.splits)

section \<open>Properties\<close>

text \<open>
  C4. A file survives the transfer.  The reader opened on an unchanged file ends after exactly
  \<open>total_chunks\<close> chunks; a receiver started with its manifest that gets these chunks in any order, each
  at least once, accepts every one, is complete, holds exactly the file's bytes, passes the checksum and
  goes on to publication.
\<close>

theorem file_transfer_roundtrip:
  fixes enc :: "FileTransferManifest \<Rightarrow> (bytes, 'e) result"
  assumes opened: "from_open_file fl True (word_of_nat (length fl)) name spec maxb = (Ok r :: (_, 'e FileTransferError) result)"
    and len: "length fl < 2 ^ 64"
    and started: "ift_start fs (ftr_manifest r) policy = (Ok t :: (_, 'e FileTransferError) result)"
    and arrive: "set is = {..<unat (ftr_total_chunks r)}"
  shows "\<exists>es. read_chunks enc (Suc (unat (ftr_total_chunks r))) (r\<lparr>ftr_manifest_sent := True\<rparr>) = Some es \<and>
    length es = unat (ftr_total_chunks r) \<and>
    (case push_all (map ((!) es) is) t :: _ \<times> (_, 'e FileTransferError) result list of (t', rs) \<Rightarrow>
       list_all is_ok rs \<and> ift_file t' = fl \<and> ftp_is_complete (ift_progress t') \<and>
       ift_finish publish rename_error t' =
         (if frp_allow_overwrite policy
          then (case rename_error of None \<Rightarrow> Ok (ift_path t) | Some err \<Rightarrow> Err (Io err))
          else publish_loop publish (ift_path t) 0 100000 :: (string, 'e FileTransferError) result))"
proof -
  have ok: "reader_ok fl r" and at0: "r\<lparr>ftr_manifest_sent := True\<rparr> = reader_at r 0"
    using from_open_file_ok [OF opened len] by auto
  have t: "ift_inv t" "received_set t = {}" "ift_manifest t = ftr_manifest r"
    "ift_allow_overwrite t = frp_allow_overwrite policy"
    using ift_start_inv [OF started] by auto
  have fields: "file_len t = length fl" "chunk_len t = fts_chunk_payload_len (ftr_spec r)"
    using ok t(3) len by (simp_all add: reader_ok_def unat_of_nat)
  then have "unat (ift_total_chunks t) = unat (ftr_total_chunks r)" using ok t(1) by (simp add: reader_ok_def ift_inv_def)
  then have total: "ift_total_chunks t = ftr_total_chunks r" by (rule unsigned_word_eqI)
  obtain es where es: "read_chunks enc (Suc (unat (ftr_total_chunks r))) (reader_at r 0) = Some es"
    "length es = unat (ftr_total_chunks r)" "\<forall>i < length es. carries fl t i (es ! i)"
    using read_chunks_from [OF ok _ t(3) total, of 0 enc] by auto
  have h: "holds fl t" using t fields by (simp add: holds_def)
  have idx: "is ! k < unat (ift_total_chunks t) \<and> carries fl t (is ! k) (map ((!) es) is ! k)"
    if "k < length is" for k
  proof -
    have "is ! k \<in> set is" using that by simp
    then show ?thesis using arrive es(2,3) total that by auto
  qed
  obtain t' rs where run: "push_all (map ((!) es) is) t = (t', rs :: (_, 'e FileTransferError) result list)" by force
  have t': "holds fl t'" "received_set t' = {..<unat (ift_total_chunks t')}" "list_all is_ok rs"
    "ift_manifest t' = ftr_manifest r" "ift_path t' = ift_path t"
    "ift_allow_overwrite t' = frp_allow_overwrite policy"
    using push_all_honest [OF h idx, where ?'e = 'e] run t arrive total by auto
  note full = holds_complete [OF t'(1,2)]
  have "ift_finish publish rename_error t' =
      (if frp_allow_overwrite policy
       then (case rename_error of None \<Rightarrow> Ok (ift_path t) | Some err \<Rightarrow> Err (Io err))
       else publish_loop publish (ift_path t) 0 100000 :: (string, 'e FileTransferError) result)"
    using full t' ok len
    by (simp add: ift_finish_def reader_ok_def checksum_file unat_of_nat split: option.split)
  then show ?thesis using es(1,2) at0 run t'(3) full by (auto simp: ift_progress_def)
qed

definition empty_target :: receive_fs where
  "empty_target = \<lparr>rfs_target = None, rfs_metadata = (\<lambda>_. EntryMissing), rfs_create_dir = (\<lambda>_. None), rfs_temporary = None\<rparr>"

definition sample_transfer :: FileTransferSpec where
  "sample_transfer = (transfer_spec_new 1 2 3 4 5 6)\<lparr>fts_chunk_payload_len := 2\<rparr>"

lemma file_transfer_roundtrip_witness:
  "\<exists>r t es. from_open_file [7, 8, 9] True 3 ''a.txt'' sample_transfer 100 =
       (Ok r :: (_, unit FileTransferError) result) \<and>
     ift_start empty_target (ftr_manifest r) receive_policy_default = (Ok t :: (_, unit FileTransferError) result) \<and>
     ift_file (fst (push_all (map ((!) es) [1, 0, 1]) t :: _ \<times> (_, unit FileTransferError) result list)) = [7, 8, 9]"
proof -
  have chunks: "chunk_count 3 2 = (Ok 2 :: (_, unit FileTransferError) result)"
    by (simp add: chunk_count_def validate_chunk_payload_len_def)
  have safe: "is_safe_file_name ''a.txt''"
    by (simp add: is_safe_file_name_def path_components_def inner_component_def)
  obtain r where r: "from_open_file [7, 8, 9] True 3 ''a.txt'' sample_transfer 100 =
       (Ok r :: (_, unit FileTransferError) result)" and name: "ftm_name (ftr_manifest r) = ''a.txt''"
    and rest: "ftm_group (ftr_manifest r) = None" "ftm_size_bytes (ftr_manifest r) = 3"
      "ftm_chunk_payload_len (ftr_manifest r) = 2" "ftr_total_chunks r = 2"
    using crc_exact_take [of 2 3 "[7, 8, 9]" crc_new] chunks safe
    by (simp add: from_open_file_def sample_transfer_def transfer_spec_new_def
        validate_chunk_payload_len_def word_less_nat_alt)
  obtain t where t: "ift_start empty_target (ftr_manifest r) receive_policy_default = (Ok t :: (_, unit FileTransferError) result)"
    using chunks safe by (simp add: ift_start_def io_check_def empty_target_def relative_target_def path_components_def inner_component_def validate_manifest_def name rest
        validate_chunk_payload_len_def receive_policy_default_def word_less_nat_alt)
  have arrive: "set [1, 0, 1] = {..<unat (ftr_total_chunks r)}" by (auto simp: rest)
  from r have r': "from_open_file [7, 8, 9] True (word_of_nat (length [7, 8, 9 :: u8])) ''a.txt'' sample_transfer 100 =
       (Ok r :: (_, unit FileTransferError) result)" by simp
  show ?thesis
    using file_transfer_roundtrip [OF r' _ t arrive, of "\<lambda>_. Ok []"] r t by (fastforce split: prod.splits)
qed

text \<open>
  Nothing a peer sends corrupts the receiver's accounts.  After any sequence of envelopes the file
  still has its announced length, the bitmap marks only existing chunks, and the chunk counter is the
  number of distinct chunks marked.
\<close>

theorem receiver_invariant:
  fixes es :: "DataEnvelope list"
  assumes "ift_start fs m policy = (Ok t :: (_, 'e FileTransferError) result)"
  defines "t' \<equiv> foldl (\<lambda>t e. fst (ift_push_chunk None e t :: _ \<times> (_, 'e FileTransferError) result)) t es"
  shows "length (ift_file t') = file_len t' \<and> received_set t' \<subseteq> {..<unat (ift_total_chunks t')} \<and>
    unat (ift_received_chunks t') = card (received_set t')"
proof -
  have "ift_inv t'" unfolding t'_def
    by (rule receiver.run_inv) (simp add: ift_start_inv [OF assms(1)])
  then show ?thesis unfolding ift_inv_def by blast
qed

lemma receiver_invariant_witness:
  "\<exists>t. ift_start empty_target \<lparr>ftm_transfer_id = 1, ftm_file_object_id = 3, ftm_name = ''a'', ftm_group = None,
       ftm_mime_type = None, ftm_size_bytes = 0, ftm_chunk_payload_len = 2, ftm_checksum_crc32 = 0\<rparr>
       receive_policy_default = (Ok t :: (_, unit FileTransferError) result) \<and>
     length (ift_file (foldl (\<lambda>t e. fst (ift_push_chunk None e t :: _ \<times> (_, unit FileTransferError) result)) t [])) = 0"
proof -
  let ?m = "\<lparr>ftm_transfer_id = 1, ftm_file_object_id = 3, ftm_name = ''a'', ftm_group = None,
       ftm_mime_type = None, ftm_size_bytes = 0, ftm_chunk_payload_len = 2, ftm_checksum_crc32 = 0\<rparr>"
  obtain t where t: "ift_start empty_target ?m receive_policy_default = (Ok t :: (_, unit FileTransferError) result)"
    and m: "ift_manifest t = ?m"
    by (simp add: ift_start_def io_check_def empty_target_def relative_target_def path_components_def inner_component_def validate_manifest_def is_safe_file_name_def path_components_def
        inner_component_def validate_chunk_payload_len_def chunk_count_def receive_policy_default_def)
  show ?thesis using receiver_invariant [OF t, of "[]"] t m by auto
qed

text \<open>
  C17. Publication without the overwrite permission never replaces a file.  A transfer that finishes has
  every chunk and the announced checksum.  With the permission it is renamed to the requested path, whatever is
  there; without it the published name is one for which the atomic no-replace operation succeeded, every
  earlier candidate was already taken, and the candidates are pairwise different names.
\<close>

theorem finish_publishes_safely:
  assumes inv: "ift_inv t" and fin: "ift_finish publish rename_error t = (Ok path :: (string, 'e FileTransferError) result)"
  shows "received_set t = {..<unat (ift_total_chunks t)} \<and>
    checksum_crc32 (ift_file t) = ftm_checksum_crc32 (ift_manifest t) \<and>
    (if ift_allow_overwrite t then path = ift_path t
     else \<exists>j < 100000. path = numbered_destination (ift_path t) j \<and> publish path = None \<and>
       (\<forall>i < j. publish (numbered_destination (ift_path t) i) = Some AlreadyExists \<and>
              numbered_destination (ift_path t) i \<noteq> path))"
proof -
  have f: "ift_received_chunks t = ift_total_chunks t"
    "checksum_crc32 (ift_file t) = ftm_checksum_crc32 (ift_manifest t)"
    using fin inv by (auto simp: ift_finish_def try_bind_eq_Ok checksum_file ift_inv_def split: if_splits)
  have "received_set t \<subseteq> {..<unat (ift_total_chunks t)}" "card (received_set t) = unat (ift_total_chunks t)"
    using inv f(1) unfolding ift_inv_def by metis+
  then have "received_set t = {..<unat (ift_total_chunks t)}" by (simp add: card_subset_eq)
  moreover have "if ift_allow_overwrite t then path = ift_path t
     else \<exists>j < 100000. path = numbered_destination (ift_path t) j \<and> publish path = None \<and>
       (\<forall>i < j. publish (numbered_destination (ift_path t) i) = Some AlreadyExists \<and>
              numbered_destination (ift_path t) i \<noteq> path)"
  proof (cases "ift_allow_overwrite t")
    case True
    then show ?thesis using fin by (auto simp: ift_finish_def try_bind_eq_Ok split: if_splits option.splits)
  next
    case False
    then have "publish_loop publish (ift_path t) 0 100000 = (Ok path :: (string, 'e FileTransferError) result)"
      using fin by (auto simp: ift_finish_def try_bind_eq_Ok split: if_splits)
    from publish_loop_Ok [OF this] obtain j where j: "j < 100000" "path = numbered_destination (ift_path t) j"
      "publish path = None" "\<forall>i < j. publish (numbered_destination (ift_path t) i) = Some AlreadyExists"
      by auto
    have "numbered_destination (ift_path t) i \<noteq> path" if "i < j" for i
      using that numbered_inj [of "ift_path t" i j] j(2) by auto
    then show ?thesis using False j by auto
  qed
  ultimately show ?thesis using f(2) by blast
qed

lemma finish_publishes_safely_witness:
  "\<exists>t path. ift_finish (\<lambda>p. if p = ''a'' then Some AlreadyExists else None) None t =
      (Ok path :: (string, unit FileTransferError) result) \<and> path = ''a (1)''"
proof -
  let ?m = "\<lparr>ftm_transfer_id = 1, ftm_file_object_id = 3, ftm_name = ''a'', ftm_group = None,
       ftm_mime_type = None, ftm_size_bytes = 0, ftm_chunk_payload_len = 2, ftm_checksum_crc32 = 0\<rparr>"
  obtain t where t: "ift_start empty_target ?m receive_policy_default = (Ok t :: (_, unit FileTransferError) result)"
    and f: "ift_manifest t = ?m" "ift_path t = ''a''" "\<not> ift_allow_overwrite t" "ift_file t = []"
      "ift_received_chunks t = 0" "ift_total_chunks t = 0"
    by (simp add: ift_start_def io_check_def empty_target_def relative_target_def path_components_def inner_component_def validate_manifest_def is_safe_file_name_def path_components_def
        inner_component_def validate_chunk_payload_len_def chunk_count_def receive_policy_default_def)
  let ?p = "\<lambda>p. if p = ''a'' then Some AlreadyExists else None"
  have "of_char CHR ''1'' = (49 :: nat)" by simp
  then have digit: "char_of (49 :: nat) = CHR ''1''" by (metis char_of_char)
  have one: "numbered_destination ''a'' (Suc 0) = ''a (1)''"
    by (simp add: numbered_destination_def parent_and_name_def split_last_dot_def dec_string.simps digit)
  have loop: "publish_loop ?p ''a'' 0 (Suc (Suc n)) = (Ok ''a (1)'' :: (string, unit FileTransferError) result)" for n
    by (simp add: one) (simp add: numbered_destination_def)
  have "(100000 :: nat) = Suc (Suc 99998)" by simp
  then have fin: "ift_finish ?p None t = (Ok ''a (1)'' :: (string, unit FileTransferError) result)"
    using loop [of 99998] f by (simp add: ift_finish_def checksum_file checksum_crc32_def del: publish_loop.simps)
  from finish_publishes_safely [OF conjunct1 [OF ift_start_inv [OF t]] fin] fin show ?thesis by blast
qed

lemma walk_parents_Ok:
  assumes "walk_parents fs d cs = (Ok () :: (unit, 'e FileTransferError) result)" "0 < n" "n \<le> length cs"
  shows "rfs_metadata fs (d @ take n cs) = EntryDir \<or>
    rfs_metadata fs (d @ take n cs) = EntryMissing \<and> rfs_create_dir fs (d @ take n cs) = None"
  using assms
proof (induction cs arbitrary: d n)
  case (Cons c cs)
  have first: "rfs_metadata fs (d @ [c]) = EntryDir \<or> rfs_metadata fs (d @ [c]) = EntryMissing \<and> rfs_create_dir fs (d @ [c]) = None"
    and rest: "walk_parents fs (d @ [c]) cs = (Ok () :: (unit, 'e FileTransferError) result)"
    using Cons.prems(1) by (auto simp: Let_def split: dir_entry.splits option.splits)
  show ?case
  proof (cases "n = 1")
    case False
    then show ?thesis using Cons.IH [OF rest, of "n - 1"] Cons.prems(2,3) by (cases n) auto
  qed (use first in simp)
qed simp

lemma valid_manifest_paths:
  assumes "validate_manifest m policy = (Ok () :: (unit, 'e FileTransferError) result)"
  shows "CHR ''/'' \<notin> set (ftm_name m) \<and> ftm_name m \<noteq> ''..'' \<and> ftm_name m \<noteq> [] \<and>
    (case ftm_group m of None \<Rightarrow> True
     | Some g \<Rightarrow> hd (ftg_relative_path g) \<noteq> CHR ''/'' \<and> ''..'' \<notin> set (split_path (ftg_relative_path g)))"
proof -
  have name: "is_safe_file_name (ftm_name m)" using assms by (auto simp: validate_manifest_def split: if_splits)
  have "\<not> is_safe_file_name ''..''"
    by (simp add: is_safe_file_name_def path_components_def inner_component_def)
  then have "ftm_name m \<noteq> ''..''" using name by metis
  moreover have "CHR ''/'' \<notin> set (ftm_name m)" "ftm_name m \<noteq> []"
    using name unfolding is_safe_file_name_def list_ex_iff by blast+
  moreover have "hd p \<noteq> CHR ''/'' \<and> ''..'' \<notin> set (split_path p)" if safe: "is_safe_relative_path p" for p
  proof -
    obtain q qs where q: "split_path p = q # qs" using split_path_ne by (cases "split_path p") auto
    have all: "list_all (\<lambda>c. case c of Normal p \<Rightarrow> p \<noteq> [] | _ \<Rightarrow> False) (path_components p)" "p \<noteq> []"
      using safe by (simp_all add: is_safe_relative_path_def)
    have "''..'' \<notin> set (q # qs)"
      using all(1) by (auto simp: path_components_def q inner_component_def list_all_iff split: if_splits)
    moreover have "hd p \<noteq> CHR ''/''"
      using all q by (cases p) (auto simp: path_components_def split: if_splits list.splits, metis split_path_ne)
    ultimately show ?thesis using q by simp
  qed
  ultimately show ?thesis using assms
    by (auto simp: validate_manifest_def validate_group_metadata_def try_bind_eq_Ok
        split: if_splits option.splits)
qed

text \<open>
  C16. A received file lands inside the target directory.  When a transfer starts, its file name has no
  separator and is not the parent directory, its relative path is not absolute and has no parent-directory
  part, and every directory between the target and the file is a real directory or was created by this
  transfer; a symbolic link on the way refuses it.
\<close>

theorem accepted_paths_stay_inside:
  assumes start: "ift_start fs m policy = (Ok t :: (IncomingFileTransfer, 'e FileTransferError) result)"
  shows "CHR ''/'' \<notin> set (ftm_name m) \<and> ftm_name m \<noteq> ''..'' \<and> ftm_name m \<noteq> [] \<and>
    (case ftm_group m of None \<Rightarrow> True
     | Some g \<Rightarrow> hd (ftg_relative_path g) \<noteq> CHR ''/'' \<and> ''..'' \<notin> set (split_path (ftg_relative_path g))) \<and>
    (\<forall>n. 0 < n \<and> n \<le> length (butlast (path_components (ift_path t))) \<longrightarrow>
      (let d = take n (butlast (path_components (ift_path t))) in
       rfs_metadata fs d = EntryDir \<or> rfs_metadata fs d = EntryMissing \<and> rfs_create_dir fs d = None))"
proof -
  have valid: "validate_manifest m policy = (Ok () :: (unit, 'e FileTransferError) result)"
    and walk: "walk_parents fs [] (butlast (path_components (relative_target m))) = (Ok () :: (unit, 'e FileTransferError) result)"
    and path: "ift_path t = relative_target m"
    using start by (auto simp: ift_start_def try_bind_eq_Ok)
  show ?thesis using valid_manifest_paths [OF valid] walk_parents_Ok [OF walk] unfolding path Let_def by auto
qed

lemma accepted_paths_stay_inside_witness:
  "\<exists>m t. ftm_group m \<noteq> None \<and> ift_start empty_target m receive_policy_default =
      (Ok t :: (IncomingFileTransfer, unit FileTransferError) result) \<and> ''..'' \<notin> set (split_path (ift_path t))"
proof -
  let ?m = "\<lparr>ftm_transfer_id = 1, ftm_file_object_id = 3, ftm_name = ''y'',
     ftm_group = Some \<lparr>ftg_group_id = 1, ftg_file_index = 0, ftg_file_count = 1, ftg_relative_path = ''x/y'',
       ftg_group_total_size_bytes = 0, ftg_group_checksum_crc32 = 0\<rparr>,
     ftm_mime_type = None, ftm_size_bytes = 0, ftm_chunk_payload_len = 2, ftm_checksum_crc32 = 0\<rparr>"
  have valid: "validate_manifest ?m receive_policy_default = (Ok () :: (unit, unit FileTransferError) result)"
    by (simp add: validate_manifest_def is_safe_file_name_def path_components_def
        inner_component_def validate_chunk_payload_len_def chunk_count_def receive_policy_default_def
        validate_group_metadata_def is_safe_relative_path_def word_less_nat_alt word_le_nat_alt)
  have "\<exists>t. ift_start empty_target ?m receive_policy_default = (Ok t :: (_, unit FileTransferError) result) \<and> ift_path t = ''x/y''"
    by (simp add: ift_start_def valid io_check_def empty_target_def relative_target_def path_components_def
        inner_component_def chunk_count_def validate_chunk_payload_len_def)
  then obtain t where t: "ift_start empty_target ?m receive_policy_default = (Ok t :: (_, unit FileTransferError) result)"
    and p: "ift_path t = ''x/y''" by blast
  have "''..'' \<notin> set (split_path ''x/y'')" using accepted_paths_stay_inside [OF t] by auto
  then show ?thesis using t p by (intro exI [of _ ?m] exI [of _ t]) simp
qed

text \<open>
  Manifests and control messages cross the wire unchanged.  Given that decoding inverts encoding
  (the bincode contract), a manifest the sender accepts and whose encoding fits the 64 KiB limit comes
  out of the receiver's manifest assembler as the same manifest, and a control message comes out of its
  envelope as the same message.
\<close>

theorem manifest_and_control_roundtrip:
  fixes enc :: "FileTransferManifest \<Rightarrow> (bytes, 'e) result" and cenc :: "'c \<Rightarrow> (bytes, 'e) result"
    and dec :: "bytes \<Rightarrow> (FileTransferManifest, 'e) result" and cdec :: "bytes \<Rightarrow> ('c, 'e) result"
  assumes contract: "\<And>x bs. enc x = Ok bs \<Longrightarrow> dec bs = Ok x" "\<And>x bs. cenc x = Ok bs \<Longrightarrow> cdec bs = Ok x"
    and sent: "manifest_to_envelope enc m oid sid seq ts = Ok e" "length (env_payload e) \<le> 65536"
    and csent: "control_to_envelope cenc c oid sid seq ts = Ok ce"
  shows "(\<exists>a. manifest_from_first_chunk e = (Ok a :: (_, 'e FileTransferError) result) \<and>
      is_ok (snd (manifest_push_chunk e a :: _ \<times> (_, 'e FileTransferError) result)) \<and>
      manifest_finish dec receive_policy_default
        (fst (manifest_push_chunk e a :: _ \<times> (_, 'e FileTransferError) result)) = Ok m) \<and>
    control_from_envelope cdec ce = Ok c"
proof
  obtain bs where bs: "enc m = Ok bs" and valid: "validate_manifest m receive_policy_default = (Ok () :: (_, 'e FileTransferError) result)"
    and e: "e = reliable_object_chunk Kind_FileManifest sid seq ts
             \<lparr>ck_object_id = oid, ck_chunk_index = 0, ck_total_chunks = 1, ck_offset = 0,
              ck_total_size = word_of_nat (length bs)\<rparr> (Some (checksum_crc32 bs)) bs"
    using sent(1) by (auto simp: manifest_to_envelope_def try_bind_eq_Ok map_err_eq_Ok)
  have small: "length bs \<le> 65536"
    using sent(2) by (simp add: e reliable_object_chunk_def envelope_new_def Let_def)
  let ?a = "roa_new oid 1 (word_of_nat (length bs)) (Some (checksum_crc32 bs))"
  have first: "manifest_from_first_chunk e = (Ok ?a :: (_, 'e FileTransferError) result)"
    using small by (simp add: manifest_from_first_chunk_def e reliable_object_chunk_def envelope_new_def Let_def
        ensure_content_kind_def word_less_nat_alt unat_of_nat)
  let ?b = "?a\<lparr>roa_received_indices := [0], roa_received_bytes := word_of_nat (length bs), roa_chunks := [Some bs]\<rparr>"
  have "push_chunk e ?a = (?b, Ok (roa_progress ?b))"
    by (simp add: push_chunk_def e reliable_object_chunk_def envelope_new_def Let_def roa_new_def
        validate_chunk_def expected_offset_def)
  then have push: "manifest_push_chunk e ?a = (?b, Ok (roa_progress ?b) :: (_, 'e FileTransferError) result)"
    by (simp add: manifest_push_chunk_def ensure_content_kind_def)
      (simp add: e reliable_object_chunk_def envelope_new_def Let_def)
  have "manifest_finish dec receive_policy_default ?b = Ok m"
    using contract(1) [OF bs] valid by (simp add: manifest_finish_def roa_finish_def roa_new_def)
  then show "\<exists>a. manifest_from_first_chunk e = (Ok a :: (_, 'e FileTransferError) result) \<and>
      is_ok (snd (manifest_push_chunk e a :: _ \<times> (_, 'e FileTransferError) result)) \<and>
      manifest_finish dec receive_policy_default
        (fst (manifest_push_chunk e a :: _ \<times> (_, 'e FileTransferError) result)) = Ok m"
    using first push by (intro exI [of _ ?a]) simp
  obtain cb where cb: "cenc c = Ok cb" and ce: "ce = (let e = reliable_object_chunk Kind_FileControl sid seq ts
             \<lparr>ck_object_id = oid, ck_chunk_index = 0, ck_total_chunks = 1, ck_offset = 0,
              ck_total_size = word_of_nat (length cb)\<rparr> (Some (checksum_crc32 cb)) cb
       in e\<lparr>env_header := (env_header e)\<lparr>dh_lane := Lane_Interactive, dh_priority := Prio_Interactive\<rparr>\<rparr>)"
    using csent by (auto simp: control_to_envelope_def try_bind_eq_Ok map_err_eq_Ok Let_def)
  show "control_from_envelope cdec ce = Ok c"
    using contract(2) [OF cb] by (simp add: ce control_from_envelope_def ensure_content_kind_def
        reliable_object_chunk_def envelope_new_def Let_def)
qed

lemma manifest_and_control_roundtrip_witness:
  "\<exists>ce. control_from_envelope (\<lambda>bs. Ok (length bs)) ce = (Ok 5 :: (nat, unit FileTransferError) result)"
proof -
  let ?m = "\<lparr>ftm_transfer_id = 1, ftm_file_object_id = 3, ftm_name = ''y'', ftm_group = None,
        ftm_mime_type = None, ftm_size_bytes = 0, ftm_chunk_payload_len = 2, ftm_checksum_crc32 = 0\<rparr>"
  define enc where "enc = (\<lambda>m. if m = ?m then Ok [1] else Err () :: (bytes, unit) result)"
  define dec where "dec = (\<lambda>bs :: bytes. Ok ?m :: (FileTransferManifest, unit) result)"
  define cenc where "cenc = (\<lambda>n :: nat. Ok (replicate n 0) :: (bytes, unit) result)"
  have valid: "validate_manifest ?m receive_policy_default = (Ok () :: (unit, unit FileTransferError) result)"
    by (simp add: validate_manifest_def is_safe_file_name_def path_components_def
        inner_component_def validate_chunk_payload_len_def chunk_count_def receive_policy_default_def)
  obtain e where e: "manifest_to_envelope enc ?m 9 1 1 0 = Ok e" "length (env_payload e) \<le> 65536"
    using valid by (simp add: manifest_to_envelope_def enc_def reliable_object_chunk_def envelope_new_def Let_def)
  obtain ce where ce: "control_to_envelope cenc 5 9 1 1 0 = Ok ce"
    by (simp add: control_to_envelope_def cenc_def Let_def)
  have d: "enc x = Ok bs \<Longrightarrow> dec bs = Ok x" for x bs by (simp add: enc_def dec_def split: if_splits)
  have cd: "cenc x = Ok bs \<Longrightarrow> Ok (length bs) = (Ok x :: (nat, unit) result)" for x bs by (auto simp: cenc_def)
  from manifest_and_control_roundtrip [where enc = enc and dec = dec and cenc = cenc
      and cdec = "\<lambda>bs. Ok (length bs)", OF _ _ e ce] d cd show ?thesis by blast
qed

end
