(* ===== verification/Hash_Tables.thy ===== *)
theory Hash_Tables
  imports Base
begin

text \<open>
  Hash maps as association lists without repeated keys: what lookups, sizes and contents are after an
  insertion, a removal or \<open>retain\<close>.
\<close>

lemma map_of_AList:
  "map_of (AList.update k v m) = (map_of m)(k \<mapsto> v)" "map_of (AList.delete k m) = (map_of m)(k := None)"
  by (simp_all add: update_conv' delete_conv')

lemma map_of_retain:
  "hash_wf m \<Longrightarrow> map_of (filter P m) k = (case map_of m k of Some v \<Rightarrow> if P (k, v) then Some v else None | None \<Rightarrow> None)"
  by (induction m) (force simp: hash_wf_def split: option.split dest: map_of_SomeD)+

lemma map_of_kept:
  "hash_wf m \<Longrightarrow> map_of (filter (\<lambda>(_, s). P s) m) i = (case map_of m i of Some s \<Rightarrow> if P s then Some s else None | None \<Rightarrow> None)"
  by (simp add: map_of_retain split: option.split)

lemma map_of_values: "map_of (map (\<lambda>(k, v). (k, f v)) m) k = map_option f (map_of m k)"
  by (induction m) auto

lemma hash_wf_values [simp]: "hash_wf (map (\<lambda>(k, v). (k, f v)) m) = hash_wf m"
  by (simp add: hash_wf_def case_prod_beta comp_def)

lemma alist_update_new: "map_of l k = None \<Longrightarrow> AList.update k v l = l @ [(k, v)]"
  by (induction l) (auto split: if_splits)

lemma mset_update:
  "map_of l k = Some v0 \<Longrightarrow> mset (map snd (AList.update k v l)) + {#v0#} = mset (map snd l) + {#v#}"
  by (induction l) (auto split: if_splits)

lemma mset_delete:
  "distinct (map fst l) \<Longrightarrow> map_of l k = Some v0 \<Longrightarrow> mset (map snd (AList.delete k l)) + {#v0#} = mset (map snd l)"
proof (induction l)
  case (Cons x l)
  show ?case
  proof (cases "fst x = k")
    case True
    then have "AList.delete k l = l" using Cons.prems(1) by (auto simp: delete_id)
    then show ?thesis using True Cons.prems by (cases x) simp
  qed (use Cons in \<open>cases x; simp\<close>)
qed simp

lemma length_update_old: "map_of l k = Some v0 \<Longrightarrow> length (AList.update k v l) = length l"
  by (induction l) (auto split: if_splits)

lemma hash_wf_filter: "hash_wf m \<Longrightarrow> hash_wf (filter P m)"
  by (simp add: hash_wf_def distinct_map_filter)

lemmas hash_wf_ops = hash.wf_ins hash.wf_rem hash_wf_filter

lemma hash_wf_mem: "hash_wf m \<Longrightarrow> (k, v) \<in> set m \<longleftrightarrow> map_of m k = Some v"
  by (simp add: hash_wf_def map_of_eq_Some_iff)

lemma length_update_le: "length (AList.update k v m) \<le> Suc (length m)"
  by (cases "map_of m k") (simp_all add: alist_update_new length_update_old)

end
