(* ===== verification/File_Inbound.thy ===== *)
theory File_Inbound
  imports File_Transfer Hash_Tables
begin

text \<open>
  The receiving half of the file transfer runtime (\<open>remote_core/src/file_transfer_runtime.rs\<close>,
  \<open>InboundFileTransfers\<close>): assembling manifests, writing chunks, committing files and groups of files,
  cancellations, deferred changes of the receive directory, and the acknowledgement of every envelope.
  Hash maps are association lists without repeated keys.  A path is the list of its components, as
  \<open>Path\<close> comparison reads it.  What the file system answers while one envelope is handled is the
  argument \<open>inbound_env\<close>; \<open>dec\<close> and \<open>decc\<close> are bincode's decoders, \<open>display\<close> the text of an error.
\<close>

section \<open>Messages, events and paths\<close>

text \<open>\<open>'q\<close> and \<open>'s\<close>: the requests and responses of the shared-file browser.\<close>

datatype ('q, 's) FileTransferControl =
    CancelTransfer u64 u64
  | CancelGroup u64
  | ChunkAccepted u64 u32
  | Rejected u64 string
  | ClipboardGroup u64
  | SharedRequest u64 'q
  | SharedResponse u64 's

type_synonym PathBuf = "Component list"

datatype 's FileTransferEvent =
    SharedResponseEvent u64 's
  | IncomingClipboardReady u64 "PathBuf list"
  | OutgoingGroupStarted u64 u32 u64
  | OutgoingStarted u64 u64 "FileTransferGroup option" string u64 u32
  | OutgoingProgress u64 u64 u32 u32 u64 u64
  | OutgoingCompleted u64 u64 "FileTransferGroup option"
  | OutgoingCancelled u64 u64 "FileTransferGroup option"
  | OutgoingGroupCompleted u64 u32 u64
  | OutgoingGroupCancelled u64
  | IncomingStarted u64 u64 "FileTransferGroup option" string u64 PathBuf
  | IncomingProgress u64 u64 u32 u32 u64 u64
  | IncomingCompleted u64 u64 "FileTransferGroup option" PathBuf u64
  | IncomingCancelled u64 u64 "FileTransferGroup option" PathBuf
  | IncomingGroupCompleted u64 "PathBuf list" u64
  | IncomingGroupCancelled u64
  | ErrorEvent "u64 option" string

definition join_path :: "PathBuf \<Rightarrow> string \<Rightarrow> PathBuf" where
  "join_path dir relative = dir @ path_components relative"

definition parent_dir :: "PathBuf \<Rightarrow> PathBuf option" where
  "parent_dir p = (if p = [] \<or> last p = RootDir then None else Some (butlast p))"

datatype fs_removal = Removed | RemoveNotFound | RemoveNotEmpty | RemoveError io_error

text \<open>
  The answers of the file system: to the preparation of a transfer, to the write of a chunk (\<open>Some n\<close>:
  it failed after \<open>n\<close> bytes), to flushing, publishing, renaming and syncing the directory, and to the
  removal of partial files, published files and directories.
\<close>

record inbound_env =
  ie_fs :: receive_fs
  ie_fault :: "nat option"
  ie_flush :: "io_error option"
  ie_publish :: "string \<Rightarrow> io_error option"
  ie_rename :: "io_error option"
  ie_sync :: "io_error option"
  ie_remove_part :: "u64 \<Rightarrow> fs_removal"
  ie_remove_file :: "PathBuf \<Rightarrow> fs_removal"
  ie_remove_dir :: "PathBuf \<Rightarrow> fs_removal"

function remove_dirs :: "(PathBuf \<Rightarrow> fs_removal) \<Rightarrow> PathBuf \<Rightarrow> PathBuf option \<Rightarrow>
    PathBuf list \<times> (unit, 'e FileTransferError) result" where
  "remove_dirs remove receive_dir None = ([], Ok ())"
| "remove_dirs remove receive_dir (Some dir) =
     (if dir = receive_dir then ([], Ok ())
      else case remove dir of
        Removed \<Rightarrow> (case remove_dirs remove receive_dir (parent_dir dir) of (ds, r) \<Rightarrow> (dir # ds, r))
      | RemoveNotFound \<Rightarrow> ([], Ok ())
      | RemoveNotEmpty \<Rightarrow> ([], Ok ())
      | RemoveError e \<Rightarrow> ([], Err (Io e)))"
  by pat_completeness auto

termination
  by (relation "measure (\<lambda>(_, _, p). case p of None \<Rightarrow> 0 | Some d \<Rightarrow> Suc (length d))")
    (auto simp: parent_dir_def)

text \<open>The directories removed, and the outcome.\<close>

definition cleanup_empty_parent_dirs :: "inbound_env \<Rightarrow> PathBuf \<Rightarrow> PathBuf \<Rightarrow>
    PathBuf list \<times> (unit, 'e FileTransferError) result" where
  "cleanup_empty_parent_dirs env path receive_dir = remove_dirs (ie_remove_dir env) receive_dir (parent_dir path)"

definition remove_materialized_file :: "inbound_env \<Rightarrow> PathBuf \<Rightarrow> PathBuf \<Rightarrow> (unit, 'e FileTransferError) result" where
  "remove_materialized_file env path receive_dir =
     (case ie_remove_file env path of
        RemoveError e \<Rightarrow> Err (Io e)
      | RemoveNotEmpty \<Rightarrow> Err (Io OtherIo)
      | _ \<Rightarrow> snd (cleanup_empty_parent_dirs env path receive_dir))"

definition group_publish_path :: "PathBuf \<Rightarrow> string \<Rightarrow> (PathBuf, 'e FileTransferError) result" where
  "group_publish_path receive_dir relative =
     (case path_components relative of
        Normal first # rest \<Rightarrow> if list_all is_normal rest then Ok (receive_dir @ [Normal first]) else Err InvalidFileName
      | _ \<Rightarrow> Err InvalidFileName)"

definition received_group_publish_path :: "PathBuf \<Rightarrow> string \<Rightarrow> PathBuf \<Rightarrow> (PathBuf, 'e FileTransferError) result" where
  "received_group_publish_path receive_dir relative actual =
     try_bind (group_publish_path receive_dir relative) (\<lambda>original.
       Ok (if length (path_components relative) = 1 then actual else original))"

section \<open>Groups of files\<close>

record IncomingFileGroup =
  ifg_total_size :: u64
  ifg_checksum :: u32
  ifg_file_count :: u32
  ifg_completed_files :: "PathBuf option list"
  ifg_completed_metadata :: "(string \<times> u64 \<times> u32) option list"
  ifg_publish_paths :: "PathBuf list"
  ifg_completed_count :: u32

definition ifg_new :: "FileTransferGroup \<Rightarrow> IncomingFileGroup" where
  "ifg_new g = \<lparr>ifg_total_size = ftg_group_total_size_bytes g, ifg_checksum = ftg_group_checksum_crc32 g,
     ifg_file_count = ftg_file_count g, ifg_completed_files = replicate (unat (ftg_file_count g)) None,
     ifg_completed_metadata = replicate (unat (ftg_file_count g)) None, ifg_publish_paths = [],
     ifg_completed_count = 0\<rparr>"

definition ifg_record :: "FileTransferGroup \<Rightarrow> PathBuf \<Rightarrow> PathBuf \<Rightarrow> u64 \<Rightarrow> u32 \<Rightarrow> IncomingFileGroup \<Rightarrow>
    (IncomingFileGroup, 'e FileTransferError) result" where
  "ifg_record g path publish_path sz crc ig =
     (if ftg_file_count g \<noteq> ifg_file_count ig \<or> ftg_file_index g \<ge> ifg_file_count ig
         \<or> ftg_group_total_size_bytes g \<noteq> ifg_total_size ig \<or> ftg_group_checksum_crc32 g \<noteq> ifg_checksum ig
      then Err (InvalidChunk ''file group completion metadata is inconsistent'')
      else let i = unat (ftg_file_index g);
               fresh = (ifg_completed_files ig ! i = None) in
        Ok (ig\<lparr>ifg_completed_count := (if fresh then saturating_add (ifg_completed_count ig) 1 else ifg_completed_count ig),
               ifg_publish_paths := (if fresh \<and> publish_path \<notin> set (ifg_publish_paths ig)
                 then ifg_publish_paths ig @ [publish_path] else ifg_publish_paths ig),
               ifg_completed_files := (ifg_completed_files ig)[i := Some path],
               ifg_completed_metadata := (ifg_completed_metadata ig)[i := Some (ftg_relative_path g, sz, crc)]\<rparr>))"

text \<open>The bytes under the group's checksum; strings are their bytes.\<close>

definition str_bytes :: "string \<Rightarrow> bytes" where
  "str_bytes s = map (\<lambda>c. word_of_nat (of_char c)) s"

definition metadata_bytes :: "string \<times> u64 \<times> u32 \<Rightarrow> bytes" where
  "metadata_bytes = (\<lambda>(path, sz, crc). str_bytes path @ [0] @ to_be 8 sz @ to_be 4 crc)"

fun metadata_digest :: "u64 \<Rightarrow> bytes \<Rightarrow> (string \<times> u64 \<times> u32) option list \<Rightarrow> (u64 \<times> bytes) option" where
  "metadata_digest tot bs [] = Some (tot, bs)"
| "metadata_digest tot bs (None # ms) = None"
| "metadata_digest tot bs (Some (path, sz, crc) # ms) =
     (case checked_add tot sz of
        None \<Rightarrow> None
      | Some next_total \<Rightarrow> metadata_digest next_total (bs @ metadata_bytes (path, sz, crc)) ms)"

definition ifg_valid_checksum :: "IncomingFileGroup \<Rightarrow> bool" where
  "ifg_valid_checksum ig =
     (case metadata_digest 0 [] (ifg_completed_metadata ig) of
        None \<Rightarrow> False
      | Some (tot, bs) \<Rightarrow> tot = ifg_total_size ig \<and> checksum_crc32 bs = ifg_checksum ig)"

definition ifg_is_complete :: "IncomingFileGroup \<Rightarrow> bool" where
  "ifg_is_complete ig = (ifg_completed_count ig = ifg_file_count ig)"

definition ifg_completed_paths :: "IncomingFileGroup \<Rightarrow> PathBuf list" where
  "ifg_completed_paths ig = map the (filter (\<lambda>p. p \<noteq> None) (ifg_completed_files ig))"

section \<open>The inbound state\<close>

text \<open>An incoming transfer is kept with the directory it was started in: its path is below it.\<close>

record InboundFileTransfers =
  it_clipboard_groups :: "u64 list"
  it_receive_dir :: PathBuf
  it_receive_policy :: FileReceivePolicy
  it_manifest_assemblers :: "(u64 \<times> ReliableObjectAssembler) list"
  it_incoming_files :: "(u64 \<times> PathBuf \<times> IncomingFileTransfer) list"
  it_incoming_groups :: "(u64 \<times> IncomingFileGroup) list"
  it_cancelled_file_objects :: "u64 list"
  it_cancelled_groups :: "u64 list"
  it_pending_receive_config :: "(PathBuf \<times> FileReceivePolicy) option"
  it_completed_files :: "(u64 \<times> FileTransferManifest) list"
  it_completed_order :: "u64 list"

type_synonym ('s, 'e) handled = "InboundFileTransfers \<times> 's FileTransferEvent list \<times> (unit, 'e FileTransferError) result"

definition it_new :: "PathBuf \<Rightarrow> FileReceivePolicy \<Rightarrow> InboundFileTransfers" where
  "it_new dir policy = \<lparr>it_clipboard_groups = [], it_receive_dir = dir, it_receive_policy = policy,
     it_manifest_assemblers = [], it_incoming_files = [], it_incoming_groups = [],
     it_cancelled_file_objects = [], it_cancelled_groups = [], it_pending_receive_config = None,
     it_completed_files = [], it_completed_order = []\<rparr>"

definition has_active_incoming_work :: "InboundFileTransfers \<Rightarrow> bool" where
  "has_active_incoming_work s =
     (it_manifest_assemblers s \<noteq> [] \<or> it_incoming_files s \<noteq> [] \<or> it_incoming_groups s \<noteq> [])"

definition set_receive_config :: "PathBuf \<Rightarrow> FileReceivePolicy \<Rightarrow> InboundFileTransfers \<Rightarrow> InboundFileTransfers" where
  "set_receive_config dir policy s =
     (if has_active_incoming_work s then s\<lparr>it_pending_receive_config := Some (dir, policy)\<rparr>
      else s\<lparr>it_receive_dir := dir, it_receive_policy := policy\<rparr>)"

definition apply_pending_receive_config_if_idle :: "InboundFileTransfers \<Rightarrow> InboundFileTransfers" where
  "apply_pending_receive_config_if_idle s =
     (if has_active_incoming_work s then s
      else case it_pending_receive_config s of
        None \<Rightarrow> s
      | Some (dir, policy) \<Rightarrow>
          s\<lparr>it_pending_receive_config := None, it_receive_dir := dir, it_receive_policy := policy\<rparr>)"

fun evict_completed :: "u64 list \<Rightarrow> (u64 \<times> FileTransferManifest) list \<Rightarrow>
    u64 list \<times> (u64 \<times> FileTransferManifest) list" where
  "evict_completed [] files = ([], files)"
| "evict_completed (old # order) files =
     (if length (old # order) > 4096 then evict_completed order (AList.delete old files) else (old # order, files))"

definition remember_completed :: "FileTransferManifest \<Rightarrow> InboundFileTransfers \<Rightarrow> InboundFileTransfers" where
  "remember_completed m s =
     (case evict_completed (it_completed_order s @ [ftm_file_object_id m])
         (AList.update (ftm_file_object_id m) m (it_completed_files s)) of
        (order, files) \<Rightarrow> s\<lparr>it_completed_order := order, it_completed_files := files\<rparr>)"

definition is_manifest_cancelled :: "FileTransferManifest \<Rightarrow> InboundFileTransfers \<Rightarrow> bool" where
  "is_manifest_cancelled m s =
     (ftm_file_object_id m \<in> set (it_cancelled_file_objects s)
      \<or> (case ftm_group m of None \<Rightarrow> False | Some g \<Rightarrow> ftg_group_id g \<in> set (it_cancelled_groups s)))"

text \<open>The group of a completed file: the last file of a group publishes it.\<close>

definition complete_group :: "FileTransferGroup \<Rightarrow> IncomingFileGroup \<Rightarrow> InboundFileTransfers \<Rightarrow> ('s, 'e) handled" where
  "complete_group g ig s =
     (let gid = ftg_group_id g;
          s1 = s\<lparr>it_incoming_groups := AList.delete gid (it_incoming_groups s),
                 it_clipboard_groups := removeAll gid (it_clipboard_groups s)\<rparr> in
      if \<not> ifg_valid_checksum ig then (s1, [], Err (InvalidChunk ''file group checksum or size mismatch''))
      else (s1, (if gid \<in> set (it_clipboard_groups s) then [IncomingClipboardReady gid (ifg_publish_paths ig)] else [])
                @ [IncomingGroupCompleted gid (ifg_publish_paths ig) (ftg_group_total_size_bytes g)], Ok ()))"

definition record_group_completion :: "FileTransferManifest \<Rightarrow> PathBuf \<Rightarrow> InboundFileTransfers \<Rightarrow> ('s, 'e) handled" where
  "record_group_completion m path s =
     (case ftm_group m of
        None \<Rightarrow> (s, [], Ok ())
      | Some g \<Rightarrow>
          (case received_group_publish_path (it_receive_dir s) (ftg_relative_path g) path of
             Inl err \<Rightarrow> (s, [], Err err)
           | Inr publish_path \<Rightarrow>
               let entry = (case map_of (it_incoming_groups s) (ftg_group_id g) of Some ig \<Rightarrow> ig | None \<Rightarrow> ifg_new g) in
               (case ifg_record g path publish_path (ftm_size_bytes m) (ftm_checksum_crc32 m) entry of
                  Inl err \<Rightarrow>
                    (s\<lparr>it_incoming_groups := AList.update (ftg_group_id g) entry (it_incoming_groups s)\<rparr>, [], Err err)
                | Inr ig \<Rightarrow>
                    let s1 = s\<lparr>it_incoming_groups := AList.update (ftg_group_id g) ig (it_incoming_groups s)\<rparr> in
                    if ifg_is_complete ig then complete_group g ig s1 else (s1, [], Ok ()))))"

section \<open>Handling envelopes\<close>

text \<open>\<open>IncomingFileTransfer::finish\<close> with its flushes: the path of the committed file.\<close>

definition finish_transfer :: "inbound_env \<Rightarrow> PathBuf \<times> IncomingFileTransfer \<Rightarrow> (PathBuf, 'e FileTransferError) result" where
  "finish_transfer env = (\<lambda>(dir, t).
     if ift_received_chunks t \<noteq> ift_total_chunks t
     then Err (IncompleteTransfer (ift_received_chunks t) (ift_total_chunks t))
     else try_bind (io_check (ie_flush env)) (\<lambda>_.
          try_bind (ift_finish (ie_publish env) (ie_rename env) t) (\<lambda>name.
          try_bind (io_check (ie_sync env)) (\<lambda>_. Ok (join_path dir name)))))"

definition complete_incoming :: "inbound_env \<Rightarrow> PathBuf \<times> IncomingFileTransfer \<Rightarrow> InboundFileTransfers \<Rightarrow>
    ('s, 'e) handled" where
  "complete_incoming env incoming s =
     (let m = ift_manifest (snd incoming) in
      case finish_transfer env incoming of
        Inl err \<Rightarrow> (s, [], Err err)
      | Inr path \<Rightarrow>
          (case record_group_completion m path s of
             (s1, evs, Inl err) \<Rightarrow> (s1, evs, Err err)
           | (s1, evs, Inr _) \<Rightarrow>
               (remember_completed m s1,
                evs @ [IncomingCompleted (ftm_transfer_id m) (ftm_file_object_id m) (ftm_group m) path (ftm_size_bytes m)],
                Ok ())))"

definition group_admission :: "FileTransferManifest \<Rightarrow> InboundFileTransfers \<Rightarrow> (unit, 'e FileTransferError) result" where
  "group_admission m s =
     (case ftm_group m of
        None \<Rightarrow> Ok ()
      | Some g \<Rightarrow>
          (case map_of (it_incoming_groups s) (ftg_group_id g) of
             None \<Rightarrow> if length (it_incoming_groups s) \<ge> 32 then Err (InvalidChunk ''too many incoming groups'') else Ok ()
           | Some existing \<Rightarrow>
               if ifg_file_count existing \<noteq> ftg_file_count g \<or> ifg_total_size existing \<noteq> ftg_group_total_size_bytes g
                  \<or> ifg_checksum existing \<noteq> ftg_group_checksum_crc32 g
               then Err (InvalidChunk ''inconsistent file group metadata'') else Ok ()))"

text \<open>\<open>handle_manifest\<close> from the assembled manifest on.\<close>

definition known_manifest :: "u64 \<Rightarrow> InboundFileTransfers \<Rightarrow> FileTransferManifest option" where
  "known_manifest oid s =
     (case map_of (it_incoming_files s) oid of
        Some incoming \<Rightarrow> Some (ift_manifest (snd incoming))
      | None \<Rightarrow> map_of (it_completed_files s) oid)"

definition start_incoming :: "inbound_env \<Rightarrow> FileTransferManifest \<Rightarrow> InboundFileTransfers \<Rightarrow> ('s, 'e) handled" where
  "start_incoming env m s =
     (case ift_start (ie_fs env) m (it_receive_policy s) of
        Inl err \<Rightarrow> (s, [], Err err)
      | Inr t \<Rightarrow>
          let incoming = (it_receive_dir s, t);
              started = IncomingStarted (ftm_transfer_id m) (ftm_file_object_id m) (ftm_group m) (ftm_name m)
                (ftm_size_bytes m) (join_path (it_receive_dir s) (ift_path t)) in
          if ftp_is_complete (ift_progress t)
          then (case complete_incoming env incoming s of (s1, evs, r) \<Rightarrow> (s1, started # evs, r))
          else (s\<lparr>it_incoming_files := AList.update (ftm_file_object_id m) incoming (it_incoming_files s)\<rparr>,
                [started], Ok ()))"

definition admit_manifest :: "inbound_env \<Rightarrow> FileTransferManifest \<Rightarrow> InboundFileTransfers \<Rightarrow> ('s, 'e) handled" where
  "admit_manifest env m s =
     (if is_manifest_cancelled m s then (s, [], Err (InvalidChunk ''transfer was cancelled''))
      else case known_manifest (ftm_file_object_id m) s of
        Some existing \<Rightarrow>
          (s, [], if existing = m then Ok () else Err (InvalidChunk ''conflicting duplicate manifest''))
      | None \<Rightarrow>
          if length (it_incoming_files s) \<ge> 16 then (s, [], Err (InvalidChunk ''too many incoming files''))
          else case group_admission m s of
            Inl err \<Rightarrow> (s, [], Err err)
          | Inr _ \<Rightarrow> start_incoming env m s)"

definition handle_manifest ::
  "(bytes \<Rightarrow> (FileTransferManifest, 'e) result) \<Rightarrow> inbound_env \<Rightarrow> DataEnvelope \<Rightarrow> InboundFileTransfers \<Rightarrow>
     ('s, 'e) handled" where
  "handle_manifest dec env e s =
     (case dh_chunk (env_header e) of
        None \<Rightarrow> (s, [], Err FT_MissingChunkMetadata)
      | Some chunk \<Rightarrow>
          let oid = ck_object_id chunk; found = map_of (it_manifest_assemblers s) oid in
          if length (it_manifest_assemblers s) \<ge> 32 \<and> found = None
          then (s, [], Err (InvalidChunk ''too many incomplete file manifests''))
          else case (case found of Some a \<Rightarrow> Ok a | None \<Rightarrow> manifest_from_first_chunk e) of
            Inl err \<Rightarrow> (s, [], Err err)
          | Inr a \<Rightarrow>
              (case manifest_push_chunk e a of (a', r) \<Rightarrow>
                 let s1 = s\<lparr>it_manifest_assemblers := AList.update oid a' (it_manifest_assemblers s)\<rparr> in
                 (case r of
                    Inl err \<Rightarrow> (s1, [], Err err)
                  | Inr progress \<Rightarrow>
                      if \<not> op_is_complete progress then (s1, [], Ok ())
                      else let s2 = s1\<lparr>it_manifest_assemblers := AList.delete oid (it_manifest_assemblers s1)\<rparr> in
                        (case manifest_finish dec (it_receive_policy s2) a' of
                           Inl err \<Rightarrow> (s2, [], Err err)
                         | Inr m \<Rightarrow> admit_manifest env m s2))))"

definition cancel_one :: "inbound_env \<Rightarrow> u64 \<Rightarrow> u64 \<Rightarrow> PathBuf \<times> IncomingFileTransfer \<Rightarrow> InboundFileTransfers \<Rightarrow>
    ('s, 'e) handled" where
  "cancel_one env tid oid incoming s =
     (let s1 = s\<lparr>it_incoming_files := AList.delete oid (it_incoming_files s)\<rparr>;
          path = join_path (fst incoming) (ift_path (snd incoming)) in
      case ie_remove_part env oid of
        RemoveError e \<Rightarrow> (s1, [], Err (Io e))
      | RemoveNotEmpty \<Rightarrow> (s1, [], Err (Io OtherIo))
      | _ \<Rightarrow>
          (case snd (cleanup_empty_parent_dirs env path (it_receive_dir s)) of
             Inl err \<Rightarrow> (s1, [], Err err)
           | Inr _ \<Rightarrow> (s1, [IncomingCancelled tid oid (ftm_group (ift_manifest (snd incoming))) path], Ok ())))"

definition cancel_incoming_file :: "inbound_env \<Rightarrow> u64 \<Rightarrow> u64 \<Rightarrow> InboundFileTransfers \<Rightarrow> ('s, 'e) handled" where
  "cancel_incoming_file env tid oid s =
     (case map_of (it_incoming_files s) oid of
        None \<Rightarrow> (s, [], Ok ())
      | Some incoming \<Rightarrow> cancel_one env tid oid incoming s)"

fun cancel_files :: "inbound_env \<Rightarrow> u64 list \<Rightarrow> InboundFileTransfers \<Rightarrow> ('s, 'e) handled" where
  "cancel_files env [] s = (s, [], Ok ())"
| "cancel_files env (oid # oids) s =
     (case map_of (it_incoming_files s) oid of
        None \<Rightarrow> cancel_files env oids s
      | Some incoming \<Rightarrow>
          (case cancel_one env (ftm_transfer_id (ift_manifest (snd incoming))) oid incoming s of
             (s1, evs, Inl err) \<Rightarrow> (s1, evs, Err err)
           | (s1, evs, Inr _) \<Rightarrow> (case cancel_files env oids s1 of (s2, evs', r) \<Rightarrow> (s2, evs @ evs', r))))"

fun remove_files :: "inbound_env \<Rightarrow> PathBuf \<Rightarrow> PathBuf list \<Rightarrow> (unit, 'e FileTransferError) result" where
  "remove_files env dir [] = Ok ()"
| "remove_files env dir (p # ps) = try_bind (remove_materialized_file env p dir) (\<lambda>_. remove_files env dir ps)"

definition group_members :: "u64 \<Rightarrow> InboundFileTransfers \<Rightarrow> u64 list" where
  "group_members gid s =
     map fst (filter (\<lambda>(_, _, t). case ftm_group (ift_manifest t) of None \<Rightarrow> False | Some g \<Rightarrow> ftg_group_id g = gid)
       (it_incoming_files s))"

definition cancel_incoming_group :: "inbound_env \<Rightarrow> u64 \<Rightarrow> InboundFileTransfers \<Rightarrow> ('s, 'e) handled" where
  "cancel_incoming_group env gid s =
     (case cancel_files env (sort (group_members gid s)) s of
        (s1, evs, Inl err) \<Rightarrow> (s1, evs, Err err)
      | (s1, evs, Inr _) \<Rightarrow>
          (case map_of (it_incoming_groups s1) gid of
             None \<Rightarrow> (s1, evs @ [IncomingGroupCancelled gid], Ok ())
           | Some ig \<Rightarrow>
               let s2 = s1\<lparr>it_incoming_groups := AList.delete gid (it_incoming_groups s1)\<rparr> in
               (case remove_files env (it_receive_dir s) (ifg_completed_paths ig) of
                  Inl err \<Rightarrow> (s2, evs, Err err)
                | Inr _ \<Rightarrow> (s2, evs @ [IncomingGroupCancelled gid], Ok ()))))"

definition handle_control ::
  "(bytes \<Rightarrow> (('q, 's) FileTransferControl, 'e) result) \<Rightarrow> inbound_env \<Rightarrow> DataEnvelope \<Rightarrow> InboundFileTransfers \<Rightarrow>
     ('s, 'e) handled" where
  "handle_control decc env e s =
     (case control_from_envelope decc e of
        Inl err \<Rightarrow> (s, [], Err err)
      | Inr control \<Rightarrow>
          (case control of
             ClipboardGroup gid \<Rightarrow>
               if length (it_clipboard_groups s) \<ge> 32 \<and> gid \<notin> set (it_clipboard_groups s)
               then (s, [], Err (InvalidChunk ''too many pending clipboard groups''))
               else (s\<lparr>it_clipboard_groups := List.insert gid (it_clipboard_groups s)\<rparr>, [], Ok ())
           | CancelTransfer tid oid \<Rightarrow>
               cancel_incoming_file env tid oid
                 (s\<lparr>it_cancelled_file_objects := List.insert oid (it_cancelled_file_objects s)\<rparr>)
           | CancelGroup gid \<Rightarrow>
               cancel_incoming_group env gid (s\<lparr>it_cancelled_groups := List.insert gid (it_cancelled_groups s)\<rparr>)
           | _ \<Rightarrow> (s, [], Ok ())))"

text \<open>A chunk of a file that is already committed: only the ones it was made of are acknowledged again.\<close>

definition completed_chunk_matches :: "FileTransferManifest \<Rightarrow> ChunkInfo \<Rightarrow> nat \<Rightarrow> bool" where
  "completed_chunk_matches m chunk payload_len =
     (let len = unat (ftm_chunk_payload_len m); i = unat (ck_chunk_index chunk); offset = i * len;
          total_chunks = (unat (ftm_size_bytes m) + len - 1) div len in
      ck_total_size chunk = ftm_size_bytes m \<and> unat (ck_total_chunks chunk) = total_chunks \<and> i < total_chunks
      \<and> unat (ck_offset chunk) = offset \<and> payload_len = min (unat (ftm_size_bytes m) - offset) len)"

text \<open>What is on disk when a write fails part-way.\<close>

definition write_fault :: "inbound_env \<Rightarrow> ChunkInfo \<Rightarrow> DataEnvelope \<Rightarrow> IncomingFileTransfer \<Rightarrow> bytes option" where
  "write_fault env chunk e t =
     map_option (\<lambda>n. write_at (unat (ck_offset chunk)) (take n (env_payload e)) (ift_file t)) (ie_fault env)"

definition progress_event :: "FileTransferProgress \<Rightarrow> 's FileTransferEvent" where
  "progress_event p = IncomingProgress (ftp_transfer_id p) (ftp_file_object_id p) (ftp_received_chunks p)
     (ftp_total_chunks p) (ftp_received_bytes p) (ftp_total_size p)"

definition handle_file_chunk :: "inbound_env \<Rightarrow> DataEnvelope \<Rightarrow> InboundFileTransfers \<Rightarrow> ('s, 'e) handled" where
  "handle_file_chunk env e s =
     (case dh_chunk (env_header e) of
        None \<Rightarrow> (s, [], Err FT_MissingChunkMetadata)
      | Some chunk \<Rightarrow>
          let oid = ck_object_id chunk in
          (case map_of (it_completed_files s) oid of
             Some m \<Rightarrow>
               (s, [], if completed_chunk_matches m chunk (length (env_payload e)) then Ok ()
                       else Err (InvalidChunk ''conflicting completed file chunk''))
           | None \<Rightarrow>
               (case map_of (it_incoming_files s) oid of
                  None \<Rightarrow> (s, [], Err (InvalidChunk ''file chunk arrived before its manifest''))
                | Some (dir, t) \<Rightarrow>
                    (case ift_push_chunk (write_fault env chunk e t) e t of
                       (t', Inl err) \<Rightarrow>
                         (s\<lparr>it_incoming_files := AList.update oid (dir, t') (it_incoming_files s)\<rparr>, [], Err err)
                     | (t', Inr progress) \<Rightarrow>
                         if ftp_is_complete progress
                         then (case complete_incoming env (dir, t')
                                 (s\<lparr>it_incoming_files := AList.delete oid (it_incoming_files s)\<rparr>) of
                                 (s1, evs, r) \<Rightarrow> (s1, progress_event progress # evs, r))
                         else (s\<lparr>it_incoming_files := AList.update oid (dir, t') (it_incoming_files s)\<rparr>,
                               [progress_event progress], Ok ())))))"

definition dispatch_envelope ::
  "(bytes \<Rightarrow> (FileTransferManifest, 'e) result) \<Rightarrow> (bytes \<Rightarrow> (('q, 's) FileTransferControl, 'e) result) \<Rightarrow>
     inbound_env \<Rightarrow> DataEnvelope \<Rightarrow> InboundFileTransfers \<Rightarrow> ('s, 'e) handled" where
  "dispatch_envelope dec decc env e s =
     (case dh_kind (env_header e) of
        Kind_FileManifest \<Rightarrow> handle_manifest dec env e s
      | Kind_FileChunk \<Rightarrow> handle_file_chunk env e s
      | Kind_FileControl \<Rightarrow> handle_control decc env e s
      | other \<Rightarrow> (s, [], Err (UnexpectedContentKind other)))"

definition handle_envelope ::
  "(bytes \<Rightarrow> (FileTransferManifest, 'e) result) \<Rightarrow> (bytes \<Rightarrow> (('q, 's) FileTransferControl, 'e) result) \<Rightarrow>
     ('e FileTransferError \<Rightarrow> string) \<Rightarrow> inbound_env \<Rightarrow> DataEnvelope \<Rightarrow> InboundFileTransfers \<Rightarrow>
     InboundFileTransfers \<times> 's FileTransferEvent list \<times> ('q, 's) FileTransferControl option" where
  "handle_envelope dec decc display env e s =
     (let identity = dh_chunk (env_header e);
          acknowledge = dh_kind (env_header e) \<in> {Kind_FileManifest, Kind_FileChunk, Kind_FileControl} in
      case dispatch_envelope dec decc env e s of
        (s1, evs, Inr _) \<Rightarrow>
          (apply_pending_receive_config_if_idle s1, evs,
           if acknowledge then map_option (\<lambda>c. ChunkAccepted (ck_object_id c) (ck_chunk_index c)) identity else None)
      | (s1, evs, Inl err) \<Rightarrow>
          (apply_pending_receive_config_if_idle s1, evs @ [ErrorEvent None (display err)],
           map_option (\<lambda>c. Rejected (ck_object_id c) (display err)) identity))"

section \<open>Paths below the receive directory\<close>

lemma path_components_ne: "name \<noteq> [] \<Longrightarrow> path_components name \<noteq> []"
  using split_path_ne [of "tl name"]
  by (cases name) (auto simp: path_components_def inner_component_def split: list.splits if_splits)

lemma remove_dirs_below:
  assumes "p = None \<or> (\<exists>c. p = Some (root @ c))" "d \<in> set (fst (remove_dirs remove root p :: _ \<times> (_, 'e FileTransferError) result))"
  shows "\<exists>c. c \<noteq> [] \<and> d = root @ c"
  using assms
proof (induction remove root p rule: remove_dirs.induct)
  case (2 remove root dir)
  then obtain c where c: "dir = root @ c" by auto
  show ?case
  proof (cases "c = []")
    case False
    then have up: "parent_dir dir = None \<or> (\<exists>c. parent_dir dir = Some (root @ c))"
      by (auto simp: c parent_dir_def butlast_append)
    have ne: "dir \<noteq> root" using False c by simp
    show ?thesis
    proof (cases "remove dir")
      case Removed
      then have "d = dir \<or> d \<in> set (fst (remove_dirs remove root (parent_dir dir) :: _ \<times> (_, 'e FileTransferError) result))"
        using "2.prems"(2) ne by (auto split: prod.splits)
      then show ?thesis using "2.IH" [OF ne Removed up] c False by blast
    qed (use "2.prems"(2) ne in auto)
  qed (use "2.prems"(2) c in simp)
qed simp

lemma cleanup_below:
  assumes "path = root @ c" "c \<noteq> []"
    "d \<in> set (fst (cleanup_empty_parent_dirs env path root :: _ \<times> (_, 'e FileTransferError) result))"
  shows "\<exists>c. c \<noteq> [] \<and> d = root @ c"
  using assms remove_dirs_below [where ?'e = 'e, of "parent_dir path" root d "ie_remove_dir env"]
  by (auto simp: cleanup_empty_parent_dirs_def parent_dir_def butlast_append)

lemma numbered_ne: "p \<noteq> [] \<Longrightarrow> numbered_destination p n \<noteq> []"
  by (auto simp: numbered_destination_def split: option.splits prod.splits)

lemma start_path_ne:
  assumes "ift_start fs m policy = (Ok t :: (_, 'e FileTransferError) result)"
  shows "ift_path t \<noteq> []"
  using assms by (auto simp: ift_start_def try_bind_eq_Ok relative_target_def validate_manifest_def is_safe_file_name_def
      validate_group_metadata_def is_safe_relative_path_def split: option.splits if_splits)

lemma finish_name_ne:
  assumes "ift_finish publish rename_error t = (Ok name :: (string, 'e FileTransferError) result)" "ift_path t \<noteq> []"
  shows "name \<noteq> []"
proof (cases "ift_allow_overwrite t")
  case True
  then show ?thesis using assms by (auto simp: ift_finish_def try_bind_eq_Ok split: if_splits option.splits)
next
  case False
  then have "publish_loop publish (ift_path t) 0 100000 = (Ok name :: (string, 'e FileTransferError) result)"
    using assms(1) by (auto simp: ift_finish_def try_bind_eq_Ok split: if_splits)
  from publish_loop_Ok [OF this] show ?thesis using assms(2) by (auto simp: numbered_ne)
qed

definition below :: "PathBuf \<Rightarrow> PathBuf \<Rightarrow> bool" where
  "below dir path = (\<exists>c. c \<noteq> [] \<and> path = dir @ c)"

lemma finish_transfer_Ok:
  assumes "finish_transfer env (dir, t) = (Ok path :: (_, 'e FileTransferError) result)"
  shows "ift_received_chunks t = ift_total_chunks t" "ift_path t \<noteq> [] \<Longrightarrow> below dir path"
proof -
  obtain name where fin: "ift_finish (ie_publish env) (ie_rename env) t = (Ok name :: (_, 'e FileTransferError) result)"
    and p: "path = join_path dir name" "ift_received_chunks t = ift_total_chunks t"
    using assms by (auto simp: finish_transfer_def try_bind_eq_Ok split: if_splits)
  show "ift_path t \<noteq> [] \<Longrightarrow> below dir path"
    using path_components_ne [OF finish_name_ne [OF fin]] by (simp add: below_def join_path_def p(1))
qed (use assms in \<open>auto simp: finish_transfer_def split: if_splits\<close>)

section \<open>Groups\<close>

text \<open>A group counts its filled slots, and a slot holds a path exactly when it holds metadata.\<close>

definition group_wf :: "PathBuf \<Rightarrow> IncomingFileGroup \<Rightarrow> bool" where
  "group_wf dir ig = (length (ifg_completed_files ig) = unat (ifg_file_count ig) \<and>
     map (\<lambda>p. p = None) (ifg_completed_files ig) = map (\<lambda>m. m = None) (ifg_completed_metadata ig) \<and>
     unat (ifg_completed_count ig) = length (filter (\<lambda>p. p \<noteq> None) (ifg_completed_files ig)) \<and>
     (\<forall>path. Some path \<in> set (ifg_completed_files ig) \<longrightarrow> below dir path))"

lemma group_wf_new: "group_wf dir (ifg_new g)"
  by (simp add: group_wf_def ifg_new_def)

lemma filter_fill:
  "i < length xs \<Longrightarrow> length (filter P (xs[i := v])) + (if P (xs ! i) then 1 else 0) =
     length (filter P xs) + (if P v then 1 else 0)"
proof (induction xs arbitrary: i)
  case (Cons x xs)
  show ?case
  proof (cases i)
    case (Suc j)
    then show ?thesis using Cons.IH [of j] Cons.prems by auto
  qed simp
qed simp

lemma group_wf_record:
  assumes wf: "group_wf dir ig" and rec: "ifg_record g path pub sz crc ig = (Ok ig' :: (_, 'e FileTransferError) result)"
    and path: "below dir path"
  shows "group_wf dir ig'" "ifg_file_count ig' = ifg_file_count ig"
proof -
  let ?i = "unat (ftg_file_index g)"
  have i: "?i < length (ifg_completed_files ig)"
    using wf rec by (auto simp: ifg_record_def group_wf_def word_less_nat_alt not_le split: if_splits)
  have sm: "length (filter (\<lambda>p. p \<noteq> None) (ifg_completed_files ig)) \<le> length (ifg_completed_files ig)" by simp
  have lt: "unat (ifg_file_count ig) < 2 ^ 32" using unsigned_less [of "ifg_file_count ig"] by simp
  have eq: "ifg_completed_files ig' = (ifg_completed_files ig)[?i := Some path]"
    "ifg_completed_metadata ig' = (ifg_completed_metadata ig)[?i := Some (ftg_relative_path g, sz, crc)]"
    "ifg_completed_count ig' = (if ifg_completed_files ig ! ?i = None then saturating_add (ifg_completed_count ig) 1
       else ifg_completed_count ig)" "ifg_file_count ig' = ifg_file_count ig"
    using rec by (auto simp: ifg_record_def Let_def split: if_splits)
  have fill: "unat (ifg_completed_count ig') = length (filter (\<lambda>p. p \<noteq> None) (ifg_completed_files ig'))"
  proof (cases "ifg_completed_files ig ! ?i = None")
    case True
    have "length (filter (\<lambda>p. p \<noteq> None) ((ifg_completed_files ig)[?i := Some path])) \<le> length (ifg_completed_files ig)"
      by (rule order_trans [OF length_filter_le]) simp
    then show ?thesis using True i wf lt filter_fill [OF i, of "\<lambda>p. p \<noteq> None" "Some path"]
      by (auto simp: eq group_wf_def unat_saturating_add min_def)
  qed (use i wf filter_fill [OF i, of "\<lambda>p. p \<noteq> None" "Some path"] in \<open>auto simp: eq group_wf_def\<close>)
  have "map (\<lambda>p. p = None) (ifg_completed_files ig') = map (\<lambda>m. m = None) (ifg_completed_metadata ig')"
    using wf by (simp add: eq map_update group_wf_def)
  moreover have "\<forall>p. Some p \<in> set (ifg_completed_files ig') \<longrightarrow> below dir p"
    using wf path set_update_subset_insert [of "ifg_completed_files ig" ?i "Some path"]
    by (auto simp: eq group_wf_def)
  ultimately show "group_wf dir ig'" using wf fill by (simp add: group_wf_def eq)
  show "ifg_file_count ig' = ifg_file_count ig" by (rule eq)
qed

text \<open>A group is complete exactly when every slot is filled.\<close>

lemma group_complete_iff:
  assumes "group_wf dir ig"
  shows "ifg_is_complete ig \<longleftrightarrow> None \<notin> set (ifg_completed_files ig)"
proof -
  have "ifg_is_complete ig \<longleftrightarrow> unat (ifg_completed_count ig) = unat (ifg_file_count ig)"
    by (simp add: ifg_is_complete_def word_unat_eq_iff)
  also have "\<dots> \<longleftrightarrow> length (filter (\<lambda>p. p \<noteq> None) (ifg_completed_files ig)) = length (ifg_completed_files ig)"
    using assms by (simp add: group_wf_def)
  also have "\<dots> \<longleftrightarrow> None \<notin> set (ifg_completed_files ig)"
    by (metis (mono_tags, lifting) filter_True length_filter_less less_irrefl not_None_eq)
  finally show ?thesis .
qed

section \<open>The invariant\<close>

text \<open>
  What the tables hold between two operations: an incoming transfer is incomplete, filed under its object,
  started in the current receive directory and not committed yet; groups are consistent; the committed
  files are the ones remembered, in order; and every table is bounded.
\<close>

definition file_ok :: "PathBuf \<Rightarrow> (u64 \<times> FileTransferManifest) list \<Rightarrow> u64 \<Rightarrow> PathBuf \<Rightarrow> IncomingFileTransfer \<Rightarrow> bool" where
  "file_ok root completed oid dir t = (ift_inv t \<and> ift_path t \<noteq> [] \<and> dir = root \<and>
     ftm_file_object_id (ift_manifest t) = oid \<and> ift_received_chunks t \<noteq> ift_total_chunks t \<and>
     map_of completed oid = None)"

definition inv_files :: "PathBuf \<Rightarrow> (u64 \<times> FileTransferManifest) list \<Rightarrow> (u64 \<times> PathBuf \<times> IncomingFileTransfer) list \<Rightarrow> bool" where
  "inv_files root completed inc = (hash_wf inc \<and> length inc \<le> 16 \<and>
     (\<forall>oid dir t. map_of inc oid = Some (dir, t) \<longrightarrow> file_ok root completed oid dir t))"

definition inv_groups :: "PathBuf \<Rightarrow> (u64 \<times> IncomingFileGroup) list \<Rightarrow> bool" where
  "inv_groups root gs = (hash_wf gs \<and> (\<forall>gid ig. map_of gs gid = Some ig \<longrightarrow> group_wf root ig))"

definition inv_completed :: "u64 list \<Rightarrow> (u64 \<times> FileTransferManifest) list \<Rightarrow> bool" where
  "inv_completed order completed = (distinct order \<and> hash_wf completed \<and> set order = dom (map_of completed))"

definition manifest_gids :: "FileTransferManifest \<Rightarrow> u64 set" where
  "manifest_gids m = ftg_group_id ` set_option (ftm_group m)"

definition incoming_gids :: "(u64 \<times> PathBuf \<times> IncomingFileTransfer) list \<Rightarrow> u64 set" where
  "incoming_gids inc = (\<Union>x\<in>set inc. manifest_gids (ift_manifest (snd (snd x))))"

definition inv_small :: "(u64 \<times> ReliableObjectAssembler) list \<Rightarrow> u64 list \<Rightarrow> bool" where
  "inv_small asm clip = (hash_wf asm \<and> length asm \<le> 32 \<and> distinct clip \<and> length clip \<le> 32)"

definition inbound_inv :: "InboundFileTransfers \<Rightarrow> bool" where
  "inbound_inv s = (inv_files (it_receive_dir s) (it_completed_files s) (it_incoming_files s) \<and>
     inv_groups (it_receive_dir s) (it_incoming_groups s) \<and>
     inv_completed (it_completed_order s) (it_completed_files s) \<and> length (it_completed_order s) \<le> 4096 \<and>
     card (fst ` set (it_incoming_groups s) \<union> incoming_gids (it_incoming_files s)) \<le> 47 \<and>
     inv_small (it_manifest_assemblers s) (it_clipboard_groups s))"

lemma manifest_gids_card: "finite (manifest_gids m)" "card (manifest_gids m) \<le> 1"
  by (cases "ftm_group m"; simp add: manifest_gids_def)+

lemma incoming_gids_finite: "finite (incoming_gids inc)"
  by (simp add: incoming_gids_def manifest_gids_card)

lemma incoming_gids_card: "card (incoming_gids inc) \<le> length inc"
proof (induction inc)
  case (Cons x inc)
  have "incoming_gids (x # inc) = manifest_gids (ift_manifest (snd (snd x))) \<union> incoming_gids inc"
    by (simp add: incoming_gids_def)
  then have "card (incoming_gids (x # inc)) \<le> card (manifest_gids (ift_manifest (snd (snd x)))) + card (incoming_gids inc)"
    by (simp add: card_Un_le)
  then show ?case using Cons manifest_gids_card(2) [of "ift_manifest (snd (snd x))"] by simp
qed (simp add: incoming_gids_def)

lemma gids_mono:
  assumes "card (A \<union> B) \<le> n" "A' \<union> B' \<subseteq> A \<union> B" "finite (A \<union> B)"
  shows "card (A' \<union> B') \<le> n"
  using assms card_mono [of "A \<union> B" "A' \<union> B'"] by linarith

lemma inv_files_delete: "inv_files root c inc \<Longrightarrow> inv_files root c (AList.delete k inc)"
  using hash.size_rem [of inc k]
  by (auto simp: inv_files_def hash.wf_rem map_of_AList split: if_splits)

lemma inv_files_update:
  assumes "inv_files root c inc" "file_ok root c k d t" "length inc < 16 \<or> map_of inc k \<noteq> None"
  shows "inv_files root c (AList.update k (d, t) inc)"
  using assms length_update_le [of k "(d, t)" inc] length_update_old [of inc k _ "(d, t)"]
  by (auto simp: inv_files_def hash.wf_ins map_of_AList)

lemma inv_files_completed:
  "inv_files root c inc \<Longrightarrow> map_of inc k = None \<Longrightarrow> dom (map_of c') \<subseteq> insert k (dom (map_of c)) \<Longrightarrow> inv_files root c' inc"
  by (fastforce simp: inv_files_def file_ok_def)

lemma evict_completed_inv:
  assumes "evict_completed order c = (order', c')" "inv_completed order c"
  shows "inv_completed order' c' \<and> length order' \<le> 4096 \<and> dom (map_of c') \<subseteq> dom (map_of c)"
  using assms
proof (induction order c rule: evict_completed.induct)
  case (2 old order c)
  show ?case
  proof (cases "length (old # order) > 4096")
    case True
    have "inv_completed order (AList.delete old c)"
      using "2.prems"(2) by (auto simp: inv_completed_def hash.wf_rem map_of_AList)
    moreover have "evict_completed order (AList.delete old c) = (order', c')" using "2.prems"(1) True by simp
    moreover have "dom (map_of (AList.delete old c)) \<subseteq> dom (map_of c)" by (auto simp: map_of_AList split: if_splits)
    ultimately show ?thesis using "2.IH" [OF True] by (meson subset_trans)
  qed (use "2.prems" in auto)
qed auto

lemma inv_completed_remember:
  assumes "evict_completed (order @ [k]) (AList.update k m c) = (order', c')" "inv_completed order c" "map_of c k = None"
  shows "inv_completed order' c'" "length order' \<le> 4096" "dom (map_of c') \<subseteq> insert k (dom (map_of c))"
proof -
  have "inv_completed (order @ [k]) (AList.update k m c)"
    using assms(2,3) by (auto simp: inv_completed_def hash.wf_ins map_of_AList)
  from evict_completed_inv [OF assms(1) this]
  show "inv_completed order' c'" "length order' \<le> 4096" "dom (map_of c') \<subseteq> insert k (dom (map_of c))"
    by (auto simp: map_of_AList)
qed

lemma inv_groups_update:
  "inv_groups root gs \<Longrightarrow> group_wf root ig \<Longrightarrow> inv_groups root (AList.update gid ig gs)"
  by (auto simp: inv_groups_def hash.wf_ins map_of_AList)

lemma inv_groups_delete: "inv_groups root gs \<Longrightarrow> inv_groups root (AList.delete gid gs)"
  by (auto simp: inv_groups_def hash.wf_rem map_of_AList split: if_splits)

lemma update_keys: "fst ` set (AList.update k v l) = insert k (fst ` set l)"
  by (simp add: dom_update)

lemma delete_keys_subset: "fst ` set (AList.delete k l) \<subseteq> fst ` set l"
proof -
  have "set (map fst (AList.delete k l)) \<subseteq> set (map fst l)" unfolding delete_keys by auto
  then show ?thesis by simp
qed

lemma inv_small_remove: "inv_small asm clip \<Longrightarrow> inv_small asm (removeAll g clip)"
  by (auto simp: inv_small_def distinct_removeAll intro: order_trans [OF length_removeAll_less_eq])

text \<open>Recording a completed file touches only the groups and the clipboard groups.\<close>

lemma complete_group_frame:
  assumes "complete_group g ig s = (s', evs, r :: (_, 'e FileTransferError) result)"
  shows "s' = s\<lparr>it_incoming_groups := AList.delete (ftg_group_id g) (it_incoming_groups s),
    it_clipboard_groups := removeAll (ftg_group_id g) (it_clipboard_groups s)\<rparr>"
  using assms by (auto simp: complete_group_def Let_def split: if_splits)

lemma record_group_completion_inv:
  assumes rec: "record_group_completion m path s = (s', evs, r :: (_, 'e FileTransferError) result)"
    and gs: "inv_groups (it_receive_dir s) (it_incoming_groups s)" and path: "below (it_receive_dir s) path"
  obtains gs' clip' where "s' = s\<lparr>it_incoming_groups := gs', it_clipboard_groups := clip'\<rparr>"
    "inv_groups (it_receive_dir s) gs'" "fst ` set gs' \<subseteq> fst ` set (it_incoming_groups s) \<union> manifest_gids m"
    "clip' = it_clipboard_groups s \<or> (\<exists>g. clip' = removeAll g (it_clipboard_groups s))"
proof (cases "ftm_group m")
  case None
  then show ?thesis using rec gs that [of "it_clipboard_groups s" "it_incoming_groups s"]
    by (auto simp: record_group_completion_def)
next
  case (Some g)
  let ?gs = "it_incoming_groups s" and ?gid = "ftg_group_id g" and ?root = "it_receive_dir s"
  define entry where "entry = (case map_of ?gs ?gid of Some ig \<Rightarrow> ig | None \<Rightarrow> ifg_new g)"
  have wf: "group_wf ?root entry"
    using gs group_wf_new by (auto simp: entry_def inv_groups_def split: option.split)
  have gid: "manifest_gids m = {?gid}" by (simp add: manifest_gids_def Some)
  have keep: thesis if "s' = s\<lparr>it_incoming_groups := gs'\<rparr>" "inv_groups ?root gs'"
      "fst ` set gs' \<subseteq> fst ` set ?gs \<union> manifest_gids m" for gs'
    using that \<open>\<And>clip' gs'. \<lbrakk>s' = s\<lparr>it_incoming_groups := gs', it_clipboard_groups := clip'\<rparr>; inv_groups ?root gs';
      fst ` set gs' \<subseteq> fst ` set ?gs \<union> manifest_gids m;
      clip' = it_clipboard_groups s \<or> (\<exists>g. clip' = removeAll g (it_clipboard_groups s))\<rbrakk> \<Longrightarrow> thesis\<close>
      [of "it_clipboard_groups s" gs'] by simp
  show ?thesis
  proof (cases "received_group_publish_path ?root (ftg_relative_path g) path :: (_, 'e FileTransferError) result")
    case (Inl err)
    then show ?thesis using rec gs by (intro keep [of ?gs]) (auto simp: record_group_completion_def Some)
  next
    case (Inr pub)
    show ?thesis
    proof (cases "ifg_record g path pub (ftm_size_bytes m) (ftm_checksum_crc32 m) entry :: (_, 'e FileTransferError) result")
      case (Inl err)
      then have "s' = s\<lparr>it_incoming_groups := AList.update ?gid entry ?gs\<rparr>"
        using rec Some Inr by (simp add: record_group_completion_def entry_def [symmetric])
      then show ?thesis by (rule keep) (use inv_groups_update [OF gs wf] gid in \<open>auto simp: update_keys\<close>)
    next
      case rec_ok: (Inr ig)
      have wf': "inv_groups ?root (AList.update ?gid ig ?gs)"
        using inv_groups_update [OF gs group_wf_record(1) [OF wf rec_ok path]] .
      show ?thesis
      proof (cases "ifg_is_complete ig")
        case True
        then have "complete_group g ig (s\<lparr>it_incoming_groups := AList.update ?gid ig ?gs\<rparr>) = (s', evs, r)"
          using rec Some Inr rec_ok by (simp add: record_group_completion_def entry_def [symmetric])
        from complete_group_frame [OF this]
        show ?thesis using inv_groups_delete [OF wf'] gid delete_keys_subset [of ?gid "AList.update ?gid ig ?gs"]
          by (intro that) (auto simp: update_keys)
      next
        case False
        then have "s' = s\<lparr>it_incoming_groups := AList.update ?gid ig ?gs\<rparr>"
          using rec Some Inr rec_ok by (simp add: record_group_completion_def entry_def [symmetric])
        then show ?thesis by (rule keep) (use wf' gid in \<open>auto simp: update_keys\<close>)
      qed
    qed
  qed
qed

section \<open>Every operation keeps the invariant\<close>

text \<open>What the handlers never touch.\<close>

definition same_config :: "InboundFileTransfers \<Rightarrow> InboundFileTransfers \<Rightarrow> bool" where
  "same_config s s' = (it_receive_dir s' = it_receive_dir s \<and> it_receive_policy s' = it_receive_policy s \<and>
     it_pending_receive_config s' = it_pending_receive_config s)"

lemma remember_completed_frame:
  obtains order c where "remember_completed m s = s\<lparr>it_completed_order := order, it_completed_files := c\<rparr>"
    "evict_completed (it_completed_order s @ [ftm_file_object_id m])
       (AList.update (ftm_file_object_id m) m (it_completed_files s)) = (order, c)"
  by (metis (no_types, lifting) old.prod.exhaust remember_completed_def case_prod_conv)

text \<open>
  Committing a file that is in neither table.  Its group is counted beforehand, so the bound holds again
  afterwards.
\<close>

lemma complete_incoming_inv:
  assumes run: "complete_incoming env (dir, t) s = (s', evs :: 's FileTransferEvent list, r :: (_, 'e FileTransferError) result)"
    and inv: "inbound_inv s" and dir: "dir = it_receive_dir s" and path: "ift_path t \<noteq> []"
    and new: "map_of (it_incoming_files s) (ftm_file_object_id (ift_manifest t)) = None"
      "map_of (it_completed_files s) (ftm_file_object_id (ift_manifest t)) = None"
    and room: "card (fst ` set (it_incoming_groups s) \<union> (manifest_gids (ift_manifest t) \<union> incoming_gids (it_incoming_files s))) \<le> 47"
  shows "inbound_inv s'" "same_config s s'" "it_incoming_files s' = it_incoming_files s"
    "it_cancelled_file_objects s' = it_cancelled_file_objects s" "it_cancelled_groups s' = it_cancelled_groups s"
    "r = Ok () \<Longrightarrow> \<exists>path. IncomingCompleted (ftm_transfer_id (ift_manifest t)) (ftm_file_object_id (ift_manifest t))
       (ftm_group (ift_manifest t)) path (ftm_size_bytes (ift_manifest t)) \<in> set evs"
proof -
  let ?m = "ift_manifest t" and ?root = "it_receive_dir s"
  have "inbound_inv s' \<and> same_config s s' \<and> it_incoming_files s' = it_incoming_files s \<and>
    it_cancelled_file_objects s' = it_cancelled_file_objects s \<and> it_cancelled_groups s' = it_cancelled_groups s \<and>
    (r = Ok () \<longrightarrow> (\<exists>path. IncomingCompleted (ftm_transfer_id ?m) (ftm_file_object_id ?m) (ftm_group ?m) path
      (ftm_size_bytes ?m) \<in> set evs))"
  proof (cases "finish_transfer env (dir, t) :: (_, 'e FileTransferError) result")
    case (Inl err)
    then show ?thesis using run inv by (auto simp: complete_incoming_def same_config_def Let_def)
  next
    case (Inr p)
    obtain s1 evs1 r1 where rec: "record_group_completion ?m p s = (s1, evs1 :: 's FileTransferEvent list, r1 :: (_, 'e FileTransferError) result)"
      by (metis prod.exhaust)
    have below: "below ?root p" using finish_transfer_Ok(2) [OF Inr path] dir by simp
    have gs0: "inv_groups ?root (it_incoming_groups s)" using inv by (simp add: inbound_inv_def)
    obtain gs clip where s1: "s1 = s\<lparr>it_incoming_groups := gs, it_clipboard_groups := clip\<rparr>"
      and gs: "inv_groups ?root gs" "fst ` set gs \<subseteq> fst ` set (it_incoming_groups s) \<union> manifest_gids ?m"
      and clip: "clip = it_clipboard_groups s \<or> (\<exists>g. clip = removeAll g (it_clipboard_groups s))"
      by (rule record_group_completion_inv [OF rec gs0 below])
    have small: "inv_small (it_manifest_assemblers s) clip" using clip inv inv_small_remove by (auto simp: inbound_inv_def)
    have bound: "card (fst ` set gs \<union> incoming_gids (it_incoming_files s)) \<le> 47"
      by (rule gids_mono [OF room]) (use gs(2) in \<open>auto simp: incoming_gids_finite manifest_gids_card\<close>)
    have inv1: "inbound_inv s1" using inv gs(1) small bound by (simp add: s1 inbound_inv_def)
    show ?thesis
    proof (cases r1)
      case (Inl err)
      then show ?thesis using run rec Inr inv1 by (auto simp: complete_incoming_def s1 same_config_def Let_def)
    next
      case r1: (Inr u)
      obtain order c where rem: "remember_completed ?m s1 = s1\<lparr>it_completed_order := order, it_completed_files := c\<rparr>"
        "evict_completed (it_completed_order s1 @ [ftm_file_object_id ?m])
           (AList.update (ftm_file_object_id ?m) ?m (it_completed_files s1)) = (order, c)"
        by (rule remember_completed_frame)
      have s': "s' = remember_completed ?m s1"
        and ev: "IncomingCompleted (ftm_transfer_id ?m) (ftm_file_object_id ?m) (ftm_group ?m) p (ftm_size_bytes ?m) \<in> set evs"
        using run rec Inr r1 by (auto simp: complete_incoming_def Let_def)
      have inv_c: "inv_completed (it_completed_order s1) (it_completed_files s1)" using inv1 by (simp add: inbound_inv_def)
      have new1: "map_of (it_completed_files s1) (ftm_file_object_id ?m) = None" using new(2) by (simp add: s1)
      note c = inv_completed_remember [OF rem(2) inv_c new1]
      have files: "inv_files ?root (it_completed_files s1) (it_incoming_files s)" using inv by (simp add: s1 inbound_inv_def)
      have "inv_files ?root c (it_incoming_files s)" by (rule inv_files_completed [OF files new(1) c(3)])
      moreover have after: "s' = s1\<lparr>it_completed_order := order, it_completed_files := c\<rparr>" using s' rem(1) by simp
      ultimately have "inbound_inv s'" using inv1 c(1,2) by (simp add: s1 inbound_inv_def)
      then show ?thesis using ev by (auto simp: after s1 same_config_def)
    qed
  qed
  then show "inbound_inv s'" "same_config s s'" "it_incoming_files s' = it_incoming_files s"
    "it_cancelled_file_objects s' = it_cancelled_file_objects s" "it_cancelled_groups s' = it_cancelled_groups s"
    "r = Ok () \<Longrightarrow> \<exists>path. IncomingCompleted (ftm_transfer_id ?m) (ftm_file_object_id ?m)
       (ftm_group ?m) path (ftm_size_bytes ?m) \<in> set evs"
    by blast+
qed

text \<open>
  What every handler guarantees: the invariant, the configuration, cancellations are never forgotten, and
  incoming transfers other than those in \<open>X\<close> stay as they are unless they were cancelled.
\<close>

definition handler_ok :: "u64 set \<Rightarrow> InboundFileTransfers \<Rightarrow> InboundFileTransfers \<Rightarrow> bool" where
  "handler_ok X s s' = (inbound_inv s' \<and> same_config s s' \<and>
     set (it_cancelled_file_objects s) \<subseteq> set (it_cancelled_file_objects s') \<and>
     set (it_cancelled_groups s) \<subseteq> set (it_cancelled_groups s') \<and>
     (\<forall>oid dir t. oid \<notin> X \<longrightarrow> map_of (it_incoming_files s) oid = Some (dir, t) \<longrightarrow>
        map_of (it_incoming_files s') oid = Some (dir, t) \<or> is_manifest_cancelled (ift_manifest t) s'))"

lemma handler_ok_inv: "handler_ok X s s' \<Longrightarrow> inbound_inv s'"
  by (simp add: handler_ok_def)

lemma handler_ok_refl: "inbound_inv s \<Longrightarrow> handler_ok X s s"
  by (simp add: handler_ok_def same_config_def)

lemma cancelled_mono:
  "is_manifest_cancelled m s \<Longrightarrow> set (it_cancelled_file_objects s) \<subseteq> set (it_cancelled_file_objects s') \<Longrightarrow>
     set (it_cancelled_groups s) \<subseteq> set (it_cancelled_groups s') \<Longrightarrow> is_manifest_cancelled m s'"
  by (auto simp: is_manifest_cancelled_def split: option.splits)

lemma handler_ok_trans:
  assumes "handler_ok X s s1" "handler_ok Y s1 s2"
  shows "handler_ok (X \<union> Y) s s2"
proof -
  have "map_of (it_incoming_files s2) oid = Some (dir, t) \<or> is_manifest_cancelled (ift_manifest t) s2"
    if "oid \<notin> X \<union> Y" "map_of (it_incoming_files s) oid = Some (dir, t)" for oid dir t
  proof (cases "is_manifest_cancelled (ift_manifest t) s1")
    case True
    then show ?thesis using assms(2) cancelled_mono [of "ift_manifest t" s1 s2] by (simp add: handler_ok_def)
  next
    case False
    then have "map_of (it_incoming_files s1) oid = Some (dir, t)" using that assms(1) unfolding handler_ok_def by blast
    then show ?thesis using that(1) assms(2) unfolding handler_ok_def by blast
  qed
  moreover have "same_config s s2" using assms by (simp add: handler_ok_def same_config_def)
  ultimately show ?thesis using assms by (auto simp: handler_ok_def)
qed

text \<open>Operations that leave the incoming files alone.\<close>

lemma handler_ok_frame:
  "inbound_inv s' \<Longrightarrow> same_config s s' \<Longrightarrow> it_incoming_files s' = it_incoming_files s \<Longrightarrow>
   it_cancelled_file_objects s' = it_cancelled_file_objects s \<Longrightarrow> it_cancelled_groups s' = it_cancelled_groups s \<Longrightarrow>
   handler_ok X s s'"
  by (simp add: handler_ok_def)

lemma start_incoming_ok:
  assumes run: "start_incoming env m s = (s', evs :: 's FileTransferEvent list, r :: (_, 'e FileTransferError) result)"
    and inv: "inbound_inv s" and new: "known_manifest (ftm_file_object_id m) s = None"
    and room: "length (it_incoming_files s) < 16" and grp: "group_admission m s = (Ok () :: (_, 'e FileTransferError) result)"
  shows "handler_ok {} s s'"
proof (cases "ift_start (ie_fs env) m (it_receive_policy s) :: (_, 'e FileTransferError) result")
  case (Inl err)
  then show ?thesis using run inv by (simp add: start_incoming_def handler_ok_refl)
next
  case (Inr t)
  let ?fid = "ftm_file_object_id m" and ?gs = "it_incoming_groups s" and ?inc = "it_incoming_files s"
  note t = ift_start_inv [OF Inr] start_path_ne [OF Inr]
  have free: "map_of ?inc ?fid = None" "map_of (it_completed_files s) ?fid = None"
    using new by (auto simp: known_manifest_def split: option.splits)
  have old: "card (fst ` set ?gs \<union> incoming_gids ?inc) \<le> 47" using inv by (simp add: inbound_inv_def)
  have gids: "card (fst ` set ?gs \<union> (manifest_gids m \<union> incoming_gids ?inc)) \<le> 47"
  proof (cases "manifest_gids m \<subseteq> fst ` set ?gs")
    case True
    then have "fst ` set ?gs \<union> (manifest_gids m \<union> incoming_gids ?inc) = fst ` set ?gs \<union> incoming_gids ?inc" by blast
    then show ?thesis using old by simp
  next
    case False
    then obtain g where g: "ftm_group m = Some g" "map_of ?gs (ftg_group_id g) = None"
      by (cases "ftm_group m") (auto simp: manifest_gids_def map_of_eq_None_iff)
    then have "length ?gs < 32" using grp by (simp add: group_admission_def split: if_splits)
    then have "card (fst ` set ?gs) \<le> 31" using card_length [of "map fst ?gs"] by simp
    moreover have "card (fst ` set ?gs \<union> (manifest_gids m \<union> incoming_gids ?inc)) \<le>
        card (fst ` set ?gs) + (card (manifest_gids m) + card (incoming_gids ?inc))"
      by (rule order_trans [OF card_Un_le]) (simp add: card_Un_le)
    ultimately show ?thesis using manifest_gids_card(2) [of m] incoming_gids_card [of ?inc] room by linarith
  qed
  show ?thesis
  proof (cases "ift_received_chunks t = ift_total_chunks t")
    case True
    obtain s1 evs1 r1 where c: "complete_incoming env (it_receive_dir s, t) s =
        (s1, evs1 :: 's FileTransferEvent list, r1 :: (_, 'e FileTransferError) result)" by (metis prod.exhaust)
    then have "s' = s1" using run Inr True by (simp add: start_incoming_def Let_def ift_progress_def)
    then show ?thesis
      using complete_incoming_inv [OF c inv refl t(2)] free gids t(1) by (simp add: handler_ok_frame)
  next
    case False
    then have s': "s' = s\<lparr>it_incoming_files := AList.update ?fid (it_receive_dir s, t) ?inc\<rparr>"
      using run Inr by (simp add: start_incoming_def Let_def ift_progress_def)
    have files: "inv_files (it_receive_dir s) (it_completed_files s) ?inc" using inv by (simp add: inbound_inv_def)
    have "inv_files (it_receive_dir s) (it_completed_files s) (AList.update ?fid (it_receive_dir s, t) ?inc)"
      by (rule inv_files_update [OF files]) (use t free False room in \<open>simp_all add: file_ok_def\<close>)
    moreover have "incoming_gids (AList.update ?fid (it_receive_dir s, t) ?inc) \<subseteq> manifest_gids m \<union> incoming_gids ?inc"
      using set_update_subset [of ?fid "(it_receive_dir s, t)" ?inc] t(1) by (fastforce simp: incoming_gids_def)
    then have "card (fst ` set ?gs \<union> incoming_gids (AList.update ?fid (it_receive_dir s, t) ?inc)) \<le> 47"
      by (intro gids_mono [OF gids]) (auto simp: incoming_gids_finite manifest_gids_card)
    ultimately have "inbound_inv s'" using inv by (simp add: s' inbound_inv_def)
    then show ?thesis using free by (auto simp: handler_ok_def s' same_config_def map_of_AList)
  qed
qed

lemma admit_manifest_ok:
  assumes run: "admit_manifest env m s = (s', evs :: 's FileTransferEvent list, r :: (_, 'e FileTransferError) result)"
    and inv: "inbound_inv s"
  shows "handler_ok {} s s'"
proof (cases "\<not> is_manifest_cancelled m s \<and> known_manifest (ftm_file_object_id m) s = None \<and>
    length (it_incoming_files s) < 16 \<and> group_admission m s = (Ok () :: (_, 'e FileTransferError) result)")
  case True
  then have "start_incoming env m s = (s', evs, r)" using run by (simp add: admit_manifest_def)
  then show ?thesis using True by (intro start_incoming_ok [OF _ inv]) auto
next
  case False
  then have "s' = s" using run
    by (auto simp: admit_manifest_def split: if_splits option.splits sum.splits)
  then show ?thesis using inv by (simp add: handler_ok_refl)
qed

lemma assemblers_ok:
  "inbound_inv s \<Longrightarrow> hash_wf asm \<Longrightarrow> length asm \<le> 32 \<Longrightarrow> handler_ok X s (s\<lparr>it_manifest_assemblers := asm\<rparr>)"
  by (rule handler_ok_frame) (simp_all add: inbound_inv_def inv_small_def same_config_def)

lemma handle_manifest_ok:
  assumes run: "handle_manifest dec env e s = (s', evs :: 's FileTransferEvent list, r :: (_, 'e FileTransferError) result)"
    and inv: "inbound_inv s"
  shows "handler_ok {} s s'"
proof (cases "dh_chunk (env_header e)")
  case None
  then show ?thesis using run inv by (simp add: handle_manifest_def handler_ok_refl)
next
  case (Some chunk)
  let ?oid = "ck_object_id chunk" and ?asm = "it_manifest_assemblers s"
  let ?found = "map_of ?asm ?oid"
  let ?a = "case ?found of Some a \<Rightarrow> Ok a | None \<Rightarrow> (manifest_from_first_chunk e :: (_, 'e FileTransferError) result)"
  have asm: "hash_wf ?asm" "length ?asm \<le> 32" using inv by (auto simp: inbound_inv_def inv_small_def)
  show ?thesis
  proof (cases "(length ?asm \<ge> 32 \<and> ?found = None) \<or> (\<exists>err. ?a = Inl err)")
    case True
    then have "s' = s" using run Some by (auto simp: handle_manifest_def Let_def split: if_splits)
    then show ?thesis using inv by (simp add: handler_ok_refl)
  next
    case False
    then obtain a where a: "?a = Inr a" by (cases ?a) auto
    obtain a' p where p: "manifest_push_chunk e a = (a', p :: (_, 'e FileTransferError) result)" by force
    define s1 where "s1 = s\<lparr>it_manifest_assemblers := AList.update ?oid a' ?asm\<rparr>"
    have "length (AList.update ?oid a' ?asm) \<le> 32"
      using False asm length_update_le [of ?oid a' ?asm] length_update_old [of ?asm ?oid _ a'] by fastforce
    then have ok1: "handler_ok {} s s1" unfolding s1_def by (intro assemblers_ok [OF inv]) (simp_all add: asm(1) hash.wf_ins)
    define s2 where "s2 = s1\<lparr>it_manifest_assemblers := AList.delete ?oid (it_manifest_assemblers s1)\<rparr>"
    have inv1: "inbound_inv s1" by (rule handler_ok_inv [OF ok1])
    then have asm1: "hash_wf (it_manifest_assemblers s1)" "length (it_manifest_assemblers s1) \<le> 32"
      by (simp_all add: inbound_inv_def inv_small_def)
    have ok2: "handler_ok {} s1 s2" unfolding s2_def
      by (rule assemblers_ok [OF inv1 hash.wf_rem [OF asm1(1)] order_trans [OF hash.size_rem [OF asm1(1)] asm1(2)]])
    have body: "(case p of Inl err \<Rightarrow> (s1, [], Err err) | Inr progress \<Rightarrow>
        if \<not> op_is_complete progress then (s1, [], Ok ())
        else case manifest_finish dec (it_receive_policy s2) a' of
          Inl err \<Rightarrow> (s2, [], Err err) | Inr m \<Rightarrow> admit_manifest env m s2) = (s', evs, r)"
      using run Some a p False by (cases p) (auto simp: handle_manifest_def Let_def s1_def s2_def split: if_splits sum.splits)
    then consider "s' = s1" | "s' = s2" | m where "admit_manifest env m s2 = (s', evs, r)"
      by (auto split: sum.splits if_splits)
    then show ?thesis
    proof cases
      case 3
      then show ?thesis
        using handler_ok_trans [OF handler_ok_trans [OF ok1 ok2] admit_manifest_ok [OF _ handler_ok_inv [OF ok2]]] by simp
    qed (use ok1 handler_ok_trans [OF ok1 ok2] in auto)
  qed
qed

lemma cancel_one_frame:
  assumes "cancel_one env tid oid incoming s = (s', evs :: 's FileTransferEvent list, r :: (_, 'e FileTransferError) result)"
  shows "s' = s\<lparr>it_incoming_files := AList.delete oid (it_incoming_files s)\<rparr>"
  using assms by (auto simp: cancel_one_def Let_def split: fs_removal.splits sum.splits)

lemma incoming_gids_delete: "incoming_gids (AList.delete k inc) \<subseteq> incoming_gids inc"
  by (induction inc) (auto simp: incoming_gids_def)

lemma delete_file_ok:
  assumes "inbound_inv s"
  shows "handler_ok {oid} s (s\<lparr>it_incoming_files := AList.delete oid (it_incoming_files s)\<rparr>)"
proof -
  have "card (fst ` set (it_incoming_groups s) \<union> incoming_gids (AList.delete oid (it_incoming_files s))) \<le> 47"
    by (rule gids_mono [of "fst ` set (it_incoming_groups s)" "incoming_gids (it_incoming_files s)"])
      (use assms incoming_gids_delete [of oid "it_incoming_files s"] in \<open>auto simp: inbound_inv_def incoming_gids_finite\<close>)
  then show ?thesis using assms
    by (simp add: handler_ok_def inbound_inv_def inv_files_delete same_config_def map_of_AList)
qed

lemma cancel_files_ok:
  assumes "cancel_files env oids s = (s', evs :: 's FileTransferEvent list, r :: (_, 'e FileTransferError) result)"
    "inbound_inv s"
  shows "handler_ok (set oids) s s' \<and> it_incoming_groups s' = it_incoming_groups s"
  using assms
proof (induction oids arbitrary: s evs)
  case (Cons oid oids)
  show ?case
  proof (cases "map_of (it_incoming_files s) oid")
    case None
    then show ?thesis using Cons by (fastforce simp: handler_ok_def)
  next
    case (Some incoming)
    obtain s1 evs1 r1 where one: "cancel_one env (ftm_transfer_id (ift_manifest (snd incoming))) oid incoming s =
        (s1, evs1 :: 's FileTransferEvent list, r1 :: (_, 'e FileTransferError) result)" by (metis prod.exhaust)
    have s1: "s1 = s\<lparr>it_incoming_files := AList.delete oid (it_incoming_files s)\<rparr>" by (rule cancel_one_frame [OF one])
    have ok1: "handler_ok {oid} s s1" unfolding s1 by (rule delete_file_ok [OF Cons.prems(2)])
    show ?thesis
    proof (cases r1)
      case (Inl err)
      then have "s' = s1" using Cons.prems(1) Some one by simp
      then show ?thesis using ok1 by (auto simp: handler_ok_def s1)
    next
      case (Inr u)
      then obtain evs2 :: "'s FileTransferEvent list" where "cancel_files env oids s1 = (s', evs2, r)"
        using Cons.prems(1) Some one by (auto split: prod.splits)
      from Cons.IH [OF this handler_ok_inv [OF ok1]]
      show ?thesis using handler_ok_trans [OF ok1] by (auto simp: s1)
    qed
  qed
qed (simp add: handler_ok_refl)

lemma group_removed_ok:
  assumes "inbound_inv s"
  shows "handler_ok X s (s\<lparr>it_incoming_groups := AList.delete gid (it_incoming_groups s)\<rparr>)"
proof -
  have "card (fst ` set (AList.delete gid (it_incoming_groups s)) \<union> incoming_gids (it_incoming_files s)) \<le> 47"
    by (rule gids_mono [of "fst ` set (it_incoming_groups s)" "incoming_gids (it_incoming_files s)"])
      (use assms delete_keys_subset [of gid "it_incoming_groups s"] in \<open>auto simp: inbound_inv_def incoming_gids_finite\<close>)
  then show ?thesis using assms
    by (intro handler_ok_frame) (simp_all add: inbound_inv_def inv_groups_delete same_config_def)
qed

lemma cancel_incoming_group_ok:
  assumes run: "cancel_incoming_group env gid s = (s', evs :: 's FileTransferEvent list, r :: (_, 'e FileTransferError) result)"
    and inv: "inbound_inv s"
  shows "handler_ok (set (group_members gid s)) s s'"
proof -
  obtain s1 evs1 r1 where c: "cancel_files env (sort (group_members gid s)) s =
      (s1, evs1 :: 's FileTransferEvent list, r1 :: (_, 'e FileTransferError) result)" by (metis prod.exhaust)
  have ok1: "handler_ok (set (group_members gid s)) s s1" using cancel_files_ok [OF c inv] by simp
  then have ok2: "handler_ok (set (group_members gid s)) s (s1\<lparr>it_incoming_groups := AList.delete gid (it_incoming_groups s1)\<rparr>)"
    using handler_ok_trans [OF ok1 group_removed_ok [of s1 "{}"]] handler_ok_inv by fastforce
  have "s' = s1 \<or> s' = s1\<lparr>it_incoming_groups := AList.delete gid (it_incoming_groups s1)\<rparr>"
    using run c by (auto simp: cancel_incoming_group_def Let_def split: sum.splits option.splits)
  then show ?thesis using ok1 ok2 by auto
qed

lemma group_members_mem:
  assumes "oid \<in> set (group_members gid s)" "hash_wf (it_incoming_files s)" "map_of (it_incoming_files s) oid = Some (dir, t)"
  shows "\<exists>g. ftm_group (ift_manifest t) = Some g \<and> ftg_group_id g = gid"
  using assms by (auto simp: group_members_def hash_wf_mem split: option.splits)

text \<open>A cancelled file: whatever the handler removed is on record as cancelled.\<close>

lemma handler_ok_cancelled:
  assumes "handler_ok X s s'" "\<And>oid dir t. oid \<in> X \<Longrightarrow> map_of (it_incoming_files s) oid = Some (dir, t) \<Longrightarrow>
    is_manifest_cancelled (ift_manifest t) s"
  shows "handler_ok {} s s'"
  using assms cancelled_mono [of _ s s'] by (fastforce simp: handler_ok_def)

lemma handle_control_ok:
  assumes run: "handle_control decc env e s = (s', evs :: 's FileTransferEvent list, r :: (_, 'e FileTransferError) result)"
    and inv: "inbound_inv s"
  shows "handler_ok {} s s'"
proof (cases "control_from_envelope decc e")
  case (Inl err)
  then show ?thesis using run inv by (simp add: handle_control_def handler_ok_refl)
next
  case (Inr control)
  note run' = run [unfolded handle_control_def Inr sum.case]
  have files: "hash_wf (it_incoming_files s)" "\<And>oid dir t. map_of (it_incoming_files s) oid = Some (dir, t) \<Longrightarrow>
      ftm_file_object_id (ift_manifest t) = oid"
    using inv by (auto simp: inbound_inv_def inv_files_def file_ok_def)
  show ?thesis
  proof (cases control)
    case (ClipboardGroup gid)
    have small: "inv_small (it_manifest_assemblers s) (it_clipboard_groups s)" using inv by (simp add: inbound_inv_def)
    have "length (List.insert gid (it_clipboard_groups s)) \<le> 32"
      if "\<not> (length (it_clipboard_groups s) \<ge> 32 \<and> gid \<notin> set (it_clipboard_groups s))"
      using that small by (auto simp: List.insert_def inv_small_def)
    then show ?thesis using run' ClipboardGroup inv small
      by (auto simp: handler_ok_refl inbound_inv_def inv_small_def same_config_def split: if_splits intro!: handler_ok_frame)
  next
    case (CancelTransfer tid oid)
    let ?s = "s\<lparr>it_cancelled_file_objects := List.insert oid (it_cancelled_file_objects s)\<rparr>"
    have first: "handler_ok {} s ?s" using inv by (auto simp: handler_ok_def inbound_inv_def same_config_def)
    have run2: "cancel_incoming_file env tid oid ?s = (s', evs, r)" using run' CancelTransfer by simp
    have "handler_ok {oid} ?s s'"
    proof (cases "map_of (it_incoming_files ?s) oid")
      case None
      then show ?thesis using run2 handler_ok_refl [OF handler_ok_inv [OF first]] by (simp add: cancel_incoming_file_def)
    next
      case (Some incoming)
      then have "cancel_one env tid oid incoming ?s = (s', evs, r)" using run2 by (simp add: cancel_incoming_file_def)
      from cancel_one_frame [OF this] show ?thesis using delete_file_ok [OF handler_ok_inv [OF first], of oid] by simp
    qed
    then have "handler_ok {} ?s s'"
      by (rule handler_ok_cancelled) (use files(2) in \<open>auto simp: is_manifest_cancelled_def\<close>)
    then show ?thesis using handler_ok_trans [OF first] by fastforce
  next
    case (CancelGroup gid)
    let ?s = "s\<lparr>it_cancelled_groups := List.insert gid (it_cancelled_groups s)\<rparr>"
    have first: "handler_ok {} s ?s" using inv by (auto simp: handler_ok_def inbound_inv_def same_config_def)
    have run2: "cancel_incoming_group env gid ?s = (s', evs, r)" using run' CancelGroup by simp
    have "handler_ok {} ?s s'"
      by (rule handler_ok_cancelled [OF cancel_incoming_group_ok [OF run2 handler_ok_inv [OF first]]])
        (use group_members_mem [of _ gid ?s] files(1) in \<open>fastforce simp: is_manifest_cancelled_def\<close>)
    then show ?thesis using handler_ok_trans [OF first] by fastforce
  qed (use run' inv in \<open>auto simp: handler_ok_refl\<close>)
qed

text \<open>
  A chunk: the transfer it belongs to keeps what it had, gains the chunk when the chunk is accepted, and
  leaves the table only by being committed or with an error.
\<close>

lemma write_fault_inv:
  assumes inv: "ift_inv t" and chunk: "dh_chunk (env_header e) = Some chunk"
    and push: "ift_push_chunk (write_fault env chunk e t) e t = (t', p :: (_, 'e FileTransferError) result)"
  shows "ift_inv t'" "ift_path t' = ift_path t" "ift_manifest t' = ift_manifest t" "ift_total_chunks t' = ift_total_chunks t"
    "received_set t \<subseteq> received_set t'"
    "p = Ok q \<Longrightarrow> q = ift_progress t' \<and> unat (ck_chunk_index chunk) \<in> received_set t'"
    "p = Err err \<Longrightarrow> ift_received_chunks t' = ift_received_chunks t"
proof -
  have "ift_inv t' \<and> ift_path t' = ift_path t \<and> ift_manifest t' = ift_manifest t \<and> ift_total_chunks t' = ift_total_chunks t \<and>
    received_set t \<subseteq> received_set t' \<and> (\<forall>q. p = Ok q \<longrightarrow> q = ift_progress t' \<and> unat (ck_chunk_index chunk) \<in> received_set t') \<and>
    (\<forall>err. p = Err err \<longrightarrow> ift_received_chunks t' = ift_received_chunks t)"
    using inv
  proof (cases rule: ift_push_cases [where fault = "write_fault env chunk e t" and e = e and ?'e = 'e])
    case (failed f c)
    have c: "c = chunk" using failed(3) chunk by simp
    note v = ift_validate_Ok [OF inv failed(4)]
    obtain n where f: "f = write_at (unat (ck_offset chunk)) (take n (env_payload e)) (ift_file t)"
      using failed(1) by (auto simp: write_fault_def)
    have "length f = file_len t" unfolding f
      using v(2,4) inv by (subst write_at_length) (auto simp: ift_inv_def c)
    then show ?thesis using failed push inv by (auto simp: ift_inv_def received_set_def)
  next
    case (stored c t2)
    have "ift_inv (fst (ift_push_chunk None e t :: _ \<times> (_, 'e FileTransferError) result))"
      by (rule ift_push_inv [OF inv]) simp
    then show ?thesis using stored push chunk by auto
  qed (use push inv chunk in auto)
  then show "ift_inv t'" "ift_path t' = ift_path t" "ift_manifest t' = ift_manifest t" "ift_total_chunks t' = ift_total_chunks t"
    "received_set t \<subseteq> received_set t'"
    "p = Ok q \<Longrightarrow> q = ift_progress t' \<and> unat (ck_chunk_index chunk) \<in> received_set t'"
    "p = Err err \<Longrightarrow> ift_received_chunks t' = ift_received_chunks t"
    by blast+
qed

lemma update_file_ok:
  assumes inv: "inbound_inv s" and old: "map_of (it_incoming_files s) oid = Some (dir, t)"
    and new: "file_ok (it_receive_dir s) (it_completed_files s) oid dir t'" "ift_manifest t' = ift_manifest t"
  shows "handler_ok {oid} s (s\<lparr>it_incoming_files := AList.update oid (dir, t') (it_incoming_files s)\<rparr>)"
proof -
  let ?inc = "it_incoming_files s"
  have files: "inv_files (it_receive_dir s) (it_completed_files s) ?inc" using inv by (simp add: inbound_inv_def)
  have "manifest_gids (ift_manifest t') \<subseteq> incoming_gids ?inc"
    using map_of_SomeD [OF old] new(2) by (force simp: incoming_gids_def)
  then have "incoming_gids (AList.update oid (dir, t') ?inc) \<subseteq> incoming_gids ?inc"
    using set_update_subset [of oid "(dir, t')" ?inc] by (fastforce simp: incoming_gids_def)
  then have sub: "fst ` set (it_incoming_groups s) \<union> incoming_gids (AList.update oid (dir, t') ?inc) \<subseteq>
      fst ` set (it_incoming_groups s) \<union> incoming_gids ?inc" by blast
  have "card (fst ` set (it_incoming_groups s) \<union> incoming_gids ?inc) \<le> 47" using inv by (simp add: inbound_inv_def)
  then have "card (fst ` set (it_incoming_groups s) \<union> incoming_gids (AList.update oid (dir, t') ?inc)) \<le> 47"
    by (rule gids_mono [OF _ sub]) (simp add: incoming_gids_finite)
  moreover have "inv_files (it_receive_dir s) (it_completed_files s) (AList.update oid (dir, t') ?inc)"
    by (rule inv_files_update [OF files new(1)]) (simp add: old)
  ultimately show ?thesis using inv
    by (simp add: handler_ok_def inbound_inv_def same_config_def map_of_AList)
qed

lemma handle_file_chunk_cases:
  assumes run: "handle_file_chunk env e s = (s', evs :: 's FileTransferEvent list, r :: (_, 'e FileTransferError) result)"
    and inv: "inbound_inv s"
  obtains (idle) "s' = s" "evs = []"
      "\<And>chunk. dh_chunk (env_header e) = Some chunk \<Longrightarrow> map_of (it_incoming_files s) (ck_object_id chunk) \<noteq> None \<Longrightarrow> is_ok r = False"
  | (pushed) chunk dir t t' where "dh_chunk (env_header e) = Some chunk"
      "map_of (it_incoming_files s) (ck_object_id chunk) = Some (dir, t)" "handler_ok {ck_object_id chunk} s s'"
      "ift_manifest t' = ift_manifest t" "ift_total_chunks t' = ift_total_chunks t" "received_set t \<subseteq> received_set t'"
      "r = Ok () \<Longrightarrow> unat (ck_chunk_index chunk) \<in> received_set t'"
      "map_of (it_incoming_files s') (ck_object_id chunk) = Some (dir, t') \<or> is_ok r = False \<or>
        (\<exists>path. IncomingCompleted (ftm_transfer_id (ift_manifest t)) (ck_object_id chunk)
          (ftm_group (ift_manifest t)) path (ftm_size_bytes (ift_manifest t)) \<in> set evs)"
proof (cases "dh_chunk (env_header e)")
  case None
  then show ?thesis using run idle by (simp add: handle_file_chunk_def)
next
  case (Some chunk)
  let ?oid = "ck_object_id chunk" and ?inc = "it_incoming_files s"
  have files: "inv_files (it_receive_dir s) (it_completed_files s) ?inc" using inv by (simp add: inbound_inv_def)
  show ?thesis
  proof (cases "map_of ?inc ?oid")
    case None
    then have "s' = s" "evs = []" using run Some by (auto simp: handle_file_chunk_def Let_def split: option.splits)
    then show ?thesis using idle None Some by simp
  next
    case inc: (Some d)
    obtain dir t where d: "d = (dir, t)" by force
    have ok: "file_ok (it_receive_dir s) (it_completed_files s) ?oid dir t" using files inc d by (simp add: inv_files_def)
    then have t: "ift_inv t" "ift_path t \<noteq> []" "dir = it_receive_dir s" "ftm_file_object_id (ift_manifest t) = ?oid"
      "ift_received_chunks t \<noteq> ift_total_chunks t" "map_of (it_completed_files s) ?oid = None" by (auto simp: file_ok_def)
    obtain t' p where push: "ift_push_chunk (write_fault env chunk e t) e t = (t', p :: (_, 'e FileTransferError) result)" by force
    note w = write_fault_inv [OF t(1) Some push]
    have stay: thesis if s': "s' = s\<lparr>it_incoming_files := AList.update ?oid (dir, t') ?inc\<rparr>"
        and part: "ift_received_chunks t' \<noteq> ift_total_chunks t'" and acc: "r = Ok () \<Longrightarrow> unat (ck_chunk_index chunk) \<in> received_set t'"
    proof -
      have "file_ok (it_receive_dir s) (it_completed_files s) ?oid dir t'"
        using w(1,2,3) t part by (simp add: file_ok_def)
      then have "handler_ok {?oid} s s'" unfolding s' using inc d w(3) by (intro update_file_ok [OF inv]) auto
      then show thesis by (rule pushed [OF Some inc [unfolded d] _ w(3,4,5) acc]) (simp_all add: s' map_of_AList)
    qed
    show ?thesis
    proof (cases p)
      case (Inl err)
      then show ?thesis using run Some inc d t push w(4) w(7) [OF Inl]
        by (intro stay) (auto simp: handle_file_chunk_def Let_def)
    next
      case (Inr q)
      note q = w(6) [OF Inr]
      show ?thesis
      proof (cases "ift_received_chunks t' = ift_total_chunks t'")
        case False
        then show ?thesis using run Some inc d t push Inr q
          by (intro stay) (auto simp: handle_file_chunk_def Let_def ift_progress_def)
      next
        case True
        define s0 where "s0 = s\<lparr>it_incoming_files := AList.delete ?oid ?inc\<rparr>"
        obtain s1 evs1 r1 where c1: "complete_incoming env (dir, t') s0 =
            (s1, evs1 :: 's FileTransferEvent list, r1 :: (_, 'e FileTransferError) result)" by (metis prod.exhaust)
        have q': "q = ift_progress t'" "ftp_is_complete q" using q True by (simp_all add: ift_progress_def)
        have run1: "(s1, progress_event q # evs1, r1) = (s', evs, r)"
          using run Some inc d t(6) push Inr q'(2) c1 by (simp add: handle_file_chunk_def Let_def s0_def)
        have c: "complete_incoming env (dir, t') s0 = (s', evs1, r)" and evs: "set evs1 \<subseteq> set evs"
          using run1 c1 by auto
        have ok0: "handler_ok {?oid} s s0" unfolding s0_def by (rule delete_file_ok [OF inv])
        have gid: "manifest_gids (ift_manifest t') \<subseteq> incoming_gids ?inc"
          using map_of_SomeD [OF inc] d w(3) by (force simp: incoming_gids_def)
        have room: "card (fst ` set (it_incoming_groups s0) \<union> (manifest_gids (ift_manifest t') \<union> incoming_gids (it_incoming_files s0))) \<le> 47"
          by (rule gids_mono [of "fst ` set (it_incoming_groups s)" "incoming_gids ?inc"])
            (use inv gid incoming_gids_delete [of ?oid ?inc] in \<open>auto simp: inbound_inv_def incoming_gids_finite s0_def\<close>)
        have pre: "dir = it_receive_dir s0" "ift_path t' \<noteq> []"
          "map_of (it_incoming_files s0) (ftm_file_object_id (ift_manifest t')) = None"
          "map_of (it_completed_files s0) (ftm_file_object_id (ift_manifest t')) = None"
          using t w(2,3) by (auto simp: s0_def map_of_AList)
        note fin = complete_incoming_inv [OF c handler_ok_inv [OF ok0] pre room]
        have all: "handler_ok {?oid} s s'"
          using handler_ok_trans [OF ok0 handler_ok_frame [OF fin(1-5), of "{}"]] by simp
        have r: "is_ok r = False \<or> r = Ok ()" by (cases r) (auto simp: is_ok_def)
        show ?thesis
          by (rule pushed [OF Some inc [unfolded d] all w(3,4,5)]) (use q r fin(6) evs w(3) t(4) in \<open>auto\<close>)
      qed
    qed
  qed
qed

lemma dispatch_ok:
  assumes run: "dispatch_envelope dec decc env e s = (s', evs :: 's FileTransferEvent list, r :: (_, 'e FileTransferError) result)"
    and inv: "inbound_inv s"
  shows "handler_ok (if dh_kind (env_header e) = Kind_FileChunk then ck_object_id ` set_option (dh_chunk (env_header e)) else {}) s s'"
proof (cases "dh_kind (env_header e) = Kind_FileChunk")
  case True
  then have "handle_file_chunk env e s = (s', evs, r)" using run by (simp add: dispatch_envelope_def)
  then show ?thesis using inv
  proof (cases rule: handle_file_chunk_cases)
    case idle
    then show ?thesis using handler_ok_refl [OF inv] by simp
  next
    case (pushed chunk dir t t')
    then show ?thesis using True by simp
  qed
next
  case False
  have "s' = s \<or> handle_manifest dec env e s = (s', evs, r) \<or> handle_control decc env e s = (s', evs, r)"
    using run False by (auto simp: dispatch_envelope_def split: ContentKind.splits)
  then show ?thesis using False inv handle_manifest_ok [OF _ inv] handle_control_ok [OF _ inv] by (auto simp: handler_ok_refl)
qed

section \<open>Runs\<close>

datatype inbound_op = Handle inbound_env DataEnvelope | SetReceiveConfig PathBuf FileReceivePolicy

fun inbound_step ::
  "(bytes \<Rightarrow> (FileTransferManifest, 'e) result) \<Rightarrow> (bytes \<Rightarrow> (('q, 's) FileTransferControl, 'e) result) \<Rightarrow>
     ('e FileTransferError \<Rightarrow> string) \<Rightarrow> InboundFileTransfers \<Rightarrow> inbound_op \<Rightarrow>
     InboundFileTransfers \<times> 's FileTransferEvent list \<times> ('q, 's) FileTransferControl option" where
  "inbound_step dec decc display s (Handle env e) = handle_envelope dec decc display env e s"
| "inbound_step dec decc display s (SetReceiveConfig dir policy) = (set_receive_config dir policy s, [], None)"

text \<open>The state, all events and all replies of a run.\<close>

fun run_inbound ::
  "(bytes \<Rightarrow> (FileTransferManifest, 'e) result) \<Rightarrow> (bytes \<Rightarrow> (('q, 's) FileTransferControl, 'e) result) \<Rightarrow>
     ('e FileTransferError \<Rightarrow> string) \<Rightarrow> InboundFileTransfers \<Rightarrow> inbound_op list \<Rightarrow>
     InboundFileTransfers \<times> 's FileTransferEvent list \<times> ('q, 's) FileTransferControl list" where
  "run_inbound dec decc display s [] = (s, [], [])"
| "run_inbound dec decc display s (x # xs) =
     (case inbound_step dec decc display s x of (s1, evs, reply) \<Rightarrow>
      case run_inbound dec decc display s1 xs of (s2, evs', replies) \<Rightarrow>
        (s2, evs @ evs', (case reply of None \<Rightarrow> replies | Some c \<Rightarrow> c # replies)))"

text \<open>A change of the receive directory waits only while there is work.\<close>

definition config_inv :: "InboundFileTransfers \<Rightarrow> bool" where
  "config_inv s = (it_pending_receive_config s \<noteq> None \<longrightarrow> has_active_incoming_work s)"

lemma idle_inv:
  "inbound_inv s \<Longrightarrow> \<not> has_active_incoming_work s \<Longrightarrow>
     inbound_inv (s\<lparr>it_pending_receive_config := c, it_receive_dir := d, it_receive_policy := p\<rparr>)"
  by (simp add: inbound_inv_def has_active_incoming_work_def inv_files_def inv_groups_def)

lemma pending_irrelevant: "inbound_inv (s\<lparr>it_pending_receive_config := c\<rparr>) = inbound_inv s"
  by (simp add: inbound_inv_def)

lemma apply_pending_inv:
  assumes "inbound_inv s"
  shows "inbound_inv (apply_pending_receive_config_if_idle s)" "config_inv (apply_pending_receive_config_if_idle s)"
    "it_incoming_files (apply_pending_receive_config_if_idle s) = it_incoming_files s"
    "it_cancelled_file_objects (apply_pending_receive_config_if_idle s) = it_cancelled_file_objects s"
    "it_cancelled_groups (apply_pending_receive_config_if_idle s) = it_cancelled_groups s"
  using assms idle_inv [OF assms]
  by (auto simp: apply_pending_receive_config_if_idle_def config_inv_def has_active_incoming_work_def split: option.splits)

lemma inbound_step_inv:
  assumes "inbound_inv s \<and> config_inv s"
  shows "inbound_inv (fst (inbound_step dec decc display s x)) \<and> config_inv (fst (inbound_step dec decc display s x))"
proof (cases x)
  case (Handle env e)
  obtain s1 evs r where d: "dispatch_envelope dec decc env e s = (s1, evs, r)" by (metis prod.exhaust)
  have "inbound_inv s1" using handler_ok_inv [OF dispatch_ok [OF d]] assms by simp
  moreover have "fst (inbound_step dec decc display s x) = apply_pending_receive_config_if_idle s1"
    using d by (cases r) (simp_all add: Handle handle_envelope_def Let_def)
  ultimately show ?thesis using apply_pending_inv by simp
next
  case (SetReceiveConfig dir policy)
  then show ?thesis using assms idle_inv [of s policy dir "it_pending_receive_config s"]
    by (auto simp: set_receive_config_def pending_irrelevant config_inv_def has_active_incoming_work_def)
qed

interpretation inbound: op_machine "\<lambda>s x. fst (inbound_step dec decc display s x)" "\<lambda>s. inbound_inv s \<and> config_inv s"
  for dec decc display
  by unfold_locales (rule inbound_step_inv)

lemma run_inbound_state:
  "fst (run_inbound dec decc display s xs) = foldl (\<lambda>s x. fst (inbound_step dec decc display s x)) s xs"
proof (induction xs arbitrary: s)
  case (Cons x xs)
  show ?case using Cons [of "fst (inbound_step dec decc display s x)"] by (simp add: split_def)
qed simp

lemma it_new_inv: "inbound_inv (it_new dir policy) \<and> config_inv (it_new dir policy)"
  by (simp add: it_new_def inbound_inv_def config_inv_def inv_files_def inv_groups_def inv_completed_def inv_small_def
      incoming_gids_def hash_wf_def)

lemma run_inbound_inv:
  "inbound_inv (fst (run_inbound dec decc display (it_new dir policy) xs)) \<and>
   config_inv (fst (run_inbound dec decc display (it_new dir policy) xs))"
  unfolding run_inbound_state by (rule inbound.run_inv [OF it_new_inv])

section \<open>Acknowledgements\<close>

definition committed :: "FileTransferManifest \<Rightarrow> 's FileTransferEvent list \<Rightarrow> bool" where
  "committed m evs = (\<exists>path. IncomingCompleted (ftm_transfer_id m) (ftm_file_object_id m) (ftm_group m) path
     (ftm_size_bytes m) \<in> set evs)"

text \<open>The envelopes of a run that carry the object of a file are its chunks.\<close>

definition chunks_only :: "u64 \<Rightarrow> inbound_op \<Rightarrow> bool" where
  "chunks_only oid x = (case x of
       Handle env e \<Rightarrow> oid \<in> ck_object_id ` set_option (dh_chunk (env_header e)) \<longrightarrow> dh_kind (env_header e) = Kind_FileChunk
     | SetReceiveConfig _ _ \<Rightarrow> True)"

text \<open>One step, seen from one incoming transfer.\<close>

definition tracked :: "u64 \<Rightarrow> PathBuf \<Rightarrow> IncomingFileTransfer \<Rightarrow> u32 set \<Rightarrow> InboundFileTransfers \<Rightarrow> bool" where
  "tracked oid dir t acks s' = (\<exists>t'. map_of (it_incoming_files s') oid = Some (dir, t') \<and>
     ift_manifest t' = ift_manifest t \<and> ift_total_chunks t' = ift_total_chunks t \<and>
     received_set t \<subseteq> received_set t' \<and> unat ` acks \<subseteq> received_set t')"

lemma inbound_step_track:
  assumes inv: "inbound_inv s" and inc: "map_of (it_incoming_files s) oid = Some (dir, t)" and only: "chunks_only oid x"
    and step: "inbound_step dec decc display s x = (s', evs :: 's FileTransferEvent list, reply :: ('q, 's) FileTransferControl option)"
  shows "is_manifest_cancelled (ift_manifest t) s' \<or> (\<exists>reason. reply = Some (Rejected oid reason)) \<or>
    committed (ift_manifest t) evs \<or> tracked oid dir t {i. reply = Some (ChunkAccepted oid i)} s'"
proof (cases x)
  case (SetReceiveConfig d p)
  then show ?thesis using step inc by (auto simp: set_receive_config_def tracked_def split: if_splits)
next
  case (Handle env e)
  obtain s1 evs1 r where d: "dispatch_envelope dec decc env e s = (s1, evs1 :: 's FileTransferEvent list, r)" by (metis prod.exhaust)
  have ok: "handler_ok (if dh_kind (env_header e) = Kind_FileChunk then ck_object_id ` set_option (dh_chunk (env_header e)) else {}) s s1"
    by (rule dispatch_ok [OF d inv])
  note ap = apply_pending_inv [OF handler_ok_inv [OF ok]]
  have s': "s' = apply_pending_receive_config_if_idle s1" and evs: "set evs1 \<subseteq> set evs"
    and reply: "reply = Some c \<Longrightarrow> \<exists>chunk. dh_chunk (env_header e) = Some chunk \<and>
      (if is_ok r then c = ChunkAccepted (ck_object_id chunk) (ck_chunk_index chunk)
       else \<exists>reason. c = Rejected (ck_object_id chunk) reason)"
    and rej: "\<not> is_ok r \<Longrightarrow> dh_chunk (env_header e) = Some chunk \<Longrightarrow> \<exists>reason. reply = Some (Rejected (ck_object_id chunk) reason)"
    for c chunk
    using step d by (cases r; auto simp: Handle handle_envelope_def Let_def is_ok_def split: if_splits)+
  have canc: "is_manifest_cancelled m s' = is_manifest_cancelled m s1" for m
    using ap(4,5) by (simp add: is_manifest_cancelled_def s' split: option.split)
  show ?thesis
  proof (cases "oid \<in> ck_object_id ` set_option (dh_chunk (env_header e))")
    case False
    then have "map_of (it_incoming_files s1) oid = Some (dir, t) \<or> is_manifest_cancelled (ift_manifest t) s1"
      using ok inc by (auto simp: handler_ok_def split: if_splits)
    moreover have "{i. reply = Some (ChunkAccepted oid i)} = {}" using False reply by (fastforce split: if_splits)
    ultimately show ?thesis using ap(3) canc by (auto simp: tracked_def s')
  next
    case True
    then obtain chunk where chunk: "dh_chunk (env_header e) = Some chunk" "ck_object_id chunk = oid" by auto
    have "handle_file_chunk env e s = (s1, evs1, r)"
      using d only True by (simp add: chunks_only_def Handle dispatch_envelope_def)
    then show ?thesis using inv
    proof (cases rule: handle_file_chunk_cases)
      case idle
      then show ?thesis using rej [of chunk] chunk inc by auto
    next
      case (pushed c d0 t0 t1)
      have c: "c = chunk" "d0 = dir" "t0 = t" using pushed(1,2) chunk inc by auto
      have fid: "ftm_file_object_id (ift_manifest t) = oid"
        using inv inc by (auto simp: inbound_inv_def inv_files_def file_ok_def)
      show ?thesis
      proof (cases "is_ok r")
        case False
        then show ?thesis using rej [OF False chunk(1)] chunk by auto
      next
        case succ: True
        then have "r = Ok ()" by (cases r) (auto simp: is_ok_def)
        then have acc: "unat (ck_chunk_index chunk) \<in> received_set t1" using pushed(7) c by simp
        have "i = ck_chunk_index chunk" if "reply = Some (ChunkAccepted oid i)" for i
          using reply [OF that] chunk succ by auto
        then have "unat ` {i. reply = Some (ChunkAccepted oid i)} \<subseteq> received_set t1" using acc by auto
        then show ?thesis using pushed(4,5,6,8) c chunk(2) succ ap(3) evs fid
          by (auto simp: tracked_def committed_def s')
      qed
    qed
  qed
qed

lemma step_cancelled_mono:
  assumes "inbound_inv s" "is_manifest_cancelled m s"
  shows "is_manifest_cancelled m (fst (inbound_step dec decc display s x))"
proof (cases x)
  case (Handle env e)
  obtain s1 evs r where d: "dispatch_envelope dec decc env e s = (s1, evs, r)" by (metis prod.exhaust)
  have "fst (inbound_step dec decc display s x) = apply_pending_receive_config_if_idle s1"
    using d by (cases r) (simp_all add: Handle handle_envelope_def Let_def)
  then show ?thesis using dispatch_ok [OF d assms(1)] assms(2) apply_pending_inv(4,5) [of s1]
    by (intro cancelled_mono [OF assms(2)]) (auto simp: handler_ok_def)
qed (use assms in \<open>auto simp: set_receive_config_def is_manifest_cancelled_def split: option.splits\<close>)

lemma run_cancelled_mono:
  assumes "inbound_inv s \<and> config_inv s" "is_manifest_cancelled m s"
  shows "is_manifest_cancelled m (fst (run_inbound dec decc display s xs))"
  using assms unfolding run_inbound_state
proof (induction xs arbitrary: s)
  case (Cons x xs)
  show ?case
    using Cons.IH [OF inbound_step_inv [OF Cons.prems(1)] step_cancelled_mono [OF _ Cons.prems(2)]] Cons.prems(1) by simp
qed simp

lemma tracked_trans:
  assumes "map_of (it_incoming_files s1) oid = Some (dir, t1)" "ift_manifest t1 = ift_manifest t"
    "ift_total_chunks t1 = ift_total_chunks t" "received_set t \<subseteq> received_set t1" "unat ` A \<subseteq> received_set t1"
    "tracked oid dir t1 B s2"
  shows "tracked oid dir t (A \<union> B) s2"
proof -
  obtain t2 where t2: "map_of (it_incoming_files s2) oid = Some (dir, t2)" "ift_manifest t2 = ift_manifest t1"
    "ift_total_chunks t2 = ift_total_chunks t1" "received_set t1 \<subseteq> received_set t2" "unat ` B \<subseteq> received_set t2"
    using assms(6) unfolding tracked_def by blast
  then have "unat ` (A \<union> B) \<subseteq> received_set t2" using assms(5) by blast
  then show ?thesis unfolding tracked_def using t2 assms(2-4) by (intro exI [of _ t2]) auto
qed

lemma run_inbound_track:
  assumes "inbound_inv s \<and> config_inv s" "map_of (it_incoming_files s) oid = Some (dir, t)" "list_all (chunks_only oid) xs"
    "run_inbound dec decc display s xs = (s', evs :: 's FileTransferEvent list, replies :: ('q, 's) FileTransferControl list)"
    "\<not> is_manifest_cancelled (ift_manifest t) s'" "\<And>reason. Rejected oid reason \<notin> set replies"
  shows "committed (ift_manifest t) evs \<or> tracked oid dir t {i. ChunkAccepted oid i \<in> set replies} s'"
  using assms
proof (induction xs arbitrary: s t evs replies)
  case (Cons x xs)
  obtain s1 evs1 reply where st: "inbound_step dec decc display s x =
      (s1, evs1 :: 's FileTransferEvent list, reply :: ('q, 's) FileTransferControl option)" by (metis prod.exhaust)
  obtain s2 evs2 replies2 where rest: "run_inbound dec decc display s1 xs =
      (s2, evs2 :: 's FileTransferEvent list, replies2 :: ('q, 's) FileTransferControl list)" by (metis prod.exhaust)
  have all: "s2 = s'" "evs = evs1 @ evs2" "replies = (case reply of None \<Rightarrow> replies2 | Some c \<Rightarrow> c # replies2)"
    using Cons.prems(4) st rest by auto
  have inv1: "inbound_inv s1 \<and> config_inv s1" using inbound_step_inv [OF Cons.prems(1)] st by (metis fst_conv)
  have "\<not> is_manifest_cancelled (ift_manifest t) s1"
    using run_cancelled_mono [OF inv1, of "ift_manifest t" dec decc display xs] rest all(1) Cons.prems(5) by (metis fst_conv)
  moreover have "reply \<noteq> Some (Rejected oid reason)" for reason using Cons.prems(6) [of reason] all(3) by auto
  ultimately consider "committed (ift_manifest t) evs1" | "tracked oid dir t {i. reply = Some (ChunkAccepted oid i)} s1"
    using inbound_step_track [OF _ Cons.prems(2) _ st] Cons.prems(1,3) by auto
  then show ?case
  proof cases
    case 1
    then show ?thesis by (auto simp: committed_def all(2))
  next
    case 2
    then obtain t1 where t1: "map_of (it_incoming_files s1) oid = Some (dir, t1)" "ift_manifest t1 = ift_manifest t"
      "ift_total_chunks t1 = ift_total_chunks t" "received_set t \<subseteq> received_set t1"
      "unat ` {i. reply = Some (ChunkAccepted oid i)} \<subseteq> received_set t1" unfolding tracked_def by blast
    have "committed (ift_manifest t1) evs2 \<or> tracked oid dir t1 {i. ChunkAccepted oid i \<in> set replies2} s'"
    proof (rule Cons.IH [OF inv1 t1(1)])
      show "list_all (chunks_only oid) xs" using Cons.prems(3) by simp
      show "run_inbound dec decc display s1 xs = (s', evs2, replies2)" using rest all(1) by simp
      show "\<not> is_manifest_cancelled (ift_manifest t1) s'" using Cons.prems(5) t1(2) by simp
      show "Rejected oid reason \<notin> set replies2" for reason using Cons.prems(6) [of reason] all(3) by (auto split: option.splits)
    qed
    moreover have "{i. ChunkAccepted oid i \<in> set replies} =
        {i. reply = Some (ChunkAccepted oid i)} \<union> {i. ChunkAccepted oid i \<in> set replies2}"
      by (auto simp: all(3) split: option.splits)
    ultimately show ?thesis using tracked_trans [OF t1] t1(2) by (auto simp: committed_def all(2))
  qed
qed (auto simp: tracked_def)

section \<open>Properties\<close>

text \<open>
  An acknowledged file is a committed file.  Take an incoming transfer, and any sequence of envelopes and
  configuration changes after it in which the transfer's object identifies only its chunks.  If every
  chunk of the file was acknowledged, none was rejected and the file or its group was not cancelled, then
  the file was committed: its checksum matched, it was published and the completion was reported.
\<close>

theorem acknowledged_file_is_committed:
  assumes inv: "inbound_inv s \<and> config_inv s" and inc: "map_of (it_incoming_files s) oid = Some (dir, t)"
    and only: "list_all (chunks_only oid) xs"
    and run: "run_inbound dec decc display s xs = (s', evs :: 's FileTransferEvent list, replies :: ('q, 's) FileTransferControl list)"
    and kept: "\<not> is_manifest_cancelled (ift_manifest t) s'" and ok: "\<And>reason. Rejected oid reason \<notin> set replies"
    and acks: "\<And>i. i < ift_total_chunks t \<Longrightarrow> ChunkAccepted oid i \<in> set replies"
  shows "\<exists>path. IncomingCompleted (ftm_transfer_id (ift_manifest t)) oid (ftm_group (ift_manifest t)) path
    (ftm_size_bytes (ift_manifest t)) \<in> set evs"
proof -
  have fid: "ftm_file_object_id (ift_manifest t) = oid"
    using inv inc by (auto simp: inbound_inv_def inv_files_def file_ok_def)
  have "committed (ift_manifest t) evs"
  proof (rule ccontr)
    assume "\<not> committed (ift_manifest t) evs"
    then obtain t' where t': "map_of (it_incoming_files s') oid = Some (dir, t')" "ift_total_chunks t' = ift_total_chunks t"
      "unat ` {i. ChunkAccepted oid i \<in> set replies} \<subseteq> received_set t'"
      using run_inbound_track [OF inv inc only run kept ok] unfolding tracked_def by blast
    have "inbound_inv s'" using inbound.run_inv [OF inv] run run_inbound_state by (metis fst_conv)
    then have ft: "ift_inv t'" "ift_received_chunks t' \<noteq> ift_total_chunks t'"
      using t'(1) by (auto simp: inbound_inv_def inv_files_def file_ok_def)
    have "{..<unat (ift_total_chunks t')} \<subseteq> received_set t'"
    proof
      fix n assume "n \<in> {..<unat (ift_total_chunks t')}"
      then have n: "n < unat (ift_total_chunks t)" using t'(2) by simp
      have "unat (ift_total_chunks t) < 2 ^ 32" using unsigned_less [of "ift_total_chunks t"] by simp
      then have u: "unat (word_of_nat n :: u32) = n" using n by (intro unat_small) simp
      then have "(word_of_nat n :: u32) < ift_total_chunks t" using n by (simp add: word_less_nat_alt)
      then show "n \<in> received_set t'" using acks t'(3) u by (metis (mono_tags, lifting) image_eqI mem_Collect_eq subsetD)
    qed
    then have "received_set t' = {..<unat (ift_total_chunks t')}" using ft(1) by (auto simp: ift_inv_def)
    then have "unat (ift_received_chunks t') = unat (ift_total_chunks t')" using ft(1) by (simp add: ift_inv_def)
    then show False using ft(2) by (simp add: word_unat_eq_iff)
  qed
  then show ?thesis by (simp add: committed_def fid)
qed

definition sample_file :: FileTransferManifest where
  "sample_file = \<lparr>ftm_transfer_id = 1, ftm_file_object_id = 3, ftm_name = ''a'', ftm_group = None, ftm_mime_type = None,
     ftm_size_bytes = 1, ftm_chunk_payload_len = 2, ftm_checksum_crc32 = checksum_crc32 [7]\<rparr>"

definition sample_incoming :: IncomingFileTransfer where
  "sample_incoming = \<lparr>ift_manifest = sample_file, ift_path = ''a'', ift_allow_overwrite = False, ift_file = [0],
     ift_received_indices = [0], ift_received_chunks = 0, ift_received_bytes = 0, ift_total_chunks = 1\<rparr>"

definition sample_inbound :: InboundFileTransfers where
  "sample_inbound = (it_new [RootDir] receive_policy_default)\<lparr>it_incoming_files := [(3, [RootDir], sample_incoming)]\<rparr>"

definition sample_answers :: inbound_env where
  "sample_answers = \<lparr>ie_fs = empty_target, ie_fault = None, ie_flush = None, ie_publish = (\<lambda>_. None), ie_rename = None,
     ie_sync = None, ie_remove_part = (\<lambda>_. Removed), ie_remove_file = (\<lambda>_. Removed), ie_remove_dir = (\<lambda>_. Removed)\<rparr>"

definition sample_chunk :: DataEnvelope where
  "sample_chunk = reliable_object_chunk Kind_FileChunk 2 1 0
     \<lparr>ck_object_id = 3, ck_chunk_index = 0, ck_total_chunks = 1, ck_offset = 0, ck_total_size = 1\<rparr> None [7]"

lemma sample_inbound_inv: "inbound_inv sample_inbound \<and> config_inv sample_inbound"
proof -
  have "ift_start empty_target sample_file receive_policy_default = (Ok sample_incoming :: (_, unit FileTransferError) result)"
    by (simp add: ift_start_def io_check_def empty_target_def relative_target_def path_components_def inner_component_def
        validate_manifest_def is_safe_file_name_def validate_chunk_payload_len_def chunk_count_def receive_policy_default_def
        sample_file_def sample_incoming_def)
  from ift_start_inv [OF this] show ?thesis
    by (simp add: sample_inbound_def it_new_def inbound_inv_def config_inv_def inv_files_def inv_groups_def
        inv_completed_def inv_small_def incoming_gids_def manifest_gids_def hash_wf_def file_ok_def)
      (simp add: sample_incoming_def sample_file_def)
qed

lemma sample_push:
  "ift_push_chunk None sample_chunk sample_incoming =
     (sample_incoming\<lparr>ift_file := [7], ift_received_indices := [1], ift_received_chunks := 1, ift_received_bytes := 1\<rparr>,
      (Ok (ift_progress (sample_incoming\<lparr>ift_file := [7], ift_received_indices := [1], ift_received_chunks := 1,
        ift_received_bytes := 1\<rparr>)) :: (_, unit FileTransferError) result))"
  by (simp add: ift_push_chunk_def sample_chunk_def sample_incoming_def sample_file_def reliable_object_chunk_def envelope_new_def
      ensure_content_kind_def ift_validate_chunk_def ok_or_def write_at_def Let_def)

lemma sample_finish:
  "ift_finish (\<lambda>_. None) None (sample_incoming\<lparr>ift_file := [7], ift_received_indices := [1], ift_received_chunks := 1,
     ift_received_bytes := 1\<rparr>) = (Ok ''a'' :: (_, unit FileTransferError) result)"
proof -
  have "publish_loop (\<lambda>_. None) ''a'' 0 (Suc n) = (Ok ''a'' :: (_, unit FileTransferError) result)" for n
    by (simp add: numbered_destination_def)
  from this [of 99999] show ?thesis
    by (simp add: ift_finish_def sample_incoming_def sample_file_def checksum_file del: publish_loop.simps)
qed

lemma sample_chunk_fields:
  "dh_chunk (env_header sample_chunk) = Some \<lparr>ck_object_id = 3, ck_chunk_index = 0, ck_total_chunks = 1,
     ck_offset = 0, ck_total_size = 1\<rparr>"
  "dh_kind (env_header sample_chunk) = Kind_FileChunk"
  by (simp_all add: sample_chunk_def reliable_object_chunk_def envelope_new_def Let_def)

text \<open>The chunk completes the file and is acknowledged.\<close>

lemma sample_received:
  "snd (snd (run_inbound (\<lambda>_. Err ()) (\<lambda>_. Err ()) (\<lambda>_. []) sample_inbound [Handle sample_answers sample_chunk] ::
     _ \<times> unit FileTransferEvent list \<times> (unit, unit) FileTransferControl list)) = [ChunkAccepted 3 0]"
  "it_cancelled_file_objects (fst (run_inbound (\<lambda>_. Err ()) (\<lambda>_. Err ()) (\<lambda>_. []) sample_inbound [Handle sample_answers sample_chunk] ::
     _ \<times> unit FileTransferEvent list \<times> (unit, unit) FileTransferControl list)) = []"
proof -
  have fields: "ie_fault sample_answers = None" "ie_flush sample_answers = None" "ie_publish sample_answers = (\<lambda>_. None)"
    "ie_rename sample_answers = None" "ie_sync sample_answers = None" by (simp_all add: sample_answers_def)
  have inc: "map_of (it_incoming_files sample_inbound) 3 = Some ([RootDir], sample_incoming)"
    "map_of (it_completed_files sample_inbound) 3 = None" by (simp_all add: sample_inbound_def it_new_def)
  have m: "ift_manifest sample_incoming = sample_file" "ift_total_chunks sample_incoming = 1" "ftm_group sample_file = None"
    by (simp_all add: sample_incoming_def sample_file_def)
  note eval = handle_envelope_def dispatch_envelope_def sample_chunk_fields handle_file_chunk_def inc write_fault_def fields
    sample_push ift_progress_def m complete_incoming_def finish_transfer_def io_check_def sample_finish
    record_group_completion_def remember_completed_def apply_pending_receive_config_if_idle_def Let_def
    has_active_incoming_work_def
  show "snd (snd (run_inbound (\<lambda>_. Err ()) (\<lambda>_. Err ()) (\<lambda>_. []) sample_inbound [Handle sample_answers sample_chunk] ::
     _ \<times> unit FileTransferEvent list \<times> (unit, unit) FileTransferControl list)) = [ChunkAccepted 3 0]"
    by (simp add: eval)
  show "it_cancelled_file_objects (fst (run_inbound (\<lambda>_. Err ()) (\<lambda>_. Err ()) (\<lambda>_. []) sample_inbound [Handle sample_answers sample_chunk] ::
     _ \<times> unit FileTransferEvent list \<times> (unit, unit) FileTransferControl list)) = []"
    by (simp add: eval) (simp add: sample_inbound_def it_new_def)
qed

lemma acknowledged_file_is_committed_witness:
  "\<exists>path. IncomingCompleted 1 3 None path 1 \<in> set (fst (snd (run_inbound (\<lambda>_. Err ()) (\<lambda>_. Err ()) (\<lambda>_. [])
     sample_inbound [Handle sample_answers sample_chunk] ::
       _ \<times> unit FileTransferEvent list \<times> (unit, unit) FileTransferControl list)))"
proof -
  let ?run = "run_inbound (\<lambda>_. Err ()) (\<lambda>_. Err ()) (\<lambda>_. []) sample_inbound [Handle sample_answers sample_chunk] ::
       _ \<times> unit FileTransferEvent list \<times> (unit, unit) FileTransferControl list"
  obtain s' evs where run: "?run = (s', evs, [ChunkAccepted 3 0])" "it_cancelled_file_objects s' = []"
    using sample_received by (metis prod.collapse)
  have inc: "map_of (it_incoming_files sample_inbound) 3 = Some ([RootDir], sample_incoming)"
    by (simp add: sample_inbound_def)
  show ?thesis
    using acknowledged_file_is_committed [OF sample_inbound_inv inc _ run(1)] run
    by (auto simp: chunks_only_def sample_chunk_fields is_manifest_cancelled_def sample_incoming_def sample_file_def word_less_1)
qed

section \<open>The tables of a run\<close>

text \<open>The two cancellation tables: only a decoded cancellation adds to them, and nothing removes from them.\<close>

definition cancellations :: "InboundFileTransfers \<Rightarrow> u64 list \<times> u64 list" where
  "cancellations s = (it_cancelled_file_objects s, it_cancelled_groups s)"

lemma complete_incoming_cancellations:
  "cancellations (fst (complete_incoming env incoming s :: ('s, 'e) handled)) = cancellations s"
proof -
  have group: "cancellations (fst (record_group_completion m path s :: ('s, 'e) handled)) = cancellations s" for m path
    by (auto simp: record_group_completion_def complete_group_def cancellations_def Let_def split: option.split sum.split)
  have rem: "cancellations (remember_completed m s) = cancellations s" for m s
    by (simp add: remember_completed_def cancellations_def split: prod.split)
  show ?thesis
  proof (cases "finish_transfer env incoming :: (PathBuf, 'e FileTransferError) result")
    case (Inr path)
    let ?m = "ift_manifest (snd incoming)"
    obtain s1 evs r where rec: "record_group_completion ?m path s = (s1, evs :: 's FileTransferEvent list,
        r :: (unit, 'e FileTransferError) result)" by (metis prod.exhaust)
    show ?thesis using group [of ?m path] rec rem [of ?m s1] Inr by (cases r) (auto simp: complete_incoming_def Let_def)
  qed (simp add: complete_incoming_def Let_def)
qed

lemma start_incoming_cancellations:
  "cancellations (fst (start_incoming env m s :: ('s, 'e) handled)) = cancellations s"
proof -
  have upd: "cancellations (s\<lparr>it_incoming_files := x\<rparr>) = cancellations s" for x by (simp add: cancellations_def)
  have "cancellations s1 = cancellations s"
    if "complete_incoming env i s = (s1, r :: 's FileTransferEvent list \<times> (unit, 'e FileTransferError) result)" for i s1 r
    using complete_incoming_cancellations [where ?'s = 's and ?'e = 'e, of env i s] that by simp
  then show ?thesis by (auto simp: start_incoming_def upd Let_def split: sum.split prod.split)
qed

lemma handle_manifest_cancellations:
  "cancellations (fst (handle_manifest dec env e s :: ('s, 'e) handled)) = cancellations s"
proof -
  have admit: "cancellations (fst (admit_manifest env m s0 :: ('s, 'e) handled)) = cancellations s0" for m s0
    by (auto simp: admit_manifest_def start_incoming_cancellations split: option.split sum.split)
  have "cancellations (s0\<lparr>it_manifest_assemblers := x\<rparr>) = cancellations s0" for s0 x by (simp add: cancellations_def)
  then show ?thesis by (auto simp: handle_manifest_def admit Let_def split: option.split sum.split prod.split)
qed

lemma handle_file_chunk_cancellations:
  "cancellations (fst (handle_file_chunk env e s :: ('s, 'e) handled)) = cancellations s"
proof -
  have upd: "cancellations (s0\<lparr>it_incoming_files := x\<rparr>) = cancellations s0" for s0 x by (simp add: cancellations_def)
  have "cancellations s1 = cancellations s0"
    if "complete_incoming env i s0 = (s1, r :: 's FileTransferEvent list \<times> (unit, 'e FileTransferError) result)" for i s0 s1 r
    using complete_incoming_cancellations [where ?'s = 's and ?'e = 'e, of env i s0] that by simp
  then show ?thesis by (fastforce simp: handle_file_chunk_def upd Let_def split: option.split sum.split prod.split)
qed

lemma cancel_one_cancellations:
  "cancellations (fst (cancel_one env tid oid incoming s :: ('s, 'e) handled)) = cancellations s"
  by (auto simp: cancel_one_def cancellations_def Let_def split: fs_removal.split sum.split)

lemma cancel_files_cancellations:
  "cancellations (fst (cancel_files env oids s :: ('s, 'e) handled)) = cancellations s"
proof (induction oids arbitrary: s)
  case (Cons oid oids)
  have one: "cancellations s1 = cancellations s"
    if "cancel_one env tid oid i s = (s1, r :: 's FileTransferEvent list \<times> (unit, 'e FileTransferError) result)" for tid i s1 r
    using cancel_one_cancellations [where ?'s = 's and ?'e = 'e, of env tid oid i s] that by simp
  show ?case
  proof (cases "map_of (it_incoming_files s) oid")
    case None
    then show ?thesis using Cons [of s] by simp
  next
    case (Some i)
    obtain s1 evs r where c: "cancel_one env (ftm_transfer_id (ift_manifest (snd i))) oid i s =
        (s1, evs :: 's FileTransferEvent list, r :: (unit, 'e FileTransferError) result)" by (metis prod.exhaust)
    show ?thesis using one [OF c] Cons [of s1] Some c by (cases r) (simp_all add: split_def)
  qed
qed simp

lemma cancel_incoming_group_cancellations:
  "cancellations (fst (cancel_incoming_group env gid s :: ('s, 'e) handled)) = cancellations s"
proof -
  obtain s1 evs r where c: "cancel_files env (sort (group_members gid s)) s =
      (s1, evs :: 's FileTransferEvent list, r :: (unit, 'e FileTransferError) result)" by (metis prod.exhaust)
  then have s1: "cancellations s1 = cancellations s"
    using cancel_files_cancellations [where ?'s = 's and ?'e = 'e, of env "sort (group_members gid s)" s] by simp
  have "cancellations (s0\<lparr>it_incoming_groups := x\<rparr>) = cancellations s0" for s0 x by (simp add: cancellations_def)
  then show ?thesis
    using s1 c by (cases r) (auto simp: cancel_incoming_group_def Let_def split: option.split sum.split)
qed

text \<open>The identifiers that an operation's control message asks to cancel.\<close>

definition file_cancels :: "(bytes \<Rightarrow> (('q, 's) FileTransferControl, 'e) result) \<Rightarrow> inbound_op \<Rightarrow> u64 set" where
  "file_cancels decc x =
     (case x of
        Handle env e \<Rightarrow> (case control_from_envelope decc e of Inr (CancelTransfer tid oid) \<Rightarrow> {oid} | _ \<Rightarrow> {})
      | SetReceiveConfig _ _ \<Rightarrow> {})"

definition group_cancels :: "(bytes \<Rightarrow> (('q, 's) FileTransferControl, 'e) result) \<Rightarrow> inbound_op \<Rightarrow> u64 set" where
  "group_cancels decc x =
     (case x of
        Handle env e \<Rightarrow> (case control_from_envelope decc e of Inr (CancelGroup gid) \<Rightarrow> {gid} | _ \<Rightarrow> {})
      | SetReceiveConfig _ _ \<Rightarrow> {})"

definition cancellations_ok :: "u64 set \<Rightarrow> u64 set \<Rightarrow> u64 list \<times> u64 list \<Rightarrow> bool" where
  "cancellations_ok F G c = (distinct (fst c) \<and> distinct (snd c) \<and> set (fst c) = F \<and> set (snd c) = G)"

lemma control_kind: "control_from_envelope decc e = Ok c \<Longrightarrow> dh_kind (env_header e) = Kind_FileControl"
  by (auto simp: control_from_envelope_def try_bind_eq_Ok ensure_content_kind_def split: if_splits)

lemma handle_control_cancellations:
  fixes decc :: "bytes \<Rightarrow> (('q, 's) FileTransferControl, 'e) result"
  assumes "cancellations_ok F G (cancellations s)"
  shows "cancellations_ok (F \<union> file_cancels decc (Handle env e)) (G \<union> group_cancels decc (Handle env e))
      (cancellations (fst (handle_control decc env e s :: ('s, 'e) handled)))"
proof (cases "control_from_envelope decc e")
  case (Inl err)
  then show ?thesis using assms by (simp add: handle_control_def file_cancels_def group_cancels_def)
next
  case (Inr control)
  have one: "cancellations (fst (cancel_incoming_file env tid oid s0 :: ('s, 'e) handled)) = cancellations s0" for tid oid s0
    by (simp add: cancel_incoming_file_def cancel_one_cancellations split: option.split)
  have upd: "cancellations (s\<lparr>it_cancelled_file_objects := x\<rparr>) = (x, it_cancelled_groups s)"
    "cancellations (s\<lparr>it_cancelled_groups := x\<rparr>) = (it_cancelled_file_objects s, x)"
    "cancellations (s\<lparr>it_clipboard_groups := x\<rparr>) = cancellations s" for x by (simp_all add: cancellations_def)
  have ok: "cancellations_ok (insert oid F) G (List.insert oid (it_cancelled_file_objects s), it_cancelled_groups s)"
    "cancellations_ok F (insert gid G) (it_cancelled_file_objects s, List.insert gid (it_cancelled_groups s))" for oid gid
    using assms by (simp_all add: cancellations_ok_def cancellations_def)
  show ?thesis using assms Inr ok
    by (cases control) (simp_all add: handle_control_def file_cancels_def group_cancels_def one upd
        cancel_incoming_group_cancellations)
qed

lemma inbound_step_cancellations:
  assumes "cancellations_ok F G (cancellations s)"
  shows "cancellations_ok (F \<union> file_cancels decc x) (G \<union> group_cancels decc x)
    (cancellations (fst (inbound_step dec decc display s x)))"
proof (cases x)
  case (Handle env e)
  obtain s1 evs r where d: "dispatch_envelope dec decc env e s = (s1, evs, r)" by (metis prod.exhaust)
  have "cancellations (fst (inbound_step dec decc display s x)) = cancellations s1"
    using d by (cases r) (auto simp: Handle handle_envelope_def Let_def apply_pending_receive_config_if_idle_def
        cancellations_def split: option.split)
  moreover have "cancellations_ok (F \<union> file_cancels decc x) (G \<union> group_cancels decc x)
      (cancellations (fst (dispatch_envelope dec decc env e s)))"
  proof (cases "dh_kind (env_header e) = Kind_FileControl")
    case True
    then show ?thesis using handle_control_cancellations [OF assms] by (simp add: dispatch_envelope_def Handle)
  next
    case False
    then have "file_cancels decc x = {}" "group_cancels decc x = {}"
      using control_kind [of decc e] by (auto simp: file_cancels_def group_cancels_def Handle split: sum.split)
    moreover have "cancellations (fst (dispatch_envelope dec decc env e s)) = cancellations s"
      using False by (cases "dh_kind (env_header e)")
        (simp_all add: dispatch_envelope_def handle_manifest_cancellations handle_file_chunk_cancellations)
    ultimately show ?thesis using assms by simp
  qed
  ultimately show ?thesis using d by simp
next
  case (SetReceiveConfig dir policy)
  then show ?thesis using assms by (simp add: set_receive_config_def file_cancels_def group_cancels_def cancellations_def)
qed

lemma run_inbound_cancellations:
  assumes "cancellations_ok F G (cancellations s)"
  shows "cancellations_ok (F \<union> (\<Union>x\<in>set xs. file_cancels decc x)) (G \<union> (\<Union>x\<in>set xs. group_cancels decc x))
    (cancellations (fst (run_inbound dec decc display s xs)))"
  using assms
proof (induction xs arbitrary: s F G)
  case (Cons x xs)
  from Cons.IH [OF inbound_step_cancellations [OF Cons.prems, of decc x dec display]] show ?case
    unfolding run_inbound_state by (simp add: Un_assoc)
qed (simp add: run_inbound_state)

text \<open>
  C15. What the receiver keeps, after any sequence of envelopes and configuration changes.  There are at most
  32 manifest assemblers, 16 incoming files, 32 clipboard groups and 4096 remembered files, and a deferred
  change of the receive directory is pending only while there is work.  The limit of 32 incoming groups is
  checked when a file is admitted but the group is entered when a file of it is complete, so the table can
  reach 31 groups and the groups of 16 admitted files: 47.  The two tables of cancelled identifiers have no
  limit: they hold exactly the identifiers that some control message of the run asked to cancel, each once.
\<close>

theorem inbound_tables_bounded:
  "let s = fst (run_inbound dec decc display (it_new dir policy) xs) in
    length (it_manifest_assemblers s) \<le> 32 \<and> length (it_incoming_files s) \<le> 16 \<and>
    length (it_incoming_groups s) \<le> 47 \<and> length (it_clipboard_groups s) \<le> 32 \<and>
    length (it_completed_files s) \<le> 4096 \<and>
    (it_pending_receive_config s = None \<or> has_active_incoming_work s) \<and>
    distinct (it_cancelled_file_objects s) \<and> set (it_cancelled_file_objects s) = (\<Union>x\<in>set xs. file_cancels decc x) \<and>
    distinct (it_cancelled_groups s) \<and> set (it_cancelled_groups s) = (\<Union>x\<in>set xs. group_cancels decc x)"
proof -
  define s' where "s' = fst (run_inbound dec decc display (it_new dir policy) xs)"
  have inv: "inbound_inv s'" "config_inv s'"
    using run_inbound_inv [of dec decc display dir policy xs] by (auto simp: s'_def)
  have "card (fst ` set (it_incoming_groups s')) \<le> 47"
    using inv(1) card_mono [of "fst ` set (it_incoming_groups s') \<union> incoming_gids (it_incoming_files s')"
      "fst ` set (it_incoming_groups s')"] by (simp add: inbound_inv_def incoming_gids_finite)
  moreover have "distinct (map fst (it_incoming_groups s'))" using inv(1) by (simp add: inbound_inv_def inv_groups_def hash_wf_def)
  then have "card (fst ` set (it_incoming_groups s')) = length (it_incoming_groups s')" by (metis distinct_card length_map list.set_map)
  ultimately have groups: "length (it_incoming_groups s') \<le> 47" by simp
  have "inv_completed (it_completed_order s') (it_completed_files s')" "length (it_completed_order s') \<le> 4096"
    using inv(1) by (simp_all add: inbound_inv_def)
  then have "length (it_completed_files s') \<le> 4096"
    using hash.size_dom [of "it_completed_files s'"] distinct_card [of "it_completed_order s'"] by (simp add: inv_completed_def)
  moreover have "it_pending_receive_config s' = None \<or> has_active_incoming_work s'" using inv(2) unfolding config_inv_def by blast
  moreover have "cancellations_ok {} {} (cancellations (it_new dir policy))"
    by (simp add: cancellations_ok_def cancellations_def it_new_def)
  note run_inbound_cancellations [OF this, of decc xs dec display]
  then have "distinct (it_cancelled_file_objects s')" "set (it_cancelled_file_objects s') = (\<Union>x\<in>set xs. file_cancels decc x)"
    "distinct (it_cancelled_groups s')" "set (it_cancelled_groups s') = (\<Union>x\<in>set xs. group_cancels decc x)"
    by (simp_all add: cancellations_ok_def cancellations_def s'_def)
  ultimately show ?thesis using groups inv(1) unfolding s'_def [symmetric] Let_def
    by (simp add: inbound_inv_def inv_files_def inv_small_def)
qed

text \<open>
  Cleaning up stays inside the receive directory.  For every incoming file and every file of an incomplete
  group, the empty directories removed after its cancellation lie strictly below the receive directory.
\<close>

theorem cleanup_stays_inside:
  assumes "inbound_inv s" and "path = join_path dir (ift_path t) \<and> map_of (it_incoming_files s) oid = Some (dir, t) \<or>
      path \<in> set (ifg_completed_paths ig) \<and> map_of (it_incoming_groups s) gid = Some ig"
    and "d \<in> set (fst (cleanup_empty_parent_dirs env path (it_receive_dir s) :: _ \<times> (unit, 'e FileTransferError) result))"
  shows "below (it_receive_dir s) d"
proof -
  have "below (it_receive_dir s) path"
    using assms(2)
  proof
    assume "path = join_path dir (ift_path t) \<and> map_of (it_incoming_files s) oid = Some (dir, t)"
    then have "dir = it_receive_dir s" "ift_path t \<noteq> []" "path = dir @ path_components (ift_path t)"
      using assms(1) by (auto simp: inbound_inv_def inv_files_def file_ok_def join_path_def)
    then show ?thesis using path_components_ne [of "ift_path t"] by (auto simp: below_def)
  next
    assume "path \<in> set (ifg_completed_paths ig) \<and> map_of (it_incoming_groups s) gid = Some ig"
    then show ?thesis using assms(1) by (auto simp: inbound_inv_def inv_groups_def group_wf_def ifg_completed_paths_def)
  qed
  then show ?thesis using cleanup_below [OF _ _ assms(3)] by (auto simp: below_def)
qed

end
