(* ===== verification/File_Delivery.thy ===== *)
theory File_Delivery
  imports File_Inbound
begin

text \<open>
  The sending half of file delivery: the selective-repeat window of \<open>remote_core/src/file_delivery.rs\<close> with
  the tracker that routes acknowledgements to it, and the loop of \<open>remote_core/src/file_transfer_runtime.rs\<close>
  that reads a file, sends it through the window and reports the outcome.  A channel is a queue with a
  number; what other tasks route, which branch of a \<open>select!\<close> is taken, clock readings and the answers of
  the sender queue are arguments.  A wait that has not ended when its arguments are used up has the
  outcome \<open>None\<close>.
\<close>

section \<open>Tracker and window\<close>

definition WINDOW :: nat where "WINDOW = 32"
definition RETRY :: nat where "RETRY = 500"
definition DELIVERY_DEADLINE :: nat where "DELIVERY_DEADLINE = 30000"

record ('q, 's) FileDeliveryTracker =
  fdt_routes :: "(u64 \<times> nat) list"
  fdt_channels :: "nat \<Rightarrow> ('q, 's) FileTransferControl list"
  fdt_next :: nat

record Pending =
  pd_envelope :: DataEnvelope
  pd_first_sent :: nat
  pd_last_sent :: nat

type_synonym chunk_key = "u64 \<times> u32"

record DeliveryWindow =
  dw_objects :: "u64 \<times> u64"
  dw_rx :: nat
  dw_pending :: "(chunk_key \<times> Pending) list"

definition tracker_default :: "('q, 's) FileDeliveryTracker" where
  "tracker_default = \<lparr>fdt_routes = [], fdt_channels = (\<lambda>_. []), fdt_next = 0\<rparr>"

fun control_object :: "('q, 's) FileTransferControl \<Rightarrow> u64 option" where
  "control_object (ChunkAccepted oid i) = Some oid"
| "control_object (Rejected oid reason) = Some oid"
| "control_object c = None"

text \<open>A full channel drops the control (\<open>try_send\<close>).\<close>

definition route :: "('q, 's) FileTransferControl \<Rightarrow> ('q, 's) FileDeliveryTracker \<Rightarrow> ('q, 's) FileDeliveryTracker" where
  "route control tr =
     (case Option.bind (control_object control) (map_of (fdt_routes tr)) of
        None \<Rightarrow> tr
      | Some ch \<Rightarrow>
          if length (fdt_channels tr ch) < WINDOW * 4
          then tr\<lparr>fdt_channels := (fdt_channels tr)(ch := fdt_channels tr ch @ [control])\<rparr> else tr)"

definition tracker_window :: "u64 \<times> u64 \<Rightarrow> ('q, 's) FileDeliveryTracker \<Rightarrow> DeliveryWindow \<times> ('q, 's) FileDeliveryTracker" where
  "tracker_window objects tr =
     (let ch = fdt_next tr in
      (\<lparr>dw_objects = objects, dw_rx = ch, dw_pending = []\<rparr>,
       tr\<lparr>fdt_routes := AList.update (snd objects) ch (AList.update (fst objects) ch (fdt_routes tr)),
          fdt_channels := (fdt_channels tr)(ch := []), fdt_next := Suc ch\<rparr>))"

definition window_drop :: "DeliveryWindow \<Rightarrow> ('q, 's) FileDeliveryTracker \<Rightarrow> ('q, 's) FileDeliveryTracker" where
  "window_drop w tr = tr\<lparr>fdt_routes := AList.delete (snd (dw_objects w)) (AList.delete (fst (dw_objects w)) (fdt_routes tr))\<rparr>"

text \<open>The channel is closed once no route holds its sending end.\<close>

datatype ('q, 's) reception = Got "('q, 's) FileTransferControl" | ChannelClosed | NothingYet

definition recv :: "nat \<Rightarrow> ('q, 's) FileDeliveryTracker \<Rightarrow> ('q, 's) reception \<times> ('q, 's) FileDeliveryTracker" where
  "recv ch tr =
     (case fdt_channels tr ch of
        c # cs \<Rightarrow> (Got c, tr\<lparr>fdt_channels := (fdt_channels tr)(ch := cs)\<rparr>)
      | [] \<Rightarrow> (if ch \<in> snd ` set (fdt_routes tr) then NothingYet else ChannelClosed, tr))"

text \<open>
  One turn of \<open>drain_to\<close>: whether the user had cancelled, what was routed meanwhile, whether the timer won
  the \<open>select!\<close>, the time, and for each retransmission the outcome (with the time it was sent).
\<close>

record ('q, 's) drain_env =
  de_cancelled :: bool
  de_routed :: "('q, 's) FileTransferControl list"
  de_timer :: bool
  de_now :: nat
  de_enqueue :: "chunk_key \<Rightarrow> (nat, string) result"

fun resend :: "nat \<Rightarrow> (chunk_key \<Rightarrow> (nat, string) result) \<Rightarrow> (chunk_key \<times> Pending) list \<Rightarrow>
    (chunk_key \<times> Pending) list \<times> DataEnvelope list \<times> (unit, string) result" where
  "resend now enqueue [] = ([], [], Ok ())"
| "resend now enqueue ((k, p) # ps) =
     (if now - pd_first_sent p \<ge> DELIVERY_DEADLINE
      then ((k, p) # ps, [], Err ''receiver confirmation timed out; delivery was not confirmed'')
      else if now - pd_last_sent p \<ge> RETRY
      then (case enqueue k of
              Inl err \<Rightarrow> ((k, p) # ps, [], Err err)
            | Inr sent \<Rightarrow>
                (case resend now enqueue ps of (ps', out, r) \<Rightarrow>
                   ((k, p\<lparr>pd_last_sent := sent\<rparr>) # ps', pd_envelope p # out, r)))
      else (case resend now enqueue ps of (ps', out, r) \<Rightarrow> ((k, p) # ps', out, r)))"

type_synonym ('q, 's, 'r) delivery = "DeliveryWindow \<times> ('q, 's) FileDeliveryTracker \<times> DataEnvelope list \<times> 'r"

definition resend_all :: "('q, 's) drain_env \<Rightarrow> DeliveryWindow \<Rightarrow> ('q, 's) FileDeliveryTracker \<Rightarrow>
    ('q, 's, (unit, string) result) delivery" where
  "resend_all d w tr =
     (case resend (de_now d) (de_enqueue d) (dw_pending w) of (ps, out, r) \<Rightarrow> (w\<lparr>dw_pending := ps\<rparr>, tr, out, r))"

definition drain_turn :: "('q, 's) drain_env \<Rightarrow> DeliveryWindow \<Rightarrow> ('q, 's) FileDeliveryTracker \<Rightarrow>
    ('q, 's, (unit, string) result) delivery" where
  "drain_turn d w tr =
     (let tr1 = fold route (de_routed d) tr in
      case (if de_timer d then (NothingYet, tr1) else recv (dw_rx w) tr1) of (got, tr2) \<Rightarrow>
        (case got of
           Got (ChunkAccepted oid i) \<Rightarrow> resend_all d (w\<lparr>dw_pending := AList.delete (oid, i) (dw_pending w)\<rparr>) tr2
         | Got (Rejected oid reason) \<Rightarrow> (w, tr2, [], Err (''receiver rejected file: '' @ reason))
         | ChannelClosed \<Rightarrow> (w, tr2, [], Err ''file acknowledgement channel closed'')
         | _ \<Rightarrow> resend_all d w tr2))"

fun drain_to :: "nat \<Rightarrow> ('q, 's) drain_env list \<Rightarrow> DeliveryWindow \<Rightarrow> ('q, 's) FileDeliveryTracker \<Rightarrow>
    ('q, 's, (bool, string) result option) delivery" where
  "drain_to limit [] w tr = (w, tr, [], None)"
| "drain_to limit (d # ds) w tr =
     (if length (dw_pending w) \<le> limit then (w, tr, [], Some (Ok (\<not> de_cancelled d)))
      else if de_cancelled d then (w, tr, [], Some (Ok False))
      else case drain_turn d w tr of
        (w1, tr1, out, Inl err) \<Rightarrow> (w1, tr1, out, Some (Err err))
      | (w1, tr1, out, Inr _) \<Rightarrow> (case drain_to limit ds w1 tr1 of (w2, tr2, out', r) \<Rightarrow> (w2, tr2, out @ out', r)))"

definition window_flush :: "('q, 's) drain_env list \<Rightarrow> DeliveryWindow \<Rightarrow> ('q, 's) FileDeliveryTracker \<Rightarrow>
    ('q, 's, (bool, string) result option) delivery" where
  "window_flush ds w tr = drain_to 0 ds w tr"

definition window_send :: "DataEnvelope \<Rightarrow> ('q, 's) drain_env list \<Rightarrow> nat \<Rightarrow> (unit, string) result \<Rightarrow>
    DeliveryWindow \<Rightarrow> ('q, 's) FileDeliveryTracker \<Rightarrow> ('q, 's, (bool, string) result option) delivery" where
  "window_send e ds now enqueued w tr =
     (case drain_to (WINDOW - 1) ds w tr of
        (w1, tr1, out, Some (Inr True)) \<Rightarrow>
          (case dh_chunk (env_header e) of
             None \<Rightarrow> (w1, tr1, out, Some (Err ''missing file chunk identity''))
           | Some chunk \<Rightarrow>
               let w2 = w1\<lparr>dw_pending := AList.update (ck_object_id chunk, ck_chunk_index chunk)
                     \<lparr>pd_envelope = e, pd_first_sent = now, pd_last_sent = now\<rparr> (dw_pending w1)\<rparr> in
               (case enqueued of
                  Inl err \<Rightarrow> (w2, tr1, out, Some (Err err))
                | Inr _ \<Rightarrow> (w2, tr1, out @ [e], Some (Ok True))))
      | unfinished \<Rightarrow> unfinished)"

section \<open>The window's invariant\<close>

text \<open>The chunks acknowledged in a list of controls.\<close>

definition acked :: "('q, 's) FileTransferControl list \<Rightarrow> chunk_key set" where
  "acked cs = {(oid, i). ChunkAccepted oid i \<in> set cs}"

definition drained :: "('q, 's) drain_env list \<Rightarrow> ('q, 's) FileTransferControl list" where
  "drained ds = concat (map de_routed ds)"

lemma acked_append: "acked (cs @ ds) = acked cs \<union> acked ds"
  by (auto simp: acked_def)

text \<open>What was sent is acknowledged or pending, and the channel holds only what was routed.\<close>

definition window_inv :: "chunk_key set \<Rightarrow> chunk_key set \<Rightarrow> DeliveryWindow \<Rightarrow> ('q, 's) FileDeliveryTracker \<Rightarrow> bool" where
  "window_inv sent A w tr = (hash_wf (dw_pending w) \<and> length (dw_pending w) \<le> WINDOW \<and>
     sent \<subseteq> fst ` set (dw_pending w) \<union> A \<and> acked (fdt_channels tr (dw_rx w)) \<subseteq> A)"

lemma route_channel: "set (fdt_channels (route c tr) ch) \<subseteq> insert c (set (fdt_channels tr ch))"
  by (auto simp: route_def split: option.splits)

lemma fold_route_channel: "set (fdt_channels (fold route cs tr) ch) \<subseteq> set cs \<union> set (fdt_channels tr ch)"
proof (induction cs arbitrary: tr)
  case (Cons c cs)
  show ?case using Cons [of "route c tr"] route_channel [of c tr ch] by auto
qed simp

lemma acked_mono: "set cs \<subseteq> set ds \<Longrightarrow> acked cs \<subseteq> acked ds"
  by (auto simp: acked_def)

lemma window_inv_routed:
  assumes "window_inv sent A w tr"
  shows "window_inv sent (A \<union> acked cs) w (fold route cs tr)"
proof -
  have "acked (fdt_channels (fold route cs tr) (dw_rx w)) \<subseteq> acked (cs @ fdt_channels tr (dw_rx w))"
    by (rule acked_mono) (use fold_route_channel in auto)
  then show ?thesis using assms by (auto simp: window_inv_def acked_append)
qed

lemma resend_keys: "resend now enq ps = (ps', out, r) \<Longrightarrow> map fst ps' = map fst ps"
proof (induction ps arbitrary: ps' out r)
  case (Cons x ps)
  then show ?case by (cases x) (auto split: if_splits sum.splits prod.splits)
qed simp

lemma resend_first: "resend now enq ps = (ps', out, r) \<Longrightarrow> map (pd_first_sent \<circ> snd) ps' = map (pd_first_sent \<circ> snd) ps"
proof (induction ps arbitrary: ps' out r)
  case (Cons x ps)
  then show ?case by (cases x) (auto split: if_splits sum.splits prod.splits)
qed simp

lemma window_inv_keys:
  assumes "map fst (dw_pending w') = map fst (dw_pending w)" "dw_rx w' = dw_rx w"
  shows "window_inv sent A w' tr = window_inv sent A w tr"
proof -
  have "length (dw_pending w') = length (dw_pending w)" using assms(1) by (metis length_map)
  moreover have "fst ` set (dw_pending w') = fst ` set (dw_pending w)" using assms(1) by (metis list.set_map)
  ultimately show ?thesis using assms by (simp add: window_inv_def hash_wf_def)
qed

lemma resend_all_inv:
  assumes "resend_all d w tr = (w', tr', out, r)"
  shows "window_inv sent A w' tr' = window_inv sent A w tr" "dw_rx w' = dw_rx w"
proof -
  obtain ps out1 r1 where "resend (de_now d) (de_enqueue d) (dw_pending w) = (ps, out1, r1)" by (metis prod.exhaust)
  then show "window_inv sent A w' tr' = window_inv sent A w tr" "dw_rx w' = dw_rx w"
    using assms resend_keys by (auto simp: resend_all_def intro!: window_inv_keys)
qed

lemma recv_cases:
  obtains (got) c cs where "fdt_channels tr ch = c # cs" "recv ch tr = (Got c, tr\<lparr>fdt_channels := (fdt_channels tr)(ch := cs)\<rparr>)"
  | (empty) r where "recv ch tr = (r, tr)" "r = NothingYet \<or> r = ChannelClosed"
  by (cases "fdt_channels tr ch") (auto simp: recv_def)

lemma keys_of_delete: "fst ` set (AList.delete k l) = fst ` set l - {k}"
proof -
  have "set (map fst (AList.delete k l)) = set (map fst l) - {k}" unfolding delete_keys by auto
  then show ?thesis by simp
qed

lemma drain_turn_inv:
  assumes inv: "window_inv sent A w tr" and run: "drain_turn d w tr = (w', tr', out, r)"
  shows "window_inv sent (A \<union> acked (de_routed d)) w' tr'"
proof -
  let ?A = "A \<union> acked (de_routed d)" and ?tr = "fold route (de_routed d) tr"
  note inv1 = window_inv_routed [OF inv, of "de_routed d"]
  have keep: "window_inv sent ?A w' tr'" if "resend_all d w ?tr = (w', tr', out, r)" using resend_all_inv [OF that] inv1 by simp
  show ?thesis
  proof (cases "de_timer d")
    case True
    then show ?thesis using run keep by (simp add: drain_turn_def)
  next
    case False
    show ?thesis
    proof (cases rule: recv_cases [of ?tr "dw_rx w"])
      case (empty x)
      then show ?thesis using run False keep inv1 by (auto simp: drain_turn_def)
    next
      case (got c cs)
      let ?tr2 = "?tr\<lparr>fdt_channels := (fdt_channels ?tr)(dw_rx w := cs)\<rparr>"
      have inv2: "window_inv sent ?A w ?tr2" using inv1 got(1) by (auto simp: window_inv_def acked_def)
      have go: "window_inv sent ?A w' tr'" if "resend_all d w1 ?tr2 = (w', tr', out, r)" "window_inv sent ?A w1 ?tr2" for w1
        using resend_all_inv(1) [OF that(1)] that(2) by simp
      have dropped: "window_inv sent ?A (w\<lparr>dw_pending := AList.delete k (dw_pending w)\<rparr>) ?tr2" if "k \<in> ?A" for k
        using inv2 that order_trans [OF hash.size_rem [of "dw_pending w" k]]
        by (auto simp: window_inv_def hash.wf_rem keys_of_delete)
      have ack: "(oid, i) \<in> ?A" if "c = ChunkAccepted oid i" for oid i
        using inv1 got(1) that by (auto simp: window_inv_def acked_def)
      note run' = run [unfolded drain_turn_def Let_def, simplified False got(2) if_False prod.case reception.case]
      show ?thesis
      proof (cases c)
        case (ChunkAccepted oid i)
        then show ?thesis using run' go [OF _ dropped [OF ack]] by simp
      qed (use run' inv2 go [OF _ inv2] in auto)
    qed
  qed
qed

lemma drain_to_inv:
  assumes "window_inv sent A w tr" "drain_to limit ds w tr = (w', tr', out, r)"
  shows "window_inv sent (A \<union> acked (drained ds)) w' tr' \<and> (r = Some (Ok True) \<longrightarrow> length (dw_pending w') \<le> limit)"
  using assms
proof (induction ds arbitrary: w tr A out)
  case Nil
  then show ?case by (auto simp: window_inv_def)
next
  case (Cons d ds)
  have mono: "window_inv sent (A \<union> acked (drained (d # ds))) w1 tr1"
    if "window_inv sent B w1 tr1" "B \<subseteq> A \<union> acked (drained (d # ds))" for B w1 tr1
    using that by (auto simp: window_inv_def)
  obtain w1 tr1 out1 r1 where t: "drain_turn d w tr = (w1, tr1, out1, r1)" by (metis prod.exhaust)
  have inv1: "window_inv sent (A \<union> acked (de_routed d)) w1 tr1" by (rule drain_turn_inv [OF Cons.prems(1) t])
  have sub: "A \<union> acked (de_routed d) \<subseteq> A \<union> acked (drained (d # ds))" by (auto simp: drained_def acked_append)
  consider "length (dw_pending w) \<le> limit" | "length (dw_pending w) > limit" "de_cancelled d"
    | err where "length (dw_pending w) > limit" "\<not> de_cancelled d" "r1 = Inl err"
    | "length (dw_pending w) > limit" "\<not> de_cancelled d" "r1 = Inr ()"
    by (cases r1) (force simp: not_le)+
  then show ?case
  proof cases
    case 4
    then obtain out2 where rest: "drain_to limit ds w1 tr1 = (w', tr', out2, r)"
      using Cons.prems(2) t by (auto split: prod.splits)
    have "A \<union> acked (de_routed d) \<union> acked (drained ds) = A \<union> acked (drained (d # ds))"
      by (auto simp: drained_def acked_append)
    then show ?thesis using Cons.IH [OF inv1 rest] by simp
  qed (use Cons.prems t mono [OF Cons.prems(1)] mono [OF inv1 sub] in auto)
qed

lemma window_send_inv:
  assumes inv: "window_inv sent A w tr" and run: "window_send e ds now enqueued w tr = (w', tr', out, r)"
  shows "window_inv sent (A \<union> acked (drained ds)) w' tr'"
    "r = Some (Ok True) \<Longrightarrow> \<exists>chunk. dh_chunk (env_header e) = Some chunk \<and>
       window_inv (insert (ck_object_id chunk, ck_chunk_index chunk) sent) (A \<union> acked (drained ds)) w' tr'"
proof -
  let ?A = "A \<union> acked (drained ds)"
  obtain w1 tr1 out1 r1 where d: "drain_to (WINDOW - 1) ds w tr = (w1, tr1, out1, r1)" by (metis prod.exhaust)
  note inv1 = drain_to_inv [OF inv d]
  have "window_inv sent ?A w' tr' \<and> (r = Some (Ok True) \<longrightarrow> (\<exists>chunk. dh_chunk (env_header e) = Some chunk \<and>
       window_inv (insert (ck_object_id chunk, ck_chunk_index chunk) sent) ?A w' tr'))"
  proof (cases "r1 = Some (Ok True)")
    case False
    then have "window_send e ds now enqueued w tr = (w1, tr1, out1, r1)"
      using d by (auto simp: window_send_def split: option.splits sum.splits bool.splits)
    then show ?thesis using run inv1 False by auto
  next
    case True
    show ?thesis
    proof (cases "dh_chunk (env_header e)")
      case None
      then show ?thesis using run d True inv1 by (auto simp: window_send_def)
    next
      case (Some chunk)
      let ?k = "(ck_object_id chunk, ck_chunk_index chunk)"
      define w2 where "w2 = w1\<lparr>dw_pending := AList.update ?k \<lparr>pd_envelope = e, pd_first_sent = now, pd_last_sent = now\<rparr> (dw_pending w1)\<rparr>"
      have "length (dw_pending w1) \<le> WINDOW - 1" using inv1 True by simp
      then have "length (dw_pending w2) \<le> WINDOW"
        using length_update_le [of ?k "\<lparr>pd_envelope = e, pd_first_sent = now, pd_last_sent = now\<rparr>" "dw_pending w1"]
        by (simp add: w2_def WINDOW_def)
      then have inv2: "window_inv (insert ?k sent) ?A w2 tr1"
        using inv1 by (auto simp: window_inv_def w2_def hash.wf_ins update_keys)
      then have "window_inv sent ?A w2 tr1" by (auto simp: window_inv_def)
      moreover have "w' = w2 \<and> tr' = tr1 \<and> dh_chunk (env_header e) = Some chunk"
        using run d True Some by (cases enqueued) (auto simp: window_send_def w2_def)
      ultimately show ?thesis using inv2 by auto
    qed
  qed
  then show "window_inv sent ?A w' tr'" "r = Some (Ok True) \<Longrightarrow> \<exists>chunk. dh_chunk (env_header e) = Some chunk \<and>
       window_inv (insert (ck_object_id chunk, ck_chunk_index chunk) sent) ?A w' tr'" by blast+
qed

lemma window_flush_confirms:
  assumes inv: "window_inv sent A w tr" and run: "window_flush ds w tr = (w', tr', out, Some (Ok True))"
  shows "sent \<subseteq> A \<union> acked (drained ds)"
proof -
  have "window_inv sent (A \<union> acked (drained ds)) w' tr'" "dw_pending w' = []"
    using drain_to_inv [OF inv run [unfolded window_flush_def]] by auto
  then show ?thesis by (auto simp: window_inv_def)
qed

section \<open>Waiting ends\<close>

definition overdue :: "('q, 's) drain_env \<Rightarrow> DeliveryWindow \<Rightarrow> bool" where
  "overdue d w = list_all (\<lambda>(_, p). DELIVERY_DEADLINE \<le> de_now d - pd_first_sent p) (dw_pending w)"

lemma resend_overdue:
  assumes "resend_all d w tr = (w', tr', out, r)" "overdue d' w"
  shows "overdue d' w'" "d' = d \<Longrightarrow> r = Ok () \<Longrightarrow> dw_pending w' = []"
proof -
  obtain ps out1 r1 where ps: "resend (de_now d) (de_enqueue d) (dw_pending w) = (ps, out1, r1)" by (metis prod.exhaust)
  have w': "dw_pending w' = ps" "r = r1" using assms(1) ps by (auto simp: resend_all_def)
  have "list_all (\<lambda>n. DELIVERY_DEADLINE \<le> de_now d' - n) (map (pd_first_sent \<circ> snd) (dw_pending w))"
    using assms(2) by (auto simp: overdue_def list_all_iff)
  then show "overdue d' w'"
    unfolding resend_first [OF ps, symmetric] by (auto simp: overdue_def list_all_iff w')
  show "d' = d \<Longrightarrow> r = Ok () \<Longrightarrow> dw_pending w' = []"
    using ps assms(2) w' by (cases "dw_pending w") (auto simp: overdue_def split: prod.splits)
qed

lemma overdue_delete: "overdue d w \<Longrightarrow> overdue d (w\<lparr>dw_pending := AList.delete k (dw_pending w)\<rparr>)"
  by (auto simp: overdue_def list_all_iff AList.delete_eq)

lemma drain_turn_overdue:
  assumes run: "drain_turn d w tr = (w', tr', out, r)" and late: "overdue d' w"
  shows "overdue d' w'" "d' = d \<Longrightarrow> r = Ok () \<Longrightarrow> dw_pending w' = []"
proof -
  consider "w' = w" "\<exists>err. r = Err err"
    | tr1 where "resend_all d w tr1 = (w', tr', out, r)"
    | k tr1 where "resend_all d (w\<lparr>dw_pending := AList.delete k (dw_pending w)\<rparr>) tr1 = (w', tr', out, r)"
    using run by (auto simp: drain_turn_def Let_def split: prod.splits reception.splits FileTransferControl.splits if_splits)
  then have "overdue d' w' \<and> (d' = d \<and> r = Ok () \<longrightarrow> dw_pending w' = [])"
  proof cases
    case 2
    then show ?thesis using resend_overdue [OF 2 late] by blast
  next
    case 3
    then show ?thesis using resend_overdue [OF 3 overdue_delete [OF late]] by blast
  qed (use late in auto)
  then show "overdue d' w'" "d' = d \<Longrightarrow> r = Ok () \<Longrightarrow> dw_pending w' = []" by blast+
qed

lemma drain_to_returns:
  assumes "overdue d w"
  shows "snd (snd (snd (drain_to limit (ds @ [d, d']) w tr))) \<noteq> None"
  using assms
proof (induction ds arbitrary: w tr)
  case Nil
  obtain w1 tr1 out r where t: "drain_turn d w tr = (w1, tr1, out, r)" by (metis prod.exhaust)
  have "dw_pending w1 = []" if "r = Ok ()" using drain_turn_overdue(2) [OF t Nil refl that] .
  then show ?case using t by (cases r) auto
next
  case (Cons d0 ds)
  obtain w1 tr1 out r where t: "drain_turn d0 w tr = (w1, tr1, out, r)" by (metis prod.exhaust)
  have "overdue d w1" using drain_turn_overdue(1) [OF t Cons.prems] .
  from Cons.IH [OF this, of tr1] show ?case using t by (cases r) (auto split: prod.splits)
qed

section \<open>Sending a file\<close>

record FileTransferCancelState =
  fcs_transfer_ids :: "u64 list"
  fcs_group_ids :: "u64 list"

definition cancel_transfer :: "u64 \<Rightarrow> FileTransferCancelState \<Rightarrow> FileTransferCancelState" where
  "cancel_transfer tid cs = cs\<lparr>fcs_transfer_ids := List.insert tid (fcs_transfer_ids cs)\<rparr>"

definition cancel_group :: "u64 \<Rightarrow> FileTransferCancelState \<Rightarrow> FileTransferCancelState" where
  "cancel_group gid cs = cs\<lparr>fcs_group_ids := List.insert gid (fcs_group_ids cs)\<rparr>"

definition is_transfer_cancelled :: "u64 \<Rightarrow> FileTransferCancelState \<Rightarrow> bool" where
  "is_transfer_cancelled tid cs = (tid \<in> set (fcs_transfer_ids cs))"

definition is_group_cancelled :: "u64 \<Rightarrow> FileTransferCancelState \<Rightarrow> bool" where
  "is_group_cancelled gid cs = (gid \<in> set (fcs_group_ids cs))"

text \<open>The closure \<open>cancelled\<close> of \<open>send_reader\<close>.\<close>

definition send_cancelled :: "FileTransferManifest \<Rightarrow> FileTransferCancelState \<Rightarrow> bool" where
  "send_cancelled m cs = (is_transfer_cancelled (ftm_transfer_id m) cs
     \<or> (case ftm_group m of None \<Rightarrow> False | Some g \<Rightarrow> is_group_cancelled (ftg_group_id g) cs))"

datatype SendReaderOutcome = Completed | TransferCancelled | GroupCancelled u64

datatype 'e FileTransferRuntimeError = SendFailed string | TransferFailed "'e FileTransferError" | DeliveryFailed string

type_synonym 'e send_result = "(SendReaderOutcome, 'e FileTransferRuntimeError) result"

text \<open>
  The control to send and the outcome, if the transfer was cancelled; \<open>control_sent\<close> is the answer of
  \<open>send_file_control\<close>.
\<close>

definition handle_outgoing_cancel :: "FileTransferManifest \<Rightarrow> FileTransferCancelState \<Rightarrow>
    (unit, 'e FileTransferRuntimeError) result \<Rightarrow>
    (('q, 's) FileTransferControl \<times> 's FileTransferEvent list \<times> 'e send_result) option" where
  "handle_outgoing_cancel m cs control_sent =
     (let finish = (\<lambda>control outcome. Some (control,
            if is_ok control_sent then [OutgoingCancelled (ftm_transfer_id m) (ftm_file_object_id m) (ftm_group m)] else [],
            try_bind control_sent (\<lambda>_. Ok outcome))) in
      case ftm_group m of
        Some g \<Rightarrow>
          if is_group_cancelled (ftg_group_id g) cs \<or> is_transfer_cancelled (ftm_transfer_id m) cs
          then finish (CancelGroup (ftg_group_id g)) (GroupCancelled (ftg_group_id g)) else None
      | None \<Rightarrow>
          if is_transfer_cancelled (ftm_transfer_id m) cs
          then finish (CancelTransfer (ftm_transfer_id m) (ftm_file_object_id m)) TransferCancelled else None)"

definition assign_sequence_number :: "u64 \<Rightarrow> DataEnvelope \<Rightarrow> DataEnvelope" where
  "assign_sequence_number n e = e\<lparr>env_header := (env_header e)\<lparr>dh_sequence_number := n,
     dh_reliability_info := map_option (\<lambda>ri. ri\<lparr>ri_ack_id := n\<rparr>) (dh_reliability_info (env_header e))\<rparr>\<rparr>"

text \<open>
  One turn of the loop: the user's cancellations at the two checks, the answer of \<open>send_file_control\<close>,
  whether the connection is shut down while reading or while waiting for the window (after the turns
  given), the sequence number allocated, and the arguments of the window's operations.
\<close>

record ('q, 's, 'e) send_env =
  se_cancel_before :: FileTransferCancelState
  se_cancel_after :: FileTransferCancelState
  se_control :: "(unit, 'e FileTransferRuntimeError) result"
  se_stop_reading :: bool
  se_stop_waiting :: bool
  se_sequence :: u64
  se_send :: "('q, 's) drain_env list"
  se_now :: nat
  se_enqueued :: "(unit, string) result"
  se_flush :: "('q, 's) drain_env list"

text \<open>Data is sent only after the receiver has accepted the manifest.\<close>

definition deliver :: "('q, 's, 'e) send_env \<Rightarrow> DataEnvelope \<Rightarrow> DeliveryWindow \<Rightarrow> ('q, 's) FileDeliveryTracker \<Rightarrow>
    ('q, 's, (bool, string) result option) delivery" where
  "deliver x e w tr =
     (case window_send e (se_send x) (se_now x) (se_enqueued x) w tr of
        (w1, tr1, out, Some (Inr True)) \<Rightarrow>
          if dh_kind (env_header e) = Kind_FileManifest
          then (case window_flush (se_flush x) w1 tr1 of (w2, tr2, out', r) \<Rightarrow> (w2, tr2, out @ out', r))
          else (w1, tr1, out, Some (Ok True))
      | unconfirmed \<Rightarrow> unconfirmed)"

record ('q, 's) send_state =
  ss_reader :: FileTransferReader
  ss_window :: DeliveryWindow
  ss_tracker :: "('q, 's) FileDeliveryTracker"
  ss_chunks :: u32
  ss_bytes :: u64

definition count_envelope :: "DataEnvelope \<Rightarrow> ('q, 's) send_state \<Rightarrow> ('q, 's) send_state" where
  "count_envelope e st =
     (if dh_kind (env_header e) = Kind_FileChunk
      then st\<lparr>ss_chunks := saturating_add (ss_chunks st) 1,
              ss_bytes := saturating_add (ss_bytes st) (word_of_nat (length (env_payload e)))\<rparr>
      else st)"

definition send_progress :: "FileTransferManifest \<Rightarrow> u32 \<Rightarrow> ('q, 's) send_state \<Rightarrow> 's FileTransferEvent list" where
  "send_progress m total_chunks st =
     (if ss_chunks st > 0
      then [OutgoingProgress (ftm_transfer_id m) (ftm_file_object_id m) (ss_chunks st) total_chunks (ss_bytes st)
              (ftm_size_bytes m)]
      else [])"

text \<open>What one turn does: it ends the loop, goes on in a new state, or is still waiting.\<close>

datatype ('q, 's, 'e) turn = Stop "'e send_result" | Go "('q, 's) send_state" | Waiting

type_synonym ('q, 's, 'e) send_turn =
  "('q, 's, 'e) turn \<times> 's FileTransferEvent list \<times> (DataEnvelope + ('q, 's) FileTransferControl) list"

definition finish_sending :: "FileTransferManifest \<Rightarrow> ('q, 's, 'e) send_env \<Rightarrow> ('q, 's) send_state \<Rightarrow> ('q, 's, 'e) send_turn" where
  "finish_sending m x st =
     (case window_flush (se_flush x) (ss_window st) (ss_tracker st) of (w, tr, out, r) \<Rightarrow>
        if se_stop_waiting x then (Stop (Ok TransferCancelled), [], map Inl out)
        else (case r of
           None \<Rightarrow> (Waiting, [], map Inl out)
         | Some (Inl err) \<Rightarrow> (Stop (Err (DeliveryFailed err)), [], map Inl out)
         | Some (Inr True) \<Rightarrow>
             (Stop (Ok Completed), [OutgoingCompleted (ftm_transfer_id m) (ftm_file_object_id m) (ftm_group m)], map Inl out)
         | Some (Inr False) \<Rightarrow> (Go (st\<lparr>ss_window := w, ss_tracker := tr\<rparr>), [], map Inl out)))"

definition send_one :: "FileTransferManifest \<Rightarrow> u32 \<Rightarrow> ('q, 's, 'e) send_env \<Rightarrow> DataEnvelope \<Rightarrow> ('q, 's) send_state \<Rightarrow>
    ('q, 's, 'e) send_turn" where
  "send_one m total_chunks x e st =
     (let e' = assign_sequence_number (se_sequence x) e; st1 = count_envelope e' st in
      case deliver x e' (ss_window st1) (ss_tracker st1) of (w, tr, out, r) \<Rightarrow>
        if se_stop_waiting x then (Stop (Ok TransferCancelled), [], map Inl out)
        else (case r of
           None \<Rightarrow> (Waiting, [], map Inl out)
         | Some (Inl err) \<Rightarrow> (Stop (Err (DeliveryFailed err)), [], map Inl out)
         | Some (Inr confirmed) \<Rightarrow>
             (Go (st1\<lparr>ss_window := w, ss_tracker := tr\<rparr>),
              if confirmed then send_progress m total_chunks st1 else [], map Inl out)))"

definition send_turn :: "(FileTransferManifest \<Rightarrow> (bytes, 'e) result) \<Rightarrow> FileTransferManifest \<Rightarrow> u32 \<Rightarrow>
    ('q, 's, 'e) send_env \<Rightarrow> ('q, 's) send_state \<Rightarrow> ('q, 's, 'e) send_turn" where
  "send_turn enc m total_chunks x st =
     (case handle_outgoing_cancel m (se_cancel_before x) (se_control x) of
        Some (control, evs, r) \<Rightarrow> (Stop r, evs, [Inr control])
      | None \<Rightarrow>
          if se_stop_reading x then (Stop (Ok TransferCancelled), [], [])
          else case next_envelope enc (ss_reader st) of (reader, result) \<Rightarrow>
            (case result of
               Inl err \<Rightarrow> (Stop (Err (TransferFailed err)), [], [])
             | Inr next \<Rightarrow>
                 (case handle_outgoing_cancel m (se_cancel_after x) (se_control x) of
                    Some (control, evs, r) \<Rightarrow> (Stop r, evs, [Inr control])
                  | None \<Rightarrow>
                      (case next of
                         None \<Rightarrow> finish_sending m x (st\<lparr>ss_reader := reader\<rparr>)
                       | Some e \<Rightarrow> send_one m total_chunks x e (st\<lparr>ss_reader := reader\<rparr>)))))"

text \<open>The loop: its events, what it sent, and the outcome once there is one.\<close>

fun send_loop :: "(FileTransferManifest \<Rightarrow> (bytes, 'e) result) \<Rightarrow> FileTransferManifest \<Rightarrow> u32 \<Rightarrow>
    ('q, 's, 'e) send_env list \<Rightarrow> ('q, 's) send_state \<Rightarrow>
    's FileTransferEvent list \<times> (DataEnvelope + ('q, 's) FileTransferControl) list \<times> 'e send_result option" where
  "send_loop enc m total_chunks [] st = ([], [], None)"
| "send_loop enc m total_chunks (x # xs) st =
     (case send_turn enc m total_chunks x st of
        (Waiting, evs, out) \<Rightarrow> (evs, out, None)
      | (Stop r, evs, out) \<Rightarrow> (evs, out, Some r)
      | (Go st1, evs, out) \<Rightarrow>
          (case send_loop enc m total_chunks xs st1 of (evs', out', r) \<Rightarrow> (evs @ evs', out @ out', r)))"

definition send_reader :: "(FileTransferManifest \<Rightarrow> (bytes, 'e) result) \<Rightarrow> ('q, 's, 'e) send_env list \<Rightarrow>
    FileTransferReader \<Rightarrow> ('q, 's) FileDeliveryTracker \<Rightarrow>
    's FileTransferEvent list \<times> (DataEnvelope + ('q, 's) FileTransferControl) list \<times> 'e send_result option" where
  "send_reader enc xs reader tr =
     (let m = ftr_manifest reader in
      case tracker_window (fts_manifest_object_id (ftr_spec reader), ftm_file_object_id m) tr of (w, tr1) \<Rightarrow>
      case send_loop enc m (ftr_total_chunks reader) xs
          \<lparr>ss_reader = reader, ss_window = w, ss_tracker = tr1, ss_chunks = 0, ss_bytes = 0\<rparr> of
        (evs, out, r) \<Rightarrow>
          (OutgoingStarted (ftm_transfer_id m) (ftm_file_object_id m) (ftm_group m) (ftm_name m) (ftm_size_bytes m)
             (ftr_total_chunks reader) # evs, out, r))"

section \<open>Completion\<close>

definition routed :: "('q, 's, 'e) send_env \<Rightarrow> ('q, 's) FileTransferControl list" where
  "routed x = drained (se_send x) @ drained (se_flush x)"

definition routed_all :: "('q, 's, 'e) send_env list \<Rightarrow> ('q, 's) FileTransferControl list" where
  "routed_all xs = concat (map routed xs)"

text \<open>Cancellations are only ever added, so one seen while waiting is seen at the next check.\<close>

fun cancel_sticky :: "FileTransferManifest \<Rightarrow> ('q, 's, 'e) send_env list \<Rightarrow> bool" where
  "cancel_sticky m (x # y # xs) =
     ((list_ex de_cancelled (se_send x @ se_flush x) \<longrightarrow> send_cancelled m (se_cancel_before y)) \<and> cancel_sticky m (y # xs))"
| "cancel_sticky m xs = True"

lemma window_inv_mono: "window_inv sent A w tr \<Longrightarrow> A \<subseteq> B \<Longrightarrow> window_inv sent B w tr"
  by (auto simp: window_inv_def)

lemma drain_to_False: "drain_to limit ds w tr = (w', tr', out, Some (Ok False)) \<Longrightarrow> list_ex de_cancelled ds"
proof (induction ds arbitrary: w tr out)
  case (Cons d ds)
  then show ?case by (auto split: if_splits prod.splits sum.splits)
qed simp

lemma window_send_False:
  "window_send e ds now enq w tr = (w', tr', out, Some (Ok False)) \<Longrightarrow> list_ex de_cancelled ds"
  by (auto simp: window_send_def Let_def split: prod.splits option.splits sum.splits bool.splits if_splits intro: drain_to_False)

lemma deliver_inv:
  assumes inv: "window_inv sent A w tr" and run: "deliver x e w tr = (w', tr', out, r)"
  shows "r = Some (Ok True) \<Longrightarrow> \<exists>chunk. dh_chunk (env_header e) = Some chunk \<and>
       window_inv (insert (ck_object_id chunk, ck_chunk_index chunk) sent) (A \<union> acked (routed x)) w' tr'"
    "r = Some (Ok False) \<Longrightarrow> list_ex de_cancelled (se_send x @ se_flush x)"
proof -
  obtain w1 tr1 out1 r1 where s: "window_send e (se_send x) (se_now x) (se_enqueued x) w tr = (w1, tr1, out1, r1)"
    by (metis prod.exhaust)
  have A: "A \<union> acked (drained (se_send x)) \<subseteq> A \<union> acked (routed x)"
    "A \<union> acked (drained (se_send x)) \<union> acked (drained (se_flush x)) = A \<union> acked (routed x)"
    by (auto simp: routed_def acked_append)
  have "(r = Some (Ok True) \<longrightarrow> (\<exists>chunk. dh_chunk (env_header e) = Some chunk \<and>
       window_inv (insert (ck_object_id chunk, ck_chunk_index chunk) sent) (A \<union> acked (routed x)) w' tr')) \<and>
    (r = Some (Ok False) \<longrightarrow> list_ex de_cancelled (se_send x @ se_flush x))"
  proof (cases "r1 = Some (Ok True)")
    case False
    then have "deliver x e w tr = (w1, tr1, out1, r1)"
      using s by (auto simp: deliver_def split: option.splits sum.splits bool.splits)
    then show ?thesis using run False s by (auto dest: window_send_False)
  next
    case True
    obtain chunk where chunk: "dh_chunk (env_header e) = Some chunk"
      and inv1: "window_inv (insert (ck_object_id chunk, ck_chunk_index chunk) sent) (A \<union> acked (drained (se_send x))) w1 tr1"
      using window_send_inv(2) [OF inv s True] by blast
    show ?thesis
    proof (cases "dh_kind (env_header e) = Kind_FileManifest")
      case False
      then have "w' = w1" "tr' = tr1" "r = Some (Ok True)" using run s True by (simp_all add: deliver_def)
      then show ?thesis using chunk window_inv_mono [OF inv1 A(1)] by simp
    next
      case manifest: True
      obtain out2 where f: "window_flush (se_flush x) w1 tr1 = (w', tr', out2, r)"
        using run s True manifest by (auto simp: deliver_def split: prod.splits)
      then show ?thesis
        using drain_to_inv [OF inv1] drain_to_False chunk A(2) unfolding window_flush_def by fastforce
    qed
  qed
  then show "r = Some (Ok True) \<Longrightarrow> \<exists>chunk. dh_chunk (env_header e) = Some chunk \<and>
       window_inv (insert (ck_object_id chunk, ck_chunk_index chunk) sent) (A \<union> acked (routed x)) w' tr'"
    "r = Some (Ok False) \<Longrightarrow> list_ex de_cancelled (se_send x @ se_flush x)" by blast+
qed

text \<open>The identities of the manifest and of the first \<open>k\<close> chunks of a file.\<close>

definition keys_upto :: "FileTransferReader \<Rightarrow> nat \<Rightarrow> chunk_key set" where
  "keys_upto r k = insert (fts_manifest_object_id (ftr_spec r), 0)
     ((\<lambda>i. (ftm_file_object_id (ftr_manifest r), word_of_nat i)) ` {..<k})"

text \<open>How far the reader of a file is, and what it has handed out.\<close>

definition reading :: "FileTransferReader \<Rightarrow> FileTransferReader \<Rightarrow> chunk_key set \<Rightarrow> bool" where
  "reading r rd sent = (rd = r \<and> sent = {} \<or> (\<exists>k \<le> unat (ftr_total_chunks r). rd = reader_at r k \<and> sent = keys_upto r k))"

lemma next_envelope_reading:
  assumes ok: "reader_ok fl r" "\<not> ftr_manifest_sent r" "r\<lparr>ftr_manifest_sent := True\<rparr> = reader_at r 0"
    and rd: "reading r rd sent" and nx: "next_envelope enc rd = (rd', Inr me)"
  shows "me = None \<Longrightarrow> rd' = rd \<and> sent = keys_upto r (unat (ftr_total_chunks r))"
    "me = Some e \<Longrightarrow> \<exists>chunk. dh_chunk (env_header e) = Some chunk \<and>
       reading r rd' (insert (ck_object_id chunk, ck_chunk_index chunk) sent)"
proof -
  let ?n = "unat (ftr_total_chunks r)"
  have "(me = None \<longrightarrow> rd' = rd \<and> sent = keys_upto r ?n) \<and>
    (me = Some e \<longrightarrow> (\<exists>chunk. dh_chunk (env_header e) = Some chunk \<and>
       reading r rd' (insert (ck_object_id chunk, ck_chunk_index chunk) sent)))"
    using rd [unfolded reading_def]
  proof (elim disjE exE conjE)
    assume "rd = r" "sent = {}"
    then obtain e0 where e0: "manifest_to_envelope enc (ftr_manifest r) (fts_manifest_object_id (ftr_spec r))
        (fts_stream_id (ftr_spec r)) (fts_first_sequence_number (ftr_spec r)) (fts_timestamp_ms (ftr_spec r)) = Ok e0"
      and me: "me = Some e0" "rd' = reader_at r 0"
      using nx ok(2,3) by (auto simp: next_envelope_def try_bind_eq_Ok)
    then obtain chunk where "dh_chunk (env_header e0) = Some chunk" "ck_object_id chunk = fts_manifest_object_id (ftr_spec r)"
      "ck_chunk_index chunk = 0"
      by (auto simp: manifest_to_envelope_def try_bind_eq_Ok reliable_object_chunk_def envelope_new_def Let_def)
    then show ?thesis using me \<open>sent = {}\<close> by (auto simp: reading_def keys_upto_def)
  next
    fix k assume k: "k \<le> ?n" "rd = reader_at r k" "sent = keys_upto r k"
    show ?thesis
    proof (cases "k = ?n")
      case True
      then show ?thesis using reader_end [OF ok(1) True, of enc] nx k by auto
    next
      case False
      let ?t = "sample_incoming\<lparr>ift_manifest := ftr_manifest r, ift_total_chunks := ftr_total_chunks r\<rparr>"
      have "k < ?n" using k(1) False by simp
      from reader_step [OF ok(1) this, of ?t enc] obtain e0 where
        e0: "next_envelope enc (reader_at r k) = (reader_at r (Suc k), Ok (Some e0))" "carries fl ?t k e0" by auto
      have "keys_upto r (Suc k) = insert (ftm_file_object_id (ftr_manifest r), word_of_nat k) (keys_upto r k)"
        by (auto simp: keys_upto_def lessThan_Suc)
      moreover have "reading r (reader_at r (Suc k)) (keys_upto r (Suc k))"
        unfolding reading_def using \<open>k < ?n\<close> by (intro disjI2 exI [of _ "Suc k"]) simp
      ultimately show ?thesis using e0 nx k by (auto simp: carries_def)
    qed
  qed
  then show "me = None \<Longrightarrow> rd' = rd \<and> sent = keys_upto r ?n"
    "me = Some e \<Longrightarrow> \<exists>chunk. dh_chunk (env_header e) = Some chunk \<and>
       reading r rd' (insert (ck_object_id chunk, ck_chunk_index chunk) sent)" by blast+
qed

lemma outgoing_cancel_not_completed:
  "handle_outgoing_cancel m cs control_sent = Some (c, evs, r) \<Longrightarrow> r \<noteq> Ok Completed"
  by (auto simp: handle_outgoing_cancel_def Let_def try_bind_eq_Ok split: option.splits if_splits)

lemma outgoing_cancel_iff: "handle_outgoing_cancel m cs control_sent = None \<longleftrightarrow> \<not> send_cancelled m cs"
  by (auto simp: handle_outgoing_cancel_def send_cancelled_def Let_def split: option.splits)

lemma assign_sequence_chunk [simp]: "dh_chunk (env_header (assign_sequence_number n e)) = dh_chunk (env_header e)"
  by (simp add: assign_sequence_number_def)

lemma send_one_not_completed: "send_one m n x e st \<noteq> (Stop (Ok Completed), evs, out)"
  by (auto simp: send_one_def Let_def split: prod.split option.split sum.split)

lemma send_turn_cases:
  assumes ok: "reader_ok fl r" "\<not> ftr_manifest_sent r" "r\<lparr>ftr_manifest_sent := True\<rparr> = reader_at r 0"
    and rd: "reading r (ss_reader st) sent" and inv: "window_inv sent A (ss_window st) (ss_tracker st)"
  shows "send_turn enc m n x st = (Stop (Ok Completed), evs, out) \<Longrightarrow>
      keys_upto r (unat (ftr_total_chunks r)) \<subseteq> A \<union> acked (routed x)"
    "send_turn enc m n x st = (Go st', evs, out) \<Longrightarrow> list_ex de_cancelled (se_send x @ se_flush x) \<or>
      (\<exists>sent'. reading r (ss_reader st') sent' \<and> window_inv sent' (A \<union> acked (routed x)) (ss_window st') (ss_tracker st'))"
proof -
  obtain rd' res where nx: "next_envelope enc (ss_reader st) = (rd', res)" by force
  let ?st = "st\<lparr>ss_reader := rd'\<rparr>"
  have sub: "A \<union> acked (drained (se_flush x)) \<subseteq> A \<union> acked (routed x)" by (auto simp: routed_def acked_append)
  have turn: "send_turn enc m n x st = finish_sending m x ?st \<and> res = Inr None \<or>
      (\<exists>e. send_turn enc m n x st = send_one m n x e ?st \<and> res = Inr (Some e))"
    if "send_turn enc m n x st = (Stop (Ok Completed), evs, out) \<or> send_turn enc m n x st = (Go st', evs, out)"
    using that nx
    by (auto simp: send_turn_def split: option.splits if_splits sum.splits dest: outgoing_cancel_not_completed)
  show "keys_upto r (unat (ftr_total_chunks r)) \<subseteq> A \<union> acked (routed x)"
    if t: "send_turn enc m n x st = (Stop (Ok Completed), evs, out)"
  proof -
    have "finish_sending m x ?st = (Stop (Ok Completed), evs, out)" "res = Inr None"
      using turn t send_one_not_completed by (metis, metis)
    then obtain w tr out' where "window_flush (se_flush x) (ss_window st) (ss_tracker st) = (w, tr, out', Some (Ok True))"
      by (auto simp: finish_sending_def split: prod.splits if_splits option.splits sum.splits bool.splits)
    then have "sent \<subseteq> A \<union> acked (drained (se_flush x))" by (rule window_flush_confirms [OF inv])
    then show ?thesis using next_envelope_reading(1) [OF ok rd nx [unfolded \<open>res = Inr None\<close>] refl] sub by blast
  qed
  show "list_ex de_cancelled (se_send x @ se_flush x) \<or>
      (\<exists>sent'. reading r (ss_reader st') sent' \<and> window_inv sent' (A \<union> acked (routed x)) (ss_window st') (ss_tracker st'))"
    if t: "send_turn enc m n x st = (Go st', evs, out)"
    using turn [OF disjI2 [OF t]]
  proof (elim disjE exE conjE)
    assume a: "send_turn enc m n x st = finish_sending m x ?st" "res = Inr None"
    then obtain w tr out' where "window_flush (se_flush x) (ss_window st) (ss_tracker st) = (w, tr, out', Some (Ok False))"
      using t by (auto simp: finish_sending_def split: prod.splits if_splits option.splits sum.splits bool.splits)
    then show ?thesis using drain_to_False unfolding window_flush_def by fastforce
  next
    fix e assume a: "send_turn enc m n x st = send_one m n x e ?st" "res = Inr (Some e)"
    let ?e = "assign_sequence_number (se_sequence x) e"
    obtain w tr out' r' where d: "deliver x ?e (ss_window st) (ss_tracker st) = (w, tr, out', r')" by (metis prod.exhaust)
    have fields: "ss_window (count_envelope ?e ?st) = ss_window st" "ss_tracker (count_envelope ?e ?st) = ss_tracker st"
      "ss_reader (count_envelope ?e ?st) = rd'" by (simp_all add: count_envelope_def)
    obtain confirmed where c: "r' = Some (Ok confirmed)"
      "st' = (count_envelope ?e ?st)\<lparr>ss_window := w, ss_tracker := tr\<rparr>"
      using t a d fields by (auto simp: send_one_def Let_def split: if_splits option.splits sum.splits)
    show ?thesis
    proof (cases confirmed)
      case True
      then show ?thesis
        using deliver_inv(1) [OF inv d] c next_envelope_reading(2) [OF ok rd nx [unfolded a(2)] refl] fields by fastforce
    next
      case False
      then show ?thesis using deliver_inv(2) [OF inv d] c by simp
    qed
  qed
qed

lemma send_loop_completed:
  fixes st :: "('q, 's) send_state"
  assumes ok: "reader_ok fl r" "\<not> ftr_manifest_sent r" "r\<lparr>ftr_manifest_sent := True\<rparr> = reader_at r 0"
    and "cancel_sticky m xs" "reading r (ss_reader st) sent" "window_inv sent A (ss_window st) (ss_tracker st)"
    and "send_loop enc m n xs st = (evs, out, Some (Ok Completed))"
  shows "keys_upto r (unat (ftr_total_chunks r)) \<subseteq> A \<union> acked (routed_all xs)"
  using assms(4-)
proof (induction xs arbitrary: st sent A evs out)
  case (Cons x xs)
  note cases = send_turn_cases [OF ok Cons.prems(2,3), where enc = enc and m = m and n = n and x = x]
  have A: "A \<union> acked (routed x) \<union> acked (routed_all xs) = A \<union> acked (routed_all (x # xs))"
    by (auto simp: routed_all_def acked_append)
  obtain t evs1 out1 where turn: "send_turn enc m n x st = (t, evs1, out1)" by (metis prod.exhaust)
  show ?case
  proof (cases t)
    case (Stop res)
    then have "keys_upto r (unat (ftr_total_chunks r)) \<subseteq> A \<union> acked (routed x)"
      using Cons.prems(4) turn by (intro cases(1)) auto
    then show ?thesis using A by blast
  next
    case (Go st')
    obtain evs2 out2 where rest: "send_loop enc m n xs st' = (evs2, out2, Some (Ok Completed))"
      using Cons.prems(4) turn Go by (auto split: prod.splits)
    have sticky: "cancel_sticky m xs" using Cons.prems(1) by (cases xs) auto
    have "\<not> list_ex de_cancelled (se_send x @ se_flush x)"
    proof
      assume c: "list_ex de_cancelled (se_send x @ se_flush x)"
      obtain y ys where xs: "xs = y # ys" using rest by (cases xs) auto
      then obtain c evs3 res where "handle_outgoing_cancel m (se_cancel_before y) (se_control y) =
          Some (c :: ('q, 's) FileTransferControl, evs3 :: 's FileTransferEvent list, res)"
        using Cons.prems(1) c outgoing_cancel_iff [of m "se_cancel_before y" "se_control y"]
        by (metis cancel_sticky.simps(1) not_Some_eq prod_cases3)
      then show False using rest xs outgoing_cancel_not_completed [of m "se_cancel_before y" "se_control y" c evs3 res]
        by (simp add: send_turn_def)
    qed
    then obtain sent' where "reading r (ss_reader st') sent'"
      "window_inv sent' (A \<union> acked (routed x)) (ss_window st') (ss_tracker st')"
      using cases(2) [OF turn [unfolded Go]] by blast
    from Cons.IH [OF sticky this rest] show ?thesis using A by simp
  qed (use Cons.prems(4) turn in auto)
qed simp

section \<open>Properties\<close>

text \<open>
  C14. Waiting for the receiver ends.  Whatever is acknowledged, lost or rejected, and whatever the sender
  queue answers, a wait for the window to drain returns at the latest two turns after the deadline of
  everything pending has passed; it never waits for ever.
\<close>

theorem delivery_wait_ends:
  assumes "overdue d w"
  shows "\<exists>result. snd (snd (snd (drain_to limit (ds @ [d, d']) w tr))) = Some result"
  using drain_to_returns [OF assms] by blast

text \<open>The reader of a file of a group.\<close>

definition grouped :: "FileTransferGroup option \<Rightarrow> FileTransferReader \<Rightarrow> FileTransferReader" where
  "grouped g r = (case g of None \<Rightarrow> r | Some g \<Rightarrow> set_group g r)"

lemma grouped_reader:
  assumes "reader_ok fl r" "r\<lparr>ftr_manifest_sent := True\<rparr> = reader_at r 0"
  shows "reader_ok fl (grouped g r)" "(grouped g r)\<lparr>ftr_manifest_sent := True\<rparr> = reader_at (grouped g r) 0"
proof -
  have "ftr_position r = 0" "ftr_next_chunk_index r = 0" "ftr_offset r = 0"
    using arg_cong [OF assms(2), of ftr_position] arg_cong [OF assms(2), of ftr_next_chunk_index]
      arg_cong [OF assms(2), of ftr_offset] by (simp_all add: reader_at_def)
  then show "reader_ok fl (grouped g r)" "(grouped g r)\<lparr>ftr_manifest_sent := True\<rparr> = reader_at (grouped g r) 0"
    using assms(1) by (simp_all add: grouped_def set_group_def reader_ok_def reader_at_def split: option.split)
qed

text \<open>
  A completed transfer was confirmed.  When the sending loop of a file reports completion, the receiver's
  acknowledgements of the manifest and of every chunk of the file had been routed to its window.
\<close>

theorem completed_send_is_confirmed:
  assumes opened: "from_open_file fl True (word_of_nat (length fl)) name spec maxb = (Ok r0 :: (_, 'e FileTransferError) result)"
      "length fl < 2 ^ 64" and grp: "r = grouped g r0"
    and sticky: "cancel_sticky (ftr_manifest r) xs"
    and run: "send_reader enc xs r tr = (evs, out, Some (Ok Completed))"
  shows "ChunkAccepted (fts_manifest_object_id spec) 0 \<in> set (routed_all xs) \<and>
    (\<forall>i < ftr_total_chunks r. ChunkAccepted (fts_file_object_id spec) i \<in> set (routed_all xs))"
proof -
  have r0: "reader_ok fl r0" "r0\<lparr>ftr_manifest_sent := True\<rparr> = reader_at r0 0" using from_open_file_ok [OF opened] by auto
  have r: "reader_ok fl r" "r\<lparr>ftr_manifest_sent := True\<rparr> = reader_at r 0"
    using grouped_reader [OF r0, of g] by (simp_all add: grp)
  have "\<not> ftr_manifest_sent r0" "ftr_spec r0 = spec" "ftm_file_object_id (ftr_manifest r0) = fts_file_object_id spec"
    using opened(1) by (auto simp: from_open_file_def try_bind_eq_Ok split: if_splits option.splits)
  then have f: "\<not> ftr_manifest_sent r" "ftr_spec r = spec" "ftm_file_object_id (ftr_manifest r) = fts_file_object_id spec"
    by (simp_all add: grp grouped_def set_group_def split: option.split)
  define w tr1 where "w = fst (tracker_window (fts_manifest_object_id (ftr_spec r), ftm_file_object_id (ftr_manifest r)) tr)"
    and "tr1 = snd (tracker_window (fts_manifest_object_id (ftr_spec r), ftm_file_object_id (ftr_manifest r)) tr)"
  obtain evs1 where loop: "send_loop enc (ftr_manifest r) (ftr_total_chunks r) xs
      \<lparr>ss_reader = r, ss_window = w, ss_tracker = tr1, ss_chunks = 0, ss_bytes = 0\<rparr> = (evs1, out, Some (Ok Completed))"
    using run by (auto simp: send_reader_def Let_def w_def tr1_def split: prod.splits)
  have "window_inv {} {} w tr1" by (simp add: window_inv_def w_def tr1_def tracker_window_def Let_def hash_wf_def acked_def)
  then have "keys_upto r (unat (ftr_total_chunks r)) \<subseteq> {} \<union> acked (routed_all xs)"
    by (intro send_loop_completed [OF r(1) f(1) r(2) sticky _ _ loop]) (auto simp: reading_def)
  then have keys: "insert (fts_manifest_object_id spec, 0) ((\<lambda>i. (fts_file_object_id spec, word_of_nat i)) ` {..<unat (ftr_total_chunks r)})
      \<subseteq> acked (routed_all xs)" by (simp add: keys_upto_def f)
  have "ChunkAccepted (fts_file_object_id spec) i \<in> set (routed_all xs)" if "i < ftr_total_chunks r" for i
  proof -
    have "(fts_file_object_id spec, word_of_nat (unat i)) \<in> acked (routed_all xs)"
      using keys that by (auto simp: word_less_nat_alt)
    then show ?thesis by (simp add: acked_def)
  qed
  then show ?thesis using keys by (auto simp: acked_def)
qed

text \<open>
  C13. Completion means the file is there.  Join a sender and a receiver: the sender reports a file (alone or
  in a group) completed,
  the receiver holds the transfer of that file, acknowledgements are not forged (the ones routed to the
  sender are among the receiver's replies), the file was not cancelled and the receiver rejected none of
  its chunks.  Then the receiver has committed the file and reported it.
\<close>

theorem completed_send_is_committed:
  fixes xs :: "('q, 's, 'e) send_env list"
  assumes sender: "from_open_file fl True (word_of_nat (length fl)) name spec maxb = (Ok r0 :: (_, 'e FileTransferError) result)"
      "length fl < 2 ^ 64" "r = grouped g r0" "cancel_sticky (ftr_manifest r) xs"
      "send_reader enc xs r tr = (evs, out, Some (Ok Completed))"
    and receiver: "inbound_inv s \<and> config_inv s"
      "map_of (it_incoming_files s) (fts_file_object_id spec) = Some (dir, t)" "ift_total_chunks t = ftr_total_chunks r"
      "list_all (chunks_only (fts_file_object_id spec)) ops"
      "run_inbound dec decc display s ops = (s', evs' :: 's FileTransferEvent list, replies :: ('q, 's) FileTransferControl list)"
      "\<not> is_manifest_cancelled (ift_manifest t) s'"
      "list_all (\<lambda>c. case c of Rejected oid _ \<Rightarrow> oid \<noteq> fts_file_object_id spec | _ \<Rightarrow> True) replies"
    and channel: "\<And>i. ChunkAccepted (fts_file_object_id spec) i \<in> set (routed_all xs) \<Longrightarrow>
      ChunkAccepted (fts_file_object_id spec) i \<in> set replies"
  shows "\<exists>path. IncomingCompleted (ftm_transfer_id (ift_manifest t)) (fts_file_object_id spec) (ftm_group (ift_manifest t)) path
    (ftm_size_bytes (ift_manifest t)) \<in> set evs'"
proof (rule acknowledged_file_is_committed [OF receiver(1,2,4,5,6)])
  show "Rejected (fts_file_object_id spec) reason \<notin> set replies" for reason
    using receiver(7) by (auto simp: list_all_iff split: FileTransferControl.splits)
  show "ChunkAccepted (fts_file_object_id spec) i \<in> set replies" if "i < ift_total_chunks t" for i
    using completed_send_is_confirmed [OF sender] that receiver(3) channel by simp
qed

section \<open>Samples\<close>

definition sample_wait :: "(unit, unit) FileTransferControl list \<Rightarrow> (unit, unit) drain_env" where
  "sample_wait cs = \<lparr>de_cancelled = False, de_routed = cs, de_timer = False, de_now = 0, de_enqueue = (\<lambda>_. Ok 0)\<rparr>"

definition sample_turn :: "(unit, unit) FileTransferControl list \<Rightarrow> (unit, unit, unit) send_env" where
  "sample_turn cs = \<lparr>se_cancel_before = \<lparr>fcs_transfer_ids = [], fcs_group_ids = []\<rparr>,
     se_cancel_after = \<lparr>fcs_transfer_ids = [], fcs_group_ids = []\<rparr>, se_control = Ok (), se_stop_reading = False,
     se_stop_waiting = False, se_sequence = 1, se_send = [sample_wait []], se_now = 0, se_enqueued = Ok (),
     se_flush = [sample_wait cs, sample_wait []]\<rparr>"

definition sample_turns :: "(unit, unit, unit) send_env list" where
  "sample_turns = [sample_turn [ChunkAccepted 2 0], sample_turn [], sample_turn [ChunkAccepted 3 0]]"

definition sample_spec :: FileTransferSpec where
  "sample_spec = (transfer_spec_new 1 2 3 2 1 0)\<lparr>fts_chunk_payload_len := 2\<rparr>"

definition sample_reader :: FileTransferReader where
  "sample_reader = \<lparr>ftr_contents = [7], ftr_position = 0, ftr_spec = sample_spec, ftr_manifest = sample_file,
     ftr_manifest_sent = False, ftr_next_chunk_index = 0, ftr_offset = 0, ftr_total_chunks = 1\<rparr>"

lemma sample_opened: "from_open_file [7] True 1 ''a'' sample_spec 100 = (Ok sample_reader :: (_, unit FileTransferError) result)"
proof -
  have "crc_exact 1 2 [7] crc_new = Some (crc_update [7] crc_new)" using crc_exact_take [of 2 1 "[7]" crc_new] by simp
  moreover have "crc_finalize (crc_update [7] crc_new) = checksum_crc32 [7]"
    by (simp add: crc_finalize_def crc_update_def checksum_crc32_def crc_new_def)
  ultimately show ?thesis
    by (simp add: from_open_file_def sample_reader_def sample_spec_def sample_file_def transfer_spec_new_def
        validate_chunk_payload_len_def is_safe_file_name_def path_components_def inner_component_def chunk_count_def)
qed

lemmas window_eval = window_send_def window_flush_def drain_turn_def recv_def route_def resend_all_def
  tracker_window_def sample_wait_def WINDOW_def RETRY_def DELIVERY_DEADLINE_def

lemma sample_sent:
  "snd (snd (send_reader (\<lambda>_. Ok [1]) sample_turns sample_reader tracker_default)) = Some (Ok Completed)"
  by (simp add: send_reader_def sample_turns_def sample_turn_def send_turn_def handle_outgoing_cancel_def
      is_transfer_cancelled_def is_group_cancelled_def next_envelope_def sample_reader_def sample_spec_def sample_file_def
      transfer_spec_new_def manifest_to_envelope_def validate_manifest_def is_safe_file_name_def path_components_def
      inner_component_def validate_chunk_payload_len_def chunk_count_def receive_policy_default_def
      reliable_object_chunk_def envelope_new_def send_one_def finish_sending_def deliver_def count_envelope_def
      assign_sequence_number_def send_progress_def window_eval tracker_default_def Let_def rslice_def saturating_add_def)

lemma completed_send_is_committed_witness:
  "\<exists>path. IncomingCompleted 1 3 None path 1 \<in> set (fst (snd (run_inbound (\<lambda>_. Err ()) (\<lambda>_. Err ()) (\<lambda>_. [])
     sample_inbound [Handle sample_answers sample_chunk] ::
       _ \<times> unit FileTransferEvent list \<times> (unit, unit) FileTransferControl list)))"
proof -
  let ?run = "run_inbound (\<lambda>_. Err ()) (\<lambda>_. Err ()) (\<lambda>_. []) sample_inbound [Handle sample_answers sample_chunk] ::
       _ \<times> unit FileTransferEvent list \<times> (unit, unit) FileTransferControl list"
  obtain s' evs' where run: "?run = (s', evs', [ChunkAccepted 3 0])" "it_cancelled_file_objects s' = []"
    using sample_received by (metis prod.collapse)
  obtain evs out where sent: "send_reader (\<lambda>_. Ok [1]) sample_turns sample_reader tracker_default =
      (evs, out, Some (Ok Completed))" using sample_sent by (metis prod.collapse)
  have fid: "fts_file_object_id sample_spec = 3" by (simp add: sample_spec_def transfer_spec_new_def)
  have inc: "map_of (it_incoming_files sample_inbound) (fts_file_object_id sample_spec) = Some ([RootDir], sample_incoming)"
    by (simp add: sample_inbound_def fid)
  have acks: "set (routed_all sample_turns) = {ChunkAccepted 2 0, ChunkAccepted 3 0}"
    by (auto simp: routed_all_def sample_turns_def routed_def sample_turn_def drained_def sample_wait_def)
  have m: "ift_manifest sample_incoming = sample_file" "ift_total_chunks sample_incoming = ftr_total_chunks sample_reader"
    "ftm_group sample_file = None" by (simp_all add: sample_incoming_def sample_reader_def sample_file_def)
  have sticky: "cancel_sticky (ftr_manifest sample_reader) sample_turns"
    by (simp add: sample_turns_def sample_turn_def sample_wait_def)
  have opened: "from_open_file [7] True (word_of_nat (length [7 :: u8])) ''a'' sample_spec 100 =
      (Ok sample_reader :: (_, unit FileTransferError) result)" using sample_opened by simp
  have single: "sample_reader = grouped None sample_reader" by (simp add: grouped_def)
  have only: "list_all (chunks_only (fts_file_object_id sample_spec)) [Handle sample_answers sample_chunk]"
    by (simp add: chunks_only_def sample_chunk_def reliable_object_chunk_def envelope_new_def Let_def)
  have "\<not> is_manifest_cancelled (ift_manifest sample_incoming) s'" by (simp add: is_manifest_cancelled_def run(2) m)
  then have "\<exists>path. IncomingCompleted (ftm_transfer_id (ift_manifest sample_incoming)) (fts_file_object_id sample_spec)
      (ftm_group (ift_manifest sample_incoming)) path (ftm_size_bytes (ift_manifest sample_incoming)) \<in> set evs'"
    by (intro completed_send_is_committed [OF opened _ single sticky sent sample_inbound_inv inc m(2) only run(1)])
      (auto simp: acks fid)
  then show ?thesis using run(1) by (simp add: m fid sample_file_def)
qed

lemma delivery_wait_ends_witness:
  "\<exists>result. snd (snd (snd (drain_to 0 [sample_wait [], (sample_wait [])\<lparr>de_now := 30000\<rparr>, sample_wait []]
     \<lparr>dw_objects = (2, 3), dw_rx = 0, dw_pending = [((3, 0), \<lparr>pd_envelope = sample_chunk, pd_first_sent = 0, pd_last_sent = 0\<rparr>)]\<rparr>
     tracker_default))) = Some result"
  using delivery_wait_ends [of "(sample_wait [])\<lparr>de_now := 30000\<rparr>"
    "\<lparr>dw_objects = (2, 3), dw_rx = 0, dw_pending = [((3, 0), \<lparr>pd_envelope = sample_chunk, pd_first_sent = 0, pd_last_sent = 0\<rparr>)]\<rparr>"
    0 "[sample_wait []]" "sample_wait []" tracker_default]
  by (simp add: overdue_def DELIVERY_DEADLINE_def sample_wait_def)

section \<open>Groups\<close>

record PreparedGroupReader =
  pgr_reader :: FileTransferReader
  pgr_relative_path :: string

definition group_metadata :: "PreparedGroupReader \<Rightarrow> string \<times> u64 \<times> u32" where
  "group_metadata p = (pgr_relative_path p, ftm_size_bytes (ftr_manifest (pgr_reader p)),
     ftm_checksum_crc32 (ftr_manifest (pgr_reader p)))"

definition file_group_checksum_crc32 :: "PreparedGroupReader list \<Rightarrow> u32" where
  "file_group_checksum_crc32 readers = checksum_crc32 (concat (map (metadata_bytes \<circ> group_metadata) readers))"

definition group_total_size_bytes :: "PreparedGroupReader list \<Rightarrow> u64" where
  "group_total_size_bytes readers = sum_list (map (\<lambda>p. ftm_size_bytes (ftr_manifest (pgr_reader p))) readers)"

text \<open>The group that \<open>SendFileGroupTask\<close> gives to the file at \<open>index\<close>.\<close>

definition u32_or_max :: "nat \<Rightarrow> u32" where
  "u32_or_max n = (if n < 2 ^ 32 then word_of_nat n else - 1)"

definition group_of_file :: "u64 \<Rightarrow> PreparedGroupReader list \<Rightarrow> nat \<Rightarrow> FileTransferGroup" where
  "group_of_file gid readers index = \<lparr>ftg_group_id = gid, ftg_file_index = u32_or_max index,
     ftg_file_count = u32_or_max (length readers), ftg_relative_path = pgr_relative_path (readers ! index),
     ftg_group_total_size_bytes = group_total_size_bytes readers,
     ftg_group_checksum_crc32 = file_group_checksum_crc32 readers\<rparr>"

text \<open>The receiver records the files of a group as they are committed, each under some path.\<close>

fun record_files :: "(nat \<Rightarrow> PathBuf) \<Rightarrow> (nat \<Rightarrow> PathBuf) \<Rightarrow> u64 \<Rightarrow> PreparedGroupReader list \<Rightarrow> nat list \<Rightarrow>
    IncomingFileGroup \<Rightarrow> (IncomingFileGroup, 'e FileTransferError) result" where
  "record_files paths publish gid readers [] ig = Ok ig"
| "record_files paths publish gid readers (i # is) ig =
     (case group_metadata (readers ! i) of (_, sz, crc) \<Rightarrow>
      try_bind (ifg_record (group_of_file gid readers i) (paths i) (publish i) sz crc ig)
        (record_files paths publish gid readers is))"

lemma metadata_digest_all:
  assumes "unat tot + sum_list (map (unat \<circ> fst \<circ> snd) ms) < 2 ^ 64"
  shows "metadata_digest tot bs (map Some ms) = Some (tot + sum_list (map (fst \<circ> snd) ms), bs @ concat (map metadata_bytes ms))"
  using assms
proof (induction ms arbitrary: tot bs)
  case (Cons m ms)
  obtain path sz crc where m: "m = (path, sz, crc)" by (cases m) auto
  have small: "unat tot + unat sz < 2 ^ 64" using Cons.prems by (simp add: m)
  then have add: "checked_add tot sz = Some (tot + sz)" by (simp add: checked_add_Some)
  have "unat (tot + sz) = unat tot + unat sz" using small by (intro unat_add_no_overflow) simp
  then show ?case using Cons.IH [of "tot + sz"] Cons.prems add by (simp add: m ac_simps)
qed simp

text \<open>The group after the files \<open>is\<close> were recorded.\<close>

definition recorded :: "u64 \<Rightarrow> PreparedGroupReader list \<Rightarrow> nat set \<Rightarrow> IncomingFileGroup \<Rightarrow> bool" where
  "recorded gid readers I ig = (group_wf [] ig \<and> ifg_file_count ig = u32_or_max (length readers) \<and>
     ifg_total_size ig = group_total_size_bytes readers \<and> ifg_checksum ig = file_group_checksum_crc32 readers \<and>
     length (ifg_completed_metadata ig) = length readers \<and>
     (\<forall>i < length readers. ifg_completed_metadata ig ! i = (if i \<in> I then Some (group_metadata (readers ! i)) else None)))"

lemma recorded_step:
  assumes rec: "recorded gid readers I ig" and i: "i < length readers" "length readers < 2 ^ 32" and path: "paths i \<noteq> []"
  shows "\<exists>ig'. ifg_record (group_of_file gid readers i) (paths i) pub (fst (snd (group_metadata (readers ! i))))
      (snd (snd (group_metadata (readers ! i)))) ig = (Ok ig' :: (_, 'e FileTransferError) result) \<and> recorded gid readers (insert i I) ig'"
proof -
  let ?g = "group_of_file gid readers i" and ?m = "group_metadata (readers ! i)"
  have ui: "unat (u32_or_max i) = i" "unat (u32_or_max (length readers)) = length readers"
    using i by (auto simp: u32_or_max_def intro!: unat_small)
  have ok: "\<not> (ftg_file_count ?g \<noteq> ifg_file_count ig \<or> ftg_file_index ?g \<ge> ifg_file_count ig
      \<or> ftg_group_total_size_bytes ?g \<noteq> ifg_total_size ig \<or> ftg_group_checksum_crc32 ?g \<noteq> ifg_checksum ig)"
    using rec i ui by (simp add: recorded_def group_of_file_def word_le_nat_alt)
  then obtain ig' where ig': "ifg_record ?g (paths i) pub (fst (snd ?m)) (snd (snd ?m)) ig = (Ok ig' :: (_, 'e FileTransferError) result)"
    by (simp add: ifg_record_def Let_def)
  then have f: "ifg_completed_metadata ig' = (ifg_completed_metadata ig)[i := Some ?m]" "ifg_file_count ig' = ifg_file_count ig"
    "ifg_total_size ig' = ifg_total_size ig" "ifg_checksum ig' = ifg_checksum ig"
    using ok ui(1) by (auto simp: ifg_record_def Let_def group_of_file_def group_metadata_def)
  have wf: "group_wf [] ig'"
    using group_wf_record(1) [OF _ ig'] rec path by (auto simp: recorded_def below_def)
  have "recorded gid readers (insert i I) ig'"
    using rec i by (auto simp: recorded_def f wf nth_list_update)
  then show ?thesis using ig' by blast
qed

lemma record_files_recorded:
  assumes "length readers < 2 ^ 32" "\<And>i. paths i \<noteq> []" "set is \<subseteq> {..<length readers}" "recorded gid readers I ig"
  shows "\<exists>ig'. record_files paths pub gid readers is ig = (Ok ig' :: (_, 'e FileTransferError) result) \<and>
    recorded gid readers (I \<union> set is) ig'"
  using assms(3,4)
proof (induction "is" arbitrary: I ig)
  case (Cons i "is")
  then obtain ig1 where ig1: "ifg_record (group_of_file gid readers i) (paths i) (pub i) (fst (snd (group_metadata (readers ! i))))
      (snd (snd (group_metadata (readers ! i)))) ig = (Ok ig1 :: (_, 'e FileTransferError) result)" "recorded gid readers (insert i I) ig1"
    using recorded_step [OF Cons.prems(2), where i = i and paths = paths and pub = "pub i" and ?'e = 'e] assms(1,2) by auto
  show ?case using Cons.IH [OF _ ig1(2)] Cons.prems(1) ig1(1) by (simp add: split_def)
qed simp

text \<open>
  A group that was sent is accepted.  Whatever order the files of a group are committed in, and however
  often one is committed again, the receiver's group is complete once all of them are, and its size and
  checksum are the ones the sender announced.
\<close>

theorem sent_group_is_accepted:
  assumes n: "length readers < 2 ^ 32" "set is = {..<length readers}" and paths: "\<And>i. paths i \<noteq> []"
    and sizes: "sum_list (map (\<lambda>p. unat (ftm_size_bytes (ftr_manifest (pgr_reader p)))) readers) < 2 ^ 64"
  shows "\<exists>ig. record_files paths pub gid readers is (ifg_new (group_of_file gid readers 0)) =
      (Ok ig :: (_, 'e FileTransferError) result) \<and> ifg_is_complete ig \<and> ifg_valid_checksum ig"
proof -
  have un: "unat (u32_or_max (length readers)) = length readers" using n(1) by (auto simp: u32_or_max_def intro!: unat_small)
  have start: "recorded gid readers {} (ifg_new (group_of_file gid readers 0))"
    using group_wf_new by (simp add: recorded_def ifg_new_def group_of_file_def un group_wf_def)
  have "\<exists>ig. record_files paths pub gid readers is (ifg_new (group_of_file gid readers 0)) =
      (Ok ig :: (_, 'e FileTransferError) result) \<and> recorded gid readers ({} \<union> set is) ig"
    by (rule record_files_recorded [OF n(1) paths _ start]) (simp add: n(2))
  then obtain ig where ig: "record_files paths pub gid readers is (ifg_new (group_of_file gid readers 0)) =
      (Ok ig :: (_, 'e FileTransferError) result)" and rec: "recorded gid readers (set is) ig"
    by auto
  have all: "ifg_completed_metadata ig = map Some (map group_metadata readers)"
    using rec n(2) by (intro nth_equalityI) (auto simp: recorded_def)
  then have "list_all (\<lambda>b. \<not> b) (map (\<lambda>m. m = None) (ifg_completed_metadata ig))" by (simp add: list_all_iff)
  then have "None \<notin> set (ifg_completed_files ig)"
    using rec unfolding recorded_def group_wf_def by (metis (mono_tags, lifting) image_eqI list.set_map list_all_iff)
  then have complete: "ifg_is_complete ig" using rec group_complete_iff by (auto simp: recorded_def)
  have "unat (0 :: u64) + sum_list (map (unat \<circ> fst \<circ> snd) (map group_metadata readers)) < 2 ^ 64"
    using sizes by (simp add: group_metadata_def comp_def)
  from metadata_digest_all [OF this, of "[]"] have "ifg_valid_checksum ig"
    using rec unfolding ifg_valid_checksum_def all
    by (simp add: recorded_def group_total_size_bytes_def file_group_checksum_crc32_def group_metadata_def comp_def)
  then show ?thesis using ig complete by blast
qed

lemma sent_group_is_accepted_witness:
  "\<exists>ig. record_files (\<lambda>_. [Normal ''a'']) (\<lambda>_. [Normal ''a'']) 5 [\<lparr>pgr_reader = sample_reader, pgr_relative_path = ''a''\<rparr>] [0]
      (ifg_new (group_of_file 5 [\<lparr>pgr_reader = sample_reader, pgr_relative_path = ''a''\<rparr>] 0)) =
        (Ok ig :: (_, unit FileTransferError) result) \<and> ifg_is_complete ig \<and> ifg_valid_checksum ig"
  by (rule sent_group_is_accepted) (auto simp: sample_reader_def sample_file_def)

end
