(* ===== verification/Utf8_Text.thy ===== *)
theory Utf8_Text
  imports Base
begin

text \<open>
  Rust text.  A \<open>String\<close> is the list of its \<open>char\<close>s, a \<open>char\<close> a Unicode scalar value (a \<open>nat\<close>);
  \<open>as_bytes\<close> is the UTF-8 encoding and \<open>String::from_utf8\<close> its checked inverse, which refuses
  overlong forms, surrogates, values above U+10FFFF, stray and missing continuation bytes.  Also the
  predicates of the standard library that the components use: \<open>is_whitespace\<close> (the Unicode property
  White\_Space), \<open>is_control\<close> (the general category Cc), \<open>trim\<close>, \<open>to_ascii_uppercase\<close>.
\<close>

type_synonym rchar = nat
type_synonym rstring = "rchar list"

definition scalar :: "rchar \<Rightarrow> bool" where
  "scalar c \<longleftrightarrow> c < 0xD800 \<or> 0xE000 \<le> c \<and> c < 0x110000"

definition scalars :: "rstring \<Rightarrow> bool" where
  "scalars s \<longleftrightarrow> list_all scalar s"

text \<open>A string literal.\<close>

definition lit :: "string \<Rightarrow> rstring" where
  "lit s = map of_char s"

section \<open>UTF-8\<close>

definition byte :: "nat \<Rightarrow> u8" where
  "byte n = word_of_nat n"

definition utf8_char :: "rchar \<Rightarrow> bytes" where
  "utf8_char c =
     (if c < 0x80 then [byte c]
      else if c < 0x800 then [byte (0xC0 + c div 64), byte (0x80 + c mod 64)]
      else if c < 0x10000 then [byte (0xE0 + c div 4096), byte (0x80 + c div 64 mod 64), byte (0x80 + c mod 64)]
      else [byte (0xF0 + c div 262144), byte (0x80 + c div 4096 mod 64), byte (0x80 + c div 64 mod 64), byte (0x80 + c mod 64)])"

definition as_bytes :: "rstring \<Rightarrow> bytes" where
  "as_bytes s = concat (map utf8_char s)"

text \<open>The payload of a continuation byte.\<close>

definition cont :: "u8 \<Rightarrow> nat option" where
  "cont b = (if 0x80 \<le> unat b \<and> unat b < 0xC0 then Some (unat b - 0x80) else None)"

definition utf8_one :: "bytes \<Rightarrow> (rchar \<times> bytes) option" where
  "utf8_one bs = (case bs of
     [] \<Rightarrow> None
   | b # r \<Rightarrow>
     let n = unat b in
     if n < 0x80 then Some (n, r)
     else if n < 0xC0 then None
     else if n < 0xE0 then (case r of x # r \<Rightarrow>
       Option.bind (cont x) (\<lambda>x. let c = (n - 0xC0) * 64 + x in if 0x80 \<le> c then Some (c, r) else None) | _ \<Rightarrow> None)
     else if n < 0xF0 then (case r of x # y # r \<Rightarrow>
       Option.bind (cont x) (\<lambda>x. Option.bind (cont y) (\<lambda>y.
         let c = (n - 0xE0) * 4096 + x * 64 + y in if 0x800 \<le> c \<and> scalar c then Some (c, r) else None)) | _ \<Rightarrow> None)
     else if n < 0xF8 then (case r of x # y # z # r \<Rightarrow>
       Option.bind (cont x) (\<lambda>x. Option.bind (cont y) (\<lambda>y. Option.bind (cont z) (\<lambda>z.
         let c = (n - 0xF0) * 262144 + x * 4096 + y * 64 + z in
         if 0x10000 \<le> c \<and> scalar c then Some (c, r) else None))) | _ \<Rightarrow> None)
     else None)"

lemma utf8_one_shorter: "utf8_one bs = Some (c, r) \<Longrightarrow> length r < length bs"
  by (auto simp: utf8_one_def Let_def bind_eq_Some_conv split: list.splits if_splits)

function from_utf8 :: "bytes \<Rightarrow> rstring option" where
  "from_utf8 bs =
     (if bs = [] then Some []
      else case utf8_one bs of None \<Rightarrow> None | Some (c, r) \<Rightarrow> map_option ((#) c) (from_utf8 r))"
  by pat_completeness auto
termination by (relation "measure length") (auto dest: utf8_one_shorter)

declare from_utf8.simps [simp del]

lemma unat_byte: "n < 256 \<Longrightarrow> unat (byte n) = n"
  by (simp add: byte_def unat_of_nat)

lemma utf8_one_char:
  assumes "scalar c"
  shows "utf8_one (utf8_char c @ r) = Some (c, r)"
proof -
  have lt: "c < 0x110000" using assms by (auto simp: scalar_def)
  have parts: "c = c div 64 * 64 + c mod 64" "c div 64 = c div 4096 * 64 + c div 64 mod 64"
    "c div 4096 = c div 262144 * 64 + c div 4096 mod 64"
    by (simp_all add: div_mult2_eq [of c 64 64, simplified] div_mult2_eq [of c 4096 64, simplified])
  have m: "n mod 64 < 64" for n :: nat by simp
  have two: "c div 64 < 32" if "c < 0x800" using that by linarith
  have three: "c div 4096 < 16" if "c < 0x10000" using that by linarith
  have four: "c div 262144 < 5" using lt by linarith
  consider "c < 0x80" | "0x80 \<le> c" "c < 0x800" | "0x800 \<le> c" "c < 0x10000" | "0x10000 \<le> c" by linarith
  then show ?thesis
  proof cases
    case 1
    then show ?thesis by (simp add: utf8_char_def utf8_one_def unat_byte)
  next
    case 2
    then show ?thesis using two m [of c] by (simp add: utf8_char_def utf8_one_def unat_byte cont_def Let_def)
  next
    case 3
    then have "c div 4096 * 4096 + c div 64 mod 64 * 64 + c mod 64 = c" using parts by linarith
    then show ?thesis
      using 3 three m [of c] m [of "c div 64"] assms by (simp add: utf8_char_def utf8_one_def unat_byte cont_def Let_def)
  next
    case 4
    then have "c div 262144 * 262144 + c div 4096 mod 64 * 4096 + c div 64 mod 64 * 64 + c mod 64 = c" using parts by linarith
    then show ?thesis
      using 4 four m [of c] m [of "c div 64"] m [of "c div 4096"] assms
      by (simp add: utf8_char_def utf8_one_def unat_byte cont_def Let_def)
  qed
qed

lemma utf8_char_nonempty [simp]: "utf8_char c \<noteq> []"
  by (simp add: utf8_char_def)

lemma from_utf8_as_bytes: "scalars s \<Longrightarrow> from_utf8 (as_bytes s) = Some s"
proof (induction s)
  case (Cons c s)
  then show ?case
    using utf8_one_char [of c "as_bytes s"] by (subst from_utf8.simps) (simp add: as_bytes_def scalars_def)
qed (simp add: as_bytes_def from_utf8.simps)

lemma utf8_one_scalar: "utf8_one bs = Some (c, r) \<Longrightarrow> scalar c"
  by (auto simp: utf8_one_def Let_def bind_eq_Some_conv cont_def scalar_def split: list.splits if_splits)

lemma byte_unat [simp]: "byte (unat b) = b"
  by (simp add: byte_def)

lemma cont_Some: "cont x = Some v \<Longrightarrow> x = byte (0x80 + v) \<and> v < 64"
  by (auto simp: cont_def split: if_splits)

lemma digit64: "c = q * 64 + w \<Longrightarrow> w < 64 \<Longrightarrow> c mod 64 = w \<and> c div 64 = q" for c q w :: nat
  by simp

lemma utf8_one_exact:
  assumes "utf8_one bs = Some (c, r)"
  shows "utf8_char c @ r = bs"
proof -
  obtain b r0 where bs: "bs = b # r0" using assms by (cases bs) (auto simp: utf8_one_def)
  consider "unat b < 0x80" | "0xC0 \<le> unat b" "unat b < 0xE0" | "0xE0 \<le> unat b" "unat b < 0xF0" | "0xF0 \<le> unat b" "unat b < 0xF8"
    using assms bs by (fastforce simp: utf8_one_def Let_def split: if_splits)
  then show ?thesis
  proof cases
    case 1
    then show ?thesis using assms bs by (auto simp: utf8_one_def utf8_char_def)
  next
    case 2
    then obtain x v where x: "r0 = x # r" "cont x = Some v" "c = (unat b - 0xC0) * 64 + v" "0x80 \<le> c"
      using assms bs by (auto simp: utf8_one_def Let_def bind_eq_Some_conv split: list.splits if_splits)
    have d: "c div 64 = unat b - 0xC0" "c mod 64 = v" "c < 0x800" using x(3) cont_Some [OF x(2)] 2 by auto
    then show ?thesis using x cont_Some [OF x(2)] 2 bs by (simp add: utf8_char_def)
  next
    case 3
    then obtain x y v w where x: "r0 = x # y # r" "cont x = Some v" "cont y = Some w" "c = (unat b - 0xE0) * 4096 + v * 64 + w" "0x800 \<le> c"
      using assms bs by (auto simp: utf8_one_def Let_def bind_eq_Some_conv split: list.splits if_splits)
    note cs = cont_Some [OF x(2)] cont_Some [OF x(3)]
    have "c = ((unat b - 0xE0) * 64 + v) * 64 + w" using x(4) by (simp add: algebra_simps)
    then have m: "c mod 64 = w" "c div 64 = (unat b - 0xE0) * 64 + v" using digit64 cs by blast+
    then have "c div 64 mod 64 = v" "c div 64 div 64 = unat b - 0xE0" "c < 0x10000" using digit64 cs 3 x(4) by (blast, blast, linarith)
    then have "c div 4096 = unat b - 0xE0" by (simp add: div_mult2_eq [of c 64 64, simplified])
    then show ?thesis using x cs 3 bs m \<open>c div 64 mod 64 = v\<close> \<open>c < 0x10000\<close> by (simp add: utf8_char_def)
  next
    case 4
    then obtain x y z v w u where x: "r0 = x # y # z # r" "cont x = Some v" "cont y = Some w" "cont z = Some u"
      "c = (unat b - 0xF0) * 262144 + v * 4096 + w * 64 + u" "0x10000 \<le> c"
      using assms bs by (auto simp: utf8_one_def Let_def bind_eq_Some_conv split: list.splits if_splits)
    note cs = cont_Some [OF x(2)] cont_Some [OF x(3)] cont_Some [OF x(4)]
    have "c = (((unat b - 0xF0) * 64 + v) * 64 + w) * 64 + u" using x(5) by (simp add: algebra_simps)
    then have m: "c mod 64 = u" "c div 64 = ((unat b - 0xF0) * 64 + v) * 64 + w" using digit64 cs by blast+
    then have n: "c div 64 mod 64 = w" "c div 64 div 64 = (unat b - 0xF0) * 64 + v" using digit64 cs by blast+
    then have k: "c div 64 div 64 mod 64 = v" "c div 64 div 64 div 64 = unat b - 0xF0" using digit64 cs by blast+
    have e: "c div 4096 = c div 64 div 64" "c div 262144 = c div 64 div 64 div 64"
      by (simp_all add: div_mult2_eq [of c 64 64, simplified] div_mult2_eq [of c 4096 64, simplified])
    show ?thesis using x(1,6) cs 4 bs m(1) n(1) k by (simp add: utf8_char_def e)
  qed
qed

lemma as_bytes_from_utf8: "from_utf8 bs = Some s \<Longrightarrow> as_bytes s = bs"
proof (induction bs arbitrary: s rule: from_utf8.induct)
  case (1 bs)
  show ?case
  proof (cases "bs = []")
    case False
    then obtain c r t where "utf8_one bs = Some (c, r)" "from_utf8 r = Some t" "s = c # t"
      using "1.prems" by (subst (asm) from_utf8.simps) (auto split: option.splits)
    then show ?thesis using "1.IH" [OF False] utf8_one_exact by (auto simp: as_bytes_def)
  qed (use "1.prems" in \<open>auto simp: from_utf8.simps as_bytes_def\<close>)
qed

lemma from_utf8_scalars: "from_utf8 bs = Some s \<Longrightarrow> scalars s"
proof (induction bs arbitrary: s rule: from_utf8.induct)
  case (1 bs)
  show ?case
  proof (cases "bs = []")
    case False
    then obtain c r t where "utf8_one bs = Some (c, r)" "from_utf8 r = Some t" "s = c # t"
      using "1.prems" by (subst (asm) from_utf8.simps) (auto split: option.splits)
    then show ?thesis using "1.IH" [OF False] utf8_one_scalar by (auto simp: scalars_def)
  qed (use "1.prems" in \<open>auto simp: from_utf8.simps scalars_def\<close>)
qed

lemma as_bytes_append: "as_bytes (s @ t) = as_bytes s @ as_bytes t"
  by (simp add: as_bytes_def)

lemma as_bytes_ascii: "list_all (\<lambda>c. c < 0x80) s \<Longrightarrow> as_bytes s = map byte s"
  by (induction s) (auto simp: as_bytes_def utf8_char_def)

lemma length_as_bytes_ascii: "list_all (\<lambda>c. c < 0x80) s \<Longrightarrow> length (as_bytes s) = length s"
  by (simp add: as_bytes_ascii)

section \<open>Characters\<close>

definition is_whitespace :: "rchar \<Rightarrow> bool" where
  "is_whitespace c \<longleftrightarrow> 0x09 \<le> c \<and> c \<le> 0x0D \<or> c = 0x20 \<or> c = 0x85 \<or> c = 0xA0 \<or> c = 0x1680 \<or>
     0x2000 \<le> c \<and> c \<le> 0x200A \<or> c = 0x2028 \<or> c = 0x2029 \<or> c = 0x202F \<or> c = 0x205F \<or> c = 0x3000"

definition is_control :: "rchar \<Rightarrow> bool" where
  "is_control c \<longleftrightarrow> c < 0x20 \<or> 0x7F \<le> c \<and> c < 0xA0"

definition to_ascii_uppercase :: "rchar \<Rightarrow> rchar" where
  "to_ascii_uppercase c = (if 97 \<le> c \<and> c \<le> 122 then c - 32 else c)"

definition trim_start :: "rstring \<Rightarrow> rstring" where
  "trim_start = dropWhile is_whitespace"

definition trim :: "rstring \<Rightarrow> rstring" where
  "trim s = rev (trim_start (rev (trim_start s)))"

lemma trim_id:
  assumes "s \<noteq> []" "\<not> is_whitespace (s ! 0)" "\<not> is_whitespace (last s)"
  shows "trim s = s"
proof -
  have "trim_start s = s" using assms by (cases s) (simp_all add: trim_start_def)
  moreover have "trim_start (rev s) = rev s" using assms by (cases "rev s") (auto simp: trim_start_def last_conv_nth hd_rev simp flip: hd_rev)
  ultimately show ?thesis by (simp add: trim_def)
qed

lemma trim_start_first: "trim_start s \<noteq> [] \<Longrightarrow> \<not> is_whitespace (trim_start s ! 0)"
  using hd_dropWhile [of is_whitespace s] by (simp add: trim_start_def hd_conv_nth)

lemma trim_plain: "list_all (\<lambda>c. \<not> is_whitespace c) s \<Longrightarrow> trim s = s"
  by (cases "s = []") (simp add: trim_def trim_start_def, rule trim_id, auto simp: list_all_iff)

lemma trim_Nil [simp]: "trim [] = []"
  by (simp add: trim_def trim_start_def)

lemma trim_idem [simp]: "trim (trim s) = trim s"
proof (cases "trim s = []")
  case False
  let ?a = "trim_start s"
  have t: "trim s = rev (trim_start (rev ?a))" by (simp add: trim_def)
  have ne: "trim_start (rev ?a) \<noteq> []" "?a \<noteq> []" using False unfolding t by (auto simp only: rev_is_Nil_conv) (simp add: trim_start_def)
  have "\<not> is_whitespace (last (trim s))" using trim_start_first [OF ne(1)] ne(1) by (simp add: t last_rev hd_conv_nth)
  moreover have "trim s ! 0 = ?a ! 0"
  proof -
    obtain w where "rev ?a = w @ trim_start (rev ?a)" unfolding trim_start_def by (metis takeWhile_dropWhile_id)
    then have "?a = trim s @ rev w" by (metis rev_append rev_rev_ident t)
    then show ?thesis using False by (metis nth_append_left length_greater_0_conv)
  qed
  ultimately show ?thesis using trim_id [OF False] trim_start_first [OF ne(2)] by simp
qed simp

end
