(* ===== verification/Bit_Lists.thy ===== *)
theory Bit_Lists
  imports Base
begin

text \<open>
  Numbers as lists of bits, most significant first: the view of a bit accumulator or of a bit reader that
  the proofs about base 32 and about Exp-Golomb codes share.
\<close>

text \<open>A number of \<open>w\<close> bits as the list of its bits, and the value of such a list.\<close>

primrec bl :: "nat \<Rightarrow> nat \<Rightarrow> bool list" where
  "bl 0 n = []"
| "bl (Suc w) n = bl w (n div 2) @ [odd n]"

definition vl :: "bool list \<Rightarrow> nat" where
  "vl xs = foldl (\<lambda>a x. 2 * a + of_bool x) 0 xs"

lemma vl_simps [simp]: "vl [] = 0" "vl (xs @ [x]) = 2 * vl xs + of_bool x"
  by (simp_all add: vl_def)

lemma vl_append: "vl (xs @ ys) = vl xs * 2 ^ length ys + vl ys"
proof (induction ys rule: rev_induct)
  case (snoc y ys)
  have "vl (xs @ ys @ [y]) = 2 * vl (xs @ ys) + of_bool y" using vl_simps(2) [of "xs @ ys" y] by simp
  then show ?case by (simp add: snoc algebra_simps)
qed simp

lemma vl_less: "vl xs < 2 ^ length xs"
  by (induction xs rule: rev_induct) (auto simp: of_bool_def)

lemma length_bl [simp]: "length (bl w n) = w"
  by (induction w arbitrary: n) simp_all

lemma vl_bl: "n < 2 ^ w \<Longrightarrow> vl (bl w n) = n"
proof (induction w arbitrary: n)
  case (Suc w)
  then have "vl (bl w (n div 2)) = n div 2" by simp
  then show ?case by (simp add: of_bool_def)
qed simp

lemma bl_inject: "m < 2 ^ w \<Longrightarrow> n < 2 ^ w \<Longrightarrow> bl w m = bl w n \<longleftrightarrow> m = n"
  by (metis vl_bl)

lemma vl_inject_length: "vl xs = vl ys \<Longrightarrow> length xs = length ys \<Longrightarrow> xs = ys"
proof (induction xs arbitrary: ys rule: rev_induct)
  case (snoc x xs)
  then obtain zs z where ys: "ys = zs @ [z]" by (cases ys rule: rev_cases) auto
  then have "x = z" "vl xs = vl zs" using snoc.prems(1) by (auto simp: of_bool_def split: if_splits) presburger+
  then show ?case using snoc ys by simp
qed simp

lemma vl_split:
  assumes "length l = k + n"
  shows "vl l div 2 ^ n mod 2 ^ k = vl (take k l)" "vl l mod 2 ^ n = vl (drop k l)"
proof -
  have l: "vl l = vl (take k l) * 2 ^ n + vl (drop k l)" using vl_append [of "take k l" "drop k l"] assms by simp
  have "vl (drop k l) < 2 ^ n" "vl (take k l) < 2 ^ k" using vl_less [of "drop k l"] vl_less [of "take k l"] assms by simp_all
  then show "vl l div 2 ^ n mod 2 ^ k = vl (take k l)" "vl l mod 2 ^ n = vl (drop k l)" by (simp_all add: l)
qed

lemma vl_shift: "length l = n \<Longrightarrow> v < 2 ^ w \<Longrightarrow> vl l * 2 ^ w + v = vl (l @ bl w v)"
  by (simp add: vl_append vl_bl)

abbreviation byte_bits :: "bytes \<Rightarrow> bool list" where
  "byte_bits bs \<equiv> concat (map (\<lambda>b. bl 8 (unat b)) bs)"

end
