(* ===== verification/Device_Group.thy ===== *)
theory Device_Group
  imports Utf8_Text Bit_Lists
begin

unbundle bit_operations_syntax

text \<open>
  The device group (\<open>remote_core/src/mesh.rs\<close>): the group's configuration, the invitation code that carries
  name and secret to another device (a length-prefixed payload with an FNV-1a checksum in Crockford's
  base 32, in groups of eight), and the metadata file.  Random bytes are arguments.

  The bit accumulator of the base-32 loops is a \<open>u32\<close> that is masked to fewer than 13 bits after every
  step; it is a \<open>nat\<close> here, shifts are multiplication and division by powers of two, masks remainders.
\<close>

section \<open>Data\<close>

type_synonym MeshSecret = rstring

record MeshConfig =
  network_name :: rstring
  network_secret :: MeshSecret
  node_id :: rstring
  display_name :: rstring

record MeshInvite =
  inv_network_name :: rstring
  inv_network_secret :: MeshSecret

datatype MeshConfigError = EmptyNetworkName | EmptyNetworkSecret | EmptyNodeId | EmptyDisplayName | InvalidInviteCode

definition secret_new :: "rstring \<Rightarrow> (MeshSecret, MeshConfigError) result" where
  "secret_new value = (if trim value = [] then Err EmptyNetworkSecret else Ok value)"

definition config_validate :: "MeshConfig \<Rightarrow> (unit, MeshConfigError) result" where
  "config_validate c =
     (if trim (network_name c) = [] then Err EmptyNetworkName
      else if trim (network_secret c) = [] then Err EmptyNetworkSecret
      else if trim (node_id c) = [] then Err EmptyNodeId
      else if trim (display_name c) = [] then Err EmptyDisplayName
      else Ok ())"

section \<open>Hexadecimal\<close>

definition hex_table :: rstring where
  "hex_table = lit ''0123456789abcdef''"

definition hex_bytes :: "bytes \<Rightarrow> rstring" where
  "hex_bytes bs = concat (map (\<lambda>b. [hex_table ! (unat b div 16), hex_table ! (unat b mod 16)]) bs)"

definition decode_hex_nibble :: "u8 \<Rightarrow> nat option" where
  "decode_hex_nibble b =
     (let n = unat b in
      if 48 \<le> n \<and> n \<le> 57 then Some (n - 48)
      else if 97 \<le> n \<and> n \<le> 102 then Some (n - 97 + 10)
      else if 65 \<le> n \<and> n \<le> 70 then Some (n - 65 + 10)
      else None)"

text \<open>The loop over pairs of digits (of an even number of bytes).\<close>

fun decode_hex_pairs :: "bytes \<Rightarrow> bytes option" where
  "decode_hex_pairs (a # b # rest) =
     Option.bind (decode_hex_nibble a) (\<lambda>high. Option.bind (decode_hex_nibble b) (\<lambda>low.
       map_option ((#) (byte (high * 16 + low))) (decode_hex_pairs rest)))"
| "decode_hex_pairs _ = Some []"

definition decode_hex_bytes_for_copy_code :: "rstring \<Rightarrow> bytes option" where
  "decode_hex_bytes_for_copy_code value =
     (let raw = as_bytes value in if raw = [] \<or> odd (length raw) then None else decode_hex_pairs raw)"

section \<open>Base 32\<close>

definition crockford_alphabet :: rstring where
  "crockford_alphabet = lit ''0123456789ABCDEFGHJKMNPQRSTVWXYZ''"

function emit5 :: "nat \<Rightarrow> nat \<Rightarrow> rstring \<times> nat \<times> nat" where
  "emit5 buffer bits =
     (if bits < 5 then ([], buffer, bits)
      else let c = crockford_alphabet ! (buffer div 2 ^ (bits - 5) mod 32) in
        case emit5 (buffer mod 2 ^ (bits - 5)) (bits - 5) of (out, buf, n) \<Rightarrow> (c # out, buf, n))"
  by pat_completeness auto
termination by (relation "measure snd") auto

fun base32_loop :: "nat \<Rightarrow> nat \<Rightarrow> bytes \<Rightarrow> rstring" where
  "base32_loop buffer bits [] =
     (if bits > 0 then [crockford_alphabet ! (buffer * 2 ^ (5 - bits) mod 32)] else [])"
| "base32_loop buffer bits (b # bs) =
     (case emit5 (buffer * 256 + unat b) (bits + 8) of (out, buf, n) \<Rightarrow> out @ base32_loop buf n bs)"

definition crockford_base32_encode :: "bytes \<Rightarrow> rstring" where
  "crockford_base32_encode bs = base32_loop 0 0 bs"

definition crockford_base32_value :: "rchar \<Rightarrow> nat option" where
  "crockford_base32_value ch =
     (let c = to_ascii_uppercase ch in
      if c = of_char (CHR ''O'') then Some 0
      else if c = of_char (CHR ''I'') \<or> c = of_char (CHR ''L'') then Some 1
      else map_of (zip crockford_alphabet [0..<32]) c)"

function emit8 :: "nat \<Rightarrow> nat \<Rightarrow> bytes \<times> nat \<times> nat" where
  "emit8 buffer bits =
     (if bits < 8 then ([], buffer, bits)
      else let c = byte (buffer div 2 ^ (bits - 8) mod 256) in
        case emit8 (buffer mod 2 ^ (bits - 8)) (bits - 8) of (out, buf, n) \<Rightarrow> (c # out, buf, n))"
  by pat_completeness auto
termination by (relation "measure snd") auto

declare emit5.simps [simp del] emit8.simps [simp del]

fun base32_decode_loop :: "nat \<Rightarrow> nat \<Rightarrow> rstring \<Rightarrow> bytes option" where
  "base32_decode_loop buffer bits [] = Some []"
| "base32_decode_loop buffer bits (ch # rest) =
     (case crockford_base32_value ch of
        None \<Rightarrow> None
      | Some v \<Rightarrow> (case emit8 (buffer * 32 + v) (bits + 5) of (out, buf, n) \<Rightarrow>
          map_option ((@) out) (base32_decode_loop buf n rest)))"

definition crockford_base32_decode :: "rstring \<Rightarrow> (bytes, MeshConfigError) result" where
  "crockford_base32_decode value = ok_or (base32_decode_loop 0 0 value) InvalidInviteCode"

section \<open>The invitation code\<close>

definition MESH_COPY_CODE_VERSION :: u8 where "MESH_COPY_CODE_VERSION = 2"
definition MESH_COPY_SECRET_UTF8 :: u8 where "MESH_COPY_SECRET_UTF8 = 0"
definition MESH_COPY_SECRET_HEX_BYTES :: u8 where "MESH_COPY_SECRET_HEX_BYTES = 1"

definition COPY_CODE_PREFIX :: rstring where "COPY_CODE_PREFIX = lit ''RPM2''"

definition fnv1a32 :: "bytes \<Rightarrow> u32" where
  "fnv1a32 bs = foldl (\<lambda>hash b. (hash XOR ucast b) * 0x01000193) 0x811c9dc5 bs"

definition push_u8_len_bytes :: "bytes \<Rightarrow> bytes \<Rightarrow> bytes" where
  "push_u8_len_bytes out bs = out @ [if length bs < 256 then byte (length bs) else 255] @ take 255 bs"

definition encode_copy_code_secret :: "rstring \<Rightarrow> u8 \<times> bytes" where
  "encode_copy_code_secret secret =
     (case decode_hex_bytes_for_copy_code secret of
        Some bs \<Rightarrow> (MESH_COPY_SECRET_HEX_BYTES, bs)
      | None \<Rightarrow> (MESH_COPY_SECRET_UTF8, as_bytes secret))"

definition decode_copy_code_secret :: "u8 \<Rightarrow> bytes \<Rightarrow> (rstring, MeshConfigError) result" where
  "decode_copy_code_secret secret_kind bs =
     (if secret_kind = MESH_COPY_SECRET_UTF8 then ok_or (from_utf8 bs) InvalidInviteCode
      else if secret_kind = MESH_COPY_SECRET_HEX_BYTES then Ok (hex_bytes bs)
      else Err InvalidInviteCode)"

definition compact_copy_code :: "rstring \<Rightarrow> rstring" where
  "compact_copy_code value = filter (\<lambda>ch. \<not> is_whitespace ch \<and> ch \<noteq> of_char (CHR ''-'')) value"

text \<open>A hyphen before every eighth character but the first.\<close>

fun group_from :: "nat \<Rightarrow> rstring \<Rightarrow> rstring" where
  "group_from idx [] = []"
| "group_from idx (ch # rest) =
     (if idx > 0 \<and> idx mod 8 = 0 then [of_char (CHR ''-''), ch] else [ch]) @ group_from (idx + 1) rest"

definition group_copy_code :: "rstring \<Rightarrow> rstring" where
  "group_copy_code encoded = group_from 0 encoded"

definition encode_copy_code :: "MeshInvite \<Rightarrow> rstring" where
  "encode_copy_code i =
     (let (secret_kind, secret_bytes) = encode_copy_code_secret (inv_network_secret i);
          payload = push_u8_len_bytes (push_u8_len_bytes [MESH_COPY_CODE_VERSION] (as_bytes (inv_network_name i)) @ [secret_kind])
            secret_bytes;
          checked = payload @ to_be 4 (fnv1a32 payload)
      in COPY_CODE_PREFIX @ [of_char (CHR ''-'')] @ group_copy_code (crockford_base32_encode checked))"

text \<open>The reader is the unread rest of the payload.\<close>

definition read_u8 :: "bytes \<Rightarrow> (u8 \<times> bytes, MeshConfigError) result" where
  "read_u8 bs = (case bs of [] \<Rightarrow> Err InvalidInviteCode | b # rest \<Rightarrow> Ok (b, rest))"

definition read_u8_len_bytes :: "bytes \<Rightarrow> (bytes \<times> bytes, MeshConfigError) result" where
  "read_u8_len_bytes bs =
     try_bind (read_u8 bs) (\<lambda>(n, rest).
       if unat n > length rest then Err InvalidInviteCode else Ok (take (unat n) rest, drop (unat n) rest))"

definition decode_content :: "bytes \<Rightarrow> (MeshInvite, MeshConfigError) result" where
  "decode_content content =
     try_bind (read_u8 content) (\<lambda>(version, r1).
     if version \<noteq> MESH_COPY_CODE_VERSION then Err InvalidInviteCode
     else try_bind (read_u8_len_bytes r1) (\<lambda>(name_bytes, r2).
     try_bind (ok_or (from_utf8 name_bytes) InvalidInviteCode) (\<lambda>name.
     if trim name = [] then Err EmptyNetworkName
     else try_bind (read_u8 r2) (\<lambda>(secret_kind, r3).
     try_bind (read_u8_len_bytes r3) (\<lambda>(secret_bytes, r4).
     try_bind (decode_copy_code_secret secret_kind secret_bytes) (\<lambda>secret.
     if r4 \<noteq> [] then Err InvalidInviteCode
     else try_bind (secret_new secret) (\<lambda>s. Ok \<lparr>inv_network_name = name, inv_network_secret = s\<rparr>)))))))"

text \<open>
  The prefix test: \<open>get(..4)\<close> takes the first four bytes, and four bytes that equal \<open>RPM2\<close> up to ASCII
  case are four ASCII characters.
\<close>

definition decode_mesh_copy_code :: "rstring \<Rightarrow> (MeshInvite, MeshConfigError) result" where
  "decode_mesh_copy_code value =
     (let compact = compact_copy_code value in
      if map to_ascii_uppercase (take 4 compact) \<noteq> COPY_CODE_PREFIX then Err InvalidInviteCode
      else try_bind (crockford_base32_decode (drop 4 compact)) (\<lambda>payload.
        if length payload < 8 then Err InvalidInviteCode
        else let content = take (length payload - 4) payload; checksum_bytes = drop (length payload - 4) payload in
          if fnv1a32 content \<noteq> of_be checksum_bytes then Err InvalidInviteCode
          else decode_content content))"

definition invite_code :: "MeshConfig \<Rightarrow> rstring" where
  "invite_code c = encode_copy_code \<lparr>inv_network_name = network_name c, inv_network_secret = network_secret c\<rparr>"

text \<open>The display name falls back to the name of the host.\<close>

definition sanitized_display_name :: "rstring \<Rightarrow> rstring \<Rightarrow> rstring" where
  "sanitized_display_name host_name name = (let value = trim name in if value = [] then host_name else value)"

definition config_generate :: "rstring \<Rightarrow> bytes \<Rightarrow> bytes \<Rightarrow> bytes \<Rightarrow> rstring \<Rightarrow> MeshConfig" where
  "config_generate host_name rnd8 rnd32 rnd16 name =
     \<lparr>network_name = lit ''weavelo-'' @ hex_bytes rnd8, network_secret = hex_bytes rnd32, node_id = hex_bytes rnd16,
      display_name = sanitized_display_name host_name name\<rparr>"

definition from_invite_code :: "rstring \<Rightarrow> bytes \<Rightarrow> rstring \<Rightarrow> rstring \<Rightarrow> (MeshConfig, MeshConfigError) result" where
  "from_invite_code host_name rnd16 code name =
     try_bind (decode_mesh_copy_code code) (\<lambda>i. Ok
       \<lparr>network_name = inv_network_name i, network_secret = inv_network_secret i, node_id = hex_bytes rnd16,
        display_name = sanitized_display_name host_name name\<rparr>)"

section \<open>Base 32 is exact\<close>

definition symbols :: "bool list list \<Rightarrow> rstring" where
  "symbols gs = map (\<lambda>g. crockford_alphabet ! vl g) gs"

definition fives :: "bool list list \<Rightarrow> bool" where
  "fives gs \<longleftrightarrow> list_all (\<lambda>g. length g = 5) gs"

lemma emit5_bits:
  "\<exists>gs r. emit5 (vl l) (length l) = (symbols gs, vl r, length r) \<and> l = concat gs @ r \<and> fives gs \<and> length r < 5"
proof (induction "length l" arbitrary: l rule: less_induct)
  case less
  show ?case
  proof (cases "length l < 5")
    case True
    then show ?thesis
      by (intro exI [of _ "[]"] exI [of _ l]) (simp add: emit5.simps [of "vl l"] symbols_def fives_def)
  next
    case False
    define d where "d = drop 5 l"
    have len: "length l = 5 + length d" "length l - 5 = length d" using False by (simp_all add: d_def)
    have v: "vl l div 2 ^ length d mod 32 = vl (take 5 l)" "vl l mod 2 ^ length d = vl d"
      using vl_split [OF len(1)] by (simp_all add: d_def)
    obtain gs r where g: "emit5 (vl d) (length d) = (symbols gs, vl r, length r)" "d = concat gs @ r" "fives gs" "length r < 5"
      using less [of d] False len by auto
    have "emit5 (vl l) (length l) = (symbols (take 5 l # gs), vl r, length r)"
      using False by (subst emit5.simps) (simp add: len(2) v g(1) Let_def symbols_def)
    moreover have "l = concat (take 5 l # gs) @ r" using g(2) by (simp add: d_def) (metis append_take_drop_id)
    ultimately show ?thesis using g(3,4) False by (intro exI [of _ "take 5 l # gs"] exI [of _ r]) (simp add: fives_def)
  qed
qed

lemma byte_lt: "unat (b :: u8) < 256"
  using unat_less_exp [of b] by simp

lemma base32_loop_bits:
  assumes "length l < 5"
  shows "\<exists>gs pad. base32_loop (vl l) (length l) bs = symbols gs \<and> concat gs = l @ byte_bits bs @ pad \<and> fives gs \<and> length pad < 5"
  using assms
proof (induction bs arbitrary: l)
  case Nil
  show ?case
  proof (cases "l = []")
    case False
    define pad where "pad = replicate (5 - length l) False"
    have z: "vl (replicate k False) = 0" for k by (induction k) (simp_all add: replicate_append_same [symmetric])
    have "vl (l @ pad) = vl l * 2 ^ (5 - length l)" by (simp add: vl_append pad_def z)
    moreover have "vl (l @ pad) < 32" using vl_less [of "l @ pad"] Nil by (simp add: pad_def)
    ultimately have "base32_loop (vl l) (length l) [] = symbols [l @ pad]" using False by (simp add: symbols_def)
    then show ?thesis
      using Nil False by (intro exI [of _ "[l @ pad]"] exI [of _ pad]) (simp add: fives_def pad_def)
  qed (auto simp: symbols_def fives_def intro!: exI [of _ "[]"])
next
  case (Cons b bs)
  let ?l = "l @ bl 8 (unat b)"
  have b: "vl l * 256 + unat b = vl ?l" using vl_shift [OF refl, of "unat b" 8 l] byte_lt [of b] by simp
  obtain gs r where g: "emit5 (vl ?l) (length ?l) = (symbols gs, vl r, length r)" "?l = concat gs @ r" "fives gs" "length r < 5"
    using emit5_bits [of ?l] by blast
  obtain hs pad where h: "base32_loop (vl r) (length r) bs = symbols hs" "concat hs = r @ byte_bits bs @ pad" "fives hs" "length pad < 5"
    using Cons.IH [OF g(4)] by blast
  have "base32_loop (vl l) (length l) (b # bs) = symbols (gs @ hs)"
    using g(1) h(1) by (simp add: b symbols_def)
  moreover have "concat (gs @ hs) = l @ byte_bits (b # bs) @ pad" using g(2) h(2) by (simp flip: append_assoc)
  ultimately show ?case using g(3) h(3,4) by (intro exI [of _ "gs @ hs"] exI [of _ pad]) (simp add: fives_def)
qed

lemma emit8_bits:
  "\<exists>bs r. emit8 (vl l) (length l) = (bs, vl r, length r) \<and> l = byte_bits bs @ r \<and> length r < 8"
proof (induction "length l" arbitrary: l rule: less_induct)
  case less
  show ?case
  proof (cases "length l < 8")
    case True
    then show ?thesis by (intro exI [of _ "[]"] exI [of _ l]) (simp add: emit8.simps [of "vl l"])
  next
    case False
    define d where "d = drop 8 l"
    have len: "length l = 8 + length d" "length l - 8 = length d" using False by (simp_all add: d_def)
    have v: "vl l div 2 ^ length d mod 256 = vl (take 8 l)" "vl l mod 2 ^ length d = vl d"
      using vl_split [OF len(1)] by (simp_all add: d_def)
    obtain bs r where g: "emit8 (vl d) (length d) = (bs, vl r, length r)" "d = byte_bits bs @ r" "length r < 8"
      using less [of d] False len by auto
    have t8: "vl (take 8 l) < 256" using vl_less [of "take 8 l"] False by simp
    have "bl 8 (vl (take 8 l)) = take 8 l"
      by (rule vl_inject_length) (use t8 False in \<open>simp_all add: vl_bl\<close>)
    then have "l = byte_bits (byte (vl (take 8 l)) # bs) @ r"
      using g(2) t8 by (simp add: d_def unat_byte) (metis append_take_drop_id)
    moreover have "emit8 (vl l) (length l) = (byte (vl (take 8 l)) # bs, vl r, length r)"
      using False by (subst emit8.simps) (simp add: len(2) v g(1) Let_def)
    ultimately show ?thesis using g(3) by blast
  qed
qed

lemma crockford_value: "v < 32 \<Longrightarrow> crockford_base32_value (crockford_alphabet ! v) = Some v"
proof -
  have "list_all (\<lambda>v. crockford_base32_value (crockford_alphabet ! v) = Some v) [0..<32]" by code_simp
  then show "v < 32 \<Longrightarrow> crockford_base32_value (crockford_alphabet ! v) = Some v" by (simp add: list_all_iff)
qed

lemma decode_loop_bits:
  assumes "fives gs" "length l < 8"
  shows "\<exists>out r. base32_decode_loop (vl l) (length l) (symbols gs) = Some out \<and> l @ concat gs = byte_bits out @ r \<and> length r < 8"
  using assms
proof (induction gs arbitrary: l)
  case Nil
  then show ?case by (simp add: symbols_def)
next
  case (Cons g gs)
  have g: "length g = 5" "vl g < 32" using Cons.prems(1) vl_less [of g] by (simp_all add: fives_def)
  obtain bs r where e: "emit8 (vl (l @ g)) (length (l @ g)) = (bs, vl r, length r)" "l @ g = byte_bits bs @ r" "length r < 8"
    using emit8_bits [of "l @ g"] by blast
  obtain out r' where i: "base32_decode_loop (vl r) (length r) (symbols gs) = Some out" "r @ concat gs = byte_bits out @ r'" "length r' < 8"
    using Cons.IH [of r] Cons.prems(1) e(3) by (auto simp: fives_def)
  have "vl l * 32 + vl g = vl (l @ g)" using g(1) by (simp add: vl_append)
  then have "base32_decode_loop (vl l) (length l) (symbols (g # gs)) = Some (bs @ out)"
    using e(1) i(1) g by (simp add: symbols_def crockford_value)
  moreover have "l @ concat (g # gs) = byte_bits (bs @ out) @ r'" using e(2) i(2) by (simp flip: append_assoc) simp
  ultimately show ?case using i(3) by blast
qed

lemma byte_bits_unique:
  assumes "byte_bits bs @ p = byte_bits out @ r" "length p < 8" "length r < 8"
  shows "bs = out"
  using assms
proof (induction bs arbitrary: out)
  case Nil
  then show ?case by (cases out) auto
next
  case (Cons b bs)
  then obtain c cs where out: "out = c # cs" by (cases out) auto
  then have "bl 8 (unat b) = bl 8 (unat c)" "byte_bits bs @ p = byte_bits cs @ r" using Cons.prems(1) by simp_all
  then show ?case using Cons.IH Cons.prems(2,3) byte_lt [of b] byte_lt [of c] by (simp add: out bl_inject word_unat_eq_iff)
qed

lemma base32_roundtrip: "crockford_base32_decode (crockford_base32_encode bs) = Ok bs"
proof -
  obtain gs pad where e: "base32_loop 0 0 bs = symbols gs" "concat gs = byte_bits bs @ pad" "fives gs" "length pad < 5"
    using base32_loop_bits [of "[]" bs] by auto
  obtain out r where d: "base32_decode_loop 0 0 (symbols gs) = Some out" "concat gs = byte_bits out @ r" "length r < 8"
    using decode_loop_bits [OF e(3), of "[]"] by auto
  have "bs = out" using byte_bits_unique [of bs pad out r] e(2,4) d(2,3) by simp
  then show ?thesis using e(1) d(1) by (simp add: crockford_base32_decode_def crockford_base32_encode_def ok_or_def)
qed

section \<open>Hexadecimal is exact\<close>

lemma hex_table_nth: "k < 16 \<Longrightarrow> hex_table ! k = (if k < 10 then 48 + k else 87 + k)"
proof -
  have "list_all (\<lambda>k. hex_table ! k = (if k < 10 then 48 + k else 87 + k)) [0..<16]" by code_simp
  then show "k < 16 \<Longrightarrow> ?thesis" by (simp add: list_all_iff)
qed

lemma hex_digit:
  assumes "n < 16"
  shows "hex_table ! n < 128" "decode_hex_nibble (byte (hex_table ! n)) = Some n" "\<not> is_whitespace (hex_table ! n)"
  using assms by (auto simp: hex_table_nth decode_hex_nibble_def Let_def unat_byte is_whitespace_def)

lemma nibble_digit:
  assumes "decode_hex_nibble b = Some n" "\<not> (65 \<le> unat b \<and> unat b \<le> 70)"
  shows "n < 16 \<and> hex_table ! n = unat b"
proof -
  consider "48 \<le> unat b" "unat b \<le> 57" "n = unat b - 48" | "97 \<le> unat b" "unat b \<le> 102" "n = unat b - 97 + 10"
    using assms by (auto simp: decode_hex_nibble_def Let_def split: if_splits)
  then show ?thesis by cases (auto simp: hex_table_nth)
qed

lemma hex_bytes_Cons [simp]:
  "hex_bytes [] = []" "hex_bytes (b # bs) = hex_table ! (unat b div 16) # hex_table ! (unat b mod 16) # hex_bytes bs"
  by (simp_all add: hex_bytes_def)

lemma hex_bytes_ascii: "list_all (\<lambda>c. c < 0x80) (hex_bytes bs)"
  by (induction bs) (use hex_digit(1) byte_lt in \<open>auto simp: less_mult_imp_div_less\<close>)

lemma hex_bytes_plain: "list_all (\<lambda>c. \<not> is_whitespace c) (hex_bytes bs)"
  by (induction bs) (use hex_digit(3) byte_lt in \<open>auto simp: less_mult_imp_div_less\<close>)

lemma length_hex_bytes [simp]: "length (hex_bytes bs) = 2 * length bs"
  by (induction bs) simp_all

lemma decode_hex_pairs_hex: "decode_hex_pairs (as_bytes (hex_bytes bs)) = Some bs"
  unfolding as_bytes_ascii [OF hex_bytes_ascii]
proof (induction bs)
  case (Cons b bs)
  have "unat b div 16 < 16" "unat b mod 16 < 16" using byte_lt [of b] by (simp_all add: less_mult_imp_div_less)
  moreover have "byte (unat b div 16 * 16 + unat b mod 16) = b" by (simp add: byte_def)
  ultimately show ?case using Cons by (simp add: hex_digit(2))
qed simp

lemma hex_pairs_lower:
  assumes "decode_hex_pairs raw = Some bs" "even (length raw)" "list_all (\<lambda>b. \<not> (65 \<le> unat b \<and> unat b \<le> 70)) raw"
  shows "hex_bytes bs = map unat raw"
  using assms
proof (induction raw arbitrary: bs rule: decode_hex_pairs.induct)
  case (1 a b rest)
  obtain h l cs where h: "decode_hex_nibble a = Some h" "decode_hex_nibble b = Some l" "decode_hex_pairs rest = Some cs"
      "bs = byte (h * 16 + l) # cs"
    using "1.prems"(1) by (auto simp: bind_eq_Some_conv)
  have n: "h < 16 \<and> hex_table ! h = unat a" "l < 16 \<and> hex_table ! l = unat b"
    using nibble_digit [OF h(1)] nibble_digit [OF h(2)] "1.prems"(3) by simp_all
  then have "unat (byte (h * 16 + l)) = h * 16 + l" by (intro unat_byte) linarith
  then show ?case using "1.IH" [OF h(1,2,3)] "1.prems"(2,3) n h(4) by simp
qed auto

lemma utf8_char_small: "scalar c \<Longrightarrow> list_all (\<lambda>b. unat b < 128) (utf8_char c) \<Longrightarrow> utf8_char c = [byte c] \<and> c < 128"
  by (auto simp: utf8_char_def unat_byte scalar_def split: if_splits)

lemma as_bytes_small:
  "scalars s \<Longrightarrow> list_all (\<lambda>b. unat b < 128) (as_bytes s) \<Longrightarrow> map unat (as_bytes s) = s"
proof (induction s)
  case (Cons c s)
  then show ?case using utf8_char_small [of c] by (auto simp: as_bytes_def scalars_def unat_byte)
qed (simp add: as_bytes_def)

lemma hex_pairs_small:
  "decode_hex_pairs raw = Some bs \<Longrightarrow> even (length raw) \<Longrightarrow> list_all (\<lambda>b. unat b < 128) raw \<and> length raw = 2 * length bs"
proof (induction raw arbitrary: bs rule: decode_hex_pairs.induct)
  case (1 a b rest)
  have "unat x < 128" if "decode_hex_nibble x = Some n" for x n
    using that by (auto simp: decode_hex_nibble_def Let_def split: if_splits)
  then show ?case using 1 by (auto simp: bind_eq_Some_conv)
qed auto

text \<open>A secret that the code takes for hexadecimal has no upper-case digit.\<close>

definition lower_secret :: "rstring \<Rightarrow> bool" where
  "lower_secret s \<longleftrightarrow> decode_hex_bytes_for_copy_code s = None \<or> list_all (\<lambda>c. \<not> (65 \<le> c \<and> c \<le> 70)) s"

lemma copy_code_secret_roundtrip:
  assumes "scalars s" "lower_secret s" "encode_copy_code_secret s = (k, bs)"
  shows "decode_copy_code_secret k bs = Ok s"
proof (cases "decode_hex_bytes_for_copy_code s")
  case None
  then show ?thesis
    using assms by (auto simp: encode_copy_code_secret_def decode_copy_code_secret_def from_utf8_as_bytes ok_or_def)
next
  case (Some raw)
  then have h: "decode_hex_pairs (as_bytes s) = Some bs" "even (length (as_bytes s))" "k = MESH_COPY_SECRET_HEX_BYTES"
    using assms(3) by (auto simp: encode_copy_code_secret_def decode_hex_bytes_for_copy_code_def Let_def split: if_splits)
  have s: "map unat (as_bytes s) = s" using hex_pairs_small [OF h(1,2)] as_bytes_small [OF assms(1)] by blast
  have "list_all (\<lambda>c. \<not> (65 \<le> c \<and> c \<le> 70)) (map unat (as_bytes s))"
    unfolding s using assms(2) Some by (simp add: lower_secret_def)
  then have "list_all (\<lambda>b. \<not> (65 \<le> unat b \<and> unat b \<le> 70)) (as_bytes s)" by (simp add: list_all_iff)
  from hex_pairs_lower [OF h(1,2) this] show ?thesis
    using s h(3) by (simp add: decode_copy_code_secret_def MESH_COPY_SECRET_HEX_BYTES_def MESH_COPY_SECRET_UTF8_def)
qed

section \<open>Invitations are exact\<close>

lemma alphabet_plain:
  assumes "n < 32"
  shows "\<not> is_whitespace (crockford_alphabet ! n) \<and> crockford_alphabet ! n \<noteq> of_char (CHR ''-'')"
proof -
  have "list_all (\<lambda>c. 48 \<le> c \<and> c \<le> 90) crockford_alphabet" "length crockford_alphabet = 32" by code_simp+
  then have "48 \<le> crockford_alphabet ! n \<and> crockford_alphabet ! n \<le> 90" using assms by (simp add: list_all_length)
  then show ?thesis by (auto simp: is_whitespace_def)
qed

lemma compact_group: "compact_copy_code (group_from n s) = compact_copy_code s"
  by (induction s arbitrary: n) (simp_all add: compact_copy_code_def is_whitespace_def)

lemma compact_base32: "compact_copy_code (crockford_base32_encode bs) = crockford_base32_encode bs"
proof -
  obtain gs where gs: "crockford_base32_encode bs = symbols gs" "fives gs"
    using base32_loop_bits [of "[]" bs] by (auto simp: crockford_base32_encode_def)
  have "vl g < 32" if "g \<in> set gs" for g using gs(2) vl_less [of g] that by (auto simp: fives_def list_all_iff)
  then show ?thesis
    using alphabet_plain unfolding gs(1) compact_copy_code_def symbols_def by (auto simp: filter_id_conv)
qed

lemma compact_code:
  "compact_copy_code (COPY_CODE_PREFIX @ [of_char (CHR ''-'')] @ group_copy_code (crockford_base32_encode bs)) =
     COPY_CODE_PREFIX @ crockford_base32_encode bs"
proof -
  have "compact_copy_code COPY_CODE_PREFIX = COPY_CODE_PREFIX"
    by (simp add: compact_copy_code_def COPY_CODE_PREFIX_def lit_def is_whitespace_def)
  moreover have "compact_copy_code (xs @ ys) = compact_copy_code xs @ compact_copy_code ys" for xs ys
    by (simp add: compact_copy_code_def)
  moreover have "compact_copy_code [of_char (CHR ''-'')] = []"
    by (simp add: compact_copy_code_def)
  ultimately show ?thesis by (simp add: group_copy_code_def compact_group compact_base32 del: append.simps)
qed

text \<open>
  A code typed by hand from a printed one: a letter in either case, the letter O for a zero and the
  letters I and L for a one, blanks and hyphens put in anywhere, and hyphens left out.
\<close>

definition typed_for :: "rchar \<Rightarrow> rchar \<Rightarrow> bool" where
  "typed_for printed c \<longleftrightarrow> c = printed \<or>
     of_char (CHR ''A'') \<le> printed \<and> printed \<le> of_char (CHR ''Z'') \<and> c = printed + 32 \<or>
     printed = of_char (CHR ''0'') \<and> c \<in> {of_char (CHR ''O''), of_char (CHR ''o'')} \<or>
     printed = of_char (CHR ''1'') \<and>
       c \<in> {of_char (CHR ''I''), of_char (CHR ''i''), of_char (CHR ''L''), of_char (CHR ''l'')}"

inductive retyped :: "rstring \<Rightarrow> rstring \<Rightarrow> bool" where
  typed_all: "retyped [] []"
| typed_char: "typed_for d c \<Longrightarrow> retyped v w \<Longrightarrow> retyped (c # v) (d # w)"
| typed_blank: "is_whitespace c \<or> c = of_char (CHR ''-'') \<Longrightarrow> retyped v w \<Longrightarrow> retyped (c # v) w"
| left_out: "retyped v w \<Longrightarrow> retyped v (of_char (CHR ''-'') # w)"

lemma retyped_append: "retyped v w \<Longrightarrow> retyped v' w' \<Longrightarrow> retyped (v @ v') (w @ w')"
  by (induction rule: retyped.induct) (simp_all only: append_Cons append_Nil retyped.intros)

lemma retyped_refl: "retyped v v"
  by (induction v) (auto intro: retyped.intros simp: typed_for_def)

lemma code_char_plain: "48 \<le> c \<Longrightarrow> c \<le> 122 \<Longrightarrow> \<not> is_whitespace c \<and> c \<noteq> of_char (CHR ''-'')"
  by (simp add: is_whitespace_def)

lemma typed_for_range: "typed_for d c \<Longrightarrow> c = d \<or> 48 \<le> c \<and> c \<le> 122 \<and> 48 \<le> d \<and> d \<le> 122"
  by (auto simp: typed_for_def)

lemma typed_for_plain:
  "typed_for d c \<Longrightarrow> (is_whitespace c \<or> c = of_char (CHR ''-'')) = (is_whitespace d \<or> d = of_char (CHR ''-''))"
  using typed_for_range [of d c] code_char_plain [of c] code_char_plain [of d] by auto

lemma typed_for_value: "typed_for d c \<Longrightarrow> crockford_base32_value c = crockford_base32_value d"
proof -
  have "crockford_base32_value 48 = Some 0" "crockford_base32_value 49 = Some 1" by code_simp+
  then show "typed_for d c \<Longrightarrow> ?thesis"
    by (auto simp: typed_for_def crockford_base32_value_def to_ascii_uppercase_def)
qed

lemma typed_for_case: "typed_for d c \<Longrightarrow> d \<notin> {48, 49} \<Longrightarrow> to_ascii_uppercase c = to_ascii_uppercase d"
  by (auto simp: typed_for_def to_ascii_uppercase_def)

lemma retyped_compact: "retyped v w \<Longrightarrow> list_all2 typed_for (compact_copy_code w) (compact_copy_code v)"
proof (induction rule: retyped.induct)
  case (typed_char d c v w)
  then show ?case using typed_for_plain [of d c] by (auto simp: compact_copy_code_def)
next
  case (typed_blank c v w)
  then have "\<not> (\<not> is_whitespace c \<and> c \<noteq> of_char (CHR ''-''))" by blast
  then show ?case using typed_blank.IH by (simp only: compact_copy_code_def filter.simps if_False)
next
  case (left_out v w)
  then show ?case by (simp add: compact_copy_code_def)
qed (simp add: compact_copy_code_def)

lemma decode_loop_values:
  "map crockford_base32_value s = map crockford_base32_value t \<Longrightarrow> base32_decode_loop b n s = base32_decode_loop b n t"
proof (induction s arbitrary: b n t)
  case (Cons c s)
  then obtain d u where "t = d # u" "crockford_base32_value c = crockford_base32_value d"
    "map crockford_base32_value s = map crockford_base32_value u" by (cases t) auto
  then show ?case using Cons.IH by (simp split: option.split prod.split)
qed simp

lemma retyped_decodes:
  assumes "retyped v w" "take 4 (compact_copy_code w) = COPY_CODE_PREFIX"
  shows "decode_mesh_copy_code v = decode_mesh_copy_code w"
proof -
  note r = retyped_compact [OF assms(1)]
  have "list_all2 typed_for (take 4 (compact_copy_code w)) (take 4 (compact_copy_code v))" using r by (rule list_all2_takeI)
  then have "list_all2 typed_for [82, 80, 77, 50] (take 4 (compact_copy_code v))"
    using assms(2) by (simp add: COPY_CODE_PREFIX_def lit_def)
  then have "map to_ascii_uppercase (take 4 (compact_copy_code v)) = map to_ascii_uppercase [82, 80, 77, 50]"
    by (auto simp: list_all2_Cons1 typed_for_case)
  then have "map to_ascii_uppercase (take 4 (compact_copy_code v)) = map to_ascii_uppercase (take 4 (compact_copy_code w))"
    unfolding assms(2) by (simp add: COPY_CODE_PREFIX_def lit_def)
  moreover have "list_all2 typed_for (drop 4 (compact_copy_code w)) (drop 4 (compact_copy_code v))" using r by (rule list_all2_dropI)
  then have "map crockford_base32_value (drop 4 (compact_copy_code v)) = map crockford_base32_value (drop 4 (compact_copy_code w))"
    by (induction rule: list_all2_induct) (simp_all add: typed_for_value)
  ultimately show ?thesis
    using decode_loop_values [of "drop 4 (compact_copy_code v)" "drop 4 (compact_copy_code w)" 0 0]
    by (simp add: decode_mesh_copy_code_def crockford_base32_decode_def Let_def)
qed

lemma read_pushed:
  "length bs \<le> 255 \<Longrightarrow> read_u8_len_bytes (push_u8_len_bytes [] bs @ rest) = Ok (bs, rest)"
  by (simp add: read_u8_len_bytes_def push_u8_len_bytes_def read_u8_def unat_byte)

lemma push_prefix: "push_u8_len_bytes out bs = out @ push_u8_len_bytes [] bs"
  by (simp add: push_u8_len_bytes_def)

definition invite_ok :: "MeshInvite \<Rightarrow> bool" where
  "invite_ok i \<longleftrightarrow> scalars (inv_network_name i) \<and> scalars (inv_network_secret i) \<and>
     trim (inv_network_name i) \<noteq> [] \<and> trim (inv_network_secret i) \<noteq> [] \<and>
     length (as_bytes (inv_network_name i)) \<le> 255 \<and> length (snd (encode_copy_code_secret (inv_network_secret i))) \<le> 255"

lemma decode_content_payload:
  assumes "invite_ok i" "lower_secret (inv_network_secret i)" "encode_copy_code_secret (inv_network_secret i) = (k, bs)"
  shows "decode_content (push_u8_len_bytes (push_u8_len_bytes [MESH_COPY_CODE_VERSION] (as_bytes (inv_network_name i)) @ [k]) bs) = Ok i"
proof -
  let ?n = "push_u8_len_bytes [] (as_bytes (inv_network_name i))" and ?s = "push_u8_len_bytes [] bs"
  have p: "push_u8_len_bytes (push_u8_len_bytes [MESH_COPY_CODE_VERSION] (as_bytes (inv_network_name i)) @ [k]) bs =
      MESH_COPY_CODE_VERSION # ?n @ k # ?s @ []"
    using push_prefix [of "push_u8_len_bytes [MESH_COPY_CODE_VERSION] (as_bytes (inv_network_name i)) @ [k]" bs]
      push_prefix [of "[MESH_COPY_CODE_VERSION]" "as_bytes (inv_network_name i)"] by simp
  note R = read_pushed [of "as_bytes (inv_network_name i)" "k # ?s @ []"] read_pushed [of bs "[]"]
  show ?thesis
    using assms R copy_code_secret_roundtrip [OF _ assms(2,3)]
    unfolding p by (simp add: decode_content_def read_u8_def invite_ok_def from_utf8_as_bytes ok_or_def secret_new_def)
qed

lemma encoded_prefix: "take 4 (compact_copy_code (encode_copy_code i)) = COPY_CODE_PREFIX"
proof -
  have "length COPY_CODE_PREFIX = 4" by (simp add: COPY_CODE_PREFIX_def lit_def)
  then show ?thesis unfolding encode_copy_code_def Let_def case_prod_unfold compact_code by simp
qed

lemma invite_decodes:
  assumes "invite_ok i" "lower_secret (inv_network_secret i)"
  shows "decode_mesh_copy_code (encode_copy_code i) = Ok i"
proof -
  obtain k bs where s: "encode_copy_code_secret (inv_network_secret i) = (k, bs)" by force
  define content where "content = push_u8_len_bytes (push_u8_len_bytes [MESH_COPY_CODE_VERSION] (as_bytes (inv_network_name i)) @ [k]) bs"
  define payload where "payload = content @ to_be 4 (fnv1a32 content)"
  have code: "encode_copy_code i = COPY_CODE_PREFIX @ [of_char (CHR ''-'')] @ group_copy_code (crockford_base32_encode payload)"
    by (simp add: encode_copy_code_def s content_def payload_def Let_def)
  have pre: "map to_ascii_uppercase COPY_CODE_PREFIX = COPY_CODE_PREFIX" "length COPY_CODE_PREFIX = 4" by code_simp+
  have "length content \<ge> 4" by (simp add: content_def push_u8_len_bytes_def)
  moreover have "of_be (to_be 4 (fnv1a32 content)) = fnv1a32 content" by (rule of_be_to_be) simp
  ultimately have "decode_mesh_copy_code (encode_copy_code i) = decode_content content"
    unfolding code decode_mesh_copy_code_def compact_code by (simp add: pre base32_roundtrip payload_def Let_def)
  then show ?thesis using decode_content_payload [OF assms s] by (simp add: content_def)
qed

text \<open>
  C30. An invitation code, typed with letters in either case, O for 0 and I or L for 1, blanks and hyphens
  put in anywhere and hyphens left out, is read back as the invitation it was made from, for every name and secret that fit into
  255 bytes (a hexadecimal secret in lower case, as the program generates them).
\<close>

theorem invite_code_roundtrip:
  assumes "invite_ok i" "lower_secret (inv_network_secret i)" "retyped v (encode_copy_code i)"
  shows "decode_mesh_copy_code v = Ok i"
  using retyped_decodes [OF assms(3) encoded_prefix] invite_decodes [OF assms(1,2)] by simp

text \<open>
  The digits of a hexadecimal secret lose their case: two different secrets have the same invitation
  code, so a device that joins a group with an upper-case hexadecimal secret gets another secret.
\<close>

lemma upper_case_secret_changes:
  "encode_copy_code \<lparr>inv_network_name = n, inv_network_secret = lit ''AB''\<rparr> =
     encode_copy_code \<lparr>inv_network_name = n, inv_network_secret = lit ''ab''\<rparr>"
  by (simp add: encode_copy_code_def encode_copy_code_secret_def decode_hex_bytes_for_copy_code_def lit_def as_bytes_def
      utf8_char_def decode_hex_nibble_def unat_byte)

section \<open>The metadata file\<close>

text \<open>Why stored metadata is refused; the texts of the messages are named, not spelled.\<close>

datatype metadata_fault =
    MissingEquals nat | UnsupportedVersion | MissingKey rstring | HexOddLength | HexNonDigit | HexNotUtf8
  | SecretWithoutConfig | InvalidDeviceName | ConfigurationMissing | NameChanged

definition decode_hex_string :: "rstring \<Rightarrow> (rstring, metadata_fault) result" where
  "decode_hex_string value =
     (let raw = as_bytes value in
      if odd (length raw) then Err HexOddLength
      else case decode_hex_pairs raw of None \<Rightarrow> Err HexNonDigit | Some bs \<Rightarrow> ok_or (from_utf8 bs) HexNotUtf8)"

definition encode_mesh_config_metadata :: "MeshConfig \<Rightarrow> rstring" where
  "encode_mesh_config_metadata c =
     lit ''version=weavelo-device-group-v2'' @ [10] @
     lit ''network_name_hex='' @ hex_bytes (as_bytes (network_name c)) @ [10] @
     lit ''node_id_hex='' @ hex_bytes (as_bytes (node_id c)) @ [10] @
     lit ''display_name_hex='' @ hex_bytes (as_bytes (display_name c)) @ [10]"

text \<open>\<open>str::lines\<close>: pieces that end at a line feed, less a carriage return before it; no empty last piece.\<close>

fun split_lines :: "rstring \<Rightarrow> rstring \<Rightarrow> rstring list" where
  "split_lines acc [] = (if acc = [] then [] else [rev acc])"
| "split_lines acc (c # rest) =
     (if c = 10 then rev (if take 1 acc = [13] then drop 1 acc else acc) # split_lines [] rest
      else split_lines (c # acc) rest)"

definition lines :: "rstring \<Rightarrow> rstring list" where
  "lines s = split_lines [] s"

fun split_once :: "rchar \<Rightarrow> rstring \<Rightarrow> (rstring \<times> rstring) option" where
  "split_once d [] = None"
| "split_once d (c # rest) = (if c = d then Some ([], rest)
     else map_option (\<lambda>(a, b). (c # a, b)) (split_once d rest))"

record metadata_fields =
  mf_version :: "rstring option"
  mf_network_name :: "rstring option"
  mf_node_id :: "rstring option"
  mf_display_name :: "rstring option"

definition metadata_field :: "rstring \<Rightarrow> rstring \<Rightarrow> metadata_fields \<Rightarrow> (metadata_fields, metadata_fault) result" where
  "metadata_field key raw_value f =
     (if key = lit ''version'' then Ok (f\<lparr>mf_version := Some raw_value\<rparr>)
      else if key = lit ''network_name_hex'' then try_bind (decode_hex_string raw_value) (\<lambda>v. Ok (f\<lparr>mf_network_name := Some v\<rparr>))
      else if key = lit ''node_id_hex'' then try_bind (decode_hex_string raw_value) (\<lambda>v. Ok (f\<lparr>mf_node_id := Some v\<rparr>))
      else if key = lit ''display_name_hex'' then try_bind (decode_hex_string raw_value) (\<lambda>v. Ok (f\<lparr>mf_display_name := Some v\<rparr>))
      else Ok f)"

fun metadata_lines :: "nat \<Rightarrow> rstring list \<Rightarrow> metadata_fields \<Rightarrow> (metadata_fields, metadata_fault) result" where
  "metadata_lines idx [] f = Ok f"
| "metadata_lines idx (raw_line # rest) f =
     (let line = trim raw_line in
      if line = [] \<or> take 1 line = lit ''#'' then metadata_lines (idx + 1) rest f
      else case split_once (of_char (CHR ''='')) line of
        None \<Rightarrow> Err (MissingEquals (idx + 1))
      | Some (key, raw_value) \<Rightarrow> try_bind (metadata_field key raw_value f) (metadata_lines (idx + 1) rest))"

definition decode_mesh_config_metadata :: "rstring \<Rightarrow> (MeshConfig, metadata_fault) result" where
  "decode_mesh_config_metadata value =
     try_bind (metadata_lines 0 (lines value) \<lparr>mf_version = None, mf_network_name = None, mf_node_id = None, mf_display_name = None\<rparr>) (\<lambda>f.
     if mf_version f \<noteq> Some (lit ''weavelo-device-group-v2'') \<and> mf_version f \<noteq> Some (lit ''weavelo-mesh-v1'')
     then Err UnsupportedVersion
     else try_bind (ok_or (mf_network_name f) (MissingKey (lit ''network_name_hex''))) (\<lambda>name.
     try_bind (ok_or (mf_node_id f) (MissingKey (lit ''node_id_hex''))) (\<lambda>node.
     try_bind (ok_or (mf_display_name f) (MissingKey (lit ''display_name_hex''))) (\<lambda>display.
     Ok \<lparr>network_name = name, network_secret = lit ''metadata-secret-loaded-separately'', node_id = node, display_name = display\<rparr>))))"

lemma split_lines_piece:
  assumes "10 \<notin> set s" "13 \<notin> set s" "13 \<notin> set acc"
  shows "split_lines acc (s @ 10 # rest) = (rev acc @ s) # split_lines [] rest"
  using assms
proof (induction s arbitrary: acc)
  case Nil
  then have "take 1 acc \<noteq> [13]" by (cases acc) auto
  then show ?case by simp
qed auto

lemma lines_piece: "10 \<notin> set s \<Longrightarrow> 13 \<notin> set s \<Longrightarrow> lines (s @ 10 # rest) = s # lines rest"
  using split_lines_piece [of s "[]" rest] by (simp add: lines_def)

lemma split_once_at: "d \<notin> set a \<Longrightarrow> split_once d (a @ d # b) = Some (a, b)"
  by (induction a) auto

definition plain_key :: "rstring \<Rightarrow> bool" where
  "plain_key k \<longleftrightarrow> k \<noteq> [] \<and> list_all (\<lambda>c. 45 \<le> c \<and> c \<le> 122 \<and> c \<noteq> 61) k"

lemma metadata_line:
  assumes "plain_key k" "list_all (\<lambda>c. 45 \<le> c \<and> c \<le> 122) v"
  shows "metadata_lines n ((k @ 61 # v) # rest) f = try_bind (metadata_field k v f) (metadata_lines (n + 1) rest)"
    "lines ((k @ 61 # v) @ 10 # r) = (k @ 61 # v) # lines r"
proof -
  have pl: "list_all (\<lambda>c. 45 \<le> c \<and> c \<le> 122) (k @ 61 # v)"
    using assms by (auto simp: plain_key_def list_all_iff)
  then have "trim (k @ 61 # v) = k @ 61 # v"
  proof (intro trim_plain, elim list.pred_mono_strong)
    fix c :: rchar assume "45 \<le> c \<and> c \<le> 122"
    then show "\<not> is_whitespace c" by (auto simp: is_whitespace_def)
  qed
  moreover have "take 1 (k @ 61 # v) \<noteq> lit ''#''" using assms(1) by (cases k) (auto simp: plain_key_def lit_def)
  moreover have "split_once 61 (k @ 61 # v) = Some (k, v)"
    using assms(1) by (intro split_once_at) (auto simp: plain_key_def list_all_iff)
  ultimately show "metadata_lines n ((k @ 61 # v) # rest) f = try_bind (metadata_field k v f) (metadata_lines (n + 1) rest)"
    using assms(1) by (simp add: plain_key_def)
  show "lines ((k @ 61 # v) @ 10 # r) = (k @ 61 # v) # lines r"
  proof (rule lines_piece)
    have "c \<in> set (k @ 61 # v) \<Longrightarrow> 45 \<le> c" for c using pl unfolding list_all_iff by blast
    from this [of 10] this [of 13] show "10 \<notin> set (k @ 61 # v)" "13 \<notin> set (k @ 61 # v)" by auto
  qed
qed

lemma hex_bytes_range: "list_all (\<lambda>c. 45 \<le> c \<and> c \<le> 122) (hex_bytes bs)"
proof (induction bs)
  case (Cons b bs)
  have "unat b div 16 < 16" "unat b mod 16 < 16" using byte_lt [of b] by (simp_all add: less_mult_imp_div_less)
  then have "45 \<le> hex_table ! (unat b div 16) \<and> hex_table ! (unat b div 16) \<le> 122"
    "45 \<le> hex_table ! (unat b mod 16) \<and> hex_table ! (unat b mod 16) \<le> 122" using hex_table_nth by fastforce+
  then show ?case using Cons by simp
qed simp

lemma decode_hex_string_hex: "scalars s \<Longrightarrow> decode_hex_string (hex_bytes (as_bytes s)) = Ok s"
  using decode_hex_pairs_hex [of "as_bytes s"]
  by (simp add: decode_hex_string_def Let_def length_as_bytes_ascii [OF hex_bytes_ascii] from_utf8_as_bytes ok_or_def)

lemma encode_as_lines:
  "encode_mesh_config_metadata c =
     (lit ''version'' @ 61 # lit ''weavelo-device-group-v2'') @ 10 #
     (lit ''network_name_hex'' @ 61 # hex_bytes (as_bytes (network_name c))) @ 10 #
     (lit ''node_id_hex'' @ 61 # hex_bytes (as_bytes (node_id c))) @ 10 #
     (lit ''display_name_hex'' @ 61 # hex_bytes (as_bytes (display_name c))) @ 10 # []"
  by (simp add: encode_mesh_config_metadata_def lit_def)

lemma metadata_roundtrip:
  assumes "scalars (network_name c)" "scalars (node_id c)" "scalars (display_name c)"
  shows "decode_mesh_config_metadata (encode_mesh_config_metadata c) =
    Ok (c\<lparr>network_secret := lit ''metadata-secret-loaded-separately''\<rparr>)"
proof -
  have keys: "plain_key (lit ''version'')" "plain_key (lit ''network_name_hex'')" "plain_key (lit ''node_id_hex'')"
    "plain_key (lit ''display_name_hex'')" "list_all (\<lambda>c. 45 \<le> c \<and> c \<le> 122) (lit ''weavelo-device-group-v2'')"
    by (simp_all add: plain_key_def lit_def)
  have diff: "lit ''network_name_hex'' \<noteq> lit ''version''" "lit ''node_id_hex'' \<noteq> lit ''version''"
    "lit ''display_name_hex'' \<noteq> lit ''version''" "lit ''node_id_hex'' \<noteq> lit ''network_name_hex''"
    "lit ''display_name_hex'' \<noteq> lit ''network_name_hex''" "lit ''display_name_hex'' \<noteq> lit ''node_id_hex''"
    by (simp_all add: lit_def)
  note L = metadata_line [OF keys(1,5)] metadata_line [OF keys(2) hex_bytes_range] metadata_line [OF keys(3) hex_bytes_range]
    metadata_line [OF keys(4) hex_bytes_range]
  have nil: "lines [] = []" by (simp add: lines_def)
  show ?thesis
    unfolding decode_mesh_config_metadata_def encode_as_lines L nil
    by (simp add: metadata_field_def diff decode_hex_string_hex assms ok_or_def del: append_Cons append_assoc)
qed

section \<open>Examples\<close>

text \<open>A code read back in lower case.\<close>

definition demo_invite :: MeshInvite where
  "demo_invite = \<lparr>inv_network_name = lit ''g'', inv_network_secret = lit ''ab''\<rparr>"

theorem invite_code_roundtrip_witness:
  "decode_mesh_copy_code (lit ''  rpm2'' @ drop 4 (encode_copy_code demo_invite)) = Ok demo_invite"
proof (rule invite_code_roundtrip)
  have t: "trim (lit ''g'') = lit ''g''" "trim (lit ''ab'') = lit ''ab''"
    by (simp_all add: trim_def trim_start_def lit_def is_whitespace_def)
  show "invite_ok demo_invite"
    unfolding invite_ok_def demo_invite_def MeshInvite.simps t
    by (simp add: lit_def scalars_def scalar_def as_bytes_def utf8_char_def encode_copy_code_secret_def
        decode_hex_bytes_for_copy_code_def decode_hex_nibble_def unat_byte)
  show "lower_secret (inv_network_secret demo_invite)" by (simp add: lower_secret_def demo_invite_def lit_def)
  have pre: "take 4 (encode_copy_code demo_invite) = lit ''RPM2''"
    by (simp add: encode_copy_code_def COPY_CODE_PREFIX_def lit_def Let_def case_prod_unfold)
  have "retyped (lit ''  rpm2'') (lit ''RPM2'')"
    unfolding lit_def list.map
    by (rule typed_blank, simp add: is_whitespace_def, rule typed_blank, simp add: is_whitespace_def)
      (intro typed_char typed_all, simp_all add: typed_for_def)
  from retyped_append [OF this retyped_refl, of "drop 4 (encode_copy_code demo_invite)"]
  show "retyped (lit ''  rpm2'' @ drop 4 (encode_copy_code demo_invite)) (encode_copy_code demo_invite)"
    unfolding pre [symmetric] append_take_drop_id .
qed

end
