(* ===== verification/Socket_Addr.thy ===== *)
theory Socket_Addr
  imports Utf8_Text
begin

text \<open>
  Socket addresses of the standard library, as far as the relay uses them: an address family with the
  address bits and a port.  Flow label and scope of an IPv6 address are left out.
\<close>

datatype IpAddr = V4 u32 | V6 "128 word"

record SocketAddr =
  sa_ip :: IpAddr
  sa_port :: u16

definition is_ipv4 :: "SocketAddr \<Rightarrow> bool" where
  "is_ipv4 a = (case sa_ip a of V4 _ \<Rightarrow> True | V6 _ \<Rightarrow> False)"

definition is_loopback :: "IpAddr \<Rightarrow> bool" where
  "is_loopback ip = (case ip of V4 w \<Rightarrow> drop_bit 24 w = 127 | V6 w \<Rightarrow> w = 1)"

end
