(* ===== verification/Relay_Server.thy ===== *)
theory Relay_Server
  imports Device_Group Socket_Addr Hash_Tables
begin

text \<open>
  The opaque relay (\<open>remote_core/src/relay.rs\<close>): the packet codec, the UDP server with its peer table, the
  TCP and WebSocket server with registrations, bounded writer queues and slow-peer disconnection, and the
  tunnels that carry a local UDP protocol over either.

  Times are numbers of milliseconds passed to the operations that read the clock.  A writer channel of the
  TCP server is named by a number; the table of channels holds what \<open>tokio\<close> keeps behind the handles
  (queued frames, whether the receiver is gone, whether the disconnect flag was raised, whether the
  connection that owns it has ended).  Logging is left
  out.  HMAC-SHA-256 is an argument.
\<close>

section \<open>Configuration\<close>

datatype RelayConfigError = EmptyId string | IdTooLong string nat | InvalidWebSocketUrl rstring

definition MAX_ID_LEN :: nat where "MAX_ID_LEN = 255"
definition MAX_PACKET_LEN :: nat where "MAX_PACKET_LEN = 65535"

definition validate_relay_id :: "string \<Rightarrow> rstring \<Rightarrow> (rstring, RelayConfigError) result" where
  "validate_relay_id field value =
     (let v = trim value; len = length (as_bytes v) in
      if v = [] then Err (EmptyId field) else if len > MAX_ID_LEN then Err (IdTooLong field len) else Ok v)"

text \<open>\<open>str::split_once\<close> at the first occurrence of a pattern.\<close>

fun split_first :: "'a list \<Rightarrow> 'a list \<Rightarrow> ('a list \<times> 'a list) option" where
  "split_first pat [] = (if pat = [] then Some ([], []) else None)"
| "split_first pat (x # xs) =
     (if take (length pat) (x # xs) = pat then Some ([], drop (length pat) (x # xs))
      else map_option (\<lambda>(a, b). (x # a, b)) (split_first pat xs))"

definition starts_with :: "'a list \<Rightarrow> 'a list \<Rightarrow> bool" where
  "starts_with pat xs \<longleftrightarrow> take (length pat) xs = pat"

definition is_ascii_whitespace :: "u8 \<Rightarrow> bool" where
  "is_ascii_whitespace b \<longleftrightarrow> b \<in> {0x09, 0x0A, 0x0C, 0x0D, 0x20}"

definition validate_websocket_relay_url :: "rstring \<Rightarrow> (rstring, RelayConfigError) result" where
  "validate_websocket_relay_url value =
     (let v = trim value;
          scheme_valid = (starts_with (lit ''ws://'') v \<or> starts_with (lit ''wss://'') v);
          authority = (case split_first (lit ''://'') v of Some (_, r) \<Rightarrow> takeWhile (\<lambda>c. c \<noteq> of_char CHR ''/'') r | None \<Rightarrow> [])
      in if v = [] then Err (EmptyId ''relay_url'')
         else if \<not> scheme_valid \<or> authority = [] \<or> list_ex is_ascii_whitespace (as_bytes authority)
         then Err (InvalidWebSocketUrl v) else Ok v)"

definition derive_relay_group_id ::
    "(bytes \<Rightarrow> bytes \<Rightarrow> bytes) \<Rightarrow> rstring \<Rightarrow> rstring \<Rightarrow> rstring \<Rightarrow> (rstring, RelayConfigError) result" where
  "derive_relay_group_id hmac name secret channel =
     try_bind (validate_relay_id ''network_name'' name) (\<lambda>name.
     try_bind (validate_relay_id ''channel'' channel) (\<lambda>channel.
     let secret = trim secret in
     if secret = [] then Err (EmptyId ''network_secret'')
     else Ok (hex_bytes (hmac (as_bytes secret)
       (as_bytes (lit ''remote-play-relay-group-v1'') @ [0] @ as_bytes name @ [0] @ as_bytes channel)))))"

section \<open>Packets\<close>

datatype RelayPacket = RP_Register rstring rstring | RP_Data rstring rstring bytes

definition RELAY_MAGIC :: bytes where "RELAY_MAGIC = [0x52, 0x50, 0x52, 0x31]"
definition REGISTER_PACKET :: u8 where "REGISTER_PACKET = 1"
definition DATA_PACKET :: u8 where "DATA_PACKET = 2"

definition MAX_TCP_FRAME_LEN :: nat where
  "MAX_TCP_FRAME_LEN = length RELAY_MAGIC + 3 + 2 * MAX_ID_LEN + MAX_PACKET_LEN"

definition packet_frame :: "u8 \<Rightarrow> rstring \<Rightarrow> rstring \<Rightarrow> bytes \<Rightarrow> bytes" where
  "packet_frame ty g p payload =
     RELAY_MAGIC @ [ty, byte (length (as_bytes g)), byte (length (as_bytes p))] @ as_bytes g @ as_bytes p @ payload"

definition packet_encode :: "RelayPacket \<Rightarrow> bytes" where
  "packet_encode k = (case k of
     RP_Register g p \<Rightarrow> packet_frame REGISTER_PACKET g p []
   | RP_Data g p payload \<Rightarrow> packet_frame DATA_PACKET g p payload)"

definition packet_decode :: "bytes \<Rightarrow> RelayPacket option" where
  "packet_decode bs =
     (if length bs < length RELAY_MAGIC + 3 \<or> length bs > MAX_TCP_FRAME_LEN \<or> take (length RELAY_MAGIC) bs \<noteq> RELAY_MAGIC then None
      else
        let group_len = unat (bs ! 5); peer_len = unat (bs ! 6);
            group_start = length RELAY_MAGIC + 3;
            peer_start = group_start + group_len;
            payload_start = peer_start + peer_len
        in if payload_start > length bs then None
           else Option.bind (from_utf8 (take group_len (drop group_start bs))) (\<lambda>g.
                Option.bind (from_utf8 (take peer_len (drop peer_start bs))) (\<lambda>p.
                if g = [] \<or> p = [] then None
                else if bs ! 4 = REGISTER_PACKET then
                  if payload_start \<noteq> length bs then None else Some (RP_Register g p)
                else if bs ! 4 = DATA_PACKET then Some (RP_Data g p (drop payload_start bs))
                else None)))"

text \<open>Frames on a byte stream.\<close>

definition write_tcp_frame :: "bytes \<Rightarrow> bytes option" where
  "write_tcp_frame frame =
     (if length frame > MAX_TCP_FRAME_LEN then None else Some (to_be 4 (word_of_nat (length frame) :: u32) @ frame))"

text \<open>What a read does on the bytes that arrived: it waits, fails, or returns a frame and the bytes left.\<close>

datatype FrameRead = FrameWaits | FrameTooLarge nat | FrameRead bytes bytes

definition read_tcp_frame :: "bytes \<Rightarrow> FrameRead" where
  "read_tcp_frame bs =
     (if length bs < 4 then FrameWaits
      else let len = unat (of_be (take 4 bs) :: u32) in
        if len > MAX_TCP_FRAME_LEN then FrameTooLarge len
        else if length bs < 4 + len then FrameWaits
        else FrameRead (take len (drop 4 bs)) (drop (4 + len) bs))"

section \<open>The UDP server\<close>

type_synonym RelayPeerKey = "rstring \<times> rstring"

record RelayPeerTable =
  rt_ttl :: nat
  rt_peers :: "(RelayPeerKey \<times> (SocketAddr \<times> nat)) list"

definition table_new :: "nat \<Rightarrow> RelayPeerTable" where
  "table_new ttl = \<lparr>rt_ttl = ttl, rt_peers = []\<rparr>"

definition table_register :: "nat \<Rightarrow> rstring \<Rightarrow> rstring \<Rightarrow> SocketAddr \<Rightarrow> RelayPeerTable \<Rightarrow> RelayPeerTable" where
  "table_register now g p addr t = t\<lparr>rt_peers := AList.update (g, p) (addr, now) (rt_peers t)\<rparr>"

definition forward_targets :: "rstring \<Rightarrow> SocketAddr \<Rightarrow> RelayPeerTable \<Rightarrow> SocketAddr list" where
  "forward_targets g source t = map (\<lambda>(_, a, _). a) (filter (\<lambda>((g', _), a, _). g' = g \<and> a \<noteq> source) (rt_peers t))"

definition prune_expired :: "nat \<Rightarrow> RelayPeerTable \<Rightarrow> RelayPeerTable" where
  "prune_expired now t = t\<lparr>rt_peers := filter (\<lambda>(_, _, seen). now - seen \<le> rt_ttl t) (rt_peers t)\<rparr>"

text \<open>One datagram at the server, and the datagrams it sends.\<close>

definition udp_server_receive :: "nat \<Rightarrow> SocketAddr \<Rightarrow> bytes \<Rightarrow> RelayPeerTable \<Rightarrow> RelayPeerTable \<times> (SocketAddr \<times> bytes) list" where
  "udp_server_receive now addr bs t =
     (let t = prune_expired now t in
      case packet_decode bs of
        None \<Rightarrow> (t, [])
      | Some (RP_Register g p) \<Rightarrow> (table_register now g p addr t, [])
      | Some (RP_Data g p payload) \<Rightarrow>
        let t = table_register now g p addr t in
        (t, map (\<lambda>target. (target, packet_encode (RP_Data g p payload))) (forward_targets g addr t)))"

section \<open>The tunnel\<close>

record Tunnel =
  tn_relay :: SocketAddr
  tn_group :: rstring
  tn_peer :: rstring
  tn_target :: "SocketAddr option"

definition udp_tunnel_new :: "SocketAddr \<Rightarrow> rstring \<Rightarrow> rstring \<Rightarrow> (Tunnel, RelayConfigError) result" where
  "udp_tunnel_new relay g p =
     try_bind (validate_relay_id ''group_id'' g) (\<lambda>g. try_bind (validate_relay_id ''peer_id'' p) (\<lambda>p.
     Ok \<lparr>tn_relay = relay, tn_group = g, tn_peer = p, tn_target = None\<rparr>))"

definition tunnel_register :: "Tunnel \<Rightarrow> SocketAddr \<times> bytes" where
  "tunnel_register t = (tn_relay t, packet_encode (RP_Register (tn_group t) (tn_peer t)))"

text \<open>One datagram at the tunnel's socket, from the relay or from a local program.\<close>

definition udp_tunnel_receive :: "SocketAddr \<Rightarrow> bytes \<Rightarrow> Tunnel \<Rightarrow> Tunnel \<times> (SocketAddr \<times> bytes) list" where
  "udp_tunnel_receive addr bs t =
     (if addr = tn_relay t then
        (t, case packet_decode bs of
              Some (RP_Data _ _ payload) \<Rightarrow> (case tn_target t of Some target \<Rightarrow> [(target, payload)] | None \<Rightarrow> [])
            | _ \<Rightarrow> [])
      else (t\<lparr>tn_target := Some addr\<rparr>, [(tn_relay t, packet_encode (RP_Data (tn_group t) (tn_peer t) bs))]))"

text \<open>The tunnel over a TCP connection: a frame from the relay, and a datagram from a local program.\<close>

definition tcp_tunnel_frame :: "bytes \<Rightarrow> Tunnel \<Rightarrow> (SocketAddr \<times> bytes) list" where
  "tcp_tunnel_frame frame t =
     (case packet_decode frame of
        Some (RP_Data _ _ payload) \<Rightarrow> (case tn_target t of Some target \<Rightarrow> [(target, payload)] | None \<Rightarrow> [])
      | _ \<Rightarrow> [])"

definition tcp_tunnel_datagram :: "SocketAddr \<Rightarrow> bytes \<Rightarrow> Tunnel \<Rightarrow> Tunnel \<times> bytes option" where
  "tcp_tunnel_datagram addr bs t =
     (t\<lparr>tn_target := Some addr\<rparr>, write_tcp_frame (packet_encode (RP_Data (tn_group t) (tn_peer t) bs)))"

section \<open>The TCP and WebSocket server\<close>

record Chan =
  ch_id :: u64
  ch_queue :: "bytes list"
  ch_closed :: bool
  ch_disconnect :: bool
  ch_ended :: bool

record TcpRelayPeerState =
  ps_connection :: u64
  ps_chan :: nat

record TcpRelayServerState =
  rs_next :: u64
  rs_peers :: "(RelayPeerKey \<times> TcpRelayPeerState) list"
  rs_identities :: "(u64 \<times> RelayPeerKey) list"
  rs_chans :: "Chan list"

record TcpRelayServerConfig =
  rc_max_connections :: nat
  rc_max_peers :: nat
  rc_queue :: nat

datatype RelayRegistrationError = ConnectionIdentityChanged | GroupPeerLimitReached

definition server_default :: TcpRelayServerState where
  "server_default = \<lparr>rs_next = 0, rs_peers = [], rs_identities = [], rs_chans = []\<rparr>"

text \<open>\<open>with_limits\<close>: every limit is at least one.\<close>

definition with_limits :: "nat \<Rightarrow> nat \<Rightarrow> nat \<Rightarrow> TcpRelayServerConfig" where
  "with_limits conns peers queue = \<lparr>rc_max_connections = max conns 1, rc_max_peers = max peers 1, rc_queue = max queue 1\<rparr>"

definition next_connection_id :: "TcpRelayServerState \<Rightarrow> u64 \<times> TcpRelayServerState" where
  "next_connection_id s = (let n = max (rs_next s + 1) 1 in (n, s\<lparr>rs_next := n\<rparr>))"

definition raise_disconnect :: "nat \<Rightarrow> TcpRelayServerState \<Rightarrow> TcpRelayServerState" where
  "raise_disconnect ch s = s\<lparr>rs_chans := (rs_chans s)[ch := (rs_chans s ! ch)\<lparr>ch_disconnect := True\<rparr>]\<rparr>"

definition server_register :: "RelayPeerKey \<Rightarrow> u64 \<Rightarrow> nat \<Rightarrow> nat \<Rightarrow> TcpRelayServerState \<Rightarrow>
    TcpRelayServerState \<times> (unit, RelayRegistrationError) result" where
  "server_register key connection_id chan max_peers s =
     (case map_of (rs_identities s) connection_id of
        Some existing \<Rightarrow> (s, if existing = key then Ok () else Err ConnectionIdentityChanged)
      | None \<Rightarrow>
        let existing = map_of (rs_peers s) key;
            group_count = length (filter (\<lambda>((g, _), _). g = fst key) (rs_peers s))
        in if existing = None \<and> group_count \<ge> max_peers then (s, Err GroupPeerLimitReached)
           else
             let s1 = (case existing of
                   None \<Rightarrow> s
                 | Some peer \<Rightarrow> (raise_disconnect (ps_chan peer) s)\<lparr>rs_peers := AList.delete key (rs_peers s),
                     rs_identities := AList.delete (ps_connection peer) (rs_identities s)\<rparr>)
             in (s1\<lparr>rs_identities := AList.update connection_id key (rs_identities s1),
                   rs_peers := AList.update key \<lparr>ps_connection = connection_id, ps_chan = chan\<rparr> (rs_peers s1)\<rparr>, Ok ()))"

definition remove_connection :: "u64 \<Rightarrow> TcpRelayServerState \<Rightarrow> TcpRelayServerState" where
  "remove_connection c s = s\<lparr>rs_identities := AList.delete c (rs_identities s),
     rs_peers := filter (\<lambda>(_, peer). ps_connection peer \<noteq> c) (rs_peers s)\<rparr>"

datatype SendOutcome = Sent | QueueFull | QueueClosed

definition try_send :: "nat \<Rightarrow> nat \<Rightarrow> bytes \<Rightarrow> TcpRelayServerState \<Rightarrow> TcpRelayServerState \<times> SendOutcome" where
  "try_send capacity ch frame s =
     (let c = rs_chans s ! ch in
      if ch_closed c then (s, QueueClosed)
      else if length (ch_queue c) \<ge> capacity then (s, QueueFull)
      else (s\<lparr>rs_chans := (rs_chans s)[ch := c\<lparr>ch_queue := ch_queue c @ [frame]\<rparr>]\<rparr>, Sent))"

text \<open>The loop over the targets: the new state, the channels written to, and the connections that failed.\<close>

fun forward_loop :: "nat \<Rightarrow> bytes \<Rightarrow> TcpRelayPeerState list \<Rightarrow> TcpRelayServerState \<Rightarrow>
    TcpRelayServerState \<times> nat list \<times> u64 list" where
  "forward_loop capacity frame [] s = (s, [], [])"
| "forward_loop capacity frame (p # ps) s =
     (case try_send capacity (ps_chan p) frame s of
        (s', Sent) \<Rightarrow> (case forward_loop capacity frame ps s' of (s'', sent, failed) \<Rightarrow> (s'', ps_chan p # sent, failed))
      | (s', QueueFull) \<Rightarrow> (case forward_loop capacity frame ps (raise_disconnect (ps_chan p) s') of
          (s'', sent, failed) \<Rightarrow> (s'', sent, ps_connection p # failed))
      | (s', QueueClosed) \<Rightarrow> (case forward_loop capacity frame ps s' of
          (s'', sent, failed) \<Rightarrow> (s'', sent, ps_connection p # failed)))"

definition forward_frame :: "nat \<Rightarrow> rstring \<Rightarrow> u64 \<Rightarrow> bytes \<Rightarrow> TcpRelayServerState \<Rightarrow> TcpRelayServerState \<times> nat list" where
  "forward_frame capacity g source frame s =
     (let targets = map snd (filter (\<lambda>((g', _), p). g' = g \<and> ps_connection p \<noteq> source) (rs_peers s)) in
      case forward_loop capacity frame targets s of
        (s', sent, failed) \<Rightarrow> (fold remove_connection failed s', sent))"

datatype RelayIoError = RegistrationRejected RelayRegistrationError | BeforeRegistration | IdentityMismatch | InvalidPacket

text \<open>\<open>handle_tcp_relay_packet\<close>, which the loop of the TCP connection repeats word for word.  Beside the result
  it returns the frames put on other connections' channels.\<close>

definition handle_tcp_relay_packet :: "TcpRelayServerConfig \<Rightarrow> nat \<Rightarrow> u64 \<Rightarrow> bytes \<Rightarrow> TcpRelayServerState \<Rightarrow>
    TcpRelayServerState \<times> (nat \<times> bytes) list \<times> (unit, RelayIoError) result" where
  "handle_tcp_relay_packet cfg chan connection_id frame s =
     (case packet_decode frame of
        None \<Rightarrow> (s, [], Err InvalidPacket)
      | Some (RP_Register g p) \<Rightarrow> (case server_register (g, p) connection_id chan (rc_max_peers cfg) s of
          (s', r) \<Rightarrow> (s', [], map_err RegistrationRejected r))
      | Some (RP_Data g p payload) \<Rightarrow> (case map_of (rs_identities s) connection_id of
          None \<Rightarrow> (s, [], Err BeforeRegistration)
        | Some ident \<Rightarrow>
          if fst ident \<noteq> g \<or> snd ident \<noteq> p then (s, [], Err IdentityMismatch)
          else let encoded = packet_encode (RP_Data g p payload) in
            case forward_frame (rc_queue cfg) g connection_id encoded s of
              (s', sent) \<Rightarrow> (s', map (\<lambda>c. (c, encoded)) sent, Ok ())))"

text \<open>The end of a connection: it is removed and its writer is dropped, with the frames it had queued.\<close>

definition connection_ends :: "nat \<Rightarrow> TcpRelayServerState \<Rightarrow> TcpRelayServerState" where
  "connection_ends ch s =
     (let s' = remove_connection (ch_id (rs_chans s ! ch)) s in
      s'\<lparr>rs_chans := (rs_chans s')[ch := (rs_chans s' ! ch)\<lparr>ch_closed := True, ch_queue := [], ch_ended := True\<rparr>]\<rparr>)"

text \<open>What happens at the server: a connection is accepted, a frame arrives, a connection ends (closed, idle,
  too slow), the writer sends the oldest queued frame or fails and drops its queue.\<close>

datatype TcpEvent = TAccept | TFrame nat bytes | TEnds nat | TWrites nat | TWriterFails nat

definition open_chan :: "TcpRelayServerState \<Rightarrow> nat \<Rightarrow> bool" where
  "open_chan s ch \<longleftrightarrow> ch < length (rs_chans s) \<and> \<not> ch_ended (rs_chans s ! ch)"

definition accept_connection :: "TcpRelayServerConfig \<Rightarrow> TcpRelayServerState \<Rightarrow> TcpRelayServerState" where
  "accept_connection cfg s =
     (if length (filter (\<lambda>c. \<not> ch_ended c) (rs_chans s)) \<ge> rc_max_connections cfg then s
      else case next_connection_id s of
        (n, s') \<Rightarrow> s'\<lparr>rs_chans := rs_chans s' @ [\<lparr>ch_id = n, ch_queue = [], ch_closed = False, ch_disconnect = False, ch_ended = False\<rparr>]\<rparr>)"

definition tcp_step :: "TcpRelayServerConfig \<Rightarrow> TcpRelayServerState \<Rightarrow> TcpEvent \<Rightarrow> TcpRelayServerState \<times> (nat \<times> bytes) list" where
  "tcp_step cfg s e = (case e of
     TAccept \<Rightarrow> (accept_connection cfg s, [])
   | TFrame ch frame \<Rightarrow>
     if \<not> open_chan s ch then (s, [])
     else (case handle_tcp_relay_packet cfg ch (ch_id (rs_chans s ! ch)) frame s of
       (s', sent, Inr _) \<Rightarrow> (s', sent)
     | (s', _, Inl _) \<Rightarrow> (connection_ends ch s', []))
   | TEnds ch \<Rightarrow> if \<not> open_chan s ch then (s, []) else (connection_ends ch s, [])
   | TWrites ch \<Rightarrow>
     if \<not> open_chan s ch then (s, [])
     else (s\<lparr>rs_chans := (rs_chans s)[ch := (rs_chans s ! ch)\<lparr>ch_queue := drop 1 (ch_queue (rs_chans s ! ch))\<rparr>]\<rparr>, [])
   | TWriterFails ch \<Rightarrow>
     if \<not> open_chan s ch then (s, [])
     else (s\<lparr>rs_chans := (rs_chans s)[ch := (rs_chans s ! ch)\<lparr>ch_queue := [], ch_closed := True\<rparr>]\<rparr>, []))"

section \<open>The codec is exact\<close>

lemma frame_decode:
  assumes "scalars g" "scalars p" "g \<noteq> []" "p \<noteq> []" "length (as_bytes g) \<le> MAX_ID_LEN" "length (as_bytes p) \<le> MAX_ID_LEN"
    "length payload \<le> MAX_PACKET_LEN"
  shows "packet_decode (packet_frame ty g p payload) =
    (if ty = REGISTER_PACKET then if payload = [] then Some (RP_Register g p) else None
     else if ty = DATA_PACKET then Some (RP_Data g p payload) else None)"
proof -
  have u: "unat (byte (length (as_bytes x))) = length (as_bytes x)" if "length (as_bytes x) \<le> MAX_ID_LEN" for x
    using that by (simp add: unat_byte MAX_ID_LEN_def)
  let ?a = "length (as_bytes g)" and ?b = "length (as_bytes p)"
  let ?h = "RELAY_MAGIC @ [ty, byte ?a, byte ?b]" and ?f = "packet_frame ty g p payload"
  have f: "?f = ?h @ as_bytes g @ as_bytes p @ payload" by (simp add: packet_frame_def)
  have h: "length ?h = 7" "length RELAY_MAGIC = 4" by (simp_all add: RELAY_MAGIC_def)
  have n: "?f ! 4 = ty" "?f ! 5 = byte ?a" "?f ! 6 = byte ?b" "take 4 ?f = RELAY_MAGIC"
    unfolding packet_frame_def RELAY_MAGIC_def by simp_all
  have d7: "drop 7 ?f = as_bytes g @ as_bytes p @ payload" unfolding f using h(1) by (metis append_eq_conv_conj)
  moreover have "drop (7 + ?a) ?f = drop ?a (drop 7 ?f)" by (simp only: drop_drop add.commute [of 7 ?a])
  moreover have "drop (7 + ?a + ?b) ?f = drop ?b (drop (7 + ?a) ?f)" by (simp only: drop_drop add.commute [of "7 + ?a" ?b])
  ultimately have d: "take ?a (drop 7 ?f) = as_bytes g" "take ?b (drop (7 + ?a) ?f) = as_bytes p" "drop (7 + ?a + ?b) ?f = payload"
    by simp_all
  have l: "length ?f = 7 + ?a + ?b + length payload" unfolding f using h(1) by simp
  have ok: "\<not> (length ?f < 7 \<or> length ?f > MAX_TCP_FRAME_LEN \<or> take 4 ?f \<noteq> RELAY_MAGIC)" "\<not> 7 + ?a + ?b > length ?f"
    using assms(5-7) by (simp_all add: l n MAX_TCP_FRAME_LEN_def h(2))
  have seven: "4 + 3 = (7 :: nat)" by simp
  show ?thesis
    unfolding packet_decode_def h(2) n(1-3) Let_def u [OF assms(5)] u [OF assms(6)] seven d from_utf8_as_bytes [OF assms(1)] from_utf8_as_bytes [OF assms(2)]
      if_not_P [OF ok(1)] if_not_P [OF ok(2)] bind.bind_lunit
    unfolding l using assms(3,4) by auto
qed

definition packet_ok :: "RelayPacket \<Rightarrow> bool" where
  "packet_ok k = (case k of
     RP_Register g p \<Rightarrow> scalars g \<and> scalars p \<and> g \<noteq> [] \<and> p \<noteq> [] \<and> length (as_bytes g) \<le> MAX_ID_LEN \<and> length (as_bytes p) \<le> MAX_ID_LEN
   | RP_Data g p b \<Rightarrow> scalars g \<and> scalars p \<and> g \<noteq> [] \<and> p \<noteq> [] \<and> length (as_bytes g) \<le> MAX_ID_LEN \<and> length (as_bytes p) \<le> MAX_ID_LEN \<and>
       length b \<le> MAX_PACKET_LEN)"

lemma decode_encode: "packet_ok k \<Longrightarrow> packet_decode (packet_encode k) = Some k"
  by (cases k) (simp_all add: packet_ok_def packet_encode_def frame_decode REGISTER_PACKET_def DATA_PACKET_def)

lemma encode_decode:
  assumes "packet_decode bs = Some k"
  shows "packet_encode k = bs"
proof -
  have magic: "length RELAY_MAGIC = 4" by (simp add: RELAY_MAGIC_def)
  let ?n = "7 + unat (bs ! 5) + unat (bs ! 6)"
  obtain g p where d: "7 \<le> length bs" "take 4 bs = RELAY_MAGIC" "?n \<le> length bs"
      "from_utf8 (take (unat (bs ! 5)) (drop 7 bs)) = Some g" "from_utf8 (take (unat (bs ! 6)) (drop (7 + unat (bs ! 5)) bs)) = Some p"
    and k: "bs ! 4 = REGISTER_PACKET \<and> ?n = length bs \<and> k = RP_Register g p \<or> bs ! 4 = DATA_PACKET \<and> k = RP_Data g p (drop ?n bs)"
    using assms unfolding packet_decode_def magic
    by (auto simp: Let_def bind_eq_Some_conv split: if_splits)
  have g: "as_bytes g = take (unat (bs ! 5)) (drop 7 bs)" "as_bytes p = take (unat (bs ! 6)) (drop (7 + unat (bs ! 5)) bs)"
    using as_bytes_from_utf8 [OF d(4)] as_bytes_from_utf8 [OF d(5)] by simp_all
  have l: "length (as_bytes g) = unat (bs ! 5)" "length (as_bytes p) = unat (bs ! 6)" unfolding g using d(3) by simp_all
  have "take 7 bs = take 4 bs @ [bs ! 4, bs ! 5, bs ! 6]" using d(1) by (simp add: take_Suc_conv_app_nth eval_nat_numeral)
  then have h: "bs = take 4 bs @ [bs ! 4, bs ! 5, bs ! 6] @ drop 7 bs" by (metis append.assoc append_take_drop_id)
  have t: "drop 7 bs = as_bytes g @ as_bytes p @ drop ?n bs"
  proof -
    have "drop 7 bs = take (unat (bs ! 5)) (drop 7 bs) @ drop (unat (bs ! 5)) (drop 7 bs)" by (rule append_take_drop_id [symmetric])
    also have "drop (unat (bs ! 5)) (drop 7 bs) = drop (7 + unat (bs ! 5)) bs" by (simp only: drop_drop add.commute [of 7])
    also have "drop (7 + unat (bs ! 5)) bs = take (unat (bs ! 6)) (drop (7 + unat (bs ! 5)) bs) @ drop (unat (bs ! 6)) (drop (7 + unat (bs ! 5)) bs)"
      by (rule append_take_drop_id [symmetric])
    also have "drop (unat (bs ! 6)) (drop (7 + unat (bs ! 5)) bs) = drop ?n bs" by (simp only: drop_drop add.commute [of _ "unat (bs ! 6)"])
    finally show ?thesis unfolding g .
  qed
  have "packet_frame (bs ! 4) g p (drop ?n bs) = bs"
    unfolding packet_frame_def l byte_unat d(2) [symmetric] using h t by simp
  then show ?thesis using k by (auto simp: packet_encode_def)
qed

lemma frame_read_back:
  assumes "write_tcp_frame frame = Some bs"
  shows "read_tcp_frame (bs @ rest) = FrameRead frame rest"
proof -
  have len: "length frame \<le> MAX_TCP_FRAME_LEN" and bs: "bs = to_be 4 (word_of_nat (length frame) :: u32) @ frame"
    using assms by (auto simp: write_tcp_frame_def split: if_splits)
  have "length frame < 2 ^ 32" using len by (simp add: MAX_TCP_FRAME_LEN_def RELAY_MAGIC_def MAX_ID_LEN_def MAX_PACKET_LEN_def)
  then have "unat (word_of_nat (length frame) :: u32) = length frame" by (simp add: unat_of_nat)
  then show ?thesis using len unfolding read_tcp_frame_def bs by (simp add: Let_def be_dec_enc length_to_be)
qed

section \<open>A datagram through the relay\<close>

lemma forward_targets_in: "a \<in> set (forward_targets g source t) \<longleftrightarrow> (\<exists>p seen. ((g, p), a, seen) \<in> set (rt_peers t) \<and> a \<noteq> source)"
  by (force simp: forward_targets_def)

lemma table_registered:
  assumes "hash_wf (rt_peers t)" "map_of (rt_peers t) k = Some (a, seen)" "now - seen \<le> rt_ttl t" "k \<noteq> (g, p)"
  shows "map_of (rt_peers (table_register now g p addr (prune_expired now t))) k = Some (a, seen)"
proof -
  have "(\<lambda>(_ :: RelayPeerKey, _ :: SocketAddr, seen). now - seen \<le> rt_ttl t) = (\<lambda>(_, s). now - snd s \<le> rt_ttl t)" by auto
  then show ?thesis using assms map_of_kept [OF assms(1), of "\<lambda>s. now - snd s \<le> rt_ttl t" k]
    by (simp add: table_register_def prune_expired_def map_of_AList)
qed

text \<open>
  The tunnel is transparent.  A datagram a local program hands to one tunnel comes out of every other
  registered tunnel of its group, unchanged and once, at the program that tunnel serves; the relay sends it
  to members of the group only and never back to its sender.
\<close>

theorem relay_tunnel_delivers:
  assumes "packet_ok (RP_Data (tn_group a) (tn_peer a) payload)" "tn_group b = tn_group a" "tn_peer b \<noteq> tn_peer a"
    and "src \<noteq> tn_relay a" "tn_target b = Some target"
    and "hash_wf (rt_peers t)" "map_of (rt_peers t) (tn_group b, tn_peer b) = Some (addr_b, seen)" "now - seen \<le> rt_ttl t" "addr_b \<noteq> addr_a"
  shows "\<exists>a' packet t' sent. udp_tunnel_receive src payload a = (a', [(tn_relay a, packet)]) \<and> tn_target a' = Some src \<and>
    udp_server_receive now addr_a packet t = (t', sent) \<and> (addr_b, packet) \<in> set sent \<and>
    udp_tunnel_receive (tn_relay b) packet b = (b, [(target, payload)]) \<and>
    (\<forall>x q. (x, q) \<in> set sent \<longrightarrow> q = packet \<and> x \<noteq> addr_a \<and> (\<exists>p s. map_of (rt_peers t') (tn_group a, p) = Some (x, s)))"
proof -
  let ?k = "RP_Data (tn_group a) (tn_peer a) payload"
  let ?t = "table_register now (tn_group a) (tn_peer a) addr_a (prune_expired now t)"
  note dec = decode_encode [OF assms(1)]
  have wf: "hash_wf (rt_peers ?t)" using assms(6) by (simp add: table_register_def prune_expired_def hash_wf_ops)
  have "map_of (rt_peers ?t) (tn_group b, tn_peer b) = Some (addr_b, seen)"
    by (rule table_registered) (use assms in auto)
  then have "addr_b \<in> set (forward_targets (tn_group a) addr_a ?t)"
    unfolding forward_targets_in using wf assms(2,9) by (auto simp: hash_wf_mem)
  moreover have "\<exists>p s. map_of (rt_peers ?t) (tn_group a, p) = Some (x, s)" "x \<noteq> addr_a" if "x \<in> set (forward_targets (tn_group a) addr_a ?t)" for x
    using that wf unfolding forward_targets_in by (auto simp: hash_wf_mem)
  ultimately show ?thesis using assms(4,5)
    by (auto simp: udp_tunnel_receive_def udp_server_receive_def dec Let_def)
qed

section \<open>Registrations\<close>

definition chan_ok :: "nat \<Rightarrow> TcpRelayServerState \<Rightarrow> nat \<Rightarrow> bool" where
  "chan_ok capacity s i \<longleftrightarrow> ch_id (rs_chans s ! i) = word_of_nat (Suc i) \<and> length (ch_queue (rs_chans s ! i)) \<le> capacity"

definition group_size :: "rstring \<Rightarrow> TcpRelayServerState \<Rightarrow> nat" where
  "group_size g s = length (filter (\<lambda>((g', _), _). g' = g) (rs_peers s))"

text \<open>Registrations and identities are two views of one table, every registered channel is open and carries the
  identifier of its connection, no queue and no group exceeds its limit.\<close>

definition server_ok :: "TcpRelayServerConfig \<Rightarrow> TcpRelayServerState \<Rightarrow> bool" where
  "server_ok cfg s \<longleftrightarrow> hash_wf (rs_peers s) \<and> hash_wf (rs_identities s) \<and> rs_next s = word_of_nat (length (rs_chans s)) \<and>
     (\<forall>i < length (rs_chans s). chan_ok (rc_queue cfg) s i) \<and>
     (\<forall>k p. map_of (rs_peers s) k = Some p \<longrightarrow> map_of (rs_identities s) (ps_connection p) = Some k \<and> open_chan s (ps_chan p) \<and>
        ch_id (rs_chans s ! ps_chan p) = ps_connection p) \<and>
     (\<forall>c k. map_of (rs_identities s) c = Some k \<longrightarrow> (\<exists>p. map_of (rs_peers s) k = Some p \<and> ps_connection p = c)) \<and>
     (\<forall>g. group_size g s \<le> rc_max_peers cfg)"

lemma server_okI:
  assumes "hash_wf (rs_peers s)" "hash_wf (rs_identities s)" "rs_next s = word_of_nat (length (rs_chans s))"
    and "\<And>i. i < length (rs_chans s) \<Longrightarrow> chan_ok (rc_queue cfg) s i"
    and "\<And>k p. map_of (rs_peers s) k = Some p \<Longrightarrow> map_of (rs_identities s) (ps_connection p) = Some k \<and> open_chan s (ps_chan p) \<and>
        ch_id (rs_chans s ! ps_chan p) = ps_connection p"
    and "\<And>c k. map_of (rs_identities s) c = Some k \<Longrightarrow> \<exists>p. map_of (rs_peers s) k = Some p \<and> ps_connection p = c"
    and "\<And>g. group_size g s \<le> rc_max_peers cfg"
  shows "server_ok cfg s"
  using assms unfolding server_ok_def by blast

lemma server_okD:
  assumes "server_ok cfg s"
  shows "hash_wf (rs_peers s)" "hash_wf (rs_identities s)" "rs_next s = word_of_nat (length (rs_chans s))"
    and "i < length (rs_chans s) \<Longrightarrow> chan_ok (rc_queue cfg) s i"
    and "map_of (rs_peers s) k = Some p \<Longrightarrow> map_of (rs_identities s) (ps_connection p) = Some k \<and> open_chan s (ps_chan p) \<and>
        ch_id (rs_chans s ! ps_chan p) = ps_connection p"
    and "map_of (rs_identities s) c = Some k \<Longrightarrow> \<exists>p. map_of (rs_peers s) k = Some p \<and> ps_connection p = c"
    and "group_size g s \<le> rc_max_peers cfg"
  using assms unfolding server_ok_def by blast+

lemma server_default_ok: "server_ok cfg server_default"
  by (simp add: server_ok_def server_default_def hash_wf_def group_size_def)

text \<open>A change of channels that keeps their number, identifiers and bounds.\<close>

definition chans_like :: "nat \<Rightarrow> TcpRelayServerState \<Rightarrow> TcpRelayServerState \<Rightarrow> bool" where
  "chans_like capacity s s' \<longleftrightarrow> rs_peers s' = rs_peers s \<and> rs_identities s' = rs_identities s \<and> rs_next s' = rs_next s \<and>
     length (rs_chans s') = length (rs_chans s) \<and>
     (\<forall>i < length (rs_chans s). ch_id (rs_chans s' ! i) = ch_id (rs_chans s ! i) \<and> ch_ended (rs_chans s' ! i) = ch_ended (rs_chans s ! i) \<and>
        (length (ch_queue (rs_chans s ! i)) \<le> capacity \<longrightarrow> length (ch_queue (rs_chans s' ! i)) \<le> capacity))"

lemma chans_like_refl: "chans_like n s s"
  by (simp add: chans_like_def)

lemma chans_like_trans: "chans_like n s s' \<Longrightarrow> chans_like n s' s'' \<Longrightarrow> chans_like n s s''"
  unfolding chans_like_def by simp

lemma chans_like_ok: "chans_like (rc_queue cfg) s s' \<Longrightarrow> server_ok cfg s \<Longrightarrow> server_ok cfg s'"
  unfolding server_ok_def chans_like_def chan_ok_def open_chan_def group_size_def
  by (elim conjE, intro conjI) (simp_all, metis+)

lemma chans_like_update:
  "ch_id c = ch_id (rs_chans s ! ch) \<Longrightarrow> ch_ended c = ch_ended (rs_chans s ! ch) \<Longrightarrow>
   (length (ch_queue (rs_chans s ! ch)) \<le> n \<longrightarrow> length (ch_queue c) \<le> n) \<Longrightarrow> chans_like n s (s\<lparr>rs_chans := (rs_chans s)[ch := c]\<rparr>)"
  by (cases "ch < length (rs_chans s)") (simp_all add: chans_like_def nth_list_update)

lemma raise_like: "chans_like n s (raise_disconnect ch s)"
  unfolding raise_disconnect_def by (rule chans_like_update) simp_all

lemma send_like: "chans_like n s (fst (try_send n ch frame s))"
  by (auto simp: try_send_def Let_def chans_like_refl intro: chans_like_update)

lemma forward_loop_like: "chans_like n s (fst (forward_loop n frame ps s))"
proof (induction ps arbitrary: s)
  case (Cons p ps)
  let ?s = "fst (try_send n (ps_chan p) frame s)"
  have "chans_like n s ?s" by (rule send_like)
  then show ?case
    using Cons.IH [of ?s] Cons.IH [of "raise_disconnect (ps_chan p) ?s"] raise_like [of n ?s "ps_chan p"]
    by (auto simp: case_prod_beta split: prod.splits SendOutcome.splits intro: chans_like_trans)
qed (simp add: chans_like_refl)

lemma length_filter_twice: "length (filter P (filter Q xs)) \<le> length (filter P xs)"
  by (induction xs) auto

lemma remove_connection_ok:
  assumes "server_ok cfg s"
  shows "server_ok cfg (remove_connection c s)"
proof -
  have wf: "hash_wf (rs_peers s)" "hash_wf (rs_identities s)" using assms by (simp_all add: server_ok_def)
  have p: "map_of (rs_peers (remove_connection c s)) k = Some p \<longleftrightarrow> map_of (rs_peers s) k = Some p \<and> ps_connection p \<noteq> c" for k p
    using map_of_kept [OF wf(1), of "\<lambda>p. ps_connection p \<noteq> c" k] by (auto simp: remove_connection_def split: option.splits)
  have i: "map_of (rs_identities (remove_connection c s)) = (map_of (rs_identities s))(c := None)" by (simp add: remove_connection_def map_of_AList)
  have g: "group_size g (remove_connection c s) \<le> group_size g s" for g
    by (simp add: group_size_def remove_connection_def del: filter_filter) (rule length_filter_twice)
  have rest: "rs_chans (remove_connection c s) = rs_chans s" "rs_next (remove_connection c s) = rs_next s" by (simp_all add: remove_connection_def)
  have "hash_wf (rs_peers (remove_connection c s))" "hash_wf (rs_identities (remove_connection c s))"
    using wf by (simp_all add: remove_connection_def hash_wf_ops)
  with assms show ?thesis unfolding server_ok_def p i chan_ok_def open_chan_def rest
    by (elim conjE, intro conjI) (auto intro: order_trans [OF g], blast)
qed

lemma group_size_card: "hash_wf (rs_peers s) \<Longrightarrow> group_size g s = card {k \<in> dom (map_of (rs_peers s)). fst k = g}"
proof -
  assume wf: "hash_wf (rs_peers s)"
  let ?l = "filter (\<lambda>((g', _), _). g' = g) (rs_peers s)"
  have "distinct (map fst ?l)" using wf by (simp add: hash_wf_def distinct_map_filter)
  then have "length ?l = card (fst ` set ?l)" using distinct_card [of "map fst ?l"] by simp
  moreover have "fst ` set ?l = {k \<in> dom (map_of (rs_peers s)). fst k = g}" by (force simp: dom_map_of_conv_image_fst)
  ultimately show ?thesis by (simp add: group_size_def)
qed

lemma register_new_ok:
  assumes ok: "server_ok cfg s" and c: "open_chan s ch" "ch_id (rs_chans s ! ch) = c" "map_of (rs_identities s) c = None"
    and new: "map_of (rs_peers s) key = None" and room: "group_size (fst key) s < rc_max_peers cfg"
  shows "server_ok cfg (s\<lparr>rs_identities := AList.update c key (rs_identities s), rs_peers := AList.update key \<lparr>ps_connection = c, ps_chan = ch\<rparr> (rs_peers s)\<rparr>)"
    (is "server_ok cfg ?s")
proof -
  have wf: "hash_wf (rs_peers ?s)" "hash_wf (rs_peers s)" using ok by (simp_all add: server_ok_def hash_wf_ops)
  have g: "group_size g ?s \<le> rc_max_peers cfg" for g
  proof -
    have "{k \<in> dom (map_of (rs_peers ?s)). fst k = g} \<subseteq> (if g = fst key then insert key else id) {k \<in> dom (map_of (rs_peers s)). fst k = g}"
      by (auto simp: map_of_AList)
    then have "group_size g ?s \<le> card ((if g = fst key then insert key else id) {k \<in> dom (map_of (rs_peers s)). fst k = g})"
      unfolding group_size_card [OF wf(1)] by (intro card_mono) (auto simp: finite_dom_map_of)
    also have "\<dots> \<le> rc_max_peers cfg"
    proof (cases "g = fst key")
      case True
      then show ?thesis using room group_size_card [OF wf(2), of g] by (simp add: card_insert_if finite_dom_map_of)
    next
      case False
      moreover have "group_size g s \<le> rc_max_peers cfg" using ok by (simp add: server_ok_def)
      ultimately show ?thesis using group_size_card [OF wf(2), of g] by simp
    qed
    finally show ?thesis .
  qed
  have same: "chan_ok n ?s = chan_ok n s" "open_chan ?s = open_chan s" for n by (simp_all add: fun_eq_iff chan_ok_def open_chan_def)
  have P: "map_of (rs_identities ?s) (ps_connection p) = Some k \<and> open_chan s (ps_chan p) \<and> ch_id (rs_chans s ! ps_chan p) = ps_connection p"
    if "map_of (rs_peers ?s) k = Some p" for k p
  proof (cases "k = key")
    case False
    then have "map_of (rs_peers s) k = Some p" using that by (simp add: map_of_AList)
    then have "map_of (rs_identities s) (ps_connection p) = Some k \<and> open_chan s (ps_chan p) \<and> ch_id (rs_chans s ! ps_chan p) = ps_connection p"
      using ok unfolding server_ok_def by blast
    then show ?thesis using c(3) by (auto simp: map_of_AList)
  qed (use that c in \<open>auto simp: map_of_AList\<close>)
  have I: "\<exists>p. map_of (rs_peers ?s) k = Some p \<and> ps_connection p = c'" if "map_of (rs_identities ?s) c' = Some k" for k c'
  proof (cases "c' = c")
    case False
    then have "map_of (rs_identities s) c' = Some k" using that by (simp add: map_of_AList)
    then obtain p where "map_of (rs_peers s) k = Some p" "ps_connection p = c'" using ok unfolding server_ok_def by blast
    then show ?thesis using new by (auto simp: map_of_AList)
  qed (use that in \<open>auto simp: map_of_AList\<close>)
  show ?thesis
    by (rule server_okI, unfold same, rule wf(1)) (use server_okD [OF ok] g P I in \<open>simp_all add: hash_wf_ops\<close>)
qed

lemma displace_ok:
  assumes ok: "server_ok cfg s" and old: "map_of (rs_peers s) key = Some peer"
  shows "remove_connection (ps_connection peer) s = s\<lparr>rs_peers := AList.delete key (rs_peers s), rs_identities := AList.delete (ps_connection peer) (rs_identities s)\<rparr>"
proof -
  have wf: "hash_wf (rs_peers s)" using ok by (simp add: server_ok_def)
  have "ps_connection p \<noteq> ps_connection peer \<longleftrightarrow> k \<noteq> key" if "(k, p) \<in> set (rs_peers s)" for k p
  proof -
    have "map_of (rs_peers s) k = Some p" using that wf by (simp add: hash_wf_mem)
    then show ?thesis using ok old unfolding server_ok_def by (metis option.inject)
  qed
  then have "filter (\<lambda>(_, p). ps_connection p \<noteq> ps_connection peer) (rs_peers s) = filter (\<lambda>(k, _). k \<noteq> key) (rs_peers s)"
    by (intro filter_cong) auto
  then show ?thesis by (simp add: remove_connection_def AList.delete_eq case_prod_beta eq_commute)
qed

lemma server_register_ok:
  assumes ok: "server_ok cfg s" and c: "open_chan s ch" "ch_id (rs_chans s ! ch) = c"
  shows "server_ok cfg (fst (server_register key c ch (rc_max_peers cfg) s))"
proof (cases "map_of (rs_identities s) c")
  case None
  show ?thesis
  proof (cases "map_of (rs_peers s) key")
    case none: None
    then show ?thesis using register_new_ok [OF ok c None none] ok
      by (auto simp: server_register_def None Let_def group_size_def)
  next
    case (Some peer)
    let ?s1 = "remove_connection (ps_connection peer) (raise_disconnect (ps_chan peer) s)"
    have ok': "server_ok cfg (raise_disconnect (ps_chan peer) s)" using chans_like_ok [OF raise_like ok] .
    have peers: "rs_peers (raise_disconnect (ps_chan peer) s) = rs_peers s" "rs_identities (raise_disconnect (ps_chan peer) s) = rs_identities s"
      by (simp_all add: raise_disconnect_def)
    note d = displace_ok [OF ok', unfolded peers, OF Some]
    have ok1: "server_ok cfg ?s1" by (rule remove_connection_ok [OF ok'])
    have wf: "hash_wf (rs_peers s)" "hash_wf (rs_peers ?s1)" using ok ok1 by (simp_all add: server_ok_def)
    have "{k \<in> dom (map_of (rs_peers ?s1)). fst k = fst key} \<subset> {k \<in> dom (map_of (rs_peers s)). fst k = fst key}"
      unfolding d using Some by (auto simp: map_of_AList psubset_eq)
    then have "group_size (fst key) ?s1 < group_size (fst key) s"
      unfolding group_size_card [OF wf(1)] group_size_card [OF wf(2)] by (rule psubset_card_mono [rotated]) (simp add: finite_dom_map_of)
    moreover have "group_size (fst key) s \<le> rc_max_peers cfg" using ok by (simp add: server_ok_def)
    ultimately have "group_size (fst key) ?s1 < rc_max_peers cfg" by simp
    moreover have "open_chan ?s1 ch" "ch_id (rs_chans ?s1 ! ch) = c"
      using c raise_like [of 0 s "ps_chan peer"] unfolding d by (auto simp: open_chan_def chans_like_def)
    moreover have "map_of (rs_identities ?s1) c = None" "map_of (rs_peers ?s1) key = None" using None unfolding d by (simp_all add: map_of_AList)
    ultimately have "server_ok cfg (?s1\<lparr>rs_identities := AList.update c key (rs_identities ?s1),
        rs_peers := AList.update key \<lparr>ps_connection = c, ps_chan = ch\<rparr> (rs_peers ?s1)\<rparr>)"
      by (intro register_new_ok [OF ok1])
    then show ?thesis unfolding d by (simp add: server_register_def None Some Let_def)
  qed
qed (use ok in \<open>simp add: server_register_def\<close>)

lemma forward_frame_ok: "server_ok cfg s \<Longrightarrow> server_ok cfg (fst (forward_frame (rc_queue cfg) g c frame s))"
proof -
  assume ok: "server_ok cfg s"
  have "server_ok cfg (fold remove_connection cs t)" if "server_ok cfg t" for cs t
    using that by (induction cs arbitrary: t) (auto intro: remove_connection_ok)
  then show ?thesis using chans_like_ok [OF forward_loop_like ok] by (simp add: forward_frame_def Let_def case_prod_beta)
qed

lemma handle_ok:
  "server_ok cfg s \<Longrightarrow> open_chan s ch \<Longrightarrow> server_ok cfg (fst (handle_tcp_relay_packet cfg ch (ch_id (rs_chans s ! ch)) frame s))"
  using server_register_ok [of cfg s ch "ch_id (rs_chans s ! ch)"] forward_frame_ok [of cfg s]
  by (simp add: handle_tcp_relay_packet_def Let_def case_prod_beta split: option.split RelayPacket.split)

lemma close_chan_ok:
  assumes ok: "server_ok cfg t" and ch: "ch < length (rs_chans t)" and free: "\<And>k p. map_of (rs_peers t) k = Some p \<Longrightarrow> ps_chan p \<noteq> ch"
  shows "server_ok cfg (t\<lparr>rs_chans := (rs_chans t)[ch := (rs_chans t ! ch)\<lparr>ch_closed := True, ch_queue := [], ch_ended := True\<rparr>]\<rparr>)"
    (is "server_ok cfg ?t")
proof (rule server_okI)
  fix k p assume "map_of (rs_peers ?t) k = Some p"
  then have "map_of (rs_peers t) k = Some p" by simp
  then show "map_of (rs_identities ?t) (ps_connection p) = Some k \<and> open_chan ?t (ps_chan p) \<and> ch_id (rs_chans ?t ! ps_chan p) = ps_connection p"
    using server_okD(5) [OF ok] free [of k p] by (simp add: open_chan_def)
qed (use server_okD [OF ok] ch in \<open>auto simp: chan_ok_def nth_list_update group_size_def\<close>)

lemma connection_ends_ok:
  assumes ok: "server_ok cfg s" and ch: "ch < length (rs_chans s)"
  shows "server_ok cfg (connection_ends ch s)"
proof -
  let ?r = "remove_connection (ch_id (rs_chans s ! ch)) s"
  have r: "server_ok cfg ?r" by (rule remove_connection_ok [OF ok])
  have c: "rs_chans ?r = rs_chans s" by (simp add: remove_connection_def)
  have "ps_chan p \<noteq> ch" if "map_of (rs_peers ?r) k = Some p" for k p
  proof -
    have "p \<in> snd ` set (rs_peers ?r)" using that by (force dest: map_of_SomeD)
    then have "ps_connection p \<noteq> ch_id (rs_chans s ! ch)" by (auto simp: remove_connection_def)
    moreover have "ch_id (rs_chans s ! ps_chan p) = ps_connection p" using r that c unfolding server_ok_def by metis
    ultimately show ?thesis by metis
  qed
  then show ?thesis unfolding connection_ends_def Let_def by (intro close_chan_ok [OF r]) (use ch c in auto)
qed

lemma accept_ok: "server_ok cfg s \<Longrightarrow> Suc (length (rs_chans s)) < 2 ^ 64 \<Longrightarrow> server_ok cfg (accept_connection cfg s)"
proof -
  assume ok: "server_ok cfg s" and n: "Suc (length (rs_chans s)) < 2 ^ 64"
  have nxt: "rs_next s + 1 = word_of_nat (Suc (length (rs_chans s)))" using ok by (simp add: server_ok_def add.commute)
  have "unat (word_of_nat (Suc (length (rs_chans s))) :: u64) = Suc (length (rs_chans s))" using n by (simp add: unat_of_nat del: of_nat_Suc)
  then have "(1 :: u64) \<le> word_of_nat (Suc (length (rs_chans s)))" by (simp only: word_le_nat_alt unat_1)
  then have "max (word_of_nat (Suc (length (rs_chans s)))) 1 = (word_of_nat (Suc (length (rs_chans s))) :: u64)" by (rule max_absorb1)
  then show ?thesis using ok
    unfolding accept_connection_def next_connection_id_def Let_def nxt server_ok_def chan_ok_def open_chan_def group_size_def
    by (auto simp: nth_append less_Suc_eq simp del: of_nat_Suc) metis
qed

lemma chans_length [simp]:
  "length (rs_chans (raise_disconnect ch s)) = length (rs_chans s)"
  "rs_chans (remove_connection c s) = rs_chans s"
  "rs_chans (fold remove_connection cs s) = rs_chans s"
  "length (rs_chans (fst (forward_loop n frame ps s))) = length (rs_chans s)"
  "length (rs_chans (connection_ends ch s)) = length (rs_chans s)"
proof -
  show f: "rs_chans (fold remove_connection cs s) = rs_chans s"
    by (induction cs arbitrary: s) (simp_all add: remove_connection_def)
  show "length (rs_chans (fst (forward_loop n frame ps s))) = length (rs_chans s)"
    using forward_loop_like [of n s frame ps] by (simp add: chans_like_def)
qed (simp_all add: raise_disconnect_def remove_connection_def connection_ends_def Let_def)

lemma handle_length: "length (rs_chans (fst (handle_tcp_relay_packet cfg ch c frame s))) = length (rs_chans s)"
proof -
  have "length (rs_chans (fst (server_register k c ch m s))) = length (rs_chans s)" for k m
    by (auto simp: server_register_def Let_def split: option.split)
  moreover have "length (rs_chans (fst (forward_frame n g c f s))) = length (rs_chans s)" for n g f
    by (simp add: forward_frame_def Let_def case_prod_beta)
  ultimately show ?thesis
    by (simp add: handle_tcp_relay_packet_def Let_def case_prod_beta split: option.split RelayPacket.split)
qed

lemma tcp_step_length: "length (rs_chans (fst (tcp_step cfg s e))) \<le> Suc (length (rs_chans s))"
proof (cases e)
  case (TFrame ch frame)
  then show ?thesis using handle_length [of cfg ch "ch_id (rs_chans s ! ch)" frame s]
    by (auto simp: tcp_step_def split: prod.splits sum.splits)
qed (auto simp: tcp_step_def accept_connection_def next_connection_id_def Let_def)

lemma tcp_step_ok:
  assumes "server_ok cfg s" "Suc (length (rs_chans s)) < 2 ^ 64"
  shows "server_ok cfg (fst (tcp_step cfg s e))"
proof (cases e)
  case TAccept
  then show ?thesis using accept_ok [OF assms] by (simp add: tcp_step_def)
next
  case (TFrame ch frame)
  show ?thesis
  proof (cases "open_chan s ch")
    case True
    let ?h = "handle_tcp_relay_packet cfg ch (ch_id (rs_chans s ! ch)) frame s"
    have "server_ok cfg (fst ?h)" by (rule handle_ok [OF assms(1) True])
    moreover have "ch < length (rs_chans (fst ?h))" using True by (simp add: handle_length open_chan_def)
    ultimately show ?thesis using TFrame True connection_ends_ok [of cfg "fst ?h" ch]
      by (auto simp: tcp_step_def split: prod.splits sum.splits)
  qed (use assms TFrame in \<open>simp add: tcp_step_def\<close>)
next
  case (TEnds ch)
  then show ?thesis using assms connection_ends_ok [of cfg s ch] by (auto simp: tcp_step_def open_chan_def)
next
  case (TWrites ch)
  then show ?thesis using assms(1) by (auto simp: tcp_step_def intro!: chans_like_ok [OF chans_like_update assms(1)])
next
  case (TWriterFails ch)
  then show ?thesis using assms(1) by (auto simp: tcp_step_def intro!: chans_like_ok [OF chans_like_update assms(1)])
qed

definition tcp_run :: "TcpRelayServerConfig \<Rightarrow> TcpEvent list \<Rightarrow> TcpRelayServerState" where
  "tcp_run cfg es = foldl (\<lambda>s e. fst (tcp_step cfg s e)) server_default es"

lemma tcp_run_snoc: "tcp_run cfg (es @ [e]) = fst (tcp_step cfg (tcp_run cfg es) e)"
  by (simp add: tcp_run_def)

lemma tcp_run_length: "length (rs_chans (tcp_run cfg es)) \<le> length es"
proof (induction es rule: rev_induct)
  case (snoc e es)
  then show ?case using tcp_step_length [of cfg "tcp_run cfg es" e] by (simp add: tcp_run_snoc)
qed (simp add: tcp_run_def server_default_def)

lemma tcp_run_ok: "length es < 2 ^ 64 \<Longrightarrow> server_ok cfg (tcp_run cfg es)"
proof (induction es rule: rev_induct)
  case (snoc e es)
  then show ?case using tcp_step_ok [of cfg "tcp_run cfg es" e] tcp_run_length [of cfg es] by (simp add: tcp_run_snoc)
qed (simp add: tcp_run_def server_default_ok)

section \<open>Who receives what\<close>

definition has_registered :: "TcpEvent list \<Rightarrow> nat \<Rightarrow> RelayPeerKey \<Rightarrow> bool" where
  "has_registered es ch k \<longleftrightarrow> (\<exists>frame. TFrame ch frame \<in> set es \<and> packet_decode frame = Some (RP_Register (fst k) (snd k)))"

lemma remove_peers: "map_of (rs_peers (remove_connection c s)) k = Some p \<Longrightarrow> hash_wf (rs_peers s) \<Longrightarrow> map_of (rs_peers s) k = Some p"
  using map_of_kept [of "rs_peers s" "\<lambda>p. ps_connection p \<noteq> c" k] by (auto simp: remove_connection_def split: option.splits if_splits)

lemma removes_peers:
  "map_of (rs_peers (fold remove_connection cs s)) k = Some p \<Longrightarrow> hash_wf (rs_peers s) \<Longrightarrow> map_of (rs_peers s) k = Some p"
proof (induction cs arbitrary: s)
  case (Cons c cs)
  have "hash_wf (rs_peers (remove_connection c s))" using Cons.prems(2) by (simp add: remove_connection_def hash_wf_ops)
  moreover have "map_of (rs_peers (fold remove_connection cs (remove_connection c s))) k = Some p" using Cons.prems(1) by simp
  ultimately have "map_of (rs_peers (remove_connection c s)) k = Some p" by (rule Cons.IH [rotated])
  then show ?case using remove_peers Cons.prems(2) by blast
qed simp

text \<open>A registration in the table after a frame was there before or was made by the frame.\<close>

lemma handle_peers:
  assumes "hash_wf (rs_peers s)" "map_of (rs_peers (fst (handle_tcp_relay_packet cfg ch c frame s))) k = Some p"
  shows "map_of (rs_peers s) k = Some p \<or> ps_chan p = ch \<and> packet_decode frame = Some (RP_Register (fst k) (snd k))"
proof -
  have r: "map_of (rs_peers s) k = Some p \<or> ps_chan p = ch \<and> fst key = fst k \<and> snd key = snd k"
    if "map_of (rs_peers (fst (server_register key c ch m s))) k = Some p" for key m
    using that by (auto simp: server_register_def Let_def map_of_AList raise_disconnect_def split: option.splits if_splits)
  have f: "map_of (rs_peers s) k = Some p" if "map_of (rs_peers (fst (forward_frame n g c x s))) k = Some p" for n g x
    using that removes_peers [of _ "fst (forward_loop n x _ s)" k p] forward_loop_like [of n s x] assms(1)
    by (force simp: forward_frame_def Let_def case_prod_beta chans_like_def)
  show ?thesis using assms(2) r f
    by (auto simp: handle_tcp_relay_packet_def Let_def case_prod_beta split: option.splits RelayPacket.splits if_splits)
qed

lemma step_peers:
  assumes "server_ok cfg s" "map_of (rs_peers (fst (tcp_step cfg s e))) k = Some p"
  shows "map_of (rs_peers s) k = Some p \<or> (\<exists>frame. e = TFrame (ps_chan p) frame \<and> packet_decode frame = Some (RP_Register (fst k) (snd k)))"
proof (cases e)
  case (TFrame ch frame)
  show ?thesis
  proof (cases "open_chan s ch")
    case True
    let ?h = "handle_tcp_relay_packet cfg ch (ch_id (rs_chans s ! ch)) frame s"
    have wf: "hash_wf (rs_peers (fst ?h))" using handle_ok [OF assms(1) True] by (rule server_okD(1))
    have "map_of (rs_peers (fst ?h)) k = Some p"
      using assms(2) TFrame True remove_peers [OF _ wf, of _ k p]
      by (auto simp: tcp_step_def connection_ends_def Let_def split: prod.splits sum.splits)
    then show ?thesis using handle_peers [OF server_okD(1) [OF assms(1)]] TFrame by blast
  qed (use assms TFrame in \<open>simp add: tcp_step_def\<close>)
next
  case (TEnds ch)
  then show ?thesis using assms(2) remove_peers [OF _ server_okD(1) [OF assms(1)]]
    by (auto simp: tcp_step_def connection_ends_def Let_def split: if_splits)
qed (use assms in \<open>auto simp: tcp_step_def accept_connection_def next_connection_id_def Let_def split: if_splits\<close>)

lemma peers_registered:
  "length es < 2 ^ 64 \<Longrightarrow> map_of (rs_peers (tcp_run cfg es)) k = Some p \<Longrightarrow> has_registered es (ps_chan p) k"
proof (induction es rule: rev_induct)
  case (snoc e es)
  then have "server_ok cfg (tcp_run cfg es)" by (intro tcp_run_ok) simp
  from step_peers [OF this] snoc show ?case by (fastforce simp: tcp_run_snoc has_registered_def)
qed (simp add: tcp_run_def server_default_def)

lemma forward_loop_sent: "set (fst (snd (forward_loop n frame ps s))) \<subseteq> ps_chan ` set ps"
proof (induction ps arbitrary: s)
  case (Cons p ps)
  then show ?case by (simp add: case_prod_beta split: SendOutcome.split) blast
qed simp

lemma chan_id_inject:
  assumes "server_ok cfg s" "length (rs_chans s) < 2 ^ 64" "i < length (rs_chans s)" "j < length (rs_chans s)"
    "ch_id (rs_chans s ! i) = ch_id (rs_chans s ! j)"
  shows "i = j"
proof -
  have "(word_of_nat (Suc i) :: u64) = word_of_nat (Suc j)" using server_okD(4) [OF assms(1)] assms(3-5) by (simp add: chan_ok_def)
  then have "unat (word_of_nat (Suc i) :: u64) = unat (word_of_nat (Suc j) :: u64)" by (simp only:)
  then show ?thesis using assms(2-4) by (simp add: unat_of_nat del: of_nat_Suc)
qed

text \<open>
  C38. The relay keeps groups apart and senders honest.  Whatever connections do, and in whatever order: a frame
  put on a connection's queue is the very frame another connection sent; that connection had registered as
  the group and peer the frame names, and the receiving one had itself registered in the same group.
\<close>

theorem relay_stays_in_group:
  assumes "length es < 2 ^ 64" "(ch, f) \<in> set (snd (tcp_step cfg (tcp_run cfg es) (TFrame src frame)))"
  shows "\<exists>g p q payload. packet_decode frame = Some (RP_Data g p payload) \<and> f = frame \<and> ch \<noteq> src \<and>
    has_registered es src (g, p) \<and> has_registered es ch (g, q)"
proof -
  let ?s = "tcp_run cfg es"
  have ok: "server_ok cfg ?s" by (rule tcp_run_ok [OF assms(1)])
  have src: "open_chan ?s src" using assms(2) by (auto simp: tcp_step_def split: if_splits)
  let ?c = "ch_id (rs_chans ?s ! src)"
  obtain g p payload where d: "packet_decode frame = Some (RP_Data g p payload)" and i: "map_of (rs_identities ?s) ?c = Some (g, p)"
      and f: "f = packet_encode (RP_Data g p payload)" and sent: "ch \<in> set (snd (forward_frame (rc_queue cfg) g ?c f ?s))"
    using assms(2) src
    by (fastforce simp: tcp_step_def handle_tcp_relay_packet_def Let_def case_prod_beta split: prod.splits sum.splits option.splits RelayPacket.splits if_splits)
  obtain q peer where t: "map_of (rs_peers ?s) (g, q) = Some peer" "ps_connection peer \<noteq> ?c" "ps_chan peer = ch"
    using sent forward_loop_sent [of "rc_queue cfg" f _ ?s] server_okD(1) [OF ok]
    by (force simp: forward_frame_def Let_def case_prod_beta hash_wf_mem)
  obtain own where own: "map_of (rs_peers ?s) (g, p) = Some own" "ps_connection own = ?c" using server_okD(6) [OF ok i] by blast
  have "open_chan ?s (ps_chan own)" "ch_id (rs_chans ?s ! ps_chan own) = ?c" using server_okD(5) [OF ok own(1)] own(2) by simp_all
  then have "ps_chan own = src"
    using src tcp_run_length [of cfg es] assms(1) by (intro chan_id_inject [OF ok]) (auto simp: open_chan_def)
  moreover have "ch \<noteq> src" using server_okD(5) [OF ok t(1)] t(2,3) by auto
  ultimately show ?thesis using d f encode_decode [OF d] peers_registered [OF assms(1) own(1)] peers_registered [OF assms(1) t(1)] t(3) by blast
qed

text \<open>
  The server stays within its limits: at every moment no group has more than its maximum of registered
  peers and no queue holds more than its capacity, and every registration belongs to an open connection,
  which it names by its identifier.
\<close>

theorem relay_server_bounded:
  assumes "length es < 2 ^ 64"
  shows "(\<forall>g. group_size g (tcp_run cfg es) \<le> rc_max_peers cfg) \<and>
    (\<forall>i < length (rs_chans (tcp_run cfg es)). length (ch_queue (rs_chans (tcp_run cfg es) ! i)) \<le> rc_queue cfg) \<and>
    (\<forall>k p. map_of (rs_peers (tcp_run cfg es)) k = Some p \<longrightarrow>
       open_chan (tcp_run cfg es) (ps_chan p) \<and> map_of (rs_identities (tcp_run cfg es)) (ch_id (rs_chans (tcp_run cfg es) ! ps_chan p)) = Some k)"
  using server_okD [OF tcp_run_ok [OF assms]] by (simp add: chan_ok_def)

section \<open>Examples\<close>

definition demo_relay_config :: TcpRelayServerConfig where
  "demo_relay_config = with_limits 4 2 1"

definition demo_addr :: "u16 \<Rightarrow> SocketAddr" where
  "demo_addr port = \<lparr>sa_ip = V4 0x7F000001, sa_port = port\<rparr>"

abbreviation demo_register :: "string \<Rightarrow> string \<Rightarrow> bytes" where
  "demo_register g p \<equiv> packet_encode (RP_Register (lit g) (lit p))"

abbreviation demo_data :: bytes where
  "demo_data \<equiv> packet_encode (RP_Data (lit ''g'') (lit ''a'') [7])"

definition demo_events :: "TcpEvent list" where
  "demo_events = [TAccept, TAccept, TAccept, TFrame 0 (demo_register ''g'' ''a''), TFrame 1 (demo_register ''g'' ''b''), TFrame 2 (demo_register ''h'' ''b'')]"

lemmas demo_ok_simps = packet_ok_def lit_def scalars_def scalar_def as_bytes_def utf8_char_def MAX_ID_LEN_def MAX_PACKET_LEN_def of_char_def

lemma demo_decodes:
  "packet_decode (demo_register ''g'' ''a'') = Some (RP_Register (lit ''g'') (lit ''a''))"
  "packet_decode (demo_register ''g'' ''b'') = Some (RP_Register (lit ''g'') (lit ''b''))"
  "packet_decode (demo_register ''h'' ''b'') = Some (RP_Register (lit ''h'') (lit ''b''))"
  "packet_decode demo_data = Some (RP_Data (lit ''g'') (lit ''a'') [7])"
  by (rule decode_encode, simp add: demo_ok_simps)+

lemma demo_names: "lit ''a'' \<noteq> lit ''b''" "lit ''b'' \<noteq> lit ''a''" "lit ''g'' \<noteq> lit ''h''" "lit ''h'' \<noteq> lit ''g''"
  by (simp_all add: lit_def)

theorem relay_stays_in_group_witness:
  "snd (tcp_step demo_relay_config (tcp_run demo_relay_config demo_events) (TFrame 0 demo_data)) = [(1, demo_data)] \<and>
   (\<exists>g p q payload. packet_decode demo_data = Some (RP_Data g p payload) \<and> has_registered demo_events 0 (g, p) \<and> has_registered demo_events 1 (g, q))"
proof -
  have s: "snd (tcp_step demo_relay_config (tcp_run demo_relay_config demo_events) (TFrame 0 demo_data)) = [(1, demo_data)]"
    by (simp add: demo_events_def tcp_run_def tcp_step_def handle_tcp_relay_packet_def demo_decodes server_register_def forward_frame_def
        try_send_def open_chan_def accept_connection_def next_connection_id_def server_default_def demo_relay_config_def with_limits_def
        Let_def max_def word_le_nat_alt demo_names)
  have "length demo_events < 2 ^ 64" by (simp add: demo_events_def)
  from relay_stays_in_group [OF this, of 1 demo_data demo_relay_config 0 demo_data] s show ?thesis by auto
qed

theorem relay_server_bounded_witness:
  "group_size (lit ''g'') (tcp_run demo_relay_config demo_events) \<le> 2"
proof -
  have "length demo_events < 2 ^ 64" by (simp add: demo_events_def)
  from relay_server_bounded [OF this, of demo_relay_config]
  have "group_size (lit ''g'') (tcp_run demo_relay_config demo_events) \<le> rc_max_peers demo_relay_config" by blast
  also have "rc_max_peers demo_relay_config = 2" by (simp add: demo_relay_config_def with_limits_def)
  finally show ?thesis .
qed

definition demo_tunnel :: "string \<Rightarrow> SocketAddr option \<Rightarrow> Tunnel" where
  "demo_tunnel p target = \<lparr>tn_relay = demo_addr 9, tn_group = lit ''g'', tn_peer = lit p, tn_target = target\<rparr>"

theorem relay_tunnel_delivers_witness:
  "\<exists>packet. udp_tunnel_receive (demo_addr 9) packet (demo_tunnel ''b'' (Some (demo_addr 5))) =
     (demo_tunnel ''b'' (Some (demo_addr 5)), [(demo_addr 5, [1, 2])])"
proof -
  have "packet_ok (RP_Data (tn_group (demo_tunnel ''a'' None)) (tn_peer (demo_tunnel ''a'' None)) [1, 2])"
    by (simp add: demo_tunnel_def demo_ok_simps)
  from relay_tunnel_delivers [OF this, of "demo_tunnel ''b'' (Some (demo_addr 5))" "demo_addr 4" "demo_addr 5"
      "\<lparr>rt_ttl = 15000, rt_peers = [((lit ''g'', lit ''b''), demo_addr 8, 0)]\<rparr>" "demo_addr 8" 0 0 "demo_addr 7"]
  show ?thesis by (auto simp: demo_tunnel_def demo_addr_def lit_def hash_wf_def)
qed

end
