(* ===== verification/P2p_Rendezvous.thy ===== *)
theory P2p_Rendezvous
  imports Socket_Addr Hash_Tables
begin

text \<open>
  The control packets of the direct tunnel, the snapshot it publishes, and the rendezvous server that introduces the devices of a group
  to each other (\<open>remote_core/src/p2p.rs\<close>).

  The reader of packets is a function of the bytes left.  Writers and readers of the single fields satisfy
  one law, the locale \<open>wire_field\<close>, from which the codec's exactness follows.  A step of the server takes a
  datagram or a tick of its timer and returns the datagrams it sends.
\<close>

section \<open>Packets\<close>

definition P2P_MAGIC :: bytes where "P2P_MAGIC = [0x52, 0x50, 0x50, 0x32, 0x50, 0x30, 0x30, 0x31]"
definition P2P_VERSION :: u8 where "P2P_VERSION = 1"
definition PACKET_REGISTER :: u8 where "PACKET_REGISTER = 1"
definition PACKET_CANDIDATE :: u8 where "PACKET_CANDIDATE = 2"
definition PACKET_PUNCH :: u8 where "PACKET_PUNCH = 3"
definition PACKET_PUNCH_ACK :: u8 where "PACKET_PUNCH_ACK = 4"
definition PACKET_OBSERVATION :: u8 where "PACKET_OBSERVATION = 5"
definition PACKET_PROBE :: u8 where "PACKET_PROBE = 6"
definition PACKET_PROBE_ACK :: u8 where "PACKET_PROBE_ACK = 7"
definition P2P_MAX_ID_LEN :: nat where "P2P_MAX_ID_LEN = 128"
definition MAX_ANNOUNCEMENT_LEN :: nat where "MAX_ANNOUNCEMENT_LEN = 1200"
definition P2P_MAX_PACKET_LEN :: nat where "P2P_MAX_PACKET_LEN = 1536"

lemmas packet_kinds = PACKET_REGISTER_def PACKET_CANDIDATE_def PACKET_PUNCH_def PACKET_PUNCH_ACK_def
  PACKET_OBSERVATION_def PACKET_PROBE_def PACKET_PROBE_ACK_def

datatype P2pPacket =
  PP_Register rstring rstring bytes
| PP_Candidate rstring rstring SocketAddr bytes
| PP_Punch rstring rstring
| PP_PunchAck rstring rstring
| PP_Observation rstring rstring SocketAddr
| PP_Probe rstring rstring u64
| PP_ProbeAck rstring rstring u64

datatype P2pError =
  PE_InvalidPacket | PE_UnsupportedVersion u8 | PE_InvalidId | PE_EmptySecret
| PE_IdTooLong nat | PE_AnnouncementTooLarge nat | PE_PacketTooLarge nat

definition p2p_id_byte :: "u8 \<Rightarrow> bool" where
  "p2p_id_byte b \<longleftrightarrow> (let n = unat b in 48 \<le> n \<and> n \<le> 57 \<or> 65 \<le> n \<and> n \<le> 90 \<or> 97 \<le> n \<and> n \<le> 122 \<or> n \<in> {45, 95, 58, 46})"

definition validate_id :: "rstring \<Rightarrow> (rstring, P2pError) result" where
  "validate_id v =
     (if v = [] \<or> \<not> list_all p2p_id_byte (as_bytes v) then Err PE_InvalidId
      else if length (as_bytes v) > P2P_MAX_ID_LEN then Err (PE_IdTooLong (length (as_bytes v)))
      else Ok v)"

definition push_id :: "rstring \<Rightarrow> (bytes, P2pError) result" where
  "push_id v = try_bind (validate_id v) (\<lambda>v. Ok (byte (length (as_bytes v)) # as_bytes v))"

definition push_blob :: "bytes \<Rightarrow> (bytes, P2pError) result" where
  "push_blob v =
     (if length v > MAX_ANNOUNCEMENT_LEN then Err (PE_AnnouncementTooLarge (length v))
      else Ok (to_be 2 (word_of_nat (length v) :: u16) @ v))"

definition push_socket_addr :: "SocketAddr \<Rightarrow> bytes" where
  "push_socket_addr a =
     (case sa_ip a of V4 ip \<Rightarrow> 4 # to_be 4 ip | V6 ip \<Rightarrow> 6 # to_be 16 ip) @ to_be 2 (sa_port a)"

definition push_ids :: "u8 \<Rightarrow> rstring \<Rightarrow> rstring \<Rightarrow> (bytes, P2pError) result" where
  "push_ids kind g p = try_bind (push_id g) (\<lambda>x. try_bind (push_id p) (\<lambda>y. Ok (P2P_MAGIC @ [P2P_VERSION, kind] @ x @ y)))"

definition packet_body :: "P2pPacket \<Rightarrow> (bytes, P2pError) result" where
  "packet_body k = (case k of
     PP_Register g p a \<Rightarrow> try_bind (push_ids PACKET_REGISTER g p) (\<lambda>h. try_bind (push_blob a) (\<lambda>b. Ok (h @ b)))
   | PP_Candidate g p e a \<Rightarrow> try_bind (push_ids PACKET_CANDIDATE g p) (\<lambda>h. try_bind (push_blob a) (\<lambda>b. Ok (h @ push_socket_addr e @ b)))
   | PP_Punch g p \<Rightarrow> push_ids PACKET_PUNCH g p
   | PP_PunchAck g p \<Rightarrow> push_ids PACKET_PUNCH_ACK g p
   | PP_Observation g p e \<Rightarrow> try_bind (push_ids PACKET_OBSERVATION g p) (\<lambda>h. Ok (h @ push_socket_addr e))
   | PP_Probe g p t \<Rightarrow> try_bind (push_ids PACKET_PROBE g p) (\<lambda>h. Ok (h @ to_be 8 t))
   | PP_ProbeAck g p t \<Rightarrow> try_bind (push_ids PACKET_PROBE_ACK g p) (\<lambda>h. Ok (h @ to_be 8 t)))"

definition p2p_encode :: "P2pPacket \<Rightarrow> (bytes, P2pError) result" where
  "p2p_encode k = try_bind (packet_body k) (\<lambda>out. if length out > P2P_MAX_PACKET_LEN then Err (PE_PacketTooLarge (length out)) else Ok out)"

text \<open>The reader, a function of the bytes left.\<close>

type_synonym 'a reader = "bytes \<Rightarrow> ('a \<times> bytes, P2pError) result"

definition reader_u8 :: "u8 reader" where
  "reader_u8 bs = (case bs of [] \<Rightarrow> Err PE_InvalidPacket | b # r \<Rightarrow> Ok (b, r))"

definition reader_take :: "nat \<Rightarrow> bytes reader" where
  "reader_take n bs = (if n \<le> length bs then Ok (take n bs, drop n bs) else Err PE_InvalidPacket)"

definition reader_u64 :: "u64 reader" where
  "reader_u64 bs = try_bind (reader_take 8 bs) (\<lambda>(v, r). Ok (of_be v, r))"

definition reader_id :: "rstring reader" where
  "reader_id bs = try_bind (reader_u8 bs) (\<lambda>(len, r).
     if len = 0 \<or> unat len > P2P_MAX_ID_LEN then Err PE_InvalidId
     else try_bind (reader_take (unat len) r) (\<lambda>(v, r).
       try_bind (ok_or (from_utf8 v) PE_InvalidId) (\<lambda>s. try_bind (validate_id s) (\<lambda>s. Ok (s, r)))))"

definition reader_blob :: "bytes reader" where
  "reader_blob bs = try_bind (reader_take 2 bs) (\<lambda>(v, r).
     let len = unat (of_be v :: u16) in
     if len > MAX_ANNOUNCEMENT_LEN then Err (PE_AnnouncementTooLarge len) else reader_take len r)"

definition reader_socket_addr :: "SocketAddr reader" where
  "reader_socket_addr bs = try_bind (reader_u8 bs) (\<lambda>(family, r).
     try_bind (if family = 4 then try_bind (reader_take 4 r) (\<lambda>(v, r). Ok (V4 (of_be v), r))
               else if family = 6 then try_bind (reader_take 16 r) (\<lambda>(v, r). Ok (V6 (of_be v), r))
               else Err PE_InvalidPacket) (\<lambda>(ip, r).
     try_bind (reader_take 2 r) (\<lambda>(v, r). Ok (\<lparr>sa_ip = ip, sa_port = of_be v\<rparr>, r))))"

definition read_packet :: "u8 \<Rightarrow> rstring \<Rightarrow> rstring \<Rightarrow> P2pPacket reader" where
  "read_packet kind g p bs =
     (if kind = PACKET_REGISTER then try_bind (reader_blob bs) (\<lambda>(a, r). Ok (PP_Register g p a, r))
      else if kind = PACKET_CANDIDATE then
        try_bind (reader_socket_addr bs) (\<lambda>(e, r). try_bind (reader_blob r) (\<lambda>(a, r). Ok (PP_Candidate g p e a, r)))
      else if kind = PACKET_PUNCH then Ok (PP_Punch g p, bs)
      else if kind = PACKET_PUNCH_ACK then Ok (PP_PunchAck g p, bs)
      else if kind = PACKET_OBSERVATION then try_bind (reader_socket_addr bs) (\<lambda>(e, r). Ok (PP_Observation g p e, r))
      else if kind = PACKET_PROBE then try_bind (reader_u64 bs) (\<lambda>(t, r). Ok (PP_Probe g p t, r))
      else if kind = PACKET_PROBE_ACK then try_bind (reader_u64 bs) (\<lambda>(t, r). Ok (PP_ProbeAck g p t, r))
      else Err PE_InvalidPacket)"

definition p2p_decode :: "bytes \<Rightarrow> (P2pPacket, P2pError) result" where
  "p2p_decode bs =
     (if length bs > P2P_MAX_PACKET_LEN then Err (PE_PacketTooLarge (length bs))
      else if length bs < length P2P_MAGIC + 2 \<or> take (length P2P_MAGIC) bs \<noteq> P2P_MAGIC then Err PE_InvalidPacket
      else try_bind (reader_u8 (drop (length P2P_MAGIC) bs)) (\<lambda>(version, r).
        if version \<noteq> P2P_VERSION then Err (PE_UnsupportedVersion version)
        else try_bind (reader_u8 r) (\<lambda>(kind, r). try_bind (reader_id r) (\<lambda>(g, r). try_bind (reader_id r) (\<lambda>(p, r).
          try_bind (read_packet kind g p r) (\<lambda>(k, r). if r \<noteq> [] then Err PE_InvalidPacket else Ok k))))))"

definition is_wire_packet :: "bytes \<Rightarrow> bool" where
  "is_wire_packet bs \<longleftrightarrow> length bs \<ge> length P2P_MAGIC \<and> take (length P2P_MAGIC) bs = P2P_MAGIC"

section \<open>What a tunnel reports\<close>

datatype P2pNatBehavior = NatUnknown | EndpointIndependent | PortVarying | AddressAndPortVarying

record P2pPeerSnapshot =
  pp_peer_id :: rstring
  pp_candidate :: SocketAddr
  pp_local_endpoint :: SocketAddr
  pp_direct_ready :: bool
  pp_candidate_count :: nat
  pp_rtt_ms :: "u32 option"

record P2pTunnelSnapshot =
  ts_peers :: "P2pPeerSnapshot list"
  ts_nat_behavior :: P2pNatBehavior
  ts_observed :: "SocketAddr list"

definition route_for_peer :: "rstring \<Rightarrow> P2pTunnelSnapshot \<Rightarrow> SocketAddr option" where
  "route_for_peer peer s = map_option pp_local_endpoint (List.find (\<lambda>p. pp_peer_id p = peer \<and> pp_direct_ready p) (ts_peers s))"

definition direct_peer_count :: "P2pTunnelSnapshot \<Rightarrow> nat" where
  "direct_peer_count s = length (filter pp_direct_ready (ts_peers s))"

section \<open>The rendezvous server\<close>

record RendezvousPeer =
  rp_addr :: SocketAddr
  rp_announcement :: bytes
  rp_last_seen :: nat

record P2pRendezvousServerConfig =
  rv_peer_ttl :: nat
  rv_max_group :: nat
  rv_max_total :: nat

definition rv_config_new :: P2pRendezvousServerConfig where
  "rv_config_new = \<lparr>rv_peer_ttl = 15000, rv_max_group = 16, rv_max_total = 4096\<rparr>"

definition rv_with_limits :: "nat \<Rightarrow> nat \<Rightarrow> P2pRendezvousServerConfig \<Rightarrow> P2pRendezvousServerConfig" where
  "rv_with_limits per_group in_all cfg = cfg\<lparr>rv_max_group := max per_group 1, rv_max_total := max in_all (max per_group 1)\<rparr>"

type_synonym rv_table = "((rstring \<times> rstring) \<times> RendezvousPeer) list"

definition send_packet :: "P2pPacket \<Rightarrow> SocketAddr \<Rightarrow> (SocketAddr \<times> bytes) list" where
  "send_packet k d = (case p2p_encode k of Inr bs \<Rightarrow> [(d, bs)] | Inl _ \<Rightarrow> [])"

definition rv_register :: "P2pRendezvousServerConfig \<Rightarrow> nat \<Rightarrow> SocketAddr \<Rightarrow> rstring \<Rightarrow> rstring \<Rightarrow> bytes \<Rightarrow> rv_table \<Rightarrow>
    rv_table \<times> (SocketAddr \<times> bytes) list" where
  "rv_register cfg now addr g p a peers =
     (let same_group_count = length (filter (\<lambda>((group, _), _). group = g) peers) in
      if map_of peers (g, p) = None \<and> (same_group_count \<ge> rv_max_group cfg \<or> length peers \<ge> rv_max_total cfg) then (peers, [])
      else
        let existing = map (\<lambda>((_, q), other). (q, other)) (filter (\<lambda>((group, q), _). group = g \<and> q \<noteq> p) peers) in
        (AList.update (g, p) \<lparr>rp_addr = addr, rp_announcement = a, rp_last_seen = now\<rparr> peers,
         send_packet (PP_Observation g p addr) addr @
         concat (map (\<lambda>(q, other).
           send_packet (PP_Candidate g q (rp_addr other) (rp_announcement other)) addr @
           send_packet (PP_Candidate g p addr a) (rp_addr other)) existing)))"

definition rv_receive :: "P2pRendezvousServerConfig \<Rightarrow> nat \<Rightarrow> SocketAddr \<Rightarrow> bytes \<Rightarrow> rv_table \<Rightarrow> rv_table \<times> (SocketAddr \<times> bytes) list" where
  "rv_receive cfg now addr bs peers =
     (case p2p_decode bs of
        Inr (PP_Register g p a) \<Rightarrow> rv_register cfg now addr g p a peers
      | _ \<Rightarrow> (peers, []))"

definition rv_prune :: "P2pRendezvousServerConfig \<Rightarrow> nat \<Rightarrow> rv_table \<Rightarrow> rv_table" where
  "rv_prune cfg now peers = filter (\<lambda>(_, peer). now - rp_last_seen peer \<le> rv_peer_ttl cfg) peers"

datatype RvEvent = RvPrune nat | RvDatagram nat SocketAddr bytes

definition rv_step :: "P2pRendezvousServerConfig \<Rightarrow> rv_table \<Rightarrow> RvEvent \<Rightarrow> rv_table \<times> (SocketAddr \<times> bytes) list" where
  "rv_step cfg peers e = (case e of
     RvPrune now \<Rightarrow> (rv_prune cfg now peers, [])
   | RvDatagram now addr bs \<Rightarrow> rv_receive cfg now addr bs peers)"

definition rv_run :: "P2pRendezvousServerConfig \<Rightarrow> RvEvent list \<Rightarrow> rv_table" where
  "rv_run cfg es = foldl (\<lambda>s e. fst (rv_step cfg s e)) [] es"

section \<open>The codec is exact\<close>

text \<open>A field of a packet: what is written is read back, and only what could have been written is read.\<close>

locale wire_field =
  fixes put :: "'a \<Rightarrow> bytes" and get :: "bytes \<Rightarrow> ('a \<times> bytes, 'e) result" and valid :: "'a \<Rightarrow> bool"
  assumes get_put: "valid v \<Longrightarrow> get (put v @ r) = Ok (v, r)"
    and put_get: "get bs = Ok (v, r) \<Longrightarrow> valid v \<and> bs = put v @ r"
begin

lemma get_iff: "get bs = Ok (v, r) \<longleftrightarrow> valid v \<and> bs = put v @ r"
  using get_put put_get by blast

lemma get_last: "valid v \<Longrightarrow> get (put v) = Ok (v, [])"
  using get_put [of v "[]"] by simp

lemma put_inject: "valid v \<Longrightarrow> valid w \<Longrightarrow> put v @ r = put w @ s \<Longrightarrow> v = w \<and> r = s"
  by (metis get_put Inr_inject prod.inject)

end

lemma reader_take_iff: "reader_take n bs = Ok (v, r) \<longleftrightarrow> length v = n \<and> bs = v @ r"
proof
  show "length v = n \<and> bs = v @ r" if "reader_take n bs = Ok (v, r)"
    using that by (auto simp: reader_take_def split: if_splits)
qed (auto simp: reader_take_def)

lemma reader_take_append [simp]: "length v = n \<Longrightarrow> reader_take n (v @ r) = Ok (v, r)"
  by (simp add: reader_take_iff)

lemma reader_u8_iff: "reader_u8 bs = Ok (b, r) \<longleftrightarrow> bs = b # r"
  by (auto simp: reader_u8_def split: list.split)

interpretation be128: fixed_codec "to_be 16 :: 128 word \<Rightarrow> bytes" of_be 16
  by unfold_locales (simp_all add: of_be_to_be to_be_of_be)

interpretation f_u64: wire_field "to_be 8 :: u64 \<Rightarrow> bytes" reader_u64 "\<lambda>_. True"
proof
  show "reader_u64 (to_be 8 v @ r) = Ok (v, r)" for v :: u64 and r by (simp add: reader_u64_def be64.length_enc be64.dec_enc)
  show "True \<and> bs = to_be 8 v @ r" if "reader_u64 bs = Ok (v, r)" for bs r and v :: u64
    using that be64.enc_dec by (auto simp: reader_u64_def try_bind_eq_Ok reader_take_iff)
qed

definition id_ok :: "rstring \<Rightarrow> bool" where
  "id_ok v \<longleftrightarrow> scalars v \<and> validate_id v = Ok v"

definition id_field :: "rstring \<Rightarrow> bytes" where
  "id_field v = byte (length (as_bytes v)) # as_bytes v"

lemma as_bytes_Nil_iff: "as_bytes v = [] \<longleftrightarrow> v = []"
  using utf8_char_nonempty by (auto simp: as_bytes_def)

interpretation f_id: wire_field id_field reader_id id_ok
proof
  show "reader_id (id_field v @ r) = Ok (v, r)" if v: "id_ok v" for v r
  proof -
    have l: "length (as_bytes v) \<le> 128" "v \<noteq> []" using v by (auto simp: id_ok_def validate_id_def P2P_MAX_ID_LEN_def split: if_splits)
    then have u: "unat (byte (length (as_bytes v))) = length (as_bytes v)" by (simp add: unat_byte)
    then have "byte (length (as_bytes v)) \<noteq> 0" using l(2) as_bytes_Nil_iff [of v] by (metis length_0_conv unat_0)
    then show ?thesis using l u v from_utf8_as_bytes [of v]
      by (simp add: reader_id_def id_field_def reader_u8_def P2P_MAX_ID_LEN_def id_ok_def)
  qed
  show "id_ok v \<and> bs = id_field v @ r" if get: "reader_id bs = Ok (v, r)" for bs v r
  proof -
    obtain len x where b: "bs = len # x @ r" "unat len = length x" "from_utf8 x = Some v" "validate_id v = Ok v"
      using get by (auto simp: reader_id_def try_bind_eq_Ok reader_u8_iff reader_take_iff ok_or_eq_Ok validate_id_def split: if_splits)
    then show ?thesis using as_bytes_from_utf8 [OF b(3)] from_utf8_scalars [OF b(3)] byte_unat [of len] by (simp add: id_ok_def id_field_def)
  qed
qed

definition blob_field :: "bytes \<Rightarrow> bytes" where
  "blob_field v = to_be 2 (word_of_nat (length v) :: u16) @ v"

interpretation f_blob: wire_field blob_field reader_blob "\<lambda>v. length v \<le> MAX_ANNOUNCEMENT_LEN"
proof
  show "reader_blob (blob_field v @ r) = Ok (v, r)" if v: "length v \<le> MAX_ANNOUNCEMENT_LEN" for v r
  proof -
    have "unat (word_of_nat (length v) :: u16) = length v" using v by (simp add: unat_of_nat MAX_ANNOUNCEMENT_LEN_def)
    then show ?thesis using v by (simp add: reader_blob_def blob_field_def be16.length_enc be16.dec_enc Let_def)
  qed
  show "length v \<le> MAX_ANNOUNCEMENT_LEN \<and> bs = blob_field v @ r" if get: "reader_blob bs = Ok (v, r)" for bs v r
  proof -
    obtain x where b: "bs = x @ v @ r" "length x = 2" "length v = unat (of_be x :: u16)" "length v \<le> MAX_ANNOUNCEMENT_LEN"
      using get by (auto simp: reader_blob_def try_bind_eq_Ok reader_take_iff Let_def split: if_splits)
    then have "to_be 2 (word_of_nat (length v) :: u16) = x" using be16.enc_dec [of x] by simp
    then show ?thesis using b by (simp add: blob_field_def)
  qed
qed

interpretation f_addr: wire_field push_socket_addr reader_socket_addr "\<lambda>_. True"
proof
  show "reader_socket_addr (push_socket_addr v @ r) = Ok (v, r)" for v r
    by (simp add: reader_socket_addr_def push_socket_addr_def reader_u8_def be16.length_enc be16.dec_enc be32.length_enc be32.dec_enc
        be128.length_enc be128.dec_enc split: IpAddr.split)
  show "True \<and> bs = push_socket_addr v @ r" if "reader_socket_addr bs = Ok (v, r)" for bs v r
    using that by (auto simp: reader_socket_addr_def push_socket_addr_def try_bind_eq_Ok reader_u8_iff reader_take_iff
        be16.enc_dec be32.enc_dec be128.enc_dec split: if_splits)
qed

definition p2p_packet_ok :: "P2pPacket \<Rightarrow> bool" where
  "p2p_packet_ok k = (case k of
     PP_Register g p a \<Rightarrow> id_ok g \<and> id_ok p \<and> length a \<le> MAX_ANNOUNCEMENT_LEN
   | PP_Candidate g p e a \<Rightarrow> id_ok g \<and> id_ok p \<and> length a \<le> MAX_ANNOUNCEMENT_LEN
   | PP_Punch g p \<Rightarrow> id_ok g \<and> id_ok p | PP_PunchAck g p \<Rightarrow> id_ok g \<and> id_ok p | PP_Observation g p e \<Rightarrow> id_ok g \<and> id_ok p
   | PP_Probe g p t \<Rightarrow> id_ok g \<and> id_ok p | PP_ProbeAck g p t \<Rightarrow> id_ok g \<and> id_ok p)"

text \<open>The names of a packet with its kind, and what follows them.\<close>

definition packet_names :: "P2pPacket \<Rightarrow> u8 \<times> rstring \<times> rstring" where
  "packet_names k = (case k of
     PP_Register g p a \<Rightarrow> (PACKET_REGISTER, g, p) | PP_Candidate g p e a \<Rightarrow> (PACKET_CANDIDATE, g, p)
   | PP_Punch g p \<Rightarrow> (PACKET_PUNCH, g, p) | PP_PunchAck g p \<Rightarrow> (PACKET_PUNCH_ACK, g, p) | PP_Observation g p e \<Rightarrow> (PACKET_OBSERVATION, g, p)
   | PP_Probe g p t \<Rightarrow> (PACKET_PROBE, g, p) | PP_ProbeAck g p t \<Rightarrow> (PACKET_PROBE_ACK, g, p))"

definition packet_rest :: "P2pPacket \<Rightarrow> bytes" where
  "packet_rest k = (case k of
     PP_Register g p a \<Rightarrow> blob_field a | PP_Candidate g p e a \<Rightarrow> push_socket_addr e @ blob_field a
   | PP_Observation g p e \<Rightarrow> push_socket_addr e | PP_Probe g p t \<Rightarrow> to_be 8 t | PP_ProbeAck g p t \<Rightarrow> to_be 8 t | _ \<Rightarrow> [])"

definition packet_bytes :: "P2pPacket \<Rightarrow> bytes" where
  "packet_bytes k = (case packet_names k of (kind, g, p) \<Rightarrow> P2P_MAGIC @ [P2P_VERSION, kind] @ id_field g @ id_field p @ packet_rest k)"

lemma push_id_ok: "scalars v \<Longrightarrow> push_id v = Ok x \<longleftrightarrow> id_ok v \<and> x = id_field v"
  by (auto simp: push_id_def id_ok_def id_field_def try_bind_eq_Ok validate_id_def split: if_splits)

lemma push_blob_ok: "push_blob v = Ok x \<longleftrightarrow> length v \<le> MAX_ANNOUNCEMENT_LEN \<and> x = blob_field v"
  by (auto simp: push_blob_def blob_field_def)

definition packet_text :: "P2pPacket \<Rightarrow> bool" where
  "packet_text k \<longleftrightarrow> (case packet_names k of (_, g, p) \<Rightarrow> scalars g \<and> scalars p)"

lemma packet_body_ok:
  assumes "packet_text k"
  shows "packet_body k = Ok bs \<longleftrightarrow> p2p_packet_ok k \<and> bs = packet_bytes k"
  using assms by (cases k)
    (auto simp: packet_text_def packet_names_def packet_body_def push_ids_def try_bind_eq_Ok push_id_ok push_blob_ok p2p_packet_ok_def packet_bytes_def packet_rest_def)

lemma length_id_field: "id_ok v \<Longrightarrow> length (id_field v) \<le> 129"
  by (auto simp: id_ok_def id_field_def validate_id_def P2P_MAX_ID_LEN_def split: if_splits)

lemma length_packet_bytes: "p2p_packet_ok k \<Longrightarrow> length (packet_bytes k) \<le> P2P_MAX_PACKET_LEN"
proof -
  assume ok: "p2p_packet_ok k"
  obtain kind g p where n: "packet_names k = (kind, g, p)" by (cases "packet_names k") auto
  have "id_ok g" "id_ok p" using ok n by (cases k; auto simp: p2p_packet_ok_def packet_names_def)+
  moreover have "length (packet_rest k) \<le> 19 + 1202"
    using ok by (cases k) (auto simp: p2p_packet_ok_def packet_rest_def blob_field_def push_socket_addr_def be16.length_enc be32.length_enc be64.length_enc
        be128.length_enc MAX_ANNOUNCEMENT_LEN_def split: IpAddr.split)
  ultimately show ?thesis using length_id_field [of g] length_id_field [of p] n by (simp add: packet_bytes_def P2P_MAGIC_def P2P_MAX_PACKET_LEN_def)
qed

text \<open>Encoding fails only for an unusable name or announcement, never for the length of the packet.\<close>

lemma p2p_encode_ok: "packet_text k \<Longrightarrow> p2p_encode k = Ok bs \<longleftrightarrow> p2p_packet_ok k \<and> bs = packet_bytes k"
  using packet_body_ok [of k] length_packet_bytes [of k] by (fastforce simp: p2p_encode_def try_bind_eq_Ok)

lemma read_packet_iff:
  "read_packet kind g p bs = Ok (k, []) \<and> id_ok g \<and> id_ok p \<longleftrightarrow> packet_names k = (kind, g, p) \<and> p2p_packet_ok k \<and> bs = packet_rest k"
  by (cases k) (auto simp: read_packet_def packet_names_def p2p_packet_ok_def packet_rest_def packet_kinds try_bind_eq_Ok
      f_blob.get_iff f_addr.get_iff f_u64.get_iff)

lemma p2p_decode_iff: "p2p_decode bs = Ok k \<longleftrightarrow> p2p_packet_ok k \<and> bs = packet_bytes k"
proof -
  obtain kind g p where n: "packet_names k = (kind, g, p)" by (cases "packet_names k") auto
  have head: "take (length P2P_MAGIC) bs = P2P_MAGIC \<and> drop (length P2P_MAGIC) bs = x \<longleftrightarrow> bs = P2P_MAGIC @ x" for x
    by (metis append_eq_conv_conj append_take_drop_id)
  have "p2p_decode bs = Ok k \<longleftrightarrow> length bs \<le> P2P_MAX_PACKET_LEN \<and> length P2P_MAGIC + 2 \<le> length bs \<and>
      (\<exists>kind g p r. (take (length P2P_MAGIC) bs = P2P_MAGIC \<and> drop (length P2P_MAGIC) bs = [P2P_VERSION, kind] @ id_field g @ id_field p @ r) \<and>
        read_packet kind g p r = Ok (k, []) \<and> id_ok g \<and> id_ok p)"
    by (auto simp: p2p_decode_def try_bind_eq_Ok reader_u8_iff f_id.get_iff split: if_splits) blast
  also have "\<dots> \<longleftrightarrow> length bs \<le> P2P_MAX_PACKET_LEN \<and>
      (\<exists>kind g p r. bs = P2P_MAGIC @ [P2P_VERSION, kind] @ id_field g @ id_field p @ r \<and> read_packet kind g p r = Ok (k, []) \<and> id_ok g \<and> id_ok p)"
    unfolding head by auto
  also have "\<dots> \<longleftrightarrow> p2p_packet_ok k \<and> bs = packet_bytes k"
    unfolding read_packet_iff using length_packet_bytes [of k] n by (auto simp: packet_bytes_def)
  finally show ?thesis .
qed

lemma encode_iff_decode: "packet_text k \<Longrightarrow> p2p_encode k = Ok bs \<longleftrightarrow> p2p_decode bs = Ok k"
  by (simp add: p2p_encode_ok p2p_decode_iff)

text \<open>
  The wire format is exact: a packet that encodes is decoded to itself, a packet that decodes is the encoding
  of what it decodes to, so no two byte strings mean the same packet.
\<close>

theorem p2p_packet_roundtrip:
  assumes "packet_text k"
  shows "p2p_encode k = Ok bs \<longleftrightarrow> p2p_decode bs = Ok k"
  by (rule encode_iff_decode [OF assms])

section \<open>The rendezvous server is bounded and confined\<close>

definition in_group :: "rstring \<Rightarrow> rv_table \<Rightarrow> nat" where
  "in_group g peers = length (filter (\<lambda>((group, _), _). group = g) peers)"

definition registered :: "RvEvent list \<Rightarrow> rstring \<Rightarrow> rstring \<Rightarrow> SocketAddr \<Rightarrow> bytes \<Rightarrow> bool" where
  "registered es g p addr a \<longleftrightarrow> (\<exists>now bs. RvDatagram now addr bs \<in> set es \<and> p2p_decode bs = Ok (PP_Register g p a))"

definition rv_ok :: "P2pRendezvousServerConfig \<Rightarrow> RvEvent list \<Rightarrow> rv_table \<Rightarrow> bool" where
  "rv_ok cfg es s \<longleftrightarrow> hash_wf s \<and> length s \<le> rv_max_total cfg \<and> (\<forall>g. in_group g s \<le> rv_max_group cfg) \<and>
     (\<forall>g p peer. ((g, p), peer) \<in> set s \<longrightarrow> registered es g p (rp_addr peer) (rp_announcement peer))"

lemma keys_update_old: "map_of m k = Some v0 \<Longrightarrow> map fst (AList.update k v m) = map fst m"
  by (induction m) (auto split: if_splits)

lemma in_group_keys: "in_group g s = length (filter (\<lambda>(group, _). group = g) (map fst s))"
  unfolding in_group_def by (induction s) auto

lemma in_group_update:
  "in_group g' (AList.update (g, p) v s) = in_group g' s + (if map_of s (g, p) = None \<and> g' = g then 1 else 0)"
  by (cases "map_of s (g, p)") (simp_all add: in_group_keys alist_update_new keys_update_old)

lemma in_group_filter: "in_group g (filter P s) \<le> in_group g s"
  unfolding in_group_def by (induction s) auto

lemma registered_mono: "registered es g p addr a \<Longrightarrow> set es \<subseteq> set es' \<Longrightarrow> registered es' g p addr a"
  by (auto simp: registered_def)

lemma set_mono_append: "set xs \<subseteq> set (xs @ ys)"
  by simp

lemma rv_register_ok:
  assumes ok: "rv_ok cfg es s" and reg: "registered es g p addr a"
  shows "rv_ok cfg es (fst (rv_register cfg now addr g p a s))"
proof (cases "map_of s (g, p) = None \<and> (in_group g s \<ge> rv_max_group cfg \<or> length s \<ge> rv_max_total cfg)")
  case False
  let ?v = "\<lparr>rp_addr = addr, rp_announcement = a, rp_last_seen = now\<rparr>"
  have s: "fst (rv_register cfg now addr g p a s) = AList.update (g, p) ?v s"
    using False unfolding rv_register_def in_group_def [symmetric] Let_def if_not_P [OF False] by simp
  have "length (AList.update (g, p) ?v s) \<le> rv_max_total cfg"
    using ok False by (cases "map_of s (g, p)") (auto simp: rv_ok_def alist_update_new length_update_old)
  moreover have "in_group g' (AList.update (g, p) ?v s) \<le> rv_max_group cfg" for g'
    using ok False by (auto simp: rv_ok_def in_group_update not_le intro: Suc_leI)
  moreover have w: "hash_wf (AList.update (g, p) ?v s)" using ok by (simp add: rv_ok_def hash_wf_ops)
  ultimately show ?thesis using ok reg unfolding s rv_ok_def hash_wf_mem [OF w] by (auto simp: hash_wf_mem map_of_AList split: if_splits)
qed (use ok in \<open>simp add: rv_register_def in_group_def [symmetric] Let_def\<close>)

lemma rv_step_ok:
  assumes ok: "rv_ok cfg es s"
  shows "rv_ok cfg (es @ [e]) (fst (rv_step cfg s e))"
proof -
  have k: "rv_ok cfg (es @ [e]) s" using ok registered_mono [of es _ _ _ _ "es @ [e]", OF _ set_mono_append] unfolding rv_ok_def by blast
  show ?thesis
  proof (cases e)
    case (RvPrune now)
    then show ?thesis using k in_group_filter [of _ _ s]
      by (auto simp: rv_step_def rv_prune_def rv_ok_def hash_wf_filter intro: le_trans [OF length_filter_le] le_trans [OF in_group_filter])
  next
    case (RvDatagram now addr bs)
    have "rv_ok cfg (es @ [e]) (fst (rv_register cfg now addr g p a s))" if "p2p_decode bs = Ok (PP_Register g p a)" for g p a
      by (rule rv_register_ok [OF k]) (use that RvDatagram in \<open>auto simp: registered_def\<close>)
    then show ?thesis using k RvDatagram by (auto simp: rv_step_def rv_receive_def split: sum.split P2pPacket.split)
  qed
qed

lemma rv_run_ok: "rv_ok cfg es (rv_run cfg es)"
proof (induction es rule: rev_induct)
  case Nil
  then show ?case by (simp add: rv_run_def rv_ok_def hash_wf_def in_group_def)
next
  case (snoc e es)
  then show ?case using rv_step_ok [OF snoc.IH, of e] by (simp add: rv_run_def)
qed

lemma send_packet_in: "packet_text k \<Longrightarrow> (d, bs) \<in> set (send_packet k x) \<longleftrightarrow> d = x \<and> p2p_decode bs = Ok k"
  using encode_iff_decode [of k bs] by (auto simp: send_packet_def split: sum.split)

text \<open>
  The server keeps its limits, and what it sends stays in the group: a registration is answered with the
  address it came from, and a candidate names a device that registered, from the address and with the
  announcement given there, to another device that registered in the same group.
\<close>

theorem rendezvous_confined:
  assumes "(d, packet) \<in> set (snd (rv_step cfg (rv_run cfg es) e))"
  shows "(\<exists>g p a. p2p_decode packet = Ok (PP_Observation g p d) \<and> registered [e] g p d a) \<or>
    (\<exists>g p addr a q b. p2p_decode packet = Ok (PP_Candidate g p addr a) \<and> registered (es @ [e]) g p addr a \<and>
       p \<noteq> q \<and> registered (es @ [e]) g q d b)"
proof -
  let ?s = "rv_run cfg es"
  obtain now addr bs g p a where e: "e = RvDatagram now addr bs" "p2p_decode bs = Ok (PP_Register g p a)"
      and s: "(d, packet) \<in> set (snd (rv_register cfg now addr g p a ?s))"
    using assms by (auto simp: rv_step_def rv_receive_def split: RvEvent.splits sum.splits P2pPacket.splits)
  have new: "registered [e] g p addr a" using e by (auto simp: registered_def)
  have old: "registered es g q (rp_addr other) (rp_announcement other)" if "((g, q), other) \<in> set ?s" for q other
    using rv_run_ok that unfolding rv_ok_def by blast
  have sc: "scalars g" "scalars p" using e(2) unfolding p2p_decode_iff by (auto simp: p2p_packet_ok_def id_ok_def)
  have sc': "scalars q" if "((g, q), other) \<in> set ?s" for q other
    using old [OF that] unfolding registered_def p2p_decode_iff by (auto simp: p2p_packet_ok_def id_ok_def)
  have reg: "registered (es @ [e]) g p addr a" using registered_mono [OF new] by simp
  have reg': "registered (es @ [e]) g q (rp_addr other) (rp_announcement other)" if "((g, q), other) \<in> set ?s" for q other
    by (rule registered_mono [OF old [OF that]]) auto
  consider "(d, packet) \<in> set (send_packet (PP_Observation g p addr) addr)"
    | q other where "((g, q), other) \<in> set ?s" "q \<noteq> p" "(d, packet) \<in> set (send_packet (PP_Candidate g q (rp_addr other) (rp_announcement other)) addr)"
    | q other where "((g, q), other) \<in> set ?s" "q \<noteq> p" "(d, packet) \<in> set (send_packet (PP_Candidate g p addr a) (rp_addr other))"
    using s by (auto simp: rv_register_def Let_def split: if_splits)
  then show ?thesis
  proof cases
    case 1
    then show ?thesis using new sc by (auto simp: send_packet_in packet_text_def packet_names_def)
  next
    case 2
    then have "d = addr" "p2p_decode packet = Ok (PP_Candidate g q (rp_addr other) (rp_announcement other))"
      using sc sc' [OF 2(1)] by (simp_all add: send_packet_in packet_text_def packet_names_def)
    then show ?thesis using reg reg' [OF 2(1)] 2(2) by blast
  next
    case 3
    then have "d = rp_addr other" "p2p_decode packet = Ok (PP_Candidate g p addr a)"
      using sc by (simp_all add: send_packet_in packet_text_def packet_names_def)
    then show ?thesis using reg reg' [OF 3(1)] 3(2) by metis
  qed
qed

text \<open>Whatever arrives, the table holds at most as many devices, and as many of one group, as configured.\<close>

theorem rendezvous_bounded: "length (rv_run cfg es) \<le> rv_max_total cfg \<and> in_group g (rv_run cfg es) \<le> rv_max_group cfg"
  using rv_run_ok [of cfg es] by (simp add: rv_ok_def)

text \<open>Two devices of a group that register are introduced to each other.\<close>

lemma rv_introduces:
  assumes "p2p_decode bs = Ok (PP_Register g p a)" "((g, q), other) \<in> set s" "q \<noteq> p"
    and "map_of s (g, p) \<noteq> None \<or> in_group g s < rv_max_group cfg \<and> length s < rv_max_total cfg"
    and "id_ok q" "length (rp_announcement other) \<le> MAX_ANNOUNCEMENT_LEN"
  shows "(rp_addr other, packet_bytes (PP_Candidate g p addr a)) \<in> set (snd (rv_receive cfg now addr bs s)) \<and>
    (addr, packet_bytes (PP_Candidate g q (rp_addr other) (rp_announcement other))) \<in> set (snd (rv_receive cfg now addr bs s)) \<and>
    (addr, packet_bytes (PP_Observation g p addr)) \<in> set (snd (rv_receive cfg now addr bs s))"
proof -
  have ok: "id_ok g" "id_ok p" "length a \<le> MAX_ANNOUNCEMENT_LEN" using assms(1) unfolding p2p_decode_iff by (auto simp: p2p_packet_ok_def)
  have sent: "(x, packet_bytes k) \<in> set (send_packet k x)" if "p2p_packet_ok k" "packet_text k" for k x
    using that(1) p2p_encode_ok [OF that(2), of "packet_bytes k"] by (simp add: send_packet_def)
  have sc: "scalars g" "scalars p" "scalars q" using ok assms(5) by (simp_all add: id_ok_def)
  have room: "\<not> (map_of s (g, p) = None \<and> (in_group g s \<ge> rv_max_group cfg \<or> length s \<ge> rv_max_total cfg))" using assms(4) by auto
  have "(rp_addr other, packet_bytes (PP_Candidate g p addr a)) \<in> set (send_packet (PP_Candidate g p addr a) (rp_addr other))"
    "(addr, packet_bytes (PP_Candidate g q (rp_addr other) (rp_announcement other))) \<in> set (send_packet (PP_Candidate g q (rp_addr other) (rp_announcement other)) addr)"
    "(addr, packet_bytes (PP_Observation g p addr)) \<in> set (send_packet (PP_Observation g p addr) addr)"
    by (rule sent; use ok assms(5,6) sc in \<open>simp add: p2p_packet_ok_def packet_text_def packet_names_def\<close>)+
  then show ?thesis using assms(1-3)
    unfolding rv_receive_def rv_register_def in_group_def [symmetric] Let_def if_not_P [OF room]
    by (force simp: rv_register_def Let_def if_not_P [OF room] in_group_def [symmetric])
qed

section \<open>A group of two\<close>

lemma demo_id_ok: "id_ok (lit ''g'')" "id_ok (lit ''a'')" "id_ok (lit ''b'')"
  by (simp_all add: id_ok_def validate_id_def lit_def as_bytes_def utf8_char_def scalars_def scalar_def p2p_id_byte_def unat_byte P2P_MAX_ID_LEN_def)

definition demo_public :: "u16 \<Rightarrow> SocketAddr" where
  "demo_public port = \<lparr>sa_ip = V4 0xCB007105, sa_port = port\<rparr>"

definition demo_registrations :: "RvEvent list" where
  "demo_registrations = [RvDatagram 0 (demo_public 1) (packet_bytes (PP_Register (lit ''g'') (lit ''a'') [7]))]"

lemma demo_register_decodes: "p2p_decode (packet_bytes (PP_Register (lit ''g'') (lit ''a'') [7])) = Ok (PP_Register (lit ''g'') (lit ''a'') [7])"
  "p2p_decode (packet_bytes (PP_Register (lit ''g'') (lit ''b'') [])) = Ok (PP_Register (lit ''g'') (lit ''b'') [])"
  using demo_id_ok by (simp_all add: p2p_decode_iff p2p_packet_ok_def MAX_ANNOUNCEMENT_LEN_def)

lemma demo_registered: "rv_run rv_config_new demo_registrations =
  [((lit ''g'', lit ''a''), \<lparr>rp_addr = demo_public 1, rp_announcement = [7], rp_last_seen = 0\<rparr>)]"
  by (simp add: rv_run_def demo_registrations_def rv_step_def rv_receive_def demo_register_decodes rv_register_def rv_config_new_def)

theorem p2p_packet_roundtrip_witness:
  "p2p_decode (packet_bytes (PP_Probe (lit ''g'') (lit ''a'') 5)) = Ok (PP_Probe (lit ''g'') (lit ''a'') 5)"
proof -
  have t: "packet_text (PP_Probe (lit ''g'') (lit ''a'') 5)" using demo_id_ok by (simp add: packet_text_def packet_names_def id_ok_def)
  have "p2p_encode (PP_Probe (lit ''g'') (lit ''a'') 5) = Ok (packet_bytes (PP_Probe (lit ''g'') (lit ''a'') 5))"
    using demo_id_ok by (simp add: p2p_encode_ok [OF t] p2p_packet_ok_def)
  then show ?thesis using p2p_packet_roundtrip [OF t] by blast
qed

lemma demo_introduced: "(demo_public 1, packet_bytes (PP_Candidate (lit ''g'') (lit ''b'') (demo_public 2) [])) \<in>
  set (snd (rv_receive rv_config_new 1 (demo_public 2) (packet_bytes (PP_Register (lit ''g'') (lit ''b'') [])) (rv_run rv_config_new demo_registrations)))"
proof -
  let ?s = "rv_run rv_config_new demo_registrations" and ?o = "\<lparr>rp_addr = demo_public 1, rp_announcement = [7], rp_last_seen = 0\<rparr>"
  have "((lit ''g'', lit ''a''), ?o) \<in> set ?s" "lit ''a'' \<noteq> lit ''b''"
    "map_of ?s (lit ''g'', lit ''b'') \<noteq> None \<or> in_group (lit ''g'') ?s < rv_max_group rv_config_new \<and> length ?s < rv_max_total rv_config_new"
    "length (rp_announcement ?o) \<le> MAX_ANNOUNCEMENT_LEN"
    unfolding demo_registered by (simp_all add: lit_def in_group_def rv_config_new_def MAX_ANNOUNCEMENT_LEN_def)
  from rv_introduces [OF demo_register_decodes(2) this(1-3) demo_id_ok(2) this(4), of "demo_public 2" 1] show ?thesis by simp
qed

theorem rendezvous_confined_witness:
  "(demo_public 1, packet_bytes (PP_Candidate (lit ''g'') (lit ''b'') (demo_public 2) [])) \<in>
     set (snd (rv_step rv_config_new (rv_run rv_config_new demo_registrations)
       (RvDatagram 1 (demo_public 2) (packet_bytes (PP_Register (lit ''g'') (lit ''b'') []))))) \<and>
   (\<exists>b. registered (demo_registrations @ [RvDatagram 1 (demo_public 2) (packet_bytes (PP_Register (lit ''g'') (lit ''b'') []))])
      (lit ''g'') (lit ''b'') (demo_public 2) [] \<and> b \<noteq> lit ''b'')"
proof -
  let ?e = "RvDatagram 1 (demo_public 2) (packet_bytes (PP_Register (lit ''g'') (lit ''b'') []))"
  let ?c = "packet_bytes (PP_Candidate (lit ''g'') (lit ''b'') (demo_public 2) [])"
  have s: "(demo_public 1, ?c) \<in> set (snd (rv_step rv_config_new (rv_run rv_config_new demo_registrations) ?e))"
    using demo_introduced by (simp add: rv_step_def)
  have d: "p2p_decode ?c = Ok (PP_Candidate (lit ''g'') (lit ''b'') (demo_public 2) [])"
    using demo_id_ok by (simp add: p2p_decode_iff p2p_packet_ok_def)
  from rendezvous_confined [OF s] d s show ?thesis by force
qed

end
