(* ===== verification/Routed_Relay.thy ===== *)
theory Routed_Relay
  imports Relay_Server P2p_Rendezvous
begin

text \<open>
  The device- and connection-addressed adapter over the relay or a direct tunnel
  (\<open>remote_core/src/routed_relay.rs\<close>): the authenticated envelope, the listeners (one local UDP endpoint per
  remote device for the clients of this machine, one per incoming connection towards the host), the tables
  of outgoing and incoming routes and their expiry.

  A router step takes what the event loop takes from one branch of its \<open>select!\<close>, with the clock, the result
  of binding a socket and the random tokens drawn as arguments, and returns the datagrams it sends.
  HMAC-SHA-256 is an argument, a function of key and message.  The channel on which readers report to the
  router is open as long as the router runs, because the router owns its receiving end.
\<close>

section \<open>Envelopes\<close>

definition MAX_PEERS :: nat where "MAX_PEERS = 64"
definition MAX_ROUTES :: nat where "MAX_ROUTES = 128"
definition IDLE :: nat where "IDLE = 60000"
definition ENDPOINT_IDLE :: nat where "ENDPOINT_IDLE = 300000"
definition MAGIC :: bytes where "MAGIC = [0x52, 0x50, 0x4D, 0x58]"
definition MAX_PAYLOAD :: nat where "MAX_PAYLOAD = 64000"

type_synonym Token = bytes
type_synonym mac_fun = "bytes \<Rightarrow> bytes \<Rightarrow> bytes"

definition derive_routing_key :: "mac_fun \<Rightarrow> bytes \<Rightarrow> bytes" where
  "derive_routing_key hmac secret = hmac secret (as_bytes (lit ''RemotePlay relay destination binding v1''))"

record Envelope =
  en_source :: rstring
  en_target :: rstring
  en_token :: Token
  en_response :: bool
  en_payload :: bytes

definition id_byte :: "u8 \<Rightarrow> bool" where
  "id_byte b \<longleftrightarrow> (let n = unat b in 48 \<le> n \<and> n \<le> 57 \<or> 65 \<le> n \<and> n \<le> 90 \<or> 97 \<le> n \<and> n \<le> 122 \<or> n \<in> {46, 95, 45})"

definition valid_id :: "rstring \<Rightarrow> bool" where
  "valid_id s \<longleftrightarrow> s \<noteq> [] \<and> length (as_bytes s) \<le> 128 \<and> list_all id_byte (as_bytes s)"

definition envelope_body :: "Envelope \<Rightarrow> bytes" where
  "envelope_body e =
     MAGIC @ [1, of_bool (en_response e)] @ en_token e @
     [byte (length (as_bytes (en_source e))), byte (length (as_bytes (en_target e)))] @
     as_bytes (en_source e) @ as_bytes (en_target e) @
     to_be 2 (word_of_nat (length (en_payload e)) :: u16) @ en_payload e"

definition envelope_encode :: "mac_fun \<Rightarrow> bytes \<Rightarrow> Envelope \<Rightarrow> bytes option" where
  "envelope_encode hmac key e =
     (if \<not> valid_id (en_source e) \<or> \<not> valid_id (en_target e) \<or> length (en_payload e) > MAX_PAYLOAD then None
      else Some (envelope_body e @ hmac key (envelope_body e)))"

text \<open>\<open>slice::get\<close> of a range.\<close>

definition get_range :: "nat \<Rightarrow> nat \<Rightarrow> 'a list \<Rightarrow> 'a list option" where
  "get_range a b xs = (if a \<le> b \<and> b \<le> length xs then Some (take (b - a) (drop a xs)) else None)"

definition envelope_decode :: "mac_fun \<Rightarrow> bytes \<Rightarrow> bytes \<Rightarrow> Envelope option" where
  "envelope_decode hmac key bs =
     (if length bs < 58 \<or> length bs > MAX_PAYLOAD + 314 \<or> take 4 bs \<noteq> MAGIC \<or> bs ! 4 \<noteq> 1 \<or> bs ! 5 > 1 then None
      else
        let body = take (length bs - 32) bs; tag = drop (length bs - 32) bs in
        if hmac key body \<noteq> tag then None
        else
          let a = unat (body ! 22); b = unat (body ! 23); stop = 24 + a + b in
          Option.bind (Option.bind (get_range 24 (24 + a) body) from_utf8) (\<lambda>source.
          Option.bind (Option.bind (get_range (24 + a) stop body) from_utf8) (\<lambda>target.
          Option.bind (get_range stop (stop + 2) body) (\<lambda>len.
          let size = unat (of_be len :: u16) in
          if \<not> valid_id source \<or> \<not> valid_id target \<or> length body \<noteq> stop + 2 + size \<or> size > MAX_PAYLOAD then None
          else Some \<lparr>en_source = source, en_target = target, en_token = take 16 (drop 6 body), en_response = (body ! 5 \<noteq> 0),
            en_payload = drop (stop + 2) body\<rparr>))))"

section \<open>Listeners and transports\<close>

datatype ErrorKind = ConnectionReset | ConnectionRefused | Interrupted | WouldBlock | TimedOut | InvalidInput | InvalidData | OtherKind

definition recoverable_datagram_error :: "ErrorKind \<Rightarrow> bool" where
  "recoverable_datagram_error k \<longleftrightarrow> k \<in> {ConnectionReset, ConnectionRefused, Interrupted, WouldBlock, TimedOut}"

datatype ListenerKind = LK_Client rstring | LK_Host rstring Token SocketAddr

datatype Event = EvClient rstring SocketAddr SocketAddr bytes | EvHost rstring Token bytes

record Listener =
  ls_addr :: SocketAddr
  ls_kind :: ListenerKind
  ls_touched :: nat
  ls_finished :: bool
  ls_failure :: "ErrorKind option"

definition listener_new :: "nat \<Rightarrow> SocketAddr \<Rightarrow> ListenerKind \<Rightarrow> Listener" where
  "listener_new now addr kind = \<lparr>ls_addr = addr, ls_kind = kind, ls_touched = now, ls_finished = False, ls_failure = None\<rparr>"

text \<open>What the reader of a listener reports for one datagram; one that fills the buffer is too long.\<close>

definition reader_packet :: "Listener \<Rightarrow> SocketAddr \<Rightarrow> bytes \<Rightarrow> Event option" where
  "reader_packet l from bs =
     (if length bs > MAX_PAYLOAD then None
      else case ls_kind l of
        LK_Client peer \<Rightarrow> if is_loopback (sa_ip from) then Some (EvClient peer from (ls_addr l) bs) else None
      | LK_Host peer token host \<Rightarrow> if from = host then Some (EvHost peer token bs) else None)"

text \<open>A receive error ends the reader unless it is about an earlier datagram.\<close>

definition reader_error :: "ErrorKind \<Rightarrow> Listener \<Rightarrow> Listener" where
  "reader_error k l = (if recoverable_datagram_error k then l else l\<lparr>ls_finished := True, ls_failure := Some k\<rparr>)"

definition ensure_reader :: "Listener \<Rightarrow> (Listener, ErrorKind) result" where
  "ensure_reader l =
     (if \<not> ls_finished l then Ok l
      else case ls_failure l of Some k \<Rightarrow> Err k | None \<Rightarrow> Ok (l\<lparr>ls_finished := False\<rparr>))"

text \<open>\<open>let _ = listener.ensure_reader(..)\<close>.\<close>

definition try_reader :: "Listener \<Rightarrow> Listener" where
  "try_reader l = (case ensure_reader l of Inr l' \<Rightarrow> l' | Inl _ \<Rightarrow> l)"

datatype RouteTransport = TrRelay SocketAddr | TrP2p P2pTunnelSnapshot

definition endpoint :: "RouteTransport \<Rightarrow> rstring \<Rightarrow> SocketAddr option" where
  "endpoint tr peer = (case tr of
     TrRelay addr \<Rightarrow> Some addr
   | TrP2p s \<Rightarrow> (case route_for_peer peer s of
       Some addr \<Rightarrow> if is_loopback (sa_ip addr) then Some addr else None | None \<Rightarrow> None))"

definition accepts :: "RouteTransport \<Rightarrow> SocketAddr \<Rightarrow> rstring \<Rightarrow> bool" where
  "accepts tr source peer \<longleftrightarrow> endpoint tr peer = Some source"

section \<open>The router\<close>

record Outgoing =
  og_peer :: rstring
  og_local :: SocketAddr
  og_seen :: nat

record Incoming =
  ic_listener :: Listener
  ic_seen :: nat

record RoutedRelay =
  rr_local_id :: rstring
  rr_key :: bytes
  rr_host :: "SocketAddr option"
  rr_peers :: "(rstring \<times> Listener) list"
  rr_outgoing :: "(Token \<times> Outgoing) list"
  rr_clients :: "((rstring \<times> SocketAddr) \<times> Token) list"
  rr_incoming :: "((rstring \<times> Token) \<times> Incoming) list"

definition router_bind :: "rstring \<Rightarrow> bytes \<Rightarrow> SocketAddr option \<Rightarrow> (RoutedRelay, ErrorKind) result" where
  "router_bind local_id key host =
     (if \<not> valid_id local_id \<or> (case host of Some a \<Rightarrow> \<not> is_loopback (sa_ip a) | None \<Rightarrow> False) then Err InvalidInput
      else Ok \<lparr>rr_local_id = local_id, rr_key = key, rr_host = host, rr_peers = [], rr_outgoing = [], rr_clients = [], rr_incoming = []\<rparr>)"

text \<open>A datagram sent: from the hub, or from a listener's socket.\<close>

datatype Send = FromHub SocketAddr bytes | FromListener SocketAddr SocketAddr bytes

definition expire_at :: "nat \<Rightarrow> RoutedRelay \<Rightarrow> RoutedRelay" where
  "expire_at now r =
     (let outgoing = filter (\<lambda>(_, v). now - og_seen v < IDLE) (rr_outgoing r);
          clients = filter (\<lambda>(_, token). map_of outgoing token \<noteq> None) (rr_clients r);
          incoming = filter (\<lambda>(_, v). now - ic_seen v < IDLE) (rr_incoming r);
          active = map (\<lambda>(_, v). og_peer v) outgoing;
          peers = filter (\<lambda>(peer, l). peer \<in> set active \<or> now - ls_touched l < ENDPOINT_IDLE) (rr_peers r)
      in r\<lparr>rr_outgoing := outgoing, rr_clients := clients,
           rr_incoming := map (\<lambda>(k, v). (k, v\<lparr>ic_listener := try_reader (ic_listener v)\<rparr>)) incoming,
           rr_peers := map (\<lambda>(k, l). (k, try_reader l)) peers\<rparr>)"

definition peer_endpoint :: "nat \<Rightarrow> (SocketAddr, ErrorKind) result \<Rightarrow> rstring \<Rightarrow> RoutedRelay \<Rightarrow>
    RoutedRelay \<times> (SocketAddr, ErrorKind) result" where
  "peer_endpoint now bound peer r =
     (if peer = rr_local_id r \<or> \<not> valid_id peer then (r, Err InvalidInput)
      else case map_of (rr_peers r) peer of
        Some p \<Rightarrow> (case ensure_reader p of
          Inl k \<Rightarrow> (r, Err k)
        | Inr p' \<Rightarrow> (r\<lparr>rr_peers := AList.update peer (p'\<lparr>ls_touched := now\<rparr>) (rr_peers r)\<rparr>, Ok (ls_addr p')))
      | None \<Rightarrow>
        let r = expire_at now r in
        if length (rr_peers r) \<ge> MAX_PEERS then (r, Err OtherKind)
        else case bound of
          Inl k \<Rightarrow> (r, Err k)
        | Inr addr \<Rightarrow> (r\<lparr>rr_peers := AList.update peer (listener_new now addr (LK_Client peer)) (rr_peers r)\<rparr>, Ok addr))"

definition hub_send :: "mac_fun \<Rightarrow> SocketAddr \<Rightarrow> rstring \<Rightarrow> Token \<Rightarrow> bool \<Rightarrow> bytes \<Rightarrow> RoutedRelay \<Rightarrow> Send list" where
  "hub_send hmac relay peer token response payload r =
     (case envelope_encode hmac (rr_key r) \<lparr>en_source = rr_local_id r, en_target = peer, en_token = token, en_response = response,
        en_payload = payload\<rparr> of
        Some bs \<Rightarrow> [FromHub relay bs] | None \<Rightarrow> [])"

definition receive_response :: "nat \<Rightarrow> Envelope \<Rightarrow> RoutedRelay \<Rightarrow> RoutedRelay \<times> Send list" where
  "receive_response now e r =
     (case map_of (rr_outgoing r) (en_token e) of
        None \<Rightarrow> (r, [])
      | Some route \<Rightarrow>
        if og_peer route \<noteq> en_source e then (r, [])
        else
          let r = r\<lparr>rr_outgoing := AList.update (en_token e) (route\<lparr>og_seen := now\<rparr>) (rr_outgoing r)\<rparr> in
          case map_of (rr_peers r) (og_peer route) of
            None \<Rightarrow> (r, [])
          | Some peer \<Rightarrow> (case ensure_reader (peer\<lparr>ls_touched := now\<rparr>) of
              Inl _ \<Rightarrow> (r\<lparr>rr_peers := AList.update (og_peer route) (peer\<lparr>ls_touched := now\<rparr>) (rr_peers r)\<rparr>, [])
            | Inr peer' \<Rightarrow> (r\<lparr>rr_peers := AList.update (og_peer route) peer' (rr_peers r)\<rparr>,
                [FromListener (ls_addr peer') (og_local route) (en_payload e)])))"

definition receive_request :: "nat \<Rightarrow> (SocketAddr, ErrorKind) result \<Rightarrow> Envelope \<Rightarrow> RoutedRelay \<Rightarrow> RoutedRelay \<times> Send list" where
  "receive_request now bound e r =
     (case rr_host r of
        None \<Rightarrow> (r, [])
      | Some host \<Rightarrow>
        let key = (en_source e, en_token e);
            opened = (case map_of (rr_incoming r) key of
              Some _ \<Rightarrow> Inr r
            | None \<Rightarrow>
              let r = expire_at now r in
              if length (rr_incoming r) \<ge> MAX_ROUTES then Inl r
              else case bound of
                Inl _ \<Rightarrow> Inl r
              | Inr addr \<Rightarrow> Inr (r\<lparr>rr_incoming := AList.update key
                  \<lparr>ic_listener = listener_new now addr (LK_Host (en_source e) (en_token e) host), ic_seen = now\<rparr> (rr_incoming r)\<rparr>))
        in case opened of
             Inl r \<Rightarrow> (r, [])
           | Inr r \<Rightarrow> (case map_of (rr_incoming r) key of
               None \<Rightarrow> (r, [])
             | Some route \<Rightarrow> (case ensure_reader (ic_listener route) of
                 Inl _ \<Rightarrow> (r, [])
               | Inr l \<Rightarrow> (r\<lparr>rr_incoming := AList.update key \<lparr>ic_listener = l, ic_seen = now\<rparr> (rr_incoming r)\<rparr>,
                   [FromListener (ls_addr l) host (en_payload e)]))))"

definition receive :: "nat \<Rightarrow> (SocketAddr, ErrorKind) result \<Rightarrow> Envelope \<Rightarrow> RoutedRelay \<Rightarrow> RoutedRelay \<times> Send list" where
  "receive now bound e r =
     (if en_target e \<noteq> rr_local_id r \<or> en_source e = rr_local_id r then (r, [])
      else if en_response e then receive_response now e r
      else receive_request now bound e r)"

text \<open>The token of a client: the one it has, or the first drawn that no route uses.  \<open>None\<close> when all routes are
  taken (or, with no new token among those drawn, while the loop still draws).\<close>

definition client_token :: "nat \<Rightarrow> Token list \<Rightarrow> rstring \<Rightarrow> SocketAddr \<Rightarrow> RoutedRelay \<Rightarrow> RoutedRelay \<times> Token option" where
  "client_token now drawn peer addr r =
     (case map_of (rr_clients r) (peer, addr) of
        Some token \<Rightarrow> (r, Some token)
      | None \<Rightarrow>
        let r = (if length (rr_outgoing r) \<ge> MAX_ROUTES then expire_at now r else r) in
        if length (rr_outgoing r) \<ge> MAX_ROUTES then (r, None)
        else case List.find (\<lambda>t. map_of (rr_outgoing r) t = None) drawn of
          None \<Rightarrow> (r, None)
        | Some token \<Rightarrow> (r\<lparr>rr_clients := AList.update (peer, addr) token (rr_clients r),
            rr_outgoing := AList.update token \<lparr>og_peer = peer, og_local = addr, og_seen = now\<rparr> (rr_outgoing r)\<rparr>, Some token))"

definition client_event :: "mac_fun \<Rightarrow> RouteTransport \<Rightarrow> nat \<Rightarrow> Token list \<Rightarrow> rstring \<Rightarrow> SocketAddr \<Rightarrow> SocketAddr \<Rightarrow> bytes \<Rightarrow>
    RoutedRelay \<Rightarrow> RoutedRelay \<times> Send list" where
  "client_event hmac tr now drawn peer addr listener_endpoint payload r =
     (case map_of (rr_peers r) peer of
        None \<Rightarrow> (r, [])
      | Some l \<Rightarrow>
        if ls_addr l \<noteq> listener_endpoint then (r, [])
        else case client_token now drawn peer addr (r\<lparr>rr_peers := AList.update peer (l\<lparr>ls_touched := now\<rparr>) (rr_peers r)\<rparr>) of
          (r, None) \<Rightarrow> (r, [])
        | (r, Some token) \<Rightarrow> (case map_of (rr_outgoing r) token of
            None \<Rightarrow> (r, [])
          | Some route \<Rightarrow>
            let r = r\<lparr>rr_outgoing := AList.update token (route\<lparr>og_seen := now\<rparr>) (rr_outgoing r)\<rparr> in
            (r, case endpoint tr peer of Some a \<Rightarrow> hub_send hmac a peer token False payload r | None \<Rightarrow> [])))"

definition host_event :: "mac_fun \<Rightarrow> RouteTransport \<Rightarrow> nat \<Rightarrow> rstring \<Rightarrow> Token \<Rightarrow> bytes \<Rightarrow> RoutedRelay \<Rightarrow> RoutedRelay \<times> Send list" where
  "host_event hmac tr now peer token payload r =
     (case map_of (rr_incoming r) (peer, token) of
        None \<Rightarrow> (r, [])
      | Some route \<Rightarrow>
        let r = r\<lparr>rr_incoming := AList.update (peer, token) (route\<lparr>ic_seen := now\<rparr>) (rr_incoming r)\<rparr> in
        (r, case endpoint tr peer of Some a \<Rightarrow> hub_send hmac a peer token True payload r | None \<Rightarrow> []))"

definition hub_datagram :: "mac_fun \<Rightarrow> RouteTransport \<Rightarrow> nat \<Rightarrow> (SocketAddr, ErrorKind) result \<Rightarrow> SocketAddr \<Rightarrow> bytes \<Rightarrow>
    RoutedRelay \<Rightarrow> RoutedRelay \<times> Send list" where
  "hub_datagram hmac tr now bound from bs r =
     (case envelope_decode hmac (rr_key r) bs of
        Some e \<Rightarrow> if accepts tr from (en_source e) then receive now bound e r else (r, [])
      | None \<Rightarrow> (r, []))"

text \<open>What the loop takes in one round; the reader of a listener may stop in between.\<close>

datatype RouterInput =
  InCleanup nat
| InEndpoint nat "(SocketAddr, ErrorKind) result" rstring
| InClient RouteTransport nat "Token list" rstring SocketAddr SocketAddr bytes
| InHost RouteTransport nat rstring Token bytes
| InDatagram RouteTransport nat "(SocketAddr, ErrorKind) result" SocketAddr bytes
| InPeerReaderStops rstring "ErrorKind option"
| InHostReaderStops "rstring \<times> Token" "ErrorKind option"

definition router_step :: "mac_fun \<Rightarrow> RoutedRelay \<Rightarrow> RouterInput \<Rightarrow> RoutedRelay \<times> Send list" where
  "router_step hmac r x = (case x of
     InCleanup now \<Rightarrow> (expire_at now r, [])
   | InEndpoint now bound peer \<Rightarrow> (fst (peer_endpoint now bound peer r), [])
   | InClient tr now drawn peer addr le payload \<Rightarrow> client_event hmac tr now drawn peer addr le payload r
   | InHost tr now peer token payload \<Rightarrow> host_event hmac tr now peer token payload r
   | InDatagram tr now bound from bs \<Rightarrow> hub_datagram hmac tr now bound from bs r
   | InPeerReaderStops peer k \<Rightarrow> (case map_of (rr_peers r) peer of
       None \<Rightarrow> (r, [])
     | Some l \<Rightarrow> (r\<lparr>rr_peers := AList.update peer (l\<lparr>ls_finished := True, ls_failure := k\<rparr>) (rr_peers r)\<rparr>, []))
   | InHostReaderStops key k \<Rightarrow> (case map_of (rr_incoming r) key of
       None \<Rightarrow> (r, [])
     | Some i \<Rightarrow> (r\<lparr>rr_incoming := AList.update key (i\<lparr>ic_listener := (ic_listener i)\<lparr>ls_finished := True, ls_failure := k\<rparr>\<rparr>)
         (rr_incoming r)\<rparr>, [])))"

definition router_run :: "mac_fun \<Rightarrow> RoutedRelay \<Rightarrow> RouterInput list \<Rightarrow> RoutedRelay" where
  "router_run hmac r xs = foldl (\<lambda>r x. fst (router_step hmac r x)) r xs"

section \<open>The envelope is exact\<close>

definition mac_ok :: "mac_fun \<Rightarrow> bool" where
  "mac_ok hmac \<longleftrightarrow> (\<forall>k m. length (hmac k m) = 32)"

definition envelope_ok :: "Envelope \<Rightarrow> bool" where
  "envelope_ok e \<longleftrightarrow> scalars (en_source e) \<and> scalars (en_target e) \<and> valid_id (en_source e) \<and> valid_id (en_target e) \<and>
     length (en_token e) = 16 \<and> length (en_payload e) \<le> MAX_PAYLOAD"

lemma get_range_Some: "get_range a b xs = Some y \<Longrightarrow> a \<le> b \<and> b \<le> length xs \<and> length y = b - a \<and> xs = take a xs @ y @ drop b xs"
proof -
  assume "get_range a b xs = Some y"
  then have r: "a \<le> b" "b \<le> length xs" "y = take (b - a) (drop a xs)" by (auto simp: get_range_def split: if_splits)
  then have "take a xs @ y = take b xs" using take_add [of a "b - a" xs] by simp
  then show ?thesis using r append_take_drop_id [of b xs] by (metis append.assoc diff_le_mono length_drop length_take min.absorb2)
qed

text \<open>The fixed head of an envelope: magic, version, direction, token and the lengths of the names.\<close>

definition envelope_head :: "bool \<Rightarrow> Token \<Rightarrow> u8 \<Rightarrow> u8 \<Rightarrow> bytes" where
  "envelope_head response token a b = MAGIC @ [1, of_bool response] @ token @ [a, b]"

lemma envelope_head_at:
  assumes "length token = 16"
  shows "length (envelope_head response token a b) = 24" "take 4 (envelope_head response token a b @ r) = MAGIC"
    "(envelope_head response token a b @ r) ! 4 = 1" "(envelope_head response token a b @ r) ! 5 = of_bool response"
    "(envelope_head response token a b @ r) ! 22 = a" "(envelope_head response token a b @ r) ! 23 = b"
    "take 16 (drop 6 (envelope_head response token a b @ r)) = token"
  using assms by (simp_all add: envelope_head_def MAGIC_def nth_append nth_Cons')

lemma body_head:
  "envelope_body e = envelope_head (en_response e) (en_token e) (byte (length (as_bytes (en_source e)))) (byte (length (as_bytes (en_target e)))) @
     as_bytes (en_source e) @ as_bytes (en_target e) @ to_be 2 (word_of_nat (length (en_payload e)) :: u16) @ en_payload e"
  by (simp add: envelope_body_def envelope_head_def)

lemma envelope_decodes:
  assumes mac: "mac_ok hmac" and ok: "envelope_ok e"
  shows "envelope_decode hmac key (envelope_body e @ hmac key (envelope_body e)) = Some e"
proof -
  let ?s = "as_bytes (en_source e)" and ?t = "as_bytes (en_target e)" and ?l = "to_be 2 (word_of_nat (length (en_payload e)) :: u16)"
  let ?h = "envelope_head (en_response e) (en_token e) (byte (length ?s)) (byte (length ?t))" and ?b = "envelope_body e"
  let ?bs = "?b @ hmac key ?b"
  have st: "length ?s \<le> 128" "length ?t \<le> 128" using ok by (auto simp: envelope_ok_def valid_id_def)
  have u: "unat (byte (length ?s)) = length ?s" "unat (byte (length ?t)) = length ?t" using st by (simp_all add: unat_byte)
  have n: "length (en_payload e) \<le> 64000" "unat (word_of_nat (length (en_payload e)) :: u16) = length (en_payload e)"
    using ok by (simp_all add: envelope_ok_def MAX_PAYLOAD_def unat_of_nat)
  have tok: "length (en_token e) = 16" using ok by (simp add: envelope_ok_def)
  note at = envelope_head_at [OF tok, of "en_response e" "byte (length ?s)" "byte (length ?t)"]
  have len: "length ?b = 26 + length ?s + length ?t + length (en_payload e)" "length (hmac key ?b) = 32"
    unfolding body_head using at(1) mac by (simp_all add: length_to_be mac_ok_def)
  have rs: "get_range 24 (24 + length ?s) ?b = Some ?s" "get_range (24 + length ?s) (24 + length ?s + length ?t) ?b = Some ?t"
    "get_range (24 + length ?s + length ?t) (24 + length ?s + length ?t + 2) ?b = Some ?l" "drop (24 + length ?s + length ?t + 2) ?b = en_payload e"
    unfolding body_head by (simp_all add: get_range_def at(1))
  have body: "?b ! 22 = byte (length ?s)" "?b ! 23 = byte (length ?t)" "?b ! 5 = of_bool (en_response e)" "take 16 (drop 6 ?b) = en_token e"
    unfolding body_head by (rule at)+
  have pre: "take 4 ?bs = MAGIC" "?bs ! 4 = 1" "?bs ! 5 = of_bool (en_response e)" unfolding body_head append_assoc by (rule at)+
  have split: "take (length ?bs - 32) ?bs = ?b" "drop (length ?bs - 32) ?bs = hmac key ?b" using len(2) by simp_all
  have guard: "\<not> (length ?bs < 58 \<or> length ?bs > MAX_PAYLOAD + 314 \<or> take 4 ?bs \<noteq> MAGIC \<or> ?bs ! 4 \<noteq> 1 \<or> ?bs ! 5 > 1)"
    using len st n(1) pre by (simp add: MAX_PAYLOAD_def)
  have utf: "from_utf8 ?s = Some (en_source e)" "from_utf8 ?t = Some (en_target e)" using ok from_utf8_as_bytes by (auto simp: envelope_ok_def)
  have v: "valid_id (en_source e)" "valid_id (en_target e)" using ok by (auto simp: envelope_ok_def)
  show ?thesis
    unfolding envelope_decode_def if_not_P [OF guard] split Let_def body u rs bind.bind_lunit utf be_dec_enc n(2)
    using v len(1) n(1) by (simp add: MAX_PAYLOAD_def)
qed

lemma take_two: "n + 2 \<le> length xs \<Longrightarrow> take 2 (drop n xs) = [xs ! n, xs ! (n + 1)]"
  by (simp add: take_Suc_conv_app_nth numeral_2_eq_2)

lemma take_head: "24 \<le> length xs \<Longrightarrow> take 24 xs = take 4 xs @ [xs ! 4, xs ! 5] @ take 16 (drop 6 xs) @ [xs ! 22, xs ! 23]"
  using take_add [of 4 20 xs] take_add [of 2 18 "drop 4 xs"] take_add [of 16 2 "drop 6 xs"] take_two [of 4 xs] take_two [of 22 xs] by simp

lemma bit_value: "w \<le> 1 \<Longrightarrow> w = of_bool (w \<noteq> 0)" for w :: u8
  by (simp add: word_le_nat_alt) (metis (no_types) le_0_eq le_Suc_eq One_nat_def unat_1 unat_0 word_unat_eq_iff)

lemma envelope_canonical:
  assumes "envelope_decode hmac key bs = Some e"
  shows "envelope_encode hmac key e = Some bs \<and> envelope_ok e"
proof -
  define B where "B = take (length bs - 32) bs"
  let ?a = "unat (B ! 22)" and ?b = "unat (B ! 23)"
  let ?stop = "24 + ?a + ?b"
  have g: "\<not> (length bs < 58 \<or> length bs > MAX_PAYLOAD + 314 \<or> take 4 bs \<noteq> MAGIC \<or> bs ! 4 \<noteq> 1 \<or> bs ! 5 > 1)"
    and tag: "hmac key B = drop (length bs - 32) bs"
    using assms unfolding envelope_decode_def Let_def B_def [symmetric] by (auto split: if_splits)
  obtain S T L source target where r: "get_range 24 (24 + ?a) B = Some S" "from_utf8 S = Some source"
      "get_range (24 + ?a) ?stop B = Some T" "from_utf8 T = Some target" "get_range ?stop (?stop + 2) B = Some L"
    and v: "valid_id source" "valid_id target" "length B = ?stop + 2 + unat (of_be L :: u16)" "unat (of_be L :: u16) \<le> MAX_PAYLOAD"
    and e: "e = \<lparr>en_source = source, en_target = target, en_token = take 16 (drop 6 B), en_response = (B ! 5 \<noteq> 0), en_payload = drop (?stop + 2) B\<rparr>"
    using assms g tag unfolding envelope_decode_def Let_def B_def [symmetric] by (auto simp: bind_eq_Some_conv split: if_splits)
  note R = get_range_Some [OF r(1)] get_range_Some [OF r(3)] get_range_Some [OF r(5)]
  have st: "as_bytes source = S" "as_bytes target = T" using as_bytes_from_utf8 r(2,4) by blast+
  have len: "length S = ?a" "length T = ?b" "length L = 2" "24 \<le> length B" using R by auto
  have body: "B = take 24 B @ S @ T @ L @ drop (?stop + 2) B"
  proof -
    have "drop 24 B = S @ drop (24 + ?a) B" "drop (24 + ?a) B = T @ drop ?stop B" "drop ?stop B = L @ drop (?stop + 2) B"
      using R by (metis append_eq_conv_conj append_take_drop_id)+
    then show ?thesis by (metis append_take_drop_id)
  qed
  have "take 4 B = MAGIC" "B ! 4 = 1" "B ! 5 = bs ! 5" "bs ! 5 \<le> 1" using g len(4) by (auto simp: B_def min_def)
  moreover from this have "B ! 5 = of_bool (B ! 5 \<noteq> 0)" by (simp add: bit_value)
  ultimately have head: "take 24 B = envelope_head (B ! 5 \<noteq> 0) (take 16 (drop 6 B)) (B ! 22) (B ! 23)"
    using take_head [OF len(4)] unfolding envelope_head_def by simp
  have size: "length (en_payload e) = unat (of_be L :: u16)" using v(3) by (simp add: e)
  have "to_be 2 (word_of_nat (length (en_payload e)) :: u16) = L" unfolding size using to_be_of_be [where 'a = 16, of 2 L] len(3) by simp
  then have "envelope_body e = B"
    unfolding body_head using body head len(1,2) by (simp add: e st)
  then have "envelope_encode hmac key e = Some bs"
    unfolding envelope_encode_def using v(1,2,4) size tag by (simp add: e B_def)
  then show ?thesis using from_utf8_scalars [OF r(2)] from_utf8_scalars [OF r(4)] v size len(4) by (simp add: envelope_ok_def e)
qed

section \<open>The tables agree\<close>

text \<open>Clients and outgoing routes are two views of one table, every route has its listener, every listener serves the
  device or connection it is filed under, and no table exceeds its limit.\<close>

definition router_ok :: "RoutedRelay \<Rightarrow> bool" where
  "router_ok r \<longleftrightarrow> hash_wf (rr_peers r) \<and> hash_wf (rr_outgoing r) \<and> hash_wf (rr_clients r) \<and> hash_wf (rr_incoming r) \<and>
     length (rr_peers r) \<le> MAX_PEERS \<and> length (rr_outgoing r) \<le> MAX_ROUTES \<and> length (rr_incoming r) \<le> MAX_ROUTES \<and>
     (\<forall>p l. map_of (rr_peers r) p = Some l \<longrightarrow> ls_kind l = LK_Client p) \<and>
     (\<forall>k t. map_of (rr_clients r) k = Some t \<longrightarrow> (\<exists>route. map_of (rr_outgoing r) t = Some route \<and> (og_peer route, og_local route) = k)) \<and>
     (\<forall>t route. map_of (rr_outgoing r) t = Some route \<longrightarrow>
        map_of (rr_clients r) (og_peer route, og_local route) = Some t \<and> map_of (rr_peers r) (og_peer route) \<noteq> None) \<and>
     (\<forall>k i. map_of (rr_incoming r) k = Some i \<longrightarrow> (\<exists>host. rr_host r = Some host \<and> ls_kind (ic_listener i) = LK_Host (fst k) (snd k) host))"

lemma router_okI:
  assumes "hash_wf (rr_peers r)" "hash_wf (rr_outgoing r)" "hash_wf (rr_clients r)" "hash_wf (rr_incoming r)"
    "length (rr_peers r) \<le> MAX_PEERS" "length (rr_outgoing r) \<le> MAX_ROUTES" "length (rr_incoming r) \<le> MAX_ROUTES"
    and "\<And>p l. map_of (rr_peers r) p = Some l \<Longrightarrow> ls_kind l = LK_Client p"
    and "\<And>k t. map_of (rr_clients r) k = Some t \<Longrightarrow> \<exists>route. map_of (rr_outgoing r) t = Some route \<and> (og_peer route, og_local route) = k"
    and "\<And>t route. map_of (rr_outgoing r) t = Some route \<Longrightarrow>
        map_of (rr_clients r) (og_peer route, og_local route) = Some t \<and> map_of (rr_peers r) (og_peer route) \<noteq> None"
    and "\<And>k i. map_of (rr_incoming r) k = Some i \<Longrightarrow> \<exists>host. rr_host r = Some host \<and> ls_kind (ic_listener i) = LK_Host (fst k) (snd k) host"
  shows "router_ok r"
  using assms unfolding router_ok_def by blast

lemma router_okD:
  assumes "router_ok r"
  shows "hash_wf (rr_peers r)" "hash_wf (rr_outgoing r)" "hash_wf (rr_clients r)" "hash_wf (rr_incoming r)"
    "length (rr_peers r) \<le> MAX_PEERS" "length (rr_outgoing r) \<le> MAX_ROUTES" "length (rr_incoming r) \<le> MAX_ROUTES"
    and "map_of (rr_peers r) p = Some l \<Longrightarrow> ls_kind l = LK_Client p"
    and "map_of (rr_clients r) k = Some t \<Longrightarrow> \<exists>route. map_of (rr_outgoing r) t = Some route \<and> (og_peer route, og_local route) = k"
    and "map_of (rr_outgoing r) t = Some route \<Longrightarrow>
        map_of (rr_clients r) (og_peer route, og_local route) = Some t \<and> map_of (rr_peers r) (og_peer route) \<noteq> None"
    and "map_of (rr_incoming r) ck = Some i \<Longrightarrow> \<exists>host. rr_host r = Some host \<and> ls_kind (ic_listener i) = LK_Host (fst ck) (snd ck) host"
  using assms unfolding router_ok_def by blast+

lemma router_bind_ok: "router_bind i k h = Ok r \<Longrightarrow> router_ok r"
  by (auto simp: router_bind_def router_ok_def hash_wf_def split: if_splits option.splits)

lemma ensure_reader_kind: "ensure_reader l = Ok l' \<Longrightarrow> ls_kind l' = ls_kind l \<and> ls_addr l' = ls_addr l \<and> ls_touched l' = ls_touched l"
  by (auto simp: ensure_reader_def split: if_splits option.splits)

lemma try_reader_kind [simp]: "ls_kind (try_reader l) = ls_kind l" "ls_addr (try_reader l) = ls_addr l" "ls_touched (try_reader l) = ls_touched l"
  by (simp_all add: try_reader_def ensure_reader_def split: option.split)

text \<open>What expiry leaves.\<close>

lemma expire_lookups:
  assumes "router_ok r"
  shows "map_of (rr_outgoing (expire_at now r)) t = Some route \<longleftrightarrow> map_of (rr_outgoing r) t = Some route \<and> now - og_seen route < IDLE"
    and "map_of (rr_clients (expire_at now r)) k = Some t \<longleftrightarrow> map_of (rr_clients r) k = Some t \<and> map_of (rr_outgoing (expire_at now r)) t \<noteq> None"
    and "map_of (rr_incoming (expire_at now r)) ck = Some i \<longleftrightarrow>
      (\<exists>i0. map_of (rr_incoming r) ck = Some i0 \<and> now - ic_seen i0 < IDLE \<and> i = i0\<lparr>ic_listener := try_reader (ic_listener i0)\<rparr>)"
    and "map_of (rr_peers (expire_at now r)) p = Some l \<longleftrightarrow>
      (\<exists>l0. map_of (rr_peers r) p = Some l0 \<and> l = try_reader l0 \<and>
        ((\<exists>t route. map_of (rr_outgoing (expire_at now r)) t = Some route \<and> og_peer route = p) \<or> now - ls_touched l0 < ENDPOINT_IDLE))"
proof -
  note wf = router_okD(1-4) [OF assms]
  show o: "map_of (rr_outgoing (expire_at now r)) t = Some route \<longleftrightarrow> map_of (rr_outgoing r) t = Some route \<and> now - og_seen route < IDLE" for t route
    by (auto simp: expire_at_def Let_def map_of_retain [OF wf(2)] split: option.splits if_splits)
  show "map_of (rr_clients (expire_at now r)) k = Some t \<longleftrightarrow> map_of (rr_clients r) k = Some t \<and> map_of (rr_outgoing (expire_at now r)) t \<noteq> None"
    by (auto simp: expire_at_def Let_def map_of_retain [OF wf(3)] split: option.splits if_splits)
  show "map_of (rr_incoming (expire_at now r)) ck = Some i \<longleftrightarrow>
      (\<exists>i0. map_of (rr_incoming r) ck = Some i0 \<and> now - ic_seen i0 < IDLE \<and> i = i0\<lparr>ic_listener := try_reader (ic_listener i0)\<rparr>)"
    by (auto simp: expire_at_def Let_def map_of_values map_of_retain [OF wf(4)] split: option.splits if_splits)
  have act: "p \<in> set (map (\<lambda>(_, v). og_peer v) (filter (\<lambda>(_, v). now - og_seen v < IDLE) (rr_outgoing r))) \<longleftrightarrow>
      (\<exists>t route. map_of (rr_outgoing (expire_at now r)) t = Some route \<and> og_peer route = p)"
    unfolding o using hash_wf_mem [OF wf(2)] by force
  show "map_of (rr_peers (expire_at now r)) p = Some l \<longleftrightarrow>
      (\<exists>l0. map_of (rr_peers r) p = Some l0 \<and> l = try_reader l0 \<and>
        ((\<exists>t route. map_of (rr_outgoing (expire_at now r)) t = Some route \<and> og_peer route = p) \<or> now - ls_touched l0 < ENDPOINT_IDLE))"
    unfolding act [symmetric]
    by (auto simp: expire_at_def Let_def map_of_values map_of_retain [OF wf(1)] split: option.splits if_splits)
qed

lemma expire_fields [simp]: "rr_host (expire_at now r) = rr_host r" "rr_local_id (expire_at now r) = rr_local_id r" "rr_key (expire_at now r) = rr_key r"
  by (simp_all add: expire_at_def Let_def)

lemma expire_ok:
  assumes "router_ok r"
  shows "router_ok (expire_at now r)"
proof (rule router_okI)
  note look = expire_lookups [OF assms] and D = router_okD [OF assms]
  show "hash_wf (rr_peers (expire_at now r))" "hash_wf (rr_outgoing (expire_at now r))" "hash_wf (rr_clients (expire_at now r))" "hash_wf (rr_incoming (expire_at now r))"
    using D(1-4) by (simp_all add: expire_at_def Let_def hash_wf_ops)
  show "length (rr_peers (expire_at now r)) \<le> MAX_PEERS" "length (rr_outgoing (expire_at now r)) \<le> MAX_ROUTES" "length (rr_incoming (expire_at now r)) \<le> MAX_ROUTES"
    using D(5-7) by (auto simp: expire_at_def Let_def intro: order_trans [OF length_filter_le])
  show "ls_kind l = LK_Client p" if "map_of (rr_peers (expire_at now r)) p = Some l" for p l using that D(8) unfolding look by auto
  show "\<exists>route. map_of (rr_outgoing (expire_at now r)) t = Some route \<and> (og_peer route, og_local route) = k"
    if c: "map_of (rr_clients (expire_at now r)) k = Some t" for k t
  proof -
    obtain route where "map_of (rr_outgoing r) t = Some route" "(og_peer route, og_local route) = k" using c D(9) unfolding look(2) by blast
    moreover obtain route' where e: "map_of (rr_outgoing (expire_at now r)) t = Some route'" using c unfolding look(2) by blast
    moreover have "map_of (rr_outgoing r) t = Some route'" using e unfolding look(1) ..
    ultimately show ?thesis by simp
  qed
  show "map_of (rr_clients (expire_at now r)) (og_peer route, og_local route) = Some t \<and> map_of (rr_peers (expire_at now r)) (og_peer route) \<noteq> None"
    if a: "map_of (rr_outgoing (expire_at now r)) t = Some route" for t route
  proof -
    have "map_of (rr_clients r) (og_peer route, og_local route) = Some t" using a D(10) unfolding look(1) by blast
    moreover obtain l where "map_of (rr_peers r) (og_peer route) = Some l" using a D(10) unfolding look(1) by blast
    then have "map_of (rr_peers (expire_at now r)) (og_peer route) = Some (try_reader l)" unfolding look(4) using a by blast
    ultimately show ?thesis using a look(2) by auto
  qed
  show "\<exists>host. rr_host (expire_at now r) = Some host \<and> ls_kind (ic_listener i) = LK_Host (fst k) (snd k) host"
    if "map_of (rr_incoming (expire_at now r)) k = Some i" for k i
    using that D(11) unfolding look(3) by auto
qed

section \<open>Every step keeps the tables\<close>

lemma set_peer_ok:
  assumes ok: "router_ok r" and kind: "ls_kind l = LK_Client p" and room: "map_of (rr_peers r) p \<noteq> None \<or> length (rr_peers r) < MAX_PEERS"
  shows "router_ok (r\<lparr>rr_peers := AList.update p l (rr_peers r)\<rparr>)"
proof -
  note D = router_okD [OF ok]
  have "length (AList.update p l (rr_peers r)) \<le> MAX_PEERS"
    using room D(5) length_update_le [of p l "rr_peers r"] by (auto simp: length_update_old)
  then show ?thesis using D kind
    by (intro router_okI) (auto simp: hash_wf_ops map_of_AList split: if_splits)
qed

lemma set_route_ok:
  assumes ok: "router_ok r" and old: "map_of (rr_outgoing r) t = Some route0" "og_peer route = og_peer route0" "og_local route = og_local route0"
  shows "router_ok (r\<lparr>rr_outgoing := AList.update t route (rr_outgoing r)\<rparr>)"
proof -
  note D = router_okD [OF ok]
  have "\<exists>route'. map_of (rr_outgoing (r\<lparr>rr_outgoing := AList.update t route (rr_outgoing r)\<rparr>)) t' = Some route' \<and> (og_peer route', og_local route') = k"
    if "map_of (rr_clients r) k = Some t'" for k t'
    using D(9) [OF that] old by (cases "t' = t") (auto simp: map_of_AList)
  then show ?thesis using D D(10) [OF old(1)] old
    by (intro router_okI) (auto simp: hash_wf_ops map_of_AList length_update_old split: if_splits)
qed

lemma new_route_ok:
  assumes ok: "router_ok r" and new: "map_of (rr_outgoing r) t = None" "map_of (rr_clients r) (p, a) = None"
    and l: "map_of (rr_peers r) p \<noteq> None" and room: "length (rr_outgoing r) < MAX_ROUTES"
  shows "router_ok (r\<lparr>rr_clients := AList.update (p, a) t (rr_clients r), rr_outgoing := AList.update t \<lparr>og_peer = p, og_local = a, og_seen = now\<rparr> (rr_outgoing r)\<rparr>)"
    (is "router_ok ?r")
proof (rule router_okI)
  note D = router_okD [OF ok]
  show "\<exists>route. map_of (rr_outgoing ?r) t' = Some route \<and> (og_peer route, og_local route) = k" if c: "map_of (rr_clients ?r) k = Some t'" for k t'
  proof (cases "k = (p, a)")
    case False
    then have "map_of (rr_clients r) k = Some t'" using c by (simp add: map_of_AList)
    from D(9) [OF this] show ?thesis using new(1) by (auto simp: map_of_AList)
  qed (use c in \<open>auto simp: map_of_AList\<close>)
  show "map_of (rr_clients ?r) (og_peer route, og_local route) = Some t' \<and> map_of (rr_peers ?r) (og_peer route) \<noteq> None"
    if o: "map_of (rr_outgoing ?r) t' = Some route" for t' route
  proof (cases "t' = t")
    case False
    then have "map_of (rr_outgoing r) t' = Some route" using o by (simp add: map_of_AList)
    from D(10) [OF this] show ?thesis using new(2) by (auto simp: map_of_AList)
  qed (use o l in \<open>auto simp: map_of_AList\<close>)
  show "length (rr_outgoing ?r) \<le> MAX_ROUTES" using room by (simp add: alist_update_new [OF new(1)])
qed (use router_okD [OF ok] in \<open>auto simp: hash_wf_ops\<close>)

lemma set_incoming_ok:
  assumes ok: "router_ok r" and kind: "rr_host r = Some host" "ls_kind (ic_listener i) = LK_Host (fst k) (snd k) host"
    and room: "map_of (rr_incoming r) k \<noteq> None \<or> length (rr_incoming r) < MAX_ROUTES"
  shows "router_ok (r\<lparr>rr_incoming := AList.update k i (rr_incoming r)\<rparr>)"
proof -
  note D = router_okD [OF ok]
  have "length (AList.update k i (rr_incoming r)) \<le> MAX_ROUTES"
    using room D(7) length_update_le [of k i "rr_incoming r"] by (auto simp: length_update_old)
  then show ?thesis using D kind
    by (intro router_okI) (auto simp: hash_wf_ops map_of_AList split: if_splits)
qed

lemma peer_endpoint_ok:
  assumes ok: "router_ok r"
  shows "router_ok (fst (peer_endpoint now bound peer r))"
proof (cases "peer = rr_local_id r \<or> \<not> valid_id peer")
  case False
  show ?thesis
  proof (cases "map_of (rr_peers r) peer")
    case None
    let ?r = "expire_at now r"
    have e: "router_ok ?r" by (rule expire_ok [OF ok])
    show ?thesis using False None e set_peer_ok [OF e, of "listener_new now _ (LK_Client peer)" peer]
      by (auto simp: peer_endpoint_def Let_def listener_new_def split: sum.split)
  next
    case (Some l)
    then show ?thesis using False ok router_okD(8) [OF ok Some] set_peer_ok [OF ok, of "_\<lparr>ls_touched := now\<rparr>" peer]
      by (auto simp: peer_endpoint_def dest: ensure_reader_kind split: sum.split)
  qed
qed (use ok in \<open>auto simp: peer_endpoint_def\<close>)

lemma receive_response_ok:
  assumes ok: "router_ok r"
  shows "router_ok (fst (receive_response now e r))"
proof (cases "map_of (rr_outgoing r) (en_token e)")
  case (Some route)
  let ?r = "r\<lparr>rr_outgoing := AList.update (en_token e) (route\<lparr>og_seen := now\<rparr>) (rr_outgoing r)\<rparr>"
  have k: "router_ok ?r" by (rule set_route_ok [OF ok Some]) simp_all
  have p: "router_ok (?r\<lparr>rr_peers := AList.update (og_peer route) l' (rr_peers r)\<rparr>)"
    if "map_of (rr_peers r) (og_peer route) = Some l" "ls_kind l' = ls_kind l" for l l'
    using set_peer_ok [OF k, of l' "og_peer route"] that router_okD(8) [OF ok that(1)] by simp
  show ?thesis using Some ok k p
    by (auto simp: receive_response_def Let_def split: option.split sum.split dest!: ensure_reader_kind)
qed (use ok in \<open>simp add: receive_response_def\<close>)

lemma receive_request_ok:
  assumes ok: "router_ok r"
  shows "router_ok (fst (receive_request now bound e r))"
proof (cases "rr_host r")
  case (Some host)
  let ?k = "(en_source e, en_token e)"
  have use: "router_ok (s\<lparr>rr_incoming := AList.update ?k \<lparr>ic_listener = l, ic_seen = now\<rparr> (rr_incoming s)\<rparr>)"
    if "router_ok s" "rr_host s = Some host" "map_of (rr_incoming s) ?k = Some i" "ensure_reader (ic_listener i) = Ok l" for s i l
    using set_incoming_ok [OF that(1,2), of "\<lparr>ic_listener = l, ic_seen = now\<rparr>" ?k] router_okD(11) [OF that(1,3)] that(2,3) ensure_reader_kind [OF that(4)]
    by simp
  show ?thesis
  proof (cases "map_of (rr_incoming r) ?k")
    case None
    let ?r = "expire_at now r"
    let ?i = "\<lambda>a. \<lparr>ic_listener = listener_new now a (LK_Host (en_source e) (en_token e) host), ic_seen = now\<rparr>"
    have e: "router_ok ?r" by (rule expire_ok [OF ok])
    have n: "router_ok (?r\<lparr>rr_incoming := AList.update ?k (?i a) (rr_incoming ?r)\<rparr>)" if "length (rr_incoming ?r) < MAX_ROUTES" for a
      by (rule set_incoming_ok [OF e, of host]) (use Some that in \<open>simp_all add: listener_new_def\<close>)
    show ?thesis
      using Some None e n use [OF n, of _ "?i _"]
      by (auto simp: receive_request_def Let_def not_le map_of_AList split: sum.split)
  next
    case (Some i)
    then show ?thesis using \<open>rr_host r = Some host\<close> ok use [OF ok _ Some]
      by (auto simp: receive_request_def Let_def split: sum.split)
  qed
qed (use ok in \<open>simp add: receive_request_def\<close>)

lemma client_token_ok:
  assumes ok: "router_ok r" and l: "map_of (rr_peers r) peer = Some l" "ls_touched l = now"
  shows "router_ok (fst (client_token now drawn peer addr r)) \<and>
    (\<forall>t. snd (client_token now drawn peer addr r) = Some t \<longrightarrow>
      (\<exists>seen. map_of (rr_outgoing (fst (client_token now drawn peer addr r))) t = Some \<lparr>og_peer = peer, og_local = addr, og_seen = seen\<rparr>))"
proof (cases "map_of (rr_clients r) (peer, addr)")
  case None
  define s where "s = (if length (rr_outgoing r) \<ge> MAX_ROUTES then expire_at now r else r)"
  have s: "router_ok s" using ok expire_ok by (simp add: s_def)
  have "map_of (rr_clients s) (peer, addr) = None" using None expire_lookups(2) [OF ok] by (auto simp: s_def) (metis option.exhaust option.distinct(1))
  moreover have "map_of (rr_peers s) peer \<noteq> None"
    using l expire_lookups(4) [OF ok, of now peer "try_reader l"] by (auto simp: s_def ENDPOINT_IDLE_def)
  ultimately have new: "router_ok (s\<lparr>rr_clients := AList.update (peer, addr) t (rr_clients s),
        rr_outgoing := AList.update t \<lparr>og_peer = peer, og_local = addr, og_seen = now\<rparr> (rr_outgoing s)\<rparr>)"
    if "length (rr_outgoing s) < MAX_ROUTES" "map_of (rr_outgoing s) t = None" for t
    using new_route_ok [OF s that(2) _ _ that(1)] by blast
  show ?thesis using None s new
    by (auto simp: client_token_def s_def [symmetric] Let_def not_le map_of_AList find_Some_iff split: option.split)
next
  case (Some t)
  then show ?thesis using ok router_okD(9) [OF ok Some] by (auto simp: client_token_def) (metis Outgoing.surjective old.unit.exhaust)
qed

lemma client_event_ok:
  assumes ok: "router_ok r"
  shows "router_ok (fst (client_event hmac tr now drawn peer addr le payload r))"
proof (cases "map_of (rr_peers r) peer")
  case (Some l)
  let ?r = "r\<lparr>rr_peers := AList.update peer (l\<lparr>ls_touched := now\<rparr>) (rr_peers r)\<rparr>"
  have k: "router_ok ?r" by (rule set_peer_ok [OF ok]) (use router_okD(8) [OF ok Some] Some in simp_all)
  have c: "router_ok (fst (client_token now drawn peer addr ?r))"
    using client_token_ok [OF k, of peer "l\<lparr>ls_touched := now\<rparr>" now drawn addr] by (simp add: map_of_AList)
  have "router_ok (s\<lparr>rr_outgoing := AList.update t (route\<lparr>og_seen := now\<rparr>) (rr_outgoing s)\<rparr>)"
    if "router_ok s" "map_of (rr_outgoing s) t = Some route" for s t route
    by (rule set_route_ok [OF that]) simp_all
  then show ?thesis using Some ok c
    by (auto simp: client_event_def Let_def split: prod.splits option.splits)
qed (use ok in \<open>simp add: client_event_def\<close>)

lemma host_event_ok: "router_ok r \<Longrightarrow> router_ok (fst (host_event hmac tr now peer token payload r))"
proof -
  assume ok: "router_ok r"
  have "router_ok (r\<lparr>rr_incoming := AList.update (peer, token) (i\<lparr>ic_seen := now\<rparr>) (rr_incoming r)\<rparr>)"
    if "map_of (rr_incoming r) (peer, token) = Some i" for i
    using router_okD(11) [OF ok that] that by (auto intro: set_incoming_ok [OF ok])
  then show ?thesis using ok by (auto simp: host_event_def Let_def split: option.split)
qed

lemma router_step_ok:
  assumes ok: "router_ok r"
  shows "router_ok (fst (router_step hmac r x))"
proof (cases x)
  case (InDatagram tr now bound src bs)
  then show ?thesis using ok receive_response_ok [OF ok] receive_request_ok [OF ok]
    by (auto simp: router_step_def hub_datagram_def receive_def split: option.split)
next
  case (InPeerReaderStops peer k)
  then show ?thesis using ok router_okD(8) [OF ok] by (auto simp: router_step_def intro: set_peer_ok [OF ok] split: option.split)
next
  case (InHostReaderStops key k)
  have "router_ok (r\<lparr>rr_incoming := AList.update key (i\<lparr>ic_listener := (ic_listener i)\<lparr>ls_finished := True, ls_failure := k\<rparr>\<rparr>) (rr_incoming r)\<rparr>)"
    if "map_of (rr_incoming r) key = Some i" for i
    using router_okD(11) [OF ok that] that by (auto intro: set_incoming_ok [OF ok])
  then show ?thesis using ok InHostReaderStops by (auto simp: router_step_def split: option.split)
qed (use ok expire_ok peer_endpoint_ok client_event_ok host_event_ok in \<open>simp_all add: router_step_def\<close>)

interpretation router: op_machine "\<lambda>r x. fst (router_step hmac r x)" router_ok for hmac
  by unfold_locales (rule router_step_ok)

lemma router_run_ok: "router_bind i key host = Ok r0 \<Longrightarrow> router_ok (router_run hmac r0 xs)"
  unfolding router_run_def by (rule router.run_inv [OF router_bind_ok])

section \<open>Who receives what\<close>

definition constants :: "RoutedRelay \<Rightarrow> rstring \<times> bytes \<times> SocketAddr option" where
  "constants r = (rr_local_id r, rr_key r, rr_host r)"

lemma client_token_constants: "constants (fst (client_token now drawn peer addr r)) = constants r"
  by (auto simp: client_token_def constants_def Let_def split: option.split)

lemma router_step_constants: "constants (fst (router_step hmac r x)) = constants r"
proof (cases x)
  case (InClient tr now drawn peer addr le payload)
  let ?r = "\<lambda>l. r\<lparr>rr_peers := AList.update peer (l\<lparr>ls_touched := now\<rparr>) (rr_peers r)\<rparr>"
  have "constants (fst (client_token now drawn peer addr (?r l))) = constants r" for l
    unfolding client_token_constants by (simp add: constants_def)
  then show ?thesis using InClient
    by (auto simp: router_step_def client_event_def Let_def constants_def split: prod.splits option.splits) (metis fst_conv)+
next
  case (InDatagram tr now bound src bs)
  then show ?thesis
    by (auto simp: router_step_def hub_datagram_def receive_def receive_response_def receive_request_def Let_def constants_def split: option.splits sum.splits)
qed (auto simp: router_step_def peer_endpoint_def host_event_def Let_def constants_def split: option.splits sum.splits)

lemma router_run_constants: "constants (router_run hmac r xs) = constants r"
  unfolding router_run_def by (induction xs arbitrary: r) (simp_all add: router_step_constants)

definition client_sent :: "RouterInput list \<Rightarrow> rstring \<Rightarrow> SocketAddr \<Rightarrow> bool" where
  "client_sent xs peer addr \<longleftrightarrow> (\<exists>tr now drawn le payload. InClient tr now drawn peer addr le payload \<in> set xs)"

lemma expire_routes: "map_of (rr_outgoing (expire_at now r)) t = Some route \<Longrightarrow> router_ok r \<Longrightarrow> map_of (rr_outgoing r) t = Some route"
  using expire_lookups(1) by blast

lemma client_token_routes:
  assumes ok: "router_ok r" and out: "map_of (rr_outgoing (fst (client_token now drawn peer addr r))) t = Some route"
  shows "map_of (rr_outgoing r) t = Some route \<or> og_peer route = peer \<and> og_local route = addr"
  using out expire_routes [OF _ ok] by (auto simp: client_token_def Let_def map_of_AList split: option.splits if_splits)

lemma receive_response_routes:
  "map_of (rr_outgoing (fst (receive_response now e r))) t = Some route \<Longrightarrow>
   \<exists>old. map_of (rr_outgoing r) t = Some old \<and> og_peer old = og_peer route \<and> og_local old = og_local route"
  by (cases "map_of (rr_outgoing r) (en_token e)"; cases "map_of (rr_peers r) (en_source e)")
    (auto simp: receive_response_def Let_def map_of_AList split: sum.splits if_splits)

lemma receive_request_routes:
  assumes "router_ok r" "map_of (rr_outgoing (fst (receive_request now bound e r))) t = Some route"
  shows "map_of (rr_outgoing r) t = Some route"
  using assms(2) expire_routes [OF _ assms(1)]
  by (cases "map_of (rr_incoming r) (en_source e, en_token e)"; cases "rr_host r")
    (auto simp: receive_request_def Let_def split: option.splits sum.splits if_splits)

lemma step_routes:
  assumes ok: "router_ok r" and out: "map_of (rr_outgoing (fst (router_step hmac r x))) t = Some route"
  shows "(\<exists>old. map_of (rr_outgoing r) t = Some old \<and> og_peer old = og_peer route \<and> og_local old = og_local route) \<or>
    client_sent [x] (og_peer route) (og_local route)"
proof (cases x)
  case (InClient tr now drawn peer addr le payload)
  show ?thesis
  proof (cases "map_of (rr_peers r) peer")
    case (Some l)
    let ?r = "r\<lparr>rr_peers := AList.update peer (l\<lparr>ls_touched := now\<rparr>) (rr_peers r)\<rparr>"
    let ?c = "client_token now drawn peer addr ?r"
    have k: "router_ok ?r" by (rule set_peer_ok [OF ok]) (use router_okD(8) [OF ok Some] Some in simp_all)
    have "map_of (rr_outgoing r) t = Some route \<or> (\<exists>old. map_of (rr_outgoing (fst ?c)) t = Some old \<and> og_peer old = og_peer route \<and> og_local old = og_local route)"
      using out InClient Some
      by (auto simp: router_step_def client_event_def Let_def map_of_AList split: prod.splits option.splits if_splits)
    then consider "map_of (rr_outgoing r) t = Some route" | old where "map_of (rr_outgoing (fst ?c)) t = Some old" "og_peer old = og_peer route" "og_local old = og_local route"
      by blast
    then show ?thesis
    proof cases
      case 2
      from client_token_routes [OF k 2(1)] show ?thesis using 2 InClient by (auto simp: client_sent_def)
    qed blast
  qed (use out InClient in \<open>auto simp: router_step_def client_event_def\<close>)
next
  case (InDatagram tr now bound src bs)
  then show ?thesis using out receive_response_routes receive_request_routes [OF ok]
    by (fastforce simp: router_step_def hub_datagram_def receive_def split: option.splits if_splits)
next
  case (InEndpoint now bound peer)
  then show ?thesis using out expire_routes [OF _ ok]
    by (auto simp: router_step_def peer_endpoint_def Let_def split: option.splits sum.splits if_splits)
next
  case (InHost tr now peer token payload)
  then show ?thesis using out by (auto simp: router_step_def host_event_def Let_def split: option.splits)
qed (use out expire_routes [OF _ ok] in \<open>auto simp: router_step_def split: option.splits\<close>)

lemma routes_from_clients:
  assumes "router_bind i key host = Ok r0" "map_of (rr_outgoing (router_run hmac r0 xs)) t = Some route"
  shows "client_sent xs (og_peer route) (og_local route)"
  using assms(2)
proof (induction xs arbitrary: route rule: rev_induct)
  case Nil
  then show ?case using assms(1) by (auto simp: router_run_def router_bind_def split: if_splits)
next
  case (snoc x xs)
  have "map_of (rr_outgoing (fst (router_step hmac (router_run hmac r0 xs) x))) t = Some route" using snoc.prems by (simp add: router_run_def)
  from step_routes [OF router_run_ok [OF assms(1)] this] snoc.IH show ?case by (fastforce simp: client_sent_def)
qed

text \<open>
  C36. Nothing is broadcast.  A datagram that arrives at the hub leaves on a local socket only if it is an
  envelope for this device, authenticated with the group's key and received over the transport that leads
  to its sender.  A reply goes to the one local client that had itself sent to that device, from the
  endpoint allocated for the device; anything else goes to the host that was configured.
\<close>

theorem datagrams_reach_their_party:
  assumes "router_bind i key host = Ok r0" "s \<in> set (snd (router_step hmac (router_run hmac r0 xs) (InDatagram tr now bound from bs)))"
  shows "\<exists>e a d. envelope_decode hmac key bs = Some e \<and> en_target e = i \<and> en_source e \<noteq> i \<and> accepts tr from (en_source e) \<and>
    s = FromListener a d (en_payload e) \<and>
    (if en_response e
     then client_sent xs (en_source e) d \<and> map_of (rr_clients (router_run hmac r0 xs)) (en_source e, d) = Some (en_token e) \<and>
       (\<exists>l. map_of (rr_peers (router_run hmac r0 xs)) (en_source e) = Some l \<and> a = ls_addr l)
     else host = Some d)"
proof -
  let ?r = "router_run hmac r0 xs"
  have c: "rr_local_id ?r = i" "rr_key ?r = key" "rr_host ?r = host"
    using router_run_constants [of hmac r0 xs] assms(1) by (auto simp: constants_def router_bind_def split: if_splits)
  obtain e where e: "envelope_decode hmac key bs = Some e" "accepts tr from (en_source e)" "en_target e = i" "en_source e \<noteq> i"
      and s: "s \<in> set (snd (if en_response e then receive_response now e ?r else receive_request now bound e ?r))"
    using assms(2) c by (auto simp: router_step_def hub_datagram_def receive_def split: option.splits if_splits)
  show ?thesis
  proof (cases "en_response e")
    case True
    then obtain route l l' where o: "map_of (rr_outgoing ?r) (en_token e) = Some route" "og_peer route = en_source e"
        "map_of (rr_peers ?r) (en_source e) = Some l" "ensure_reader (l\<lparr>ls_touched := now\<rparr>) = Ok l'"
        "s = FromListener (ls_addr l') (og_local route) (en_payload e)"
      using s by (auto simp: receive_response_def Let_def split: option.splits sum.splits if_splits)
    have "map_of (rr_clients ?r) (en_source e, og_local route) = Some (en_token e)"
      using router_okD(10) [OF router_run_ok [OF assms(1)] o(1)] o(2) by simp
    moreover have "client_sent xs (en_source e) (og_local route)" using routes_from_clients [OF assms(1) o(1)] o(2) by simp
    ultimately show ?thesis using True e o ensure_reader_kind [OF o(4)] by auto
  next
    case False
    then show ?thesis using s e c by (auto simp: receive_request_def Let_def split: option.splits sum.splits if_splits)
  qed
qed

text \<open>
  C37. Routes do not mix and the tables are bounded: at every moment two local clients never share a token, a
  client's token always has its route and its listener (the event loop's \<open>unwrap\<close> cannot fail), and the
  three tables stay within their limits.
\<close>

theorem routes_are_isolated:
  assumes "router_bind i key host = Ok r0" "r = router_run hmac r0 xs"
  shows "length (rr_peers r) \<le> MAX_PEERS \<and> length (rr_outgoing r) \<le> MAX_ROUTES \<and> length (rr_incoming r) \<le> MAX_ROUTES \<and>
    (\<forall>p a t. map_of (rr_clients r) (p, a) = Some t \<longrightarrow>
       (\<exists>seen. map_of (rr_outgoing r) t = Some \<lparr>og_peer = p, og_local = a, og_seen = seen\<rparr>) \<and> map_of (rr_peers r) p \<noteq> None \<and>
       (\<forall>k. map_of (rr_clients r) k = Some t \<longrightarrow> k = (p, a)))"
proof -
  have ok: "router_ok r" unfolding assms(2) by (rule router_run_ok [OF assms(1)])
  have "(\<exists>seen. map_of (rr_outgoing r) t = Some \<lparr>og_peer = p, og_local = a, og_seen = seen\<rparr>) \<and> map_of (rr_peers r) p \<noteq> None \<and>
      (\<forall>k. map_of (rr_clients r) k = Some t \<longrightarrow> k = (p, a))" if c: "map_of (rr_clients r) (p, a) = Some t" for p a t
  proof -
    obtain route where o: "map_of (rr_outgoing r) t = Some route" "og_peer route = p" "og_local route = a" using router_okD(9) [OF ok c] by auto
    have "route = \<lparr>og_peer = p, og_local = a, og_seen = og_seen route\<rparr>" using o by simp
    then have "\<exists>seen. map_of (rr_outgoing r) t = Some \<lparr>og_peer = p, og_local = a, og_seen = seen\<rparr>" using o(1) by metis
    moreover have "k = (p, a)" if "map_of (rr_clients r) k = Some t" for k using router_okD(9) [OF ok that] o by auto
    ultimately show ?thesis using router_okD(10) [OF ok o(1)] o by blast
  qed
  then show ?thesis using router_okD(5-7) [OF ok] by blast
qed

section \<open>A request and its reply\<close>

lemma hub_send_ok:
  assumes "envelope_ok \<lparr>en_source = rr_local_id r, en_target = peer, en_token = token, en_response = response, en_payload = payload\<rparr>"
  shows "\<exists>bs. hub_send hmac relay peer token response payload r = [FromHub relay bs] \<and>
    (mac_ok hmac \<longrightarrow> envelope_decode hmac (rr_key r) bs =
       Some \<lparr>en_source = rr_local_id r, en_target = peer, en_token = token, en_response = response, en_payload = payload\<rparr>)"
  using assms envelope_decodes [OF _ assms] by (auto simp: hub_send_def envelope_encode_def envelope_ok_def)

text \<open>A listener whose reader runs or can be started again, the token an application has or gets, and the socket a
  connection has or gets.\<close>

definition reader_up :: "Listener \<Rightarrow> bool" where
  "reader_up l \<longleftrightarrow> ls_finished l \<longrightarrow> ls_failure l = None"

definition has_token :: "Token list \<Rightarrow> rstring \<Rightarrow> SocketAddr \<Rightarrow> RoutedRelay \<Rightarrow> Token \<Rightarrow> bool" where
  "has_token drawn peer app r token \<longleftrightarrow>
     (case map_of (rr_clients r) (peer, app) of
        Some t \<Rightarrow> t = token
      | None \<Rightarrow> length (rr_outgoing r) < MAX_ROUTES \<and> List.find (\<lambda>t. map_of (rr_outgoing r) t = None) drawn = Some token)"

definition has_socket :: "nat \<Rightarrow> SocketAddr \<Rightarrow> rstring \<times> Token \<Rightarrow> RoutedRelay \<Rightarrow> SocketAddr \<Rightarrow> bool" where
  "has_socket now bound key r out \<longleftrightarrow>
     (case map_of (rr_incoming r) key of
        Some i \<Rightarrow> reader_up (ic_listener i) \<and> out = ls_addr (ic_listener i)
      | None \<Rightarrow> length (rr_incoming (expire_at now r)) < MAX_ROUTES \<and> out = bound)"

lemma reader_up_ensure: "reader_up l \<Longrightarrow> \<exists>l'. ensure_reader l = Ok l' \<and> ls_addr l' = ls_addr l \<and> ls_kind l' = ls_kind l \<and> reader_up l'"
  by (auto simp: reader_up_def ensure_reader_def)

text \<open>A client's datagram leaves, and the route stands, whether it is the first of its connection or a later one.\<close>

lemma client_sends:
  assumes ok: "router_ok r" and l: "map_of (rr_peers r) peer = Some l" and t: "has_token drawn peer app r token" and a: "endpoint tr peer = Some relay"
  shows "\<exists>r' seen. client_event hmac tr now drawn peer app (ls_addr l) q r = (r', hub_send hmac relay peer token False q r) \<and>
    constants r' = constants r \<and> map_of (rr_peers r') peer = Some (l\<lparr>ls_touched := now\<rparr>) \<and> map_of (rr_clients r') (peer, app) = Some token \<and>
    map_of (rr_outgoing r') token = Some \<lparr>og_peer = peer, og_local = app, og_seen = seen\<rparr>"
proof (cases "map_of (rr_clients r) (peer, app)")
  case None
  then show ?thesis
    using l t a by (simp add: has_token_def client_event_def client_token_def map_of_AList constants_def hub_send_def)
next
  case (Some t')
  then have c: "map_of (rr_clients r) (peer, app) = Some token" using t by (simp add: has_token_def)
  then obtain route where "map_of (rr_outgoing r) token = Some route" "og_peer route = peer" "og_local route = app"
    using router_okD(9) [OF ok] by blast
  then have "map_of (rr_outgoing r) token = Some \<lparr>og_peer = peer, og_local = app, og_seen = og_seen route\<rparr>" by simp
  then show ?thesis
    using c l a by (simp add: client_event_def client_token_def map_of_AList constants_def hub_send_def Let_def)
qed

lemma request_arrives:
  assumes h: "rr_host r = Some host" and s: "has_socket now sock (en_source e, en_token e) r out"
  shows "\<exists>r' i. receive_request now (Ok sock) e r = (r', [FromListener out host (en_payload e)]) \<and> constants r' = constants r \<and>
    map_of (rr_incoming r') (en_source e, en_token e) = Some i \<and> ls_addr (ic_listener i) = out \<and> reader_up (ic_listener i)"
proof (cases "map_of (rr_incoming r) (en_source e, en_token e)")
  case None
  then show ?thesis
    using h s by (simp add: has_socket_def receive_request_def Let_def map_of_AList constants_def ensure_reader_def listener_new_def reader_up_def)
next
  case (Some i)
  then have "reader_up (ic_listener i)" "out = ls_addr (ic_listener i)" using s by (simp_all add: has_socket_def)
  with reader_up_ensure [of "ic_listener i"] obtain l' where "ensure_reader (ic_listener i) = Ok l'" "ls_addr l' = out" "reader_up l'" by blast
  then show ?thesis using h Some by (simp add: receive_request_def Let_def map_of_AList constants_def)
qed

lemma response_arrives:
  assumes "map_of (rr_outgoing r) (en_token e) = Some route" "og_peer route = en_source e"
    "map_of (rr_peers r) (en_source e) = Some l" "reader_up l"
  shows "\<exists>r'. receive_response now e r = (r', [FromListener (ls_addr l) (og_local route) (en_payload e)]) \<and> rr_clients r' = rr_clients r"
proof -
  have "reader_up (l\<lparr>ls_touched := now\<rparr>)" using assms(4) by (simp add: reader_up_def)
  from reader_up_ensure [OF this] assms(1-3) show ?thesis by (auto simp: receive_response_def Let_def)
qed

text \<open>A request travels from an application to the host.\<close>

lemma request_delivered:
  assumes "mac_ok hmac" "scalars a" "scalars b" "a \<noteq> b" "valid_id a" "valid_id b"
    and rA: "router_ok rA" "constants rA = (a, key, hostA)" and rB: "constants rB = (b, key, Some host)"
    and l: "map_of (rr_peers rA) b = Some l" "has_token drawn b app rA token" "length token = 16" "has_socket t2 sock (a, token) rB out"
    and e: "endpoint trA b = Some hubA" "endpoint trB a = Some hubB" "is_loopback (sa_ip app)" "length q \<le> MAX_PAYLOAD"
  shows "\<exists>req rA1 rB1 i. reader_packet l app q = Some (EvClient b app (ls_addr l) q) \<and>
    client_event hmac trA t1 drawn b app (ls_addr l) q rA = (rA1, [FromHub hubA req]) \<and>
    hub_datagram hmac trB t2 (Ok sock) hubB req rB = (rB1, [FromListener out host q]) \<and>
    map_of (rr_clients rA1) (b, app) = Some token \<and> map_of (rr_peers rA1) b = Some (l\<lparr>ls_touched := t1\<rparr>) \<and>
    map_of (rr_incoming rB1) (a, token) = Some i \<and> ls_addr (ic_listener i) = out \<and> reader_up (ic_listener i)"
proof -
  let ?e = "\<lparr>en_source = a, en_target = b, en_token = token, en_response = False, en_payload = q\<rparr>"
  have reads: "reader_packet l app q = Some (EvClient b app (ls_addr l) q)"
    using router_okD(8) [OF rA(1) l(1)] e(3,4) by (simp add: reader_packet_def)
  obtain rA1 where A1: "client_event hmac trA t1 drawn b app (ls_addr l) q rA = (rA1, hub_send hmac hubA b token False q rA)"
      "map_of (rr_peers rA1) b = Some (l\<lparr>ls_touched := t1\<rparr>)" "map_of (rr_clients rA1) (b, app) = Some token"
    using client_sends [OF rA(1) l(1,2) e(1)] by metis
  have "envelope_ok ?e" using assms(2,3,5,6) l(3) e(4) by (simp add: envelope_ok_def)
  then obtain req where req: "hub_send hmac hubA b token False q rA = [FromHub hubA req]" "envelope_decode hmac key req = Some ?e"
    using hub_send_ok [of rA b token False q hmac hubA] assms(1) rA(2) by (auto simp: constants_def)
  obtain rB1 i where B1: "receive_request t2 (Ok sock) ?e rB = (rB1, [FromListener out host q])"
      "map_of (rr_incoming rB1) (a, token) = Some i" "ls_addr (ic_listener i) = out" "reader_up (ic_listener i)"
    using request_arrives [of rB host t2 sock ?e out] l(4) rB by (auto simp: constants_def)
  have "hub_datagram hmac trB t2 (Ok sock) hubB req rB = (rB1, [FromListener out host q])"
    using req(2) B1(1) rB assms(4) e(2) by (simp add: hub_datagram_def receive_def constants_def accepts_def)
  then show ?thesis using reads A1 req(1) B1(2-4) by auto
qed

text \<open>And what the host sends on the connection's socket travels back.\<close>

lemma reply_delivered:
  assumes "mac_ok hmac" "scalars a" "scalars b" "a \<noteq> b" "valid_id a" "valid_id b"
    and rA: "router_ok rA" "constants rA = (a, key, hostA)" and rB: "router_ok rB" "constants rB = (b, key, Some host)"
    and l: "map_of (rr_peers rA) b = Some l" "reader_up l" "map_of (rr_clients rA) (b, app) = Some token" "length token = 16"
    and i: "map_of (rr_incoming rB) (a, token) = Some i"
    and e: "endpoint trA b = Some hubA" "endpoint trB a = Some hubB" "length p \<le> MAX_PAYLOAD"
  shows "\<exists>rep rA2 rB2. reader_packet (ic_listener i) host p = Some (EvHost a token p) \<and>
    host_event hmac trB t3 a token p rB = (rB2, [FromHub hubB rep]) \<and>
    hub_datagram hmac trA t4 bound hubA rep rA = (rA2, [FromListener (ls_addr l) app p]) \<and>
    map_of (rr_clients rA2) (b, app) = Some token \<and> map_of (rr_incoming rB2) (a, token) = Some (i\<lparr>ic_seen := t3\<rparr>)"
proof -
  let ?e = "\<lparr>en_source = b, en_target = a, en_token = token, en_response = True, en_payload = p\<rparr>"
  have host: "reader_packet (ic_listener i) host p = Some (EvHost a token p)"
    using router_okD(11) [OF rB(1) i] rB(2) e(3) by (auto simp: reader_packet_def constants_def)
  obtain rB2 where B2: "host_event hmac trB t3 a token p rB = (rB2, hub_send hmac hubB a token True p rB)"
      "map_of (rr_incoming rB2) (a, token) = Some (i\<lparr>ic_seen := t3\<rparr>)"
    using i e(2) by (simp add: host_event_def Let_def hub_send_def map_of_AList)
  have "envelope_ok ?e" using assms(2,3,5,6) l(4) e(3) by (simp add: envelope_ok_def)
  then obtain rep where rep: "hub_send hmac hubB a token True p rB = [FromHub hubB rep]" "envelope_decode hmac key rep = Some ?e"
    using hub_send_ok [of rB a token True p hmac hubB] assms(1) rB(2) by (auto simp: constants_def)
  obtain route where route: "map_of (rr_outgoing rA) token = Some route" "og_peer route = b" "og_local route = app"
    using router_okD(9) [OF rA(1) l(3)] by blast
  obtain rA2 where A2: "receive_response t4 ?e rA = (rA2, [FromListener (ls_addr l) app p])" "rr_clients rA2 = rr_clients rA"
    using response_arrives [of rA ?e route l t4] route l(1,2) by auto
  have "hub_datagram hmac trA t4 bound hubA rep rA = (rA2, [FromListener (ls_addr l) app p])"
    using rep(2) A2(1) rA(2) assms(4) e(1) by (simp add: hub_datagram_def receive_def constants_def accepts_def)
  then show ?thesis using host B2 rep(1) A2(2) l(3) by auto
qed

text \<open>
  C35. A device reaches the host of another device and hears back.  An application sends to the endpoint that its
  router allocated for device \<open>b\<close>; the hub of \<open>a\<close> emits one authenticated datagram, and the router of \<open>b\<close> hands
  the payload to its host, from the socket of this connection.  This holds for the first datagram, which opens
  the route while there is room, and for every later one, which uses the token and the socket that the
  connection has.  What the host sends on that socket, at once or after anything else that leaves the two
  routes in place, comes back to the same application, from the endpoint for \<open>b\<close>, and the routes stay.
\<close>

theorem request_and_reply:
  assumes "mac_ok hmac" "scalars a" "scalars b" "a \<noteq> b"
    and "router_bind a key hostA = Ok rA0" "rA = router_run hmac rA0 xs" "router_bind b key (Some host) = Ok rB0" "rB = router_run hmac rB0 ys"
    and "map_of (rr_peers rA) b = Some l" "has_token drawn b app rA token" "length token = 16" "has_socket t2 sock (a, token) rB out"
    and "endpoint trA b = Some hubA" "endpoint trB a = Some hubB" "is_loopback (sa_ip app)" "length q \<le> MAX_PAYLOAD" "length p \<le> MAX_PAYLOAD"
  shows "\<exists>req rA1 rB1 i. reader_packet l app q = Some (EvClient b app (ls_addr l) q) \<and>
    client_event hmac trA t1 drawn b app (ls_addr l) q rA = (rA1, [FromHub hubA req]) \<and>
    hub_datagram hmac trB t2 (Ok sock) hubB req rB = (rB1, [FromListener out host q]) \<and>
    map_of (rr_clients rA1) (b, app) = Some token \<and> map_of (rr_peers rA1) b = Some (l\<lparr>ls_touched := t1\<rparr>) \<and>
    map_of (rr_incoming rB1) (a, token) = Some i \<and> ls_addr (ic_listener i) = out \<and> reader_up (ic_listener i) \<and>
    (\<forall>us vs l3 i3. map_of (rr_clients (router_run hmac rA1 us)) (b, app) = Some token \<and>
        map_of (rr_peers (router_run hmac rA1 us)) b = Some l3 \<and> reader_up l3 \<and>
        map_of (rr_incoming (router_run hmac rB1 vs)) (a, token) = Some i3 \<longrightarrow>
      (\<exists>rep rA2 rB2. reader_packet (ic_listener i3) host p = Some (EvHost a token p) \<and>
        host_event hmac trB t3 a token p (router_run hmac rB1 vs) = (rB2, [FromHub hubB rep]) \<and>
        hub_datagram hmac trA t4 bound hubA rep (router_run hmac rA1 us) = (rA2, [FromListener (ls_addr l3) app p]) \<and>
        map_of (rr_clients rA2) (b, app) = Some token \<and> map_of (rr_incoming rB2) (a, token) = Some (i3\<lparr>ic_seen := t3\<rparr>)))"
proof -
  have c: "constants rA = (a, key, hostA)" "constants rB = (b, key, Some host)" and v: "valid_id a" "valid_id b"
    using assms(5-8) router_run_constants by (auto simp: constants_def router_bind_def split: if_splits)
  have ok: "router_ok rA" "router_ok rB" using assms(5-8) router_run_ok by blast+
  obtain req rA1 rB1 i where req: "reader_packet l app q = Some (EvClient b app (ls_addr l) q)"
      "client_event hmac trA t1 drawn b app (ls_addr l) q rA = (rA1, [FromHub hubA req])"
      "hub_datagram hmac trB t2 (Ok sock) hubB req rB = (rB1, [FromListener out host q])"
      "map_of (rr_clients rA1) (b, app) = Some token" "map_of (rr_peers rA1) b = Some (l\<lparr>ls_touched := t1\<rparr>)"
      "map_of (rr_incoming rB1) (a, token) = Some i" "ls_addr (ic_listener i) = out" "reader_up (ic_listener i)"
    using request_delivered [OF assms(1-4) v ok(1) c assms(9-16), of t1] by (elim exE conjE) (rule that)
  have step: "rA1 = router_run hmac rA [InClient trA t1 drawn b app (ls_addr l) q]" "rB1 = router_run hmac rB [InDatagram trB t2 (Ok sock) hubB req]"
    using req(2,3) by (simp_all add: router_run_def router_step_def)
  have later: "router_ok (router_run hmac rA1 us)" "router_ok (router_run hmac rB1 vs)"
      "constants (router_run hmac rA1 us) = (a, key, hostA)" "constants (router_run hmac rB1 vs) = (b, key, Some host)" for us vs
    using router.run_inv [OF router.run_inv [OF ok(1)]] router.run_inv [OF router.run_inv [OF ok(2)]] c
    unfolding step by (simp_all add: router_run_constants) (simp_all only: router_run_def)
  have rep: "\<exists>rep rA2 rB2. reader_packet (ic_listener i3) host p = Some (EvHost a token p) \<and>
      host_event hmac trB t3 a token p (router_run hmac rB1 vs) = (rB2, [FromHub hubB rep]) \<and>
      hub_datagram hmac trA t4 bound hubA rep (router_run hmac rA1 us) = (rA2, [FromListener (ls_addr l3) app p]) \<and>
      map_of (rr_clients rA2) (b, app) = Some token \<and> map_of (rr_incoming rB2) (a, token) = Some (i3\<lparr>ic_seen := t3\<rparr>)"
    if "map_of (rr_clients (router_run hmac rA1 us)) (b, app) = Some token" "map_of (rr_peers (router_run hmac rA1 us)) b = Some l3"
      "reader_up l3" "map_of (rr_incoming (router_run hmac rB1 vs)) (a, token) = Some i3" for us vs l3 i3
    using reply_delivered [OF assms(1-4) v later(1,3,2,4) that(2,3,1) assms(11) that(4) assms(13,14,17)] .
  show ?thesis
    by (rule exI [of _ req], rule exI [of _ rA1], rule exI [of _ rB1], rule exI [of _ i])
      (intro conjI req allI impI, elim conjE, rule rep, assumption+)
qed

section \<open>Two routers\<close>

definition demo_mac :: mac_fun where "demo_mac k m = replicate 32 0"
definition demo_token :: Token where "demo_token = replicate 16 7"

definition demo_router :: "string \<Rightarrow> SocketAddr option \<Rightarrow> RoutedRelay" where
  "demo_router i host = \<lparr>rr_local_id = lit i, rr_key = [], rr_host = host, rr_peers = [], rr_outgoing = [], rr_clients = [], rr_incoming = []\<rparr>"

definition demo_inputs :: "RouterInput list" where
  "demo_inputs = [InEndpoint 0 (Ok (demo_addr 1)) (lit ''b''), InClient (TrRelay (demo_addr 9)) 1 [demo_token] (lit ''b'') (demo_addr 4) (demo_addr 1) [1, 2]]"

definition demo_reply :: Envelope where
  "demo_reply = \<lparr>en_source = lit ''b'', en_target = lit ''a'', en_token = demo_token, en_response = True, en_payload = [3]\<rparr>"

lemma demo_devices: "valid_id (lit ''a'')" "valid_id (lit ''b'')" "scalars (lit ''a'')" "scalars (lit ''b'')" "lit ''a'' \<noteq> lit ''b''"
  by (simp_all add: valid_id_def lit_def as_bytes_def utf8_char_def scalars_def scalar_def id_byte_def unat_byte)

lemma demo_binds: "router_bind (lit ''a'') [] None = Ok (demo_router ''a'' None)"
  "router_bind (lit ''b'') [] (Some (demo_addr 5)) = Ok (demo_router ''b'' (Some (demo_addr 5)))"
  using demo_devices by (simp_all add: router_bind_def demo_router_def demo_addr_def is_loopback_def)

lemma demo_endpoint: "router_run demo_mac (demo_router ''a'' None) [InEndpoint 0 (Ok (demo_addr 1)) (lit ''b'')] =
  (demo_router ''a'' None)\<lparr>rr_peers := [(lit ''b'', listener_new 0 (demo_addr 1) (LK_Client (lit ''b'')))]\<rparr>"
  using demo_devices by (simp add: router_run_def router_step_def peer_endpoint_def demo_router_def expire_at_def MAX_PEERS_def)

lemma demo_mac_ok: "mac_ok demo_mac" by (simp add: mac_ok_def demo_mac_def)

lemma demo_server:
  "router_run demo_mac (demo_router ''b'' (Some (demo_addr 5))) [] = demo_router ''b'' (Some (demo_addr 5))"
  by (simp add: router_run_def)

theorem request_and_reply_witness:
  "\<exists>req rep rA1 rA2 rB1 rB2.
    client_event demo_mac (TrRelay (demo_addr 9)) 1 [demo_token] (lit ''b'') (demo_addr 4) (demo_addr 1) [1, 2]
      ((demo_router ''a'' None)\<lparr>rr_peers := [(lit ''b'', listener_new 0 (demo_addr 1) (LK_Client (lit ''b'')))]\<rparr>) = (rA1, [FromHub (demo_addr 9) req]) \<and>
    hub_datagram demo_mac (TrRelay (demo_addr 8)) 2 (Ok (demo_addr 6)) (demo_addr 8) req (demo_router ''b'' (Some (demo_addr 5))) =
      (rB1, [FromListener (demo_addr 6) (demo_addr 5) [1, 2]]) \<and>
    host_event demo_mac (TrRelay (demo_addr 8)) 3 (lit ''a'') demo_token [3] rB1 = (rB2, [FromHub (demo_addr 8) rep]) \<and>
    hub_datagram demo_mac (TrRelay (demo_addr 9)) 4 (Err OtherKind) (demo_addr 9) rep rA1 = (rA2, [FromListener (demo_addr 1) (demo_addr 4) [3]])"
proof -
  let ?l = "listener_new 0 (demo_addr 1) (LK_Client (lit ''b''))"
  let ?A = "(demo_router ''a'' None)\<lparr>rr_peers := [(lit ''b'', ?l)]\<rparr>" and ?B = "demo_router ''b'' (Some (demo_addr 5))"
  have l: "map_of (rr_peers ?A) (lit ''b'') = Some ?l" "ls_addr ?l = demo_addr 1" "reader_up (?l\<lparr>ls_touched := 1\<rparr>)"
    by (simp_all add: listener_new_def reader_up_def)
  have A: "has_token [demo_token] (lit ''b'') (demo_addr 4) ?A demo_token" "length demo_token = 16"
    by (simp_all add: has_token_def demo_router_def MAX_ROUTES_def demo_token_def)
  have b: "has_socket 2 (demo_addr 6) (lit ''a'', demo_token) ?B (demo_addr 6)"
    by (simp add: has_socket_def demo_router_def MAX_ROUTES_def expire_at_def)
  have e: "endpoint (TrRelay (demo_addr 9)) (lit ''b'') = Some (demo_addr 9)" "endpoint (TrRelay (demo_addr 8)) (lit ''a'') = Some (demo_addr 8)"
      "is_loopback (sa_ip (demo_addr 4))" "length [1, 2 :: u8] \<le> MAX_PAYLOAD" "length [3 :: u8] \<le> MAX_PAYLOAD"
    by (simp_all add: endpoint_def demo_addr_def is_loopback_def MAX_PAYLOAD_def)
  have nil: "router_run demo_mac r [] = r" for r by (simp add: router_run_def)
  from request_and_reply [where ?t1.0 = 1 and ?t3.0 = 3 and ?t4.0 = 4 and bound = "Err OtherKind",
    OF demo_mac_ok demo_devices(3-5) demo_binds(1) demo_endpoint [symmetric] demo_binds(2) demo_server [symmetric] l(1) A b e]
  obtain req rA1 rB1 i where
    r: "client_event demo_mac (TrRelay (demo_addr 9)) 1 [demo_token] (lit ''b'') (demo_addr 4) (ls_addr ?l) [1, 2] ?A = (rA1, [FromHub (demo_addr 9) req])"
      "hub_datagram demo_mac (TrRelay (demo_addr 8)) 2 (Ok (demo_addr 6)) (demo_addr 8) req ?B = (rB1, [FromListener (demo_addr 6) (demo_addr 5) [1, 2]])"
    and kept: "map_of (rr_clients rA1) (lit ''b'', demo_addr 4) = Some demo_token" "map_of (rr_peers rA1) (lit ''b'') = Some (?l\<lparr>ls_touched := 1\<rparr>)"
      "map_of (rr_incoming rB1) (lit ''a'', demo_token) = Some i"
    and rep: "\<forall>us vs l3 i3. map_of (rr_clients (router_run demo_mac rA1 us)) (lit ''b'', demo_addr 4) = Some demo_token \<and>
        map_of (rr_peers (router_run demo_mac rA1 us)) (lit ''b'') = Some l3 \<and> reader_up l3 \<and>
        map_of (rr_incoming (router_run demo_mac rB1 vs)) (lit ''a'', demo_token) = Some i3 \<longrightarrow>
      (\<exists>rep rA2 rB2. reader_packet (ic_listener i3) (demo_addr 5) [3] = Some (EvHost (lit ''a'') demo_token [3]) \<and>
        host_event demo_mac (TrRelay (demo_addr 8)) 3 (lit ''a'') demo_token [3] (router_run demo_mac rB1 vs) = (rB2, [FromHub (demo_addr 8) rep]) \<and>
        hub_datagram demo_mac (TrRelay (demo_addr 9)) 4 (Err OtherKind) (demo_addr 9) rep (router_run demo_mac rA1 us) =
          (rA2, [FromListener (ls_addr l3) (demo_addr 4) [3]]) \<and>
        map_of (rr_clients rA2) (lit ''b'', demo_addr 4) = Some demo_token \<and>
        map_of (rr_incoming rB2) (lit ''a'', demo_token) = Some (i3\<lparr>ic_seen := 3\<rparr>))"
    by (elim exE conjE) (rule that, assumption+)
  have "ls_addr (?l\<lparr>ls_touched := 1\<rparr>) = demo_addr 1" by (simp add: listener_new_def)
  then show ?thesis
    using rep [THEN spec, of "[]", THEN spec, of "[]", THEN spec, of "?l\<lparr>ls_touched := 1\<rparr>", THEN spec, of i] kept l(3) r
    unfolding nil l(2) by auto
qed

lemma demo_route_run: "router_run demo_mac (demo_router ''a'' None) demo_inputs =
  \<lparr>rr_local_id = lit ''a'', rr_key = [], rr_host = None, rr_peers = [(lit ''b'', (listener_new 0 (demo_addr 1) (LK_Client (lit ''b'')))\<lparr>ls_touched := 1\<rparr>)],
    rr_outgoing = [(demo_token, \<lparr>og_peer = lit ''b'', og_local = demo_addr 4, og_seen = 1\<rparr>)],
    rr_clients = [((lit ''b'', demo_addr 4), demo_token)], rr_incoming = []\<rparr>"
  using demo_endpoint by (simp add: router_run_def demo_inputs_def)
    (simp add: router_step_def client_event_def client_token_def demo_router_def listener_new_def MAX_ROUTES_def Let_def)

theorem datagrams_reach_their_party_witness:
  "snd (router_step demo_mac (router_run demo_mac (demo_router ''a'' None) demo_inputs)
     (InDatagram (TrRelay (demo_addr 9)) 2 (Err OtherKind) (demo_addr 9) (envelope_body demo_reply @ demo_mac [] (envelope_body demo_reply)))) =
     [FromListener (demo_addr 1) (demo_addr 4) [3]] \<and>
   client_sent demo_inputs (lit ''b'') (demo_addr 4)"
proof -
  let ?r = "router_run demo_mac (demo_router ''a'' None) demo_inputs"
  let ?bs = "envelope_body demo_reply @ demo_mac [] (envelope_body demo_reply)"
  let ?x = "InDatagram (TrRelay (demo_addr 9)) 2 (Err OtherKind) (demo_addr 9) ?bs"
  have "envelope_ok demo_reply" using demo_devices by (simp add: demo_reply_def envelope_ok_def demo_token_def MAX_PAYLOAD_def)
  from envelope_decodes [OF demo_mac_ok this] have d: "envelope_decode demo_mac [] ?bs = Some demo_reply" .
  have s: "snd (router_step demo_mac ?r ?x) = [FromListener (demo_addr 1) (demo_addr 4) [3]]"
    unfolding demo_route_run using demo_devices(5)
    by (simp add: router_step_def hub_datagram_def d accepts_def endpoint_def receive_def receive_response_def ensure_reader_def listener_new_def)
      (simp add: demo_reply_def)
  from datagrams_reach_their_party [OF demo_binds(1), of "FromListener (demo_addr 1) (demo_addr 4) [3]" demo_mac demo_inputs "TrRelay (demo_addr 9)" 2 "Err OtherKind" "demo_addr 9" ?bs]
  have "client_sent demo_inputs (lit ''b'') (demo_addr 4)" unfolding s d by (auto simp: demo_reply_def)
  with s show ?thesis by blast
qed

theorem routes_are_isolated_witness:
  "length (rr_outgoing (router_run demo_mac (demo_router ''a'' None) demo_inputs)) \<le> MAX_ROUTES \<and>
   map_of (rr_clients (router_run demo_mac (demo_router ''a'' None) demo_inputs)) (lit ''b'', demo_addr 4) = Some demo_token \<and>
   (\<exists>seen. map_of (rr_outgoing (router_run demo_mac (demo_router ''a'' None) demo_inputs)) demo_token =
      Some \<lparr>og_peer = lit ''b'', og_local = demo_addr 4, og_seen = seen\<rparr>)"
proof -
  let ?r = "router_run demo_mac (demo_router ''a'' None) demo_inputs"
  have "map_of (rr_clients ?r) (lit ''b'', demo_addr 4) = Some demo_token" unfolding demo_route_run by simp
  with routes_are_isolated [OF demo_binds(1) refl [of ?r]] show ?thesis by blast
qed

end
