(* ===== verification/P2p_Tunnel.thy ===== *)
theory P2p_Tunnel
  imports Routed_Relay "HOL-Library.Product_Lexorder" "HOL-Library.List_Lexorder"
begin

text \<open>
  The direct tunnel (\<open>remote_core/src/p2p.rs\<close>): the candidate addresses of a peer with their confirmation,
  round-trip times and predicted neighbours, the choice of the active one, and the tunnel's event loop
  that registers, punches, probes, prunes and forwards.

  A step takes what the loop takes from one branch of its \<open>select!\<close>; the clock, a freshly bound socket and
  the outcome of publishing a discovery announcement are arguments, and a step that ends the loop with an
  error returns it.  Times and durations are in nanoseconds.  The task of a route is the pair of steps of
  \<open>run_peer_route\<close>; the queue towards it is part of the route.
\<close>

section \<open>Candidates\<close>

datatype CandidateKind = Observed | Predicted

definition kind_rank :: "CandidateKind \<Rightarrow> nat" where
  "kind_rank k = (case k of Observed \<Rightarrow> 0 | Predicted \<Rightarrow> 1)"

record CandidateState =
  cs_addr :: SocketAddr
  cs_kind :: CandidateKind
  cs_confirmed :: bool
  cs_rtt :: "nat option"
  cs_last_seen :: nat
  cs_last_confirmed :: "nat option"
  cs_last_probe :: "(u64 \<times> nat) option"

record PeerRoute =
  pr_candidates :: "CandidateState list"
  pr_active :: SocketAddr
  pr_local_endpoint :: SocketAddr
  pr_announcement :: bytes
  pr_candidate_tx :: SocketAddr
  pr_inbound :: "bytes list"
  pr_direct_ready :: bool
  pr_last_seen :: nat
  pr_running :: bool
  pr_return_target :: "SocketAddr option"

record P2pTunnelConfig =
  pc_rendezvous :: "SocketAddr list"
  pc_group :: rstring
  pc_peer :: rstring
  pc_announcement :: bytes
  pc_local_target :: "SocketAddr option"
  pc_peer_ttl :: nat
  pc_direct_timeout :: nat
  pc_port_span :: u16
  pc_max_candidates :: nat

definition ROUTE_QUEUE_CAPACITY :: nat where "ROUTE_QUEUE_CAPACITY = 256"
definition SECOND :: nat where "SECOND = 1000000000"
definition DURATION_MAX :: nat where "DURATION_MAX = (2 ^ 64 - 1) * SECOND + 999999999"

definition tunnel_config_new :: "SocketAddr \<Rightarrow> rstring \<Rightarrow> rstring \<Rightarrow> bytes \<Rightarrow> (P2pTunnelConfig, P2pError) result" where
  "tunnel_config_new rendezvous g peer a =
     try_bind (validate_id g) (\<lambda>g. try_bind (validate_id peer) (\<lambda>peer.
       if length a > MAX_ANNOUNCEMENT_LEN then Err (PE_AnnouncementTooLarge (length a))
       else Ok \<lparr>pc_rendezvous = [rendezvous], pc_group = g, pc_peer = peer, pc_announcement = a, pc_local_target = None,
         pc_peer_ttl = 20 * SECOND, pc_direct_timeout = 5 * SECOND, pc_port_span = 4, pc_max_candidates = 16\<rparr>))"

fun push_unique :: "SocketAddr list \<Rightarrow> SocketAddr list \<Rightarrow> SocketAddr list" where
  "push_unique unique [] = unique"
| "push_unique unique (a # as) = push_unique (if a \<in> set unique then unique else unique @ [a]) as"

definition with_rendezvous_addrs :: "SocketAddr list \<Rightarrow> P2pTunnelConfig \<Rightarrow> P2pTunnelConfig" where
  "with_rendezvous_addrs addrs cfg =
     (let unique = push_unique [] addrs in if unique = [] then cfg else cfg\<lparr>pc_rendezvous := unique\<rparr>)"

definition with_direct_timeout :: "nat \<Rightarrow> P2pTunnelConfig \<Rightarrow> P2pTunnelConfig" where
  "with_direct_timeout t cfg = cfg\<lparr>pc_direct_timeout := max t SECOND\<rparr>"

definition with_prediction :: "u16 \<Rightarrow> nat \<Rightarrow> P2pTunnelConfig \<Rightarrow> P2pTunnelConfig" where
  "with_prediction span n cfg = cfg\<lparr>pc_port_span := min span 32, pc_max_candidates := min (max n 1) 64\<rparr>"

definition is_unspecified :: "IpAddr \<Rightarrow> bool" where
  "is_unspecified ip = (case ip of V4 w \<Rightarrow> w = 0 | V6 w \<Rightarrow> w = 0)"

definition is_multicast :: "IpAddr \<Rightarrow> bool" where
  "is_multicast ip = (case ip of V4 w \<Rightarrow> drop_bit 28 w = 0xE | V6 w \<Rightarrow> drop_bit 120 w = 0xFF)"

definition is_broadcast :: "IpAddr \<Rightarrow> bool" where
  "is_broadcast ip = (case ip of V4 w \<Rightarrow> w = 0xFFFFFFFF | V6 w \<Rightarrow> False)"

definition predict_neighbor_ports :: "SocketAddr \<Rightarrow> bool" where
  "predict_neighbor_ports a \<longleftrightarrow>
     \<not> is_loopback (sa_ip a) \<and> \<not> is_unspecified (sa_ip a) \<and> \<not> is_multicast (sa_ip a) \<and> \<not> is_broadcast (sa_ip a)"

text \<open>The order of \<open>SocketAddr\<close>: by family, address and port.\<close>

definition addr_key :: "SocketAddr \<Rightarrow> nat \<times> nat \<times> nat" where
  "addr_key a = (case sa_ip a of V4 w \<Rightarrow> (0, unat w, unat (sa_port a)) | V6 w \<Rightarrow> (1, unat w, unat (sa_port a)))"

definition candidate_key :: "CandidateState \<Rightarrow> bool \<times> nat \<times> nat \<times> nat \<times> nat \<times> nat" where
  "candidate_key c =
     (\<not> cs_confirmed c, (case cs_rtt c of Some d \<Rightarrow> d | None \<Rightarrow> DURATION_MAX), kind_rank (cs_kind c), addr_key (cs_addr c))"

text \<open>\<open>Iterator::min_by_key\<close>: the first of the least elements.\<close>

fun min_by_key :: "('a \<Rightarrow> 'b :: linorder) \<Rightarrow> 'a list \<Rightarrow> 'a option" where
  "min_by_key f [] = None"
| "min_by_key f (x # xs) = (case min_by_key f xs of None \<Rightarrow> Some x | Some y \<Rightarrow> if f y < f x then Some y else Some x)"

definition candidate_at :: "SocketAddr \<Rightarrow> PeerRoute \<Rightarrow> CandidateState option" where
  "candidate_at a r = List.find (\<lambda>c. cs_addr c = a) (pr_candidates r)"

definition should_switch :: "CandidateState option \<Rightarrow> CandidateState \<Rightarrow> bool" where
  "should_switch current best =
     (if cs_confirmed best then
        (case current of
           Some c \<Rightarrow>
             if cs_confirmed c then
               (case (cs_rtt c, cs_rtt best) of
                  (Some cr, Some br) \<Rightarrow> br + 2000000 < cr
                | (None, Some _) \<Rightarrow> True
                | _ \<Rightarrow> kind_rank (cs_kind best) < kind_rank (cs_kind c))
             else True
         | None \<Rightarrow> True)
      else (case current of
           Some c \<Rightarrow> \<not> cs_confirmed c \<and> kind_rank (cs_kind best) < kind_rank (cs_kind c)
         | None \<Rightarrow> True))"

definition choose_active_candidate :: "PeerRoute \<Rightarrow> PeerRoute" where
  "choose_active_candidate r =
     (case min_by_key candidate_key (pr_candidates r) of
        None \<Rightarrow> r
      | Some best \<Rightarrow>
        if pr_active r = cs_addr best then r
        else if should_switch (candidate_at (pr_active r) r) best
        then r\<lparr>pr_active := cs_addr best, pr_candidate_tx := cs_addr best\<rparr>
        else r)"

definition candidate_new :: "nat \<Rightarrow> SocketAddr \<Rightarrow> CandidateKind \<Rightarrow> CandidateState" where
  "candidate_new now a kind =
     \<lparr>cs_addr = a, cs_kind = kind, cs_confirmed = False, cs_rtt = None, cs_last_seen = now, cs_last_confirmed = None, cs_last_probe = None\<rparr>"

text \<open>\<open>find\<close> on \<open>iter_mut\<close>, and \<open>rposition\<close> with \<open>remove\<close>.\<close>

fun modify_first :: "('a \<Rightarrow> bool) \<Rightarrow> ('a \<Rightarrow> 'a) \<Rightarrow> 'a list \<Rightarrow> 'a list" where
  "modify_first P f [] = []"
| "modify_first P f (x # xs) = (if P x then f x # xs else x # modify_first P f xs)"

fun remove_last :: "('a \<Rightarrow> bool) \<Rightarrow> 'a list \<Rightarrow> 'a list option" where
  "remove_last P [] = None"
| "remove_last P (x # xs) = (case remove_last P xs of Some ys \<Rightarrow> Some (x # ys) | None \<Rightarrow> if P x then Some xs else None)"

definition add_candidate :: "nat \<Rightarrow> SocketAddr \<Rightarrow> CandidateKind \<Rightarrow> nat \<Rightarrow> PeerRoute \<Rightarrow> PeerRoute" where
  "add_candidate now a kind max_candidates r =
     (if candidate_at a r \<noteq> None then
        r\<lparr>pr_candidates := modify_first (\<lambda>c. cs_addr c = a)
          (\<lambda>c. if kind_rank kind < kind_rank (cs_kind c) then c\<lparr>cs_last_seen := now, cs_kind := kind\<rparr> else c\<lparr>cs_last_seen := now\<rparr>) (pr_candidates r)\<rparr>
      else if length (pr_candidates r) \<ge> max_candidates then
        if kind = Observed then
          (case remove_last (\<lambda>c. cs_kind c = Predicted \<and> \<not> cs_confirmed c) (pr_candidates r) of
             Some cs \<Rightarrow> r\<lparr>pr_candidates := cs @ [candidate_new now a kind]\<rparr>
           | None \<Rightarrow> r)
        else r
      else r\<lparr>pr_candidates := pr_candidates r @ [candidate_new now a kind]\<rparr>)"

text \<open>The ports \<open>delta\<close> above and below, as far as they are ports.\<close>

definition neighbours :: "u16 \<Rightarrow> nat \<Rightarrow> u16 list" where
  "neighbours port delta =
     (if unat port + delta \<le> 65535 then [word_of_nat (unat port + delta)] else []) @
     (if delta < unat port then [word_of_nat (unat port - delta)] else [])"

definition predict_ports :: "nat \<Rightarrow> IpAddr \<Rightarrow> u16 list \<Rightarrow> nat \<Rightarrow> PeerRoute \<Rightarrow> PeerRoute" where
  "predict_ports now ip ports max_candidates r =
     fold (\<lambda>port. add_candidate now \<lparr>sa_ip = ip, sa_port = port\<rparr> Predicted max_candidates) ports r"

definition extrapolated :: "u16 list \<Rightarrow> u16 list" where
  "extrapolated observed =
     (if length observed \<ge> 2 then
        let a = int (unat (observed ! (length observed - 2))); b = int (unat (observed ! (length observed - 1))); delta = b - a in
        map (\<lambda>i. word_of_nat (nat i)) (filter (\<lambda>i. 1 \<le> i \<and> i \<le> 65535) [b + delta, a - delta])
      else [])"

definition add_candidate_set :: "nat \<Rightarrow> SocketAddr \<Rightarrow> CandidateKind \<Rightarrow> P2pTunnelConfig \<Rightarrow> PeerRoute \<Rightarrow> PeerRoute" where
  "add_candidate_set now a kind cfg r =
     (let r = add_candidate now a kind (pc_max_candidates cfg) r in
      if kind \<noteq> Observed \<or> pc_port_span cfg = 0 \<or> \<not> predict_neighbor_ports a then choose_active_candidate r
      else
        let r = predict_ports now (sa_ip a) (concat (map (neighbours (sa_port a)) [1..<unat (pc_port_span cfg) + 1])) (pc_max_candidates cfg) r;
            observed = map (\<lambda>c. sa_port (cs_addr c)) (filter (\<lambda>c. cs_kind c = Observed \<and> sa_ip (cs_addr c) = sa_ip a) (pr_candidates r))
        in choose_active_candidate (predict_ports now (sa_ip a) (extrapolated observed) (pc_max_candidates cfg) r))"

definition confirm :: "nat \<Rightarrow> nat option \<Rightarrow> CandidateState \<Rightarrow> CandidateState" where
  "confirm now rtt c = c\<lparr>cs_confirmed := True, cs_last_seen := now, cs_last_confirmed := Some now,
     cs_rtt := (case rtt of None \<Rightarrow> cs_rtt c | Some d \<Rightarrow> Some (case cs_rtt c of Some previous \<Rightarrow> (previous * 3 + d) div 4 | None \<Rightarrow> d))\<rparr>"

definition confirm_candidate :: "nat \<Rightarrow> SocketAddr \<Rightarrow> nat option \<Rightarrow> P2pTunnelConfig \<Rightarrow> PeerRoute \<Rightarrow> PeerRoute \<times> bool" where
  "confirm_candidate now a rtt cfg r =
     (let was_ready = pr_direct_ready r;
          r = add_candidate now a Observed (pc_max_candidates cfg) r;
          r = r\<lparr>pr_candidates := modify_first (\<lambda>c. cs_addr c = a) (confirm now rtt) (pr_candidates r), pr_direct_ready := True\<rparr>
      in (choose_active_candidate r, \<not> was_ready))"

section \<open>The tunnel\<close>

record BoundP2pTunnel =
  tu_peers :: "(rstring \<times> PeerRoute) list"
  tu_observations :: "(SocketAddr \<times> SocketAddr) list"
  tu_probe_token :: u64
  tu_snapshot :: P2pTunnelSnapshot

definition tunnel_new :: BoundP2pTunnel where
  "tunnel_new = \<lparr>tu_peers = [], tu_observations = [], tu_probe_token = 1,
     tu_snapshot = \<lparr>ts_peers = [], ts_nat_behavior = NatUnknown, ts_observed = []\<rparr>\<rparr>"

text \<open>What the tunnel does outside: a datagram from the public socket, a datagram from a route's local
  socket, or a discovery announcement for a peer that has become reachable.\<close>

datatype Output = Public SocketAddr bytes | Local SocketAddr SocketAddr bytes | Announce rstring

definition observed_endpoints :: "(SocketAddr \<times> SocketAddr) list \<Rightarrow> SocketAddr list" where
  "observed_endpoints obs = remdups_adj (sort_key addr_key (map (\<lambda>(_, e). e) obs))"

definition classify_nat_behavior :: "(SocketAddr \<times> SocketAddr) list \<Rightarrow> P2pNatBehavior" where
  "classify_nat_behavior obs =
     (if length obs < 2 then NatUnknown
      else case observed_endpoints obs of
        [] \<Rightarrow> NatUnknown
      | [_] \<Rightarrow> EndpointIndependent
      | e # es \<Rightarrow> if list_all (\<lambda>x. sa_ip x = sa_ip e) (e # es) then PortVarying else AddressAndPortVarying)"

definition peer_snapshot :: "rstring \<Rightarrow> PeerRoute \<Rightarrow> P2pPeerSnapshot" where
  "peer_snapshot peer r = \<lparr>pp_peer_id = peer, pp_candidate = pr_active r, pp_local_endpoint = pr_local_endpoint r,
     pp_direct_ready = pr_direct_ready r, pp_candidate_count = length (pr_candidates r),
     pp_rtt_ms = Option.bind (candidate_at (pr_active r) r) (\<lambda>c. map_option (\<lambda>d. word_of_nat (min (d div 1000000) (2 ^ 32 - 1))) (cs_rtt c))\<rparr>"

definition publish_snapshot :: "BoundP2pTunnel \<Rightarrow> BoundP2pTunnel" where
  "publish_snapshot t = t\<lparr>tu_snapshot := \<lparr>
     ts_peers = sort_key (\<lambda>p. as_bytes (pp_peer_id p)) (map (\<lambda>(peer, r). peer_snapshot peer r) (tu_peers t)),
     ts_nat_behavior = classify_nat_behavior (tu_observations t), ts_observed = observed_endpoints (tu_observations t)\<rparr>\<rparr>"

definition route_new :: "nat \<Rightarrow> SocketAddr \<Rightarrow> SocketAddr \<Rightarrow> bytes \<Rightarrow> P2pTunnelConfig \<Rightarrow> PeerRoute" where
  "route_new now candidate local a cfg = \<lparr>pr_candidates = [], pr_active = candidate, pr_local_endpoint = local, pr_announcement = a,
     pr_candidate_tx = candidate, pr_inbound = [], pr_direct_ready = False, pr_last_seen = now, pr_running = True, pr_return_target = pc_local_target cfg\<rparr>"

definition ensure_peer_route :: "nat \<Rightarrow> (SocketAddr, ErrorKind) result \<Rightarrow> rstring \<Rightarrow> SocketAddr \<Rightarrow> CandidateKind \<Rightarrow> bytes \<Rightarrow> P2pTunnelConfig \<Rightarrow> BoundP2pTunnel \<Rightarrow>
    (BoundP2pTunnel, ErrorKind) result" where
  "ensure_peer_route now bound peer candidate kind a cfg t =
     (case map_of (tu_peers t) peer of
        Some r \<Rightarrow>
          let r = add_candidate_set now candidate kind cfg (r\<lparr>pr_last_seen := now\<rparr>);
              r = (if a = [] then r else r\<lparr>pr_announcement := a\<rparr>)
          in Ok (t\<lparr>tu_peers := AList.update peer r (tu_peers t)\<rparr>)
      | None \<Rightarrow> try_bind bound (\<lambda>local.
          Ok (t\<lparr>tu_peers := AList.update peer (add_candidate_set now candidate kind cfg (route_new now candidate local a cfg)) (tu_peers t)\<rparr>)))"

definition on_route :: "rstring \<Rightarrow> (PeerRoute \<Rightarrow> PeerRoute) \<Rightarrow> BoundP2pTunnel \<Rightarrow> BoundP2pTunnel" where
  "on_route peer f t = (case map_of (tu_peers t) peer of None \<Rightarrow> t | Some r \<Rightarrow> t\<lparr>tu_peers := AList.update peer (f r) (tu_peers t)\<rparr>)"

text \<open>Publishing a peer that has become reachable; an error ends the loop.\<close>

definition announce :: "(unit, ErrorKind) result \<Rightarrow> bool \<Rightarrow> rstring \<Rightarrow> BoundP2pTunnel \<Rightarrow> Output list \<Rightarrow> (BoundP2pTunnel \<times> Output list, ErrorKind) result" where
  "announce disc ready peer t out =
     (if ready then try_bind disc (\<lambda>_. Ok (publish_snapshot t, out @ [Announce peer])) else Ok (publish_snapshot t, out))"

text \<open>Packets that cannot be encoded are invalid data.\<close>

definition p2p_io_error :: "P2pError \<Rightarrow> ErrorKind" where
  "p2p_io_error e = InvalidData"

text \<open>A control packet of a peer: its route exists, its address is confirmed, an answer goes back.\<close>

definition hear_peer :: "nat \<Rightarrow> (SocketAddr, ErrorKind) result \<Rightarrow> (unit, ErrorKind) result \<Rightarrow> rstring \<Rightarrow> SocketAddr \<Rightarrow> P2pPacket option \<Rightarrow>
    P2pTunnelConfig \<Rightarrow> BoundP2pTunnel \<Rightarrow> (BoundP2pTunnel \<times> Output list, ErrorKind) result" where
  "hear_peer now bound disc peer addr reply cfg t =
     try_bind (ensure_peer_route now bound peer addr Observed [] cfg t) (\<lambda>t.
     case map_of (tu_peers t) peer of
       None \<Rightarrow> announce disc False peer t []
     | Some r \<Rightarrow>
       (case confirm_candidate now addr None cfg (r\<lparr>pr_last_seen := now\<rparr>) of (r, became_ready) \<Rightarrow>
        let t = t\<lparr>tu_peers := AList.update peer r (tu_peers t)\<rparr> in
        case reply of
          None \<Rightarrow> announce disc became_ready peer t []
        | Some k \<Rightarrow> try_bind (map_err p2p_io_error (p2p_encode k)) (\<lambda>bs. announce disc became_ready peer t [Public addr bs])))"

definition from_rendezvous :: "nat \<Rightarrow> (SocketAddr, ErrorKind) result \<Rightarrow> (unit, ErrorKind) result \<Rightarrow> SocketAddr \<Rightarrow> bytes \<Rightarrow> P2pTunnelConfig \<Rightarrow> BoundP2pTunnel \<Rightarrow>
    (BoundP2pTunnel \<times> Output list, ErrorKind) result" where
  "from_rendezvous now bound disc addr bs cfg t =
     (case p2p_decode bs of
        Inr (PP_Observation g p e) \<Rightarrow>
          if g = pc_group cfg \<and> p = pc_peer cfg
          then Ok (publish_snapshot (t\<lparr>tu_observations := AList.update addr e (tu_observations t)\<rparr>), [])
          else Ok (t, [])
      | Inr (PP_Candidate g p e a) \<Rightarrow>
          if g = pc_group cfg \<and> p \<noteq> pc_peer cfg then
            try_bind (ensure_peer_route now bound p e Observed a cfg t) (\<lambda>t.
            let t = on_route p (\<lambda>r. add_candidate_set now e Observed cfg (r\<lparr>pr_last_seen := now\<rparr>)) t;
                ready = (case map_of (tu_peers t) p of Some r \<Rightarrow> pr_direct_ready r | None \<Rightarrow> False)
            in try_bind (if ready then disc else Ok ()) (\<lambda>_.
               try_bind (map_err p2p_io_error (p2p_encode (PP_Punch (pc_group cfg) (pc_peer cfg)))) (\<lambda>punch.
               Ok (publish_snapshot t, (if ready then [Announce p] else []) @
                 (case map_of (tu_peers t) p of Some r \<Rightarrow> map (\<lambda>c. Public (cs_addr c) punch) (pr_candidates r) | None \<Rightarrow> [])))))
          else Ok (t, [])
      | _ \<Rightarrow> Ok (t, []))"

definition probe_rtt :: "nat \<Rightarrow> u64 \<Rightarrow> CandidateState list \<Rightarrow> nat option" where
  "probe_rtt now token cs =
     map_option (\<lambda>c. now - snd (the (cs_last_probe c)))
       (List.find (\<lambda>c. case cs_last_probe c of Some (sent, _) \<Rightarrow> sent = token | None \<Rightarrow> False) cs)"

definition from_peer :: "nat \<Rightarrow> (SocketAddr, ErrorKind) result \<Rightarrow> (unit, ErrorKind) result \<Rightarrow> SocketAddr \<Rightarrow> bytes \<Rightarrow> P2pTunnelConfig \<Rightarrow> BoundP2pTunnel \<Rightarrow>
    (BoundP2pTunnel \<times> Output list, ErrorKind) result" where
  "from_peer now bound disc addr bs cfg t =
     (let me = pc_peer cfg; mine = (\<lambda>g p. g = pc_group cfg \<and> p \<noteq> pc_peer cfg) in
      case p2p_decode bs of
        Inr (PP_Punch g p) \<Rightarrow> if mine g p then hear_peer now bound disc p addr (Some (PP_PunchAck (pc_group cfg) me)) cfg t else Ok (t, [])
      | Inr (PP_PunchAck g p) \<Rightarrow> if mine g p then hear_peer now bound disc p addr None cfg t else Ok (t, [])
      | Inr (PP_Probe g p token) \<Rightarrow>
          if mine g p then hear_peer now bound disc p addr (Some (PP_ProbeAck (pc_group cfg) me token)) cfg t else Ok (t, [])
      | Inr (PP_ProbeAck g p token) \<Rightarrow>
          if mine g p then
            (case map_of (tu_peers t) p of
               None \<Rightarrow> Ok (t, [])
             | Some r \<Rightarrow>
               (case confirm_candidate now addr (probe_rtt now token (pr_candidates r)) cfg (r\<lparr>pr_last_seen := now\<rparr>) of (r, became_ready) \<Rightarrow>
                announce disc became_ready p (t\<lparr>tu_peers := AList.update p r (tu_peers t)\<rparr>) []))
          else Ok (t, [])
      | _ \<Rightarrow> Ok (t, []))"

text \<open>\<open>try_send\<close> to the route's task.\<close>

definition push_inbound :: "bytes \<Rightarrow> PeerRoute \<Rightarrow> PeerRoute" where
  "push_inbound bs r = (if pr_running r \<and> length (pr_inbound r) < ROUTE_QUEUE_CAPACITY then r\<lparr>pr_inbound := pr_inbound r @ [bs]\<rparr> else r)"

definition raw_datagram :: "nat \<Rightarrow> (unit, ErrorKind) result \<Rightarrow> SocketAddr \<Rightarrow> bytes \<Rightarrow> P2pTunnelConfig \<Rightarrow> BoundP2pTunnel \<Rightarrow> (BoundP2pTunnel \<times> Output list, ErrorKind) result" where
  "raw_datagram now disc addr bs cfg t =
     (case List.find (\<lambda>(_, r). candidate_at addr r \<noteq> None) (tu_peers t) of
        None \<Rightarrow> Ok (t, [])
      | Some (peer, r) \<Rightarrow>
        (case confirm_candidate now addr None cfg (r\<lparr>pr_last_seen := now\<rparr>) of (r, became_ready) \<Rightarrow>
         announce disc became_ready peer (t\<lparr>tu_peers := AList.update peer (push_inbound bs r) (tu_peers t)\<rparr>) []))"

definition tunnel_receive :: "nat \<Rightarrow> (SocketAddr, ErrorKind) result \<Rightarrow> (unit, ErrorKind) result \<Rightarrow> SocketAddr \<Rightarrow> bytes \<Rightarrow> P2pTunnelConfig \<Rightarrow> BoundP2pTunnel \<Rightarrow>
    (BoundP2pTunnel \<times> Output list, ErrorKind) result" where
  "tunnel_receive now bound disc addr bs cfg t =
     (if addr \<in> set (pc_rendezvous cfg) \<and> is_wire_packet bs then from_rendezvous now bound disc addr bs cfg t
      else if is_wire_packet bs then from_peer now bound disc addr bs cfg t
      else raw_datagram now disc addr bs cfg t)"

definition datagram_receive_result :: "('a, ErrorKind) result \<Rightarrow> ('a option, ErrorKind) result" where
  "datagram_receive_result r = (case r of
     Inr v \<Rightarrow> Ok (Some v)
   | Inl k \<Rightarrow> if k \<in> {ConnectionReset, ConnectionRefused} then Ok None else Err k)"

text \<open>The timers.\<close>

definition registration_packet :: "P2pTunnelConfig \<Rightarrow> (bytes, P2pError) result" where
  "registration_packet cfg = p2p_encode (PP_Register (pc_group cfg) (pc_peer cfg) (pc_announcement cfg))"

definition register_tick :: "P2pTunnelConfig \<Rightarrow> BoundP2pTunnel \<Rightarrow> (BoundP2pTunnel \<times> Output list, ErrorKind) result" where
  "register_tick cfg t = try_bind (map_err p2p_io_error (registration_packet cfg)) (\<lambda>bs. Ok (t, map (\<lambda>a. Public a bs) (pc_rendezvous cfg)))"

definition punch_tick :: "P2pTunnelConfig \<Rightarrow> BoundP2pTunnel \<Rightarrow> (BoundP2pTunnel \<times> Output list, ErrorKind) result" where
  "punch_tick cfg t = try_bind (map_err p2p_io_error (p2p_encode (PP_Punch (pc_group cfg) (pc_peer cfg)))) (\<lambda>punch.
     Ok (t, concat (map (\<lambda>(_, r). if pr_direct_ready r then [] else map (\<lambda>c. Public (cs_addr c) punch) (pr_candidates r)) (tu_peers t))))"

definition next_token :: "u64 \<Rightarrow> u64" where
  "next_token n = max (n + 1) 1"

fun probe_candidates :: "nat \<Rightarrow> P2pTunnelConfig \<Rightarrow> bool \<Rightarrow> CandidateState list \<Rightarrow> u64 \<Rightarrow> (u64 \<times> CandidateState list \<times> Output list, ErrorKind) result" where
  "probe_candidates now cfg ready [] n = Ok (n, [], [])"
| "probe_candidates now cfg ready (c # cs) n =
     (if ready \<and> \<not> cs_confirmed c \<and> cs_kind c = Predicted then
        try_bind (probe_candidates now cfg ready cs n) (\<lambda>(m, cs', out). Ok (m, c # cs', out))
      else
        try_bind (map_err p2p_io_error (p2p_encode (PP_Probe (pc_group cfg) (pc_peer cfg) n))) (\<lambda>bs.
        try_bind (probe_candidates now cfg ready cs (next_token n)) (\<lambda>(m, cs', out).
        Ok (m, c\<lparr>cs_last_probe := Some (n, now)\<rparr> # cs', Public (cs_addr c) bs # out))))"

fun probe_peers :: "nat \<Rightarrow> P2pTunnelConfig \<Rightarrow> (rstring \<times> PeerRoute) list \<Rightarrow> u64 \<Rightarrow> (u64 \<times> (rstring \<times> PeerRoute) list \<times> Output list, ErrorKind) result" where
  "probe_peers now cfg [] n = Ok (n, [], [])"
| "probe_peers now cfg ((peer, r) # rs) n =
     try_bind (probe_candidates now cfg (pr_direct_ready r) (pr_candidates r) n) (\<lambda>(m, cs, out).
     try_bind (probe_peers now cfg rs m) (\<lambda>(k, rs', out'). Ok (k, (peer, r\<lparr>pr_candidates := cs\<rparr>) # rs', out @ out')))"

definition probe_tick :: "nat \<Rightarrow> P2pTunnelConfig \<Rightarrow> BoundP2pTunnel \<Rightarrow> (BoundP2pTunnel \<times> Output list, ErrorKind) result" where
  "probe_tick now cfg t = try_bind (probe_peers now cfg (tu_peers t) (tu_probe_token t)) (\<lambda>(n, rs, out).
     Ok (t\<lparr>tu_peers := rs, tu_probe_token := n\<rparr>, out))"

definition lapsed :: "nat \<Rightarrow> P2pTunnelConfig \<Rightarrow> CandidateState \<Rightarrow> bool" where
  "lapsed now cfg c \<longleftrightarrow> cs_confirmed c \<and> (case cs_last_confirmed c of None \<Rightarrow> True | Some seen \<Rightarrow> now - seen > pc_direct_timeout cfg)"

definition prune_route :: "nat \<Rightarrow> P2pTunnelConfig \<Rightarrow> PeerRoute \<Rightarrow> PeerRoute" where
  "prune_route now cfg r =
     (let cs = map (\<lambda>c. if lapsed now cfg c then c\<lparr>cs_confirmed := False, cs_rtt := None\<rparr> else c) (pr_candidates r);
          r = r\<lparr>pr_candidates := cs, pr_direct_ready := list_ex cs_confirmed cs\<rparr>
      in if pr_direct_ready r then choose_active_candidate r else r)"

definition prune_tick :: "nat \<Rightarrow> P2pTunnelConfig \<Rightarrow> BoundP2pTunnel \<Rightarrow> BoundP2pTunnel" where
  "prune_tick now cfg t =
     (let peers = map (\<lambda>(peer, r). (peer, prune_route now cfg r)) (tu_peers t);
          kept = filter (\<lambda>(_, r). now - pr_last_seen r \<le> pc_peer_ttl cfg) peers;
          changed = (list_ex (\<lambda>(_, r). list_ex (lapsed now cfg) (pr_candidates r) \<or>
            pr_direct_ready (prune_route now cfg r) \<noteq> pr_direct_ready r) (tu_peers t) \<or> length kept < length peers);
          t = t\<lparr>tu_peers := kept\<rparr>
      in if changed then publish_snapshot t else t)"

text \<open>The task of a route: towards the local socket, and from it.\<close>

definition route_inbound :: "rstring \<Rightarrow> BoundP2pTunnel \<Rightarrow> BoundP2pTunnel \<times> Output list" where
  "route_inbound peer t =
     (case map_of (tu_peers t) peer of
        None \<Rightarrow> (t, [])
      | Some r \<Rightarrow>
        if \<not> pr_running r then (t, [])
        else case pr_inbound r of
          [] \<Rightarrow> (t, [])
        | bs # rest \<Rightarrow> (t\<lparr>tu_peers := AList.update peer (r\<lparr>pr_inbound := rest\<rparr>) (tu_peers t)\<rparr>,
            case pr_return_target r of Some target \<Rightarrow> [Local (pr_local_endpoint r) target bs] | None \<Rightarrow> []))"

definition route_outbound :: "rstring \<Rightarrow> SocketAddr \<Rightarrow> bytes \<Rightarrow> BoundP2pTunnel \<Rightarrow> BoundP2pTunnel \<times> Output list" where
  "route_outbound peer source bs t =
     (case map_of (tu_peers t) peer of
        None \<Rightarrow> (t, [])
      | Some r \<Rightarrow>
        if \<not> pr_running r then (t, [])
        else (t\<lparr>tu_peers := AList.update peer (r\<lparr>pr_return_target := Some source\<rparr>) (tu_peers t)\<rparr>, [Public (pr_candidate_tx r) bs]))"

datatype TunnelInput =
  TiRegister | TiPunch | TiProbe nat | TiPrune nat
| TiDatagram nat "(SocketAddr, ErrorKind) result" "(unit, ErrorKind) result" SocketAddr bytes
| TiReceiveError ErrorKind | TiInbound rstring | TiOutbound rstring SocketAddr bytes | TiRouteFails rstring

definition tunnel_step :: "P2pTunnelConfig \<Rightarrow> BoundP2pTunnel \<Rightarrow> TunnelInput \<Rightarrow> (BoundP2pTunnel \<times> Output list, ErrorKind) result" where
  "tunnel_step cfg t x = (case x of
     TiRegister \<Rightarrow> register_tick cfg t
   | TiPunch \<Rightarrow> punch_tick cfg t
   | TiProbe now \<Rightarrow> probe_tick now cfg t
   | TiPrune now \<Rightarrow> Ok (prune_tick now cfg t, [])
   | TiDatagram now bound disc addr bs \<Rightarrow> tunnel_receive now bound disc addr bs cfg t
   | TiReceiveError k \<Rightarrow> try_bind (datagram_receive_result (Err k :: (unit, ErrorKind) result)) (\<lambda>_. Ok (t, []))
   | TiInbound peer \<Rightarrow> Ok (route_inbound peer t)
   | TiOutbound peer source bs \<Rightarrow> Ok (route_outbound peer source bs t)
   | TiRouteFails peer \<Rightarrow> Ok (on_route peer (\<lambda>r. r\<lparr>pr_running := False, pr_inbound := []\<rparr>) t, []))"

fun tunnel_run :: "P2pTunnelConfig \<Rightarrow> BoundP2pTunnel \<Rightarrow> TunnelInput list \<Rightarrow> (BoundP2pTunnel, ErrorKind) result" where
  "tunnel_run cfg t [] = Ok t"
| "tunnel_run cfg t (x # xs) = try_bind (tunnel_step cfg t x) (\<lambda>(t, _). tunnel_run cfg t xs)"

section \<open>The pool of candidates\<close>

lemma min_by_key_None: "min_by_key f xs = None \<longleftrightarrow> xs = []"
  by (cases xs) (auto split: option.split)

lemma min_by_key_Some: "min_by_key f xs = Some y \<Longrightarrow> y \<in> set xs \<and> (\<forall>x \<in> set xs. f y \<le> f x)"
proof (induction xs arbitrary: y)
  case (Cons x xs)
  then show ?case by (cases "min_by_key f xs") (fastforce simp: min_by_key_None split: if_splits)+
qed simp

lemma modify_first_addrs: "(\<And>c. g (f c) = g c) \<Longrightarrow> map g (modify_first P f xs) = map g xs"
  by (induction xs) auto

lemma length_modify_first [simp]: "length (modify_first P f xs) = length xs"
  by (induction xs) auto

lemma modify_first_in: "x \<in> set (modify_first P f xs) \<Longrightarrow> x \<in> set xs \<or> (\<exists>y \<in> set xs. P y \<and> x = f y)"
  by (induction xs) (auto split: if_splits)

lemma remove_last_Some: "remove_last P xs = Some ys \<Longrightarrow> \<exists>as x bs. xs = as @ x # bs \<and> ys = as @ bs \<and> P x"
proof (induction xs arbitrary: ys)
  case (Cons x xs)
  show ?case
  proof (cases "remove_last P xs")
    case None
    then show ?thesis using Cons.prems by (auto split: if_splits intro: exI [of _ "[]"])
  next
    case (Some zs)
    then obtain as z bs where "xs = as @ z # bs" "zs = as @ bs" "P z" using Cons.IH by blast
    then show ?thesis using Some Cons.prems by (intro exI [of _ "x # as"]) auto
  qed
qed simp

definition addrs :: "PeerRoute \<Rightarrow> SocketAddr list" where
  "addrs r = map cs_addr (pr_candidates r)"

definition confirmed_at :: "SocketAddr \<Rightarrow> PeerRoute \<Rightarrow> bool" where
  "confirmed_at a r \<longleftrightarrow> (\<exists>c \<in> set (pr_candidates r). cs_addr c = a \<and> cs_confirmed c)"

text \<open>A pool within its limit, without repeated addresses, whose confirmations are dated.\<close>

definition pool_ok :: "nat \<Rightarrow> PeerRoute \<Rightarrow> bool" where
  "pool_ok n r \<longleftrightarrow> distinct (addrs r) \<and> length (pr_candidates r) \<le> n \<and> (\<forall>c \<in> set (pr_candidates r). cs_confirmed c \<longrightarrow> cs_last_confirmed c \<noteq> None)"

text \<open>What the choice of the active address leaves.\<close>

definition choice_ok :: "PeerRoute \<Rightarrow> bool" where
  "choice_ok r \<longleftrightarrow> pr_active r \<in> set (addrs r) \<and> pr_candidate_tx r = pr_active r \<and> (list_ex cs_confirmed (pr_candidates r) \<longrightarrow> confirmed_at (pr_active r) r)"

lemma confirmed_at_pair: "confirmed_at b r \<longleftrightarrow> (b, True) \<in> set (map (\<lambda>c. (cs_addr c, cs_confirmed c)) (pr_candidates r))"
  by (auto simp: confirmed_at_def)

lemma confirmed_at_cong:
  "map (\<lambda>c. (cs_addr c, cs_confirmed c)) cs = map (\<lambda>c. (cs_addr c, cs_confirmed c)) (pr_candidates r) \<Longrightarrow>
   confirmed_at b (r\<lparr>pr_candidates := cs\<rparr>) = confirmed_at b r"
  unfolding confirmed_at_pair by simp

lemma candidate_at_None: "candidate_at a r = None \<longleftrightarrow> a \<notin> set (addrs r)"
  by (auto simp: candidate_at_def addrs_def find_None_iff)

lemma candidate_at_Some: "candidate_at a r = Some c \<Longrightarrow> c \<in> set (pr_candidates r) \<and> cs_addr c = a"
  by (auto simp: candidate_at_def find_Some_iff)

lemma choose_fields [simp]:
  "pr_candidates (choose_active_candidate r) = pr_candidates r" "pr_direct_ready (choose_active_candidate r) = pr_direct_ready r"
  "pr_inbound (choose_active_candidate r) = pr_inbound r" "pr_local_endpoint (choose_active_candidate r) = pr_local_endpoint r"
  "pr_announcement (choose_active_candidate r) = pr_announcement r" "pr_last_seen (choose_active_candidate r) = pr_last_seen r"
  "pr_running (choose_active_candidate r) = pr_running r" "pr_return_target (choose_active_candidate r) = pr_return_target r"
  by (simp_all add: choose_active_candidate_def split: option.split)

lemma choose_pool [simp]: "pool_ok n (choose_active_candidate r) = pool_ok n r" "addrs (choose_active_candidate r) = addrs r"
  "confirmed_at a (choose_active_candidate r) = confirmed_at a r"
  by (simp_all add: pool_ok_def addrs_def confirmed_at_def)

lemma choose_ok:
  assumes "pr_candidates r \<noteq> []" "pr_candidate_tx r = pr_active r"
  shows "choice_ok (choose_active_candidate r)"
proof -
  obtain best where b: "min_by_key candidate_key (pr_candidates r) = Some best"
    using assms(1) min_by_key_None by (cases "min_by_key candidate_key (pr_candidates r)") blast+
  note m = min_by_key_Some [OF b]
  have conf: "cs_confirmed best" if "list_ex cs_confirmed (pr_candidates r)"
    using that m by (auto simp: list_ex_iff candidate_key_def less_eq_prod_def)
  have best: "cs_addr best \<in> set (addrs r)" "cs_confirmed best \<Longrightarrow> confirmed_at (cs_addr best) r" using m by (auto simp: addrs_def confirmed_at_def)
  have keep: "pr_active r \<in> set (addrs r)" "cs_confirmed best \<Longrightarrow> confirmed_at (pr_active r) r"
    if stay: "\<not> should_switch (candidate_at (pr_active r) r) best"
  proof -
    obtain c where c: "candidate_at (pr_active r) r = Some c" "cs_confirmed best \<Longrightarrow> cs_confirmed c"
      using stay by (cases "candidate_at (pr_active r) r") (auto simp: should_switch_def split: if_splits)
    then show "pr_active r \<in> set (addrs r)" "cs_confirmed best \<Longrightarrow> confirmed_at (pr_active r) r"
      using candidate_at_Some [OF c(1)] by (force simp: addrs_def confirmed_at_def)+
  qed
  show ?thesis
  proof (cases "pr_active r = cs_addr best")
    case True
    then have "choose_active_candidate r = r" using b by (simp add: choose_active_candidate_def)
    then show ?thesis using True best conf assms(2) by (simp add: choice_ok_def)
  next
    case False
    show ?thesis
    proof (cases "should_switch (candidate_at (pr_active r) r) best")
      case True
      then have "choose_active_candidate r = r\<lparr>pr_active := cs_addr best, pr_candidate_tx := cs_addr best\<rparr>"
        using b False by (simp add: choose_active_candidate_def)
      then show ?thesis using best conf by (simp add: choice_ok_def addrs_def confirmed_at_def)
    next
      case no: False
      then have "choose_active_candidate r = r" using b False by (simp add: choose_active_candidate_def)
      then show ?thesis using keep [OF no] conf assms(2) by (simp add: choice_ok_def)
    qed
  qed
qed

text \<open>What adding a candidate does to a pool: nothing confirmed is lost, nothing is confirmed by it.\<close>

definition grows :: "PeerRoute \<Rightarrow> PeerRoute \<Rightarrow> bool" where
  "grows r r' \<longleftrightarrow> (\<exists>cs. r' = r\<lparr>pr_candidates := cs\<rparr>) \<and> (\<forall>a. confirmed_at a r' = confirmed_at a r) \<and> (pr_candidates r \<noteq> [] \<longrightarrow> pr_candidates r' \<noteq> [])"

lemma grows_refl: "grows r r"
  unfolding grows_def by (auto intro: exI [of _ "pr_candidates r"])

lemma grows_trans: "grows r s \<Longrightarrow> grows s t \<Longrightarrow> grows r t"
  unfolding grows_def by auto

lemma add_candidate_cases:
  obtains (old) "candidate_at a r \<noteq> None" "add_candidate now a kind n r = r\<lparr>pr_candidates := modify_first (\<lambda>c. cs_addr c = a)
      (\<lambda>c. if kind_rank kind < kind_rank (cs_kind c) then c\<lparr>cs_last_seen := now, cs_kind := kind\<rparr> else c\<lparr>cs_last_seen := now\<rparr>) (pr_candidates r)\<rparr>"
  | (new) "candidate_at a r = None" "length (pr_candidates r) < n" "add_candidate now a kind n r = r\<lparr>pr_candidates := pr_candidates r @ [candidate_new now a kind]\<rparr>"
  | (swap) as c bs where "candidate_at a r = None" "pr_candidates r = as @ c # bs" "\<not> cs_confirmed c"
      "add_candidate now a kind n r = r\<lparr>pr_candidates := (as @ bs) @ [candidate_new now a kind]\<rparr>"
  | (same) "add_candidate now a kind n r = r" "length (pr_candidates r) \<ge> n" "candidate_at a r = None"
proof (cases "candidate_at a r")
  case None
  show ?thesis
  proof (cases "length (pr_candidates r) < n \<or> kind \<noteq> Observed")
    case True
    then show ?thesis using None new same by (cases "length (pr_candidates r) < n") (auto simp: add_candidate_def not_less)
  next
    case full: False
    show ?thesis
    proof (cases "remove_last (\<lambda>c. cs_kind c = Predicted \<and> \<not> cs_confirmed c) (pr_candidates r)")
      case None
      then show ?thesis using \<open>candidate_at a r = None\<close> full same by (simp add: add_candidate_def not_less)
    next
      case (Some cs)
      from remove_last_Some [OF this] obtain as c bs where "pr_candidates r = as @ c # bs" "cs = as @ bs" "\<not> cs_confirmed c" by blast
      then show ?thesis using \<open>candidate_at a r = None\<close> full Some swap by (simp add: add_candidate_def not_less)
    qed
  qed
next
  case (Some c)
  then show ?thesis using old by (simp add: add_candidate_def)
qed

lemma add_candidate_pool:
  assumes ok: "pool_ok n r" and n: "0 < n"
  shows "pool_ok n (add_candidate now a kind n r)" "grows r (add_candidate now a kind n r)"
    "pr_candidates (add_candidate now a kind n r) \<noteq> []"
proof -
  let ?r = "add_candidate now a kind n r"
  let ?f = "\<lambda>c. if kind_rank kind < kind_rank (cs_kind c) then c\<lparr>cs_last_seen := now, cs_kind := kind\<rparr> else c\<lparr>cs_last_seen := now\<rparr>"
  have f: "cs_addr (?f c) = cs_addr c" "cs_confirmed (?f c) = cs_confirmed c" "cs_last_confirmed (?f c) = cs_last_confirmed c" for c by simp_all
  show "pool_ok n ?r"
  proof (cases rule: add_candidate_cases [of a r now kind n])
    case old
    have "map cs_addr (modify_first (\<lambda>c. cs_addr c = a) ?f (pr_candidates r)) = addrs r" unfolding addrs_def by (rule modify_first_addrs) simp
    moreover have "cs_last_confirmed c \<noteq> None" if c: "c \<in> set (modify_first (\<lambda>c. cs_addr c = a) ?f (pr_candidates r))" "cs_confirmed c" for c
      using modify_first_in [OF c(1)] c(2) ok f(2,3) unfolding pool_ok_def by metis
    ultimately show ?thesis using ok old(2) by (auto simp: pool_ok_def addrs_def)
  next
    case new
    then show ?thesis using ok by (auto simp: pool_ok_def addrs_def candidate_at_None candidate_new_def)
  next
    case swap
    then show ?thesis using ok by (auto simp: pool_ok_def addrs_def candidate_at_None candidate_new_def)
  qed (use ok in simp)
  show "pr_candidates ?r \<noteq> []"
  proof (cases rule: add_candidate_cases [of a r now kind n])
    case old
    then show ?thesis by (cases "pr_candidates r") (auto simp: candidate_at_def)
  qed (use n in auto)
  then show "grows r ?r"
  proof (cases rule: add_candidate_cases [of a r now kind n])
    case old
    have "confirmed_at b (r\<lparr>pr_candidates := modify_first (\<lambda>c. cs_addr c = a) ?f (pr_candidates r)\<rparr>) = confirmed_at b r" for b
      by (rule confirmed_at_cong, rule modify_first_addrs) simp
    then show ?thesis using old \<open>pr_candidates ?r \<noteq> []\<close> unfolding grows_def by auto
  next
    case new
    then show ?thesis unfolding grows_def by (auto simp: confirmed_at_def candidate_new_def)
  next
    case swap
    then show ?thesis unfolding grows_def by (auto simp: confirmed_at_def candidate_new_def)
  qed (use grows_refl in simp)
qed

lemma predict_ports_pool:
  "pool_ok n r \<Longrightarrow> 0 < n \<Longrightarrow> pool_ok n (predict_ports now ip ports n r) \<and> grows r (predict_ports now ip ports n r)"
proof (induction ports arbitrary: r)
  case Nil
  then show ?case by (simp add: predict_ports_def grows_refl)
next
  case (Cons port ports)
  note a = add_candidate_pool [OF Cons.prems, of now "\<lparr>sa_ip = ip, sa_port = port\<rparr>" Predicted]
  from Cons.IH [OF a(1) Cons.prems(2)] grows_trans [OF a(2)] show ?case by (simp add: predict_ports_def)
qed

text \<open>Only candidates and the active address may have changed.\<close>

definition moves :: "PeerRoute \<Rightarrow> PeerRoute \<Rightarrow> bool" where
  "moves r r' \<longleftrightarrow> pr_direct_ready r' = pr_direct_ready r \<and> pr_inbound r' = pr_inbound r \<and> pr_local_endpoint r' = pr_local_endpoint r \<and>
     pr_announcement r' = pr_announcement r \<and> pr_last_seen r' = pr_last_seen r \<and> pr_running r' = pr_running r \<and> pr_return_target r' = pr_return_target r"

lemma grows_moves: "grows r r' \<Longrightarrow> moves r r'"
  by (auto simp: grows_def moves_def)

lemma choose_moves: "moves r (choose_active_candidate r)"
  by (simp add: moves_def)

lemma moves_trans: "moves r s \<Longrightarrow> moves s t \<Longrightarrow> moves r t"
  by (simp add: moves_def)

lemma chosen_pool:
  assumes "pool_ok n r'" "grows r r'" "pr_candidates r' \<noteq> []" "pr_candidate_tx r = pr_active r"
  shows "pool_ok n (choose_active_candidate r') \<and> choice_ok (choose_active_candidate r') \<and> moves r (choose_active_candidate r') \<and>
    (\<forall>a. confirmed_at a (choose_active_candidate r') = confirmed_at a r)"
  using assms choose_ok [of r'] moves_trans [OF grows_moves choose_moves] by (auto simp: grows_def)

lemma add_candidate_set_ok:
  assumes ok: "pool_ok (pc_max_candidates cfg) r" "pr_candidate_tx r = pr_active r" and n: "0 < pc_max_candidates cfg"
  shows "pool_ok (pc_max_candidates cfg) (add_candidate_set now a kind cfg r) \<and> choice_ok (add_candidate_set now a kind cfg r) \<and>
    moves r (add_candidate_set now a kind cfg r) \<and> (\<forall>b. confirmed_at b (add_candidate_set now a kind cfg r) = confirmed_at b r)"
proof -
  let ?n = "pc_max_candidates cfg"
  note a = add_candidate_pool [OF ok(1) n, of now a kind]
  let ?r = "add_candidate now a kind ?n r"
  define s where "s = (\<lambda>ps. predict_ports now (sa_ip a) ps ?n ?r)"
  define t where "t = (\<lambda>ps qs. predict_ports now (sa_ip a) qs ?n (s ps))"
  have s: "pool_ok ?n (s ps)" "grows ?r (s ps)" for ps using predict_ports_pool [OF a(1) n] by (auto simp: s_def)
  have t: "pool_ok ?n (t ps qs)" "grows (s ps) (t ps qs)" for ps qs using predict_ports_pool [OF s(1) n] by (auto simp: t_def)
  have g: "grows r (t ps qs)" "pr_candidates (t ps qs) \<noteq> []" for ps qs
    using grows_trans [OF grows_trans [OF a(2) s(2)] t(2)] a(3) s(2) t(2) by (auto simp: grows_def)
  have f: "predict_ports now (sa_ip a) ps ?n ?r = s ps" "predict_ports now (sa_ip a) qs ?n (s ps) = t ps qs" for ps qs by (simp_all add: s_def t_def)
  show ?thesis unfolding add_candidate_set_def Let_def f
    using chosen_pool [OF a ok(2)] chosen_pool [OF t(1) g ok(2)] by simp
qed

definition route_ok :: "P2pTunnelConfig \<Rightarrow> PeerRoute \<Rightarrow> bool" where
  "route_ok cfg r \<longleftrightarrow> 0 < pc_max_candidates cfg \<and> pool_ok (pc_max_candidates cfg) r \<and> choice_ok r \<and> length (pr_inbound r) \<le> ROUTE_QUEUE_CAPACITY"

lemma confirm_candidate_ok:
  assumes ok: "pool_ok (pc_max_candidates cfg) r" "pr_candidate_tx r = pr_active r" and n: "0 < pc_max_candidates cfg"
    and c: "confirm_candidate now a rtt cfg r = (r', ready)"
  shows "pool_ok (pc_max_candidates cfg) r' \<and> choice_ok r' \<and> moves (r\<lparr>pr_direct_ready := True\<rparr>) r' \<and> ready = (\<not> pr_direct_ready r)"
proof -
  let ?n = "pc_max_candidates cfg"
  let ?s = "add_candidate now a Observed ?n r"
  let ?t = "?s\<lparr>pr_candidates := modify_first (\<lambda>c. cs_addr c = a) (confirm now rtt) (pr_candidates ?s), pr_direct_ready := True\<rparr>"
  note p = add_candidate_pool [OF ok(1) n, of now a Observed]
  have r': "r' = choose_active_candidate ?t" "ready = (\<not> pr_direct_ready r)" using c by (simp_all add: confirm_candidate_def Let_def)
  have m: "map cs_addr (modify_first (\<lambda>c. cs_addr c = a) (confirm now rtt) (pr_candidates ?s)) = map cs_addr (pr_candidates ?s)"
    by (rule modify_first_addrs) (simp add: confirm_def)
  have d: "cs_last_confirmed c \<noteq> None" if "c \<in> set (modify_first (\<lambda>c. cs_addr c = a) (confirm now rtt) (pr_candidates ?s))" "cs_confirmed c" for c
    using modify_first_in [OF that(1)] that(2) p(1) by (auto simp: confirm_def pool_ok_def)
  have "pool_ok ?n ?t" using p(1) m d by (simp add: pool_ok_def addrs_def)
  moreover have "pr_candidates ?t \<noteq> []" using p(3) by (cases "pr_candidates ?s") simp_all
  moreover obtain cs where s: "?s = r\<lparr>pr_candidates := cs\<rparr>" using p(2) by (auto simp: grows_def)
  moreover have "moves (r\<lparr>pr_direct_ready := True\<rparr>) ?t" unfolding s by (simp add: moves_def)
  ultimately show ?thesis unfolding r' using choose_ok [of ?t] ok(2) moves_trans [OF _ choose_moves] by simp
qed

lemma prune_route_ok:
  assumes "route_ok cfg r"
  shows "route_ok cfg (prune_route now cfg r)"
proof -
  define cs where "cs = map (\<lambda>c. if lapsed now cfg c then c\<lparr>cs_confirmed := False, cs_rtt := None\<rparr> else c) (pr_candidates r)"
  let ?r = "r\<lparr>pr_candidates := cs, pr_direct_ready := list_ex cs_confirmed cs\<rparr>"
  have a: "map cs_addr cs = addrs r" unfolding addrs_def cs_def map_map by (rule map_cong) simp_all
  have d: "cs_last_confirmed c \<noteq> None" if "c \<in> set cs" "cs_confirmed c" for c
    using that assms unfolding cs_def route_ok_def pool_ok_def by (auto split: if_splits)
  have "length cs = length (pr_candidates r)" by (simp add: cs_def)
  then have k: "pool_ok (pc_max_candidates cfg) ?r" using assms a d by (auto simp: route_ok_def pool_ok_def addrs_def)
  have t: "pr_candidate_tx ?r = pr_active ?r" "pr_candidates ?r \<noteq> []" "pr_active r \<in> set (map cs_addr cs)"
    using assms a by (auto simp: route_ok_def choice_ok_def addrs_def)
  show ?thesis
    using assms k t choose_ok [OF t(2,1)] unfolding prune_route_def Let_def route_ok_def cs_def [symmetric] by (auto simp: choice_ok_def addrs_def)
qed

section \<open>Every step keeps the routes\<close>

definition tunnel_ok :: "P2pTunnelConfig \<Rightarrow> BoundP2pTunnel \<Rightarrow> bool" where
  "tunnel_ok cfg t \<longleftrightarrow> 0 < pc_max_candidates cfg \<and> hash_wf (tu_peers t) \<and> (\<forall>peer r. map_of (tu_peers t) peer = Some r \<longrightarrow> route_ok cfg r \<and> peer \<noteq> pc_peer cfg)"

lemma publish_peers [simp]: "tu_peers (publish_snapshot t) = tu_peers t" "tu_observations (publish_snapshot t) = tu_observations t"
  "tunnel_ok cfg (publish_snapshot t) = tunnel_ok cfg t"
  by (simp_all add: publish_snapshot_def tunnel_ok_def)

lemma put_route_ok:
  "tunnel_ok cfg t \<Longrightarrow> route_ok cfg r \<Longrightarrow> peer \<noteq> pc_peer cfg \<Longrightarrow> tunnel_ok cfg (t\<lparr>tu_peers := AList.update peer r (tu_peers t)\<rparr>)"
  by (auto simp: tunnel_ok_def hash_wf_ops map_of_AList split: if_splits)

lemma route_okD: "tunnel_ok cfg t \<Longrightarrow> map_of (tu_peers t) peer = Some r \<Longrightarrow> route_ok cfg r \<and> peer \<noteq> pc_peer cfg"
  by (simp add: tunnel_ok_def)

text \<open>Fields that the invariant of a route does not read.\<close>

lemma route_ok_cong:
  "route_ok cfg (r\<lparr>pr_last_seen := now\<rparr>) = route_ok cfg r" "route_ok cfg (r\<lparr>pr_announcement := a\<rparr>) = route_ok cfg r"
  "route_ok cfg (r\<lparr>pr_return_target := x\<rparr>) = route_ok cfg r" "route_ok cfg (r\<lparr>pr_direct_ready := d\<rparr>) = route_ok cfg r"
  by (simp_all add: route_ok_def pool_ok_def choice_ok_def addrs_def confirmed_at_def)

lemma route_okD':
  assumes "route_ok cfg r"
  shows "0 < pc_max_candidates cfg" "pool_ok (pc_max_candidates cfg) r" "pr_candidate_tx r = pr_active r" "choice_ok r"
    "length (pr_inbound r) \<le> ROUTE_QUEUE_CAPACITY"
  using assms by (simp_all add: route_ok_def choice_ok_def)

lemma moves_ok:
  "0 < pc_max_candidates cfg \<Longrightarrow> pool_ok (pc_max_candidates cfg) r' \<Longrightarrow> choice_ok r' \<Longrightarrow> moves r r' \<Longrightarrow>
   length (pr_inbound r) \<le> ROUTE_QUEUE_CAPACITY \<Longrightarrow> route_ok cfg r'"
  by (simp add: route_ok_def moves_def)

lemma set_ok:
  assumes "route_ok cfg r"
  shows "route_ok cfg (add_candidate_set now a kind cfg r)"
  using add_candidate_set_ok [OF route_okD'(2,3,1) [OF assms]] moves_ok [OF route_okD'(1) [OF assms]] route_okD'(5) [OF assms] by blast

lemma new_ok:
  assumes "0 < pc_max_candidates cfg"
  shows "route_ok cfg (add_candidate_set now a kind cfg (route_new now' b local ann cfg))"
proof -
  have "pool_ok (pc_max_candidates cfg) (route_new now' b local ann cfg)" "pr_candidate_tx (route_new now' b local ann cfg) = pr_active (route_new now' b local ann cfg)"
    "length (pr_inbound (route_new now' b local ann cfg)) \<le> ROUTE_QUEUE_CAPACITY"
    by (simp_all add: route_new_def pool_ok_def addrs_def)
  from add_candidate_set_ok [OF this(1,2) assms] this(3) show ?thesis using moves_ok [OF assms] by blast
qed

lemma heard_ok:
  assumes "route_ok cfg r" "confirm_candidate now a rtt cfg r = (r', ready)"
  shows "route_ok cfg r'"
  using confirm_candidate_ok [OF route_okD'(2,3,1) [OF assms(1)] assms(2)] moves_ok [OF route_okD'(1) [OF assms(1)], of r' "r\<lparr>pr_direct_ready := True\<rparr>"]
    route_okD'(5) [OF assms(1)] by simp

lemma ensure_ok:
  assumes "tunnel_ok cfg t" "peer \<noteq> pc_peer cfg" "ensure_peer_route now bound peer a kind ann cfg t = Ok t'"
  shows "tunnel_ok cfg t'"
proof (cases "map_of (tu_peers t) peer")
  case None
  then show ?thesis using assms put_route_ok [OF assms(1) new_ok assms(2)] assms(1) [unfolded tunnel_ok_def] by (auto simp: ensure_peer_route_def try_bind_eq_Ok)
next
  case (Some r)
  have "route_ok cfg (add_candidate_set now a kind cfg (r\<lparr>pr_last_seen := now\<rparr>))" using route_okD [OF assms(1) Some] set_ok by (simp add: route_ok_cong)
  then show ?thesis using assms Some put_route_ok [OF assms(1) _ assms(2)] by (auto simp: ensure_peer_route_def Let_def route_ok_cong)
qed

lemma announce_ok: "tunnel_ok cfg t \<Longrightarrow> announce disc ready peer t out = Ok (t', out') \<Longrightarrow> tunnel_ok cfg t'"
  by (auto simp: announce_def try_bind_eq_Ok split: if_splits)

lemma hear_ok:
  assumes "tunnel_ok cfg t" "peer \<noteq> pc_peer cfg" "hear_peer now bound disc peer addr reply cfg t = Ok (t', out)"
  shows "tunnel_ok cfg t'"
proof -
  obtain s where s: "ensure_peer_route now bound peer addr Observed [] cfg t = Ok s" using assms(3) by (auto simp: hear_peer_def try_bind_eq_Ok)
  note k = ensure_ok [OF assms(1,2) s]
  show ?thesis
  proof (cases "map_of (tu_peers s) peer")
    case None
    then show ?thesis using assms(3) s announce_ok [OF k] by (simp add: hear_peer_def)
  next
    case (Some r)
    obtain r' ready where c: "confirm_candidate now addr None cfg (r\<lparr>pr_last_seen := now\<rparr>) = (r', ready)" by fastforce
    have "route_ok cfg r'" by (rule heard_ok [OF _ c]) (use route_okD [OF k Some] in \<open>simp add: route_ok_cong\<close>)
    from announce_ok [OF put_route_ok [OF k this assms(2)]] show ?thesis
      using assms(3) s Some c by (auto simp: hear_peer_def try_bind_eq_Ok Let_def split: option.splits)
  qed
qed

lemma on_route_ok: "tunnel_ok cfg t \<Longrightarrow> (\<And>r. route_ok cfg r \<Longrightarrow> route_ok cfg (f r)) \<Longrightarrow> tunnel_ok cfg (on_route peer f t)"
  unfolding on_route_def using put_route_ok route_okD by (auto split: option.split)

lemma rendezvous_ok:
  assumes "tunnel_ok cfg t" "from_rendezvous now bound disc addr bs cfg t = Ok (t', out)"
  shows "tunnel_ok cfg t'"
proof -
  have obs: "tunnel_ok cfg (t\<lparr>tu_observations := x\<rparr>)" for x using assms(1) by (simp add: tunnel_ok_def)
  have cand: "tunnel_ok cfg (on_route p (\<lambda>r. add_candidate_set now e Observed cfg (r\<lparr>pr_last_seen := now\<rparr>)) s)"
    if "ensure_peer_route now bound p e Observed a cfg t = Ok s" "p \<noteq> pc_peer cfg" for p e a s
    by (rule on_route_ok [OF ensure_ok [OF assms(1) that(2,1)]]) (simp add: set_ok route_ok_cong)
  show ?thesis using assms obs cand
    by (auto simp: from_rendezvous_def try_bind_eq_Ok Let_def split: sum.splits P2pPacket.splits if_splits)
qed

lemma raw_ok:
  assumes ok: "tunnel_ok cfg t" and r: "raw_datagram now disc addr bs cfg t = Ok (t', out)"
  shows "tunnel_ok cfg t'"
proof (cases "List.find (\<lambda>(_, r). candidate_at addr r \<noteq> None) (tu_peers t)")
  case None
  then show ?thesis using assms by (simp add: raw_datagram_def)
next
  case (Some x)
  obtain peer r where x: "x = (peer, r)" by (cases x)
  then have "(peer, r) \<in> set (tu_peers t)" using Some by (auto simp: find_Some_iff in_set_conv_nth)
  then have m: "map_of (tu_peers t) peer = Some r" using ok by (simp add: tunnel_ok_def hash_wf_mem)
  obtain r' ready where c: "confirm_candidate now addr None cfg (r\<lparr>pr_last_seen := now\<rparr>) = (r', ready)" by fastforce
  have "route_ok cfg r'" by (rule heard_ok [OF _ c]) (use route_okD [OF ok m] in \<open>simp add: route_ok_cong\<close>)
  then have "route_ok cfg (push_inbound bs r')"
    by (simp add: push_inbound_def route_ok_def pool_ok_def choice_ok_def addrs_def confirmed_at_def)
  from announce_ok [OF put_route_ok [OF ok this]] show ?thesis using r Some x c route_okD [OF ok m] by (auto simp: raw_datagram_def)
qed

lemma peer_ok:
  assumes ok: "tunnel_ok cfg t" and r: "from_peer now bound disc addr bs cfg t = Ok (t', out)"
  shows "tunnel_ok cfg t'"
proof -
  have ack: "tunnel_ok cfg t'"
    if "map_of (tu_peers t) p = Some r" "confirm_candidate now addr rtt cfg (r\<lparr>pr_last_seen := now\<rparr>) = (r', ready)"
      "announce disc ready p (t\<lparr>tu_peers := AList.update p r' (tu_peers t)\<rparr>) [] = Ok (t', out)" for p r rtt r' ready
  proof -
    have "route_ok cfg r'" by (rule heard_ok [OF _ that(2)]) (use route_okD [OF ok that(1)] in \<open>simp add: route_ok_cong\<close>)
    then show ?thesis using announce_ok [OF put_route_ok [OF ok] that(3)] route_okD [OF ok that(1)] by blast
  qed
  show ?thesis using r ok hear_ok [OF ok] ack
    by (auto simp: from_peer_def Let_def split: sum.splits P2pPacket.splits if_splits option.splits prod.splits)
qed

lemma probe_candidates_pool:
  "probe_candidates now cfg ready cs n = Ok (m, cs', out) \<Longrightarrow>
   map (\<lambda>c. (cs_addr c, cs_confirmed c, cs_last_confirmed c)) cs' = map (\<lambda>c. (cs_addr c, cs_confirmed c, cs_last_confirmed c)) cs"
  by (induction now cfg ready cs n arbitrary: m cs' out rule: probe_candidates.induct) (auto simp: try_bind_eq_Ok split: if_splits)

lemma pool_view:
  assumes "map (\<lambda>c. (cs_addr c, cs_confirmed c, cs_last_confirmed c)) cs = map (\<lambda>c. (cs_addr c, cs_confirmed c, cs_last_confirmed c)) (pr_candidates r)"
  shows "route_ok cfg (r\<lparr>pr_candidates := cs\<rparr>) = route_ok cfg r"
proof -
  have a: "map cs_addr cs = map cs_addr (pr_candidates r)" using arg_cong [OF assms, of "map fst"] by (simp add: comp_def)
  have p: "map (\<lambda>c. (cs_addr c, cs_confirmed c)) cs = map (\<lambda>c. (cs_addr c, cs_confirmed c)) (pr_candidates r)"
    using arg_cong [OF assms, of "map (\<lambda>(a, c, _). (a, c))"] by (simp add: comp_def)
  have d: "(\<forall>c \<in> set cs. cs_confirmed c \<longrightarrow> cs_last_confirmed c \<noteq> None) = (\<forall>c \<in> set (pr_candidates r). cs_confirmed c \<longrightarrow> cs_last_confirmed c \<noteq> None)"
    using arg_cong [OF assms, of "list_all (\<lambda>(_, c, l). c \<longrightarrow> l \<noteq> None)"] by (simp add: list_all_iff)
  have e: "list_ex cs_confirmed cs = list_ex cs_confirmed (pr_candidates r)"
    using arg_cong [OF p, of "list_ex snd"] by (simp add: list_ex_iff)
  have l: "length cs = length (pr_candidates r)" using a by (metis length_map)
  have i: "cs_addr ` set cs = cs_addr ` set (pr_candidates r)" using a by (metis list.set_map)
  show ?thesis using a d e l i confirmed_at_cong [OF p] by (simp add: route_ok_def pool_ok_def choice_ok_def addrs_def)
qed

lemma probe_peers_ok:
  "probe_peers now cfg rs n = Ok (m, rs', out) \<Longrightarrow> map fst rs' = map fst rs \<and> (list_all (\<lambda>(p, r). route_ok cfg r) rs \<longrightarrow> list_all (\<lambda>(p, r). route_ok cfg r) rs')"
proof (induction now cfg rs n arbitrary: m rs' out rule: probe_peers.induct)
  case (2 now cfg' peer r rs n)
  obtain k cs o1 rs'' o2 where p: "probe_candidates now cfg' (pr_direct_ready r) (pr_candidates r) n = Ok (k, cs, o1)"
      "probe_peers now cfg' rs k = Ok (m, rs'', o2)" "rs' = (peer, r\<lparr>pr_candidates := cs\<rparr>) # rs''"
    using "2.prems" by (auto simp: try_bind_eq_Ok)
  from "2.IH" [OF p(2)] pool_view [OF probe_candidates_pool [OF p(1)]] p(3) show ?case by simp
qed auto

lemma probe_ok:
  assumes ok: "tunnel_ok cfg t" and p: "probe_tick now cfg t = Ok (t', out)"
  shows "tunnel_ok cfg t'"
proof -
  obtain n rs where r: "probe_peers now cfg (tu_peers t) (tu_probe_token t) = Ok (n, rs, out)" "t' = t\<lparr>tu_peers := rs, tu_probe_token := n\<rparr>"
    using p by (auto simp: probe_tick_def try_bind_eq_Ok)
  note q = probe_peers_ok [OF r(1)]
  have wf: "hash_wf rs" using ok q by (simp add: tunnel_ok_def hash_wf_def)
  have "list_all (\<lambda>(p, r). route_ok cfg r) (tu_peers t)" using ok unfolding tunnel_ok_def list_all_iff by (auto simp: hash_wf_mem)
  then have "list_all (\<lambda>(p, r). route_ok cfg r) rs" using q by simp
  moreover have "peer \<noteq> pc_peer cfg" if "map_of rs peer = Some r" for peer r
  proof -
    have "peer \<in> fst ` set (tu_peers t)" using that q by (metis (no_types) list.set_map map_of_eq_None_iff option.distinct(1))
    then show ?thesis using ok by (auto simp: tunnel_ok_def hash_wf_mem)
  qed
  ultimately show ?thesis using wf r(2) ok by (auto simp: tunnel_ok_def list_all_iff dest: map_of_SomeD)
qed

lemma prune_ok: "tunnel_ok cfg t \<Longrightarrow> tunnel_ok cfg (prune_tick now cfg t)"
proof -
  assume ok: "tunnel_ok cfg t"
  let ?p = "filter (\<lambda>(_, r). now - pr_last_seen r \<le> pc_peer_ttl cfg) (map (\<lambda>(peer, r). (peer, prune_route now cfg r)) (tu_peers t))"
  have wf: "hash_wf (map (\<lambda>(peer, r). (peer, prune_route now cfg r)) (tu_peers t))" using ok by (simp add: tunnel_ok_def)
  have "tunnel_ok cfg (t\<lparr>tu_peers := ?p\<rparr>)"
    using ok prune_route_ok unfolding tunnel_ok_def
    by (auto simp: hash_wf_filter wf map_of_retain [OF wf] map_of_values split: option.splits if_splits)
  then show ?thesis by (simp add: prune_tick_def Let_def)
qed

lemma receive_ok:
  assumes "tunnel_ok cfg t" "tunnel_receive now bound disc addr bs cfg t = Ok (t', out)"
  shows "tunnel_ok cfg t'"
proof -
  consider "from_rendezvous now bound disc addr bs cfg t = Ok (t', out)" | "from_peer now bound disc addr bs cfg t = Ok (t', out)"
    | "raw_datagram now disc addr bs cfg t = Ok (t', out)"
    using assms(2) unfolding tunnel_receive_def by presburger
  then show ?thesis using rendezvous_ok [OF assms(1)] peer_ok [OF assms(1)] raw_ok [OF assms(1)] by cases
qed

lemma tunnel_step_ok: "tunnel_ok cfg t \<Longrightarrow> tunnel_step cfg t x = Ok (t', out) \<Longrightarrow> tunnel_ok cfg t'"
proof (cases x)
  case (TiInbound peer)
  assume ok: "tunnel_ok cfg t" "tunnel_step cfg t x = Ok (t', out)"
  have "route_ok cfg (r\<lparr>pr_inbound := rest\<rparr>)" if "route_ok cfg r" "pr_inbound r = bs # rest" for r bs rest
    using that by (simp add: route_ok_def pool_ok_def choice_ok_def addrs_def confirmed_at_def)
  then show ?thesis using ok TiInbound put_route_ok [OF ok(1)] route_okD [OF ok(1)]
    by (auto simp: tunnel_step_def route_inbound_def split: option.splits if_splits list.splits)
next
  case (TiOutbound peer source bs)
  assume ok: "tunnel_ok cfg t" "tunnel_step cfg t x = Ok (t', out)"
  then show ?thesis using TiOutbound put_route_ok [OF ok(1)] route_okD [OF ok(1)]
    by (auto simp: tunnel_step_def route_outbound_def route_ok_cong split: option.splits if_splits)
next
  case (TiRouteFails peer)
  assume ok: "tunnel_ok cfg t" "tunnel_step cfg t x = Ok (t', out)"
  have "tunnel_ok cfg (on_route peer (\<lambda>r. r\<lparr>pr_running := False, pr_inbound := []\<rparr>) t)"
    by (rule on_route_ok [OF ok(1)]) (simp add: route_ok_def pool_ok_def choice_ok_def addrs_def confirmed_at_def)
  then show ?thesis using ok TiRouteFails by (simp add: tunnel_step_def)
next
  case (TiDatagram now bound disc addr bs)
  assume "tunnel_ok cfg t" "tunnel_step cfg t x = Ok (t', out)"
  then show ?thesis using receive_ok by (simp add: TiDatagram tunnel_step_def)
qed (use probe_ok prune_ok in \<open>auto simp: tunnel_step_def register_tick_def punch_tick_def try_bind_eq_Ok\<close>)

lemma tunnel_run_ok: "tunnel_ok cfg t \<Longrightarrow> tunnel_run cfg t xs = Ok t' \<Longrightarrow> tunnel_ok cfg t'"
  by (induction xs arbitrary: t) (auto simp: try_bind_eq_Ok dest: tunnel_step_ok)

lemma tunnel_new_ok: "0 < pc_max_candidates cfg \<Longrightarrow> tunnel_ok cfg tunnel_new"
  by (simp add: tunnel_ok_def tunnel_new_def hash_wf_def)

text \<open>
  The tunnel of every peer stays well formed whatever arrives: at most as many candidate addresses as
  configured, none twice, a bounded queue towards the local socket, and no tunnel to the device itself.  The
  address that application data is sent to is a candidate, and a confirmed one as soon as one is confirmed.
\<close>

theorem tunnel_routes_bounded:
  assumes "0 < pc_max_candidates cfg" "tunnel_run cfg tunnel_new xs = Ok t" "map_of (tu_peers t) peer = Some r"
  shows "peer \<noteq> pc_peer cfg \<and> distinct (map cs_addr (pr_candidates r)) \<and> length (pr_candidates r) \<le> pc_max_candidates cfg \<and>
    length (pr_inbound r) \<le> ROUTE_QUEUE_CAPACITY \<and> pr_candidate_tx r = pr_active r \<and> pr_candidate_tx r \<in> cs_addr ` set (pr_candidates r) \<and>
    (list_ex cs_confirmed (pr_candidates r) \<longrightarrow> (\<exists>c \<in> set (pr_candidates r). cs_addr c = pr_candidate_tx r \<and> cs_confirmed c))"
  using route_okD [OF tunnel_run_ok [OF tunnel_new_ok [OF assms(1)] assms(2)] assms(3)]
  by (auto simp: route_ok_def pool_ok_def choice_ok_def addrs_def confirmed_at_def)

section \<open>Control is never application data\<close>

definition inbound :: "rstring \<Rightarrow> BoundP2pTunnel \<Rightarrow> bytes list" where
  "inbound peer t = (case map_of (tu_peers t) peer of None \<Rightarrow> [] | Some r \<Rightarrow> pr_inbound r)"

lemma inbound_publish [simp]: "inbound peer (publish_snapshot t) = inbound peer t"
  by (simp add: inbound_def)

lemma inbound_update:
  "inbound p (t\<lparr>tu_peers := AList.update peer r (tu_peers t)\<rparr>) = (if p = peer then pr_inbound r else inbound p t)"
  by (simp add: inbound_def map_of_AList)

lemma add_inbound [simp]: "pr_inbound (add_candidate now a kind n r) = pr_inbound r"
  by (cases rule: add_candidate_cases [of a r now kind n]) simp_all

lemma predict_inbound [simp]: "pr_inbound (predict_ports now ip ports n r) = pr_inbound r"
  unfolding predict_ports_def by (induction ports arbitrary: r) simp_all

lemma set_inbound [simp]: "pr_inbound (add_candidate_set now a kind cfg r) = pr_inbound r"
  by (simp add: add_candidate_set_def Let_def)

lemma confirm_inbound: "confirm_candidate now a rtt cfg r = (r', ready) \<Longrightarrow> pr_inbound r' = pr_inbound r"
  by (auto simp: confirm_candidate_def Let_def)

lemma ensure_inbound: "ensure_peer_route now bound peer a kind ann cfg t = Ok t' \<Longrightarrow> inbound p t' = inbound p t"
  by (cases "map_of (tu_peers t) peer")
    (auto simp: ensure_peer_route_def try_bind_eq_Ok inbound_def map_of_AList route_new_def Let_def)

lemma announce_inbound: "announce disc ready peer t out = Ok (t', out') \<Longrightarrow> inbound p t' = inbound p t \<and> set out' \<subseteq> insert (Announce peer) (set out)"
  by (auto simp: announce_def try_bind_eq_Ok split: if_splits)

lemma heard_inbound:
  assumes "map_of (tu_peers t) peer = Some r" "confirm_candidate now a rtt cfg (r\<lparr>pr_last_seen := x\<rparr>) = (r', ready)"
  shows "inbound p (t\<lparr>tu_peers := AList.update peer r' (tu_peers t)\<rparr>) = inbound p t"
  using confirm_inbound [OF assms(2)] assms(1) by (simp add: inbound_update) (simp add: inbound_def)

text \<open>Outputs that are not datagrams on a local socket.\<close>

definition no_local :: "Output list \<Rightarrow> bool" where
  "no_local out \<longleftrightarrow> list_all (\<lambda>x. case x of Local _ _ _ \<Rightarrow> False | _ \<Rightarrow> True) out"

lemma announce_no_local: "announce disc ready peer t out = Ok (t', out') \<Longrightarrow> no_local out \<Longrightarrow> no_local out'"
  by (auto simp: announce_def try_bind_eq_Ok no_local_def split: if_splits)

lemma hear_inbound:
  assumes "hear_peer now bound disc peer addr reply cfg t = Ok (t', out)"
  shows "inbound p t' = inbound p t \<and> no_local out"
proof -
  obtain s where s: "ensure_peer_route now bound peer addr Observed [] cfg t = Ok s" using assms by (auto simp: hear_peer_def try_bind_eq_Ok)
  note e = ensure_inbound [OF s, of p]
  show ?thesis
  proof (cases "map_of (tu_peers s) peer")
    case None
    then have "announce disc False peer s [] = Ok (t', out)" using assms s by (simp add: hear_peer_def)
    then show ?thesis using announce_inbound announce_no_local e by (fastforce simp: no_local_def)
  next
    case (Some r)
    obtain r' ready where c: "confirm_candidate now addr None cfg (r\<lparr>pr_last_seen := now\<rparr>) = (r', ready)" by fastforce
    let ?s = "s\<lparr>tu_peers := AList.update peer r' (tu_peers s)\<rparr>"
    obtain out0 where "announce disc ready peer ?s out0 = Ok (t', out)" "no_local out0"
      using assms s Some c by (auto simp: hear_peer_def try_bind_eq_Ok Let_def no_local_def split: option.splits)
    then show ?thesis using announce_inbound [of disc ready peer ?s out0 t' out p] announce_no_local heard_inbound [OF Some c, of p] e by metis
  qed
qed

lemma rendezvous_inbound:
  assumes "from_rendezvous now bound disc addr bs cfg t = Ok (t', out)"
  shows "inbound p t' = inbound p t \<and> no_local out"
proof -
  have r: "inbound p (on_route q (\<lambda>r. add_candidate_set now e Observed cfg (r\<lparr>pr_last_seen := now\<rparr>)) s) = inbound p s" for q e s
    by (simp add: on_route_def inbound_update split: option.split) (simp add: inbound_def)
  have l: "no_local (map (\<lambda>c. Public (cs_addr c) x) cs)" "no_local ([Announce q] @ map (\<lambda>c. Public (cs_addr c) x) cs)" for q x cs
    by (simp_all add: no_local_def list_all_iff)
  have o: "inbound p (t\<lparr>tu_observations := x\<rparr>) = inbound p t" for x by (simp add: inbound_def)
  show ?thesis using assms r l o ensure_inbound
    by (auto simp: from_rendezvous_def try_bind_eq_Ok Let_def no_local_def split: sum.splits P2pPacket.splits if_splits option.splits)
qed

lemma peer_inbound:
  assumes "from_peer now bound disc addr bs cfg t = Ok (t', out)"
  shows "inbound p t' = inbound p t \<and> no_local out"
proof -
  have ack: "inbound p t' = inbound p t \<and> no_local out"
    if "map_of (tu_peers t) q = Some r" "confirm_candidate now addr rtt cfg (r\<lparr>pr_last_seen := now\<rparr>) = (r', ready)"
      "announce disc ready q (t\<lparr>tu_peers := AList.update q r' (tu_peers t)\<rparr>) [] = Ok (t', out)" for q r rtt r' ready
    using announce_inbound [OF that(3), of p] announce_no_local [OF that(3)] heard_inbound [OF that(1,2), of p] by (simp add: no_local_def)
  show ?thesis using assms hear_inbound [of now bound disc _ addr _ cfg t t' out p] ack
    by (auto simp: from_peer_def Let_def no_local_def split: sum.splits P2pPacket.splits if_splits option.splits prod.splits)
qed

lemma raw_inbound:
  assumes ok: "tunnel_ok cfg t" and raw: "raw_datagram now disc addr bs cfg t = Ok (t', out)"
  shows "set (inbound p t') \<subseteq> insert bs (set (inbound p t)) \<and> no_local out"
proof (cases "List.find (\<lambda>(_, r). candidate_at addr r \<noteq> None) (tu_peers t)")
  case None
  then show ?thesis using raw by (auto simp: raw_datagram_def no_local_def)
next
  case (Some x)
  obtain peer r where x: "x = (peer, r)" by (cases x)
  then have "(peer, r) \<in> set (tu_peers t)" using Some by (auto simp: find_Some_iff in_set_conv_nth)
  then have m: "map_of (tu_peers t) peer = Some r" using ok by (simp add: tunnel_ok_def hash_wf_mem)
  obtain r' ready where c: "confirm_candidate now addr None cfg (r\<lparr>pr_last_seen := now\<rparr>) = (r', ready)" by fastforce
  have a: "announce disc ready peer (t\<lparr>tu_peers := AList.update peer (push_inbound bs r') (tu_peers t)\<rparr>) [] = Ok (t', out)"
    using raw Some x c by (simp add: raw_datagram_def)
  have "inbound p t' = (if p = peer then pr_inbound (push_inbound bs r') else inbound p t)"
    using announce_inbound [OF a, of p] by (simp add: inbound_update)
  moreover have "pr_inbound r' = inbound peer t" using confirm_inbound [OF c] m by (simp add: inbound_def)
  ultimately show ?thesis using announce_no_local [OF a] by (auto simp: push_inbound_def no_local_def)
qed

lemma receive_inbound:
  assumes "tunnel_ok cfg t" "tunnel_receive now bound disc addr bs cfg t = Ok (t', out)"
  shows "(inbound p t' = inbound p t \<or> \<not> is_wire_packet bs \<and> set (inbound p t') \<subseteq> insert bs (set (inbound p t))) \<and> no_local out"
proof -
  consider "from_rendezvous now bound disc addr bs cfg t = Ok (t', out)" | "from_peer now bound disc addr bs cfg t = Ok (t', out)"
    | "raw_datagram now disc addr bs cfg t = Ok (t', out)" "\<not> is_wire_packet bs"
    using assms(2) unfolding tunnel_receive_def by presburger
  then show ?thesis using rendezvous_inbound [of now bound disc addr bs cfg t t' out p] peer_inbound [of now bound disc addr bs cfg t t' out p]
      raw_inbound [OF assms(1), of now disc addr bs t' out p] by cases auto
qed

definition arrived :: "TunnelInput list \<Rightarrow> bytes \<Rightarrow> bool" where
  "arrived xs bs \<longleftrightarrow> \<not> is_wire_packet bs \<and> (\<exists>now bound disc addr. TiDatagram now bound disc addr bs \<in> set xs)"

lemma probe_peers_inbound:
  "probe_peers now cfg rs n = Ok (m, rs', out) \<Longrightarrow> map (\<lambda>(p, r). (p, pr_inbound r)) rs' = map (\<lambda>(p, r). (p, pr_inbound r)) rs"
  by (induction now cfg rs n arbitrary: m rs' out rule: probe_peers.induct) (auto simp: try_bind_eq_Ok)

lemma prune_inbound [simp]: "pr_inbound (prune_route now cfg r) = pr_inbound r"
  by (simp add: prune_route_def Let_def)

lemma tunnel_step_inbound:
  assumes ok: "tunnel_ok cfg t" and st: "tunnel_step cfg t x = Ok (t', out)" and b: "bs \<in> set (inbound p t')"
  shows "bs \<in> set (inbound p t) \<or> arrived [x] bs"
proof (cases x)
  case (TiProbe now)
  then obtain n rs where r: "probe_peers now cfg (tu_peers t) (tu_probe_token t) = Ok (n, rs, out)" "t' = t\<lparr>tu_peers := rs, tu_probe_token := n\<rparr>"
    using st by (auto simp: tunnel_step_def probe_tick_def try_bind_eq_Ok)
  have "map_option pr_inbound (map_of rs p) = map_option pr_inbound (map_of (tu_peers t) p)"
    using arg_cong [OF probe_peers_inbound [OF r(1)], of "\<lambda>m. map_of m p"] by (simp add: map_of_values)
  then have "inbound p t' = inbound p t" using r(2) by (auto simp: inbound_def split: option.splits)
  then show ?thesis using b by simp
next
  case (TiPrune now)
  let ?q = "map (\<lambda>(peer, r). (peer, prune_route now cfg r)) (tu_peers t)"
  have wf: "hash_wf ?q" using ok by (simp add: tunnel_ok_def)
  have "tu_peers t' = filter (\<lambda>(_, r). now - pr_last_seen r \<le> pc_peer_ttl cfg) ?q"
    using st TiPrune by (auto simp: tunnel_step_def prune_tick_def Let_def)
  then show ?thesis using b map_of_retain [OF wf] by (auto simp: inbound_def map_of_values split: option.splits if_splits)
next
  case (TiDatagram now bound disc addr bytes)
  then have "tunnel_receive now bound disc addr bytes cfg t = Ok (t', out)" using st by (simp add: tunnel_step_def)
  from receive_inbound [OF ok this, of p] show ?thesis using b TiDatagram by (auto simp: arrived_def)
next
  case (TiInbound peer)
  then have "t' = fst (route_inbound peer t)" using st by (simp add: tunnel_step_def)
  then show ?thesis using b by (auto simp: route_inbound_def inbound_def map_of_AList split: option.splits if_splits list.splits)
next
  case (TiOutbound peer source bytes)
  then have "t' = fst (route_outbound peer source bytes t)" using st by (simp add: tunnel_step_def)
  then show ?thesis using b by (auto simp: route_outbound_def inbound_def map_of_AList split: option.splits if_splits)
next
  case (TiRouteFails peer)
  then have "t' = on_route peer (\<lambda>r. r\<lparr>pr_running := False, pr_inbound := []\<rparr>) t" using st by (simp add: tunnel_step_def)
  then show ?thesis using b by (auto simp: on_route_def inbound_def map_of_AList split: option.splits if_splits)
qed (use st b in \<open>auto simp: tunnel_step_def register_tick_def punch_tick_def try_bind_eq_Ok\<close>)

lemma tunnel_run_snoc: "tunnel_run cfg t (xs @ [x]) = Ok t' \<longleftrightarrow> (\<exists>s out. tunnel_run cfg t xs = Ok s \<and> tunnel_step cfg s x = Ok (t', out))"
  by (induction xs arbitrary: t) (auto simp: try_bind_eq_Ok)

lemma tunnel_run_inbound:
  assumes "0 < pc_max_candidates cfg"
  shows "tunnel_run cfg tunnel_new xs = Ok t \<Longrightarrow> bs \<in> set (inbound p t) \<Longrightarrow> arrived xs bs"
proof (induction xs arbitrary: t rule: rev_induct)
  case Nil
  then show ?case by (auto simp: tunnel_new_def inbound_def)
next
  case (snoc x xs)
  obtain s out where s: "tunnel_run cfg tunnel_new xs = Ok s" "tunnel_step cfg s x = Ok (t, out)" using snoc.prems(1) by (auto simp: tunnel_run_snoc)
  from tunnel_step_inbound [OF tunnel_run_ok [OF tunnel_new_ok [OF assms] s(1)] s(2) snoc.prems(2)] snoc.IH [OF s(1)]
  show ?case by (auto simp: arrived_def)
qed

lemma probe_outputs:
  "probe_candidates now cfg ready cs n = Ok (m, cs', out) \<Longrightarrow> no_local out"
  by (induction now cfg ready cs n arbitrary: m cs' out rule: probe_candidates.induct) (auto simp: try_bind_eq_Ok no_local_def split: if_splits)

lemma probe_peers_outputs: "probe_peers now cfg rs n = Ok (m, rs', out) \<Longrightarrow> no_local out"
  using probe_outputs
  by (induction now cfg rs n arbitrary: m rs' out rule: probe_peers.induct) (fastforce simp: try_bind_eq_Ok no_local_def)+

lemma local_output:
  assumes ok: "tunnel_ok cfg t" and st: "tunnel_step cfg t x = Ok (t', out)" and l: "Local a d bs \<in> set out"
  shows "\<exists>peer r. map_of (tu_peers t) peer = Some r \<and> a = pr_local_endpoint r \<and> pr_return_target r = Some d \<and> bs \<in> set (inbound peer t)"
proof (cases "no_local out")
  case True
  then show ?thesis using l by (auto simp: no_local_def list_all_iff)
next
  case False
  show ?thesis
  proof (cases x)
    case TiPunch
    then have "no_local out" using st by (auto simp: tunnel_step_def punch_tick_def try_bind_eq_Ok no_local_def list_all_iff split: if_splits)
    then show ?thesis using False by blast
  next
    case (TiProbe now)
    then show ?thesis using st False probe_peers_outputs by (auto simp: tunnel_step_def probe_tick_def try_bind_eq_Ok)
  next
    case (TiDatagram now bound disc addr bytes)
    then have "tunnel_receive now bound disc addr bytes cfg t = Ok (t', out)" using st by (simp add: tunnel_step_def)
    then show ?thesis using receive_inbound [OF ok] False by blast
  next
    case (TiInbound peer)
    then have "out = snd (route_inbound peer t)" using st by (simp add: tunnel_step_def)
    then show ?thesis using l by (intro exI [of _ peer]) (auto simp: route_inbound_def inbound_def split: option.splits if_splits list.splits)
  next
    case (TiOutbound peer source bytes)
    then have "out = snd (route_outbound peer source bytes t)" using st by (simp add: tunnel_step_def)
    then show ?thesis using l by (auto simp: route_outbound_def split: option.splits if_splits)
  qed (use st l in \<open>auto simp: tunnel_step_def register_tick_def try_bind_eq_Ok\<close>)
qed

text \<open>
  C40. Control packets never become application data: what leaves on a local socket is a datagram that had
  arrived from outside and did not carry the tunnel's magic number, whatever version, group or peer.
\<close>

theorem control_is_never_data:
  assumes "0 < pc_max_candidates cfg" "tunnel_run cfg tunnel_new xs = Ok t" "tunnel_step cfg t x = Ok (t', out)" "Local a d bs \<in> set out"
  shows "\<not> is_wire_packet bs \<and> (\<exists>now bound disc addr. TiDatagram now bound disc addr bs \<in> set xs)"
  using local_output [OF tunnel_run_ok [OF tunnel_new_ok [OF assms(1)] assms(2)] assms(3,4)] tunnel_run_inbound [OF assms(1,2)]
  by (auto simp: arrived_def)

section \<open>The kind of address translation\<close>

lemma observed_set: "set (observed_endpoints obs) = snd ` set obs"
  by (force simp: observed_endpoints_def)

lemma remdups_adj_one: "remdups_adj xs = [x] \<longleftrightarrow> set xs = {x}"
proof
  show "remdups_adj xs = [x]" if "set xs = {x}"
  proof -
    have "xs = replicate (length xs) x" using that by (metis replicate_eqI singletonD)
    moreover have "length xs \<noteq> 0" using that by auto
    ultimately show ?thesis using remdups_adj_replicate [of "length xs" x] by simp
  qed
qed (metis empty_set list.simps(15) remdups_adj_set)

text \<open>
  The classification by sorting and comparing neighbours is the one by sets: with two or more servers asked,
  one endpoint means a mapping independent of the destination, one address several ports, several addresses
  both.
\<close>

theorem nat_classified:
  "classify_nat_behavior obs =
     (let endpoints = snd ` set obs in
      if length obs < 2 then NatUnknown
      else if card endpoints = 1 then EndpointIndependent
      else if card (sa_ip ` endpoints) = 1 then PortVarying
      else AddressAndPortVarying)"
proof (cases "length obs < 2")
  case False
  let ?E = "snd ` set obs" and ?l = "observed_endpoints obs"
  have "?E \<noteq> {}" using False by auto
  then have ne: "?l \<noteq> []" using observed_set [of obs] by auto
  have one: "(\<exists>e. ?l = [e]) \<longleftrightarrow> card ?E = 1"
    using observed_set [of obs] unfolding observed_endpoints_def One_nat_def card_1_singleton_iff by (simp add: remdups_adj_one)
  obtain e es where l: "?l = e # es" using ne by (cases ?l) auto
  have "list_all (\<lambda>x. sa_ip x = sa_ip e) (e # es) \<longleftrightarrow> card (sa_ip ` ?E) = 1"
    unfolding observed_set [symmetric] l One_nat_def card_1_singleton_iff by (auto simp: list_all_iff)
  then show ?thesis using False one l by (cases es) (auto simp: classify_nat_behavior_def Let_def)
qed (simp add: classify_nat_behavior_def)

section \<open>Two devices meet\<close>

lemma modify_first_image: "(\<And>c. g (f c) = g c) \<Longrightarrow> g ` set (modify_first P f xs) = g ` set xs"
  using modify_first_addrs [of g f P xs] by (metis list.set_map)

lemma predicted_keeps: "a \<in> set (addrs r) \<Longrightarrow> a \<in> set (addrs (add_candidate now b Predicted n r))"
proof -
  assume "a \<in> set (addrs r)"
  then have "a \<in> set (addrs (r\<lparr>pr_candidates := modify_first P f (pr_candidates r)\<rparr>))" if "\<And>c. cs_addr (f c) = cs_addr c" for P f
    using modify_first_addrs [of cs_addr f P "pr_candidates r"] that unfolding addrs_def by simp
  then show ?thesis using \<open>a \<in> set (addrs r)\<close> unfolding add_candidate_def by (auto simp: addrs_def)
qed

lemma predict_keeps: "a \<in> set (addrs r) \<Longrightarrow> a \<in> set (addrs (predict_ports now ip ports n r))"
  unfolding predict_ports_def by (induction ports arbitrary: r) (simp_all add: predicted_keeps)

lemma add_candidate_adds:
  assumes "a \<in> set (addrs r) \<or> length (pr_candidates r) < n"
  shows "a \<in> set (addrs (add_candidate now a kind n r))"
proof (cases rule: add_candidate_cases [of a r now kind n])
  case old
  then have "addrs (add_candidate now a kind n r) = addrs r" by (simp add: addrs_def modify_first_addrs)
  then show ?thesis using old(1) candidate_at_None [of a r] by simp
qed (use assms in \<open>auto simp: addrs_def candidate_new_def candidate_at_None\<close>)

text \<open>An address a pool has room for: it is there after it was added as observed.  Only predicted candidates
  that are not confirmed give way, so that is the case while the others and the address fit.\<close>

definition takes :: "P2pTunnelConfig \<Rightarrow> SocketAddr \<Rightarrow> PeerRoute \<Rightarrow> bool" where
  "takes cfg a r \<longleftrightarrow> (\<forall>now. a \<in> set (addrs (add_candidate now a Observed (pc_max_candidates cfg) r)))"

definition solid :: "PeerRoute \<Rightarrow> SocketAddr set" where
  "solid r = cs_addr ` {c \<in> set (pr_candidates r). cs_kind c = Observed \<or> cs_confirmed c}"

lemma solid_simps [simp]: "solid (r\<lparr>pr_last_seen := n\<rparr>) = solid r" "solid (r\<lparr>pr_announcement := ann\<rparr>) = solid r"
  "solid (r\<lparr>pr_direct_ready := d\<rparr>) = solid r" "solid (choose_active_candidate r) = solid r"
  by (simp_all add: solid_def)

lemma solid_update: "solid (r\<lparr>pr_candidates := cs\<rparr>) = cs_addr ` {c \<in> set cs. cs_kind c = Observed \<or> cs_confirmed c}"
  by (simp add: solid_def)

lemma takes_seen [simp]: "takes cfg a (r\<lparr>pr_last_seen := n\<rparr>) = takes cfg a r"
  by (simp add: takes_def add_candidate_def candidate_at_def addrs_def split: option.split)

lemma remove_last_None: "remove_last P xs = None \<longleftrightarrow> \<not> list_ex P xs"
  by (induction xs) (auto split: option.splits)

lemma takesI:
  assumes "pool_ok (pc_max_candidates cfg) r" "solid r \<subseteq> S" "finite S" "card S \<le> pc_max_candidates cfg" "a \<in> S"
  shows "takes cfg a r"
  unfolding takes_def
proof (intro allI)
  fix now
  let ?n = "pc_max_candidates cfg" and ?P = "\<lambda>c. cs_kind c = Predicted \<and> \<not> cs_confirmed c"
  show "a \<in> set (addrs (add_candidate now a Observed ?n r))"
  proof (cases "a \<in> set (addrs r) \<or> length (pr_candidates r) < ?n")
    case True
    then show ?thesis by (rule add_candidate_adds)
  next
    case False
    have "list_ex ?P (pr_candidates r)"
    proof (rule ccontr)
      assume none: "\<not> ?thesis"
      have "cs_kind c = Observed \<or> cs_confirmed c" if "c \<in> set (pr_candidates r)" for c
        using none that by (cases "cs_kind c") (auto simp: list_ex_iff)
      then have "set (addrs r) \<subseteq> S - {a}" using assms(2) False by (auto simp: solid_def addrs_def)
      then have "card (set (addrs r)) \<le> card (S - {a})" using assms(3) by (intro card_mono) simp_all
      also have "\<dots> < card S" using assms(3,5) by (intro psubset_card_mono) auto
      finally have "card (set (addrs r)) < card S" .
      moreover have "card (set (addrs r)) = length (pr_candidates r)"
        using assms(1) distinct_card [of "addrs r"] unfolding pool_ok_def by (simp add: addrs_def)
      ultimately show False using assms(4) False by simp
    qed
    then obtain cs where "remove_last ?P (pr_candidates r) = Some cs" using remove_last_None [of ?P "pr_candidates r"] by fastforce
    then show ?thesis using False candidate_at_None [of a r] by (simp add: add_candidate_def addrs_def candidate_new_def)
  qed
qed

lemma solid_add: "solid (add_candidate now a kind n r) \<subseteq> (if kind = Observed then insert a (solid r) else solid r)"
proof (cases rule: add_candidate_cases [of a r now kind n])
  case old
  let ?f = "\<lambda>c. if kind_rank kind < kind_rank (cs_kind c) then c\<lparr>cs_last_seen := now, cs_kind := kind\<rparr> else c\<lparr>cs_last_seen := now\<rparr>"
  have "cs_addr c \<in> (if kind = Observed then insert a (solid r) else solid r)"
    if c: "c \<in> set (modify_first (\<lambda>c. cs_addr c = a) ?f (pr_candidates r))" "cs_kind c = Observed \<or> cs_confirmed c" for c
    using modify_first_in [OF c(1)] c(2) by (cases kind) (auto simp: solid_def kind_rank_def split: if_splits)
  then have "cs_addr ` {c \<in> set (modify_first (\<lambda>c. cs_addr c = a) ?f (pr_candidates r)). cs_kind c = Observed \<or> cs_confirmed c} \<subseteq>
      (if kind = Observed then insert a (solid r) else solid r)" by blast
  then show ?thesis unfolding old(2) solid_update .
qed (auto simp: solid_def candidate_new_def)

lemma solid_predict: "solid (predict_ports now ip ports n r) \<subseteq> solid r"
  unfolding predict_ports_def
proof (induction ports arbitrary: r)
  case (Cons port ports)
  then show ?case using solid_add [of now "\<lparr>sa_ip = ip, sa_port = port\<rparr>" Predicted n r] by fastforce
qed simp

lemma solid_set: "solid (add_candidate_set now a Observed cfg r) \<subseteq> insert a (solid r)"
  using solid_add [of now a Observed "pc_max_candidates cfg" r]
  by (auto simp: add_candidate_set_def Let_def dest!: subsetD [OF solid_predict])

lemma solid_confirm:
  assumes "confirm_candidate now a rtt cfg r = (r', ready)"
  shows "solid r' \<subseteq> insert a (solid r)"
proof -
  let ?s = "add_candidate now a Observed (pc_max_candidates cfg) r"
  have "cs_addr c \<in> insert a (solid ?s)"
    if c: "c \<in> set (modify_first (\<lambda>c. cs_addr c = a) (confirm now rtt) (pr_candidates ?s))" "cs_kind c = Observed \<or> cs_confirmed c" for c
    using modify_first_in [OF c(1)] c(2) by (auto simp: solid_def confirm_def)
  then have "cs_addr ` {c \<in> set (modify_first (\<lambda>c. cs_addr c = a) (confirm now rtt) (pr_candidates ?s)). cs_kind c = Observed \<or> cs_confirmed c} \<subseteq>
      insert a (solid ?s)" by blast
  moreover have "r' = choose_active_candidate (?s\<lparr>pr_candidates := modify_first (\<lambda>c. cs_addr c = a) (confirm now rtt) (pr_candidates ?s),
      pr_direct_ready := True\<rparr>)" using assms by (simp add: confirm_candidate_def Let_def)
  ultimately have "solid r' \<subseteq> insert a (solid ?s)" by (simp add: solid_update)
  then show ?thesis using solid_add [of now a Observed "pc_max_candidates cfg" r] by auto
qed

lemma set_takes: "takes cfg a r \<Longrightarrow> a \<in> set (addrs (add_candidate_set now a Observed cfg r))"
  by (simp add: add_candidate_set_def Let_def predict_keeps takes_def)

lemma takes_there: "a \<in> set (addrs r) \<Longrightarrow> takes cfg a r"
  by (simp add: takes_def add_candidate_adds)

lemma confirm_marks:
  assumes "a \<in> set (addrs r)" "confirm_candidate now a rtt cfg r = (r', ready)"
  shows "confirmed_at a r' \<and> (\<forall>b. confirmed_at b r' \<longrightarrow> b = a \<or> confirmed_at b r)"
proof -
  let ?s = "add_candidate now a Observed (pc_max_candidates cfg) r"
  let ?m = "modify_first (\<lambda>c. cs_addr c = a) (confirm now rtt) (pr_candidates ?s)"
  obtain c where c: "candidate_at a r = Some c" using assms(1) candidate_at_None [of a r] by (cases "candidate_at a r") auto
  have r': "r' = choose_active_candidate (?s\<lparr>pr_candidates := ?m, pr_direct_ready := True\<rparr>)" using assms(2) by (simp add: confirm_candidate_def Let_def)
  have f: "x \<in> set xs \<Longrightarrow> cs_addr x = a \<Longrightarrow> \<exists>y \<in> set (modify_first (\<lambda>c. cs_addr c = a) (confirm now rtt) xs). cs_addr y = a \<and> cs_confirmed y" for x xs
    by (induction xs) (auto simp: confirm_def)
  have "a \<in> set (addrs ?s)" using assms(1) by (simp add: add_candidate_adds)
  then obtain y where y: "y \<in> set (pr_candidates ?s)" "cs_addr y = a" by (auto simp: addrs_def)
  have "b = a \<or> confirmed_at b r" if b: "confirmed_at b r'" for b
  proof -
    obtain x where x: "x \<in> set ?m" "cs_addr x = b" "cs_confirmed x" using b unfolding r' confirmed_at_def by auto
    show ?thesis
    proof (cases "b = a")
      case False
      then have "x \<in> set (pr_candidates ?s)" using modify_first_in [OF x(1)] x(2) by (auto simp: confirm_def)
      then have "confirmed_at b ?s" using x by (auto simp: confirmed_at_def)
      moreover have "?s = r\<lparr>pr_candidates := modify_first (\<lambda>c. cs_addr c = a) (\<lambda>c. if kind_rank Observed < kind_rank (cs_kind c)
          then c\<lparr>cs_last_seen := now, cs_kind := Observed\<rparr> else c\<lparr>cs_last_seen := now\<rparr>) (pr_candidates r)\<rparr>"
        using c by (simp add: add_candidate_def)
      moreover have "confirmed_at b (r\<lparr>pr_candidates := modify_first (\<lambda>c. cs_addr c = a) (\<lambda>c. if kind_rank Observed < kind_rank (cs_kind c)
          then c\<lparr>cs_last_seen := now, cs_kind := Observed\<rparr> else c\<lparr>cs_last_seen := now\<rparr>) (pr_candidates r)\<rparr>) = confirmed_at b r"
        by (rule confirmed_at_cong, rule modify_first_addrs) simp
      ultimately show ?thesis by simp
    qed simp
  qed
  moreover have "confirmed_at a r'" using f [OF y] unfolding r' by (auto simp: confirmed_at_def)
  ultimately show ?thesis by blast
qed

text \<open>The snapshot gives the router the local endpoint of exactly the peers that can be reached directly.\<close>

lemma route_published:
  assumes "hash_wf (tu_peers t)"
  shows "route_for_peer p (tu_snapshot (publish_snapshot t)) =
    (case map_of (tu_peers t) p of Some r \<Rightarrow> if pr_direct_ready r then Some (pr_local_endpoint r) else None | None \<Rightarrow> None)"
proof -
  let ?ps = "ts_peers (tu_snapshot (publish_snapshot t))" and ?P = "\<lambda>x. pp_peer_id x = p \<and> pp_direct_ready x"
  have s: "x \<in> set ?ps \<longleftrightarrow> (\<exists>q r. map_of (tu_peers t) q = Some r \<and> x = peer_snapshot q r)" for x
    using hash_wf_mem [OF assms] by (force simp: publish_snapshot_def)
  show ?thesis
  proof (cases "List.find ?P ?ps")
    case None
    have "\<not> pr_direct_ready r" if m: "map_of (tu_peers t) p = Some r" for r
    proof -
      have "peer_snapshot p r \<in> set ?ps" using s m by blast
      then have "\<not> ?P (peer_snapshot p r)" using None unfolding find_None_iff by blast
      then show ?thesis by (simp add: peer_snapshot_def)
    qed
    then show ?thesis using None by (simp add: route_for_peer_def split: option.split)
  next
    case (Some x)
    then have "x \<in> set ?ps" "pp_peer_id x = p" "pp_direct_ready x" by (auto simp: find_Some_iff)
    then obtain r where "map_of (tu_peers t) p = Some r" "x = peer_snapshot p r" "pr_direct_ready r" unfolding s by (auto simp: peer_snapshot_def)
    then show ?thesis using Some by (simp add: route_for_peer_def peer_snapshot_def)
  qed
qed

text \<open>What a tunnel knows of a peer.\<close>

definition knows :: "BoundP2pTunnel \<Rightarrow> rstring \<Rightarrow> (PeerRoute \<Rightarrow> bool) \<Rightarrow> bool" where
  "knows t peer P \<longleftrightarrow> (\<exists>r. map_of (tu_peers t) peer = Some r \<and> P r)"

definition pool_takes :: "P2pTunnelConfig \<Rightarrow> SocketAddr \<Rightarrow> SocketAddr \<Rightarrow> rstring \<Rightarrow> BoundP2pTunnel \<Rightarrow> bool" where
  "pool_takes cfg l addr peer t \<longleftrightarrow>
     (case map_of (tu_peers t) peer of None \<Rightarrow> True | Some r \<Rightarrow> takes cfg addr r \<and> pr_local_endpoint r = l)"

lemma ensure_meets:
  assumes ok: "tunnel_ok cfg t" and peer: "peer \<noteq> pc_peer cfg" and pool: "pool_takes cfg l addr peer t"
  shows "\<exists>s r. ensure_peer_route now (Ok l) peer addr Observed ann cfg t = Ok s \<and> tunnel_ok cfg s \<and> map_of (tu_peers s) peer = Some r \<and>
    addr \<in> set (addrs r) \<and> pr_local_endpoint r = l \<and> (\<forall>b. confirmed_at b r = knows t peer (confirmed_at b)) \<and>
    (\<forall>b \<in> solid r. b = addr \<or> knows t peer (\<lambda>r. b \<in> solid r)) \<and> pr_direct_ready r = knows t peer pr_direct_ready"
proof (cases "map_of (tu_peers t) peer")
  case None
  let ?n = "route_new now addr l ann cfg"
  let ?r = "add_candidate_set now addr Observed cfg ?n"
  let ?s = "t\<lparr>tu_peers := AList.update peer ?r (tu_peers t)\<rparr>"
  have k: "pool_ok (pc_max_candidates cfg) ?n" "pr_candidate_tx ?n = pr_active ?n" "0 < pc_max_candidates cfg"
    using ok by (simp_all add: route_new_def pool_ok_def addrs_def tunnel_ok_def)
  note m = add_candidate_set_ok [OF k, of now addr Observed]
  have "takes cfg addr ?n" using k(3) by (simp add: takes_def add_candidate_adds route_new_def)
  then have "addr \<in> set (addrs ?r)" by (rule set_takes)
  moreover have "\<not> confirmed_at b ?r" for b using m by (simp add: confirmed_at_def route_new_def)
  moreover have "solid ?r \<subseteq> {addr}" using solid_set [of now addr cfg ?n] by (simp add: solid_def route_new_def)
  moreover have e: "ensure_peer_route now (Ok l) peer addr Observed ann cfg t = Ok ?s" using None by (simp add: ensure_peer_route_def)
  moreover have "tunnel_ok cfg ?s" by (rule ensure_ok [OF ok peer e])
  moreover have "\<not> pr_direct_ready ?r" "pr_local_endpoint ?r = l" using m by (simp_all add: moves_def route_new_def)
  ultimately show ?thesis
    using None by (intro exI [of _ ?s] exI [of _ ?r]) (auto simp: map_of_AList knows_def)
next
  case (Some r1)
  let ?n = "r1\<lparr>pr_last_seen := now\<rparr>"
  let ?r = "add_candidate_set now addr Observed cfg ?n"
  define r' where "r' = (if ann = [] then ?r else ?r\<lparr>pr_announcement := ann\<rparr>)"
  let ?s = "t\<lparr>tu_peers := AList.update peer r' (tu_peers t)\<rparr>"
  have "route_ok cfg ?n" using route_okD [OF ok Some] by (simp add: route_ok_cong)
  note m = add_candidate_set_ok [OF route_okD'(2,3,1) [OF this], of now addr Observed]
  have p: "takes cfg addr ?n" "pr_local_endpoint r1 = l" using pool Some by (simp_all add: pool_takes_def)
  have "addr \<in> set (addrs r')" using set_takes [OF p(1), of now] by (simp add: addrs_def r'_def)
  moreover have "confirmed_at b r' = confirmed_at b r1" for b using m by (simp add: confirmed_at_def r'_def)
  moreover have "solid r' \<subseteq> insert addr (solid r1)" using solid_set [of now addr cfg ?n] by (simp add: r'_def)
  moreover have e: "ensure_peer_route now (Ok l) peer addr Observed ann cfg t = Ok ?s" using Some by (simp add: ensure_peer_route_def Let_def r'_def)
  moreover have "tunnel_ok cfg ?s" by (rule ensure_ok [OF ok peer e])
  moreover have "pr_direct_ready r' = pr_direct_ready r1" "pr_local_endpoint r' = l" using m p(2) by (simp_all add: moves_def r'_def)
  ultimately show ?thesis
    using Some by (intro exI [of _ ?s] exI [of _ r']) (auto simp: map_of_AList knows_def)
qed

text \<open>A peer is heard from an address that its pool can take, known before or not.\<close>

lemma hear_connects:
  assumes ok: "tunnel_ok cfg t" and peer: "peer \<noteq> pc_peer cfg" and pool: "pool_takes cfg l addr peer t"
    and reply: "case reply of None \<Rightarrow> True | Some k \<Rightarrow> p2p_encode k = Ok bs"
  shows "\<exists>t' out r. hear_peer now (Ok l) (Ok ()) peer addr reply cfg t = Ok (t', out) \<and> tunnel_ok cfg t' \<and> map_of (tu_peers t') peer = Some r \<and>
    confirmed_at addr r \<and> pr_direct_ready r \<and> pr_local_endpoint r = l \<and> route_for_peer peer (tu_snapshot t') = Some l \<and>
    (\<forall>b. confirmed_at b r \<longrightarrow> b = addr \<or> knows t peer (confirmed_at b)) \<and>
    (\<forall>b \<in> solid r. b = addr \<or> knows t peer (\<lambda>r. b \<in> solid r)) \<and> (reply \<noteq> None \<longrightarrow> Public addr bs \<in> set out)"
proof -
  obtain s r0 where s: "ensure_peer_route now (Ok l) peer addr Observed [] cfg t = Ok s" "tunnel_ok cfg s" "map_of (tu_peers s) peer = Some r0"
      "addr \<in> set (addrs r0)" "pr_local_endpoint r0 = l" "\<forall>b. confirmed_at b r0 = knows t peer (confirmed_at b)"
      "\<forall>b \<in> solid r0. b = addr \<or> knows t peer (\<lambda>r. b \<in> solid r)"
    using ensure_meets [OF ok peer pool, of now "[]"] by blast
  obtain r ready where c: "confirm_candidate now addr None cfg (r0\<lparr>pr_last_seen := now\<rparr>) = (r, ready)" by fastforce
  let ?s = "s\<lparr>tu_peers := AList.update peer r (tu_peers s)\<rparr>"
  have ro: "route_ok cfg (r0\<lparr>pr_last_seen := now\<rparr>)" using route_okD [OF s(2,3)] by (simp add: route_ok_cong)
  have "moves ((r0\<lparr>pr_last_seen := now\<rparr>)\<lparr>pr_direct_ready := True\<rparr>) r" using confirm_candidate_ok [OF route_okD'(2,3,1) [OF ro] c] by blast
  then have r: "pr_direct_ready r" "pr_local_endpoint r = l" using s(5) by (simp_all add: moves_def)
  have mk: "confirmed_at addr r" "\<forall>b. confirmed_at b r \<longrightarrow> b = addr \<or> confirmed_at b r0"
    using confirm_marks [OF _ c] s(4) by (simp_all add: addrs_def confirmed_at_def)
  have so: "solid r \<subseteq> insert addr (solid r0)" using solid_confirm [OF c] by simp
  have tk: "tunnel_ok cfg ?s" by (rule put_route_ok [OF s(2) heard_ok [OF ro c] peer])
  then have pub: "route_for_peer peer (tu_snapshot (publish_snapshot ?s)) = Some l"
    using route_published [of ?s peer] r by (simp add: map_of_AList tunnel_ok_def)
  obtain out where h: "hear_peer now (Ok l) (Ok ()) peer addr reply cfg t = Ok (publish_snapshot ?s, out)" "reply \<noteq> None \<longrightarrow> Public addr bs \<in> set out"
    using s(1,3) c reply by (cases reply; cases ready) (auto simp: hear_peer_def Let_def announce_def)
  have "map_of (tu_peers (publish_snapshot ?s)) peer = Some r" by (simp add: map_of_AList)
  with h tk pub r mk s(6,7) so show ?thesis by (intro exI [of _ "publish_snapshot ?s"] exI [of _ out] exI [of _ r]) auto
qed

text \<open>A candidate from the rendezvous server is punched at once, known before or not.\<close>

lemma candidate_punched:
  assumes ok: "tunnel_ok cfg t" and p: "p \<noteq> pc_peer cfg" and pool: "pool_takes cfg l e p t" and ids: "id_ok (pc_group cfg)" "id_ok (pc_peer cfg)"
    and bs: "p2p_decode bs = Ok (PP_Candidate (pc_group cfg) p e a)"
  shows "\<exists>t' out r. from_rendezvous now (Ok l) (Ok ()) addr bs cfg t = Ok (t', out) \<and> tunnel_ok cfg t' \<and> map_of (tu_peers t') p = Some r \<and>
    pr_local_endpoint r = l \<and> (\<forall>b. confirmed_at b r = knows t p (confirmed_at b)) \<and> pr_direct_ready r = knows t p pr_direct_ready \<and>
    (\<forall>b \<in> solid r. b = e \<or> knows t p (\<lambda>r. b \<in> solid r)) \<and> (pr_direct_ready r \<longrightarrow> route_for_peer p (tu_snapshot t') = Some l) \<and>
    Public e (packet_bytes (PP_Punch (pc_group cfg) (pc_peer cfg))) \<in> set out"
proof -
  obtain s r1 where s: "ensure_peer_route now (Ok l) p e Observed a cfg t = Ok s" "tunnel_ok cfg s" "map_of (tu_peers s) p = Some r1"
      "e \<in> set (addrs r1)" "pr_local_endpoint r1 = l" "\<forall>b. confirmed_at b r1 = knows t p (confirmed_at b)"
      "\<forall>b \<in> solid r1. b = e \<or> knows t p (\<lambda>r. b \<in> solid r)" "pr_direct_ready r1 = knows t p pr_direct_ready"
    using ensure_meets [OF ok p pool, of now a] by blast
  let ?r2 = "add_candidate_set now e Observed cfg (r1\<lparr>pr_last_seen := now\<rparr>)"
  let ?t2 = "s\<lparr>tu_peers := AList.update p ?r2 (tu_peers s)\<rparr>"
  have o1: "route_ok cfg (r1\<lparr>pr_last_seen := now\<rparr>)" using route_okD [OF s(2,3)] by (simp add: route_ok_cong)
  note m2 = add_candidate_set_ok [OF route_okD'(2,3,1) [OF o1], of now e Observed]
  have ad: "e \<in> set (addrs ?r2)" by (rule set_takes, rule takes_there) (use s(4) in \<open>simp add: addrs_def\<close>)
  have f: "pr_local_endpoint ?r2 = l" "pr_direct_ready ?r2 = knows t p pr_direct_ready" using m2 s(5,8) by (simp_all add: moves_def)
  have c: "\<forall>b. confirmed_at b ?r2 = knows t p (confirmed_at b)" using m2 s(6) by (simp add: confirmed_at_def)
  have so: "\<forall>b \<in> solid ?r2. b = e \<or> knows t p (\<lambda>r. b \<in> solid r)" using solid_set [of now e cfg "r1\<lparr>pr_last_seen := now\<rparr>"] s(7) by auto
  have enc: "p2p_encode (PP_Punch (pc_group cfg) (pc_peer cfg)) = Ok (packet_bytes (PP_Punch (pc_group cfg) (pc_peer cfg)))"
    using ids by (subst p2p_encode_ok) (simp_all add: packet_text_def packet_names_def id_ok_def p2p_packet_ok_def)
  have tk: "tunnel_ok cfg ?t2" by (rule put_route_ok [OF s(2) set_ok [OF o1] p])
  have at: "map_of (tu_peers ?t2) p = Some ?r2" by (simp add: map_of_AList)
  then have pub: "pr_direct_ready ?r2 \<longrightarrow> route_for_peer p (tu_snapshot (publish_snapshot ?t2)) = Some l"
    using tk route_published [of ?t2 p] f(1) by (simp add: tunnel_ok_def)
  let ?out = "(if pr_direct_ready ?r2 then [Announce p] else []) @
    map (\<lambda>c. Public (cs_addr c) (packet_bytes (PP_Punch (pc_group cfg) (pc_peer cfg)))) (pr_candidates ?r2)"
  have "from_rendezvous now (Ok l) (Ok ()) addr bs cfg t = Ok (publish_snapshot ?t2, ?out)"
    using s(1,3) p bs enc by (simp add: from_rendezvous_def on_route_def map_of_AList Let_def)
  moreover have "Public e (packet_bytes (PP_Punch (pc_group cfg) (pc_peer cfg))) \<in> set ?out" using ad by (auto simp: addrs_def)
  ultimately show ?thesis
    using tk at pub f c so by (intro exI [of _ "publish_snapshot ?t2"] exI [of _ ?out] exI [of _ ?r2]) (simp only: publish_peers simp_thms)
qed

text \<open>
  What one device receives while two devices meet, in any order and number: the server's introduction of the
  other device, its punches, and its answers to punches, the last two from whatever addresses its packets come
  out of.
\<close>

datatype meeting = Introduced SocketAddr | Punched SocketAddr | Acked SocketAddr

definition meeting_from :: "meeting \<Rightarrow> SocketAddr" where
  "meeting_from m = (case m of Introduced x \<Rightarrow> x | Punched x \<Rightarrow> x | Acked x \<Rightarrow> x)"

definition meeting_bytes :: "rstring \<Rightarrow> rstring \<Rightarrow> SocketAddr \<Rightarrow> bytes \<Rightarrow> meeting \<Rightarrow> bytes" where
  "meeting_bytes g peer addr ann m = packet_bytes (case m of
     Introduced _ \<Rightarrow> PP_Candidate g peer addr ann | Punched _ \<Rightarrow> PP_Punch g peer | Acked _ \<Rightarrow> PP_PunchAck g peer)"

fun meeting_run :: "P2pTunnelConfig \<Rightarrow> SocketAddr \<Rightarrow> rstring \<Rightarrow> SocketAddr \<Rightarrow> bytes \<Rightarrow> (nat \<times> meeting) list \<Rightarrow> BoundP2pTunnel \<Rightarrow>
    (BoundP2pTunnel \<times> Output list list, ErrorKind) result" where
  "meeting_run cfg l peer addr ann [] t = Ok (t, [])"
| "meeting_run cfg l peer addr ann ((now, m) # ms) t =
     try_bind (tunnel_receive now (Ok l) (Ok ()) (meeting_from m) (meeting_bytes (pc_group cfg) peer addr ann m) cfg t) (\<lambda>(t, out).
     try_bind (meeting_run cfg l peer addr ann ms t) (\<lambda>(t, outs). Ok (t, out # outs)))"

definition heard_in :: "meeting \<Rightarrow> SocketAddr set" where
  "heard_in m = (case m of Introduced _ \<Rightarrow> {} | Punched x \<Rightarrow> {x} | Acked x \<Rightarrow> {x})"

definition heard_from :: "(nat \<times> meeting) list \<Rightarrow> SocketAddr set" where
  "heard_from ms = (\<Union>nm \<in> set ms. heard_in (snd nm))"

definition routed_right :: "P2pTunnelConfig \<Rightarrow> meeting \<Rightarrow> bool" where
  "routed_right cfg m \<longleftrightarrow>
     (case m of Introduced x \<Rightarrow> x \<in> set (pc_rendezvous cfg) | Punched x \<Rightarrow> x \<notin> set (pc_rendezvous cfg) | Acked x \<Rightarrow> x \<notin> set (pc_rendezvous cfg))"

definition meeting_ok :: "P2pTunnelConfig \<Rightarrow> SocketAddr \<Rightarrow> (nat \<times> meeting) list \<Rightarrow> bool" where
  "meeting_ok cfg addr ms \<longleftrightarrow> list_all (\<lambda>nm. routed_right cfg (snd nm)) ms \<and> card (insert addr (heard_from ms)) \<le> pc_max_candidates cfg"

text \<open>What each of them is answered with, and what it means that the devices are connected.\<close>

definition answered :: "P2pTunnelConfig \<Rightarrow> SocketAddr \<Rightarrow> nat \<times> meeting \<Rightarrow> Output list \<Rightarrow> bool" where
  "answered cfg addr nm out \<longleftrightarrow> (case snd nm of
     Introduced _ \<Rightarrow> Public addr (packet_bytes (PP_Punch (pc_group cfg) (pc_peer cfg))) \<in> set out
   | Punched x \<Rightarrow> Public x (packet_bytes (PP_PunchAck (pc_group cfg) (pc_peer cfg))) \<in> set out
   | Acked _ \<Rightarrow> True)"

definition connected :: "SocketAddr \<Rightarrow> rstring \<Rightarrow> SocketAddr set \<Rightarrow> BoundP2pTunnel \<Rightarrow> bool" where
  "connected l peer H t \<longleftrightarrow> endpoint (TrP2p (tu_snapshot t)) peer = Some l \<and>
     knows t peer (\<lambda>r. pr_local_endpoint r = l \<and> pr_direct_ready r \<and> pr_candidate_tx r \<in> H)"

definition meeting_inv :: "P2pTunnelConfig \<Rightarrow> SocketAddr \<Rightarrow> rstring \<Rightarrow> SocketAddr set \<Rightarrow> SocketAddr set \<Rightarrow> BoundP2pTunnel \<Rightarrow> bool" where
  "meeting_inv cfg l peer S H t \<longleftrightarrow> tunnel_ok cfg t \<and>
     (case map_of (tu_peers t) peer of
        None \<Rightarrow> H = {}
      | Some r \<Rightarrow> pr_local_endpoint r = l \<and> solid r \<subseteq> S \<and> (\<forall>x. confirmed_at x r \<longrightarrow> x \<in> H) \<and>
          (H \<noteq> {} \<longrightarrow> (\<exists>x. confirmed_at x r) \<and> pr_direct_ready r \<and> route_for_peer peer (tu_snapshot t) = Some l))"

lemma meeting_takes:
  assumes "meeting_inv cfg l peer S H t" "finite S" "card S \<le> pc_max_candidates cfg" "a \<in> S"
  shows "pool_takes cfg l a peer t"
proof (cases "map_of (tu_peers t) peer")
  case (Some r)
  then have "pool_ok (pc_max_candidates cfg) r" "solid r \<subseteq> S" "pr_local_endpoint r = l"
    using assms(1) route_okD [of cfg t peer r] route_okD'(2) [of cfg r] by (simp_all add: meeting_inv_def)
  then show ?thesis using Some takesI [of cfg r S a] assms(2-4) by (simp add: pool_takes_def)
qed (simp add: pool_takes_def)

lemma meeting_connected:
  assumes "meeting_inv cfg l peer S H t" "H \<noteq> {}" "is_loopback (sa_ip l)"
  shows "connected l peer H t"
proof -
  obtain r where r: "map_of (tu_peers t) peer = Some r" using assms(1,2) by (cases "map_of (tu_peers t) peer") (auto simp: meeting_inv_def)
  then have ok: "route_ok cfg r" and f: "pr_local_endpoint r = l" "\<forall>x. confirmed_at x r \<longrightarrow> x \<in> H" "\<exists>x. confirmed_at x r" "pr_direct_ready r"
    "route_for_peer peer (tu_snapshot t) = Some l" using assms(1,2) by (auto simp: meeting_inv_def dest: route_okD)
  have "list_ex cs_confirmed (pr_candidates r)" using f(3) by (auto simp: confirmed_at_def list_ex_iff)
  then have "pr_candidate_tx r \<in> H" using route_okD'(4) [OF ok] f(2) by (auto simp: choice_ok_def)
  then show ?thesis using r f assms(3) by (simp add: connected_def knows_def endpoint_def)
qed

lemma meeting_step:
  assumes inv: "meeting_inv cfg l peer S H t" and peer: "peer \<noteq> pc_peer cfg"
    and S: "finite S" "card S \<le> pc_max_candidates cfg" "addr \<in> S" "heard_in m \<subseteq> S" and src: "routed_right cfg m"
    and ids: "id_ok (pc_group cfg)" "id_ok (pc_peer cfg)" "id_ok peer" "length ann \<le> MAX_ANNOUNCEMENT_LEN"
  shows "\<exists>t' out. tunnel_receive now (Ok l) (Ok ()) (meeting_from m) (meeting_bytes (pc_group cfg) peer addr ann m) cfg t = Ok (t', out) \<and>
    answered cfg addr (now, m) out \<and> meeting_inv cfg l peer S (H \<union> heard_in m) t'"
proof -
  let ?g = "pc_group cfg" and ?me = "pc_peer cfg"
  have ok: "tunnel_ok cfg t" using inv by (simp add: meeting_inv_def)
  have old: "knows t peer (\<lambda>r. x \<in> solid r) \<Longrightarrow> x \<in> S" "knows t peer (confirmed_at x) \<Longrightarrow> x \<in> H" for x
    using inv by (auto simp: meeting_inv_def knows_def)
  have wire: "is_wire_packet (packet_bytes k)" for k by (simp add: is_wire_packet_def packet_bytes_def split: prod.split)
  have dec: "p2p_decode (packet_bytes (PP_Candidate ?g peer addr ann)) = Ok (PP_Candidate ?g peer addr ann)"
    "p2p_decode (packet_bytes (PP_Punch ?g peer)) = Ok (PP_Punch ?g peer)" "p2p_decode (packet_bytes (PP_PunchAck ?g peer)) = Ok (PP_PunchAck ?g peer)"
    using ids by (simp_all add: p2p_decode_iff p2p_packet_ok_def)
  have heard: "\<exists>t' out. hear_peer now (Ok l) (Ok ()) peer x reply cfg t = Ok (t', out) \<and> meeting_inv cfg l peer S (insert x H) t' \<and>
      (reply \<noteq> None \<longrightarrow> Public x bs \<in> set out)"
    if "x \<in> S" "case reply of None \<Rightarrow> True | Some k \<Rightarrow> p2p_encode k = Ok bs" for x and reply :: "P2pPacket option" and bs
  proof -
    from hear_connects [OF ok peer meeting_takes [OF inv S(1,2) that(1)] that(2), of now] obtain t' out r where
      h: "hear_peer now (Ok l) (Ok ()) peer x reply cfg t = Ok (t', out)" "tunnel_ok cfg t'" "map_of (tu_peers t') peer = Some r"
        "confirmed_at x r" "pr_direct_ready r" "pr_local_endpoint r = l" "route_for_peer peer (tu_snapshot t') = Some l"
        "\<forall>b. confirmed_at b r \<longrightarrow> b = x \<or> knows t peer (confirmed_at b)" "\<forall>b \<in> solid r. b = x \<or> knows t peer (\<lambda>r. b \<in> solid r)"
        "reply \<noteq> None \<longrightarrow> Public x bs \<in> set out" by blast
    have "meeting_inv cfg l peer S (insert x H) t'" using h(2-9) that(1) old by (auto simp: meeting_inv_def)
    then show ?thesis using h(1,10) by blast
  qed
  show ?thesis
  proof (cases m)
    case (Introduced x)
    from candidate_punched [OF ok peer meeting_takes [OF inv S(1-3)] ids(1,2) dec(1), of now x] obtain t' out r where
      h: "from_rendezvous now (Ok l) (Ok ()) x (packet_bytes (PP_Candidate ?g peer addr ann)) cfg t = Ok (t', out)" "tunnel_ok cfg t'"
        "map_of (tu_peers t') peer = Some r" "pr_local_endpoint r = l" "\<forall>b. confirmed_at b r = knows t peer (confirmed_at b)"
        "pr_direct_ready r = knows t peer pr_direct_ready" "\<forall>b \<in> solid r. b = addr \<or> knows t peer (\<lambda>r. b \<in> solid r)"
        "pr_direct_ready r \<longrightarrow> route_for_peer peer (tu_snapshot t') = Some l" "Public addr (packet_bytes (PP_Punch ?g ?me)) \<in> set out" by blast
    have "H \<noteq> {} \<longrightarrow> (\<exists>x. knows t peer (confirmed_at x)) \<and> knows t peer pr_direct_ready"
      using inv by (auto simp: meeting_inv_def knows_def split: option.splits)
    then have "meeting_inv cfg l peer S H t'" using h(2-8) old S(3) by (auto simp: meeting_inv_def)
    moreover have "tunnel_receive now (Ok l) (Ok ()) x (packet_bytes (PP_Candidate ?g peer addr ann)) cfg t = Ok (t', out)"
      using h(1) src Introduced by (simp add: tunnel_receive_def wire routed_right_def)
    ultimately show ?thesis
      using h(9) by (simp add: Introduced meeting_from_def meeting_bytes_def heard_in_def answered_def)
  next
    case (Punched x)
    have "p2p_encode (PP_PunchAck ?g ?me) = Ok (packet_bytes (PP_PunchAck ?g ?me))"
      using ids by (subst p2p_encode_ok) (simp_all add: packet_text_def packet_names_def id_ok_def p2p_packet_ok_def)
    then obtain t' out where "hear_peer now (Ok l) (Ok ()) peer x (Some (PP_PunchAck ?g ?me)) cfg t = Ok (t', out)"
        "meeting_inv cfg l peer S (insert x H) t'" "Public x (packet_bytes (PP_PunchAck ?g ?me)) \<in> set out"
      using heard [of x "packet_bytes (PP_PunchAck ?g ?me)" "Some (PP_PunchAck ?g ?me)"] S(4) Punched by (auto simp: heard_in_def)
    then show ?thesis
      using src peer dec(2)
      by (simp add: Punched meeting_from_def meeting_bytes_def heard_in_def answered_def tunnel_receive_def wire routed_right_def from_peer_def)
  next
    case (Acked x)
    obtain t' out where "hear_peer now (Ok l) (Ok ()) peer x None cfg t = Ok (t', out)" "meeting_inv cfg l peer S (insert x H) t'"
      using heard [of x "[]" None] S(4) Acked by (auto simp: heard_in_def)
    then show ?thesis
      using src peer dec(3)
      by (simp add: Acked meeting_from_def meeting_bytes_def heard_in_def answered_def tunnel_receive_def wire routed_right_def from_peer_def)
  qed
qed

lemma meeting_runs:
  assumes "meeting_inv cfg l peer S H t" "peer \<noteq> pc_peer cfg"
    and "finite S" "card S \<le> pc_max_candidates cfg" "addr \<in> S" "heard_from ms \<subseteq> S" "list_all (\<lambda>nm. routed_right cfg (snd nm)) ms"
    and "id_ok (pc_group cfg)" "id_ok (pc_peer cfg)" "id_ok peer" "length ann \<le> MAX_ANNOUNCEMENT_LEN"
  shows "\<exists>t' outs. meeting_run cfg l peer addr ann ms t = Ok (t', outs) \<and> list_all2 (answered cfg addr) ms outs \<and>
    meeting_inv cfg l peer S (H \<union> heard_from ms) t'"
  using assms
proof (induction ms arbitrary: H t)
  case (Cons nm ms)
  obtain now m where nm: "nm = (now, m)" by fastforce
  have m: "heard_in m \<subseteq> S" "heard_from ms \<subseteq> S" "heard_from (nm # ms) = heard_in m \<union> heard_from ms"
    using Cons.prems(6) by (auto simp: heard_from_def nm)
  have "routed_right cfg m" using Cons.prems(7) by (simp add: nm)
  from meeting_step [OF Cons.prems(1-5) m(1) this Cons.prems(8-11), of now] obtain t1 out where
    t1: "tunnel_receive now (Ok l) (Ok ()) (meeting_from m) (meeting_bytes (pc_group cfg) peer addr ann m) cfg t = Ok (t1, out)"
      "answered cfg addr (now, m) out" "meeting_inv cfg l peer S (H \<union> heard_in m) t1" by blast
  obtain t2 outs where t2: "meeting_run cfg l peer addr ann ms t1 = Ok (t2, outs)" "list_all2 (answered cfg addr) ms outs"
      "meeting_inv cfg l peer S (H \<union> heard_in m \<union> heard_from ms) t2"
    using Cons.IH [OF t1(3) Cons.prems(2-5) m(2)] Cons.prems(7-11) by auto
  then show ?case using t1 by (simp add: nm m(3) [unfolded nm] Un_assoc)
qed (simp add: heard_from_def)

lemma finite_heard [simp]: "finite (heard_from ms)"
  by (simp add: heard_from_def heard_in_def split: meeting.split)

lemma device_meets:
  assumes "0 < pc_max_candidates cfg" "tunnel_run cfg tunnel_new xs = Ok t" "map_of (tu_peers t) peer = None" "peer \<noteq> pc_peer cfg"
    and "id_ok (pc_group cfg)" "id_ok (pc_peer cfg)" "id_ok peer" "length ann \<le> MAX_ANNOUNCEMENT_LEN" "is_loopback (sa_ip l)"
    and "meeting_ok cfg addr ms"
  shows "\<exists>t' outs. meeting_run cfg l peer addr ann ms t = Ok (t', outs) \<and> list_all2 (answered cfg addr) ms outs \<and>
    (heard_from ms \<noteq> {} \<longrightarrow> connected l peer (heard_from ms) t')"
proof -
  have "meeting_inv cfg l peer (insert addr (heard_from ms)) {} t"
    using tunnel_run_ok [OF tunnel_new_ok [OF assms(1)] assms(2)] assms(3) by (simp add: meeting_inv_def)
  from meeting_runs [OF this assms(4) _ _ insertI1 _ _ assms(5-8), of ms] obtain t' outs where
    "meeting_run cfg l peer addr ann ms t = Ok (t', outs)" "list_all2 (answered cfg addr) ms outs"
    "meeting_inv cfg l peer (insert addr (heard_from ms)) (heard_from ms) t'"
    using assms(10) unfolding meeting_ok_def Un_empty_left by (metis finite_heard finite_insert subset_insertI)
  then show ?thesis using meeting_connected assms(9) by blast
qed

text \<open>
  C39. Two devices of a group find each other.  When \<open>b\<close> registers while \<open>a\<close> is registered, the server tells each
  the address of the other.  Whatever then reaches a device of these introductions, of the other's punches and
  of its answers, in any order and number, before or after it knows the other device: it punches the address it
  is told, it answers every punch where it came from, and as soon as it has heard the other device once, it has a
  confirmed direct path to an address it heard it from, which its router uses.  The addresses the packets come
  from may differ from those the server saw, as long as they fit into the pool of candidates.
\<close>

theorem punching_connects:
  assumes "0 < pc_max_candidates ca" "tunnel_run ca tunnel_new xs = Ok ta" "0 < pc_max_candidates cb" "tunnel_run cb tunnel_new ys = Ok tb"
    and "pc_group ca = g" "pc_group cb = g" "pc_peer ca = a" "pc_peer cb = b" "a \<noteq> b" "id_ok g" "id_ok a" "id_ok b"
    and "map_of (tu_peers ta) b = None" "map_of (tu_peers tb) a = None" "is_loopback (sa_ip la)" "is_loopback (sa_ip lb)"
    and "p2p_decode reg = Ok (PP_Register g b ann)" "((g, a), known) \<in> set s" "length (rp_announcement known) \<le> MAX_ANNOUNCEMENT_LEN"
    and "map_of s (g, b) \<noteq> None \<or> in_group g s < rv_max_group cs \<and> length s < rv_max_total cs"
    and "meeting_ok ca addr_b ms" "meeting_ok cb (rp_addr known) ns"
  shows "\<exists>ta' tb' outs_a outs_b.
    (rp_addr known, meeting_bytes g b addr_b ann (Introduced server)) \<in> set (snd (rv_receive cs t0 addr_b reg s)) \<and>
    (addr_b, meeting_bytes g a (rp_addr known) (rp_announcement known) (Introduced server)) \<in> set (snd (rv_receive cs t0 addr_b reg s)) \<and>
    meeting_run ca la b addr_b ann ms ta = Ok (ta', outs_a) \<and> list_all2 (answered ca addr_b) ms outs_a \<and>
    meeting_run cb lb a (rp_addr known) (rp_announcement known) ns tb = Ok (tb', outs_b) \<and> list_all2 (answered cb (rp_addr known)) ns outs_b \<and>
    (heard_from ms \<noteq> {} \<longrightarrow> connected la b (heard_from ms) ta') \<and>
    (heard_from ns \<noteq> {} \<longrightarrow> connected lb a (heard_from ns) tb')"
proof -
  have ann: "length ann \<le> MAX_ANNOUNCEMENT_LEN" using assms(17) by (simp add: p2p_decode_iff p2p_packet_ok_def)
  have "(rp_addr known, meeting_bytes g b addr_b ann (Introduced server)) \<in> set (snd (rv_receive cs t0 addr_b reg s))"
    "(addr_b, meeting_bytes g a (rp_addr known) (rp_announcement known) (Introduced server)) \<in> set (snd (rv_receive cs t0 addr_b reg s))"
    using rv_introduces [OF assms(17,18,9,20,11,19), of addr_b t0] by (simp_all add: meeting_bytes_def)
  moreover obtain ta' outs_a where "meeting_run ca la b addr_b ann ms ta = Ok (ta', outs_a)" "list_all2 (answered ca addr_b) ms outs_a"
      "heard_from ms \<noteq> {} \<longrightarrow> connected la b (heard_from ms) ta'"
    using device_meets [OF assms(1,2,13) _ _ _ assms(12) ann assms(15,21)] assms(5,7,9,10,11) by auto
  moreover obtain tb' outs_b where "meeting_run cb lb a (rp_addr known) (rp_announcement known) ns tb = Ok (tb', outs_b)"
      "list_all2 (answered cb (rp_addr known)) ns outs_b" "heard_from ns \<noteq> {} \<longrightarrow> connected lb a (heard_from ns) tb'"
    using device_meets [OF assms(3,4,14) _ _ _ assms(11,19,16,22)] assms(6,8,9,10,12) by auto
  ultimately show ?thesis by blast
qed

section \<open>A full pool\<close>

text \<open>
  Observed candidates are never evicted.  When the pool holds as many as it may, a peer that is heard from a
  new address is reported as directly reachable although no candidate is confirmed, and the address it was
  heard from stays out of the pool; the next tick of the prune timer takes the report back.
\<close>

theorem full_pool_ready_without_path:
  assumes "length (pr_candidates r) \<ge> pc_max_candidates cfg" "\<forall>c \<in> set (pr_candidates r). cs_kind c = Observed \<and> \<not> cs_confirmed c"
    and "a \<notin> cs_addr ` set (pr_candidates r)" "confirm_candidate now a rtt cfg r = (r', ready)"
  shows "pr_direct_ready r' \<and> pr_candidates r' = pr_candidates r \<and> \<not> list_ex cs_confirmed (pr_candidates r') \<and>
    \<not> pr_direct_ready (prune_route later cfg r')"
proof -
  have "remove_last (\<lambda>c. cs_kind c = Predicted \<and> \<not> cs_confirmed c) xs = None" if "\<forall>c \<in> set xs. cs_kind c = Observed" for xs
    using that by (induction xs) auto
  then have "remove_last (\<lambda>c. cs_kind c = Predicted \<and> \<not> cs_confirmed c) (pr_candidates r) = None" using assms(2) by blast
  moreover have "candidate_at a r = None" using assms(3) by (auto simp: candidate_at_None addrs_def)
  ultimately have s: "add_candidate now a Observed (pc_max_candidates cfg) r = r" using assms(1) by (simp add: add_candidate_def)
  have m: "modify_first (\<lambda>c. cs_addr c = a) (confirm now rtt) xs = xs" if "a \<notin> cs_addr ` set xs" for xs
    using that by (induction xs) auto
  have r': "r' = choose_active_candidate (r\<lparr>pr_candidates := pr_candidates r, pr_direct_ready := True\<rparr>)"
    using assms(4) unfolding confirm_candidate_def Let_def s m [OF assms(3)] by simp
  have n: "\<not> list_ex cs_confirmed (pr_candidates r)" using assms(2) by (auto simp: list_ex_iff)
  have "\<not> lapsed later cfg c" if "c \<in> set (pr_candidates r)" for c using that assms(2) by (simp add: lapsed_def)
  then have "map (\<lambda>c. if lapsed later cfg c then c\<lparr>cs_confirmed := False, cs_rtt := None\<rparr> else c) (pr_candidates r) = pr_candidates r"
    by (intro map_idI) simp
  then show ?thesis using n unfolding r' prune_route_def Let_def by simp
qed

section \<open>Two tunnels\<close>

definition demo_tunnel_config :: "string \<Rightarrow> P2pTunnelConfig" where
  "demo_tunnel_config i = \<lparr>pc_rendezvous = [demo_public 9], pc_group = lit ''g'', pc_peer = lit i, pc_announcement = [], pc_local_target = Some (demo_addr 5),
     pc_peer_ttl = 20 * SECOND, pc_direct_timeout = 5 * SECOND, pc_port_span = 0, pc_max_candidates = 16\<rparr>"

definition demo_tunnel_inputs :: "TunnelInput list" where
  "demo_tunnel_inputs =
     [TiDatagram 0 (Ok (demo_addr 1)) (Ok ()) (demo_public 2) (packet_bytes (PP_PunchAck (lit ''g'') (lit ''b''))),
      TiDatagram 1 (Err OtherKind) (Ok ()) (demo_public 2) [1, 2]]"

definition demo_candidate :: "nat \<Rightarrow> CandidateState" where
  "demo_candidate now = \<lparr>cs_addr = demo_public 2, cs_kind = Observed, cs_confirmed = True, cs_rtt = None, cs_last_seen = now, cs_last_confirmed = Some now, cs_last_probe = None\<rparr>"

definition demo_peer_route :: "nat \<Rightarrow> bytes list \<Rightarrow> PeerRoute" where
  "demo_peer_route now queue = \<lparr>pr_candidates = [demo_candidate now], pr_active = demo_public 2, pr_local_endpoint = demo_addr 1, pr_announcement = [],
     pr_candidate_tx = demo_public 2, pr_inbound = queue, pr_direct_ready = True, pr_last_seen = now, pr_running = True, pr_return_target = Some (demo_addr 5)\<rparr>"

lemmas demo_route_simps = add_candidate_set_def add_candidate_def candidate_at_def candidate_new_def choose_active_candidate_def confirm_candidate_def
  confirm_def Let_def demo_tunnel_config_def route_new_def demo_peer_route_def demo_candidate_def

lemma demo_first:
  "\<exists>t out. tunnel_step (demo_tunnel_config ''a'') tunnel_new (hd demo_tunnel_inputs) = Ok (t, out) \<and> tu_peers t = [(lit ''b'', demo_peer_route 0 [])]"
proof -
  have d: "p2p_decode (packet_bytes (PP_PunchAck (lit ''g'') (lit ''b''))) = Ok (PP_PunchAck (lit ''g'') (lit ''b''))"
    using demo_id_ok by (simp add: p2p_decode_iff p2p_packet_ok_def)
  have w: "is_wire_packet (packet_bytes (PP_PunchAck (lit ''g'') (lit ''b'')))" by (simp add: is_wire_packet_def packet_bytes_def packet_names_def)
  have n: "demo_public 2 \<noteq> demo_public 9" "lit ''b'' \<noteq> lit ''a''" by (simp_all add: demo_public_def lit_def)
  show ?thesis using n
    by (simp add: demo_tunnel_inputs_def tunnel_step_def tunnel_receive_def w from_peer_def d hear_peer_def ensure_peer_route_def tunnel_new_def announce_def demo_route_simps)
qed

lemma demo_second:
  assumes "tu_peers t = [(lit ''b'', demo_peer_route 0 [])]"
  shows "\<exists>t' out. tunnel_step (demo_tunnel_config ''a'') t (demo_tunnel_inputs ! 1) = Ok (t', out) \<and> tu_peers t' = [(lit ''b'', demo_peer_route 1 [[1, 2]])]"
proof -
  have w: "\<not> is_wire_packet [1, 2]" by (simp add: is_wire_packet_def P2P_MAGIC_def)
  show ?thesis using assms
    by (simp add: demo_tunnel_inputs_def tunnel_step_def tunnel_receive_def w raw_datagram_def announce_def push_inbound_def ROUTE_QUEUE_CAPACITY_def demo_route_simps)
qed

lemma demo_tunnel_run: "\<exists>t. tunnel_run (demo_tunnel_config ''a'') tunnel_new demo_tunnel_inputs = Ok t \<and> tu_peers t = [(lit ''b'', demo_peer_route 1 [[1, 2]])]"
proof -
  obtain t out where t: "tunnel_step (demo_tunnel_config ''a'') tunnel_new (hd demo_tunnel_inputs) = Ok (t, out)" "tu_peers t = [(lit ''b'', demo_peer_route 0 [])]"
    using demo_first by blast
  obtain t' out' where "tunnel_step (demo_tunnel_config ''a'') t (demo_tunnel_inputs ! 1) = Ok (t', out')" "tu_peers t' = [(lit ''b'', demo_peer_route 1 [[1, 2]])]"
    using demo_second [OF t(2)] by blast
  moreover have "demo_tunnel_inputs = [hd demo_tunnel_inputs, demo_tunnel_inputs ! 1]" by (simp add: demo_tunnel_inputs_def)
  ultimately show ?thesis using t(1) by (metis (no_types, lifting) case_prod_conv try_bind_simps(2) tunnel_run.simps)
qed

theorem tunnel_routes_bounded_witness:
  "\<exists>t r. tunnel_run (demo_tunnel_config ''a'') tunnel_new demo_tunnel_inputs = Ok t \<and> map_of (tu_peers t) (lit ''b'') = Some r \<and>
     length (pr_candidates r) \<le> 16 \<and> (\<exists>c \<in> set (pr_candidates r). cs_addr c = pr_candidate_tx r \<and> cs_confirmed c)"
proof -
  obtain t where t: "tunnel_run (demo_tunnel_config ''a'') tunnel_new demo_tunnel_inputs = Ok t" "tu_peers t = [(lit ''b'', demo_peer_route 1 [[1, 2]])]"
    using demo_tunnel_run by blast
  have m: "map_of (tu_peers t) (lit ''b'') = Some (demo_peer_route 1 [[1, 2]])" using t(2) by simp
  have "0 < pc_max_candidates (demo_tunnel_config ''a'')" by (simp add: demo_tunnel_config_def)
  from tunnel_routes_bounded [OF this t(1) m] have "length (pr_candidates (demo_peer_route 1 [[1, 2]])) \<le> 16 \<and>
      (\<exists>c \<in> set (pr_candidates (demo_peer_route 1 [[1, 2]])). cs_addr c = pr_candidate_tx (demo_peer_route 1 [[1, 2]]) \<and> cs_confirmed c)"
    by (simp add: demo_tunnel_config_def demo_peer_route_def demo_candidate_def)
  then show ?thesis using t(1) m by blast
qed

theorem control_is_never_data_witness:
  "\<exists>t. tunnel_run (demo_tunnel_config ''a'') tunnel_new demo_tunnel_inputs = Ok t \<and>
     snd (route_inbound (lit ''b'') t) = [Local (demo_addr 1) (demo_addr 5) [1, 2]] \<and> \<not> is_wire_packet [1, 2]"
proof -
  obtain t where t: "tunnel_run (demo_tunnel_config ''a'') tunnel_new demo_tunnel_inputs = Ok t" "tu_peers t = [(lit ''b'', demo_peer_route 1 [[1, 2]])]"
    using demo_tunnel_run by blast
  have o: "snd (route_inbound (lit ''b'') t) = [Local (demo_addr 1) (demo_addr 5) [1, 2]]"
    using t(2) by (simp add: route_inbound_def demo_peer_route_def)
  have "0 < pc_max_candidates (demo_tunnel_config ''a'')" by (simp add: demo_tunnel_config_def)
  moreover have "tunnel_step (demo_tunnel_config ''a'') t (TiInbound (lit ''b'')) = Ok (fst (route_inbound (lit ''b'') t), snd (route_inbound (lit ''b'') t))"
    by (simp add: tunnel_step_def)
  moreover have "Local (demo_addr 1) (demo_addr 5) [1, 2] \<in> set (snd (route_inbound (lit ''b'') t))" unfolding o by simp
  ultimately have "\<not> is_wire_packet [1, 2]" using control_is_never_data t(1) by blast
  with t(1) o show ?thesis by blast
qed

definition demo_meeting :: "u16 \<Rightarrow> (nat \<times> meeting) list" where
  "demo_meeting n = [(2, Introduced (demo_public 9)), (3, Punched (demo_public n)), (4, Acked (demo_public n))]"

theorem punching_connects_witness:
  "\<exists>ta' tb' outs_a outs_b.
    meeting_run (demo_tunnel_config ''a'') (demo_addr 1) (lit ''b'') (demo_public 2) [] (demo_meeting 2) tunnel_new = Ok (ta', outs_a) \<and>
    meeting_run (demo_tunnel_config ''b'') (demo_addr 3) (lit ''a'') (demo_public 1) [7] (demo_meeting 1) tunnel_new = Ok (tb', outs_b) \<and>
    endpoint (TrP2p (tu_snapshot ta')) (lit ''b'') = Some (demo_addr 1) \<and> endpoint (TrP2p (tu_snapshot tb')) (lit ''a'') = Some (demo_addr 3)"
proof -
  let ?a = "demo_tunnel_config ''a''" and ?b = "demo_tunnel_config ''b''" and ?s = "rv_run rv_config_new demo_registrations"
  let ?o = "\<lparr>rp_addr = demo_public 1, rp_announcement = [7], rp_last_seen = 0\<rparr>"
  have cfg: "0 < pc_max_candidates ?a" "tunnel_run ?a tunnel_new [] = Ok tunnel_new" "0 < pc_max_candidates ?b" "tunnel_run ?b tunnel_new [] = Ok tunnel_new"
      "pc_group ?a = lit ''g''" "pc_group ?b = lit ''g''" "pc_peer ?a = lit ''a''" "pc_peer ?b = lit ''b''" "lit ''a'' \<noteq> lit ''b''"
    by (simp_all add: demo_tunnel_config_def lit_def)
  have net: "map_of (tu_peers tunnel_new) (lit ''b'') = None" "map_of (tu_peers tunnel_new) (lit ''a'') = None" "is_loopback (sa_ip (demo_addr 1))" "is_loopback (sa_ip (demo_addr 3))"
    by (simp_all add: tunnel_new_def demo_addr_def is_loopback_def)
  have srv: "((lit ''g'', lit ''a''), ?o) \<in> set ?s" "length (rp_announcement ?o) \<le> MAX_ANNOUNCEMENT_LEN"
      "map_of ?s (lit ''g'', lit ''b'') \<noteq> None \<or> in_group (lit ''g'') ?s < rv_max_group rv_config_new \<and> length ?s < rv_max_total rv_config_new"
    unfolding demo_registered by (simp_all add: in_group_def rv_config_new_def MAX_ANNOUNCEMENT_LEN_def)
  have h: "heard_from (demo_meeting n) = {demo_public n}" for n by (auto simp: heard_from_def demo_meeting_def heard_in_def)
  have meet: "meeting_ok ?a (demo_public 2) (demo_meeting 2)" "meeting_ok ?b (rp_addr ?o) (demo_meeting 1)"
    unfolding meeting_ok_def h by (simp_all add: demo_meeting_def routed_right_def demo_tunnel_config_def demo_public_def)
  from punching_connects [OF cfg demo_id_ok net demo_register_decodes(2) srv meet, of "demo_public 9" 1] show ?thesis
    by (auto simp: h connected_def)
qed

theorem full_pool_ready_without_path_witness:
  "let r = (demo_peer_route 0 [])\<lparr>pr_candidates := [(demo_candidate 0)\<lparr>cs_confirmed := False\<rparr>], pr_direct_ready := False\<rparr>;
       cfg = (demo_tunnel_config ''a'')\<lparr>pc_max_candidates := 1\<rparr>; r' = fst (confirm_candidate 1 (demo_public 3) None cfg r)
   in pr_direct_ready r' \<and> \<not> list_ex cs_confirmed (pr_candidates r') \<and> \<not> pr_direct_ready (prune_route 2 cfg r')"
proof -
  let ?r = "(demo_peer_route 0 [])\<lparr>pr_candidates := [(demo_candidate 0)\<lparr>cs_confirmed := False\<rparr>], pr_direct_ready := False\<rparr>"
  let ?cfg = "(demo_tunnel_config ''a'')\<lparr>pc_max_candidates := 1\<rparr>"
  obtain r' ready where c: "confirm_candidate 1 (demo_public 3) None ?cfg ?r = (r', ready)" by fastforce
  have "length (pr_candidates ?r) \<ge> pc_max_candidates ?cfg" "\<forall>c \<in> set (pr_candidates ?r). cs_kind c = Observed \<and> \<not> cs_confirmed c"
      "demo_public 3 \<notin> cs_addr ` set (pr_candidates ?r)" by (simp_all add: demo_candidate_def demo_public_def)
  from full_pool_ready_without_path [OF this c, of 2] c show ?thesis by (simp add: Let_def)
qed

end
