(* ===== verification/Hevc_Sequence.thy ===== *)
theory Hevc_Sequence
  imports Bit_Lists
begin

unbundle bit_operations_syntax

text \<open>
  The reader of HEVC sequence parameter sets (\<open>client/src/hevc_sequence.rs\<close>), which tells the decoder the
  coded size, the visible rectangle and the colour signalling of an Annex B access unit.

  The reader of the source is a byte slice and a bit position; here it is the list of the bits not yet
  read, \<open>drop at (bits_of data)\<close>.  Values of at most 32 bits are \<open>nat\<close>s, and the checked operations on \<open>u32\<close>
  are written out; an Exp-Golomb value has at most 30 leading zeros and is below 2 to the 31.
\<close>

section \<open>Reading bits\<close>

definition bits_of :: "bytes \<Rightarrow> bool list" where
  "bits_of data = map (\<lambda>at. bit (data ! (at div 8)) (7 - at mod 8)) [0..<length data * 8]"

type_synonym 'a rd = "bool list \<Rightarrow> ('a \<times> bool list, string) result"

definition rd_ok :: "'a \<Rightarrow> 'a rd" where "rd_ok x bs = Ok (x, bs)"
definition rd_err :: "string \<Rightarrow> 'a rd" where "rd_err e bs = Err e"

definition rd_bind :: "'a rd \<Rightarrow> ('a \<Rightarrow> 'b rd) \<Rightarrow> 'b rd" where
  "rd_bind m f bs = (case m bs of Inl e \<Rightarrow> Inl e | Inr (x, r) \<Rightarrow> f x r)"

definition read :: "nat \<Rightarrow> nat rd" where
  "read n bs = (if n > 32 \<or> n > length bs then Err ''truncated SPS'' else Ok (vl (take n bs), drop n bs))"

definition flag :: "bool rd" where
  "flag = rd_bind (read 1) (\<lambda>v. rd_ok (v \<noteq> 0))"

definition skip :: "nat \<Rightarrow> unit rd" where
  "skip n bs = (if n > length bs then Err ''truncated SPS profile'' else Ok ((), drop n bs))"

text \<open>The leading zeros of an Exp-Golomb value, up to and including the one bit.\<close>

function ue_zeros :: "nat \<Rightarrow> nat rd" where
  "ue_zeros zeros bs =
     (case read 1 bs of
        Inl e \<Rightarrow> Inl e
      | Inr (v, r) \<Rightarrow>
        if v \<noteq> 0 then Ok (zeros, r)
        else if zeros + 1 > 30 then Err ''unbounded SPS Exp-Golomb value'' else ue_zeros (zeros + 1) r)"
  by pat_completeness auto
termination by (relation "measure (\<lambda>(zeros, _). 31 - zeros)") auto

declare ue_zeros.simps [simp del]

definition ue :: "nat rd" where
  "ue = rd_bind (ue_zeros 0) (\<lambda>zeros. rd_bind (read zeros) (\<lambda>v. rd_ok (2 ^ zeros - 1 + v)))"

definition bounded_ue :: "nat \<Rightarrow> nat rd" where
  "bounded_ue mx = rd_bind ue (\<lambda>v. if v > mx then rd_err ''SPS syntax exceeds supported bound'' else rd_ok v)"

fun rd_repeat :: "nat \<Rightarrow> 'a rd \<Rightarrow> 'a list rd" where
  "rd_repeat 0 m = rd_ok []"
| "rd_repeat (Suc n) m = rd_bind m (\<lambda>x. rd_bind (rd_repeat n m) (\<lambda>xs. rd_ok (x # xs)))"

fun rd_each :: "'a list \<Rightarrow> ('a \<Rightarrow> unit rd) \<Rightarrow> unit rd" where
  "rd_each [] m = rd_ok ()"
| "rd_each (x # xs) m = rd_bind (m x) (\<lambda>_. rd_each xs m)"

definition rd_when :: "bool \<Rightarrow> unit rd \<Rightarrow> unit rd" where
  "rd_when c m = (if c then m else rd_ok ())"

definition ignore :: "'a rd \<Rightarrow> unit rd" where
  "ignore m = rd_bind m (\<lambda>_. rd_ok ())"

section \<open>The tail of the parameter set\<close>

record VideoSignal =
  full_range :: bool
  primaries :: "nat option"
  transfer :: "nat option"
  matrix :: "nat option"

text \<open>One scaling list; \<open>sz\<close> is its size class.\<close>

definition scaling_list :: "nat \<Rightarrow> unit rd" where
  "scaling_list sz =
     rd_bind flag (\<lambda>coded.
       if \<not> coded then ignore (bounded_ue 6)
       else rd_bind (rd_when (sz > 1) (ignore ue)) (\<lambda>_. ignore (rd_repeat (min 64 (2 ^ (4 + 2 * sz))) ue)))"

definition scaling_lists :: "unit rd" where
  "scaling_lists = rd_each [0, 1, 2, 3] (\<lambda>sz. ignore (rd_repeat (if sz = 3 then 2 else 6) (scaling_list sz)))"

text \<open>One retained flag of a predicted reference set.\<close>

definition retained :: "bool rd" where
  "retained = rd_bind flag (\<lambda>used. if used then rd_ok True else flag)"

definition reference_set :: "nat \<Rightarrow> nat list \<Rightarrow> nat rd" where
  "reference_set index counts =
     rd_bind (if index > 0 then flag else rd_ok False) (\<lambda>predicted.
       if predicted then
         rd_bind (skip 1) (\<lambda>_. rd_bind (bounded_ue 32767) (\<lambda>_.
         rd_bind (rd_repeat (counts ! (index - 1) + 1) retained) (\<lambda>ks. rd_ok (length (filter id ks)))))
       else
         rd_bind (bounded_ue 16) (\<lambda>negative. rd_bind (bounded_ue 16) (\<lambda>positive.
         rd_bind (ignore (rd_repeat (negative + positive) (rd_bind (bounded_ue 32767) (\<lambda>_. skip 1)))) (\<lambda>_.
         rd_ok (negative + positive)))))"

fun reference_sets :: "nat \<Rightarrow> nat \<Rightarrow> nat list \<Rightarrow> unit rd" where
  "reference_sets 0 index counts = rd_ok ()"
| "reference_sets (Suc n) index counts =
     rd_bind (reference_set index counts) (\<lambda>c.
       if c > 32 then rd_err ''too many HEVC reference deltas'' else reference_sets n (index + 1) (counts @ [c]))"

definition sar_table :: "(nat \<times> nat) list" where
  "sar_table = [(1, 1), (12, 11), (10, 11), (16, 11), (40, 33), (24, 11), (20, 11), (32, 11), (80, 33), (18, 11), (15, 11),
     (64, 33), (160, 99), (4, 3), (3, 2), (2, 1)]"

definition sample_aspect :: "(nat \<times> nat) option rd" where
  "sample_aspect =
     rd_bind flag (\<lambda>present.
       if \<not> present then rd_ok None
       else rd_bind (read 8) (\<lambda>i.
         rd_bind (if i = 0 then rd_ok None
                  else if i \<le> 16 then rd_ok (Some (sar_table ! (i - 1)))
                  else if i = 255 then rd_bind (read 16) (\<lambda>a. rd_bind (read 16) (\<lambda>b. rd_ok (Some (a, b))))
                  else rd_err ''reserved sample aspect ratio'') (\<lambda>values.
         case values of
           Some (a, b) \<Rightarrow> if a = 0 \<or> b = 0 then rd_err ''zero sample aspect ratio'' else rd_ok values
         | None \<Rightarrow> rd_ok None)))"

definition video_signal :: "VideoSignal option rd" where
  "video_signal =
     rd_bind flag (\<lambda>present.
       if \<not> present then rd_ok None
       else rd_bind (skip 3) (\<lambda>_. rd_bind flag (\<lambda>full. rd_bind flag (\<lambda>described.
         if described then
           rd_bind (read 8) (\<lambda>p. rd_bind (read 8) (\<lambda>t. rd_bind (read 8) (\<lambda>m.
             rd_ok (Some \<lparr>full_range = full, primaries = Some p, transfer = Some t, matrix = Some m\<rparr>))))
         else rd_ok (Some \<lparr>full_range = full, primaries = None, transfer = None, matrix = None\<rparr>)))))"

definition chroma_site :: "nat option rd" where
  "chroma_site =
     rd_bind flag (\<lambda>present.
       if \<not> present then rd_ok None
       else rd_bind (bounded_ue 5) (\<lambda>top. rd_bind (bounded_ue 5) (\<lambda>bottom.
         if top \<noteq> bottom then rd_err ''interlaced chroma sites require a separate adapter'' else rd_ok (Some top))))"

type_synonym tail = "VideoSignal option \<times> (nat \<times> nat) option \<times> nat option"

definition read_signal_tail :: "nat \<Rightarrow> tail rd" where
  "read_signal_tail layers =
     rd_bind (bounded_ue 12) (\<lambda>poc. let poc_bits = poc + 4 in
     rd_bind flag (\<lambda>all_layers.
     rd_bind (ignore (rd_repeat (if all_layers then layers + 1 else 1)
       (rd_bind (bounded_ue 16) (\<lambda>_. rd_bind (bounded_ue 16) (\<lambda>_. ue))))) (\<lambda>_.
     rd_bind (rd_each [3, 6, 3, 6, 8, 8] (\<lambda>limit. ignore (bounded_ue limit))) (\<lambda>_.
     rd_bind flag (\<lambda>scaling_enabled.
     rd_bind (if scaling_enabled then flag else rd_ok False) (\<lambda>scaling_present.
     rd_bind (rd_when scaling_present scaling_lists) (\<lambda>_.
     rd_bind (skip 2) (\<lambda>_.
     rd_bind flag (\<lambda>pcm.
     rd_bind (rd_when pcm (rd_bind (skip 8) (\<lambda>_. rd_bind (bounded_ue 3) (\<lambda>_. rd_bind (bounded_ue 6) (\<lambda>_. skip 1))))) (\<lambda>_.
     rd_bind (bounded_ue 64) (\<lambda>sets.
     rd_bind (reference_sets sets 0 []) (\<lambda>_.
     rd_bind flag (\<lambda>long_term.
     rd_bind (rd_when long_term (rd_bind (bounded_ue 32) (\<lambda>refs. skip (refs * (poc_bits + 1))))) (\<lambda>_.
     rd_bind (skip 2) (\<lambda>_.
     rd_bind flag (\<lambda>vui.
     if \<not> vui then rd_ok (None, None, None)
     else
       rd_bind sample_aspect (\<lambda>sar.
       rd_bind flag (\<lambda>overscan.
       rd_bind (rd_when overscan (skip 1)) (\<lambda>_.
       rd_bind video_signal (\<lambda>signal.
       rd_bind chroma_site (\<lambda>chroma. rd_ok (signal, sar, chroma))))))))))))))))))))))"

section \<open>The parameter set\<close>

record SequenceInfo =
  coded :: "nat \<times> nat"
  visible :: "nat \<times> nat \<times> nat \<times> nat"
  bit_depth :: nat
  chroma_format :: nat
  signal :: "VideoSignal option"
  pixel_aspect :: "(nat \<times> nat) option"
  chroma_location :: "nat option"

definition both_flags :: "(bool \<times> bool) rd" where
  "both_flags = rd_bind flag (\<lambda>p. rd_bind flag (\<lambda>l. rd_ok (p, l)))"

text \<open>Profile, tier and level; the result is the number of sub-layers.\<close>

definition profile_tier :: "nat rd" where
  "profile_tier =
     rd_bind (skip 4) (\<lambda>_. rd_bind (read 3) (\<lambda>layers.
     if layers > 6 then rd_err ''unsupported HEVC sub-layer count''
     else
       rd_bind (skip 1) (\<lambda>_. rd_bind (skip 96) (\<lambda>_.
       rd_bind (rd_repeat layers both_flags) (\<lambda>present.
       rd_bind (rd_when (layers > 0) (skip ((8 - layers) * 2))) (\<lambda>_.
       rd_bind (rd_each present (\<lambda>(profile, level).
         rd_bind (rd_when profile (skip 88)) (\<lambda>_. rd_when level (skip 8)))) (\<lambda>_. rd_ok layers)))))))"

text \<open>\<open>checked_mul(2)\<close>, and \<open>checked_add\<close> followed by \<open>checked_sub\<close>, on \<open>u32\<close>.\<close>

definition doubled :: "nat \<Rightarrow> nat rd" where
  "doubled c = (if c * 2 < 2 ^ 32 then rd_ok (c * 2) else rd_err ''crop overflow'')"

definition visible_span :: "string \<Rightarrow> nat \<Rightarrow> nat \<Rightarrow> nat \<Rightarrow> nat rd" where
  "visible_span e whole lead trail =
     (if lead + trail \<ge> 2 ^ 32 then rd_err ''crop overflow''
      else if whole \<le> lead + trail then rd_err e else rd_ok (whole - (lead + trail)))"

definition visible_window :: "nat \<Rightarrow> nat \<Rightarrow> nat list \<Rightarrow> (nat \<times> nat \<times> nat \<times> nat) rd" where
  "visible_window w h crop =
     rd_bind (doubled (crop ! 0)) (\<lambda>x. rd_bind (doubled (crop ! 1)) (\<lambda>right.
     rd_bind (doubled (crop ! 2)) (\<lambda>y. rd_bind (doubled (crop ! 3)) (\<lambda>bottom.
     rd_bind (visible_span ''invalid horizontal crop'' w x right) (\<lambda>vw.
     rd_bind (visible_span ''invalid vertical crop'' h y bottom) (\<lambda>vh. rd_ok (x, y, vw, vh)))))))"

definition parameter_set :: "SequenceInfo rd" where
  "parameter_set =
     rd_bind profile_tier (\<lambda>layers.
     rd_bind ue (\<lambda>sps_id. if sps_id > 15 then rd_err ''invalid SPS identifier'' else
     rd_bind ue (\<lambda>chroma. if chroma > 3 then rd_err ''invalid chroma format'' else
     rd_bind (if chroma = 3 then flag else rd_ok False) (\<lambda>separate.
     rd_bind ue (\<lambda>w. rd_bind ue (\<lambda>h.
     if w < 48 \<or> h < 48 \<or> w > 8192 \<or> h > 8192 then rd_err ''unsupported sequence extent'' else
     rd_bind flag (\<lambda>cropped.
     rd_bind (if cropped then rd_repeat 4 ue else rd_ok [0, 0, 0, 0]) (\<lambda>crop.
     rd_bind ue (\<lambda>luma. rd_bind ue (\<lambda>chroma_depth.
     if luma \<noteq> chroma_depth \<or> luma \<notin> {0, 2} then rd_err ''native decoder accepts equal 8 or 10 bit planes''
     else if chroma \<noteq> 1 \<or> separate then rd_err ''native decoder requires 4:2:0'' else
     rd_bind (visible_window w h crop) (\<lambda>window.
     rd_bind (read_signal_tail layers) (\<lambda>(sig, sar, chroma_site).
     rd_ok \<lparr>coded = (w, h), visible = window, bit_depth = 8 + luma, chroma_format = chroma, signal = sig,
       pixel_aspect = sar, chroma_location = chroma_site\<rparr>))))))))))))"

section \<open>The access unit\<close>

function start_code :: "bytes \<Rightarrow> nat \<Rightarrow> (nat \<times> nat) option" where
  "start_code bs i =
     (if i + 3 > length bs then None
      else if take 4 (drop i bs) = [0, 0, 0, 1] then Some (i, 4)
      else if take 3 (drop i bs) = [0, 0, 1] then Some (i, 3)
      else start_code bs (i + 1))"
  by pat_completeness auto
termination by (relation "measure (\<lambda>(bs, i). length bs - i)") auto

declare start_code.simps [simp del]

text \<open>The removal of the emulation prevention bytes; \<open>zeros\<close> counts the zero bytes just read.\<close>

fun unescape :: "nat \<Rightarrow> bytes \<Rightarrow> (bytes, string) result" where
  "unescape zeros [] = Ok []"
| "unescape zeros (v # rest) =
     (if zeros \<ge> 2 \<and> v = 3 then
        if rest = [] \<or> hd rest > 3 then Err ''invalid emulation prevention byte'' else unescape 0 rest
      else try_bind (unescape (if v = 0 then zeros + 1 else 0) rest) (\<lambda>r. Ok (v # r)))"

lemma start_code_at:
  "start_code bs i = Some (at, n) \<Longrightarrow> i \<le> at \<and> at + n \<le> length bs \<and> (n = 3 \<or> n = 4)"
proof (induction bs i rule: start_code.induct)
  case (1 bs i)
  have c: "take k (drop i bs) = l \<Longrightarrow> length l = k \<Longrightarrow> 0 < k \<Longrightarrow> i + k \<le> length bs" for k and l :: bytes
    by (metis add.commute diff_is_0_eq' length_drop length_take less_diff_conv2 linorder_not_le min.cobounded1 not_less_zero nat_le_linear)
  show ?case using "1.prems" "1.IH" c [of 4 "[0, 0, 0, 1]"] by (subst (asm) start_code.simps) (auto split: if_splits)
qed

function sequence_from :: "bytes \<Rightarrow> nat \<Rightarrow> (SequenceInfo option, string) result" where
  "sequence_from bs cursor =
     (case start_code bs cursor of
        None \<Rightarrow> Ok None
      | Some (offset, n) \<Rightarrow>
        let header = offset + n;
            stop = (case start_code bs header of Some (v, _) \<Rightarrow> v | None \<Rightarrow> length bs)
        in if header + 2 > stop then Err ''truncated HEVC NAL header''
           else if drop_bit 1 (bs ! header) AND 63 \<noteq> 33 then sequence_from bs stop
           else if bs ! header AND 0x80 \<noteq> 0 \<or> bs ! (header + 1) AND 7 = 0 then Err ''invalid SPS NAL header''
           else if stop - header > 65536 then Err ''SPS exceeds bounded syntax budget''
           else try_bind (unescape 0 (take (stop - (header + 2)) (drop (header + 2) bs)))
                  (\<lambda>rbsp. try_bind (parameter_set (bits_of rbsp)) (\<lambda>(info, _). Ok (Some info))))"
  by pat_completeness auto
termination
  by (relation "measure (\<lambda>(bs, i). length bs - i)") (auto dest!: start_code_at split: option.splits)

declare sequence_from.simps [simp del]

definition sequence_info :: "bytes \<Rightarrow> (SequenceInfo option, string) result" where
  "sequence_info bs = (if length bs > 16 * 1024 * 1024 then Err ''access unit too large'' else sequence_from bs 0)"

section \<open>What is read is in bounds\<close>

text \<open>\<open>yields m P\<close>: every value \<open>m\<close> returns satisfies \<open>P\<close>.\<close>

definition yields :: "'a rd \<Rightarrow> ('a \<Rightarrow> bool) \<Rightarrow> bool" where
  "yields m P \<longleftrightarrow> (\<forall>bs x r. m bs = Ok (x, r) \<longrightarrow> P x)"

lemma yields_bind: "yields m Q \<Longrightarrow> (\<And>x. Q x \<Longrightarrow> yields (f x) P) \<Longrightarrow> yields (rd_bind m f) P"
  unfolding yields_def rd_bind_def by (force split: sum.splits)

lemma yields_any: "(\<And>x. yields (f x) P) \<Longrightarrow> yields (rd_bind m f) P"
  by (rule yields_bind [where Q = "\<lambda>_. True"]) (simp_all add: yields_def)

lemma yields_if: "(c \<Longrightarrow> yields m P) \<Longrightarrow> (\<not> c \<Longrightarrow> yields m' P) \<Longrightarrow> yields (if c then m else m') P"
  by simp

lemma yields_ok [simp]: "yields (rd_ok x) P \<longleftrightarrow> P x"
  by (simp add: yields_def rd_ok_def)

lemma yields_err [simp]: "yields (rd_err e) P"
  by (simp add: yields_def rd_err_def)

lemma yields_read: "yields (read n) (\<lambda>v. v < 2 ^ n)"
proof -
  have "vl (take n bs) < 2 ^ n" if "n \<le> length bs" for bs using vl_less [of "take n bs"] that by simp
  then show ?thesis by (auto simp: yields_def read_def)
qed

lemma yields_bounded: "yields (bounded_ue m) (\<lambda>v. v \<le> m)"
  unfolding bounded_ue_def by (rule yields_any) simp

lemma yields_aspect: "yields sample_aspect (\<lambda>v. \<forall>a b. v = Some (a, b) \<longrightarrow> 0 < a \<and> 0 < b)"
  unfolding sample_aspect_def by (rule yields_any, auto intro!: yields_any split: option.splits)

lemma yields_chroma: "yields chroma_site (\<lambda>v. \<forall>c. v = Some c \<longrightarrow> c \<le> 5)"
  unfolding chroma_site_def
  by (rule yields_any, auto intro!: yields_bind [OF yields_bounded] yields_bind [OF yields_bounded, of 5])

lemma yields_signal:
  "yields video_signal (\<lambda>v. \<forall>s x. v = Some s \<longrightarrow> Some x \<in> {primaries s, transfer s, matrix s} \<longrightarrow> x < 256)"
  unfolding video_signal_def
  by (rule yields_any, auto intro!: yields_any [of "\<lambda>_. rd_bind flag _"] yields_any [of _ _ flag] yields_bind [OF yields_read])

definition tail_ok :: "tail \<Rightarrow> bool" where
  "tail_ok t \<longleftrightarrow> (case t of (sig, sar, site) \<Rightarrow>
     (\<forall>s x. sig = Some s \<longrightarrow> Some x \<in> {primaries s, transfer s, matrix s} \<longrightarrow> x < 256) \<and>
     (\<forall>a b. sar = Some (a, b) \<longrightarrow> 0 < a \<and> 0 < b) \<and> (\<forall>c. site = Some c \<longrightarrow> c \<le> 5))"

lemma yields_tail: "yields (read_signal_tail layers) tail_ok"
  unfolding read_signal_tail_def Let_def
  by (rule yields_bind [OF yields_aspect] yields_bind [OF yields_signal] yields_bind [OF yields_chroma] yields_if yields_any |
      simp add: tail_ok_def)+

definition window_ok :: "nat \<Rightarrow> nat \<Rightarrow> nat \<times> nat \<times> nat \<times> nat \<Rightarrow> bool" where
  "window_ok w h win \<longleftrightarrow> (case win of (x, y, vw, vh) \<Rightarrow> 0 < vw \<and> 0 < vh \<and> x + vw \<le> w \<and> y + vh \<le> h \<and> even x \<and> even y)"

lemma yields_doubled: "yields (doubled c) even"
  by (simp add: doubled_def)

lemma yields_span: "yields (visible_span e whole lead trail) (\<lambda>v. 0 < v \<and> lead + v \<le> whole)"
  by (simp add: visible_span_def)

lemma yields_window: "yields (visible_window w h crop) (window_ok w h)"
  unfolding visible_window_def
  by (rule yields_bind [OF yields_doubled] yields_bind [OF yields_span] | simp add: window_ok_def)+

definition info_ok :: "SequenceInfo \<Rightarrow> bool" where
  "info_ok s \<longleftrightarrow> (case coded s of (w, h) \<Rightarrow> 48 \<le> w \<and> w \<le> 8192 \<and> 48 \<le> h \<and> h \<le> 8192 \<and> window_ok w h (visible s)) \<and>
     bit_depth s \<in> {8, 10} \<and> chroma_format s = 1 \<and> tail_ok (signal s, pixel_aspect s, chroma_location s)"

lemma yields_parameter_set: "yields parameter_set info_ok"
  unfolding parameter_set_def
  by (rule yields_bind [OF yields_window] yields_bind [OF yields_tail] yields_if yields_any yields_err |
      simp add: info_ok_def split: prod.splits | blast)+

lemma parameter_set_info: "parameter_set bs = Ok (s, r) \<Longrightarrow> info_ok s"
  using yields_parameter_set unfolding yields_def by blast

text \<open>
  C34. What the decoder is set up with is in bounds, whatever bytes arrive: the coded size is between 48 and
  8192, the visible rectangle is not empty and lies inside the coded one at even offsets, the planes have
  8 or 10 bits in 4:2:0, and a sample aspect ratio has no zero.
\<close>

theorem sequence_info_in_bounds:
  assumes "sequence_info bs = Ok (Some s)"
  shows "info_ok s"
proof -
  have "sequence_from bs at = Ok (Some s) \<Longrightarrow> info_ok s" for at
  proof (induction bs at rule: sequence_from.induct)
    case (1 bs at)
    from "1.prems" show ?case
      using "1.IH" by (subst (asm) sequence_from.simps)
        (auto simp: try_bind_eq_Ok Let_def dest: parameter_set_info split: option.splits if_splits)
  qed
  then show ?thesis using assms by (auto simp: sequence_info_def split: if_splits)
qed

section \<open>A writer of parameter sets\<close>

fun bit_len :: "nat \<Rightarrow> nat" where
  "bit_len n = (if n = 0 then 0 else Suc (bit_len (n div 2)))"

declare bit_len.simps [simp del]

definition ue_bits :: "nat \<Rightarrow> bool list" where
  "ue_bits v = replicate (bit_len (v + 1) - 1) False @ bl (bit_len (v + 1)) (v + 1)"

lemma bit_len_bounds: "0 < n \<Longrightarrow> 0 < bit_len n \<and> 2 ^ (bit_len n - 1) \<le> n \<and> n < 2 ^ bit_len n"
proof (induction n rule: bit_len.induct)
  case (1 n)
  show ?case
  proof (cases "n = 1")
    case True then show ?thesis by (simp add: bit_len.simps [of "Suc 0"] bit_len.simps [of 0])
  next
    case False
    then have h: "0 < n div 2" using "1.prems" by linarith
    then have i: "0 < bit_len (n div 2)" "2 ^ (bit_len (n div 2) - 1) \<le> n div 2" "n div 2 < 2 ^ bit_len (n div 2)"
      using "1.IH" "1.prems" by auto
    have "2 ^ bit_len (n div 2) = 2 * (2 :: nat) ^ (bit_len (n div 2) - 1)" using i(1) by (cases "bit_len (n div 2)") simp_all
    moreover have "bit_len n = Suc (bit_len (n div 2))" using "1.prems" by (subst bit_len.simps) simp
    moreover have "2 * (n div 2) \<le> n" "n < 2 * (n div 2) + 2" by linarith+
    ultimately show ?thesis using i by simp linarith
  qed
qed

lemma bit_len_le: "n < 2 ^ k \<Longrightarrow> 0 < n \<Longrightarrow> bit_len n \<le> k"
proof -
  assume a: "n < 2 ^ k" "0 < n"
  then have "(2 :: nat) ^ (bit_len n - 1) < 2 ^ k" using bit_len_bounds [OF a(2)] by linarith
  then show ?thesis by (simp add: power_strict_increasing_iff)
qed

lemma bl_top: "2 ^ k \<le> n \<Longrightarrow> n < 2 ^ Suc k \<Longrightarrow> bl (Suc k) n = True # bl k (n - 2 ^ k)"
proof (rule vl_inject_length)
  assume n: "2 ^ k \<le> n" "n < 2 ^ Suc k"
  have "vl (True # bl k (n - 2 ^ k)) = vl [True] * 2 ^ k + vl (bl k (n - 2 ^ k))"
    using vl_append [of "[True]" "bl k (n - 2 ^ k)"] by (simp only: append_Cons append_Nil length_bl)
  also have "\<dots> = n" using n vl_bl [of "n - 2 ^ k" k] by (simp add: vl_def [of "[True]"])
  finally show "vl (bl (Suc k) n) = vl (True # bl k (n - 2 ^ k))" using vl_bl [OF n(2)] by simp
qed simp

lemma rd_bind_simps [simp]:
  "rd_bind (rd_ok x) f = f x" "rd_bind (rd_err e) f = rd_err e"
  "rd_bind (rd_bind m g) f = rd_bind m (\<lambda>x. rd_bind (g x) f)"
  by (auto simp: fun_eq_iff rd_bind_def rd_ok_def rd_err_def split: sum.splits)

named_theorems rd

lemma rd_read [rd]: "v < 2 ^ n \<Longrightarrow> n \<le> 32 \<Longrightarrow> rd_bind (read n) f (bl n v @ r) = f v r"
  by (simp add: rd_bind_def read_def vl_bl)

lemma rd_skip [rd]: "length b = n \<Longrightarrow> rd_bind (skip n) f (b @ r) = f () r"
  by (simp add: rd_bind_def skip_def)

lemma read_one: "read 1 (b # r) = Ok (of_bool b, r)"
  by (simp add: read_def vl_def)

lemma rd_flag [rd]: "rd_bind flag f (b # r) = f b r"
  by (simp add: flag_def rd_bind_def read_one [simplified] rd_ok_def of_bool_def)

lemma zeros_read: "z + k \<le> 30 \<Longrightarrow> ue_zeros z (replicate k False @ True # r) = Ok (z + k, r)"
proof (induction k arbitrary: z)
  case 0
  then show ?case by (subst ue_zeros.simps) (simp add: read_one [simplified])
next
  case (Suc k)
  then show ?case by (subst ue_zeros.simps) (simp add: read_one [simplified])
qed

lemma rd_ue [rd]:
  assumes "v + 1 < 2 ^ 31"
  shows "rd_bind ue f (ue_bits v @ r) = f v r"
proof -
  obtain k where k: "bit_len (v + 1) = Suc k" "2 ^ k \<le> v + 1" "v + 1 < 2 ^ Suc k"
    using bit_len_bounds [of "v + 1"] by (cases "bit_len (v + 1)") auto
  have k30: "k \<le> 30" using bit_len_le [OF assms] k(1) by simp
  have b: "ue_bits v @ r = replicate k False @ True # bl k (v + 1 - 2 ^ k) @ r"
    using bl_top [OF k(2,3)] k(1) by (simp add: ue_bits_def del: bl.simps(2))
  have "v + 1 - 2 ^ k < 2 ^ k" using k(2,3) by simp
  then show ?thesis using k(2) k30
    by (simp add: b ue_def rd_bind_def [of "ue_zeros 0"] zeros_read rd_read)
qed

lemma rd_bounded [rd]: "v \<le> m \<Longrightarrow> m < 2 ^ 30 \<Longrightarrow> rd_bind (bounded_ue m) f (ue_bits v @ r) = f v r"
  by (simp add: bounded_ue_def rd_ue)

text \<open>A parameter set as its fields.  What the reader passes over is kept as bits of the right number.\<close>

datatype ScalingList = SlPredicted nat | SlCoded "nat list"
datatype Retain = Used | Kept | Dropped
datatype RefSet = RsDeltas "(nat \<times> bool) list" "(nat \<times> bool) list" | RsPredicted bool nat "Retain list"
datatype Sar = SarUnspecified | SarListed nat | SarExtended nat nat

record Vui =
  v_sar :: "Sar option"
  v_overscan :: "bool option"
  v_signal :: "(bool list \<times> bool \<times> (nat \<times> nat \<times> nat) option) option"
  v_chroma :: "nat option"

record Sps =
  p_head :: "bool list"
  p_nesting :: bool
  p_profile :: "bool list"
  p_layers :: "(bool list option \<times> bool list option) list"
  p_pad :: "bool list"
  p_id :: nat
  p_width :: nat
  p_height :: nat
  p_crop :: "nat list option"
  p_depth :: nat
  p_poc :: nat
  p_all_layers :: bool
  p_ordering :: "(nat \<times> nat \<times> nat) list"
  p_blocks :: "nat list"
  p_scaling :: "ScalingList list list option option"
  p_tools :: "bool list"
  p_pcm :: "(bool list \<times> nat \<times> nat \<times> bool) option"
  p_refs :: "RefSet list"
  p_long_term :: "bool list list option"
  p_filters :: "bool list"
  p_vui :: "Vui option"

definition opt_bits :: "('a \<Rightarrow> bool list) \<Rightarrow> 'a option \<Rightarrow> bool list" where
  "opt_bits f v = (case v of None \<Rightarrow> [False] | Some x \<Rightarrow> True # f x)"

definition opt_ok :: "('a \<Rightarrow> bool) \<Rightarrow> 'a option \<Rightarrow> bool" where
  "opt_ok f v = (case v of None \<Rightarrow> True | Some x \<Rightarrow> f x)"

definition bits_each :: "('a \<Rightarrow> bool list) \<Rightarrow> 'a list \<Rightarrow> bool list" where
  "bits_each f xs = concat (map f xs)"

abbreviation golomb :: "nat \<Rightarrow> bool" where
  "golomb v \<equiv> v + 1 < 2 ^ 31"

fun scaling_bits :: "ScalingList \<Rightarrow> bool list" where
  "scaling_bits (SlPredicted d) = False # ue_bits d"
| "scaling_bits (SlCoded vs) = True # bits_each ue_bits vs"

fun scaling_ok :: "nat \<Rightarrow> ScalingList \<Rightarrow> bool" where
  "scaling_ok sz (SlPredicted d) = (d \<le> 6)"
| "scaling_ok sz (SlCoded vs) \<longleftrightarrow> length vs = of_bool (sz > 1) + min 64 (2 ^ (4 + 2 * sz)) \<and> list_all golomb vs"

fun retain_bits :: "Retain \<Rightarrow> bool list" where
  "retain_bits Used = [True]"
| "retain_bits Kept = [False, True]"
| "retain_bits Dropped = [False, False]"

definition delta_bits :: "nat \<times> bool \<Rightarrow> bool list" where
  "delta_bits d = ue_bits (fst d) @ [snd d]"

text \<open>A set of reference deltas; the first one has no flag for prediction.\<close>

definition refs_bits :: "nat \<Rightarrow> RefSet \<Rightarrow> bool list" where
  "refs_bits index rs =
     (case rs of
        RsDeltas neg pos \<Rightarrow> (if index > 0 then [False] else []) @ ue_bits (length neg) @ ue_bits (length pos) @ bits_each delta_bits (neg @ pos)
      | RsPredicted sign d ks \<Rightarrow> [True, sign] @ ue_bits d @ bits_each retain_bits ks)"

definition refs_count :: "RefSet \<Rightarrow> nat" where
  "refs_count rs = (case rs of RsDeltas neg pos \<Rightarrow> length neg + length pos | RsPredicted _ _ ks \<Rightarrow> length (filter (\<lambda>k. k \<noteq> Dropped) ks))"

definition refs_ok :: "nat option \<Rightarrow> RefSet \<Rightarrow> bool" where
  "refs_ok before rs =
     (case rs of
        RsDeltas neg pos \<Rightarrow> length neg \<le> 16 \<and> length pos \<le> 16 \<and> list_all (\<lambda>d. fst d \<le> 32767) (neg @ pos)
      | RsPredicted _ d ks \<Rightarrow> d \<le> 32767 \<and> before = Some (length ks - 1) \<and> ks \<noteq> [] \<and> refs_count rs \<le> 32)"

fun all_refs_bits :: "nat \<Rightarrow> RefSet list \<Rightarrow> bool list" where
  "all_refs_bits index [] = []"
| "all_refs_bits index (rs # rest) = refs_bits index rs @ all_refs_bits (Suc index) rest"

fun all_refs_ok :: "nat option \<Rightarrow> RefSet list \<Rightarrow> bool" where
  "all_refs_ok before [] = True"
| "all_refs_ok before (rs # rest) \<longleftrightarrow> refs_ok before rs \<and> all_refs_ok (Some (refs_count rs)) rest"

fun sar_bits :: "Sar \<Rightarrow> bool list" where
  "sar_bits SarUnspecified = bl 8 0"
| "sar_bits (SarListed i) = bl 8 i"
| "sar_bits (SarExtended a b) = bl 8 255 @ bl 16 a @ bl 16 b"

fun sar_ok :: "Sar \<Rightarrow> bool" where
  "sar_ok SarUnspecified = True"
| "sar_ok (SarListed i) \<longleftrightarrow> 1 \<le> i \<and> i \<le> 16"
| "sar_ok (SarExtended a b) \<longleftrightarrow> 0 < a \<and> a < 2 ^ 16 \<and> 0 < b \<and> b < 2 ^ 16"

fun sar_value :: "Sar \<Rightarrow> (nat \<times> nat) option" where
  "sar_value SarUnspecified = None"
| "sar_value (SarListed i) = Some (sar_table ! (i - 1))"
| "sar_value (SarExtended a b) = Some (a, b)"

section \<open>Each part is read back\<close>

definition codes :: "'a rd \<Rightarrow> bool list \<Rightarrow> 'a \<Rightarrow> bool" where
  "codes m bs x \<longleftrightarrow> (\<forall>r. m (bs @ r) = Ok (x, r))"

lemma rd_codes: "codes m bs x \<Longrightarrow> rd_bind m f (bs @ r) = f x r"
  by (simp add: codes_def rd_bind_def)

lemma rd_bind_ok: "rd_bind m rd_ok = m"
  by (auto simp: fun_eq_iff rd_bind_def rd_ok_def split: sum.splits)

lemma codesI: "(\<And>r. rd_bind m rd_ok (bs @ r) = rd_ok x r) \<Longrightarrow> codes m bs x"
  by (simp add: codes_def rd_bind_ok rd_ok_def)

lemma codes_repeat:
  assumes "\<And>x. x \<in> set xs \<Longrightarrow> codes m (e x) (v x)"
  shows "codes (rd_repeat (length xs) m) (bits_each e xs) (map v xs)"
  using assms
proof (induction xs)
  case (Cons x xs)
  note step = Cons.prems [OF list.set_intros(1)] and rest = Cons.IH [OF Cons.prems [OF list.set_intros(2)]]
  show ?case by (rule codesI) (simp add: bits_each_def rd_codes [OF step] rd_codes [OF rest, unfolded bits_each_def])
qed (simp add: codes_def bits_each_def rd_ok_def)

lemma codes_each:
  assumes "\<And>x. x \<in> set xs \<Longrightarrow> codes (m (k x)) (e x) ()"
  shows "codes (rd_each (map k xs) m) (bits_each e xs) ()"
  using assms
proof (induction xs)
  case (Cons x xs)
  note step = Cons.prems [OF list.set_intros(1)] and rest = Cons.IH [OF Cons.prems [OF list.set_intros(2)]]
  show ?case by (rule codesI) (simp add: bits_each_def rd_codes [OF step] rd_codes [OF rest, unfolded bits_each_def])
qed (simp add: codes_def bits_each_def rd_ok_def)

lemma codes_ue: "golomb v \<Longrightarrow> codes ue (ue_bits v) v"
  by (rule codesI) (simp add: rd)

lemma codes_scaling: "scaling_ok sz l \<Longrightarrow> codes (scaling_list sz) (scaling_bits l) ()"
proof (cases l)
  case (SlCoded vs)
  assume ok: "scaling_ok sz l"
  show ?thesis
  proof (cases "sz > 1")
    case True
    then obtain d ws where vs: "vs = d # ws" "length ws = min 64 (2 ^ (4 + 2 * sz))" using ok SlCoded by (cases vs) auto
    have "codes (rd_repeat (length ws) ue) (bits_each ue_bits ws) (map id ws)"
      by (rule codes_repeat) (use ok SlCoded vs in \<open>auto simp: list_all_iff intro: codes_ue\<close>)
    from rd_codes [OF this [unfolded vs(2)]] show ?thesis using ok SlCoded vs(1) True
      by (intro codesI) (simp add: scaling_list_def rd ignore_def rd_when_def bits_each_def)
  next
    case False
    then have l: "length vs = min 64 (2 ^ (4 + 2 * sz))" using ok SlCoded by simp
    have "codes (rd_repeat (length vs) ue) (bits_each ue_bits vs) (map id vs)"
      by (rule codes_repeat) (use ok SlCoded in \<open>auto simp: list_all_iff intro: codes_ue\<close>)
    from rd_codes [OF this [unfolded l]] show ?thesis using SlCoded False
      by (intro codesI) (simp add: scaling_list_def rd ignore_def rd_when_def)
  qed
qed (auto intro!: codesI simp: scaling_list_def rd ignore_def)

lemma codes_retain: "codes retained (retain_bits k) (k \<noteq> Dropped)"
  by (rule codesI, cases k) (simp_all add: retained_def rd)

lemma codes_delta: "fst d \<le> 32767 \<Longrightarrow> codes (rd_bind (bounded_ue 32767) (\<lambda>_. skip 1)) (delta_bits d) ()"
  by (rule codesI) (simp add: delta_bits_def rd rd_skip [of "[_]", simplified])

lemma codes_reference_set:
  assumes "refs_ok (if index = 0 then None else Some (counts ! (index - 1))) rs"
  shows "codes (reference_set index counts) (refs_bits index rs) (refs_count rs)"
proof (cases rs)
  case (RsDeltas neg pos)
  have "codes (rd_repeat (length (neg @ pos)) (rd_bind (bounded_ue 32767) (\<lambda>_. skip 1))) (bits_each delta_bits (neg @ pos))
      (map (\<lambda>_. ()) (neg @ pos))"
    by (rule codes_repeat, rule codes_delta) (use assms RsDeltas in \<open>auto simp: refs_ok_def list_all_iff\<close>)
  note deltas = rd_codes [OF this]
  show ?thesis using assms RsDeltas
    by (intro codesI) (simp add: refs_ok_def reference_set_def refs_bits_def refs_count_def rd ignore_def deltas [simplified])
next
  case (RsPredicted sign d ks)
  have "codes (rd_repeat (length ks) retained) (bits_each retain_bits ks) (map (\<lambda>k. k \<noteq> Dropped) ks)"
    by (rule codes_repeat) (rule codes_retain)
  moreover have "index > 0" "counts ! (index - 1) + 1 = length ks" "d \<le> 32767"
    using assms RsPredicted by (auto simp: refs_ok_def split: if_splits)
  moreover have "length (filter id (map (\<lambda>k. k \<noteq> Dropped) ks)) = length (filter (\<lambda>k. k \<noteq> Dropped) ks)"
    by (simp add: filter_map comp_def)
  ultimately show ?thesis using RsPredicted
    by (intro codesI) (simp add: reference_set_def refs_bits_def refs_count_def rd rd_skip [of "[_]", simplified] rd_codes)
qed

lemma refs_count_le: "refs_ok b rs \<Longrightarrow> refs_count rs \<le> 32"
  by (cases rs) (auto simp: refs_ok_def refs_count_def)

lemma codes_reference_sets:
  assumes "all_refs_ok (if counts = [] then None else Some (last counts)) sets"
  shows "codes (reference_sets (length sets) (length counts) counts) (all_refs_bits (length counts) sets) ()"
  using assms
proof (induction sets arbitrary: counts)
  case Nil
  then show ?case by (simp add: codes_def rd_ok_def)
next
  case (Cons rs sets)
  have "codes (reference_set (length counts) counts) (refs_bits (length counts) rs) (refs_count rs)"
    by (rule codes_reference_set) (use Cons.prems in \<open>simp add: last_conv_nth split: if_splits\<close>)
  moreover have "refs_count rs \<le> 32" using Cons.prems refs_count_le by auto
  moreover have "codes (reference_sets (length sets) (Suc (length counts)) (counts @ [refs_count rs])) (all_refs_bits (Suc (length counts)) sets) ()"
    using Cons.IH [of "counts @ [refs_count rs]"] Cons.prems by simp
  ultimately show ?case by (intro codesI) (simp add: rd_codes)
qed

lemma sar_table_pos: "i < 16 \<Longrightarrow> 0 < fst (sar_table ! i) \<and> 0 < snd (sar_table ! i)"
  by (auto simp: sar_table_def less_Suc_eq numeral_eq_Suc)

lemma codes_aspect: "opt_ok sar_ok v \<Longrightarrow> codes sample_aspect (opt_bits sar_bits v) (Option.bind v sar_value)"
proof (cases v)
  case (Some a)
  assume ok: "opt_ok sar_ok v"
  show ?thesis
  proof (cases a)
    case (SarListed i)
    then have "1 \<le> i" "i \<le> 16" "i < 256" "0 < fst (sar_table ! (i - 1)) \<and> 0 < snd (sar_table ! (i - 1))"
      using ok Some sar_table_pos [of "i - 1"] by (auto simp: opt_ok_def)
    then show ?thesis using SarListed Some
      by (intro codesI) (auto simp: sample_aspect_def opt_bits_def rd split: prod.split)
  qed (use ok Some in \<open>auto intro!: codesI simp: sample_aspect_def opt_ok_def opt_bits_def rd\<close>)
qed (auto intro!: codesI simp: sample_aspect_def opt_bits_def rd)

definition signal_bits :: "bool list \<times> bool \<times> (nat \<times> nat \<times> nat) option \<Rightarrow> bool list" where
  "signal_bits = (\<lambda>(fmt, full, d). fmt @ full # opt_bits (\<lambda>(p, t, m). bl 8 p @ bl 8 t @ bl 8 m) d)"

definition signal_ok :: "bool list \<times> bool \<times> (nat \<times> nat \<times> nat) option \<Rightarrow> bool" where
  "signal_ok = (\<lambda>(fmt, full, d). length fmt = 3 \<and> opt_ok (\<lambda>(p, t, m). p < 256 \<and> t < 256 \<and> m < 256) d)"

definition signal_value :: "bool list \<times> bool \<times> (nat \<times> nat \<times> nat) option \<Rightarrow> VideoSignal" where
  "signal_value = (\<lambda>(fmt, full, d). \<lparr>full_range = full, primaries = map_option fst d,
     transfer = map_option (fst \<circ> snd) d, matrix = map_option (snd \<circ> snd) d\<rparr>)"

lemma codes_signal:
  assumes "opt_ok signal_ok v"
  shows "codes video_signal (opt_bits signal_bits v) (map_option signal_value v)"
  using assms
  by (intro codesI) (auto simp: video_signal_def opt_ok_def opt_bits_def signal_ok_def signal_bits_def signal_value_def rd
      split: option.splits)

lemma codes_chroma: "opt_ok (\<lambda>c. c \<le> 5) v \<Longrightarrow> codes chroma_site (opt_bits (\<lambda>c. ue_bits c @ ue_bits c) v) v"
  by (intro codesI) (auto simp: chroma_site_def opt_ok_def opt_bits_def rd split: option.splits)

definition ordering_bits :: "nat \<times> nat \<times> nat \<Rightarrow> bool list" where
  "ordering_bits = (\<lambda>(a, b, c). ue_bits a @ ue_bits b @ ue_bits c)"

definition ordering_ok :: "nat \<times> nat \<times> nat \<Rightarrow> bool" where
  "ordering_ok = (\<lambda>(a, b, c). a \<le> 16 \<and> b \<le> 16 \<and> golomb c)"

definition scalings_ok :: "ScalingList list list \<Rightarrow> bool" where
  "scalings_ok ls \<longleftrightarrow> map length ls = [6, 6, 6, 2] \<and> list_all (\<lambda>(sz, l). list_all (scaling_ok sz) l) (zip [0, 1, 2, 3] ls)"

definition pcm_bits :: "bool list \<times> nat \<times> nat \<times> bool \<Rightarrow> bool list" where
  "pcm_bits = (\<lambda>(d, a, b, f). d @ ue_bits a @ ue_bits b @ [f])"

definition pcm_ok :: "bool list \<times> nat \<times> nat \<times> bool \<Rightarrow> bool" where
  "pcm_ok = (\<lambda>(d, a, b, f). length d = 8 \<and> a \<le> 3 \<and> b \<le> 6)"

definition vui_bits :: "Vui \<Rightarrow> bool list" where
  "vui_bits v = opt_bits sar_bits (v_sar v) @ opt_bits (\<lambda>b. [b]) (v_overscan v) @ opt_bits signal_bits (v_signal v) @
     opt_bits (\<lambda>c. ue_bits c @ ue_bits c) (v_chroma v)"

definition vui_ok :: "Vui \<Rightarrow> bool" where
  "vui_ok v \<longleftrightarrow> opt_ok sar_ok (v_sar v) \<and> opt_ok signal_ok (v_signal v) \<and> opt_ok (\<lambda>c. c \<le> 5) (v_chroma v)"

definition tail_bits :: "Sps \<Rightarrow> bool list" where
  "tail_bits s = ue_bits (p_poc s) @ p_all_layers s # bits_each ordering_bits (p_ordering s) @ bits_each ue_bits (p_blocks s) @
     opt_bits (opt_bits (bits_each (bits_each scaling_bits))) (p_scaling s) @ p_tools s @ opt_bits pcm_bits (p_pcm s) @
     ue_bits (length (p_refs s)) @ all_refs_bits 0 (p_refs s) @
     opt_bits (\<lambda>l. ue_bits (length l) @ concat l) (p_long_term s) @ p_filters s @ opt_bits vui_bits (p_vui s)"

definition tail_wf :: "Sps \<Rightarrow> bool" where
  "tail_wf s \<longleftrightarrow> p_poc s \<le> 12 \<and> length (p_ordering s) = (if p_all_layers s then length (p_layers s) + 1 else 1) \<and>
     list_all ordering_ok (p_ordering s) \<and> list_all2 (\<le>) (p_blocks s) [3, 6, 3, 6, 8, 8] \<and>
     opt_ok (opt_ok scalings_ok) (p_scaling s) \<and> length (p_tools s) = 2 \<and> opt_ok pcm_ok (p_pcm s) \<and>
     length (p_refs s) \<le> 64 \<and> all_refs_ok None (p_refs s) \<and>
     opt_ok (\<lambda>l. length l \<le> 32 \<and> list_all (\<lambda>b. length b = p_poc s + 5) l) (p_long_term s) \<and> length (p_filters s) = 2 \<and>
     opt_ok vui_ok (p_vui s)"

definition tail_value :: "Sps \<Rightarrow> tail" where
  "tail_value s = (Option.bind (p_vui s) (\<lambda>v. map_option signal_value (v_signal v)),
     Option.bind (p_vui s) (\<lambda>v. Option.bind (v_sar v) sar_value), Option.bind (p_vui s) v_chroma)"

lemma codes_ignore: "codes m bs x \<Longrightarrow> codes (ignore m) bs ()"
  by (simp add: codes_def ignore_def rd_bind_def rd_ok_def)

lemma codes_ordering:
  "ordering_ok l \<Longrightarrow> codes (rd_bind (bounded_ue 16) (\<lambda>_. rd_bind (bounded_ue 16) (\<lambda>_. ue))) (ordering_bits l) (snd (snd l))"
  by (rule codesI) (auto simp: ordering_ok_def ordering_bits_def rd split: prod.splits)

lemma codes_blocks:
  assumes "list_all2 (\<le>) vs ls" "\<forall>l \<in> set ls. l < 2 ^ 30"
  shows "codes (rd_each ls (\<lambda>limit. ignore (bounded_ue limit))) (bits_each ue_bits vs) ()"
  using assms
proof (induction rule: list_all2_induct)
  case (Cons v vs l ls)
  then show ?case by (intro codesI) (simp add: bits_each_def ignore_def rd rd_codes)
qed (simp add: codes_def bits_each_def rd_ok_def)

lemma codes_scaling_lists:
  assumes "scalings_ok ls"
  shows "codes scaling_lists (bits_each (bits_each scaling_bits) ls) ()"
proof -
  have l: "length ls = 4" using arg_cong [OF assms [unfolded scalings_ok_def, THEN conjunct1], of length] by simp
  have c: "codes (ignore (rd_repeat (if sz = 3 then 2 else 6) (scaling_list sz))) (bits_each scaling_bits (ls ! sz)) ()"
    if "sz \<in> set [0 ..< 4]" for sz
  proof (rule codes_ignore)
    have n: "length (ls ! sz) = (if sz = 3 then 2 else 6)" "list_all (scaling_ok sz) (ls ! sz)"
      using assms l that by (auto simp: scalings_ok_def less_Suc_eq numeral_eq_Suc length_Suc_conv)
    show "codes (rd_repeat (if sz = 3 then 2 else 6) (scaling_list sz)) (bits_each scaling_bits (ls ! sz)) (map (\<lambda>_. ()) (ls ! sz))"
      unfolding n(1) [symmetric] by (rule codes_repeat) (use n(2) in \<open>auto simp: list_all_iff intro: codes_scaling\<close>)
  qed
  have "codes (rd_each (map id [0 ..< 4]) (\<lambda>sz. ignore (rd_repeat (if sz = 3 then 2 else 6) (scaling_list sz))))
      (bits_each (\<lambda>sz. bits_each scaling_bits (ls ! sz)) [0 ..< 4]) ()"
    by (rule codes_each) (use c in simp)
  moreover have "bits_each (\<lambda>sz. bits_each scaling_bits (ls ! sz)) [0 ..< 4] = bits_each (bits_each scaling_bits) (map ((!) ls) [0 ..< 4])"
    by (simp add: bits_each_def [of "bits_each scaling_bits"] bits_each_def [of "\<lambda>sz. bits_each scaling_bits (ls ! sz)"] comp_def)
  moreover have "map ((!) ls) [0 ..< 4] = ls" using map_nth [of ls] l by simp
  moreover have "map id [0 ..< 4] = [0, 1, 2, 3]" by (simp add: upt_conv_Cons)
  ultimately show ?thesis by (simp add: scaling_lists_def)
qed

lemma codes_skip: "length b = n \<Longrightarrow> codes (skip n) b ()"
  by (simp add: codes_def skip_def)

lemma codes_when: "opt_ok (\<lambda>x. codes m (e x) ()) v \<Longrightarrow> rd_bind flag (\<lambda>c. rd_bind (rd_when c m) f) (opt_bits e v @ r) = f () r"
  by (cases v) (simp_all add: opt_ok_def opt_bits_def rd rd_when_def rd_codes)

lemma codes_pcm:
  "pcm_ok v \<Longrightarrow> codes (rd_bind (skip 8) (\<lambda>_. rd_bind (bounded_ue 3) (\<lambda>_. rd_bind (bounded_ue 6) (\<lambda>_. skip 1)))) (pcm_bits v) ()"
  by (rule codesI) (auto simp: pcm_ok_def pcm_bits_def rd rd_skip [of "[_]", simplified] split: prod.splits)

lemma length_concat_const: "list_all (\<lambda>b. length b = n) l \<Longrightarrow> length (concat l) = length l * n"
  by (induction l) simp_all

lemma codes_long_term:
  "length l \<le> 32 \<Longrightarrow> list_all (\<lambda>b. length b = n) l \<Longrightarrow>
     codes (rd_bind (bounded_ue 32) (\<lambda>refs. skip (refs * n))) (ue_bits (length l) @ concat l) ()"
  by (rule codesI) (simp add: rd length_concat_const)

lemma codes_vui:
  "vui_ok v \<Longrightarrow> codes (rd_bind sample_aspect (\<lambda>sar. rd_bind flag (\<lambda>overscan. rd_bind (rd_when overscan (skip 1)) (\<lambda>_.
       rd_bind video_signal (\<lambda>signal. rd_bind chroma_site (\<lambda>chroma. rd_ok (signal, sar, chroma)))))))
     (vui_bits v) (map_option signal_value (v_signal v), Option.bind (v_sar v) sar_value, v_chroma v)"
  by (rule codesI) (simp add: vui_ok_def vui_bits_def rd_codes [OF codes_aspect] codes_when [unfolded opt_ok_def]
      codes_skip rd_codes [OF codes_signal] rd_codes [OF codes_chroma] split: option.split)

lemma codes_scaling_opt:
  "opt_ok (opt_ok scalings_ok) v \<Longrightarrow>
     rd_bind flag (\<lambda>e. rd_bind (if e then flag else rd_ok False) (\<lambda>p. rd_bind (rd_when p scaling_lists) f))
       (opt_bits (opt_bits (bits_each (bits_each scaling_bits))) v @ r) = f () r"
  by (auto simp: opt_ok_def opt_bits_def rd rd_when_def rd_codes [OF codes_scaling_lists] split: option.splits)

lemma codes_tail:
  assumes "tail_wf s"
  shows "codes (read_signal_tail (length (p_layers s))) (tail_bits s) (tail_value s)"
proof -
  note w = assms [unfolded tail_wf_def]
  have "codes (rd_repeat (length (p_ordering s)) (rd_bind (bounded_ue 16) (\<lambda>_. rd_bind (bounded_ue 16) (\<lambda>_. ue))))
      (bits_each ordering_bits (p_ordering s)) (map (\<lambda>l. snd (snd l)) (p_ordering s))"
    by (rule codes_repeat) (use w in \<open>auto simp: list_all_iff intro!: codes_ordering\<close>)
  then have ordering: "codes (ignore (rd_repeat (if p_all_layers s then length (p_layers s) + 1 else 1)
      (rd_bind (bounded_ue 16) (\<lambda>_. rd_bind (bounded_ue 16) (\<lambda>_. ue))))) (bits_each ordering_bits (p_ordering s)) ()"
    using w by (simp only: codes_ignore)
  have blocks: "codes (rd_each [3, 6, 3, 6, 8, 8] (\<lambda>limit. ignore (bounded_ue limit))) (bits_each ue_bits (p_blocks s)) ()"
    using w by (intro codes_blocks) simp_all
  have refs: "codes (reference_sets (length (p_refs s)) 0 []) (all_refs_bits 0 (p_refs s)) ()"
    using codes_reference_sets [of "[]" "p_refs s"] w by simp
  have pcm: "opt_ok (\<lambda>x. codes (rd_bind (skip 8) (\<lambda>_. rd_bind (bounded_ue 3) (\<lambda>_. rd_bind (bounded_ue 6) (\<lambda>_. skip 1)))) (pcm_bits x) ()) (p_pcm s)"
    using w codes_pcm by (cases "p_pcm s") (simp_all add: opt_ok_def)
  have lt: "opt_ok (\<lambda>l. codes (rd_bind (bounded_ue 32) (\<lambda>refs. skip (refs * (p_poc s + 4 + 1)))) (ue_bits (length l) @ concat l) ()) (p_long_term s)"
    using w [THEN conjunct2] by (cases "p_long_term s") (auto simp: opt_ok_def add.commute intro!: codes_long_term)
  have vui: "rd_bind flag (\<lambda>vui. if \<not> vui then rd_ok (None, None, None) else rd_bind sample_aspect (\<lambda>sar. rd_bind flag (\<lambda>overscan.
       rd_bind (rd_when overscan (skip 1)) (\<lambda>_. rd_bind video_signal (\<lambda>signal. rd_bind chroma_site (\<lambda>chroma. rd_ok (signal, sar, chroma)))))))
     (opt_bits vui_bits (p_vui s) @ r) = rd_ok (tail_value s) r" for r
    using w codes_vui [unfolded codes_def]
    by (cases "p_vui s") (simp_all add: opt_ok_def opt_bits_def rd tail_value_def rd_ok_def)
  have skips: "length (p_tools s) = 2" "length (p_filters s) = 2" using w by simp_all
  have ues: "rd_bind (bounded_ue 12) f (ue_bits (p_poc s) @ r) = f (p_poc s) r"
      "rd_bind (bounded_ue 64) f (ue_bits (length (p_refs s)) @ r) = f (length (p_refs s)) r" for f :: "nat \<Rightarrow> tail rd" and r
    using w by (simp_all add: rd)
  show ?thesis unfolding read_signal_tail_def Let_def tail_bits_def codes_def rd_ok_def [symmetric]
    by (simp only: append_assoc append_Cons ues rd_flag skips rd_codes [OF ordering] rd_codes [OF blocks]
        codes_scaling_opt w rd_skip codes_when [OF pcm] rd_codes [OF refs] codes_when [OF lt] vui) (simp add: rd_ok_def)
qed

definition opt_raw :: "bool list option \<Rightarrow> bool list" where
  "opt_raw v = (case v of None \<Rightarrow> [] | Some b \<Rightarrow> b)"

definition profile_bits :: "Sps \<Rightarrow> bool list" where
  "profile_bits s = p_head s @ bl 3 (length (p_layers s)) @ [p_nesting s] @ p_profile s @
     bits_each (\<lambda>(p, l). [p \<noteq> None, l \<noteq> None]) (p_layers s) @ p_pad s @ bits_each (\<lambda>(p, l). opt_raw p @ opt_raw l) (p_layers s)"

definition profile_wf :: "Sps \<Rightarrow> bool" where
  "profile_wf s \<longleftrightarrow> length (p_head s) = 4 \<and> length (p_layers s) \<le> 6 \<and> length (p_profile s) = 96 \<and>
     length (p_pad s) = (if p_layers s = [] then 0 else (8 - length (p_layers s)) * 2) \<and>
     list_all (\<lambda>(p, l). opt_ok (\<lambda>b. length b = 88) p \<and> opt_ok (\<lambda>b. length b = 8) l) (p_layers s)"

definition sps_bits :: "Sps \<Rightarrow> bool list" where
  "sps_bits s = profile_bits s @ ue_bits (p_id s) @ ue_bits 1 @ ue_bits (p_width s) @ ue_bits (p_height s) @
     opt_bits (bits_each ue_bits) (p_crop s) @ ue_bits (p_depth s) @ ue_bits (p_depth s) @ tail_bits s"

definition sps_crop :: "Sps \<Rightarrow> nat list" where
  "sps_crop s = (case p_crop s of None \<Rightarrow> [0, 0, 0, 0] | Some c \<Rightarrow> c)"

definition sps_wf :: "Sps \<Rightarrow> bool" where
  "sps_wf s \<longleftrightarrow> profile_wf s \<and> p_id s \<le> 15 \<and> 48 \<le> p_width s \<and> p_width s \<le> 8192 \<and> 48 \<le> p_height s \<and> p_height s \<le> 8192 \<and>
     length (sps_crop s) = 4 \<and> 2 * (sps_crop s ! 0 + sps_crop s ! 1) < p_width s \<and>
     2 * (sps_crop s ! 2 + sps_crop s ! 3) < p_height s \<and> p_depth s \<in> {0, 2} \<and> tail_wf s"

definition sps_value :: "Sps \<Rightarrow> SequenceInfo" where
  "sps_value s = (let c = sps_crop s in
     \<lparr>coded = (p_width s, p_height s),
      visible = (2 * c ! 0, 2 * c ! 2, p_width s - 2 * (c ! 0 + c ! 1), p_height s - 2 * (c ! 2 + c ! 3)),
      bit_depth = 8 + p_depth s, chroma_format = 1, signal = fst (tail_value s), pixel_aspect = fst (snd (tail_value s)),
      chroma_location = snd (snd (tail_value s))\<rparr>)"

lemma codes_raw: "opt_ok (\<lambda>b. length b = n) v \<Longrightarrow> codes (rd_when (v \<noteq> None) (skip n)) (opt_raw v) ()"
  by (cases v) (simp_all add: opt_ok_def opt_raw_def rd_when_def codes_def skip_def rd_ok_def)

lemma codes_profile:
  assumes "profile_wf s"
  shows "codes profile_tier (profile_bits s) (length (p_layers s))"
proof -
  note w = assms [unfolded profile_wf_def]
  let ?f = "\<lambda>(p :: bool list option, l :: bool list option). (p \<noteq> None, l \<noteq> None)"
  have flags: "codes (rd_repeat (length (p_layers s)) both_flags) (bits_each (\<lambda>(p, l). [p \<noteq> None, l \<noteq> None]) (p_layers s)) (map ?f (p_layers s))"
    by (rule codes_repeat, rule codesI) (auto simp: both_flags_def rd)
  have raws: "codes (rd_each (map ?f (p_layers s)) (\<lambda>(p, l). rd_bind (rd_when p (skip 88)) (\<lambda>_. rd_when l (skip 8))))
      (bits_each (\<lambda>(p, l). opt_raw p @ opt_raw l) (p_layers s)) ()"
  proof (rule codes_each)
    fix x assume "x \<in> set (p_layers s)"
    then have "codes (rd_when (fst x \<noteq> None) (skip 88)) (opt_raw (fst x)) ()" "codes (rd_when (snd x \<noteq> None) (skip 8)) (opt_raw (snd x)) ()"
      using w by (auto simp: list_all_iff case_prod_beta simp del: not_None_eq intro!: codes_raw)
    note raw = rd_codes [OF this(1)] rd_codes [OF this(2)]
    show "codes (case ?f x of (p, l) \<Rightarrow> rd_bind (rd_when p (skip 88)) (\<lambda>_. rd_when l (skip 8))) (case x of (p, l) \<Rightarrow> opt_raw p @ opt_raw l) ()"
      by (intro codesI) (simp add: case_prod_beta raw del: not_None_eq)
  qed
  have pad: "codes (rd_when (0 < length (p_layers s)) (skip ((8 - length (p_layers s)) * 2))) (p_pad s) ()"
    using w by (auto simp: rd_when_def codes_def skip_def rd_ok_def)
  have n: "length (p_layers s) < 2 ^ 3" "\<not> length (p_layers s) > 6" using w by simp_all
  have empty: "p_layers s = [] \<longrightarrow> p_pad s = []" using w by (metis length_0_conv)
  show ?thesis
    by (rule codesI) (use w n empty in \<open>simp add: profile_tier_def profile_bits_def rd rd_skip [of "[_]", simplified] rd_codes [OF flags]
        rd_codes [OF raws] rd_codes [OF pad, simplified] del: not_None_eq\<close>)
qed

lemma crop_fields: "sps_wf s \<Longrightarrow> i < 4 \<Longrightarrow> 2 * sps_crop s ! i < 8192"
proof -
  assume "sps_wf s" "i < 4"
  moreover have "i = 0 \<or> i = 1 \<or> i = 2 \<or> i = 3" using \<open>i < 4\<close> by linarith
  ultimately show ?thesis unfolding sps_wf_def by (elim disjE) simp_all
qed

lemma codes_crop:
  assumes "sps_wf s"
  shows "rd_bind flag (\<lambda>c. rd_bind (if c then rd_repeat 4 ue else rd_ok [0, 0, 0, 0]) f) (opt_bits (bits_each ue_bits) (p_crop s) @ r) =
    f (sps_crop s) r"
proof (cases "p_crop s")
  case (Some c)
  then have c: "sps_crop s = c" "length c = 4" using assms by (simp_all add: sps_crop_def sps_wf_def)
  have "codes (rd_repeat (length c) ue) (bits_each ue_bits c) (map id c)"
  proof (rule codes_repeat)
    fix x assume "x \<in> set c"
    then obtain i where "i < 4" "x = c ! i" using c(2) by (auto simp: in_set_conv_nth)
    then show "codes ue (ue_bits x) (id x)" using crop_fields [OF assms, of i] c(1) by (auto intro!: codes_ue)
  qed
  then show ?thesis using Some c by (simp add: opt_bits_def rd rd_codes)
qed (simp add: opt_bits_def rd sps_crop_def)

lemma window_value:
  assumes "sps_wf s"
  shows "visible_window (p_width s) (p_height s) (sps_crop s) = rd_ok (visible (sps_value s))"
  using assms crop_fields [OF assms, of 0] crop_fields [OF assms, of 1] crop_fields [OF assms, of 2] crop_fields [OF assms, of 3]
  by (simp add: visible_window_def doubled_def visible_span_def sps_wf_def sps_value_def Let_def mult.commute [of _ 2])

lemma codes_sps:
  assumes "sps_wf s"
  shows "codes parameter_set (sps_bits s) (sps_value s)"
proof (rule codesI)
  note w = assms [unfolded sps_wf_def]
  have tail: "codes (read_signal_tail (length (p_layers s))) (tail_bits s) (tail_value s)" using w by (intro codes_tail) simp
  have prof: "codes profile_tier (profile_bits s) (length (p_layers s))" using w by (intro codes_profile) simp
  have d: "p_depth s < 2147483647" using w by auto
  fix r
  have v: "sps_value s = \<lparr>coded = (p_width s, p_height s), visible = visible (sps_value s), bit_depth = 8 + p_depth s, chroma_format = 1,
      signal = fst (tail_value s), pixel_aspect = fst (snd (tail_value s)), chroma_location = snd (snd (tail_value s))\<rparr>"
    by (simp add: sps_value_def Let_def)
  show "rd_bind parameter_set rd_ok (sps_bits s @ r) = rd_ok (sps_value s) r"
    by (subst v) (use w d in \<open>auto simp: parameter_set_def sps_bits_def rd_codes [OF prof] rd codes_crop [OF assms]
      window_value [OF assms] rd_codes [OF tail] case_prod_beta\<close>)
qed

section \<open>The access unit is read back\<close>

text \<open>The encoder's side of the emulation prevention, and units that can stand in an Annex B stream.\<close>

fun escape :: "nat \<Rightarrow> bytes \<Rightarrow> bytes" where
  "escape zeros [] = []"
| "escape zeros (v # rest) =
     (if zeros \<ge> 2 \<and> v \<le> 3 then 3 # v # escape (if v = 0 then 1 else 0) rest
      else v # escape (if v = 0 then zeros + 1 else 0) rest)"

fun no_start_code :: "nat \<Rightarrow> bytes \<Rightarrow> bool" where
  "no_start_code zeros [] = True"
| "no_start_code zeros (v # rest) \<longleftrightarrow> \<not> (zeros \<ge> 2 \<and> v \<le> 1) \<and> no_start_code (if v = 0 then zeros + 1 else 0) rest"

definition nal_ok :: "bytes \<Rightarrow> bool" where
  "nal_ok n \<longleftrightarrow> 2 \<le> length n \<and> last n \<noteq> 0 \<and> no_start_code 0 n"

definition annexb_units :: "(bool \<times> bytes) list \<Rightarrow> bytes" where
  "annexb_units us = concat (map (\<lambda>(long, n). (if long then [0] else []) @ [0, 0, 1] @ n) us)"

definition sps_nal :: "u8 \<Rightarrow> u8 \<Rightarrow> bytes \<Rightarrow> bytes" where
  "sps_nal h0 h1 raw = h0 # h1 # escape 0 raw"

lemma unescape_escape: "unescape zeros (escape zeros raw) = Ok raw"
  by (induction zeros raw rule: escape.induct) (auto simp: word_less_nat_alt word_le_nat_alt)

lemma escape_safe: "no_start_code zeros (escape zeros raw)"
  by (induction zeros raw rule: escape.induct) (auto simp: word_less_nat_alt word_le_nat_alt)

lemma escape_last: "raw \<noteq> [] \<Longrightarrow> escape zeros raw \<noteq> [] \<and> last (escape zeros raw) = last raw"
  by (induction zeros raw rule: escape.induct) (auto simp: escape.simps(2) split: if_splits)

lemma start_code_step:
  assumes "take 3 (drop i bs) \<noteq> [0, 0, 0]" "take 3 (drop i bs) \<noteq> [0, 0, 1]"
  shows "start_code bs i = start_code bs (Suc i)"
proof -
  have "take 3 (drop i bs) = take 3 (take 4 (drop i bs))" by simp
  then have "take 4 (drop i bs) \<noteq> [0, 0, 0, 1]" using assms(1) by (auto simp del: take_take)
  then show ?thesis using assms(2) by (subst start_code.simps) (auto simp: start_code.simps [of bs "Suc i"])
qed

lemma start_code_unit:
  "start_code (pre @ annexb_units us) (length pre) =
     (case us of [] \<Rightarrow> None | (long, n) # _ \<Rightarrow> Some (length pre, if long then 4 else 3))"
  by (cases us) (subst start_code.simps, auto simp: annexb_units_def)+

lemma start_code_skips:
  assumes "no_start_code 0 n" "n \<noteq> [] \<longrightarrow> last n \<noteq> 0"
  shows "start_code (pre @ n @ rest) (length pre) = start_code (pre @ n @ rest) (length pre + length n)"
  using assms
proof (induction n arbitrary: pre)
  case (Cons v n)
  have w: "take 3 (v # n @ rest) \<noteq> [0, 0, 0] \<and> take 3 (v # n @ rest) \<noteq> [0, 0, 1]"
  proof (cases n)
    case (Cons b m)
    then show ?thesis using Cons.prems \<open>no_start_code 0 (v # n)\<close> by (cases m) (auto split: if_splits)
  qed (use Cons.prems in auto)
  have mono: "no_start_code z m \<Longrightarrow> y \<le> z \<Longrightarrow> no_start_code y m" for z y m
    by (induction z m arbitrary: y rule: no_start_code.induct) (auto split: if_splits)
  have "start_code (pre @ (v # n) @ rest) (length pre) = start_code (pre @ (v # n) @ rest) (Suc (length pre))"
    by (rule start_code_step) (use w in auto)
  also have "\<dots> = start_code (pre @ (v # n) @ rest) (length pre + length (v # n))"
    using Cons.IH [of "pre @ [v]"] Cons.prems mono [of _ n 0] by (auto split: if_splits)
  finally show ?case .
qed simp

lemma start_code_next:
  assumes "nal_ok n"
  shows "start_code (pre @ n @ annexb_units us) (length pre) =
     (case us of [] \<Rightarrow> None | (long, m) # _ \<Rightarrow> Some (length pre + length n, if long then 4 else 3))"
  using start_code_skips [of n pre "annexb_units us"] start_code_unit [of "pre @ n" us] assms by (cases us) (auto simp: nal_ok_def)

definition unit_type :: "bytes \<Rightarrow> u8" where
  "unit_type n = drop_bit 1 (n ! 0) AND 63"

lemma sequence_from_unit:
  fixes pre n us long
  defines "bs \<equiv> pre @ annexb_units ((long, n) # us)"
    and "next \<equiv> length pre + (if long then 4 else 3) + length n"
  assumes "nal_ok n"
  shows "sequence_from bs (length pre) =
    (if unit_type n \<noteq> 33 then sequence_from bs next
     else if n ! 0 AND 0x80 \<noteq> 0 \<or> n ! 1 AND 7 = 0 then Err ''invalid SPS NAL header''
     else if length n > 65536 then Err ''SPS exceeds bounded syntax budget''
     else try_bind (unescape 0 (drop 2 n)) (\<lambda>rbsp. try_bind (parameter_set (bits_of rbsp)) (\<lambda>(info, _). Ok (Some info))))"
proof -
  let ?sc = "(if long then [0] else []) @ [0, 0, 1] :: bytes"
  define H where "H = length (pre @ ?sc)"
  have bs: "bs = (pre @ ?sc) @ n @ annexb_units us" by (simp add: bs_def annexb_units_def)
  obtain k where 1: "start_code bs (length pre) = Some (length pre, k)" "length pre + k = H"
    unfolding bs_def start_code_unit by (auto simp: H_def)
  have stop: "(case start_code bs H of Some (v, _) \<Rightarrow> v | None \<Rightarrow> length bs) = H + length n"
    unfolding H_def bs start_code_next [OF assms(3)] by (cases us) (auto simp: annexb_units_def)
  have n: "length n \<ge> 2" using assms(3) by (simp add: nal_ok_def)
  have at: "bs ! H = n ! 0" "bs ! (H + 1) = n ! 1" "take (H + length n - (H + 2)) (drop (H + 2) bs) = drop 2 n"
    using n unfolding bs H_def by (auto simp: nth_append)
  have "next = H + length n" by (simp add: next_def H_def)
  then show ?thesis using n
    by (subst sequence_from.simps) (simp only: 1 option.case prod.case Let_def stop at unit_type_def, simp)
qed

lemma annexb_append: "annexb_units (us @ vs) = annexb_units us @ annexb_units vs"
  by (simp add: annexb_units_def)

lemma sequence_from_units:
  assumes "\<forall>u \<in> set us. nal_ok (snd u) \<and> unit_type (snd u) \<noteq> 33"
  shows "sequence_from (pre @ annexb_units (us @ vs)) (length pre) =
    sequence_from (pre @ annexb_units (us @ vs)) (length (pre @ annexb_units us))"
  using assms
proof (induction us arbitrary: pre)
  case (Cons u us)
  obtain long n where u: "u = (long, n)" by fastforce
  let ?p = "pre @ (if long then [0] else []) @ [0, 0, 1] @ n"
  have l: "length ?p = length pre + (if long then 4 else 3) + length n" by simp
  have a: "pre @ annexb_units ((u # us) @ vs) = ?p @ annexb_units (us @ vs)" by (simp add: annexb_units_def u)
  have "sequence_from (pre @ annexb_units ((u # us) @ vs)) (length pre) = sequence_from (pre @ annexb_units ((u # us) @ vs)) (length ?p)"
    using sequence_from_unit [of n pre long "us @ vs"] Cons.prems u unfolding l by simp
  also have "\<dots> = sequence_from (?p @ annexb_units (us @ vs)) (length (?p @ annexb_units us))"
    unfolding a by (rule Cons.IH) (use Cons.prems in simp)
  finally show ?case unfolding a [symmetric] by (simp add: annexb_units_def u)
qed (simp add: annexb_units_def)

lemma written_sps_is_read:
  assumes "sps_wf s" "bits_of raw = sps_bits s @ trailing" "last raw \<noteq> 0"
    and "unit_type (sps_nal h0 h1 raw) = 33" "h0 AND 0x80 = 0" "h1 AND 7 \<noteq> 0"
    and "\<forall>u \<in> set units. nal_ok (snd u) \<and> unit_type (snd u) \<noteq> 33"
    and "length (sps_nal h0 h1 raw) \<le> 65536"
    and "length (annexb_units (units @ (long, sps_nal h0 h1 raw) # after)) \<le> 16 * 1024 * 1024"
  shows "sequence_info (annexb_units (units @ (long, sps_nal h0 h1 raw) # after)) = Ok (Some (sps_value s))"
proof -
  let ?n = "sps_nal h0 h1 raw"
  have "length (p_head s) = 4" using assms(1) by (simp add: sps_wf_def profile_wf_def)
  then have "raw \<noteq> []" using assms(2) by (auto simp: sps_bits_def profile_bits_def bits_of_def)
  then have nal: "nal_ok ?n" using assms(3,6) escape_last [of raw 0] escape_safe [of 0 raw]
    by (auto simp: nal_ok_def sps_nal_def Suc_le_eq)
  have read: "parameter_set (bits_of raw) = Ok (sps_value s, trailing)" using codes_sps [OF assms(1)] assms(2) by (simp add: codes_def)
  have "sequence_from (annexb_units (units @ (long, ?n) # after)) 0 =
      sequence_from (annexb_units units @ annexb_units ((long, ?n) # after)) (length (annexb_units units))"
    using sequence_from_units [OF assms(7), of "[]" "(long, ?n) # after"] by (simp only: annexb_append append_Nil list.size)
  also have "\<dots> = Ok (Some (sps_value s))"
    using sequence_from_unit [OF nal, of "annexb_units units" long after] assms(4-6,8)
    by (simp add: sps_nal_def unescape_escape read)
  finally show ?thesis using assms(9) by (simp add: sequence_info_def)
qed

text \<open>
  C33. The parameter set an encoder wrote is the one the decoder is set up with.  For every set of fields within
  the profile the client decodes, with any sub-layers, scaling lists, reference sets and usability
  information, after any other units and before any: the access unit, with its start codes and the
  emulation prevention of the encoder, is read back to exactly the fields written.
\<close>

theorem sequence_info_reads_back:
  assumes "sps_wf s" "bits_of raw = sps_bits s @ trailing" "last raw \<noteq> 0"
    and "unit_type (sps_nal h0 h1 raw) = 33" "h0 AND 0x80 = 0" "h1 AND 7 \<noteq> 0"
    and "\<forall>u \<in> set units. nal_ok (snd u) \<and> unit_type (snd u) \<noteq> 33"
    and "length (sps_nal h0 h1 raw) \<le> 65536"
    and "length (annexb_units (units @ (long, sps_nal h0 h1 raw) # after)) \<le> 16 * 1024 * 1024"
  shows "sequence_info (annexb_units (units @ (long, sps_nal h0 h1 raw) # after)) = Ok (Some (sps_value s))"
  by (rule written_sps_is_read) (use assms in auto)

definition demo_sps :: Sps where
  "demo_sps = \<lparr>p_head = replicate 4 False, p_nesting = True, p_profile = replicate 96 False, p_layers = [], p_pad = [], p_id = 0,
     p_width = 64, p_height = 48, p_crop = Some [0, 0, 0, 2], p_depth = 2, p_poc = 4, p_all_layers = False,
     p_ordering = [(1, 0, 0)], p_blocks = [0, 3, 0, 3, 0, 0], p_scaling = None, p_tools = [True, True], p_pcm = None, p_refs = [],
     p_long_term = None, p_filters = [True, True],
     p_vui = Some \<lparr>v_sar = Some (SarListed 1), v_overscan = None, v_signal = Some ([True, False, True], False, Some (1, 1, 1)),
       v_chroma = Some 0\<rparr>\<rparr>"

definition demo_raw :: bytes where
  "demo_raw = [1, 0, 0, 0, 0, 0, 0, 0, 0, 0, 0, 0, 0, 160, 32, 131, 31, 109, 148, 185, 36, 218, 240, 22, 160, 32, 32, 62]"

lemma demo_sps_wf: "sps_wf demo_sps"
  by (simp add: demo_sps_def sps_wf_def profile_wf_def tail_wf_def sps_crop_def opt_ok_def ordering_ok_def vui_ok_def signal_ok_def)

lemma demo_raw_bits: "bits_of demo_raw = sps_bits demo_sps @ [True, False]" "last demo_raw \<noteq> 0"
  by code_simp+

lemma demo_units:
  "unit_type (sps_nal 0x42 1 demo_raw) = 33" "nal_ok [0x40, 1, 7]" "unit_type [0x40, 1, 7] \<noteq> 33" "length (escape 0 demo_raw) = 33"
  by code_simp+

lemma demo_visible: "visible (sps_value demo_sps) = (0, 0, 64, 44)"
  by (simp add: demo_sps_def sps_value_def sps_crop_def Let_def)

theorem sequence_info_reads_back_witness:
  "sequence_info (annexb_units [(True, [0x40, 1, 7]), (False, sps_nal 0x42 1 demo_raw), (False, [0x44, 1])]) = Ok (Some (sps_value demo_sps))
   \<and> visible (sps_value demo_sps) = (0, 0, 64, 44)"
  using sequence_info_reads_back [OF demo_sps_wf demo_raw_bits demo_units(1), of "[(True, [0x40, 1, 7])]" False "[(False, [0x44, 1])]"] demo_units(2-4)
  by (simp add: sps_nal_def annexb_units_def demo_visible)

theorem sequence_info_in_bounds_witness:
  "info_ok (sps_value demo_sps)"
  using sequence_info_in_bounds [OF written_sps_is_read [OF demo_sps_wf demo_raw_bits demo_units(1), of "[]" False "[]"]] demo_units(4)
  by (simp add: sps_nal_def annexb_units_def)

end
