(* ===== verification/Session_Crypto.thy ===== *)
theory Session_Crypto
  imports Base
begin

text \<open>
  Authenticated session records (\<open>remote_core/src/session_crypto.rs\<close>): the 4096-entry replay window
  kept as 64 machine words, the directional record keys, \<open>seal\<close> and \<open>open\<close>.

  The AEAD (\<open>ring\<close>'s ChaCha20-Poly1305) and HMAC-SHA256 are third-party code and enter as the
  fields of a \<open>crypto_suite\<close>; what the code relies on is the predicate \<open>suite_ok\<close>: the tag is 16
  bytes and opening what was sealed under the same key, nonce and associated data gives the plaintext
  back.  Nothing else is assumed; in particular the at-most-once theorem below holds for every suite.
  An index out of range of the window's word array, a panic in the source, is the result \<open>None\<close>.
\<close>

unbundle bit_operations_syntax

section \<open>Constants and errors\<close>

definition byte_str :: "string \<Rightarrow> bytes" where
  "byte_str s = map (\<lambda>c. word_of_nat (of_char c)) s"

datatype SessionCryptoError =
  InvalidKey | Seal | Open | ShortPacket | Replay | SequenceExhausted | AuthenticationLimit
  | OversizedRecord

datatype SessionRole = Client | Host

definition RECORD_VERSION :: u8 where "RECORD_VERSION = 3"
definition RECORD_HEADER_LEN :: nat where "RECORD_HEADER_LEN = 26"
definition REPLAY_WINDOW :: nat where "REPLAY_WINDOW = 4096"
definition MAX_RECORD_SEQUENCE :: u64 where "MAX_RECORD_SEQUENCE = push_bit 48 1 - 1"
definition MAX_RECORD_PLAINTEXT :: nat where "MAX_RECORD_PLAINTEXT = 8 * 1024 * 1024"
definition MAX_AUTHENTICATION_FAILURES :: u64 where "MAX_AUTHENTICATION_FAILURES = push_bit 24 1"
definition TAG_LEN :: nat where "TAG_LEN = 16"
definition NONCE_LEN :: nat where "NONCE_LEN = 12"

section \<open>The replay window\<close>

record ReplayWindow =
  highest :: u64
  wbits :: "u64 list"

definition window_default :: ReplayWindow where
  "window_default = \<lparr>highest = 0, wbits = replicate (REPLAY_WINDOW div 64) 0\<rparr>"

definition window_contains :: "ReplayWindow \<Rightarrow> u64 \<Rightarrow> bool" where
  "window_contains w s =
     (if s = 0 \<or> s > MAX_RECORD_SEQUENCE then True
      else if s > highest w then False
      else let age = highest w - s in
        age \<ge> word_of_nat REPLAY_WINDOW \<or> wbits w ! (unat age div 64) AND push_bit (unat age mod 64) 1 \<noteq> 0)"

text \<open>The word-shift loop, from the last word down, updating the array in place.\<close>

fun shift_loop :: "nat \<Rightarrow> nat \<Rightarrow> nat \<Rightarrow> u64 list \<Rightarrow> u64 list" where
  "shift_loop 0 ws bs b = b"
| "shift_loop (Suc dst) ws bs b = shift_loop dst ws bs
     (b[dst := if dst < ws then 0
        else let src = dst - ws in
          push_bit bs (b ! src) OR (if bs > 0 \<and> src > 0 then drop_bit (64 - bs) (b ! (src - 1)) else 0)])"

definition window_advance :: "ReplayWindow \<Rightarrow> u64 \<Rightarrow> ReplayWindow" where
  "window_advance w s =
     (if s > highest w then
        let shift = unat (min (s - highest w) (word_of_nat REPLAY_WINDOW)) in
        \<lparr>highest = s,
         wbits = (if shift = REPLAY_WINDOW then replicate (length (wbits w)) 0
                  else shift_loop (length (wbits w)) (shift div 64) (shift mod 64) (wbits w))\<rparr>
      else w)"

definition window_insert :: "ReplayWindow \<Rightarrow> u64 \<Rightarrow> ReplayWindow option" where
  "window_insert w0 s =
     (let w = window_advance w0 s; age = unat (highest w - s) in
      if age div 64 < length (wbits w)
      then Some (w\<lparr>wbits := (wbits w)[age div 64 := wbits w ! (age div 64) OR push_bit (age mod 64) 1]\<rparr>)
      else None)"

section \<open>Sessions\<close>

text \<open>Third-party cryptography: keyed hash, key construction, sealing and opening.\<close>

record 'k crypto_suite =
  hmac_sha256 :: "bytes \<Rightarrow> bytes \<Rightarrow> bytes"
  aead_key :: "bytes \<Rightarrow> 'k option"
  aead_seal :: "'k \<Rightarrow> bytes \<Rightarrow> bytes \<Rightarrow> bytes \<Rightarrow> bytes option"
  aead_open :: "'k \<Rightarrow> bytes \<Rightarrow> bytes \<Rightarrow> bytes \<Rightarrow> bytes option"

definition suite_ok :: "('k, 'm) crypto_suite_scheme \<Rightarrow> bool" where
  "suite_ok cs \<longleftrightarrow> (\<forall>k n a p c. aead_seal cs k n a p = Some c \<longrightarrow>
     length c = length p + TAG_LEN \<and> aead_open cs k n a c = Some p)"

record 'k SessionCrypto =
  send_key :: 'k
  receive_key :: 'k
  session_id :: bytes
  send_direction :: u8
  next_sequence :: u64
  received :: ReplayWindow
  authentication_failures :: u64
  exhausted :: bool

definition session_key :: "('k, 'm) crypto_suite_scheme \<Rightarrow> bytes \<Rightarrow> bytes \<Rightarrow> bytes \<Rightarrow> ('k, SessionCryptoError) result" where
  "session_key cs psk transcript label =
     ok_or (aead_key cs (hmac_sha256 cs psk
       (byte_str ''RemotePlay/session-record/v3'' @ [0] @ label @ transcript))) InvalidKey"

definition for_session ::
    "('k, 'm) crypto_suite_scheme \<Rightarrow> bytes \<Rightarrow> bytes \<Rightarrow> bytes \<Rightarrow> SessionRole \<Rightarrow> ('k SessionCrypto, SessionCryptoError) result" where
  "for_session cs psk transcript sid role =
     (let (snd, rcv, dir) = (case role of
            Client \<Rightarrow> (byte_str ''client'', byte_str ''host'', 0)
          | Host \<Rightarrow> (byte_str ''host'', byte_str ''client'', 1)) in
      try_bind (session_key cs psk transcript snd) (\<lambda>sk.
      try_bind (session_key cs psk transcript rcv) (\<lambda>rk.
      Ok \<lparr>send_key = sk, receive_key = rk, session_id = sid, send_direction = dir, next_sequence = 1,
          received = window_default, authentication_failures = 0, exhausted = False\<rparr>)))"

definition derive_key :: "('k, 'm) crypto_suite_scheme \<Rightarrow> bytes \<Rightarrow> bytes \<Rightarrow> bytes" where
  "derive_key cs psk salt = hmac_sha256 cs psk (byte_str ''RemotePlay/fixture-session-id/v3'' @ salt)"

definition from_psk ::
    "('k, 'm) crypto_suite_scheme \<Rightarrow> bytes \<Rightarrow> bytes \<Rightarrow> SessionRole \<Rightarrow> ('k SessionCrypto, SessionCryptoError) result" where
  "from_psk cs psk salt role = for_session cs psk salt (take 16 (derive_key cs psk salt)) role"

definition record_nonce :: "u64 \<Rightarrow> bytes" where
  "record_nonce s = replicate 4 0 @ to_be 8 s"

definition record_header :: "bytes \<Rightarrow> u8 \<Rightarrow> u64 \<Rightarrow> bytes" where
  "record_header sid dir s = [RECORD_VERSION] @ sid @ [dir] @ to_be 8 s"

definition seal :: "('k, 'm) crypto_suite_scheme \<Rightarrow> 'k SessionCrypto \<Rightarrow> bytes \<Rightarrow>
    'k SessionCrypto \<times> (bytes, SessionCryptoError) result" where
  "seal cs c plaintext =
     (if exhausted c then (c, Err AuthenticationLimit)
      else if length plaintext > MAX_RECORD_PLAINTEXT then (c, Err OversizedRecord)
      else if next_sequence c > MAX_RECORD_SEQUENCE then (c, Err SequenceExhausted)
      else let sequence = next_sequence c;
               c' = c\<lparr>next_sequence := sequence + 1\<rparr>;
               out = record_header (session_id c) (send_direction c) sequence in
        (case aead_seal cs (send_key c) (record_nonce sequence) out plaintext of
           None \<Rightarrow> (c', Err Seal)
         | Some body \<Rightarrow> (c', Ok (out @ body))))"

definition open_rejects_shape :: "'k SessionCrypto \<Rightarrow> bytes \<Rightarrow> SessionCryptoError option" where
  "open_rejects_shape c sealed =
     (if exhausted c then Some AuthenticationLimit
      else if length sealed > MAX_RECORD_PLAINTEXT + RECORD_HEADER_LEN + TAG_LEN then Some OversizedRecord
      else if length sealed < RECORD_HEADER_LEN + TAG_LEN then Some ShortPacket
      else if sealed ! 0 \<noteq> RECORD_VERSION \<or> rslice 1 17 sealed \<noteq> session_id c
              \<or> sealed ! 17 = send_direction c \<or> sealed ! 17 > 1 then Some Open
      else None)"

definition record_open :: "('k, 'm) crypto_suite_scheme \<Rightarrow> 'k SessionCrypto \<Rightarrow> bytes \<Rightarrow>
    ('k SessionCrypto \<times> (bytes, SessionCryptoError) result) option" where
  "record_open cs c sealed =
     (case open_rejects_shape c sealed of
        Some e \<Rightarrow> Some (c, Err e)
      | None \<Rightarrow>
        let sequence = of_be (rslice 18 26 sealed) in
        if window_contains (received c) sequence then Some (c, Err Replay)
        else
          (case aead_open cs (receive_key c) (record_nonce sequence) (take RECORD_HEADER_LEN sealed)
                  (drop RECORD_HEADER_LEN sealed) of
             None \<Rightarrow>
               let failures = authentication_failures c + 1 in
               if failures \<ge> MAX_AUTHENTICATION_FAILURES
               then Some (c\<lparr>authentication_failures := failures, exhausted := True\<rparr>, Err AuthenticationLimit)
               else Some (c\<lparr>authentication_failures := failures\<rparr>, Err Open)
           | Some plain \<Rightarrow>
               (case window_insert (received c) sequence of
                  None \<Rightarrow> None
                | Some w \<Rightarrow> Some (c\<lparr>received := w\<rparr>, Ok plain))))"

text \<open>File sessions use the paired profile's key, and only when it is the selected one.\<close>

definition matches_paired_file_key :: "bytes option \<Rightarrow> bytes option \<Rightarrow> bool" where
  "matches_paired_file_key paired selected =
     ((case paired of None \<Rightarrow> False | Some key \<Rightarrow> key \<noteq> []) \<and> paired = selected)"

definition paired_file_session_key :: "bytes option \<Rightarrow> bytes option \<Rightarrow> bytes option" where
  "paired_file_session_key paired selected =
     (if matches_paired_file_key paired selected then paired else None)"

text \<open>Changing the paired secret; the second result says whether the shared-file catalogue is cleared.\<close>

definition use_paired_session_secret ::
    "('k, 'm) crypto_suite_scheme \<Rightarrow> bytes option \<Rightarrow> bytes \<Rightarrow> bytes option \<times> bool" where
  "use_paired_session_secret cs current secret =
     (let next = hmac_sha256 cs secret (byte_str ''remote-play/paired-media/v2'') in
      (Some next, current \<noteq> Some next))"

definition refresh_paired_session_secret ::
    "('k, 'm) crypto_suite_scheme \<Rightarrow> bytes option \<Rightarrow> bytes \<Rightarrow> bytes option \<times> bool" where
  "refresh_paired_session_secret cs current secret =
     (if current \<noteq> None then use_paired_session_secret cs current secret else (current, False))"

section \<open>The window refines a set of seen sequence numbers\<close>

text \<open>
  The abstract window: the greatest sequence number admitted and the set of all admitted ones.  It
  refuses 0, numbers beyond the record limit, numbers already seen and numbers 4096 or more behind.
\<close>

type_synonym seen_window = "nat \<times> nat set"

definition spec_admits :: "seen_window \<Rightarrow> nat \<Rightarrow> bool" where
  "spec_admits v s \<longleftrightarrow> 0 < s \<and> s < 2 ^ 48 \<and> s \<notin> snd v \<and> fst v < s + 4096"

definition spec_insert :: "seen_window \<Rightarrow> nat \<Rightarrow> seen_window" where
  "spec_insert v s = (max (fst v) s, insert s (snd v))"

definition window_rel :: "ReplayWindow \<Rightarrow> seen_window \<Rightarrow> bool" where
  "window_rel w v \<longleftrightarrow> length (wbits w) = 64 \<and> unat (highest w) = fst v \<and> fst v < 2 ^ 48 \<and>
     (\<forall>s\<in>snd v. s \<le> fst v) \<and>
     (\<forall>a < 4096. a < fst v \<longrightarrow> bit (wbits w ! (a div 64)) (a mod 64) = (fst v - a \<in> snd v))"

lemmas crypto_consts = RECORD_VERSION_def RECORD_HEADER_LEN_def REPLAY_WINDOW_def
  MAX_RECORD_PLAINTEXT_def TAG_LEN_def

lemma unat_max_sequence: "unat MAX_RECORD_SEQUENCE = 2 ^ 48 - 1"
  by (simp add: MAX_RECORD_SEQUENCE_def push_bit_eq_mult)

lemma beyond_max_sequence: "MAX_RECORD_SEQUENCE < s \<longleftrightarrow> 2 ^ 48 \<le> unat s"
  by (simp add: word_less_nat_alt unat_max_sequence) arith

lemma and_push_bit_eq_0: "w AND push_bit n 1 \<noteq> 0 \<longleftrightarrow> bit w n" for w :: u64
proof -
  have "w AND push_bit n 1 = push_bit n (of_bool (bit w n))"
    by (rule bit_word_eqI) (auto simp: bit_simps)
  moreover have "bit w n \<Longrightarrow> n < 64"
    using bit_imp_le_length [of w n] by simp
  ultimately show ?thesis
    by (cases "bit w n") (auto simp: push_bit_eq_mult)
qed

lemma and_two_power_eq_0: "w AND 2 ^ n \<noteq> 0 \<longleftrightarrow> bit w n" for w :: u64
  using and_push_bit_eq_0 [of w n] by (simp add: push_bit_eq_mult)

lemma window_contains_alt:
  "window_contains w s \<longleftrightarrow> s = 0 \<or> 2 ^ 48 \<le> unat s \<or> (unat s \<le> unat (highest w) \<and>
     (4096 \<le> unat (highest w) - unat s \<or>
      bit (wbits w ! ((unat (highest w) - unat s) div 64)) ((unat (highest w) - unat s) mod 64)))"
proof (cases "s \<le> highest w")
  case True
  then have d: "unat (highest w - s) = unat (highest w) - unat s"
    by (simp add: unat_sub word_le_nat_alt)
  have k: "word_of_nat REPLAY_WINDOW \<le> highest w - s \<longleftrightarrow> 4096 \<le> unat (highest w) - unat s"
    by (simp add: REPLAY_WINDOW_def word_le_nat_alt d)
  have "\<not> highest w < s" "unat s \<le> unat (highest w)"
    using True by (simp_all add: word_le_nat_alt word_less_nat_alt)
  then show ?thesis
    by (simp only: window_contains_def beyond_max_sequence and_push_bit_eq_0 Let_def k d) simp
next
  case False
  then show ?thesis
    by (auto simp: window_contains_def beyond_max_sequence) (auto simp: word_less_nat_alt)
qed

lemma window_contains_refines:
  assumes "window_rel w v"
  shows "window_contains w s \<longleftrightarrow> \<not> spec_admits v (unat s)"
proof -
  have pos: "s = 0 \<longleftrightarrow> unat s = 0" by (simp add: unat_eq_0)
  have fst: "unat (highest w) = fst v" using assms by (simp add: window_rel_def)
  have gt: "fst v < unat s \<Longrightarrow> unat s \<notin> snd v" using assms by (fastforce simp: window_rel_def)
  have bit: "0 < unat s \<Longrightarrow> unat s \<le> fst v \<Longrightarrow> fst v - unat s < 4096 \<Longrightarrow>
      bit (wbits w ! ((fst v - unat s) div 64)) ((fst v - unat s) mod 64) = (unat s \<in> snd v)"
    using assms by (simp add: window_rel_def)
  show ?thesis
    unfolding window_contains_alt spec_admits_def pos fst
    using gt bit by (cases "unat s \<le> fst v"; cases "fst v - unat s < 4096") auto
qed

subsection \<open>The word-shift loop is a shift of the bit sequence\<close>

lemma length_shift_loop [simp]: "length (shift_loop n ws bs b) = length b"
  by (induction n arbitrary: b) (simp_all add: Let_def)

lemma shift_loop_above: "n \<le> i \<Longrightarrow> shift_loop n ws bs b ! i = b ! i"
  by (induction n arbitrary: b) (simp_all add: Let_def)

lemma shift_loop_nth:
  "i < n \<Longrightarrow> n \<le> length b \<Longrightarrow> shift_loop n ws bs b ! i =
     (if i < ws then 0 else push_bit bs (b ! (i - ws)) OR
        (if bs > 0 \<and> i - ws > 0 then drop_bit (64 - bs) (b ! (i - ws - 1)) else 0))"
proof (induction n arbitrary: b)
  case (Suc n)
  show ?case
  proof (cases "i = n")
    case True
    with Suc.prems show ?thesis by (simp add: shift_loop_above Let_def)
  next
    case False
    with Suc.prems have "i < n" "n \<le> length b" by simp_all
    then show ?thesis by (simp add: Suc.IH Let_def)
  qed
qed simp

lemma shift_bits:
  assumes "length b = 64" "bs < 64" "a < 4096"
  shows "bit (shift_loop 64 ws bs b ! (a div 64)) (a mod 64) \<longleftrightarrow>
    64 * ws + bs \<le> a \<and> bit (b ! ((a - (64 * ws + bs)) div 64)) ((a - (64 * ws + bs)) mod 64)"
proof -
  obtain i j where a: "a = 64 * i + j" and j: "j < 64"
    by (metis div_mult_mod_eq mod_less_divisor mult.commute zero_less_numeral)
  have i: "i < 64" using a assms(3) by simp
  have ij: "a div 64 = i" "a mod 64 = j" using a j by simp_all
  have nth: "shift_loop 64 ws bs b ! i = (if i < ws then 0 else push_bit bs (b ! (i - ws)) OR
        (if bs > 0 \<and> i - ws > 0 then drop_bit (64 - bs) (b ! (i - ws - 1)) else 0))"
    using i assms(1) by (simp add: shift_loop_nth)
  consider "i < ws" | "ws \<le> i" "bs \<le> j" | "ws = i" "j < bs" | "ws < i" "j < bs" by linarith
  then show ?thesis
  proof cases
    case 1
    then show ?thesis unfolding ij nth using a j by auto
  next
    case 2
    have "a - (64 * ws + bs) = 64 * (i - ws) + (j - bs)" using a 2 by (simp add: algebra_simps)
    then have d: "(a - (64 * ws + bs)) div 64 = i - ws" "(a - (64 * ws + bs)) mod 64 = j - bs"
      using j by simp_all
    have "\<not> bit (b ! (i - ws - 1)) (64 - bs + j)"
      using 2 assms(2) bit_imp_le_length [of "b ! (i - ws - 1)" "64 - bs + j"] by auto
    then show ?thesis unfolding ij nth d using a j 2 assms(2) by (auto simp: bit_simps)
  next
    case 3
    then show ?thesis unfolding ij nth using a j by (auto simp: bit_simps)
  next
    case 4
    have "a - (64 * ws + bs) = 64 * (i - ws - 1) + (64 - bs + j)"
      using a 4 assms(2) by (simp add: algebra_simps)
    moreover have "64 - bs + j < 64" using 4 assms(2) by linarith
    ultimately have d: "(a - (64 * ws + bs)) div 64 = i - ws - 1" "(a - (64 * ws + bs)) mod 64 = 64 - bs + j"
      by (simp_all only: div_mult_self4 mod_mult_self4 div_less mod_less)
    show ?thesis unfolding ij nth d using a j 4 assms(2) by (auto simp: bit_simps)
  qed
qed

lemma window_advance_bits:
  assumes "length (wbits w) = 64" "highest w < s" "a < 4096"
  shows "bit (wbits (window_advance w s) ! (a div 64)) (a mod 64) \<longleftrightarrow>
    (let d = unat s - unat (highest w) in
      d \<le> a \<and> bit (wbits w ! ((a - d) div 64)) ((a - d) mod 64))"
proof -
  define d where "d = unat s - unat (highest w)"
  have d: "unat (s - highest w) = d" using assms(2) by (simp add: d_def unat_sub)
  have m: "unat (min (s - highest w) (word_of_nat REPLAY_WINDOW)) = min d 4096"
    by (simp add: min_def word_le_nat_alt d REPLAY_WINDOW_def)
  show ?thesis
  proof (cases "d < 4096")
    case True
    have "bit (shift_loop 64 (d div 64) (d mod 64) (wbits w) ! (a div 64)) (a mod 64) \<longleftrightarrow>
        d \<le> a \<and> bit (wbits w ! ((a - d) div 64)) ((a - d) mod 64)"
      using shift_bits [OF assms(1) _ assms(3), of "d mod 64" "d div 64"] by simp
    then show ?thesis using assms True m by (simp add: window_advance_def Let_def REPLAY_WINDOW_def d_def)
  next
    case False
    then show ?thesis
      using assms m by (simp add: window_advance_def Let_def REPLAY_WINDOW_def d_def [symmetric])
  qed
qed

lemma window_advance_highest:
  "highest (window_advance w s) = max (highest w) s"
  by (auto simp: window_advance_def Let_def max_def)

lemma window_advance_rel:
  assumes rel: "window_rel w v" and s: "unat s < 2 ^ 48"
  shows "window_rel (window_advance w s) (max (fst v) (unat s), snd v)"
proof (cases "highest w < s")
  case False
  then have "unat s \<le> fst v" using rel by (simp add: window_rel_def word_less_nat_alt)
  then show ?thesis using rel False by (simp add: window_advance_def max_def)
next
  case True
  have fst: "fst v < unat s" "unat (highest w) = fst v"
    using rel True by (simp_all add: window_rel_def word_less_nat_alt)
  have len: "length (wbits (window_advance w s)) = 64"
    using rel True by (simp add: window_advance_def Let_def window_rel_def)
  have old: "\<And>a. a < 4096 \<Longrightarrow> a < fst v \<Longrightarrow>
      bit (wbits w ! (a div 64)) (a mod 64) = (fst v - a \<in> snd v)"
    using rel by (simp add: window_rel_def)
  have le: "\<And>t. t \<in> snd v \<Longrightarrow> t \<le> fst v" using rel by (simp add: window_rel_def)
  have "bit (wbits (window_advance w s) ! (a div 64)) (a mod 64) = (unat s - a \<in> snd v)"
    if a: "a < 4096" "a < unat s" for a
  proof -
    let ?d = "unat s - fst v"
    have "bit (wbits (window_advance w s) ! (a div 64)) (a mod 64) \<longleftrightarrow>
        ?d \<le> a \<and> bit (wbits w ! ((a - ?d) div 64)) ((a - ?d) mod 64)"
      using window_advance_bits [OF _ True a(1)] rel fst by (simp add: window_rel_def Let_def)
    also have "\<dots> \<longleftrightarrow> ?d \<le> a \<and> fst v - (a - ?d) \<in> snd v"
      using old [of "a - ?d"] a fst by auto
    also have "\<dots> \<longleftrightarrow> unat s - a \<in> snd v"
      using le [of "unat s - a"] fst a by (auto simp: le_diff_conv)
    finally show ?thesis .
  qed
  then show ?thesis
    using rel True s fst len le
    by (auto simp: window_rel_def window_advance_highest max_def word_le_nat_alt intro: order_trans dest: le)
qed

lemma window_insert_refines:
  assumes rel: "window_rel w v" and adm: "spec_admits v (unat s)"
  shows "\<exists>w'. window_insert w s = Some w' \<and> window_rel w' (spec_insert v (unat s))"
proof -
  define u where "u = window_advance w s"
  define m where "m = max (fst v) (unat s)"
  have s: "0 < unat s" "unat s < 2 ^ 48" "fst v < unat s + 4096" using adm by (simp_all add: spec_admits_def)
  have urel: "window_rel u (m, snd v)" using window_advance_rel [OF rel s(2)] by (simp add: u_def m_def)
  have um: "unat (highest u) = m" "length (wbits u) = 64" using urel by (simp_all add: window_rel_def)
  define age where "age = m - unat s"
  have age: "unat (highest u - s) = age" "age < 4096"
    using um s by (simp_all add: age_def unat_sub word_le_nat_alt m_def)
  let ?w = "u\<lparr>wbits := (wbits u)[age div 64 := wbits u ! (age div 64) OR push_bit (age mod 64) 1]\<rparr>"
  have ins: "window_insert w s = Some ?w"
    using um age by (simp add: window_insert_def Let_def u_def [symmetric])
  have "bit (wbits ?w ! (a div 64)) (a mod 64) = (m - a \<in> insert (unat s) (snd v))"
    if a: "a < 4096" "a < m" for a
  proof -
    have "bit (wbits ?w ! (a div 64)) (a mod 64) \<longleftrightarrow>
        bit (wbits u ! (a div 64)) (a mod 64) \<or> a div 64 = age div 64 \<and> a mod 64 = age mod 64"
      using um age a by (auto simp: nth_list_update bit_simps)
    also have "a div 64 = age div 64 \<and> a mod 64 = age mod 64 \<longleftrightarrow> a = age"
      by (metis div_mult_mod_eq)
    also have "a = age \<longleftrightarrow> m - a = unat s" using a s by (auto simp: age_def m_def)
    finally show ?thesis using urel a by (auto simp: window_rel_def)
  qed
  moreover have "\<forall>t\<in>insert (unat s) (snd v). t \<le> m" using urel by (auto simp: window_rel_def m_def)
  ultimately have "window_rel ?w (m, insert (unat s) (snd v))"
    using urel um by (simp add: window_rel_def)
  with ins show ?thesis by (simp add: spec_insert_def m_def)
qed

subsection \<open>Runs of the window\<close>

definition window_admit :: "ReplayWindow option \<Rightarrow> u64 \<Rightarrow> ReplayWindow option" where
  "window_admit m s = (case m of None \<Rightarrow> None
     | Some w \<Rightarrow> if window_contains w s then Some w else window_insert w s)"

definition spec_admit :: "seen_window \<Rightarrow> nat \<Rightarrow> seen_window" where
  "spec_admit v s = (if spec_admits v s then spec_insert v s else v)"

lemma window_default_rel: "window_rel window_default (0, {})"
  by (simp add: window_rel_def window_default_def REPLAY_WINDOW_def)

lemma window_admit_refines:
  assumes "window_rel w v"
  shows "\<exists>w'. window_admit (Some w) s = Some w' \<and> window_rel w' (spec_admit v (unat s))"
  using window_contains_refines [OF assms, of s] window_insert_refines [OF assms, of s] assms
  by (auto simp: window_admit_def spec_admit_def)

lemma window_run_refines:
  assumes "window_rel w v"
  shows "\<exists>w'. foldl window_admit (Some w) ss = Some w' \<and> window_rel w' (foldl spec_admit v (map unat ss))"
  using assms
proof (induction ss arbitrary: w v)
  case (Cons s ss)
  from window_admit_refines [OF Cons.prems] obtain u where
    u: "window_admit (Some w) s = Some u" "window_rel u (spec_admit v (unat s))" by blast
  from Cons.IH [OF u(2)] u(1) show ?case by simp
qed auto

text \<open>
  C8. After any sequence of arrivals, each checked and then recorded as \<open>open\<close> does, the word-array
  window has not indexed out of range and refuses exactly what the abstract window refuses: 0, numbers
  past the record limit, numbers already admitted, and numbers 4096 or more behind the greatest one.
\<close>

theorem replay_window_refines:
  "\<exists>w. foldl window_admit (Some window_default) ss = Some w \<and>
     (\<forall>t. window_contains w t = (\<not> spec_admits (foldl spec_admit (0, {}) (map unat ss)) (unat t)))"
  using window_run_refines [OF window_default_rel, of ss] window_contains_refines by blast

section \<open>Session invariant\<close>

definition replay_ok :: "ReplayWindow \<Rightarrow> bool" where
  "replay_ok w \<longleftrightarrow> (\<exists>v. window_rel w v)"

definition session_inv :: "'k SessionCrypto \<Rightarrow> bool" where
  "session_inv c \<longleftrightarrow> replay_ok (received c) \<and> length (session_id c) = 16 \<and> send_direction c \<le> 1 \<and>
     1 \<le> unat (next_sequence c) \<and> unat (next_sequence c) \<le> 2 ^ 48 \<and>
     unat (authentication_failures c) \<le> 2 ^ 24 \<and>
     exhausted c = (unat (authentication_failures c) = 2 ^ 24)"

datatype session_op = SealOp bytes | OpenOp bytes

definition session_step :: "('k, 'm) crypto_suite_scheme \<Rightarrow> 'k SessionCrypto \<Rightarrow> session_op \<Rightarrow> 'k SessionCrypto" where
  "session_step cs c x = (case x of
     SealOp p \<Rightarrow> fst (seal cs c p)
   | OpenOp r \<Rightarrow> (case record_open cs c r of None \<Rightarrow> c | Some (c', _) \<Rightarrow> c'))"

lemma window_insert_ok:
  "replay_ok w \<Longrightarrow> \<not> window_contains w s \<Longrightarrow> \<exists>w'. window_insert w s = Some w' \<and> replay_ok w'"
  unfolding replay_ok_def by (metis window_contains_refines window_insert_refines)

lemma window_insert_contains:
  assumes "replay_ok w" "\<not> window_contains w s" "window_insert w s = Some w'"
  shows "window_contains w' s" and "window_contains w t \<Longrightarrow> window_contains w' t"
proof -
  obtain v where v: "window_rel w v" using assms(1) by (auto simp: replay_ok_def)
  then have v': "window_rel w' (spec_insert v (unat s))"
    using window_contains_refines window_insert_refines assms(2,3) by fastforce
  show "window_contains w' s"
    by (simp add: window_contains_refines [OF v'] spec_admits_def spec_insert_def)
  show "window_contains w t \<Longrightarrow> window_contains w' t"
    by (auto simp: window_contains_refines [OF v'] window_contains_refines [OF v] spec_admits_def spec_insert_def)
qed

text \<open>The outcomes of \<open>open\<close>, with what each leaves of the session.\<close>

lemma record_open_cases:
  assumes "replay_ok (received c)"
  obtains (rejected) e where "record_open cs c r = Some (c, Err e)"
  | (forged) e n where "open_rejects_shape c r = None" "n = authentication_failures c + 1"
      "record_open cs c r = Some (c\<lparr>authentication_failures := n,
         exhausted := exhausted c \<or> MAX_AUTHENTICATION_FAILURES \<le> n\<rparr>, Err e)"
  | (accepted) s w p where "open_rejects_shape c r = None" "s = of_be (rslice 18 26 r)"
      "\<not> window_contains (received c) s" "window_insert (received c) s = Some w" "replay_ok w"
      "aead_open cs (receive_key c) (record_nonce s) (take RECORD_HEADER_LEN r) (drop RECORD_HEADER_LEN r) = Some p"
      "record_open cs c r = Some (c\<lparr>received := w\<rparr>, Ok p)"
proof (cases "open_rejects_shape c r")
  case (Some e)
  then show ?thesis using rejected by (simp add: record_open_def)
next
  case shape: None
  define s :: u64 where "s = of_be (rslice 18 26 r)"
  have live: "\<not> exhausted c" using shape by (auto simp: open_rejects_shape_def)
  show ?thesis
  proof (cases "window_contains (received c) s")
    case True
    then show ?thesis using rejected shape by (simp add: record_open_def s_def)
  next
    case False
    from window_insert_ok [OF assms False] obtain w where
      w: "window_insert (received c) s = Some w" "replay_ok w" by blast
    show ?thesis
    proof (cases "aead_open cs (receive_key c) (record_nonce s) (take RECORD_HEADER_LEN r) (drop RECORD_HEADER_LEN r)")
      case None
      then show ?thesis
        using forged [OF shape refl, of "if MAX_AUTHENTICATION_FAILURES \<le> authentication_failures c + 1
           then AuthenticationLimit else Open"] False shape live
        by (auto simp: record_open_def s_def Let_def split: if_splits)
    next
      case (Some p)
      then show ?thesis
        using accepted [OF shape s_def False w] False shape w by (simp add: record_open_def s_def)
    qed
  qed
qed

lemma seal_fst:
  "fst (seal cs c p) = c \<or> \<not> exhausted c \<and> next_sequence c \<le> MAX_RECORD_SEQUENCE \<and>
     fst (seal cs c p) = c\<lparr>next_sequence := next_sequence c + 1\<rparr>"
  by (auto simp: seal_def Let_def split: option.splits)

lemma next_sequence_succ:
  "n \<le> MAX_RECORD_SEQUENCE \<Longrightarrow> unat (n + 1) = unat n + 1 \<and> unat n < 2 ^ 48"
  by (subst unat_add_no_overflow) (simp_all add: word_le_nat_alt unat_max_sequence)

lemma session_step_inv: "session_inv c \<Longrightarrow> session_inv (session_step cs c x)"
proof (cases x)
  case (SealOp p)
  then show "session_inv c \<Longrightarrow> ?thesis"
    using seal_fst [of cs c p] by (auto simp: session_step_def session_inv_def dest: next_sequence_succ)
next
  case (OpenOp r)
  assume inv: "session_inv c"
  then have "replay_ok (received c)" by (simp add: session_inv_def)
  then show ?thesis
  proof (cases rule: record_open_cases [where cs = cs and r = r])
    case (rejected e)
    then show ?thesis using inv OpenOp by (simp add: session_step_def)
  next
    case (forged e n)
    have live: "\<not> exhausted c" using forged(1) by (auto simp: open_rejects_shape_def)
    then have "unat (authentication_failures c) < 2 ^ 24" using inv by (auto simp: session_inv_def)
    then have "unat n = unat (authentication_failures c) + 1"
      unfolding forged(2) by (subst unat_add_no_overflow) simp_all
    moreover have "MAX_AUTHENTICATION_FAILURES \<le> n \<longleftrightarrow> 2 ^ 24 \<le> unat n"
      by (simp add: MAX_AUTHENTICATION_FAILURES_def word_le_nat_alt push_bit_eq_mult)
    ultimately show ?thesis using forged(3) live inv OpenOp
      by (simp add: session_step_def session_inv_def) linarith
  next
    case (accepted s w p)
    then show ?thesis using inv OpenOp by (simp add: session_step_def session_inv_def)
  qed
qed

interpretation session: op_machine "session_step cs" session_inv
  by unfold_locales (rule session_step_inv)

lemma for_session_fields:
  assumes "for_session cs psk t sid role = Ok c"
  shows "session_id c = sid" "next_sequence c = 1" "received c = window_default"
    "authentication_failures c = 0" "\<not> exhausted c"
    "send_direction c = (case role of Client \<Rightarrow> 0 | Host \<Rightarrow> 1)"
  using assms by (auto simp: for_session_def try_bind_eq_Ok split: SessionRole.splits)

lemma for_session_inv: "for_session cs psk t sid role = Ok c \<Longrightarrow> length sid = 16 \<Longrightarrow> session_inv c"
  using window_default_rel
  by (auto simp: session_inv_def for_session_fields replay_ok_def split: SessionRole.splits)

section \<open>Records are accepted at most once, nonces are used at most once\<close>

definition open_step :: "('k, 'm) crypto_suite_scheme \<Rightarrow> 'k SessionCrypto \<Rightarrow> session_op \<Rightarrow> 'k SessionCrypto \<times> u64 option" where
  "open_step cs c x = (session_step cs c x, case x of
     SealOp p \<Rightarrow> None
   | OpenOp r \<Rightarrow> (case record_open cs c r of Some (_, Inr _) \<Rightarrow> Some (of_be (rslice 18 26 r)) | _ \<Rightarrow> None))"

definition seal_step :: "('k, 'm) crypto_suite_scheme \<Rightarrow> 'k SessionCrypto \<Rightarrow> session_op \<Rightarrow> 'k SessionCrypto \<times> u64 option" where
  "seal_step cs c x = (session_step cs c x, case x of
     SealOp p \<Rightarrow> (case seal cs c p of (_, Inr r) \<Rightarrow> Some (of_be (rslice 18 26 r)) | _ \<Rightarrow> None)
   | OpenOp r \<Rightarrow> None)"

lemma seal_ok:
  assumes "seal cs c p = (c', Ok r)"
  shows "\<exists>body. aead_seal cs (send_key c) (record_nonce (next_sequence c))
       (record_header (session_id c) (send_direction c) (next_sequence c)) p = Some body \<and>
     r = record_header (session_id c) (send_direction c) (next_sequence c) @ body"
    and "c' = c\<lparr>next_sequence := next_sequence c + 1\<rparr>" "length p \<le> MAX_RECORD_PLAINTEXT"
    "next_sequence c \<le> MAX_RECORD_SEQUENCE" "\<not> exhausted c"
  using assms by (auto simp: seal_def Let_def not_less split: if_splits option.splits)

lemma record_header_fields:
  assumes "length sid = 16"
  shows "length (record_header sid d s) = 26" "(record_header sid d s @ body) ! 0 = RECORD_VERSION"
    "rslice (Suc 0) 17 (record_header sid d s @ body) = sid" "(record_header sid d s @ body) ! 17 = d"
    "rslice 18 26 (record_header sid d s @ body) = to_be 8 s"
  using assms by (simp_all add: record_header_def rslice_def nth_append)

lemma open_step_accepts:
  assumes "session_inv c" "open_step cs c x = (c', Some k)"
  shows "\<not> window_contains (received c) k \<and> window_contains (received c') k"
proof -
  obtain r where x: "x = OpenOp r" using assms(2) by (auto simp: open_step_def split: session_op.splits)
  have ok: "replay_ok (received c)" using assms(1) by (simp add: session_inv_def)
  from ok show ?thesis
    by (cases rule: record_open_cases [where cs = cs and r = r])
      (use assms(2) x window_insert_contains(1) [OF ok] in
        \<open>auto simp: open_step_def session_step_def split: if_splits\<close>)
qed

lemma session_step_window_mono:
  assumes "session_inv c" "window_contains (received c) k"
  shows "window_contains (received (session_step cs c x)) k"
proof (cases x)
  case (SealOp p)
  then show ?thesis using seal_fst [of cs c p] assms(2) by (auto simp: session_step_def)
next
  case (OpenOp r)
  have ok: "replay_ok (received c)" using assms(1) by (simp add: session_inv_def)
  from ok show ?thesis
    by (cases rule: record_open_cases [where cs = cs and r = r])
      (use assms(2) OpenOp window_insert_contains(2) [OF ok] in \<open>auto simp: session_step_def\<close>)
qed

interpretation open_once: at_most_once "open_step cs" "\<lambda>c. window_contains (received c)" session_inv
  by unfold_locales
    (auto simp: open_step_accepts open_step_def session_step_inv intro: session_step_window_mono)

lemma seal_step_accepts:
  assumes "session_inv c" "seal_step cs c x = (c', Some k)"
  shows "\<not> k < next_sequence c \<and> k < next_sequence c'"
proof -
  obtain p r u where x: "x = SealOp p" and s: "seal cs c p = (u, Ok r)" and k: "k = of_be (rslice 18 26 r)"
      and c': "c' = session_step cs c x"
    using assms(2) by (auto simp: seal_step_def split: session_op.splits prod.splits sum.splits)
  have "k = next_sequence c"
    using seal_ok(1) [OF s] assms(1) k by (auto simp: session_inv_def record_header_fields be_dec_enc)
  moreover have "next_sequence c' = next_sequence c + 1" using seal_ok(2) [OF s] s x c' by (simp add: session_step_def)
  ultimately show ?thesis
    using next_sequence_succ [OF seal_ok(4) [OF s]] by (simp add: word_less_nat_alt)
qed

lemma session_step_sequence_mono: "session_inv c \<Longrightarrow> next_sequence c \<le> next_sequence (session_step cs c x)"
proof (cases x)
  case (SealOp p)
  then show ?thesis
    using seal_fst [of cs c p] next_sequence_succ by (auto simp: session_step_def word_le_nat_alt)
next
  case (OpenOp r)
  assume "session_inv c"
  then have ok: "replay_ok (received c)" by (simp add: session_inv_def)
  from ok show ?thesis
    by (cases rule: record_open_cases [where cs = cs and r = r]) (use OpenOp in \<open>simp_all add: session_step_def\<close>)
qed

interpretation seal_once: at_most_once "seal_step cs" "\<lambda>c k. k < next_sequence c" session_inv
proof unfold_locales
  fix c :: "'a SessionCrypto" and x c' k r
  assume "session_inv c" "seal_step cs c x = (c', r)" "k < next_sequence c"
  then show "k < next_sequence c'"
    using session_step_sequence_mono [of c cs x] by (auto simp: seal_step_def)
qed (auto simp: seal_step_accepts, auto simp: seal_step_def session_step_inv)

text \<open>
  C3. In any interleaving of sealing and opening on a session, whatever the network delivers and whatever
  the AEAD does, no sequence number is accepted twice: replayed records are never delivered again.
\<close>

theorem records_accepted_at_most_once:
  assumes "for_session cs psk transcript sid role = Ok c" "length sid = 16"
  shows "distinct (accepted_keys (open_step cs) c ops)"
  by (rule open_once.accepted_distinct) (rule for_session_inv [OF assms])

text \<open>
  The sequence numbers that a session writes into the records it seals, which are also the nonces
  handed to the AEAD, never repeat under its key.
\<close>

theorem seal_nonces_never_repeat:
  assumes "for_session cs psk transcript sid role = Ok c" "length sid = 16"
  shows "distinct (accepted_keys (seal_step cs) c ops) \<and> inj record_nonce"
proof
  show "distinct (accepted_keys (seal_step cs) c ops)"
    by (rule seal_once.accepted_distinct) (rule for_session_inv [OF assms])
  show "inj record_nonce" by (auto simp: inj_def record_nonce_def be64.enc_inject)
qed

text \<open>
  Along any run of a session: its counters stay in range, \<open>open\<close> never panics, and the session is
  closed exactly when the number of forged records has reached the limit; once it is closed every seal
  and every open is refused with \<open>AuthenticationLimit\<close> and changes nothing.
\<close>

theorem session_failure_limit:
  assumes "for_session cs psk transcript sid role = Ok c0" "length sid = 16"
    and "c = foldl (session_step cs) c0 ops"
  shows "session_inv c \<and> record_open cs c r \<noteq> None \<and>
    (exhausted c = (unat (authentication_failures c) = 2 ^ 24)) \<and>
    (if exhausted c then seal cs c p = (c, Err AuthenticationLimit) \<and>
       record_open cs c r = Some (c, Err AuthenticationLimit) else True)"
proof -
  have inv: "session_inv c"
    unfolding assms(3) by (rule session.run_inv) (rule for_session_inv [OF assms(1,2)])
  then have "replay_ok (received c)" by (simp add: session_inv_def)
  then have "record_open cs c r \<noteq> None"
    by (cases rule: record_open_cases [where cs = cs and r = r]) simp_all
  moreover have "exhausted c \<Longrightarrow> record_open cs c r = Some (c, Err AuthenticationLimit)"
    by (simp add: record_open_def open_rejects_shape_def)
  ultimately show ?thesis using inv by (auto simp: session_inv_def seal_def)
qed

section \<open>Round trip\<close>

fun seal_all :: "('k, 'm) crypto_suite_scheme \<Rightarrow> 'k SessionCrypto \<Rightarrow> bytes list \<Rightarrow> (bytes, SessionCryptoError) result list" where
  "seal_all cs c [] = []"
| "seal_all cs c (p # ps) = (case seal cs c p of (c', r) \<Rightarrow> r # seal_all cs c' ps)"

fun open_all :: "('k, 'm) crypto_suite_scheme \<Rightarrow> 'k SessionCrypto \<Rightarrow> bytes list \<Rightarrow> (bytes, SessionCryptoError) result list option" where
  "open_all cs c [] = Some []"
| "open_all cs c (r # rs) = (case record_open cs c r of None \<Rightarrow> None
     | Some (c', p) \<Rightarrow> map_option ((#) p) (open_all cs c' rs))"

definition sealed_as :: "('k, 'm) crypto_suite_scheme \<Rightarrow> 'k \<Rightarrow> bytes \<Rightarrow> u8 \<Rightarrow> u64 \<Rightarrow> bytes \<Rightarrow> bytes \<Rightarrow> bool" where
  "sealed_as cs k sid d s p r \<longleftrightarrow> length p \<le> MAX_RECORD_PLAINTEXT \<and> unat s < 2 ^ 48 \<and>
     (\<exists>body. aead_seal cs k (record_nonce s) (record_header sid d s) p = Some body \<and> r = record_header sid d s @ body)"

lemma seal_all_nth:
  assumes "seal_all cs c ps = map Ok rs" "i < length ps" "unat (next_sequence c) = n"
  shows "n + i < 2 ^ 48 \<and> i < length rs \<and> sealed_as cs (send_key c) (session_id c) (send_direction c) (word_of_nat (n + i)) (ps ! i) (rs ! i)"
  using assms
proof (induction ps arbitrary: c rs i n)
  case (Cons p ps)
  obtain c' q where s: "seal cs c p = (c', q)" by force
  with Cons.prems(1) obtain r rs' where rs: "rs = r # rs'" "q = Ok r" "seal_all cs c' ps = map Ok rs'"
    by (auto simp: map_eq_Cons_conv)
  note ok = seal_ok [OF s [unfolded rs(2)]]
  have n: "unat (next_sequence c') = n + 1" "n < 2 ^ 48"
    using next_sequence_succ [OF ok(4)] ok(2) Cons.prems(3) by auto
  have nw: "word_of_nat n = next_sequence c" using Cons.prems(3) by auto
  show ?case
  proof (cases i)
    case 0
    then show ?thesis using rs ok Cons.prems(3) n(2) by (simp add: sealed_as_def nw)
  next
    case (Suc j)
    then show ?thesis using Cons.IH [OF rs(3) _ n(1), of j] Cons.prems(2) rs(1) ok(2) by simp
  qed
qed simp

lemma open_sealed:
  assumes "suite_ok cs" "sealed_as cs (receive_key h) (session_id h) d s p r"
    and "length (session_id h) = 16" "d \<noteq> send_direction h" "d \<le> 1" "\<not> exhausted h"
    and "window_rel (received h) v" "spec_admits v (unat s)"
  shows "\<exists>w. record_open cs h r = Some (h\<lparr>received := w\<rparr>, Ok p) \<and> window_rel w (spec_insert v (unat s))"
proof -
  obtain body where body: "aead_seal cs (receive_key h) (record_nonce s) (record_header (session_id h) d s) p = Some body"
      and r: "r = record_header (session_id h) d s @ body" and p: "length p \<le> MAX_RECORD_PLAINTEXT"
    using assms(2) by (auto simp: sealed_as_def)
  have lb: "length body = length p + TAG_LEN" "aead_open cs (receive_key h) (record_nonce s) (record_header (session_id h) d s) body = Some p"
    using assms(1) body by (auto simp: suite_ok_def)
  note hdr = record_header_fields [OF assms(3), of d s]
  have "open_rejects_shape h r = None"
    using assms(4-6) p lb(1) by (simp add: open_rejects_shape_def r hdr RECORD_HEADER_LEN_def not_less)
  moreover obtain w where w: "window_insert (received h) s = Some w" "window_rel w (spec_insert v (unat s))"
    using window_insert_refines [OF assms(7,8)] by blast
  moreover have "\<not> window_contains (received h) s" using window_contains_refines [OF assms(7)] assms(8) by simp
  ultimately show ?thesis
    using lb(2) by (auto simp: record_open_def r hdr be_dec_enc RECORD_HEADER_LEN_def)
qed

lemma open_all_delivers:
  assumes ok: "suite_ok cs" and len: "length (session_id h) = 16" and d: "d \<noteq> send_direction h" "d \<le> 1"
    and live: "\<not> exhausted h"
    and recs: "\<And>i. i \<in> set order \<Longrightarrow> Suc i < 2 ^ 48 \<and>
       sealed_as cs (receive_key h) (session_id h) d (word_of_nat (Suc i)) (ps ! i) (rs ! i)"
    and rel: "window_rel (received h) v" and new: "\<And>i. i \<in> set order \<Longrightarrow> Suc i \<notin> snd v \<and> fst v < Suc i + 4096"
    and order: "distinct order" "sorted_wrt (\<lambda>i j. i < j + 4096) order"
  shows "open_all cs h (map (nth rs) order) = Some (map (\<lambda>i. Ok (ps ! i)) order)"
  using len d live recs rel new order
proof (induction order arbitrary: h v)
  case (Cons i "is")
  let ?s = "word_of_nat (Suc i) :: u64"
  have i: "Suc i < 2 ^ 48" using Cons.prems(5) by simp
  then have us: "unat ?s = Suc i" by (simp only: unat_of_nat) simp
  have adm: "spec_admits v (unat ?s)" unfolding us using Cons.prems(7) [of i] i by (simp add: spec_admits_def)
  have "sealed_as cs (receive_key h) (session_id h) d ?s (ps ! i) (rs ! i)" using Cons.prems(5) [of i] by simp
  from open_sealed [OF ok this Cons.prems(1-4) Cons.prems(6) adm] obtain w where
    w: "record_open cs h (rs ! i) = Some (h\<lparr>received := w\<rparr>, Ok (ps ! i))" "window_rel w (spec_insert v (Suc i))"
    unfolding us by blast
  have new': "Suc j \<notin> snd (spec_insert v (Suc i)) \<and> fst (spec_insert v (Suc i)) < Suc j + 4096" if "j \<in> set is" for j
    using Cons.prems(7) [of j] Cons.prems(8,9) that by (auto simp: spec_insert_def)
  have "open_all cs (h\<lparr>received := w\<rparr>) (map (nth rs) is) = Some (map (\<lambda>i. Ok (ps ! i)) is)"
    by (rule Cons.IH [where v = "spec_insert v (Suc i)"]) (use Cons.prems w(2) new' in auto)
  then show ?case by (simp add: w(1))
qed simp

lemma peer_keys:
  assumes "for_session cs psk t sid role = Ok c" "for_session cs psk t sid role' = Ok h" "role \<noteq> role'"
  shows "send_key c = receive_key h"
  using assms by (cases role; cases role') (auto simp: for_session_def try_bind_eq_Ok)

lemma sealed_delivery:
  assumes "suite_ok cs" "length sid = 16" "role \<noteq> role'"
    and c: "for_session cs psk transcript sid role = Ok c"
    and h: "for_session cs psk transcript sid role' = Ok h"
    and sealed: "seal_all cs c ps = map Ok rs"
    and order: "distinct order" "set order \<subseteq> {..<length ps}" "sorted_wrt (\<lambda>i j. i < j + 4096) order"
  shows "open_all cs h (map (nth rs) order) = Some (map (\<lambda>i. Ok (ps ! i)) order)"
proof (rule open_all_delivers [OF assms(1), where d = "send_direction c" and v = "(0, {})"])
  have dirs: "send_direction c \<noteq> send_direction h" "send_direction c \<le> 1"
    using for_session_fields(6) [OF c] for_session_fields(6) [OF h] assms(3) by (cases role; cases role'; simp)+
  then show "send_direction c \<noteq> send_direction h" "send_direction c \<le> 1" by simp_all
  fix i assume "i \<in> set order"
  then have i: "i < length ps" using order(2) by auto
  have "unat (next_sequence c) = 1" by (simp add: for_session_fields(2) [OF c])
  from seal_all_nth [OF sealed i this] show "Suc i < 2 ^ 48 \<and>
       sealed_as cs (receive_key h) (session_id h) (send_direction c) (word_of_nat (Suc i)) (ps ! i) (rs ! i)"
    using peer_keys [OF c h assms(3)] for_session_fields(1) [OF c] for_session_fields(1) [OF h]
    by simp
qed (use for_session_fields [OF h] assms window_default_rel in auto)

text \<open>
  Whatever one end of a session seals, the other end opens to the same plaintexts, with records
  lost at will and reordered by fewer than 4096 positions.
\<close>

theorem sealed_records_are_delivered:
  assumes "suite_ok cs" "length sid = 16" "role \<noteq> role'"
    and c: "for_session cs psk transcript sid role = Ok c"
    and h: "for_session cs psk transcript sid role' = Ok h"
    and sealed: "seal_all cs c ps = map Ok rs"
    and order: "distinct order" "set order \<subseteq> {..<length ps}" "sorted_wrt (\<lambda>i j. i < j + 4096) order"
  shows "open_all cs h (map (nth rs) order) = Some (map (\<lambda>i. Ok (ps ! i)) order)"
  by (rule sealed_delivery) (rule assms)+

text \<open>
  C23. A record reflected to the end that sealed it is refused, and no refused record (reflected,
  replayed, malformed or forged) moves the replay window or the sending sequence.
\<close>

theorem reflected_and_refused_records_are_inert:
  assumes "session_inv c" "seal cs c p = (c1, Ok r)" "suite_ok cs" "record_open cs c q = Some (c2, Err e)"
  shows "record_open cs c r = Some (c, Err Open) \<and> received c2 = received c \<and> next_sequence c2 = next_sequence c"
proof
  obtain body where body: "r = record_header (session_id c) (send_direction c) (next_sequence c) @ body"
      "length body = length p + TAG_LEN" and p: "length p \<le> MAX_RECORD_PLAINTEXT" "\<not> exhausted c"
    using seal_ok [OF assms(2)] assms(3) unfolding suite_ok_def by blast
  have sid: "length (session_id c) = 16" using assms(1) by (simp add: session_inv_def)
  have "open_rejects_shape c r = Some Open"
    using body p by (simp add: open_rejects_shape_def record_header_fields [OF sid] RECORD_HEADER_LEN_def)
  then show "record_open cs c r = Some (c, Err Open)" by (simp add: record_open_def)
  show "received c2 = received c \<and> next_sequence c2 = next_sequence c"
    using assms(4) by (auto simp: record_open_def Let_def split: option.splits if_splits)
qed

section \<open>Witnesses\<close>

text \<open>A concrete suite: no secrecy, a 16-byte tag taken from nonce and header, checked on opening.\<close>

definition demo_tag :: "bytes \<Rightarrow> bytes \<Rightarrow> bytes" where
  "demo_tag n a = take 16 (rev a @ n @ replicate 16 0)"

definition demo_suite :: "bytes crypto_suite" where
  "demo_suite = \<lparr>hmac_sha256 = (\<lambda>k m. take 32 (k @ rev m @ replicate 32 0)), aead_key = Some,
     aead_seal = (\<lambda>k n a p. Some (p @ demo_tag n a)),
     aead_open = (\<lambda>k n a c. if drop (length c - 16) c = demo_tag n a then Some (take (length c - 16) c) else None)\<rparr>"

lemma demo_suite_ok: "suite_ok demo_suite"
  by (auto simp: suite_ok_def demo_suite_def demo_tag_def TAG_LEN_def min_def)

definition demo_end :: "SessionRole \<Rightarrow> bytes SessionCrypto" where
  "demo_end role = projr (for_session demo_suite [1, 2] [3] (replicate 16 7) role)"

lemma demo_end_ok: "for_session demo_suite [1, 2] [3] (replicate 16 7) role = Ok (demo_end role)"
  by (cases role) (simp_all add: demo_end_def for_session_def session_key_def demo_suite_def)

definition demo_record :: bytes where
  "demo_record = projr (snd (seal demo_suite (demo_end Client) [9]))"

lemma demo_record_sealed:
  "seal demo_suite (demo_end Client) [9] = ((demo_end Client)\<lparr>next_sequence := 2\<rparr>, Ok demo_record)"
  by (simp add: demo_record_def seal_def demo_suite_def for_session_fields [OF demo_end_ok] Let_def
      MAX_RECORD_PLAINTEXT_def MAX_RECORD_SEQUENCE_def push_bit_eq_mult)

theorem records_accepted_at_most_once_witness:
  "distinct (accepted_keys (open_step demo_suite) (demo_end Host) [OpenOp demo_record, OpenOp demo_record])"
  using records_accepted_at_most_once [OF demo_end_ok [of Host], of "[OpenOp demo_record, OpenOp demo_record]"]
  by simp

theorem seal_nonces_never_repeat_witness:
  "distinct (accepted_keys (seal_step demo_suite) (demo_end Client) [SealOp [9], OpenOp [1], SealOp [9]]) \<and> inj record_nonce"
  using seal_nonces_never_repeat [OF demo_end_ok [of Client], of "[SealOp [9], OpenOp [1], SealOp [9]]"]
  by simp

theorem session_failure_limit_witness:
  "record_open demo_suite (foldl (session_step demo_suite) (demo_end Host) [OpenOp demo_record]) demo_record \<noteq> None"
proof -
  have "length (replicate 16 (7 :: u8)) = 16" by simp
  from session_failure_limit [OF demo_end_ok [of Host] this refl, of "[OpenOp demo_record]" demo_record]
  show ?thesis by blast
qed

theorem sealed_records_are_delivered_witness:
  "open_all demo_suite (demo_end Host) [demo_record] = Some [Ok [9]]"
  using sealed_records_are_delivered [OF demo_suite_ok _ _ demo_end_ok [of Client] demo_end_ok [of Host],
      of "[[9]]" "[demo_record]" "[0]"]
  by (simp add: demo_record_sealed)

theorem reflected_and_refused_records_are_inert_witness:
  "record_open demo_suite (demo_end Client) demo_record = Some (demo_end Client, Err Open)"
  using reflected_and_refused_records_are_inert [OF for_session_inv [OF demo_end_ok] demo_record_sealed
      demo_suite_ok, of "[]" "demo_end Client" ShortPacket]
  by (simp add: record_open_def open_rejects_shape_def for_session_fields [OF demo_end_ok] crypto_consts)

end
