(* ===== verification/Session_Auth.thy ===== *)
theory Session_Auth
  imports Session_Crypto
begin

text \<open>
  Authenticated session establishment (\<open>remote_core/src/session_auth.rs\<close>, message types in
  \<open>protocol/src/session_auth.rs\<close>): the client's and the server's handshake state machines.

  HMAC and the AEAD come from the \<open>crypto_suite\<close> of \<open>Session_Crypto\<close>.  The two clocks of an
  \<open>AuthTime\<close> are naturals in nanoseconds, and the random bytes that a step draws are arguments of that
  step.  The socket address of a peer is a type parameter.
\<close>

section \<open>Messages\<close>

definition AUTH_VERSION :: u32 where "AUTH_VERSION = 3"
definition AUTH_SUITE :: u16 where "AUTH_SUITE = 1"

record Transcript =
  t_version :: u32
  t_suite :: u16
  t_client_nonce :: bytes
  t_server_nonce :: bytes
  t_session_id :: bytes

datatype RejectCode = RejProtocolMismatch | RejBusy | RejCapacity | RejExpired

datatype HandshakeMessage =
  Hello (h_version: u32) (h_suite: u16) (h_client_nonce: bytes) (h_mac: bytes)
| Challenge Transcript bytes
| ClientFinish Transcript bytes
| ServerFinish Transcript bytes
| Reject u32 bytes RejectCode bytes

datatype AuthError =
  InvalidMac | ProtocolMismatch | WrongFlight | Expired | Rejected RejectCode | Crypto

section \<open>Local time\<close>

record AuthTime =
  monotonic :: nat
  wall :: nat

definition SECOND :: nat where "SECOND = 1000000000"
definition HANDSHAKE_LIFETIME :: nat where "HANDSHAKE_LIFETIME = 6 * SECOND"
definition MAX_HANDSHAKES :: nat where "MAX_HANDSHAKES = 32"

definition fresh_at :: "AuthTime \<Rightarrow> AuthTime \<Rightarrow> bool" where
  "fresh_at st now =
     (if monotonic now < monotonic st then False
      else if wall now < wall st then False
      else let mono = monotonic now - monotonic st; wl = wall now - wall st in
        mono < HANDSHAKE_LIFETIME \<and> wl < HANDSHAKE_LIFETIME \<and> max mono wl - min mono wl \<le> SECOND)"

section \<open>Authenticated byte strings\<close>

definition transcript_bytes :: "Transcript \<Rightarrow> bytes" where
  "transcript_bytes t = to_be 4 (t_version t) @ to_be 2 (t_suite t) @ t_client_nonce t @
     t_server_nonce t @ t_session_id t"

definition hello_bytes :: "u32 \<Rightarrow> u16 \<Rightarrow> bytes \<Rightarrow> bytes" where
  "hello_bytes version suite nonce = to_be 4 version @ to_be 2 suite @ nonce"

definition reject_code_byte :: "RejectCode \<Rightarrow> u8" where
  "reject_code_byte code = (case code of RejProtocolMismatch \<Rightarrow> 0 | RejBusy \<Rightarrow> 1 | RejCapacity \<Rightarrow> 2 | RejExpired \<Rightarrow> 3)"

definition reject_bytes :: "u32 \<Rightarrow> bytes \<Rightarrow> RejectCode \<Rightarrow> bytes" where
  "reject_bytes version nonce code = hello_bytes version AUTH_SUITE nonce @ [reject_code_byte code]"

definition signer :: "bytes \<Rightarrow> bytes \<Rightarrow> bytes" where
  "signer label bs = byte_str ''RemotePlay/authenticated-session/v3'' @ [0] @ label @ [0] @ bs"

definition tag :: "('k, 'm) crypto_suite_scheme \<Rightarrow> bytes \<Rightarrow> string \<Rightarrow> bytes \<Rightarrow> bytes" where
  "tag cs key label bs = hmac_sha256 cs key (signer (byte_str label) bs)"

definition verify :: "('k, 'm) crypto_suite_scheme \<Rightarrow> bytes \<Rightarrow> string \<Rightarrow> bytes \<Rightarrow> bytes \<Rightarrow> (unit, AuthError) result" where
  "verify cs key label bs mac =
     (if hmac_sha256 cs key (signer (byte_str label) bs) = mac then Ok () else Err InvalidMac)"

definition check_version :: "Transcript \<Rightarrow> (unit, AuthError) result" where
  "check_version t = (if t_version t = AUTH_VERSION \<and> t_suite t = AUTH_SUITE then Ok () else Err ProtocolMismatch)"

section \<open>The client\<close>

record ClientHandshake =
  ch_nonce :: bytes
  ch_started :: AuthTime
  ch_transcript :: "Transcript option"
  ch_finished :: bool

definition client_new :: "bytes \<Rightarrow> AuthTime \<Rightarrow> ClientHandshake" where
  "client_new random now = \<lparr>ch_nonce = random, ch_started = now, ch_transcript = None, ch_finished = False\<rparr>"

definition client_message :: "('k, 'm) crypto_suite_scheme \<Rightarrow> bytes \<Rightarrow> ClientHandshake \<Rightarrow> HandshakeMessage" where
  "client_message cs key c = (case ch_transcript c of
     Some t \<Rightarrow> ClientFinish t (tag cs key ''client-finish'' (transcript_bytes t))
   | None \<Rightarrow> Hello AUTH_VERSION AUTH_SUITE (ch_nonce c)
       (tag cs key ''client-hello'' (hello_bytes AUTH_VERSION AUTH_SUITE (ch_nonce c))))"

definition client_receive :: "('k, 'm) crypto_suite_scheme \<Rightarrow> bytes \<Rightarrow> ClientHandshake \<Rightarrow> HandshakeMessage \<Rightarrow> AuthTime \<Rightarrow>
    ClientHandshake \<times> ('k SessionCrypto option, AuthError) result" where
  "client_receive cs key c message now =
     (if ch_finished c then (c, Err WrongFlight)
      else if \<not> fresh_at (ch_started c) now then (c, Err Expired)
      else (case message of
        Challenge t mac \<Rightarrow>
          if t_client_nonce t \<noteq> ch_nonce c then (c, Err WrongFlight)
          else (case verify cs key ''host-challenge'' (transcript_bytes t) mac of
            Inl e \<Rightarrow> (c, Err e)
          | Inr _ \<Rightarrow> (case check_version t of
              Inl e \<Rightarrow> (c, Err e)
            | Inr _ \<Rightarrow>
              if (case ch_transcript c of None \<Rightarrow> False | Some old \<Rightarrow> old \<noteq> t) then (c, Err WrongFlight)
              else (c\<lparr>ch_transcript := Some t\<rparr>, Ok None)))
      | ServerFinish t mac \<Rightarrow>
          if ch_transcript c \<noteq> Some t then (c, Err WrongFlight)
          else (case verify cs key ''host-finish'' (transcript_bytes t) mac of
            Inl e \<Rightarrow> (c, Err e)
          | Inr _ \<Rightarrow> (case for_session cs key (transcript_bytes t) (t_session_id t) Client of
              Inl _ \<Rightarrow> (c, Err Crypto)
            | Inr crypto \<Rightarrow> (c\<lparr>ch_finished := True\<rparr>, Ok (Some crypto))))
      | Reject version client_nonce code mac \<Rightarrow>
          if client_nonce \<noteq> ch_nonce c then (c, Err WrongFlight)
          else (case verify cs key ''host-reject'' (reject_bytes version client_nonce code) mac of
            Inl e \<Rightarrow> (c, Err e)
          | Inr _ \<Rightarrow> if code = RejProtocolMismatch then (c, Err ProtocolMismatch) else (c, Err (Rejected code)))
      | _ \<Rightarrow> (c, Err WrongFlight)))"

section \<open>The server\<close>

record Entry =
  e_transcript :: Transcript
  e_started :: AuthTime
  e_completed :: bool

type_synonym 'a ServerHandshake = "('a \<times> Entry) list"

record 'k EstablishedSession =
  es_session_id :: bytes
  es_client_nonce :: bytes
  es_crypto :: "'k SessionCrypto"

record 'k ServerReply =
  sr_message :: HandshakeMessage
  sr_established :: "'k EstablishedSession option"

definition server_clear :: "'a ServerHandshake \<Rightarrow> 'a ServerHandshake" where
  "server_clear s = []"

definition server_forget :: "'a \<Rightarrow> 'a ServerHandshake \<Rightarrow> 'a ServerHandshake" where
  "server_forget addr s = AList.delete addr s"

definition server_expire :: "AuthTime \<Rightarrow> 'a ServerHandshake \<Rightarrow> 'a ServerHandshake" where
  "server_expire now s = filter (\<lambda>(_, entry). fresh_at (e_started entry) now) s"

definition server_reject :: "('k, 'm) crypto_suite_scheme \<Rightarrow> bytes \<Rightarrow> bytes \<Rightarrow> RejectCode \<Rightarrow> 'k ServerReply" where
  "server_reject cs key nonce code =
     \<lparr>sr_message = Reject AUTH_VERSION nonce code (tag cs key ''host-reject'' (reject_bytes AUTH_VERSION nonce code)),
      sr_established = None\<rparr>"

definition challenge_reply :: "('k, 'm) crypto_suite_scheme \<Rightarrow> bytes \<Rightarrow> Transcript \<Rightarrow> 'k ServerReply" where
  "challenge_reply cs key t =
     \<lparr>sr_message = Challenge t (tag cs key ''host-challenge'' (transcript_bytes t)), sr_established = None\<rparr>"

definition receive_hello :: "('k, 'm) crypto_suite_scheme \<Rightarrow> bytes \<Rightarrow> 'a ServerHandshake \<Rightarrow> u32 \<Rightarrow> u16 \<Rightarrow> bytes \<Rightarrow> bytes \<Rightarrow>
    'a \<Rightarrow> AuthTime \<Rightarrow> bool \<Rightarrow> bytes \<times> bytes \<Rightarrow> 'a ServerHandshake \<times> ('k ServerReply, AuthError) result" where
  "receive_hello cs key s version suite client_nonce mac addr now allow_new random =
     (case verify cs key ''client-hello'' (hello_bytes version suite client_nonce) mac of
        Inl e \<Rightarrow> (s, Err e)
      | Inr _ \<Rightarrow>
        if version \<noteq> AUTH_VERSION \<or> suite \<noteq> AUTH_SUITE
        then (s, Ok (server_reject cs key client_nonce RejProtocolMismatch))
        else (case map_of s addr of
          Some entry \<Rightarrow>
            if t_client_nonce (e_transcript entry) = client_nonce
            then (s, Ok (challenge_reply cs key (e_transcript entry)))
            else (s, Ok (server_reject cs key client_nonce RejBusy))
        | None \<Rightarrow>
            if list_ex (\<lambda>(_, entry). t_client_nonce (e_transcript entry) = client_nonce) s
            then (s, Ok (server_reject cs key client_nonce RejBusy))
            else if \<not> allow_new then (s, Ok (server_reject cs key client_nonce RejBusy))
            else if length s \<ge> MAX_HANDSHAKES then (s, Ok (server_reject cs key client_nonce RejCapacity))
            else let t = \<lparr>t_version = AUTH_VERSION, t_suite = AUTH_SUITE, t_client_nonce = client_nonce,
                          t_server_nonce = fst random, t_session_id = snd random\<rparr> in
              (AList.update addr \<lparr>e_transcript = t, e_started = now, e_completed = False\<rparr> s,
               Ok (challenge_reply cs key t))))"

definition receive_finish :: "('k, 'm) crypto_suite_scheme \<Rightarrow> bytes \<Rightarrow> 'a ServerHandshake \<Rightarrow> Transcript \<Rightarrow> bytes \<Rightarrow>
    'a \<Rightarrow> bool \<Rightarrow> 'a ServerHandshake \<times> ('k ServerReply, AuthError) result" where
  "receive_finish cs key s t mac addr allow_new =
     (case check_version t of
        Inl e \<Rightarrow> (s, Err e)
      | Inr _ \<Rightarrow> (case verify cs key ''client-finish'' (transcript_bytes t) mac of
          Inl e \<Rightarrow> (s, Err e)
        | Inr _ \<Rightarrow> (case map_of s addr of
            None \<Rightarrow> (s, Ok (server_reject cs key (t_client_nonce t) RejExpired))
          | Some entry \<Rightarrow>
            if e_transcript entry \<noteq> t then (s, Err WrongFlight)
            else let reply = ServerFinish t (tag cs key ''host-finish'' (transcript_bytes t)) in
              if e_completed entry then (s, Ok \<lparr>sr_message = reply, sr_established = None\<rparr>)
              else if \<not> allow_new then (s, Ok (server_reject cs key (t_client_nonce t) RejBusy))
              else (case for_session cs key (transcript_bytes t) (t_session_id t) Host of
                Inl _ \<Rightarrow> (s, Err Crypto)
              | Inr crypto \<Rightarrow>
                (AList.update addr (entry\<lparr>e_completed := True\<rparr>) s,
                 Ok \<lparr>sr_message = reply, sr_established = Some \<lparr>es_session_id = t_session_id t,
                      es_client_nonce = t_client_nonce t, es_crypto = crypto\<rparr>\<rparr>)))))"

definition server_receive :: "('k, 'm) crypto_suite_scheme \<Rightarrow> bytes \<Rightarrow> 'a ServerHandshake \<Rightarrow> HandshakeMessage \<Rightarrow>
    'a \<Rightarrow> AuthTime \<Rightarrow> bool \<Rightarrow> bytes \<times> bytes \<Rightarrow> 'a ServerHandshake \<times> ('k ServerReply, AuthError) result" where
  "server_receive cs key s0 message addr now allow_new random =
     (let s = server_expire now s0 in
      case message of
        Hello version suite client_nonce mac \<Rightarrow>
          receive_hello cs key s version suite client_nonce mac addr now allow_new random
      | ClientFinish t mac \<Rightarrow> receive_finish cs key s t mac addr allow_new
      | _ \<Rightarrow> (s, Err WrongFlight))"

section \<open>Domain separation\<close>

definition transcript_wf :: "Transcript \<Rightarrow> bool" where
  "transcript_wf t \<longleftrightarrow> length (t_client_nonce t) = 16 \<and> length (t_server_nonce t) = 16 \<and> length (t_session_id t) = 16"

lemma split_at_zero:
  "x @ (0 :: u8) # xs = y @ 0 # ys \<Longrightarrow> 0 \<notin> set x \<Longrightarrow> 0 \<notin> set y \<Longrightarrow> x = y \<and> xs = ys"
  by (induction x arbitrary: y) (auto simp: Cons_eq_append_conv)

lemma signer_inject:
  "0 \<notin> set l \<Longrightarrow> 0 \<notin> set l' \<Longrightarrow> signer l b = signer l' b' \<longleftrightarrow> l = l' \<and> b = b'"
  by (auto simp: signer_def dest: split_at_zero)

lemma to_be_append_inject:
  "length a = length a' \<Longrightarrow> a @ b = a' @ b' \<longleftrightarrow> a = a' \<and> b = b'"
  by simp

lemma transcript_bytes_inject:
  assumes "transcript_wf t" "transcript_wf u"
  shows "transcript_bytes t = transcript_bytes u \<longleftrightarrow> t = u"
  using assms by (cases t; cases u) (simp add: transcript_bytes_def transcript_wf_def be32.enc_inject be16.enc_inject)

definition flight_labels :: "string list" where
  "flight_labels = [''client-hello'', ''client-finish'', ''host-challenge'', ''host-finish'', ''host-reject'']"

lemma flight_label_zero: "l \<in> set flight_labels \<Longrightarrow> 0 \<notin> set (byte_str l)"
  by (auto simp: flight_labels_def byte_str_def)

lemma byte_str_inject:
  "byte_str l = byte_str l' \<longleftrightarrow> l = l'"
proof -
  have lt: "(of_char c :: nat) < 256" for c by (cases c) (simp add: of_char_def)
  have "inj (\<lambda>c. word_of_nat (of_char c) :: u8)"
  proof (rule injI)
    fix c d :: char
    assume "(word_of_nat (of_char c) :: u8) = word_of_nat (of_char d)"
    then have "(of_char c :: nat) mod 256 = of_char d mod 256" by (simp add: word_of_nat_eq_iff take_bit_eq_mod)
    then show "c = d" using lt [of c] lt [of d] by simp
  qed
  then show ?thesis by (simp add: byte_str_def inj_map_eq_map)
qed

text \<open>
  What is authenticated is unambiguous: two messages of the protocol put the same bytes under the MAC
  only if they are of the same flight and carry the same transcript (or the same hello or reject fields).
\<close>

theorem handshake_domain_separation:
  assumes "l \<in> set flight_labels" "l' \<in> set flight_labels"
    and "transcript_wf t" "transcript_wf t'" "length n = 16" "length n' = 16"
  shows "(signer (byte_str l) b = signer (byte_str l') b') = (l = l' \<and> b = b') \<and>
    (transcript_bytes t = transcript_bytes t') = (t = t') \<and>
    (hello_bytes v s n = hello_bytes v' s' n') = (v = v' \<and> s = s' \<and> n = n') \<and>
    (reject_bytes v n code = reject_bytes v' n' code') = (v = v' \<and> n = n' \<and> code = code')"
proof (intro conjI)
  show "(signer (byte_str l) b = signer (byte_str l') b') = (l = l' \<and> b = b')"
    using assms(1,2) by (simp add: signer_inject flight_label_zero byte_str_inject)
  show "(transcript_bytes t = transcript_bytes t') = (t = t')"
    using assms(3,4) by (rule transcript_bytes_inject)
  show "(hello_bytes v s n = hello_bytes v' s' n') = (v = v' \<and> s = s' \<and> n = n')"
    by (simp add: hello_bytes_def be32.enc_inject be16.enc_inject)
  show "(reject_bytes v n code = reject_bytes v' n' code') = (v = v' \<and> n = n' \<and> code = code')"
    by (cases code; cases code')
      (simp_all add: reject_bytes_def hello_bytes_def reject_code_byte_def be32.enc_inject)
qed

theorem handshake_domain_separation_witness:
  "signer (byte_str ''host-finish'') [1] \<noteq> signer (byte_str ''client-finish'') [1]"
  using handshake_domain_separation [of "''host-finish''" "''client-finish''"
      "\<lparr>t_version = 3, t_suite = 1, t_client_nonce = replicate 16 0, t_server_nonce = replicate 16 1, t_session_id = replicate 16 2\<rparr>"
      "\<lparr>t_version = 3, t_suite = 1, t_client_nonce = replicate 16 0, t_server_nonce = replicate 16 1, t_session_id = replicate 16 2\<rparr>"
      "replicate 16 0" "replicate 16 0" "[1]" "[1]"]
  by (simp add: flight_labels_def transcript_wf_def)

section \<open>The table of pending handshakes\<close>

definition column :: "(Transcript \<Rightarrow> bytes) \<Rightarrow> 'a ServerHandshake \<Rightarrow> bytes list" where
  "column f s = map (\<lambda>(_, e). f (e_transcript e)) s"

abbreviation nonces :: "'a ServerHandshake \<Rightarrow> bytes list" where
  "nonces \<equiv> column t_client_nonce"

abbreviation session_ids :: "'a ServerHandshake \<Rightarrow> bytes list" where
  "session_ids \<equiv> column t_session_id"

definition server_inv :: "'a ServerHandshake \<Rightarrow> bool" where
  "server_inv s \<longleftrightarrow> hash_wf s \<and> length s \<le> MAX_HANDSHAKES \<and> distinct (nonces s) \<and>
     (\<forall>(a, e) \<in> set s. check_version (e_transcript e) = Ok ())"

lemma update_absent: "map_of s a = None \<Longrightarrow> AList.update a v s = s @ [(a, v)]"
  by (induction s) (auto split: if_splits)

lemma column_update:
  "map_of s a = Some e \<Longrightarrow> e_transcript e' = e_transcript e \<Longrightarrow> column f (AList.update a e' s) = column f s"
  by (induction s) (auto simp: column_def split: if_splits)

lemma server_inv_filter: "server_inv s \<Longrightarrow> server_inv (filter P s)"
  by (auto simp: server_inv_def hash_wf_def column_def distinct_map_filter
      intro: order_trans [OF length_filter_le])

lemma server_inv_expire: "server_inv s \<Longrightarrow> server_inv (server_expire now s)"
  by (simp add: server_expire_def server_inv_filter)

lemma server_inv_forget: "server_inv s \<Longrightarrow> server_inv (server_forget a s)"
  by (simp add: server_forget_def AList.delete_eq server_inv_filter)

lemma server_inv_insert:
  assumes "server_inv s" "map_of s a = None" "t_client_nonce (e_transcript e) \<notin> set (nonces s)"
    "length s < MAX_HANDSHAKES" "check_version (e_transcript e) = Ok ()"
  shows "server_inv (AList.update a e s)"
  using assms hash.wf_ins [of s a e]
  by (auto simp: server_inv_def update_absent column_def)

lemma server_inv_complete:
  assumes "server_inv s" "map_of s a = Some e" "e_transcript e' = e_transcript e"
  shows "server_inv (AList.update a e' s)"
proof -
  have "check_version (e_transcript e) = Ok ()" using assms(1,2) by (auto simp: server_inv_def dest: map_of_SomeD)
  then show ?thesis
    using assms hash.wf_ins [of s a e'] hash.size_ins_old [of s a e e'] set_update_subset [of a e' s]
    by (fastforce simp: server_inv_def column_update)
qed

lemma nonces_ex: "list_ex (\<lambda>(_, e). t_client_nonce (e_transcript e) = n) s \<longleftrightarrow> n \<in> set (nonces s)"
  by (induction s) (auto simp: column_def)

text \<open>What one message does to the table.\<close>

lemma receive_hello_cases:
  obtains "fst (receive_hello cs key s v su n mac addr now allow rnd) = s"
  | t where "map_of s addr = None" "n \<notin> set (nonces s)" "length s < MAX_HANDSHAKES" "allow"
      "t = \<lparr>t_version = AUTH_VERSION, t_suite = AUTH_SUITE, t_client_nonce = n, t_server_nonce = fst rnd, t_session_id = snd rnd\<rparr>"
      "fst (receive_hello cs key s v su n mac addr now allow rnd) =
         AList.update addr \<lparr>e_transcript = t, e_started = now, e_completed = False\<rparr> s"
proof -
  let ?t = "\<lparr>t_version = AUTH_VERSION, t_suite = AUTH_SUITE, t_client_nonce = n, t_server_nonce = fst rnd, t_session_id = snd rnd\<rparr>"
  have "fst (receive_hello cs key s v su n mac addr now allow rnd) = s \<or>
      map_of s addr = None \<and> n \<notin> set (nonces s) \<and> length s < MAX_HANDSHAKES \<and> allow \<and>
      fst (receive_hello cs key s v su n mac addr now allow rnd) =
         AList.update addr \<lparr>e_transcript = ?t, e_started = now, e_completed = False\<rparr> s"
    unfolding receive_hello_def nonces_ex
    by (auto simp: Let_def split: sum.splits option.splits if_splits)
  then show ?thesis using that by blast
qed

lemma receive_hello_establishes_none:
  "snd (receive_hello cs key s v su n mac addr now allow rnd) = Ok r \<Longrightarrow> sr_established r = None"
  by (auto simp: receive_hello_def server_reject_def challenge_reply_def Let_def
      split: sum.splits option.splits if_splits)

lemma receive_finish_cases:
  obtains "fst (receive_finish cs key s t mac addr allow) = s"
      "\<And>r. snd (receive_finish cs key s t mac addr allow) = Ok r \<Longrightarrow> sr_established r = None"
  | e r es where "map_of s addr = Some e" "e_transcript e = t" "\<not> e_completed e" "allow"
      "check_version t = Ok ()" "mac = tag cs key ''client-finish'' (transcript_bytes t)"
      "receive_finish cs key s t mac addr allow = (AList.update addr (e\<lparr>e_completed := True\<rparr>) s, Ok r)"
      "r = \<lparr>sr_message = ServerFinish t (tag cs key ''host-finish'' (transcript_bytes t)), sr_established = Some es\<rparr>"
      "es_session_id es = t_session_id t" "for_session cs key (transcript_bytes t) (t_session_id t) Host = Ok (es_crypto es)"
proof (cases "check_version t = Ok () \<and> mac = tag cs key ''client-finish'' (transcript_bytes t) \<and> allow \<and>
    (\<exists>e cr. map_of s addr = Some e \<and> e_transcript e = t \<and> \<not> e_completed e \<and>
      for_session cs key (transcript_bytes t) (t_session_id t) Host = Ok cr)")
  case True
  then obtain e cr where "map_of s addr = Some e" "e_transcript e = t" "\<not> e_completed e"
    "for_session cs key (transcript_bytes t) (t_session_id t) Host = Ok cr" by blast
  then show ?thesis
    using True that(2) [of e _ "\<lparr>es_session_id = t_session_id t, es_client_nonce = t_client_nonce t, es_crypto = cr\<rparr>"]
    by (simp add: receive_finish_def verify_def tag_def Let_def)
next
  case False
  then have "fst (receive_finish cs key s t mac addr allow) = s \<and>
      (\<forall>r. snd (receive_finish cs key s t mac addr allow) = Ok r \<longrightarrow> sr_established r = None)"
    unfolding receive_finish_def verify_def tag_def server_reject_def Let_def
    by (auto split: sum.splits option.splits if_splits)
  then show ?thesis using that(1) by blast
qed

lemma server_receive_inv:
  assumes "server_inv s"
  shows "server_inv (fst (server_receive cs key s msg addr now allow rnd))"
proof -
  note inv = server_inv_expire [OF assms, of now]
  show ?thesis
  proof (cases msg)
    case (Hello v su n mac)
    show ?thesis
      by (rule receive_hello_cases [of cs key "server_expire now s" v su n mac addr now allow rnd])
        (use inv Hello in \<open>auto simp: server_receive_def Let_def check_version_def intro!: server_inv_insert\<close>)
  next
    case (ClientFinish t mac)
    show ?thesis
      by (rule receive_finish_cases [of cs key "server_expire now s" t mac addr allow])
        (use inv ClientFinish in \<open>auto simp: server_receive_def Let_def intro!: server_inv_complete\<close>)
  qed (use inv in \<open>simp_all add: server_receive_def Let_def\<close>)
qed

datatype 'a server_op =
  ReceiveOp bytes HandshakeMessage 'a AuthTime bool "bytes \<times> bytes"
| ClearOp | ForgetOp 'a | ExpireOp AuthTime

definition server_step :: "('k, 'm) crypto_suite_scheme \<Rightarrow> 'a ServerHandshake \<Rightarrow> 'a server_op \<Rightarrow> 'a ServerHandshake" where
  "server_step cs s x = (case x of
     ReceiveOp key msg addr now allow rnd \<Rightarrow> fst (server_receive cs key s msg addr now allow rnd)
   | ClearOp \<Rightarrow> server_clear s | ForgetOp a \<Rightarrow> server_forget a s | ExpireOp now \<Rightarrow> server_expire now s)"

interpretation handshakes: op_machine "server_step cs" server_inv
  by unfold_locales
    (auto simp: server_step_def server_receive_inv server_clear_def server_inv_forget server_inv_expire
      split: server_op.splits simp: server_inv_def [of "[]"] hash_wf_def column_def)

text \<open>
  Whatever messages arrive, from whatever addresses, at whatever times: the table holds at most 32
  pending handshakes, one per address and one per client nonce, all of the supported version, and after
  a message is handled none of them is older than the handshake lifetime on either clock.
\<close>

theorem server_table_invariant:
  "server_inv (foldl (server_step cs) [] ops) \<and>
   list_all (\<lambda>(a, e). fresh_at (e_started e) now \<or> e_started e = now)
     (fst (server_receive cs key (foldl (server_step cs) [] ops) msg addr now allow rnd))"
proof
  let ?s = "foldl (server_step cs) [] ops"
  let ?x = "server_expire now ?s"
  show "server_inv ?s" by (rule handshakes.run_inv) (simp add: server_inv_def hash_wf_def column_def)
  have fresh: "\<forall>(a, e) \<in> set ?x. fresh_at (e_started e) now" by (auto simp: server_expire_def)
  show "list_all (\<lambda>(a, e). fresh_at (e_started e) now \<or> e_started e = now) (fst (server_receive cs key ?s msg addr now allow rnd))"
  proof (cases msg)
    case (Hello v su n mac)
    show ?thesis
      by (rule receive_hello_cases [of cs key ?x v su n mac addr now allow rnd])
        (use fresh Hello in \<open>auto simp: server_receive_def Let_def update_absent list_all_iff\<close>)
  next
    case (ClientFinish t mac)
    have upd: "(a, e') \<in> set (AList.update addr (e\<lparr>e_completed := True\<rparr>) ?x) \<Longrightarrow> map_of ?x addr = Some e \<Longrightarrow>
        fresh_at (e_started e') now" for a e e'
      using fresh set_update_subset [of addr "e\<lparr>e_completed := True\<rparr>" ?x] by (fastforce dest: map_of_SomeD)
    show ?thesis
      by (rule receive_finish_cases [of cs key ?x t mac addr allow])
        (use fresh ClientFinish upd in \<open>auto simp: server_receive_def Let_def list_all_iff\<close>)
  qed (use fresh in \<open>auto simp: server_receive_def Let_def list_all_iff\<close>)
qed

section \<open>Each handshake establishes one session\<close>

definition established_id :: "('k ServerReply, AuthError) result \<Rightarrow> bytes option" where
  "established_id res = (case res of Inl _ \<Rightarrow> None | Inr r \<Rightarrow> map_option es_session_id (sr_established r))"

definition est_step :: "('k, 'm) crypto_suite_scheme \<Rightarrow> 'a ServerHandshake \<Rightarrow> 'a server_op \<Rightarrow> 'a ServerHandshake \<times> bytes option" where
  "est_step cs s x = (server_step cs s x, case x of
     ReceiveOp key msg addr now allow rnd \<Rightarrow> established_id (snd (server_receive cs key s msg addr now allow rnd))
   | _ \<Rightarrow> None)"

definition drawn :: "'a server_op \<Rightarrow> bytes list" where
  "drawn x = (case x of ReceiveOp _ _ _ _ _ rnd \<Rightarrow> [snd rnd] | _ \<Rightarrow> [])"

lemma est_step_cases:
  obtains (keep) P where "est_step cs s x = (filter P s, None)"
  | (start) P addr e where "map_of (filter P s) addr = None" "\<not> e_completed e"
      "t_session_id (e_transcript e) \<in> set (drawn x)" "est_step cs s x = (filter P s @ [(addr, e)], None)"
  | (finish) P addr e where "map_of (filter P s) addr = Some e" "\<not> e_completed e"
      "est_step cs s x = (AList.update addr (e\<lparr>e_completed := True\<rparr>) (filter P s), Some (t_session_id (e_transcript e)))"
proof (cases x)
  case (ReceiveOp key msg addr now allow rnd)
  define P where "P = (\<lambda>(_ :: 'a, entry :: Entry). fresh_at (e_started entry) now)"
  have ex: "server_expire now s = filter P s" by (simp add: server_expire_def P_def)
  note recv = est_step_def server_step_def server_receive_def established_id_def Let_def ex ReceiveOp
  show ?thesis
  proof (cases msg)
    case (Hello v su n mac)
    have none: "established_id (snd (receive_hello cs key (filter P s) v su n mac addr now allow rnd)) = None"
      using receive_hello_establishes_none [of cs key "filter P s" v su n mac addr now allow rnd]
      by (auto simp: established_id_def split: sum.splits)
    have est: "est_step cs s x = (fst (receive_hello cs key (filter P s) v su n mac addr now allow rnd), None)"
      by (simp add: est_step_def server_step_def server_receive_def Let_def ex ReceiveOp Hello none)
    show ?thesis
    proof (rule receive_hello_cases [of cs key "filter P s" v su n mac addr now allow rnd])
      assume "fst (receive_hello cs key (filter P s) v su n mac addr now allow rnd) = filter P s"
      then show ?thesis using keep [of P] est by simp
    next
      fix t assume a: "map_of (filter P s) addr = None"
        "t = \<lparr>t_version = AUTH_VERSION, t_suite = AUTH_SUITE, t_client_nonce = n, t_server_nonce = fst rnd, t_session_id = snd rnd\<rparr>"
        "fst (receive_hello cs key (filter P s) v su n mac addr now allow rnd) =
           AList.update addr \<lparr>e_transcript = t, e_started = now, e_completed = False\<rparr> (filter P s)"
      show ?thesis
        by (rule start [OF a(1), of "\<lparr>e_transcript = t, e_started = now, e_completed = False\<rparr>"])
          (use a(2,3) update_absent [OF a(1)] in \<open>simp_all add: est [unfolded ReceiveOp] ReceiveOp drawn_def\<close>)
    qed
  next
    case (ClientFinish t mac)
    show ?thesis
    proof (rule receive_finish_cases [of cs key "filter P s" t mac addr allow])
      assume "fst (receive_finish cs key (filter P s) t mac addr allow) = filter P s"
        "\<And>r. snd (receive_finish cs key (filter P s) t mac addr allow) = Ok r \<Longrightarrow> sr_established r = None"
      then show ?thesis using keep [of P] by (simp add: recv ClientFinish split: sum.splits)
    next
      fix e r es assume "map_of (filter P s) addr = Some e" "e_transcript e = t" "\<not> e_completed e"
        "receive_finish cs key (filter P s) t mac addr allow = (AList.update addr (e\<lparr>e_completed := True\<rparr>) (filter P s), Ok r)"
        "r = \<lparr>sr_message = ServerFinish t (tag cs key ''host-finish'' (transcript_bytes t)), sr_established = Some es\<rparr>"
        "es_session_id es = t_session_id t"
      then show ?thesis using finish [of P addr e] by (simp add: recv ClientFinish)
    qed
  qed (use keep [of P] in \<open>simp_all add: recv\<close>)
next
  case ClearOp
  then show ?thesis using keep [of "\<lambda>_. False"] by (simp add: est_step_def server_step_def server_clear_def)
next
  case (ForgetOp a)
  then show ?thesis using keep by (simp add: est_step_def server_step_def server_forget_def AList.delete_eq)
next
  case (ExpireOp now)
  then show ?thesis using keep by (simp add: est_step_def server_step_def server_expire_def)
qed

text \<open>
  The run paired with the identifiers drawn so far.  A draw that repeats an earlier one is skipped; the
  theorem's hypothesis excludes it.
\<close>

definition drawn_step :: "('k, 'm) crypto_suite_scheme \<Rightarrow> 'a ServerHandshake \<times> bytes set \<Rightarrow> 'a server_op \<Rightarrow>
    ('a ServerHandshake \<times> bytes set) \<times> bytes option" where
  "drawn_step cs su x = (if set (drawn x) \<inter> snd su = {} then
     ((fst (est_step cs (fst su) x), snd su \<union> set (drawn x)), snd (est_step cs (fst su) x)) else (su, None))"

definition drawn_inv :: "'a ServerHandshake \<times> bytes set \<Rightarrow> bool" where
  "drawn_inv su \<longleftrightarrow> hash_wf (fst su) \<and> distinct (session_ids (fst su)) \<and> set (session_ids (fst su)) \<subseteq> snd su"

definition id_spent :: "'a ServerHandshake \<times> bytes set \<Rightarrow> bytes \<Rightarrow> bool" where
  "id_spent su k \<longleftrightarrow> k \<in> snd su \<and> (\<forall>(a, e) \<in> set (fst su). t_session_id (e_transcript e) = k \<longrightarrow> e_completed e)"

lemma drawn_inv_filter: "drawn_inv (s, u) \<Longrightarrow> drawn_inv (filter P s, u)"
  by (auto simp: drawn_inv_def hash_wf_def column_def distinct_map_filter)

lemma complete_spends:
  assumes inv: "drawn_inv (s, u)" and e: "map_of s addr = Some e" and e': "e' = e\<lparr>e_completed := True\<rparr>"
    and mem: "(a, x) \<in> set (AList.update addr e' s)" "t_session_id (e_transcript x) = t_session_id (e_transcript e)"
  shows "x = e'"
proof (cases "a = addr")
  case True
  have "distinct (map fst (AList.update addr e' s))" using inv by (simp add: drawn_inv_def hash_wf_def distinct_update)
  then have "map_of (AList.update addr e' s) a = Some x" using mem(1) by simp
  then show ?thesis using True by (simp add: update_conv')
next
  case False
  then have "(a, x) \<in> set s" using mem(1) set_update_subset by fastforce
  moreover have "(addr, e) \<in> set s" using e by (rule map_of_SomeD)
  moreover have "inj_on (\<lambda>(_, e). t_session_id (e_transcript e)) (set s)"
    using inv by (simp add: drawn_inv_def column_def distinct_map)
  ultimately have "(a, x) = (addr, e)" using mem(2) inj_onD [of "\<lambda>(_, e). t_session_id (e_transcript e)" "set s" "(a, x)" "(addr, e)"] by simp
  then show ?thesis using False by simp
qed

lemma drawn_step_props:
  assumes inv: "drawn_inv su" and st: "drawn_step cs su x = (su', r)"
  shows "drawn_inv su'" and "id_spent su k \<Longrightarrow> id_spent su' k"
    and "r = Some k \<Longrightarrow> \<not> id_spent su k \<and> id_spent su' k"
proof -
  obtain s u where su: "su = (s, u)" by force
  have "drawn_inv su' \<and> (id_spent su k \<longrightarrow> id_spent su' k) \<and> (r = Some k \<longrightarrow> \<not> id_spent su k \<and> id_spent su' k)"
  proof (cases "set (drawn x) \<inter> u = {}")
    case False
    then show ?thesis using st inv su by (simp add: drawn_step_def)
  next
    case True
    show ?thesis
    proof (cases rule: est_step_cases [where cs = cs and s = s and x = x])
      case (keep P)
      then have su': "su' = (filter P s, u \<union> set (drawn x))" "r = None" using st su True by (simp_all add: drawn_step_def)
      have "drawn_inv (filter P s, u)" using inv su by (simp add: drawn_inv_filter)
      then show ?thesis unfolding su' su by (auto simp: drawn_inv_def id_spent_def)
    next
      case (start P addr e)
      then have su': "su' = (filter P s @ [(addr, e)], u \<union> set (drawn x))" "r = None"
        using st su True by (simp_all add: drawn_step_def)
      have f: "drawn_inv (filter P s, u)" using inv su by (simp add: drawn_inv_filter)
      have new: "t_session_id (e_transcript e) \<notin> u" using start(3) True by auto
      have "addr \<notin> fst ` set (filter P s)" using start(1) by (simp add: map_of_eq_None_iff)
      then have "drawn_inv su'"
        using f new start(3) unfolding su' by (auto simp: drawn_inv_def hash_wf_def column_def)
      moreover have "id_spent su k \<longrightarrow> id_spent su' k" unfolding su' su using new by (auto simp: id_spent_def)
      ultimately show ?thesis by (simp add: su')
    next
      case (finish P addr e)
      let ?e = "e\<lparr>e_completed := True\<rparr>"
      have su': "su' = (AList.update addr ?e (filter P s), u \<union> set (drawn x))" "r = Some (t_session_id (e_transcript e))"
        using finish st su True by (simp_all add: drawn_step_def)
      have f: "drawn_inv (filter P s, u)" using inv su by (simp add: drawn_inv_filter)
      have "drawn_inv su'"
        using f finish(1) hash.wf_ins [of "filter P s" addr ?e] column_update [OF finish(1), of ?e t_session_id]
        unfolding su' by (auto simp: drawn_inv_def)
      moreover have mem: "(addr, e) \<in> set s" using map_of_SomeD [OF finish(1)] by simp
      have "id_spent su' j" if "id_spent su j \<or> j = t_session_id (e_transcript e)" for j
      proof -
        have "e_completed y" if y: "(a, y) \<in> set (AList.update addr ?e (filter P s))" "t_session_id (e_transcript y) = j" for a y
        proof (cases "j = t_session_id (e_transcript e)")
          case True
          then show ?thesis using complete_spends [OF f finish(1) refl y(1)] y(2) by simp
        next
          case False
          then have "id_spent su j" using \<open>id_spent su j \<or> _\<close> by simp
          moreover have "(a, y) \<in> set s" using set_update_subset [of addr ?e "filter P s"] y False by auto
          ultimately show ?thesis using y(2) su by (auto simp: id_spent_def)
        qed
        moreover have "t_session_id (e_transcript e) \<in> u"
          using inv mem unfolding su drawn_inv_def column_def by force
        ultimately show ?thesis using that su unfolding su' by (auto simp: id_spent_def)
      qed
      moreover have "\<not> id_spent su (t_session_id (e_transcript e))" using mem finish(2) su by (auto simp: id_spent_def)
      ultimately show ?thesis by (auto simp: su')
    qed
  qed
  then show "drawn_inv su'" "id_spent su k \<Longrightarrow> id_spent su' k"
    "r = Some k \<Longrightarrow> \<not> id_spent su k \<and> id_spent su' k" by auto
qed

interpretation establish_once: at_most_once "drawn_step cs" id_spent drawn_inv
  by unfold_locales (auto dest: drawn_step_props)

lemma drawn_run:
  "distinct (concat (map drawn ops)) \<Longrightarrow> set (concat (map drawn ops)) \<inter> u = {} \<Longrightarrow>
   accepted_keys (drawn_step cs) (s, u) ops = accepted_keys (est_step cs) s ops"
proof (induction ops arbitrary: s u)
  case (Cons x xs)
  have d: "drawn_step cs (s, u) x = ((fst (est_step cs s x), u \<union> set (drawn x)), snd (est_step cs s x))"
    using Cons.prems(2) by (auto simp: drawn_step_def)
  have "accepted_keys (drawn_step cs) (fst (est_step cs s x), u \<union> set (drawn x)) xs = accepted_keys (est_step cs) (fst (est_step cs s x)) xs"
    by (rule Cons.IH) (use Cons.prems in auto)
  then show ?case by (cases "est_step cs s x") (simp add: d split: option.splits)
qed simp

text \<open>
  C10. When the server's random session identifiers do not repeat, no session identifier is ever
  established twice, whatever is retransmitted, replayed, expired or forgotten in between.
\<close>

theorem sessions_established_once:
  assumes "distinct (concat (map drawn ops))"
  shows "distinct (accepted_keys (est_step cs) [] ops)"
proof -
  have "drawn_inv ([] :: 'a ServerHandshake, {})" by (simp add: drawn_inv_def hash_wf_def column_def)
  from establish_once.accepted_distinct [OF this, of cs ops] show ?thesis
    using drawn_run [OF assms, of "{}" cs "[]"] by simp
qed

section \<open>What establishing a session requires\<close>

lemma map_of_expire:
  "distinct (map fst s) \<Longrightarrow> map_of (server_expire now s) a = Some e \<longleftrightarrow> map_of s a = Some e \<and> fresh_at (e_started e) now"
  by (auto simp: server_expire_def distinct_map_filter)

lemma map_of_expire_update:
  assumes "hash_wf s" "fresh_at (e_started e) now"
  shows "map_of (server_expire now (AList.update a e s)) a = Some e"
proof -
  have "distinct (map fst (AList.update a e s))" using hash.wf_ins [OF assms(1)] by (simp add: hash_wf_def)
  moreover have "map_of (AList.update a e s) a = Some e" by (simp add: update_conv')
  ultimately show ?thesis using assms(2) by (intro map_of_expire [THEN iffD2] conjI)
qed

lemma established_by_finish:
  assumes "server_receive cs key s msg addr now allow rnd = (s1, Ok r)" "sr_established r = Some es"
  obtains t mac where "msg = ClientFinish t mac"
proof (cases msg)
  case (Hello v su n mac)
  then have "snd (receive_hello cs key (server_expire now s) v su n mac addr now allow rnd) = Ok r"
    using assms(1) by (simp add: server_receive_def)
  from receive_hello_establishes_none [OF this] assms(2) show ?thesis by simp
qed (use assms that in \<open>simp_all add: server_receive_def\<close>)

text \<open>What a repeated flight meets: the entry it belongs to, as it was, or no entry when that has expired.\<close>

lemma map_of_expired:
  "hash_wf s \<Longrightarrow> map_of s a = Some e \<Longrightarrow> \<not> fresh_at (e_started e) now \<Longrightarrow> map_of (server_expire now s) a = None"
proof -
  assume a: "hash_wf s" "map_of s a = Some e" "\<not> fresh_at (e_started e) now"
  then have "map_of (server_expire now s) a = Some y \<longleftrightarrow> map_of s a = Some y \<and> fresh_at (e_started y) now" for y
    by (intro map_of_expire) (simp add: hash_wf_def)
  then have "map_of (server_expire now s) a \<noteq> Some y" for y using a(2,3) by auto
  then show ?thesis by blast
qed

lemma finish_repeated:
  assumes "server_inv x" "map_of x addr = Some y" "e_completed y" "e_transcript y = t" "check_version t = Ok ()"
  shows "server_receive cs key x (ClientFinish t (tag cs key ''client-finish'' (transcript_bytes t))) addr later allow rnd =
    (server_expire later x, Ok (if fresh_at (e_started y) later
       then \<lparr>sr_message = ServerFinish t (tag cs key ''host-finish'' (transcript_bytes t)), sr_established = None\<rparr>
       else server_reject cs key (t_client_nonce t) RejExpired))"
proof (cases "fresh_at (e_started y) later")
  case True
  then have "map_of (server_expire later x) addr = Some y" using assms(1,2) by (simp add: map_of_expire server_inv_def hash_wf_def)
  then show ?thesis using True assms(3-5) by (simp add: server_receive_def receive_finish_def verify_def tag_def Let_def)
next
  case False
  then have "map_of (server_expire later x) addr = None"
    by (intro map_of_expired [OF _ assms(2)]) (use assms(1) in \<open>simp add: server_inv_def\<close>)
  then show ?thesis using False assms(5) by (simp add: server_receive_def receive_finish_def verify_def tag_def Let_def)
qed

lemma hello_repeated:
  assumes "server_inv x" "map_of x addr = Some y" "fresh_at (e_started y) later" "t_client_nonce (e_transcript y) = n"
  shows "server_receive cs key x (Hello AUTH_VERSION AUTH_SUITE n (tag cs key ''client-hello'' (hello_bytes AUTH_VERSION AUTH_SUITE n)))
      addr later allow rnd = (server_expire later x, Ok (challenge_reply cs key (e_transcript y)))"
proof -
  have "map_of (server_expire later x) addr = Some y" using assms by (simp add: map_of_expire server_inv_def hash_wf_def)
  then show ?thesis using assms(4) by (simp add: server_receive_def receive_hello_def verify_def tag_def Let_def)
qed

text \<open>
  C11. The server establishes a session only for a \<open>ClientFinish\<close> whose MAC is right under the key and whose
  transcript is exactly the one the server itself challenged that address with, of the supported
  version, still fresh on both clocks and not yet completed, while new sessions are admitted; the entry
  is then marked completed with its start time kept.  From then on, in any later table that holds the
  entry, however often the finish is repeated and whether or not new sessions are admitted, it gets the
  same reply without establishing anything while the entry is fresh, and the expiry rejection
  afterwards, and the table only loses its expired entries; and a repeated hello, before or after the
  finish, gets the same challenge again with the same effect.
\<close>

theorem server_establishes_only_challenged:
  assumes inv: "server_inv s"
    and recv: "server_receive cs key s msg addr now allow rnd = (s1, Ok r)" "sr_established r = Some es"
  shows "\<exists>t e. msg = ClientFinish t (tag cs key ''client-finish'' (transcript_bytes t)) \<and>
    map_of s addr = Some e \<and> e_transcript e = t \<and> \<not> e_completed e \<and> fresh_at (e_started e) now \<and> allow \<and>
    t_version t = AUTH_VERSION \<and> t_suite t = AUTH_SUITE \<and> es_session_id es = t_session_id t \<and>
    for_session cs key (transcript_bytes t) (t_session_id t) Host = Ok (es_crypto es) \<and>
    server_inv s1 \<and> map_of s1 addr = Some (e\<lparr>e_completed := True\<rparr>) \<and>
    (\<forall>x later allow' rnd'. server_inv x \<and> map_of x addr = Some (e\<lparr>e_completed := True\<rparr>) \<longrightarrow>
      server_receive cs key x msg addr later allow' rnd' =
        (server_expire later x,
         Ok (if fresh_at (e_started e) later then r\<lparr>sr_established := None\<rparr>
             else server_reject cs key (t_client_nonce t) RejExpired)) \<and>
      (fresh_at (e_started e) later \<longrightarrow> map_of (server_expire later x) addr = Some (e\<lparr>e_completed := True\<rparr>))) \<and>
    (\<forall>x y later allow' rnd'. server_inv x \<and> map_of x addr = Some y \<and> y \<in> {e, e\<lparr>e_completed := True\<rparr>} \<and>
      fresh_at (e_started e) later \<longrightarrow>
      server_receive cs key x (Hello AUTH_VERSION AUTH_SUITE (t_client_nonce t)
          (tag cs key ''client-hello'' (hello_bytes AUTH_VERSION AUTH_SUITE (t_client_nonce t)))) addr later allow' rnd' =
        (server_expire later x, Ok (challenge_reply cs key t)) \<and>
      map_of (server_expire later x) addr = Some y)"
proof -
  let ?x = "server_expire now s"
  have wf: "hash_wf s" "hash_wf ?x" using inv server_inv_expire [OF inv, of now] by (simp_all add: server_inv_def)
  obtain t mac where msg: "msg = ClientFinish t mac" using recv by (rule established_by_finish)
  have fin: "receive_finish cs key ?x t mac addr allow = (s1, Ok r)" using recv(1) by (simp add: server_receive_def msg Let_def)
  show ?thesis
  proof (rule receive_finish_cases [of cs key ?x t mac addr allow])
    assume "\<And>r. snd (receive_finish cs key ?x t mac addr allow) = Ok r \<Longrightarrow> sr_established r = None"
    then show ?thesis using fin recv(2) by simp
  next
    fix e r' es'
    assume a: "map_of ?x addr = Some e" "e_transcript e = t" "\<not> e_completed e" "allow" "check_version t = Ok ()"
      "mac = tag cs key ''client-finish'' (transcript_bytes t)"
      "receive_finish cs key ?x t mac addr allow = (AList.update addr (e\<lparr>e_completed := True\<rparr>) ?x, Ok r')"
      "r' = \<lparr>sr_message = ServerFinish t (tag cs key ''host-finish'' (transcript_bytes t)), sr_established = Some es'\<rparr>"
      "es_session_id es' = t_session_id t" "for_session cs key (transcript_bytes t) (t_session_id t) Host = Ok (es_crypto es')"
    let ?e = "e\<lparr>e_completed := True\<rparr>"
    have s1: "s1 = AList.update addr ?e ?x" "r = r'" using fin a(7) by simp_all
    have inv1: "server_inv s1" unfolding s1(1) by (rule server_inv_complete [OF server_inv_expire [OF inv] a(1)]) simp
    have at: "map_of s1 addr = Some ?e" by (simp add: s1(1) update_conv')
    have kept: "map_of (server_expire later x) addr = Some y"
      if "server_inv x" "map_of x addr = Some y" "fresh_at (e_started y) later" for x y later
      using that by (simp add: map_of_expire server_inv_def hash_wf_def)
    have again: "server_receive cs key x msg addr later allow' rnd' =
        (server_expire later x, Ok (if fresh_at (e_started e) later then r\<lparr>sr_established := None\<rparr>
             else server_reject cs key (t_client_nonce t) RejExpired))"
      if "server_inv x" "map_of x addr = Some ?e" for x later allow' rnd'
      using finish_repeated [OF that, of t cs key later allow' rnd'] a(2,5,8) by (simp add: msg a(6) s1(2))
    have hello: "server_receive cs key x (Hello AUTH_VERSION AUTH_SUITE (t_client_nonce t)
          (tag cs key ''client-hello'' (hello_bytes AUTH_VERSION AUTH_SUITE (t_client_nonce t)))) addr later allow' rnd' =
        (server_expire later x, Ok (challenge_reply cs key t)) \<and> map_of (server_expire later x) addr = Some y"
      if "server_inv x" "map_of x addr = Some y" "y \<in> {e, ?e}" "fresh_at (e_started e) later" for x y later allow' rnd'
      using that kept [of x y later] hello_repeated [of x addr y later "t_client_nonce t" cs key allow' rnd'] a(2) by auto
    have "map_of s addr = Some e" "fresh_at (e_started e) now"
      using a(1) wf(1) by (simp_all add: map_of_expire hash_wf_def)
    moreover have "t_version t = AUTH_VERSION" "t_suite t = AUTH_SUITE" using a(5) by (simp_all add: check_version_def split: if_splits)
    moreover have "es_session_id es = t_session_id t"
      "for_session cs key (transcript_bytes t) (t_session_id t) Host = Ok (es_crypto es)"
      using a(8-10) recv(2) s1(2) by simp_all
    ultimately show ?thesis using a(2-4,6) msg inv1 at again kept [where y = ?e] hello
      by (intro exI [of _ t] exI [of _ e]) simp
  qed
qed

lemma handshake_flights:
  fixes cs :: "('k, 'm) crypto_suite_scheme" and s :: "'a ServerHandshake"
  assumes inv: "server_inv s"
    and keys: "\<And>m. aead_key cs (hmac_sha256 cs key m) \<noteq> None"
    and slot: "map_of (server_expire t1 s) addr = None" "n \<notin> set (nonces (server_expire t1 s))"
      "length (server_expire t1 s) < MAX_HANDSHAKES"
    and time: "fresh_at t0 t2" "fresh_at t0 t4" "fresh_at t1 t3"
  shows "\<exists>s1 r1 c1 s2 r2 c2 cc es.
     server_receive cs key s (client_message cs key (client_new n t0)) addr t1 True (sn, sid) = (s1, Ok r1) \<and>
     client_receive cs key (client_new n t0) (sr_message r1) t2 = (c1, Ok None) \<and>
     server_receive cs key s1 (client_message cs key c1) addr t3 True rnd = (s2, Ok r2) \<and>
     client_receive cs key c1 (sr_message r2) t4 = (c2, Ok (Some cc)) \<and> ch_finished c2 \<and>
     sr_established r2 = Some es \<and> es_session_id es = sid \<and> es_client_nonce es = n \<and>
     session_id cc = sid \<and> session_id (es_crypto es) = sid \<and>
     send_key cc = receive_key (es_crypto es) \<and> send_key (es_crypto es) = receive_key cc \<and>
     (\<exists>tr. for_session cs key tr sid Client = Ok cc \<and> for_session cs key tr sid Host = Ok (es_crypto es))"
proof -
  define t where "t = \<lparr>t_version = AUTH_VERSION, t_suite = AUTH_SUITE, t_client_nonce = n, t_server_nonce = sn, t_session_id = sid\<rparr>"
  have sess: "\<exists>c. for_session cs key b sid role = Ok c" for b role
  proof -
    have "\<exists>k. session_key cs key b l = Ok k" for l using keys by (fastforce simp: session_key_def ok_or_eq_Ok)
    then obtain kf where "\<And>l. session_key cs key b l = Ok (kf l)" by metis
    then show ?thesis by (cases role) (simp_all add: for_session_def)
  qed
  then obtain cc sc where cc: "for_session cs key (transcript_bytes t) sid Client = Ok cc"
      and sc: "for_session cs key (transcript_bytes t) sid Host = Ok sc" by metis
  let ?e = "\<lparr>e_transcript = t, e_started = t1, e_completed = False\<rparr>"
  define s1 where "s1 = AList.update addr ?e (server_expire t1 s)"
  have r1: "server_receive cs key s (client_message cs key (client_new n t0)) addr t1 True (sn, sid) =
      (s1, Ok (challenge_reply cs key t))"
    using slot by (simp add: server_receive_def client_message_def client_new_def receive_hello_def verify_def tag_def
        nonces_ex Let_def s1_def t_def not_le)
  define c1 where "c1 = (client_new n t0)\<lparr>ch_transcript := Some t\<rparr>"
  have c1: "client_receive cs key (client_new n t0) (sr_message (challenge_reply cs key t)) t2 = (c1, Ok None)"
    using time(1) by (simp add: client_receive_def client_new_def challenge_reply_def verify_def tag_def check_version_def t_def c1_def)
  have "hash_wf (server_expire t1 s)" using server_inv_expire [OF inv, of t1] by (simp add: server_inv_def)
  then have m: "map_of (server_expire t3 s1) addr = Some ?e"
    unfolding s1_def by (rule map_of_expire_update) (simp add: time(3))
  define r2 where "r2 = \<lparr>sr_message = ServerFinish t (tag cs key ''host-finish'' (transcript_bytes t)),
     sr_established = Some \<lparr>es_session_id = sid, es_client_nonce = n, es_crypto = sc\<rparr>\<rparr>"
  have msg2: "client_message cs key c1 = ClientFinish t (tag cs key ''client-finish'' (transcript_bytes t))"
    by (simp add: client_message_def c1_def)
  have f: "t_version t = AUTH_VERSION" "t_suite t = AUTH_SUITE" "t_client_nonce t = n" "t_session_id t = sid" by (simp_all add: t_def)
  have r2: "server_receive cs key s1 (client_message cs key c1) addr t3 True rnd =
      (AList.update addr (?e\<lparr>e_completed := True\<rparr>) (server_expire t3 s1), Ok r2)"
    by (simp add: server_receive_def msg2 receive_finish_def verify_def tag_def check_version_def m f sc r2_def)
  have c2: "client_receive cs key c1 (sr_message r2) t4 = (c1\<lparr>ch_finished := True\<rparr>, Ok (Some cc))"
    using time(2) by (simp add: client_receive_def c1_def client_new_def r2_def verify_def tag_def f cc)
  show ?thesis
    by (rule exI [of _ s1], rule exI [of _ "challenge_reply cs key t"], rule exI [of _ c1], rule exI, rule exI [of _ r2],
        rule exI, rule exI [of _ cc], rule exI)
      (use r1 c1 r2 c2 peer_keys [OF cc sc] peer_keys [OF sc cc] for_session_fields(1) [OF cc] for_session_fields(1) [OF sc] cc sc
        in \<open>auto simp: r2_def\<close>)
qed

text \<open>
  The four flights, in time and on an admitting server, complete: the client and the server end with
  sessions of the same identifier and with each other's keys, and the client is finished.
\<close>

theorem handshake_completes:
  fixes cs :: "('k, 'm) crypto_suite_scheme" and s :: "'a ServerHandshake"
  assumes inv: "server_inv s"
    and keys: "\<And>m. aead_key cs (hmac_sha256 cs key m) \<noteq> None"
    and slot: "map_of (server_expire t1 s) addr = None" "n \<notin> set (nonces (server_expire t1 s))"
      "length (server_expire t1 s) < MAX_HANDSHAKES"
    and time: "fresh_at t0 t2" "fresh_at t0 t4" "fresh_at t1 t3"
  shows "\<exists>s1 r1 c1 s2 r2 c2 cc es.
     server_receive cs key s (client_message cs key (client_new n t0)) addr t1 True (sn, sid) = (s1, Ok r1) \<and>
     client_receive cs key (client_new n t0) (sr_message r1) t2 = (c1, Ok None) \<and>
     server_receive cs key s1 (client_message cs key c1) addr t3 True rnd = (s2, Ok r2) \<and>
     client_receive cs key c1 (sr_message r2) t4 = (c2, Ok (Some cc)) \<and> ch_finished c2 \<and>
     sr_established r2 = Some es \<and> es_session_id es = sid \<and> es_client_nonce es = n \<and>
     session_id cc = sid \<and> session_id (es_crypto es) = sid \<and>
     send_key cc = receive_key (es_crypto es) \<and> send_key (es_crypto es) = receive_key cc"
  using handshake_flights [OF assms, of sn sid rnd] by blast

section \<open>Examples\<close>

definition demo_hello :: HandshakeMessage where
  "demo_hello = client_message demo_suite [1] (client_new (replicate 16 5) \<lparr>monotonic = 0, wall = 0\<rparr>)"

theorem sessions_established_once_witness:
  "distinct (accepted_keys (est_step demo_suite) []
     [ReceiveOp [1] demo_hello (0 :: nat) \<lparr>monotonic = 0, wall = 0\<rparr> True ([1], [2]), ExpireOp \<lparr>monotonic = 9, wall = 9\<rparr>])"
  by (rule sessions_established_once) (simp add: drawn_def)

theorem handshake_completes_witness:
  "\<exists>s1 r1. server_receive demo_suite [1] [] demo_hello (0 :: nat) \<lparr>monotonic = 1, wall = 1\<rparr> True ([1], [2]) = (s1, Ok r1)"
proof -
  let ?t = "\<lambda>k. \<lparr>monotonic = k, wall = k\<rparr>"
  have "fresh_at (?t 0) (?t 2)" "fresh_at (?t 0) (?t 4)" "fresh_at (?t 1) (?t 3)"
    by (simp_all add: fresh_at_def HANDSHAKE_LIFETIME_def SECOND_def)
  then show ?thesis
    using handshake_completes [of "[] :: nat ServerHandshake" demo_suite "[1]" "?t 1" 0 "replicate 16 5" "?t 0" "?t 2" "?t 4" "?t 3"
        "[1]" "[2]" "([], [])"]
    by (fastforce simp: demo_hello_def server_inv_def hash_wf_def column_def server_expire_def MAX_HANDSHAKES_def demo_suite_def)
qed

definition demo_transcript :: Transcript where
  "demo_transcript = \<lparr>t_version = AUTH_VERSION, t_suite = AUTH_SUITE, t_client_nonce = replicate 16 5,
     t_server_nonce = replicate 16 6, t_session_id = replicate 16 7\<rparr>"

definition demo_table :: "nat ServerHandshake" where
  "demo_table = [(0, \<lparr>e_transcript = demo_transcript, e_started = \<lparr>monotonic = 0, wall = 0\<rparr>, e_completed = False\<rparr>)]"

theorem server_establishes_only_challenged_witness:
  "\<exists>e. map_of demo_table 0 = Some e \<and> e_transcript e = demo_transcript \<and> \<not> e_completed e \<and>
     (\<exists>s1 r es. server_receive demo_suite [1] demo_table
        (ClientFinish demo_transcript (tag demo_suite [1] ''client-finish'' (transcript_bytes demo_transcript)))
        0 \<lparr>monotonic = 1, wall = 1\<rparr> True ([], []) = (s1, Ok r) \<and> sr_established r = Some es)"
proof -
  let ?msg = "ClientFinish demo_transcript (tag demo_suite [1] ''client-finish'' (transcript_bytes demo_transcript))"
  let ?now = "\<lparr>monotonic = 1, wall = 1\<rparr>"
  have inv: "server_inv demo_table"
    by (simp add: server_inv_def demo_table_def hash_wf_def column_def MAX_HANDSHAKES_def check_version_def demo_transcript_def)
  have ex: "server_expire ?now demo_table = demo_table"
    by (simp add: server_expire_def demo_table_def fresh_at_def HANDSHAKE_LIFETIME_def SECOND_def)
  have cv: "check_version demo_transcript = Ok ()" by (simp add: check_version_def demo_transcript_def)
  have "\<exists>c. for_session demo_suite [1] (transcript_bytes demo_transcript) (t_session_id demo_transcript) Host = Ok c"
    by (simp add: for_session_def session_key_def demo_suite_def)
  then obtain c where c: "for_session demo_suite [1] (transcript_bytes demo_transcript) (t_session_id demo_transcript) Host = Ok c" ..
  have "\<exists>s1 r es. server_receive demo_suite [1] demo_table ?msg 0 ?now True ([], []) = (s1, Ok r) \<and> sr_established r = Some es"
    unfolding server_receive_def ex
    by (simp add: receive_finish_def verify_def tag_def cv) (simp add: demo_table_def Let_def c)
  then obtain s1 r es where run: "server_receive demo_suite [1] demo_table ?msg 0 ?now True ([], []) = (s1, Ok r)"
    and es: "sr_established r = Some es" by blast
  from server_establishes_only_challenged [OF inv run es] obtain e where
    "map_of demo_table 0 = Some e" "e_transcript e = demo_transcript" "\<not> e_completed e" by auto
  then show ?thesis using run es by blast
qed

end
