(* ===== verification/Input_Lease.thy ===== *)
theory Input_Lease
  imports Wire_Types
begin

text \<open>
  Realtime input ownership (\<open>protocol/src/realtime_input.rs\<close>): the receiver's record of held presses
  and the lease that admits, orders and expires input packets.

  Readings of the two clocks are arguments: \<open>now_ms\<close> is the host's wall clock, the instants are
  readings of the monotonic clock in nanoseconds (one reading for the expiry test, one on receipt).  The
  shared revocation flag is a field of the lease, set by \<open>revoke\<close>.
\<close>

unbundle bit_operations_syntax

section \<open>Data\<close>

definition MAX_INPUT_AGE_MS :: u64 where "MAX_INPUT_AGE_MS = 250"
definition HOLD_TIMEOUT_MS :: u64 where "HOLD_TIMEOUT_MS = 300"
definition MAX_HELD :: nat where "MAX_HELD = 64"

record InputBinding =
  connection_id :: u32
  subscription_id :: u32
  source_revision :: u32
  epoch :: bytes

datatype Press = PKey u16 | PButton u8 | PModifier u8

text \<open>The derived \<open>Ord\<close>: by variant, then by payload.\<close>

fun press_code :: "Press \<Rightarrow> nat" where
  "press_code (PKey k) = unat k"
| "press_code (PButton b) = 65536 + unat b"
| "press_code (PModifier b) = 131072 + unat b"

lemma press_code_inject: "press_code p = press_code q \<longleftrightarrow> p = q"
proof -
  have k: "unat k < 65536" for k :: u16 using unat_less_exp [of k] by simp
  have b: "unat b < 256" for b :: u8 using unat_less_exp [of b] by simp
  have kb: "unat k \<noteq> 65536 + n" "unat k \<noteq> 131072 + n" for k :: u16 and n using k [of k] by linarith+
  have bm: "65536 + unat b \<noteq> 131072 + n" for b :: u8 and n using b [of b] by linarith
  show ?thesis
    by (cases p; cases q) (simp_all add: kb kb [symmetric] bm bm [symmetric] word_unat_eq_iff)
qed

instantiation Press :: linorder
begin

definition less_eq_Press :: "Press \<Rightarrow> Press \<Rightarrow> bool" where
  "less_eq_Press p q = (press_code p \<le> press_code q)"

definition less_Press :: "Press \<Rightarrow> Press \<Rightarrow> bool" where
  "less_Press p q = (press_code p < press_code q)"

instance
  by standard (auto simp: less_eq_Press_def less_Press_def press_code_inject)

end

datatype InputPayload = PayloadEvent InputEvent | PayloadHeld "(Press \<times> u64) list" | PayloadRelease

record RealtimeInput =
  ri_binding :: InputBinding
  ri_sequence :: u64
  ri_created_host_ms :: u64
  ri_payload :: InputPayload

section \<open>Held presses\<close>

type_synonym HeldState = "(Press \<times> u64) list"

definition snapshot :: "HeldState \<Rightarrow> (Press \<times> u64) list" where
  "snapshot h = h"

definition modifiers :: "HeldState \<Rightarrow> u8" where
  "modifiers h = foldl (\<lambda>msk p. case p of PModifier b \<Rightarrow> msk OR b | _ \<Rightarrow> msk) 0 (map fst h)"

definition transition :: "HeldState \<Rightarrow> Press \<Rightarrow> bool \<Rightarrow> u64 \<Rightarrow> HeldState \<times> bool" where
  "transition h press down sequence =
     (if down then
        if length h \<ge> MAX_HELD \<or> map_of h press \<noteq> None then (h, False)
        else (bt_insert press sequence h, True)
      else (bt_remove press h, map_of h press \<noteq> None))"

definition normalize_event :: "InputEvent \<Rightarrow> InputEvent" where
  "normalize_event e = (case e of
     KeyDown code \<Rightarrow> if code \<le> 0x7e then Key (ucast code) True 0 else e
   | KeyUp code \<Rightarrow> if code \<le> 0x7e then Key (ucast code) False 0 else e
   | _ \<Rightarrow> e)"

definition modifier_bit :: "u16 \<Rightarrow> u8" where
  "modifier_bit k =
     (if k = 0x38 \<or> k = 0x3c then 1 else if k = 0x3b \<or> k = 0x3e then 2
      else if k = 0x3a \<or> k = 0x3d then 4 else if k = 0x37 \<or> k = 0x36 then 8 else 0)"

definition resolve_modifier :: "HeldState \<Rightarrow> InputEvent \<Rightarrow> InputEvent option" where
  "resolve_modifier h e = (case e of
     Key key_code pressed m \<Rightarrow>
       let b = modifier_bit key_code in
       if b \<noteq> 0 then
         if (modifiers h AND b \<noteq> 0) = pressed then None
         else Some (ModifiersChanged (if pressed then modifiers h OR b else modifiers h AND NOT b))
       else Some e
   | _ \<Rightarrow> Some e)"

definition set_modifiers :: "HeldState \<Rightarrow> u8 \<Rightarrow> u64 \<Rightarrow> HeldState" where
  "set_modifiers h msk sequence =
     foldl (\<lambda>h b. if msk AND b \<noteq> 0 then fst (transition h (PModifier b) True sequence)
                  else fst (transition h (PModifier b) False sequence)) h [1, 2, 4, 8]"

definition apply_event :: "HeldState \<Rightarrow> InputEvent \<Rightarrow> u64 \<Rightarrow> HeldState \<times> bool" where
  "apply_event h e sequence = (case e of
     KeyDown k \<Rightarrow> if k \<le> 0x7e then transition h (PKey (ucast k)) True sequence else (h, False)
   | KeyUp k \<Rightarrow> if k \<le> 0x7e then transition h (PKey (ucast k)) False sequence else (h, False)
   | Key key_code pressed _ \<Rightarrow> if key_code \<le> 0x7e then transition h (PKey key_code) pressed sequence else (h, False)
   | MouseDown b \<Rightarrow> if b \<le> 2 then transition h (PButton b) True sequence else (h, False)
   | MouseUp b \<Rightarrow> if b \<le> 2 then transition h (PButton b) False sequence else (h, False)
   | Touch _ _ _ _ _ \<Rightarrow> (h, False)
   | ModifiersChanged msk \<Rightarrow> (set_modifiers h msk sequence, True)
   | _ \<Rightarrow> (h, True))"

definition native_event :: "HeldState \<Rightarrow> InputEvent \<Rightarrow> InputEvent" where
  "native_event h e = (case e of
     Key key_code pressed _ \<Rightarrow> Key key_code pressed (modifiers h)
   | ModifiersChanged _ \<Rightarrow> ModifiersChanged (modifiers h)
   | KeyDown code \<Rightarrow> Key (ucast code) True (modifiers h)
   | KeyUp code \<Rightarrow> Key (ucast code) False (modifiers h)
   | other \<Rightarrow> other)"

definition held_event :: "HeldState \<Rightarrow> InputEvent \<Rightarrow> u64 \<Rightarrow> HeldState \<times> InputEvent option" where
  "held_event h event sequence =
     (case resolve_modifier h (normalize_event event) of
        None \<Rightarrow> (h, None)
      | Some e \<Rightarrow> (case apply_event h e sequence of
          (h', valid) \<Rightarrow> if \<not> valid then (h', None) else (h', Some (native_event h' e))))"

text \<open>The loop of \<open>release_missing\<close> over the presses to remove.\<close>

fun release_loop :: "Press list \<Rightarrow> HeldState \<Rightarrow> bool \<Rightarrow> HeldState \<times> InputEvent list \<times> bool" where
  "release_loop [] h changed = (h, [], changed)"
| "release_loop (press # ps) h changed =
     (let h1 = bt_remove press h in
      case press of
        PKey key_code \<Rightarrow> (case release_loop ps h1 changed of
          (h', out, ch) \<Rightarrow> (h', Key key_code False (modifiers h1) # out, ch))
      | PButton b \<Rightarrow> (case release_loop ps h1 changed of (h', out, ch) \<Rightarrow> (h', MouseUp b # out, ch))
      | PModifier _ \<Rightarrow> release_loop ps h1 True)"

definition release_missing :: "HeldState \<Rightarrow> (Press \<times> u64) list \<Rightarrow> HeldState \<times> InputEvent list" where
  "release_missing h held =
     (let removed = map fst (filter (\<lambda>e. e \<notin> set held) h) in
      case release_loop removed h False of
        (h', output, modifiers_changed) \<Rightarrow>
          (h', if modifiers_changed then output @ [ModifiersChanged (modifiers h')] else output))"

section \<open>The lease\<close>

record InputLease =
  binding :: InputBinding
  revoked :: bool
  high_water :: u64
  last_valid_ms :: u64
  held :: HeldState
  last_valid :: nat
  last_held_ms :: u64
  last_held :: nat

definition lease_new :: "InputBinding \<Rightarrow> u64 \<Rightarrow> nat \<Rightarrow> InputLease" where
  "lease_new b now_ms inst = \<lparr>binding = b, revoked = False, high_water = 0, last_valid_ms = now_ms, held = [],
     last_valid = inst, last_held_ms = now_ms, last_held = inst\<rparr>"

definition revoke :: "InputLease \<Rightarrow> InputLease" where
  "revoke l = l\<lparr>revoked := True\<rparr>"

definition held_modifiers :: "InputLease \<Rightarrow> u8" where
  "held_modifiers l = modifiers (held l)"

definition ms_to_ns :: "nat \<Rightarrow> nat" where "ms_to_ns n = n * 1000000"

definition lease_deadline :: "InputLease \<Rightarrow> nat \<Rightarrow> nat" where
  "lease_deadline l inst =
     (if revoked l then inst
      else let valid = last_valid l + ms_to_ns (unat HOLD_TIMEOUT_MS) in
        if held l = [] then valid else min valid (last_held l + ms_to_ns (unat HOLD_TIMEOUT_MS)))"

definition elapsed_ms :: "nat \<Rightarrow> nat \<Rightarrow> nat" where
  "elapsed_ms since inst = (inst - since) div 1000000"

definition expired :: "InputLease \<Rightarrow> u64 \<Rightarrow> nat \<Rightarrow> bool" where
  "expired l now_ms inst \<longleftrightarrow> revoked l
     \<or> saturating_sub now_ms (last_valid_ms l) \<ge> HOLD_TIMEOUT_MS
     \<or> elapsed_ms (last_valid l) inst \<ge> unat HOLD_TIMEOUT_MS
     \<or> (held l \<noteq> [] \<and> (saturating_sub now_ms (last_held_ms l) \<ge> HOLD_TIMEOUT_MS
                       \<or> elapsed_ms (last_held l) inst \<ge> unat HOLD_TIMEOUT_MS))"

definition chord_mismatch :: "HeldState \<Rightarrow> InputPayload \<Rightarrow> bool" where
  "chord_mismatch h p = (case p of PayloadEvent (Key _ True m) \<Rightarrow> m \<noteq> modifiers h | _ \<Rightarrow> False)"

definition apply_payload :: "HeldState \<Rightarrow> InputPayload \<Rightarrow> u64 \<Rightarrow> (HeldState \<times> InputEvent list) option" where
  "apply_payload h p sequence = (case p of
     PayloadEvent event \<Rightarrow> (case held_event h event sequence of
       (h', None) \<Rightarrow> Some (h', []) | (h', Some e) \<Rightarrow> Some (h', [e]))
   | PayloadHeld hs \<Rightarrow> if length hs \<le> MAX_HELD then Some (release_missing h hs) else None
   | PayloadRelease \<Rightarrow> Some (release_missing h []))"

definition is_held_payload :: "InputPayload \<Rightarrow> bool" where
  "is_held_payload p = (case p of PayloadHeld _ \<Rightarrow> True | _ \<Rightarrow> False)"

definition lease_accept :: "InputLease \<Rightarrow> RealtimeInput \<Rightarrow> u64 \<Rightarrow> nat \<Rightarrow> nat \<Rightarrow> InputLease \<times> InputEvent list option" where
  "lease_accept l0 packet now_ms inst recv_inst =
     (if ri_binding packet \<noteq> binding l0 \<or> ri_sequence packet \<le> high_water l0 \<or> expired l0 now_ms inst
      then (l0, None)
      else let l = l0\<lparr>high_water := ri_sequence packet\<rparr> in
        if ri_created_host_ms packet > now_ms \<or> now_ms - ri_created_host_ms packet > MAX_INPUT_AGE_MS then (l, None)
        else if chord_mismatch (held l) (ri_payload packet) then (l, None)
        else (case apply_payload (held l) (ri_payload packet) (ri_sequence packet) of
          None \<Rightarrow> (l, None)
        | Some (h', output) \<Rightarrow>
          let had_held = held l \<noteq> [];
              age = ms_to_ns (unat (now_ms - ri_created_host_ms packet));
              created = (if age \<le> recv_inst then recv_inst - age else last_valid l);
              l1 = l\<lparr>held := h', last_valid_ms := ri_created_host_ms packet, last_valid := created\<rparr> in
          (if h' \<noteq> [] \<and> (\<not> had_held \<or> is_held_payload (ri_payload packet))
           then l1\<lparr>last_held_ms := ri_created_host_ms packet, last_held := created\<rparr> else l1,
           Some output)))"

section \<open>What the operating system holds\<close>

text \<open>
  The specification: the set of presses that the native side holds down after the events it is given.
  A \<open>ModifiersChanged\<close> sets the momentary modifiers to exactly those of its mask.
\<close>

definition momentary :: "u8 set" where "momentary = {1, 2, 4, 8}"

definition apply_native :: "Press set \<Rightarrow> InputEvent \<Rightarrow> Press set" where
  "apply_native S e = (case e of
     Key k True _ \<Rightarrow> insert (PKey k) S
   | Key k False _ \<Rightarrow> S - {PKey k}
   | MouseDown b \<Rightarrow> insert (PButton b) S
   | MouseUp b \<Rightarrow> S - {PButton b}
   | ModifiersChanged m \<Rightarrow> (S - range PModifier) \<union> PModifier ` {b \<in> momentary. m AND b \<noteq> 0}
   | _ \<Rightarrow> S)"

definition presses :: "HeldState \<Rightarrow> Press set" where
  "presses h = fst ` set h"

definition press_ok :: "Press \<Rightarrow> bool" where
  "press_ok p = (case p of PKey k \<Rightarrow> k \<le> 0x7e \<and> modifier_bit k = 0 | PButton b \<Rightarrow> b \<le> 2 | PModifier b \<Rightarrow> b \<in> momentary)"

definition held_inv :: "HeldState \<Rightarrow> bool" where
  "held_inv h \<longleftrightarrow> bt_wf h \<and> length h \<le> MAX_HELD \<and> (\<forall>p\<in>presses h. press_ok p)"

lemma presses_insert: "presses (bt_insert p s h) = insert p (presses h)"
  by (simp add: presses_def set_bt_insert)

lemma presses_remove: "presses (bt_remove p h) = presses h - {p}"
  by (auto simp: presses_def bt_remove_def)

lemma map_of_presses: "map_of h p = None \<longleftrightarrow> p \<notin> presses h"
  by (simp add: presses_def map_of_eq_None_iff)

lemma presses_empty [simp]: "presses h = {} \<longleftrightarrow> h = []"
  by (simp add: presses_def)

lemma modifiers_fold:
  "bit (foldl (\<lambda>msk p. case p of PModifier b \<Rightarrow> msk OR b | _ \<Rightarrow> msk) m ps) n \<longleftrightarrow>
     bit m n \<or> (\<exists>b. PModifier b \<in> set ps \<and> bit b n)" for m :: u8
proof (induction ps arbitrary: m)
  case (Cons p ps)
  show ?case by (cases p) (auto simp: Cons.IH bit_or_iff)
qed simp

lemma modifiers_bit: "bit (modifiers h) n \<longleftrightarrow> (\<exists>b. PModifier b \<in> presses h \<and> bit b n)"
  by (simp add: modifiers_def modifiers_fold presses_def)

lemma momentary_bit:
  "b \<in> momentary \<Longrightarrow> \<exists>j < 4. b = 2 ^ j"
  unfolding momentary_def
  by (elim insertE) (rule exI [of _ 0], simp, rule exI [of _ 1], simp, rule exI [of _ 2], simp,
      rule exI [of _ 3], simp, simp)

lemma modifiers_and:
  assumes "held_inv h" "b \<in> momentary"
  shows "modifiers h AND b \<noteq> 0 \<longleftrightarrow> PModifier b \<in> presses h"
proof -
  obtain j where j: "j < 4" "b = 2 ^ j" using momentary_bit [OF assms(2)] by blast
  have bits: "bit (2 ^ i :: u8) j \<longleftrightarrow> i = j" if "i < 4" for i :: nat
    using that j(1) by (auto simp: bit_simps)
  have "modifiers h AND b \<noteq> 0 \<longleftrightarrow> bit (modifiers h) j"
    unfolding j(2) by (simp add: and_exp_eq_0_iff_not_bit)
  also have "\<dots> \<longleftrightarrow> (\<exists>c. PModifier c \<in> presses h \<and> bit c j)" by (rule modifiers_bit)
  also have "\<dots> \<longleftrightarrow> PModifier b \<in> presses h"
  proof
    assume "\<exists>c. PModifier c \<in> presses h \<and> bit c j"
    then obtain c where c: "PModifier c \<in> presses h" "bit c j" by blast
    then have "c \<in> momentary" using assms(1) by (auto simp: held_inv_def press_ok_def)
    then obtain i where "i < 4" "c = 2 ^ i" using momentary_bit by blast
    then show "PModifier b \<in> presses h" using c bits [of i] j(2) by simp
  qed (use j bits in auto)
  finally show ?thesis .
qed

lemma held_inv_insert:
  "held_inv h \<Longrightarrow> press_ok p \<Longrightarrow> length h < MAX_HELD \<Longrightarrow> p \<notin> presses h \<Longrightarrow> held_inv (bt_insert p s h)"
  by (auto simp: held_inv_def presses_insert bt_wf_insert btree.size_ins_new map_of_presses)

lemma held_inv_remove: "held_inv h \<Longrightarrow> held_inv (bt_remove p h)"
  using btree.size_rem [of h p] by (auto simp: held_inv_def presses_remove bt_wf_remove)

lemma transition_props:
  assumes "held_inv h" "press_ok p" "transition h p down s = (h', ok)"
  shows "held_inv h'" "ok \<Longrightarrow> presses h' = (if down then insert p (presses h) else presses h - {p})"
    "\<not> ok \<Longrightarrow> presses h' = presses h"
    "presses h' - {p} = presses h - {p}"
  using assms
  by (auto simp: transition_def map_of_presses presses_insert presses_remove held_inv_insert held_inv_remove
      split: if_splits)

section \<open>The held state mirrors the native side\<close>

lemma set_modifiers_props:
  assumes "held_inv h"
  shows "held_inv (set_modifiers h m s)" "presses (set_modifiers h m s) - range PModifier = presses h - range PModifier"
proof -
  have step: "held_inv h' \<and> presses h' - range PModifier = presses h - range PModifier"
    if st: "held_inv h" "b \<in> momentary" "h' = (if m AND b \<noteq> 0 then fst (transition h (PModifier b) True s)
        else fst (transition h (PModifier b) False s))" for h h' b
  proof -
    obtain d ok where d: "transition h (PModifier b) d s = (h', ok)" using st(3) by (metis prod.collapse)
    have p: "press_ok (PModifier b)" using st(2) by (simp add: press_ok_def)
    from transition_props [OF st(1) p d] show ?thesis by (auto simp: set_eq_iff)
  qed
  have "held_inv (foldl (\<lambda>h b. if m AND b \<noteq> 0 then fst (transition h (PModifier b) True s)
        else fst (transition h (PModifier b) False s)) h bs) \<and>
      presses (foldl (\<lambda>h b. if m AND b \<noteq> 0 then fst (transition h (PModifier b) True s)
        else fst (transition h (PModifier b) False s)) h bs) - range PModifier = presses h - range PModifier"
    if "set bs \<subseteq> momentary" for bs
    using that assms
  proof (induction bs arbitrary: h)
    case (Cons b bs)
    from step [OF Cons.prems(2) _ refl, of b] Cons.prems(1) Cons.IH show ?case by simp
  qed simp
  from this [of "[1, 2, 4, 8]"]
  show "held_inv (set_modifiers h m s)" "presses (set_modifiers h m s) - range PModifier = presses h - range PModifier"
    by (simp_all add: set_modifiers_def momentary_def)
qed

lemma native_modifiers:
  assumes "held_inv h'" "presses h' - range PModifier = S - range PModifier"
  shows "apply_native S (ModifiersChanged (modifiers h')) = presses h'"
proof -
  have "PModifier ` {b \<in> momentary. modifiers h' AND b \<noteq> 0} = presses h' \<inter> range PModifier"
    using modifiers_and [OF assms(1)] assms(1) by (fastforce simp: held_inv_def press_ok_def)
  then show ?thesis using assms(2) by (auto simp: apply_native_def)
qed

lemma normalized_key:
  "normalize_event e = e' \<Longrightarrow> (\<forall>c. e' = KeyDown c \<or> e' = KeyUp c \<longrightarrow> \<not> c \<le> 0x7e)"
  by (auto simp: normalize_event_def split: InputEvent.splits if_splits)

lemma held_event_native:
  assumes inv: "held_inv h" and ev: "held_event h e s = (h', r)"
  shows "held_inv h' \<and> presses h' = (case r of None \<Rightarrow> presses h | Some x \<Rightarrow> apply_native (presses h) x)"
proof (cases "resolve_modifier h (normalize_event e)")
  case None
  then show ?thesis using ev inv by (simp add: held_event_def)
next
  case (Some x)
  obtain h1 ok where a: "apply_event h x s = (h1, ok)" by force
  have hr: "h' = h1" "r = (if ok then Some (native_event h1 x) else None)"
    using ev Some a by (auto simp: held_event_def split: if_splits)
  have nk: "\<not> c \<le> 0x7e" if "x = KeyDown c \<or> x = KeyUp c" for c
    using Some normalized_key [OF refl, of e] that
    by (auto simp: resolve_modifier_def Let_def split: InputEvent.splits if_splits)
  have mb: "modifier_bit k = 0" if "x = Key k d m" for k d m
    using Some that by (auto simp: resolve_modifier_def Let_def split: InputEvent.splits if_splits)
  show ?thesis
  proof (cases x)
    case (Key k d m)
    show ?thesis
    proof (cases "k \<le> 0x7e")
      case True
      then have t: "transition h (PKey k) d s = (h1, ok)" "press_ok (PKey k)"
        using a Key mb [OF Key] by (simp_all add: apply_event_def press_ok_def)
      from transition_props [OF inv t(2,1)] show ?thesis
        unfolding hr by (cases d) (auto simp: Key native_event_def apply_native_def)
    next
      case False
      then show ?thesis using a Key inv unfolding hr by (auto simp: apply_event_def)
    qed
  next
    case (MouseDown b)
    show ?thesis
    proof (cases "b \<le> 2")
      case True
      then have t: "transition h (PButton b) True s = (h1, ok)" "press_ok (PButton b)"
        using a MouseDown by (simp_all add: apply_event_def press_ok_def)
      from transition_props [OF inv t(2,1)] show ?thesis
        unfolding hr by (auto simp: MouseDown native_event_def apply_native_def)
    next
      case False
      then show ?thesis using a MouseDown inv unfolding hr by (auto simp: apply_event_def)
    qed
  next
    case (MouseUp b)
    show ?thesis
    proof (cases "b \<le> 2")
      case True
      then have t: "transition h (PButton b) False s = (h1, ok)" "press_ok (PButton b)"
        using a MouseUp by (simp_all add: apply_event_def press_ok_def)
      from transition_props [OF inv t(2,1)] show ?thesis
        unfolding hr by (auto simp: MouseUp native_event_def apply_native_def)
    next
      case False
      then show ?thesis using a MouseUp inv unfolding hr by (auto simp: apply_event_def)
    qed
  next
    case (ModifiersChanged m)
    then have h1: "h1 = set_modifiers h m s" "ok" using a by (simp_all add: apply_event_def)
    show ?thesis
      using set_modifiers_props [OF inv, of m s] native_modifiers [of h1 "presses h"]
      unfolding hr by (simp add: h1 ModifiersChanged native_event_def)
  qed (use a inv nk in \<open>auto simp: hr apply_event_def native_event_def apply_native_def\<close>)
qed

lemma release_loop_native:
  assumes "release_loop ps h changed = (h', out, ch)" "held_inv h" "presses h - range PModifier = S - range PModifier"
  shows "held_inv h' \<and> presses h' = presses h - set ps \<and> ch = (changed \<or> (\<exists>b. PModifier b \<in> set ps)) \<and>
    h' = filter (\<lambda>e. fst e \<notin> set ps) h \<and>
    foldl apply_native S out - range PModifier = presses h' - range PModifier \<and>
    foldl apply_native S out \<inter> range PModifier = S \<inter> range PModifier"
  using assms
proof (induction ps arbitrary: h changed S out)
  case (Cons p ps)
  let ?h = "bt_remove p h"
  have inv: "held_inv ?h" using Cons.prems(2) by (rule held_inv_remove)
  have filt: "filter (\<lambda>e. fst e \<notin> set ps) ?h = filter (\<lambda>e. fst e \<notin> set (p # ps)) h"
    by (simp add: bt_remove_def)
  show ?case
  proof (cases p)
    case (PModifier b)
    then have r: "release_loop ps ?h True = (h', out, ch)" using Cons.prems(1) by (simp add: Let_def)
    have "presses ?h - range PModifier = S - range PModifier"
      using Cons.prems(3) PModifier by (auto simp: presses_remove)
    from Cons.IH [OF r inv this] filt show ?thesis using PModifier by (auto simp: presses_remove)
  next
    case (PKey k)
    then obtain o2 where r: "release_loop ps ?h changed = (h', o2, ch)" "out = Key k False (modifiers ?h) # o2"
      using Cons.prems(1) by (auto simp: Let_def split: prod.splits)
    have "presses ?h - range PModifier = (S - {PKey k}) - range PModifier"
      using Cons.prems(3) PKey by (auto simp: presses_remove)
    from Cons.IH [OF r(1) inv this] filt show ?thesis
      using PKey r(2) by (auto simp: presses_remove apply_native_def)
  next
    case (PButton b)
    then obtain o2 where r: "release_loop ps ?h changed = (h', o2, ch)" "out = MouseUp b # o2"
      using Cons.prems(1) by (auto simp: Let_def split: prod.splits)
    have "presses ?h - range PModifier = (S - {PButton b}) - range PModifier"
      using Cons.prems(3) PButton by (auto simp: presses_remove)
    from Cons.IH [OF r(1) inv this] filt show ?thesis
      using PButton r(2) by (auto simp: presses_remove apply_native_def)
  qed
qed (auto simp: filter_id_conv)

lemma removed_presses:
  assumes "bt_wf h"
  shows "filter (\<lambda>e. fst e \<notin> set (map fst (filter (\<lambda>e. e \<notin> set hs) h))) h = filter (\<lambda>e. e \<in> set hs) h"
proof (rule filter_cong)
  fix e assume e: "e \<in> set h"
  have "inj_on fst (set h)" using bt_wf_distinct [OF assms] by (simp add: distinct_map)
  then show "(fst e \<notin> set (map fst (filter (\<lambda>e. e \<notin> set hs) h))) = (e \<in> set hs)"
    using e by (auto dest: inj_onD)
qed simp

lemma release_missing_native:
  assumes inv: "held_inv h" and rel: "release_missing h hs = (h', out)"
  shows "held_inv h' \<and> h' = filter (\<lambda>e. e \<in> set hs) h \<and> foldl apply_native (presses h) out = presses h'"
proof -
  let ?ps = "map fst (filter (\<lambda>e. e \<notin> set hs) h)"
  obtain o1 ch where r: "release_loop ?ps h False = (h', o1, ch)"
      and out: "out = (if ch then o1 @ [ModifiersChanged (modifiers h')] else o1)"
    using rel by (auto simp: release_missing_def Let_def split: prod.splits)
  note R = release_loop_native [OF r inv refl]
  have h': "h' = filter (\<lambda>e. e \<in> set hs) h"
    using R removed_presses [of h hs] inv by (simp add: held_inv_def)
  have "foldl apply_native (presses h) out = presses h'"
  proof (cases ch)
    case True
    have "apply_native (foldl apply_native (presses h) o1) (ModifiersChanged (modifiers h')) = presses h'"
      by (rule native_modifiers) (use R in auto)
    then show ?thesis using out True by simp
  next
    case False
    then have "presses h' \<inter> range PModifier = presses h \<inter> range PModifier" using R by auto
    then show ?thesis using R out False by (simp add: set_eq_iff) blast
  qed
  then show ?thesis using R h' by blast
qed

lemma apply_payload_native:
  assumes inv: "held_inv h" and ap: "apply_payload h p s = Some (h', out)"
  shows "held_inv h' \<and> foldl apply_native (presses h) out = presses h'"
proof (cases p)
  case (PayloadEvent e)
  obtain g r where g: "held_event (h :: HeldState) e s = (g, r)" by force
  have "h' = g \<and> out = (case r of None \<Rightarrow> [] | Some x \<Rightarrow> [x])"
    using ap by (cases r) (simp_all add: apply_payload_def PayloadEvent g)
  then show ?thesis using held_event_native [OF inv g] by (cases r) simp_all
qed (use ap release_missing_native [OF inv] in \<open>auto simp: apply_payload_def split: if_splits\<close>)

text \<open>The outcomes of \<open>accept\<close>.\<close>

lemma lease_accept_cases:
  obtains (ignored) "lease_accept l p now i j = (l, None)"
  | (burnt) "lease_accept l p now i j = (l\<lparr>high_water := ri_sequence p\<rparr>, None)" "high_water l < ri_sequence p"
  | (taken) h' out l' where "lease_accept l p now i j = (l', Some out)" "high_water l < ri_sequence p" "\<not> expired l now i"
      "apply_payload (held l) (ri_payload p) (ri_sequence p) = Some (h', out)"
      "ri_binding p = binding l" "ri_created_host_ms p \<le> now" "now - ri_created_host_ms p \<le> MAX_INPUT_AGE_MS"
      "\<not> chord_mismatch (held l) (ri_payload p)"
      "held l' = h'" "high_water l' = ri_sequence p" "revoked l' = revoked l" "binding l' = binding l"
      "last_held_ms l' = (if h' \<noteq> [] \<and> (held l = [] \<or> is_held_payload (ri_payload p)) then ri_created_host_ms p else last_held_ms l)"
      "last_valid_ms l' = ri_created_host_ms p"
      "h' \<noteq> [] \<and> (held l = [] \<or> is_held_payload (ri_payload p)) \<or> last_held l' = last_held l"
proof (cases "ri_binding p \<noteq> binding l \<or> ri_sequence p \<le> high_water l \<or> expired l now i")
  case True
  then show ?thesis using ignored by (simp add: lease_accept_def)
next
  case ok: False
  show ?thesis
  proof (cases "ri_created_host_ms p > now \<or> now - ri_created_host_ms p > MAX_INPUT_AGE_MS \<or> chord_mismatch (held l) (ri_payload p)
      \<or> apply_payload (held l) (ri_payload p) (ri_sequence p) = None")
    case True
    then show ?thesis using burnt ok by (auto simp: lease_accept_def Let_def not_le)
  next
    case False
    then obtain h' out where ap: "apply_payload (held l) (ri_payload p) (ri_sequence p) = Some (h', out)" by auto
    obtain l' where l': "lease_accept l p now i j = (l', Some out)"
      using ok False ap by (simp add: lease_accept_def Let_def)
    then have "l' = fst (lease_accept l p now i j)" by simp
    then show ?thesis
      by (intro taken [OF l' _ _ ap]) (use ok False ap in \<open>auto simp: lease_accept_def Let_def not_less not_le\<close>)
  qed
qed

section \<open>Runs of a lease\<close>

datatype lease_op = AcceptOp RealtimeInput u64 nat nat | RevokeOp

definition lease_step :: "InputLease \<Rightarrow> lease_op \<Rightarrow> InputLease \<times> InputEvent list option" where
  "lease_step l x = (case x of AcceptOp p now i j \<Rightarrow> lease_accept l p now i j | RevokeOp \<Rightarrow> (revoke l, None))"

fun lease_run :: "InputLease \<Rightarrow> lease_op list \<Rightarrow> InputLease \<times> InputEvent list" where
  "lease_run l [] = (l, [])"
| "lease_run l (x # xs) = (case lease_step l x of (l1, r) \<Rightarrow>
     (case lease_run l1 xs of (l2, evs) \<Rightarrow> (l2, (case r of None \<Rightarrow> [] | Some out \<Rightarrow> out) @ evs)))"

lemma lease_run_Cons:
  "lease_step l x = (l1, r) \<Longrightarrow> lease_run l (x # xs) =
     (fst (lease_run l1 xs), (case r of None \<Rightarrow> [] | Some out \<Rightarrow> out) @ snd (lease_run l1 xs))"
  by (simp add: split_beta)

definition accepted_sequence :: "InputLease \<Rightarrow> lease_op \<Rightarrow> InputLease \<times> u64 option" where
  "accepted_sequence l x = (case lease_step l x of (l', r) \<Rightarrow> (l', case (x, r) of
     (AcceptOp p _ _ _, Some _) \<Rightarrow> Some (ri_sequence p) | _ \<Rightarrow> None))"

lemma lease_step_native:
  assumes "held_inv (held l)" "lease_step l x = (l', r)"
  shows "held_inv (held l') \<and>
    foldl apply_native (presses (held l)) (case r of None \<Rightarrow> [] | Some out \<Rightarrow> out) = presses (held l')"
proof (cases x)
  case (AcceptOp p now i j)
  show ?thesis
    by (rule lease_accept_cases [of l p now i j])
      (use assms AcceptOp apply_payload_native [OF assms(1)] in \<open>auto simp: lease_step_def\<close>)
qed (use assms in \<open>auto simp: lease_step_def revoke_def\<close>)

lemma lease_run_native:
  assumes "held_inv (held l)"
  shows "held_inv (held (fst (lease_run l xs))) \<and>
    foldl apply_native (presses (held l)) (snd (lease_run l xs)) = presses (held (fst (lease_run l xs)))"
  using assms
proof (induction xs arbitrary: l)
  case (Cons x xs)
  obtain l1 r where st: "lease_step l x = (l1, r)" by force
  from lease_step_native [OF Cons.prems st] Cons.IH [of l1] show ?case
    by (simp add: lease_run_Cons [OF st] del: lease_run.simps)
qed simp

interpretation input_once: at_most_once accepted_sequence "\<lambda>l k. k \<le> high_water l" "\<lambda>_. True"
proof unfold_locales
  fix l x l' k r
  {
    assume "accepted_sequence l x = (l', Some k)"
    then obtain p now i j out where x: "x = AcceptOp p now i j" "lease_accept l p now i j = (l', Some out)" "k = ri_sequence p"
      by (auto simp: accepted_sequence_def lease_step_def split: lease_op.splits prod.splits option.splits)
    show "\<not> k \<le> high_water l" "k \<le> high_water l'"
      by (rule lease_accept_cases [of l p now i j]; use x in auto)+
  }
  assume st: "accepted_sequence l x = (l', r)" and k: "k \<le> high_water l"
  show "k \<le> high_water l'"
  proof (cases x)
    case (AcceptOp p now i j)
    show ?thesis
      by (rule lease_accept_cases [of l p now i j])
        (use st k AcceptOp in \<open>auto simp: accepted_sequence_def lease_step_def\<close>)
  qed (use st k in \<open>auto simp: accepted_sequence_def lease_step_def revoke_def\<close>)
qed simp

text \<open>
  C7. Whatever packets a lease receives, the presses held by the operating system after the events the
  lease let through are exactly the presses the lease records, at most 64 of them: no press is
  duplicated, lost track of or released twice.
\<close>

theorem native_presses_mirrored:
  "foldl apply_native {} (snd (lease_run (lease_new b now i) ops)) =
     presses (held (fst (lease_run (lease_new b now i) ops))) \<and>
   length (held (fst (lease_run (lease_new b now i) ops))) \<le> MAX_HELD"
proof -
  have "held_inv (held (lease_new b now i))" by (simp add: lease_new_def held_inv_def presses_def)
  from lease_run_native [OF this, of ops] show ?thesis by (simp add: held_inv_def lease_new_def presses_def)
qed

text \<open>
  No input sequence number takes effect twice, in any order of arrival and across expiry and revocation.
\<close>

theorem input_sequence_takes_effect_once:
  "distinct (accepted_keys accepted_sequence (lease_new b now i) ops)"
  by (rule input_once.accepted_distinct) simp

text \<open>
  A held snapshot can only release: after it the lease holds exactly the entries it held before that
  the snapshot confirms, with the same sequence numbers; an accepted \<open>Release\<close> leaves nothing pressed.
\<close>

theorem snapshots_only_release:
  assumes "held_inv (held l)" "lease_accept l p now i j = (l', Some out)"
    and "ri_payload p = PayloadHeld hs \<or> ri_payload p = PayloadRelease \<and> hs = []"
  shows "held l' = filter (\<lambda>e. e \<in> set hs) (held l) \<and> foldl apply_native (presses (held l)) out = presses (held l') \<and>
    (if ri_payload p = PayloadRelease then held l' = [] else True)"
proof (rule lease_accept_cases [of l p now i j])
  fix h' o2 l2
  assume a: "lease_accept l p now i j = (l2, Some o2)" "held l2 = h'"
    "apply_payload (held l) (ri_payload p) (ri_sequence p) = Some (h', o2)"
  have "release_missing (held l) hs = (h', o2)"
    using a(3) assms(3) by (auto simp: apply_payload_def split: if_splits)
  from release_missing_native [OF assms(1) this] show ?thesis using a(1,2) assms(2,3) by auto
qed (use assms(2) in auto)

section \<open>The hold budget\<close>

lemma set_bt_insert_sub: "set (bt_insert k v m) \<subseteq> insert (k, v) (set m)"
  by (induction k v m rule: bt_insert.induct) auto

lemma transition_entries: "set (fst (transition h p d s)) \<subseteq> set h \<union> UNIV \<times> {s}"
  using set_bt_insert_sub [of p s h] by (auto simp: transition_def bt_remove_def)

lemma set_modifiers_entries: "set (set_modifiers h m s) \<subseteq> set h \<union> UNIV \<times> {s}"
proof -
  have "set (foldl (\<lambda>h b. if m AND b \<noteq> 0 then fst (transition h (PModifier b) True s)
        else fst (transition h (PModifier b) False s)) h bs) \<subseteq> set h \<union> UNIV \<times> {s}" for bs
  proof (induction bs arbitrary: h)
    case (Cons b bs)
    show ?case
      using Cons.IH [of "if m AND b \<noteq> 0 then fst (transition h (PModifier b) True s) else fst (transition h (PModifier b) False s)"]
        transition_entries [of h "PModifier b" _ s] by (auto split: if_splits)
  qed simp
  then show ?thesis by (simp add: set_modifiers_def del: foldl.simps)
qed

lemma apply_event_entries: "set (fst (apply_event h e s)) \<subseteq> set h \<union> UNIV \<times> {s}"
  using transition_entries set_modifiers_entries by (cases e) (auto simp: apply_event_def)

lemma release_missing_entries: "held_inv h \<Longrightarrow> release_missing h hs = (h', out) \<Longrightarrow> set h' \<subseteq> set h"
  using release_missing_native [of h hs h' out] by auto

lemma apply_payload_entries:
  assumes "held_inv h" "apply_payload h p s = Some (h', out)"
  shows "set h' \<subseteq> set h \<union> UNIV \<times> {s}"
proof (cases p)
  case (PayloadEvent e)
  have "fst (held_event h e s) = h \<or> (\<exists>x. fst (held_event h e s) = fst (apply_event h x s))"
    by (auto simp: held_event_def split_beta split: option.splits)
  then have "set (fst (held_event h e s)) \<subseteq> set h \<union> UNIV \<times> {s}"
    using apply_event_entries [of h _ s] by (elim disjE exE) simp_all
  moreover have "h' = fst (held_event h e s)"
    using assms(2) PayloadEvent by (auto simp: apply_payload_def split: prod.splits option.splits)
  ultimately show ?thesis by simp
qed (use assms(2) release_missing_entries [OF assms(1)] in \<open>fastforce simp: apply_payload_def split: if_splits\<close>)+

definition lease_inv :: "InputLease \<Rightarrow> bool" where
  "lease_inv l \<longleftrightarrow> held_inv (held l) \<and> (\<forall>(p, s) \<in> set (held l). s \<le> high_water l)"

lemma lease_step_entries:
  assumes "lease_inv l" "lease_step l x = (l', r)"
  shows "lease_inv l' \<and> high_water l \<le> high_water l' \<and>
    (\<forall>p s. (p, s) \<in> set (held l') \<longrightarrow> (p, s) \<in> set (held l) \<or> high_water l < s)"
proof (cases x)
  case (AcceptOp p now i j)
  have inv: "held_inv (held l)" "\<And>p s. (p, s) \<in> set (held l) \<Longrightarrow> s \<le> high_water l"
    using assms(1) by (auto simp: lease_inv_def)
  show ?thesis
  proof (rule lease_accept_cases [of l p now i j])
    fix h' out l1
    assume a: "lease_accept l p now i j = (l1, Some out)" "high_water l < ri_sequence p"
      "apply_payload (held l) (ri_payload p) (ri_sequence p) = Some (h', out)" "held l1 = h'" "high_water l1 = ri_sequence p"
    have "l' = l1" using assms(2) a(1) AcceptOp by (simp add: lease_step_def)
    then show ?thesis
      using apply_payload_entries [OF inv(1) a(3)] apply_payload_native [OF inv(1) a(3)] a inv(2)
      by (fastforce simp: lease_inv_def)
  next
    assume "lease_accept l p now i j = (l\<lparr>high_water := ri_sequence p\<rparr>, None)" "high_water l < ri_sequence p"
    then show ?thesis
      using assms(2) AcceptOp inv by (fastforce simp: lease_step_def lease_inv_def intro: order_trans [OF _ less_imp_le])
  qed (use assms AcceptOp in \<open>auto simp: lease_step_def\<close>)
qed (use assms in \<open>auto simp: lease_step_def revoke_def lease_inv_def\<close>)

lemma released_stays_released:
  assumes "lease_inv l" "(p, s) \<notin> set (held l)" "s \<le> high_water l"
  shows "(p, s) \<notin> set (held (fst (lease_run l xs)))"
  using assms
proof (induction xs arbitrary: l)
  case (Cons x xs)
  obtain l1 r where st: "lease_step l x = (l1, r)" by force
  from lease_step_entries [OF Cons.prems(1) st] Cons.prems(2,3)
  have "lease_inv l1" "(p, s) \<notin> set (held l1)" "s \<le> high_water l1" by fastforce+
  from Cons.IH [OF this] show ?case by (simp add: lease_run_Cons [OF st] del: lease_run.simps)
qed simp

definition refreshes :: "lease_op \<Rightarrow> bool" where
  "refreshes x = (case x of AcceptOp p _ _ _ \<Rightarrow> is_held_payload (ri_payload p) | RevokeOp \<Rightarrow> False)"

lemma lease_step_budget:
  assumes "lease_step l x = (l', r)" "held l \<noteq> []" "\<not> refreshes x"
  shows "last_held_ms l' = last_held_ms l \<and> last_held l' = last_held l"
proof (cases x)
  case (AcceptOp p now i j)
  show ?thesis
    by (rule lease_accept_cases [of l p now i j])
      (use assms AcceptOp in \<open>auto simp: lease_step_def refreshes_def\<close>)
qed (use assms in \<open>auto simp: lease_step_def revoke_def\<close>)

lemma budget_run:
  assumes "lease_inv l" "(p, s) \<in> set (held l)" "list_all (\<lambda>x. \<not> refreshes x) xs" "(p, s) \<in> set (held (fst (lease_run l xs)))"
  shows "last_held_ms (fst (lease_run l xs)) = last_held_ms l \<and> last_held (fst (lease_run l xs)) = last_held l"
  using assms
proof (induction xs arbitrary: l)
  case (Cons x xs)
  obtain l1 r where st: "lease_step l x = (l1, r)" by force
  have run: "fst (lease_run l (x # xs)) = fst (lease_run l1 xs)"
    by (simp add: lease_run_Cons [OF st] del: lease_run.simps)
  note E = lease_step_entries [OF Cons.prems(1) st]
  have "s \<le> high_water l" using Cons.prems(1,2) by (auto simp: lease_inv_def)
  then have "s \<le> high_water l1" using E by (blast intro: order_trans)
  then have "(p, s) \<in> set (held l1)"
    using released_stays_released [of l1 p s xs] E Cons.prems(4) unfolding run by blast
  moreover have "last_held_ms l1 = last_held_ms l \<and> last_held l1 = last_held l"
    using lease_step_budget [OF st] Cons.prems(2,3) by (cases "held l") auto
  ultimately show ?case using Cons.IH [of l1] E Cons.prems(3,4) unfolding run by simp
qed simp

text \<open>
  Only a held snapshot renews a press: as long as the same press (same sequence number) is still
  held, whatever other packets were accepted since, its budget still runs from the packet that
  started it, and 300 ms after that the lease is expired on either clock.
\<close>

theorem press_budget_not_extended:
  assumes "lease_inv l" "(p, s) \<in> set (held l)" "list_all (\<lambda>x. \<not> refreshes x) xs"
    and l': "l' = fst (lease_run l xs)" "(p, s) \<in> set (held l')"
    and late: "unat (last_held_ms l) + 300 \<le> unat now \<or> last_held l + 300 * 1000000 \<le> inst"
  shows "expired l' now inst \<and> lease_accept l' q now inst j = (l', None)"
proof -
  have b: "last_held_ms l' = last_held_ms l" "last_held l' = last_held l"
    using budget_run [OF assms(1-3)] l' by simp_all
  have "expired l' now inst"
    using late
  proof
    assume "unat (last_held_ms l) + 300 \<le> unat now"
    then have "HOLD_TIMEOUT_MS \<le> saturating_sub now (last_held_ms l')"
      by (simp add: HOLD_TIMEOUT_MS_def word_le_nat_alt machine_simps b)
    then show ?thesis using l'(2) by (auto simp: expired_def)
  next
    assume "last_held l + 300 * 1000000 \<le> inst"
    then have "300 \<le> elapsed_ms (last_held l') inst" by (simp add: elapsed_ms_def b)
    then show ?thesis using l'(2) by (auto simp: expired_def HOLD_TIMEOUT_MS_def)
  qed
  then show ?thesis by (simp add: lease_accept_def)
qed

section \<open>Examples\<close>

definition demo_binding :: InputBinding where
  "demo_binding = \<lparr>connection_id = 1, subscription_id = 7, source_revision = 3, epoch = replicate 16 1\<rparr>"

definition demo_lease :: InputLease where
  "demo_lease = (lease_new demo_binding 1000 0)\<lparr>held := [(PKey 9, 1)], high_water := 1\<rparr>"

definition demo_packet :: "u64 \<Rightarrow> u64 \<Rightarrow> InputPayload \<Rightarrow> RealtimeInput" where
  "demo_packet s t p = \<lparr>ri_binding = demo_binding, ri_sequence = s, ri_created_host_ms = t, ri_payload = p\<rparr>"

lemmas demo_lease_simps = demo_lease_def demo_packet_def lease_new_def lease_accept_def expired_def HOLD_TIMEOUT_MS_def
  MAX_INPUT_AGE_MS_def MAX_HELD_def elapsed_ms_def saturating_sub_def ms_to_ns_def chord_mismatch_def apply_payload_def
  is_held_payload_def held_event_def resolve_modifier_def normalize_event_def apply_event_def native_event_def

lemma demo_lease_inv: "lease_inv demo_lease"
  by (simp add: demo_lease_def lease_new_def lease_inv_def held_inv_def presses_def press_ok_def modifier_bit_def MAX_HELD_def bt_wf_def)

theorem press_budget_not_extended_witness:
  "expired (fst (lease_run demo_lease [AcceptOp (demo_packet 2 1100 (PayloadEvent (MouseMove 1 1))) 1100 0 0])) 1300 0"
proof -
  let ?xs = "[AcceptOp (demo_packet 2 1100 (PayloadEvent (MouseMove 1 1))) 1100 0 0]"
  have "held (fst (lease_run demo_lease ?xs)) = [(PKey 9, 1)]"
    by (simp add: lease_step_def demo_lease_simps Let_def)
  then show ?thesis
    using press_budget_not_extended [OF demo_lease_inv, of "PKey 9" 1 ?xs _ 1300 0 _ 0]
    by (simp add: refreshes_def demo_packet_def is_held_payload_def) (simp add: demo_lease_def lease_new_def)
qed

theorem snapshots_only_release_witness:
  "held (fst (lease_accept demo_lease (demo_packet 2 1100 PayloadRelease) 1100 0 0)) = []"
proof -
  have "\<exists>l' out. lease_accept demo_lease (demo_packet 2 1100 PayloadRelease) 1100 0 0 = (l', Some out)"
    by (simp add: demo_lease_simps Let_def release_missing_def bt_remove_def word_le_nat_alt word_less_nat_alt)
  then obtain l' out where a: "lease_accept demo_lease (demo_packet 2 1100 PayloadRelease) 1100 0 0 = (l', Some out)"
    by blast
  have "held_inv (held demo_lease)" using demo_lease_inv by (simp add: lease_inv_def)
  from snapshots_only_release [OF this a, of "[]"] show ?thesis unfolding a by (simp add: demo_packet_def)
qed

end
