(* ===== verification/Control_Messages.thy ===== *)
theory Control_Messages
  imports Session_Auth Input_Lease
begin

text \<open>
  The control messages of a connection: \<open>ControlMessage\<close> (\<open>protocol/src/lib.rs\<close>), the session commands and
  capture sources (\<open>protocol/src/session.rs\<close>), the clock records (\<open>protocol/src/session_auth.rs\<close>) and the
  telemetry reports (\<open>protocol/src/timing.rs\<close>).  They are data that other components send and match on.
  An \<open>f32\<close> is kept as its 32 bits: no modelled code computes with it.
\<close>

section \<open>Capture sources and subscriptions\<close>

definition SESSION_VERSION :: u32 where "SESSION_VERSION = 2"
definition MAX_SUBSCRIPTIONS :: nat where "MAX_SUBSCRIPTIONS = 8"

datatype CaptureSource = MainDisplay | Display u32 | Window u32

record CaptureSourceInfo =
  csi_source :: CaptureSource
  csi_title :: string
  csi_application :: string
  csi_process_id :: "int option"
  csi_width :: u32
  csi_height :: u32
  csi_supports_input :: bool

record SubscriptionRequest =
  sub_id :: u32
  sub_source :: CaptureSource
  sub_width :: u32
  sub_height :: u32
  sub_fps :: u32
  sub_bitrate_kbps :: u32
  sub_audio :: bool

datatype DeliveryState = DS_Pending | DS_Accepted | DS_Claimed | DS_Cancelled | DS_Rejected | DS_Receiving

record DeliveryClaimProof =
  dcp_ticket :: bytes
  dcp_target_device_id :: string
  dcp_request_id :: u64

text \<open>The arguments of each constructor are the fields of the source's variant, in its order.\<close>

datatype SessionCommand =
  SC_ReleaseInput u32
| SC_InputReleased u32
| SC_Configure u32 u64 u32 u32 u32 u32
| SC_Configured u32 u64
| SC_Closed u32 string
| SC_SetClipboard bool
| SC_ClipboardState bool
| SC_Open u32 u32
| SC_Opened u32 u32 u32 bool bool bool
| SC_ListSources u32
| SC_Sources u32 "CaptureSourceInfo list"
| SC_Subscribe SubscriptionRequest
| SC_Subscribed u32 "u32 option" bool
| SC_Input u32 InputEvent
| SC_SetActivity u32 u64 bool bool
| SC_Activity u32 u64 bool bool
| SC_Unsubscribe u32
| SC_Unsubscribed u32
| SC_Close u32
| SC_Error u32 string
| SC_SwitchSource u32 u32 CaptureSource
| SC_SourceSwitched u32 u32 CaptureSource bool
| SC_SourceInput u32 u32 InputEvent
| SC_RequestInputBinding u32 u32 u32 u64
| SC_InputBinding InputBinding u64 u64
| SC_RealtimeInput RealtimeInput
| SC_InputHandled InputBinding u64
| SC_DeliveryOffer u64 string string bytes u64
| SC_DeliveryClaim u64 string bytes
| SC_DeliveryCancel u64
| SC_DeliveryReceipt u64 u64 DeliveryState string

section \<open>Telemetry reports and clock records\<close>

record StageLatencyStats =
  sls_min_us :: u32
  sls_p50_us :: u32
  sls_p95_us :: u32
  sls_p99_us :: u32
  sls_max_us :: u32
  sls_avg_us :: u32
  sls_stddev_us :: u32
  sls_sample_count :: u32

record PipelineTelemetryReport =
  ptr_session_id :: u32
  ptr_timestamp_ms :: u64
  ptr_fps :: u32
  ptr_bitrate_kbps :: u32
  ptr_stage_stats :: "StageLatencyStats list"
  ptr_e2e_stats :: StageLatencyStats
  ptr_jitter_buffer_depth :: nat
  ptr_packets_lost :: u64
  ptr_late_frames_dropped :: u64
  ptr_queue_full_dropped :: u64
  ptr_corrupt_frames_dropped :: u64

record ClockProbe =
  cp_session_id :: bytes
  cp_probe_id :: u64
  cp_client_send_us :: u64

record ClockReply =
  cr_probe :: ClockProbe
  cr_host_recv_us :: u64
  cr_host_send_us :: u64

section \<open>Control messages\<close>

datatype ControlMessage =
  CM_HandshakeReq
| CM_HandshakeAck
| CM_Input InputEvent
| CM_ForceFeedback
| CM_HostTelemetry u32 u32 u32 u32
| CM_StartStream u32 u32 u32 u32 u32
| CM_StopStream
| CM_AudioControl u32 AudioControlTarget bool u8
| CM_Heartbeat
| CM_UpdateStreamSettings u32 u32 u32 u32 u32
| CM_Ping u64
| CM_Pong u64 u64 u64
| CM_RequestKeyframe u32
| CM_SessionHello bytes u64 bytes
| CM_SessionAccept bytes u64 bytes
| CM_SessionReject string
| CM_PipelineTelemetry PipelineTelemetryReport
| CM_SetMediaPaused u32 u64 bool
| CM_MediaPauseState u32 u64 bool
| CM_Session SessionCommand
| CM_SessionHandshake HandshakeMessage
| CM_ClockProbe ClockProbe
| CM_ClockReply ClockReply

text \<open>The messages that travel in the clear because they establish the keys.\<close>

definition is_handshake :: "ControlMessage \<Rightarrow> bool" where
  "is_handshake m = (case m of CM_SessionHandshake _ \<Rightarrow> True | CM_SessionHello _ _ _ \<Rightarrow> True
     | CM_SessionAccept _ _ _ \<Rightarrow> True | CM_SessionReject _ \<Rightarrow> True | _ \<Rightarrow> False)"

end
