(* ===== verification/Workspace_Input.thy ===== *)
theory Workspace_Input
  imports Control_Messages
begin

text \<open>
  The viewer's side of realtime input (\<open>remote_core/src/workspace_input.rs\<close>): one slot per subscription with
  the binding granted by the host, the presses the user holds, and the packets sealed for it.  The host's
  side is the lease of \<open>Input_Lease\<close>; both keep a \<open>HeldState\<close> of the protocol crate.

  Times are nanoseconds on the monotonic clock, as in \<open>Input_Lease\<close>; the readings one call takes are one
  argument \<open>now\<close>.  A \<open>HashMap\<close> is an association list; nothing depends on its order.
\<close>

section \<open>State\<close>

record SenderLease =
  wl_binding :: InputBinding
  wl_host_ms :: u64
  wl_received :: nat
  wl_sequence :: u64
  wl_held :: HeldState
  wl_release :: "u64 option"
  wl_frontend_intent :: "nat option"
  wl_frontend_expired :: bool

record InputSlot =
  sl_enabled :: bool
  sl_revision :: u32
  sl_request :: u64
  sl_lease :: "SenderLease option"

record InputState =
  is_slots :: "(u32 \<times> InputSlot) list"
  is_next_request :: u64

definition input_state_default :: InputState where
  "input_state_default = \<lparr>is_slots = [], is_next_request = 0\<rparr>"

abbreviation put_slot :: "u32 \<Rightarrow> InputSlot \<Rightarrow> InputState \<Rightarrow> InputState" where
  "put_slot i s st \<equiv> st\<lparr>is_slots := AList.update i s (is_slots st)\<rparr>"

section \<open>The lease of one slot\<close>

definition expire_frontend :: "nat \<Rightarrow> SenderLease \<Rightarrow> SenderLease \<times> bool" where
  "expire_frontend now l =
     (if (case wl_frontend_intent l of None \<Rightarrow> False | Some t \<Rightarrow> elapsed_ms t now \<ge> unat HOLD_TIMEOUT_MS)
      then (l\<lparr>wl_held := [], wl_frontend_intent := None, wl_frontend_expired := True\<rparr>, True)
      else (l, False))"

definition sender_packet :: "nat \<Rightarrow> InputPayload \<Rightarrow> SenderLease \<Rightarrow> SenderLease \<times> RealtimeInput option" where
  "sender_packet now payload l =
     (case checked_add (wl_sequence l) 1 of
        None \<Rightarrow> (l, None)
      | Some q \<Rightarrow> (l\<lparr>wl_sequence := q\<rparr>, Some \<lparr>ri_binding = wl_binding l, ri_sequence = q,
          ri_created_host_ms = saturating_add (wl_host_ms l) (word_of_nat (elapsed_ms (wl_received l) now)),
          ri_payload = payload\<rparr>))"

text \<open>The payload of an event, or of a release (\<open>None\<close>), and the held state it leaves.\<close>

definition seal_payload :: "InputEvent option \<Rightarrow> SenderLease \<Rightarrow> SenderLease \<times> (InputPayload, string) result" where
  "seal_payload event l =
     (case event of
        None \<Rightarrow> (l\<lparr>wl_held := [], wl_frontend_intent := None, wl_frontend_expired := False\<rparr>, Ok PayloadRelease)
      | Some ev \<Rightarrow>
        (case checked_add (wl_sequence l) 1 of
           None \<Rightarrow> (l, Err ''input sequence exhausted'')
         | Some q \<Rightarrow>
           if chord_mismatch (wl_held l) (PayloadEvent ev) then (l, Err ''input modifier ownership changed'')
           else (case held_event (wl_held l) ev q of
             (h, None) \<Rightarrow> (l\<lparr>wl_held := h\<rparr>, Err ''duplicate or unowned input transition'')
           | (h, Some e) \<Rightarrow> (l\<lparr>wl_held := h\<rparr>, Ok (PayloadEvent e)))))"

definition seal_lease ::
  "nat \<Rightarrow> InputEvent option \<Rightarrow> SenderLease \<Rightarrow> SenderLease \<times> (RealtimeInput, string) result" where
  "seal_lease now event l =
     (let l1 = fst (expire_frontend now l); was_empty = (wl_held l1 = []) in
      case seal_payload event l1 of
        (l2, Inl e) \<Rightarrow> (l2, Err e)
      | (l2, Inr payload) \<Rightarrow>
        let l3 = (if event \<noteq> None \<and> was_empty \<and> wl_held l2 \<noteq> []
                  then l2\<lparr>wl_frontend_intent := Some now, wl_frontend_expired := False\<rparr> else l2);
            l4 = (if wl_held l3 = [] then l3\<lparr>wl_frontend_intent := None\<rparr> else l3) in
        (case sender_packet now payload l4 of
           (l5, None) \<Rightarrow> (l5, Err ''input sequence exhausted'')
         | (l5, Some p) \<Rightarrow> (if event = None then l5\<lparr>wl_release := Some (ri_sequence p)\<rparr> else l5, Ok p)))"

section \<open>Operations\<close>

definition source_slot :: "u32 \<Rightarrow> u32 \<Rightarrow> InputState \<Rightarrow> InputState" where
  "source_slot i revision st =
     put_slot i \<lparr>sl_enabled = True, sl_revision = revision, sl_request = 0, sl_lease = None\<rparr> st"

definition remove_slot :: "u32 \<Rightarrow> InputState \<Rightarrow> InputState" where
  "remove_slot i st = st\<lparr>is_slots := AList.delete i (is_slots st)\<rparr>"

definition ready :: "nat \<Rightarrow> u32 \<Rightarrow> u32 \<Rightarrow> InputState \<Rightarrow> bool" where
  "ready now i revision st =
     (case map_of (is_slots st) i of
        None \<Rightarrow> False
      | Some slot \<Rightarrow> sl_enabled slot \<and> sl_revision slot = revision \<and>
          (case sl_lease slot of None \<Rightarrow> False | Some l \<Rightarrow> elapsed_ms (wl_received l) now \<le> 750))"

definition current_binding :: "nat \<Rightarrow> u32 \<Rightarrow> u32 \<Rightarrow> InputState \<Rightarrow> InputBinding option" where
  "current_binding now i revision st =
     (if ready now i revision st
      then Option.bind (map_of (is_slots st) i) (\<lambda>slot. map_option wl_binding (sl_lease slot)) else None)"

definition sender_lease_new :: "nat \<Rightarrow> InputBinding \<Rightarrow> u64 \<Rightarrow> SenderLease" where
  "sender_lease_new now b host_ms = \<lparr>wl_binding = b, wl_host_ms = host_ms, wl_received = now, wl_sequence = 0,
     wl_held = [], wl_release = None, wl_frontend_intent = None, wl_frontend_expired = False\<rparr>"

definition grant :: "nat \<Rightarrow> u32 \<Rightarrow> InputBinding \<Rightarrow> u64 \<Rightarrow> u64 \<Rightarrow> InputState \<Rightarrow> InputState" where
  "grant now connection b request host_ms st =
     (let i = subscription_id b in
      case map_of (is_slots st) i of
        None \<Rightarrow> st
      | Some slot \<Rightarrow>
        if \<not> sl_enabled slot \<or> connection_id b \<noteq> connection \<or> sl_revision slot \<noteq> source_revision b
           \<or> sl_request slot \<noteq> request \<or> request = 0 then st
        else put_slot i (slot\<lparr>sl_request := 0, sl_lease := Some
          (case sl_lease slot of
             Some l \<Rightarrow> if wl_binding l = b then l\<lparr>wl_host_ms := host_ms, wl_received := now\<rparr>
               else sender_lease_new now b host_ms
           | None \<Rightarrow> sender_lease_new now b host_ms)\<rparr>) st)"

fun request_slots :: "u32 \<Rightarrow> u64 \<Rightarrow> (u32 \<times> InputSlot) list \<Rightarrow> u64 \<times> (u32 \<times> InputSlot) list \<times> SessionCommand list" where
  "request_slots connection n [] = (n, [], [])"
| "request_slots connection n ((i, slot) # rest) =
     (case (if sl_enabled slot then checked_add n 1 else None) of
        None \<Rightarrow> (case request_slots connection n rest of (m, ss, cs) \<Rightarrow> (m, (i, slot) # ss, cs))
      | Some k \<Rightarrow> (case request_slots connection k rest of (m, ss, cs) \<Rightarrow>
          (m, (i, slot\<lparr>sl_request := k\<rparr>) # ss, SC_RequestInputBinding connection i (sl_revision slot) k # cs)))"

definition requests :: "u32 \<Rightarrow> InputState \<Rightarrow> InputState \<times> SessionCommand list" where
  "requests connection st =
     (case request_slots connection (is_next_request st) (is_slots st) of
        (n, slots, cs) \<Rightarrow> (\<lparr>is_slots = slots, is_next_request = n\<rparr>, cs))"

definition refresh_bound :: "nat \<Rightarrow> InputBinding \<Rightarrow> InputState \<Rightarrow> InputState \<times> bool" where
  "refresh_bound now b st =
     (let i = subscription_id b in
      if current_binding now i (source_revision b) st \<noteq> Some b then (st, False)
      else case map_of (is_slots st) i of
        None \<Rightarrow> (st, False)
      | Some slot \<Rightarrow>
        (case sl_lease slot of
           None \<Rightarrow> (st, False)
         | Some l \<Rightarrow>
           let (l1, gone) = expire_frontend now l in
           if gone \<or> wl_frontend_expired l1 then (put_slot i (slot\<lparr>sl_lease := Some l1\<rparr>) st, False)
           else (put_slot i (slot\<lparr>sl_lease := Some (if wl_held l1 \<noteq> [] then l1\<lparr>wl_frontend_intent := Some now\<rparr> else l1)\<rparr>) st, True)))"

text \<open>The periodic snapshot of one slot.\<close>

definition snapshot_slot :: "nat \<Rightarrow> InputSlot \<Rightarrow> InputSlot \<times> RealtimeInput option" where
  "snapshot_slot now slot =
     (case sl_lease slot of
        None \<Rightarrow> (slot, None)
      | Some l0 \<Rightarrow>
        if elapsed_ms (wl_received l0) now > 750 then (slot\<lparr>sl_lease := None\<rparr>, None)
        else let
          l1 = fst (expire_frontend now l0);
          age = (if wl_held l1 = [] then 0 else case wl_frontend_intent l1 of None \<Rightarrow> 0 | Some t \<Rightarrow> word_of_nat (elapsed_ms t now))
        in case sender_packet now (PayloadHeld (wl_held l1)) l1 of
          (l2, None) \<Rightarrow> (slot\<lparr>sl_lease := Some l2\<rparr>, None)
        | (l2, Some p) \<Rightarrow> (slot\<lparr>sl_lease := Some l2\<rparr>,
            Some (p\<lparr>ri_created_host_ms := saturating_sub (ri_created_host_ms p) age\<rparr>)))"

definition snapshots :: "nat \<Rightarrow> InputState \<Rightarrow> InputState \<times> RealtimeInput list" where
  "snapshots now st =
     (let r = map (\<lambda>(i, slot). (i, snapshot_slot now slot)) (is_slots st) in
      (st\<lparr>is_slots := map (\<lambda>(i, s, _). (i, s)) r\<rparr>, List.map_filter (\<lambda>(_, _, p). p) r))"

definition seal_event ::
  "nat \<Rightarrow> u32 \<Rightarrow> u32 option \<Rightarrow> InputEvent option \<Rightarrow> InputState \<Rightarrow> InputState \<times> (SessionCommand, string) result" where
  "seal_event now i revision event st =
     (case map_of (is_slots st) i of
        None \<Rightarrow> (st, Err ''input binding unavailable'')
      | Some slot \<Rightarrow>
        if (case revision of None \<Rightarrow> False | Some r \<Rightarrow> r \<noteq> sl_revision slot) then (st, Err ''input source changed'')
        else case sl_lease slot of
          None \<Rightarrow> (st, Err ''input binding unavailable'')
        | Some l \<Rightarrow>
          if elapsed_ms (wl_received l) now > 750
          then (put_slot i (slot\<lparr>sl_lease := None\<rparr>) st, Err ''input binding expired'')
          else (case seal_lease now event l of
            (l', Inl e) \<Rightarrow> (put_slot i (slot\<lparr>sl_lease := Some l'\<rparr>) st, Err e)
          | (l', Inr p) \<Rightarrow> (put_slot i (slot\<lparr>sl_lease := Some l'\<rparr>) st, Ok (SC_RealtimeInput p))))"

definition seal :: "nat \<Rightarrow> SessionCommand \<Rightarrow> InputState \<Rightarrow> InputState \<times> (SessionCommand, string) result" where
  "seal now m st =
     (case m of
        SC_Close c \<Rightarrow> (st\<lparr>is_slots := []\<rparr>, Ok m)
      | SC_Input i ev \<Rightarrow> seal_event now i None (Some ev) st
      | SC_SourceInput i revision ev \<Rightarrow> seal_event now i (Some revision) (Some ev) st
      | SC_ReleaseInput i \<Rightarrow> seal_event now i None None st
      | SC_SwitchSource i request_id source \<Rightarrow> (source_slot i request_id st, Ok m)
      | SC_SetActivity i revision video audio \<Rightarrow>
          (case map_of (is_slots st) i of
             None \<Rightarrow> (st, Ok m)
           | Some slot \<Rightarrow> (put_slot i (if video then slot\<lparr>sl_enabled := True\<rparr>
               else slot\<lparr>sl_enabled := False, sl_lease := None, sl_request := 0\<rparr>) st, Ok m))
      | SC_Unsubscribe i \<Rightarrow> (remove_slot i st, Ok m)
      | SC_RealtimeInput _ \<Rightarrow> (st, Err ''raw input envelopes are not accepted by this connection'')
      | other \<Rightarrow> (st, Ok other))"

definition seal_bound ::
  "nat \<Rightarrow> InputBinding \<Rightarrow> InputEvent option \<Rightarrow> InputState \<Rightarrow> InputState \<times> (SessionCommand, string) result" where
  "seal_bound now b event st =
     (let i = subscription_id b in
      if current_binding now i (source_revision b) st \<noteq> Some b then (st, Err ''input binding changed'')
      else seal now (case event of Some ev \<Rightarrow> SC_SourceInput i (source_revision b) ev | None \<Rightarrow> SC_ReleaseInput i) st)"

definition release_ack :: "InputBinding \<Rightarrow> u64 \<Rightarrow> InputState \<Rightarrow> InputState \<times> bool" where
  "release_ack b sequence st =
     (let i = subscription_id b in
      case map_of (is_slots st) i of
        None \<Rightarrow> (st, False)
      | Some slot \<Rightarrow>
        (case sl_lease slot of
           None \<Rightarrow> (st, False)
         | Some l \<Rightarrow>
           if wl_binding l = b \<and> wl_release l = Some sequence
           then (put_slot i (slot\<lparr>sl_lease := Some (l\<lparr>wl_release := None\<rparr>)\<rparr>) st, True)
           else (st, False)))"

section \<open>The packets of one lease\<close>

text \<open>What a slot's lease does while its binding stands: events and releases are sealed, snapshots taken.\<close>

datatype sender_act = SendEvent "InputEvent option" | SendSnapshot

definition sender_step :: "nat \<Rightarrow> sender_act \<Rightarrow> SenderLease \<Rightarrow> SenderLease \<times> RealtimeInput option" where
  "sender_step now a l =
     (case a of
        SendEvent ev \<Rightarrow> (case seal_lease now ev l of (l', Inl _) \<Rightarrow> (l', None) | (l', Inr p) \<Rightarrow> (l', Some p))
      | SendSnapshot \<Rightarrow>
        (case snapshot_slot now \<lparr>sl_enabled = True, sl_revision = 0, sl_request = 0, sl_lease = Some l\<rparr> of
           (s, p) \<Rightarrow> (case sl_lease s of None \<Rightarrow> l | Some l' \<Rightarrow> l', p)))"

lemma expire_frontend_cases:
  obtains "expire_frontend now l = (l, False)"
  | "expire_frontend now l = (l\<lparr>wl_held := [], wl_frontend_intent := None, wl_frontend_expired := True\<rparr>, True)"
  unfolding expire_frontend_def by metis

lemma expire_frontend_fields [simp]:
  "wl_binding (fst (expire_frontend now l)) = wl_binding l"
  "wl_sequence (fst (expire_frontend now l)) = wl_sequence l"
  "wl_received (fst (expire_frontend now l)) = wl_received l"
  "wl_held (fst (expire_frontend now l)) = (if snd (expire_frontend now l) then [] else wl_held l)"
  by (cases rule: expire_frontend_cases [of now l]; simp)+

lemma sender_packet_Some:
  assumes "sender_packet now payload l = (l', Some p)"
  shows "ri_binding p = wl_binding l" "ri_sequence p = wl_sequence l + 1" "wl_sequence l < wl_sequence l + 1"
    "ri_payload p = payload" "l' = l\<lparr>wl_sequence := wl_sequence l + 1\<rparr>"
    "ri_created_host_ms p = saturating_add (wl_host_ms l) (word_of_nat (elapsed_ms (wl_received l) now))"
  using assms by (auto simp: sender_packet_def checked_add_def word_less_nat_alt unat_word_ariths split: option.splits if_splits)

section \<open>An event means the same to both sides\<close>

lemma bt_remove_absent: "map_of h p = None \<Longrightarrow> bt_remove p h = h"
  by (auto simp: bt_remove_def filter_id_conv map_of_eq_None_iff)

lemma modifiers_presses: "presses h \<inter> range PModifier = presses g \<inter> range PModifier \<Longrightarrow> modifiers h = modifiers g"
  by (rule bit_eqI) (auto simp: modifiers_bit)

text \<open>Requesting the modifiers that a change of modifiers left is that change.\<close>

definition mod_step :: "u8 \<Rightarrow> u64 \<Rightarrow> HeldState \<Rightarrow> u8 \<Rightarrow> HeldState" where
  "mod_step m s h b = (if m AND b \<noteq> 0 then fst (transition h (PModifier b) True s)
     else fst (transition h (PModifier b) False s))"

lemma set_modifiers_fold: "set_modifiers h m s = foldl (mod_step m s) h [1, 2, 4, 8]"
  by (simp add: set_modifiers_def mod_step_def)

lemma mod_step_presses: "presses (mod_step m s h b) - {PModifier b} = presses h - {PModifier b}"
  by (auto simp: mod_step_def transition_def presses_insert presses_remove)

lemma mod_fold_presses:
  "p \<notin> PModifier ` set bs \<Longrightarrow> p \<in> presses (foldl (mod_step m s) h bs) \<longleftrightarrow> p \<in> presses h"
proof (induction bs arbitrary: h)
  case (Cons b bs)
  have "p \<in> presses (mod_step m s h b) \<longleftrightarrow> p \<in> presses h"
    using mod_step_presses [of m s h b] Cons.prems by (auto simp: set_eq_iff)
  then show ?case using Cons by simp
qed simp

lemma mod_step_same:
  assumes "m' AND b \<noteq> 0 \<longleftrightarrow> PModifier b \<in> presses (mod_step m s h b)"
  shows "mod_step m' s h b = mod_step m s h b"
  using assms
  by (auto simp: mod_step_def transition_def presses_insert presses_remove map_of_presses bt_remove_absent split: if_splits)

lemma mod_fold_same:
  assumes "distinct bs" "\<And>b. b \<in> set bs \<Longrightarrow> m' AND b \<noteq> 0 \<longleftrightarrow> PModifier b \<in> presses (foldl (mod_step m s) h bs)"
  shows "foldl (mod_step m' s) h bs = foldl (mod_step m s) h bs"
  using assms
proof (induction bs arbitrary: h)
  case (Cons b bs)
  have "PModifier b \<notin> PModifier ` set bs" using Cons.prems(1) by auto
  then have "m' AND b \<noteq> 0 \<longleftrightarrow> PModifier b \<in> presses (mod_step m s h b)"
    using Cons.prems(2) [of b] mod_fold_presses [of "PModifier b" bs m s "mod_step m s h b"] by simp
  then have "mod_step m' s h b = mod_step m s h b" by (rule mod_step_same)
  then show ?case using Cons.IH [of "mod_step m s h b"] Cons.prems by simp
qed simp

lemma set_modifiers_same:
  assumes "held_inv h"
  shows "set_modifiers h (modifiers (set_modifiers h m s)) s = set_modifiers h m s"
  unfolding set_modifiers_fold
proof (rule mod_fold_same)
  fix b :: u8
  assume "b \<in> set [1, 2, 4, 8]"
  then have "b \<in> momentary" by (auto simp: momentary_def)
  then show "modifiers (foldl (mod_step m s) h [1, 2, 4, 8]) AND b \<noteq> 0 \<longleftrightarrow>
      PModifier b \<in> presses (foldl (mod_step m s) h [1, 2, 4, 8])"
    using modifiers_and [OF set_modifiers_props(1) [OF assms, of m s]] by (simp add: set_modifiers_fold del: foldl.simps)
qed simp

lemma held_event_resolved:
  assumes "held_event h e s = (h', Some x)"
  obtains y where "resolve_modifier h (normalize_event e) = Some y" "apply_event h y s = (h', True)" "x = native_event h' y"
    "\<forall>k d m. y = Key k d m \<longrightarrow> modifier_bit k = 0" "\<forall>c. y \<noteq> KeyDown c \<and> y \<noteq> KeyUp c"
proof -
  obtain y where y: "resolve_modifier h (normalize_event e) = Some y" "apply_event h y s = (h', True)" "x = native_event h' y"
    using assms by (auto simp: held_event_def split: option.splits prod.splits if_splits)
  have "\<not> c \<le> 0x7e" if "y = KeyDown c \<or> y = KeyUp c" for c
    using y(1) normalized_key [OF refl, of e] that
    by (auto simp: resolve_modifier_def Let_def split: InputEvent.splits if_splits)
  then have "y \<noteq> KeyDown c" "y \<noteq> KeyUp c" for c using y(2) by (auto simp: apply_event_def)
  moreover have "modifier_bit k = 0" if "y = Key k d m" for k d m
    using y(1) that by (auto simp: resolve_modifier_def Let_def split: InputEvent.splits if_splits)
  ultimately show thesis using that y by blast
qed

lemma held_event_same:
  assumes inv: "held_inv h" and ev: "held_event h e s = (h', Some x)"
  shows "held_event h x s = (h', Some x) \<and> \<not> chord_mismatch h (PayloadEvent x)"
proof -
  obtain y where "resolve_modifier h (normalize_event e) = Some y"
    and y: "apply_event h y s = (h', True)" "x = native_event h' y"
    "\<forall>k d m. y = Key k d m \<longrightarrow> modifier_bit k = 0" "\<forall>c. y \<noteq> KeyDown c \<and> y \<noteq> KeyUp c"
    using ev by (rule held_event_resolved)
  show ?thesis
  proof (cases y)
    case (Key k d m)
    then have t: "k \<le> 0x7e" "transition h (PKey k) d s = (h', True)"
      using y(1) by (auto simp: apply_event_def split: if_splits)
    then have "presses h' \<inter> range PModifier = presses h \<inter> range PModifier"
      by (auto simp: transition_def presses_insert presses_remove split: if_splits)
    then have "modifiers h' = modifiers h" by (rule modifiers_presses)
    then show ?thesis
      using Key y(2,3) t
      by (auto simp: native_event_def held_event_def normalize_event_def resolve_modifier_def apply_event_def
          chord_mismatch_def split: bool.splits)
  next
    case (ModifiersChanged m)
    then have "h' = set_modifiers h m s" "x = ModifiersChanged (modifiers h')"
      using y(1,2) by (auto simp: apply_event_def native_event_def)
    then show ?thesis
      using set_modifiers_same [OF inv]
      by (simp add: held_event_def normalize_event_def resolve_modifier_def apply_event_def native_event_def chord_mismatch_def)
  qed (use y in \<open>auto simp: native_event_def held_event_def normalize_event_def resolve_modifier_def apply_event_def
      chord_mismatch_def\<close>)
qed

section \<open>The viewer and the host agree on what is held\<close>

text \<open>The viewer's lease and the host's lease of one binding, in step.\<close>

definition in_step :: "SenderLease \<Rightarrow> InputLease \<Rightarrow> bool" where
  "in_step v l \<longleftrightarrow> wl_binding v = binding l \<and> high_water l \<le> wl_sequence v \<and> held_inv (held l) \<and> wl_held v = held l"

text \<open>The packet reaches the host while the lease is alive and the packet is at most 250 ms old.\<close>

definition in_time :: "RealtimeInput \<Rightarrow> InputLease \<Rightarrow> u64 \<Rightarrow> nat \<Rightarrow> bool" where
  "in_time p l now_ms inst \<longleftrightarrow> \<not> expired l now_ms inst \<and> ri_created_host_ms p \<le> now_ms \<and>
     now_ms - ri_created_host_ms p \<le> MAX_INPUT_AGE_MS"

lemma lease_accepts:
  assumes "ri_binding p = binding l" "high_water l < ri_sequence p" "in_time p l now_ms inst"
    "\<not> chord_mismatch (held l) (ri_payload p)" "apply_payload (held l) (ri_payload p) (ri_sequence p) = Some (h', out)"
  obtains l' where "lease_accept l p now_ms inst recv = (l', Some out)" "held l' = h'" "high_water l' = ri_sequence p"
    "binding l' = binding l"
proof -
  have out: "snd (lease_accept l p now_ms inst recv) = Some out"
    using assms by (auto simp: lease_accept_def in_time_def Let_def not_less not_le)
  show ?thesis
  proof (cases rule: lease_accept_cases [of l p now_ms inst recv])
    case (taken g o2 l2)
    then show ?thesis using assms(5) that by simp
  qed (use out in auto)
qed

lemma seal_payload_Ok:
  assumes "seal_payload ev v = (v', Ok payload)"
  shows "wl_binding v' = wl_binding v \<and> wl_sequence v' = wl_sequence v \<and>
    (case ev of
       None \<Rightarrow> payload = PayloadRelease \<and> wl_held v' = []
     | Some e \<Rightarrow> \<exists>x. payload = PayloadEvent x \<and> held_event (wl_held v) e (wl_sequence v + 1) = (wl_held v', Some x))"
  using assms by (auto simp: seal_payload_def checked_add_Some split: option.splits if_splits prod.splits)

lemma seal_lease_Ok:
  assumes "seal_lease now ev v = (v', Ok p)" "v1 = fst (expire_frontend now v)"
  shows "ri_binding p = wl_binding v" "ri_sequence p = wl_sequence v + 1" "wl_sequence v < wl_sequence v + 1"
    "wl_binding v' = wl_binding v" "wl_sequence v' = wl_sequence v + 1"
    "case ev of
       None \<Rightarrow> ri_payload p = PayloadRelease \<and> wl_held v' = []
     | Some e \<Rightarrow> \<exists>x. ri_payload p = PayloadEvent x \<and> held_event (wl_held v1) e (wl_sequence v + 1) = (wl_held v', Some x)"
proof -
  obtain v2 payload where s: "seal_payload ev v1 = (v2, Ok payload)"
    using assms by (auto simp: seal_lease_def Let_def split: prod.splits sum.splits)
  define v2' where "v2' = (if ev \<noteq> None \<and> wl_held v1 = [] \<and> wl_held v2 \<noteq> []
    then v2\<lparr>wl_frontend_intent := Some now, wl_frontend_expired := False\<rparr> else v2)"
  define v3 where "v3 = (if wl_held v2' = [] then v2'\<lparr>wl_frontend_intent := None\<rparr> else v2')"
  have v3: "wl_held v3 = wl_held v2" "wl_binding v3 = wl_binding v2" "wl_sequence v3 = wl_sequence v2"
    by (simp_all add: v3_def v2'_def)
  have "seal_lease now ev v = (case sender_packet now payload v3 of
      (v5, None) \<Rightarrow> (v5, Err ''input sequence exhausted'')
    | (v5, Some q) \<Rightarrow> (if ev = None then v5\<lparr>wl_release := Some (ri_sequence q)\<rparr> else v5, Ok q))"
    unfolding seal_lease_def Let_def v3_def v2'_def assms(2) [symmetric] s by simp
  with assms(1) obtain v4 where v4: "sender_packet now payload v3 = (v4, Some p)" "wl_held v' = wl_held v4"
    "wl_binding v' = wl_binding v4" "wl_sequence v' = wl_sequence v4"
    by (cases "sender_packet now payload v3") (auto split: option.splits if_splits)
  note P = sender_packet_Some [OF v4(1)] and Q = seal_payload_Ok [OF s]
  have v1: "wl_binding v1 = wl_binding v" "wl_sequence v1 = wl_sequence v" using assms(2) by simp_all
  show "ri_binding p = wl_binding v" "ri_sequence p = wl_sequence v + 1" "wl_sequence v < wl_sequence v + 1"
    "wl_binding v' = wl_binding v" "wl_sequence v' = wl_sequence v + 1"
    using P Q v1 v3 v4 by simp_all
  show "case ev of
       None \<Rightarrow> ri_payload p = PayloadRelease \<and> wl_held v' = []
     | Some e \<Rightarrow> \<exists>x. ri_payload p = PayloadEvent x \<and> held_event (wl_held v1) e (wl_sequence v + 1) = (wl_held v', Some x)"
    using P(4,5) Q v1 v3 v4 by (simp split: option.splits)
qed

lemma snapshot_Some:
  assumes "sender_step now SendSnapshot v = (v', Some p)" "v1 = fst (expire_frontend now v)"
  shows "ri_binding p = wl_binding v" "ri_sequence p = wl_sequence v + 1" "wl_sequence v < wl_sequence v + 1"
    "wl_binding v' = wl_binding v" "wl_sequence v' = wl_sequence v + 1"
    "ri_payload p = PayloadHeld (wl_held v1)" "wl_held v' = wl_held v1"
proof -
  obtain q age where q: "sender_packet now (PayloadHeld (wl_held v1)) v1 = (v', Some q)"
    "p = q\<lparr>ri_created_host_ms := saturating_sub (ri_created_host_ms q) age\<rparr>"
    using assms by (auto simp: sender_step_def snapshot_slot_def Let_def split: prod.splits option.splits if_splits)
  from sender_packet_Some [OF q(1)] q(2) assms(2)
  show "ri_binding p = wl_binding v" "ri_sequence p = wl_sequence v + 1" "wl_sequence v < wl_sequence v + 1"
    "wl_binding v' = wl_binding v" "wl_sequence v' = wl_sequence v + 1"
    "ri_payload p = PayloadHeld (wl_held v1)" "wl_held v' = wl_held v1"
    by simp_all
qed

text \<open>One packet sealed by the viewer and delivered to the host.\<close>

record delivery =
  d_sent :: nat
  d_act :: sender_act
  d_host_ms :: u64
  d_inst :: nat
  d_recv :: nat

definition exchange :: "SenderLease \<times> InputLease \<Rightarrow> delivery \<Rightarrow> SenderLease \<times> InputLease" where
  "exchange vl d =
     (case sender_step (d_sent d) (d_act d) (fst vl) of
        (v', None) \<Rightarrow> (v', snd vl)
      | (v', Some p) \<Rightarrow> (v', fst (lease_accept (snd vl) p (d_host_ms d) (d_inst d) (d_recv d))))"

text \<open>
  A delivery is prompt: a packet arrives in time, and an event is sealed before the 300 ms without a word
  from the input frontend are over (after that the next snapshot tells the host).
\<close>

definition prompt :: "SenderLease \<times> InputLease \<Rightarrow> delivery \<Rightarrow> bool" where
  "prompt vl d \<longleftrightarrow>
     (case snd (sender_step (d_sent d) (d_act d) (fst vl)) of
        None \<Rightarrow> (case d_act d of SendEvent (Some _) \<Rightarrow> True | _ \<Rightarrow> False)
      | Some p \<Rightarrow> in_time p (snd vl) (d_host_ms d) (d_inst d)) \<and>
     (d_act d = SendSnapshot \<or> d_act d = SendEvent None \<or> \<not> snd (expire_frontend (d_sent d) (fst vl)))"

fun all_prompt :: "SenderLease \<times> InputLease \<Rightarrow> delivery list \<Rightarrow> bool" where
  "all_prompt vl [] = True"
| "all_prompt vl (d # ds) = (prompt vl d \<and> all_prompt (exchange vl d) ds)"

lemma held_event_refused:
  assumes "held_inv h" "held_event h e s = (h', None)"
  shows "h' = h"
  using assms
  by (auto simp: held_event_def apply_event_def transition_def map_of_presses bt_remove_absent
      split: option.splits prod.splits InputEvent.splits if_splits)

lemma seal_lease_Err:
  assumes "seal_lease now (Some e) v = (v', Inl err)" "held_inv (wl_held v)" "\<not> snd (expire_frontend now v)"
  shows "wl_held v' = wl_held v \<and> wl_binding v' = wl_binding v \<and> wl_sequence v' = wl_sequence v"
proof -
  have x: "fst (expire_frontend now v) = v" using assms(3) by (cases rule: expire_frontend_cases [of now v]) simp_all
  obtain v2 r where s: "seal_payload (Some e) v = (v2, r)" by force
  show ?thesis
  proof (cases r)
    case (Inl m)
    then have "v' = v2" using assms(1) s by (simp add: seal_lease_def Let_def x)
    then show ?thesis
      using s Inl held_event_refused [OF assms(2)]
      by (auto simp: seal_payload_def split: option.splits if_splits prod.splits)
  next
    case (Inr payload)
    then have "checked_add (wl_sequence v) 1 \<noteq> None" using s by (auto simp: seal_payload_def split: option.splits)
    then show ?thesis
      using assms(1) s Inr seal_payload_Ok [of "Some e" v v2 payload]
      by (auto simp: seal_lease_def Let_def x sender_packet_def split: option.splits prod.splits if_splits)
  qed
qed

lemma release_all: "release_missing h h = (h, [])"
  by (simp add: release_missing_def Let_def)

lemma deliver_in_step:
  assumes "in_step v l" "in_time p l m i" "ri_binding p = wl_binding v" "ri_sequence p = wl_sequence v + 1"
    "wl_sequence v < wl_sequence v + 1" "wl_binding v' = wl_binding v" "wl_sequence v' = wl_sequence v + 1"
    "\<not> chord_mismatch (held l) (ri_payload p)"
    "apply_payload (held l) (ri_payload p) (ri_sequence p) = Some (wl_held v', out)"
  shows "in_step v' (fst (lease_accept l p m i j))"
proof -
  have hw: "high_water l < ri_sequence p" "ri_binding p = binding l"
    using assms by (auto simp: in_step_def)
  from lease_accepts [OF hw(2,1) assms(2,8,9), of j] obtain l'
    where "lease_accept l p m i j = (l', Some out)" "held l' = wl_held v'" "high_water l' = ri_sequence p"
      "binding l' = binding l" .
  moreover have "held_inv (wl_held v')" using apply_payload_native [OF _ assms(9)] assms(1) by (simp add: in_step_def)
  ultimately show ?thesis using assms by (simp add: in_step_def)
qed

lemma exchange_in_step:
  assumes st: "in_step v l" and pr: "prompt (v, l) d"
  shows "in_step (fst (exchange (v, l) d)) (snd (exchange (v, l) d))"
proof -
  obtain v' r where s: "sender_step (d_sent d) (d_act d) v = (v', r)" by force
  have h: "held l = wl_held v" "held_inv (wl_held v)" using st by (simp_all add: in_step_def)
  let ?v1 = "fst (expire_frontend (d_sent d) v)"
  show ?thesis
  proof (cases r)
    case None
    then obtain e where e: "d_act d = SendEvent (Some e)" "\<not> snd (expire_frontend (d_sent d) v)"
      using pr s by (auto simp: prompt_def split: sender_act.splits option.splits)
    then obtain err where "seal_lease (d_sent d) (Some e) v = (v', Inl err)"
      using s None by (auto simp: sender_step_def split: prod.splits sum.splits)
    from seal_lease_Err [OF this h(2) e(2)] show ?thesis using s None st by (simp add: exchange_def in_step_def)
  next
    case (Some p)
    then have t: "in_time p l (d_host_ms d) (d_inst d)" using pr s by (simp add: prompt_def)
    have goal: "exchange (v, l) d = (v', fst (lease_accept l p (d_host_ms d) (d_inst d) (d_recv d)))"
      using s Some by (simp add: exchange_def)
    show ?thesis
    proof (cases "d_act d")
      case SendSnapshot
      note S = snapshot_Some [OF s [unfolded Some SendSnapshot] refl]
      have "length (wl_held ?v1) \<le> MAX_HELD" using h(2) by (simp add: held_inv_def)
      moreover have "\<exists>out. release_missing (held l) (wl_held ?v1) = (wl_held ?v1, out)"
        using release_missing_native [OF h(2), of "[]"]
        by (cases "release_missing (wl_held v) []") (auto simp: h(1) release_all)
      then obtain out where "release_missing (held l) (wl_held ?v1) = (wl_held ?v1, out)" by blast
      ultimately have "apply_payload (held l) (ri_payload p) (ri_sequence p) = Some (wl_held v', out)"
        using S by (simp add: apply_payload_def)
      from deliver_in_step [OF st t S(1,2,3,4,5) _ this] show ?thesis
        unfolding goal using S(6) by (simp add: chord_mismatch_def)
    next
      case (SendEvent ev)
      then have sl: "seal_lease (d_sent d) ev v = (v', Ok p)"
        using s Some by (auto simp: sender_step_def split: prod.splits sum.splits)
      note S = seal_lease_Ok [OF sl refl]
      have ap: "\<exists>out. \<not> chord_mismatch (held l) (ri_payload p) \<and>
          apply_payload (held l) (ri_payload p) (ri_sequence p) = Some (wl_held v', out)"
      proof (cases ev)
        case None
        then show ?thesis
          using S(6) release_missing_native [OF h(2), of "[]"]
          by (cases "release_missing (wl_held v) []") (auto simp: h(1) apply_payload_def chord_mismatch_def)
      next
        case (Some e)
        then have "\<not> snd (expire_frontend (d_sent d) v)" using pr SendEvent by (simp add: prompt_def)
        then show ?thesis
          using S(2,6) Some held_event_same [OF h(2)] by (auto simp: apply_payload_def h(1))
      qed
      then show ?thesis using deliver_in_step [OF st t S(1-5)] unfolding goal by auto
    qed
  qed
qed

lemma exchanges_in_step:
  assumes "in_step (fst vl) (snd vl)" "all_prompt vl ds"
  shows "in_step (fst (foldl exchange vl ds)) (snd (foldl exchange vl ds))"
  using assms
proof (induction ds arbitrary: vl)
  case (Cons d ds)
  then show ?case using exchange_in_step [of "fst vl" "snd vl" d] by simp
qed simp

text \<open>
  C29. From the grant of a binding on, whatever the user does, in whatever order events, releases and
  snapshots are sealed: as long as the packets arrive in order and in time, the presses held on the host
  are exactly the presses the viewer records, with the sequence number of the packet that pressed each,
  so that the viewer's next snapshot confirms every one of them.
\<close>

theorem viewer_and_host_hold_the_same:
  assumes "all_prompt (sender_lease_new now b host_ms, lease_new b m i) ds"
  shows "case foldl exchange (sender_lease_new now b host_ms, lease_new b m i) ds of
    (v, l) \<Rightarrow> held l = wl_held v \<and> binding l = wl_binding v \<and> high_water l \<le> wl_sequence v"
proof -
  have "in_step (sender_lease_new now b host_ms) (lease_new b m i)"
    by (simp add: in_step_def sender_lease_new_def lease_new_def held_inv_def presses_def)
  from exchanges_in_step [of "(sender_lease_new now b host_ms, lease_new b m i)" ds] this assms
  show ?thesis by (simp add: in_step_def case_prod_unfold)
qed

text \<open>
  Whatever was lost before, one snapshot that the host accepts ends every press that the viewer does not
  hold, and it presses nothing; a frontend silent for 300 ms holds nothing, so that the snapshot then
  releases everything.
\<close>

theorem snapshot_ends_stale_presses:
  assumes "sender_step now SendSnapshot v = (v', Some p)" "held_inv (held l)" "lease_accept l p m i j = (l', Some out)"
  shows "set (held l') \<subseteq> set (held l) \<inter> set (wl_held v') \<and> foldl apply_native (presses (held l)) out = presses (held l') \<and>
    (case wl_frontend_intent v of None \<Rightarrow> True | Some t \<Rightarrow> t + 300 * 1000000 \<le> now \<longrightarrow> held l' = [])"
proof -
  note S = snapshot_Some [OF assms(1) refl]
  have "held l' = filter (\<lambda>e. e \<in> set (wl_held v')) (held l) \<and> foldl apply_native (presses (held l)) out = presses (held l')"
  proof (cases rule: lease_accept_cases [of l p m i j])
    case (taken h' o2 l2)
    then have "release_missing (held l) (wl_held v') = (held l', out)"
      using assms(3) S(6,7) by (auto simp: apply_payload_def split: if_splits)
    from release_missing_native [OF assms(2) this] show ?thesis by simp
  qed (use assms(3) in auto)
  moreover have "wl_held v' = []" if "wl_frontend_intent v = Some t" "t + 300 * 1000000 \<le> now" for t
  proof -
    have "snd (expire_frontend now v)" using that by (simp add: expire_frontend_def HOLD_TIMEOUT_MS_def elapsed_ms_def)
    then show ?thesis using S(7) by simp
  qed
  ultimately show ?thesis by (auto split: option.split)
qed

section \<open>Requests and grants\<close>

datatype input_op =
    OpSource u32 u32 | OpRemove u32 | OpRequests u32 | OpGrant nat u32 InputBinding u64 u64
  | OpRefresh nat InputBinding | OpSnapshots nat | OpSeal nat SessionCommand | OpReleaseAck InputBinding u64

definition input_step :: "InputState \<Rightarrow> input_op \<Rightarrow> InputState" where
  "input_step st x = (case x of
     OpSource i r \<Rightarrow> source_slot i r st
   | OpRemove i \<Rightarrow> remove_slot i st
   | OpRequests c \<Rightarrow> fst (requests c st)
   | OpGrant now c b k ms \<Rightarrow> grant now c b k ms st
   | OpRefresh now b \<Rightarrow> fst (refresh_bound now b st)
   | OpSnapshots now \<Rightarrow> fst (snapshots now st)
   | OpSeal now m \<Rightarrow> fst (seal now m st)
   | OpReleaseAck b q \<Rightarrow> fst (release_ack b q st))"

text \<open>The request number a grant answers, when it is accepted.\<close>

definition granted :: "InputState \<Rightarrow> input_op \<Rightarrow> InputState \<times> u64 option" where
  "granted st x = (input_step st x, case x of
     OpGrant now c b k ms \<Rightarrow> if grant now c b k ms st = st then None else Some k | _ \<Rightarrow> None)"

definition open_requests :: "(u32 \<times> InputSlot) list \<Rightarrow> u64 list" where
  "open_requests slots = filter (\<lambda>k. k \<noteq> 0) (map (\<lambda>(_, slot). sl_request slot) slots)"

definition requests_inv :: "InputState \<Rightarrow> bool" where
  "requests_inv st \<longleftrightarrow> distinct (open_requests (is_slots st)) \<and> (\<forall>k \<in> set (open_requests (is_slots st)). k \<le> is_next_request st)"

definition keeps_requests :: "InputState \<Rightarrow> InputState \<Rightarrow> bool" where
  "keeps_requests st st' \<longleftrightarrow> is_next_request st' = is_next_request st \<and>
     set (open_requests (is_slots st')) \<subseteq> set (open_requests (is_slots st)) \<and>
     (distinct (open_requests (is_slots st)) \<longrightarrow> distinct (open_requests (is_slots st')))"

lemma open_requests_Cons [simp]:
  "open_requests [] = []"
  "open_requests ((i, slot) # slots) = (if sl_request slot \<noteq> 0 then [sl_request slot] else []) @ open_requests slots"
  by (simp_all add: open_requests_def)

lemma open_requests_update:
  assumes "sl_request s = 0 \<or> (\<exists>slot. map_of slots i = Some slot \<and> sl_request s = sl_request slot)"
  shows "set (open_requests (AList.update i s slots)) \<subseteq> set (open_requests slots) \<and>
    (distinct (open_requests slots) \<longrightarrow> distinct (open_requests (AList.update i s slots)))"
  using assms
proof (induction slots)
  case (Cons x slots)
  obtain j t where x: "x = (j, t)" by force
  show ?case
  proof (cases "j = i")
    case False
    then show ?thesis using Cons by (auto simp: x)
  qed (use Cons.prems in \<open>auto simp: x\<close>)
qed simp

lemma open_requests_spent:
  "map_of slots i = Some slot \<Longrightarrow> sl_request slot \<noteq> 0 \<Longrightarrow> sl_request s = 0 \<Longrightarrow> distinct (open_requests slots) \<Longrightarrow>
     sl_request slot \<in> set (open_requests slots) \<and> sl_request slot \<notin> set (open_requests (AList.update i s slots))"
proof (induction slots)
  case (Cons x slots)
  obtain j t where "x = (j, t)" by force
  then show ?case using Cons by (cases "j = i") auto
qed simp

lemma open_requests_delete:
  "set (open_requests (AList.delete i slots)) \<subseteq> set (open_requests slots) \<and>
    (distinct (open_requests slots) \<longrightarrow> distinct (open_requests (AList.delete i slots)))"
  proof (induction slots)
  case (Cons x slots)
  obtain j s where "x = (j, s)" by force
  then show ?case using Cons by (cases "j = i") (auto dest: subsetD)
qed simp

lemma keeps_put:
  assumes "sl_request s = 0 \<or> (\<exists>slot. map_of (is_slots st) i = Some slot \<and> sl_request s = sl_request slot)"
  shows "keeps_requests st (put_slot i s st)"
  using open_requests_update [OF assms] by (simp add: keeps_requests_def)

lemma keeps_refl [simp]: "keeps_requests st st"
  by (simp add: keeps_requests_def)

lemma seal_event_keeps: "keeps_requests st (fst (seal_event now i r ev st))"
  by (auto simp: seal_event_def intro!: keeps_put split: option.splits prod.splits sum.splits)

lemma seal_keeps: "keeps_requests st (fst (seal now m st))"
proof (cases m)
  case (SC_SetActivity i r video audio)
  then show ?thesis by (auto simp: seal_def intro!: keeps_put split: option.splits)
next
  case (SC_Unsubscribe i)
  then show ?thesis using open_requests_delete by (simp add: seal_def remove_slot_def keeps_requests_def)
qed (auto simp: seal_def source_slot_def seal_event_keeps keeps_requests_def [of st "st\<lparr>is_slots := []\<rparr>"] intro: keeps_put)

lemma snapshot_slot_request: "sl_request (fst (snapshot_slot now slot)) = sl_request slot"
  by (auto simp: snapshot_slot_def Let_def split: option.splits prod.splits)

lemma snapshots_keeps: "keeps_requests st (fst (snapshots now st))"
proof -
  have "open_requests (map (\<lambda>(i, s, _). (i, s)) (map (\<lambda>(i, slot). (i, snapshot_slot now slot)) slots)) = open_requests slots" for slots
    by (induction slots) (auto simp: snapshot_slot_request [simplified] split_beta)
  then show ?thesis by (simp add: snapshots_def Let_def keeps_requests_def del: map_map)
qed

lemma request_slots_spec:
  assumes "request_slots c n slots = (n', ss, cs)"
  shows "n \<le> n' \<and> set (open_requests ss) \<subseteq> set (open_requests slots) \<union> {n<..n'} \<and>
    (distinct (open_requests slots) \<and> (\<forall>k \<in> set (open_requests slots). k \<le> n) \<longrightarrow> distinct (open_requests ss))"
  using assms
proof (induction c n slots arbitrary: n' ss cs rule: request_slots.induct)
  case (2 c n i slot rest)
  show ?case
  proof (cases "if sl_enabled slot then checked_add n 1 else None")
    case None
    then obtain rs cr where r: "request_slots c n rest = (n', rs, cr)" "ss = (i, slot) # rs"
      using 2(3) by (auto split: prod.splits)
    from 2(1) [OF None r(1)] show ?thesis by (fastforce simp: r(2))
  next
    case (Some k)
    then obtain rs cr where r: "request_slots c k rest = (n', rs, cr)" "ss = (i, slot\<lparr>sl_request := k\<rparr>) # rs"
      using 2(3) by (auto split: prod.splits)
    have k: "n < k" using Some by (auto simp: checked_add_Some word_less_nat_alt unat_word_ariths split: if_splits)
    note IH = 2(2) [OF Some r(1)]
    have "distinct (open_requests ss)"
      if a: "distinct (open_requests ((i, slot) # rest))" "\<forall>q \<in> set (open_requests ((i, slot) # rest)). q \<le> n"
    proof -
      have b: "\<forall>q \<in> set (open_requests rest). q \<le> n" "distinct (open_requests rest)" using a by (auto split: if_splits)
      then have "\<forall>q \<in> set (open_requests rest). q \<le> k" using k by (meson less_imp_le order_trans)
      then have "distinct (open_requests rs)" using IH b by blast
      moreover have "k \<notin> set (open_requests rs)" using IH b(1) k by (meson UnE greaterThanAtMost_iff less_irrefl not_le subsetD)
      ultimately show ?thesis by (simp add: r(2))
    qed
    moreover have "set (open_requests ss) \<subseteq> set (open_requests ((i, slot) # rest)) \<union> {n<..n'}"
    proof -
      have "set (open_requests rs) \<subseteq> set (open_requests rest) \<union> {n<..n'}"
      proof
        fix q assume "q \<in> set (open_requests rs)"
        then have "q \<in> set (open_requests rest) \<union> {k<..n'}" using IH by blast
        then show "q \<in> set (open_requests rest) \<union> {n<..n'}" using k by auto
      qed
      moreover have "k \<in> {n<..n'}" using IH k by simp
      ultimately show ?thesis by (auto simp: r(2))
    qed
    ultimately show ?thesis using IH k by (meson less_imp_le order_trans)
  qed
qed simp

lemma requests_spec:
  "is_next_request st \<le> is_next_request (fst (requests c st)) \<and>
   set (open_requests (is_slots (fst (requests c st)))) \<subseteq>
     set (open_requests (is_slots st)) \<union> {is_next_request st<..is_next_request (fst (requests c st))} \<and>
   (requests_inv st \<longrightarrow> requests_inv (fst (requests c st)))"
  using request_slots_spec [of c "is_next_request st" "is_slots st"]
  by (cases "request_slots c (is_next_request st) (is_slots st)") (fastforce simp: requests_def requests_inv_def)

lemma grant_cases:
  obtains "grant now c b k ms st = st"
  | slot s where "map_of (is_slots st) (subscription_id b) = Some slot" "k \<noteq> 0" "sl_request slot = k" "sl_request s = 0"
      "grant now c b k ms st = put_slot (subscription_id b) s st"
proof (cases "map_of (is_slots st) (subscription_id b)")
  case (Some slot)
  have "grant now c b k ms st = st \<or> k \<noteq> 0 \<and> sl_request slot = k \<and>
      (\<exists>l. grant now c b k ms st = put_slot (subscription_id b) (slot\<lparr>sl_request := 0, sl_lease := l\<rparr>) st)"
    using Some by (auto simp: grant_def Let_def)
  then show ?thesis
  proof (elim disjE conjE exE)
    fix l assume a: "k \<noteq> 0" "sl_request slot = k"
      "grant now c b k ms st = put_slot (subscription_id b) (slot\<lparr>sl_request := 0, sl_lease := l\<rparr>) st"
    show ?thesis by (rule that(2) [OF Some a(1,2) _ a(3)]) simp
  qed (rule that(1))
qed (use that in \<open>simp add: grant_def\<close>)

lemma input_step_keeps:
  "(\<exists>c. x = OpRequests c) \<or> keeps_requests st (input_step st x)"
proof (cases x)
  case (OpGrant now c b k ms)
  show ?thesis
    by (cases rule: grant_cases [of now c b k ms st]) (auto simp: OpGrant input_step_def intro: keeps_put)
next
  case (OpRefresh now b)
  then show ?thesis
    by (auto simp: input_step_def refresh_bound_def Let_def intro!: keeps_put split: option.splits prod.splits)
next
  case (OpReleaseAck b q)
  then show ?thesis
    by (auto simp: input_step_def release_ack_def Let_def intro!: keeps_put split: option.splits)
qed (use open_requests_delete in \<open>auto simp: input_step_def source_slot_def seal_keeps snapshots_keeps
    remove_slot_def keeps_requests_def [of st "st\<lparr>is_slots := AList.delete _ (is_slots st)\<rparr>"] intro: keeps_put\<close>)

lemma requests_inv_step: "requests_inv st \<Longrightarrow> requests_inv (input_step st x)"
  using input_step_keeps [of x st] requests_spec [of st]
  by (elim disjE exE) (auto simp: input_step_def keeps_requests_def requests_inv_def)

definition request_spent :: "InputState \<Rightarrow> u64 \<Rightarrow> bool" where
  "request_spent st k \<longleftrightarrow> k \<le> is_next_request st \<and> k \<notin> set (open_requests (is_slots st))"

lemma granted_Some:
  assumes "granted st x = (st', Some k)"
  obtains now c b ms where "x = OpGrant now c b k ms" "grant now c b k ms st \<noteq> st" "st' = grant now c b k ms st"
proof (cases x)
  case (OpGrant now c b q ms)
  from assms have "(if grant now c b q ms st = st then None else Some q) = Some k" "st' = grant now c b q ms st"
    unfolding granted_def OpGrant input_step_def input_op.case prod.inject by blast+
  then show ?thesis using that OpGrant by (metis option.distinct(1) option.inject)
qed (use assms in \<open>simp_all only: granted_def input_op.case prod.inject option.distinct simp_thms\<close>)

interpretation grants: at_most_once granted request_spent requests_inv
proof unfold_locales
  fix st :: InputState and x st' k
  assume inv: "requests_inv st" and g: "granted st x = (st', Some k)"
  then obtain now c b ms where x: "x = OpGrant now c b k ms" "grant now c b k ms st \<noteq> st" "st' = grant now c b k ms st"
    using granted_Some [OF g] by metis
  have "k \<in> set (open_requests (is_slots st)) \<and> k \<notin> set (open_requests (is_slots st')) \<and>
      is_next_request st' = is_next_request st"
  proof (cases rule: grant_cases [of now c b k ms st])
    case (2 slot s)
    have "k \<in> set (open_requests (is_slots st)) \<and> k \<notin> set (open_requests (AList.update (subscription_id b) s (is_slots st)))"
      using open_requests_spent [OF 2(1), of s] 2(2-4) inv unfolding requests_inv_def by blast
    then show ?thesis unfolding x(3) 2(5) by simp
  qed (use x(2) in simp)
  then show "\<not> request_spent st k" "request_spent st' k"
    using inv by (auto simp: request_spent_def requests_inv_def)
next
  fix st :: InputState and x st' r and k :: u64
  assume "granted st x = (st', r)"
  then have st': "st' = input_step st x" by (simp add: granted_def)
  {
    assume "requests_inv st"
    then show "requests_inv st'" unfolding st' by (rule requests_inv_step)
  }
  assume "request_spent st k"
  then show "request_spent st' k"
    using input_step_keeps [of x st] requests_spec [of st]
    unfolding st'
  proof (elim disjE exE)
    fix c assume x: "x = OpRequests c" and k: "request_spent st k"
    then have "k \<le> is_next_request st" "k \<notin> set (open_requests (is_slots st))" by (auto simp: request_spent_def)
    with requests_spec [of st c] show "request_spent (input_step st x) k"
      by (fastforce simp: x input_step_def request_spent_def)
  qed (auto simp: request_spent_def keeps_requests_def)
qed

text \<open>
  Every request for an input binding is granted at most once, whatever grants arrive, in any order and
  mixed with any other operation: a late or repeated grant changes nothing, because request numbers are
  never reused and switching, pausing, releasing or closing forgets the open one.
\<close>

theorem input_grants_once: "distinct (accepted_keys granted input_state_default ops)"
  by (rule grants.accepted_distinct) (simp add: requests_inv_def input_state_default_def)

section \<open>Examples\<close>

definition demo_sender :: SenderLease where
  "demo_sender = sender_lease_new 0 demo_binding 1000"

text \<open>Key 9 goes down, the next snapshot confirms it, a mouse button goes down, key 9 goes up.\<close>

definition demo_deliveries :: "delivery list" where
  "demo_deliveries =
     [\<lparr>d_sent = 0, d_act = SendEvent (Some (KeyDown 9)), d_host_ms = 1010, d_inst = 10000000, d_recv = 10000000\<rparr>,
      \<lparr>d_sent = 100000000, d_act = SendSnapshot, d_host_ms = 1105, d_inst = 105000000, d_recv = 105000000\<rparr>,
      \<lparr>d_sent = 120000000, d_act = SendEvent (Some (MouseDown 0)), d_host_ms = 1125, d_inst = 125000000, d_recv = 125000000\<rparr>,
      \<lparr>d_sent = 150000000, d_act = SendEvent (Some (KeyUp 9)), d_host_ms = 1160, d_inst = 160000000, d_recv = 160000000\<rparr>]"

lemmas demo_sender_simps = demo_lease_simps demo_sender_def sender_lease_new_def sender_step_def seal_lease_def
  seal_payload_def sender_packet_def snapshot_slot_def expire_frontend_def checked_add_def saturating_add_def
  transition_def modifiers_def modifier_bit_def release_missing_def Let_def bt_remove_def word_le_nat_alt word_less_nat_alt
  less_Press_def

lemma demo_all_prompt: "all_prompt (demo_sender, lease_new demo_binding 1000 0) demo_deliveries"
  by (simp add: demo_deliveries_def prompt_def exchange_def in_time_def demo_sender_simps)

theorem viewer_and_host_hold_the_same_witness:
  "held (snd (foldl exchange (demo_sender, lease_new demo_binding 1000 0) demo_deliveries)) = [(PButton 0, 3)]"
proof -
  have "wl_held (fst (foldl exchange (demo_sender, lease_new demo_binding 1000 0) demo_deliveries)) = [(PButton 0, 3)]"
    by (simp add: demo_deliveries_def exchange_def demo_sender_simps)
  with viewer_and_host_hold_the_same [OF demo_all_prompt [unfolded demo_sender_def]] show ?thesis
    by (simp add: case_prod_unfold demo_sender_def)
qed

definition demo_holding :: SenderLease where
  "demo_holding = demo_sender\<lparr>wl_sequence := 1, wl_held := [(PKey 9, 1)], wl_frontend_intent := Some 0\<rparr>"

theorem snapshot_ends_stale_presses_witness:
  "case sender_step 320000000 SendSnapshot demo_holding of (v, p) \<Rightarrow>
     held (fst (lease_accept (demo_lease\<lparr>last_valid_ms := 1200, last_valid := 200000000, last_held_ms := 1200,
       last_held := 200000000\<rparr>) (the p) 1330 330000000 330000000)) = []"
proof -
  let ?l = "demo_lease\<lparr>last_valid_ms := 1200, last_valid := 200000000, last_held_ms := 1200, last_held := 200000000\<rparr>"
  let ?p = "demo_packet 2 1320 (PayloadHeld [])"
  obtain v where s: "sender_step 320000000 SendSnapshot demo_holding = (v, Some ?p)"
    by (simp add: demo_holding_def demo_sender_simps)
  have "snd (lease_accept ?l ?p 1330 330000000 330000000) \<noteq> None"
    by (simp add: demo_sender_simps)
  then obtain l' out where l': "lease_accept ?l ?p 1330 330000000 330000000 = (l', Some out)"
    by (cases "lease_accept ?l ?p 1330 330000000 330000000") auto
  have "held_inv (held ?l)" using demo_lease_inv by (simp add: lease_inv_def)
  moreover have "wl_frontend_intent demo_holding = Some 0" by (simp add: demo_holding_def)
  ultimately have "held l' = []" using snapshot_ends_stale_presses [OF s _ l'] by simp
  then show ?thesis unfolding s using l' by simp
qed

end
