(* ===== verification/Profile_Store.thy ===== *)
theory Profile_Store
  imports Device_Group
begin

text \<open>
  The stored profile of a device group (\<open>remote_core/src/mesh.rs\<close>, second half, in the Unix build): checks
  of owner, mode and links before every access, private files replaced through a temporary file, and the
  configuration store on top of them.

  A path is absolute, a list of components.  The file system maps a path to what \<open>lstat\<close> reports for it.
  A \<open>world\<close> says who runs the program, which system calls fail, and what other processes do at the points
  where they can interfere; every definition takes it as an argument, so the theorems hold for any
  failure.  The process' file mode mask does not clear owner bits.
\<close>

section \<open>The file system\<close>

datatype component = Normal rstring | ParentDir

type_synonym path = "component list"

datatype file_kind = KFile | KDir | KSymlink

record node =
  nd_kind :: file_kind
  nd_uid :: nat
  nd_mode :: nat
  nd_nlink :: nat
  nd_id :: nat
  nd_data :: bytes
  nd_modified :: nat

record fs =
  fs_nodes :: "(path \<times> node) list"
  fs_next :: nat

datatype syscall = SysStat | SysOpen | SysWrite | SysChmod | SysRename | SysLink | SysUnlink | SysMkdir

record world =
  w_uid :: nat
  w_fails :: "syscall \<Rightarrow> path \<Rightarrow> bool"
  w_env :: "nat \<Rightarrow> fs \<Rightarrow> fs"
  w_cwd :: path
  w_suffix :: bytes

datatype MeshStoreError =
    Io path | UnsafeProfile path | MissingNetworkSecret | InvalidMetadata metadata_fault | InvalidMeshConfig MeshConfigError

type_synonym 'a store_result = "('a, MeshStoreError) result"
type_synonym 'a io = "fs \<Rightarrow> fs \<times> 'a store_result"

definition io_ok :: "'a \<Rightarrow> 'a io" where "io_ok x s = (s, Ok x)"
definition io_err :: "MeshStoreError \<Rightarrow> 'a io" where "io_err e s = (s, Err e)"
definition io_result :: "'a store_result \<Rightarrow> 'a io" where "io_result r s = (s, r)"

definition io_bind :: "'a io \<Rightarrow> ('a \<Rightarrow> 'b io) \<Rightarrow> 'b io" where
  "io_bind m f s = (case m s of (s', Inl e) \<Rightarrow> (s', Inl e) | (s', Inr x) \<Rightarrow> f x s')"

definition io_env :: "world \<Rightarrow> nat \<Rightarrow> unit io" where
  "io_env w k s = (w_env w k s, Ok ())"

definition look :: "fs \<Rightarrow> path \<Rightarrow> node option" where
  "look s p = map_of (fs_nodes s) p"

datatype stat = NotFound | StatError | Found node

definition symlink_metadata :: "world \<Rightarrow> fs \<Rightarrow> path \<Rightarrow> stat" where
  "symlink_metadata w s p =
     (if w_fails w SysStat p then StatError else case look s p of None \<Rightarrow> NotFound | Some n \<Rightarrow> Found n)"

text \<open>The path itself, its parent, and so on up to the root.\<close>

fun ancestors_rev :: "component list \<Rightarrow> path list" where
  "ancestors_rev [] = [[]]"
| "ancestors_rev (c # cs) = rev (c # cs) # ancestors_rev cs"

definition ancestors :: "path \<Rightarrow> path list" where
  "ancestors p = ancestors_rev (rev p)"

section \<open>Checks\<close>

fun check_ancestors :: "world \<Rightarrow> fs \<Rightarrow> path \<Rightarrow> path list \<Rightarrow> unit store_result" where
  "check_ancestors w s absolute [] = Ok ()"
| "check_ancestors w s absolute (a # rest) =
     (case symlink_metadata w s a of
        Found n \<Rightarrow>
          if nd_kind n = KSymlink then
            if a \<noteq> absolute \<and> nd_uid n = 0 then check_ancestors w s absolute rest else Err (UnsafeProfile a)
          else if w_uid w = 0 \<and> nd_uid n \<noteq> 0 then Err (UnsafeProfile a)
          else check_ancestors w s absolute rest
      | NotFound \<Rightarrow> check_ancestors w s absolute rest
      | StatError \<Rightarrow> Err (Io a))"

definition check_profile_path :: "world \<Rightarrow> fs \<Rightarrow> path \<Rightarrow> unit store_result" where
  "check_profile_path w s p =
     (if ParentDir \<in> set p then Err (UnsafeProfile p) else check_ancestors w s p (ancestors p))"

definition check_owner :: "world \<Rightarrow> path \<Rightarrow> node \<Rightarrow> unit store_result" where
  "check_owner w p n = (if nd_uid n \<noteq> w_uid w then Err (UnsafeProfile p) else Ok ())"

text \<open>Group and other permissions, \<open>mode & 0o077\<close>.\<close>

definition shared_mode :: "nat \<Rightarrow> bool" where
  "shared_mode m \<longleftrightarrow> m mod 64 \<noteq> 0"

fun owned_dir :: "world \<Rightarrow> fs \<Rightarrow> path \<Rightarrow> path list \<Rightarrow> unit store_result" where
  "owned_dir w s p [] = Err (UnsafeProfile p)"
| "owned_dir w s p (a # rest) =
     (case symlink_metadata w s a of
        Found n \<Rightarrow>
          if nd_kind n \<noteq> KDir then Err (UnsafeProfile a)
          else try_bind (check_owner w a n) (\<lambda>_.
            if a = p \<and> shared_mode (nd_mode n) then Err (UnsafeProfile p) else Ok ())
      | NotFound \<Rightarrow> owned_dir w s p rest
      | StatError \<Rightarrow> Err (Io a))"

definition validate_private_dir :: "world \<Rightarrow> fs \<Rightarrow> path \<Rightarrow> unit store_result" where
  "validate_private_dir w s p = try_bind (check_profile_path w s p) (\<lambda>_. owned_dir w s p (ancestors p))"

definition validate_private_parent :: "world \<Rightarrow> fs \<Rightarrow> path \<Rightarrow> unit store_result" where
  "validate_private_parent w s p = validate_private_dir w s (if p = [] then w_cwd w else butlast p)"

definition check_private_file :: "world \<Rightarrow> path \<Rightarrow> node \<Rightarrow> unit store_result" where
  "check_private_file w p n =
     (if nd_kind n \<noteq> KFile then Err (UnsafeProfile p)
      else try_bind (check_owner w p n) (\<lambda>_.
        if nd_nlink n \<noteq> 1 \<or> shared_mode (nd_mode n) then Err (UnsafeProfile p) else Ok ()))"

definition private_file_metadata :: "world \<Rightarrow> fs \<Rightarrow> path \<Rightarrow> node option store_result" where
  "private_file_metadata w s p =
     try_bind (check_profile_path w s p) (\<lambda>_.
     case symlink_metadata w s p of
       NotFound \<Rightarrow> Ok None
     | StatError \<Rightarrow> Err (Io p)
     | Found n \<Rightarrow> try_bind (check_private_file w p n) (\<lambda>_. Ok (Some n)))"

definition same_profile_file :: "node \<Rightarrow> node \<Rightarrow> bool" where
  "same_profile_file a b \<longleftrightarrow> nd_id a = nd_id b \<and> nd_uid a = nd_uid b \<and> nd_mode a = nd_mode b \<and>
     length (nd_data a) = length (nd_data b) \<and> nd_modified a = nd_modified b"

abbreviation with_fs :: "(fs \<Rightarrow> 'a store_result) \<Rightarrow> 'a io" where
  "with_fs f \<equiv> (\<lambda>s. (s, f s))"

section \<open>Private files\<close>

text \<open>Other processes may act after the first look at the file (point 0) and after it is opened (point 1).\<close>

definition open_read :: "world \<Rightarrow> path \<Rightarrow> node io" where
  "open_read w p s =
     (case look s p of
        None \<Rightarrow> (s, Err (Io p))
      | Some n \<Rightarrow> if w_fails w SysOpen p \<or> nd_kind n \<noteq> KFile then (s, Err (Io p)) else (s, Ok n))"

definition read_private_file :: "world \<Rightarrow> path \<Rightarrow> rstring option io" where
  "read_private_file w p =
     io_bind (with_fs (\<lambda>s. validate_private_parent w s p)) (\<lambda>_.
     io_bind (with_fs (\<lambda>s. private_file_metadata w s p)) (\<lambda>m.
     case m of
       None \<Rightarrow> io_ok None
     | Some before \<Rightarrow>
       io_bind (io_env w 0) (\<lambda>_.
       io_bind (open_read w p) (\<lambda>opened.
       io_bind (io_result (check_private_file w p opened)) (\<lambda>_.
       io_bind (io_env w 1) (\<lambda>_.
       if \<not> same_profile_file before opened then io_err (UnsafeProfile p)
       else io_bind (with_fs (\<lambda>s. private_file_metadata w s p)) (\<lambda>now.
         if (case now of None \<Rightarrow> True | Some n \<Rightarrow> \<not> same_profile_file n opened) then io_err (UnsafeProfile p)
         else case from_utf8 (nd_data opened) of None \<Rightarrow> io_err (Io p) | Some text \<Rightarrow> io_ok (Some text))))))))"

definition put_node :: "path \<Rightarrow> node \<Rightarrow> fs \<Rightarrow> fs" where
  "put_node p n s = s\<lparr>fs_nodes := AList.update p n (fs_nodes s)\<rparr>"

definition drop_node :: "path \<Rightarrow> fs \<Rightarrow> fs" where
  "drop_node p s = s\<lparr>fs_nodes := AList.delete p (fs_nodes s)\<rparr>"

text \<open>A new node; the counter gives it an identity and a time that no other node has.\<close>

definition fresh_node :: "world \<Rightarrow> file_kind \<Rightarrow> nat \<Rightarrow> bytes \<Rightarrow> fs \<Rightarrow> node" where
  "fresh_node w k mode dat s =
     \<lparr>nd_kind = k, nd_uid = w_uid w, nd_mode = mode, nd_nlink = 1, nd_id = fs_next s, nd_data = dat, nd_modified = fs_next s\<rparr>"

definition create_node :: "world \<Rightarrow> file_kind \<Rightarrow> nat \<Rightarrow> bytes \<Rightarrow> path \<Rightarrow> fs \<Rightarrow> fs" where
  "create_node w k mode dat p s = (put_node p (fresh_node w k mode dat s) s)\<lparr>fs_next := fs_next s + 1\<rparr>"

text \<open>\<open>DirBuilder\<close>, recursive: the missing ancestors from the top down.\<close>

fun make_dirs :: "world \<Rightarrow> path \<Rightarrow> path list \<Rightarrow> unit io" where
  "make_dirs w p [] = io_ok ()"
| "make_dirs w p (a # rest) = (\<lambda>s.
     case look s a of
       Some n \<Rightarrow> if nd_kind n = KFile then (s, Err (Io p)) else make_dirs w p rest s
     | None \<Rightarrow> if w_fails w SysMkdir a then (s, Err (Io p)) else make_dirs w p rest (create_node w KDir 448 [] a s))"

definition create_private_dir :: "world \<Rightarrow> path \<Rightarrow> unit io" where
  "create_private_dir w p =
     io_bind (with_fs (\<lambda>s. validate_private_dir w s p)) (\<lambda>_.
     io_bind (make_dirs w p (rev (ancestors p))) (\<lambda>_.
     with_fs (\<lambda>s. validate_private_dir w s p)))"

definition unlink :: "world \<Rightarrow> path \<Rightarrow> unit io" where
  "unlink w p s =
     (case look s p of
        None \<Rightarrow> (s, Err (Io p))
      | Some n \<Rightarrow> if w_fails w SysUnlink p then (s, Err (Io p))
        else (let s' = drop_node p s in
          (s'\<lparr>fs_nodes := map (\<lambda>(q, m). (q, if nd_id m = nd_id n then m\<lparr>nd_nlink := nd_nlink m - 1\<rparr> else m)) (fs_nodes s')\<rparr>,
           Ok ())))"

definition hard_link :: "world \<Rightarrow> path \<Rightarrow> path \<Rightarrow> unit io" where
  "hard_link w temporary p s =
     (case (look s temporary, look s p) of
        (Some n, None) \<Rightarrow>
          if w_fails w SysLink p then (s, Err (Io p))
          else (put_node p (n\<lparr>nd_nlink := nd_nlink n + 1\<rparr>) (put_node temporary (n\<lparr>nd_nlink := nd_nlink n + 1\<rparr>) s), Ok ())
      | _ \<Rightarrow> (s, Err (Io p)))"

definition io_map_err :: "(MeshStoreError \<Rightarrow> MeshStoreError) \<Rightarrow> 'a io \<Rightarrow> 'a io" where
  "io_map_err f m s = (case m s of (s', r) \<Rightarrow> (s', map_err f r))"

definition publish_new_private_file :: "world \<Rightarrow> path \<Rightarrow> path \<Rightarrow> unit io" where
  "publish_new_private_file w temporary p =
     io_map_err (\<lambda>_. Io p) (io_bind (hard_link w temporary p) (\<lambda>_. unlink w temporary))"

definition rename_over :: "world \<Rightarrow> path \<Rightarrow> path \<Rightarrow> unit io" where
  "rename_over w temporary p s =
     (case look s temporary of
        None \<Rightarrow> (s, Err (Io p))
      | Some n \<Rightarrow> if w_fails w SysRename p then (s, Err (Io p)) else (put_node p n (drop_node temporary s), Ok ()))"

definition file_name :: "path \<Rightarrow> rstring" where
  "file_name p = (case rev p of Normal n # _ \<Rightarrow> n | _ \<Rightarrow> lit ''device-group-store'')"

definition temporary_path :: "world \<Rightarrow> path \<Rightarrow> path" where
  "temporary_path w p = butlast p @ [Normal (lit ''.'' @ file_name p @ lit ''.tmp-'' @ hex_bytes (w_suffix w))]"

definition create_new :: "world \<Rightarrow> path \<Rightarrow> nat \<Rightarrow> unit io" where
  "create_new w q mode s =
     (if w_fails w SysOpen q \<or> look s q \<noteq> None then (s, Err (Io q)) else (create_node w KFile mode [] q s, Ok ()))"

definition change_node :: "world \<Rightarrow> syscall \<Rightarrow> path \<Rightarrow> (node \<Rightarrow> node) \<Rightarrow> unit io" where
  "change_node w c q f s =
     (case look s q of
        None \<Rightarrow> (s, Err (Io q))
      | Some n \<Rightarrow> if w_fails w c q then (s, Err (Io q)) else (put_node q (f n) s, Ok ()))"

text \<open>Other processes may act after the temporary file is written (point 2) and after the second check (point 3).\<close>

definition write_and_publish :: "world \<Rightarrow> path \<Rightarrow> path \<Rightarrow> node option \<Rightarrow> bytes \<Rightarrow> unit io" where
  "write_and_publish w p temporary before dat =
     io_bind (create_new w temporary (case before of None \<Rightarrow> 384 | Some n \<Rightarrow> nd_mode n mod 512)) (\<lambda>_.
     io_bind (change_node w SysWrite temporary (\<lambda>n. n\<lparr>nd_data := dat\<rparr>)) (\<lambda>_.
     io_bind (case before of None \<Rightarrow> io_ok () | Some b \<Rightarrow> change_node w SysChmod temporary (\<lambda>n. n\<lparr>nd_mode := nd_mode b\<rparr>)) (\<lambda>_.
     io_bind (io_env w 2) (\<lambda>_.
     io_bind (with_fs (\<lambda>s. validate_private_parent w s p)) (\<lambda>_.
     io_bind (with_fs (\<lambda>s. private_file_metadata w s p)) (\<lambda>current.
     if \<not> (case (before, current) of (Some a, Some b) \<Rightarrow> same_profile_file a b | (None, None) \<Rightarrow> True | _ \<Rightarrow> False)
     then io_err (UnsafeProfile p)
     else io_bind (io_env w 3) (\<lambda>_.
       if before \<noteq> None then rename_over w temporary p else publish_new_private_file w temporary p)))))))"

definition write_private_file :: "world \<Rightarrow> path \<Rightarrow> bytes \<Rightarrow> unit io" where
  "write_private_file w p dat =
     io_bind (with_fs (\<lambda>s. validate_private_parent w s p)) (\<lambda>_.
     io_bind (with_fs (\<lambda>s. private_file_metadata w s p)) (\<lambda>before.
     io_bind (if p = [] then io_ok () else create_private_dir w (butlast p)) (\<lambda>_ s.
       let temporary = temporary_path w p in
       case write_and_publish w p temporary before dat s of
         (s', Inr x) \<Rightarrow> (s', Inr x)
       | (s', Inl e) \<Rightarrow> (fst (unlink w temporary s'), Inl e))))"

definition remove_file_if_exists :: "world \<Rightarrow> path \<Rightarrow> unit io" where
  "remove_file_if_exists w p =
     io_bind (with_fs (\<lambda>s. validate_private_parent w s p)) (\<lambda>_.
     io_bind (with_fs (\<lambda>s. private_file_metadata w s p)) (\<lambda>m.
     if m = None then io_ok () else unlink w p))"

section \<open>The configuration store\<close>

definition config_path :: "path \<Rightarrow> path" where "config_path root = root @ [Normal (lit ''mesh.conf'')]"
definition secret_path :: "path \<Rightarrow> path" where "secret_path root = root @ [Normal (lit ''mesh.secret'')]"

definition load_secret :: "world \<Rightarrow> path \<Rightarrow> MeshSecret option io" where
  "load_secret w root =
     io_bind (read_private_file w (secret_path root)) (\<lambda>r. case r of
       None \<Rightarrow> io_ok None
     | Some value \<Rightarrow> io_result (try_bind (map_err InvalidMeshConfig (secret_new (trim value))) (\<lambda>x. Ok (Some x))))"

definition save_secret :: "world \<Rightarrow> path \<Rightarrow> MeshSecret \<Rightarrow> unit io" where
  "save_secret w root secret = write_private_file w (secret_path root) (as_bytes secret)"

definition delete_secret :: "world \<Rightarrow> path \<Rightarrow> unit io" where
  "delete_secret w root = remove_file_if_exists w (secret_path root)"

definition secret_validate_access :: "world \<Rightarrow> fs \<Rightarrow> path \<Rightarrow> unit store_result" where
  "secret_validate_access w s root =
     try_bind (validate_private_parent w s (secret_path root)) (\<lambda>_.
     try_bind (private_file_metadata w s (secret_path root)) (\<lambda>_. Ok ()))"

definition validate_access :: "world \<Rightarrow> fs \<Rightarrow> path \<Rightarrow> unit store_result" where
  "validate_access w s root =
     try_bind (validate_private_dir w s root) (\<lambda>_.
     try_bind (private_file_metadata w s (config_path root)) (\<lambda>_. secret_validate_access w s root))"

definition store_load :: "world \<Rightarrow> path \<Rightarrow> MeshConfig option io" where
  "store_load w root =
     io_bind (with_fs (\<lambda>s. validate_access w s root)) (\<lambda>_.
     io_bind (read_private_file w (config_path root)) (\<lambda>r. case r of
       None \<Rightarrow> io_ok None
     | Some metadata \<Rightarrow>
       io_bind (io_result (map_err InvalidMetadata (decode_mesh_config_metadata metadata))) (\<lambda>config.
       io_bind (load_secret w root) (\<lambda>sec. case sec of
         None \<Rightarrow> io_err MissingNetworkSecret
       | Some secret \<Rightarrow>
         let config = config\<lparr>network_secret := secret\<rparr> in
         io_bind (io_result (map_err InvalidMeshConfig (config_validate config))) (\<lambda>_. io_ok (Some config))))))"

definition store_save :: "world \<Rightarrow> path \<Rightarrow> MeshConfig \<Rightarrow> unit io" where
  "store_save w root config =
     io_bind (io_result (map_err InvalidMeshConfig (config_validate config))) (\<lambda>_.
     io_bind (with_fs (\<lambda>s. validate_access w s root)) (\<lambda>_.
     io_bind (create_private_dir w root) (\<lambda>_.
     io_bind (save_secret w root (network_secret config)) (\<lambda>_.
     write_private_file w (config_path root) (as_bytes (encode_mesh_config_metadata config))))))"

definition load_or_generate :: "world \<Rightarrow> path \<Rightarrow> MeshConfig \<Rightarrow> MeshConfig io" where
  "load_or_generate w root generated =
     io_bind (store_load w root) (\<lambda>r. case r of
       Some config \<Rightarrow> io_ok config
     | None \<Rightarrow>
       io_bind (load_secret w root) (\<lambda>sec.
         if sec \<noteq> None then io_err (InvalidMetadata SecretWithoutConfig)
         else io_bind (store_save w root generated) (\<lambda>_. io_ok generated)))"

definition valid_name :: "rstring \<Rightarrow> rstring option" where
  "valid_name value =
     (if list_ex is_control value then None
      else let v = trim value in
        if v \<noteq> [] \<and> length (as_bytes v) \<le> 128 \<and> \<not> list_ex is_control v then Some v else None)"

definition rename_display_name :: "world \<Rightarrow> path \<Rightarrow> rstring \<Rightarrow> rstring \<Rightarrow> MeshConfig io" where
  "rename_display_name w root expected name =
     (case valid_name name of
        None \<Rightarrow> io_err (InvalidMetadata InvalidDeviceName)
      | Some new_name \<Rightarrow>
        io_bind (store_load w root) (\<lambda>r. case r of
          None \<Rightarrow> io_err (InvalidMetadata ConfigurationMissing)
        | Some config \<Rightarrow>
          if display_name config \<noteq> expected then io_err (InvalidMetadata NameChanged)
          else if display_name config \<noteq> new_name then
            (let config = config\<lparr>display_name := new_name\<rparr> in
             io_bind (write_private_file w (config_path root) (as_bytes (encode_mesh_config_metadata config))) (\<lambda>_. io_ok config))
          else io_ok config))"

definition prepare_join :: "world \<Rightarrow> path \<Rightarrow> rstring \<Rightarrow> bytes \<Rightarrow> rstring \<Rightarrow> rstring \<Rightarrow> (MeshConfig \<times> bool) io" where
  "prepare_join w root host_name rnd16 code name =
     io_bind (io_result (map_err InvalidMeshConfig (from_invite_code host_name rnd16 code name))) (\<lambda>joined.
     io_bind (store_load w root) (\<lambda>r. case r of
       Some current \<Rightarrow>
         let joined = joined\<lparr>node_id := node_id current, display_name := display_name current\<rparr> in
         io_ok (joined, joined \<noteq> current)
     | None \<Rightarrow> io_ok (joined, True)))"

definition store_delete :: "world \<Rightarrow> path \<Rightarrow> unit io" where
  "store_delete w root =
     io_bind (with_fs (\<lambda>s. validate_access w s root)) (\<lambda>_.
     io_bind (remove_file_if_exists w (config_path root)) (\<lambda>_. delete_secret w root))"

section \<open>Editing the device name\<close>

record NameEditor =
  ne_expected :: rstring
  ne_draft :: rstring

definition editor_new :: "rstring \<Rightarrow> NameEditor" where
  "editor_new saved = \<lparr>ne_expected = saved, ne_draft = saved\<rparr>"

definition editor_edit :: "rstring \<Rightarrow> NameEditor \<Rightarrow> NameEditor" where
  "editor_edit value ed = ed\<lparr>ne_draft := value\<rparr>"

definition pending_name :: "NameEditor \<Rightarrow> rstring option" where
  "pending_name ed = (case valid_name (ne_draft ed) of None \<Rightarrow> None | Some n \<Rightarrow> if n \<noteq> ne_expected ed then Some n else None)"

definition validation_error :: "NameEditor \<Rightarrow> bool" where
  "validation_error ed \<longleftrightarrow> valid_name (ne_draft ed) = None"

definition editor_accept :: "rstring \<Rightarrow> NameEditor \<Rightarrow> NameEditor" where
  "editor_accept saved ed = editor_new saved"

definition observe_saved :: "rstring \<Rightarrow> NameEditor \<Rightarrow> NameEditor" where
  "observe_saved saved ed = (if ne_draft ed = ne_expected ed \<and> ne_expected ed \<noteq> saved then editor_accept saved ed else ed)"

section \<open>Reasoning about the monad and the file system\<close>

lemma io_bind_Ok: "m s = (s', Ok x) \<Longrightarrow> io_bind m f s = f x s'"
  by (simp add: io_bind_def)

lemma io_bind_Err: "m s = (s', Err e) \<Longrightarrow> io_bind m f s = (s', Err e)"
  by (simp add: io_bind_def)

lemma io_bind_cases:
  obtains s' e where "m s = (s', Err e)" "io_bind m f s = (s', Err e)"
  | s' x where "m s = (s', Ok x)" "io_bind m f s = f x s'"
  by (cases "m s"; cases "snd (m s)") (auto simp: io_bind_def)

lemma io_pure [simp]: "io_ok x s = (s, Ok x)" "io_err e s = (s, Err e)" "io_result r s = (s, r)"
  by (simp_all add: io_ok_def io_err_def io_result_def)

definition undisturbed :: "world \<Rightarrow> bool" where
  "undisturbed w \<longleftrightarrow> (\<forall>k s. w_env w k s = s)"

lemma io_env_quiet: "undisturbed w \<Longrightarrow> io_env w k s = (s, Ok ())"
  by (simp add: io_env_def undisturbed_def)

text \<open>Operations that do not write.\<close>

definition pure_io :: "'a io \<Rightarrow> bool" where
  "pure_io m \<longleftrightarrow> (\<forall>s. fst (m s) = s)"

lemma pure_bind: "pure_io m \<Longrightarrow> (\<And>x. pure_io (f x)) \<Longrightarrow> pure_io (io_bind m f)"
proof (unfold pure_io_def, intro allI)
  fix s
  assume a: "\<forall>s. fst (m s) = s" "\<And>x. \<forall>s. fst (f x s) = s"
  show "fst (io_bind m f s) = s"
    by (cases rule: io_bind_cases [of m s f]) (use a in \<open>metis fst_conv\<close>)+
qed

lemma pure_basic [simp]:
  "pure_io (io_ok x)" "pure_io (io_err e)" "pure_io (io_result r)" "pure_io (with_fs g)" "pure_io (open_read w p)"
  "undisturbed w \<Longrightarrow> pure_io (io_env w k)"
  by (simp_all add: pure_io_def open_read_def io_env_quiet split: option.split)

lemma read_pure: "undisturbed w \<Longrightarrow> pure_io (read_private_file w p)"
  unfolding read_private_file_def by (intro pure_bind) (auto intro!: pure_bind split: option.split)

lemma load_secret_pure: "undisturbed w \<Longrightarrow> pure_io (load_secret w root)"
  unfolding load_secret_def by (intro pure_bind read_pure) (auto split: option.split)

lemma load_pure: "undisturbed w \<Longrightarrow> pure_io (store_load w root)"
  unfolding store_load_def Let_def
  by (intro pure_bind read_pure load_secret_pure) (auto intro!: pure_bind read_pure load_secret_pure split: option.split)

lemma join_pure: "undisturbed w \<Longrightarrow> pure_io (prepare_join w root h r c n)"
  unfolding prepare_join_def Let_def by (intro pure_bind load_pure) (auto split: option.split)

lemma pureD: "pure_io m \<Longrightarrow> m s = (s', r) \<Longrightarrow> s' = s"
  unfolding pure_io_def by (metis fst_conv)

lemma look_simps [simp]:
  "look (put_node p n s) q = (if q = p then Some n else look s q)"
  "look (drop_node p s) q = (if q = p then None else look s q)"
  "look (create_node w k m d p s) q = (if q = p then Some (fresh_node w k m d s) else look s q)"
  "look (s\<lparr>fs_next := i\<rparr>) q = look s q"
  by (simp_all add: look_def put_node_def drop_node_def create_node_def update_conv' delete_conv')

lemma next_simps [simp]:
  "fs_next (put_node p n s) = fs_next s" "fs_next (drop_node p s) = fs_next s" "fs_next (create_node w k m d p s) = fs_next s + 1"
  by (simp_all add: put_node_def drop_node_def create_node_def)

lemma read_None:
  assumes "undisturbed w" "read_private_file w p s = (s', Ok None)"
  shows "look s p = None"
proof -
  have "(case private_file_metadata w s p of Inl _ \<Rightarrow> False | Inr m \<Rightarrow> m = None)"
    using assms unfolding read_private_file_def
    by (auto simp: io_bind_def io_env_quiet split: sum.splits option.splits prod.splits if_splits)
  then show ?thesis
    by (auto simp: private_file_metadata_def symlink_metadata_def try_bind_def split: sum.splits stat.splits if_splits option.splits)
qed

lemma load_None:
  assumes "undisturbed w" "store_load w root s = (s', Ok None)"
  shows "look s (config_path root) = None"
proof -
  have "read_private_file w (config_path root) s = (s, Ok None)"
    using assms(2) pureD [OF read_pure [OF assms(1)], of "config_path root" s]
      pureD [OF load_secret_pure [OF assms(1)], of root s] unfolding store_load_def
    by (auto simp: io_bind_def Let_def split: sum.splits option.splits prod.splits)
  then show ?thesis by (rule read_None [OF assms(1)])
qed

lemma load_secret_None:
  assumes "undisturbed w" "load_secret w root s = (s', Ok None)"
  shows "look s (secret_path root) = None"
proof -
  have "read_private_file w (secret_path root) s = (s', Ok None)"
    using assms(2) unfolding load_secret_def
    by (auto simp: io_bind_def try_bind_def split: sum.splits option.splits prod.splits)
  then show ?thesis by (rule read_None [OF assms(1)])
qed

text \<open>
  Starting the program never rewrites an identity: whatever system calls fail, looking up the profile and
  preparing to join a group change no file, and \<open>load_or_generate\<close> changes none either unless neither the
  configuration nor the secret exists.
\<close>

theorem reading_never_writes:
  assumes "undisturbed w"
  shows "fst (store_load w root s) = s \<and> fst (prepare_join w root host rnd code name s) = s \<and>
    (fst (load_or_generate w root g s) = s \<or>
     look s (config_path root) = None \<and> look s (secret_path root) = None)"
proof -
  have "fst (load_or_generate w root g s) = s \<or> look s (config_path root) = None \<and> look s (secret_path root) = None"
  proof (cases "store_load w root s")
    case (Pair s1 r)
    then have s1: "s1 = s" using pureD [OF load_pure [OF assms]] by blast
    show ?thesis
    proof (cases r)
      case (Inr c)
      show ?thesis
      proof (cases c)
        case None
        obtain s2 r2 where l: "load_secret w root s = (s2, r2)" by force
        then have s2: "s2 = s" using pureD [OF load_secret_pure [OF assms]] by blast
        show ?thesis
        proof (cases "r2 = Ok None")
          case True
          then show ?thesis using load_None [OF assms] load_secret_None [OF assms] Pair Inr None l by blast
        next
          case False
          then have "fst (load_or_generate w root g s) = s"
            using Pair Inr None s1 l s2 unfolding load_or_generate_def by (cases r2) (auto simp: io_bind_def)
          then show ?thesis ..
        qed
      qed (use Pair Inr s1 in \<open>simp add: load_or_generate_def io_bind_def\<close>)
    qed (use Pair s1 in \<open>simp add: load_or_generate_def io_bind_def\<close>)
  qed
  then show ?thesis using load_pure [OF assms] join_pure [OF assms] by (simp add: pure_io_def)
qed

section \<open>Profiles of other users\<close>

lemma ancestors_self: "ancestors p = p # (if p = [] then [] else ancestors (butlast p))"
  by (cases p rule: rev_cases) (simp_all add: ancestors_def)

lemma ancestors_snoc [simp]: "ancestors (p @ [c]) = (p @ [c]) # ancestors p"
  by (simp add: ancestors_def)

definition ancestor_ok :: "world \<Rightarrow> fs \<Rightarrow> path \<Rightarrow> path \<Rightarrow> bool" where
  "ancestor_ok w s absolute a \<longleftrightarrow>
     (case symlink_metadata w s a of
        NotFound \<Rightarrow> True
      | StatError \<Rightarrow> False
      | Found n \<Rightarrow> if nd_kind n = KSymlink then a \<noteq> absolute \<and> nd_uid n = 0 else w_uid w = 0 \<longrightarrow> nd_uid n = 0)"

lemma check_ancestors_Ok: "check_ancestors w s p as = Ok () \<longleftrightarrow> (\<forall>a \<in> set as. ancestor_ok w s p a)"
  by (induction "as") (auto simp: ancestor_ok_def split: stat.splits)

lemma check_profile_path_Ok:
  "check_profile_path w s p = Ok () \<longleftrightarrow> ParentDir \<notin> set p \<and> (\<forall>a \<in> set (ancestors p). ancestor_ok w s p a)"
  by (simp add: check_profile_path_def check_ancestors_Ok)

lemma validate_private_dir_Ok:
  "validate_private_dir w s p = Ok () \<longleftrightarrow> check_profile_path w s p = Ok () \<and> owned_dir w s p (ancestors p) = Ok ()"
  by (cases "check_profile_path w s p") (auto simp: validate_private_dir_def try_bind_def)

text \<open>The directory of the profile exists and is not a private directory of the process, or the process is
  the superuser and something on the way to it belongs to another user.\<close>

definition not_ours :: "world \<Rightarrow> fs \<Rightarrow> path \<Rightarrow> bool" where
  "not_ours w s root \<longleftrightarrow>
     (\<exists>n. look s root = Some n \<and> (nd_kind n \<noteq> KDir \<or> nd_uid n \<noteq> w_uid w \<or> shared_mode (nd_mode n))) \<or>
     w_uid w = 0 \<and> (\<exists>a \<in> set (ancestors root). \<exists>n. look s a = Some n \<and> nd_uid n \<noteq> 0)"

lemma validate_not_ours:
  assumes "not_ours w s root"
  shows "validate_private_dir w s root \<noteq> Ok ()"
proof
  assume "validate_private_dir w s root = Ok ()"
  then have v: "\<forall>a \<in> set (ancestors root). ancestor_ok w s root a" "owned_dir w s root (ancestors root) = Ok ()"
    by (simp_all add: validate_private_dir_Ok check_profile_path_Ok)
  from assms consider
      n where "look s root = Some n" "nd_kind n \<noteq> KDir \<or> nd_uid n \<noteq> w_uid w \<or> shared_mode (nd_mode n)"
    | a n where "w_uid w = 0" "a \<in> set (ancestors root)" "look s a = Some n" "nd_uid n \<noteq> 0"
    unfolding not_ours_def by blast
  then show False
  proof cases
    case 1
    then show False using v(2) by (subst (asm) ancestors_self) (auto simp: symlink_metadata_def check_owner_def split: if_splits)
  next
    case 2
    from v(1) 2(2) have "ancestor_ok w s root a" by blast
    then show False using 2 by (auto simp: ancestor_ok_def symlink_metadata_def split: if_splits)
  qed
qed

lemma validate_access_not_ours:
  assumes "not_ours w s root"
  obtains e where "validate_access w s root = Err e"
  using validate_not_ours [OF assms] that by (cases "validate_private_dir w s root") (auto simp: validate_access_def)

text \<open>
  A profile that is not the process' own is never changed or used: whatever fails and whatever other
  processes do, every operation of the store refuses it and leaves the file system as it was.
\<close>

theorem foreign_profile_untouched:
  assumes "not_ours w s root"
  shows "(\<exists>e. store_load w root s = (s, Err e)) \<and> (\<exists>e. store_save w root c s = (s, Err e)) \<and>
    (\<exists>e. load_or_generate w root c s = (s, Err e)) \<and> (\<exists>e. rename_display_name w root x y s = (s, Err e)) \<and>
    (\<exists>e. prepare_join w root host rnd code name s = (s, Err e)) \<and> (\<exists>e. store_delete w root s = (s, Err e))"
proof -
  obtain e where e: "validate_access w s root = Err e" using validate_access_not_ours [OF assms] .
  have l: "store_load w root s = (s, Err e)" by (simp add: store_load_def io_bind_def e)
  moreover have "\<exists>e. store_save w root c s = (s, Err e)"
    by (cases "config_validate c") (simp_all add: store_save_def io_bind_def e)
  moreover have "\<exists>e. rename_display_name w root x y s = (s, Err e)"
    by (cases "valid_name y") (simp_all add: rename_display_name_def io_bind_def l)
  moreover have "\<exists>e. prepare_join w root host rnd code name s = (s, Err e)"
    by (cases "from_invite_code host rnd code name") (simp_all add: prepare_join_def io_bind_def l)
  ultimately show ?thesis by (simp add: load_or_generate_def store_delete_def io_bind_def e l)
qed

section \<open>Replacing a private file\<close>

lemma temporary_not_self: "temporary_path w (root @ [Normal x]) \<noteq> root @ [Normal x]"
  by (auto simp: temporary_path_def file_name_def lit_def dest: arg_cong [of _ _ length])

lemma temporary_snoc: "\<exists>y. temporary_path w (root @ [c]) = root @ [Normal y]"
  by (simp add: temporary_path_def)

lemma length_ancestor: "a \<in> set (ancestors p) \<Longrightarrow> length a \<le> length p"
proof (induction p rule: rev_induct)
  case (snoc c p)
  then show ?case by auto
qed (simp add: ancestors_def)

text \<open>What a look at the file system shows afterwards, outside a set of paths.\<close>

definition same_except :: "path set \<Rightarrow> fs \<Rightarrow> fs \<Rightarrow> bool" where
  "same_except P s s' \<longleftrightarrow> (\<forall>q. q \<notin> P \<longrightarrow> look s' q = look s q)"

definition ids_ok :: "fs \<Rightarrow> bool" where
  "ids_ok s \<longleftrightarrow> (\<forall>q n. look s q = Some n \<longrightarrow> nd_id n < fs_next s)"

lemma look_unlink:
  assumes "unlink w p s = (s', r)" "look s p = Some n"
  shows "if w_fails w SysUnlink p then s' = s \<and> r = Err (Io p)
    else r = Ok () \<and> fs_next s' = fs_next s \<and> look s' q = (if q = p then None else
      map_option (\<lambda>m. if nd_id m = nd_id n then m\<lparr>nd_nlink := nd_nlink m - 1\<rparr> else m) (look s q))"
proof -
  have m: "map_of (map (\<lambda>(q, m). (q, f m)) l) q = map_option f (map_of l q)" for f :: "node \<Rightarrow> node" and l q
    by (induction l) auto
  show ?thesis
    using assms look_simps(2) [of p s q]
    by (auto simp: unlink_def Let_def look_def m drop_node_def delete_conv' fun_upd_def)
qed

text \<open>The node a replacement leaves behind, and the state in which it is staged under the temporary name.\<close>

definition private_node :: "world \<Rightarrow> node option \<Rightarrow> bytes \<Rightarrow> node \<Rightarrow> bool" where
  "private_node w before dat n \<longleftrightarrow> nd_kind n = KFile \<and> nd_uid n = w_uid w \<and> nd_data n = dat \<and>
     nd_mode n = (case before of None \<Rightarrow> 384 | Some b \<Rightarrow> nd_mode b)"

definition staged :: "path \<Rightarrow> node \<Rightarrow> fs \<Rightarrow> fs \<Rightarrow> bool" where
  "staged q n s s' \<longleftrightarrow> look s' = (look s)(q \<mapsto> n) \<and> nd_id n = fs_next s \<and> nd_nlink n = 1 \<and> fs_next s' = fs_next s + 1"

lemma staged_create: "look s q = None \<Longrightarrow> staged q (fresh_node w k m d s) s (create_node w k m d q s)"
  by (auto simp: staged_def fun_eq_iff fresh_node_def create_node_def)

lemma staged_change:
  assumes "staged q n s s'" "nd_id (f n) = nd_id n" "nd_nlink (f n) = nd_nlink n"
  shows "(\<exists>e. change_node w c q f s' = (s', Err e)) \<or> change_node w c q f s' = (put_node q (f n) s', Ok ()) \<and> staged q (f n) s (put_node q (f n) s')"
proof -
  have "look s' q = Some n" using assms(1) by (simp add: staged_def)
  moreover have "fs_next (put_node q (f n) s') = fs_next s'" by (simp add: put_node_def)
  ultimately show ?thesis using assms by (auto simp: change_node_def staged_def fun_eq_iff)
qed

lemma change_node_fails: "w_fails w c q \<Longrightarrow> \<exists>e. change_node w c q f s = (s, Err e)"
  by (simp add: change_node_def split: option.split)

text \<open>Until publication only the temporary file changes.\<close>

definition prepare_temporary :: "world \<Rightarrow> path \<Rightarrow> node option \<Rightarrow> bytes \<Rightarrow> unit io" where
  "prepare_temporary w temporary before dat =
     io_bind (create_new w temporary (case before of None \<Rightarrow> 384 | Some n \<Rightarrow> nd_mode n mod 512)) (\<lambda>_.
     io_bind (change_node w SysWrite temporary (\<lambda>n. n\<lparr>nd_data := dat\<rparr>)) (\<lambda>_.
     case before of None \<Rightarrow> io_ok () | Some b \<Rightarrow> change_node w SysChmod temporary (\<lambda>n. n\<lparr>nd_mode := nd_mode b\<rparr>)))"

lemma io_bind_assoc: "io_bind (io_bind m f) g = io_bind m (\<lambda>x. io_bind (f x) g)"
  by (rule ext) (simp add: io_bind_def split: prod.splits sum.splits)

lemma write_and_publish_split:
  "write_and_publish w p q before dat =
     io_bind (prepare_temporary w q before dat) (\<lambda>_.
     io_bind (io_env w 2) (\<lambda>_.
     io_bind (with_fs (\<lambda>s. validate_private_parent w s p)) (\<lambda>_.
     io_bind (with_fs (\<lambda>s. private_file_metadata w s p)) (\<lambda>current.
     if \<not> (case (before, current) of (Some a, Some b) \<Rightarrow> same_profile_file a b | (None, None) \<Rightarrow> True | _ \<Rightarrow> False)
     then io_err (UnsafeProfile p)
     else io_bind (io_env w 3) (\<lambda>_.
       if before \<noteq> None then rename_over w q p else publish_new_private_file w q p)))))"
  unfolding write_and_publish_def prepare_temporary_def io_bind_assoc ..

lemma prepare_cases:
  assumes "look s q = None"
  obtains e where "prepare_temporary w q before dat s = (s, Err e)"
  | s' n e where "prepare_temporary w q before dat s = (s', Err e)" "staged q n s s'"
  | s' n where "prepare_temporary w q before dat s = (s', Ok ())" "staged q n s s'" "private_node w before dat n"
proof -
  let ?m = "case before of None \<Rightarrow> 384 | Some n \<Rightarrow> nd_mode n mod 512"
  let ?n = "fresh_node w KFile ?m [] s" and ?s = "create_node w KFile ?m [] q s"
  let ?n2 = "?n\<lparr>nd_data := dat\<rparr>"
  consider e where "create_new w q ?m s = (s, Err e)" | "create_new w q ?m s = (?s, Ok ())"
    using assms unfolding create_new_def by (cases "w_fails w SysOpen q") auto
  then show thesis
  proof cases
    case 1
    then show ?thesis using that(1) by (simp add: prepare_temporary_def io_bind_def)
  next
    case c: 2
    have st: "staged q ?n s ?s" by (rule staged_create [OF assms])
    from staged_change [OF st, of "\<lambda>n. n\<lparr>nd_data := dat\<rparr>" w SysWrite]
    consider e where "change_node w SysWrite q (\<lambda>n. n\<lparr>nd_data := dat\<rparr>) ?s = (?s, Err e)"
      | "change_node w SysWrite q (\<lambda>n. n\<lparr>nd_data := dat\<rparr>) ?s = (put_node q ?n2 ?s, Ok ())" "staged q ?n2 s (put_node q ?n2 ?s)"
      by auto
    then show ?thesis
    proof cases
      case 1
      then show ?thesis using that(2) [OF _ st] c by (simp add: prepare_temporary_def io_bind_def)
    next
      case d: 2
      show ?thesis
      proof (cases before)
        case None
        then show ?thesis
          using that(3) [OF _ d(2)] c d(1) by (simp add: prepare_temporary_def io_bind_def private_node_def fresh_node_def)
      next
        case (Some b)
        from staged_change [OF d(2), of "\<lambda>n. n\<lparr>nd_mode := nd_mode b\<rparr>" w SysChmod]
        consider e where "change_node w SysChmod q (\<lambda>n. n\<lparr>nd_mode := nd_mode b\<rparr>) (put_node q ?n2 ?s) = (put_node q ?n2 ?s, Err e)"
          | s3 where "change_node w SysChmod q (\<lambda>n. n\<lparr>nd_mode := nd_mode b\<rparr>) (put_node q ?n2 ?s) = (s3, Ok ())"
              "staged q (?n2\<lparr>nd_mode := nd_mode b\<rparr>) s s3"
          by auto
        then show ?thesis
        proof cases
          case 1
          then show ?thesis using that(2) [OF _ d(2)] c d(1) Some by (simp add: prepare_temporary_def io_bind_def)
        next
          case 2
          then show ?thesis
            using that(3) [OF _ 2(2)] c d(1) Some by (simp add: prepare_temporary_def io_bind_def private_node_def fresh_node_def)
        qed
      qed
    qed
  qed
qed

lemma unlink_staged:
  assumes "staged q n s s'" "ids_ok s"
  shows "same_except {q} s (fst (unlink w q s')) \<and> (look (fst (unlink w q s')) q = None \<or> w_fails w SysUnlink q)"
proof -
  obtain s2 r where u: "unlink w q s' = (s2, r)" by force
  have q: "look s' q = Some n" using assms(1) by (simp add: staged_def)
  have "look s2 x = look s x" if "x \<noteq> q" for x
  proof -
    have "look s' x = look s x" using assms(1) that by (simp add: staged_def)
    moreover have "look s x = Some m \<Longrightarrow> nd_id m \<noteq> nd_id n" for m using assms by (force simp: staged_def ids_ok_def)
    ultimately show ?thesis
      using look_unlink [OF u q, of x] that by (cases "look s x") (auto split: if_splits)
  qed
  then show ?thesis using look_unlink [OF u q, of q] by (auto simp: same_except_def u split: if_splits)
qed

lemma publish_cases:
  assumes w: "undisturbed w" and s: "look s q = None" "ids_ok s" "q \<noteq> p"
  obtains e where "write_and_publish w p q before dat s = (s, Err e)"
  | s' n e where "write_and_publish w p q before dat s = (s', Err e)" "staged q n s s'"
  | s' n e where "write_and_publish w p q before dat s = (s', Err e)" "private_node w before dat n" "w_fails w SysUnlink q"
      "look s' = (look s)(q \<mapsto> n, p \<mapsto> n)"
  | s' n where "write_and_publish w p q before dat s = (s', Ok ())" "private_node w before dat n" "nd_nlink n = 1"
      "nd_id n = fs_next s" "look s' = (look s)(q := None, p \<mapsto> n)" "fs_next s' = fs_next s + 1"
proof (cases rule: prepare_cases [OF s(1), of w before dat])
  case (1 e)
  then show ?thesis using that(1) by (simp add: write_and_publish_split io_bind_def)
next
  case (2 s' n e)
  then show ?thesis using that(2) by (simp add: write_and_publish_split io_bind_def)
next
  case (3 s' n)
  note pn = 3(3)
  let ?rest = "if before \<noteq> None then rename_over w q p else publish_new_private_file w q p"
  have st: "look s' = (look s)(q \<mapsto> n)" "nd_id n = fs_next s" "nd_nlink n = 1" "fs_next s' = fs_next s + 1"
    using 3(2) by (simp_all add: staged_def)
  have "(\<exists>e. write_and_publish w p q before dat s = (s', Err e)) \<or> write_and_publish w p q before dat s = ?rest s'"
    unfolding write_and_publish_split
    by (auto simp: io_bind_def 3(1) io_env_quiet [OF w] split: sum.splits)
  moreover have "?rest s' = (s', Err (Io p)) \<or>
      (\<exists>s2. ?rest s' = (s2, Ok ()) \<and> look s2 = (look s)(q := None, p \<mapsto> n) \<and> fs_next s2 = fs_next s + 1) \<or>
      (\<exists>s2 e. ?rest s' = (s2, Err e) \<and> w_fails w SysUnlink q \<and> look s2 = (look s)(q \<mapsto> n\<lparr>nd_nlink := 2\<rparr>, p \<mapsto> n\<lparr>nd_nlink := 2\<rparr>))"
  proof (cases before)
    case (Some b)
    then show ?thesis
      using st s(3) by (auto simp: rename_over_def fun_eq_iff)
  next
    case None
    show ?thesis
    proof (cases "look s p = None \<and> \<not> w_fails w SysLink p")
      case False
      then show ?thesis using None st s(3) by (auto simp: publish_new_private_file_def io_map_err_def io_bind_def hard_link_def split: option.splits)
    next
      case True
      define n2 where "n2 = n\<lparr>nd_nlink := 2\<rparr>"
      define s2 where "s2 = put_node p n2 (put_node q n2 s')"
      have l2: "look s2 = (look s)(q \<mapsto> n2, p \<mapsto> n2)" "fs_next s2 = fs_next s + 1"
        using st(1,4) by (auto simp: s2_def fun_eq_iff)
      have h: "hard_link w q p s' = (s2, Ok ())"
        using True st s(3) by (simp add: hard_link_def s2_def n2_def numeral_2_eq_2)
      obtain s3 r where u: "unlink w q s2 = (s3, r)" by force
      have q2: "look s2 q = Some n2" using l2(1) s(3) by simp
      have "?rest s' = (s3, map_err (\<lambda>_. Io p) r)"
        using None by (simp add: publish_new_private_file_def io_map_err_def io_bind_def h u)
      moreover have "look s3 x = ((look s)(q := None, p \<mapsto> n)) x" if "\<not> w_fails w SysUnlink q" for x
      proof -
        have id: "nd_id m \<noteq> nd_id n2" if "look s x = Some m" for m
          using that s(2) st(2) by (force simp: ids_ok_def n2_def)
        have "n2\<lparr>nd_nlink := nd_nlink n2 - 1\<rparr> = n" using st(3) by (simp add: n2_def)
        then show ?thesis
          using look_unlink [OF u q2, of x] that l2(1) s(3) id by (cases "look s x") auto
      qed
      ultimately show ?thesis
        using look_unlink [OF u q2, of q] l2 unfolding n2_def [symmetric]
        by (cases "w_fails w SysUnlink q") (auto simp: fun_eq_iff map_err_def)
    qed
  qed
  ultimately show ?thesis
    using that(2) [OF _ 3(2)] that(4) [OF _ pn st(3,2)] that(3) [of _ _ "n\<lparr>nd_nlink := 2\<rparr>"] pn
    by (auto simp: private_node_def)
qed

text \<open>Making the directory of the file adds only private directories.\<close>

definition adds_dirs :: "world \<Rightarrow> path \<Rightarrow> fs \<Rightarrow> fs \<Rightarrow> bool" where
  "adds_dirs w dir s s' \<longleftrightarrow> (\<forall>a. look s' a = look s a \<or> look s a = None \<and> a \<in> set (ancestors dir) \<and>
     (\<exists>n. look s' a = Some n \<and> nd_kind n = KDir \<and> nd_uid n = w_uid w \<and> nd_mode n = 448 \<and> nd_id n < fs_next s')) \<and>
     fs_next s \<le> fs_next s'"

lemma make_dirs_adds:
  assumes "make_dirs w p as s = (s', r)"
  shows "(\<forall>a. look s' a = look s a \<or> look s a = None \<and> a \<in> set as \<and>
     (\<exists>n. look s' a = Some n \<and> nd_kind n = KDir \<and> nd_uid n = w_uid w \<and> nd_mode n = 448 \<and> nd_id n < fs_next s')) \<and>
     fs_next s \<le> fs_next s' \<and> (r = Ok () \<longrightarrow> (\<forall>a \<in> set as. look s' a \<noteq> None))"
  using assms
proof (induction "as" arbitrary: s)
  case (Cons a rest)
  show ?case
  proof (cases "look s a")
    case None
    show ?thesis
    proof (cases "w_fails w SysMkdir a")
      case True
      then show ?thesis using Cons.prems None by auto
    next
      case False
      let ?s = "create_node w KDir 448 [] a s"
      have r: "make_dirs w p rest ?s = (s', r)" using Cons.prems None False by simp
      note IH = Cons.IH [OF r]
      have a: "look s' a = Some (fresh_node w KDir 448 [] s)" using IH [THEN conjunct1, THEN spec, of a] by simp
      show ?thesis
      proof (intro conjI allI impI ballI)
        fix x
        show "look s' x = look s x \<or> look s x = None \<and> x \<in> set (a # rest) \<and> (\<exists>n. look s' x = Some n \<and> nd_kind n = KDir \<and>
            nd_uid n = w_uid w \<and> nd_mode n = 448 \<and> nd_id n < fs_next s')"
        proof (cases "x = a")
          case True
          then show ?thesis using a None IH by (simp add: fresh_node_def)
        next
          case False
          then show ?thesis using IH by (metis list.set_intros(2) look_simps(3))
        qed
      next
        fix x assume "r = Ok ()" "x \<in> set (a # rest)"
        then show "look s' x \<noteq> None" using IH a by auto
      qed (use IH in simp)
    qed
  next
    case (Some n)
    show ?thesis
    proof (cases "nd_kind n = KFile")
      case True
      then show ?thesis using Cons.prems Some by auto
    next
      case False
      then have r: "make_dirs w p rest s = (s', r)" using Cons.prems Some by simp
      note IH = Cons.IH [OF r]
      then have "look s' a \<noteq> None" using Some by (metis option.distinct(1))
      then show ?thesis using IH by auto
    qed
  qed
qed auto

lemma create_private_dir_adds:
  assumes "create_private_dir w dir s = (s', r)"
  shows "adds_dirs w dir s s'"
proof (cases "validate_private_dir w s dir")
  case (Inl e)
  then show ?thesis using assms by (auto simp: create_private_dir_def io_bind_def adds_dirs_def)
next
  case (Inr u)
  obtain s2 r2 where m: "make_dirs w dir (rev (ancestors dir)) s = (s2, r2)" by force
  then have "s' = s2" using assms Inr by (cases r2) (auto simp: create_private_dir_def io_bind_def)
  then show ?thesis using make_dirs_adds [OF m] by (auto simp: adds_dirs_def)
qed

lemma adds_dirs_ids: "adds_dirs w dir s s' \<Longrightarrow> ids_ok s \<Longrightarrow> ids_ok s'"
  unfolding adds_dirs_def ids_ok_def by (metis option.distinct(1) option.inject order_less_le_trans)

lemma metadata_private:
  assumes "private_file_metadata w s p = Ok m"
  shows "m = look s p" "m = Some n \<Longrightarrow> nd_kind n = KFile \<and> nd_uid n = w_uid w \<and> nd_nlink n = 1 \<and> \<not> shared_mode (nd_mode n)"
  using assms
  by (auto simp: private_file_metadata_def symlink_metadata_def check_private_file_def check_owner_def try_bind_def
      split: sum.splits stat.splits if_splits option.splits)

lemma write_private_file_cases:
  assumes "write_private_file w p dat s = (s', r)" "p \<noteq> []"
  obtains "s' = s" "r \<noteq> Ok ()"
  | before e where "private_file_metadata w s p = Ok before" "create_private_dir w (butlast p) s = (s', Err e)" "r = Err e"
  | before s1 s2 where "private_file_metadata w s p = Ok before" "create_private_dir w (butlast p) s = (s1, Ok ())"
      "write_and_publish w p (temporary_path w p) before dat s1 = (s2, r)"
      "s' = (if r = Ok () then s2 else fst (unlink w (temporary_path w p) s2))"
proof (cases "validate_private_parent w s p")
  case (Inl e)
  then have "s' = s" "r = Err e" using assms(1) by (simp_all add: write_private_file_def io_bind_def)
  then show ?thesis using that(1) by simp
next
  case (Inr u)
  show ?thesis
  proof (cases "private_file_metadata w s p")
    case (Inl e)
    then have "s' = s" "r = Err e" using assms(1) Inr by (simp_all add: write_private_file_def io_bind_def)
    then show ?thesis using that(1) by simp
  next
    case m: (Inr before)
    obtain s1 r1 where c: "create_private_dir w (butlast p) s = (s1, r1)" by force
    show ?thesis
    proof (cases r1)
      case (Inl e)
      then have "s' = s1" "r = Err e" using assms Inr m c by (auto simp: write_private_file_def io_bind_def)
      then show ?thesis using that(2) [OF m] c Inl by simp
    next
      case (Inr u1)
      obtain s2 r2 where p: "write_and_publish w p (temporary_path w p) before dat s1 = (s2, r2)" by force
      have "write_private_file w p dat s = (case write_and_publish w p (temporary_path w p) before dat s1 of
          (s', Inr x) \<Rightarrow> (s', Inr x) | (s', Inl e) \<Rightarrow> (fst (unlink w (temporary_path w p) s'), Inl e))"
        using \<open>validate_private_parent w s p = Ok u\<close> m c Inr assms(2)
        by (simp add: write_private_file_def io_bind_def Let_def split: prod.split sum.split)
      then have "r = r2 \<and> s' = (if r2 = Ok () then s2 else fst (unlink w (temporary_path w p) s2))"
        using assms(1) p by (cases r2) auto
      then show ?thesis using that(3) [OF m _ _] c Inr p by simp
    qed
  qed
qed

definition replaced :: "world \<Rightarrow> bytes \<Rightarrow> node \<Rightarrow> bool" where
  "replaced w dat n \<longleftrightarrow> nd_data n = dat \<and> nd_kind n = KFile \<and> nd_uid n = w_uid w \<and> \<not> shared_mode (nd_mode n)"

definition only_dirs_added :: "world \<Rightarrow> path \<Rightarrow> path set \<Rightarrow> fs \<Rightarrow> fs \<Rightarrow> bool" where
  "only_dirs_added w root P s s' \<longleftrightarrow> (\<forall>a. a \<notin> P \<longrightarrow> look s' a = look s a \<or>
     look s a = None \<and> a \<in> set (ancestors root) \<and> (\<exists>n. look s' a = Some n \<and> nd_kind n = KDir \<and> nd_uid n = w_uid w \<and> nd_mode n = 448))"

lemma private_write_frame:
  assumes w: "undisturbed w" and ids: "ids_ok s" and p: "p = root @ [Normal x]"
    and q: "q = temporary_path w p" "look s q = None" and run: "write_private_file w p dat s = (s', r)"
  shows "only_dirs_added w root {p, q} s s' \<and> (look s' p = look s p \<or> (\<exists>n. look s' p = Some n \<and> replaced w dat n)) \<and>
    (r = Ok () \<longrightarrow> (\<exists>n. look s' p = Some n \<and> replaced w dat n \<and> nd_nlink n = 1) \<and> look s' q = None) \<and>
    (r \<noteq> Ok () \<longrightarrow> look s' p = look s p \<and> look s' q = None \<or> w_fails w SysUnlink q)"
proof -
  have pq: "q \<noteq> p" "p \<noteq> []" "butlast p = root" using temporary_not_self [of w root x] by (simp_all add: p q(1))
  have out: "p \<notin> set (ancestors root)" "q \<notin> set (ancestors root)"
    using length_ancestor [of p root] length_ancestor [of q root] temporary_snoc [of w root "Normal x"] by (auto simp: p q(1))
  have dirs: ?thesis if "adds_dirs w root s s'" "r \<noteq> Ok ()"
  proof -
    have "look s' p = look s p" "look s' q = look s q" using that(1) out unfolding adds_dirs_def by blast+
    moreover have "only_dirs_added w root {p, q} s s'" using that(1) unfolding adds_dirs_def only_dirs_added_def by blast
    ultimately show ?thesis using that(2) q(2) by simp
  qed
  show ?thesis
  proof (cases rule: write_private_file_cases [OF run pq(2)])
    case 1
    then show ?thesis using q(2) by (simp add: only_dirs_added_def)
  next
    case (2 before e)
    then show ?thesis using dirs create_private_dir_adds [of w root s s' "Err e"] pq(3) by simp
  next
    case (3 before s1 s2)
    have ad: "adds_dirs w root s s1" using 3(2) create_private_dir_adds pq(3) by metis
    then have "ids_ok s1" by (rule adds_dirs_ids [OF _ ids])
    have lq: "look s1 q = None" and lp: "look s1 p = look s p" using ad out q(2) unfolding adds_dirs_def by metis+
    have rest: "look s1 a = look s a \<or> look s a = None \<and> a \<in> set (ancestors root) \<and>
        (\<exists>n. look s1 a = Some n \<and> nd_kind n = KDir \<and> nd_uid n = w_uid w \<and> nd_mode n = 448)" for a
      using ad unfolding adds_dirs_def by blast
    have mode: "\<not> shared_mode (nd_mode n)" if "private_node w before dat n" for n
      using that metadata_private(2) [OF 3(1)] by (auto simp: private_node_def shared_mode_def split: option.splits)
    have new: "replaced w dat n"
      if "private_node w before dat n" for n using mode [OF that] that by (simp add: private_node_def replaced_def)
    show ?thesis
    proof (cases rule: publish_cases [OF w lq \<open>ids_ok s1\<close> pq(1), of before dat])
      case (1 e)
      then have "r \<noteq> Ok ()" "s' = s1" using 3(3,4) lq by (simp_all add: q(1) unlink_def)
      then show ?thesis using dirs ad by simp
    next
      case (2 s3 n e)
      then have r: "r \<noteq> Ok ()" "same_except {q} s1 s'" "look s' q = None \<or> w_fails w SysUnlink q"
        using 3(3,4) unlink_staged [OF 2(2) \<open>ids_ok s1\<close>, of w] by (simp_all add: q(1))
      have "look s' a = look s1 a" if "a \<noteq> q" for a using r(2) that by (simp add: same_except_def)
      then have "look s' p = look s p" "only_dirs_added w root {p, q} s s'"
        using rest lp pq(1) unfolding only_dirs_added_def by auto
      then show ?thesis using r by blast
    next
      case (3 s3 n e)
      then have r: "r \<noteq> Ok ()" "s2 = s3" using \<open>write_and_publish w p (temporary_path w p) before dat s1 = (s2, r)\<close> q(1) by simp_all
      have "fst (unlink w q s3) = s3" using 3(3) by (simp add: unlink_def split: option.splits)
      then have "s' = s3" using r \<open>s' = _\<close> by (simp add: q(1))
      then show ?thesis using r 3(3,4) rest new [OF 3(2)] pq(1) by (auto simp: only_dirs_added_def)
    next
      case (4 s3 n)
      then have "r = Ok ()" "s' = s3" using 3(3,4) by (simp_all add: q(1))
      then show ?thesis using 4 rest new [OF 4(2)] pq(1) by (auto simp: only_dirs_added_def)
    qed
  qed
qed

text \<open>
  C31. Replacing a private file is all or nothing: whatever system calls fail, the file afterwards is either
  exactly what it was or has the complete new contents, private and owned by the process.  Success means
  the latter, with a single link and no temporary file left.  After a failure the file is what it was and
  the temporary file is gone, unless it is the removal of the temporary file itself that failed.  Apart
  from these two names, only missing private directories on the way to the file may have been added.
\<close>

theorem private_write_atomic:
  assumes "undisturbed w" "ids_ok s" "p = root @ [Normal x]" "q = temporary_path w p" "look s q = None"
    and "write_private_file w p dat s = (s', r)"
  shows "only_dirs_added w root {p, q} s s' \<and> (look s' p = look s p \<or> (\<exists>n. look s' p = Some n \<and> replaced w dat n)) \<and>
    (r = Ok () \<longrightarrow> (\<exists>n. look s' p = Some n \<and> replaced w dat n \<and> nd_nlink n = 1) \<and> look s' q = None) \<and>
    (r \<noteq> Ok () \<longrightarrow> look s' p = look s p \<and> look s' q = None \<or> w_fails w SysUnlink q)"
  by (rule private_write_frame [OF assms])

text \<open>Renaming the device replaces the metadata file only; the secret stays as it is.\<close>

lemma rename_keeps_secret:
  assumes w: "undisturbed w" and ids: "ids_ok s" and q: "look s (temporary_path w (config_path root)) = None"
  shows "look (fst (rename_display_name w root expected name s)) (secret_path root) = look s (secret_path root)"
proof -
  have sp: "secret_path root \<noteq> config_path root" "secret_path root \<noteq> temporary_path w (config_path root)"
    "secret_path root \<notin> set (ancestors root)"
    using length_ancestor [of "secret_path root" root]
    by (auto simp: secret_path_def config_path_def temporary_path_def file_name_def lit_def)
  have keep: "look s' (secret_path root) = look s (secret_path root)"
    if "write_private_file w (config_path root) dat s = (s', r)" for dat s' r
    using private_write_frame [OF w ids config_path_def refl q that] sp unfolding only_dirs_added_def by blast
  obtain r where l: "store_load w root s = (s, r)" using load_pure [OF w] unfolding pure_io_def by (metis prod.collapse)
  show ?thesis
    by (cases "write_private_file w (config_path root) (as_bytes (encode_mesh_config_metadata ((the (projr r))\<lparr>display_name := the (valid_name name)\<rparr>))) s")
      (use keep in \<open>auto simp: rename_display_name_def io_bind_def l Let_def split: option.splits sum.splits\<close>)
qed

section \<open>What is saved is loaded\<close>

definition no_faults :: "world \<Rightarrow> bool" where
  "no_faults w \<longleftrightarrow> undisturbed w \<and> (\<forall>c q. \<not> w_fails w c q)"

lemma stat_no_faults: "no_faults w \<Longrightarrow> symlink_metadata w s a = (case look s a of None \<Rightarrow> NotFound | Some n \<Rightarrow> Found n)"
  by (simp add: symlink_metadata_def no_faults_def)

text \<open>The directory of the profile, all of it in place.\<close>

definition good_dir :: "world \<Rightarrow> fs \<Rightarrow> path \<Rightarrow> bool" where
  "good_dir w s root \<longleftrightarrow> check_profile_path w s root = Ok () \<and>
     (\<forall>a \<in> set (ancestors root). \<exists>n. look s a = Some n \<and> nd_kind n \<noteq> KFile) \<and>
     (\<exists>n. look s root = Some n \<and> nd_kind n = KDir \<and> nd_uid n = w_uid w \<and> \<not> shared_mode (nd_mode n))"

lemma good_dir_valid: "good_dir w s root \<Longrightarrow> no_faults w \<Longrightarrow> validate_private_dir w s root = Ok ()"
  using ancestors_self [of root]
  by (auto simp: good_dir_def validate_private_dir_Ok stat_no_faults check_owner_def)

lemma make_dirs_none:
  "(\<forall>a \<in> set as. \<exists>n. look s a = Some n \<and> nd_kind n \<noteq> KFile) \<Longrightarrow> make_dirs w p as s = (s, Ok ())"
  by (induction "as") auto

lemma good_dir_create: "good_dir w s root \<Longrightarrow> no_faults w \<Longrightarrow> create_private_dir w root s = (s, Ok ())"
  using make_dirs_none [of "rev (ancestors root)" s w root] good_dir_valid [of w s root]
  by (auto simp: create_private_dir_def io_bind_def good_dir_def)

lemma good_dir_cong: "good_dir w s root \<Longrightarrow> (\<And>a. a \<in> set (ancestors root) \<Longrightarrow> look s' a = look s a) \<Longrightarrow> good_dir w s' root"
proof -
  assume g: "good_dir w s root" and same: "\<And>a. a \<in> set (ancestors root) \<Longrightarrow> look s' a = look s a"
  have r: "root \<in> set (ancestors root)" using ancestors_self [of root] by simp
  have "ancestor_ok w s' root a = ancestor_ok w s root a" if "a \<in> set (ancestors root)" for a
    using same [OF that] by (simp add: ancestor_ok_def symlink_metadata_def)
  then show ?thesis using g same same [OF r] by (auto simp: good_dir_def check_profile_path_Ok)
qed

lemma ancestor_not_below: "root @ [c] \<notin> set (ancestors root)"
  using length_ancestor [of "root @ [c]" root] by auto

lemma good_file_path:
  assumes "good_dir w s root" "no_faults w"
    "case look s (root @ [Normal x]) of None \<Rightarrow> True | Some n \<Rightarrow> nd_kind n = KFile \<and> nd_uid n = w_uid w"
  shows "check_profile_path w s (root @ [Normal x]) = Ok ()"
proof -
  have "ParentDir \<notin> set root" "\<forall>a \<in> set (ancestors root). ancestor_ok w s root a"
    using assms(1) by (simp_all add: good_dir_def check_profile_path_Ok)
  then have "ancestor_ok w s (root @ [Normal x]) a" if "a \<in> set (ancestors root)" for a
    using that ancestor_not_below [of root "Normal x"] by (auto simp: ancestor_ok_def split: stat.splits if_splits)
  moreover have "ancestor_ok w s (root @ [Normal x]) (root @ [Normal x])"
    using assms(2,3) by (auto simp: ancestor_ok_def stat_no_faults split: option.splits)
  ultimately show ?thesis using \<open>ParentDir \<notin> set root\<close> by (auto simp: check_profile_path_Ok)
qed

definition good_file :: "world \<Rightarrow> fs \<Rightarrow> path \<Rightarrow> bool" where
  "good_file w s p \<longleftrightarrow> (case look s p of None \<Rightarrow> True
     | Some n \<Rightarrow> nd_kind n = KFile \<and> nd_uid n = w_uid w \<and> nd_nlink n = 1 \<and> \<not> shared_mode (nd_mode n))"

lemma good_file_metadata:
  assumes "good_dir w s root" "no_faults w" "good_file w s (root @ [Normal x])"
  shows "private_file_metadata w s (root @ [Normal x]) = Ok (look s (root @ [Normal x]))"
proof -
  have "check_profile_path w s (root @ [Normal x]) = Ok ()"
    by (rule good_file_path) (use assms in \<open>auto simp: good_file_def split: option.splits\<close>)
  then show ?thesis
    using assms(2,3)
    by (auto simp: private_file_metadata_def stat_no_faults check_private_file_def check_owner_def good_file_def split: option.splits)
qed

lemma same_file_refl [simp]: "same_profile_file n n"
  by (simp add: same_profile_file_def)

lemma read_good:
  assumes "good_dir w s root" "no_faults w" "good_file w s (root @ [Normal x])"
  shows "read_private_file w (root @ [Normal x]) s = (s,
    case look s (root @ [Normal x]) of None \<Rightarrow> Ok None
    | Some n \<Rightarrow> (case from_utf8 (nd_data n) of None \<Rightarrow> Err (Io (root @ [Normal x])) | Some t \<Rightarrow> Ok (Some t)))"
proof -
  have "validate_private_parent w s (root @ [Normal x]) = Ok ()"
    using good_dir_valid [OF assms(1,2)] by (simp add: validate_private_parent_def)
  moreover have "undisturbed w" using assms(2) by (simp add: no_faults_def)
  ultimately show ?thesis
    using good_file_metadata [OF assms] assms(2,3)
    by (auto simp: read_private_file_def io_bind_def io_env_quiet open_read_def no_faults_def check_private_file_def
        check_owner_def good_file_def split: option.splits)
qed

lemma write_good:
  assumes gd: "good_dir w s root" and nf: "no_faults w" and gf: "good_file w s (root @ [Normal x])"
    and ids: "ids_ok s" and q: "look s (temporary_path w (root @ [Normal x])) = None"
  obtains s' n where "write_private_file w (root @ [Normal x]) dat s = (s', Ok ())"
    "look s' = (look s)(root @ [Normal x] \<mapsto> n)" "nd_data n = dat" "good_file w s' (root @ [Normal x])"
    "ids_ok s'" "good_dir w s' root"
proof -
  let ?p = "root @ [Normal x]"
  let ?q = "temporary_path w ?p"
  have w: "undisturbed w" using nf by (simp add: no_faults_def)
  have parent: "validate_private_parent w s ?p = Ok ()" using good_dir_valid [OF gd nf] by (simp add: validate_private_parent_def)
  obtain y where y: "?q = root @ [Normal y]" using temporary_snoc by blast
  have steps: "write_private_file w ?p dat s = (case write_and_publish w ?p ?q (look s ?p) dat s of
      (s', Inr u) \<Rightarrow> (s', Inr u) | (s', Inl e) \<Rightarrow> (fst (unlink w ?q s'), Inl e))"
    using parent good_file_metadata [OF gd nf gf] good_dir_create [OF gd nf]
    by (simp add: write_private_file_def io_bind_def Let_def split: prod.split sum.split)
  have ok: "snd (write_and_publish w ?p ?q (look s ?p) dat s) = Ok ()"
  proof (cases rule: prepare_cases [OF q, of w "look s ?p" dat])
    case (3 s1 n)
    have l1: "look s1 = (look s)(?q \<mapsto> n)" using 3(2) by (simp add: staged_def)
    then have same: "look s1 a = look s a" if "a \<noteq> ?q" for a using that by simp
    have gd1: "good_dir w s1 root" by (rule good_dir_cong [OF gd]) (use same y ancestor_not_below in metis)
    have p1: "look s1 ?p = look s ?p" using same temporary_not_self [of w root x] by metis
    have gf1: "good_file w s1 ?p" using gf p1 by (simp add: good_file_def)
    have v1: "validate_private_parent w s1 ?p = Ok ()" using good_dir_valid [OF gd1 nf] by (simp add: validate_private_parent_def)
    have n1: "look s1 ?q = Some n" using l1 by simp
    have "snd ((if look s ?p \<noteq> None then rename_over w ?q ?p else publish_new_private_file w ?q ?p) s1) = Ok ()"
    proof (cases "look s ?p")
      case (Some b)
      then show ?thesis using n1 nf by (simp add: rename_over_def no_faults_def)
    next
      case None
      obtain s2 where h: "hard_link w ?q ?p s1 = (s2, Ok ())" "look s2 ?q \<noteq> None"
        using n1 p1 None nf by (simp add: hard_link_def no_faults_def)
      then have "snd (unlink w ?q s2) = Ok ()" using nf by (auto simp: unlink_def no_faults_def Let_def)
      then show ?thesis
        using None h(1) by (simp add: publish_new_private_file_def io_map_err_def io_bind_def split_beta map_err_def)
    qed
    then show ?thesis
      using 3(1) v1 good_file_metadata [OF gd1 nf gf1] p1
      by (auto simp: write_and_publish_split io_bind_def io_env_quiet [OF w] split: option.splits)
  qed (use q nf in \<open>auto simp: prepare_temporary_def io_bind_def create_new_def change_node_def no_faults_def split: option.splits\<close>)
  then show thesis
  proof (cases rule: publish_cases [OF w q ids temporary_not_self, of "look s ?p" dat])
    case (4 s' n)
    have l: "look s' = (look s)(?p \<mapsto> n)" using 4(5) q temporary_not_self [of w root x] by (auto simp: fun_eq_iff)
    have m: "\<not> shared_mode (nd_mode n)"
      using 4(2) gf by (auto simp: private_node_def good_file_def shared_mode_def split: option.splits)
    show thesis
    proof (rule that [OF _ l])
      show "write_private_file w ?p dat s = (s', Ok ())" using steps 4(1) by simp
      show "nd_data n = dat" "good_file w s' ?p" using 4(2,3) m l by (simp_all add: private_node_def good_file_def)
      show "ids_ok s'" using ids l 4(4,6) by (auto simp: ids_ok_def less_Suc_eq)
      show "good_dir w s' root" by (rule good_dir_cong [OF gd]) (use l ancestor_not_below [of root "Normal x"] in auto)
    qed
  qed (use ok in auto)
qed

lemma make_dirs_Ok:
  assumes "no_faults w" "\<forall>a \<in> set as. case look s a of None \<Rightarrow> True | Some n \<Rightarrow> nd_kind n \<noteq> KFile"
  shows "\<exists>s'. make_dirs w p as s = (s', Ok ())"
  using assms(2)
proof (induction "as" arbitrary: s)
  case (Cons a rest)
  show ?case
  proof (cases "look s a")
    case None
    let ?s = "create_node w KDir 448 [] a s"
    have "\<forall>b \<in> set rest. case look ?s b of None \<Rightarrow> True | Some n \<Rightarrow> nd_kind n \<noteq> KFile"
      using Cons.prems by (simp add: fresh_node_def)
    then show ?thesis using Cons.IH [of ?s] None assms(1) by (simp add: no_faults_def)
  next
    case (Some n)
    then show ?thesis using Cons by auto
  qed
qed simp

lemma create_makes_good:
  assumes nf: "no_faults w" and v: "validate_private_dir w s root = Ok ()"
    and k: "\<forall>a \<in> set (ancestors root). case look s a of None \<Rightarrow> True | Some n \<Rightarrow> nd_kind n \<noteq> KFile"
  obtains s' where "create_private_dir w root s = (s', Ok ())" "good_dir w s' root" "adds_dirs w root s s'"
proof -
  obtain s' where m: "make_dirs w root (rev (ancestors root)) s = (s', Ok ())"
    using make_dirs_Ok [OF nf, of "rev (ancestors root)" s root] k by auto
  note A = make_dirs_adds [OF m]
  have cp: "ParentDir \<notin> set root" "\<And>a. a \<in> set (ancestors root) \<Longrightarrow> ancestor_ok w s root a"
    and od: "owned_dir w s root (ancestors root) = Ok ()"
    using v by (simp_all add: validate_private_dir_Ok check_profile_path_Ok)
  have each: "ancestor_ok w s' root a \<and> (\<exists>n. look s' a = Some n \<and> nd_kind n \<noteq> KFile)" if a: "a \<in> set (ancestors root)" for a
  proof (cases "look s' a = look s a")
    case True
    moreover have "look s' a \<noteq> None" using A a by simp
    ultimately obtain n where "look s a = Some n" by auto
    then show ?thesis using cp(2) [OF a] k a True by (auto simp: ancestor_ok_def stat_no_faults [OF nf])
  next
    case False
    then obtain n where "look s' a = Some n" "nd_kind n = KDir" "nd_uid n = w_uid w" using A by blast
    then show ?thesis by (simp add: ancestor_ok_def stat_no_faults [OF nf])
  qed
  have "\<exists>n. look s' root = Some n \<and> nd_kind n = KDir \<and> nd_uid n = w_uid w \<and> \<not> shared_mode (nd_mode n)"
  proof (cases "look s' root = look s root")
    case True
    moreover have "look s' root \<noteq> None" using A ancestors_self [of root] by simp
    ultimately obtain n where "look s root = Some n" by auto
    then show ?thesis
      using od ancestors_self [of root] True by (auto simp: stat_no_faults [OF nf] check_owner_def split: if_splits)
  next
    case False
    then obtain n where "look s' root = Some n" "nd_kind n = KDir" "nd_uid n = w_uid w" "nd_mode n = 448" using A by blast
    then show ?thesis by (simp add: shared_mode_def)
  qed
  then have g: "good_dir w s' root" using each cp(1) by (simp add: good_dir_def check_profile_path_Ok)
  have c: "create_private_dir w root s = (s', Ok ())"
    using v m good_dir_valid [OF g nf] by (simp add: create_private_dir_def io_bind_def)
  show thesis using that [OF c g create_private_dir_adds [OF c]] .
qed

lemma metadata_good: "private_file_metadata w s p = Ok m \<Longrightarrow> good_file w s p"
  using metadata_private [of w s p m] by (cases "look s p") (auto simp: good_file_def)

lemma access_Ok:
  assumes "validate_access w s root = Ok ()"
  shows "validate_private_dir w s root = Ok ()" "good_file w s (config_path root)" "good_file w s (secret_path root)"
  using assms
  by (auto simp: validate_access_def secret_validate_access_def try_bind_def intro: metadata_good split: sum.splits)

lemma good_access:
  assumes "good_dir w s root" "no_faults w" "good_file w s (config_path root)" "good_file w s (secret_path root)"
  shows "validate_access w s root = Ok ()"
  using assms good_dir_valid [OF assms(1,2)] good_file_metadata [OF assms(1,2), of "lit ''mesh.conf''"]
    good_file_metadata [OF assms(1,2), of "lit ''mesh.secret''"]
  by (simp add: validate_access_def secret_validate_access_def config_path_def secret_path_def validate_private_parent_def)

lemma profile_names:
  "secret_path root \<noteq> config_path root" "temporary_path w (config_path root) \<noteq> secret_path root"
  "temporary_path w (secret_path root) \<noteq> config_path root"
  by (simp_all add: secret_path_def config_path_def temporary_path_def file_name_def lit_def)

lemma scalars_ascii: "list_all (\<lambda>c. c < 0x80) s \<Longrightarrow> scalars s"
  by (auto simp: scalars_def scalar_def list_all_iff)

lemma metadata_ascii: "list_all (\<lambda>c. c < 0x80) (encode_mesh_config_metadata c)"
  by (simp add: encode_mesh_config_metadata_def lit_def hex_bytes_ascii)

lemma saved_loads_trimmed:
  assumes nf: "no_faults w" and acc: "validate_access w s root = Ok ()"
    and k: "\<forall>a \<in> set (ancestors root). case look s a of None \<Rightarrow> True | Some n \<Rightarrow> nd_kind n \<noteq> KFile"
    and ids: "ids_ok s" and tmp: "look s (temporary_path w (config_path root)) = None" "look s (temporary_path w (secret_path root)) = None"
    and c: "config_validate c = Ok ()" "scalars (network_name c)" "scalars (network_secret c)" "scalars (node_id c)"
      "scalars (display_name c)"
  shows "\<exists>s'. store_save w root c s = (s', Ok ()) \<and>
    store_load w root s' = (s', Ok (Some (c\<lparr>network_secret := trim (network_secret c)\<rparr>)))"
proof -
  let ?cp = "config_path root" and ?sp = "secret_path root"
  obtain s1 where s1: "create_private_dir w root s = (s1, Ok ())" "good_dir w s1 root" "adds_dirs w root s s1"
    using create_makes_good [OF nf access_Ok(1) [OF acc] k] .
  have same: "look s1 (root @ [d]) = look s (root @ [d])" for d
    using s1(3) ancestor_not_below [of root d] unfolding adds_dirs_def by blast
  have keep: "look s1 ?cp = look s ?cp" "look s1 ?sp = look s ?sp" using same by (simp_all add: config_path_def secret_path_def)
  have tkeep: "look s1 (temporary_path w ?cp) = None" "look s1 (temporary_path w ?sp) = None"
    using same tmp temporary_snoc unfolding config_path_def secret_path_def by metis+
  have gf: "good_file w s1 ?sp" "good_file w s1 ?cp" using access_Ok [OF acc] keep by (simp_all add: good_file_def)
  obtain s2 n2 where s2: "write_private_file w ?sp (as_bytes (network_secret c)) s1 = (s2, Ok ())" "look s2 = (look s1)(?sp \<mapsto> n2)"
      "nd_data n2 = as_bytes (network_secret c)" "good_file w s2 ?sp" "ids_ok s2" "good_dir w s2 root"
    using write_good [OF s1(2) nf gf(1) [unfolded secret_path_def] adds_dirs_ids [OF s1(3) ids] tkeep(2) [unfolded secret_path_def], folded secret_path_def] .
  have gf2: "good_file w s2 ?cp" "look s2 (temporary_path w ?cp) = None"
    using gf(2) tkeep(1) s2(2) profile_names(2) [of w root] profile_names(1) [of root] by (auto simp: good_file_def)
  obtain s3 n3 where s3: "write_private_file w ?cp (as_bytes (encode_mesh_config_metadata c)) s2 = (s3, Ok ())"
      "look s3 = (look s2)(?cp \<mapsto> n3)" "nd_data n3 = as_bytes (encode_mesh_config_metadata c)" "good_file w s3 ?cp"
      "ids_ok s3" "good_dir w s3 root"
    using write_good [OF s2(6) nf gf2(1) [unfolded config_path_def] s2(5) gf2(2) [unfolded config_path_def], folded config_path_def] .
  have sec: "look s3 ?sp = Some n2" "good_file w s3 ?sp" using s2(2,4) s3(2) profile_names(1) [of root] by (auto simp: good_file_def)
  have save: "store_save w root c s = (s3, Ok ())"
    using c(1) acc s1(1) s2(1) s3(1) by (simp add: store_save_def io_bind_def save_secret_def)
  have rc: "read_private_file w ?cp s3 = (s3, Ok (Some (encode_mesh_config_metadata c)))"
    using read_good [OF s3(6) nf, of "lit ''mesh.conf''", folded config_path_def] s3(2,3,4)
      from_utf8_as_bytes [OF scalars_ascii [OF metadata_ascii]] by simp
  have rs: "read_private_file w ?sp s3 = (s3, Ok (Some (network_secret c)))"
    using read_good [OF s3(6) nf, of "lit ''mesh.secret''", folded secret_path_def] sec s2(3) from_utf8_as_bytes [OF c(3)] by simp
  have ne: "trim (network_secret c) \<noteq> []" using c(1) by (auto simp: config_validate_def split: if_splits)
  have ls: "load_secret w root s3 = (s3, Ok (Some (trim (network_secret c))))"
    using rs ne by (simp add: load_secret_def io_bind_def secret_new_def)
  have "config_validate (c\<lparr>network_secret := trim (network_secret c)\<rparr>) = Ok ()"
    using c(1) by (simp add: config_validate_def split: if_splits)
  then have "store_load w root s3 = (s3, Ok (Some (c\<lparr>network_secret := trim (network_secret c)\<rparr>)))"
    using good_access [OF s3(6) nf s3(4) sec(2)] rc ls metadata_roundtrip [OF c(2,4,5)]
    by (simp add: store_load_def io_bind_def Let_def)
  with save show ?thesis by blast
qed

text \<open>
  What is saved is loaded: without failures and interference, saving a valid configuration into a profile
  the process may use succeeds, whether or not the directory exists yet, and loading it then returns the
  same configuration.
\<close>

theorem saved_config_is_loaded:
  assumes "no_faults w" "validate_access w s root = Ok ()"
    and "\<forall>a \<in> set (ancestors root). case look s a of None \<Rightarrow> True | Some n \<Rightarrow> nd_kind n \<noteq> KFile"
    and "ids_ok s" "look s (temporary_path w (config_path root)) = None" "look s (temporary_path w (secret_path root)) = None"
    and "config_validate c = Ok ()" "scalars (network_name c)" "scalars (network_secret c)" "scalars (node_id c)"
      "scalars (display_name c)" "trim (network_secret c) = network_secret c"
  shows "\<exists>s'. store_save w root c s = (s', Ok ()) \<and> store_load w root s' = (s', Ok (Some c))"
  using saved_loads_trimmed [OF assms(1-11)] assms(12) by simp

section \<open>Examples\<close>

definition demo_world :: world where
  "demo_world = \<lparr>w_uid = 1000, w_fails = (\<lambda>_ _. False), w_env = (\<lambda>_ s. s), w_cwd = [], w_suffix = [1, 2, 3, 4]\<rparr>"

definition demo_node :: "nat \<Rightarrow> nat \<Rightarrow> node" where
  "demo_node i uid = \<lparr>nd_kind = KDir, nd_uid = uid, nd_mode = 493, nd_nlink = 1, nd_id = i, nd_data = [], nd_modified = i\<rparr>"

definition demo_home :: path where "demo_home = [Normal (lit ''h'')]"

text \<open>A home directory without a profile.\<close>

definition demo_fs :: fs where
  "demo_fs = \<lparr>fs_nodes = [([], demo_node 0 0), (demo_home, demo_node 1 1000)], fs_next = 2\<rparr>"

definition demo_root :: path where "demo_root = demo_home @ [Normal (lit ''w'')]"

definition demo_config :: MeshConfig where
  "demo_config = \<lparr>network_name = lit ''n'', network_secret = lit ''ab'', node_id = lit ''i'', display_name = lit ''d''\<rparr>"

lemmas demo_profile_simps = demo_world_def demo_node_def demo_home_def demo_fs_def demo_root_def demo_config_def lit_def
  look_def config_path_def secret_path_def temporary_path_def file_name_def

lemma demo_quiet: "no_faults demo_world" "undisturbed demo_world"
  by (simp_all add: demo_world_def no_faults_def undisturbed_def)

lemma demo_look: "look demo_fs q = (if q = [] then Some (demo_node 0 0) else if q = demo_home then Some (demo_node 1 1000) else None)"
  by (simp add: demo_fs_def look_def demo_home_def)

lemma demo_ids: "ids_ok demo_fs"
proof -
  have "fs_next demo_fs = 2" by (simp add: demo_fs_def)
  then show ?thesis by (auto simp: ids_ok_def demo_look demo_node_def split: if_splits)
qed

lemma demo_ancestors: "ancestors demo_root = [demo_root, demo_home, []]"
  by (simp add: demo_root_def demo_home_def ancestors_def)

lemma demo_access: "validate_access demo_world demo_fs demo_root = Ok ()"
  by (simp add: validate_access_def secret_validate_access_def validate_private_parent_def validate_private_dir_def
      check_profile_path_def private_file_metadata_def config_path_def secret_path_def demo_ancestors stat_no_faults
      demo_quiet demo_look check_owner_def demo_root_def demo_home_def demo_node_def ancestors_def)
    (simp add: demo_world_def)

lemma demo_trim: "trim (lit ''ab'') = lit ''ab''" "trim (lit ''n'') = lit ''n''" "trim (lit ''i'') = lit ''i''" "trim (lit ''d'') = lit ''d''"
  by (simp_all add: trim_def trim_start_def lit_def is_whitespace_def)

theorem saved_config_is_loaded_witness:
  "\<exists>s'. store_save demo_world demo_root demo_config demo_fs = (s', Ok ()) \<and>
     store_load demo_world demo_root s' = (s', Ok (Some demo_config))"
proof (rule saved_config_is_loaded [OF demo_quiet(1) demo_access _ demo_ids])
  show "\<forall>a \<in> set (ancestors demo_root). case look demo_fs a of None \<Rightarrow> True | Some n \<Rightarrow> nd_kind n \<noteq> KFile"
    by (simp add: demo_ancestors demo_look demo_node_def demo_root_def demo_home_def)
  show "look demo_fs (temporary_path demo_world (config_path demo_root)) = None"
    "look demo_fs (temporary_path demo_world (secret_path demo_root)) = None"
    by (simp_all add: demo_look temporary_path_def config_path_def secret_path_def demo_root_def demo_home_def)
  show "config_validate demo_config = Ok ()" by (simp add: config_validate_def demo_config_def demo_trim) (simp add: lit_def)
qed (simp_all add: demo_config_def demo_trim, simp_all add: scalars_def scalar_def lit_def)

theorem private_write_atomic_witness:
  "only_dirs_added demo_world demo_root {config_path demo_root, temporary_path demo_world (config_path demo_root)} demo_fs
     (fst (write_private_file demo_world (config_path demo_root) [1] demo_fs))"
  using private_write_atomic [OF demo_quiet(2) demo_ids config_path_def [of demo_root] refl, of "[1]"]
  by (cases "write_private_file demo_world (config_path demo_root) [1] demo_fs")
    (simp add: demo_look temporary_path_def config_path_def demo_root_def demo_home_def)

theorem reading_never_writes_witness:
  "fst (store_load demo_world demo_root demo_fs) = demo_fs"
  using reading_never_writes [OF demo_quiet(2), of demo_root demo_fs] by blast

theorem foreign_profile_untouched_witness:
  "\<exists>e. store_save demo_world [] demo_config demo_fs = (demo_fs, Err e)"
proof -
  have "not_ours demo_world demo_fs []" by (simp add: not_ours_def demo_look demo_node_def demo_world_def)
  from foreign_profile_untouched [OF this] show ?thesis by blast
qed

text \<open>A secret with spaces around it is accepted and saved, and comes back without them.\<close>

lemma spaced_secret_changes:
  "secret_new (lit '' ab'') = Ok (lit '' ab'') \<and> trim (lit '' ab'') = lit ''ab''"
  by (simp add: secret_new_def trim_def trim_start_def lit_def is_whitespace_def)

end
