(* ===== verification/Directed_Delivery.thy ===== *)
theory Directed_Delivery
  imports Control_Messages Hash_Tables
begin

text \<open>
  Directed delivery (\<open>host/src/directed_delivery.rs\<close>): a sending window registers a ticket with its local
  broker, offers a delivery to another device's broker, and that device claims the ticket when it pulls
  the files.  Both tables of the broker are bounded, and what stopped once stays stopped.

  Socket addresses are only compared; a \<open>nat\<close> stands for one.  A watch channel that tells the holder of a
  claim to stop is a number; \<open>bs_cancelled\<close> lists the channels that carry the stop signal, which dropping
  a ticket sends.  The channel to the window that receives offers is the answer \<open>busy\<close> of the send.
  Times are nanoseconds; the clock readings of one call are one argument, and so is the current scope.
\<close>

definition LEASE :: nat where "LEASE = 15 * 10 ^ 9"
definition LIMIT :: nat where "LIMIT = 16"

type_synonym ShareScope = "bytes option"

record Peer =
  peer_addr :: nat
  peer_connection :: u32
  peer_nonce :: bytes
  peer_scope :: ShareScope

datatype LocalIntent =
    LI_Register bytes string string u32 u64
  | LI_Renew bytes string u64
  | LI_Revoke bytes string

record Ticket =
  tk_target :: string
  tk_generation :: string
  tk_scope :: ShareScope
  tk_connection :: u32
  tk_revision :: u64
  tk_expires :: nat
  tk_claimed :: "Peer option"
  tk_cancel :: nat

record Incoming =
  ic_source :: string
  ic_target :: string
  ic_ticket :: bytes
  ic_revision :: u64
  ic_expires :: nat
  ic_state :: DeliveryState
  ic_reason :: string

record Broker =
  bs_identity :: "string option"
  bs_tickets :: "(bytes \<times> Ticket) list"
  bs_incoming :: "((Peer \<times> u64) \<times> Incoming) list"
  bs_source_generation :: "string option"
  bs_registration_high_water :: u64
  bs_next_cancel :: nat
  bs_cancelled :: "nat list"

definition broker_new :: Broker where
  "broker_new = \<lparr>bs_identity = None, bs_tickets = [], bs_incoming = [], bs_source_generation = None,
     bs_registration_high_water = 0, bs_next_cancel = 0, bs_cancelled = []\<rparr>"

section \<open>Offers\<close>

definition open_state :: "DeliveryState \<Rightarrow> bool" where
  "open_state d \<longleftrightarrow> d = DS_Pending \<or> d = DS_Accepted \<or> d = DS_Receiving"

definition alive :: "nat \<Rightarrow> Incoming \<Rightarrow> bool" where
  "alive now o1 \<longleftrightarrow> now < ic_expires o1 \<and> open_state (ic_state o1)"

definition finish :: "DeliveryState \<Rightarrow> string \<Rightarrow> Incoming \<Rightarrow> Incoming" where
  "finish d reason o1 = (if open_state (ic_state o1) then o1\<lparr>ic_state := d, ic_reason := reason\<rparr> else o1)"

definition receipt :: "u64 \<Rightarrow> Incoming \<Rightarrow> SessionCommand" where
  "receipt request o1 = SC_DeliveryReceipt request (ic_revision o1) (ic_state o1) (ic_reason o1)"

text \<open>A repeated offer renews the lease of one that is still open.\<close>

definition repeat_offer :: "nat \<Rightarrow> u64 \<Rightarrow> Incoming \<Rightarrow> Incoming" where
  "repeat_offer now revision o1 =
     (let o2 = (if now \<ge> ic_expires o1 then o1\<lparr>ic_state := DS_Cancelled\<rparr> else o1) in
      if revision > ic_revision o2 \<and> open_state (ic_state o2)
      then o2\<lparr>ic_revision := revision, ic_expires := now + LEASE\<rparr> else o2)"

definition offer ::
  "nat \<Rightarrow> bool \<Rightarrow> Peer \<Rightarrow> u64 \<Rightarrow> string \<Rightarrow> string \<Rightarrow> bytes \<Rightarrow> u64 \<Rightarrow> Broker \<Rightarrow> Broker \<times> SessionCommand" where
  "offer now busy peer request source target ticket revision s =
     (case map_of (bs_incoming s) (peer, request) of
        Some o1 \<Rightarrow>
          if ic_source o1 \<noteq> source \<or> ic_target o1 \<noteq> target \<or> ic_ticket o1 \<noteq> ticket
          then (s, SC_DeliveryReceipt request revision DS_Rejected ''Request belongs to another intent'')
          else let o2 = repeat_offer now revision o1 in
            (s\<lparr>bs_incoming := AList.update (peer, request) o2 (bs_incoming s)\<rparr>, receipt request o2)
      | None \<Rightarrow>
          if peer_scope peer = None \<or> bs_identity s \<noteq> Some target \<or> source = [] \<or> length source > 256
             \<or> ticket = replicate 32 0 \<or> request = 0 \<or> revision \<noteq> 1 \<or> length (bs_incoming s) \<ge> LIMIT
             \<or> list_ex (\<lambda>(_, o1). alive now o1) (bs_incoming s)
          then (s, SC_DeliveryReceipt request revision DS_Rejected ''Directed delivery unavailable or invalid target'')
          else if busy then (s, SC_DeliveryReceipt request revision DS_Rejected ''Receiver busy'')
          else (s\<lparr>bs_incoming := AList.update (peer, request)
                  \<lparr>ic_source = source, ic_target = target, ic_ticket = ticket, ic_revision = revision,
                   ic_expires = now + LEASE, ic_state = DS_Pending, ic_reason = []\<rparr> (bs_incoming s)\<rparr>,
                SC_DeliveryReceipt request revision DS_Pending []))"

definition update_offer :: "Peer \<times> u64 \<Rightarrow> (Incoming \<Rightarrow> Incoming) \<Rightarrow> Broker \<Rightarrow> Broker" where
  "update_offer key f s = (case map_of (bs_incoming s) key of
     None \<Rightarrow> s | Some o1 \<Rightarrow> s\<lparr>bs_incoming := AList.update key (f o1) (bs_incoming s)\<rparr>)"

definition cancel_offer :: "Peer \<Rightarrow> u64 \<Rightarrow> Broker \<Rightarrow> Broker \<times> SessionCommand" where
  "cancel_offer peer request s =
     (update_offer (peer, request) (finish DS_Cancelled ''Sender stopped'') s, SC_DeliveryReceipt request 0 DS_Cancelled [])"

section \<open>Tickets\<close>

text \<open>Dropping a ticket sends the stop signal.\<close>

definition drop_ticket :: "bytes \<Rightarrow> Broker \<Rightarrow> Broker" where
  "drop_ticket k s = (case map_of (bs_tickets s) k of
     None \<Rightarrow> s
   | Some t \<Rightarrow> s\<lparr>bs_tickets := AList.delete k (bs_tickets s), bs_cancelled := tk_cancel t # bs_cancelled s\<rparr>)"

definition drop_tickets :: "(Ticket \<Rightarrow> bool) \<Rightarrow> Broker \<Rightarrow> Broker" where
  "drop_tickets gone s = fold drop_ticket (map fst (filter (\<lambda>(_, t). gone t) (bs_tickets s))) s"

definition expire_tickets :: "nat \<Rightarrow> ShareScope \<Rightarrow> Broker \<Rightarrow> Broker" where
  "expire_tickets now scope = drop_tickets (\<lambda>t. now \<ge> tk_expires t \<or> tk_scope t \<noteq> scope)"

definition set_identity :: "string \<Rightarrow> Broker \<Rightarrow> Broker" where
  "set_identity i s = s\<lparr>bs_identity := Some i\<rparr>"

definition verified_gui_generation :: "string \<Rightarrow> Broker \<Rightarrow> Broker" where
  "verified_gui_generation generation s =
     (if bs_source_generation s \<noteq> Some generation
      then (drop_tickets (\<lambda>_. True) s)\<lparr>bs_source_generation := Some generation, bs_registration_high_water := 0\<rparr>
      else s)"

definition register ::
  "bytes \<Rightarrow> string \<Rightarrow> string \<Rightarrow> u32 \<Rightarrow> u64 \<Rightarrow> ShareScope \<Rightarrow> nat \<Rightarrow> Broker \<Rightarrow> Broker \<times> (unit, string) result" where
  "register ticket target generation connection sequence scope now s =
     (if bs_identity s = None \<or> scope = None \<or> ticket = replicate 32 0 \<or> target = [] \<or> length target > 256
         \<or> generation = [] \<or> length generation > 128 \<or> connection = 0
      then (s, Err ''Invalid directed intent'')
      else if bs_source_generation s \<noteq> Some generation \<or> sequence \<le> bs_registration_high_water s
      then (s, Err ''Sending window changed or registration was replayed'')
      else if length (bs_tickets s) \<ge> LIMIT \<or> map_of (bs_tickets s) ticket \<noteq> None
      then (s, Err ''Too many active deliveries'')
      else (s\<lparr>bs_registration_high_water := sequence, bs_next_cancel := bs_next_cancel s + 1,
              bs_tickets := AList.update ticket
                \<lparr>tk_target = target, tk_generation = generation, tk_scope = scope, tk_connection = connection,
                 tk_revision = 1, tk_expires = now + LEASE, tk_claimed = None, tk_cancel = bs_next_cancel s\<rparr> (bs_tickets s)\<rparr>,
            Ok ()))"

definition renew :: "string \<Rightarrow> u64 \<Rightarrow> nat \<Rightarrow> ShareScope \<Rightarrow> Ticket \<Rightarrow> (Ticket, string) result" where
  "renew generation revision now scope t =
     (if tk_generation t \<noteq> generation \<or> tk_scope t \<noteq> scope \<or> now \<ge> tk_expires t \<or> revision < tk_revision t
      then Err ''Directed intent expired or stale''
      else Ok (if revision > tk_revision t then t\<lparr>tk_revision := revision, tk_expires := now + LEASE\<rparr> else t))"

definition local_intent :: "nat \<Rightarrow> ShareScope \<Rightarrow> LocalIntent \<Rightarrow> Broker \<Rightarrow> Broker \<times> (unit, string) result" where
  "local_intent now scope command s = (case command of
     LI_Register ticket target generation connection sequence \<Rightarrow>
       register ticket target generation connection sequence scope now s
   | LI_Renew ticket generation revision \<Rightarrow>
       (case map_of (bs_tickets s) ticket of
          None \<Rightarrow> (s, Err ''Directed intent ended'')
        | Some t \<Rightarrow> (case renew generation revision now scope t of
            Inl e \<Rightarrow> (s, Err e)
          | Inr t' \<Rightarrow> (s\<lparr>bs_tickets := AList.update ticket t' (bs_tickets s)\<rparr>, Ok ())))
   | LI_Revoke ticket generation \<Rightarrow>
       (case map_of (bs_tickets s) ticket of
          Some t \<Rightarrow> if tk_generation t = generation then (drop_ticket ticket s, Ok ()) else (s, Ok ())
        | None \<Rightarrow> (s, Ok ())))"

definition claim_in_scope ::
  "nat \<Rightarrow> Peer \<Rightarrow> u64 \<Rightarrow> string \<Rightarrow> bytes \<Rightarrow> ShareScope \<Rightarrow> Broker \<Rightarrow> Broker \<times> SessionCommand" where
  "claim_in_scope now peer request target ticket scope s =
     (let rejected = (s, SC_DeliveryReceipt request 0 DS_Rejected ''Sending intent is unavailable'') in
      if peer_scope peer = None \<or> peer_scope peer \<noteq> scope then rejected
      else case map_of (bs_tickets s) ticket of
        None \<Rightarrow> rejected
      | Some t \<Rightarrow>
        if tk_target t \<noteq> target \<or> tk_scope t \<noteq> peer_scope peer \<or> now \<ge> tk_expires t
           \<or> (case tk_claimed t of None \<Rightarrow> False | Some p \<Rightarrow> p \<noteq> peer)
        then rejected
        else (s\<lparr>bs_tickets := AList.update ticket (t\<lparr>tk_claimed := Some peer\<rparr>) (bs_tickets s)\<rparr>,
              SC_DeliveryReceipt request 0 DS_Claimed []))"

definition claim_cancel :: "nat \<Rightarrow> Peer \<Rightarrow> bytes \<Rightarrow> Broker \<Rightarrow> nat option" where
  "claim_cancel now peer ticket s = (case map_of (bs_tickets s) ticket of
     None \<Rightarrow> None
   | Some t \<Rightarrow> if tk_claimed t = Some peer \<and> now < tk_expires t then Some (tk_cancel t) else None)"

definition claim_alive :: "nat \<Rightarrow> ShareScope \<Rightarrow> Peer \<Rightarrow> bytes \<Rightarrow> Broker \<Rightarrow> bool" where
  "claim_alive now scope peer ticket s = (case map_of (bs_tickets s) ticket of
     None \<Rightarrow> False
   | Some t \<Rightarrow> tk_claimed t = Some peer \<and> tk_scope t = scope \<and> now < tk_expires t)"

definition reconcile :: "nat \<Rightarrow> ShareScope \<Rightarrow> (Peer \<Rightarrow> bool) \<Rightarrow> Broker \<Rightarrow> Broker" where
  "reconcile now scope live s =
     (let finished = map (\<lambda>((p, r), o1). ((p, r),
            if \<not> live p \<or> peer_scope p \<noteq> scope \<or> \<not> alive now o1
            then finish DS_Cancelled ''Control connection or lease ended'' o1 else o1)) (bs_incoming s);
          s1 = s\<lparr>bs_incoming := filter (\<lambda>((p, _), _). live p) finished\<rparr>
      in drop_tickets (\<lambda>t. now \<ge> tk_expires t \<or> tk_scope t \<noteq> scope
           \<or> (case tk_claimed t of None \<Rightarrow> False | Some p \<Rightarrow> \<not> live p)) s1)"

section \<open>Steps\<close>

datatype broker_op =
    BOffer nat bool Peer u64 string string bytes u64
  | BFinish Peer u64 DeliveryState string
  | BCancel Peer u64
  | BLocal nat ShareScope LocalIntent
  | BClaim nat Peer u64 string bytes ShareScope
  | BExpire nat ShareScope
  | BIdentity string
  | BGeneration string
  | BReconcile nat ShareScope "Peer \<Rightarrow> bool"

definition broker_step :: "Broker \<Rightarrow> broker_op \<Rightarrow> Broker" where
  "broker_step s x = (case x of
     BOffer now busy p r src tgt k v \<Rightarrow> fst (offer now busy p r src tgt k v s)
   | BFinish p r d reason \<Rightarrow> update_offer (p, r) (finish d reason) s
   | BCancel p r \<Rightarrow> fst (cancel_offer p r s)
   | BLocal now scope i \<Rightarrow> fst (local_intent now scope i s)
   | BClaim now p r tgt k scope \<Rightarrow> fst (claim_in_scope now p r tgt k scope s)
   | BExpire now scope \<Rightarrow> expire_tickets now scope s
   | BIdentity i \<Rightarrow> set_identity i s
   | BGeneration g \<Rightarrow> verified_gui_generation g s
   | BReconcile now scope live \<Rightarrow> reconcile now scope live s)"

text \<open>Every channel ever made belongs to a ticket of the table or carries the stop signal, never both.\<close>

definition channels :: "Broker \<Rightarrow> nat list" where
  "channels s = map (\<lambda>(_, t). tk_cancel t) (bs_tickets s) @ bs_cancelled s"

definition broker_inv :: "Broker \<Rightarrow> bool" where
  "broker_inv s \<longleftrightarrow> distinct (map fst (bs_tickets s)) \<and> length (bs_tickets s) \<le> LIMIT \<and>
     distinct (map fst (bs_incoming s)) \<and> length (bs_incoming s) \<le> LIMIT \<and>
     mset (channels s) = mset [0..<bs_next_cancel s]"

lemma tickets_map_snd: "map (\<lambda>(_, t). tk_cancel t) l = map tk_cancel (map snd l)"
  by auto

lemma channels_replace:
  assumes "map_of (bs_tickets s) k = Some t" "tk_cancel t' = tk_cancel t"
  shows "mset (channels (s\<lparr>bs_tickets := AList.update k t' (bs_tickets s)\<rparr>)) = mset (channels s)"
proof -
  have "image_mset tk_cancel (mset (map snd (AList.update k t' (bs_tickets s))) + {#t#}) =
      image_mset tk_cancel (mset (map snd (bs_tickets s)) + {#t'#})"
    using mset_update [OF assms(1), of t'] by (rule arg_cong)
  then have "image_mset tk_cancel (mset (map snd (AList.update k t' (bs_tickets s)))) =
      image_mset tk_cancel (mset (map snd (bs_tickets s)))" by (simp add: assms(2))
  then show ?thesis unfolding channels_def tickets_map_snd mset_append mset_map by simp
qed

lemma replace_inv:
  assumes "broker_inv s" "map_of (bs_tickets s) k = Some t" "tk_cancel t' = tk_cancel t"
  shows "broker_inv (s\<lparr>bs_tickets := AList.update k t' (bs_tickets s)\<rparr>)"
  using assms channels_replace [OF assms(2,3)] length_update_old [OF assms(2), of t']
  by (simp add: broker_inv_def distinct_update)

lemma drop_ticket_inv:
  assumes "broker_inv s"
  shows "broker_inv (drop_ticket k s)"
proof (cases "map_of (bs_tickets s) k")
  case (Some t)
  have "mset (map snd (AList.delete k (bs_tickets s))) + {#t#} = mset (map snd (bs_tickets s))"
    using mset_delete [OF _ Some] assms by (simp add: broker_inv_def)
  then have "image_mset tk_cancel (mset (map snd (AList.delete k (bs_tickets s)))) + {#tk_cancel t#} =
      image_mset tk_cancel (mset (map snd (bs_tickets s)))"
    by (metis image_mset_add_mset image_mset_single image_mset_union)
  then have "mset (channels (drop_ticket k s)) = mset (channels s)"
    unfolding channels_def tickets_map_snd mset_append mset_map drop_ticket_def Some by simp
  moreover have "length (AList.delete k (bs_tickets s)) \<le> length (bs_tickets s)" by (rule length_delete_le)
  ultimately show ?thesis
    using assms by (auto simp: broker_inv_def drop_ticket_def Some distinct_delete)
qed (use assms in \<open>simp add: drop_ticket_def\<close>)

lemma fold_drop: "P s \<Longrightarrow> (\<And>k s. P s \<Longrightarrow> P (drop_ticket k s)) \<Longrightarrow> P (fold drop_ticket ks s)"
  by (induction ks arbitrary: s) auto

lemma drop_tickets_inv: "broker_inv s \<Longrightarrow> broker_inv (drop_tickets g s)"
  unfolding drop_tickets_def by (rule fold_drop) (auto intro: drop_ticket_inv)

lemma incoming_inv:
  assumes "broker_inv s" "distinct (map fst l)" "length l \<le> LIMIT"
  shows "broker_inv (s\<lparr>bs_incoming := l\<rparr>)"
  using assms by (simp add: broker_inv_def channels_def)

lemma broker_inv_fields:
  "broker_inv s \<Longrightarrow> broker_inv (s\<lparr>bs_source_generation := g, bs_registration_high_water := h\<rparr>)"
  "broker_inv s \<Longrightarrow> broker_inv (s\<lparr>bs_identity := i\<rparr>)"
  by (simp_all add: broker_inv_def channels_def)

lemma offer_inv:
  assumes "broker_inv s"
  shows "broker_inv (fst (offer now busy peer r src tgt k v s))"
proof (cases "map_of (bs_incoming s) (peer, r)")
  case None
  then show ?thesis
    using assms by (auto simp: offer_def alist_update_new intro!: incoming_inv)
      (auto simp: broker_inv_def dest: weak_map_of_SomeI)
next
  case (Some o1)
  then show ?thesis
    using assms by (auto simp: offer_def Let_def length_update_old [OF Some] distinct_update broker_inv_def [of s] intro!: incoming_inv)
qed

lemma update_offer_inv: "broker_inv s \<Longrightarrow> broker_inv (update_offer key f s)"
  by (auto simp: update_offer_def length_update_old distinct_update broker_inv_def [of s] intro!: incoming_inv split: option.split)

lemma register_inv:
  assumes "broker_inv s"
  shows "broker_inv (fst (register k tgt g c q scope now s))"
proof (cases "fst (register k tgt g c q scope now s) = s")
  case False
  then have new: "map_of (bs_tickets s) k = None" "length (bs_tickets s) < LIMIT"
    and eq: "fst (register k tgt g c q scope now s) = s\<lparr>bs_registration_high_water := q, bs_next_cancel := bs_next_cancel s + 1,
      bs_tickets := AList.update k \<lparr>tk_target = tgt, tk_generation = g, tk_scope = scope, tk_connection = c,
        tk_revision = 1, tk_expires = now + LEASE, tk_claimed = None, tk_cancel = bs_next_cancel s\<rparr> (bs_tickets s)\<rparr>"
    by (auto simp: register_def split: if_splits)
  show ?thesis
    using assms new unfolding eq by (auto simp: broker_inv_def channels_def alist_update_new map_of_eq_None_iff)
qed (use assms in simp)

lemma local_intent_inv:
  assumes "broker_inv s"
  shows "broker_inv (fst (local_intent now scope i s))"
proof (cases i)
  case (LI_Renew k g v)
  show ?thesis
  proof (cases "map_of (bs_tickets s) k")
    case (Some t)
    have "renew g v now scope t = Inr t' \<Longrightarrow> tk_cancel t' = tk_cancel t" for t'
      by (auto simp: renew_def split: if_splits)
    then show ?thesis
      using assms Some by (auto simp: local_intent_def LI_Renew intro!: replace_inv split: sum.split)
  qed (use assms in \<open>simp add: local_intent_def LI_Renew\<close>)
next
  case (LI_Revoke k g)
  then show ?thesis using assms by (auto simp: local_intent_def intro: drop_ticket_inv split: option.split)
qed (use assms register_inv in \<open>simp add: local_intent_def\<close>)

lemma claim_inv:
  assumes "broker_inv s"
  shows "broker_inv (fst (claim_in_scope now p r tgt k scope s))"
  using assms by (auto simp: claim_in_scope_def Let_def intro!: replace_inv split: option.split)

lemma reconcile_inv:
  assumes "broker_inv s"
  shows "broker_inv (reconcile now scope live s)"
proof -
  let ?f = "\<lambda>((p, r), o1). ((p, r), if \<not> live p \<or> peer_scope p \<noteq> scope \<or> \<not> alive now o1
    then finish DS_Cancelled ''Control connection or lease ended'' o1 else o1)"
  have keys: "map fst (map ?f (bs_incoming s)) = map fst (bs_incoming s)" by (induction "bs_incoming s") auto
  have d: "distinct (map fst (map ?f (bs_incoming s)))" "length (map ?f (bs_incoming s)) \<le> LIMIT"
    unfolding keys using assms by (simp_all add: broker_inv_def)
  have "distinct (map fst (filter P (map ?f (bs_incoming s))))" for P
    using d(1) by (rule distinct_map_filter)
  moreover have "length (filter P (map ?f (bs_incoming s))) \<le> LIMIT" for P
    using d(2) length_filter_le order_trans by blast
  ultimately show ?thesis
    unfolding reconcile_def Let_def by (intro drop_tickets_inv incoming_inv assms)
qed

lemma broker_step_inv: "broker_inv s \<Longrightarrow> broker_inv (broker_step s x)"
  by (cases x) (simp_all add: broker_step_def offer_inv update_offer_inv cancel_offer_def local_intent_inv claim_inv
      expire_tickets_def drop_tickets_inv set_identity_def verified_gui_generation_def reconcile_inv broker_inv_fields)

interpretation broker: op_machine broker_step broker_inv
  by unfold_locales (rule broker_step_inv)

lemma broker_new_inv: "broker_inv broker_new"
  by (simp add: broker_inv_def broker_new_def channels_def)

text \<open>
  Both tables of the broker stay bounded, and its stop signals are exact: whatever is offered, claimed,
  renewed, revoked or expired, at most sixteen offers and sixteen tickets are kept under distinct keys, and
  every stop channel ever made either belongs to a ticket of the table or carries the stop signal.
\<close>

theorem broker_bounded:
  "let s = foldl broker_step broker_new ops in
     length (bs_tickets s) \<le> 16 \<and> length (bs_incoming s) \<le> 16 \<and> distinct (map fst (bs_tickets s)) \<and>
     distinct (map fst (bs_incoming s)) \<and> mset (channels s) = mset [0..<bs_next_cancel s]"
  using broker.run_inv [OF broker_new_inv, of ops] by (simp add: broker_inv_def LIMIT_def Let_def)

section \<open>One delivery at a time\<close>

text \<open>The clock of a step, when it reads one.\<close>

definition op_time :: "broker_op \<Rightarrow> nat option" where
  "op_time x = (case x of
     BOffer now _ _ _ _ _ _ _ \<Rightarrow> Some now | BLocal now _ _ \<Rightarrow> Some now | BClaim now _ _ _ _ _ \<Rightarrow> Some now
   | BExpire now _ \<Rightarrow> Some now | BReconcile now _ _ \<Rightarrow> Some now | _ \<Rightarrow> None)"

text \<open>The steps read a monotonic clock that shows \<open>t\<close> before them and \<open>t'\<close> after them.\<close>

fun clocked :: "nat \<Rightarrow> broker_op list \<Rightarrow> nat \<Rightarrow> bool" where
  "clocked t [] t' = (t \<le> t')"
| "clocked t (x # xs) t' = (case op_time x of None \<Rightarrow> clocked t xs t' | Some now \<Rightarrow> t \<le> now \<and> clocked now xs t')"

definition one_alive :: "nat \<Rightarrow> Broker \<Rightarrow> bool" where
  "one_alive t s \<longleftrightarrow> (\<forall>k o1 k' o2. map_of (bs_incoming s) k = Some o1 \<and> alive t o1 \<and>
     map_of (bs_incoming s) k' = Some o2 \<and> alive t o2 \<longrightarrow> k = k')"

lemma alive_mono: "alive t' o1 \<Longrightarrow> t \<le> t' \<Longrightarrow> alive t o1"
  by (simp add: alive_def)

lemma one_alive_mono: "one_alive t s \<Longrightarrow> t \<le> t' \<Longrightarrow> one_alive t' s"
  unfolding one_alive_def by (meson alive_mono)

text \<open>A step that starts no delivery: what is alive after it was alive before it.\<close>

definition no_new :: "nat \<Rightarrow> Broker \<Rightarrow> Broker \<Rightarrow> bool" where
  "no_new t s s' \<longleftrightarrow> (\<forall>k o2. map_of (bs_incoming s') k = Some o2 \<and> alive t o2 \<longrightarrow>
     (\<exists>o1. map_of (bs_incoming s) k = Some o1 \<and> alive t o1))"

lemma no_new_one: "no_new t s s' \<Longrightarrow> one_alive t s \<Longrightarrow> one_alive t s'"
  unfolding no_new_def one_alive_def by meson

lemma no_new_same: "bs_incoming s' = bs_incoming s \<Longrightarrow> no_new t s s'"
  by (simp add: no_new_def)

lemma finish_alive: "alive t (finish d reason o1) \<Longrightarrow> alive t o1"
  by (auto simp: finish_def alive_def split: if_splits)

lemma drop_incoming [simp]: "bs_incoming (drop_ticket k s) = bs_incoming s"
  by (simp add: drop_ticket_def split: option.split)

lemma drops_incoming [simp]: "bs_incoming (drop_tickets g s) = bs_incoming s"
  unfolding drop_tickets_def by (rule fold_drop) simp_all

lemma local_incoming [simp]: "bs_incoming (fst (local_intent now scope i s)) = bs_incoming s"
  by (auto simp: local_intent_def register_def split: LocalIntent.split option.split sum.split)

lemma claim_incoming [simp]: "bs_incoming (fst (claim_in_scope now p r tgt k scope s)) = bs_incoming s"
  by (simp add: claim_in_scope_def Let_def split: option.split)

lemma update_offer_alive:
  assumes "\<And>o1. alive t (f o1) \<Longrightarrow> alive t o1"
  shows "no_new t s (update_offer key f s)"
  using assms by (auto simp: no_new_def update_offer_def update_conv' split: option.splits if_splits)

lemma reconcile_incoming:
  assumes "distinct (map fst (bs_incoming s))" "map_of (bs_incoming (reconcile now scope live s)) (p, r) = Some o2"
  shows "live p \<and> (\<exists>o1. map_of (bs_incoming s) (p, r) = Some o1 \<and>
    (o2 = o1 \<or> o2 = finish DS_Cancelled ''Control connection or lease ended'' o1))"
proof -
  have "((p, r), o2) \<in> set (bs_incoming (reconcile now scope live s))" using assms(2) by (rule map_of_SomeD)
  then obtain o1 where "((p, r), o1) \<in> set (bs_incoming s)" "live p"
      "o2 = o1 \<or> o2 = finish DS_Cancelled ''Control connection or lease ended'' o1"
    by (auto simp: reconcile_def Let_def split: if_splits)
  then show ?thesis using assms(1) by (auto simp: map_of_eq_Some_iff)
qed

lemma offer_alive:
  assumes "map_of (bs_incoming (fst (offer now busy p r src tgt tk v s))) k = Some o2" "alive now o2"
  shows "(\<exists>o1. map_of (bs_incoming s) k = Some o1 \<and> alive now o1) \<or>
    k = (p, r) \<and> map_of (bs_incoming s) (p, r) = None \<and> (\<forall>k' o1. map_of (bs_incoming s) k' = Some o1 \<longrightarrow> \<not> alive now o1)"
proof (cases "map_of (bs_incoming s) (p, r)")
  case (Some o1)
  have "alive now (repeat_offer now v o1) \<Longrightarrow> alive now o1"
    by (auto simp: repeat_offer_def alive_def open_state_def Let_def split: if_splits)
  then show ?thesis
    using assms Some by (auto simp: offer_def update_conv' Let_def split: if_splits)
next
  case None
  show ?thesis
  proof (cases "list_ex (\<lambda>(_, o1). alive now o1) (bs_incoming s)")
    case True
    then show ?thesis using assms None by (auto simp: offer_def)
  next
    case False
    then have "\<not> alive now o1" if "map_of (bs_incoming s) k' = Some o1" for k' o1
      using map_of_SomeD [OF that] by (force simp: list_ex_iff)
    then show ?thesis using assms None by (auto simp: offer_def update_conv' split: if_splits)
  qed
qed

lemma step_one_alive:
  assumes "broker_inv s" "one_alive t s" "case op_time x of None \<Rightarrow> t' = t | Some now \<Rightarrow> t \<le> now \<and> t' = now"
  shows "one_alive t' (broker_step s x)"
proof -
  have o: "one_alive t' s" using assms(2,3) one_alive_mono by (auto split: option.splits)
  show ?thesis
  proof (cases x)
    case (BOffer now busy p r src tgt tk v)
    then have t': "t' = now" using assms(3) by (simp add: op_time_def)
    show ?thesis
      using o offer_alive [of now busy p r src tgt tk v s] unfolding BOffer broker_step_def t' one_alive_def
      by (simp del: split_paired_All split_paired_Ex) (metis option.distinct(1))
  next
    case (BReconcile now scope live)
    have "no_new t' s (reconcile now scope live s)"
      using reconcile_incoming [of s now scope live] assms(1) finish_alive by (fastforce simp: no_new_def broker_inv_def)
    then show ?thesis using o no_new_one by (simp add: broker_step_def BReconcile)
  next
    case (BFinish p r d reason)
    have "no_new t' s (update_offer (p, r) (finish d reason) s)" by (rule update_offer_alive) (rule finish_alive)
    then show ?thesis using o no_new_one by (simp add: broker_step_def BFinish)
  next
    case (BCancel p r)
    have "no_new t' s (fst (cancel_offer p r s))" unfolding cancel_offer_def fst_conv by (rule update_offer_alive) (rule finish_alive)
    then show ?thesis using o no_new_one by (simp add: broker_step_def BCancel)
  qed (use o in \<open>simp_all add: broker_step_def expire_tickets_def set_identity_def verified_gui_generation_def one_alive_def\<close>)
qed

lemma run_one_alive:
  assumes "broker_inv s" "one_alive t s" "clocked t ops t'"
  shows "one_alive t' (foldl broker_step s ops)"
  using assms
proof (induction ops arbitrary: s t)
  case (Cons x ops)
  show ?case
  proof (cases "op_time x")
    case None
    then show ?thesis
      using Cons.IH [OF broker_step_inv [OF Cons.prems(1)] step_one_alive [OF Cons.prems(1,2), where x = x and t' = t]] Cons.prems(3) by simp
  next
    case (Some now)
    then show ?thesis
      using Cons.IH [OF broker_step_inv [OF Cons.prems(1)] step_one_alive [OF Cons.prems(1,2), where x = x and t' = now]] Cons.prems(3) by simp
  qed
qed (auto intro: one_alive_mono)

text \<open>
  C32. A device takes part in one incoming delivery at a time: however offers, renewals, answers and
  disconnections are interleaved, at no moment are two offers alive.
\<close>

theorem single_delivery_at_a_time:
  assumes "clocked 0 ops t" "s = foldl broker_step broker_new ops"
    and "map_of (bs_incoming s) k = Some o1" "alive t o1" "map_of (bs_incoming s) k' = Some o2" "alive t o2"
  shows "k = k'"
proof -
  have "one_alive 0 broker_new" by (simp add: one_alive_def broker_new_def)
  from run_one_alive [OF broker_new_inv this assms(1)] show ?thesis
    using assms(2-6) unfolding one_alive_def by blast
qed

section \<open>What stopped stays stopped\<close>

definition keeps_connection :: "Peer \<Rightarrow> broker_op \<Rightarrow> bool" where
  "keeps_connection p x = (case x of BReconcile _ _ live \<Rightarrow> live p | _ \<Rightarrow> True)"

definition dead_offer :: "nat \<Rightarrow> Peer \<times> u64 \<Rightarrow> Broker \<Rightarrow> bool" where
  "dead_offer t key s \<longleftrightarrow> (\<exists>o1. map_of (bs_incoming s) key = Some o1 \<and> \<not> alive t o1)"

lemma dead_offer_mono: "dead_offer t key s \<Longrightarrow> t \<le> t' \<Longrightarrow> dead_offer t' key s"
  unfolding dead_offer_def by (meson alive_mono)

lemma update_offer_dead:
  assumes "dead_offer t key s" "\<And>o1. alive t (f o1) \<Longrightarrow> alive t o1"
  shows "dead_offer t key (update_offer key' f s)"
  using assms by (auto simp: dead_offer_def update_offer_def update_conv' split: option.splits)

lemma offer_dead:
  assumes "dead_offer now key s"
  shows "dead_offer now key (fst (offer now busy p r src tgt tk v s))"
proof -
  obtain o1 where o1: "map_of (bs_incoming s) key = Some o1" "\<not> alive now o1" using assms by (auto simp: dead_offer_def)
  have "\<exists>o2. map_of (bs_incoming (fst (offer now busy p r src tgt tk v s))) key = Some o2"
    using o1(1) by (auto simp: offer_def update_conv' Let_def split: option.split)
  then show ?thesis using offer_alive [of now busy p r src tgt tk v s key] o1 by (auto simp: dead_offer_def)
qed

lemma reconcile_present:
  assumes "distinct (map fst (bs_incoming s))" "map_of (bs_incoming s) (p, r) = Some o1" "live p"
  shows "\<exists>o2. map_of (bs_incoming (reconcile now scope live s)) (p, r) = Some o2"
proof -
  have "((p, r), o1) \<in> set (bs_incoming s)" using assms(2) by (rule map_of_SomeD)
  then have "\<exists>o2. ((p, r), o2) \<in> set (bs_incoming (reconcile now scope live s))"
    using assms(3) by (force simp: reconcile_def Let_def)
  then show ?thesis by (meson weak_map_of_SomeI)
qed

lemma step_dead:
  assumes inv: "broker_inv s" and d: "dead_offer t (p, r) s" and k: "keeps_connection p x"
    and time: "case op_time x of None \<Rightarrow> t' = t | Some now \<Rightarrow> t \<le> now \<and> t' = now"
  shows "dead_offer t' (p, r) (broker_step s x)"
proof -
  have d': "dead_offer t' (p, r) s" using d time dead_offer_mono by (auto split: option.splits)
  show ?thesis
  proof (cases x)
    case (BOffer now busy p' r' src tgt tk v)
    then show ?thesis using d' time by (auto simp: broker_step_def op_time_def intro: offer_dead)
  next
    case (BReconcile now scope live)
    obtain o1 where o1: "map_of (bs_incoming s) (p, r) = Some o1" "\<not> alive t' o1" using d' by (auto simp: dead_offer_def)
    have dis: "distinct (map fst (bs_incoming s))" using inv by (simp add: broker_inv_def)
    obtain o2 where o2: "map_of (bs_incoming (reconcile now scope live s)) (p, r) = Some o2"
      using reconcile_present [OF dis o1(1), of live now scope] k by (auto simp: BReconcile keeps_connection_def)
    then have "\<not> alive t' o2" using reconcile_incoming [OF dis o2] o1 finish_alive by auto
    then show ?thesis using o2 by (simp add: broker_step_def BReconcile dead_offer_def)
  next
    case (BFinish p' r' st reason)
    then show ?thesis using update_offer_dead [OF d' finish_alive] by (simp add: broker_step_def)
  next
    case (BCancel p' r')
    then show ?thesis using update_offer_dead [OF d' finish_alive] by (simp add: broker_step_def cancel_offer_def)
  qed (use d' in \<open>simp_all add: broker_step_def expire_tickets_def set_identity_def verified_gui_generation_def dead_offer_def\<close>)
qed

text \<open>
  A delivery that was stopped, refused or allowed to lapse does not come back: while the control
  connection it came over lives, its entry stays in the table and no repeated offer, answer or renewal
  makes it alive again.
\<close>

theorem delivery_never_revives:
  assumes "broker_inv s" "map_of (bs_incoming s) (p, r) = Some o1" "\<not> alive t o1"
    and "clocked t ops t'" "list_all (keeps_connection p) ops"
  shows "\<exists>o2. map_of (bs_incoming (foldl broker_step s ops)) (p, r) = Some o2 \<and> \<not> alive t' o2"
proof -
  have "dead_offer t (p, r) s" using assms(2,3) by (simp add: dead_offer_def)
  then have "dead_offer t' (p, r) (foldl broker_step s ops)"
    using assms(1,4,5)
  proof (induction ops arbitrary: s t)
    case (Cons x ops)
    have "\<exists>u. (case op_time x of None \<Rightarrow> u = t | Some now \<Rightarrow> t \<le> now \<and> u = now) \<and> clocked u ops t'"
      using Cons.prems(3) by (auto split: option.splits)
    then obtain u where "case op_time x of None \<Rightarrow> u = t | Some now \<Rightarrow> t \<le> now \<and> u = now" "clocked u ops t'" by blast
    then show ?case
      using Cons.IH [OF step_dead [OF Cons.prems(2,1), of x u] broker_step_inv [OF Cons.prems(2)]] Cons.prems(4) by simp
  qed (auto intro: dead_offer_mono)
  then show ?thesis by (simp add: dead_offer_def)
qed

section \<open>Claims are exclusive\<close>

text \<open>The channel of a claim by \<open>p\<close>: its ticket is claimed by \<open>p\<close>, or the stop signal was sent.\<close>

definition claim_held :: "bytes \<Rightarrow> Peer \<Rightarrow> nat \<Rightarrow> Broker \<Rightarrow> bool" where
  "claim_held k p c s \<longleftrightarrow> c \<in> set (bs_cancelled s) \<or>
     (\<exists>t. map_of (bs_tickets s) k = Some t \<and> tk_claimed t = Some p \<and> tk_cancel t = c)"

lemma drop_claim_held: "claim_held k p c s \<Longrightarrow> claim_held k p c (drop_ticket k' s)"
  by (auto simp: claim_held_def drop_ticket_def delete_conv' split: option.split)

lemma drops_claim_held: "claim_held k p c s \<Longrightarrow> claim_held k p c (drop_tickets g s)"
  unfolding drop_tickets_def by (rule fold_drop) (auto intro: drop_claim_held)

lemma local_claim_held:
  assumes "claim_held k p c s"
  shows "claim_held k p c (fst (local_intent now scope i s))"
proof (cases i)
  case (LI_Register k' tgt g con q)
  then show ?thesis
    using assms by (auto simp: local_intent_def register_def claim_held_def update_conv')
next
  case (LI_Renew k' g v)
  then show ?thesis
    using assms
    by (auto simp: local_intent_def renew_def claim_held_def update_conv' split: option.splits sum.splits if_splits)
next
  case (LI_Revoke k' g)
  then show ?thesis using assms by (auto simp: local_intent_def intro: drop_claim_held split: option.split)
qed

lemma claim_step_held:
  "claim_held k p c s \<Longrightarrow> claim_held k p c (fst (claim_in_scope now p' r tgt k' scope s))"
  by (auto simp: claim_in_scope_def Let_def claim_held_def update_conv' split: option.splits if_splits)

lemma update_offer_tickets [simp]:
  "bs_tickets (update_offer key f s) = bs_tickets s" "bs_cancelled (update_offer key f s) = bs_cancelled s"
  by (simp_all add: update_offer_def split: option.split)

lemma offer_tickets [simp]:
  "bs_tickets (fst (offer now busy q r src tgt tk v s)) = bs_tickets s"
  "bs_cancelled (fst (offer now busy q r src tgt tk v s)) = bs_cancelled s"
  by (simp_all add: offer_def Let_def split: option.split)

lemma claim_held_other [simp]:
  "claim_held k p c (update_offer key f s) = claim_held k p c s"
  "claim_held k p c (fst (offer now busy q r src tgt tk v s)) = claim_held k p c s"
  "claim_held k p c (s\<lparr>bs_identity := i\<rparr>) = claim_held k p c s"
  by (simp_all add: claim_held_def)

lemma step_claim_held: "claim_held k p c s \<Longrightarrow> claim_held k p c (broker_step s x)"
proof (cases x)
  case (BReconcile now scope live)
  assume "claim_held k p c s"
  then show ?thesis
    unfolding BReconcile broker_step_def broker_op.case reconcile_def Let_def
    by (intro drops_claim_held) (simp add: claim_held_def)
next
  case (BGeneration g)
  assume "claim_held k p c s"
  then have "claim_held k p c (drop_tickets (\<lambda>_. True) s)" by (rule drops_claim_held)
  then show ?thesis
    using \<open>claim_held k p c s\<close> by (auto simp: broker_step_def BGeneration verified_gui_generation_def claim_held_def)
qed (simp_all add: broker_step_def local_claim_held claim_step_held expire_tickets_def drops_claim_held
    cancel_offer_def set_identity_def)

text \<open>
  A sending intent has one claimant: after a peer claimed a ticket, a claim by any other peer, at any later
  time and for the same ticket number, is granted only after the first claimant was sent the stop signal.
\<close>

theorem claims_are_exclusive:
  assumes "map_of (bs_tickets s) k = Some t" "tk_claimed t = Some p"
    and "claim_in_scope now p' r tgt k scope (foldl broker_step s ops) = (s', SC_DeliveryReceipt r 0 DS_Claimed [])" "p' \<noteq> p"
  shows "tk_cancel t \<in> set (bs_cancelled s')"
proof -
  have "claim_held k p (tk_cancel t) s" using assms(1,2) by (auto simp: claim_held_def)
  then have h: "claim_held k p (tk_cancel t) (foldl broker_step s ops)"
    by (induction ops arbitrary: s) (auto intro: step_claim_held)
  have "claim_held k p (tk_cancel t) s'" using claim_step_held [OF h, of now p' r tgt k scope] assms(3) by simp
  moreover have "\<exists>t'. map_of (bs_tickets s') k = Some t' \<and> tk_claimed t' = Some p'"
    using assms(3) by (auto simp: claim_in_scope_def Let_def update_conv' split: option.splits if_splits)
  ultimately show ?thesis using assms(4) by (auto simp: claim_held_def)
qed

section \<open>Examples\<close>

definition demo_peer :: "u32 \<Rightarrow> Peer" where
  "demo_peer c = \<lparr>peer_addr = 1, peer_connection = c, peer_nonce = [], peer_scope = Some [7]\<rparr>"

definition demo_offer :: "nat \<Rightarrow> u32 \<Rightarrow> u64 \<Rightarrow> u64 \<Rightarrow> broker_op" where
  "demo_offer now c r v = BOffer now False (demo_peer c) r ''src'' ''me'' [1] v"

text \<open>An offer, its cancellation, a repetition, and then an offer of another device.\<close>

definition demo_ops :: "broker_op list" where
  "demo_ops = [BIdentity ''me'', demo_offer 10 1 1 1, BCancel (demo_peer 1) 1, demo_offer 20 1 1 2, demo_offer 30 2 1 1]"

lemma demo_ticket: "[1 :: u8] \<noteq> replicate 32 0"
proof
  assume "[1 :: u8] = replicate 32 0"
  then have "length [1 :: u8] = length (replicate 32 (0 :: u8))" by (rule arg_cong)
  then show False by simp
qed

lemmas demo_broker_simps = demo_ticket demo_ops_def demo_offer_def demo_peer_def broker_step_def broker_new_def set_identity_def
  offer_def cancel_offer_def update_offer_def finish_def repeat_offer_def alive_def open_state_def LEASE_def LIMIT_def
  Let_def receipt_def word_le_nat_alt word_less_nat_alt

definition demo_entry :: "nat \<Rightarrow> DeliveryState \<Rightarrow> string \<Rightarrow> Incoming" where
  "demo_entry now d reason = \<lparr>ic_source = ''src'', ic_target = ''me'', ic_ticket = [1], ic_revision = 1,
     ic_expires = now + LEASE, ic_state = d, ic_reason = reason\<rparr>"

lemma demo_run:
  "bs_incoming (foldl broker_step broker_new (take 3 demo_ops)) = [((demo_peer 1, 1), demo_entry 10 DS_Cancelled ''Sender stopped'')]"
  "bs_incoming (foldl broker_step broker_new demo_ops) =
     [((demo_peer 1, 1), demo_entry 10 DS_Cancelled ''Sender stopped''), ((demo_peer 2, 1), demo_entry 30 DS_Pending [])]"
  by (simp_all add: demo_entry_def demo_broker_simps)

theorem single_delivery_at_a_time_witness:
  "{k. \<exists>o1. map_of (bs_incoming (foldl broker_step broker_new demo_ops)) k = Some o1 \<and> alive 40 o1} = {(demo_peer 2, 1)}"
proof -
  have c: "clocked 0 demo_ops 40" by (simp add: demo_ops_def demo_offer_def op_time_def)
  have o2: "map_of (bs_incoming (foldl broker_step broker_new demo_ops)) (demo_peer 2, 1) = Some (demo_entry 30 DS_Pending [])"
    unfolding demo_run by (simp add: demo_peer_def)
  have "alive 40 (demo_entry 30 DS_Pending [])" by (simp add: demo_entry_def alive_def open_state_def LEASE_def)
  then show ?thesis using single_delivery_at_a_time [OF c refl _ _ o2] o2 by blast
qed

theorem delivery_never_revives_witness:
  "\<exists>o2. map_of (bs_incoming (foldl broker_step broker_new demo_ops)) (demo_peer 1, 1) = Some o2 \<and> \<not> alive 40 o2"
proof -
  let ?s = "foldl broker_step broker_new (take 3 demo_ops)"
  have o1: "map_of (bs_incoming ?s) (demo_peer 1, 1) = Some (demo_entry 10 DS_Cancelled ''Sender stopped'')"
      "\<not> alive 10 (demo_entry 10 DS_Cancelled ''Sender stopped'')"
    unfolding demo_run by (simp_all add: demo_entry_def alive_def open_state_def)
  have "broker_inv ?s" by (rule broker.run_inv [OF broker_new_inv])
  from delivery_never_revives [OF this o1, of "drop 3 demo_ops" 40] show ?thesis
    by (simp add: demo_ops_def demo_offer_def op_time_def keeps_connection_def)
qed

theorem claims_are_exclusive_witness:
  "0 \<in> set (bs_cancelled (fst (claim_in_scope 5 (demo_peer 2) 1 ''t'' [1] (Some [7])
     (foldl broker_step broker_new [BIdentity ''me'', BGeneration ''g'', BLocal 0 (Some [7]) (LI_Register [1] ''t'' ''g'' 1 1),
       BClaim 1 (demo_peer 1) 1 ''t'' [1] (Some [7]), BLocal 2 (Some [7]) (LI_Revoke [1] ''g''),
       BLocal 3 (Some [7]) (LI_Register [1] ''t'' ''g'' 1 2)]))))"
proof -
  let ?s = "foldl broker_step broker_new [BIdentity ''me'', BGeneration ''g'', BLocal 0 (Some [7]) (LI_Register [1] ''t'' ''g'' 1 1),
       BClaim 1 (demo_peer 1) 1 ''t'' [1] (Some [7])]"
  let ?ops = "[BLocal 2 (Some [7]) (LI_Revoke [1] ''g''), BLocal 3 (Some [7]) (LI_Register [1] ''t'' ''g'' 1 2)]"
  note S = demo_broker_simps verified_gui_generation_def drop_tickets_def drop_ticket_def local_intent_def register_def claim_in_scope_def
  obtain t where t: "map_of (bs_tickets ?s) [1] = Some t" "tk_claimed t = Some (demo_peer 1)" "tk_cancel t = 0"
    by (simp add: S)
  obtain s' where s': "claim_in_scope 5 (demo_peer 2) 1 ''t'' [1] (Some [7]) (foldl broker_step ?s ?ops) =
      (s', SC_DeliveryReceipt 1 0 DS_Claimed [])"
    by (simp add: S)
  have "demo_peer 2 \<noteq> demo_peer 1" by (simp add: demo_peer_def)
  from claims_are_exclusive [OF t(1,2) s' this] t(3) s' show ?thesis by simp
qed

end
