(* ===== verification/Compact_Realtime.thy ===== *)
theory Compact_Realtime
  imports Wire_Types
begin

unbundle bit_operations_syntax

text \<open>
  The compact realtime packet of \<open>protocol/src/lib.rs\<close>: a 26-byte header (version and flag nibbles,
  lane, kind, priority, stream, sequence, timestamp, deadline delta), an optional 24-byte host timing
  block, and the payload.  Conversions from and to the generic data header, the encoder, the decoder
  with every rejection, and the envelope entry points.
\<close>

definition COMPACT_REALTIME_WIRE_VERSION :: u8 where "COMPACT_REALTIME_WIRE_VERSION = 1"
definition COMPACT_REALTIME_HEADER_LEN :: nat where "COMPACT_REALTIME_HEADER_LEN = 26"
definition COMPACT_REALTIME_DEADLINE_FLAG :: u8 where "COMPACT_REALTIME_DEADLINE_FLAG = 0x01"
definition COMPACT_REALTIME_TIMING_FLAG :: u8 where "COMPACT_REALTIME_TIMING_FLAG = 0x02"
definition COMPACT_REALTIME_KNOWN_FLAGS :: u8 where
  "COMPACT_REALTIME_KNOWN_FLAGS = COMPACT_REALTIME_DEADLINE_FLAG OR COMPACT_REALTIME_TIMING_FLAG"

record CompactRealtimeHeader =
  crh_version :: u8
  crh_lane :: DataLane
  crh_kind :: ContentKind
  crh_priority :: DataPriority
  crh_stream_id :: u32
  crh_sequence_number :: u64
  crh_timestamp_ms :: u64
  crh_deadline_delta_ms :: "u16 option"
  crh_host_timing :: "FrameTimingCheckpoints option"

section \<open>Operations\<close>

definition deadline_delta :: "u64 option \<Rightarrow> u64 \<Rightarrow> (u16 option, CompactRealtimeError) result" where
  "deadline_delta deadline ts =
     (case deadline of
        None \<Rightarrow> Ok None
      | Some d \<Rightarrow> try_bind (ok_or (checked_sub d ts) (DeadlineBeforeTimestamp ts d))
          (\<lambda>delta. if unat delta < 2 ^ 16 then Ok (Some (ucast delta))
                   else Err (DeadlineDeltaTooLarge delta)))"

definition from_data_header :: "DataHeader \<Rightarrow> (CompactRealtimeHeader, CompactRealtimeError) result" where
  "from_data_header header =
     (if dh_version header > 0x0f then Err (UnsupportedVersion (dh_version header))
      else if \<not> lane_is_realtime (dh_lane header) then Err (NonRealtimeLane (dh_lane header))
      else if dh_chunk header \<noteq> None \<or> dh_reliability_info header \<noteq> None
           \<or> dh_reliability header \<noteq> BestEffort then Err UnsupportedRealtimeMetadata
      else try_bind (deadline_delta (dh_deadline_ms header) (dh_timestamp_ms header)) (\<lambda>delta.
        Ok \<lparr>crh_version = dh_version header, crh_lane = dh_lane header, crh_kind = dh_kind header,
            crh_priority = dh_priority header, crh_stream_id = dh_stream_id header,
            crh_sequence_number = dh_sequence_number header,
            crh_timestamp_ms = dh_timestamp_ms header, crh_deadline_delta_ms = delta,
            crh_host_timing = None\<rparr>))"

definition absolute_deadline :: "u16 option \<Rightarrow> u64 \<Rightarrow> (u64 option, CompactRealtimeError) result" where
  "absolute_deadline delta ts =
     (case delta of
        None \<Rightarrow> Ok None
      | Some d \<Rightarrow> try_bind (ok_or (checked_add ts (ucast d)) (DeadlineOverflow ts d)) (\<lambda>x. Ok (Some x)))"

definition to_data_header :: "CompactRealtimeHeader \<Rightarrow> (DataHeader, CompactRealtimeError) result" where
  "to_data_header h =
     (if \<not> lane_is_realtime (crh_lane h) then Err (NonRealtimeLane (crh_lane h))
      else try_bind (absolute_deadline (crh_deadline_delta_ms h) (crh_timestamp_ms h)) (\<lambda>deadline.
        Ok \<lparr>dh_version = crh_version h, dh_lane = crh_lane h, dh_kind = crh_kind h,
            dh_priority = crh_priority h, dh_reliability = BestEffort,
            dh_stream_id = crh_stream_id h, dh_sequence_number = crh_sequence_number h,
            dh_timestamp_ms = crh_timestamp_ms h, dh_deadline_ms = deadline,
            dh_chunk = None, dh_reliability_info = None\<rparr>))"

definition encode_with_payload :: "CompactRealtimeHeader \<Rightarrow> bytes \<Rightarrow> (bytes, CompactRealtimeError) result" where
  "encode_with_payload h payload =
     (if crh_version h > 0x0f then Err (UnsupportedVersion (crh_version h))
      else if \<not> lane_is_realtime (crh_lane h) then Err (NonRealtimeLane (crh_lane h))
      else let
        flags1 = (case crh_deadline_delta_ms h of Some _ \<Rightarrow> 0 OR COMPACT_REALTIME_DEADLINE_FLAG | None \<Rightarrow> 0);
        delta = (case crh_deadline_delta_ms h of Some d \<Rightarrow> d | None \<Rightarrow> 0);
        flags = (if crh_host_timing h \<noteq> None then flags1 OR COMPACT_REALTIME_TIMING_FLAG else flags1)
      in Ok ([push_bit 4 (crh_version h) OR flags, lane_wire_id (crh_lane h),
              kind_wire_id (crh_kind h), priority_wire_id (crh_priority h)] @
             to_be 4 (crh_stream_id h) @ to_be 8 (crh_sequence_number h) @
             to_be 8 (crh_timestamp_ms h) @ to_be 2 delta @
             (case crh_host_timing h of Some t \<Rightarrow> to_host_wire_bytes t | None \<Rightarrow> []) @ payload))"

definition decode_deadline :: "u8 \<Rightarrow> u16 \<Rightarrow> (u16 option, CompactRealtimeError) result" where
  "decode_deadline flags raw =
     (if flags AND COMPACT_REALTIME_DEADLINE_FLAG \<noteq> 0 then Ok (Some raw)
      else if raw \<noteq> 0 then Err (DeadlineDeltaWithoutFlag raw) else Ok None)"

definition decode_timing ::
  "bool \<Rightarrow> bytes \<Rightarrow> (FrameTimingCheckpoints option, CompactRealtimeError) result" where
  "decode_timing has_timing bs =
     (if has_timing
      then try_bind (map_err TimingError (from_host_wire_bytes bs)) (\<lambda>t. Ok (Some t))
      else Ok None)"

definition compact_decode ::
  "bytes \<Rightarrow> (CompactRealtimeHeader \<times> bytes, CompactRealtimeError) result" where
  "compact_decode data =
     (if length data < COMPACT_REALTIME_HEADER_LEN
      then Err (InvalidLength COMPACT_REALTIME_HEADER_LEN (length data))
      else let version = drop_bit 4 (data ! 0); flags = data ! 0 AND 0x0f in
      if version \<noteq> COMPACT_REALTIME_WIRE_VERSION then Err (UnsupportedVersion version)
      else if flags AND NOT COMPACT_REALTIME_KNOWN_FLAGS \<noteq> 0 then Err (UnknownFlags flags)
      else let
        has_timing = (flags AND COMPACT_REALTIME_TIMING_FLAG \<noteq> 0);
        min_required_len = (if has_timing then COMPACT_REALTIME_HEADER_LEN + HOST_TIMING_WIRE_LEN
                            else COMPACT_REALTIME_HEADER_LEN) in
      if length data < min_required_len then Err (InvalidLength min_required_len (length data))
      else try_bind (lane_from_wire_id (data ! 1)) (\<lambda>lane.
        if \<not> lane_is_realtime lane then Err (NonRealtimeLane lane)
        else try_bind (kind_from_wire_id (data ! 2)) (\<lambda>kind.
          try_bind (priority_from_wire_id (data ! 3)) (\<lambda>priority.
          try_bind (decode_deadline flags (of_be (rslice 24 26 data))) (\<lambda>deadline.
          try_bind (decode_timing has_timing
              (rslice COMPACT_REALTIME_HEADER_LEN (COMPACT_REALTIME_HEADER_LEN + HOST_TIMING_WIRE_LEN) data))
            (\<lambda>timing.
          Ok (\<lparr>crh_version = version, crh_lane = lane, crh_kind = kind, crh_priority = priority,
               crh_stream_id = of_be (rslice 4 8 data), crh_sequence_number = of_be (rslice 8 16 data),
               crh_timestamp_ms = of_be (rslice 16 24 data), crh_deadline_delta_ms = deadline,
               crh_host_timing = timing\<rparr>, drop min_required_len data)))))))"

definition decode_envelope :: "bytes \<Rightarrow> (DataEnvelope, CompactRealtimeError) result" where
  "decode_envelope data =
     try_bind (compact_decode data) (\<lambda>(h, payload).
     try_bind (to_data_header h) (\<lambda>header.
       Ok \<lparr>env_header = header, env_payload = payload, env_transport_timing = None\<rparr>))"

definition decode_envelope_with_timing ::
  "bytes \<Rightarrow> (DataEnvelope \<times> FrameTimingCheckpoints option, CompactRealtimeError) result" where
  "decode_envelope_with_timing data =
     try_bind (compact_decode data) (\<lambda>(h, payload).
     try_bind (to_data_header h) (\<lambda>header.
       Ok (\<lparr>env_header = header, env_payload = payload,
            env_transport_timing = crh_host_timing h\<rparr>, crh_host_timing h)))"

definition encode_compact_realtime :: "DataEnvelope \<Rightarrow> (bytes, CompactRealtimeError) result" where
  "encode_compact_realtime e =
     try_bind (from_data_header (env_header e)) (\<lambda>h. encode_with_payload h (env_payload e))"

definition encode_compact_realtime_with_timing ::
  "FrameTimingCheckpoints option \<Rightarrow> DataEnvelope \<Rightarrow> (bytes, CompactRealtimeError) result" where
  "encode_compact_realtime_with_timing timing e =
     try_bind (from_data_header (env_header e)) (\<lambda>h.
       encode_with_payload (h\<lparr>crh_host_timing := timing\<rparr>) (env_payload e))"

section \<open>Lemmas\<close>

lemmas compact_consts = COMPACT_REALTIME_WIRE_VERSION_def COMPACT_REALTIME_HEADER_LEN_def
  COMPACT_REALTIME_DEADLINE_FLAG_def COMPACT_REALTIME_TIMING_FLAG_def
  COMPACT_REALTIME_KNOWN_FLAGS_def HOST_TIMING_WIRE_LEN_def

text \<open>The header as it stands on the wire: the fixed part, whose first byte is \<open>16 + flags\<close>.\<close>

definition first_byte :: "CompactRealtimeHeader \<Rightarrow> u8" where
  "first_byte h = 16 + (if crh_deadline_delta_ms h \<noteq> None then 1 else 0)
     + (if crh_host_timing h \<noteq> None then 2 else 0)"

definition packet_bytes :: "CompactRealtimeHeader \<Rightarrow> bytes \<Rightarrow> bytes" where
  "packet_bytes h payload =
     [first_byte h, lane_wire_id (crh_lane h), kind_wire_id (crh_kind h),
      priority_wire_id (crh_priority h)] @
     to_be 4 (crh_stream_id h) @ to_be 8 (crh_sequence_number h) @ to_be 8 (crh_timestamp_ms h) @
     to_be 2 (case crh_deadline_delta_ms h of Some d \<Rightarrow> d | None \<Rightarrow> 0) @
     (case crh_host_timing h of Some t \<Rightarrow> to_host_wire_bytes t | None \<Rightarrow> []) @ payload"

lemma encode_version_1:
  assumes "crh_version h = 1" "lane_is_realtime (crh_lane h)"
  shows "encode_with_payload h payload = Ok (packet_bytes h payload)"
  using assms
  by (cases "crh_deadline_delta_ms h"; cases "crh_host_timing h")
    (simp_all add: encode_with_payload_def packet_bytes_def first_byte_def compact_consts
      word_less_nat_alt)

lemma encode_with_payload_Ok:
  "encode_with_payload h payload = Ok data \<Longrightarrow> lane_is_realtime (crh_lane h) \<and> crh_version h \<le> 0x0f"
  by (auto simp: encode_with_payload_def Let_def split: if_splits)

lemma length_to_host_wire_bytes [simp]: "length (to_host_wire_bytes t) = 24"
  by (simp add: to_host_wire_bytes_def)

lemma from_host_wire_bytes_self: "from_host_wire_bytes (to_host_wire_bytes t) = Ok (host_part t)"
  using from_host_wire_bytes_enc [of t "[]"] by simp

lemma decode_packet_bytes:
  assumes "lane_is_realtime (crh_lane h)"
  shows "compact_decode (packet_bytes h payload) =
    Ok (h\<lparr>crh_version := 1, crh_host_timing := map_option host_part (crh_host_timing h)\<rparr>, payload)"
  using assms
  by (cases "crh_deadline_delta_ms h"; cases "crh_host_timing h")
    (simp_all add: compact_decode_def packet_bytes_def first_byte_def compact_consts Let_def
      rslice_parse be_dec_enc decode_deadline_def decode_timing_def from_host_wire_bytes_self)

lemma compact_first_byte:
  fixes b :: u8
  assumes "drop_bit 4 b = 1" "(b AND 0x0f) AND NOT 3 = 0"
  shows "b = 16 \<or> b = 17 \<or> b = 18 \<or> b = 19"
proof -
  have "uint b div 16 = 1"
    using arg_cong [OF assms(1), of uint] by (simp add: drop_bit_eq_div uint_div)
  then have "16 \<le> uint b \<and> uint b \<le> 31" by presburger
  then have "uint b \<in> set [16..31]" by (simp only: set_upto atLeastAtMost_iff)
  moreover have "b = word_of_int (uint b)" by simp
  ultimately have "b \<in> word_of_int ` set [16..31]" by blast
  then show ?thesis using assms(2) by (auto simp: upto_rec1)
qed

lemma first_four:
  assumes "4 \<le> length data"
  shows "[data ! 0, data ! 1, data ! 2, data ! 3] = rslice 0 4 data"
  using assms by (auto simp: rslice_def numeral_eq_Suc Suc_le_length_iff)

lemma compact_decode_OkD:
  assumes "compact_decode data = Ok (h, payload)"
  defines "n \<equiv> if (data ! 0 AND 0x0f) AND 2 \<noteq> 0 then 50 else 26 :: nat"
  shows "n \<le> length data" "drop_bit 4 (data ! 0) = 1" "(data ! 0 AND 0x0f) AND NOT 3 = 0"
    "crh_version h = 1" "lane_is_realtime (crh_lane h)" "payload = drop n data"
    "[data ! 1, data ! 2, data ! 3] =
       [lane_wire_id (crh_lane h), kind_wire_id (crh_kind h), priority_wire_id (crh_priority h)]"
    "crh_stream_id h = of_be (rslice 4 8 data)" "crh_sequence_number h = of_be (rslice 8 16 data)"
    "crh_timestamp_ms h = of_be (rslice 16 24 data)"
    "decode_deadline (data ! 0 AND 0x0f) (of_be (rslice 24 26 data)) = Ok (crh_deadline_delta_ms h)"
    "decode_timing (n = 50) (rslice 26 50 data) = Ok (crh_host_timing h)"
  using assms
  by (auto simp: compact_decode_def compact_consts Let_def try_bind_eq_Ok lane_from_wire_id_Ok
      kind_from_wire_id_Ok priority_from_wire_id_Ok split: if_splits)

lemma host_bytes_of_slice:
  assumes "50 \<le> length data" "from_host_wire_bytes (rslice 26 50 data) = Ok t"
  shows "drop 26 data = to_host_wire_bytes t @ drop 50 data"
proof -
  let ?s = "rslice 26 50 data"
  have "length ?s = 24" using assms(1) by (simp add: length_slice)
  then have "to_host_wire_bytes t = ?s"
    using assms(2) by (auto simp: wire_unfold be32.enc_slice be64.enc_slice slice_join rslice_all)
  then show ?thesis by (simp add: slice_append_drop)
qed

lemma decode_Ok_packet:
  assumes ok: "compact_decode data = Ok (h, payload)"
  shows "crh_version h = 1 \<and> lane_is_realtime (crh_lane h) \<and> data = packet_bytes h payload"
proof -
  note d = compact_decode_OkD [OF ok]
  let ?b = "data ! 0"
  have b: "?b = 16 \<or> ?b = 17 \<or> ?b = 18 \<or> ?b = 19" using compact_first_byte [OF d(2,3)] .
  have len: "26 \<le> length data" using d(1) by (simp split: if_splits)
  have "data = rslice 0 4 data @ rslice 4 8 data @ rslice 8 16 data @ rslice 16 24 data @
      rslice 24 26 data @ drop 26 data"
    by (simp add: slice_append_drop)
  also have "rslice 0 4 data = [?b, data ! 1, data ! 2, data ! 3]" using first_four [of data] len by simp
  finally have split: "data = [?b, lane_wire_id (crh_lane h), kind_wire_id (crh_kind h),
      priority_wire_id (crh_priority h)] @ to_be 4 (crh_stream_id h) @
      to_be 8 (crh_sequence_number h) @ to_be 8 (crh_timestamp_ms h) @ rslice 24 26 data @ drop 26 data"
    using d(7) len by (simp add: d(8-10) be32.enc_slice be64.enc_slice)
  have deadline: "rslice 24 26 data = to_be 2 (case crh_deadline_delta_ms h of Some x \<Rightarrow> x | None \<Rightarrow> 0)"
    "(crh_deadline_delta_ms h \<noteq> None) = (?b AND 1 \<noteq> 0)"
    using b d(11) len be16.enc_slice [of 26 24 data]
    by (cases "crh_deadline_delta_ms h"; auto simp: decode_deadline_def compact_consts split: if_splits)+
  have timing: "drop 26 data = (case crh_host_timing h of Some t \<Rightarrow> to_host_wire_bytes t | None \<Rightarrow> []) @ payload"
    "(crh_host_timing h \<noteq> None) = (?b AND 2 \<noteq> 0)"
    using b d(1,6,12) host_bytes_of_slice [of data]
    by (cases "crh_host_timing h"; auto simp: decode_timing_def try_bind_eq_Ok map_err_eq_Ok split: if_splits)+
  have "first_byte h = ?b" using b unfolding first_byte_def deadline(2) timing(2) by auto
  with split show ?thesis using d(4,5) unfolding packet_bytes_def deadline(1) timing(1) by simp
qed

lemma deadline_delta_inverse:
  assumes "deadline_delta deadline ts = Ok delta"
  shows "absolute_deadline delta ts = Ok deadline"
proof (cases deadline)
  case (Some d)
  with assms have le: "ts \<le> d" and small: "unat (d - ts) < 2 ^ 16" and delta: "delta = Some (ucast (d - ts))"
    by (auto simp: deadline_delta_def try_bind_eq_Ok ok_or_eq_Ok checked_sub_Some split: if_splits)
  have inv: "(ucast (ucast (d - ts) :: u16) :: u64) = d - ts"
    using small by (simp add: ucast_ucast_small)
  have "unat ts + unat (d - ts) < 2 ^ 64"
    using le unat_less_exp [of d] by (simp add: unat_sub word_le_nat_alt)
  then have "checked_add ts (d - ts) = Some d" by (simp add: checked_add_def)
  then show ?thesis by (simp add: Some delta absolute_deadline_def inv)
qed (use assms in \<open>simp add: deadline_delta_def absolute_deadline_def\<close>)

lemma header_roundtrip:
  assumes "from_data_header hdr = Ok h"
  shows "to_data_header (h\<lparr>crh_host_timing := t\<rparr>) = Ok hdr"
  using assms deadline_delta_inverse
  by (auto simp: from_data_header_def to_data_header_def try_bind_eq_Ok split: if_splits)

lemma from_data_header_OkD:
  "from_data_header hdr = Ok h \<Longrightarrow>
     crh_version h = dh_version hdr \<and> lane_is_realtime (crh_lane h) \<and> crh_host_timing h = None"
  by (auto simp: from_data_header_def try_bind_eq_Ok split: if_splits)

section \<open>Properties\<close>

lemma compact_roundtrip:
  assumes enc: "encode_compact_realtime_with_timing timing e = Ok data"
    and version: "dh_version (env_header e) = COMPACT_REALTIME_WIRE_VERSION"
  shows "decode_envelope_with_timing data =
      Ok (e\<lparr>env_transport_timing := map_option host_part timing\<rparr>, map_option host_part timing) \<and>
    decode_envelope data = Ok (e\<lparr>env_transport_timing := None\<rparr>)"
proof -
  obtain h where h: "from_data_header (env_header e) = Ok h"
    and data: "encode_with_payload (h\<lparr>crh_host_timing := timing\<rparr>) (env_payload e) = Ok data"
    using enc by (auto simp: encode_compact_realtime_with_timing_def try_bind_eq_Ok)
  let ?h = "h\<lparr>crh_host_timing := timing\<rparr>"
  have v: "crh_version ?h = 1" and l: "lane_is_realtime (crh_lane ?h)"
    using from_data_header_OkD [OF h] version by (simp_all add: COMPACT_REALTIME_WIRE_VERSION_def)
  have "h\<lparr>crh_version := 1\<rparr> = h" using v by (cases h) simp
  then have "compact_decode data = Ok (h\<lparr>crh_host_timing := map_option host_part timing\<rparr>, env_payload e)"
    using decode_packet_bytes [OF l, of "env_payload e"] encode_version_1 [OF v l] data by simp
  then show ?thesis
    by (simp add: decode_envelope_with_timing_def decode_envelope_def header_roundtrip [OF h])
qed

text \<open>
  C6. Realtime envelopes survive the compact wire.  An envelope of the current wire version, 1, that the
  encoder accepts, with or without host timing, decodes to the same envelope: same header, absolute
  deadline, payload, and the host part of the timing that was attached.
\<close>

theorem compact_envelope_roundtrip:
  assumes enc: "encode_compact_realtime_with_timing timing e = Ok data"
    and version: "dh_version (env_header e) = COMPACT_REALTIME_WIRE_VERSION"
  shows "decode_envelope_with_timing data =
      Ok (e\<lparr>env_transport_timing := map_option host_part timing\<rparr>, map_option host_part timing) \<and>
    decode_envelope data = Ok (e\<lparr>env_transport_timing := None\<rparr>)"
  by (rule compact_roundtrip) (rule assms)+

lemma compact_envelope_roundtrip_witness:
  "\<exists>data. encode_compact_realtime_with_timing (Some (checkpoints_new 9))
       (realtime_video 7 1 100 150 [1, 2]) = Ok data \<and>
     decode_envelope data = Ok (realtime_video 7 1 100 150 [1, 2])"
proof -
  obtain data where d: "encode_compact_realtime_with_timing (Some (checkpoints_new 9))
       (realtime_video 7 1 100 150 [1, 2]) = Ok data"
    by (simp add: encode_compact_realtime_with_timing_def realtime_video_def envelope_new_def
        from_data_header_def lane_is_realtime_def reliability_for_lane_def
        lane_requires_reliable_delivery_def deadline_delta_def checked_sub_def
        encode_with_payload_def Let_def word_less_nat_alt word_le_nat_alt)
  then show ?thesis
    using compact_envelope_roundtrip [OF d]
    by (simp add: realtime_video_def envelope_new_def COMPACT_REALTIME_WIRE_VERSION_def)
qed

text \<open>
  The compact decoder is strict.  Whatever it accepts has the current version and a realtime lane,
  and encoding the decoded header and payload gives back exactly the received bytes, so no two distinct
  packets decode to the same header and payload.
\<close>

theorem compact_decode_canonical:
  assumes "compact_decode data = Ok (h, payload)"
  shows "crh_version h = COMPACT_REALTIME_WIRE_VERSION \<and> lane_is_realtime (crh_lane h) \<and>
    encode_with_payload h payload = Ok data"
  using decode_Ok_packet [OF assms] encode_version_1 by (simp add: COMPACT_REALTIME_WIRE_VERSION_def)

lemma compact_decode_canonical_witness:
  "\<exists>h data. encode_with_payload h [5] = Ok data \<and> compact_decode data = Ok (h, [5])"
proof -
  let ?h = "\<lparr>crh_version = 1, crh_lane = Lane_Interactive, crh_kind = Kind_Control,
    crh_priority = Prio_Interactive, crh_stream_id = 3, crh_sequence_number = 4,
    crh_timestamp_ms = 5, crh_deadline_delta_ms = None, crh_host_timing = None\<rparr>"
  have "compact_decode (packet_bytes ?h [5]) = Ok (?h, [5])"
    using decode_packet_bytes [of ?h "[5]"] by (simp add: lane_is_realtime_def)
  from compact_decode_canonical [OF this] this show ?thesis by blast
qed

lemma version_nibble:
  fixes v f :: u8
  assumes "v \<le> 15" "f \<in> {0, 1, 2, 3}"
  shows "drop_bit 4 (push_bit 4 v OR f) = v"
proof -
  have "unat v \<in> set [0..<16]" using assms(1) by (simp add: word_le_nat_alt)
  moreover have "v = word_of_nat (unat v)" by simp
  ultimately have "v \<in> word_of_nat ` set [0..<16]" by blast
  then show ?thesis using assms(2) by (auto simp: upt_rec)
qed

lemma encode_other_version:
  assumes "encode_with_payload h payload = Ok data" "crh_version h \<noteq> 1"
  shows "compact_decode data = Err (UnsupportedVersion (crh_version h))"
proof -
  have v: "crh_version h \<le> 15" using encode_with_payload_Ok [OF assms(1)] by simp
  have "drop_bit 4 (data ! 0) = crh_version h \<and> 26 \<le> length data"
    using assms(1) version_nibble [OF v, of 0] version_nibble [OF v, of 1]
      version_nibble [OF v, of 2] version_nibble [OF v, of 3]
    by (cases "crh_deadline_delta_ms h"; cases "crh_host_timing h")
      (auto simp: encode_with_payload_def Let_def compact_consts split: if_splits)
  then show ?thesis
    using assms(2) by (simp add: compact_decode_def compact_consts Let_def)
qed

lemma deadline_delta_ok:
  "is_ok (deadline_delta deadline ts) = (case deadline of None \<Rightarrow> True
     | Some d \<Rightarrow> ts \<le> d \<and> unat d - unat ts < 65536)"
  by (auto simp: deadline_delta_def checked_sub_def unat_sub split: option.splits)

lemma encode_with_payload_ok:
  "is_ok (encode_with_payload h p) = (crh_version h \<le> 15 \<and> lane_is_realtime (crh_lane h))"
  by (auto simp: encode_with_payload_def Let_def not_less)

text \<open>
  What the compact encoder takes.  An envelope is encoded exactly when its version fits the
  nibble, its lane is realtime, it carries no chunk or reliability data, and its deadline lies at most
  65535 ms after its timestamp.
\<close>

theorem compact_encode_domain:
  "is_ok (encode_compact_realtime e) =
     (dh_version (env_header e) \<le> 15 \<and> lane_is_realtime (dh_lane (env_header e)) \<and>
      dh_chunk (env_header e) = None \<and> dh_reliability_info (env_header e) = None \<and>
      dh_reliability (env_header e) = BestEffort \<and>
      (case dh_deadline_ms (env_header e) of None \<Rightarrow> True
       | Some d \<Rightarrow> dh_timestamp_ms (env_header e) \<le> d \<and>
                  unat d - unat (dh_timestamp_ms (env_header e)) < 65536))"
  unfolding deadline_delta_ok [symmetric]
  by (cases "deadline_delta (dh_deadline_ms (env_header e)) (dh_timestamp_ms (env_header e))")
    (auto simp: encode_compact_realtime_def from_data_header_def encode_with_payload_ok not_less)

text \<open>
  The encoder takes versions the decoder never takes: an envelope of a version other than the
  wire version that encodes gives a packet that every decoder of this code rejects.
\<close>

theorem compact_other_version_rejected:
  assumes "encode_compact_realtime e = Ok data"
    and "dh_version (env_header e) \<noteq> COMPACT_REALTIME_WIRE_VERSION"
  shows "compact_decode data = Err (UnsupportedVersion (dh_version (env_header e)))"
  using assms from_data_header_OkD encode_other_version
  by (auto simp: encode_compact_realtime_def try_bind_eq_Ok COMPACT_REALTIME_WIRE_VERSION_def)

lemma compact_other_version_rejected_witness:
  "\<exists>e data. encode_compact_realtime e = Ok data \<and> compact_decode data = Err (UnsupportedVersion 2)"
proof -
  let ?e0 = "realtime_audio 7 1 100 [1, 2]"
  let ?e = "?e0\<lparr>env_header := env_header ?e0\<lparr>dh_version := 2\<rparr>\<rparr>"
  obtain data where d: "encode_compact_realtime ?e = Ok data"
    by (simp add: encode_compact_realtime_def realtime_audio_def envelope_new_def
        from_data_header_def lane_is_realtime_def reliability_for_lane_def
        lane_requires_reliable_delivery_def deadline_delta_def
        encode_with_payload_def Let_def word_less_nat_alt)
  then show ?thesis
    using compact_other_version_rejected [OF d] by (auto simp: COMPACT_REALTIME_WIRE_VERSION_def)
qed

end
