(* ===== verification/Udp_Transport.thy ===== *)
theory Udp_Transport
  imports Compact_Realtime Control_Messages
begin

text \<open>
  The UDP multiplexer (\<open>remote_core/src/net.rs\<close>): what a sender puts on the wire for one message
  (optional sealing, fragmentation), and what a receiver does with one datagram (reassembly with its
  bounded cache, the plaintext policy, decryption, dispatch on the multiplexing byte).

  The socket is not modelled: sending yields the list of datagrams, receiving takes one datagram with its
  source address.  Both halves of a multiplexer share their keys, so an endpoint is one record.  The
  bincode encoders are the fields of a \<open>wire_codec\<close>.  The monotonic clock is in nanoseconds.
\<close>

section \<open>Messages and codecs\<close>

record 'e wire_codec =
  rtp_encode :: "RtpPacket \<Rightarrow> (bytes, 'e) result"
  rtp_decode :: "bytes \<Rightarrow> (RtpPacket, 'e) result"
  control_encode :: "ControlMessage \<Rightarrow> (bytes, 'e) result"
  control_decode :: "bytes \<Rightarrow> (ControlMessage, 'e) result"
  envelope_encode :: "DataEnvelope \<Rightarrow> (bytes, 'e) result"
  envelope_decode :: "bytes \<Rightarrow> (DataEnvelope, 'e) result"

datatype 'e UdpError =
  UdpText string
| UdpCrypto SessionCryptoError
| UdpCompact CompactRealtimeError
| UdpBincode 'e

datatype 'a MultiplexedPacket =
  MP_Rtp RtpPacket 'a
| MP_Control "ControlMessage" 'a
| MP_ClockProbe ClockProbe u64 'a
| MP_ClockReply ClockReply u64 'a
| MP_Data DataEnvelope 'a
| MP_DataWithTiming DataEnvelope "FrameTimingCheckpoints option" 'a

section \<open>Endpoints\<close>

definition MULTIPLEX_ENCRYPTED :: u8 where "MULTIPLEX_ENCRYPTED = 0x07"
definition MAX_FRAGMENT_AGE :: nat where "MAX_FRAGMENT_AGE = 2 * SECOND"
definition MAX_FRAGMENT_CACHE_ENTRIES :: nat where "MAX_FRAGMENT_CACHE_ENTRIES = 10"
definition MAX_FRAGMENT_PAYLOAD :: nat where "MAX_FRAGMENT_PAYLOAD = 1400"
definition MAX_FRAGMENT_CHUNKS :: nat where "MAX_FRAGMENT_CHUNKS = 4096"

record FragmentEntry =
  fe_received_chunks :: u16
  fe_received_bytes :: nat
  fe_chunks :: "bytes option list"
  fe_created_at :: nat

definition fragment_entry_new :: "u16 \<Rightarrow> nat \<Rightarrow> FragmentEntry" where
  "fragment_entry_new total_chunks now = \<lparr>fe_received_chunks = 0, fe_received_bytes = 0,
     fe_chunks = replicate (unat total_chunks) None, fe_created_at = now\<rparr>"

type_synonym 'a FragmentKey = "'a \<times> u8 \<times> u32"
type_synonym 'a FragmentMap = "('a FragmentKey \<times> FragmentEntry) list"

record ('a, 'k) UdpEndpoint =
  ep_crypto :: "'k SessionCrypto option"
  ep_peer_crypto :: "('a \<times> 'k SessionCrypto) list"
  ep_fragments :: "'a FragmentMap"

definition udp_split :: "('a, 'k) UdpEndpoint" where
  "udp_split = \<lparr>ep_crypto = None, ep_peer_crypto = [], ep_fragments = []\<rparr>"

text \<open>A \<open>OnceLock\<close> takes its first value only.\<close>

definition install_crypto :: "'k SessionCrypto \<Rightarrow> ('a, 'k) UdpEndpoint \<Rightarrow> ('a, 'k) UdpEndpoint \<times> bool" where
  "install_crypto c ep = (case ep_crypto ep of None \<Rightarrow> (ep\<lparr>ep_crypto := Some c\<rparr>, True) | Some _ \<Rightarrow> (ep, False))"

definition install_peer_crypto :: "'a \<Rightarrow> 'k SessionCrypto \<Rightarrow> ('a, 'k) UdpEndpoint \<Rightarrow> ('a, 'k) UdpEndpoint" where
  "install_peer_crypto peer c ep = ep\<lparr>ep_peer_crypto := AList.update peer c (ep_peer_crypto ep)\<rparr>"

definition remove_peer_crypto :: "'a \<Rightarrow> ('a, 'k) UdpEndpoint \<Rightarrow> ('a, 'k) UdpEndpoint" where
  "remove_peer_crypto peer ep = ep\<lparr>ep_peer_crypto := AList.delete peer (ep_peer_crypto ep)\<rparr>"

definition peer_key :: "('a, 'k) UdpEndpoint \<Rightarrow> 'a \<Rightarrow> 'k SessionCrypto option" where
  "peer_key ep addr = (case map_of (ep_peer_crypto ep) addr of Some c \<Rightarrow> Some c | None \<Rightarrow> ep_crypto ep)"

definition peer_session_id :: "('a, 'k) UdpEndpoint \<Rightarrow> 'a \<Rightarrow> bytes option" where
  "peer_session_id ep addr = map_option session_id (peer_key ep addr)"

text \<open>A session is used through a shared reference: its new state replaces the one it was taken from.\<close>

definition put_key :: "'a \<Rightarrow> 'k SessionCrypto \<Rightarrow> ('a, 'k) UdpEndpoint \<Rightarrow> ('a, 'k) UdpEndpoint" where
  "put_key addr c ep = (case map_of (ep_peer_crypto ep) addr of
     Some _ \<Rightarrow> ep\<lparr>ep_peer_crypto := AList.update addr c (ep_peer_crypto ep)\<rparr>
   | None \<Rightarrow> ep\<lparr>ep_crypto := Some c\<rparr>)"

section \<open>Sending\<close>

definition fragment_datagram :: "u8 \<Rightarrow> u32 \<Rightarrow> u16 \<Rightarrow> u16 \<Rightarrow> bytes \<Rightarrow> bytes" where
  "fragment_datagram header fragment_id i total_chunks chunk =
     [0x03, header] @ to_be 4 fragment_id @ to_be 2 i @ to_be 2 total_chunks @ chunk"

definition send_raw :: "u32 \<Rightarrow> u8 \<Rightarrow> bytes \<Rightarrow> (bytes list, 'e UdpError) result" where
  "send_raw random header bs =
     (if length bs > MAX_FRAGMENT_PAYLOAD * MAX_FRAGMENT_CHUNKS
      then Err (UdpText ''UDP message exceeds fragment size limit'')
      else if length bs \<le> MAX_FRAGMENT_PAYLOAD then Ok [header # bs]
      else let cks = chunks_of MAX_FRAGMENT_PAYLOAD bs; total_chunks = word_of_nat (length cks) in
        Ok (map (\<lambda>(i, c). fragment_datagram header random (word_of_nat i) total_chunks c) (enumerate 0 cks)))"

definition send_multiplexed :: "('k, 'm) crypto_suite_scheme \<Rightarrow> u32 \<Rightarrow> u8 \<Rightarrow> bytes \<Rightarrow> 'a \<Rightarrow> ('a, 'k) UdpEndpoint \<Rightarrow>
    ('a, 'k) UdpEndpoint \<times> (bytes list, 'e UdpError) result" where
  "send_multiplexed cs random header bs target ep =
     (case peer_key ep target of
        Some crypto \<Rightarrow> (case seal cs crypto (header # bs) of
          (c', Inl e) \<Rightarrow> (put_key target c' ep, Err (UdpCrypto e))
        | (c', Inr sealed) \<Rightarrow> (put_key target c' ep, send_raw random MULTIPLEX_ENCRYPTED sealed))
      | None \<Rightarrow> (ep, send_raw random header bs))"

definition send_rtp :: "('k, 'm) crypto_suite_scheme \<Rightarrow> 'e wire_codec \<Rightarrow> u32 \<Rightarrow> RtpPacket \<Rightarrow> 'a \<Rightarrow> ('a, 'k) UdpEndpoint \<Rightarrow>
    ('a, 'k) UdpEndpoint \<times> (bytes list, 'e UdpError) result" where
  "send_rtp cs cd random packet target ep =
     (case rtp_encode cd packet of Inl e \<Rightarrow> (ep, Err (UdpBincode e))
      | Inr bs \<Rightarrow> send_multiplexed cs random 0x01 bs target ep)"

definition send_control :: "('k, 'm) crypto_suite_scheme \<Rightarrow> 'e wire_codec \<Rightarrow> u32 \<Rightarrow> ControlMessage \<Rightarrow> 'a \<Rightarrow> ('a, 'k) UdpEndpoint \<Rightarrow>
    ('a, 'k) UdpEndpoint \<times> (bytes list, 'e UdpError) result" where
  "send_control cs cd random msg target ep =
     (case control_encode cd msg of Inl e \<Rightarrow> (ep, Err (UdpBincode e))
      | Inr bs \<Rightarrow> if is_handshake msg then (ep, send_raw random 0x02 bs)
                  else send_multiplexed cs random 0x02 bs target ep)"

definition send_data_with_timing :: "('k, 'm) crypto_suite_scheme \<Rightarrow> 'e wire_codec \<Rightarrow> u32 \<Rightarrow> DataEnvelope \<Rightarrow>
    FrameTimingCheckpoints option \<Rightarrow> 'a \<Rightarrow> ('a, 'k) UdpEndpoint \<Rightarrow> ('a, 'k) UdpEndpoint \<times> (bytes list, 'e UdpError) result" where
  "send_data_with_timing cs cd random envelope timing0 target ep =
     (let timing = (case timing0 of Some t \<Rightarrow> Some t | None \<Rightarrow> env_transport_timing envelope) in
      case encode_compact_realtime_with_timing timing envelope of
        Inr bs \<Rightarrow> send_multiplexed cs random 0x05 bs target ep
      | Inl err \<Rightarrow> (case err of
            NonRealtimeLane _ \<Rightarrow> (case envelope_encode cd envelope of Inl e \<Rightarrow> (ep, Err (UdpBincode e))
              | Inr bs \<Rightarrow> send_multiplexed cs random 0x04 bs target ep)
          | UnsupportedRealtimeMetadata \<Rightarrow> (case envelope_encode cd envelope of Inl e \<Rightarrow> (ep, Err (UdpBincode e))
              | Inr bs \<Rightarrow> send_multiplexed cs random 0x04 bs target ep)
          | _ \<Rightarrow> (ep, Err (UdpCompact err))))"

definition send_data :: "('k, 'm) crypto_suite_scheme \<Rightarrow> 'e wire_codec \<Rightarrow> u32 \<Rightarrow> DataEnvelope \<Rightarrow> 'a \<Rightarrow> ('a, 'k) UdpEndpoint \<Rightarrow>
    ('a, 'k) UdpEndpoint \<times> (bytes list, 'e UdpError) result" where
  "send_data cs cd random envelope target ep =
     send_data_with_timing cs cd random envelope (env_transport_timing envelope) target ep"

section \<open>Receiving\<close>

definition decode_control :: "ControlMessage \<Rightarrow> bytes option \<Rightarrow> u64 \<Rightarrow> 'a \<Rightarrow> ('a MultiplexedPacket option, 'e UdpError) result" where
  "decode_control msg authenticated received_us addr =
     (case msg of
        CM_ClockProbe probe \<Rightarrow> if authenticated = Some (cp_session_id probe) then Ok (Some (MP_ClockProbe probe received_us addr))
          else Err (UdpText ''clock measurements require the current authenticated session'')
      | CM_ClockReply reply \<Rightarrow> if authenticated = Some (cp_session_id (cr_probe reply)) then Ok (Some (MP_ClockReply reply received_us addr))
          else Err (UdpText ''clock measurements require the current authenticated session'')
      | other \<Rightarrow> Ok (Some (MP_Control other addr)))"

definition decode_clear :: "'e wire_codec \<Rightarrow> bytes \<Rightarrow> 'a \<Rightarrow> bytes option \<Rightarrow> u64 \<Rightarrow>
    ('a MultiplexedPacket option, 'e UdpError) result" where
  "decode_clear cd buf addr authenticated received_us =
     (if buf ! 0 = 0x01 then try_bind (map_err UdpBincode (rtp_decode cd (drop 1 buf))) (\<lambda>rtp. Ok (Some (MP_Rtp rtp addr)))
      else if buf ! 0 = 0x02 then try_bind (map_err UdpBincode (control_decode cd (drop 1 buf)))
        (\<lambda>msg. decode_control msg authenticated received_us addr)
      else if buf ! 0 = 0x04 then try_bind (map_err UdpBincode (envelope_decode cd (drop 1 buf))) (\<lambda>e. Ok (Some (MP_Data e addr)))
      else if buf ! 0 = 0x05 then try_bind (map_err UdpCompact (decode_envelope_with_timing (drop 1 buf)))
        (\<lambda>(e, timing). Ok (Some (if timing \<noteq> None then MP_DataWithTiming e timing addr else MP_Data e addr)))
      else Err (UdpText ''Unknown UDP multiplexing header''))"

definition plaintext_refused :: "'e wire_codec \<Rightarrow> bytes \<Rightarrow> bool" where
  "plaintext_refused cd buf \<longleftrightarrow> buf ! 0 \<noteq> MULTIPLEX_ENCRYPTED \<and>
     \<not> (buf ! 0 = 0x02 \<and> (case control_decode cd (drop 1 buf) of Inr m \<Rightarrow> is_handshake m | Inl _ \<Rightarrow> False))"

text \<open>The recursion of \<open>decode_payload_inner\<close>: opening an encrypted packet decodes its contents once more.\<close>

function decode_payload_inner :: "('k, 'm) crypto_suite_scheme \<Rightarrow> 'e wire_codec \<Rightarrow> bytes \<Rightarrow> 'a \<Rightarrow> bytes option \<Rightarrow> u64 \<Rightarrow>
    ('a, 'k) UdpEndpoint \<Rightarrow> (('a, 'k) UdpEndpoint \<times> ('a MultiplexedPacket option, 'e UdpError) result) option" where
  "decode_payload_inner cs cd buf addr authenticated received_us ep =
     (if buf = [] then Some (ep, Ok None)
      else if authenticated = None \<and> peer_key ep addr \<noteq> None \<and> plaintext_refused cd buf
      then Some (ep, Err (UdpText ''plaintext packet rejected for encrypted peer''))
      else if buf ! 0 = MULTIPLEX_ENCRYPTED then
        if authenticated \<noteq> None then Some (ep, Err (UdpText ''nested encryption is not supported''))
        else (case peer_key ep addr of
          None \<Rightarrow> Some (ep, Err (UdpText ''encrypted packet received without session crypto''))
        | Some crypto \<Rightarrow> (case record_open cs crypto (drop 1 buf) of
            None \<Rightarrow> None
          | Some (c', Inl e) \<Rightarrow> Some (put_key addr c' ep, Err (UdpCrypto e))
          | Some (c', Inr opened) \<Rightarrow>
              decode_payload_inner cs cd opened addr (Some (session_id crypto)) received_us (put_key addr c' ep)))
      else Some (ep, decode_clear cd buf addr authenticated received_us))"
  by auto
termination
  by (relation "measure (\<lambda>(cs, cd, buf, addr, authenticated, us, ep). case authenticated of None \<Rightarrow> 1 | Some _ \<Rightarrow> 0)") auto

declare decode_payload_inner.simps [simp del]

text \<open>What one datagram makes the receive loop do: go on, return a packet, or return an error.\<close>

datatype ('a, 'e) recv_outcome =
  RContinue | RPacket "'a MultiplexedPacket" | RRejected 'a "'e UdpError"

definition decode_payload_at :: "('k, 'm) crypto_suite_scheme \<Rightarrow> 'e wire_codec \<Rightarrow> bytes \<Rightarrow> 'a \<Rightarrow> u64 \<Rightarrow>
    ('a, 'k) UdpEndpoint \<Rightarrow> (('a, 'k) UdpEndpoint \<times> ('a, 'e) recv_outcome) option" where
  "decode_payload_at cs cd buf addr received_us ep =
     (case decode_payload_inner cs cd buf addr None received_us ep of
        None \<Rightarrow> None
      | Some (ep', Inl e) \<Rightarrow> Some (ep', RRejected addr e)
      | Some (ep', Inr None) \<Rightarrow> Some (ep', RContinue)
      | Some (ep', Inr (Some p)) \<Rightarrow> Some (ep', RPacket p))"

definition cleanup_expired_fragments :: "nat \<Rightarrow> 'a FragmentMap \<Rightarrow> 'a FragmentMap" where
  "cleanup_expired_fragments now fs = filter (\<lambda>(_, e). now - fe_created_at e \<le> MAX_FRAGMENT_AGE) fs"

text \<open>\<open>min_by_key\<close> over a \<open>HashMap\<close>: among equally old entries the model takes the first.\<close>

fun oldest :: "('a FragmentKey \<times> FragmentEntry) list \<Rightarrow> 'a FragmentKey option" where
  "oldest [] = None"
| "oldest ((k, e) # fs) = (case oldest fs of None \<Rightarrow> Some k
     | Some k' \<Rightarrow> (case map_of fs k' of None \<Rightarrow> Some k
         | Some e' \<Rightarrow> if fe_created_at e' < fe_created_at e then Some k' else Some k))"

lemma oldest_in: "oldest fs = Some k \<Longrightarrow> k \<in> fst ` set fs"
  by (induction fs arbitrary: k) (auto split: option.splits if_splits)

function enforce_fragment_cache_limit :: "'a FragmentKey \<Rightarrow> 'a FragmentMap \<Rightarrow> 'a FragmentMap" where
  "enforce_fragment_cache_limit protected_id fs =
     (if length fs > MAX_FRAGMENT_CACHE_ENTRIES then
        (case oldest (filter (\<lambda>(k, _). k \<noteq> protected_id) fs) of
           Some k \<Rightarrow> enforce_fragment_cache_limit protected_id (AList.delete k fs)
         | None \<Rightarrow> fs)
      else fs)"
  by auto
termination
proof (relation "measure (\<lambda>(p, fs). length fs)")
  fix p :: "'a FragmentKey" and fs :: "'a FragmentMap" and k
  assume "oldest (filter (\<lambda>(k, _). k \<noteq> p) fs) = Some k"
  then have "k \<in> fst ` set fs" using oldest_in by fastforce
  then have "length (AList.delete k fs) < length fs"
    by (auto simp: AList.delete_eq intro: length_filter_less)
  then show "((p, AList.delete k fs), (p, fs)) \<in> measure (\<lambda>(p, fs). length fs)" by simp
qed simp

declare enforce_fragment_cache_limit.simps [simp del]

definition store_chunk :: "nat \<Rightarrow> bytes \<Rightarrow> FragmentEntry \<Rightarrow> FragmentEntry" where
  "store_chunk i data e =
     (if fe_chunks e ! i = None
      then e\<lparr>fe_chunks := (fe_chunks e)[i := Some data], fe_received_chunks := fe_received_chunks e + 1,
             fe_received_bytes := fe_received_bytes e + length data\<rparr>
      else e)"

definition flatten_chunks :: "bytes option list \<Rightarrow> bytes" where
  "flatten_chunks cs = concat (map (\<lambda>c. case c of None \<Rightarrow> [] | Some b \<Rightarrow> b) cs)"

definition fragment_fault :: "bytes \<Rightarrow> u16 \<Rightarrow> u16 \<Rightarrow> string option" where
  "fragment_fault buf chunk_idx total_chunks =
     (if total_chunks = 0 \<or> unat total_chunks > MAX_FRAGMENT_CHUNKS then Some ''Invalid UDP fragment total chunk count''
      else if chunk_idx \<ge> total_chunks then Some ''Invalid UDP fragment index''
      else if length buf = 10 \<or> length buf - 10 > MAX_FRAGMENT_PAYLOAD then Some ''Invalid UDP fragment payload size''
      else if buf ! 1 \<notin> {0x01, 0x02, 0x04, 0x05, MULTIPLEX_ENCRYPTED} then Some ''Invalid UDP fragment multiplexing header''
      else None)"

definition fragment_slot :: "'a FragmentMap \<Rightarrow> 'a FragmentKey \<Rightarrow> u16 \<Rightarrow> nat \<Rightarrow> FragmentEntry option" where
  "fragment_slot fs key total_chunks now = (case map_of fs key of
     None \<Rightarrow> Some (fragment_entry_new total_chunks now)
   | Some e \<Rightarrow> if length (fe_chunks e) \<noteq> unat total_chunks then None else Some e)"

definition recv_fragment :: "('k, 'm) crypto_suite_scheme \<Rightarrow> 'e wire_codec \<Rightarrow> bytes \<Rightarrow> 'a \<Rightarrow> nat \<Rightarrow> u64 \<Rightarrow>
    ('a, 'k) UdpEndpoint \<Rightarrow> (('a, 'k) UdpEndpoint \<times> ('a, 'e) recv_outcome) option" where
  "recv_fragment cs cd buf addr now received_us ep =
     (if length buf < 10 then Some (ep, RContinue)
      else
        let header = buf ! 1; fragment_id = of_be (rslice 2 6 buf); chunk_idx = of_be (rslice 6 8 buf);
            total_chunks = of_be (rslice 8 10 buf); key = (addr, header, fragment_id) in
        case fragment_fault buf chunk_idx total_chunks of
          Some msg \<Rightarrow> Some (ep, RRejected addr (UdpText msg))
        | None \<Rightarrow>
          let fs = cleanup_expired_fragments now (ep_fragments ep) in
          (case fragment_slot fs key total_chunks now of
             None \<Rightarrow> Some (ep\<lparr>ep_fragments := fs\<rparr>, RRejected addr (UdpText ''Mismatched UDP fragment total chunk count''))
           | Some e0 \<Rightarrow>
               let e = store_chunk (unat chunk_idx) (drop 10 buf) e0 in
               if fe_received_chunks e = total_chunks
               then decode_payload_at cs cd (header # flatten_chunks (fe_chunks e)) addr received_us
                      (ep\<lparr>ep_fragments := AList.delete key fs\<rparr>)
               else Some (ep\<lparr>ep_fragments := enforce_fragment_cache_limit key (AList.update key e fs)\<rparr>, RContinue)))"

definition recv_datagram :: "('k, 'm) crypto_suite_scheme \<Rightarrow> 'e wire_codec \<Rightarrow> bytes \<Rightarrow> 'a \<Rightarrow> nat \<Rightarrow> u64 \<Rightarrow>
    ('a, 'k) UdpEndpoint \<Rightarrow> (('a, 'k) UdpEndpoint \<times> ('a, 'e) recv_outcome) option" where
  "recv_datagram cs cd buf addr now received_us ep =
     (if buf = [] then Some (ep, RContinue)
      else if length buf > MAX_FRAGMENT_PAYLOAD + 10
      then Some (ep, RRejected addr (UdpText (if buf ! 0 = 0x03 then ''Invalid UDP fragment payload size''
                                              else ''UDP datagram exceeds size limit'')))
      else if buf ! 0 = 0x03 then recv_fragment cs cd buf addr now received_us ep
      else decode_payload_at cs cd buf addr received_us ep)"

section \<open>Chunks\<close>

lemmas fragment_consts = MAX_FRAGMENT_PAYLOAD_def MAX_FRAGMENT_CHUNKS_def MAX_FRAGMENT_CACHE_ENTRIES_def
  MAX_FRAGMENT_AGE_def MULTIPLEX_ENCRYPTED_def SECOND_def

lemma fragment_datagram_fields:
  "length (fragment_datagram h fid i n c) = 10 + length c" "fragment_datagram h fid i n c ! 0 = 3"
  "fragment_datagram h fid i n c ! Suc 0 = h"
  "of_be (rslice 2 6 (fragment_datagram h fid i n c)) = fid" "of_be (rslice 6 8 (fragment_datagram h fid i n c)) = i"
  "of_be (rslice 8 10 (fragment_datagram h fid i n c)) = n" "drop 10 (fragment_datagram h fid i n c) = c"
  by (simp_all add: fragment_datagram_def rslice_def be_dec_enc)

section \<open>The fragment cache\<close>

lemma map_of_delete_other: "k \<noteq> p \<Longrightarrow> map_of (AList.delete k fs) p = map_of fs p"
  by (simp add: delete_conv')

lemma enforce_protects: "map_of (enforce_fragment_cache_limit p fs) p = map_of fs p"
proof (induction p fs rule: enforce_fragment_cache_limit.induct)
  case (1 p fs)
  show ?case
  proof (cases "oldest (filter (\<lambda>(k, _). k \<noteq> p) fs)")
    case None
    then show ?thesis by (simp add: enforce_fragment_cache_limit.simps [of p fs])
  next
    case (Some k)
    then have "k \<noteq> p" using oldest_in [OF Some] by auto
    then show ?thesis
      using 1 [OF _ Some] by (subst enforce_fragment_cache_limit.simps) (simp add: Some map_of_delete_other)
  qed
qed

lemma enforce_subset: "set (enforce_fragment_cache_limit p fs) \<subseteq> set fs"
proof (induction p fs rule: enforce_fragment_cache_limit.induct)
  case (1 p fs)
  show ?case
  proof (cases "oldest (filter (\<lambda>(k, _). k \<noteq> p) fs)")
    case None
    then show ?thesis by (simp add: enforce_fragment_cache_limit.simps [of p fs])
  next
    case (Some k)
    have "set (AList.delete k fs) \<subseteq> set fs" by (simp add: AList.delete_eq)
    with 1 [OF _ Some] show ?thesis
      by (subst enforce_fragment_cache_limit.simps) (simp only: Some option.case, simp, blast)
  qed
qed

lemma enforce_wf: "hash_wf fs \<Longrightarrow> hash_wf (enforce_fragment_cache_limit p fs)"
proof (induction p fs rule: enforce_fragment_cache_limit.induct)
  case (1 p fs)
  then show ?case
    by (subst enforce_fragment_cache_limit.simps) (auto simp: hash.wf_rem split: option.splits)
qed

lemma oldest_None [simp]: "oldest fs = None \<longleftrightarrow> fs = []"
  by (cases fs) (auto split: option.splits)

lemma distinct_others:
  assumes "distinct (map fst fs)"
  shows "length fs \<le> Suc (length (filter (\<lambda>(k, _). k \<noteq> p) fs))"
proof -
  have "filter (\<lambda>x. \<not> (case x of (k, _) \<Rightarrow> k \<noteq> p)) fs = filter (\<lambda>x. fst x = p) fs" by (rule filter_cong) auto
  moreover have "length (filter (\<lambda>x. fst x = p) fs) \<le> 1"
  proof -
    have "distinct (map fst (filter (\<lambda>x. fst x = p) fs))" using assms by (rule distinct_map_filter)
    moreover have "set (map fst (filter (\<lambda>x. fst x = p) fs)) \<subseteq> {p}" by auto
    ultimately show ?thesis
      by (metis card.empty card.insert card_mono distinct_card empty_iff finite.emptyI finite.insertI length_map One_nat_def)
  qed
  ultimately show ?thesis using sum_length_filter_compl [of "\<lambda>x. case x of (k, _) \<Rightarrow> k \<noteq> p" fs] by simp
qed

lemma enforce_bounded:
  assumes "hash_wf fs"
  shows "length (enforce_fragment_cache_limit p fs) \<le> MAX_FRAGMENT_CACHE_ENTRIES"
  using assms
proof (induction p fs rule: enforce_fragment_cache_limit.induct)
  case (1 p fs)
  show ?case
  proof (cases "MAX_FRAGMENT_CACHE_ENTRIES < length fs")
    case True
    have "filter (\<lambda>(k, _). k \<noteq> p) fs \<noteq> []"
      using distinct_others [of fs p] 1(2) True by (auto simp: hash_wf_def fragment_consts)
    then obtain k where k: "oldest (filter (\<lambda>(k, _). k \<noteq> p) fs) = Some k"
      by (cases "oldest (filter (\<lambda>(k, _). k \<noteq> p) fs)") auto
    show ?thesis
      using 1(1) [OF True k] 1(2) True by (subst enforce_fragment_cache_limit.simps) (simp add: k hash.wf_rem)
  qed (simp add: enforce_fragment_cache_limit.simps [of p fs])
qed

subsection \<open>Eviction takes the oldest\<close>

lemma oldest_least:
  assumes "distinct (map fst fs)" "oldest fs = Some k"
  shows "\<exists>e. map_of fs k = Some e \<and> (\<forall>(k', e') \<in> set fs. fe_created_at e \<le> fe_created_at e')"
  using assms
proof (induction fs arbitrary: k)
  case (Cons x fs)
  obtain k0 e0 where x: "x = (k0, e0)" by (cases x)
  show ?case
  proof (cases "oldest fs")
    case None
    then show ?thesis using Cons.prems x by auto
  next
    case (Some k1)
    from Cons.IH [OF _ Some] Cons.prems(1) obtain e1 where
      e1: "map_of fs k1 = Some e1" "\<forall>(k', e') \<in> set fs. fe_created_at e1 \<le> fe_created_at e'" by auto
    have "k1 \<noteq> k0" using oldest_in [OF Some] Cons.prems(1) x by auto
    then show ?thesis using Cons.prems(2) x Some e1 by (fastforce split: if_splits)
  qed
qed simp

text \<open>The entries that are gone are no younger than any unprotected entry that stays.\<close>

lemma enforce_evicts_oldest:
  assumes "hash_wf fs" "(k, e) \<in> set fs" "(k, e) \<notin> set (enforce_fragment_cache_limit p fs)"
    and "(k', e') \<in> set (enforce_fragment_cache_limit p fs)" "k' \<noteq> p"
  shows "fe_created_at e \<le> fe_created_at e'"
  using assms
proof (induction p fs rule: enforce_fragment_cache_limit.induct)
  case (1 p fs)
  have "MAX_FRAGMENT_CACHE_ENTRIES < length fs" "oldest (filter (\<lambda>(k, _). k \<noteq> p) fs) \<noteq> None"
    using 1(3,4) by (auto simp: enforce_fragment_cache_limit.simps [of p fs] split: if_splits option.splits)
  then obtain j where len: "MAX_FRAGMENT_CACHE_ENTRIES < length fs" and j: "oldest (filter (\<lambda>(k, _). k \<noteq> p) fs) = Some j" by blast
  have enf: "enforce_fragment_cache_limit p fs = enforce_fragment_cache_limit p (AList.delete j fs)"
    using len j by (subst enforce_fragment_cache_limit.simps) simp
  show ?case
  proof (cases "k = j")
    case False
    then have "(k, e) \<in> set (AList.delete j fs)" using 1(3) by (simp add: AList.delete_eq)
    from 1(1) [OF len j hash.wf_rem [OF 1(2)] this] 1(4,5,6) enf show ?thesis by simp
  next
    case True
    let ?u = "filter (\<lambda>(k, _). k \<noteq> p) fs"
    have d: "distinct (map fst ?u)" using 1(2) by (simp add: hash_wf_def distinct_map_filter)
    from oldest_least [OF d j] obtain ej where
      ej: "map_of ?u j = Some ej" "\<forall>(k', e') \<in> set ?u. fe_created_at ej \<le> fe_created_at e'" by blast
    have "(j, ej) \<in> set fs" using map_of_SomeD [OF ej(1)] by simp
    then have "e = ej" using 1(2,3) True by (simp add: hash_wf_def eq_key_imp_eq_value)
    moreover have "(k', e') \<in> set ?u" using enforce_subset [of p fs] 1(5,6) by auto
    ultimately show ?thesis using bspec [OF ej(2), of "(k', e')"] by simp
  qed
qed

text \<open>
  C19. Enforcing the cache limit ends with at most ten partial messages, never touches the message that is
  being received, and what it evicts is no younger than any other message it keeps.
\<close>

theorem cache_limit_evicts_oldest:
  assumes "hash_wf fs"
  shows "length (enforce_fragment_cache_limit p fs) \<le> 10 \<and>
    map_of (enforce_fragment_cache_limit p fs) p = map_of fs p \<and>
    set (enforce_fragment_cache_limit p fs) \<subseteq> set fs \<and>
    (\<forall>k e k' e'. (k, e) \<in> set fs - set (enforce_fragment_cache_limit p fs) \<and>
       (k', e') \<in> set (enforce_fragment_cache_limit p fs) \<and> k' \<noteq> p \<longrightarrow> fe_created_at e \<le> fe_created_at e')"
  using enforce_bounded [OF assms, of p] enforce_protects [of p fs] enforce_subset [of p fs]
    enforce_evicts_oldest [OF assms, of _ _ p] by (auto simp: fragment_consts)

section \<open>Endpoint invariant\<close>

definition count_some :: "bytes option list \<Rightarrow> nat" where
  "count_some cs = length (filter (\<lambda>c. c \<noteq> None) cs)"

definition fe_ok :: "FragmentEntry \<Rightarrow> bool" where
  "fe_ok e \<longleftrightarrow> length (fe_chunks e) \<le> MAX_FRAGMENT_CHUNKS \<and> unat (fe_received_chunks e) = count_some (fe_chunks e) \<and>
     fe_received_bytes e = length (flatten_chunks (fe_chunks e)) \<and>
     (\<forall>b. Some b \<in> set (fe_chunks e) \<longrightarrow> length b \<le> MAX_FRAGMENT_PAYLOAD)"

definition frags_ok :: "'a FragmentMap \<Rightarrow> bool" where
  "frags_ok fs \<longleftrightarrow> hash_wf fs \<and> length fs \<le> MAX_FRAGMENT_CACHE_ENTRIES \<and> (\<forall>(k, e) \<in> set fs. fe_ok e)"

definition keys_ok :: "('a, 'k) UdpEndpoint \<Rightarrow> bool" where
  "keys_ok ep \<longleftrightarrow> (\<forall>c. ep_crypto ep = Some c \<longrightarrow> session_inv c) \<and> (\<forall>(a, c) \<in> set (ep_peer_crypto ep). session_inv c)"

definition ep_inv :: "('a, 'k) UdpEndpoint \<Rightarrow> bool" where
  "ep_inv ep \<longleftrightarrow> keys_ok ep \<and> frags_ok (ep_fragments ep)"

lemma count_some_update:
  "i < length cs \<Longrightarrow> cs ! i = None \<Longrightarrow> count_some (cs[i := Some b]) = Suc (count_some cs)"
proof (induction cs arbitrary: i)
  case (Cons c cs)
  then show ?case by (cases i) (auto simp: count_some_def)
qed simp

lemma flatten_update_length:
  "i < length cs \<Longrightarrow> cs ! i = None \<Longrightarrow> length (flatten_chunks (cs[i := Some b])) = length (flatten_chunks cs) + length b"
proof (induction cs arbitrary: i)
  case (Cons c cs)
  then show ?case by (cases i) (auto simp: flatten_chunks_def)
qed simp

lemma count_some_le: "count_some cs \<le> length cs"
  by (simp add: count_some_def)

lemma flatten_length_le:
  "\<forall>b. Some b \<in> set cs \<longrightarrow> length b \<le> n \<Longrightarrow> length (flatten_chunks cs) \<le> length cs * n"
  by (induction cs) (auto simp: flatten_chunks_def add_mono split: option.splits)

lemma store_chunk_ok:
  assumes "fe_ok e" "i < length (fe_chunks e)" "length data \<le> MAX_FRAGMENT_PAYLOAD"
  shows "fe_ok (store_chunk i data e)" "length (fe_chunks (store_chunk i data e)) = length (fe_chunks e)"
proof -
  have small: "unat (fe_received_chunks e) \<le> 4096"
    using assms(1) count_some_le [of "fe_chunks e"] by (simp add: fe_ok_def fragment_consts)
  then have "unat (fe_received_chunks e + 1) = Suc (unat (fe_received_chunks e))"
    by (subst unat_add_no_overflow) simp_all
  moreover have "Some b \<in> set ((fe_chunks e)[i := Some data]) \<Longrightarrow> b = data \<or> Some b \<in> set (fe_chunks e)" for b
    using set_update_subset_insert [of "fe_chunks e" i "Some data"] by auto
  ultimately show "fe_ok (store_chunk i data e)"
    using assms by (auto simp: fe_ok_def store_chunk_def count_some_update flatten_update_length)
  show "length (fe_chunks (store_chunk i data e)) = length (fe_chunks e)" by (simp add: store_chunk_def)
qed

lemma fragment_entry_new_ok:
  "unat n \<le> MAX_FRAGMENT_CHUNKS \<Longrightarrow> fe_ok (fragment_entry_new n now)"
  by (simp add: fe_ok_def fragment_entry_new_def count_some_def flatten_chunks_def map_replicate_const concat_replicate_trivial)

lemma frags_ok_filter: "frags_ok fs \<Longrightarrow> frags_ok (filter P fs)"
  by (auto simp: frags_ok_def hash_wf_def distinct_map_filter intro: order_trans [OF length_filter_le])

lemma frags_ok_delete: "frags_ok fs \<Longrightarrow> frags_ok (AList.delete k fs)"
  by (simp add: AList.delete_eq frags_ok_filter)

lemma frags_ok_cleanup: "frags_ok fs \<Longrightarrow> frags_ok (cleanup_expired_fragments now fs)"
  by (simp add: cleanup_expired_fragments_def frags_ok_filter)

lemma frags_ok_store:
  assumes "frags_ok fs" "fe_ok e"
  shows "frags_ok (enforce_fragment_cache_limit k (AList.update k e fs))"
proof -
  have wf: "hash_wf (AList.update k e fs)" using assms(1) by (simp add: frags_ok_def hash.wf_ins)
  have "set (enforce_fragment_cache_limit k (AList.update k e fs)) \<subseteq> insert (k, e) (set fs)"
    using enforce_subset [of k "AList.update k e fs"] set_update_subset [of k e fs] by blast
  then show ?thesis
    using enforce_wf [OF wf] enforce_bounded [OF wf] assms by (auto simp: frags_ok_def)
qed

subsection \<open>Keys\<close>

lemma peer_key_ok: "keys_ok ep \<Longrightarrow> peer_key ep addr = Some c \<Longrightarrow> session_inv c"
  by (auto simp: keys_ok_def peer_key_def dest: map_of_SomeD split: option.splits)

lemma put_key_ok: "keys_ok ep \<Longrightarrow> session_inv c \<Longrightarrow> keys_ok (put_key addr c ep)"
  using set_update_subset [of addr c "ep_peer_crypto ep"] by (fastforce simp: keys_ok_def put_key_def split: option.splits)

lemma put_key_fragments [simp]: "ep_fragments (put_key addr c ep) = ep_fragments ep"
  by (simp add: put_key_def split: option.splits)

lemma peer_key_put [simp]: "peer_key (put_key addr c ep) addr = Some c"
  by (simp add: peer_key_def put_key_def update_conv' split: option.splits)

lemma record_open_inv:
  assumes "session_inv c"
  obtains c' r where "record_open cs c buf = Some (c', r)" "session_inv c'"
proof -
  have ok: "replay_ok (received c)" using assms by (simp add: session_inv_def)
  have "record_open cs c buf \<noteq> None"
    by (rule record_open_cases [OF ok, of cs buf]) simp_all
  then obtain c' r where r: "record_open cs c buf = Some (c', r)" by force
  have "session_inv c'" using session_step_inv [OF assms, of cs "OpenOp buf"] r by (simp add: session_step_def)
  with r that show ?thesis by blast
qed

lemma decode_inner_authenticated:
  "decode_payload_inner cs cd buf addr (Some sid) us ep = Some (ep, if buf = [] then Ok None
     else if buf ! 0 = MULTIPLEX_ENCRYPTED then Err (UdpText ''nested encryption is not supported'')
     else decode_clear cd buf addr (Some sid) us)"
  by (subst decode_payload_inner.simps) simp

lemma decode_inner_clear:
  "buf \<noteq> [] \<Longrightarrow> buf ! 0 \<noteq> MULTIPLEX_ENCRYPTED \<Longrightarrow>
   decode_payload_inner cs cd buf addr None us ep = Some (ep,
     if peer_key ep addr \<noteq> None \<and> plaintext_refused cd buf then Err (UdpText ''plaintext packet rejected for encrypted peer'')
     else decode_clear cd buf addr None us)"
  by (subst decode_payload_inner.simps) simp

lemma decode_inner_sealed:
  assumes "peer_key ep addr = Some c"
  shows "decode_payload_inner cs cd (MULTIPLEX_ENCRYPTED # r) addr None us ep =
    (case record_open cs c r of None \<Rightarrow> None
     | Some (c', Inl e) \<Rightarrow> Some (put_key addr c' ep, Err (UdpCrypto e))
     | Some (c', Inr opened) \<Rightarrow> decode_payload_inner cs cd opened addr (Some (session_id c)) us (put_key addr c' ep))"
  using assms by (subst decode_payload_inner.simps) (simp add: plaintext_refused_def)

lemma decode_inner_inv:
  assumes "keys_ok ep"
  obtains ep' r where "decode_payload_inner cs cd buf addr None us ep = Some (ep', r)" "keys_ok ep'"
    "ep_fragments ep' = ep_fragments ep"
proof (cases "buf = [] \<or> buf ! 0 \<noteq> MULTIPLEX_ENCRYPTED \<or> peer_key ep addr = None")
  case True
  have "\<exists>r. decode_payload_inner cs cd buf addr None us ep = Some (ep, r)"
    using True by (subst decode_payload_inner.simps) auto
  then show ?thesis using that assms by blast
next
  case False
  then obtain r c where buf: "buf = MULTIPLEX_ENCRYPTED # r" and c: "peer_key ep addr = Some c" by (cases buf) auto
  obtain c' q where op: "record_open cs c r = Some (c', q)" "session_inv c'"
    using record_open_inv peer_key_ok [OF assms c] by blast
  show ?thesis
    using that decode_inner_sealed [OF c, of cs cd r us] op put_key_ok [OF assms op(2)]
    by (cases q) (simp_all add: buf decode_inner_authenticated)
qed

lemma decode_at_inv:
  assumes "ep_inv ep"
  shows "\<exists>ep' out. decode_payload_at cs cd buf addr us ep = Some (ep', out) \<and> ep_inv ep'"
proof -
  have "keys_ok ep" using assms by (simp add: ep_inv_def)
  from decode_inner_inv [OF this, of cs cd buf addr us] obtain ep' r where
    "decode_payload_inner cs cd buf addr None us ep = Some (ep', r)" "keys_ok ep'" "ep_fragments ep' = ep_fragments ep" by blast
  then show ?thesis
    using assms by (cases r) (auto simp: decode_payload_at_def ep_inv_def split: option.splits)
qed

lemma recv_fragment_eq:
  assumes "\<not> length buf < 10" "fragment_fault buf i n = None" "fragment_slot fs k n now = Some e0"
    and "i = of_be (rslice 6 8 buf)" "n = of_be (rslice 8 10 buf)" "k = (addr, buf ! 1, of_be (rslice 2 6 buf))"
    and "fs = cleanup_expired_fragments now (ep_fragments ep)" "e = store_chunk (unat i) (drop 10 buf) e0"
  shows "recv_fragment cs cd buf addr now us ep =
    (if fe_received_chunks e = n
     then decode_payload_at cs cd (buf ! 1 # flatten_chunks (fe_chunks e)) addr us (ep\<lparr>ep_fragments := AList.delete k fs\<rparr>)
     else Some (ep\<lparr>ep_fragments := enforce_fragment_cache_limit k (AList.update k e fs)\<rparr>, RContinue))"
  using assms(1-3) unfolding assms(4-8) recv_fragment_def Let_def by simp

lemma recv_fragment_inv:
  assumes inv: "ep_inv ep"
  shows "\<exists>ep' out. recv_fragment cs cd buf addr now us ep = Some (ep', out) \<and> ep_inv ep'"
proof (cases "length buf < 10 \<or> fragment_fault buf (of_be (rslice 6 8 buf)) (of_be (rslice 8 10 buf)) \<noteq> None")
  case True
  then show ?thesis using inv by (auto simp: recv_fragment_def Let_def)
next
  case False
  define n :: u16 where "n = of_be (rslice 8 10 buf)"
  define i :: u16 where "i = of_be (rslice 6 8 buf)"
  define k where "k = (addr, buf ! 1, of_be (rslice 2 6 buf) :: u32)"
  define fs where "fs = cleanup_expired_fragments now (ep_fragments ep)"
  have fault: "\<not> length buf < 10" "fragment_fault buf i n = None" using False by (simp_all add: n_def i_def)
  then have ok: "unat n \<le> MAX_FRAGMENT_CHUNKS" "unat i < unat n" "length (drop 10 buf) \<le> MAX_FRAGMENT_PAYLOAD"
    by (auto simp: fragment_fault_def word_less_nat_alt not_le split: if_splits)
  have fs: "frags_ok fs" using inv by (simp add: fs_def ep_inv_def frags_ok_cleanup)
  show ?thesis
  proof (cases "fragment_slot fs k n now")
    case None
    then have "recv_fragment cs cd buf addr now us ep =
        Some (ep\<lparr>ep_fragments := fs\<rparr>, RRejected addr (UdpText ''Mismatched UDP fragment total chunk count''))"
      using fault unfolding recv_fragment_def Let_def n_def i_def k_def fs_def by simp
    then show ?thesis using inv fs by (simp add: ep_inv_def keys_ok_def)
  next
    case (Some e0)
    have e0: "fe_ok e0" "length (fe_chunks e0) = unat n"
      using Some fs ok(1) fragment_entry_new_ok [of n now]
      by (auto simp: fragment_slot_def fragment_entry_new_def frags_ok_def dest: map_of_SomeD split: option.splits if_splits)
    define e where "e = store_chunk (unat i) (drop 10 buf) e0"
    have e: "fe_ok e" unfolding e_def by (rule store_chunk_ok) (use e0 ok in auto)
    have "ep_inv (ep\<lparr>ep_fragments := AList.delete k fs\<rparr>)"
      "ep_inv (ep\<lparr>ep_fragments := enforce_fragment_cache_limit k (AList.update k e fs)\<rparr>)"
      using inv frags_ok_delete [OF fs] frags_ok_store [OF fs e] by (simp_all add: ep_inv_def keys_ok_def)
    then show ?thesis
      using recv_fragment_eq [OF fault Some i_def n_def k_def fs_def e_def, of cs cd us]
        decode_at_inv [of _ cs cd _ addr us] by auto
  qed
qed

lemma recv_datagram_inv:
  assumes "ep_inv ep"
  shows "\<exists>ep' out. recv_datagram cs cd buf addr now us ep = Some (ep', out) \<and> ep_inv ep'"
  using assms recv_fragment_inv [OF assms] decode_at_inv [OF assms] by (auto simp: recv_datagram_def)

datatype 'a udp_op =
  RecvOp bytes 'a nat u64 | InstallOp bytes bytes bytes SessionRole | InstallPeerOp 'a bytes bytes bytes SessionRole
| RemovePeerOp 'a

definition sid16 :: "bytes \<Rightarrow> bytes" where
  "sid16 sid = take 16 (sid @ replicate 16 0)"

text \<open>Sessions are installed as the handshake builds them, with their 16-byte identifiers.\<close>

definition udp_step :: "('k, 'm) crypto_suite_scheme \<Rightarrow> 'e wire_codec \<Rightarrow> ('a, 'k) UdpEndpoint \<Rightarrow> 'a udp_op \<Rightarrow> ('a, 'k) UdpEndpoint" where
  "udp_step cs cd ep x = (case x of
     RecvOp buf addr now us \<Rightarrow> (case recv_datagram cs cd buf addr now us ep of None \<Rightarrow> ep | Some (ep', _) \<Rightarrow> ep')
   | InstallOp psk t sid role \<Rightarrow> (case for_session cs psk t (sid16 sid) role of
       Inl _ \<Rightarrow> ep | Inr c \<Rightarrow> fst (install_crypto c ep))
   | InstallPeerOp addr psk t sid role \<Rightarrow> (case for_session cs psk t (sid16 sid) role of
       Inl _ \<Rightarrow> ep | Inr c \<Rightarrow> install_peer_crypto addr c ep)
   | RemovePeerOp addr \<Rightarrow> remove_peer_crypto addr ep)"

lemma installed_ok: "for_session cs psk t (sid16 sid) role = Ok c \<Longrightarrow> session_inv c"
  by (rule for_session_inv) (auto simp: sid16_def min_def)

lemma udp_step_inv: "ep_inv ep \<Longrightarrow> ep_inv (udp_step cs cd ep x)"
proof (cases x)
  case (RecvOp buf addr now us)
  then show "ep_inv ep \<Longrightarrow> ?thesis"
    using recv_datagram_inv [of ep cs cd buf addr now us] by (auto simp: udp_step_def)
next
  case (InstallOp psk t sid role)
  then show "ep_inv ep \<Longrightarrow> ?thesis"
    by (auto simp: udp_step_def install_crypto_def ep_inv_def keys_ok_def split: sum.splits option.splits dest: installed_ok)
next
  case (InstallPeerOp addr psk t sid role)
  assume inv: "ep_inv ep"
  have "session_inv c \<Longrightarrow> ep_inv (install_peer_crypto addr c ep)" for c
    using inv set_update_subset [of addr c "ep_peer_crypto ep"] by (fastforce simp: install_peer_crypto_def ep_inv_def keys_ok_def)
  then show ?thesis
    using inv InstallPeerOp by (auto simp: udp_step_def split: sum.splits dest: installed_ok)
next
  case (RemovePeerOp addr)
  then show "ep_inv ep \<Longrightarrow> ?thesis"
    by (auto simp: udp_step_def remove_peer_crypto_def ep_inv_def keys_ok_def AList.delete_eq)
qed

interpretation udp: op_machine "udp_step cs cd" ep_inv
  by unfold_locales (rule udp_step_inv)

lemma sum_list_bound: "(\<And>x. x \<in> set xs \<Longrightarrow> f x \<le> n) \<Longrightarrow> sum_list (map f xs) \<le> length xs * n" for n :: nat
proof (induction xs)
  case (Cons x xs)
  then have "f x \<le> n" "sum_list (map f xs) \<le> length xs * n" by simp_all
  then show ?case by simp
qed simp

lemma frags_memory:
  assumes "frags_ok fs"
  shows "sum_list (map (\<lambda>(k, e). fe_received_bytes e) fs) \<le> 10 * (4096 * 1400)"
proof -
  have "fe_received_bytes e \<le> 4096 * 1400" if "(k, e) \<in> set fs" for k e
  proof -
    have "fe_ok e" using assms that by (auto simp: frags_ok_def)
    then have "fe_received_bytes e \<le> length (fe_chunks e) * 1400" "length (fe_chunks e) \<le> 4096"
      using flatten_length_le [of "fe_chunks e" 1400] by (simp_all add: fe_ok_def fragment_consts)
    then show ?thesis by (meson le_trans mult_le_mono1)
  qed
  then have "sum_list (map (\<lambda>(k, e). fe_received_bytes e) fs) \<le> length fs * (4096 * 1400)"
    by (intro sum_list_bound) auto
  moreover have "length fs \<le> 10" using assms by (simp add: frags_ok_def fragment_consts)
  ultimately show ?thesis by (meson le_trans mult_le_mono1)
qed

text \<open>
  Whatever datagrams arrive from whatever addresses: the receiver never panics, and at every moment it
  holds at most ten partial messages of at most 4096 chunks, about 57 MB in all.
\<close>

theorem fragment_memory_bounded:
  fixes cs :: "('k, 'm) crypto_suite_scheme" and cd :: "'e wire_codec" and ops :: "'a udp_op list"
  defines "ep \<equiv> foldl (udp_step cs cd) udp_split ops"
  shows "length (ep_fragments ep) \<le> 10 \<and> sum_list (map (\<lambda>(k, e). fe_received_bytes e) (ep_fragments ep)) \<le> 57344000 \<and>
    list_all (\<lambda>(k, e). length (fe_chunks e) \<le> 4096) (ep_fragments ep) \<and>
    recv_datagram cs cd buf addr now us ep \<noteq> None"
proof -
  have inv: "ep_inv ep"
    unfolding ep_def by (rule udp.run_inv) (simp add: ep_inv_def keys_ok_def frags_ok_def hash_wf_def udp_split_def)
  then have fs: "frags_ok (ep_fragments ep)" by (simp add: ep_inv_def)
  have "recv_datagram cs cd buf addr now us ep \<noteq> None" using recv_datagram_inv [OF inv, of cs cd buf addr now us] by auto
  then show ?thesis
    using frags_memory [OF fs] fs by (auto simp: frags_ok_def fe_ok_def fragment_consts list_all_iff)
qed

section \<open>The plaintext policy\<close>

text \<open>
  C18. From an address with a session key, a packet is delivered only if it was opened by that session, or
  is a handshake message; and clock measurements are delivered only from inside the session they name.
\<close>

theorem encrypted_peer_policy:
  assumes key: "peer_key ep addr = Some c"
    and recv: "decode_payload_at cs cd buf addr us ep = Some (ep', RPacket p)"
  shows "(\<exists>r c' opened. buf = MULTIPLEX_ENCRYPTED # r \<and> record_open cs c r = Some (c', Ok opened) \<and> ep' = put_key addr c' ep \<and>
      decode_clear cd opened addr (Some (session_id c)) us = (Ok (Some p) :: (_, 'e UdpError) result)) \<or>
    (\<exists>m. p = MP_Control m addr \<and> is_handshake m \<and> ep' = ep)"
proof (cases "buf = [] \<or> buf ! 0 \<noteq> MULTIPLEX_ENCRYPTED")
  case True
  have "buf \<noteq> []" using recv by (auto simp: decode_payload_at_def decode_payload_inner.simps [of cs cd "[]"])
  then have dec: "\<not> plaintext_refused cd buf" "decode_clear cd buf addr None us = Ok (Some p)" "ep' = ep"
    using recv True key
    by (auto simp: decode_payload_at_def decode_inner_clear split: if_splits sum.splits option.splits)
  then obtain m where m: "buf ! 0 = 2" "control_decode cd (drop 1 buf) = Ok m" "is_handshake m"
    using True \<open>buf \<noteq> []\<close> by (auto simp: plaintext_refused_def split: sum.splits)
  then have "decode_control m None us addr = (Ok (Some p) :: (_, 'e UdpError) result)" using dec(2) by (simp add: decode_clear_def)
  then show ?thesis using m(3) dec(3) by (cases m) (auto simp: decode_control_def is_handshake_def)
next
  case False
  then obtain r where buf: "buf = MULTIPLEX_ENCRYPTED # r" by (cases buf) auto
  then show ?thesis
    using recv decode_inner_sealed [OF key, of cs cd r us]
    by (auto simp: decode_payload_at_def decode_inner_authenticated split: option.splits prod.splits sum.splits if_splits)
qed

section \<open>Reassembly\<close>

fun recv_run :: "('k, 'm) crypto_suite_scheme \<Rightarrow> 'e wire_codec \<Rightarrow> 'a \<Rightarrow> ('a, 'k) UdpEndpoint \<Rightarrow> (bytes \<times> nat \<times> u64) list \<Rightarrow>
    (('a, 'k) UdpEndpoint \<times> ('a, 'e) recv_outcome list) option" where
  "recv_run cs cd addr ep [] = Some (ep, [])"
| "recv_run cs cd addr ep ((buf, now, us) # xs) = (case recv_datagram cs cd buf addr now us ep of
     None \<Rightarrow> None
   | Some (ep', out) \<Rightarrow> map_option (apsnd ((#) out)) (recv_run cs cd addr ep' xs))"

text \<open>An entry that holds exactly the chunks \<open>S\<close> of a message cut into \<open>cks\<close>.\<close>

definition holds_part :: "FragmentEntry \<Rightarrow> bytes list \<Rightarrow> nat set \<Rightarrow> nat \<Rightarrow> bool" where
  "holds_part e cks S t \<longleftrightarrow> S \<subseteq> {..<length cks} \<and> fe_created_at e = t \<and> unat (fe_received_chunks e) = card S \<and>
     fe_chunks e = map (\<lambda>i. if i \<in> S then Some (cks ! i) else None) [0..<length cks]"

definition part_at :: "('a, 'k) UdpEndpoint \<Rightarrow> 'a FragmentKey \<Rightarrow> bytes list \<Rightarrow> nat set \<Rightarrow> nat \<Rightarrow> bool" where
  "part_at ep k cks S t \<longleftrightarrow> hash_wf (ep_fragments ep) \<and>
     (if S = {} then map_of (ep_fragments ep) k = None else \<exists>e. map_of (ep_fragments ep) k = Some e \<and> holds_part e cks S t)"

lemma holds_part_new:
  "length cks < 2 ^ 16 \<Longrightarrow> holds_part (fragment_entry_new (word_of_nat (length cks)) t) cks {} t"
  by (simp add: holds_part_def fragment_entry_new_def unat_of_nat map_replicate_const)

lemma holds_part_store:
  assumes e: "holds_part e cks S t" and i: "i < length cks" and n: "length cks < 2 ^ 16 - 1"
  shows "holds_part (store_chunk i (cks ! i) e) cks (insert i S) t"
proof (cases "i \<in> S")
  case True
  then show ?thesis using e i by (simp add: holds_part_def store_chunk_def insert_absorb)
next
  case False
  have fin: "finite S" using e finite_subset by (auto simp: holds_part_def)
  have "card S \<le> length cks" using e card_mono [of "{..<length cks}" S] by (simp add: holds_part_def)
  then have "unat (fe_received_chunks e + 1) = Suc (card S)"
    using e n by (subst unat_add_no_overflow) (simp_all add: holds_part_def)
  moreover have "(map (\<lambda>j. if j \<in> S then Some (cks ! j) else None) [0..<length cks])[i := Some (cks ! i)] =
      map (\<lambda>j. if j \<in> insert i S then Some (cks ! j) else None) [0..<length cks]"
    using i by (intro nth_equalityI) (simp_all add: nth_list_update)
  ultimately show ?thesis
    using e i False fin by (simp add: holds_part_def store_chunk_def)
qed

lemma holds_part_all:
  assumes "holds_part e cks {..<length cks} t"
  shows "flatten_chunks (fe_chunks e) = concat cks"
proof -
  have "map (\<lambda>i. if i \<in> {..<length cks} then Some (cks ! i) else None) [0..<length cks] = map Some cks"
    by (intro nth_equalityI) simp_all
  then have "fe_chunks e = map Some cks" using assms unfolding holds_part_def by metis
  then show ?thesis by (simp add: flatten_chunks_def comp_def)
qed

lemma map_of_cleanup:
  "hash_wf fs \<Longrightarrow> map_of (cleanup_expired_fragments now fs) k =
     (case map_of fs k of None \<Rightarrow> None | Some e \<Rightarrow> if now - fe_created_at e \<le> MAX_FRAGMENT_AGE then Some e else None)"
  by (induction fs) (auto simp: cleanup_expired_fragments_def hash_wf_def map_of_eq_None_iff split: option.splits)

lemma cleanup_wf: "hash_wf fs \<Longrightarrow> hash_wf (cleanup_expired_fragments now fs)"
  by (simp add: hash_wf_def cleanup_expired_fragments_def distinct_map_filter)

definition valid_header :: "u8 \<Rightarrow> bool" where
  "valid_header h \<longleftrightarrow> h \<in> {0x01, 0x02, 0x04, 0x05, MULTIPLEX_ENCRYPTED}"

definition sendable :: "bytes list \<Rightarrow> bool" where
  "sendable cks \<longleftrightarrow> 0 < length cks \<and> length cks \<le> MAX_FRAGMENT_CHUNKS \<and>
     (\<forall>c\<in>set cks. 0 < length c \<and> length c \<le> MAX_FRAGMENT_PAYLOAD)"

definition same_keys :: "('a, 'k) UdpEndpoint \<Rightarrow> ('a, 'k) UdpEndpoint \<Rightarrow> bool" where
  "same_keys ep ep' \<longleftrightarrow> ep_crypto ep' = ep_crypto ep \<and> ep_peer_crypto ep' = ep_peer_crypto ep"

text \<open>One fragment of a message: it is stored, or it completes the message.\<close>

lemma recv_part:
  assumes cks: "sendable cks" and h: "valid_header h" and i: "i < length cks"
    and part: "part_at ep (addr, h, fid) cks S t" and age: "S = {} \<or> now - t \<le> MAX_FRAGMENT_AGE"
  defines "d \<equiv> fragment_datagram h fid (word_of_nat i) (word_of_nat (length cks)) (cks ! i)"
  shows "(if insert i S = {..<length cks}
     then \<exists>ep2. same_keys ep ep2 \<and> recv_datagram cs cd d addr now us ep = decode_payload_at cs cd (h # concat cks) addr us ep2
     else \<exists>ep2. same_keys ep ep2 \<and> recv_datagram cs cd d addr now us ep = Some (ep2, RContinue) \<and>
       part_at ep2 (addr, h, fid) cks (insert i S) (if S = {} then now else t))"
proof -
  let ?n = "word_of_nat (length cks) :: u16" and ?i = "word_of_nat i :: u16" and ?k = "(addr, h, fid)"
  let ?t = "if S = {} then now else t"
  define fs where "fs = cleanup_expired_fragments now (ep_fragments ep)"
  have len: "length cks \<le> 4096" "0 < length cks" "0 < length (cks ! i)" "length (cks ! i) \<le> 1400"
    using cks i by (auto simp: sendable_def fragment_consts)
  have u: "unat ?n = length cks" "unat ?i = i" using len i by (simp_all add: unat_of_nat)
  then have n0: "?n \<noteq> 0" "\<not> ?n \<le> ?i" using len i by (auto simp: unat_eq_0 [symmetric] word_le_nat_alt simp del: unat_eq_0)
  have hd3: "d ! 1 = h" by (simp add: d_def fragment_datagram_fields)
  have fault: "\<not> length d < 10" "fragment_fault d ?i ?n = None"
    using h len n0 u by (simp_all add: d_def fragment_datagram_fields fragment_fault_def fragment_consts valid_header_def)
  have frag: "recv_datagram cs cd d addr now us ep = recv_fragment cs cd d addr now us ep"
    using len by (auto simp: recv_datagram_def d_def fragment_datagram_fields fragment_consts) (simp add: fragment_datagram_def)
  have wf: "hash_wf fs" using part by (simp add: part_at_def fs_def cleanup_wf)
  have "\<exists>e0. fragment_slot fs ?k ?n now = Some e0 \<and> holds_part e0 cks S ?t"
  proof (cases "S = {}")
    case True
    then have "map_of fs ?k = None" using part by (simp add: part_at_def fs_def map_of_cleanup)
    then show ?thesis using True holds_part_new [of cks now] len by (simp add: fragment_slot_def)
  next
    case False
    then obtain e where e: "map_of (ep_fragments ep) ?k = Some e" "holds_part e cks S t" using part by (auto simp: part_at_def)
    then have "map_of fs ?k = Some e" using part False age by (simp add: part_at_def fs_def map_of_cleanup holds_part_def)
    then show ?thesis using False e(2) u by (simp add: fragment_slot_def holds_part_def)
  qed
  then obtain e0 where e0: "fragment_slot fs ?k ?n now = Some e0" "holds_part e0 cks S ?t" by blast
  define e where "e = store_chunk (unat ?i) (drop 10 d) e0"
  have he: "holds_part e cks (insert i S) ?t"
    using holds_part_store [OF e0(2) i] len by (simp add: e_def u d_def fragment_datagram_fields)
  have ids: "?i = of_be (rslice 6 8 d)" "?n = of_be (rslice 8 10 d)" "?k = (addr, d ! 1, of_be (rslice 2 6 d))"
    by (simp_all add: d_def fragment_datagram_fields hd3)
  note eq = recv_fragment_eq [OF fault e0(1) ids fs_def e_def, of cs cd us, folded frag]
  have sub: "insert i S \<subseteq> {..<length cks}" and ce: "unat (fe_received_chunks e) = card (insert i S)"
    using he unfolding holds_part_def by blast+
  have "fe_received_chunks e = ?n \<longleftrightarrow> unat (fe_received_chunks e) = length cks" 
    using word_unat_eq_iff [of "fe_received_chunks e" ?n] unfolding u(1) .
  also have "\<dots> \<longleftrightarrow> card (insert i S) = card {..<length cks}" unfolding ce by (simp only: card_lessThan)
  also have "\<dots> \<longleftrightarrow> insert i S = {..<length cks}" 
    using card_subset_eq [OF finite_lessThan sub] by (intro iffI) (assumption | simp only:)+
  finally have compl: "fe_received_chunks e = ?n \<longleftrightarrow> insert i S = {..<length cks}" .
  show ?thesis
  proof (cases "insert i S = {..<length cks}")
    case True
    have "flatten_chunks (fe_chunks e) = concat cks"
      by (rule holds_part_all) (use he in \<open>simp only: True\<close>)
    then have "recv_datagram cs cd d addr now us ep =
        decode_payload_at cs cd (h # concat cks) addr us (ep\<lparr>ep_fragments := AList.delete ?k fs\<rparr>)"
      using eq compl True hd3 by (simp only: if_True simp_thms)
    moreover have "same_keys ep (ep\<lparr>ep_fragments := AList.delete ?k fs\<rparr>)" by (simp add: same_keys_def)
    ultimately show ?thesis unfolding if_P [OF True] by blast
  next
    case False
    let ?ep = "ep\<lparr>ep_fragments := enforce_fragment_cache_limit ?k (AList.update ?k e fs)\<rparr>"
    have "map_of (ep_fragments ?ep) ?k = Some e" by (simp add: enforce_protects update_conv')
    then have "part_at ?ep ?k cks (insert i S) ?t"
      using he enforce_wf [OF hash.wf_ins [OF wf]] unfolding part_at_def by simp
    moreover have "recv_datagram cs cd d addr now us ep = Some (?ep, RContinue)"
      using eq compl False by (simp only: if_False)
    moreover have "same_keys ep ?ep" by (simp add: same_keys_def)
    ultimately show ?thesis unfolding if_not_P [OF False] by blast
  qed
qed

lemma same_keys_trans: "same_keys a b \<Longrightarrow> same_keys b c \<Longrightarrow> same_keys a c"
  by (simp add: same_keys_def)

lemma peer_key_same: "same_keys a b \<Longrightarrow> peer_key b addr = peer_key a addr"
  by (simp add: same_keys_def peer_key_def split: option.splits)

definition arrival :: "bytes list \<Rightarrow> nat \<times> nat \<times> u64 \<Rightarrow> bytes \<times> nat \<times> u64" where
  "arrival ds a = (case a of (i, now, us) \<Rightarrow> (ds ! i, now, us))"

definition fragments_of :: "u8 \<Rightarrow> u32 \<Rightarrow> bytes list \<Rightarrow> bytes list" where
  "fragments_of h fid cks = map (\<lambda>i. fragment_datagram h fid (word_of_nat i) (word_of_nat (length cks)) (cks ! i)) [0..<length cks]"

text \<open>Arrivals within the lifetime of a partial message that starts at \<open>lo\<close>.\<close>

definition timely :: "nat \<Rightarrow> (nat \<times> nat \<times> u64) list \<Rightarrow> bool" where
  "timely lo as \<longleftrightarrow> (\<forall>a\<in>set as. lo \<le> fst (snd a) \<and> fst (snd a) \<le> lo + MAX_FRAGMENT_AGE)"

text \<open>Arrivals that do not complete the message only extend the partial entry.\<close>

lemma recv_parts:
  assumes "sendable cks" "valid_header h" "part_at ep (addr, h, fid) cks S t"
    and "S \<union> fst ` set as \<subset> {..<length cks}" "timely lo as" "lo \<le> t"
  shows "\<exists>ep2 t2. recv_run cs cd addr ep (map (arrival (fragments_of h fid cks)) as) = Some (ep2, replicate (length as) RContinue) \<and>
    same_keys ep ep2 \<and> part_at ep2 (addr, h, fid) cks (S \<union> fst ` set as) t2 \<and> lo \<le> t2"
  using assms(3-6)
proof (induction as arbitrary: ep S t)
  case Nil
  then show ?case by (auto simp: same_keys_def)
next
  case (Cons a as)
  obtain i now us where a: "a = (i, now, us)" by (cases a)
  let ?S = "insert i S" and ?t = "if S = {} then now else t"
  have i: "i < length cks" and part: "?S \<noteq> {..<length cks}" using Cons.prems(2) a by auto
  have now: "lo \<le> now" "now \<le> lo + MAX_FRAGMENT_AGE" "timely lo as" using Cons.prems(3) a by (simp_all add: timely_def)
  then have age: "S = {} \<or> now - t \<le> MAX_FRAGMENT_AGE" using Cons.prems(4) by linarith
  from recv_part [OF assms(1,2) i Cons.prems(1) age, of cs cd us] part obtain ep1 where
    ep1: "same_keys ep ep1" "part_at ep1 (addr, h, fid) cks ?S ?t"
      "recv_datagram cs cd (fragment_datagram h fid (word_of_nat i) (word_of_nat (length cks)) (cks ! i)) addr now us ep = Some (ep1, RContinue)"
    by auto
  have "?S \<union> fst ` set as \<subset> {..<length cks}" "lo \<le> ?t" using Cons.prems(2,4) now a by simp_all
  from Cons.IH [OF ep1(2) this(1) now(3) this(2)] obtain ep2 t2 where ep2:
    "recv_run cs cd addr ep1 (map (arrival (fragments_of h fid cks)) as) = Some (ep2, replicate (length as) RContinue)"
    "same_keys ep1 ep2" "part_at ep2 (addr, h, fid) cks (?S \<union> fst ` set as) t2" "lo \<le> t2" by blast
  have "arrival (fragments_of h fid cks) a = (fragment_datagram h fid (word_of_nat i) (word_of_nat (length cks)) (cks ! i), now, us)"
    using i by (simp add: arrival_def fragments_of_def a)
  then show ?case
    using ep1 ep2 same_keys_trans [OF ep1(1) ep2(2)] a by (intro exI [of _ ep2] exI [of _ t2]) simp
qed

lemma recv_complete:
  assumes cks: "sendable cks" and h: "valid_header h" and wf: "hash_wf (ep_fragments ep)"
    and new: "map_of (ep_fragments ep) (addr, h, fid) = None"
    and all: "insert i (fst ` set as) = {..<length cks}" "i \<notin> fst ` set as"
    and time: "timely lo (as @ [(i, now, us)])"
  shows "\<exists>ep1 ep2. recv_run cs cd addr ep (map (arrival (fragments_of h fid cks)) as) = Some (ep1, replicate (length as) RContinue) \<and>
    recv_datagram cs cd (fragments_of h fid cks ! i) addr now us ep1 = decode_payload_at cs cd (h # concat cks) addr us ep2 \<and>
    same_keys ep ep2"
proof -
  have i: "i < length cks" using all(1) by blast
  have part: "part_at ep (addr, h, fid) cks {} lo" using wf new by (simp add: part_at_def)
  have sub: "{} \<union> fst ` set as \<subset> {..<length cks}" using all by auto
  have "timely lo as" "now \<le> lo + MAX_FRAGMENT_AGE" using time by (simp_all add: timely_def)
  from recv_parts [OF cks h part sub this(1) order_refl, of cs cd] obtain ep1 t where ep1:
    "recv_run cs cd addr ep (map (arrival (fragments_of h fid cks)) as) = Some (ep1, replicate (length as) RContinue)"
    "same_keys ep ep1" "part_at ep1 (addr, h, fid) cks (fst ` set as) t" "lo \<le> t" by auto
  have "fst ` set as = {} \<or> now - t \<le> MAX_FRAGMENT_AGE" using \<open>now \<le> _\<close> ep1(4) by linarith
  from recv_part [OF cks h i ep1(3) this, of cs cd us] all(1) obtain ep2 where
    "same_keys ep1 ep2" "recv_datagram cs cd (fragment_datagram h fid (word_of_nat i) (word_of_nat (length cks)) (cks ! i)) addr now us ep1 =
       decode_payload_at cs cd (h # concat cks) addr us ep2" by auto
  then show ?thesis using ep1 i same_keys_trans by (auto simp: fragments_of_def)
qed

text \<open>What \<open>send_raw\<close> produces, and its delivery.\<close>

lemma send_raw_cases:
  assumes "send_raw fid h bs = (Ok ds :: (_, 'e UdpError) result)"
  obtains (whole) "length bs \<le> 1400" "ds = [h # bs]"
  | (cut) "1400 < length bs" "sendable (chunks_of 1400 bs)" "ds = fragments_of h fid (chunks_of 1400 bs)"
proof (cases "length bs \<le> 1400")
  case True
  then show ?thesis using assms whole by (simp add: send_raw_def fragment_consts)
next
  case False
  let ?c = "chunks_of 1400 bs"
  have lim: "length bs \<le> 1400 * 4096" using assms by (simp add: send_raw_def fragment_consts split: if_splits)
  have "length ?c \<le> 4096" using lim by (simp add: length_chunks_of)
  moreover have "0 < length ?c" using False by (simp add: length_chunks_of)
  moreover have "0 < length c \<and> length c \<le> 1400" if "c \<in> set ?c" for c
    using that chunk_length [of 1400 _ bs] by (auto simp: in_set_conv_nth)
  ultimately have "sendable ?c" by (simp add: sendable_def fragment_consts)
  moreover have "ds = map (\<lambda>(i, c). fragment_datagram h fid (word_of_nat i) (word_of_nat (length ?c)) c) (enumerate 0 ?c)"
    using assms False lim by (simp add: send_raw_def fragment_consts Let_def)
  then have "ds = fragments_of h fid ?c"
    by (intro nth_equalityI) (simp_all add: fragments_of_def nth_enumerate_eq)
  ultimately show ?thesis using cut False by simp
qed

text \<open>
  One message on the wire.  The datagrams of a message, arriving in any order with duplicates within
  two seconds at a receiver that has no part of it yet, make the receiver wait silently until the last
  missing one, which makes it decode exactly the bytes that were sent, once.
\<close>

lemma message_received:
  fixes cs :: "('k, 'm) crypto_suite_scheme" and cd :: "'e wire_codec"
  assumes sent: "send_raw fid h bs = (Ok ds :: (_, 'e UdpError) result)" and h: "valid_header h"
    and wf: "hash_wf (ep_fragments ep)" and new: "map_of (ep_fragments ep) (addr, h, fid) = None"
    and all: "insert i (fst ` set as) = {..<length ds}" "i \<notin> fst ` set as"
    and time: "timely lo (as @ [(i, now, us)])"
  shows "\<exists>ep1 ep2. recv_run cs cd addr ep (map (arrival ds) as) = Some (ep1, replicate (length as) RContinue) \<and>
    recv_datagram cs cd (ds ! i) addr now us ep1 = decode_payload_at cs cd (h # bs) addr us ep2 \<and> same_keys ep ep2"
  using sent
proof (cases rule: send_raw_cases)
  case whole
  then have ins: "insert i (fst ` set as) = {0}" using all(1) by (simp add: lessThan_Suc)
  then have i: "i = 0" using insertI1 [of i "fst ` set as"] by simp
  have "fst ` set as \<subseteq> {0}" using subset_insertI [of "fst ` set as" i] ins by simp
  then have "fst ` set as = {}" using all(2) i subset_singletonD by fastforce
  then have "as = []" by simp
  moreover have "recv_datagram cs cd (h # bs) addr now us ep = decode_payload_at cs cd (h # bs) addr us ep"
    using whole h by (auto simp: recv_datagram_def valid_header_def fragment_consts)
  ultimately show ?thesis using whole i by (auto simp: same_keys_def)
next
  case cut
  then have "insert i (fst ` set as) = {..<length (chunks_of 1400 bs)}" using all by (simp add: fragments_of_def)
  from recv_complete [OF cut(2) h wf new this all(2) time, of cs cd] show ?thesis
    using cut concat_chunks_of [of 1400 bs] by simp
qed

section \<open>Envelopes from end to end\<close>

text \<open>Two sessions of which the second can open the next record of the first.\<close>

definition paired :: "'k SessionCrypto \<Rightarrow> 'k SessionCrypto \<Rightarrow> bool" where
  "paired c h \<longleftrightarrow> send_key c = receive_key h \<and> session_id c = session_id h \<and> length (session_id h) = 16 \<and>
     send_direction c \<noteq> send_direction h \<and> send_direction c \<le> 1 \<and> \<not> exhausted h \<and>
     (\<exists>v. window_rel (received h) v \<and> spec_admits v (unat (next_sequence c)))"

lemma fresh_paired:
  assumes c: "for_session cs psk t sid role = Ok c" and h: "for_session cs psk t sid role' = Ok h"
    and "role \<noteq> role'" "length sid = 16"
  shows "paired c h"
proof -
  have "send_direction c \<noteq> send_direction h" "send_direction c \<le> 1"
    using for_session_fields(6) [OF c] for_session_fields(6) [OF h] assms(3) by (cases role; cases role'; simp)+
  moreover have "window_rel (received h) (0, {})" "spec_admits (0, {}) (unat (next_sequence c))"
    using for_session_fields [OF h] for_session_fields [OF c] by (simp_all add: window_default_rel spec_admits_def)
  ultimately show ?thesis
    using for_session_fields [OF c] for_session_fields [OF h] peer_keys [OF c h assms(3)] assms(4) unfolding paired_def by auto
qed

text \<open>What one sealed message of the sender becomes at the receiver.\<close>

lemma sealed_message_received:
  fixes cs :: "('k, 'm) crypto_suite_scheme" and cd :: "'e wire_codec"
  assumes suite: "suite_ok cs" and keys: "peer_key tx target = Some c" "peer_key rx addr = Some h" "paired c h"
    and sent: "send_multiplexed cs fid hb bs target tx = (tx', Ok ds :: (_, 'e UdpError) result)"
    and hb: "hb \<noteq> MULTIPLEX_ENCRYPTED"
    and new: "hash_wf (ep_fragments rx)" "map_of (ep_fragments rx) (addr, MULTIPLEX_ENCRYPTED, fid) = None"
    and all: "insert i (fst ` set as) = {..<length ds}" "i \<notin> fst ` set as" "timely lo (as @ [(i, now, us)])"
  shows "\<exists>ep1 ep2. recv_run cs cd addr rx (map (arrival ds) as) = Some (ep1, replicate (length as) RContinue) \<and>
    recv_datagram cs cd (ds ! i) addr now us ep1 =
      (case decode_clear cd (hb # bs) addr (Some (session_id h)) us of
         Inl e \<Rightarrow> Some (ep2, RRejected addr e) | Inr None \<Rightarrow> Some (ep2, RContinue) | Inr (Some p) \<Rightarrow> Some (ep2, RPacket p))"
proof -
  obtain c' r where r: "seal cs c (hb # bs) = (c', Ok r)" "send_raw fid MULTIPLEX_ENCRYPTED r = (Ok ds :: (_, 'e UdpError) result)"
    using sent keys(1) by (auto simp: send_multiplexed_def split: prod.splits sum.splits)
  have "sealed_as cs (receive_key h) (session_id h) (send_direction c) (next_sequence c) (hb # bs) r"
    using seal_ok [OF r(1)] keys(3) unat_max_sequence
    by (auto simp: sealed_as_def paired_def word_le_nat_alt)
  moreover obtain v where "window_rel (received h) v" "spec_admits v (unat (next_sequence c))" using keys(3) unfolding paired_def by blast
  ultimately obtain w where op: "record_open cs h r = Some (h\<lparr>received := w\<rparr>, Ok (hb # bs))"
    using open_sealed [OF suite, of h "send_direction c" "next_sequence c" "hb # bs" r v] keys(3) by (auto simp: paired_def)
  from message_received [OF r(2) _ new all, of cs cd] obtain ep1 ep2 where ep:
    "recv_run cs cd addr rx (map (arrival ds) as) = Some (ep1, replicate (length as) RContinue)"
    "recv_datagram cs cd (ds ! i) addr now us ep1 = decode_payload_at cs cd (MULTIPLEX_ENCRYPTED # r) addr us ep2"
    "same_keys rx ep2" by (auto simp: valid_header_def)
  have "peer_key ep2 addr = Some h" using ep(3) keys(2) by (simp add: peer_key_same)
  then have "decode_payload_inner cs cd (MULTIPLEX_ENCRYPTED # r) addr None us ep2 =
      Some (put_key addr (h\<lparr>received := w\<rparr>) ep2, decode_clear cd (hb # bs) addr (Some (session_id h)) us)"
    using op hb by (simp add: decode_inner_sealed decode_inner_authenticated)
  then show ?thesis using ep(1,2) by (auto simp: decode_payload_at_def split: sum.splits option.splits)
qed

text \<open>The packet a viewer gets for an envelope: the compact form keeps the host's timing, bincode skips it.\<close>

definition delivered :: "DataEnvelope \<Rightarrow> 'a \<Rightarrow> 'a MultiplexedPacket" where
  "delivered e addr = (case (encode_compact_realtime_with_timing (env_transport_timing e) e, env_transport_timing e) of
     (Inr _, Some t) \<Rightarrow> MP_DataWithTiming (e\<lparr>env_transport_timing := Some (host_part t)\<rparr>) (Some (host_part t)) addr
   | _ \<Rightarrow> MP_Data (e\<lparr>env_transport_timing := None\<rparr>) addr)"

text \<open>
  C2. An envelope from end to end.  Between two ends of a session, an envelope that was sent is delivered:
  whether it goes out compact or in bincode, sealed and cut into fragments that arrive in any order with
  duplicates, the receiver returns nothing until the last missing fragment and then this envelope, with
  the host's half of its timing where the compact form carries one.
\<close>

theorem envelope_delivered:
  fixes cs :: "('k, 'm) crypto_suite_scheme" and cd :: "'e wire_codec"
  assumes suite: "suite_ok cs"
    and bincode: "\<forall>e bs. envelope_encode cd e = Ok bs \<longrightarrow> envelope_decode cd bs = Ok (e\<lparr>env_transport_timing := None\<rparr>)"
    and keys: "peer_key tx target = Some c" "peer_key rx addr = Some h" "paired c h"
    and sent: "send_data cs cd fid env target tx = (tx', Ok ds)"
    and version: "dh_version (env_header env) = COMPACT_REALTIME_WIRE_VERSION"
    and new: "hash_wf (ep_fragments rx)" "map_of (ep_fragments rx) (addr, MULTIPLEX_ENCRYPTED, fid) = None"
    and all: "insert i (fst ` set as) = {..<length ds}" "i \<notin> fst ` set as" "timely lo (as @ [(i, now, us)])"
  shows "\<exists>ep1 ep2. recv_run cs cd addr rx (map (arrival ds) as) = Some (ep1, replicate (length as) RContinue) \<and>
    recv_datagram cs cd (ds ! i) addr now us ep1 = Some (ep2, RPacket (delivered env addr))"
proof -
  let ?t = "env_transport_timing env"
  have "\<exists>hb bs. hb \<noteq> MULTIPLEX_ENCRYPTED \<and> send_multiplexed cs fid hb bs target tx = (tx', Ok ds :: (_, 'e UdpError) result) \<and>
      decode_clear cd (hb # bs) addr (Some (session_id h)) us = (Ok (Some (delivered env addr)) :: (_, 'e UdpError) result)"
  proof (cases "encode_compact_realtime_with_timing ?t env")
    case (Inr bs)
    then have "send_multiplexed cs fid 5 bs target tx = (tx', Ok ds :: (_, 'e UdpError) result)"
      using sent by (simp add: send_data_def send_data_with_timing_def Let_def split: option.splits)
    moreover have "decode_clear cd (5 # bs) addr (Some (session_id h)) us = (Ok (Some (delivered env addr)) :: (_, 'e UdpError) result)"
      using compact_roundtrip [OF Inr version] Inr by (cases ?t) (simp_all add: decode_clear_def delivered_def)
    moreover have "(5 :: u8) \<noteq> MULTIPLEX_ENCRYPTED" by (simp add: MULTIPLEX_ENCRYPTED_def)
    ultimately show ?thesis by blast
  next
    case (Inl err)
    then obtain bs where bs: "envelope_encode cd env = Ok bs"
      "send_multiplexed cs fid 4 bs target tx = (tx', Ok ds :: (_, 'e UdpError) result)"
      using sent by (auto simp: send_data_def send_data_with_timing_def Let_def
          split: option.splits CompactRealtimeError.splits sum.splits)
    then have "decode_clear cd (4 # bs) addr (Some (session_id h)) us = (Ok (Some (delivered env addr)) :: (_, 'e UdpError) result)"
      using bincode Inl by (simp add: decode_clear_def delivered_def)
    moreover have "(4 :: u8) \<noteq> MULTIPLEX_ENCRYPTED" by (simp add: MULTIPLEX_ENCRYPTED_def)
    ultimately show ?thesis using bs(2) by blast
  qed
  then obtain hb bs where hb: "hb \<noteq> MULTIPLEX_ENCRYPTED"
    and out: "send_multiplexed cs fid hb bs target tx = (tx', Ok ds :: (_, 'e UdpError) result)"
    and dec: "decode_clear cd (hb # bs) addr (Some (session_id h)) us = (Ok (Some (delivered env addr)) :: (_, 'e UdpError) result)"
    by blast
  from sealed_message_received [OF suite keys out hb new all, of cd] dec show ?thesis by auto
qed

section \<open>A demonstration endpoint\<close>

definition demo_object :: DataEnvelope where
  "demo_object = envelope_new Lane_Reliable Kind_ClipboardText 3 1 100 [5, 6]"

definition demo_codec :: "unit wire_codec" where
  "demo_codec = \<lparr>rtp_encode = (\<lambda>_. Err ()), rtp_decode = (\<lambda>_. Err ()),
     control_encode = (\<lambda>m. if m = CM_SessionReject ''busy'' then Ok [1] else Err ()),
     control_decode = (\<lambda>bs. if bs = [1] then Ok (CM_SessionReject ''busy'') else Err ()),
     envelope_encode = (\<lambda>e. if e\<lparr>env_transport_timing := None\<rparr> = demo_object then Ok [2] else Err ()),
     envelope_decode = (\<lambda>bs. if bs = [2] then Ok demo_object else Err ())\<rparr>"

definition demo_endpoint :: "SessionRole \<Rightarrow> (nat, bytes) UdpEndpoint" where
  "demo_endpoint role = install_peer_crypto 9 (demo_end role) udp_split"

lemma demo_endpoint_key: "peer_key (demo_endpoint role) 9 = Some (demo_end role)"
  by (simp add: demo_endpoint_def install_peer_crypto_def udp_split_def peer_key_def)

lemma demo_endpoint_fragments: "ep_fragments (demo_endpoint role) = []"
  by (simp add: demo_endpoint_def install_peer_crypto_def udp_split_def)

definition demo_cache :: "nat FragmentMap" where
  "demo_cache = map (\<lambda>i. ((0, 1, word_of_nat i), fragment_entry_new 2 i)) [0..<11]"

theorem cache_limit_evicts_oldest_witness:
  "length (enforce_fragment_cache_limit (0, 1, 5) demo_cache) \<le> 10 \<and> map_of (enforce_fragment_cache_limit (0, 1, 5) demo_cache) (0, 1, 5) \<noteq> None"
proof -
  have "hash_wf demo_cache" by (simp add: demo_cache_def hash_wf_def upt_rec)
  then show ?thesis
    using cache_limit_evicts_oldest [of demo_cache "(0, 1, 5)"] by (simp add: demo_cache_def upt_rec)
qed

theorem encrypted_peer_policy_witness:
  "\<exists>p. decode_payload_at demo_suite demo_codec [2, 1] 9 0 (demo_endpoint Host) = Some (demo_endpoint Host, RPacket p) \<and>
     (\<exists>m. p = MP_Control m 9 \<and> is_handshake m)"
proof -
  have "decode_payload_at demo_suite demo_codec [2, 1] 9 0 (demo_endpoint Host) =
      Some (demo_endpoint Host, RPacket (MP_Control (CM_SessionReject ''busy'') 9))"
    by (simp add: decode_payload_at_def decode_inner_clear plaintext_refused_def MULTIPLEX_ENCRYPTED_def demo_codec_def
        is_handshake_def decode_clear_def decode_control_def)
  from encrypted_peer_policy [OF demo_endpoint_key this] this show ?thesis
    by (auto simp: MULTIPLEX_ENCRYPTED_def)
qed

lemma message_received_demo:
  "\<exists>ds ep1. send_raw 77 4 (replicate 1401 7) = (Ok ds :: (_, unit UdpError) result) \<and> length ds = 2 \<and>
     recv_run demo_suite demo_codec 9 (demo_endpoint Host) (map (arrival ds) [(1, 10, 0), (1, 11, 0)]) = Some (ep1, [RContinue, RContinue])"
proof -
  obtain ds where ds: "send_raw 77 4 (replicate 1401 7) = (Ok ds :: (_, unit UdpError) result)" "length ds = 2"
    by (simp add: send_raw_def fragment_consts Let_def length_chunks_of)
  have "insert 0 (fst ` set [(1, 10, 0), (1, 11, 0)]) = {..<length ds}" "(0 :: nat) \<notin> fst ` set [(1, 10, 0), (1, 11, 0)]"
    "timely 10 ([(1, 10, 0), (1, 11, 0)] @ [(0, 12, 0)])"
    by (auto simp: ds timely_def fragment_consts less_2_cases_iff)
  from message_received [OF ds(1) _ _ _ this, of "demo_endpoint Host" 9 demo_suite demo_codec] show ?thesis
    using ds by (auto simp: demo_endpoint_fragments hash_wf_def valid_header_def numeral_2_eq_2)
qed

text \<open>The record that carries the demonstration object fits one datagram.\<close>

lemma demo_object_sent:
  "\<exists>tx d. send_data demo_suite demo_codec 77 demo_object 9 (demo_endpoint Client) = (tx, Ok [d])"
proof -
  have "encode_compact_realtime_with_timing None demo_object = Err (NonRealtimeLane Lane_Reliable)"
    by (simp add: demo_object_def envelope_new_def encode_compact_realtime_with_timing_def from_data_header_def lane_is_realtime_def)
  moreover have "env_transport_timing demo_object = None" "envelope_encode demo_codec demo_object = Ok [2]"
    by (simp_all add: demo_codec_def) (simp_all add: demo_object_def envelope_new_def)
  moreover have "\<exists>c r. seal demo_suite (demo_end Client) [4, 2] = (c, Ok r) \<and> length r = 44"
    using record_header_fields(1) [of "replicate 16 7"]
    by (simp add: seal_def demo_suite_def demo_tag_def for_session_fields [OF demo_end_ok] Let_def MAX_RECORD_PLAINTEXT_def MAX_RECORD_SEQUENCE_def
        push_bit_eq_mult)
  ultimately show ?thesis
    by (auto simp: send_data_def send_data_with_timing_def send_multiplexed_def demo_endpoint_key send_raw_def fragment_consts)
qed

theorem envelope_delivered_witness:
  "\<exists>tx d ep2. send_data demo_suite demo_codec 77 demo_object 9 (demo_endpoint Client) = (tx, Ok [d]) \<and>
     recv_datagram demo_suite demo_codec d 9 5 0 (demo_endpoint Host) = Some (ep2, RPacket (MP_Data demo_object 9))"
proof -
  obtain tx d where sent: "send_data demo_suite demo_codec 77 demo_object 9 (demo_endpoint Client) = (tx, Ok [d])"
    using demo_object_sent by blast
  have codec: "\<forall>e bs. envelope_encode demo_codec e = Ok bs \<longrightarrow> envelope_decode demo_codec bs = Ok (e\<lparr>env_transport_timing := None\<rparr>)"
    by (simp add: demo_codec_def)
  have pair: "paired (demo_end Client) (demo_end Host)"
    by (rule fresh_paired [OF demo_end_ok demo_end_ok]) simp_all
  have v: "dh_version (env_header demo_object) = COMPACT_REALTIME_WIRE_VERSION"
    by (simp add: demo_object_def envelope_new_def COMPACT_REALTIME_WIRE_VERSION_def)
  have new: "hash_wf (ep_fragments (demo_endpoint Host))"
    "map_of (ep_fragments (demo_endpoint Host)) (9, MULTIPLEX_ENCRYPTED, 77) = None"
    by (simp_all add: demo_endpoint_fragments hash_wf_def)
  have all: "insert 0 (fst ` set []) = {..<length [d]}" "0 \<notin> fst ` set []" "timely 5 ([] @ [(0, 5, 0)])"
    by (auto simp: timely_def)
  have "delivered demo_object 9 = MP_Data demo_object 9"
    by (simp add: delivered_def demo_object_def envelope_new_def split: sum.splits)
  with envelope_delivered [OF demo_suite_ok codec demo_endpoint_key demo_endpoint_key pair sent v new all] sent show ?thesis
    by auto
qed

end
