(* ===== verification/Session_Tabs.thy ===== *)
theory Session_Tabs
  imports Base "HOL-Library.List_Lexorder" "HOL-Library.Char_ord"
begin

text \<open>
  Session tabs (\<open>remote_core/src/session_tabs.rs\<close>): which of the open connections is shown, which
  connections are being opened, and what a completed attempt may still do.

  The owner (\<open>app/src/desktop/original_owner.rs\<close>) keeps this state beside the vector of its sessions under
  one lock.  The theory models both: the tab state with all its operations, and the owner's steps on the
  pair as far as they touch it.  A socket address is a type parameter, the health of a session an argument.
\<close>

section \<open>State\<close>

definition MAX_CONNECTIONS :: nat where "MAX_CONNECTIONS = 8"

record 'a SessionPeer =
  device_id :: string
  peer_name :: string
  endpoint :: 'a

record SessionHealth =
  connected :: bool
  peer_responsive :: bool
  video_failed :: bool

definition reusable :: "SessionHealth \<Rightarrow> bool" where
  "reusable h \<longleftrightarrow> connected h \<and> peer_responsive h \<and> \<not> video_failed h"

record SessionCandidate =
  candidate_index :: nat
  health :: SessionHealth

record 'a ConnectingSession =
  cs_peer :: "'a SessionPeer"
  cs_attempt :: u64

record FailedSession =
  fs_device_id :: string
  fs_name :: string
  fs_attempt :: u64

datatype OpenDecision = Reuse nat | AlreadyPending | Start u64 | AtCapacity | GenerationExhausted

record OpenPlan =
  retire_index :: "nat option"
  decision :: OpenDecision

datatype Completion = Cancelled | Selected | Background

record 'a SessionTabsState =
  selected :: nat
  pending :: "(string \<times> u64) list"
  intent :: "string option"
  next_attempt :: u64
  connecting :: "'a ConnectingSession option"
  failed :: "FailedSession option"

definition tabs_default :: "'a SessionTabsState" where
  "tabs_default = \<lparr>selected = 0, pending = [], intent = None, next_attempt = 0, connecting = None, failed = None\<rparr>"

section \<open>Operations\<close>

definition active_index :: "'a SessionTabsState \<Rightarrow> nat \<Rightarrow> nat option" where
  "active_index t sessions = (if connecting t = None \<and> selected t < sessions then Some (selected t) else None)"

definition pending_attempt :: "'a SessionTabsState \<Rightarrow> string \<Rightarrow> u64 option" where
  "pending_attempt t key = map_of (pending t) key"

definition reject_open :: "string \<Rightarrow> string \<Rightarrow> nat \<Rightarrow> 'a SessionTabsState \<Rightarrow> 'a SessionTabsState \<times> u64 option" where
  "reject_open key name sessions t =
     (let t1 = t\<lparr>pending := bt_remove key (pending t), intent := Some key, connecting := None, selected := sessions,
                 failed := None\<rparr> in
      case checked_add (next_attempt t) 1 of
        None \<Rightarrow> (t1, None)
      | Some attempt \<Rightarrow> (t1\<lparr>next_attempt := attempt,
          failed := Some \<lparr>fs_device_id = key, fs_name = name, fs_attempt = attempt\<rparr>\<rparr>, Some attempt))"

definition dismiss_failure :: "'a SessionTabsState \<Rightarrow> 'a SessionTabsState" where
  "dismiss_failure t = t\<lparr>failed := None\<rparr>"

definition pending_count :: "'a SessionTabsState \<Rightarrow> nat" where
  "pending_count t = length (pending t)"

definition can_change_network :: "'a SessionTabsState \<Rightarrow> nat \<Rightarrow> bool" where
  "can_change_network t sessions \<longleftrightarrow> sessions = 0 \<and> pending t = []"

definition tabs_select :: "nat \<Rightarrow> string \<Rightarrow> nat \<Rightarrow> 'a SessionTabsState \<Rightarrow> 'a SessionTabsState \<times> bool" where
  "tabs_select index key sessions t =
     (if index \<ge> sessions then (t, False)
      else (t\<lparr>selected := index, intent := Some key, connecting := None, failed := None\<rparr>, True))"

definition close_index :: "nat \<Rightarrow> nat \<Rightarrow> 'a SessionTabsState \<Rightarrow> 'a SessionTabsState \<times> bool" where
  "close_index index sessions t =
     (if index \<ge> sessions then (t, False)
      else let remaining = sessions - 1 in
        (t\<lparr>selected := (if selected t \<ge> sessions then remaining
                        else if remaining = 0 then 0
                        else min (selected t - of_bool (selected t > index)) (remaining - 1))\<rparr>, True))"

text \<open>The second half of \<open>plan_open\<close>, after a broken session of the device was retired.\<close>

definition plan_start :: "'a SessionPeer \<Rightarrow> nat \<Rightarrow> 'a SessionTabsState \<Rightarrow> 'a SessionTabsState \<times> OpenDecision" where
  "plan_start peer sessions t =
     (case map_of (pending t) (device_id peer) of
        Some attempt \<Rightarrow> (t\<lparr>intent := Some (device_id peer), connecting := Some \<lparr>cs_peer = peer, cs_attempt = attempt\<rparr>\<rparr>, AlreadyPending)
      | None \<Rightarrow>
          if sessions + length (pending t) \<ge> MAX_CONNECTIONS then (t, AtCapacity)
          else (case checked_add (next_attempt t) 1 of
              Some attempt \<Rightarrow> (t\<lparr>next_attempt := attempt, intent := Some (device_id peer),
                  pending := bt_insert (device_id peer) attempt (pending t),
                  connecting := Some \<lparr>cs_peer = peer, cs_attempt = attempt\<rparr>\<rparr>, Start attempt)
            | None \<Rightarrow> (t, GenerationExhausted)))"

definition plan_open :: "'a SessionPeer \<Rightarrow> SessionCandidate option \<Rightarrow> nat \<Rightarrow> 'a SessionTabsState \<Rightarrow>
    'a SessionTabsState \<times> OpenPlan" where
  "plan_open peer existing0 sessions0 t0 =
     (let t = t0\<lparr>failed := None\<rparr>;
          existing = (case existing0 of Some c \<Rightarrow> if candidate_index c < sessions0 then Some c else None | None \<Rightarrow> None) in
      case existing of
        Some c \<Rightarrow> if reusable (health c)
          then (fst (tabs_select (candidate_index c) (device_id peer) sessions0 t),
                \<lparr>retire_index = None, decision = Reuse (candidate_index c)\<rparr>)
          else apsnd (\<lambda>d. \<lparr>retire_index = Some (candidate_index c), decision = d\<rparr>)
                 (plan_start peer (sessions0 - 1) (fst (close_index (candidate_index c) sessions0 t)))
      | None \<Rightarrow> apsnd (\<lambda>d. \<lparr>retire_index = None, decision = d\<rparr>) (plan_start peer sessions0 t))"

definition complete :: "string \<Rightarrow> u64 \<Rightarrow> bool \<Rightarrow> nat \<Rightarrow> 'a SessionTabsState \<Rightarrow> 'a SessionTabsState \<times> Completion" where
  "complete key attempt success sessions t =
     (if map_of (pending t) key \<noteq> Some attempt then (t, Cancelled)
      else let t1 = t\<lparr>pending := bt_remove key (pending t)\<rparr> in
        case connecting t of
          None \<Rightarrow> (t1, Background)
        | Some c \<Rightarrow>
            if intent t \<noteq> Some key \<or> device_id (cs_peer c) \<noteq> key \<or> cs_attempt c \<noteq> attempt then (t1, Background)
            else (if success then t1\<lparr>connecting := None\<rparr>
                  else t1\<lparr>connecting := None, selected := sessions,
                          failed := Some \<lparr>fs_device_id = device_id (cs_peer c), fs_name = peer_name (cs_peer c),
                                          fs_attempt = attempt\<rparr>\<rparr>, Selected))"

definition attached :: "Completion \<Rightarrow> nat \<Rightarrow> 'a SessionTabsState \<Rightarrow> 'a SessionTabsState" where
  "attached completion sessions t =
     (if sessions = 0 \<or> completion = Cancelled then t
      else if completion = Selected then t\<lparr>selected := sessions - 1\<rparr>
      else if selected t \<ge> sessions - 1
      then t\<lparr>selected := (if sessions = 1 \<and> (intent t = None \<or> connecting t \<noteq> None) then 0 else sessions)\<rparr>
      else t)"

definition disconnect :: "nat \<Rightarrow> 'a SessionTabsState \<Rightarrow> 'a SessionTabsState \<times> nat option" where
  "disconnect sessions t =
     (if failed t \<noteq> None then (t\<lparr>failed := None\<rparr>, None)
      else let cancelling = connecting t \<noteq> None;
               t1 = t\<lparr>connecting := None, intent := None,
                      pending := (case intent t of Some key \<Rightarrow> bt_remove key (pending t) | None \<Rightarrow> pending t)\<rparr>;
               index = selected t1 in
        if cancelling then (t1, None)
        else case close_index index sessions t1 of (t2, True) \<Rightarrow> (t2, Some index) | (t2, False) \<Rightarrow> (t2, None))"

definition tabs_clear :: "'a SessionTabsState \<Rightarrow> 'a SessionTabsState" where
  "tabs_clear t = t\<lparr>pending := [], intent := None, connecting := None, failed := None, selected := 0\<rparr>"

section \<open>View model\<close>

record SessionFacts =
  sf_connection_id :: u32
  sf_device_id :: string
  sf_name :: string
  sf_connected :: bool
  sf_video_confirmed :: bool
  sf_has_media :: bool

datatype ConnectionStatus = Status_Connecting | Status_Connected | Status_Disconnected

record SessionTabViewModel =
  tv_connection_id :: u32
  tv_device_id :: string
  tv_label :: string
  tv_selected :: bool
  tv_connection :: ConnectionStatus

record 'a SessionTabsViewModel =
  vm_tabs :: "SessionTabViewModel list"
  vm_can_disconnect :: bool
  vm_can_reconnect :: bool
  vm_failed :: "FailedSession option"
  vm_connecting :: "'a ConnectingSession option"

definition tab_view :: "nat \<Rightarrow> nat \<Rightarrow> SessionFacts \<Rightarrow> SessionTabViewModel" where
  "tab_view sel index f = \<lparr>tv_connection_id = sf_connection_id f, tv_device_id = sf_device_id f, tv_label = sf_name f,
     tv_selected = (index = sel),
     tv_connection = (if \<not> sf_connected f then Status_Disconnected
                      else if sf_video_confirmed f \<and> sf_has_media f then Status_Connected else Status_Connecting)\<rparr>"

definition project :: "SessionFacts list \<Rightarrow> 'a SessionTabsState \<Rightarrow> 'a SessionTabsViewModel" where
  "project sessions t =
     (let tabs = map (\<lambda>(i, f). tab_view (selected t) i f) (enumerate 0 sessions);
          active = active_index t (length tabs) \<noteq> None in
      \<lparr>vm_tabs = tabs, vm_can_disconnect = (active \<or> connecting t \<noteq> None \<or> failed t \<noteq> None),
       vm_can_reconnect = (active \<or> failed t \<noteq> None \<and> connecting t = None \<and> length tabs + length (pending t) < MAX_CONNECTIONS),
       vm_failed = failed t, vm_connecting = connecting t\<rparr>)"

datatype SessionTabsAction = Act_Select u32 | Act_Close u32 | Act_Disconnect | Act_Reconnect
datatype SessionTabsEffect = Eff_Select u32 | Eff_Close u32 | Eff_Disconnect | Eff_Reconnect

definition effect :: "'a SessionTabsViewModel \<Rightarrow> SessionTabsAction \<Rightarrow> SessionTabsEffect option" where
  "effect vm a = (case a of
     Act_Select i \<Rightarrow> if \<exists>tab\<in>set (vm_tabs vm). tv_connection_id tab = i then Some (Eff_Select i) else None
   | Act_Close i \<Rightarrow> if \<exists>tab\<in>set (vm_tabs vm). tv_connection_id tab = i then Some (Eff_Close i) else None
   | Act_Disconnect \<Rightarrow> if vm_can_disconnect vm then Some Eff_Disconnect else None
   | Act_Reconnect \<Rightarrow> if vm_can_reconnect vm then Some Eff_Reconnect else None)"

section \<open>Command tickets\<close>

text \<open>\<open>SessionCommandState\<close> is its revision, \<open>CommandTicket\<close> the revision it was taken at.\<close>

type_synonym SessionCommandState = u64
type_synonym CommandTicket = u64

definition begin_command :: "SessionCommandState \<Rightarrow> SessionCommandState \<times> CommandTicket" where
  "begin_command r = (r + 1, r + 1)"

definition is_current :: "SessionCommandState \<Rightarrow> CommandTicket \<Rightarrow> bool" where
  "is_current r ticket \<longleftrightarrow> r = ticket"

section \<open>The owner\<close>

text \<open>The owner's pool: its sessions by connection id and device key, in tab order.\<close>

record 'a Pool =
  p_sessions :: "(u32 \<times> string) list"
  p_tabs :: "'a SessionTabsState"

fun position :: "('b \<Rightarrow> bool) \<Rightarrow> 'b list \<Rightarrow> nat option" where
  "position P [] = None"
| "position P (x # xs) = (if P x then Some 0 else map_option Suc (position P xs))"

definition remove_nth :: "nat \<Rightarrow> 'b list \<Rightarrow> 'b list" where
  "remove_nth i xs = take i xs @ drop (Suc i) xs"

definition pool_open :: "'a SessionPeer \<Rightarrow> SessionHealth \<Rightarrow> 'a Pool \<Rightarrow> 'a Pool \<times> OpenDecision" where
  "pool_open peer h p =
     (let existing = map_option (\<lambda>i. \<lparr>candidate_index = i, health = h\<rparr>) (position (\<lambda>s. snd s = device_id peer) (p_sessions p));
          (t, plan) = plan_open peer existing (length (p_sessions p)) (p_tabs p) in
      (p\<lparr>p_tabs := t, p_sessions := (case retire_index plan of Some i \<Rightarrow> remove_nth i (p_sessions p) | None \<Rightarrow> p_sessions p)\<rparr>,
       decision plan))"

definition pool_complete :: "string \<Rightarrow> u64 \<Rightarrow> bool \<Rightarrow> u32 \<Rightarrow> 'a Pool \<Rightarrow> 'a Pool \<times> Completion" where
  "pool_complete key attempt success conn p =
     (let (t, completion) = complete key attempt success (length (p_sessions p)) (p_tabs p) in
      if completion = Cancelled \<or> \<not> success then (p\<lparr>p_tabs := t\<rparr>, completion)
      else let sessions = p_sessions p @ [(conn, key)] in
        (p\<lparr>p_sessions := sessions, p_tabs := attached completion (length sessions) t\<rparr>, completion))"

definition pool_reject :: "string \<Rightarrow> string \<Rightarrow> 'a Pool \<Rightarrow> 'a Pool" where
  "pool_reject key name p = p\<lparr>p_tabs := fst (reject_open key name (length (p_sessions p)) (p_tabs p))\<rparr>"

definition pool_select :: "u32 \<Rightarrow> 'a Pool \<Rightarrow> 'a Pool" where
  "pool_select conn p = (case position (\<lambda>s. fst s = conn) (p_sessions p) of None \<Rightarrow> p
     | Some i \<Rightarrow> p\<lparr>p_tabs := fst (tabs_select i (snd (p_sessions p ! i)) (length (p_sessions p)) (p_tabs p))\<rparr>)"

definition pool_close :: "u32 \<Rightarrow> 'a Pool \<Rightarrow> 'a Pool" where
  "pool_close conn p = (case position (\<lambda>s. fst s = conn) (p_sessions p) of None \<Rightarrow> p
     | Some i \<Rightarrow> (case close_index i (length (p_sessions p)) (p_tabs p) of
         (t, True) \<Rightarrow> p\<lparr>p_tabs := t, p_sessions := remove_nth i (p_sessions p)\<rparr>
       | (t, False) \<Rightarrow> p\<lparr>p_tabs := t\<rparr>))"

definition pool_disconnect :: "'a Pool \<Rightarrow> 'a Pool" where
  "pool_disconnect p = (case disconnect (length (p_sessions p)) (p_tabs p) of
     (t, Some i) \<Rightarrow> p\<lparr>p_tabs := t, p_sessions := remove_nth i (p_sessions p)\<rparr>
   | (t, None) \<Rightarrow> p\<lparr>p_tabs := t\<rparr>)"

definition pool_dismiss :: "'a Pool \<Rightarrow> 'a Pool" where
  "pool_dismiss p = p\<lparr>p_tabs := dismiss_failure (p_tabs p)\<rparr>"

definition pool_clear :: "'a Pool \<Rightarrow> 'a Pool" where
  "pool_clear p = p\<lparr>p_tabs := tabs_clear (p_tabs p), p_sessions := []\<rparr>"

datatype 'a pool_op =
  PO_Open "'a SessionPeer" SessionHealth | PO_Complete string u64 bool u32 | PO_Reject string string
| PO_Select u32 | PO_Close u32 | PO_Disconnect | PO_Dismiss | PO_Clear

text \<open>A step, and the attempt whose result it took (an attempt that was not cancelled).\<close>

definition pool_step :: "'a Pool \<Rightarrow> 'a pool_op \<Rightarrow> 'a Pool \<times> u64 option" where
  "pool_step p x = (case x of
     PO_Open peer h \<Rightarrow> (fst (pool_open peer h p), None)
   | PO_Complete key a ok conn \<Rightarrow> (case pool_complete key a ok conn p of (p', c) \<Rightarrow> (p', if c = Cancelled then None else Some a))
   | PO_Reject key name \<Rightarrow> (pool_reject key name p, None)
   | PO_Select conn \<Rightarrow> (pool_select conn p, None)
   | PO_Close conn \<Rightarrow> (pool_close conn p, None)
   | PO_Disconnect \<Rightarrow> (pool_disconnect p, None)
   | PO_Dismiss \<Rightarrow> (pool_dismiss p, None)
   | PO_Clear \<Rightarrow> (pool_clear p, None))"

definition pool_new :: "'a Pool" where
  "pool_new = \<lparr>p_sessions = [], p_tabs = tabs_default\<rparr>"

section \<open>Invariant\<close>

definition pending_ok :: "(string \<times> u64) list \<Rightarrow> u64 \<Rightarrow> bool" where
  "pending_ok m n \<longleftrightarrow> bt_wf m \<and> inj_on (map_of m) (dom (map_of m)) \<and> (\<forall>k a. map_of m k = Some a \<longrightarrow> a \<le> n)"

definition tabs_inv :: "nat \<Rightarrow> 'a SessionTabsState \<Rightarrow> bool" where
  "tabs_inv sessions t \<longleftrightarrow> pending_ok (pending t) (next_attempt t) \<and> sessions + length (pending t) \<le> MAX_CONNECTIONS \<and>
     selected t \<le> sessions \<and>
     (\<forall>c. connecting t = Some c \<longrightarrow> intent t = Some (device_id (cs_peer c)) \<and>
        map_of (pending t) (device_id (cs_peer c)) = Some (cs_attempt c))"

definition pool_inv :: "'a Pool \<Rightarrow> bool" where
  "pool_inv p \<longleftrightarrow> tabs_inv (length (p_sessions p)) (p_tabs p)"

text \<open>An attempt number that can no longer be completed.\<close>

definition spent :: "'a Pool \<Rightarrow> u64 \<Rightarrow> bool" where
  "spent p a \<longleftrightarrow> a \<le> next_attempt (p_tabs p) \<and> (\<forall>k. map_of (pending (p_tabs p)) k \<noteq> Some a)"

lemma checked_succ: "checked_add n 1 = Some a \<longleftrightarrow> n < a \<and> a = n + 1" for n :: u64
  by (auto simp: checked_add_Some word_less_nat_alt unat_word_ariths)

lemma pending_ok_remove: "pending_ok m n \<Longrightarrow> pending_ok (bt_remove k m) n"
  by (auto simp: pending_ok_def bt_wf_remove map_of_bt_remove inj_on_def dom_def split: if_splits)

lemma pending_ok_insert:
  assumes "pending_ok m n" "n < a"
  shows "pending_ok (bt_insert k a m) a"
proof -
  have le: "map_of m j = Some b \<Longrightarrow> b \<le> n" for j b using assms(1) by (simp add: pending_ok_def)
  have "inj_on ((map_of m)(k \<mapsto> a)) (dom ((map_of m)(k \<mapsto> a)))"
    using assms le by (fastforce simp: pending_ok_def inj_on_def dom_def split: if_splits)
  then show ?thesis
    using assms le by (auto simp: pending_ok_def bt_wf_insert map_of_bt_insert intro: less_imp_le le_less_trans)
qed

lemma length_bt_remove: "length (bt_remove k m) \<le> length m"
  by (simp add: bt_remove_def)

lemma position_less: "position P xs = Some i \<Longrightarrow> i < length xs"
  by (induction xs arbitrary: i) (auto split: if_splits)

lemma length_remove_nth [simp]: "i < length xs \<Longrightarrow> length (remove_nth i xs) = length xs - 1"
  by (simp add: remove_nth_def)

lemma close_inv: "tabs_inv n t \<Longrightarrow> i < n \<Longrightarrow> tabs_inv (n - 1) (fst (close_index i n t))"
  by (auto simp: tabs_inv_def close_index_def Let_def)

lemma select_inv: "tabs_inv n t \<Longrightarrow> tabs_inv n (fst (tabs_select i key n t))"
  by (auto simp: tabs_inv_def tabs_select_def)

lemma dismiss_inv: "tabs_inv n t \<Longrightarrow> tabs_inv n (dismiss_failure t)"
  by (simp add: tabs_inv_def dismiss_failure_def)

lemma failed_inv [simp]: "tabs_inv n (t\<lparr>failed := f\<rparr>) = tabs_inv n t"
  by (simp add: tabs_inv_def)

lemma pending_ok_mono: "pending_ok m n \<Longrightarrow> n \<le> n' \<Longrightarrow> pending_ok m n'"
  by (auto simp: pending_ok_def intro: order_trans)

lemma reject_inv: "tabs_inv n t \<Longrightarrow> tabs_inv n (fst (reject_open key name n t))"
  using length_bt_remove [of key "pending t"]
  by (auto simp: tabs_inv_def reject_open_def Let_def checked_succ pending_ok_remove
      split: option.splits intro!: pending_ok_remove intro: pending_ok_mono less_imp_le)

lemma plan_start_inv:
  assumes "tabs_inv n t"
  shows "tabs_inv n (fst (plan_start peer n t))"
proof (cases "map_of (pending t) (device_id peer)")
  case (Some a)
  then show ?thesis using assms by (simp add: tabs_inv_def plan_start_def)
next
  case None
  then have "Suc (length (pending t)) = length (bt_insert (device_id peer) a (pending t))" for a
    using assms btree.size_ins_new [of "pending t" "device_id peer" a] by (simp add: tabs_inv_def pending_ok_def)
  then show ?thesis
    using assms None
    by (auto simp: tabs_inv_def plan_start_def checked_succ pending_ok_insert map_of_bt_insert pending_ok_def [of "pending t"]
        split: option.splits)
qed

lemma disconnect_inv:
  assumes "tabs_inv n t"
  shows "tabs_inv (case snd (disconnect n t) of Some i \<Rightarrow> n - 1 | None \<Rightarrow> n) (fst (disconnect n t))"
proof -
  let ?m = "case intent t of Some key \<Rightarrow> bt_remove key (pending t) | None \<Rightarrow> pending t"
  have "pending_ok ?m (next_attempt t)" "length ?m \<le> length (pending t)"
    using assms length_bt_remove [of _ "pending t"] by (auto simp: tabs_inv_def pending_ok_remove split: option.splits)
  then have "tabs_inv n (t\<lparr>connecting := None, intent := None, pending := ?m\<rparr>)" using assms by (simp add: tabs_inv_def)
  from this close_inv [OF this, of "selected t"] show ?thesis
    using assms by (auto simp: disconnect_def Let_def close_index_def split: if_splits)
qed

text \<open>A completed attempt gives up its place, which the attached session takes.\<close>

lemma complete_inv:
  assumes inv: "tabs_inv n t" and r: "complete key a ok n t = (t', c)"
  shows "tabs_inv n t'" "c \<noteq> Cancelled \<Longrightarrow> tabs_inv (Suc n) (attached c (Suc n) t')"
proof -
  have rem: "map_of (pending t) key = Some a \<Longrightarrow> Suc (length (bt_remove key (pending t))) = length (pending t)"
    using inv by (intro btree.size_rem_old) (simp_all add: tabs_inv_def pending_ok_def)
  have keep: "tabs_inv n t'" "c \<noteq> Cancelled \<Longrightarrow> Suc n + length (pending t') \<le> MAX_CONNECTIONS"
    using inv r rem
    by (auto simp: tabs_inv_def complete_def Let_def pending_ok_remove map_of_bt_remove split: if_splits option.splits)
  then show "tabs_inv n t'" by simp
  show "tabs_inv (Suc n) (attached c (Suc n) t')" if "c \<noteq> Cancelled"
    using keep that by (auto simp: tabs_inv_def attached_def)
qed

lemma pool_open_inv:
  assumes "pool_inv p"
  shows "pool_inv (fst (pool_open peer h p))"
proof (cases "position (\<lambda>s. snd s = device_id peer) (p_sessions p)")
  case None
  let ?t = "(p_tabs p)\<lparr>failed := None\<rparr>"
  obtain t' d where "plan_start peer (length (p_sessions p)) ?t = (t', d)" by force
  then show ?thesis
    using None assms plan_start_inv [of "length (p_sessions p)" ?t peer]
    by (simp add: pool_inv_def pool_open_def plan_open_def Let_def)
next
  case (Some i)
  let ?n = "length (p_sessions p)" and ?t = "(p_tabs p)\<lparr>failed := None\<rparr>"
  have i: "i < ?n" using Some by (rule position_less)
  have t: "tabs_inv ?n ?t" using assms by (simp add: pool_inv_def)
  obtain t' d where "plan_start peer (?n - 1) (fst (close_index i ?n ?t)) = (t', d)" by force
  then show ?thesis
    using i Some select_inv [OF t] plan_start_inv [OF close_inv [OF t i], of peer]
    by (simp add: pool_inv_def pool_open_def plan_open_def Let_def)
qed

lemma pool_step_inv:
  assumes "pool_inv p"
  shows "pool_inv (fst (pool_step p x))"
proof (cases x)
  case (PO_Open peer h)
  then show ?thesis using assms pool_open_inv by (simp add: pool_step_def)
next
  case (PO_Complete key a ok conn)
  then show ?thesis
    using assms complete_inv [of "length (p_sessions p)" "p_tabs p" key a ok]
    by (auto simp: pool_step_def pool_complete_def pool_inv_def Let_def split: prod.splits)
next
  case (PO_Select conn)
  then show ?thesis using assms select_inv by (auto simp: pool_step_def pool_select_def pool_inv_def split: option.splits)
next
  case (PO_Close conn)
  then show ?thesis
    using assms close_inv [of "length (p_sessions p)" "p_tabs p"]
    by (auto simp: pool_step_def pool_close_def pool_inv_def close_index_def Let_def dest: position_less split: option.splits if_splits)
next
  case PO_Disconnect
  obtain t' r where d: "disconnect (length (p_sessions p)) (p_tabs p) = (t', r)" by force
  then have "r = Some i \<Longrightarrow> i < length (p_sessions p)" for i
    by (auto simp: disconnect_def Let_def close_index_def split: if_splits)
  then show ?thesis
    using PO_Disconnect assms disconnect_inv [of "length (p_sessions p)" "p_tabs p"] d
    by (cases r) (simp_all add: pool_step_def pool_disconnect_def pool_inv_def)
next
  case PO_Clear
  have "tabs_inv 0 (tabs_clear t)" for t :: "'a SessionTabsState" by (simp add: tabs_inv_def tabs_clear_def pending_ok_def)
  then show ?thesis using PO_Clear by (simp add: pool_step_def pool_clear_def pool_inv_def)
qed (use assms in \<open>simp_all add: pool_step_def pool_reject_def pool_dismiss_def pool_inv_def reject_inv dismiss_inv\<close>)

section \<open>Attempts are completed once\<close>

text \<open>What a step may do to the pending attempts: drop some, or add the next number.\<close>

definition attempts_step :: "'a SessionTabsState \<Rightarrow> 'a SessionTabsState \<Rightarrow> bool" where
  "attempts_step t t' \<longleftrightarrow> next_attempt t \<le> next_attempt t' \<and>
     (\<forall>k a. map_of (pending t') k = Some a \<longrightarrow> map_of (pending t) k = Some a \<or> next_attempt t < a)"

lemma attempts_refl [simp]: "attempts_step t t"
  by (simp add: attempts_step_def)

lemma attempts_fields:
  "next_attempt t' = next_attempt t \<Longrightarrow> pending t' = pending t \<or> pending t' = [] \<or> (\<exists>k. pending t' = bt_remove k (pending t)) \<Longrightarrow>
   attempts_step t t'"
  by (auto simp: attempts_step_def map_of_bt_remove split: if_splits)

lemma plan_start_attempts:
  assumes "bt_wf (pending t)"
  shows "attempts_step t (fst (plan_start peer n t))"
  using assms
  by (auto simp: attempts_step_def plan_start_def checked_succ map_of_bt_insert split: option.splits if_splits)

lemma pool_open_attempts:
  assumes "bt_wf (pending (p_tabs p))"
  shows "attempts_step (p_tabs p) (p_tabs (fst (pool_open peer h p)))"
proof -
  have "attempts_step (p_tabs p) (fst (plan_open peer e n (p_tabs p)))" for e n
  proof -
    let ?t = "(p_tabs p)\<lparr>failed := None\<rparr>"
    have st: "attempts_step (p_tabs p) (fst (plan_start peer m t))"
      if "pending t = pending (p_tabs p)" "next_attempt t = next_attempt (p_tabs p)" for m and t :: "'a SessionTabsState"
      using plan_start_attempts [of t peer m] assms unfolding attempts_step_def that by simp
    have "attempts_step (p_tabs p) (fst (plan_start peer m (fst (close_index i k ?t))))" for m i k
      by (rule st) (simp_all add: close_index_def Let_def)
    moreover have "attempts_step (p_tabs p) (fst (tabs_select i key k ?t))" for i key k
      by (rule attempts_fields) (simp_all add: tabs_select_def)
    ultimately show ?thesis using st [of ?t] by (simp add: plan_open_def Let_def split: option.splits)
  qed
  moreover have "p_tabs (fst (pool_open peer h p)) = fst (plan_open peer
      (map_option (\<lambda>i. \<lparr>candidate_index = i, health = h\<rparr>) (position (\<lambda>s. snd s = device_id peer) (p_sessions p)))
      (length (p_sessions p)) (p_tabs p))"
    by (simp add: pool_open_def Let_def case_prod_unfold)
  ultimately show ?thesis by simp
qed

lemma reject_attempts: "attempts_step t (fst (reject_open key name n t))"
  by (auto simp: reject_open_def Let_def attempts_step_def checked_succ map_of_bt_remove split: option.splits if_splits)

lemma complete_attempts: "attempts_step t (fst (complete key a ok n t))"
  by (rule attempts_fields) (auto simp: complete_def Let_def split: option.splits)

lemma disconnect_attempts: "attempts_step t (fst (disconnect n t))"
  by (rule attempts_fields) (auto simp: disconnect_def Let_def close_index_def split: option.splits)

lemma attached_fields [simp]: "pending (attached c n t) = pending t" "next_attempt (attached c n t) = next_attempt t"
  "connecting (attached c n t) = connecting t" "intent (attached c n t) = intent t"
  by (simp_all add: attached_def)

lemma pool_complete_attempts: "attempts_step (p_tabs p) (p_tabs (fst (pool_complete key a ok conn p)))"
  using complete_attempts [of "p_tabs p" key a ok "length (p_sessions p)"]
  by (auto simp: pool_complete_def Let_def attempts_step_def split: prod.splits)

lemma pool_step_attempts:
  assumes "pool_inv p"
  shows "attempts_step (p_tabs p) (p_tabs (fst (pool_step p x)))"
proof (cases x)
  case (PO_Open peer h)
  have "bt_wf (pending (p_tabs p))" using assms by (simp add: pool_inv_def tabs_inv_def pending_ok_def)
  then show ?thesis using PO_Open pool_open_attempts [of p peer h] by (simp add: pool_step_def)
next
  case (PO_Complete key a ok conn)
  then show ?thesis using pool_complete_attempts [of p key a ok conn] by (simp add: pool_step_def case_prod_unfold)
next
  case PO_Disconnect
  then show ?thesis
    using disconnect_attempts [of "p_tabs p" "length (p_sessions p)"]
    by (auto simp: pool_step_def pool_disconnect_def split: prod.splits option.splits)
next
  case (PO_Reject key name)
  then show ?thesis by (simp add: pool_step_def pool_reject_def reject_attempts)
qed (auto simp: pool_step_def pool_select_def pool_close_def pool_dismiss_def pool_clear_def tabs_select_def close_index_def
    dismiss_failure_def tabs_clear_def Let_def split: option.splits intro!: attempts_fields)

lemma accepted_completion:
  assumes "pool_inv p" "pool_step p x = (p', Some a)"
  obtains key where "map_of (pending (p_tabs p)) key = Some a" "pending (p_tabs p') = bt_remove key (pending (p_tabs p))"
    "next_attempt (p_tabs p') = next_attempt (p_tabs p)"
proof -
  from assms(2) obtain key ok conn where "x = PO_Complete key a ok conn" by (auto simp: pool_step_def split: pool_op.splits prod.splits if_splits)
  with assms(2) obtain c where "pool_complete key a ok conn p = (p', c)" "c \<noteq> Cancelled"
    by (auto simp: pool_step_def split: prod.splits if_splits)
  then show ?thesis
    using that by (auto simp: pool_complete_def complete_def Let_def split: if_splits option.splits)
qed

context at_most_once
begin

lemma burnt_run: "inv s \<Longrightarrow> burnt s k \<Longrightarrow> burnt (foldl (\<lambda>s i. fst (step s i)) s is) k"
proof (induction "is" arbitrary: s)
  case (Cons i "is")
  obtain s' r where "step s i = (s', r)" by force
  then show ?case using Cons burnt_mono step_inv by simp
qed simp

lemma accepted_burnt:
  "inv s \<Longrightarrow> k \<in> set (accepted_keys step s is) \<Longrightarrow> burnt (foldl (\<lambda>s i. fst (step s i)) s is) k"
proof (induction "is" arbitrary: s)
  case (Cons i "is")
  obtain s' r where st: "step s i = (s', r)" by force
  have inv': "inv s'" using Cons.prems(1) st by (rule step_inv)
  from Cons.prems(2) st have "r = Some k \<or> k \<in> set (accepted_keys step s' is)" by (auto split: option.splits)
  then show ?case using Cons.IH [OF inv'] accept_burns [OF Cons.prems(1)] burnt_run [OF inv'] st by auto
qed simp

end

interpretation attempts: at_most_once pool_step spent pool_inv
proof
  fix p p' :: "'a Pool" and x a
  assume inv: "pool_inv p" and st: "pool_step p x = (p', Some a)"
  obtain key where k: "map_of (pending (p_tabs p)) key = Some a" "pending (p_tabs p') = bt_remove key (pending (p_tabs p))"
    "next_attempt (p_tabs p') = next_attempt (p_tabs p)" using accepted_completion [OF inv st] .
  show "\<not> spent p a" using k(1) by (auto simp: spent_def)
  have ok: "pending_ok (pending (p_tabs p)) (next_attempt (p_tabs p))" using inv by (simp add: pool_inv_def tabs_inv_def)
  then have "j = key" if "map_of (pending (p_tabs p)) j = Some a" for j
    using that k(1) by (auto simp: pending_ok_def inj_on_def dom_def)
  moreover have "a \<le> next_attempt (p_tabs p)" using ok k(1) by (auto simp: pending_ok_def)
  ultimately show "spent p' a" by (auto simp: spent_def k(2,3) map_of_bt_remove)
next
  fix p p' :: "'a Pool" and x a r
  assume inv: "pool_inv p" and st: "pool_step p x = (p', r)"
  show "pool_inv p'" using pool_step_inv [OF inv, of x] st by simp
  show "spent p' a" if "spent p a"
    using that pool_step_attempts [OF inv, of x] st by (fastforce simp: spent_def attempts_step_def)
qed

lemma pool_new_inv: "pool_inv pool_new"
  by (simp add: pool_inv_def pool_new_def tabs_inv_def tabs_default_def pending_ok_def)

interpretation pool: op_machine "\<lambda>p x. fst (pool_step p x)" pool_inv
  by unfold_locales (rule pool_step_inv)

text \<open>
  The owner never has more than eight sessions open or being opened, its selection is a tab or the empty
  page behind the last one, and what it shows as connecting is the pending attempt the user asked for
  last.
\<close>

theorem session_pool_bounded:
  fixes ops :: "'a pool_op list"
  defines "p \<equiv> foldl (\<lambda>p x. fst (pool_step p x)) pool_new ops"
  shows "length (p_sessions p) + pending_count (p_tabs p) \<le> 8 \<and> selected (p_tabs p) \<le> length (p_sessions p) \<and>
    (case connecting (p_tabs p) of None \<Rightarrow> True
     | Some c \<Rightarrow> intent (p_tabs p) = Some (device_id (cs_peer c)) \<and>
         pending_attempt (p_tabs p) (device_id (cs_peer c)) = Some (cs_attempt c))"
proof -
  have "pool_inv p" unfolding p_def by (rule pool.run_inv [OF pool_new_inv])
  then show ?thesis
    by (auto simp: pool_inv_def tabs_inv_def MAX_CONNECTIONS_def pending_count_def pending_attempt_def split: option.splits)
qed

text \<open>
  What cancels the pending attempt of a device, as the user meets it: clearing everything, a rejected
  open of that device, and the disconnect button while that device is what the user asked for last (with
  no failure on display, which the button dismisses first).
\<close>

definition cancels :: "'a Pool \<Rightarrow> 'a pool_op \<Rightarrow> string \<Rightarrow> bool" where
  "cancels p x key = (case x of
     PO_Clear \<Rightarrow> True
   | PO_Reject k name \<Rightarrow> k = key
   | PO_Disconnect \<Rightarrow> failed (p_tabs p) = None \<and> intent (p_tabs p) = Some key
   | _ \<Rightarrow> False)"

lemma pending_unique:
  "pool_inv p \<Longrightarrow> map_of (pending (p_tabs p)) key = Some a \<Longrightarrow> map_of (pending (p_tabs p)) j = Some a \<Longrightarrow> j = key"
  by (auto simp: pool_inv_def tabs_inv_def pending_ok_def inj_on_def dom_def)

lemma cancelled_pending:
  assumes "cancels p x key"
  shows "map_of (pending (p_tabs (fst (pool_step p x)))) =
    (if x = PO_Clear then Map.empty else (map_of (pending (p_tabs p)))(key := None))"
  using assms
  by (auto simp: cancels_def pool_step_def pool_clear_def tabs_clear_def pool_reject_def reject_open_def pool_disconnect_def
      disconnect_def close_index_def Let_def map_of_bt_remove fun_eq_iff split: pool_op.splits option.splits prod.splits if_splits)

lemma cancelled_spent:
  assumes inv: "pool_inv p" and c: "cancels p x key" and a: "map_of (pending (p_tabs p)) key = Some a"
  shows "spent (fst (pool_step p x)) a"
proof -
  have "a \<le> next_attempt (p_tabs p)" using inv a by (auto simp: pool_inv_def tabs_inv_def pending_ok_def)
  moreover have "map_of (pending (p_tabs (fst (pool_step p x)))) k \<noteq> Some a" for k
    using pending_unique [OF inv a, of k] by (auto simp: cancelled_pending [OF c] split: if_splits)
  ultimately show ?thesis
    using pool_step_attempts [OF inv, of x] by (auto simp: spent_def attempts_step_def)
qed

lemma plan_start_keeps:
  "bt_wf (pending t) \<Longrightarrow> map_of (pending t) key = Some a \<Longrightarrow> map_of (pending (fst (plan_start peer n t))) key = Some a"
  by (auto simp: plan_start_def map_of_bt_insert split: option.splits)

lemma pool_open_keeps:
  assumes "bt_wf (pending (p_tabs p))" "map_of (pending (p_tabs p)) key = Some a"
  shows "map_of (pending (p_tabs (fst (pool_open peer h p)))) key = Some a"
proof -
  have "pending (fst (close_index i n t)) = pending t" "pending (fst (tabs_select i k n t)) = pending t"
    for i n k and t :: "'a SessionTabsState"
    by (simp_all add: close_index_def tabs_select_def Let_def)
  then have "map_of (pending (fst (plan_open peer e n (p_tabs p)))) key = Some a" for e n
    using assms by (auto simp: plan_open_def Let_def plan_start_keeps split: option.splits)
  then show ?thesis by (simp add: pool_open_def Let_def case_prod_unfold)
qed

lemma kept_pending:
  assumes inv: "pool_inv p" and a: "map_of (pending (p_tabs p)) key = Some a"
    and x: "\<not> cancels p x key" "\<And>ok conn. x \<noteq> PO_Complete key a ok conn"
  shows "map_of (pending (p_tabs (fst (pool_step p x)))) key = Some a"
proof (cases x)
  case (PO_Open peer h)
  have "bt_wf (pending (p_tabs p))" using inv by (simp add: pool_inv_def tabs_inv_def pending_ok_def)
  then show ?thesis using PO_Open pool_open_keeps [OF _ a, of peer h] by (simp add: pool_step_def)
next
  case (PO_Complete k b ok conn)
  then have "k \<noteq> key \<or> b \<noteq> a" using x(2) by auto
  then show ?thesis
    using PO_Complete a
    by (auto simp: pool_step_def pool_complete_def complete_def Let_def map_of_bt_remove case_prod_unfold split: option.splits)
qed (use a x(1) in \<open>auto simp: pool_step_def cancels_def pool_reject_def reject_open_def pool_select_def pool_close_def
    pool_disconnect_def pool_dismiss_def tabs_select_def close_index_def disconnect_def dismiss_failure_def Let_def
    map_of_bt_remove split: option.splits prod.splits if_splits\<close>)

lemma completed_accepted:
  "map_of (pending (p_tabs p)) key = Some a \<Longrightarrow> snd (pool_step p (PO_Complete key a ok conn)) = Some a"
  by (auto simp: pool_step_def pool_complete_def complete_def Let_def split: option.splits)

lemma started_above:
  assumes wf: "bt_wf (pending (p_tabs p))" and st: "snd (pool_open peer h p) = Start a"
  shows "next_attempt (p_tabs p) < a \<and> map_of (pending (p_tabs (fst (pool_open peer h p)))) (device_id peer) = Some a"
proof -
  have ps: "next_attempt t < a \<and> map_of (pending (fst (plan_start peer n t))) (device_id peer) = Some a"
    if "bt_wf (pending t)" "snd (plan_start peer n t) = Start a" for n and t :: "'a SessionTabsState"
    using that by (auto simp: plan_start_def checked_succ map_of_bt_insert split: option.splits if_splits)
  let ?t = "(p_tabs p)\<lparr>failed := None\<rparr>"
  have "next_attempt (p_tabs p) < a \<and> map_of (pending (fst (plan_open peer e n (p_tabs p)))) (device_id peer) = Some a"
    if d: "decision (snd (plan_open peer e n (p_tabs p))) = Start a" for e n
  proof (cases "\<exists>c. e = Some c \<and> candidate_index c < n")
    case False
    then have "plan_open peer e n (p_tabs p) = apsnd (\<lambda>d. \<lparr>retire_index = None, decision = d\<rparr>) (plan_start peer n ?t)"
      by (auto simp: plan_open_def Let_def split: option.splits)
    then show ?thesis using d wf ps [of ?t n] by simp
  next
    case True
    then obtain c where c: "e = Some c" "candidate_index c < n" by blast
    then have "plan_open peer e n (p_tabs p) = apsnd (\<lambda>d. \<lparr>retire_index = Some (candidate_index c), decision = d\<rparr>)
        (plan_start peer (n - 1) (fst (close_index (candidate_index c) n ?t)))"
      using d by (auto simp: plan_open_def Let_def split: if_splits)
    moreover have "pending (fst (close_index (candidate_index c) n ?t)) = pending (p_tabs p)"
      "next_attempt (fst (close_index (candidate_index c) n ?t)) = next_attempt (p_tabs p)"
      by (simp_all add: close_index_def Let_def)
    ultimately show ?thesis
      using d wf ps [of "fst (close_index (candidate_index c) n ?t)" "n - 1"] by simp
  qed
  then show ?thesis using st by (simp add: pool_open_def Let_def case_prod_unfold)
qed

text \<open>
  C20. The result of a connection attempt is used at most once in the life of the owner, and its number was
  never given out before.  A pending attempt stays pending through every operation that neither cancels
  it nor completes it, its completion is accepted, and after an operation that cancels it, clearing the
  owner, a rejected open of its device or a disconnect while its device is the one asked for, no later
  completion of it is accepted, whatever happens in between.
\<close>

theorem attempts_completed_once:
  fixes ops later :: "'a pool_op list"
  defines "p \<equiv> foldl (\<lambda>p x. fst (pool_step p x)) pool_new ops"
  shows "distinct (accepted_keys pool_step pool_new ops) \<and>
    (\<forall>peer h a. snd (pool_open peer h p) = Start a \<longrightarrow>
       a \<notin> set (accepted_keys pool_step pool_new ops) \<and> (\<forall>k. pending_attempt (p_tabs p) k \<noteq> Some a) \<and>
       pending_attempt (p_tabs (fst (pool_open peer h p))) (device_id peer) = Some a) \<and>
    (\<forall>key a x. pending_attempt (p_tabs p) key = Some a \<longrightarrow>
       (if cancels p x key then a \<notin> set (accepted_keys pool_step (fst (pool_step p x)) later)
        else if \<exists>ok conn. x = PO_Complete key a ok conn
        then snd (pool_step p x) = Some a \<and> a \<notin> set (accepted_keys pool_step (fst (pool_step p x)) later)
        else pending_attempt (p_tabs (fst (pool_step p x))) key = Some a))"
proof (intro conjI allI impI)
  have inv: "pool_inv p" unfolding p_def by (rule pool.run_inv [OF pool_new_inv])
  show "distinct (accepted_keys pool_step pool_new ops)" by (rule attempts.accepted_distinct [OF pool_new_inv])
  fix peer h a
  assume "snd (pool_open peer h p) = Start a"
  with inv have st: "next_attempt (p_tabs p) < a \<and> map_of (pending (p_tabs (fst (pool_open peer h p)))) (device_id peer) = Some a"
    by (intro started_above) (simp_all add: pool_inv_def tabs_inv_def pending_ok_def)
  show "a \<notin> set (accepted_keys pool_step pool_new ops)"
    using attempts.accepted_burnt [OF pool_new_inv, of a ops] st by (auto simp: p_def spent_def)
  show "pending_attempt (p_tabs p) k \<noteq> Some a" for k
    using inv st by (auto simp: pool_inv_def tabs_inv_def pending_ok_def pending_attempt_def dest: leD)
  show "pending_attempt (p_tabs (fst (pool_open peer h p))) (device_id peer) = Some a"
    using st by (simp add: pending_attempt_def)
next
  fix key a x
  assume "pending_attempt (p_tabs p) key = Some a"
  then have a: "map_of (pending (p_tabs p)) key = Some a" by (simp add: pending_attempt_def)
  have inv: "pool_inv p" unfolding p_def by (rule pool.run_inv [OF pool_new_inv])
  have never: "spent (fst (pool_step p x)) a \<Longrightarrow> a \<notin> set (accepted_keys pool_step (fst (pool_step p x)) later)"
    using attempts.accepted_not_burnt [OF pool_step_inv [OF inv, of x]] by blast
  show "if cancels p x key then a \<notin> set (accepted_keys pool_step (fst (pool_step p x)) later)
      else if \<exists>ok conn. x = PO_Complete key a ok conn
      then snd (pool_step p x) = Some a \<and> a \<notin> set (accepted_keys pool_step (fst (pool_step p x)) later)
      else pending_attempt (p_tabs (fst (pool_step p x))) key = Some a"
    using never cancelled_spent [OF inv _ a, of x] kept_pending [OF inv a, of x] completed_accepted [OF a]
      attempts.accept_burns [OF inv, of x "fst (pool_step p x)" a]
    by (auto simp: pending_attempt_def prod_eq_iff)
qed

section \<open>The page that is shown\<close>

definition page :: "'a Pool \<Rightarrow> (u32 \<times> string) option" where
  "page p = (if selected (p_tabs p) < length (p_sessions p) then Some (p_sessions p ! selected (p_tabs p)) else None)"

lemma nth_remove_nth:
  "i < length xs \<Longrightarrow> j < length xs - 1 \<Longrightarrow> remove_nth i xs ! j = xs ! (if j < i then j else Suc j)"
  by (auto simp: remove_nth_def nth_append min_def)

text \<open>
  Closing a session keeps the page the user looks at: another page stays as it is, the page that closes
  gives way to its right neighbour (or to the last page when it was the last), and the empty page stays
  empty.
\<close>

theorem closing_keeps_page:
  assumes "position (\<lambda>s. fst s = conn) (p_sessions p) = Some i"
  shows "page (pool_close conn p) =
    (if page p = None then None
     else if selected (p_tabs p) \<noteq> i then page p
     else if length (p_sessions p) = 1 then None
     else Some (p_sessions p ! (if Suc i < length (p_sessions p) then Suc i else i - 1)))"
proof -
  let ?n = "length (p_sessions p)" and ?s = "selected (p_tabs p)"
  define s' where "s' = (if ?s \<ge> ?n then ?n - 1 else if ?n - 1 = 0 then 0 else min (?s - of_bool (?s > i)) (?n - 1 - 1))"
  have i: "i < ?n" using assms by (rule position_less)
  have eq: "page (pool_close conn p) = (if s' < ?n - 1 then Some (p_sessions p ! (if s' < i then s' else Suc s')) else None)"
    using i assms by (simp add: page_def pool_close_def close_index_def Let_def s'_def nth_remove_nth)
  consider "?s \<ge> ?n" | "?s < ?n" "?n = 1" | "?s < i" "1 < ?n" | "?s > i" "?s < ?n" | "?s = i" "1 < ?n" using i by linarith
  then show ?thesis
  proof cases
    case 1
    then show ?thesis unfolding eq by (simp add: page_def s'_def)
  next
    case 2
    then show ?thesis unfolding eq using i by (simp add: page_def s'_def)
  next
    case 3
    then have "s' = ?s" "?s < ?n - 1" using i by (simp_all add: s'_def)
    then show ?thesis unfolding eq using 3 i by (simp add: page_def)
  next
    case 4
    then have "s' = ?s - 1" "Suc (?s - 1) = ?s" "\<not> ?s - 1 < i" "?s - 1 < ?n - 1" using i by (simp_all add: s'_def)
    then show ?thesis unfolding eq using 4 by (simp add: page_def)
  next
    case 5
    then have "s' = min i (?n - 2)" using i by (simp add: s'_def numeral_2_eq_2)
    then show ?thesis unfolding eq using 5 i by (cases "Suc i < ?n") (auto simp: page_def min_def intro!: arg_cong [of _ _ "(!) (p_sessions p)"])
  qed
qed

text \<open>
  What the user sees after a connection attempt ends.  A cancelled attempt changes nothing; the awaited
  one shows its page, or the empty page when it failed; one in the background leaves the page alone and
  shows itself only when there is no other session and nothing else was asked for.
\<close>

theorem completion_shows_page:
  "page (fst (pool_complete key a ok conn p)) =
    (case snd (pool_complete key a ok conn p) of
       Cancelled \<Rightarrow> page p
     | Selected \<Rightarrow> if ok then Some (conn, key) else None
     | Background \<Rightarrow> if page p \<noteq> None then page p
         else if intent (p_tabs p) \<noteq> None \<and> connecting (p_tabs p) = None then None
         else if ok \<and> p_sessions p = [] then Some (conn, key) else None)"
  by (auto simp: page_def pool_complete_def complete_def attached_def Let_def nth_append split: option.splits)

text \<open>A ticket is current until the next command begins, up to the wrap of the 64-bit revision.\<close>

lemma ticket_fences:
  "is_current (((\<lambda>r. fst (begin_command r)) ^^ k) (fst (begin_command r))) (snd (begin_command r)) \<longleftrightarrow> 2 ^ 64 dvd k"
proof -
  have "((\<lambda>r. fst (begin_command r)) ^^ k) r' = r' + word_of_nat k" for r'
    by (induction k) (simp_all add: begin_command_def)
  moreover have "(word_of_nat k :: u64) = 0 \<longleftrightarrow> 2 ^ 64 dvd k"
    by (simp add: word_of_nat_eq_0_iff)
  ultimately show ?thesis by (simp add: is_current_def begin_command_def)
qed

text \<open>The view offers only what the state allows.\<close>

lemma view_selects_page:
  "i < length facts \<Longrightarrow> tv_selected (vm_tabs (project facts t) ! i) \<longleftrightarrow> i = selected t"
  by (simp add: project_def Let_def tab_view_def nth_enumerate_eq)

lemma view_effect_exists:
  "effect (project facts t) (Act_Select c) = Some (Eff_Select c) \<longleftrightarrow> (\<exists>f\<in>set facts. sf_connection_id f = c)"
proof -
  have "map tv_connection_id (vm_tabs (project facts t)) = map sf_connection_id (map snd (enumerate 0 facts))"
    by (simp add: project_def Let_def tab_view_def comp_def case_prod_unfold del: map_snd_enumerate)
  then have "tv_connection_id ` set (vm_tabs (project facts t)) = sf_connection_id ` set facts"
    by (metis map_snd_enumerate set_map)
  then have "(\<exists>tab\<in>set (vm_tabs (project facts t)). tv_connection_id tab = c) \<longleftrightarrow> (\<exists>f\<in>set facts. sf_connection_id f = c)"
    by (metis (no_types, lifting) image_iff)
  then show ?thesis by (simp add: effect_def)
qed

text \<open>Closing the first of two demonstration pages while the second is shown.\<close>

definition demo_pool :: "nat Pool" where
  "demo_pool = \<lparr>p_sessions = [(4, ''a''), (7, ''b'')], p_tabs = tabs_default\<lparr>selected := 1\<rparr>\<rparr>"

theorem closing_keeps_page_witness: "page (pool_close 4 demo_pool) = Some (7, ''b'')"
  using closing_keeps_page [of 4 demo_pool 0] by (simp add: demo_pool_def page_def tabs_default_def)


definition demo_session_peer :: "nat SessionPeer" where
  "demo_session_peer = \<lparr>device_id = ''b'', peer_name = ''B'', endpoint = 7\<rparr>"

definition demo_health :: SessionHealth where
  "demo_health = \<lparr>connected = True, peer_responsive = True, video_failed = False\<rparr>"

theorem attempts_completed_once_witness:
  "1 \<notin> set (accepted_keys pool_step
     (fst (pool_step (foldl (\<lambda>p x. fst (pool_step p x)) pool_new [PO_Open demo_session_peer demo_health]) PO_Disconnect))
     [PO_Open demo_session_peer demo_health, PO_Complete ''b'' 1 True 5])"
proof -
  let ?p = "foldl (\<lambda>p x. fst (pool_step p x)) pool_new [PO_Open demo_session_peer demo_health]"
  have "pending_attempt (p_tabs ?p) ''b'' = Some 1" "cancels ?p PO_Disconnect ''b''"
    by (simp_all add: pool_step_def pool_open_def plan_open_def plan_start_def pool_new_def tabs_default_def Let_def
        demo_session_peer_def checked_add_def MAX_CONNECTIONS_def pending_attempt_def cancels_def)
  then show ?thesis
    using attempts_completed_once [of "[PO_Open demo_session_peer demo_health]"
        "[PO_Open demo_session_peer demo_health, PO_Complete ''b'' 1 True 5]"] by meson
qed

end
