(* ===== verification/Clock_Sync.thy ===== *)
theory Clock_Sync
  imports Base Complex_Main
begin

text \<open>
  Clock measurement (\<open>remote_core/src/clock_sync.rs\<close>): the continuity detector, the window of pending
  probes, the validation of a four-timestamp exchange, the bounded sample history with its least-squares
  fit, and the estimate with its error allowances.

  The timestamps are 64-bit words and the doubled offsets and midpoints unbounded integers (the source's
  \<open>i128\<close> holds every value that arises).  The \<open>f64\<close> arithmetic of the fit is exact arithmetic on the reals:
  rounding is not modelled (the source accounts for it in \<open>quantization_bound_us\<close>), so the bounds on the estimate
  at the end are about exact arithmetic; the property of the tables and samples does not depend on the fit.  A \<open>SystemTime\<close> is an
  integer number of nanoseconds.
\<close>

section \<open>Continuity\<close>

record ClockContinuity =
  cc_previous :: "(u64 \<times> int) option"

definition continuity_new :: ClockContinuity where
  "continuity_new = \<lparr>cc_previous = None\<rparr>"

definition observe :: "u64 \<Rightarrow> int \<Rightarrow> ClockContinuity \<Rightarrow> ClockContinuity \<times> bool" where
  "observe monotonic_us wall c =
     (c\<lparr>cc_previous := Some (monotonic_us, wall)\<rparr>,
      (case cc_previous c of None \<Rightarrow> True
       | Some (previous_us, previous_wall) \<Rightarrow>
           (case checked_sub monotonic_us previous_us of None \<Rightarrow> False
            | Some monotonic_elapsed_us \<Rightarrow>
                if wall < previous_wall then False
                else let monotonic_elapsed = int (unat monotonic_elapsed_us) * 1000; wall_elapsed = wall - previous_wall in
                  monotonic_elapsed \<le> 10 * 1000000000 \<and> \<bar>monotonic_elapsed - wall_elapsed\<bar> \<le> 1000000000)))"

definition continuity_reset :: "ClockContinuity \<Rightarrow> ClockContinuity" where
  "continuity_reset c = c\<lparr>cc_previous := None\<rparr>"

section \<open>State\<close>

record ClockSyncConfig =
  sample_capacity :: nat
  sample_window_us :: u64
  max_pending_probes :: nat
  probe_timeout_us :: u64
  freshness_limit_us :: u64
  min_fit_samples :: nat
  min_fit_span_us :: u64
  low_rtt_slack_us :: u64
  low_rtt_ratio :: real
  holdover_uncertainty_ppm :: real

definition clock_config_default :: ClockSyncConfig where
  "clock_config_default = \<lparr>sample_capacity = 64, sample_window_us = 60000000, max_pending_probes = 16,
     probe_timeout_us = 5000000, freshness_limit_us = 10000000, min_fit_samples = 4, min_fit_span_us = 3000000,
     low_rtt_slack_us = 250, low_rtt_ratio = 1 / 4, holdover_uncertainty_ppm = 100\<rparr>"

datatype ClockSyncError =
  InvalidConfig | ProbeIdNotIncreasing | PendingCapacity | LocalTimeReversed | UnknownOrCompletedProbe | EchoMismatch
| ExpiredProbe | InvalidTimestampOrder | HostProcessingExceedsRoundTrip | OffsetOutOfRange

record ClockSample =
  probe_id :: u64
  client_send_us :: u64
  host_recv_us :: u64
  host_send_us :: u64
  client_recv_us :: u64
  raw_total_rtt_us :: u64
  host_processing_us :: u64
  network_rtt_us :: u64
  offset_us :: real
  offset_twice_us :: int
  client_midpoint_twice_us :: int

datatype ClockSyncState = Acquiring | Synchronized | Stale

record ClockEstimate =
  ce_state :: ClockSyncState
  ce_client_time_us :: u64
  ce_offset_us :: real
  ce_drift_ppm :: real
  ce_drift_estimated :: bool
  ce_fit_ci95_us :: "real option"
  ce_asymmetry_bound_us :: real
  ce_holdover_bound_us :: real
  ce_quantization_bound_us :: real
  ce_sample_age_us :: u64
  ce_sample_count :: nat
  ce_selected_sample_count :: nat
  ce_selected_span_us :: u64
  ce_latest_sample :: ClockSample

definition uncertainty_us :: "ClockEstimate \<Rightarrow> real option" where
  "uncertainty_us e = map_option (\<lambda>ci. ci + ce_asymmetry_bound_us e + ce_holdover_bound_us e + ce_quantization_bound_us e)
     (ce_fit_ci95_us e)"

record ClockFit =
  reference_client_us :: u64
  reference_offset_twice_us :: int
  mean_x_us :: real
  mean_y_us :: real
  fit_slope :: real
  fit_sxx :: real
  residual_variance :: "real option"
  residual_degrees_of_freedom :: nat
  drift_estimated :: bool
  newest_recv_us :: u64
  selected_span_us :: u64
  fit_selected :: "(real \<times> real) list"

record ClockSynchronizer =
  config :: ClockSyncConfig
  pending_probes :: "(u64 \<times> u64) list"
  highest_probe_id :: "u64 option"
  latest_local_us :: "u64 option"
  samples :: "ClockSample list"
  fit :: "ClockFit option"

definition with_config :: "ClockSyncConfig \<Rightarrow> (ClockSynchronizer, ClockSyncError) result" where
  "with_config c =
     (if \<not> (3 \<le> sample_capacity c \<and> sample_capacity c \<le> 4096) \<or> max_pending_probes c = 0 \<or> max_pending_probes c > 4096 \<or>
        probe_timeout_us c = 0 \<or> sample_window_us c < probe_timeout_us c \<or> freshness_limit_us c = 0 \<or>
        freshness_limit_us c > sample_window_us c \<or> min_fit_samples c < 3 \<or> min_fit_samples c > sample_capacity c \<or>
        min_fit_span_us c = 0 \<or> min_fit_span_us c > sample_window_us c \<or>
        low_rtt_ratio c < 0 \<or> low_rtt_ratio c > 1 \<or> holdover_uncertainty_ppm c < 0 \<or> holdover_uncertainty_ppm c > 1000000
      then Err InvalidConfig
      else Ok \<lparr>config = c, pending_probes = [], highest_probe_id = None, latest_local_us = None, samples = [], fit = None\<rparr>)"

definition check_local_time :: "u64 \<Rightarrow> ClockSynchronizer \<Rightarrow> (unit, ClockSyncError) result" where
  "check_local_time now_us s = (case latest_local_us s of
     Some latest \<Rightarrow> if now_us < latest then Err LocalTimeReversed else Ok () | None \<Rightarrow> Ok ())"

section \<open>The fit\<close>

text \<open>\<open>min\<close> and \<open>max\<close> over an iterator; the source unwraps them on a list that has an element.\<close>

definition min_of :: "'a::linorder list \<Rightarrow> 'a option" where
  "min_of xs = (if xs = [] then None else Some (Min (set xs)))"

definition max_of :: "'a::linorder list \<Rightarrow> 'a option" where
  "max_of xs = (if xs = [] then None else Some (Max (set xs)))"

definition u64_real :: "u64 \<Rightarrow> real" where
  "u64_real w = real (unat w)"

lemma u64_real_nonneg [simp]: "0 \<le> u64_real w"
  unfolding u64_real_def by (rule of_nat_0_le_iff)

definition rtt_threshold :: "ClockSyncConfig \<Rightarrow> ClockSample list \<Rightarrow> real" where
  "rtt_threshold c ss =
     (let min_rtt = u64_real (case min_of (map network_rtt_us ss) of Some m \<Rightarrow> m | None \<Rightarrow> 0) in
      min_rtt + max (u64_real (low_rtt_slack_us c)) (min_rtt * low_rtt_ratio c))"

definition fit_points :: "u64 \<Rightarrow> int \<Rightarrow> ClockSample list \<Rightarrow> (real \<times> real) list" where
  "fit_points ref off ss = map (\<lambda>s. (real_of_int (client_midpoint_twice_us s - 2 * int (unat ref)) / 2,
     real_of_int (offset_twice_us s - off) / 2)) ss"

text \<open>The fit over the selected samples; \<open>None\<close> where the source would panic.\<close>

definition fit_of :: "ClockSyncConfig \<Rightarrow> ClockSample list \<Rightarrow> ClockFit option" where
  "fit_of c selected = (case selected of [] \<Rightarrow> None | first # _ \<Rightarrow>
     let ref = client_send_us first; off = offset_twice_us first; xy = fit_points ref off selected;
         n = real (length xy); mean_x = sum_list (map fst xy) / n; mean_y = sum_list (map snd xy) / n;
         sxx = sum_list (map (\<lambda>v. (fst v - mean_x)\<^sup>2) xy);
         sxy = sum_list (map (\<lambda>v. (fst v - mean_x) * (snd v - mean_y)) xy) in
     case (min_of (map client_midpoint_twice_us selected), max_of (map client_midpoint_twice_us selected),
           max_of (map client_recv_us selected)) of
       (Some min_midpoint, Some max_midpoint, Some newest) \<Rightarrow>
         let span = word_of_int ((max_midpoint - min_midpoint) div 2);
             drift = (length xy \<ge> min_fit_samples c \<and> span \<ge> min_fit_span_us c \<and> sxx > 0);
             slope = (if drift then sxy / sxx else 0);
             df = length xy - (if drift then 2 else 1) in
         Some \<lparr>reference_client_us = ref, reference_offset_twice_us = off, mean_x_us = mean_x, mean_y_us = mean_y,
           fit_slope = slope, fit_sxx = sxx,
           residual_variance = (if df > 0 then Some (sum_list (map (\<lambda>(x, y). (y - mean_y - slope * (x - mean_x))\<^sup>2) xy) / real df) else None),
           residual_degrees_of_freedom = df, drift_estimated = drift, newest_recv_us = newest, selected_span_us = span,
           fit_selected = map (\<lambda>(v, s). (fst v - mean_x, u64_real (network_rtt_us s) / 2)) (zip xy selected)\<rparr>
     | _ \<Rightarrow> None)"

definition low_rtt :: "ClockSyncConfig \<Rightarrow> ClockSample list \<Rightarrow> ClockSample list" where
  "low_rtt c ss = filter (\<lambda>s. u64_real (network_rtt_us s) \<le> rtt_threshold c ss) ss"

definition refit :: "ClockSynchronizer \<Rightarrow> ClockSynchronizer option" where
  "refit s = map_option (\<lambda>f. s\<lparr>fit := Some f\<rparr>) (fit_of (config s) (low_rtt (config s) (samples s)))"

definition student_small :: "real list" where
  "student_small = [0, 127063 / 10000, 43027 / 10000, 31825 / 10000, 27765 / 10000, 25706 / 10000, 24469 / 10000, 23647 / 10000,
     23061 / 10000, 22622 / 10000, 22282 / 10000, 22010 / 10000, 21789 / 10000, 21604 / 10000, 21448 / 10000, 21315 / 10000,
     21199 / 10000, 21099 / 10000, 21009 / 10000, 20931 / 10000, 20860 / 10000, 20797 / 10000, 20739 / 10000, 20687 / 10000,
     20639 / 10000, 20596 / 10000, 20556 / 10000, 20519 / 10000, 20485 / 10000, 20453 / 10000, 20423 / 10000]"

definition student_t_975 :: "nat \<Rightarrow> real" where
  "student_t_975 df = (if df \<le> 30 then student_small ! df else if df \<le> 59 then 20423 / 10000
     else if df \<le> 119 then 20003 / 10000 else 197994 / 100000)"

definition F64_EPSILON :: real where "F64_EPSILON = 1 / 2 ^ 52"

section \<open>Estimate\<close>

definition fit_weight :: "ClockFit \<Rightarrow> real \<Rightarrow> real \<Rightarrow> real" where
  "fit_weight f centered_x sample_x = 1 / real (length (fit_selected f)) +
     (if drift_estimated f then centered_x * sample_x / fit_sxx f else 0)"

definition centered :: "ClockFit \<Rightarrow> u64 \<Rightarrow> real" where
  "centered f now_us = real_of_int (int (unat now_us) - int (unat (reference_client_us f))) - mean_x_us f"

definition fitted_offset :: "ClockFit \<Rightarrow> real \<Rightarrow> real" where
  "fitted_offset f centered_x = real_of_int (reference_offset_twice_us f) / 2 + mean_y_us f + fit_slope f * centered_x"

definition estimate :: "u64 \<Rightarrow> ClockSynchronizer \<Rightarrow> ClockEstimate option" where
  "estimate now_us s = (case fit s of None \<Rightarrow> None | Some f \<Rightarrow>
     let centered_x = centered f now_us; off = fitted_offset f centered_x;
         sample_age = saturating_sub now_us (newest_recv_us f); n = real (length (fit_selected f));
         leverage = 1 / n + (if drift_estimated f then centered_x\<^sup>2 / fit_sxx f else 0);
         ci = map_option (\<lambda>v. student_t_975 (residual_degrees_of_freedom f) * sqrt (v * leverage)) (residual_variance f);
         asym = sum_list (map (\<lambda>(sample_x, half_rtt). \<bar>fit_weight f centered_x sample_x\<bar> * half_rtt) (fit_selected f));
         reversed = (case latest_local_us s of Some latest \<Rightarrow> now_us < latest | None \<Rightarrow> False);
         state = (if reversed \<or> sample_age > freshness_limit_us (config s) then Stale
                  else if drift_estimated f then Synchronized else Acquiring) in
     if samples s = [] then None
     else Some \<lparr>ce_state = state, ce_client_time_us = now_us, ce_offset_us = off, ce_drift_ppm = fit_slope f * 1000000,
       ce_drift_estimated = drift_estimated f, ce_fit_ci95_us = ci, ce_asymmetry_bound_us = asym,
       ce_holdover_bound_us = u64_real sample_age * holdover_uncertainty_ppm (config s) / 1000000,
       ce_quantization_bound_us = 1 + \<bar>off\<bar> * F64_EPSILON, ce_sample_age_us = sample_age,
       ce_sample_count = length (samples s), ce_selected_sample_count = length (fit_selected f),
       ce_selected_span_us = selected_span_us f, ce_latest_sample = last (samples s)\<rparr>)"

definition sample_changes_clock_epoch :: "ClockSample \<Rightarrow> ClockSynchronizer \<Rightarrow> bool" where
  "sample_changes_clock_epoch sm s = (case fit s of None \<Rightarrow> False | Some f \<Rightarrow>
     let x = real_of_int (client_midpoint_twice_us sm - 2 * int (unat (reference_client_us f))) / 2;
         measured_delta = real_of_int (offset_twice_us sm - reference_offset_twice_us f) / 2;
         residual = \<bar>measured_delta - mean_y_us f - fit_slope f * (x - mean_x_us f)\<bar>;
         midpoint = word_of_int (client_midpoint_twice_us sm div 2) in
     case estimate midpoint s of None \<Rightarrow> False
     | Some p \<Rightarrow> residual > (case ce_fit_ci95_us p of Some ci \<Rightarrow> ci | None \<Rightarrow> 0) + ce_asymmetry_bound_us p +
         ce_holdover_bound_us p + ce_quantization_bound_us p + u64_real (network_rtt_us sm) / 2 + 1000)"

section \<open>Probes\<close>

definition invalidate_measurements :: "ClockSynchronizer \<Rightarrow> ClockSynchronizer" where
  "invalidate_measurements s = s\<lparr>pending_probes := [], latest_local_us := None, samples := [], fit := None\<rparr>"

definition sync_reset :: "ClockSynchronizer \<Rightarrow> ClockSynchronizer" where
  "sync_reset s = (invalidate_measurements s)\<lparr>highest_probe_id := None\<rparr>"

definition begin_probe :: "u64 \<Rightarrow> u64 \<Rightarrow> ClockSynchronizer \<Rightarrow> ClockSynchronizer \<times> (unit, ClockSyncError) result" where
  "begin_probe pid local_send_us s =
     (case check_local_time local_send_us s of Inl e \<Rightarrow> (s, Err e)
      | Inr _ \<Rightarrow>
        if (case highest_probe_id s of Some previous \<Rightarrow> pid \<le> previous | None \<Rightarrow> False) then (s, Err ProbeIdNotIncreasing)
        else let s1 = s\<lparr>pending_probes := filter (\<lambda>(_, sent). local_send_us - sent \<le> probe_timeout_us (config s)) (pending_probes s)\<rparr> in
          if length (pending_probes s1) \<ge> max_pending_probes (config s) then (s1, Err PendingCapacity)
          else (s1\<lparr>pending_probes := bt_insert pid local_send_us (pending_probes s1), highest_probe_id := Some pid,
                   latest_local_us := Some local_send_us\<rparr>, Ok ()))"

definition cancel_probe :: "u64 \<Rightarrow> ClockSynchronizer \<Rightarrow> ClockSynchronizer \<times> bool" where
  "cancel_probe pid s = (s\<lparr>pending_probes := bt_remove pid (pending_probes s)\<rparr>, map_of (pending_probes s) pid \<noteq> None)"

definition pending_probe_count :: "ClockSynchronizer \<Rightarrow> nat" where
  "pending_probe_count s = length (pending_probes s)"

text \<open>The checks between the removal of the probe and the new sample.\<close>

definition make_sample :: "ClockSyncConfig \<Rightarrow> u64 \<Rightarrow> u64 \<Rightarrow> u64 \<Rightarrow> u64 \<Rightarrow> u64 \<Rightarrow> (ClockSample, ClockSyncError) result" where
  "make_sample c pid client_send host_recv host_send local_recv =
     try_bind (ok_or (checked_sub local_recv client_send) InvalidTimestampOrder) (\<lambda>raw.
     if raw > probe_timeout_us c then Err ExpiredProbe
     else try_bind (ok_or (checked_sub host_send host_recv) InvalidTimestampOrder) (\<lambda>processing.
     try_bind (ok_or (checked_sub raw processing) HostProcessingExceedsRoundTrip) (\<lambda>network.
     let twice = (int (unat host_recv) - int (unat client_send)) + (int (unat host_send) - int (unat local_recv)) in
     if \<not> (- 2 * 2 ^ 63 \<le> twice \<and> twice \<le> 2 * (2 ^ 63 - 1)) then Err OffsetOutOfRange
     else Ok \<lparr>probe_id = pid, client_send_us = client_send, host_recv_us = host_recv, host_send_us = host_send,
       client_recv_us = local_recv, raw_total_rtt_us = raw, host_processing_us = processing, network_rtt_us = network,
       offset_us = real_of_int twice / 2, offset_twice_us = twice,
       client_midpoint_twice_us = int (unat client_send) + int (unat local_recv)\<rparr>)))"

text \<open>The loop that drops old samples; it looks at the length after each drop.\<close>

fun trim_samples :: "ClockSyncConfig \<Rightarrow> u64 \<Rightarrow> ClockSample list \<Rightarrow> ClockSample list" where
  "trim_samples c now [] = []"
| "trim_samples c now (old # ss) =
     (if now - client_recv_us old > sample_window_us c \<or> length (old # ss) \<ge> sample_capacity c
      then trim_samples c now ss else old # ss)"

definition complete_probe :: "u64 \<Rightarrow> u64 \<Rightarrow> u64 \<Rightarrow> u64 \<Rightarrow> u64 \<Rightarrow> ClockSynchronizer \<Rightarrow>
    (ClockSynchronizer \<times> (ClockSample, ClockSyncError) result) option" where
  "complete_probe pid echoed_send host_recv host_send local_recv s =
     (case map_of (pending_probes s) pid of None \<Rightarrow> Some (s, Err UnknownOrCompletedProbe)
      | Some client_send \<Rightarrow>
        if echoed_send \<noteq> client_send then Some (s, Err EchoMismatch)
        else let s1 = s\<lparr>pending_probes := bt_remove pid (pending_probes s)\<rparr> in
          case try_bind (check_local_time local_recv s1) (\<lambda>_. make_sample (config s) pid client_send host_recv host_send local_recv) of
            Inl e \<Rightarrow> Some (s1, Err e)
          | Inr sm \<Rightarrow>
            let s2 = (if sample_changes_clock_epoch sm s1 then invalidate_measurements s1 else s1);
                s3 = s2\<lparr>latest_local_us := Some local_recv, samples := trim_samples (config s) local_recv (samples s2) @ [sm]\<rparr> in
            map_option (\<lambda>s4. (s4, Ok sm)) (refit s3))"

section \<open>Least squares\<close>

text \<open>A straight line through points that lie within \<open>r\<close> of an affine function, evaluated at \<open>m + c\<close>.\<close>

lemma least_squares_bound:
  fixes x y r :: "nat \<Rightarrow> real" and n :: nat and a b c :: real and drift :: bool
  defines "m \<equiv> (\<Sum>i<n. x i) / n" and "my \<equiv> (\<Sum>i<n. y i) / n"
  defines "sxx \<equiv> \<Sum>i<n. (x i - m)\<^sup>2" and "sxy \<equiv> \<Sum>i<n. (x i - m) * (y i - my)"
  assumes n: "0 < n" and drift: "if drift then 0 < sxx else b = 0"
    and err: "\<And>i. i < n \<Longrightarrow> \<bar>y i - (a + b * x i)\<bar> \<le> r i"
  shows "\<bar>my + (if drift then sxy / sxx else 0) * c - (a + b * (m + c))\<bar> \<le>
    (\<Sum>i<n. \<bar>1 / n + (if drift then c * (x i - m) / sxx else 0)\<bar> * r i)"
proof -
  define k where "k = (if drift then c / sxx else 0)"
  define w where "w i = 1 / n + k * (x i - m)" for i
  define e where "e i = y i - (a + b * x i)" for i
  have sum_m: "(\<Sum>i<n. x i - m) = 0" using n by (simp add: m_def sum_subtractf)
  have "(\<Sum>i<n. w i) = 1" using n by (simp add: w_def sum.distrib sum_distrib_left [symmetric] sum_m)
  have "(\<Sum>i<n. (x i - m) * x i) = sxx + m * (\<Sum>i<n. x i - m)"
    unfolding sxx_def by (simp add: sum_distrib_left sum.distrib [symmetric] power2_eq_square algebra_simps)
  then have xx: "(\<Sum>i<n. (x i - m) * x i) = sxx" by (simp add: sum_m)
  have "(\<Sum>i<n. (x i - m) * y i) = sxy + my * (\<Sum>i<n. x i - m)"
    unfolding sxy_def by (simp add: sum_distrib_left sum.distrib [symmetric] algebra_simps)
  then have xy: "(\<Sum>i<n. (x i - m) * y i) = sxy" by (simp add: sum_m)
  have lin: "(\<Sum>i<n. w i * f i) = (\<Sum>i<n. f i) / n + k * (\<Sum>i<n. (x i - m) * f i)" for f
    by (simp add: w_def distrib_right sum.distrib sum_distrib_left sum_divide_distrib mult.assoc)
  have wy: "(\<Sum>i<n. w i * y i) = my + (if drift then sxy / sxx else 0) * c" by (simp add: lin xy my_def k_def)
  have wx: "(\<Sum>i<n. w i * (b * x i)) = b * (m + c)"
  proof -
    have "(\<Sum>i<n. w i * (b * x i)) = b * (\<Sum>i<n. w i * x i)" by (simp add: sum_distrib_left mult.left_commute)
    also have "\<dots> = b * (m + k * sxx)" unfolding lin xx unfolding m_def by simp
    also have "\<dots> = b * (m + c)" using drift by (simp add: k_def split: if_splits)
    finally show ?thesis .
  qed
  have "(\<Sum>i<n. w i * e i) = (\<Sum>i<n. w i * y i) - (\<Sum>i<n. w i) * a - (\<Sum>i<n. w i * (b * x i))"
    by (simp add: e_def sum_distrib_right right_diff_distrib distrib_left sum_subtractf sum.distrib)
  then have "my + (if drift then sxy / sxx else 0) * c - (a + b * (m + c)) = (\<Sum>i<n. w i * e i)"
    using \<open>(\<Sum>i<n. w i) = 1\<close> wy wx by (simp add: algebra_simps)
  also have "\<bar>\<dots>\<bar> \<le> (\<Sum>i<n. \<bar>w i * e i\<bar>)" by (rule sum_abs)
  also have "\<dots> \<le> (\<Sum>i<n. \<bar>w i\<bar> * r i)"
    using err by (intro sum_mono) (simp add: abs_mult e_def mult_left_mono)
  also have "w = (\<lambda>i. 1 / n + (if drift then c * (x i - m) / sxx else 0))" by (simp add: w_def k_def fun_eq_iff)
  finally show ?thesis .
qed

lemma sum_list_index: "sum_list (map f xs) = (\<Sum>i<length xs. f (xs ! i))" for f :: "'b \<Rightarrow> real"
  by (simp add: sum_list_sum_nth atLeast0LessThan)

text \<open>The true offset \<open>a + b t\<close> at client time \<open>t\<close>, measured by a sample up to half its round trip.\<close>

definition measures :: "real \<Rightarrow> real \<Rightarrow> ClockSample \<Rightarrow> bool" where
  "measures a b sm \<longleftrightarrow> \<bar>real_of_int (offset_twice_us sm) / 2 - (a + b * (real_of_int (client_midpoint_twice_us sm) / 2))\<bar>
     \<le> u64_real (network_rtt_us sm) / 2"

lemma fit_of_bound:
  assumes f: "fit_of c ss = Some f" and ok: "\<forall>sm\<in>set ss. measures a b sm" and drift: "drift_estimated f \<or> b = 0"
  shows "\<bar>fitted_offset f (centered f now) - (a + b * u64_real now)\<bar> \<le>
    sum_list (map (\<lambda>(sx, hr). \<bar>fit_weight f (centered f now) sx\<bar> * hr) (fit_selected f))"
proof -
  obtain first rest where ss: "ss = first # rest" using f by (auto simp: fit_of_def split: list.splits)
  define ref where "ref = client_send_us first"
  define off where "off = offset_twice_us first"
  define xy where "xy = fit_points ref off ss"
  define x where "x i = fst (xy ! i)" for i
  define y where "y i = snd (xy ! i)" for i
  define r where "r i = u64_real (network_rtt_us (ss ! i)) / 2" for i
  have len: "length xy = length ss" "length ss \<noteq> 0" by (simp_all add: xy_def fit_points_def ss)
  let ?n = "length ss"
  define m where "m = (\<Sum>i<?n. x i) / ?n"
  define my where "my = (\<Sum>i<?n. y i) / ?n"
  define sxx where "sxx = (\<Sum>i<?n. (x i - m)\<^sup>2)"
  define sxy where "sxy = (\<Sum>i<?n. (x i - m) * (y i - my))"
  have fields: "reference_client_us f = ref" "reference_offset_twice_us f = off" "mean_x_us f = m" "mean_y_us f = my"
    "fit_sxx f = sxx" "fit_slope f = (if drift_estimated f then sxy / sxx else 0)" "drift_estimated f \<Longrightarrow> 0 < sxx"
    "fit_selected f = map (\<lambda>(v, s). (fst v - m, u64_real (network_rtt_us s) / 2)) (zip xy ss)"
    using f len unfolding m_def my_def sxx_def sxy_def x_def y_def
    by (auto simp: fit_of_def ss Let_def ref_def off_def xy_def sum_list_index split: option.splits)
  have xi: "x i = real_of_int (client_midpoint_twice_us (ss ! i)) / 2 - u64_real ref"
    "y i = real_of_int (offset_twice_us (ss ! i)) / 2 - real_of_int off / 2" if "i < ?n" for i
    using that by (simp_all add: x_def y_def xy_def fit_points_def u64_real_def field_simps)
  let ?a = "a + b * u64_real ref - real_of_int off / 2"
  have err: "\<bar>y i - (?a + b * x i)\<bar> \<le> r i" if "i < ?n" for i
    using ok that nth_mem [OF that] by (auto simp: measures_def xi r_def field_simps)
  have cx: "m + centered f now = u64_real now - u64_real ref" by (simp add: centered_def fields u64_real_def)
  have "\<bar>my + (if drift_estimated f then sxy / sxx else 0) * centered f now - (?a + b * (m + centered f now))\<bar> \<le>
      (\<Sum>i<?n. \<bar>1 / ?n + (if drift_estimated f then centered f now * (x i - m) / sxx else 0)\<bar> * r i)"
    unfolding m_def my_def sxx_def sxy_def
    by (rule least_squares_bound) (use len drift fields(7) err in \<open>auto simp: m_def sxx_def\<close>)
  moreover have "(\<Sum>i<?n. \<bar>1 / ?n + (if drift_estimated f then centered f now * (x i - m) / sxx else 0)\<bar> * r i) =
      sum_list (map (\<lambda>(sx, hr). \<bar>fit_weight f (centered f now) sx\<bar> * hr) (fit_selected f))"
    using len by (simp add: sum_list_index fields fit_weight_def x_def r_def cong: if_cong)
  moreover have "fitted_offset f (centered f now) - (a + b * u64_real now) =
      my + (if drift_estimated f then sxy / sxx else 0) * centered f now - (?a + b * (m + centered f now))"
    unfolding cx by (simp add: fitted_offset_def fields algebra_simps)
  ultimately show ?thesis by simp
qed

section \<open>Invariant\<close>

definition config_ok :: "ClockSyncConfig \<Rightarrow> bool" where
  "config_ok c \<longleftrightarrow> 3 \<le> sample_capacity c \<and> sample_capacity c \<le> 4096 \<and> 0 < max_pending_probes c \<and>
     max_pending_probes c \<le> 4096 \<and> 0 \<le> low_rtt_ratio c"

text \<open>Every stored local time is at most the latest one, so that no elapsed time wraps.\<close>

definition not_after :: "u64 option \<Rightarrow> u64 \<Rightarrow> bool" where
  "not_after latest t \<longleftrightarrow> (case latest of None \<Rightarrow> False | Some l \<Rightarrow> t \<le> l)"

definition probes_ok :: "nat \<Rightarrow> u64 option \<Rightarrow> u64 option \<Rightarrow> (u64 \<times> u64) list \<Rightarrow> bool" where
  "probes_ok cap hi latest m \<longleftrightarrow> bt_wf m \<and> length m \<le> cap \<and> (\<forall>(i, t) \<in> set m. not_after hi i \<and> not_after latest t)"

definition sample_valid :: "ClockSample \<Rightarrow> bool" where
  "sample_valid sm \<longleftrightarrow> client_send_us sm \<le> client_recv_us sm \<and> host_recv_us sm \<le> host_send_us sm \<and>
     int (unat (network_rtt_us sm)) = (int (unat (client_recv_us sm)) - int (unat (client_send_us sm))) -
       (int (unat (host_send_us sm)) - int (unat (host_recv_us sm))) \<and>
     offset_twice_us sm = (int (unat (host_recv_us sm)) - int (unat (client_send_us sm))) +
       (int (unat (host_send_us sm)) - int (unat (client_recv_us sm)))"

definition samples_ok :: "ClockSyncConfig \<Rightarrow> u64 option \<Rightarrow> ClockSample list \<Rightarrow> ClockFit option \<Rightarrow> bool" where
  "samples_ok c latest ss f \<longleftrightarrow> length ss \<le> sample_capacity c \<and> (\<forall>sm \<in> set ss. not_after latest (client_recv_us sm) \<and> sample_valid sm) \<and>
     (if ss = [] then f = None else f \<noteq> None \<and> f = fit_of c (low_rtt c ss))"

definition sync_inv :: "ClockSynchronizer \<Rightarrow> bool" where
  "sync_inv s \<longleftrightarrow> config_ok (config s) \<and>
     probes_ok (max_pending_probes (config s)) (highest_probe_id s) (latest_local_us s) (pending_probes s) \<and>
     samples_ok (config s) (latest_local_us s) (samples s) (fit s)"

lemma with_config_inv: "with_config c = Ok s \<Longrightarrow> sync_inv s \<and> config s = c"
  by (auto simp: with_config_def sync_inv_def config_ok_def probes_ok_def samples_ok_def split: if_splits)

lemma trim_subset: "set (trim_samples c now ss) \<subseteq> set ss"
  by (induction ss) auto

lemma trim_length: "0 < sample_capacity c \<Longrightarrow> length (trim_samples c now ss) < sample_capacity c"
  by (induction ss) auto

text \<open>The sample with the shortest round trip is always selected: the fit has a first sample.\<close>

lemma low_rtt_nonempty:
  assumes "ss \<noteq> []" "0 \<le> low_rtt_ratio c"
  shows "low_rtt c ss \<noteq> []"
proof -
  let ?m = "Min (set (map network_rtt_us ss))"
  have "?m \<in> set (map network_rtt_us ss)" using assms(1) by (intro Min_in) auto
  then obtain sm where sm: "sm \<in> set ss" "network_rtt_us sm = ?m" by auto
  have "u64_real ?m \<le> u64_real ?m + max (u64_real (low_rtt_slack_us c)) (u64_real ?m * low_rtt_ratio c)"
    using assms(2) by (simp add: le_max_iff_disj)
  then have "sm \<in> set (low_rtt c ss)" using sm assms(1) by (simp add: low_rtt_def rtt_threshold_def min_of_def Let_def)
  then show ?thesis by auto
qed

lemma fit_of_defined: "ss \<noteq> [] \<Longrightarrow> fit_of c ss \<noteq> None"
  by (cases ss) (simp_all add: fit_of_def min_of_def max_of_def Let_def)

lemma refit_defined:
  assumes "samples s \<noteq> []" "config_ok (config s)"
  obtains f where "refit s = Some (s\<lparr>fit := Some f\<rparr>)" "fit_of (config s) (low_rtt (config s) (samples s)) = Some f"
  using fit_of_defined [OF low_rtt_nonempty [OF assms(1)], of "config s" "config s"] assms(2) that
  by (auto simp: refit_def config_ok_def)

lemma invalidate_inv: "sync_inv s \<Longrightarrow> sync_inv (invalidate_measurements s)"
  by (simp add: sync_inv_def invalidate_measurements_def probes_ok_def samples_ok_def)

lemma reset_inv: "sync_inv s \<Longrightarrow> sync_inv (sync_reset s)"
  by (simp add: sync_inv_def sync_reset_def invalidate_measurements_def probes_ok_def samples_ok_def)

lemma not_after_mono: "not_after l t \<Longrightarrow> (\<And>l'. l = Some l' \<Longrightarrow> l' \<le> now) \<Longrightarrow> not_after (Some now) t"
  by (auto simp: not_after_def split: option.splits intro: order_trans)

lemma check_local_time_Ok: "check_local_time now s = Ok () \<longleftrightarrow> (\<forall>l. latest_local_us s = Some l \<longrightarrow> l \<le> now)"
  by (auto simp: check_local_time_def not_less split: option.splits)

lemma set_bt_remove: "set (bt_remove k m) \<subseteq> set m"
  by (auto simp: bt_remove_def)

lemma set_bt_insert_subset: "set (bt_insert k v m) \<subseteq> insert (k, v) (set m)"
  by (induction k v m rule: bt_insert.induct) auto

lemma probes_ok_filter: "probes_ok cap hi l m \<Longrightarrow> probes_ok cap hi l (filter P m)"
  by (auto simp: probes_ok_def bt_wf_filter intro: le_trans [OF length_filter_le])

lemma probes_ok_remove: "probes_ok cap hi l m \<Longrightarrow> probes_ok cap hi l (bt_remove k m)"
  by (simp add: bt_remove_def probes_ok_filter)

lemma probes_ok_mono:
  "probes_ok cap hi l m \<Longrightarrow> (\<And>t. not_after l t \<Longrightarrow> not_after l' t) \<Longrightarrow> (\<And>i. not_after hi i \<Longrightarrow> not_after hi' i) \<Longrightarrow> probes_ok cap hi' l' m"
  by (fastforce simp: probes_ok_def)

lemma probes_ok_insert:
  assumes "probes_ok cap (Some i) (Some t) m" "length m < cap"
  shows "probes_ok cap (Some i) (Some t) (bt_insert i t m)"
proof -
  have "bt_wf m" using assms(1) by (simp add: probes_ok_def)
  then have "length (bt_insert i t m) \<le> cap"
    using assms(2) btree.size_ins_new [of m i t] btree.size_ins_old [of m i _ t] by (cases "map_of m i") auto
  moreover have "\<forall>(j, x) \<in> set (bt_insert i t m). not_after (Some i) j \<and> not_after (Some t) x"
    using set_bt_insert_subset [of i t m] assms(1) by (fastforce simp: probes_ok_def not_after_def)
  ultimately show ?thesis using \<open>bt_wf m\<close> by (simp add: probes_ok_def bt_wf_insert)
qed

lemma samples_ok_mono:
  "samples_ok c l ss f \<Longrightarrow> (\<And>t. not_after l t \<Longrightarrow> not_after l' t) \<Longrightarrow> samples_ok c l' ss f"
  by (auto simp: samples_ok_def)

lemma begin_probe_inv:
  assumes inv: "sync_inv s"
  shows "sync_inv (fst (begin_probe i t s))"
proof -
  let ?p = "filter (\<lambda>(_, sent). t - sent \<le> probe_timeout_us (config s)) (pending_probes s)"
  have p: "probes_ok (max_pending_probes (config s)) (highest_probe_id s) (latest_local_us s) ?p"
    using inv by (simp add: sync_inv_def probes_ok_filter)
  show ?thesis
  proof (cases "check_local_time t s = Ok () \<and> \<not> (case highest_probe_id s of Some q \<Rightarrow> i \<le> q | None \<Rightarrow> False)")
    case False
    then have "fst (begin_probe i t s) = s" by (cases "check_local_time t s") (simp_all add: begin_probe_def)
    then show ?thesis using inv by simp
  next
    case True
    then have le: "not_after (latest_local_us s) x \<Longrightarrow> not_after (Some t) x" "not_after (highest_probe_id s) x \<Longrightarrow> not_after (Some i) x" for x
      by (cases "latest_local_us s"; cases "highest_probe_id s"; force simp: check_local_time_Ok not_after_def)+
    have eq: "fst (begin_probe i t s) = (if length ?p \<ge> max_pending_probes (config s) then s\<lparr>pending_probes := ?p\<rparr>
        else s\<lparr>pending_probes := bt_insert i t ?p, highest_probe_id := Some i, latest_local_us := Some t\<rparr>)"
      using True by (simp add: begin_probe_def Let_def)
    have "samples_ok (config s) (Some t) (samples s) (fit s)" by (rule samples_ok_mono [OF _ le(1)]) (use inv in \<open>simp_all add: sync_inv_def\<close>)
    moreover have "length ?p < max_pending_probes (config s) \<Longrightarrow>
        probes_ok (max_pending_probes (config s)) (Some i) (Some t) (bt_insert i t ?p)"
      by (rule probes_ok_insert [OF probes_ok_mono [OF p le]])
    ultimately show ?thesis using inv p unfolding eq by (simp add: sync_inv_def not_le)
  qed
qed

lemma make_sample_Ok:
  assumes "make_sample c i cs hr hs lr = Ok sm"
  shows "client_recv_us sm = lr" "client_send_us sm = cs" "probe_id sm = i" "host_recv_us sm = hr" "host_send_us sm = hs"
    "cs \<le> lr" "hr \<le> hs" "unat (network_rtt_us sm) = (unat lr - unat cs) - (unat hs - unat hr)" "unat hs - unat hr \<le> unat lr - unat cs"
    "offset_twice_us sm = (int (unat hr) - int (unat cs)) + (int (unat hs) - int (unat lr))"
    "client_midpoint_twice_us sm = int (unat cs) + int (unat lr)" "lr - cs \<le> probe_timeout_us c"
proof -
  obtain raw pr net where w: "checked_sub lr cs = Some raw" "checked_sub hs hr = Some pr" "checked_sub raw pr = Some net" "raw \<le> probe_timeout_us c"
    and sm: "sm = \<lparr>probe_id = i, client_send_us = cs, host_recv_us = hr, host_send_us = hs,
       client_recv_us = lr, raw_total_rtt_us = raw, host_processing_us = pr, network_rtt_us = net,
       offset_us = real_of_int ((int (unat hr) - int (unat cs)) + (int (unat hs) - int (unat lr))) / 2,
       offset_twice_us = (int (unat hr) - int (unat cs)) + (int (unat hs) - int (unat lr)),
       client_midpoint_twice_us = int (unat cs) + int (unat lr)\<rparr>"
    using assms by (auto simp: make_sample_def try_bind_eq_Ok ok_or_eq_Ok Let_def split: if_splits)
  have w': "cs \<le> lr" "raw = lr - cs" "hr \<le> hs" using w(1,2) by (simp_all add: checked_sub_Some)
  show "client_recv_us sm = lr" "client_send_us sm = cs" "probe_id sm = i" "host_recv_us sm = hr" "host_send_us sm = hs"
    "cs \<le> lr" "hr \<le> hs" "unat (network_rtt_us sm) = (unat lr - unat cs) - (unat hs - unat hr)" "unat hs - unat hr \<le> unat lr - unat cs"
    "offset_twice_us sm = (int (unat hr) - int (unat cs)) + (int (unat hs) - int (unat lr))"
    "client_midpoint_twice_us sm = int (unat cs) + int (unat lr)" "lr - cs \<le> probe_timeout_us c"
    using w w' unat_checked_sub [OF w(1)] unat_checked_sub [OF w(2)] unat_checked_sub [OF w(3)] by (simp_all add: sm)
qed

lemma make_sample_valid:
  assumes "make_sample c i cs hr hs lr = Ok sm"
  shows "sample_valid sm"
proof -
  note ok = make_sample_Ok [OF assms]
  have "unat cs \<le> unat lr" "unat hr \<le> unat hs" using ok(6,7) by (simp_all add: word_le_nat_alt)
  then show ?thesis using ok by (simp add: sample_valid_def of_nat_diff)
qed

lemma complete_probe_inv:
  assumes inv: "sync_inv s"
  shows "\<exists>s' r. complete_probe i e hr hs lr s = Some (s', r) \<and> sync_inv s'"
proof -
  let ?s1 = "s\<lparr>pending_probes := bt_remove i (pending_probes s)\<rparr>"
  have s1: "sync_inv ?s1" using inv by (simp add: sync_inv_def probes_ok_remove)
  show ?thesis
  proof (cases "\<exists>sm. map_of (pending_probes s) i = Some e \<and> check_local_time lr ?s1 = Ok () \<and> make_sample (config s) i e hr hs lr = Ok sm")
    case False
    then show ?thesis
      using inv s1 by (auto simp: complete_probe_def Let_def try_bind_def split: option.splits sum.splits)
  next
    case True
    then obtain sm where sm: "map_of (pending_probes s) i = Some e" "check_local_time lr ?s1 = Ok ()"
      "make_sample (config s) i e hr hs lr = Ok sm" by blast
    define s2 where "s2 = (if sample_changes_clock_epoch sm ?s1 then invalidate_measurements ?s1 else ?s1)"
    define s3 where "s3 = s2\<lparr>latest_local_us := Some lr, samples := trim_samples (config s) lr (samples s2) @ [sm]\<rparr>"
    have s2: "sync_inv s2" "config s2 = config s" "latest_local_us s2 \<in> {None, latest_local_us s}"
      using s1 by (simp_all add: s2_def invalidate_inv) (simp_all add: invalidate_measurements_def)
    have le: "not_after (latest_local_us s2) x \<Longrightarrow> not_after (Some lr) x" for x
      using s2(3) sm(2) by (cases "latest_local_us s2") (auto simp: check_local_time_Ok not_after_def intro: order_trans)
    have c: "config_ok (config s)" using inv by (simp add: sync_inv_def)
    obtain f where f: "refit s3 = Some (s3\<lparr>fit := Some f\<rparr>)" "fit_of (config s) (low_rtt (config s) (samples s3)) = Some f"
      using refit_defined [of s3] c s2(2) by (auto simp: s3_def)
    have "length (samples s3) \<le> sample_capacity (config s)"
      using trim_length [of "config s" lr "samples s2"] c by (simp add: s3_def config_ok_def)
    moreover have "\<forall>q\<in>set (samples s3). not_after (Some lr) (client_recv_us q) \<and> sample_valid q"
      using s2(1) le trim_subset [of "config s" lr "samples s2"] make_sample_Ok(1) [OF sm(3)] make_sample_valid [OF sm(3)]
      by (auto simp: s3_def sync_inv_def samples_ok_def not_after_def [of "Some lr" lr])
    moreover have "samples s3 \<noteq> []" by (simp add: s3_def)
    ultimately have "samples_ok (config s) (Some lr) (samples s3) (Some f)" using f(2) by (simp add: samples_ok_def)
    moreover have "probes_ok (max_pending_probes (config s)) (highest_probe_id s2) (Some lr) (pending_probes s2)"
      by (rule probes_ok_mono [OF _ le]) (use s2(1,2) in \<open>simp_all add: sync_inv_def\<close>)
    ultimately have "sync_inv (s3\<lparr>fit := Some f\<rparr>)" using c s2(2) by (simp add: sync_inv_def s3_def)
    moreover have "complete_probe i e hr hs lr s = Some (s3\<lparr>fit := Some f\<rparr>, Ok sm)"
      using sm f(1) unfolding s2_def s3_def by (simp add: complete_probe_def Let_def)
    ultimately show ?thesis by blast
  qed
qed

section \<open>Histories\<close>

datatype clock_op = BeginOp u64 u64 | CancelOp u64 | CompleteOp u64 u64 u64 u64 u64 | InvalidateOp

text \<open>A step within one session, and the probe whose answer became a sample.\<close>

definition clock_step :: "ClockSynchronizer \<Rightarrow> clock_op \<Rightarrow> ClockSynchronizer \<times> u64 option" where
  "clock_step s x = (case x of
     BeginOp i t \<Rightarrow> (fst (begin_probe i t s), None)
   | CancelOp i \<Rightarrow> (fst (cancel_probe i s), None)
   | CompleteOp i e hr hs lr \<Rightarrow> (case complete_probe i e hr hs lr s of
       Some (s', Inr sm) \<Rightarrow> (s', Some (probe_id sm)) | Some (s', Inl _) \<Rightarrow> (s', None) | None \<Rightarrow> (s, None))
   | InvalidateOp \<Rightarrow> (invalidate_measurements s, None))"

lemma clock_step_inv: "sync_inv s \<Longrightarrow> sync_inv (fst (clock_step s x))"
proof (cases x)
  case (CancelOp i)
  then show "sync_inv s \<Longrightarrow> ?thesis" by (simp add: clock_step_def cancel_probe_def sync_inv_def probes_ok_remove)
next
  case (CompleteOp i e hr hs lr)
  then show "sync_inv s \<Longrightarrow> ?thesis"
    using complete_probe_inv [of s i e hr hs lr] by (auto simp: clock_step_def split: sum.splits)
qed (simp_all add: clock_step_def begin_probe_inv invalidate_inv)

interpretation clock: op_machine "\<lambda>s x. fst (clock_step s x)" sync_inv
  by unfold_locales (rule clock_step_inv)

definition probe_spent :: "ClockSynchronizer \<Rightarrow> u64 \<Rightarrow> bool" where
  "probe_spent s i \<longleftrightarrow> not_after (highest_probe_id s) i \<and> map_of (pending_probes s) i = None"

lemma complete_probe_cases:
  assumes "complete_probe i e hr hs lr s = Some (s', r)"
  shows "highest_probe_id s' = highest_probe_id s"
    "pending_probes s' = pending_probes s \<or> pending_probes s' = bt_remove i (pending_probes s) \<or> pending_probes s' = []"
    "r = Ok sm \<Longrightarrow> probe_id sm = i \<and> map_of (pending_probes s) i \<noteq> None \<and> map_of (pending_probes s') i = None"
  using assms
  by (auto simp: complete_probe_def Let_def refit_def invalidate_measurements_def try_bind_eq_Ok map_of_bt_remove
      dest: make_sample_Ok(3) split: option.splits if_splits sum.splits)

lemma begin_probe_spent:
  assumes "bt_wf (pending_probes s)" "probe_spent s j"
  shows "probe_spent (fst (begin_probe i t s)) j"
proof -
  have f: "map_of (filter P (pending_probes s)) j = None" for P
    using assms(2) by (auto simp: probe_spent_def map_of_eq_None_iff)
  show ?thesis
    using assms f by (auto simp: probe_spent_def begin_probe_def Let_def not_after_def map_of_bt_insert bt_wf_filter not_le
        split: sum.splits option.splits)
qed

interpretation probes: at_most_once clock_step probe_spent sync_inv
proof
  fix s s' x k
  assume inv: "sync_inv s" and st: "clock_step s x = (s', Some k)"
  then obtain i e hr hs lr sm where "complete_probe i e hr hs lr s = Some (s', Ok sm)" "k = probe_id sm"
    by (auto simp: clock_step_def split: clock_op.splits option.splits sum.splits)
  note c = complete_probe_cases(1) [OF this(1)] complete_probe_cases(3) [OF this(1) refl] this(2)
  then obtain t where "(k, t) \<in> set (pending_probes s)" by (auto dest: map_of_SomeD)
  then have "not_after (highest_probe_id s) k" using inv by (auto simp: sync_inv_def probes_ok_def)
  then show "\<not> probe_spent s k" "probe_spent s' k" using c by (auto simp: probe_spent_def)
next
  fix s s' x r k
  assume inv: "sync_inv s" and st: "clock_step s x = (s', r)"
  show "sync_inv s'" using clock_step_inv [OF inv, of x] st by simp
  assume k: "probe_spent s k"
  have rem: "map_of (bt_remove j (pending_probes s)) k = None" for j using k by (simp add: probe_spent_def map_of_bt_remove)
  show "probe_spent s' k"
  proof (cases x)
    case (BeginOp i t)
    have "bt_wf (pending_probes s)" using inv by (simp add: sync_inv_def probes_ok_def)
    then show ?thesis using begin_probe_spent [OF _ k, of i t] BeginOp st by (simp add: clock_step_def)
  next
    case (CompleteOp i e hr hs lr)
    obtain r' where "complete_probe i e hr hs lr s = Some (s', r')"
      using complete_probe_inv [OF inv, of i e hr hs lr] st CompleteOp by (auto simp: clock_step_def split: sum.splits)
    from complete_probe_cases(1,2) [OF this] show ?thesis using k rem by (auto simp: probe_spent_def)
  qed (use st k rem in \<open>auto simp: clock_step_def cancel_probe_def invalidate_measurements_def probe_spent_def\<close>)
qed

text \<open>Only probes that were begun, here or before, can become samples.\<close>

lemma pending_step:
  assumes "clock_step s x = (s', r)"
  shows "fst ` set (pending_probes s') \<subseteq> fst ` set (pending_probes s) \<union> {i. \<exists>t. x = BeginOp i t}"
    "r = Some k \<Longrightarrow> k \<in> fst ` set (pending_probes s)"
proof -
  have rem: "fst ` set (bt_remove i m) \<subseteq> fst ` set m" for i and m :: "(u64 \<times> u64) list" using set_bt_remove [of i m] by blast
  have ins: "fst ` set (bt_insert i t (filter P m)) \<subseteq> insert i (fst ` set m)" for i t P and m :: "(u64 \<times> u64) list"
    using set_bt_insert_subset [of i t "filter P m"] by fastforce
  show "fst ` set (pending_probes s') \<subseteq> fst ` set (pending_probes s) \<union> {i. \<exists>t. x = BeginOp i t}"
  proof (cases x)
    case (BeginOp i t)
    define m where "m = filter (\<lambda>(_, sent). t - sent \<le> probe_timeout_us (config s)) (pending_probes s)"
    have "pending_probes s' = pending_probes s \<or> pending_probes s' = m \<or> pending_probes s' = bt_insert i t m"
      using assms unfolding BeginOp m_def by (auto simp: clock_step_def begin_probe_def Let_def split: sum.splits if_splits)
    moreover have "fst ` set m \<subseteq> fst ` set (pending_probes s)" by (auto simp: m_def)
    moreover have "fst ` set (bt_insert i t m) \<subseteq> insert i (fst ` set (pending_probes s))" unfolding m_def by (rule ins)
    ultimately have "fst ` set (pending_probes s') \<subseteq> insert i (fst ` set (pending_probes s))" by (elim disjE) auto
    moreover have "{i. \<exists>t. x = BeginOp i t} = {i}" by (simp add: BeginOp)
    ultimately show ?thesis by simp
  next
    case (CancelOp i)
    then have "pending_probes s' = bt_remove i (pending_probes s)" using assms by (auto simp: clock_step_def cancel_probe_def)
    then show ?thesis using rem [of i "pending_probes s"] by (simp add: le_supI1)
  next
    case (CompleteOp i e hr hs lr)
    show ?thesis
    proof (cases "complete_probe i e hr hs lr s")
      case (Some sr)
      then have "fst sr = s'" using assms CompleteOp by (auto simp: clock_step_def split: prod.splits sum.splits)
      then have "complete_probe i e hr hs lr s = Some (s', snd sr)" using Some by (cases sr) simp
      from complete_probe_cases(2) [OF this] show ?thesis using rem [of i "pending_probes s"]
        by (elim disjE) (simp_all add: le_supI1)
    qed (use assms CompleteOp in \<open>simp add: clock_step_def\<close>)
  qed (use assms in \<open>auto simp: clock_step_def invalidate_measurements_def\<close>)
  assume "r = Some k"
  then obtain i e hr hs lr sm where "complete_probe i e hr hs lr s = Some (s', Ok sm)" "k = probe_id sm"
    using assms by (auto simp: clock_step_def split: clock_op.splits option.splits prod.splits sum.splits)
  from complete_probe_cases(3) [OF this(1), of sm] this(2) show "k \<in> fst ` set (pending_probes s)"
    by (auto simp: map_of_eq_None_iff)
qed

lemma accepted_begun: "set (accepted_keys clock_step s ops) \<subseteq> fst ` set (pending_probes s) \<union> {i. \<exists>t. BeginOp i t \<in> set ops}"
proof (induction ops arbitrary: s)
  case (Cons x ops)
  obtain s' r where st: "clock_step s x = (s', r)" by force
  have new: "fst ` set (pending_probes s') \<union> {i. \<exists>t. BeginOp i t \<in> set ops} \<subseteq>
      fst ` set (pending_probes s) \<union> {i. \<exists>t. BeginOp i t \<in> set (x # ops)}" using pending_step(1) [OF st] by auto
  have "set (accepted_keys clock_step s (x # ops)) \<subseteq> set_option r \<union> set (accepted_keys clock_step s' ops)"
    using st by (cases r) simp_all
  moreover have "set_option r \<subseteq> fst ` set (pending_probes s)" using pending_step(2) [OF st] by (cases r) simp_all
  ultimately show ?case using Cons [of s'] new by blast
qed simp

text \<open>
  C21. Whatever a peer answers, and however probes are begun, cancelled and answered: the synchronizer does
  not panic, its two tables stay within their configured sizes, all stored local times are in the past of its
  latest reading, so that no age computed from them wraps, and every stored sample has its four timestamps in
  order with a round trip and an offset that are the exact integer differences.  Only probes that were begun
  become samples, each at most once; late and repeated answers never do.
\<close>

theorem clock_measurements_sound:
  assumes "with_config c = Ok s0"
  defines "s \<equiv> \<lambda>ops. foldl (\<lambda>s x. fst (clock_step s x)) s0 ops"
  shows "complete_probe i e hr hs lr (s ops) \<noteq> None \<and> pending_probe_count (s ops) \<le> max_pending_probes (config (s ops)) \<and>
    length (samples (s ops)) \<le> sample_capacity (config (s ops)) \<and>
    list_all (\<lambda>(i, t). not_after (latest_local_us (s ops)) t) (pending_probes (s ops)) \<and>
    list_all (\<lambda>sm. not_after (latest_local_us (s ops)) (client_recv_us sm) \<and> sample_valid sm) (samples (s ops)) \<and>
    distinct (accepted_keys clock_step s0 ops) \<and> set (accepted_keys clock_step s0 ops) \<subseteq> {i. \<exists>t. BeginOp i t \<in> set ops}"
proof -
  have inv0: "sync_inv s0" using with_config_inv [OF assms(1)] by simp
  have "pending_probes s0 = []" using assms(1) by (auto simp: with_config_def simp del: not_less split: if_splits dest!: sym [of _ s0])
  then have empty: "fst ` set (pending_probes s0) = {}" by simp
  have inv: "sync_inv (s ops)" unfolding s_def by (rule clock.run_inv [OF inv0])
  show ?thesis
    using complete_probe_inv [OF inv, of i e hr hs lr] inv probes.accepted_distinct [OF inv0, of ops] accepted_begun [of s0 ops] empty
    by (auto simp: sync_inv_def probes_ok_def samples_ok_def pending_probe_count_def list_all_iff)
qed

section \<open>Accuracy\<close>

text \<open>The host's clock is \<open>\<theta>\<close> ahead, and no packet arrives before it was sent.\<close>

definition causal :: "int \<Rightarrow> ClockSample \<Rightarrow> bool" where
  "causal \<theta> sm \<longleftrightarrow> int (unat (client_send_us sm)) + \<theta> \<le> int (unat (host_recv_us sm)) \<and>
     int (unat (host_send_us sm)) \<le> int (unat (client_recv_us sm)) + \<theta>"

lemma causal_measures:
  assumes "sample_valid sm" "causal \<theta> sm"
  shows "measures (real_of_int \<theta>) 0 sm"
proof -
  have "\<bar>offset_twice_us sm - 2 * \<theta>\<bar> \<le> int (unat (network_rtt_us sm))" using assms unfolding sample_valid_def causal_def by linarith
  then have "\<bar>real_of_int (offset_twice_us sm - 2 * \<theta>)\<bar> \<le> u64_real (network_rtt_us sm)"
    unfolding u64_real_def by linarith
  then show ?thesis unfolding measures_def by (simp only: abs_le_iff mult_zero_left) linarith
qed

lemma low_rtt_subset: "set (low_rtt c ss) \<subseteq> set ss"
  by (auto simp: low_rtt_def)

lemma estimate_bound:
  assumes "sync_inv s" "estimate now s = Some e" "\<forall>sm\<in>set (samples s). measures a b sm" "ce_drift_estimated e \<or> b = 0"
  shows "\<bar>ce_offset_us e - (a + b * u64_real now)\<bar> \<le> ce_asymmetry_bound_us e"
proof -
  obtain f where f: "fit s = Some f" "samples s \<noteq> []" using assms(2) by (auto simp: estimate_def Let_def split: option.splits if_splits)
  have e: "ce_offset_us e = fitted_offset f (centered f now)" "ce_drift_estimated e = drift_estimated f"
    "ce_asymmetry_bound_us e = sum_list (map (\<lambda>(sx, hr). \<bar>fit_weight f (centered f now) sx\<bar> * hr) (fit_selected f))"
    using assms(2) f by (auto simp: estimate_def Let_def)
  have "fit_of (config s) (low_rtt (config s) (samples s)) = Some f" using assms(1) f by (simp add: sync_inv_def samples_ok_def)
  from fit_of_bound [OF this, of a b now] show ?thesis using e assms(3,4) low_rtt_subset [of "config s" "samples s"] by auto
qed

text \<open>
  In exact arithmetic the error allowance is sound.  When the host's clock runs an unknown constant \<open>\<theta>\<close> ahead
  (no drift) and packets take any nonnegative, possibly different, times in the two directions, the estimated
  offset is within the reported asymmetry bound of \<open>\<theta>\<close> at every query time, whether or not a drift was fitted.
\<close>

theorem clock_offset_within_bound:
  assumes "with_config c = Ok s0"
  defines "s \<equiv> \<lambda>ops. foldl (\<lambda>s x. fst (clock_step s x)) s0 ops"
  assumes "list_all (causal \<theta>) (samples (s ops))" "estimate now (s ops) = Some e"
  shows "\<bar>ce_offset_us e - real_of_int \<theta>\<bar> \<le> ce_asymmetry_bound_us e"
proof -
  have inv: "sync_inv (s ops)" unfolding s_def by (rule clock.run_inv) (use with_config_inv assms(1) in blast)
  then have "\<forall>sm\<in>set (samples (s ops)). measures (real_of_int \<theta>) 0 sm"
    using assms(3) causal_measures by (auto simp: sync_inv_def samples_ok_def list_all_iff)
  from estimate_bound [OF inv assms(4) this] show ?thesis by simp
qed

text \<open>
  The fit follows a drifting clock.  When the offset changes linearly with the client's time and every
  sample measures it to within half its round trip, an estimate with a fitted drift is within the
  reported bound at every query time, extrapolation included.
\<close>

lemma clock_drift_within_bound:
  assumes "with_config c = Ok s0"
  defines "s \<equiv> \<lambda>ops. foldl (\<lambda>s x. fst (clock_step s x)) s0 ops"
  assumes "list_all (measures a b) (samples (s ops))" "estimate now (s ops) = Some e" "ce_drift_estimated e"
  shows "\<bar>ce_offset_us e - (a + b * u64_real now)\<bar> \<le> ce_asymmetry_bound_us e"
proof -
  have inv: "sync_inv (s ops)" unfolding s_def by (rule clock.run_inv) (use with_config_inv assms(1) in blast)
  then show ?thesis using estimate_bound [OF inv assms(4)] assms(3,5) by (simp add: list_all_iff)
qed

text \<open>What an estimate that calls itself synchronized rests on.\<close>

lemma synchronized_is_fresh:
  assumes "sync_inv s" "estimate now s = Some e" "ce_state e = Synchronized"
  shows "ce_drift_estimated e \<and> ce_sample_age_us e \<le> freshness_limit_us (config s) \<and>
    (\<forall>l. latest_local_us s = Some l \<longrightarrow> l \<le> now) \<and> min_fit_samples (config s) \<le> ce_selected_sample_count e \<and>
    min_fit_span_us (config s) \<le> ce_selected_span_us e"
proof -
  obtain f where f: "fit s = Some f" "samples s \<noteq> []" using assms(2) by (auto simp: estimate_def Let_def split: option.splits if_splits)
  then have "fit_of (config s) (low_rtt (config s) (samples s)) = Some f" using assms(1) by (simp add: sync_inv_def samples_ok_def)
  then have "drift_estimated f \<Longrightarrow> min_fit_samples (config s) \<le> length (fit_selected f) \<and> min_fit_span_us (config s) \<le> selected_span_us f"
    by (auto simp: fit_of_def Let_def fit_points_def split: list.splits option.splits)
  then show ?thesis
    using assms(2,3) f by (auto simp: estimate_def Let_def not_less split: if_splits option.splits)
qed

section \<open>A demonstration\<close>

definition demo_sync :: ClockSynchronizer where
  "demo_sync = projr (with_config clock_config_default)"

lemma demo_sync_ok: "with_config clock_config_default = Ok demo_sync"
  by (simp add: demo_sync_def with_config_def clock_config_default_def)

definition demo_exchange :: "clock_op list" where
  "demo_exchange = [BeginOp 1 1000, CompleteOp 1 1000 1500 1500 1400]"

lemma demo_samples:
  "map (\<lambda>sm. (client_send_us sm, host_recv_us sm, host_send_us sm, client_recv_us sm))
     (samples (foldl (\<lambda>s x. fst (clock_step s x)) demo_sync demo_exchange)) = [(1000, 1500, 1500, 1400)]"
  by (simp add: demo_exchange_def clock_step_def begin_probe_def demo_sync_def with_config_def clock_config_default_def
      check_local_time_def Let_def complete_probe_def make_sample_def checked_sub_def sample_changes_clock_epoch_def refit_def
      fit_of_def low_rtt_def rtt_threshold_def min_of_def max_of_def le_max_iff_disj)

theorem clock_measurements_sound_witness:
  "complete_probe 1 1000 1500 1500 1400 (foldl (\<lambda>s x. fst (clock_step s x)) demo_sync demo_exchange) \<noteq> None \<and>
   distinct (accepted_keys clock_step demo_sync demo_exchange)"
  using clock_measurements_sound [OF demo_sync_ok, of 1 1000 1500 1500 1400 demo_exchange] by simp

theorem clock_offset_within_bound_witness:
  "\<exists>e. estimate 2000 (foldl (\<lambda>s x. fst (clock_step s x)) demo_sync demo_exchange) = Some e \<and>
     \<bar>ce_offset_us e - 300\<bar> \<le> ce_asymmetry_bound_us e"
proof -
  let ?s = "foldl (\<lambda>s x. fst (clock_step s x)) demo_sync demo_exchange"
  have inv: "sync_inv ?s" by (rule clock.run_inv) (use with_config_inv demo_sync_ok in blast)
  obtain sm where sm: "samples ?s = [sm]" "client_send_us sm = 1000" "host_recv_us sm = 1500" "host_send_us sm = 1500"
      "client_recv_us sm = 1400"
    using demo_samples by (cases "samples ?s") auto
  have "samples_ok (config ?s) (latest_local_us ?s) (samples ?s) (fit ?s)" using inv unfolding sync_inv_def by blast
  then have "fit ?s \<noteq> None" unfolding samples_ok_def using sm(1) by (metis list.discI)
  then obtain f where "fit ?s = Some f" by blast
  then obtain e where e: "estimate 2000 ?s = Some e" using sm(1) by (auto simp: estimate_def Let_def)
  have "list_all (causal 300) (samples ?s)" using sm by (simp add: causal_def)
  from clock_offset_within_bound [OF demo_sync_ok this e] e show ?thesis by auto
qed

end
