(* ===== verification/Clipboard.thy ===== *)
theory Clipboard
  imports File_Transfer
begin

text \<open>
  The clipboard: splitting a bundle into reliable chunks and putting it back together
  (\<open>remote_core/src/clipboard_plane.rs\<close>), the synchronisation endpoint that polls the local clipboard and
  applies what the peer sends (\<open>clipboard_sync.rs\<close>), the in-memory provider and the file name check
  (\<open>clipboard_provider.rs\<close>).

  The bincode form of a bundle is a parameter (\<open>clip_codec\<close>), and so is the provider of the trait
  \<open>ClipboardProvider\<close>: a pair of a read and a write operation on a state.  The length of a text is its
  number of bytes.
\<close>

section \<open>Policy\<close>

definition DEFAULT_CLIPBOARD_CHUNK_PAYLOAD_LEN :: nat where
  "DEFAULT_CLIPBOARD_CHUNK_PAYLOAD_LEN = 16 * 1024"

record 'e clip_codec =
  bundle_encode :: "ClipboardBundle \<Rightarrow> (bytes, 'e) result"
  bundle_decode :: "bytes \<Rightarrow> (ClipboardBundle, 'e) result"

datatype ClipboardItemClass = Class_Text | Class_Image | Class_File

record ClipboardSyncPolicy =
  allow_text :: bool
  allow_images :: bool
  allow_files :: bool
  max_text_bytes :: nat
  max_image_bytes :: nat
  max_file_bytes :: nat
  max_bundle_bytes :: nat

definition clipboard_policy_default :: ClipboardSyncPolicy where
  "clipboard_policy_default = \<lparr>allow_text = True, allow_images = True, allow_files = False, max_text_bytes = 1024 * 1024,
     max_image_bytes = 64 * 1024 * 1024, max_file_bytes = 256 * 1024 * 1024, max_bundle_bytes = 512 * 1024 * 1024\<rparr>"

definition with_files_allowed :: "ClipboardSyncPolicy \<Rightarrow> ClipboardSyncPolicy" where
  "with_files_allowed p = p\<lparr>allow_files := True\<rparr>"

datatype 'e ClipboardPlaneError =
  CP_EmptyBundle
| CP_InvalidImage nat
| CP_InvalidFileName nat
| CP_InvalidChunkPayloadLen
| CP_TooManyChunks nat
| CP_DisallowedItem nat ClipboardItemClass
| CP_ItemTooLarge nat ClipboardItemClass nat nat
| CP_BundleTooLarge nat nat
| CP_UnexpectedContentKind ContentKind
| CP_MissingChunkMetadata
| CP_Encode 'e
| CP_Decode 'e
| CP_ObjectTransfer ObjectTransferError

definition validate_item_size :: "nat \<Rightarrow> ClipboardItemClass \<Rightarrow> bool \<Rightarrow> nat \<Rightarrow> nat \<Rightarrow> (unit, 'e ClipboardPlaneError) result" where
  "validate_item_size item_index item_class allowed actual_bytes limit_bytes =
     (if \<not> allowed then Err (CP_DisallowedItem item_index item_class)
      else if actual_bytes > limit_bytes then Err (CP_ItemTooLarge item_index item_class actual_bytes limit_bytes)
      else Ok ())"

definition validate_item :: "ClipboardSyncPolicy \<Rightarrow> nat \<Rightarrow> ClipboardItem \<Rightarrow> (unit, 'e ClipboardPlaneError) result" where
  "validate_item p i item = (case item of
     ClipText text \<Rightarrow> validate_item_size i Class_Text (allow_text p) (length text) (max_text_bytes p)
   | ClipImage img \<Rightarrow> validate_item_size i Class_Image (allow_images p) (length (ci_bytes img)) (max_image_bytes p)
   | ClipFile file \<Rightarrow> validate_item_size i Class_File (allow_files p) (length (cf_bytes file)) (max_file_bytes p))"

text \<open>A loop over the items that stops at the first error.\<close>

fun check_items :: "(nat \<Rightarrow> ClipboardItem \<Rightarrow> (unit, 'e) result) \<Rightarrow> nat \<Rightarrow> ClipboardItem list \<Rightarrow> (unit, 'e) result" where
  "check_items f i [] = Ok ()"
| "check_items f i (x # xs) = try_bind (f i x) (\<lambda>_. check_items f (Suc i) xs)"

definition validate_bundle :: "'e clip_codec \<Rightarrow> ClipboardSyncPolicy \<Rightarrow> ClipboardBundle \<Rightarrow> (unit, 'e ClipboardPlaneError) result" where
  "validate_bundle cd p b =
     try_bind (check_items (validate_item p) 0 (cb_items b)) (\<lambda>_.
     try_bind (map_err CP_Encode (bundle_encode cd b)) (\<lambda>encoded.
     if length encoded > max_bundle_bytes p then Err (CP_BundleTooLarge (length encoded) (max_bundle_bytes p)) else Ok ()))"

definition well_formed_item :: "nat \<Rightarrow> ClipboardItem \<Rightarrow> (unit, 'e ClipboardPlaneError) result" where
  "well_formed_item i item = (case item of
     ClipText _ \<Rightarrow> Ok ()
   | ClipImage img \<Rightarrow> if ci_mime_type img = [] \<or> ci_bytes img = [] then Err (CP_InvalidImage i) else Ok ()
   | ClipFile file \<Rightarrow> if cf_name file = [] then Err (CP_InvalidFileName i) else Ok ())"

definition validate_clipboard_bundle :: "ClipboardBundle \<Rightarrow> (unit, 'e ClipboardPlaneError) result" where
  "validate_clipboard_bundle b =
     (if cb_items b = [] then Err CP_EmptyBundle else check_items well_formed_item 0 (cb_items b))"

section \<open>Splitting and reassembly\<close>

record ClipboardEnvelopeSpec =
  ces_object_id :: u64
  ces_stream_id :: u32
  ces_first_sequence_number :: u64
  ces_timestamp_ms :: u64
  ces_max_chunk_payload_len :: nat

definition ces_new :: "u64 \<Rightarrow> u32 \<Rightarrow> u64 \<Rightarrow> u64 \<Rightarrow> ClipboardEnvelopeSpec" where
  "ces_new oid sid seq ts = \<lparr>ces_object_id = oid, ces_stream_id = sid, ces_first_sequence_number = seq, ces_timestamp_ms = ts,
     ces_max_chunk_payload_len = DEFAULT_CLIPBOARD_CHUNK_PAYLOAD_LEN\<rparr>"

definition as_clipboard :: "DataEnvelope \<Rightarrow> DataEnvelope" where
  "as_clipboard e = e\<lparr>env_header := (env_header e)\<lparr>dh_kind := Kind_ClipboardBundle\<rparr>\<rparr>"

definition clipboard_chunk :: "ClipboardEnvelopeSpec \<Rightarrow> bytes \<Rightarrow> nat \<Rightarrow> nat \<Rightarrow> bytes \<Rightarrow> DataEnvelope" where
  "clipboard_chunk spec encoded n_chunks i payload = as_clipboard (object_chunk_envelope
     \<lparr>ocs_object_id = ces_object_id spec, ocs_stream_id = ces_stream_id spec,
      ocs_sequence_number = ces_first_sequence_number spec + word_of_nat i, ocs_timestamp_ms = ces_timestamp_ms spec,
      ocs_chunk_index = word_of_nat i, ocs_total_chunks = word_of_nat n_chunks,
      ocs_offset = word_of_nat (i * ces_max_chunk_payload_len spec), ocs_total_size = word_of_nat (length encoded),
      ocs_checksum_crc32 = Some (checksum_crc32 encoded)\<rparr> payload)"

definition clipboard_bundle_to_envelopes :: "'e clip_codec \<Rightarrow> ClipboardBundle \<Rightarrow> ClipboardEnvelopeSpec \<Rightarrow>
    (DataEnvelope list, 'e ClipboardPlaneError) result" where
  "clipboard_bundle_to_envelopes cd b spec =
     try_bind (validate_clipboard_bundle b) (\<lambda>_.
     if ces_max_chunk_payload_len spec = 0 then Err CP_InvalidChunkPayloadLen
     else try_bind (map_err CP_Encode (bundle_encode cd b)) (\<lambda>encoded.
       let n = ces_max_chunk_payload_len spec; n_chunks = (length encoded + n - 1) div n in
       if n_chunks \<ge> 2 ^ 32 then Err (CP_TooManyChunks n_chunks)
       else Ok (map (\<lambda>(i, payload). clipboard_chunk spec encoded n_chunks i payload) (enumerate 0 (chunks_of n encoded)))))"

definition clipboard_bundle_to_envelopes_with_policy :: "'e clip_codec \<Rightarrow> ClipboardBundle \<Rightarrow> ClipboardEnvelopeSpec \<Rightarrow>
    ClipboardSyncPolicy \<Rightarrow> (DataEnvelope list, 'e ClipboardPlaneError) result" where
  "clipboard_bundle_to_envelopes_with_policy cd b spec p =
     try_bind (validate_clipboard_bundle b) (\<lambda>_. try_bind (validate_bundle cd p b) (\<lambda>_. clipboard_bundle_to_envelopes cd b spec))"

type_synonym ClipboardBundleAssembler = ReliableObjectAssembler

definition ensure_clipboard_bundle :: "DataEnvelope \<Rightarrow> (unit, 'e ClipboardPlaneError) result" where
  "ensure_clipboard_bundle e = (if dh_kind (env_header e) \<noteq> Kind_ClipboardBundle
     then Err (CP_UnexpectedContentKind (dh_kind (env_header e))) else Ok ())"

definition envelope_checksum :: "DataEnvelope \<Rightarrow> u32 option" where
  "envelope_checksum e = (case dh_reliability_info (env_header e) of None \<Rightarrow> None | Some r \<Rightarrow> ri_checksum_crc32 r)"

definition from_first_chunk :: "DataEnvelope \<Rightarrow> (ClipboardBundleAssembler, 'e ClipboardPlaneError) result" where
  "from_first_chunk e =
     try_bind (ensure_clipboard_bundle e) (\<lambda>_.
     try_bind (ok_or (dh_chunk (env_header e)) CP_MissingChunkMetadata) (\<lambda>chunk.
     Ok (roa_new (ck_object_id chunk) (ck_total_chunks chunk) (ck_total_size chunk) (envelope_checksum e))))"

definition cba_push_chunk :: "DataEnvelope \<Rightarrow> ClipboardBundleAssembler \<Rightarrow>
    ClipboardBundleAssembler \<times> (ObjectProgress, 'e ClipboardPlaneError) result" where
  "cba_push_chunk e a = (case ensure_clipboard_bundle e of Inl err \<Rightarrow> (a, Err err)
     | Inr _ \<Rightarrow> apsnd (map_err CP_ObjectTransfer) (push_chunk e a))"

definition cba_finish :: "'e clip_codec \<Rightarrow> ClipboardBundleAssembler \<Rightarrow> (ClipboardBundle, 'e ClipboardPlaneError) result" where
  "cba_finish cd a = try_bind (map_err CP_ObjectTransfer (roa_finish a)) (\<lambda>obj. map_err CP_Decode (bundle_decode cd (co_bytes obj)))"

section \<open>The synchronisation endpoint\<close>

record ClipboardSyncConfig =
  csc_policy :: ClipboardSyncPolicy
  csc_stream_id :: u32
  csc_next_object_id :: u64
  csc_next_sequence_number :: u64
  csc_chunk_payload_len :: nat

definition clipboard_config_default :: ClipboardSyncConfig where
  "clipboard_config_default = \<lparr>csc_policy = clipboard_policy_default, csc_stream_id = 1, csc_next_object_id = 1,
     csc_next_sequence_number = 1, csc_chunk_payload_len = DEFAULT_CLIPBOARD_CHUNK_PAYLOAD_LEN\<rparr>"

record ClipboardOutgoingTransfer =
  cot_bundle_id :: u64
  cot_content_crc32 :: u32
  cot_envelopes :: "DataEnvelope list"

datatype 'e ClipboardSyncError =
  CS_Provider string
| CS_Plane "'e ClipboardPlaneError"
| CS_Encode 'e
| CS_MissingChunkMetadata
| CS_UnexpectedContentKind ContentKind

record 'p clip_provider =
  read_clipboard :: "ClipboardSyncPolicy \<Rightarrow> 'p \<Rightarrow> 'p \<times> (ClipboardBundle option, string) result"
  write_clipboard :: "ClipboardBundle \<Rightarrow> ClipboardSyncPolicy \<Rightarrow> 'p \<Rightarrow> 'p \<times> (unit, string) result"

type_synonym object_identity = "u64 \<times> u32 \<times> u64 \<times> u32 option"

record 'p ClipboardSyncEndpoint =
  cse_provider :: 'p
  cse_config :: ClipboardSyncConfig
  cse_inbound :: "(u64 \<times> ClipboardBundleAssembler) list"
  cse_last_sent :: "u32 option"
  cse_last_applied :: "u32 option"
  cse_completed :: "object_identity list"

definition cse_new :: "'p \<Rightarrow> ClipboardSyncConfig \<Rightarrow> 'p ClipboardSyncEndpoint" where
  "cse_new p c = \<lparr>cse_provider = p, cse_config = c, cse_inbound = [], cse_last_sent = None, cse_last_applied = None, cse_completed = []\<rparr>"

definition retry_outgoing :: "'p ClipboardSyncEndpoint \<Rightarrow> 'p ClipboardSyncEndpoint" where
  "retry_outgoing ep = ep\<lparr>cse_last_sent := None\<rparr>"

definition clipboard_content_crc32 :: "'e clip_codec \<Rightarrow> ClipboardBundle \<Rightarrow> (u32, 'e ClipboardSyncError) result" where
  "clipboard_content_crc32 cd b =
     try_bind (map_err CS_Encode (bundle_encode cd \<lparr>cb_bundle_id = 0, cb_items = cb_items b\<rparr>)) (\<lambda>encoded. Ok (checksum_crc32 encoded))"

definition poll_outgoing :: "'e clip_codec \<Rightarrow> 'p clip_provider \<Rightarrow> u64 \<Rightarrow> 'p ClipboardSyncEndpoint \<Rightarrow>
    'p ClipboardSyncEndpoint \<times> (ClipboardOutgoingTransfer option, 'e ClipboardSyncError) result" where
  "poll_outgoing cd pr timestamp_ms ep0 =
     (let c = cse_config ep0; (p', r) = read_clipboard pr (csc_policy c) (cse_provider ep0); ep = ep0\<lparr>cse_provider := p'\<rparr> in
      case r of
        Inl e \<Rightarrow> (ep, Err (CS_Provider e))
      | Inr None \<Rightarrow> (ep, Ok None)
      | Inr (Some b) \<Rightarrow>
        (case clipboard_content_crc32 cd b of
           Inl e \<Rightarrow> (ep, Err e)
         | Inr crc \<Rightarrow>
           if Some crc = cse_last_sent ep \<or> Some crc = cse_last_applied ep then (ep, Ok None)
           else
             let spec = \<lparr>ces_object_id = csc_next_object_id c, ces_stream_id = csc_stream_id c,
                   ces_first_sequence_number = csc_next_sequence_number c, ces_timestamp_ms = timestamp_ms,
                   ces_max_chunk_payload_len = csc_chunk_payload_len c\<rparr> in
             (case clipboard_bundle_to_envelopes_with_policy cd b spec (csc_policy c) of
                Inl e \<Rightarrow> (ep, Err (CS_Plane e))
              | Inr envelopes \<Rightarrow>
                (ep\<lparr>cse_config := c\<lparr>csc_next_object_id := saturating_add (csc_next_object_id c) 1,
                      csc_next_sequence_number := saturating_add (csc_next_sequence_number c) (word_of_nat (length envelopes))\<rparr>,
                    cse_last_sent := Some crc\<rparr>,
                 Ok (Some \<lparr>cot_bundle_id = cb_bundle_id b, cot_content_crc32 = crc, cot_envelopes = envelopes\<rparr>)))))"

definition remember_completed :: "object_identity \<Rightarrow> 'p ClipboardSyncEndpoint \<Rightarrow> 'p ClipboardSyncEndpoint" where
  "remember_completed i ep = (let c = cse_completed ep @ [i] in
     ep\<lparr>cse_completed := (if length c > 64 then tl c else c)\<rparr>)"

definition MAX_INBOUND_CHUNKS :: u32 where "MAX_INBOUND_CHUNKS = 131072"

text \<open>What happens once the last chunk of an object is in.\<close>

definition apply_bundle :: "'e clip_codec \<Rightarrow> 'p clip_provider \<Rightarrow> object_identity \<Rightarrow> ClipboardBundle \<Rightarrow> 'p ClipboardSyncEndpoint \<Rightarrow>
    'p ClipboardSyncEndpoint \<times> (ClipboardBundle option, 'e ClipboardSyncError) result" where
  "apply_bundle cd pr identity b ep =
     (case clipboard_content_crc32 cd b of
        Inl e \<Rightarrow> (ep, Err e)
      | Inr crc \<Rightarrow>
        if Some crc = cse_last_sent ep \<or> Some crc = cse_last_applied ep then (remember_completed identity ep, Ok None)
        else (case write_clipboard pr b (csc_policy (cse_config ep)) (cse_provider ep) of
            (p', Inl e) \<Rightarrow> (ep\<lparr>cse_provider := p'\<rparr>, Err (CS_Provider e))
          | (p', Inr _) \<Rightarrow> (remember_completed identity (ep\<lparr>cse_provider := p', cse_last_applied := Some crc\<rparr>), Ok (Some b))))"

definition receive_envelope :: "'e clip_codec \<Rightarrow> 'p clip_provider \<Rightarrow> DataEnvelope \<Rightarrow> 'p ClipboardSyncEndpoint \<Rightarrow>
    'p ClipboardSyncEndpoint \<times> (ClipboardBundle option, 'e ClipboardSyncError) result" where
  "receive_envelope cd pr e ep =
     (if dh_kind (env_header e) \<noteq> Kind_ClipboardBundle then (ep, Err (CS_UnexpectedContentKind (dh_kind (env_header e))))
      else case dh_chunk (env_header e) of
        None \<Rightarrow> (ep, Err CS_MissingChunkMetadata)
      | Some chunk \<Rightarrow>
        let oid = ck_object_id chunk; identity = (oid, ck_total_chunks chunk, ck_total_size chunk, envelope_checksum e) in
        if identity \<in> set (cse_completed ep) then (ep, Ok None)
        else if unat (ck_total_size chunk) > max_bundle_bytes (csc_policy (cse_config ep)) \<or> ck_total_chunks chunk > MAX_INBOUND_CHUNKS \<or>
          (length (cse_inbound ep) \<ge> 2 \<and> map_of (cse_inbound ep) oid = None)
        then (ep, Err (CS_Provider ''clipboard receive resource limit exceeded''))
        else (case (case map_of (cse_inbound ep) oid of Some a \<Rightarrow> Ok a | None \<Rightarrow> from_first_chunk e) of
            Inl err \<Rightarrow> (ep, Err (CS_Plane err))
          | Inr a \<Rightarrow>
            (case cba_push_chunk e a of
               (a', Inl err) \<Rightarrow> (ep\<lparr>cse_inbound := AList.update oid a' (cse_inbound ep)\<rparr>, Err (CS_Plane err))
             | (a', Inr progress) \<Rightarrow>
               if \<not> op_is_complete progress then (ep\<lparr>cse_inbound := AList.update oid a' (cse_inbound ep)\<rparr>, Ok None)
               else let ep1 = ep\<lparr>cse_inbound := AList.delete oid (cse_inbound ep)\<rparr> in
                 (case cba_finish cd a' of
                    Inl err \<Rightarrow> (ep1, Err (CS_Plane err))
                  | Inr b \<Rightarrow> apply_bundle cd pr identity b ep1))))"

section \<open>Providers\<close>

record MemoryClipboardProvider =
  mcp_current :: "ClipboardBundle option"

definition validate_clipboard_bundle_for_policy :: "'e clip_codec \<Rightarrow> ClipboardBundle \<Rightarrow> ClipboardSyncPolicy \<Rightarrow>
    (unit, 'e ClipboardPlaneError) result" where
  "validate_clipboard_bundle_for_policy cd b p = try_bind (validate_clipboard_bundle b) (\<lambda>_. validate_bundle cd p b)"

text \<open>The text of an error is a parameter (\<open>show\<close>).\<close>

definition memory_read :: "'e clip_codec \<Rightarrow> ('e ClipboardPlaneError \<Rightarrow> string) \<Rightarrow> ClipboardSyncPolicy \<Rightarrow> MemoryClipboardProvider \<Rightarrow>
    MemoryClipboardProvider \<times> (ClipboardBundle option, string) result" where
  "memory_read cd show p m = (m, case mcp_current m of None \<Rightarrow> Ok None
     | Some b \<Rightarrow> try_bind (map_err show (validate_clipboard_bundle_for_policy cd b p)) (\<lambda>_. Ok (Some b)))"

definition memory_write :: "'e clip_codec \<Rightarrow> ('e ClipboardPlaneError \<Rightarrow> string) \<Rightarrow> ClipboardBundle \<Rightarrow> ClipboardSyncPolicy \<Rightarrow>
    MemoryClipboardProvider \<Rightarrow> MemoryClipboardProvider \<times> (unit, string) result" where
  "memory_write cd show b p m = (case map_err show (validate_clipboard_bundle_for_policy cd b p) of
     Inl e \<Rightarrow> (m, Err e) | Inr _ \<Rightarrow> (m\<lparr>mcp_current := Some b\<rparr>, Ok ()))"

definition memory_clear :: "MemoryClipboardProvider \<Rightarrow> MemoryClipboardProvider" where
  "memory_clear m = m\<lparr>mcp_current := None\<rparr>"

definition memory_provider :: "'e clip_codec \<Rightarrow> ('e ClipboardPlaneError \<Rightarrow> string) \<Rightarrow> MemoryClipboardProvider clip_provider" where
  "memory_provider cd show = \<lparr>read_clipboard = memory_read cd show, write_clipboard = memory_write cd show\<rparr>"

definition is_safe_clipboard_file_name :: "string \<Rightarrow> bool" where
  "is_safe_clipboard_file_name name \<longleftrightarrow> name \<noteq> [] \<and> list_all is_normal (path_components name)"

section \<open>Chunks of a bundle\<close>

lemma concat_take_chunks:
  assumes "0 < n" "i < length (chunks_of n bs)"
  shows "length (concat (take i (chunks_of n bs))) = i * n"
proof -
  have "take i (chunks_of n bs) = map (\<lambda>i. take n (drop (n * i) bs)) [0..<i]"
    using assms(2) by (simp add: chunks_of_def take_map)
  then have "concat (take i (chunks_of n bs)) = take (n * i) bs" by (simp add: concat_chunks)
  moreover have "n * i \<le> length bs" using chunk_length(1) [OF assms] assms by (simp add: chunks_of_def)
  ultimately show ?thesis by (simp add: mult.commute)
qed

text \<open>Chunk \<open>i\<close> of a bundle is a piece of the encoded object in the sense of the object assembler.\<close>

definition chunk_spec :: "ClipboardEnvelopeSpec \<Rightarrow> bytes \<Rightarrow> nat \<Rightarrow> ObjectChunkSpec" where
  "chunk_spec spec encoded i = \<lparr>ocs_object_id = ces_object_id spec, ocs_stream_id = ces_stream_id spec,
      ocs_sequence_number = ces_first_sequence_number spec + word_of_nat i, ocs_timestamp_ms = ces_timestamp_ms spec,
      ocs_chunk_index = 0, ocs_total_chunks = 0, ocs_offset = 0, ocs_total_size = 0,
      ocs_checksum_crc32 = Some (checksum_crc32 encoded)\<rparr>"

definition clip_piece :: "ClipboardEnvelopeSpec \<Rightarrow> bytes \<Rightarrow> nat \<Rightarrow> DataEnvelope" where
  "clip_piece spec encoded i =
     as_clipboard (piece (chunk_spec spec encoded i) (chunks_of (ces_max_chunk_payload_len spec) encoded) i)"

lemma bundle_envelopes:
  assumes "clipboard_bundle_to_envelopes cd b spec = Ok es"
  obtains encoded where "bundle_encode cd b = Ok encoded" "0 < ces_max_chunk_payload_len spec"
    "length (chunks_of (ces_max_chunk_payload_len spec) encoded) < 2 ^ 32"
    "es = map (clip_piece spec encoded) [0..<length (chunks_of (ces_max_chunk_payload_len spec) encoded)]"
proof -
  let ?n = "ces_max_chunk_payload_len spec"
  obtain encoded where enc: "bundle_encode cd b = Ok encoded" "0 < ?n" "length (chunks_of ?n encoded) < 2 ^ 32"
    and es: "es = map (\<lambda>(i, c). clipboard_chunk spec encoded (length (chunks_of ?n encoded)) i c) (enumerate 0 (chunks_of ?n encoded))"
    using assms by (auto simp: clipboard_bundle_to_envelopes_def try_bind_eq_Ok map_err_eq_Ok Let_def length_chunks_of split: if_splits)
  have "es = map (clip_piece spec encoded) [0..<length (chunks_of ?n encoded)]"
    by (rule nth_equalityI) (use enc in \<open>simp_all add: es nth_enumerate_eq clip_piece_def clipboard_chunk_def piece_def
        chunk_spec_def concat_take_chunks concat_chunks_of\<close>)
  with enc that show ?thesis by blast
qed

lemma push_as_clipboard: "push_chunk (as_clipboard e) a = push_chunk e a"
proof -
  have "env_payload (as_clipboard e) = env_payload e" "dh_chunk (env_header (as_clipboard e)) = dh_chunk (env_header e)"
    by (simp_all add: as_clipboard_def)
  then show ?thesis by (simp only: push_chunk_def)
qed

lemma partial_spec_cong:
  "ocs_object_id spec' = ocs_object_id spec \<Longrightarrow> partial_object spec' cs sm got a = partial_object spec cs sm got a"
  by (simp add: partial_object_def)

text \<open>The part of an object that an endpoint has received.\<close>

definition object_part :: "'p ClipboardSyncEndpoint \<Rightarrow> ClipboardEnvelopeSpec \<Rightarrow> bytes \<Rightarrow> nat set \<Rightarrow> bool" where
  "object_part ep spec encoded got \<longleftrightarrow>
     (if got = {} then map_of (cse_inbound ep) (ces_object_id spec) = None \<and> length (cse_inbound ep) < 2
      else \<exists>a. map_of (cse_inbound ep) (ces_object_id spec) = Some a \<and>
        partial_object (chunk_spec spec encoded 0) (chunks_of (ces_max_chunk_payload_len spec) encoded) (Some (checksum_crc32 encoded)) got a)"

definition clip_identity :: "ClipboardEnvelopeSpec \<Rightarrow> bytes \<Rightarrow> object_identity" where
  "clip_identity spec encoded = (ces_object_id spec, word_of_nat (length (chunks_of (ces_max_chunk_payload_len spec) encoded)),
     word_of_nat (length encoded), Some (checksum_crc32 encoded))"

text \<open>An object an endpoint is willing to receive.\<close>

definition acceptable :: "'p ClipboardSyncEndpoint \<Rightarrow> ClipboardEnvelopeSpec \<Rightarrow> bytes \<Rightarrow> bool" where
  "acceptable ep spec encoded \<longleftrightarrow> 0 < ces_max_chunk_payload_len spec \<and>
     length (chunks_of (ces_max_chunk_payload_len spec) encoded) \<le> 131072 \<and> length encoded < 2 ^ 64 \<and>
     length encoded \<le> max_bundle_bytes (csc_policy (cse_config ep)) \<and> clip_identity spec encoded \<notin> set (cse_completed ep)"

definition same_sync :: "'p ClipboardSyncEndpoint \<Rightarrow> 'p ClipboardSyncEndpoint \<Rightarrow> bool" where
  "same_sync ep ep' \<longleftrightarrow> ep' = ep\<lparr>cse_inbound := cse_inbound ep'\<rparr>"

lemma clip_piece_header:
  assumes "0 < ces_max_chunk_payload_len spec"
  shows "dh_kind (env_header (clip_piece spec encoded i)) = Kind_ClipboardBundle"
    "\<exists>chunk. dh_chunk (env_header (clip_piece spec encoded i)) = Some chunk \<and> ck_object_id chunk = ces_object_id spec \<and>
       ck_total_chunks chunk = word_of_nat (length (chunks_of (ces_max_chunk_payload_len spec) encoded)) \<and>
       ck_total_size chunk = word_of_nat (length encoded)"
    "envelope_checksum (clip_piece spec encoded i) = Some (checksum_crc32 encoded)"
  using assms
  by (simp_all add: clip_piece_def as_clipboard_def piece_def object_chunk_envelope_def reliable_object_chunk_def Let_def envelope_new_def
      chunk_spec_def envelope_checksum_def concat_chunks_of)

lemma receive_piece:
  fixes cd :: "'e clip_codec"
  assumes ok: "acceptable ep spec encoded" and part: "object_part ep spec encoded got"
    and i: "i < length (chunks_of (ces_max_chunk_payload_len spec) encoded)"
  shows "(if insert i got = {..<length (chunks_of (ces_max_chunk_payload_len spec) encoded)}
     then receive_envelope cd pr (clip_piece spec encoded i) ep =
        (case map_err CP_Decode (bundle_decode cd encoded) of Inl err \<Rightarrow> (ep\<lparr>cse_inbound := AList.delete (ces_object_id spec) (cse_inbound ep)\<rparr>, Err (CS_Plane err))
         | Inr b \<Rightarrow> apply_bundle cd pr (clip_identity spec encoded) b (ep\<lparr>cse_inbound := AList.delete (ces_object_id spec) (cse_inbound ep)\<rparr>))
     else \<exists>ep'. receive_envelope cd pr (clip_piece spec encoded i) ep = (ep', Ok None) \<and> same_sync ep ep' \<and>
       object_part ep' spec encoded (insert i got))"
proof -
  let ?cs = "chunks_of (ces_max_chunk_payload_len spec) encoded" and ?e = "clip_piece spec encoded i" and ?oid = "ces_object_id spec"
  let ?sm = "Some (checksum_crc32 encoded)" and ?sp = "chunk_spec spec encoded 0"
  have n: "0 < ces_max_chunk_payload_len spec" and small: "length ?cs < 2 ^ 32" "length (concat ?cs) < 2 ^ 64"
    and enc: "concat ?cs = encoded" using ok by (simp_all add: acceptable_def concat_chunks_of)
  note hdr = clip_piece_header [OF n, of encoded i]
  obtain chunk where chunk: "dh_chunk (env_header ?e) = Some chunk" "ck_object_id chunk = ?oid"
    "ck_total_chunks chunk = word_of_nat (length ?cs)" "ck_total_size chunk = word_of_nat (length encoded)" using hdr(2) by blast
  have "\<exists>a. (case map_of (cse_inbound ep) ?oid of Some a \<Rightarrow> Ok a | None \<Rightarrow> from_first_chunk ?e) = (Ok a :: (_, 'e ClipboardPlaneError) result) \<and>
      partial_object ?sp ?cs ?sm got a"
  proof (cases "got = {}")
    case True
    then have "map_of (cse_inbound ep) ?oid = None" using part by (simp add: object_part_def)
    moreover have "from_first_chunk ?e = (Ok (roa_new ?oid (word_of_nat (length ?cs)) (word_of_nat (length encoded)) ?sm) :: (_, 'e ClipboardPlaneError) result)"
      using chunk hdr(1,3) by (simp add: from_first_chunk_def ensure_clipboard_bundle_def)
    ultimately show ?thesis
      using True partial_new [OF small(1), of ?sp ?sm] enc by (simp add: chunk_spec_def)
  qed (use part in \<open>auto simp: object_part_def\<close>)
  then obtain a where a: "(case map_of (cse_inbound ep) ?oid of Some a \<Rightarrow> Ok a | None \<Rightarrow> from_first_chunk ?e) = (Ok a :: (_, 'e ClipboardPlaneError) result)"
    "partial_object ?sp ?cs ?sm got a" by blast
  have cong: "partial_object (chunk_spec spec encoded i) ?cs ?sm g q = partial_object ?sp ?cs ?sm g q" for g q
    by (rule partial_spec_cong) (simp add: chunk_spec_def)
  define a' where "a' = fst (push_chunk ?e a)"
  have push: "push_chunk ?e a = (a', Ok (roa_progress a'))" "partial_object ?sp ?cs ?sm (insert i got) a'"
    using push_piece [of "chunk_spec spec encoded i" ?cs ?sm got a i] a(2) i small
    unfolding a'_def cong by (simp_all add: clip_piece_def push_as_clipboard prod_eq_iff)
  have limits: "clip_identity spec encoded \<notin> set (cse_completed ep)"
    "\<not> (unat (word_of_nat (length encoded) :: u64) > max_bundle_bytes (csc_policy (cse_config ep)) \<or> (word_of_nat (length ?cs) :: u32) > MAX_INBOUND_CHUNKS \<or>
      (length (cse_inbound ep) \<ge> 2 \<and> map_of (cse_inbound ep) ?oid = None))"
    using ok part by (auto simp: acceptable_def object_part_def unat_of_nat MAX_INBOUND_CHUNKS_def word_less_nat_alt split: if_splits)
  have cba: "cba_push_chunk ?e a = (a', Ok (roa_progress a') :: (_, 'e ClipboardPlaneError) result)"
    using push(1) hdr(1) by (simp add: cba_push_chunk_def ensure_clipboard_bundle_def)
  have eq: "receive_envelope cd pr ?e ep =
     (if \<not> op_is_complete (roa_progress a') then (ep\<lparr>cse_inbound := AList.update ?oid a' (cse_inbound ep)\<rparr>, Ok None)
      else let ep1 = ep\<lparr>cse_inbound := AList.delete ?oid (cse_inbound ep)\<rparr> in
        (case cba_finish cd a' of Inl err \<Rightarrow> (ep1, Err (CS_Plane err)) | Inr b \<Rightarrow> apply_bundle cd pr (clip_identity spec encoded) b ep1))"
    using limits(1)
    unfolding receive_envelope_def Let_def hdr(1,3) chunk option.case clip_identity_def [symmetric] if_not_P [OF limits(2)] a(1) sum.case cba
    by simp
  note compl = partial_complete [OF push(2) small(1)]
  show ?thesis
  proof (cases "insert i got = {..<length ?cs}")
    case True
    have "roa_finish a' = Ok \<lparr>co_object_id = ocs_object_id ?sp, co_bytes = encoded\<rparr>"
      using partial_finish [of ?sp ?cs ?sm a'] push(2) True enc by simp
    then have "cba_finish cd a' = map_err CP_Decode (bundle_decode cd encoded)" by (simp add: cba_finish_def)
    then show ?thesis using eq compl True by (simp add: Let_def)
  next
    case False
    let ?ep = "ep\<lparr>cse_inbound := AList.update ?oid a' (cse_inbound ep)\<rparr>"
    have "object_part ?ep spec encoded (insert i got)" using push(2) by (simp add: object_part_def update_conv')
    then show ?thesis using eq compl False by (auto simp: same_sync_def)
  qed
qed

fun clip_run :: "'e clip_codec \<Rightarrow> 'p clip_provider \<Rightarrow> DataEnvelope list \<Rightarrow> 'p ClipboardSyncEndpoint \<Rightarrow>
    'p ClipboardSyncEndpoint \<times> (ClipboardBundle option, 'e ClipboardSyncError) result list" where
  "clip_run cd pr [] ep = (ep, [])"
| "clip_run cd pr (e # es) ep = (case receive_envelope cd pr e ep of (ep', r) \<Rightarrow> apsnd ((#) r) (clip_run cd pr es ep'))"

lemma same_sync_trans: "same_sync a b \<Longrightarrow> same_sync b c \<Longrightarrow> same_sync a c"
  unfolding same_sync_def by (metis (no_types) ClipboardSyncEndpoint.ext_inject ClipboardSyncEndpoint.surjective ClipboardSyncEndpoint.update_convs(3))

lemma same_sync_fields:
  assumes "same_sync a b"
  shows "cse_config b = cse_config a" "cse_completed b = cse_completed a" "cse_provider b = cse_provider a"
    "cse_last_sent b = cse_last_sent a" "cse_last_applied b = cse_last_applied a"
proof -
  from assms have eq: "b = a\<lparr>cse_inbound := cse_inbound b\<rparr>" by (simp add: same_sync_def)
  show "cse_config b = cse_config a" "cse_completed b = cse_completed a" "cse_provider b = cse_provider a"
    "cse_last_sent b = cse_last_sent a" "cse_last_applied b = cse_last_applied a"
    by (subst eq, simp)+
qed

lemma acceptable_same: "same_sync ep ep' \<Longrightarrow> acceptable ep' spec encoded = acceptable ep spec encoded"
  by (simp add: acceptable_def same_sync_fields)

lemma receive_pieces:
  assumes "acceptable ep spec encoded" "object_part ep spec encoded got"
    "got \<union> set is \<subset> {..<length (chunks_of (ces_max_chunk_payload_len spec) encoded)}"
  shows "\<exists>ep'. clip_run cd pr (map (clip_piece spec encoded) is) ep = (ep', replicate (length is) (Ok None)) \<and> same_sync ep ep' \<and>
    object_part ep' spec encoded (got \<union> set is)"
  using assms
proof (induction "is" arbitrary: ep got)
  case Nil
  then show ?case by (simp add: same_sync_def)
next
  case (Cons i "is")
  have i: "i < length (chunks_of (ces_max_chunk_payload_len spec) encoded)"
    "insert i got \<noteq> {..<length (chunks_of (ces_max_chunk_payload_len spec) encoded)}" using Cons.prems(3) by auto
  from receive_piece [OF Cons.prems(1,2) i(1), of cd pr] i(2) obtain ep1 where
    ep1: "receive_envelope cd pr (clip_piece spec encoded i) ep = (ep1, Ok None)" "same_sync ep ep1" "object_part ep1 spec encoded (insert i got)"
    by auto
  have "insert i got \<union> set is \<subset> {..<length (chunks_of (ces_max_chunk_payload_len spec) encoded)}" using Cons.prems(3) by simp
  from Cons.IH [OF _ ep1(3) this] Cons.prems(1) ep1(2) obtain ep2 where
    "clip_run cd pr (map (clip_piece spec encoded) is) ep1 = (ep2, replicate (length is) (Ok None))" "same_sync ep1 ep2"
    "object_part ep2 spec encoded (insert i got \<union> set is)" by (auto simp: acceptable_same)
  then show ?case using ep1 same_sync_trans by fastforce
qed

text \<open>The object an envelope says it belongs to.\<close>

definition wire_identity :: "DataEnvelope \<Rightarrow> object_identity option" where
  "wire_identity e = map_option (\<lambda>chunk. (ck_object_id chunk, ck_total_chunks chunk, ck_total_size chunk, envelope_checksum e))
     (dh_chunk (env_header e))"

lemma wire_identity_piece:
  "0 < ces_max_chunk_payload_len spec \<Longrightarrow> wire_identity (clip_piece spec encoded i) = Some (clip_identity spec encoded)"
  using clip_piece_header(2,3) [of spec encoded i] by (auto simp: wire_identity_def clip_identity_def)

text \<open>What a successful poll sends.\<close>

definition poll_spec :: "u64 \<Rightarrow> ClipboardSyncConfig \<Rightarrow> ClipboardEnvelopeSpec" where
  "poll_spec ts c = \<lparr>ces_object_id = csc_next_object_id c, ces_stream_id = csc_stream_id c,
     ces_first_sequence_number = csc_next_sequence_number c, ces_timestamp_ms = ts, ces_max_chunk_payload_len = csc_chunk_payload_len c\<rparr>"

lemma poll_sends:
  assumes "poll_outgoing cd pr ts ep = (ep', Ok (Some t))"
  obtains p' b where "read_clipboard pr (csc_policy (cse_config ep)) (cse_provider ep) = (p', Ok (Some b))"
    "clipboard_content_crc32 cd b = Ok (cot_content_crc32 t)" "clipboard_bundle_to_envelopes cd b (poll_spec ts (cse_config ep)) = Ok (cot_envelopes t)"
    "cse_last_sent ep' = Some (cot_content_crc32 t)"
  using assms that
  by (auto simp: poll_outgoing_def poll_spec_def Let_def clipboard_bundle_to_envelopes_with_policy_def try_bind_eq_Ok
      split: prod.splits sum.splits option.splits if_splits)

lemma bundle_delivered:
  fixes cd :: "'e clip_codec"
  assumes codec: "\<forall>b bs. bundle_encode cd b = Ok bs \<longrightarrow> bundle_decode cd bs = Ok b"
    and sent: "poll_outgoing cd pr ts tx = (tx', Ok (Some t))"
    and read: "read_clipboard pr (csc_policy (cse_config tx)) (cse_provider tx) = (p1, Ok (Some b))"
    and size: "bundle_encode cd b = Ok encoded" "length encoded \<le> max_bundle_bytes (csc_policy (cse_config rx))" "length encoded < 2 ^ 64"
      "length (cot_envelopes t) \<le> 131072"
    and new: "map_of (cse_inbound rx) (csc_next_object_id (cse_config tx)) = None" "length (cse_inbound rx) < 2"
      "csc_next_object_id (cse_config tx) \<notin> fst ` set (cse_completed rx)"
    and arrive: "insert i (set is) = {..<length (cot_envelopes t)}" "i \<notin> set is"
    and news: "Some (cot_content_crc32 t) \<noteq> cse_last_sent rx" "Some (cot_content_crc32 t) \<noteq> cse_last_applied rx"
    and stored: "write_clipboard pr' b (csc_policy (cse_config rx)) (cse_provider rx) = (p2, Ok ())"
    and room: "length (cse_completed rx) \<le> 64"
  shows "\<exists>rx1 rx2. clip_run cd pr' (map (nth (cot_envelopes t)) is) rx = (rx1, replicate (length is) (Ok None)) \<and>
    receive_envelope cd pr' (cot_envelopes t ! i) rx1 = (rx2, Ok (Some b)) \<and> cse_provider rx1 = cse_provider rx \<and>
    cse_provider rx2 = p2 \<and> cse_last_applied rx2 = Some (cot_content_crc32 t) \<and>
    (\<exists>k pre. cse_completed rx2 = pre @ [k] \<and> length pre < 64 \<and>
      (\<forall>j<length (cot_envelopes t). dh_kind (env_header (cot_envelopes t ! j)) = Kind_ClipboardBundle \<and> wire_identity (cot_envelopes t ! j) = Some k))"
proof -
  let ?sp = "poll_spec ts (cse_config tx)"
  let ?cs = "chunks_of (ces_max_chunk_payload_len ?sp) encoded"
  have crc: "clipboard_content_crc32 cd b = Ok (cot_content_crc32 t)" and env: "clipboard_bundle_to_envelopes cd b ?sp = Ok (cot_envelopes t)"
    using poll_sends [OF sent] read by auto
  have es: "0 < ces_max_chunk_payload_len ?sp" "cot_envelopes t = map (clip_piece ?sp encoded) [0..<length ?cs]"
    using bundle_envelopes [OF env] size(1) by auto
  then have len: "length (cot_envelopes t) = length ?cs" by simp
  have oid: "ces_object_id ?sp = csc_next_object_id (cse_config tx)" by (simp add: poll_spec_def)
  have "clip_identity ?sp encoded \<notin> set (cse_completed rx)" using new(3) oid by (force simp: clip_identity_def)
  then have ok: "acceptable rx ?sp encoded" using es(1) size len by (simp add: acceptable_def)
  have part: "object_part rx ?sp encoded {}" using new oid by (simp add: object_part_def)
  have i: "i < length ?cs" "{} \<union> set is \<subset> {..<length ?cs}" using arrive len by auto
  have at: "cot_envelopes t ! j = clip_piece ?sp encoded j" if "j < length ?cs" for j unfolding es(2) using that by simp
  have "set is \<subseteq> {..<length ?cs}" using i(2) by auto
  then have nth: "map (nth (cot_envelopes t)) is = map (clip_piece ?sp encoded) is" "cot_envelopes t ! i = clip_piece ?sp encoded i"
    using at i(1) by (auto intro!: map_cong)
  from receive_pieces [OF ok part i(2), of cd pr'] obtain rx1 where
    rx1: "clip_run cd pr' (map (clip_piece ?sp encoded) is) rx = (rx1, replicate (length is) (Ok None))" "same_sync rx rx1"
      "object_part rx1 ?sp encoded (set is)" by auto
  have ok1: "acceptable rx1 ?sp encoded" using ok rx1(2) by (simp add: acceptable_same)
  have all: "insert i (set is) = {..<length ?cs}" using arrive(1) len by simp
  have "receive_envelope cd pr' (clip_piece ?sp encoded i) rx1 =
      apply_bundle cd pr' (clip_identity ?sp encoded) b (rx1\<lparr>cse_inbound := AList.delete (ces_object_id ?sp) (cse_inbound rx1)\<rparr>)"
    using receive_piece [OF ok1 rx1(3) i(1), of cd pr'] all codec size(1) by simp
  then have fin: "receive_envelope cd pr' (clip_piece ?sp encoded i) rx1 =
      (remember_completed (clip_identity ?sp encoded) (rx1\<lparr>cse_inbound := AList.delete (ces_object_id ?sp) (cse_inbound rx1),
         cse_provider := p2, cse_last_applied := Some (cot_content_crc32 t)\<rparr>), Ok (Some b))"
    using crc news stored same_sync_fields [OF rx1(2)] by (simp add: apply_bundle_def)
  define rx2 where "rx2 = remember_completed (clip_identity ?sp encoded) (rx1\<lparr>cse_inbound := AList.delete (ces_object_id ?sp) (cse_inbound rx1),
         cse_provider := p2, cse_last_applied := Some (cot_content_crc32 t)\<rparr>)"
  have rx2: "cse_provider rx2 = p2" "cse_last_applied rx2 = Some (cot_content_crc32 t)"
    "\<exists>pre. cse_completed rx2 = pre @ [clip_identity ?sp encoded] \<and> length pre < 64"
    using room same_sync_fields(2) [OF rx1(2)]
    by (cases "cse_completed rx"; simp add: rx2_def remember_completed_def Let_def)+
  have "dh_kind (env_header (cot_envelopes t ! j)) = Kind_ClipboardBundle \<and>
      wire_identity (cot_envelopes t ! j) = Some (clip_identity ?sp encoded)" if "j < length (cot_envelopes t)" for j
    using at [of j] that len wire_identity_piece [OF es(1), of encoded j] clip_piece_header(1) [OF es(1), of encoded j] by simp
  then have "\<exists>k pre. cse_completed rx2 = pre @ [k] \<and> length pre < 64 \<and>
      (\<forall>j<length (cot_envelopes t). dh_kind (env_header (cot_envelopes t ! j)) = Kind_ClipboardBundle \<and> wire_identity (cot_envelopes t ! j) = Some k)"
    using rx2(3) by blast
  then show ?thesis
    using rx1(1) same_sync_fields(3) [OF rx1(2)] fin [folded rx2_def] rx2(1,2)
    unfolding nth by blast
qed

text \<open>
  What may happen to an endpoint after it has applied an object: any envelope, a poll, a retry, and a
  change of the clipboard by somebody else.
\<close>

datatype 'p clip_event = Clip_Receive DataEnvelope | Clip_Poll u64 | Clip_Retry | Clip_Local 'p

definition clip_step :: "'e clip_codec \<Rightarrow> 'p clip_provider \<Rightarrow> 'p ClipboardSyncEndpoint \<Rightarrow> 'p clip_event \<Rightarrow> 'p ClipboardSyncEndpoint" where
  "clip_step cd pr ep x = (case x of
     Clip_Receive e \<Rightarrow> fst (receive_envelope cd pr e ep)
   | Clip_Poll ts \<Rightarrow> fst (poll_outgoing cd pr ts ep)
   | Clip_Retry \<Rightarrow> retry_outgoing ep
   | Clip_Local p \<Rightarrow> ep\<lparr>cse_provider := p\<rparr>)"

definition objects_of :: "'p clip_event list \<Rightarrow> object_identity set" where
  "objects_of xs = {k. \<exists>e. Clip_Receive e \<in> set xs \<and> wire_identity e = Some k}"

lemma finite_objects_of [simp]: "finite (objects_of xs)"
proof (rule finite_subset)
  show "objects_of xs \<subseteq> (\<lambda>x. case x of Clip_Receive e \<Rightarrow> the (wire_identity e) | _ \<Rightarrow> undefined) ` set xs"
    by (force simp: objects_of_def image_def)
qed simp

lemma apply_completed:
  "cse_completed (fst (apply_bundle cd pr k b ep)) \<in> {cse_completed ep, cse_completed (remember_completed k ep)}"
  by (auto simp: apply_bundle_def remember_completed_def Let_def split: sum.splits prod.splits)

lemma receive_completed:
  obtains "cse_completed (fst (receive_envelope cd pr e ep)) = cse_completed ep"
  | k where "wire_identity e = Some k" "k \<notin> set (cse_completed ep)"
      "cse_completed (fst (receive_envelope cd pr e ep)) = cse_completed (remember_completed k ep)"
proof (cases "dh_chunk (env_header e)")
  case (Some chunk)
  define k where "k = (ck_object_id chunk, ck_total_chunks chunk, ck_total_size chunk, envelope_checksum e)"
  have k: "wire_identity e = Some k" using Some by (simp add: wire_identity_def k_def)
  have ap: "cse_completed (fst (apply_bundle cd pr k b (ep\<lparr>cse_inbound := z\<rparr>))) = cse_completed ep"
    if "cse_completed (fst (apply_bundle cd pr k b (ep\<lparr>cse_inbound := z\<rparr>))) \<noteq> cse_completed (remember_completed k ep)" for b z
    using that apply_completed [of cd pr k b "ep\<lparr>cse_inbound := z\<rparr>"] by (simp add: remember_completed_def Let_def)
  have "cse_completed (fst (receive_envelope cd pr e ep)) = cse_completed ep \<or>
      k \<notin> set (cse_completed ep) \<and> cse_completed (fst (receive_envelope cd pr e ep)) = cse_completed (remember_completed k ep)"
    unfolding receive_envelope_def Some option.case Let_def k_def [symmetric]
    by (auto split: sum.splits prod.splits intro: ap)
  then show ?thesis using that k by blast
qed (use that in \<open>simp add: receive_envelope_def\<close>)

lemma step_completed:
  obtains "cse_completed (clip_step cd pr ep x) = cse_completed ep"
  | e k where "x = Clip_Receive e" "wire_identity e = Some k" "k \<notin> set (cse_completed ep)"
      "cse_completed (clip_step cd pr ep x) = cse_completed (remember_completed k ep)"
proof (cases x)
  case (Clip_Receive e)
  then show ?thesis
    by (cases rule: receive_completed [where cd = cd and pr = pr and e = e and ep = ep])
      (use that in \<open>simp_all add: clip_step_def\<close>)
qed (use that in \<open>simp_all add: clip_step_def poll_outgoing_def retry_outgoing_def Let_def split: prod.splits sum.splits option.splits\<close>)

lemma remembered:
  assumes "cse_completed ep = pre @ k # post" "distinct post" "k \<notin> set post" "set post \<subseteq> I" "length pre + length post < 64"
    "finite I" "objects_of xs - {k} \<subseteq> I" "card I < 64"
  shows "k \<in> set (cse_completed (foldl (clip_step cd pr) ep xs))"
  using assms
proof (induction xs arbitrary: ep pre post)
  case (Cons x xs)
  have I: "objects_of xs - {k} \<subseteq> I" using Cons.prems(7) by (auto simp: objects_of_def)
  show ?case
  proof (cases rule: step_completed [where cd = cd and pr = pr and ep = ep and x = x])
    case 1
    then show ?thesis using Cons.IH [of "clip_step cd pr ep x" pre post] Cons.prems I by simp
  next
    case (2 e j)
    have j: "j \<in> I" "j \<noteq> k" "j \<notin> set post" using 2 Cons.prems(1,7) by (auto simp: objects_of_def)
    then have post': "distinct (post @ [j])" "k \<notin> set (post @ [j])" "set (post @ [j]) \<subseteq> I" using Cons.prems by auto
    then have "length (post @ [j]) \<le> card I" using Cons.prems(6) by (metis card_mono distinct_card)
    then have len: "length post < 63" using Cons.prems(8) by simp
    define pre' where "pre' = (if length pre + length post = 63 then tl pre else pre)"
    have "cse_completed (clip_step cd pr ep x) = pre' @ k # (post @ [j])" "length pre' + length (post @ [j]) < 64"
      using 2(4) Cons.prems(1,5) len by (cases pre; auto simp: pre'_def remember_completed_def Let_def)+
    then show ?thesis using Cons.IH [of "clip_step cd pr ep x" pre' "post @ [j]"] post' Cons.prems I by simp
  qed
qed simp

text \<open>
  C22. Clipboard contents cross the wire.  What one endpoint polls from its clipboard, sent in chunks that
  arrive in any order with duplicates, is written to the clipboard of the other endpoint when the last
  missing chunk arrives, unless that endpoint has just sent or applied the same contents.  Later
  duplicates of its chunks change nothing at all, whatever was received, polled, retried or copied
  locally in between, as long as chunks of at most 63 other objects arrived since.
\<close>

theorem clipboard_bundle_delivered:
  fixes cd :: "'e clip_codec"
  assumes "\<forall>b bs. bundle_encode cd b = Ok bs \<longrightarrow> bundle_decode cd bs = Ok b"
    and "poll_outgoing cd pr ts tx = (tx', Ok (Some t))"
    and "read_clipboard pr (csc_policy (cse_config tx)) (cse_provider tx) = (p1, Ok (Some b))"
    and "bundle_encode cd b = Ok encoded" "length encoded \<le> max_bundle_bytes (csc_policy (cse_config rx))" "length encoded < 2 ^ 64"
      "length (cot_envelopes t) \<le> 131072"
    and "map_of (cse_inbound rx) (csc_next_object_id (cse_config tx)) = None" "length (cse_inbound rx) < 2"
      "csc_next_object_id (cse_config tx) \<notin> fst ` set (cse_completed rx)"
    and "insert i (set is) = {..<length (cot_envelopes t)}" "i \<notin> set is"
    and "Some (cot_content_crc32 t) \<noteq> cse_last_sent rx" "Some (cot_content_crc32 t) \<noteq> cse_last_applied rx"
    and "write_clipboard pr' b (csc_policy (cse_config rx)) (cse_provider rx) = (p2, Ok ())"
    and "length (cse_completed rx) \<le> 64"
  shows "\<exists>rx1 rx2. clip_run cd pr' (map (nth (cot_envelopes t)) is) rx = (rx1, replicate (length is) (Ok None)) \<and>
    receive_envelope cd pr' (cot_envelopes t ! i) rx1 = (rx2, Ok (Some b)) \<and> cse_provider rx1 = cse_provider rx \<and>
    cse_provider rx2 = p2 \<and> cse_last_applied rx2 = Some (cot_content_crc32 t) \<and>
    (\<forall>xs j. j < length (cot_envelopes t) \<and> card {k \<in> objects_of xs. wire_identity (cot_envelopes t ! j) \<noteq> Some k} < 64 \<longrightarrow>
      receive_envelope cd pr' (cot_envelopes t ! j) (foldl (clip_step cd pr') rx2 xs) = (foldl (clip_step cd pr') rx2 xs, Ok None))"
proof -
  from bundle_delivered [OF assms] obtain rx1 rx2 k pre where
    run: "clip_run cd pr' (map (nth (cot_envelopes t)) is) rx = (rx1, replicate (length is) (Ok None))"
      "receive_envelope cd pr' (cot_envelopes t ! i) rx1 = (rx2, Ok (Some b))" "cse_provider rx1 = cse_provider rx"
      "cse_provider rx2 = p2" "cse_last_applied rx2 = Some (cot_content_crc32 t)"
    and done_k: "cse_completed rx2 = pre @ [k]" "length pre < 64"
    and ids: "\<forall>j<length (cot_envelopes t). dh_kind (env_header (cot_envelopes t ! j)) = Kind_ClipboardBundle \<and>
      wire_identity (cot_envelopes t ! j) = Some k" by blast
  have "receive_envelope cd pr' (cot_envelopes t ! j) (foldl (clip_step cd pr') rx2 xs) = (foldl (clip_step cd pr') rx2 xs, Ok None)"
    if j: "j < length (cot_envelopes t)" and few: "card {k \<in> objects_of xs. wire_identity (cot_envelopes t ! j) \<noteq> Some k} < 64" for xs j
  proof -
    have w: "wire_identity (cot_envelopes t ! j) = Some k" "dh_kind (env_header (cot_envelopes t ! j)) = Kind_ClipboardBundle"
      using ids j by blast+
    have "{k' \<in> objects_of xs. wire_identity (cot_envelopes t ! j) \<noteq> Some k'} = objects_of xs - {k}" using w(1) by auto
    then have "card (objects_of xs - {k}) < 64" using few by simp
    then have "k \<in> set (cse_completed (foldl (clip_step cd pr') rx2 xs))"
      by (intro remembered [where pre = pre and post = "[]" and I = "objects_of xs - {k}"]) (use done_k in auto)
    then show ?thesis using w by (auto simp: receive_envelope_def wire_identity_def Let_def)
  qed
  then show ?thesis using run by blast
qed

section \<open>No echo\<close>

text \<open>
  What a clipboard provider promises: what was written is what is read next, up to the identifier of the
  bundle.
\<close>

locale clip_store =
  fixes pr :: "'p clip_provider"
  assumes read_after_write: "write_clipboard pr b pol p = (p', Ok ()) \<Longrightarrow>
    \<exists>p'' b'. read_clipboard pr pol p' = (p'', Ok (Some b')) \<and> cb_items b' = cb_items b"
begin

lemma applied_contents:
  assumes "receive_envelope cd pr e ep = (ep', Ok (Some b))"
  shows "cse_config ep' = cse_config ep \<and> clipboard_content_crc32 cd b = Ok (the (cse_last_applied ep')) \<and> cse_last_applied ep' \<noteq> None \<and>
    (\<exists>p. write_clipboard pr b (csc_policy (cse_config ep)) p = (cse_provider ep', Ok ()))"
proof -
  have "\<exists>identity b' ep1. apply_bundle cd pr identity b' ep1 = (ep', Ok (Some b)) \<and> cse_config ep1 = cse_config ep"
  proof -
    from assms obtain chunk :: ChunkInfo and b' where
      "apply_bundle cd pr (ck_object_id chunk, ck_total_chunks chunk, ck_total_size chunk, envelope_checksum e) b'
         (ep\<lparr>cse_inbound := AList.delete (ck_object_id chunk) (cse_inbound ep)\<rparr>) = (ep', Ok (Some b))"
      by (auto simp: receive_envelope_def Let_def split: if_splits option.splits sum.splits prod.splits)
    then show ?thesis by fastforce
  qed
  then obtain identity b' ep1 where "apply_bundle cd pr identity b' ep1 = (ep', Ok (Some b))" "cse_config ep1 = cse_config ep" by blast
  then show ?thesis
    by (auto simp: apply_bundle_def remember_completed_def Let_def split: if_splits sum.splits prod.splits)
qed

lemma no_echo:
  assumes "receive_envelope cd pr e ep = (ep', Ok (Some b))"
  shows "snd (poll_outgoing cd pr ts ep') = Ok None"
proof -
  note ap = applied_contents [OF assms]
  then obtain p where "write_clipboard pr b (csc_policy (cse_config ep')) p = (cse_provider ep', Ok ())" by auto
  from read_after_write [OF this] obtain p'' b' where
    rd: "read_clipboard pr (csc_policy (cse_config ep')) (cse_provider ep') = (p'', Ok (Some b'))" "cb_items b' = cb_items b" by blast
  then have "clipboard_content_crc32 cd b' = clipboard_content_crc32 cd b" by (simp add: clipboard_content_crc32_def)
  then show ?thesis using ap rd(1) by (auto simp: poll_outgoing_def Let_def)
qed

end

interpretation memory: clip_store "memory_provider cd show"
proof
  fix b pol p p'
  assume "write_clipboard (memory_provider cd show) b pol p = (p', Ok ())"
  then have "validate_clipboard_bundle_for_policy cd b pol = Ok ()" "p' = p\<lparr>mcp_current := Some b\<rparr>"
    by (auto simp: memory_provider_def memory_write_def map_err_eq_Ok split: sum.splits)
  then show "\<exists>p'' b'. read_clipboard (memory_provider cd show) pol p' = (p'', Ok (Some b')) \<and> cb_items b' = cb_items b"
    by (simp add: memory_provider_def memory_read_def)
qed

text \<open>
  Two endpoints do not play ping-pong: when contents that came from the peer were written to the local
  clipboard, the next poll finds them there and sends nothing back.
\<close>

theorem clipboard_no_echo:
  assumes "receive_envelope cd (memory_provider cd show) e ep = (ep', Ok (Some b))"
  shows "snd (poll_outgoing cd (memory_provider cd show) ts ep') = Ok None"
  using assms by (rule memory.no_echo)

section \<open>Bounds\<close>

definition assembler_ok :: "nat \<Rightarrow> ClipboardBundleAssembler \<Rightarrow> bool" where
  "assembler_ok limit a \<longleftrightarrow> length (roa_chunks a) \<le> 131072 \<and> unat (roa_total_size a) \<le> limit"

definition clip_inv :: "nat \<Rightarrow> 'p ClipboardSyncEndpoint \<Rightarrow> bool" where
  "clip_inv limit ep \<longleftrightarrow> max_bundle_bytes (csc_policy (cse_config ep)) = limit \<and> hash_wf (cse_inbound ep) \<and> length (cse_inbound ep) \<le> 2 \<and>
     (\<forall>(i, a) \<in> set (cse_inbound ep). assembler_ok limit a) \<and> length (cse_completed ep) \<le> 64"

lemma push_assembler_ok: "assembler_ok limit a \<Longrightarrow> assembler_ok limit (fst (cba_push_chunk e a))"
  by (auto simp: cba_push_chunk_def push_chunk_def assembler_ok_def Let_def split: sum.splits)

lemma remember_inv: "clip_inv limit ep \<Longrightarrow> clip_inv limit (remember_completed i ep)"
  by (auto simp: clip_inv_def remember_completed_def Let_def)

lemma apply_inv: "clip_inv limit ep \<Longrightarrow> clip_inv limit (fst (apply_bundle cd pr i b ep))"
  by (auto simp: apply_bundle_def split: sum.splits prod.splits intro!: remember_inv) (simp_all add: clip_inv_def)

lemma receive_inv:
  fixes cd :: "'e clip_codec"
  assumes inv: "clip_inv limit ep"
  shows "clip_inv limit (fst (receive_envelope cd pr e ep))"
proof (cases "dh_chunk (env_header e)")
  case None
  then show ?thesis using inv by (simp add: receive_envelope_def)
next
  case (Some chunk)
  let ?oid = "ck_object_id chunk" and ?in = "cse_inbound ep"
  let ?r = "(case map_of ?in ?oid of Some a \<Rightarrow> Ok a | None \<Rightarrow> from_first_chunk e) :: (_, 'e ClipboardPlaneError) result"
  have wf: "hash_wf ?in" using inv by (simp add: clip_inv_def)
  have del: "clip_inv limit (ep\<lparr>cse_inbound := AList.delete ?oid ?in\<rparr>)"
  proof -
    have "length (AList.delete ?oid ?in) \<le> 2" using hash.size_rem [OF wf, of ?oid] inv unfolding clip_inv_def by linarith
    moreover have "set (AList.delete ?oid ?in) \<subseteq> set ?in" by (simp add: AList.delete_eq)
    ultimately show ?thesis using inv hash.wf_rem [OF wf, of ?oid] unfolding clip_inv_def by auto
  qed
  have upd: "clip_inv limit (ep\<lparr>cse_inbound := AList.update ?oid a ?in\<rparr>)"
    if "assembler_ok limit a" "\<not> (length ?in \<ge> 2 \<and> map_of ?in ?oid = None)" for a
  proof -
    have "length (AList.update ?oid a ?in) \<le> 2"
      using that(2) inv hash.size_ins_new [OF wf, of ?oid a] hash.size_ins_old [OF wf, of ?oid _ a]
      by (cases "map_of ?in ?oid") (auto simp: clip_inv_def)
    moreover have "set (AList.update ?oid a ?in) \<subseteq> insert (?oid, a) (set ?in)" using set_update_subset [of ?oid a ?in] by auto
    ultimately show ?thesis using inv that(1) hash.wf_ins [OF wf, of ?oid a] by (fastforce simp: clip_inv_def)
  qed
  have new: "assembler_ok limit a" if "?r = Ok a" "\<not> (unat (ck_total_size chunk) > limit \<or> ck_total_chunks chunk > MAX_INBOUND_CHUNKS)" for a
  proof (cases "map_of ?in ?oid")
    case None
    then have "a = roa_new ?oid (ck_total_chunks chunk) (ck_total_size chunk) (envelope_checksum e)"
      using that(1) Some by (auto simp: from_first_chunk_def try_bind_eq_Ok ok_or_eq_Ok)
    then show ?thesis using that(2) by (simp add: assembler_ok_def roa_new_def MAX_INBOUND_CHUNKS_def word_less_nat_alt)
  next
    case (Some b)
    then have "(?oid, a) \<in> set ?in" using that(1) by (auto dest: map_of_SomeD)
    then show ?thesis using inv by (auto simp: clip_inv_def)
  qed
  have lim: "max_bundle_bytes (csc_policy (cse_config ep)) = limit" using inv by (simp add: clip_inv_def)
  show ?thesis
  proof (cases "dh_kind (env_header e) \<noteq> Kind_ClipboardBundle \<or>
      (?oid, ck_total_chunks chunk, ck_total_size chunk, envelope_checksum e) \<in> set (cse_completed ep) \<or>
      unat (ck_total_size chunk) > limit \<or> ck_total_chunks chunk > MAX_INBOUND_CHUNKS \<or> (length ?in \<ge> 2 \<and> map_of ?in ?oid = None)")
    case True
    then show ?thesis using inv Some by (auto simp: receive_envelope_def Let_def lim)
  next
    case False
    then have nlim: "\<not> (unat (ck_total_size chunk) > limit \<or> ck_total_chunks chunk > MAX_INBOUND_CHUNKS \<or>
        (length ?in \<ge> 2 \<and> map_of ?in ?oid = None))" by blast
    have step: "receive_envelope cd pr e ep = (case ?r of
        Inl err \<Rightarrow> (ep, Err (CS_Plane err))
      | Inr a \<Rightarrow> (case cba_push_chunk e a of
          (a', Inl err) \<Rightarrow> (ep\<lparr>cse_inbound := AList.update ?oid a' ?in\<rparr>, Err (CS_Plane err))
        | (a', Inr progress) \<Rightarrow>
          if \<not> op_is_complete progress then (ep\<lparr>cse_inbound := AList.update ?oid a' ?in\<rparr>, Ok None)
          else let ep1 = ep\<lparr>cse_inbound := AList.delete ?oid ?in\<rparr> in
            (case cba_finish cd a' of Inl err \<Rightarrow> (ep1, Err (CS_Plane err))
             | Inr b \<Rightarrow> apply_bundle cd pr (?oid, ck_total_chunks chunk, ck_total_size chunk, envelope_checksum e) b ep1)))"
      using False unfolding receive_envelope_def Some option.case Let_def lim if_not_P [OF nlim] by simp
    show ?thesis
    proof (cases ?r)
      case (Inl err)
      then show ?thesis using inv unfolding step by simp
    next
      case (Inr a)
      obtain a' and q :: "(ObjectProgress, 'e ClipboardPlaneError) result" where q: "cba_push_chunk e a = (a', q)" by force
      have "assembler_ok limit a" using new [OF Inr] nlim by blast
      from push_assembler_ok [OF this, of e, where ?'a = 'e] have "assembler_ok limit a'" by (simp add: q)
      then have "clip_inv limit (ep\<lparr>cse_inbound := AList.update ?oid a' ?in\<rparr>)" using upd nlim by blast
      then show ?thesis
        using del apply_inv [OF del] unfolding step Inr sum.case q prod.case by (cases q) (auto simp: Let_def split: sum.splits)
    qed
  qed
qed

interpretation clip: op_machine "\<lambda>ep e. fst (receive_envelope cd pr e ep)" "clip_inv limit"
  by unfold_locales (rule receive_inv)

text \<open>
  Whatever envelopes a peer sends, an endpoint keeps at most two unfinished objects of at most 131072
  chunks, within the announced size its policy allows, and remembers at most 64 finished ones.
\<close>

theorem clipboard_memory_bounded:
  fixes cd :: "'e clip_codec"
  defines "ep \<equiv> \<lambda>pr p c es. foldl (\<lambda>ep e. fst (receive_envelope cd pr e ep)) (cse_new p c) es"
  shows "length (cse_inbound (ep pr p c es)) \<le> 2 \<and> length (cse_completed (ep pr p c es)) \<le> 64 \<and>
    list_all (\<lambda>(i, a). length (roa_chunks a) \<le> 131072 \<and> unat (roa_total_size a) \<le> max_bundle_bytes (csc_policy c)) (cse_inbound (ep pr p c es))"
proof -
  have "clip_inv (max_bundle_bytes (csc_policy c)) (ep pr p c es)"
    unfolding ep_def by (rule clip.run_inv) (simp add: clip_inv_def cse_new_def hash_wf_def)
  then show ?thesis by (auto simp: clip_inv_def assembler_ok_def list_all_iff)
qed

section \<open>File names\<close>

text \<open>
  The check is announced as one against path components, but a name of several normal components passes:
  such a file would be stored below a subdirectory of the target.
\<close>

lemma nested_file_name_accepted: "is_safe_clipboard_file_name ''sub/clip.txt'' \<and> \<not> is_safe_clipboard_file_name ''../clip.txt''"
  by (simp add: is_safe_clipboard_file_name_def path_components_def inner_component_def)

section \<open>A demonstration\<close>

definition demo_bundle :: ClipboardBundle where
  "demo_bundle = clipboard_bundle_text 9 ''hi''"

definition demo_clip_codec :: "unit clip_codec" where
  "demo_clip_codec = \<lparr>bundle_encode = (\<lambda>b. if b = demo_bundle then Ok [1, 2, 3] else if b = clipboard_bundle_text 0 ''hi'' then Ok [4] else Err ()),
     bundle_decode = (\<lambda>bs. if bs = [1, 2, 3] then Ok demo_bundle else if bs = [4] then Ok (clipboard_bundle_text 0 ''hi'') else Err ())\<rparr>"

definition demo_provider :: "MemoryClipboardProvider clip_provider" where
  "demo_provider = memory_provider demo_clip_codec (\<lambda>_. ''refused'')"

definition demo_tx :: "MemoryClipboardProvider ClipboardSyncEndpoint" where
  "demo_tx = cse_new \<lparr>mcp_current = Some demo_bundle\<rparr> (clipboard_config_default\<lparr>csc_chunk_payload_len := 2\<rparr>)"

definition demo_rx :: "MemoryClipboardProvider ClipboardSyncEndpoint" where
  "demo_rx = cse_new \<lparr>mcp_current = None\<rparr> clipboard_config_default"

lemma demo_valid: "validate_clipboard_bundle_for_policy demo_clip_codec demo_bundle clipboard_policy_default = Ok ()"
  by (simp add: validate_clipboard_bundle_for_policy_def validate_clipboard_bundle_def validate_bundle_def demo_bundle_def
      clipboard_bundle_text_def well_formed_item_def validate_item_def validate_item_size_def clipboard_policy_default_def demo_clip_codec_def)

lemma demo_encode: "bundle_encode demo_clip_codec demo_bundle = Ok [1, 2, 3]"
  by (simp add: demo_clip_codec_def)

lemma demo_crc: "\<exists>crc. clipboard_content_crc32 demo_clip_codec demo_bundle = Ok crc"
  by (simp add: clipboard_content_crc32_def demo_clip_codec_def demo_bundle_def clipboard_bundle_text_def)

lemma demo_poll:
  "\<exists>tx' t. poll_outgoing demo_clip_codec demo_provider 0 demo_tx = (tx', Ok (Some t)) \<and> length (cot_envelopes t) = 2"
proof -
  have read: "read_clipboard demo_provider (csc_policy (cse_config demo_tx)) (cse_provider demo_tx) = (cse_provider demo_tx, Ok (Some demo_bundle))"
    using demo_valid by (simp add: demo_provider_def memory_provider_def memory_read_def demo_tx_def cse_new_def clipboard_config_default_def)
  let ?sp = "\<lparr>ces_object_id = 1, ces_stream_id = 1, ces_first_sequence_number = 1, ces_timestamp_ms = 0, ces_max_chunk_payload_len = 2\<rparr>"
  have "\<exists>es. clipboard_bundle_to_envelopes_with_policy demo_clip_codec demo_bundle ?sp clipboard_policy_default = Ok es \<and> length es = 2"
    using demo_valid demo_encode
    by (auto simp: clipboard_bundle_to_envelopes_with_policy_def validate_clipboard_bundle_for_policy_def clipboard_bundle_to_envelopes_def
        try_bind_eq_Ok Let_def length_chunks_of)
  then show ?thesis
    using demo_crc read by (auto simp: poll_outgoing_def Let_def demo_tx_def cse_new_def clipboard_config_default_def)
qed

lemma demo_codec_ok: "\<forall>b bs. bundle_encode demo_clip_codec b = Ok bs \<longrightarrow> bundle_decode demo_clip_codec bs = Ok b"
  by (auto simp: demo_clip_codec_def split: if_splits)

lemma demo_setting:
  obtains tx' t where "poll_outgoing demo_clip_codec demo_provider 0 demo_tx = (tx', Ok (Some t))"
    "read_clipboard demo_provider (csc_policy (cse_config demo_tx)) (cse_provider demo_tx) = (cse_provider demo_tx, Ok (Some demo_bundle))"
    "length [1, 2, 3 :: u8] \<le> max_bundle_bytes (csc_policy (cse_config demo_rx))" "length [1, 2, 3 :: u8] < 2 ^ 64"
    "length (cot_envelopes t) \<le> 131072"
    "map_of (cse_inbound demo_rx) (csc_next_object_id (cse_config demo_tx)) = None" "length (cse_inbound demo_rx) < 2"
    "csc_next_object_id (cse_config demo_tx) \<notin> fst ` set (cse_completed demo_rx)"
    "insert 0 (set [1]) = {..<length (cot_envelopes t)}" "0 \<notin> set [1 :: nat]"
    "Some (cot_content_crc32 t) \<noteq> cse_last_sent demo_rx" "Some (cot_content_crc32 t) \<noteq> cse_last_applied demo_rx"
    "write_clipboard demo_provider demo_bundle (csc_policy (cse_config demo_rx)) (cse_provider demo_rx) = (\<lparr>mcp_current = Some demo_bundle\<rparr>, Ok ())"
    "length (cse_completed demo_rx) \<le> 64"
proof -
  obtain tx' t where t: "poll_outgoing demo_clip_codec demo_provider 0 demo_tx = (tx', Ok (Some t))" "length (cot_envelopes t) = 2"
    using demo_poll by blast
  show thesis
    by (rule that [OF t(1)]) (use t(2) demo_valid in \<open>auto simp: demo_rx_def demo_tx_def cse_new_def clipboard_config_default_def
        clipboard_policy_default_def demo_provider_def memory_provider_def memory_read_def memory_write_def\<close>)
qed

theorem clipboard_bundle_delivered_witness:
  "\<exists>tx' t rx2. poll_outgoing demo_clip_codec demo_provider 0 demo_tx = (tx', Ok (Some t)) \<and>
     (\<exists>rx1 r. clip_run demo_clip_codec demo_provider [cot_envelopes t ! 1] demo_rx = (rx1, [r]) \<and>
       receive_envelope demo_clip_codec demo_provider (cot_envelopes t ! 0) rx1 = (rx2, Ok (Some demo_bundle)) \<and>
       receive_envelope demo_clip_codec demo_provider (cot_envelopes t ! 0) rx2 = (rx2, Ok None))"
proof (rule demo_setting)
  fix tx' t
  note s = demo_codec_ok
  assume a: "poll_outgoing demo_clip_codec demo_provider 0 demo_tx = (tx', Ok (Some t))"
    and b: "read_clipboard demo_provider (csc_policy (cse_config demo_tx)) (cse_provider demo_tx) = (cse_provider demo_tx, Ok (Some demo_bundle))"
    and c: "length [1, 2, 3 :: u8] \<le> max_bundle_bytes (csc_policy (cse_config demo_rx))" "length [1, 2, 3 :: u8] < 2 ^ 64"
      "length (cot_envelopes t) \<le> 131072" "map_of (cse_inbound demo_rx) (csc_next_object_id (cse_config demo_tx)) = None" "length (cse_inbound demo_rx) < 2"
      "csc_next_object_id (cse_config demo_tx) \<notin> fst ` set (cse_completed demo_rx)"
      "insert 0 (set [1]) = {..<length (cot_envelopes t)}" "0 \<notin> set [1 :: nat]"
      "Some (cot_content_crc32 t) \<noteq> cse_last_sent demo_rx" "Some (cot_content_crc32 t) \<noteq> cse_last_applied demo_rx"
      "write_clipboard demo_provider demo_bundle (csc_policy (cse_config demo_rx)) (cse_provider demo_rx) = (\<lparr>mcp_current = Some demo_bundle\<rparr>, Ok ())"
      "length (cse_completed demo_rx) \<le> 64"
  from clipboard_bundle_delivered [OF s a b demo_encode c] obtain rx1 rx2 where
    r: "clip_run demo_clip_codec demo_provider (map (nth (cot_envelopes t)) [1]) demo_rx = (rx1, replicate (length [1 :: nat]) (Ok None))"
      "receive_envelope demo_clip_codec demo_provider (cot_envelopes t ! 0) rx1 = (rx2, Ok (Some demo_bundle))"
    and again: "\<And>xs j. j < length (cot_envelopes t) \<Longrightarrow>
        card {k \<in> objects_of xs. wire_identity (cot_envelopes t ! j) \<noteq> Some k} < 64 \<Longrightarrow>
      receive_envelope demo_clip_codec demo_provider (cot_envelopes t ! j) (foldl (clip_step demo_clip_codec demo_provider) rx2 xs) =
        (foldl (clip_step demo_clip_codec demo_provider) rx2 xs, Ok None)" by blast
  have "0 < length (cot_envelopes t)" using c(7) by auto
  then show ?thesis using a r again [of 0 "[]"] by (auto simp: objects_of_def)
qed

lemma demo_received: "\<exists>e ep ep'. receive_envelope demo_clip_codec demo_provider e ep = (ep', Ok (Some demo_bundle))"
  by (rule demo_setting) (use bundle_delivered [OF demo_codec_ok _ _ demo_encode] in meson)

theorem clipboard_no_echo_witness:
  "\<exists>e ep ep'. receive_envelope demo_clip_codec demo_provider e ep = (ep', Ok (Some demo_bundle)) \<and>
     snd (poll_outgoing demo_clip_codec demo_provider 7 ep') = Ok None"
proof -
  obtain e ep ep' where r: "receive_envelope demo_clip_codec demo_provider e ep = (ep', Ok (Some demo_bundle))"
    using demo_received by blast
  from clipboard_no_echo [OF r [unfolded demo_provider_def], of 7] r show ?thesis unfolding demo_provider_def by blast
qed

end
