(* ===== verification/Media_Plane.thy ===== *)
theory Media_Plane
  imports Compact_Realtime
begin

text \<open>
  The media plane (\<open>remote_core/src/media_plane.rs\<close>): RTP packets of the capture side become realtime
  envelopes and come back as RTP packets at the viewer; keyframes are found in the HEVC byte stream.
  Beside it stand the two small parts a frame passes on its way: the pacer that picks frames on a target
  timeline (\<open>frame_pacer.rs\<close>) and the slot that keeps the latest frame (\<open>latest_frame.rs\<close>).

  The system clock is an argument (\<open>now_ms\<close>).  \<open>bincode\<close> is a parameter of the audio configuration
  functions.  In the latest-frame slot the outcome of \<open>try_lock\<close> is an argument.
\<close>

unbundle bit_operations_syntax

section \<open>Keyframes in a HEVC stream\<close>

text \<open>\<open>slice::windows(n)\<close> and \<open>Iterator::find_map\<close>.\<close>

definition windows :: "nat \<Rightarrow> 'a list \<Rightarrow> 'a list list" where
  "windows n xs = map (\<lambda>i. take n (drop i xs)) [0..<length xs + 1 - n]"

fun find_map :: "('a \<Rightarrow> 'b option) \<Rightarrow> 'a list \<Rightarrow> 'b option" where
  "find_map f [] = None"
| "find_map f (x # xs) = (case f x of Some y \<Rightarrow> Some y | None \<Rightarrow> find_map f xs)"

definition nal_kind :: "u8 \<Rightarrow> u8" where
  "nal_kind b = drop_bit 1 b AND 0x3f"

definition vcl_window :: "bytes \<Rightarrow> bool option" where
  "vcl_window w =
     (if take 3 w \<noteq> [0, 0, 1] \<or> w ! 3 AND 0x80 \<noteq> 0 \<or> w ! 4 AND 7 = 0 then None
      else let kind = nal_kind (w ! 3) in
        if kind < 32 then Some (16 \<le> kind \<and> kind \<le> 21) else None)"

definition is_hevc_keyframe :: "bytes \<Rightarrow> bool" where
  "is_hevc_keyframe data = (case find_map vcl_window (windows 5 data) of Some b \<Rightarrow> b | None \<Rightarrow> False)"

section \<open>RTP and envelopes\<close>

definition VIDEO_DEADLINE_DELTA_MS :: u64 where "VIDEO_DEADLINE_DELTA_MS = 16"

datatype MediaPlaneError =
    UnsupportedPayloadType u8
  | UnsupportedEnvelopeKind DataLane ContentKind
  | InvalidAudioStreamConfigPayload
  | AudioStreamConfigStreamMismatch u32 u32
  | SequenceOutOfRange u64
  | TimestampOutOfRange u64

definition unwrap_wrapped_millis :: "u32 \<Rightarrow> u64 \<Rightarrow> u64" where
  "unwrap_wrapped_millis wrapped_ms now_ms =
     (let low_now = ucast now_ms :: u32; signed_delta = sint (wrapped_ms - low_now) in
      if signed_delta \<ge> 0 then saturating_add now_ms (word_of_int signed_delta)
      else saturating_sub now_ms (word_of_int \<bar>signed_delta\<bar>))"

definition rtp_to_realtime_data_at :: "RtpPacket \<Rightarrow> u64 \<Rightarrow> (DataEnvelope, MediaPlaneError) result" where
  "rtp_to_realtime_data_at packet now_ms =
     (let h = rtp_header packet;
          sequence_number = ucast (rtp_sequence_number h);
          stream_id = rtp_ssrc h in
      if rtp_payload_type h = payload_type_id VideoH265 then
        (let timestamp_ms = unwrap_wrapped_millis (rtp_timestamp h) now_ms in
         Ok (realtime_video stream_id sequence_number timestamp_ms
           (min (saturating_add (max now_ms timestamp_ms) VIDEO_DEADLINE_DELTA_MS)
                (saturating_add timestamp_ms 0xffff))
           (rtp_payload packet)))
      else if rtp_payload_type h = payload_type_id AudioOpus then
        Ok (realtime_audio stream_id sequence_number (ucast (rtp_timestamp h)) (rtp_payload packet))
      else Err (UnsupportedPayloadType (rtp_payload_type h)))"

definition audio_stream_config_to_envelope ::
  "(AudioStreamConfig \<Rightarrow> (bytes, 'e) result) \<Rightarrow> AudioStreamConfig \<Rightarrow> u64 \<Rightarrow> u64 \<Rightarrow>
     (DataEnvelope, MediaPlaneError) result" where
  "audio_stream_config_to_envelope enc config sequence_number timestamp_ms =
     map_err (\<lambda>_. InvalidAudioStreamConfigPayload)
       (audio_stream_config_envelope enc config sequence_number timestamp_ms)"

definition audio_stream_config_from_envelope ::
  "(bytes \<Rightarrow> (AudioStreamConfig, 'e) result) \<Rightarrow> DataEnvelope \<Rightarrow> (AudioStreamConfig, MediaPlaneError) result" where
  "audio_stream_config_from_envelope dec e =
     (let h = env_header e in
      if dh_lane h \<noteq> Lane_Interactive \<or> dh_kind h \<noteq> Kind_AudioStreamConfig
      then Err (UnsupportedEnvelopeKind (dh_lane h) (dh_kind h))
      else try_bind (map_err (\<lambda>_. InvalidAudioStreamConfigPayload) (dec (env_payload e))) (\<lambda>config.
        if asc_stream_id config \<noteq> dh_stream_id h
        then Err (AudioStreamConfigStreamMismatch (dh_stream_id h) (asc_stream_id config))
        else Ok config))"

definition media_payload_type :: "DataLane \<Rightarrow> ContentKind \<Rightarrow> (u8, MediaPlaneError) result" where
  "media_payload_type lane kind =
     (case (lane, kind) of
        (Lane_Realtime, Kind_VideoH265) \<Rightarrow> Ok (payload_type_id VideoH265)
      | (Lane_Realtime, Kind_AudioOpus) \<Rightarrow> Ok (payload_type_id AudioOpus)
      | _ \<Rightarrow> Err (UnsupportedEnvelopeKind lane kind))"

definition realtime_data_to_rtp :: "DataEnvelope \<Rightarrow> (RtpPacket, MediaPlaneError) result" where
  "realtime_data_to_rtp e =
     (let h = env_header e in
      try_bind (media_payload_type (dh_lane h) (dh_kind h)) (\<lambda>payload_type.
      if unat (dh_sequence_number h) \<ge> 2 ^ 16 then Err (SequenceOutOfRange (dh_sequence_number h))
      else Ok \<lparr>rtp_header = \<lparr>rtp_version = 2, rtp_payload_type = payload_type,
              rtp_sequence_number = ucast (dh_sequence_number h),
              rtp_timestamp = ucast (dh_timestamp_ms h), rtp_ssrc = dh_stream_id h\<rparr>,
            rtp_payload = env_payload e\<rparr>))"

section \<open>The frame pacer\<close>

definition saturating_mul :: "'a::len word \<Rightarrow> 'a word \<Rightarrow> 'a word" where
  "saturating_mul a b = (if unat a * unat b < 2 ^ LENGTH('a) then a * b else - 1)"

record FramePacer =
  period_us :: u64
  next_due_us :: "u64 option"

definition pacer_new :: "u32 \<Rightarrow> FramePacer" where
  "pacer_new fps = \<lparr>period_us = max (1000000 div ucast (max fps 1)) 1, next_due_us = None\<rparr>"

definition pacer_reset :: "FramePacer \<Rightarrow> u32 \<Rightarrow> FramePacer" where
  "pacer_reset _ fps = pacer_new fps"

definition admit :: "FramePacer \<Rightarrow> u64 \<Rightarrow> FramePacer \<times> bool" where
  "admit p timestamp_us =
     (let due = (case next_due_us p of Some d \<Rightarrow> d | None \<Rightarrow> timestamp_us);
          latest = saturating_add timestamp_us (period_us p div 2) in
      if latest < due then (p, False)
      else let periods = (latest - due) div period_us p + 1 in
        (p\<lparr>next_due_us := Some (saturating_add due (saturating_mul periods (period_us p)))\<rparr>, True))"

section \<open>The latest-frame slot\<close>

datatype try_lock = Locked | Poisoned | WouldBlock

definition slot_push :: "try_lock \<Rightarrow> 'a \<Rightarrow> 'a option \<Rightarrow> 'a option" where
  "slot_push lock v s = (case lock of Locked \<Rightarrow> Some v | Poisoned \<Rightarrow> Some v | WouldBlock \<Rightarrow> s)"

definition slot_take :: "'a option \<Rightarrow> 'a option \<times> 'a option" where
  "slot_take s = (None, s)"


section \<open>Lemmas\<close>

subsection \<open>Scanning for NAL units\<close>

abbreviation scan :: "bytes \<Rightarrow> bool option" where
  "scan xs \<equiv> find_map vcl_window (windows 5 xs)"

lemma windows_short: "length xs < n \<Longrightarrow> windows n xs = []"
  by (simp add: windows_def)

lemma windows_step:
  assumes "n \<le> length xs" "0 < n"
  shows "windows n xs = take n xs # windows n (tl xs)"
proof -
  have "windows n xs = map (\<lambda>i. take n (drop i xs)) (0 # map Suc [0..<length xs - n])"
    using assms by (simp add: windows_def upt_conv_Cons map_Suc_upt Suc_diff_le)
  then show ?thesis
    using assms by (simp add: windows_def drop_Suc Suc_diff_le)
qed

lemma scan_skip_one: "take 3 xs \<noteq> [0, 0, 1] \<Longrightarrow> scan xs = scan (tl xs)"
  by (cases "5 \<le> length xs") (simp_all add: windows_step windows_short vcl_window_def)

lemma scan_skip: "(\<And>i. i < m \<Longrightarrow> take 3 (drop i xs) \<noteq> [0, 0, 1]) \<Longrightarrow> scan xs = scan (drop m xs)"
proof (induction m arbitrary: xs)
  case (Suc m)
  have "scan xs = scan (tl xs)" using Suc.prems [of 0] by (simp add: scan_skip_one)
  also have "\<dots> = scan (drop m (tl xs))" using Suc.prems [of "Suc i" for i] by (intro Suc.IH) (simp add: drop_Suc)
  finally show ?case by (simp add: drop_Suc)
qed simp

text \<open>A NAL unit with a valid header: no start code inside, and no zero byte at its end.\<close>

definition nal_unit :: "bytes \<Rightarrow> bool" where
  "nal_unit n \<longleftrightarrow> 2 \<le> length n \<and> n ! 0 AND 0x80 = 0 \<and> n ! 1 AND 7 \<noteq> 0 \<and> last n \<noteq> 0 \<and>
     [0, 0, 1] \<notin> set (windows 3 n)"

text \<open>The Annex B byte stream of NAL units, each with any number of leading zero bytes.\<close>

definition annexb :: "(nat \<times> bytes) list \<Rightarrow> bytes" where
  "annexb nals = concat (map (\<lambda>(k, n). replicate k 0 @ [0, 0, 1] @ n) nals)"

lemma nal_no_start_code:
  assumes "nal_unit n" "i < length n"
  shows "take 3 (drop i (n @ rest)) \<noteq> [0, 0, 1]"
proof (cases "i + 3 \<le> length n")
  case True
  then have "take 3 (drop i n) \<in> set (windows 3 n)" by (auto simp: windows_def)
  then show ?thesis using assms True by (auto simp: nal_unit_def)
next
  case False
  then have "length n - 1 - i < length (drop i n)" "length n - 1 - i < 3" using assms(2) by auto
  then have "n ! (length n - 1) = take 3 (drop i (n @ rest)) ! (length n - 1 - i)"
    using assms(2) by (simp add: nth_append)
  moreover have "n ! (length n - 1) \<noteq> 0"
    using assms last_conv_nth [of n] by (cases "n = []") (simp_all add: nal_unit_def)
  moreover have "length n - 1 - i = 0 \<or> length n - 1 - i = 1" using False assms(2) by auto
  ultimately show ?thesis by (metis nth_Cons_0 nth_Cons_Suc One_nat_def)
qed

lemma scan_zeros: "scan (replicate k 0 @ 0 # 0 # xs) = scan (0 # 0 # xs)"
proof (induction k)
  case (Suc k)
  have "take 3 (replicate (Suc k) 0 @ 0 # 0 # xs) \<noteq> [0, 0, (1 :: u8)]"
    by (cases k; cases "k - 1") (simp_all add: numeral_3_eq_3)
  then have "scan (replicate (Suc k) 0 @ 0 # 0 # xs) = scan (replicate k 0 @ 0 # 0 # xs)"
    by (subst scan_skip_one) simp_all
  then show ?case using Suc.IH by simp
qed simp

lemma scan_nal:
  assumes "nal_unit n"
  shows "scan (0 # 0 # 1 # n @ rest) =
    (if nal_kind (n ! 0) < 32 then Some (16 \<le> nal_kind (n ! 0) \<and> nal_kind (n ! 0) \<le> 21) else scan rest)"
proof -
  obtain a b m where n: "n = a # b # m"
    using assms by (cases n; cases "tl n") (auto simp: nal_unit_def)
  let ?xs = "0 # 0 # 1 # n @ rest"
  have first: "vcl_window (take 5 ?xs) =
      (if nal_kind a < 32 then Some (16 \<le> nal_kind a \<and> nal_kind a \<le> 21) else None)"
    using assms by (simp add: n vcl_window_def nal_unit_def Let_def)
  have "scan (tl ?xs) = scan (drop (2 + length n) (tl ?xs))"
  proof (rule scan_skip)
    fix i
    assume i: "i < 2 + length n"
    show "take 3 (drop i (tl ?xs)) \<noteq> [0, 0, 1]"
    proof (cases "i < 2")
      case True
      then have "i = 0 \<or> i = 1" by auto
      then show ?thesis by auto
    next
      case False
      then have "drop i (tl ?xs) = drop (i - 2) (n @ rest)" by (simp add: drop_Cons' numeral_2_eq_2)
      then show ?thesis using nal_no_start_code [OF assms, of "i - 2" rest] i False by simp
    qed
  qed
  then have "scan (tl ?xs) = scan rest" by simp
  then show ?thesis
    using first by (subst windows_step) (simp_all add: n)
qed

lemma scan_annexb:
  "(\<And>k n. (k, n) \<in> set nals \<Longrightarrow> nal_unit n) \<Longrightarrow>
   scan (annexb nals) = map_option (\<lambda>n. 16 \<le> nal_kind (n ! 0) \<and> nal_kind (n ! 0) \<le> 21)
     (find (\<lambda>n. nal_kind (n ! 0) < 32) (map snd nals))"
proof (induction nals)
  case Nil
  then show ?case by (simp add: annexb_def windows_short)
next
  case (Cons x nals)
  obtain k n where x: "x = (k, n)" by force
  have "scan (annexb (x # nals)) = scan (0 # 0 # 1 # n @ annexb nals)"
    by (simp add: annexb_def x scan_zeros)
  moreover have "nal_unit n" "\<And>k n. (k, n) \<in> set nals \<Longrightarrow> nal_unit n" using Cons.prems by (auto simp: x)
  ultimately show ?case
    using Cons.IH by (simp add: x scan_nal)
qed


subsection \<open>Timestamps\<close>

lemma sint_ucast_diff:
  fixes t now :: u64
  assumes "- (2 ^ 31) \<le> uint t - uint now" "uint t - uint now < 2 ^ 31"
  shows "sint (ucast t - ucast now :: u32) = uint t - uint now"
proof -
  have "(ucast t - ucast now :: u32) = word_of_int (uint t - uint now)"
    by (simp add: unsigned_eq_0_iff of_int_diff)
  then have "sint (ucast t - ucast now :: u32) = signed_take_bit 31 (uint t - uint now)"
    by (simp only: signed_of_int) simp
  then show ?thesis
    using assms by (simp add: signed_take_bit_int_eq_self)
qed

lemma unwrap_recovers:
  assumes "- (2 ^ 31) \<le> uint t - uint now" "uint t - uint now < 2 ^ 31"
  shows "unwrap_wrapped_millis (ucast t) now = t"
proof (cases "uint t - uint now \<ge> 0")
  case True
  then have "unat (word_of_int (uint t - uint now) :: u64) = unat t - unat now"
    by (metis uint_minus_simple_alt uint_sub_if' unat_sub word_le_def word_of_int_uint diff_ge_0_iff_ge)
  then have "unat (saturating_add now (word_of_int (uint t - uint now))) = unat t"
    using True unat_less_exp [of t] by (simp add: unat_saturating_add word_le_nat_alt flip: word_le_def)
  then show ?thesis
    using True assms by (simp add: unwrap_wrapped_millis_def sint_ucast_diff unsigned_word_eqI)
next
  case False
  then have "unat (word_of_int (uint now - uint t) :: u64) = unat now - unat t"
    by (metis uint_minus_simple_alt uint_sub_if' unat_sub word_le_def word_of_int_uint not_le order_less_imp_le diff_ge_0_iff_ge)
  then have "unat (saturating_sub now (word_of_int (uint now - uint t))) = unat t"
    using False by (simp add: unat_saturating_sub word_le_nat_alt flip: word_le_def)
  then show ?thesis
    using False assms by (simp add: unwrap_wrapped_millis_def sint_ucast_diff unsigned_word_eqI)
qed


subsection \<open>Envelopes of media packets\<close>

lemma plain_encode: "encode_compact_realtime e = encode_compact_realtime_with_timing None e"
proof (cases "from_data_header (env_header e)")
  case (Inr h)
  then have "h\<lparr>crh_host_timing := None\<rparr> = h" using from_data_header_OkD [of "env_header e" h] by simp
  with Inr show ?thesis by (simp add: encode_compact_realtime_def encode_compact_realtime_with_timing_def)
qed (simp add: encode_compact_realtime_def encode_compact_realtime_with_timing_def)

lemma plain_envelope_roundtrip:
  assumes "is_ok (encode_compact_realtime e)" "dh_version (env_header e) = 1" "env_transport_timing e = None"
  shows "\<exists>data. encode_compact_realtime e = Ok data \<and> decode_envelope data = Ok e"
proof -
  obtain data where d: "encode_compact_realtime e = Ok data"
    using assms(1) by (cases "encode_compact_realtime e") auto
  then have "decode_envelope data = Ok (e\<lparr>env_transport_timing := None\<rparr>)"
    using compact_roundtrip assms(2) by (metis plain_encode COMPACT_REALTIME_WIRE_VERSION_def)
  with d assms(3) show ?thesis by simp
qed

lemma video_deadline_fits:
  fixes now t :: u64
  defines "d \<equiv> min (saturating_add (max now t) VIDEO_DEADLINE_DELTA_MS) (saturating_add t 0xffff)"
  shows "t \<le> d \<and> unat d - unat t < 65536"
  by (auto simp: d_def word_le_nat_alt unat_saturating_add min_def max_def VIDEO_DEADLINE_DELTA_MS_def
      simp del: unat_le_max)
    (use unat_less_exp [of t] in simp_all)

lemmas envelope_defs = realtime_video_def realtime_audio_def envelope_new_def Let_def
  lane_is_realtime_def reliability_for_lane_def lane_requires_reliable_delivery_def

lemma video_encodes:
  "is_ok (encode_compact_realtime (realtime_video sid seq t
     (min (saturating_add (max now t) VIDEO_DEADLINE_DELTA_MS) (saturating_add t 0xffff)) payload))"
  using video_deadline_fits [of t now] by (simp add: compact_encode_domain envelope_defs)

lemma audio_encodes: "is_ok (encode_compact_realtime (realtime_audio sid seq t payload))"
  by (simp add: compact_encode_domain envelope_defs)

lemma small_sequence: "unat (ucast (q :: u16) :: u64) < 65536" "ucast (ucast (q :: u16) :: u64) = q"
  using unat_less_exp [of q] by (simp_all add: unat_ucast_small ucast_ucast_small)

lemma back_to_rtp:
  "realtime_data_to_rtp (realtime_video sid (ucast q) t d payload) =
     Ok \<lparr>rtp_header = \<lparr>rtp_version = 2, rtp_payload_type = payload_type_id VideoH265,
         rtp_sequence_number = q, rtp_timestamp = ucast t, rtp_ssrc = sid\<rparr>, rtp_payload = payload\<rparr>"
  "realtime_data_to_rtp (realtime_audio sid (ucast q) t payload) =
     Ok \<lparr>rtp_header = \<lparr>rtp_version = 2, rtp_payload_type = payload_type_id AudioOpus,
         rtp_sequence_number = q, rtp_timestamp = ucast t, rtp_ssrc = sid\<rparr>, rtp_payload = payload\<rparr>"
  using small_sequence [of q]
  by (simp_all add: realtime_data_to_rtp_def envelope_defs media_payload_type_def)

subsection \<open>Pacing\<close>

definition pacer_inv :: "FramePacer \<Rightarrow> bool" where
  "pacer_inv p \<longleftrightarrow> 1 \<le> unat (period_us p) \<and> unat (period_us p) \<le> 1000000 \<and>
     (case next_due_us p of None \<Rightarrow> True | Some d \<Rightarrow> unat d < 2 ^ 63 + 2000000)"

text \<open>The frames a pacer admits from a sequence of capture times.\<close>

fun pace :: "FramePacer \<Rightarrow> u64 list \<Rightarrow> u64 list" where
  "pace p [] = []"
| "pace p (t # ts) = (let (p', ok) = admit p t in if ok then t # pace p' ts else pace p' ts)"

lemma pacer_new_inv: "pacer_inv (pacer_new fps)"
proof -
  have "unat (1000000 div ucast (max fps 1) :: u64) \<le> 1000000"
    by (simp add: unat_div)
  then show ?thesis by (simp add: pacer_inv_def pacer_new_def max_def word_le_nat_alt)
qed

lemma next_multiple:
  fixes P :: nat
  assumes "0 < P" "due \<le> l"
  shows "l < due + ((l - due) div P + 1) * P" "due + ((l - due) div P + 1) * P \<le> l + P"
proof -
  have "l - due < P + (l - due) div P * P" "(l - due) div P * P \<le> l - due"
    by (rule dividend_less_div_times [OF assms(1)], rule div_times_less_eq_dividend)
  then show "l < due + ((l - due) div P + 1) * P" "due + ((l - due) div P + 1) * P \<le> l + P"
    using assms(2) by (simp_all only: add_mult_distrib mult_1)
qed

lemma admit_cases:
  assumes inv: "pacer_inv p" and t: "unat t < 2 ^ 63"
  defines "due \<equiv> unat (case next_due_us p of Some d \<Rightarrow> d | None \<Rightarrow> t)"
    and "latest \<equiv> unat t + unat (period_us p) div 2"
  shows "latest < due \<and> admit p t = (p, False) \<or>
    due \<le> latest \<and> (\<exists>d. admit p t = (p\<lparr>next_due_us := Some d\<rparr>, True) \<and>
      due + unat (period_us p) \<le> unat d \<and> latest < unat d \<and> unat d \<le> latest + unat (period_us p))"
proof -
  let ?P = "unat (period_us p)"
  let ?due = "case next_due_us p of Some d \<Rightarrow> d | None \<Rightarrow> t"
  let ?l = "saturating_add t (period_us p div 2)"
  have P: "1 \<le> ?P" "?P \<le> 1000000" using inv by (simp_all add: pacer_inv_def)
  have l: "unat ?l = latest" using t P by (simp add: unat_saturating_add unat_div latest_def)
  show ?thesis
  proof (cases "latest < due")
    case True
    then show ?thesis by (simp add: admit_def Let_def word_less_nat_alt l due_def)
  next
    case False
    let ?n = "(latest - due) div ?P + 1"
    let ?q = "(?l - ?due) div period_us p + 1"
    have le: "?due \<le> ?l" using False by (simp add: word_le_nat_alt l due_def)
    have n: "latest < due + ?n * ?P" "due + ?n * ?P \<le> latest + ?P" "?P \<le> ?n * ?P"
      using next_multiple [of ?P due latest] False P by simp_all
    have small: "latest + ?P < 2 ^ 64" using t P by (simp add: latest_def)
    have "(latest - due) div ?P \<le> latest" by (meson diff_le_self div_le_dividend le_trans)
    then have q: "unat ?q = ?n"
      using small P le by (subst unat_add_no_overflow) (simp_all add: unat_div unat_sub l due_def)
    have "?n * ?P < 2 ^ 64" using n(2) small by linarith
    then have m: "unat (saturating_mul ?q (period_us p)) = ?n * ?P"
      using q by (simp add: saturating_mul_def unat_mult_no_overflow)
    have "unat (saturating_add ?due (saturating_mul ?q (period_us p))) = due + ?n * ?P"
      unfolding unat_saturating_add m using n(2) small by (simp add: due_def)
    moreover have "admit p t = (p\<lparr>next_due_us := Some (saturating_add ?due (saturating_mul ?q (period_us p)))\<rparr>, True)"
      using le by (simp add: admit_def Let_def)
    ultimately show ?thesis using False n by auto
  qed
qed

lemma admit_inv: "pacer_inv p \<Longrightarrow> unat t < 2 ^ 63 \<Longrightarrow> pacer_inv (fst (admit p t))"
  using admit_cases [of p t] by (auto simp: pacer_inv_def)

lemma pace_after:
  "pacer_inv p \<Longrightarrow> next_due_us p = Some d \<Longrightarrow> \<forall>t\<in>set ts. unat t < 2 ^ 63 \<Longrightarrow> k < length (pace p ts) \<Longrightarrow>
   unat d + k * unat (period_us p) \<le> unat (pace p ts ! k) + unat (period_us p) div 2"
proof (induction ts arbitrary: p d k)
  case (Cons t ts)
  have inv: "pacer_inv (fst (admit p t))" using Cons.prems by (intro admit_inv) auto
  consider "admit p t = (p, False)" | d' where "admit p t = (p\<lparr>next_due_us := Some d'\<rparr>, True)"
      "unat d \<le> unat t + unat (period_us p) div 2" "unat d + unat (period_us p) \<le> unat d'"
    using admit_cases [of p t] Cons.prems by auto
  then show ?case
  proof cases
    case 1
    then show ?thesis using Cons.IH [of p d k] Cons.prems by simp
  next
    case 2
    then show ?thesis
      using Cons.IH [of "p\<lparr>next_due_us := Some d'\<rparr>" d' "k - 1"] Cons.prems inv by (cases k) auto
  qed
qed simp

lemma pace_spread:
  "pacer_inv p \<Longrightarrow> \<forall>t\<in>set ts. unat t < 2 ^ 63 \<Longrightarrow> i < j \<Longrightarrow> j < length (pace p ts) \<Longrightarrow>
   unat (pace p ts ! i) + (j - i - 1) * unat (period_us p) < unat (pace p ts ! j)"
proof (induction ts arbitrary: p i j)
  case (Cons t ts)
  have inv: "pacer_inv (fst (admit p t))" using Cons.prems by (intro admit_inv) auto
  consider "admit p t = (p, False)" | d' where "admit p t = (p\<lparr>next_due_us := Some d'\<rparr>, True)"
      "unat t + unat (period_us p) div 2 < unat d'"
    using admit_cases [of p t] Cons.prems by auto
  then show ?case
  proof cases
    case 1
    then show ?thesis using Cons.IH [of p i j] Cons.prems by simp
  next
    case 2
    let ?p = "p\<lparr>next_due_us := Some d'\<rparr>"
    show ?thesis
    proof (cases i)
      case 0
      then show ?thesis using 2 pace_after [of ?p d' ts "j - 1"] Cons.prems inv by (cases j) auto
    next
      case (Suc i')
      then show ?thesis using 2 Cons.IH [of ?p i' "j - 1"] Cons.prems inv by (cases j) auto
    qed
  qed
qed simp

section \<open>Properties\<close>

text \<open>
  A media packet survives the whole realtime path.  A video packet captured at \<open>t\<close>, within about 24 days
  of the clock of the sender, or an audio packet, becomes an envelope that the compact encoder always
  takes; the receiver decodes the same envelope, with the full 64-bit capture time, and turns it back into
  the packet.
\<close>

theorem media_packet_roundtrip:
  fixes packet :: RtpPacket
  defines "h \<equiv> rtp_header packet"
  assumes version: "rtp_version h = 2" and ts: "rtp_timestamp h = ucast t"
    and kind: "rtp_payload_type h = payload_type_id VideoH265 \<and>
        - (2 ^ 31) \<le> uint t - uint now \<and> uint t - uint now < 2 ^ 31 \<or>
      rtp_payload_type h = payload_type_id AudioOpus \<and> t < 2 ^ 32"
  shows "\<exists>e data. rtp_to_realtime_data_at packet now = Ok e \<and> encode_compact_realtime e = Ok data \<and>
    decode_envelope data = Ok e \<and> dh_timestamp_ms (env_header e) = t \<and> realtime_data_to_rtp e = Ok packet"
  using kind
proof
  assume v: "rtp_payload_type h = payload_type_id VideoH265 \<and>
    - (2 ^ 31) \<le> uint t - uint now \<and> uint t - uint now < 2 ^ 31"
  then have u: "unwrap_wrapped_millis (rtp_timestamp h) now = t" unfolding ts by (intro unwrap_recovers) auto
  let ?d = "min (saturating_add (max now t) VIDEO_DEADLINE_DELTA_MS) (saturating_add t 0xffff)"
  let ?e = "realtime_video (rtp_ssrc h) (ucast (rtp_sequence_number h)) t ?d (rtp_payload packet)"
  have "realtime_data_to_rtp ?e = Ok packet"
    using v version ts by (simp add: back_to_rtp h_def)
  moreover have "rtp_to_realtime_data_at packet now = Ok ?e"
    using v u by (simp add: rtp_to_realtime_data_at_def h_def Let_def)
  ultimately show ?thesis
    using plain_envelope_roundtrip [OF video_encodes, of "rtp_ssrc h" "ucast (rtp_sequence_number h)" t now "rtp_payload packet"]
    by (auto simp: envelope_defs)
next
  assume a: "rtp_payload_type h = payload_type_id AudioOpus \<and> t < 2 ^ 32"
  then have u: "ucast (rtp_timestamp h) = t" unfolding ts by (simp add: ucast_ucast_small word_less_nat_alt)
  let ?e = "realtime_audio (rtp_ssrc h) (ucast (rtp_sequence_number h)) t (rtp_payload packet)"
  have "realtime_data_to_rtp ?e = Ok packet"
    using a version ts by (simp add: back_to_rtp h_def)
  moreover have "rtp_to_realtime_data_at packet now = Ok ?e"
    using a u by (simp add: rtp_to_realtime_data_at_def h_def Let_def)
  ultimately show ?thesis
    using plain_envelope_roundtrip [OF audio_encodes, of "rtp_ssrc h" "ucast (rtp_sequence_number h)" t "rtp_payload packet"]
    by (auto simp: envelope_defs)
qed

text \<open>
  C27. A keyframe is recognised by its first coded picture.  In a well-formed Annex B stream, with start codes
  of any length, the answer is whether the first NAL unit that carries a picture is of an
  intra random access type; parameter sets and messages before it do not matter.
\<close>

theorem keyframe_is_first_picture:
  assumes "\<And>k n. (k, n) \<in> set nals \<Longrightarrow> nal_unit n"
  shows "is_hevc_keyframe (annexb nals) =
    (case find (\<lambda>n. nal_kind (n ! 0) < 32) (map snd nals) of
       None \<Rightarrow> False | Some n \<Rightarrow> 16 \<le> nal_kind (n ! 0) \<and> nal_kind (n ! 0) \<le> 21)"
  using scan_annexb [OF assms] by (simp add: is_hevc_keyframe_def option.case_eq_if option.map_sel)


text \<open>
  The pacer keeps the target rate.  However capture times jump, of the frames it admits any \<open>n\<close> consecutive
  ones span more than \<open>n - 2\<close> periods, so a stall is never made up for by a burst; and a frame that comes a
  full period after the last admitted one is always admitted.
\<close>

theorem frame_pacing:
  assumes small: "\<forall>t\<in>set ts. unat t < 2 ^ 63" and inv: "pacer_inv p"
  shows "(\<forall>i j. i < j \<longrightarrow> j < length (pace p ts) \<longrightarrow>
      unat (pace p ts ! i) + (j - i - 1) * unat (period_us p) < unat (pace p ts ! j)) \<and>
    (\<forall>t u. unat u < 2 ^ 63 \<longrightarrow> unat t + unat (period_us p) \<le> unat u \<longrightarrow> snd (admit p t) \<longrightarrow>
      snd (admit (fst (admit p t)) u))"
proof -
  have "snd (admit (fst (admit p t)) u)"
    if u: "unat u < 2 ^ 63" "unat t + unat (period_us p) \<le> unat u" and a: "snd (admit p t)" for t u
  proof -
    have t: "unat t < 2 ^ 63" using u by linarith
    then obtain d where d: "admit p t = (p\<lparr>next_due_us := Some d\<rparr>, True)"
        "unat d \<le> unat t + unat (period_us p) div 2 + unat (period_us p)"
      using admit_cases [OF inv, of t] a by auto
    then show ?thesis
      using admit_cases [OF admit_inv [OF inv t] u(1)] u(2) by auto
  qed
  then show ?thesis using pace_spread [OF inv small] by blast
qed


text \<open>The slot keeps the latest frame whose push found the lock free, and the consumer takes it once.\<close>

lemma latest_frame_wins:
  fixes pushes :: "(try_lock \<times> 'a) list" and s :: "'a option"
  defines "s' \<equiv> foldl (\<lambda>s (l, v). slot_push l v s) s pushes"
    and "free \<equiv> filter (\<lambda>(l, _). l \<noteq> WouldBlock) pushes"
  shows "slot_take s' = (None, if free = [] then s else Some (snd (last free)))"
proof -
  have "foldl (\<lambda>s (l, v). slot_push l v s) s pushes =
      (if filter (\<lambda>(l, _). l \<noteq> WouldBlock) pushes = [] then s
       else Some (snd (last (filter (\<lambda>(l, _). l \<noteq> WouldBlock) pushes))))"
    by (induction pushes rule: rev_induct) (auto simp: slot_push_def split: try_lock.splits)
  then show ?thesis by (simp add: slot_take_def s'_def free_def)
qed

text \<open>A video packet whose 32-bit timestamp wrapped, a stream with a parameter set before an IDR picture,
  and four capture times at 30 frames per second with a stall.\<close>

theorem media_packet_roundtrip_witness:
  "\<exists>e data. rtp_to_realtime_data_at
      \<lparr>rtp_header = \<lparr>rtp_version = 2, rtp_payload_type = 96, rtp_sequence_number = 7, rtp_timestamp = 5, rtp_ssrc = 9\<rparr>,
       rtp_payload = [1, 2]\<rparr> 4294967290 = Ok e \<and> encode_compact_realtime e = Ok data \<and>
    decode_envelope data = Ok e \<and> dh_timestamp_ms (env_header e) = 4294967301"
  using media_packet_roundtrip [of "\<lparr>rtp_header = \<lparr>rtp_version = 2, rtp_payload_type = 96,
      rtp_sequence_number = 7, rtp_timestamp = 5, rtp_ssrc = 9\<rparr>, rtp_payload = [1, 2]\<rparr>" 4294967301 4294967290]
  by auto

theorem keyframe_is_first_picture_witness:
  "is_hevc_keyframe (annexb [(1, [0x40, 1, 12]), (0, [0x26, 1, 175])])"
proof -
  let ?nals = "[(1, [0x40, 1, 12]), (0, [0x26, 1, 175])] :: (nat \<times> bytes) list"
  have "nal_unit [0x40, 1, 12]" "nal_unit [0x26, 1, 175]" by code_simp+
  then have "\<And>k n. (k, n) \<in> set ?nals \<Longrightarrow> nal_unit n" by auto
  from keyframe_is_first_picture [of ?nals, OF this] show ?thesis by (simp add: nal_kind_def)
qed

theorem frame_pacing_witness:
  "let a = pace (pacer_new 30) [0, 20000000, 20000001, 20033334] in a = [0, 20000000, 20033334] \<and>
     unat (a ! 0) + (2 - 0 - 1) * unat (period_us (pacer_new 30)) < unat (a ! 2)"
proof -
  have a: "pace (pacer_new 30) [0, 20000000, 20000001, 20033334] = [0, 20000000, 20033334]"
    by (simp add: admit_def pacer_new_def saturating_add_def saturating_mul_def Let_def)
  have "\<forall>t\<in>set [0, 20000000, 20000001, 20033334 :: u64]. unat t < 2 ^ 63" by simp
  from conjunct1 [OF frame_pacing [OF this pacer_new_inv, of 30], rule_format, of 0 2]
  show ?thesis unfolding a by simp
qed

end
