(* ===== verification/Media_Control.thy ===== *)
theory Media_Control
  imports Control_Messages "HOL-Library.List_Lexorder" "HOL-Library.Char_ord"
begin

text \<open>
  Media control at the viewer: which decoder output may still be shown (\<open>video_recovery.rs\<close>), who wants
  which media (\<open>media_demand.rs\<close>), the paused state requested from the host (\<open>media_pause.rs\<close>), the stream
  settings form and its pending commits (\<open>stream_settings.rs\<close>), and the checks before a queued source
  selection runs (\<open>view_commands.rs\<close>).

  Times are natural numbers of milliseconds on the monotonic clock and arguments of the operations; a socket address is
  a type parameter.  A closure an operation takes is a function on the state it works on, run at most once
  and inside the operation, as the lock is held across it.
\<close>

section \<open>Video recovery\<close>

record VideoEpoch =
  ve_source :: u64
  ve_recovery :: u64

record VideoRecoverySnapshot =
  vs_epoch :: VideoEpoch
  began_at :: nat
  waiting :: bool

record VideoRecovery =
  source_counter :: u64
  tracks_output :: bool
  vr_state :: VideoRecoverySnapshot

definition recovery_default :: "nat \<Rightarrow> VideoRecovery" where
  "recovery_default now = \<lparr>source_counter = 0, tracks_output = False,
     vr_state = \<lparr>vs_epoch = \<lparr>ve_source = 0, ve_recovery = 0\<rparr>, began_at = now, waiting = False\<rparr>\<rparr>"

definition track_output :: "VideoRecovery \<Rightarrow> VideoRecovery" where
  "track_output r = r\<lparr>tracks_output := True\<rparr>"

definition reset_source :: "nat \<Rightarrow> ('w \<Rightarrow> 'a \<times> 'w) \<Rightarrow> VideoRecovery \<times> 'w \<Rightarrow> 'a \<times> VideoRecovery \<times> 'w" where
  "reset_source now clear = (\<lambda>(r, w).
     let s = vr_state r; source = max (ve_source (vs_epoch s) + 1) 1;
         r' = r\<lparr>vr_state := \<lparr>vs_epoch = \<lparr>ve_source = source, ve_recovery = ve_recovery (vs_epoch s) + 1\<rparr>,
                 began_at = now, waiting = True\<rparr>, source_counter := source\<rparr>;
         (a, w') = clear w
     in (a, r', w'))"

text \<open>The common tail of \<open>require_keyframe\<close> and \<open>fail\<close>.\<close>

definition renew_attempt :: "nat \<Rightarrow> VideoRecoverySnapshot \<Rightarrow> VideoRecoverySnapshot" where
  "renew_attempt now s =
     s\<lparr>vs_epoch := (vs_epoch s)\<lparr>ve_recovery := ve_recovery (vs_epoch s) + 1\<rparr>,
       began_at := (if waiting s then began_at s else now), waiting := True\<rparr>"

definition require_keyframe :: "nat \<Rightarrow> u64 \<Rightarrow> VideoRecovery \<Rightarrow> VideoEpoch option \<times> VideoRecovery" where
  "require_keyframe now source r =
     (if source \<noteq> ve_source (vs_epoch (vr_state r)) then (None, r)
      else let s = renew_attempt now (vr_state r) in (Some (vs_epoch s), r\<lparr>vr_state := s\<rparr>))"

definition recovery_fail ::
  "nat \<Rightarrow> VideoEpoch \<Rightarrow> ('w \<Rightarrow> 'w) \<Rightarrow> VideoRecovery \<times> 'w \<Rightarrow> VideoEpoch option \<times> VideoRecovery \<times> 'w" where
  "recovery_fail now e report = (\<lambda>(r, w).
     if e \<noteq> vs_epoch (vr_state r) then (None, r, w)
     else let s = renew_attempt now (vr_state r) in (Some (vs_epoch s), r\<lparr>vr_state := s\<rparr>, report w))"

definition with_current ::
  "VideoEpoch \<Rightarrow> ('w \<Rightarrow> 'a \<times> 'w) \<Rightarrow> VideoRecovery \<times> 'w \<Rightarrow> 'a option \<times> VideoRecovery \<times> 'w" where
  "with_current e action = (\<lambda>(r, w).
     if e = vs_epoch (vr_state r) then (let (a, w') = action w in (Some a, r, w')) else (None, r, w))"

definition publish ::
  "VideoEpoch \<Rightarrow> ('w \<Rightarrow> 'a \<times> 'w) \<Rightarrow> VideoRecovery \<times> 'w \<Rightarrow> 'a option \<times> VideoRecovery \<times> 'w" where
  "publish e output = (\<lambda>(r, w).
     if e \<noteq> vs_epoch (vr_state r) then (None, r, w)
     else let (a, w') = output w in (Some a, r\<lparr>vr_state := (vr_state r)\<lparr>waiting := False\<rparr>\<rparr>, w'))"

section \<open>Media demand\<close>

record MediaDemand =
  md_video :: bool
  md_audio :: bool

definition demand_none :: MediaDemand where "demand_none = \<lparr>md_video = False, md_audio = False\<rparr>"
definition demand_both :: MediaDemand where "demand_both = \<lparr>md_video = True, md_audio = True\<rparr>"

definition demand_union :: "MediaDemand \<Rightarrow> MediaDemand \<Rightarrow> MediaDemand" where
  "demand_union a b = \<lparr>md_video = md_video a \<or> md_video b, md_audio = md_audio a \<or> md_audio b\<rparr>"

record ConsumerToken =
  ct_slot :: u64
  ct_generation :: u64

record MediaConsumers =
  next_generation :: u64
  consumers :: "(u64 \<times> u64 \<times> MediaDemand) list"

definition consumers_default :: MediaConsumers where
  "consumers_default = \<lparr>next_generation = 0, consumers = []\<rparr>"

definition attach :: "u64 \<Rightarrow> MediaDemand \<Rightarrow> MediaConsumers \<Rightarrow> ConsumerToken option \<times> MediaConsumers" where
  "attach slot d m =
     (if length (consumers m) \<ge> 64 \<and> map_of (consumers m) slot = None then (None, m)
      else case checked_add (next_generation m) 1 of
        None \<Rightarrow> (None, m)
      | Some g \<Rightarrow> (Some \<lparr>ct_slot = slot, ct_generation = g\<rparr>,
          m\<lparr>next_generation := g, consumers := bt_insert slot (g, d) (consumers m)\<rparr>))"

definition consumer_update :: "ConsumerToken \<Rightarrow> MediaDemand \<Rightarrow> MediaConsumers \<Rightarrow> bool \<times> MediaConsumers" where
  "consumer_update t d m =
     (case map_of (consumers m) (ct_slot t) of
        None \<Rightarrow> (False, m)
      | Some (g, _) \<Rightarrow> if g \<noteq> ct_generation t then (False, m)
          else (True, m\<lparr>consumers := bt_insert (ct_slot t) (g, d) (consumers m)\<rparr>))"

definition detach :: "ConsumerToken \<Rightarrow> MediaConsumers \<Rightarrow> bool \<times> MediaConsumers" where
  "detach t m =
     (case map_of (consumers m) (ct_slot t) of
        None \<Rightarrow> (False, m)
      | Some (g, _) \<Rightarrow> if g \<noteq> ct_generation t then (False, m)
          else (True, m\<lparr>consumers := bt_remove (ct_slot t) (consumers m)\<rparr>))"

definition demand :: "MediaConsumers \<Rightarrow> MediaDemand" where
  "demand m = foldl (\<lambda>all (_, _, d). demand_union all d) demand_none (consumers m)"

section \<open>Media pause\<close>

definition PAUSE_RETRY :: nat where "PAUSE_RETRY = 200"

record 'a PauseState =
  ps_target :: 'a
  ps_session_id :: u32
  ps_revision :: u64
  ps_paused :: bool
  ps_acknowledged :: bool
  ps_last_sent :: "nat option"

type_synonym 'a MediaPauseControl = "'a PauseState option"

definition begin_session :: "'a \<Rightarrow> u32 \<Rightarrow> 'a MediaPauseControl" where
  "begin_session target sid = Some \<lparr>ps_target = target, ps_session_id = sid,
     ps_revision = 0, ps_paused = False, ps_acknowledged = True, ps_last_sent = None\<rparr>"

definition end_session :: "'a MediaPauseControl" where
  "end_session = None"

definition set_paused :: "bool \<Rightarrow> 'a MediaPauseControl \<Rightarrow> bool \<times> 'a MediaPauseControl" where
  "set_paused paused c =
     (case c of
        None \<Rightarrow> (False, c)
      | Some s \<Rightarrow> (True,
          if ps_paused s \<noteq> paused
          then Some (s\<lparr>ps_paused := paused, ps_revision := ps_revision s + 1, ps_acknowledged := False,
                       ps_last_sent := None\<rparr>)
          else c))"

definition is_paused :: "'a MediaPauseControl \<Rightarrow> bool" where
  "is_paused c = (case c of None \<Rightarrow> False | Some s \<Rightarrow> ps_paused s)"

definition is_pending :: "'a MediaPauseControl \<Rightarrow> bool" where
  "is_pending c = (case c of None \<Rightarrow> False | Some s \<Rightarrow> \<not> ps_acknowledged s)"

definition retry_wait :: "nat \<Rightarrow> 'a MediaPauseControl \<Rightarrow> nat option" where
  "retry_wait now c =
     (case c of
        None \<Rightarrow> None
      | Some s \<Rightarrow> if ps_acknowledged s then None
          else Some (PAUSE_RETRY - (case ps_last_sent s of None \<Rightarrow> PAUSE_RETRY | Some t \<Rightarrow> now - t)))"

definition take_request ::
  "nat \<Rightarrow> 'a MediaPauseControl \<Rightarrow> (ControlMessage \<times> 'a) option \<times> 'a MediaPauseControl" where
  "take_request now c =
     (case c of
        None \<Rightarrow> (None, c)
      | Some s \<Rightarrow>
          if ps_acknowledged s then (None, c)
          else if (case ps_last_sent s of None \<Rightarrow> False | Some t \<Rightarrow> now - t < PAUSE_RETRY) then (None, c)
          else (Some (CM_SetMediaPaused (ps_session_id s) (ps_revision s) (ps_paused s), ps_target s),
                Some (s\<lparr>ps_last_sent := Some now\<rparr>)))"

definition acknowledge ::
  "'a \<Rightarrow> u32 \<Rightarrow> u64 \<Rightarrow> bool \<Rightarrow> 'a MediaPauseControl \<Rightarrow> 'a MediaPauseControl" where
  "acknowledge source sid revision paused c =
     (case c of
        None \<Rightarrow> None
      | Some s \<Rightarrow>
          if ps_target s = source \<and> ps_session_id s = sid \<and> ps_revision s = revision \<and> ps_paused s = paused
          then Some (s\<lparr>ps_acknowledged := True\<rparr>) else c)"

section \<open>Stream settings\<close>

record StreamSettingsValues =
  ssv_width :: u32
  ssv_height :: u32
  ssv_fps :: u32
  ssv_bitrate_kbps :: u32

record SettingsReceipt =
  sr_command :: u64
  sr_view :: u64

datatype StreamSettingsAction =
    EditFps string
  | EditBitrate string
  | ApplyCustom
  | SelectResolution u32 u32
  | SelectFps u32
  | SelectBitrate u32
  | UpdateFailed SettingsReceipt string

datatype UpdatePolicy = Always | WhenConnected

record StreamSettingsEffect =
  sse_values :: StreamSettingsValues
  sse_update :: UpdatePolicy
  sse_report_error :: bool
  sse_receipt :: SettingsReceipt

definition should_update :: "StreamSettingsEffect \<Rightarrow> bool \<Rightarrow> bool" where
  "should_update e connected \<longleftrightarrow> sse_update e = Always \<or> connected"

record StreamSettingsState =
  ss_values :: StreamSettingsValues
  ss_fps_text :: string
  ss_bitrate_text :: string
  ss_error :: "string option"
  ss_command :: u64
  ss_view :: u64

text \<open>\<open>to_string\<close>, \<open>trim\<close> (of ASCII white space) and \<open>parse::<u32>\<close>, which takes one leading plus sign.\<close>

definition u32_to_string :: "u32 \<Rightarrow> string" where
  "u32_to_string w = dec_string (unat w)"

definition is_white :: "char \<Rightarrow> bool" where
  "is_white c \<longleftrightarrow> of_char c \<in> {9, 10, 11, 12, 13, 32 :: nat}"

definition trim :: "string \<Rightarrow> string" where
  "trim s = rev (dropWhile is_white (rev (dropWhile is_white s)))"

definition digit_of :: "char \<Rightarrow> nat option" where
  "digit_of c = (let n = of_char c :: nat in if 48 \<le> n \<and> n \<le> 57 then Some (n - 48) else None)"

fun parse_digits :: "nat \<Rightarrow> string \<Rightarrow> nat option" where
  "parse_digits acc [] = Some acc"
| "parse_digits acc (c # cs) =
     (case digit_of c of
        None \<Rightarrow> None
      | Some d \<Rightarrow> if acc * 10 + d < 2 ^ 32 then parse_digits (acc * 10 + d) cs else None)"

definition parse_u32 :: "string \<Rightarrow> u32 option" where
  "parse_u32 s =
     (let body = (case s of c # cs \<Rightarrow> if c = CHR ''+'' then cs else s | [] \<Rightarrow> []) in
      if body = [] then None else map_option word_of_nat (parse_digits 0 body))"

definition settings_new :: "StreamSettingsValues \<Rightarrow> StreamSettingsState" where
  "settings_new v = \<lparr>ss_values = v, ss_fps_text = u32_to_string (ssv_fps v),
     ss_bitrate_text = u32_to_string (ssv_bitrate_kbps v), ss_error = None, ss_command = 0, ss_view = 0\<rparr>"

definition effect_is_current :: "StreamSettingsState \<Rightarrow> SettingsReceipt \<Rightarrow> bool" where
  "effect_is_current s r \<longleftrightarrow> ss_command s = sr_command r"

text \<open>The draft that \<open>ApplyCustom\<close> commits, if it is valid.\<close>

definition parsed_draft :: "StreamSettingsState \<Rightarrow> (u32 \<times> u32) option" where
  "parsed_draft s =
     (case (parse_u32 (trim (ss_fps_text s)), parse_u32 (trim (ss_bitrate_text s))) of
        (Some fps, Some bitrate) \<Rightarrow>
          if is_ok (validate_video_settings (ssv_width (ss_values s)) (ssv_height (ss_values s)) fps bitrate)
          then Some (fps, bitrate) else None
      | _ \<Rightarrow> None)"

text \<open>The end of \<open>reduce\<close> for the actions that commit values.\<close>

definition commit :: "bool \<Rightarrow> StreamSettingsState \<Rightarrow> StreamSettingsEffect option \<times> StreamSettingsState" where
  "commit custom s =
     (let s' = s\<lparr>ss_command := ss_command s + 1\<rparr> in
      (Some \<lparr>sse_values = ss_values s', sse_update = (if custom then WhenConnected else Always),
         sse_report_error = custom,
         sse_receipt = \<lparr>sr_command = ss_command s', sr_view = ss_view s'\<rparr>\<rparr>, s'))"

definition reduce ::
  "StreamSettingsAction \<Rightarrow> StreamSettingsState \<Rightarrow> StreamSettingsEffect option \<times> StreamSettingsState" where
  "reduce action st =
     (case action of
        UpdateFailed receipt error \<Rightarrow>
          (None, if effect_is_current st receipt \<and> ss_view st = sr_view receipt then st\<lparr>ss_error := Some error\<rparr> else st)
      | _ \<Rightarrow>
        (let s = st\<lparr>ss_view := ss_view st + 1\<rparr>; v = ss_values s in
         case action of
           EditFps text \<Rightarrow> (None, s\<lparr>ss_fps_text := text\<rparr>)
         | EditBitrate text \<Rightarrow> (None, s\<lparr>ss_bitrate_text := text\<rparr>)
         | ApplyCustom \<Rightarrow>
             (case parsed_draft s of
                None \<Rightarrow> (None, s\<lparr>ss_error := Some ''Enter positive whole numbers for FPS and kbps.''\<rparr>)
              | Some (fps, bitrate) \<Rightarrow>
                  commit True (s\<lparr>ss_values := v\<lparr>ssv_fps := fps, ssv_bitrate_kbps := bitrate\<rparr>, ss_error := None\<rparr>))
         | SelectResolution w h \<Rightarrow> commit False (s\<lparr>ss_values := v\<lparr>ssv_width := w, ssv_height := h\<rparr>\<rparr>)
         | SelectFps fps \<Rightarrow>
             commit False (s\<lparr>ss_values := v\<lparr>ssv_fps := fps\<rparr>, ss_fps_text := u32_to_string fps\<rparr>)
         | SelectBitrate b \<Rightarrow>
             commit False (s\<lparr>ss_values := v\<lparr>ssv_bitrate_kbps := b\<rparr>, ss_bitrate_text := u32_to_string b\<rparr>)
         | UpdateFailed _ _ \<Rightarrow> (None, s)))"

type_synonym PendingStreamSettingsState = "(string \<times> u64 \<times> StreamSettingsValues) list"

definition pending_begin ::
  "string \<Rightarrow> u64 \<Rightarrow> StreamSettingsValues \<Rightarrow> PendingStreamSettingsState \<Rightarrow> PendingStreamSettingsState" where
  "pending_begin device attempt v p = bt_insert device (attempt, v) p"

definition pending_update ::
  "string \<Rightarrow> u64 \<Rightarrow> StreamSettingsValues \<Rightarrow> PendingStreamSettingsState \<Rightarrow> bool \<times> PendingStreamSettingsState" where
  "pending_update device attempt v p =
     (case map_of p device of
        None \<Rightarrow> (False, p)
      | Some (g, _) \<Rightarrow> if g \<noteq> attempt then (False, p) else (True, bt_insert device (g, v) p))"

definition pending_take ::
  "string \<Rightarrow> u64 \<Rightarrow> PendingStreamSettingsState \<Rightarrow> StreamSettingsValues option \<times> PendingStreamSettingsState" where
  "pending_take device attempt p =
     (case map_of p device of
        None \<Rightarrow> (None, p)
      | Some (g, v) \<Rightarrow> if g \<noteq> attempt then (None, p) else (Some v, bt_remove device p))"

definition pending_clear :: "PendingStreamSettingsState \<Rightarrow> PendingStreamSettingsState" where
  "pending_clear _ = []"

section \<open>Source selection\<close>

text \<open>A connection is identified by its allocation; \<open>None\<close> is a weak reference whose target is gone.\<close>

definition enumerated_source :: "CaptureSourceInfo list \<Rightarrow> CaptureSource \<Rightarrow> CaptureSourceInfo option" where
  "enumerated_source catalog i =
     (case filter (\<lambda>s. csi_source s = i) catalog of [s] \<Rightarrow> Some s | _ \<Rightarrow> None)"

record ('t, 's) ViewConnectionBinding =
  vcb_connection :: 't
  vcb_scope :: 's

definition binding_matches :: "'t set \<Rightarrow> ('t, 's) ViewConnectionBinding \<Rightarrow> 't \<Rightarrow> 's \<Rightarrow> bool" where
  "binding_matches alive b active scope \<longleftrightarrow>
     vcb_scope b = scope \<and> vcb_connection b \<in> alive \<and> vcb_connection b = active"

definition binding_apply ::
  "'t set \<Rightarrow> ('t, 's) ViewConnectionBinding \<Rightarrow> 't \<Rightarrow> 's \<Rightarrow> ('w \<Rightarrow> 'r \<times> 'w) \<Rightarrow> 'w \<Rightarrow> 'r option \<times> 'w" where
  "binding_apply alive b active scope action w =
     (if binding_matches alive b active scope then (let (r, w') = action w in (Some r, w')) else (None, w))"

definition apply_enumerated_source ::
  "'t set \<Rightarrow> ('t, 's) ViewConnectionBinding \<Rightarrow> 't \<Rightarrow> 's \<Rightarrow> CaptureSourceInfo \<Rightarrow> CaptureSourceInfo list \<Rightarrow>
     (CaptureSource \<Rightarrow> 'w \<Rightarrow> 'r \<times> 'w) \<Rightarrow> 'w \<Rightarrow> 'r option \<times> 'w" where
  "apply_enumerated_source alive b active scope expected catalog action w =
     (if enumerated_source catalog (csi_source expected) \<noteq> Some expected then (None, w)
      else binding_apply alive b active scope (action (csi_source expected)) w)"


section \<open>Lemmas\<close>

subsection \<open>Histories of the recovery state\<close>

datatype rec_op = R_Track | R_Reset nat | R_Keyframe nat u64 | R_Fail nat VideoEpoch | R_Publish VideoEpoch

definition rec_step :: "VideoRecovery \<Rightarrow> rec_op \<Rightarrow> VideoRecovery" where
  "rec_step r x =
     (case x of
        R_Track \<Rightarrow> track_output r
      | R_Reset now \<Rightarrow> fst (snd (reset_source now (Pair ()) (r, ())))
      | R_Keyframe now source \<Rightarrow> snd (require_keyframe now source r)
      | R_Fail now e \<Rightarrow> fst (snd (recovery_fail now e id (r, ())))
      | R_Publish e \<Rightarrow> fst (snd (publish e (Pair ()) (r, ()))))"

abbreviation cur_epoch :: "VideoRecovery \<Rightarrow> VideoEpoch" where
  "cur_epoch r \<equiv> vs_epoch (vr_state r)"

text \<open>
  The requests that give up the attempt in progress: a reset of the source, a keyframe required of the
  source that is shown, and the failure of the attempt itself.
\<close>

definition abandons :: "VideoRecovery \<Rightarrow> rec_op \<Rightarrow> bool" where
  "abandons r x = (case x of
     R_Reset now \<Rightarrow> True
   | R_Keyframe now source \<Rightarrow> source = ve_source (cur_epoch r)
   | R_Fail now e \<Rightarrow> e = cur_epoch r
   | _ \<Rightarrow> False)"

fun abandonments :: "VideoRecovery \<Rightarrow> rec_op list \<Rightarrow> nat" where
  "abandonments r [] = 0"
| "abandonments r (x # xs) = of_bool (abandons r x) + abandonments (rec_step r x) xs"

lemmas recovery_defs = track_output_def reset_source_def require_keyframe_def recovery_fail_def publish_def
  renew_attempt_def Let_def

lemma rec_step_epoch:
  "\<not> abandons r x \<Longrightarrow> cur_epoch (rec_step r x) = cur_epoch r"
  "abandons r x \<Longrightarrow> ve_recovery (cur_epoch (rec_step r x)) = ve_recovery (cur_epoch r) + 1"
  by (auto simp: rec_step_def abandons_def recovery_defs split: rec_op.splits)

lemma run_recovery:
  "ve_recovery (cur_epoch (foldl rec_step r xs)) = ve_recovery (cur_epoch r) + word_of_nat (abandonments r xs)"
proof (induction xs arbitrary: r)
  case (Cons x xs)
  then show ?case using rec_step_epoch [of r x] by (cases "abandons r x") (simp_all add: add.assoc)
qed simp

lemma epoch_kept: "abandonments r xs = 0 \<Longrightarrow> cur_epoch (foldl rec_step r xs) = cur_epoch r"
  using rec_step_epoch(1) by (induction xs arbitrary: r) auto

lemma epoch_changed:
  assumes "0 < abandonments r xs" "abandonments r xs < 2 ^ 64"
  shows "cur_epoch (foldl rec_step r xs) \<noteq> cur_epoch r"
proof
  assume "cur_epoch (foldl rec_step r xs) = cur_epoch r"
  then have "(word_of_nat (abandonments r xs) :: u64) = 0" using run_recovery [of r xs] by simp
  then have "2 ^ 64 dvd abandonments r xs" by (simp add: word_of_nat_eq_0_iff)
  then show False using assms by (auto dest: dvd_imp_le)
qed

lemma rec_step_waiting:
  assumes "waiting (vr_state r)"
  shows "waiting (vr_state (rec_step r x)) \<or> x = R_Publish (cur_epoch r)"
    and "(\<forall>t. x \<noteq> R_Reset t) \<Longrightarrow> began_at (vr_state (rec_step r x)) = began_at (vr_state r)"
  using assms by (auto simp: rec_step_def recovery_defs split: rec_op.split)

subsection \<open>Histories of the consumers\<close>

datatype consumer_op = C_Attach u64 MediaDemand | C_Update ConsumerToken MediaDemand | C_Detach ConsumerToken

definition consumer_step :: "MediaConsumers \<Rightarrow> consumer_op \<Rightarrow> MediaConsumers" where
  "consumer_step m x =
     (case x of C_Attach slot d \<Rightarrow> snd (attach slot d m) | C_Update t d \<Rightarrow> snd (consumer_update t d m)
      | C_Detach t \<Rightarrow> snd (detach t m))"

definition consumers_inv :: "MediaConsumers \<Rightarrow> bool" where
  "consumers_inv m \<longleftrightarrow> bt_wf (consumers m) \<and> length (consumers m) \<le> 64 \<and>
     (\<forall>slot g d. map_of (consumers m) slot = Some (g, d) \<longrightarrow> g \<le> next_generation m)"

text \<open>A token that was issued and whose consumer is gone or replaced.\<close>

definition retired :: "ConsumerToken \<Rightarrow> MediaConsumers \<Rightarrow> bool" where
  "retired t m \<longleftrightarrow> ct_generation t \<le> next_generation m \<and>
     (\<forall>g d. map_of (consumers m) (ct_slot t) = Some (g, d) \<longrightarrow> g \<noteq> ct_generation t)"

lemma attach_cases:
  assumes "attach slot d m = (r, m')"
  shows "r = None \<and> m' = m \<or>
    (\<exists>g. next_generation m < g \<and> r = Some \<lparr>ct_slot = slot, ct_generation = g\<rparr> \<and>
       (length (consumers m) < 64 \<or> map_of (consumers m) slot \<noteq> None) \<and>
       m' = m\<lparr>next_generation := g, consumers := bt_insert slot (g, d) (consumers m)\<rparr>)"
  using assms
  by (auto simp: attach_def checked_add_Some word_less_nat_alt unat_add_no_overflow
      split: if_splits option.splits)

lemma consumer_step_cases [case_names same attached updated detached]:
  obtains "consumer_step m x = m"
  | slot g d where "next_generation m < g" "length (consumers m) < 64 \<or> map_of (consumers m) slot \<noteq> None"
      "consumer_step m x = m\<lparr>next_generation := g, consumers := bt_insert slot (g, d) (consumers m)\<rparr>"
  | slot g d d' where "map_of (consumers m) slot = Some (g, d')"
      "consumer_step m x = m\<lparr>consumers := bt_insert slot (g, d) (consumers m)\<rparr>"
  | slot where "consumer_step m x = m\<lparr>consumers := bt_remove slot (consumers m)\<rparr>"
proof (cases x)
  case (C_Attach slot d)
  then have step: "consumer_step m x = snd (attach slot d m)" by (simp add: consumer_step_def)
  have "consumer_step m x = m \<or> (\<exists>g. next_generation m < g \<and>
      (length (consumers m) < 64 \<or> map_of (consumers m) slot \<noteq> None) \<and>
      consumer_step m x = m\<lparr>next_generation := g, consumers := bt_insert slot (g, d) (consumers m)\<rparr>)"
    unfolding step using attach_cases [of slot d m "fst (attach slot d m)" "snd (attach slot d m)"] by auto
  then show ?thesis using that(1,2) by blast
next
  case (C_Update t d)
  then have "consumer_step m x = m \<or> (\<exists>g d'. map_of (consumers m) (ct_slot t) = Some (g, d') \<and>
      consumer_step m x = m\<lparr>consumers := bt_insert (ct_slot t) (g, d) (consumers m)\<rparr>)"
    by (auto simp: consumer_step_def consumer_update_def split: option.splits)
  then show ?thesis using that(1,3) by blast
next
  case (C_Detach t)
  then have "consumer_step m x = m \<or> consumer_step m x = m\<lparr>consumers := bt_remove (ct_slot t) (consumers m)\<rparr>"
    by (auto simp: consumer_step_def detach_def split: option.splits)
  then show ?thesis using that(1,4) by blast
qed

lemma consumer_step_inv:
  assumes "consumers_inv m"
  shows "consumers_inv (consumer_step m x)"
proof -
  have wf: "bt_wf (consumers m)" and len: "length (consumers m) \<le> 64"
    and gen: "\<And>slot g d. map_of (consumers m) slot = Some (g, d) \<Longrightarrow> g \<le> next_generation m"
    using assms by (auto simp: consumers_inv_def)
  show ?thesis
  proof (cases rule: consumer_step_cases [of m x])
    case same
    then show ?thesis using assms by simp
  next
    case (attached slot g d)
    have "length (bt_insert slot (g, d) (consumers m)) \<le> 64"
      using attached(2) len btree.size_ins_new [OF wf] btree.size_ins_old [OF wf]
      by (cases "map_of (consumers m) slot") auto
    moreover have "g' \<le> g" if "map_of (consumers m) slot' = Some (g', d')" for slot' g' d'
      using gen [OF that] attached(1) by simp
    ultimately show ?thesis
      using attached(3) wf by (auto simp: consumers_inv_def btree.wf_ins btree.get_ins)
  next
    case (updated slot g d d')
    then show ?thesis
      using wf len gen by (auto simp: consumers_inv_def btree.wf_ins btree.get_ins btree.size_ins_old)
  next
    case (detached slot)
    then show ?thesis
      using wf len gen le_trans [OF btree.size_rem [OF wf] len, of slot]
      by (auto simp: consumers_inv_def btree.wf_rem btree.get_rem)
  qed
qed

lemma consumer_step_retired:
  assumes "consumers_inv m" and r: "retired t m"
  shows "retired t (consumer_step m x)"
proof -
  have wf: "bt_wf (consumers m)" using assms by (simp add: consumers_inv_def)
  show ?thesis
  proof (cases rule: consumer_step_cases [of m x])
    case (attached slot g d)
    then show ?thesis using r wf by (auto simp: retired_def btree.get_ins split: if_splits)
  next
    case (updated slot g d d')
    then show ?thesis using r wf by (auto simp: retired_def btree.get_ins split: if_splits)
  qed (use r wf in \<open>auto simp: retired_def btree.get_rem\<close>)
qed

interpretation consumers: op_machine consumer_step consumers_inv
  by unfold_locales (rule consumer_step_inv)

interpretation retired_tokens: op_machine consumer_step "\<lambda>m. consumers_inv m \<and> retired t m" for t
  by unfold_locales (blast intro: consumer_step_inv consumer_step_retired)

lemma demand_fold:
  "foldl (\<lambda>all (_, _, d). demand_union all d) a cs =
     \<lparr>md_video = md_video a \<or> (\<exists>(_, _, d)\<in>set cs. md_video d), md_audio = md_audio a \<or> (\<exists>(_, _, d)\<in>set cs. md_audio d)\<rparr>"
  by (induction cs arbitrary: a) (auto simp: demand_union_def)


subsection \<open>Numbers as text\<close>

lemma digit_of_char: "d < 10 \<Longrightarrow> digit_of (char_of (48 + d)) = Some d"
  by (simp add: digit_of_def Let_def of_char_of)

lemma dec_string_digits: "c \<in> set (dec_string n) \<Longrightarrow> \<exists>d<(10 :: nat). c = char_of (48 + d)"
proof (induction n rule: dec_string.induct)
  case (1 n)
  then show ?case
    by (cases "n < 10") (auto simp: dec_string.simps [of n] intro: exI [of _ "n mod 10"] exI [of _ n])
qed

lemma parse_digits_append: "parse_digits a (s @ t) = Option.bind (parse_digits a s) (\<lambda>b. parse_digits b t)"
  by (induction s arbitrary: a) (auto split: option.split)

lemma parse_dec_string: "n < 2 ^ 32 \<Longrightarrow> parse_digits 0 (dec_string n) = Some n"
proof (induction n rule: dec_string.induct)
  case (1 n)
  show ?case
  proof (cases "n < 10")
    case True
    then show ?thesis by (simp add: dec_string.simps [of n] digit_of_char)
  next
    case False
    then have "parse_digits 0 (dec_string (n div 10)) = Some (n div 10)" using 1 by simp
    moreover have "n div 10 * 10 + n mod 10 = n" by simp
    ultimately show ?thesis
      using False 1(2) by (simp add: dec_string.simps [of n] parse_digits_append digit_of_char)
  qed
qed

lemma dec_string_text:
  "dec_string n \<noteq> []" "trim (dec_string n) = dec_string n" "hd (dec_string n) \<noteq> CHR ''+''"
proof -
  show ne: "dec_string n \<noteq> []" by (subst dec_string.simps) simp
  have plain: "\<not> is_white c \<and> c \<noteq> CHR ''+''" if c: "c \<in> set (dec_string n)" for c
  proof -
    obtain d :: nat where d: "d < 10" "c = char_of (48 + d)" using dec_string_digits [OF c] by auto
    then have "of_char c = 48 + d" by (simp add: of_char_of)
    then show ?thesis using d(1) by (auto simp: is_white_def)
  qed
  then show "hd (dec_string n) \<noteq> CHR ''+''" using ne by simp
  have "dropWhile is_white (dec_string n) = dec_string n" "dropWhile is_white (rev (dec_string n)) = rev (dec_string n)"
    using plain ne by (simp_all add: dropWhile_eq_self_iff hd_rev)
  then show "trim (dec_string n) = dec_string n" by (simp add: trim_def)
qed

lemma parse_to_string: "parse_u32 (trim (u32_to_string w)) = Some w"
proof -
  have "unat w < 2 ^ 32" using unat_less_exp [of w] by simp
  then have "parse_digits 0 (dec_string (unat w)) = Some (unat w)" by (rule parse_dec_string)
  then show ?thesis
    using dec_string_text [of "unat w"] by (cases "dec_string (unat w)") (simp_all add: parse_u32_def u32_to_string_def)
qed


section \<open>Properties\<close>

text \<open>
  C28. A decoder output belongs to its attempt.  As long as no reset, no keyframe required of the current
  source and no failure of the attempt has come, what carries its epoch is shown, runs or is reported;
  once one of them has, and until 2^64 of them have, the operation answers nothing and changes neither
  the recovery state nor what its closure would have changed.
\<close>

theorem stale_video_inert:
  assumes "abandonments r ops < 2 ^ 64"
  defines "r' \<equiv> foldl rec_step r ops" and "e \<equiv> vs_epoch (vr_state r)"
  shows "if abandonments r ops = 0
    then publish e output (r', w) = (Some (fst (output w)), r'\<lparr>vr_state := (vr_state r')\<lparr>waiting := False\<rparr>\<rparr>, snd (output w)) \<and>
      with_current e action (r', w) = (Some (fst (action w)), r', snd (action w)) \<and>
      snd (snd (recovery_fail now e report (r', w))) = report w
    else publish e output (r', w) = (None, r', w) \<and> with_current e action (r', w) = (None, r', w) \<and>
      recovery_fail now e report (r', w) = (None, r', w)"
proof (cases "abandonments r ops = 0")
  case True
  then show ?thesis
    using epoch_kept [OF True]
    by (simp add: publish_def with_current_def recovery_fail_def r'_def e_def Let_def case_prod_unfold)
next
  case False
  then show ?thesis
    using epoch_changed [of r ops] assms(1) by (simp add: publish_def with_current_def recovery_fail_def r'_def e_def)
qed

text \<open>
  The viewer waits for a picture until the current attempt delivers one.  While it waits, only an output
  of the current epoch ends the wait, and no failed attempt moves the time the picture was lost.
\<close>

theorem recovery_ends_with_output:
  assumes w: "waiting (vr_state r)"
    and none: "\<And>pre x post. ops = pre @ x # post \<Longrightarrow> x \<noteq> R_Publish (vs_epoch (vr_state (foldl rec_step r pre)))"
  shows "waiting (vr_state (foldl rec_step r ops)) \<and>
    ((\<forall>now. R_Reset now \<notin> set ops) \<longrightarrow> began_at (vr_state (foldl rec_step r ops)) = began_at (vr_state r))"
  using none
proof (induction ops rule: rev_induct)
  case (snoc x xs)
  then have IH: "waiting (vr_state (foldl rec_step r xs))"
      "(\<forall>now. R_Reset now \<notin> set xs) \<longrightarrow> began_at (vr_state (foldl rec_step r xs)) = began_at (vr_state r)"
    by force+
  have "x \<noteq> R_Publish (vs_epoch (vr_state (foldl rec_step r xs)))" using snoc.prems [of xs x "[]"] by simp
  moreover have "began_at (vr_state (foldl rec_step r (xs @ [x]))) = began_at (vr_state r)"
    if "\<forall>now. R_Reset now \<notin> set (xs @ [x])"
  proof -
    have "\<forall>t. x \<noteq> R_Reset t" "\<forall>now. R_Reset now \<notin> set xs" using that by auto
    then show ?thesis using rec_step_waiting(2) [OF IH(1)] IH(2) by simp
  qed
  ultimately show ?case using rec_step_waiting(1) [OF IH(1), of x] by auto
qed (simp add: w)

text \<open>
  The demand of a session.  In every state the registry can reach it holds at most 64 consumers, the
  session's demand is exactly the union of theirs, and a token whose window was closed or replaced never
  has an effect again.
\<close>

theorem media_demand_registry:
  fixes ops :: "consumer_op list"
  defines "m \<equiv> foldl consumer_step consumers_default ops"
  shows "length (consumers m) \<le> 64 \<and>
    md_video (demand m) = (\<exists>(_, _, d)\<in>set (consumers m). md_video d) \<and>
    md_audio (demand m) = (\<exists>(_, _, d)\<in>set (consumers m). md_audio d) \<and>
    (\<forall>t more. retired t m \<longrightarrow> (let m' = foldl consumer_step m more in
       consumer_update t d m' = (False, m') \<and> detach t m' = (False, m')))"
proof -
  have "consumers_inv consumers_default" by (simp add: consumers_inv_def consumers_default_def)
  then have inv: "consumers_inv m" unfolding m_def by (rule consumers.run_inv)
  have stale: "consumer_update t d m' = (False, m') \<and> detach t m' = (False, m')"
    if "retired t m" "m' = foldl consumer_step m more" for t m' more
  proof -
    have "retired t m'" using retired_tokens.run_inv [of m t more] inv that by simp
    then show ?thesis
      by (cases "map_of (consumers m') (ct_slot t)") (auto simp: retired_def consumer_update_def detach_def)
  qed
  have "length (consumers m) \<le> 64" using inv by (simp add: consumers_inv_def)
  moreover have "md_video (demand m) = (\<exists>(_, _, d)\<in>set (consumers m). md_video d)"
    "md_audio (demand m) = (\<exists>(_, _, d)\<in>set (consumers m). md_audio d)"
    by (simp_all add: demand_def demand_fold demand_none_def)
  ultimately show ?thesis unfolding Let_def using stale by blast
qed

text \<open>A consumer's token is retired as soon as it is detached or its slot is attached again.\<close>

lemma tokens_retire:
  assumes "consumers_inv m" "attach slot d m = (Some t, m')"
  shows "fst (detach t m') \<and> retired t (snd (detach t m')) \<and>
    (\<forall>t2 m2 d2. attach slot d2 m' = (Some t2, m2) \<longrightarrow> retired t m2)"
proof -
  obtain g where g: "next_generation m < g" "t = \<lparr>ct_slot = slot, ct_generation = g\<rparr>"
      "m' = m\<lparr>next_generation := g, consumers := bt_insert slot (g, d) (consumers m)\<rparr>"
    using attach_cases [OF assms(2)] by auto
  have wf: "bt_wf (bt_insert slot (g, d) (consumers m))" "bt_wf (consumers m)"
    using assms(1) by (simp_all add: consumers_inv_def btree.wf_ins)
  have "retired t m2" if "attach slot d2 m' = (Some t2, m2)" for t2 m2 d2
    using attach_cases [OF that] wf by (auto simp: g retired_def btree.get_ins)
  then show ?thesis
    using wf by (simp add: detach_def retired_def btree.get_ins btree.get_rem g)
qed

text \<open>
  The settings form commits what it shows.  A chosen frame rate or bitrate appears in the form as text;
  applying the form then commits exactly the chosen values, if they are valid at all, and an edit or a
  failed parse commits nothing.
\<close>

theorem settings_form_roundtrip:
  assumes "validate_video_settings (ssv_width (ss_values s)) (ssv_height (ss_values s)) fps bitrate = Ok ()"
  defines "s1 \<equiv> snd (reduce (SelectFps fps) s)"
  defines "s2 \<equiv> snd (reduce (SelectBitrate bitrate) s1)"
  shows "\<exists>e s3. reduce ApplyCustom s2 = (Some e, s3) \<and> ss_values s3 = sse_values e \<and>
    sse_values e = (ss_values s)\<lparr>ssv_fps := fps, ssv_bitrate_kbps := bitrate\<rparr> \<and> ss_error s3 = None \<and>
    effect_is_current s3 (sse_receipt e)"
  using assms(1)
  by (simp add: s1_def s2_def reduce_def commit_def Let_def parsed_draft_def parse_to_string effect_is_current_def)

text \<open>
  What a rejected form leaves alone: committed values and the command counter, so the last effect stays
  current.
\<close>

lemma rejected_form_commits_nothing:
  assumes "reduce a s = (None, s')"
  shows "ss_values s' = ss_values s \<and> ss_command s' = ss_command s"
  using assms
  by (auto simp: reduce_def commit_def Let_def split: StreamSettingsAction.splits option.splits if_splits prod.splits)

text \<open>A late error shows only while nothing else was done in the form.\<close>

lemma late_error_fenced:
  assumes "reduce a s = (Some e, s1)" "\<And>r m. b \<noteq> UpdateFailed r m"
  shows "reduce (UpdateFailed (sse_receipt e) msg) (snd (reduce b s1)) = (None, snd (reduce b s1))"
proof -
  have v: "sr_view (sse_receipt e) = ss_view s1"
    using assms(1) by (auto simp: reduce_def commit_def Let_def split: StreamSettingsAction.splits option.splits)
  have "ss_view (snd (reduce b s1)) = ss_view s1 + 1"
    using assms(2) by (auto simp: reduce_def commit_def Let_def split: StreamSettingsAction.split option.split)
  then show ?thesis by (simp add: reduce_def v)
qed

text \<open>
  A queued source selection runs only on what the user saw: its action is performed exactly when the
  current catalog lists the very same entry, once, and the connection it was made for is still the active
  one in the same scope; otherwise nothing changes.
\<close>

theorem source_selection_fenced:
  "apply_enumerated_source alive b active scope expected catalog action w =
     (if filter (\<lambda>s. csi_source s = csi_source expected) catalog = [expected] \<and>
         vcb_connection b = active \<and> active \<in> alive \<and> vcb_scope b = scope
      then map_prod Some id (action (csi_source expected) w) else (None, w))"
  by (auto simp: apply_enumerated_source_def enumerated_source_def binding_apply_def binding_matches_def
      split: list.split prod.split)

section \<open>Witnesses\<close>

theorem stale_video_inert_witness:
  "publish \<lparr>ve_source = 0, ve_recovery = 0\<rparr> (\<lambda>w :: nat. (w, 9)) (foldl rec_step (recovery_default 5) [R_Reset 7, R_Keyframe 8 1], 3) =
     (None, foldl rec_step (recovery_default 5) [R_Reset 7, R_Keyframe 8 1], 3)"
proof -
  have n: "abandonments (recovery_default 5) [R_Reset 7, R_Keyframe 8 1] = 2"
    by (simp add: rec_step_def abandons_def recovery_defs recovery_default_def)
  have e: "vs_epoch (vr_state (recovery_default 5)) = \<lparr>ve_source = 0, ve_recovery = 0\<rparr>" by (simp add: recovery_default_def)
  have lt: "abandonments (recovery_default 5) [R_Reset 7, R_Keyframe 8 1] < 2 ^ 64" unfolding n by simp
  have nz: "(2 :: nat) \<noteq> 0" by simp
  show ?thesis
    by (rule conjunct1 [OF stale_video_inert [OF lt, unfolded n e if_not_P [OF nz]]])
qed

theorem recovery_ends_with_output_witness:
  "began_at (vr_state (foldl rec_step (rec_step (recovery_default 5) (R_Reset 7)) [R_Keyframe 8 1])) = 7"
proof -
  let ?r = "rec_step (recovery_default 5) (R_Reset 7)"
  have "waiting (vr_state ?r)" "began_at (vr_state ?r) = 7"
    by (simp_all add: rec_step_def recovery_defs recovery_default_def)
  then show ?thesis
    using recovery_ends_with_output [of ?r "[R_Keyframe 8 1]"] by (simp add: Cons_eq_append_conv)
qed

theorem media_demand_registry_witness:
  "let m = foldl consumer_step consumers_default [C_Attach 7 demand_both, C_Attach 7 demand_both]
   in detach \<lparr>ct_slot = 7, ct_generation = 1\<rparr> m = (False, m)"
proof -
  let ?m = "foldl consumer_step consumers_default [C_Attach 7 demand_both, C_Attach 7 demand_both]"
  have "retired \<lparr>ct_slot = 7, ct_generation = 1\<rparr> ?m"
    by (simp add: retired_def consumer_step_def attach_def consumers_default_def checked_add_def)
  then show ?thesis
    using media_demand_registry [of "[C_Attach 7 demand_both, C_Attach 7 demand_both]"]
    unfolding Let_def by (metis foldl_Nil)
qed

theorem settings_form_roundtrip_witness:
  "\<exists>e s. reduce ApplyCustom (snd (reduce (SelectBitrate 80000) (snd (reduce (SelectFps 75)
     (settings_new \<lparr>ssv_width = 1920, ssv_height = 1080, ssv_fps = 60, ssv_bitrate_kbps = 10000\<rparr>))))) = (Some e, s) \<and>
     ssv_fps (sse_values e) = 75"
proof -
  let ?s = "settings_new \<lparr>ssv_width = 1920, ssv_height = 1080, ssv_fps = 60, ssv_bitrate_kbps = 10000\<rparr>"
  have "validate_video_settings (ssv_width (ss_values ?s)) (ssv_height (ss_values ?s)) 75 80000 = Ok ()"
    by (simp add: settings_new_def validate_video_settings_def)
  from settings_form_roundtrip [OF this] show ?thesis by auto
qed

end
