(* ===== verification/Host_Connection.thy ===== *)
theory Host_Connection
  imports Media_Control Hash_Tables
begin

text \<open>
  One viewer's connection at the host (\<open>Connection\<close> of \<open>host/src/service.rs\<close>): its capture subscriptions,
  the audio groups they share, the input leases, and the receipts of ended subscriptions.

  The build modelled is the one without the Linux portal and the Windows reservation.  A worker task is
  the result it will be joined with, once it has one.  What the operating system and the tasks answer
  while an operation waits (the preflight check, the source catalog, the outcome of a join, whether native
  streams stopped, whether input may be posted) is an argument; an operation that waits is one step, as the
  host's loop handles one command at a time.
\<close>

section \<open>State\<close>

record Resources =
  rs_workers :: nat
  rs_native_streams :: nat
  rs_native_stops_pending :: nat
  rs_native_stop_errors :: nat

record StreamSettings =
  st_width :: u32
  st_height :: u32
  st_fps :: u32
  st_bitrate_kbps :: u32
  st_paused :: bool

datatype InputTarget = TDesktop | TDisplay u32 | TWindow u32 int

datatype AudioGroupKey = AG_System | AG_Application int

datatype join_result = JoinOk | JoinCancelled | JoinPanicked

type_synonym task = "join_result option"

definition is_finished :: "task \<Rightarrow> bool" where
  "is_finished t \<longleftrightarrow> t \<noteq> None"

definition joined :: "join_result \<Rightarrow> (unit, string) result" where
  "joined r = (case r of JoinOk \<Rightarrow> Ok () | JoinCancelled \<Rightarrow> Ok ()
     | JoinPanicked \<Rightarrow> Err ''connection worker panicked during teardown'')"

record Subscription =
  sb_settings_revision :: u64
  sb_request :: SubscriptionRequest
  sb_settings :: StreamSettings
  sb_revision :: u64
  sb_keyframe :: bool
  sb_cancelled :: bool
  sb_task :: task
  sb_task_joined :: bool
  sb_audio_group :: "AudioGroupKey option"
  sb_audio_active :: bool
  sb_supports_input :: bool
  sb_input_target :: "InputTarget option"
  sb_source_revision :: u32
  sb_video_sequence :: nat

record AudioGroup =
  ag_owner :: u32
  ag_settings :: StreamSettings
  ag_tasks :: "task list"

record InputLeaseSlot =
  ls_lease :: InputLease
  ls_target :: InputTarget

record Connection =
  cn_id :: u32
  cn_versioned_control :: bool
  cn_delivery_owned :: bool
  cn_subscriptions :: "(u32 \<times> Subscription) list"
  cn_input_leases :: "(u32 \<times> InputLeaseSlot) list"
  cn_retired :: "(u32 \<times> (unit, string) result) list"
  cn_worker_failure :: bool
  cn_audio_groups :: "(AudioGroupKey \<times> AudioGroup) list"
  cn_resources :: Resources
  cn_retiring_tasks :: "task list"

definition connection_new :: "u32 \<Rightarrow> Connection" where
  "connection_new i = \<lparr>cn_id = i, cn_versioned_control = False, cn_delivery_owned = False, cn_subscriptions = [],
     cn_input_leases = [], cn_retired = [], cn_worker_failure = False, cn_audio_groups = [],
     cn_resources = \<lparr>rs_workers = 0, rs_native_streams = 0, rs_native_stops_pending = 0, rs_native_stop_errors = 0\<rparr>,
     cn_retiring_tasks = []\<rparr>"

abbreviation sub_of :: "Connection \<Rightarrow> u32 \<Rightarrow> Subscription option" where
  "sub_of c \<equiv> map_of (cn_subscriptions c)"

abbreviation put_sub :: "u32 \<Rightarrow> Subscription \<Rightarrow> Connection \<Rightarrow> Connection" where
  "put_sub i s c \<equiv> c\<lparr>cn_subscriptions := AList.update i s (cn_subscriptions c)\<rparr>"

section \<open>Input\<close>

definition input_target_for :: "CaptureSource \<Rightarrow> int option \<Rightarrow> bool \<Rightarrow> InputTarget option" where
  "input_target_for source pid supported =
     (if \<not> supported then None
      else case source of
        MainDisplay \<Rightarrow> Some TDesktop
      | Display i \<Rightarrow> Some (TDisplay i)
      | Window i \<Rightarrow> (case pid of Some p \<Rightarrow> if p > 0 then Some (TWindow i p) else None | None \<Rightarrow> None))"

text \<open>\<open>probe\<close> stands for \<open>mac_input_status\<close>: whether the system lets the host post input to a target.\<close>

definition input_status :: "(InputTarget \<Rightarrow> (unit, string) result) \<Rightarrow> Subscription \<Rightarrow> (unit, string) result" where
  "input_status probe s =
     (if \<not> sb_supports_input s \<or> sb_input_target s = None
      then Err ''Input is not supported for the selected capture source''
      else probe (the (sb_input_target s)))"

definition supports_input_now :: "(InputTarget \<Rightarrow> (unit, string) result) \<Rightarrow> Subscription \<Rightarrow> bool" where
  "supports_input_now probe s = is_ok (input_status probe s)"

definition can_input :: "(InputTarget \<Rightarrow> (unit, string) result) \<Rightarrow> Connection \<Rightarrow> u32 \<Rightarrow> bool" where
  "can_input probe c i =
     (case sub_of c i of
        None \<Rightarrow> False
      | Some s \<Rightarrow> supports_input_now probe s \<and> \<not> is_finished (sb_task s) \<and> \<not> st_paused (sb_settings s))"

definition input_signature ::
  "(InputTarget \<Rightarrow> (unit, string) result) \<Rightarrow> Connection \<Rightarrow> u32 \<Rightarrow> (u32 \<times> InputTarget) option" where
  "input_signature probe c i =
     (if \<not> can_input probe c i then None
      else case sub_of c i of
        None \<Rightarrow> None
      | Some s \<Rightarrow> map_option (Pair (sb_source_revision s)) (sb_input_target s))"

definition input_binding ::
  "(InputTarget \<Rightarrow> (unit, string) result) \<Rightarrow> u64 \<Rightarrow> nat \<Rightarrow> bytes \<Rightarrow> u32 \<Rightarrow> u32 \<Rightarrow> u32 \<Rightarrow> u64 \<Rightarrow> Connection \<Rightarrow>
     Connection \<times> SessionCommand option" where
  "input_binding probe now inst random connection i revision request c =
     (if connection \<noteq> cn_id c \<or> request = 0 then (c, None)
      else case input_signature probe c i of
        None \<Rightarrow> (c, None)
      | Some (current, target) \<Rightarrow>
        if current \<noteq> revision then (c, None)
        else let
          rotate = (case map_of (cn_input_leases c) i of
              None \<Rightarrow> True
            | Some slot \<Rightarrow> expired (ls_lease slot) now inst \<or> source_revision (binding (ls_lease slot)) \<noteq> revision
                \<or> ls_target slot \<noteq> target);
          b = \<lparr>connection_id = connection, subscription_id = i, source_revision = revision, epoch = random\<rparr>;
          c1 = (if rotate then c\<lparr>cn_input_leases := AList.update i \<lparr>ls_lease = lease_new b now inst, ls_target = target\<rparr>
                      (cn_input_leases c)\<rparr> else c);
          c2 = c1\<lparr>cn_versioned_control := True\<rparr>
        in (c2, case map_of (cn_input_leases c2) i of
                  None \<Rightarrow> None | Some slot \<Rightarrow> Some (SC_InputBinding (binding (ls_lease slot)) request now)))"

definition accept_input ::
  "(InputTarget \<Rightarrow> (unit, string) result) \<Rightarrow> u64 \<Rightarrow> nat \<Rightarrow> nat \<Rightarrow> RealtimeInput \<Rightarrow> Connection \<Rightarrow>
     Connection \<times> InputEvent list option" where
  "accept_input probe now inst recv_inst packet c =
     (let i = subscription_id (ri_binding packet) in
      case input_signature probe c i of
        None \<Rightarrow> (c, None)
      | Some (revision, target) \<Rightarrow>
        (case map_of (cn_input_leases c) i of
           None \<Rightarrow> (c, None)
         | Some slot \<Rightarrow>
           if connection_id (ri_binding packet) \<noteq> cn_id c \<or> source_revision (ri_binding packet) \<noteq> revision
              \<or> ls_target slot \<noteq> target then (c, None)
           else let (l, r) = lease_accept (ls_lease slot) packet now inst recv_inst in
             (c\<lparr>cn_input_leases := AList.update i (slot\<lparr>ls_lease := l\<rparr>) (cn_input_leases c)\<rparr>, r)))"

definition retires_input :: "Connection \<Rightarrow> SessionCommand \<Rightarrow> u32 option" where
  "retires_input c m =
     (case m of
        SC_Subscribe r \<Rightarrow> if sub_of c (sub_id r) = None then Some (sub_id r) else None
      | SC_SwitchSource i request_id _ \<Rightarrow>
          (case sub_of c i of Some s \<Rightarrow> if request_id > sb_source_revision s then Some i else None | None \<Rightarrow> None)
      | SC_SetActivity i revision video _ \<Rightarrow>
          (case sub_of c i of
             Some s \<Rightarrow> if revision > sb_revision s \<and> st_paused (sb_settings s) = video then Some i else None
           | None \<Rightarrow> None)
      | _ \<Rightarrow> None)"

section \<open>Audio groups\<close>

definition members :: "Connection \<Rightarrow> AudioGroupKey \<Rightarrow> Subscription list" where
  "members c key = filter (\<lambda>s. sb_audio_group s = Some key) (map snd (cn_subscriptions c))"

definition refresh_audio :: "Connection \<Rightarrow> Connection" where
  "refresh_audio c =
     (let gone = filter (\<lambda>(key, _). members c key = []) (cn_audio_groups c);
          kept = filter (\<lambda>(key, _). members c key \<noteq> []) (cn_audio_groups c) in
      c\<lparr>cn_audio_groups := map (\<lambda>(key, g). (key, g\<lparr>ag_settings := (ag_settings g)
            \<lparr>st_paused := \<not> list_ex sb_audio_active (members c key)\<rparr>\<rparr>)) kept,
        cn_retiring_tasks := cn_retiring_tasks c @ concat (map (\<lambda>(_, g). ag_tasks g) gone)\<rparr>)"

section \<open>Subscriptions\<close>

definition stream_settings :: "SubscriptionRequest \<Rightarrow> StreamSettings" where
  "stream_settings r = \<lparr>st_width = sub_width r, st_height = sub_height r, st_fps = sub_fps r,
     st_bitrate_kbps = sub_bitrate_kbps r, st_paused = False\<rparr>"

definition accepts_initial_subscribe :: "Connection \<Rightarrow> SubscriptionRequest \<Rightarrow> bool" where
  "accepts_initial_subscribe c r =
     (case sub_of c (sub_id r) of
        None \<Rightarrow> True
      | Some s \<Rightarrow> \<not> is_finished (sb_task s) \<and> sub_source (sb_request s) = sub_source r \<and> sub_audio (sb_request s) = sub_audio r)"

text \<open>The answers \<open>subscribe\<close> gets while it waits.\<close>

record sub_env =
  se_preflight :: "(unit, string) result"
  se_catalog :: "(CaptureSourceInfo list, string) result"
  se_join :: "join_result option"
  se_stops_done :: bool
  se_stop_errors :: nat
  se_delivery_ended :: bool
  se_sequence :: nat
  se_audio_tasks :: "task list"
  se_microphone :: bool
  se_probe :: "InputTarget \<Rightarrow> (unit, string) result"

definition oversize :: "u32 \<Rightarrow> u32 \<Rightarrow> bool" where
  "oversize w h \<longleftrightarrow> w > 8192 \<or> h > 8192 \<or> unat w * unat h > 33554432"

definition subscribe_refusal :: "SubscriptionRequest \<Rightarrow> Connection \<Rightarrow> string option" where
  "subscribe_refusal r c =
     (case validate_video_settings (sub_width r) (sub_height r) (sub_fps r) (sub_bitrate_kbps r) of
        Inl e \<Rightarrow> Some e
      | Inr _ \<Rightarrow>
        if map_of (cn_retired c) (sub_id r) \<noteq> None \<or> length (cn_retired c) \<ge> 4096
        then Some ''subscription was closed; use a new ID''
        else if rs_native_stops_pending (cn_resources c) \<noteq> 0 \<or> rs_native_stop_errors (cn_resources c) \<noteq> 0
             \<or> list_ex (\<lambda>t. \<not> is_finished t) (cn_retiring_tasks c)
        then Some ''previous native/audio teardown is unconfirmed; no replacement started''
        else if oversize (sub_width r) (sub_height r)
        then Some (''requested size exceeds this host'' @ [CHR 0x27] @ ''s capture budget'')
        else if sub_id r = 0 \<or> sub_id r \<ge> 0x10000000 then Some ''subscription ID outside supported range''
        else None)"

text \<open>The settings update of a running capture whose source and audio do not change.\<close>

definition update_running :: "SubscriptionRequest \<Rightarrow> Subscription \<Rightarrow> Subscription" where
  "update_running r s =
     (if sb_request s \<noteq> r
      then s\<lparr>sb_request := r,
             sb_settings := (sb_settings s)\<lparr>st_width := sub_width r, st_height := sub_height r, st_fps := sub_fps r,
               st_bitrate_kbps := sub_bitrate_kbps r\<rparr>,
             sb_keyframe := True\<rparr>
      else s)"

definition group_owner :: "Connection \<Rightarrow> AudioGroupKey option \<Rightarrow> u32 option" where
  "group_owner c key = (case key of None \<Rightarrow> None | Some k \<Rightarrow> map_option ag_owner (map_of (cn_audio_groups c) k))"

text \<open>Ending the capture that a subscription replaces.\<close>

definition stop_existing :: "sub_env \<Rightarrow> u32 \<Rightarrow> Connection \<Rightarrow> Connection \<times> string option" where
  "stop_existing e i c =
     (case sub_of c i of
        None \<Rightarrow> (c, None)
      | Some s0 \<Rightarrow>
        let s = s0\<lparr>sb_cancelled := True\<rparr>; c1 = put_sub i s c in
        if \<not> sb_task_joined s \<and> se_join e = None
        then (c1, Some ''previous capture did not stop; replacement was not started'')
        else let
          failure = (if sb_task_joined s then None
                     else case joined (the (se_join e)) of Inl err \<Rightarrow> Some err | Inr _ \<Rightarrow> None);
          c2 = put_sub i (s\<lparr>sb_task_joined := True, sb_task := (if sb_task_joined s then sb_task s else se_join e)\<rparr>) c1
        in case failure of
          Some err \<Rightarrow> (c2\<lparr>cn_worker_failure := True\<rparr>, Some err)
        | None \<Rightarrow>
          if \<not> se_stops_done e then (c2, Some ''previous native stop is unknown; replacement was not started'')
          else if se_stop_errors e \<noteq> 0 then (c2, Some ''previous native stop failed; replacement was not started'')
          else (c2, None))"

text \<open>The new capture: its audio group if it wants one, and the subscription that inherits the revisions of the one it replaces.\<close>

definition start_capture ::
  "sub_env \<Rightarrow> SubscriptionRequest \<Rightarrow> bool \<Rightarrow> CaptureSourceInfo option \<Rightarrow> Subscription option \<Rightarrow> Connection \<Rightarrow> Connection" where
  "start_capture e r legacy chosen old c =
     (let supports0 = (case chosen of None \<Rightarrow> sub_source r = MainDisplay | Some i \<Rightarrow> csi_supports_input i);
          target = input_target_for (sub_source r) (Option.bind chosen csi_process_id) supports0;
          supports = (supports0 \<and> target \<noteq> None);
          key = (if sub_audio r \<or> legacy \<and> se_microphone e
                 then Some (case Option.bind chosen csi_process_id of None \<Rightarrow> AG_System | Some p \<Rightarrow> AG_Application p)
                 else None);
          c1 = (case key of
                  None \<Rightarrow> c
                | Some k \<Rightarrow>
                    if map_of (cn_audio_groups c) k \<noteq> None then c
                    else c\<lparr>cn_audio_groups := AList.update k
                      \<lparr>ag_owner = sub_id r, ag_settings = stream_settings r, ag_tasks = se_audio_tasks e\<rparr> (cn_audio_groups c)\<rparr>);
          s = \<lparr>sb_settings_revision = (case old of None \<Rightarrow> 0 | Some s \<Rightarrow> sb_settings_revision s), sb_request = r,
               sb_settings = (stream_settings r)\<lparr>st_paused := (case old of None \<Rightarrow> False | Some s \<Rightarrow> st_paused (sb_settings s))\<rparr>,
               sb_revision = (case old of None \<Rightarrow> 0 | Some s \<Rightarrow> sb_revision s), sb_keyframe = True,
               sb_cancelled = False, sb_task = None, sb_task_joined = False, sb_audio_group = key,
               sb_audio_active = (case old of None \<Rightarrow> True | Some s \<Rightarrow> sb_audio_active s),
               sb_supports_input = supports, sb_input_target = target,
               sb_source_revision = (case old of None \<Rightarrow> 0 | Some s \<Rightarrow> sb_source_revision s),
               sb_video_sequence = (case old of None \<Rightarrow> se_sequence e | Some s \<Rightarrow> sb_video_sequence s)\<rparr>
      in refresh_audio (put_sub (sub_id r) s c1))"

text \<open>The capture that runs on unchanged: same source, same audio, task alive.\<close>

definition running_capture :: "SubscriptionRequest \<Rightarrow> Connection \<Rightarrow> Subscription option" where
  "running_capture r c =
     (case sub_of c (sub_id r) of
        None \<Rightarrow> None
      | Some s \<Rightarrow> if sub_source (sb_request s) = sub_source r \<and> sub_audio (sb_request s) = sub_audio r
            \<and> \<not> is_finished (sb_task s) then Some s else None)"

definition subscribed_reply :: "sub_env \<Rightarrow> u32 \<Rightarrow> Connection \<Rightarrow> SessionCommand" where
  "subscribed_reply e i c =
     (case sub_of c i of
        None \<Rightarrow> SC_Subscribed i None False
      | Some s \<Rightarrow> SC_Subscribed i (group_owner c (sb_audio_group s)) (supports_input_now (se_probe e) s))"

definition replace_capture ::
  "sub_env \<Rightarrow> SubscriptionRequest \<Rightarrow> bool \<Rightarrow> CaptureSourceInfo option \<Rightarrow> Connection \<Rightarrow>
     Connection \<times> (SessionCommand, string) result" where
  "replace_capture e r legacy chosen c =
     (let i = sub_id r in
      case stop_existing e i c of
        (c1, Some reason) \<Rightarrow> (c1, Err reason)
      | (c1, None) \<Rightarrow>
        let c2 = c1\<lparr>cn_subscriptions := AList.delete i (cn_subscriptions c1)\<rparr> in
        if cn_delivery_owned c2 \<and> se_delivery_ended e
        then (c2, Err ''Sending intent ended before capture allocation'')
        else let c3 = start_capture e r legacy chosen (sub_of c1 i) c2 in (c3, Ok (subscribed_reply e i c3)))"

definition subscribe ::
  "sub_env \<Rightarrow> SubscriptionRequest \<Rightarrow> bool \<Rightarrow> Connection \<Rightarrow> Connection \<times> (SessionCommand, string) result" where
  "subscribe e r legacy c =
     (let i = sub_id r in
      case subscribe_refusal r c of
        Some reason \<Rightarrow> (c, Err reason)
      | None \<Rightarrow>
      (case running_capture r c of
        Some s \<Rightarrow> let c' = put_sub i (update_running r s) c in (c', Ok (subscribed_reply e i c'))
      | None \<Rightarrow>
        if length (cn_subscriptions c) \<ge> MAX_SUBSCRIPTIONS \<and> sub_of c i = None then (c, Err ''subscription limit reached'')
        else case se_preflight e of
          Inl reason \<Rightarrow> (c, Err reason)
        | Inr _ \<Rightarrow>
          (case (if sub_source r = MainDisplay then Ok [] else se_catalog e) of
             Inl reason \<Rightarrow> (c, Err reason)
           | Inr sources \<Rightarrow>
             let chosen = find (\<lambda>s. csi_source s = sub_source r) sources in
             if sub_source r \<noteq> MainDisplay \<and> chosen = None then (c, Err ''selected capture source is unavailable'')
             else replace_capture e r legacy chosen c)))"

definition switch_source ::
  "sub_env \<Rightarrow> u32 \<Rightarrow> u32 \<Rightarrow> CaptureSource \<Rightarrow> Connection \<Rightarrow> Connection \<times> (SessionCommand, string) result" where
  "switch_source e i request_id source c =
     (case sub_of c i of
        None \<Rightarrow> (c, Err ''subscription is unavailable'')
      | Some current \<Rightarrow>
        if request_id = 0 \<or> request_id < sb_source_revision current then (c, Err ''stale capture-source request'')
        else if request_id = sb_source_revision current then
          if source \<noteq> sub_source (sb_request current) then (c, Err ''source request ID reused'')
          else (c, Ok (SC_SourceSwitched i request_id source (supports_input_now (se_probe e) current)))
        else (case subscribe e ((sb_request current)\<lparr>sub_source := source\<rparr>) False c of
          (c1, Inl reason) \<Rightarrow> (c1, Err reason)
        | (c1, Inr _) \<Rightarrow>
          (case sub_of c1 i of
             None \<Rightarrow> (c1, Err ''subscription disappeared'')
           | Some s \<Rightarrow>
             let s' = s\<lparr>sb_source_revision := request_id\<rparr> in
             (put_sub i s' c1, Ok (SC_SourceSwitched i request_id source (supports_input_now (se_probe e) s'))))))"

definition set_activity ::
  "u32 \<Rightarrow> u64 \<Rightarrow> bool \<Rightarrow> bool \<Rightarrow> Connection \<Rightarrow> Connection \<times> SessionCommand option" where
  "set_activity i revision video audio c =
     (case sub_of c i of
        None \<Rightarrow> (c, None)
      | Some s \<Rightarrow>
        let s' = (if revision > sb_revision s
                  then s\<lparr>sb_revision := revision, sb_audio_active := audio,
                         sb_settings := (sb_settings s)\<lparr>st_paused := \<not> video\<rparr>,
                         sb_keyframe := sb_keyframe s \<or> video\<rparr>
                  else s)
        in (refresh_audio (put_sub i s' c),
            Some (SC_Activity i (sb_revision s') (\<not> st_paused (sb_settings s')) (sb_audio_active s'))))"

text \<open>The \<open>Configure\<close> and \<open>SetMediaPaused\<close> arms of the host's loop, on the connection they address.\<close>

definition configure ::
  "u32 \<Rightarrow> u64 \<Rightarrow> u32 \<Rightarrow> u32 \<Rightarrow> u32 \<Rightarrow> u32 \<Rightarrow> Connection \<Rightarrow> Connection \<times> SessionCommand" where
  "configure i revision width height fps bitrate_kbps c =
     (if \<not> is_ok (validate_video_settings width height fps bitrate_kbps) \<or> oversize width height
      then (c, SC_Error i ''unsupported capture settings'')
      else case sub_of c i of
        None \<Rightarrow> (c, SC_Error i ''subscription is unavailable'')
      | Some s \<Rightarrow>
        let s' = (if revision > sb_settings_revision s
                  then s\<lparr>sb_settings_revision := revision,
                         sb_request := (sb_request s)\<lparr>sub_width := width, sub_height := height, sub_fps := fps,
                           sub_bitrate_kbps := bitrate_kbps\<rparr>,
                         sb_settings := (sb_settings s)\<lparr>st_width := width, st_height := height, st_fps := fps,
                           st_bitrate_kbps := bitrate_kbps\<rparr>\<rparr>
                  else s)
        in (put_sub i s' c, SC_Configured i (sb_settings_revision s')))"

definition set_media_paused ::
  "u32 \<Rightarrow> u64 \<Rightarrow> bool \<Rightarrow> Connection \<Rightarrow> Connection \<times> ControlMessage option" where
  "set_media_paused i revision paused c =
     (if cn_versioned_control c then (c, None)
      else let c' = fst (set_activity i revision (\<not> paused) (\<not> paused) c) in
        (c', map_option (\<lambda>s. CM_MediaPauseState i (sb_revision s) (st_paused (sb_settings s))) (sub_of c' i)))"

section \<open>Ending a subscription\<close>

text \<open>The answers \<open>unsubscribe\<close> gets: the join of the capture task, the joins of the retiring tasks from the
  last, whether native streams stopped, and their error count.\<close>

record unsub_env =
  ue_join :: "join_result option"
  ue_retiring :: "join_result option list"
  ue_stops_done :: bool
  ue_stop_errors :: nat

fun join_retiring :: "join_result option list \<Rightarrow> task list \<Rightarrow> task list \<times> bool \<times> string option" where
  "join_retiring outcomes [] = ([], False, None)"
| "join_retiring [] (t # ts) = (t # ts, False, Some ''audio/clipboard teardown still pending'')"
| "join_retiring (None # os) (t # ts) = (t # ts, False, Some ''audio/clipboard teardown still pending'')"
| "join_retiring (Some r # os) (t # ts) =
     (case joined r of Inl err \<Rightarrow> (ts, True, Some err) | Inr _ \<Rightarrow> join_retiring os ts)"

definition finish_unsubscribe :: "unsub_env \<Rightarrow> Connection \<Rightarrow> Connection \<times> (unit, string) result" where
  "finish_unsubscribe e c =
     (let c1 = refresh_audio c;
          (ts, failed, problem) = join_retiring (ue_retiring e) (rev (cn_retiring_tasks c1));
          c2 = c1\<lparr>cn_retiring_tasks := rev ts, cn_worker_failure := cn_worker_failure c1 \<or> failed\<rparr> in
      case problem of
        Some err \<Rightarrow> (c2, Err err)
      | None \<Rightarrow>
        if \<not> ue_stops_done e then (c2, Err ''native teardown still pending; unsubscribe outcome is unknown'')
        else if ue_stop_errors e > 0 then (c2, Err ''native capture stop failed; teardown is not confirmed'')
        else (c2, Ok ()))"

definition unsubscribe_owned :: "unsub_env \<Rightarrow> u32 \<Rightarrow> Subscription \<Rightarrow> Connection \<Rightarrow> Connection \<times> (unit, string) result" where
  "unsubscribe_owned e i s0 c =
     (let s = s0\<lparr>sb_supports_input := False, sb_input_target := None, sb_cancelled := True\<rparr> in
      if \<not> sb_task_joined s \<and> ue_join e = None
      then (put_sub i s c, Err ''capture teardown still pending; no unsubscribe acknowledgement'')
      else let
        capture_result = (if sb_task_joined s then Ok () else joined (the (ue_join e)));
        c1 = c\<lparr>cn_subscriptions := AList.delete i (cn_subscriptions c)\<rparr>
      in case capture_result of
        Inl err \<Rightarrow> (c1\<lparr>cn_worker_failure := True\<rparr>, Err err)
      | Inr _ \<Rightarrow>
        if cn_worker_failure c1 then (c1, Err ''prior connection worker failed; teardown is not confirmed'')
        else finish_unsubscribe e c1)"

definition unsubscribe :: "unsub_env \<Rightarrow> u32 \<Rightarrow> Connection \<Rightarrow> Connection \<times> (unit, string) result" where
  "unsubscribe e i c =
     (case map_of (cn_retired c) i of
        Some receipt \<Rightarrow> (c, receipt)
      | None \<Rightarrow>
        (case sub_of c i of
           None \<Rightarrow> (c, Err ''subscription is unavailable'')
         | Some s \<Rightarrow>
           let c1 = c\<lparr>cn_retired := AList.update i (Err ''unsubscribe cleanup outcome is unknown'') (cn_retired c)\<rparr>;
               (c2, r) = unsubscribe_owned e i s c1
           in (c2\<lparr>cn_retired := AList.update i r (cn_retired c2)\<rparr>, r)))"

text \<open>The periodic sweep drops subscriptions whose task ended; a panic leaves a receipt.\<close>

definition prune_finished_subscriptions :: "Connection \<Rightarrow> Connection" where
  "prune_finished_subscriptions c =
     (let failures = filter (\<lambda>(_, s). sb_task s = Some JoinPanicked \<and> \<not> sb_task_joined s) (cn_subscriptions c) in
      refresh_audio (c\<lparr>
        cn_subscriptions := filter (\<lambda>(_, s). \<not> is_finished (sb_task s)) (cn_subscriptions c),
        cn_worker_failure := cn_worker_failure c \<or> failures \<noteq> [],
        cn_retired := foldl (\<lambda>m (_, s). AList.update (sub_id (sb_request s))
            (Err ''connection worker panicked during teardown'') m) (cn_retired c) failures\<rparr>))"


section \<open>Histories\<close>

datatype conn_op =
    OSubscribe sub_env SubscriptionRequest bool
  | OSwitch sub_env u32 u32 CaptureSource
  | OActivity u32 u64 bool bool
  | OPaused u32 u64 bool
  | OConfigure u32 u64 u32 u32 u32 u32
  | OUnsubscribe unsub_env u32
  | OPrune
  | OTaskEnds u32 join_result
  | OBackground Resources "task list"

text \<open>\<open>OTaskEnds\<close> and \<open>OBackground\<close> are what happens by itself: a capture task ends, native streams come and
  go, retiring tasks end.\<close>

definition task_ends :: "u32 \<Rightarrow> join_result \<Rightarrow> Connection \<Rightarrow> Connection" where
  "task_ends i r c =
     (case sub_of c i of
        None \<Rightarrow> c
      | Some s \<Rightarrow> if sb_task s = None then put_sub i (s\<lparr>sb_task := Some r\<rparr>) c else c)"

definition conn_step :: "Connection \<Rightarrow> conn_op \<Rightarrow> Connection" where
  "conn_step c x =
     (case x of
        OSubscribe e r legacy \<Rightarrow> fst (subscribe e r legacy c)
      | OSwitch e i request_id source \<Rightarrow> fst (switch_source e i request_id source c)
      | OActivity i revision video audio \<Rightarrow> fst (set_activity i revision video audio c)
      | OPaused i revision paused \<Rightarrow> fst (set_media_paused i revision paused c)
      | OConfigure i revision w h f b \<Rightarrow> fst (configure i revision w h f b c)
      | OUnsubscribe e i \<Rightarrow> fst (unsubscribe e i c)
      | OPrune \<Rightarrow> prune_finished_subscriptions c
      | OTaskEnds i r \<Rightarrow> task_ends i r c
      | OBackground r ts \<Rightarrow> c\<lparr>cn_resources := r, cn_retiring_tasks := ts\<rparr>)"

section \<open>Lemmas\<close>

declare map_of_AList [simp]

lemma refresh_fields [simp]:
  "cn_subscriptions (refresh_audio c) = cn_subscriptions c" "cn_retired (refresh_audio c) = cn_retired c"
  "cn_id (refresh_audio c) = cn_id c" "cn_input_leases (refresh_audio c) = cn_input_leases c"
  "cn_versioned_control (refresh_audio c) = cn_versioned_control c"
  "cn_worker_failure (refresh_audio c) = cn_worker_failure c"
  "cn_delivery_owned (refresh_audio c) = cn_delivery_owned c"
  by (simp_all add: refresh_audio_def Let_def)

text \<open>What replaces a capture keeps of it, and what the other subscriptions and the receipts keep.\<close>

definition inherits :: "Subscription \<Rightarrow> Subscription \<Rightarrow> bool" where
  "inherits s s' \<longleftrightarrow> sb_revision s' = sb_revision s \<and> st_paused (sb_settings s') = st_paused (sb_settings s) \<and>
     sb_audio_active s' = sb_audio_active s \<and> sb_video_sequence s' = sb_video_sequence s \<and>
     sb_settings_revision s' = sb_settings_revision s \<and> sb_source_revision s' = sb_source_revision s"

lemma inherits_refl [simp]: "inherits s s" and inherits_trans: "inherits a b \<Longrightarrow> inherits b c \<Longrightarrow> inherits a c"
  by (simp_all add: inherits_def)

lemma stop_existing_fields:
  assumes "stop_existing e i c = (c1, r)"
  shows "cn_retired c1 = cn_retired c" "cn_audio_groups c1 = cn_audio_groups c" "cn_id c1 = cn_id c"
    "j \<noteq> i \<Longrightarrow> sub_of c1 j = sub_of c j" "rel_option inherits (sub_of c i) (sub_of c1 i)"
    "sub_of c1 i = Some s \<Longrightarrow> \<exists>s0. sub_of c i = Some s0 \<and> sb_request s = sb_request s0 \<and> sb_audio_group s = sb_audio_group s0"
    "hash_wf (cn_subscriptions c) \<Longrightarrow> hash_wf (cn_subscriptions c1)"
    "cn_versioned_control c1 = cn_versioned_control c"
  using assms
  by (auto simp: stop_existing_def Let_def inherits_def hash.wf_ins split: option.splits if_splits sum.splits)

lemma update_running_inherits: "inherits s (update_running r s)"
  by (simp add: update_running_def inherits_def)

lemma start_capture_fields:
  "cn_retired (start_capture e r legacy chosen old c) = cn_retired c"
  "cn_id (start_capture e r legacy chosen old c) = cn_id c"
  "cn_versioned_control (start_capture e r legacy chosen old c) = cn_versioned_control c"
  "j \<noteq> sub_id r \<Longrightarrow> sub_of (start_capture e r legacy chosen old c) j = sub_of c j"
  "\<exists>s. sub_of (start_capture e r legacy chosen old c) (sub_id r) = Some s \<and> sb_request s = r \<and> sb_task s = None \<and>
     (\<forall>s0. old = Some s0 \<longrightarrow> inherits s0 s)"
  by (auto simp: start_capture_def Let_def inherits_def split: option.split)

text \<open>The cases of \<open>subscribe\<close>: it changes nothing, updates a running capture, fails to stop or to allocate
  one, or starts a new one.\<close>

lemma subscribe_cases [case_names same running stopped removed started]:
  obtains "fst (subscribe e r legacy c) = c"
  | s where "running_capture r c = Some s" "subscribe_refusal r c = None"
      "fst (subscribe e r legacy c) = put_sub (sub_id r) (update_running r s) c"
  | c1 reason where "stop_existing e (sub_id r) c = (c1, Some reason)" "fst (subscribe e r legacy c) = c1"
  | c1 where "stop_existing e (sub_id r) c = (c1, None)"
      "fst (subscribe e r legacy c) = c1\<lparr>cn_subscriptions := AList.delete (sub_id r) (cn_subscriptions c1)\<rparr>"
  | c1 chosen where "stop_existing e (sub_id r) c = (c1, None)" "subscribe_refusal r c = None"
      "length (cn_subscriptions c) < MAX_SUBSCRIPTIONS \<or> sub_of c (sub_id r) \<noteq> None"
      "fst (subscribe e r legacy c) = start_capture e r legacy chosen (sub_of c1 (sub_id r))
         (c1\<lparr>cn_subscriptions := AList.delete (sub_id r) (cn_subscriptions c1)\<rparr>)"
proof (cases "subscribe_refusal r c")
  case (Some reason)
  then show ?thesis using that(1) by (simp add: subscribe_def Let_def)
next
  case ok: None
  show ?thesis
  proof (cases "running_capture r c")
    case (Some s)
    then show ?thesis using that(2) ok by (simp add: subscribe_def Let_def)
  next
    case None
    show ?thesis
    proof (cases "fst (subscribe e r legacy c) = c")
      case False
      then obtain chosen where room: "length (cn_subscriptions c) < MAX_SUBSCRIPTIONS \<or> sub_of c (sub_id r) \<noteq> None"
          and eq: "fst (subscribe e r legacy c) = fst (replace_capture e r legacy chosen c)"
        using ok None by (auto simp: subscribe_def Let_def split: if_splits sum.splits)
      obtain c1 q where st: "stop_existing e (sub_id r) c = (c1, q)" by force
      then show ?thesis
        using that(3-5) ok room eq by (cases q) (auto simp: replace_capture_def Let_def split: if_splits)
    qed (rule that(1))
  qed
qed


subsection \<open>The invariant\<close>

text \<open>
  Identifiers are in range and never shared; every audio group a subscription belongs to runs; an
  acknowledged receipt leaves no subscription behind; receipts and subscriptions together stay bounded.
\<close>

definition known_ids :: "Connection \<Rightarrow> u32 set" where
  "known_ids c = dom (map_of (cn_retired c)) \<union> dom (sub_of c)"

definition sub_ok :: "Connection \<Rightarrow> u32 \<Rightarrow> Subscription \<Rightarrow> bool" where
  "sub_ok c i s \<longleftrightarrow> sub_id (sb_request s) = i \<and> i \<noteq> 0 \<and> i < 0x10000000 \<and>
     (\<forall>k. sb_audio_group s = Some k \<longrightarrow> map_of (cn_audio_groups c) k \<noteq> None)"

definition conn_inv :: "Connection \<Rightarrow> bool" where
  "conn_inv c \<longleftrightarrow> hash_wf (cn_subscriptions c) \<and> hash_wf (cn_retired c) \<and> hash_wf (cn_audio_groups c) \<and>
     length (cn_subscriptions c) \<le> MAX_SUBSCRIPTIONS \<and> (\<forall>i s. sub_of c i = Some s \<longrightarrow> sub_ok c i s) \<and>
     (\<forall>i. map_of (cn_retired c) i = Some (Ok ()) \<longrightarrow> sub_of c i = None) \<and>
     finite (known_ids c) \<and> card (known_ids c) \<le> 4103"

lemma conn_invI [intro?]:
  assumes "conn_inv c" "hash_wf (cn_subscriptions c')" "hash_wf (cn_retired c')" "hash_wf (cn_audio_groups c')"
    "length (cn_subscriptions c') \<le> MAX_SUBSCRIPTIONS" "\<And>i s. sub_of c' i = Some s \<Longrightarrow> sub_ok c' i s"
    "\<And>i. map_of (cn_retired c') i = Some (Ok ()) \<Longrightarrow> sub_of c' i = None" "known_ids c' \<subseteq> known_ids c"
  shows "conn_inv c'"
  using assms card_mono [of "known_ids c" "known_ids c'"] finite_subset [of "known_ids c'" "known_ids c"]
  unfolding conn_inv_def by (metis order_trans)

lemma conn_inv_cong:
  assumes "conn_inv c" "cn_subscriptions c' = cn_subscriptions c" "cn_retired c' = cn_retired c"
    "cn_audio_groups c' = cn_audio_groups c"
  shows "conn_inv c'"
  using assms by (simp add: conn_inv_def known_ids_def sub_ok_def)

lemma map_of_refreshed:
  "map_of (cn_audio_groups (refresh_audio c)) k \<noteq> None \<longleftrightarrow> map_of (cn_audio_groups c) k \<noteq> None \<and> members c k \<noteq> []"
  by (auto simp: refresh_audio_def Let_def map_of_eq_None_iff image_iff split: prod.splits) force+

lemma member_of_group: "sub_of c i = Some s \<Longrightarrow> sb_audio_group s = Some k \<Longrightarrow> members c k \<noteq> []"
  by (auto simp: members_def filter_empty_conv dest!: map_of_SomeD) (metis snd_conv)

lemma conn_inv_refresh: "conn_inv c \<Longrightarrow> conn_inv (refresh_audio c)"
proof (rule conn_invI)
  assume c: "conn_inv c"
  have "fst \<circ> (\<lambda>(key, g). (key, f key g)) = fst" for f :: "AudioGroupKey \<Rightarrow> AudioGroup \<Rightarrow> AudioGroup" by auto
  then show "hash_wf (cn_audio_groups (refresh_audio c))"
    using c by (auto simp: conn_inv_def refresh_audio_def Let_def hash_wf_def distinct_map_filter)
  show "sub_ok (refresh_audio c) i s" if "sub_of (refresh_audio c) i = Some s" for i s
    using c that member_of_group map_of_refreshed by (fastforce simp: conn_inv_def sub_ok_def)
qed (auto simp: conn_inv_def known_ids_def)

lemma conn_inv_put:
  assumes c: "conn_inv c" "sub_of c i = Some s" and same: "sb_request s' = sb_request s \<or> sub_id (sb_request s') = i"
      "sb_audio_group s' = sb_audio_group s"
  shows "conn_inv (put_sub i s' c)"
proof (rule conn_invI [OF c(1)])
  show "length (cn_subscriptions (put_sub i s' c)) \<le> MAX_SUBSCRIPTIONS"
    using c hash.size_ins_old [of "cn_subscriptions c" i s s'] by (simp add: conn_inv_def)
  show "sub_ok (put_sub i s' c) j t" if "sub_of (put_sub i s' c) j = Some t" for j t
    using that c same by (auto simp: conn_inv_def sub_ok_def split: if_splits)
qed (use c in \<open>auto simp: conn_inv_def known_ids_def hash.wf_ins split: if_splits\<close>)

lemma conn_inv_delete: "conn_inv c \<Longrightarrow> conn_inv (c\<lparr>cn_subscriptions := AList.delete i (cn_subscriptions c)\<rparr>)"
proof (rule conn_invI)
  assume c: "conn_inv c"
  then show "length (cn_subscriptions (c\<lparr>cn_subscriptions := AList.delete i (cn_subscriptions c)\<rparr>)) \<le> MAX_SUBSCRIPTIONS"
    using hash.size_rem [of "cn_subscriptions c" i] by (simp add: conn_inv_def)
qed (auto simp: conn_inv_def known_ids_def sub_ok_def hash.wf_rem split: if_splits)

lemma conn_inv_retire:
  assumes c: "conn_inv c" "i \<in> known_ids c" and r: "r = Ok () \<Longrightarrow> sub_of c i = None"
  shows "conn_inv (c\<lparr>cn_retired := AList.update i r (cn_retired c)\<rparr>)"
proof (rule conn_invI [OF c(1)])
  show "sub_of (c\<lparr>cn_retired := AList.update i r (cn_retired c)\<rparr>) j = None"
    if "map_of (cn_retired (c\<lparr>cn_retired := AList.update i r (cn_retired c)\<rparr>)) j = Some (Ok ())" for j
    using that c r by (auto simp: conn_inv_def split: if_splits)
qed (use c in \<open>auto simp: conn_inv_def known_ids_def sub_ok_def hash.wf_ins\<close>)

lemma conn_inv_stop:
  assumes "conn_inv c" "stop_existing e i c = (c1, r)"
  shows "conn_inv c1"
proof (cases "sub_of c i")
  case None
  then show ?thesis using assms by (simp add: stop_existing_def)
next
  case (Some s)
  have "\<exists>s'. cn_subscriptions c1 = AList.update i s' (cn_subscriptions c) \<and> cn_retired c1 = cn_retired c \<and>
      cn_audio_groups c1 = cn_audio_groups c \<and> sb_request s' = sb_request s \<and> sb_audio_group s' = sb_audio_group s"
    using assms(2) Some
    by (auto simp: stop_existing_def Let_def split: if_splits option.splits sum.splits)
  then obtain s' where s': "cn_subscriptions c1 = AList.update i s' (cn_subscriptions c)" "cn_retired c1 = cn_retired c"
      "cn_audio_groups c1 = cn_audio_groups c" "sb_request s' = sb_request s" "sb_audio_group s' = sb_audio_group s"
    by blast
  have "conn_inv (put_sub i s' c)" using conn_inv_put [OF assms(1) Some] s' by simp
  then show ?thesis by (rule conn_inv_cong) (simp_all add: s')
qed

lemma refusal_none:
  assumes "subscribe_refusal r c = None"
  shows "map_of (cn_retired c) (sub_id r) = None" "length (cn_retired c) < 4096" "sub_id r \<noteq> 0" "sub_id r < 0x10000000"
  using assms by (auto simp: subscribe_refusal_def not_le split: sum.splits if_splits)

lemma conn_inv_start:
  assumes c: "conn_inv c" and new: "sub_of c (sub_id r) = None" "length (cn_subscriptions c) < MAX_SUBSCRIPTIONS"
    and ok: "map_of (cn_retired c) (sub_id r) = None" "length (cn_retired c) < 4096" "sub_id r \<noteq> 0" "sub_id r < 0x10000000"
  shows "conn_inv (start_capture e r legacy chosen old c)"
proof -
  define key where "key = (if sub_audio r \<or> legacy \<and> se_microphone e
     then Some (case Option.bind chosen csi_process_id of None \<Rightarrow> AG_System | Some p \<Rightarrow> AG_Application p) else None)"
  define c1 where "c1 = (case key of None \<Rightarrow> c | Some k \<Rightarrow> if map_of (cn_audio_groups c) k \<noteq> None then c
     else c\<lparr>cn_audio_groups := AList.update k
       \<lparr>ag_owner = sub_id r, ag_settings = stream_settings r, ag_tasks = se_audio_tasks e\<rparr> (cn_audio_groups c)\<rparr>)"
  obtain s where start: "start_capture e r legacy chosen old c = refresh_audio (put_sub (sub_id r) s c1)"
    and s: "sb_request s = r" "sb_audio_group s = key"
    unfolding start_capture_def Let_def key_def c1_def by force
  have f: "cn_subscriptions c1 = cn_subscriptions c" "cn_retired c1 = cn_retired c" "hash_wf (cn_audio_groups c1)"
    and g: "\<And>k. key = Some k \<or> map_of (cn_audio_groups c) k \<noteq> None \<Longrightarrow> map_of (cn_audio_groups c1) k \<noteq> None"
    using c by (auto simp: c1_def conn_inv_def hash.wf_ins split: option.splits)
  let ?c = "put_sub (sub_id r) s c1"
  have wf: "hash_wf (cn_subscriptions c)" "hash_wf (cn_retired c)" using c by (simp_all add: conn_inv_def)
  have len: "length (cn_subscriptions ?c) \<le> MAX_SUBSCRIPTIONS"
    using hash.size_ins_new [OF wf(1) new(1), of s] new(2) f(1) by simp
  have subs: "finite (dom (sub_of ?c))" "card (dom (sub_of ?c)) \<le> 8"
    using hash.size_dom [OF hash.wf_ins [OF wf(1)], of "sub_id r" s] len f(1)
    by (simp_all add: MAX_SUBSCRIPTIONS_def finite_dom_map_of)
  have ret: "cn_retired ?c = cn_retired c" using f(2) by simp
  have "card (known_ids ?c) \<le> card (dom (map_of (cn_retired c))) + card (dom (sub_of ?c))"
    unfolding known_ids_def ret by (rule card_Un_le)
  then have "card (known_ids ?c) \<le> 4103"
    using subs(2) ok(2) hash.size_dom [OF wf(2)] by linarith
  moreover have "finite (known_ids ?c)" using subs(1) by (simp add: known_ids_def finite_dom_map_of)
  moreover have "sub_ok ?c i t" if "sub_of ?c i = Some t" for i t
  proof (cases "i = sub_id r")
    case True
    then show ?thesis using that s ok g by (simp add: sub_ok_def f(1))
  next
    case False
    then have "sub_of c i = Some t" using that f(1) by simp
    then have "sub_ok c i t" using c by (simp add: conn_inv_def)
    then show ?thesis using g by (auto simp: sub_ok_def)
  qed
  moreover have "sub_of ?c i = None" if "map_of (cn_retired ?c) i = Some (Ok ())" for i
    using that c ok(1) f(1,2) by (cases "i = sub_id r") (auto simp: conn_inv_def)
  ultimately have "conn_inv ?c"
    using len wf f(3) by (simp add: conn_inv_def f(1,2) hash.wf_ins del: map_of_AList)
  then show ?thesis unfolding start by (rule conn_inv_refresh)
qed

lemma conn_inv_subscribe:
  assumes c: "conn_inv c"
  shows "conn_inv (fst (subscribe e r legacy c))"
proof (cases rule: subscribe_cases [of e r legacy c])
  case same
  then show ?thesis using c by simp
next
  case (running s)
  then have "sub_of c (sub_id r) = Some s" by (simp add: running_capture_def split: option.splits if_splits)
  then show ?thesis
    using running conn_inv_put [OF c, of "sub_id r" s "update_running r s"] by (simp add: update_running_def)
next
  case (stopped c1 reason)
  then show ?thesis using conn_inv_stop [OF c] by simp
next
  case (removed c1)
  then show ?thesis using conn_inv_delete [OF conn_inv_stop [OF c]] by simp
next
  case (started c1 chosen)
  let ?c = "c1\<lparr>cn_subscriptions := AList.delete (sub_id r) (cn_subscriptions c1)\<rparr>"
  have inv: "conn_inv c1" by (rule conn_inv_stop [OF c started(1)])
  have "length (AList.delete (sub_id r) (cn_subscriptions c1)) < MAX_SUBSCRIPTIONS"
  proof (cases "sub_of c (sub_id r)")
    case None
    then have "c1 = c" using started(1) by (simp add: stop_existing_def)
    then show ?thesis using started(3) None hash.size_rem [of "cn_subscriptions c" "sub_id r"] c by (simp add: conn_inv_def)
  next
    case (Some s)
    then obtain s1 where "sub_of c1 (sub_id r) = Some s1"
      using stop_existing_fields(5) [OF started(1)] by (auto simp: option_rel_Some1)
    then have "Suc (length (AList.delete (sub_id r) (cn_subscriptions c1))) = length (cn_subscriptions c1)"
      using hash.size_rem_old [of "cn_subscriptions c1"] inv unfolding conn_inv_def by blast
    then show ?thesis using inv by (simp add: conn_inv_def)
  qed
  then have "conn_inv (start_capture e r legacy chosen (sub_of c1 (sub_id r)) ?c)"
    using refusal_none [OF started(2)] stop_existing_fields(1) [OF started(1)]
    by (intro conn_inv_start conn_inv_delete inv) simp_all
  then show ?thesis using started(4) by simp
qed


lemma switch_source_cases [case_names same subscribed switched]:
  obtains "fst (switch_source e i q source c) = c"
  | r where "fst (switch_source e i q source c) = fst (subscribe e r False c)"
  | r s where "sub_of (fst (subscribe e r False c)) i = Some s"
      "fst (switch_source e i q source c) = put_sub i (s\<lparr>sb_source_revision := q\<rparr>) (fst (subscribe e r False c))"
proof (cases "fst (switch_source e i q source c) = c")
  case False
  then obtain cur where cur: "sub_of c i = Some cur" by (auto simp: switch_source_def split: option.splits)
  obtain c1 y where sub: "subscribe e ((sb_request cur)\<lparr>sub_source := source\<rparr>) False c = (c1, y)" by force
  then show ?thesis
    using False cur that(2,3)
    by (cases y; cases "sub_of c1 i") (auto simp: switch_source_def Let_def split: if_splits, (metis fst_conv)+)
qed (rule that(1))

lemma conn_inv_switch: "conn_inv c \<Longrightarrow> conn_inv (fst (switch_source e i q source c))"
proof (cases rule: switch_source_cases [of e i q source c])
  case (switched r s)
  assume "conn_inv c"
  then show ?thesis using switched conn_inv_put [OF conn_inv_subscribe switched(1)] by simp
qed (simp_all add: conn_inv_subscribe)

lemma conn_inv_activity:
  assumes "conn_inv c"
  shows "conn_inv (fst (set_activity i revision video audio c))"
  using assms
  by (auto simp: set_activity_def Let_def split: option.split intro!: conn_inv_refresh conn_inv_put)

lemma conn_inv_paused: "conn_inv c \<Longrightarrow> conn_inv (fst (set_media_paused i revision paused c))"
  by (simp add: set_media_paused_def Let_def conn_inv_activity)

lemma conn_inv_configure:
  assumes c: "conn_inv c"
  shows "conn_inv (fst (configure i revision w h f b c))"
proof (cases "sub_of c i")
  case (Some s)
  have "sub_id (sb_request s) = i" using c Some by (simp add: conn_inv_def sub_ok_def)
  then show ?thesis
    using c Some by (auto simp: configure_def Let_def intro!: conn_inv_put)
qed (simp add: configure_def c)

lemma conn_inv_task_ends: "conn_inv c \<Longrightarrow> conn_inv (task_ends i r c)"
  by (auto simp: task_ends_def split: option.split intro!: conn_inv_put)

lemma unsubscribe_owned_fields:
  assumes "unsubscribe_owned e i s c = (c2, r)"
  shows "cn_retired c2 = cn_retired c" "j \<noteq> i \<Longrightarrow> sub_of c2 j = sub_of c j" "r = Ok () \<Longrightarrow> sub_of c2 i = None"
    "sub_of c2 i = Some s' \<Longrightarrow> s' = s\<lparr>sb_supports_input := False, sb_input_target := None, sb_cancelled := True\<rparr>"
  using assms
  by (auto simp: unsubscribe_owned_def finish_unsubscribe_def Let_def split: if_splits sum.splits option.splits prod.splits)

lemma conn_inv_finish: "conn_inv c \<Longrightarrow> conn_inv (fst (finish_unsubscribe e c))"
  by (auto simp: finish_unsubscribe_def Let_def split: option.split prod.split
      intro: conn_inv_cong [OF conn_inv_refresh])

lemma conn_inv_unsubscribe_owned:
  assumes "conn_inv c" "sub_of c i = Some s"
  shows "conn_inv (fst (unsubscribe_owned e i s c))"
  using conn_inv_put [OF assms] conn_inv_delete [OF assms(1), of i] conn_inv_finish
  by (auto simp: unsubscribe_owned_def Let_def split: sum.split intro: conn_inv_cong)

lemma conn_inv_unsubscribe:
  assumes c: "conn_inv c"
  shows "conn_inv (fst (unsubscribe e i c))"
proof (cases "map_of (cn_retired c) i = None \<and> sub_of c i \<noteq> None")
  case True
  then obtain s where s: "map_of (cn_retired c) i = None" "sub_of c i = Some s" by auto
  let ?c1 = "c\<lparr>cn_retired := AList.update i (Err ''unsubscribe cleanup outcome is unknown'') (cn_retired c)\<rparr>"
  obtain c2 r where owned: "unsubscribe_owned e i s ?c1 = (c2, r)" by force
  have "conn_inv ?c1" using conn_inv_retire [OF c, of i "Err ''unsubscribe cleanup outcome is unknown''"] s by (simp add: known_ids_def domI)
  then have c2: "conn_inv c2" using conn_inv_unsubscribe_owned [of ?c1 i s e] s owned by simp
  have "i \<in> known_ids c2" using unsubscribe_owned_fields(1) [OF owned] by (simp add: known_ids_def)
  then have "conn_inv (c2\<lparr>cn_retired := AList.update i r (cn_retired c2)\<rparr>)"
    using conn_inv_retire [OF c2] unsubscribe_owned_fields(3) [OF owned] by simp
  then show ?thesis using s owned by (simp add: unsubscribe_def)
qed (use c in \<open>auto simp: unsubscribe_def split: option.splits\<close>)


lemma fold_receipts:
  "map_of (foldl (\<lambda>m (_, s). AList.update (f s) v m) m xs) i = (if i \<in> (\<lambda>(_, s). f s) ` set xs then Some v else map_of m i)"
  "hash_wf m \<Longrightarrow> hash_wf (foldl (\<lambda>m (_, s). AList.update (f s) v m) m xs)"
  by (induction xs arbitrary: m) (auto simp: hash.wf_ins)

lemma pruned:
  assumes "conn_inv c"
  shows "sub_of (prune_finished_subscriptions c) i =
      (case sub_of c i of Some s \<Rightarrow> if is_finished (sb_task s) then None else Some s | None \<Rightarrow> None)"
    "map_of (cn_retired (prune_finished_subscriptions c)) i =
      (if \<exists>s. sub_of c i = Some s \<and> sb_task s = Some JoinPanicked \<and> \<not> sb_task_joined s
       then Some (Err ''connection worker panicked during teardown'') else map_of (cn_retired c) i)"
proof -
  have wf: "hash_wf (cn_subscriptions c)" using assms by (simp add: conn_inv_def)
  show "sub_of (prune_finished_subscriptions c) i =
      (case sub_of c i of Some s \<Rightarrow> if is_finished (sb_task s) then None else Some s | None \<Rightarrow> None)"
    by (auto simp: prune_finished_subscriptions_def Let_def map_of_kept [OF wf] split: option.split)
  have "i \<in> (\<lambda>(_, s). sub_id (sb_request s)) ` set (filter (\<lambda>(_, s). sb_task s = Some JoinPanicked \<and> \<not> sb_task_joined s) (cn_subscriptions c)) \<longleftrightarrow>
      (\<exists>s. sub_of c i = Some s \<and> sb_task s = Some JoinPanicked \<and> \<not> sb_task_joined s)"
    using assms hash.in_set_iff [OF wf] by (fastforce simp: conn_inv_def sub_ok_def image_iff)
  then show "map_of (cn_retired (prune_finished_subscriptions c)) i =
      (if \<exists>s. sub_of c i = Some s \<and> sb_task s = Some JoinPanicked \<and> \<not> sb_task_joined s
       then Some (Err ''connection worker panicked during teardown'') else map_of (cn_retired c) i)"
    unfolding prune_finished_subscriptions_def Let_def by (simp add: fold_receipts(1))
qed

lemma conn_inv_prune:
  assumes c: "conn_inv c"
  shows "conn_inv (prune_finished_subscriptions c)"
proof -
  let ?fs = "filter (\<lambda>(_, s). sb_task s = Some JoinPanicked \<and> \<not> sb_task_joined s) (cn_subscriptions c)"
  let ?c = "c\<lparr>cn_subscriptions := filter (\<lambda>(_, s). \<not> is_finished (sb_task s)) (cn_subscriptions c),
    cn_worker_failure := cn_worker_failure c \<or> ?fs \<noteq> [],
    cn_retired := foldl (\<lambda>m (_, s). AList.update (sub_id (sb_request s)) (Err ''connection worker panicked during teardown'') m)
      (cn_retired c) ?fs\<rparr>"
  have eq: "prune_finished_subscriptions c = refresh_audio ?c" by (simp add: prune_finished_subscriptions_def Let_def)
  have sub: "sub_of ?c i = (case sub_of c i of Some s \<Rightarrow> if is_finished (sb_task s) then None else Some s | None \<Rightarrow> None)"
    and ret: "map_of (cn_retired ?c) i = (if \<exists>s. sub_of c i = Some s \<and> sb_task s = Some JoinPanicked \<and> \<not> sb_task_joined s
       then Some (Err ''connection worker panicked during teardown'') else map_of (cn_retired c) i)" for i
    using pruned [OF c, of i] unfolding eq refresh_fields by (simp_all only:)
  have "conn_inv ?c"
  proof (rule conn_invI [OF c])
    show "hash_wf (cn_subscriptions ?c)" using c by (simp add: conn_inv_def hash_wf_def distinct_map_filter)
    show "hash_wf (cn_retired ?c)" using c by (simp add: conn_inv_def fold_receipts(2))
    show "hash_wf (cn_audio_groups ?c)" using c by (simp add: conn_inv_def)
    show "length (cn_subscriptions ?c) \<le> MAX_SUBSCRIPTIONS"
      using c by (simp add: conn_inv_def le_trans [OF length_filter_le])
    show "sub_ok ?c i s" if "sub_of ?c i = Some s" for i s
      using that c unfolding sub by (auto simp: conn_inv_def sub_ok_def split: option.splits if_splits)
    show "sub_of ?c i = None" if "map_of (cn_retired ?c) i = Some (Ok ())" for i
      using that c unfolding sub ret by (auto simp: conn_inv_def split: if_splits)
    show "known_ids ?c \<subseteq> known_ids c"
      unfolding known_ids_def dom_def sub ret by (auto split: option.splits if_splits)
  qed
  then show ?thesis unfolding eq by (rule conn_inv_refresh)
qed

lemma conn_step_inv: "conn_inv c \<Longrightarrow> conn_inv (conn_step c x)"
  by (cases x) (auto simp: conn_step_def conn_inv_subscribe conn_inv_switch conn_inv_activity conn_inv_paused
      conn_inv_configure conn_inv_unsubscribe conn_inv_prune conn_inv_task_ends intro: conn_inv_cong)

interpretation connection: op_machine conn_step conn_inv
  by unfold_locales (rule conn_step_inv)

lemma connection_new_inv: "conn_inv (connection_new i)"
  by (simp add: conn_inv_def connection_new_def known_ids_def hash_wf_def)


subsection \<open>What a step keeps\<close>

lemma subscribe_keeps:
  "cn_retired (fst (subscribe e r legacy c)) = cn_retired c"
  "cn_versioned_control (fst (subscribe e r legacy c)) = cn_versioned_control c"
  "j \<noteq> sub_id r \<Longrightarrow> sub_of (fst (subscribe e r legacy c)) j = sub_of c j"
  "sub_of c i = Some s \<Longrightarrow> sub_of (fst (subscribe e r legacy c)) i = Some s' \<Longrightarrow> inherits s s'"
  "map_of (cn_retired c) (sub_id r) \<noteq> None \<Longrightarrow> fst (subscribe e r legacy c) = c"
proof -
  let ?c = "fst (subscribe e r legacy c)"
  have *: "cn_retired ?c = cn_retired c \<and> cn_versioned_control ?c = cn_versioned_control c \<and>
      (j \<noteq> sub_id r \<longrightarrow> sub_of ?c j = sub_of c j) \<and>
      (\<forall>s s'. sub_of c (sub_id r) = Some s \<longrightarrow> sub_of ?c (sub_id r) = Some s' \<longrightarrow> inherits s s')" for j
  proof (cases rule: subscribe_cases [of e r legacy c])
    case (running s)
    then have "sub_of c (sub_id r) = Some s" by (simp add: running_capture_def split: option.splits if_splits)
    then show ?thesis using running update_running_inherits by simp
  next
    case (stopped c1 reason)
    then show ?thesis using stop_existing_fields [OF stopped(1)] by (auto simp: option_rel_Some1)
  next
    case (removed c1)
    then show ?thesis using stop_existing_fields [OF removed(1)] by auto
  next
    case (started c1 chosen)
    let ?d = "c1\<lparr>cn_subscriptions := AList.delete (sub_id r) (cn_subscriptions c1)\<rparr>"
    obtain t where t: "sub_of ?c (sub_id r) = Some t" "\<And>s0. sub_of c1 (sub_id r) = Some s0 \<Longrightarrow> inherits s0 t"
      unfolding started(4) using start_capture_fields(5) [of e r legacy chosen "sub_of c1 (sub_id r)" ?d] by auto
    have "inherits s s'" if old: "sub_of c (sub_id r) = Some s" and new: "sub_of ?c (sub_id r) = Some s'" for s s'
    proof -
      obtain s1 where "sub_of c1 (sub_id r) = Some s1" "inherits s s1"
        using stop_existing_fields(5) [OF started(1)] old by (auto simp: option_rel_Some1)
      then show ?thesis using t new inherits_trans by (metis option.inject)
    qed
    moreover have "cn_retired ?c = cn_retired c" "cn_versioned_control ?c = cn_versioned_control c"
      "j \<noteq> sub_id r \<Longrightarrow> sub_of ?c j = sub_of c j"
      unfolding started(4) using stop_existing_fields [OF started(1)] by (simp_all add: start_capture_fields)
    ultimately show ?thesis by blast
  qed auto
  then show "cn_retired ?c = cn_retired c" "cn_versioned_control ?c = cn_versioned_control c"
    "j \<noteq> sub_id r \<Longrightarrow> sub_of ?c j = sub_of c j" by blast+
  show "inherits s s'" if "sub_of c i = Some s" "sub_of ?c i = Some s'"
    using * [of i] that by (cases "i = sub_id r") auto
  show "?c = c" if "map_of (cn_retired c) (sub_id r) \<noteq> None"
    using refusal_none(1) [of r c] that by (cases "subscribe_refusal r c") (simp_all add: subscribe_def Let_def)
qed

text \<open>Only \<open>set_activity\<close> changes what the viewer asked to be paused.\<close>

definition same_activity :: "Subscription \<Rightarrow> Subscription \<Rightarrow> bool" where
  "same_activity s s' \<longleftrightarrow> sb_revision s' = sb_revision s \<and> st_paused (sb_settings s') = st_paused (sb_settings s) \<and>
     sb_audio_active s' = sb_audio_active s \<and> sb_video_sequence s' = sb_video_sequence s"

lemma inherits_same_activity: "inherits s s' \<Longrightarrow> same_activity s s'"
  by (simp add: inherits_def same_activity_def)

definition is_activity :: "conn_op \<Rightarrow> bool" where
  "is_activity x = (case x of OActivity _ _ _ _ \<Rightarrow> True | OPaused _ _ _ \<Rightarrow> True | _ \<Rightarrow> False)"

lemma unsubscribe_sub:
  assumes "sub_of (fst (unsubscribe e j c)) i = Some s'"
  shows "\<exists>t. sub_of c i = Some t \<and> sb_source_revision s' = sb_source_revision t \<and> same_activity t s'"
proof (cases "map_of (cn_retired c) j = None \<and> sub_of c j \<noteq> None")
  case True
  then obtain t where t: "map_of (cn_retired c) j = None" "sub_of c j = Some t" by auto
  let ?c1 = "c\<lparr>cn_retired := AList.update j (Err ''unsubscribe cleanup outcome is unknown'') (cn_retired c)\<rparr>"
  obtain c2 r where owned: "unsubscribe_owned e j t ?c1 = (c2, r)" by force
  have "fst (unsubscribe e j c) = c2\<lparr>cn_retired := AList.update j r (cn_retired c2)\<rparr>"
    using t owned by (simp add: unsubscribe_def)
  then have "sub_of c2 i = Some s'" using assms by simp
  then show ?thesis
    using unsubscribe_owned_fields(2,4) [OF owned] t(2) by (cases "i = j") (auto simp: same_activity_def)
next
  case False
  then have "fst (unsubscribe e j c) = c" by (auto simp: unsubscribe_def split: option.split)
  then show ?thesis using assms by (simp add: same_activity_def)
qed

lemma conn_step_keeps:
  assumes inv: "conn_inv c" and x: "\<not> is_activity x" and s: "sub_of c i = Some s" "sub_of (conn_step c x) i = Some s'"
  shows "same_activity s s'"
proof (cases x)
  case (OSubscribe e r legacy)
  then show ?thesis using s subscribe_keeps(4) [THEN inherits_same_activity] by (simp add: conn_step_def)
next
  case (OSwitch e j q source)
  show ?thesis
  proof (cases rule: switch_source_cases [of e j q source c])
    case (switched r t)
    then show ?thesis
      using s OSwitch subscribe_keeps(4) [of c i s e r False] inherits_same_activity
      by (cases "i = j") (auto simp: conn_step_def same_activity_def inherits_def)
  qed (use s OSwitch subscribe_keeps(4) [THEN inherits_same_activity] in
      \<open>auto simp: conn_step_def same_activity_def\<close>)
next
  case (OUnsubscribe e j)
  then show ?thesis using s unsubscribe_sub [of e j c i s'] by (auto simp: conn_step_def)
next
  case OPrune
  then show ?thesis
    using s pruned(1) [OF inv] by (auto simp: conn_step_def same_activity_def split: option.splits if_splits)
qed (use x s in \<open>auto simp: conn_step_def is_activity_def configure_def task_ends_def same_activity_def Let_def
      split: option.splits if_splits\<close>)


text \<open>The source revision of a living subscription never goes back.\<close>

lemma conn_step_source_revision:
  assumes inv: "conn_inv c" and s: "sub_of c i = Some s" "sub_of (conn_step c x) i = Some s'"
  shows "sb_source_revision s \<le> sb_source_revision s'"
proof (cases x)
  case (OSubscribe e r legacy)
  then show ?thesis using s subscribe_keeps(4) [of c i s e r legacy s'] by (simp add: conn_step_def inherits_def)
next
  case (OSwitch e j q source)
  show ?thesis
  proof (cases "fst (switch_source e j q source c) = c")
    case True
    then show ?thesis using s OSwitch by (simp add: conn_step_def)
  next
    case False
    show ?thesis
    proof (cases rule: switch_source_cases [of e j q source c])
      case (subscribed r)
      then show ?thesis
        using s OSwitch subscribe_keeps(4) [of c i s e r False s'] by (simp add: conn_step_def inherits_def)
    next
      case (switched r t)
      show ?thesis
      proof (cases "i = j")
        case True
        then have "sb_source_revision s < q" "sb_source_revision s' = q"
          using False switched s OSwitch by (auto simp: conn_step_def switch_source_def not_less split: if_splits)
        then show ?thesis by simp
      next
        case False
        then show ?thesis
          using switched s OSwitch subscribe_keeps(4) [of c i s e r False s'] by (simp add: conn_step_def inherits_def)
      qed
    qed (use False in simp)
  qed
next
  case (OUnsubscribe e j)
  then have "\<exists>t. sub_of c i = Some t \<and> sb_source_revision s' = sb_source_revision t"
    using s unsubscribe_sub [of e j c i s'] by (simp add: conn_step_def)
  then show ?thesis using s by simp
next
  case OPrune
  then show ?thesis using s pruned(1) [OF inv] by (auto simp: conn_step_def split: option.splits if_splits)
next
  case (OPaused j revision paused)
  then show ?thesis
    using s by (auto simp: conn_step_def set_media_paused_def set_activity_def Let_def split: option.splits if_splits)
qed (use s in \<open>auto simp: conn_step_def set_activity_def configure_def task_ends_def Let_def
      split: option.splits if_splits\<close>)

lemma accept_input_Some:
  assumes "accept_input probe now inst recv_inst packet c = (c', Some events)"
  shows "\<exists>s slot. sub_of c (subscription_id (ri_binding packet)) = Some s \<and>
    map_of (cn_input_leases c) (subscription_id (ri_binding packet)) = Some slot \<and>
    sb_supports_input s \<and> sb_task s = None \<and> \<not> st_paused (sb_settings s) \<and>
    sb_input_target s = Some (ls_target slot) \<and> probe (ls_target slot) = Ok () \<and>
    connection_id (ri_binding packet) = cn_id c \<and> source_revision (ri_binding packet) = sb_source_revision s \<and>
    snd (lease_accept (ls_lease slot) packet now inst recv_inst) = Some events"
proof -
  let ?i = "subscription_id (ri_binding packet)"
  obtain rev target where sig: "input_signature probe c ?i = Some (rev, target)"
    using assms by (auto simp: accept_input_def Let_def split: option.splits)
  then obtain s where s: "sub_of c ?i = Some s" "sb_source_revision s = rev" "sb_input_target s = Some target"
      "supports_input_now probe s" "\<not> is_finished (sb_task s)" "\<not> st_paused (sb_settings s)"
    by (auto simp: input_signature_def can_input_def split: if_splits option.splits)
  have "sb_supports_input s \<and> probe target = Ok ()"
    using s(3,4) by (cases "probe target") (auto simp: supports_input_now_def input_status_def split: if_splits)
  then show ?thesis
    using assms sig s
    by (auto simp: accept_input_def Let_def is_finished_def split: option.splits if_splits prod.splits)
qed

subsection \<open>Receipts\<close>

lemma unsubscribe_receipts:
  "j \<noteq> i \<Longrightarrow> map_of (cn_retired (fst (unsubscribe e i c))) j = map_of (cn_retired c) j"
  "map_of (cn_retired c) i = Some r \<Longrightarrow> unsubscribe e i c = (c, r)"
  "sub_of c j = None \<Longrightarrow> sub_of (fst (unsubscribe e i c)) j = None"
proof -
  show known: "unsubscribe e i c = (c, r)" if "map_of (cn_retired c) i = Some r" for r
    using that by (simp add: unsubscribe_def)
  have *: "j \<noteq> i \<longrightarrow> map_of (cn_retired (fst (unsubscribe e i c))) j = map_of (cn_retired c) j"
    "sub_of c j = None \<longrightarrow> sub_of (fst (unsubscribe e i c)) j = None"
  proof (atomize (full), cases "map_of (cn_retired c) i = None \<and> sub_of c i \<noteq> None")
    case True
    then obtain t where t: "map_of (cn_retired c) i = None" "sub_of c i = Some t" by auto
    let ?c1 = "c\<lparr>cn_retired := AList.update i (Err ''unsubscribe cleanup outcome is unknown'') (cn_retired c)\<rparr>"
    obtain c2 r where owned: "unsubscribe_owned e i t ?c1 = (c2, r)" by force
    have "fst (unsubscribe e i c) = c2\<lparr>cn_retired := AList.update i r (cn_retired c2)\<rparr>"
      using t owned by (simp add: unsubscribe_def)
    then show "(j \<noteq> i \<longrightarrow> map_of (cn_retired (fst (unsubscribe e i c))) j = map_of (cn_retired c) j) \<and>
        (sub_of c j = None \<longrightarrow> sub_of (fst (unsubscribe e i c)) j = None)"
      using unsubscribe_owned_fields [OF owned] t by (cases "j = i") auto
  next
    case False
    then have "fst (unsubscribe e i c) = c" by (auto simp: unsubscribe_def split: option.split)
    then show "(j \<noteq> i \<longrightarrow> map_of (cn_retired (fst (unsubscribe e i c))) j = map_of (cn_retired c) j) \<and>
        (sub_of c j = None \<longrightarrow> sub_of (fst (unsubscribe e i c)) j = None)" by simp
  qed
  show "j \<noteq> i \<Longrightarrow> map_of (cn_retired (fst (unsubscribe e i c))) j = map_of (cn_retired c) j" by (rule *(1) [rule_format])
  show "sub_of c j = None \<Longrightarrow> sub_of (fst (unsubscribe e i c)) j = None" by (rule *(2) [rule_format])
qed

lemma subscribe_retired_id:
  assumes "map_of (cn_retired c) i \<noteq> None" "sub_of c i = None"
  shows "sub_of (fst (subscribe e r legacy c)) i = None"
  using assms subscribe_keeps(3) [of i r e legacy c] subscribe_keeps(5) [of c r e legacy] by (cases "i = sub_id r") simp_all

lemma switch_source_keeps:
  "cn_retired (fst (switch_source e j q source c)) = cn_retired c"
  "map_of (cn_retired c) i \<noteq> None \<Longrightarrow> sub_of c i = None \<Longrightarrow> sub_of (fst (switch_source e j q source c)) i = None"
  by (cases rule: switch_source_cases [of e j q source c];
      auto simp: subscribe_keeps(1) subscribe_retired_id dest: subscribe_retired_id [of c i e])+

lemma set_activity_keeps:
  "cn_retired (fst (set_activity i revision video audio c)) = cn_retired c"
  "sub_of c j = None \<Longrightarrow> sub_of (fst (set_activity i revision video audio c)) j = None"
  by (auto simp: set_activity_def Let_def split: option.split)

text \<open>A retired identifier: the receipt keeps its verdict and no capture starts under it.\<close>

definition settled :: "u32 \<Rightarrow> bool \<Rightarrow> Connection \<Rightarrow> bool" where
  "settled i ok c \<longleftrightarrow> (\<exists>r. map_of (cn_retired c) i = Some r \<and> is_ok r = ok)"

lemma step_retired:
  assumes "conn_inv c" "map_of (cn_retired c) i \<noteq> None"
  shows "(sub_of c i = None \<longrightarrow> sub_of (conn_step c x) i = None) \<and>
    (map_of (cn_retired (conn_step c x)) i = map_of (cn_retired c) i \<or>
     sub_of c i \<noteq> None \<and> map_of (cn_retired (conn_step c x)) i = Some (Err ''connection worker panicked during teardown''))"
proof (cases x)
  case (OUnsubscribe e j)
  obtain r where "map_of (cn_retired c) i = Some r" using assms(2) by auto
  then show ?thesis
    using unsubscribe_receipts(1) [of i j e c] unsubscribe_receipts(2) [of c i r e] unsubscribe_receipts(3) [of c i e j]
    by (cases "i = j") (auto simp: conn_step_def OUnsubscribe)
next
  case OPrune
  then show ?thesis using pruned [OF assms(1), of i] by (auto simp: conn_step_def split: option.splits)
next
  case (OSubscribe e r legacy)
  then show ?thesis
    using subscribe_retired_id [OF assms(2)] by (simp add: conn_step_def subscribe_keeps(1))
next
  case (OSwitch e j q source)
  then show ?thesis using switch_source_keeps(2) [OF assms(2)] by (simp add: conn_step_def switch_source_keeps(1))
next
  case (OActivity j revision video audio)
  then show ?thesis by (simp add: conn_step_def set_activity_keeps)
next
  case (OPaused j revision paused)
  then show ?thesis by (simp add: conn_step_def set_media_paused_def Let_def set_activity_keeps)
qed (auto simp: conn_step_def configure_def task_ends_def Let_def split: option.splits)


lemma settled_step:
  assumes "conn_inv c" "settled i ok c"
  shows "settled i ok (conn_step c x)" "sub_of c i = None \<Longrightarrow> sub_of (conn_step c x) i = None"
proof -
  obtain r where r: "map_of (cn_retired c) i = Some r" "is_ok r = ok" using assms(2) by (auto simp: settled_def)
  have "is_ok r \<longrightarrow> sub_of c i = None" using assms(1) r(1) by (cases r) (auto simp: conn_inv_def)
  then show "settled i ok (conn_step c x)"
    using step_retired [OF assms(1), of i x] r by (auto simp: settled_def)
  show "sub_of c i = None \<Longrightarrow> sub_of (conn_step c x) i = None"
    using step_retired [OF assms(1), of i x] r by simp
qed

interpretation settled_ids: op_machine conn_step "\<lambda>c. conn_inv c \<and> settled i ok c" for i ok
  by unfold_locales (blast intro: conn_step_inv settled_step)

subsection \<open>Viewer and host\<close>

text \<open>
  The viewer's pause control and the host's connection with the messages between them.  Messages may be
  lost, delayed, repeated and reordered: a sent message stays available for delivery.
\<close>

record 'a pause_system =
  px_viewer :: "'a PauseState"
  px_host :: Connection
  px_requests :: "(u64 \<times> bool) list"
  px_acks :: "(u64 \<times> bool) list"

datatype pause_op = XSet bool | XSend nat | XRequest nat | XAck nat | XHost conn_op

definition pause_step :: "'a pause_system \<Rightarrow> pause_op \<Rightarrow> 'a pause_system" where
  "pause_step x m =
     (let v = px_viewer x; h = px_host x; i = ps_session_id v in
      case m of
        XSet paused \<Rightarrow> x\<lparr>px_viewer := the (snd (set_paused paused (Some v)))\<rparr>
      | XSend now \<Rightarrow>
          (case take_request now (Some v) of
             (Some (CM_SetMediaPaused _ r p, _), Some v') \<Rightarrow> x\<lparr>px_viewer := v', px_requests := (r, p) # px_requests x\<rparr>
           | _ \<Rightarrow> x)
      | XRequest n \<Rightarrow>
          if n < length (px_requests x) then
            (case px_requests x ! n of (r, p) \<Rightarrow>
               (case set_media_paused i r p h of
                  (h', Some (CM_MediaPauseState _ r' p')) \<Rightarrow> x\<lparr>px_host := h', px_acks := (r', p') # px_acks x\<rparr>
                | (h', _) \<Rightarrow> x\<lparr>px_host := h'\<rparr>))
          else x
      | XAck n \<Rightarrow>
          if n < length (px_acks x) then
            (case px_acks x ! n of (r, p) \<Rightarrow> x\<lparr>px_viewer := the (acknowledge (ps_target v) i r p (Some v))\<rparr>)
          else x
      | XHost y \<Rightarrow>
          if \<not> is_activity y \<and> sub_of (conn_step h y) i \<noteq> None then x\<lparr>px_host := conn_step h y\<rparr> else x)"

text \<open>Nothing in flight is newer than the viewer's revision, and what carries that revision carries its state.\<close>

definition pause_inv :: "nat \<Rightarrow> 'a pause_system \<Rightarrow> bool" where
  "pause_inv k x \<longleftrightarrow>
     (let v = px_viewer x; rev = ps_revision v; agree = (\<lambda>(r, p). r \<le> rev \<and> (r = rev \<longrightarrow> p = ps_paused v)) in
      conn_inv (px_host x) \<and> unat rev \<le> k \<and> (\<forall>q\<in>set (px_requests x). agree q) \<and>
      (\<exists>s. sub_of (px_host x) (ps_session_id v) = Some s \<and> agree (sb_revision s, st_paused (sb_settings s)) \<and>
         (\<forall>q\<in>set (px_acks x). agree q \<and> fst q \<le> sb_revision s) \<and> (ps_acknowledged v \<longrightarrow> sb_revision s = rev)))"

lemma host_applies_pause:
  assumes "sub_of c i = Some s" "\<not> cn_versioned_control c"
  shows "\<exists>s'. sub_of (fst (set_media_paused i r p c)) i = Some s' \<and>
      snd (set_media_paused i r p c) = Some (CM_MediaPauseState i (sb_revision s') (st_paused (sb_settings s'))) \<and>
      (if r > sb_revision s then sb_revision s' = r \<and> st_paused (sb_settings s') = p
       else sb_revision s' = sb_revision s \<and> st_paused (sb_settings s') = st_paused (sb_settings s))"
  using assms by (simp add: set_media_paused_def set_activity_def Let_def)

lemma versioned_inert: "cn_versioned_control c \<Longrightarrow> set_media_paused i r p c = (c, None)"
  by (simp add: set_media_paused_def)

lemma pause_step_inv:
  assumes inv: "pause_inv k x" and k: "Suc k < 2 ^ 64"
  shows "pause_inv (Suc k) (pause_step x m)"
proof -
  let ?v = "px_viewer x"
  obtain s where s: "sub_of (px_host x) (ps_session_id ?v) = Some s"
    and c: "conn_inv (px_host x)" and n: "unat (ps_revision ?v) \<le> k"
    using inv by (auto simp: pause_inv_def Let_def)
  have grow: "r \<le> ps_revision ?v \<Longrightarrow> r \<le> ps_revision ?v + 1 \<and> r \<noteq> ps_revision ?v + 1" for r
    using n k unat_add_no_overflow [of "ps_revision ?v" 1] by (auto simp: word_le_nat_alt)
  have up: "unat (ps_revision ?v + 1) \<le> Suc k"
    using n k unat_add_no_overflow [of "ps_revision ?v" 1] by simp
  show ?thesis
  proof (cases m)
    case (XSet p)
    show ?thesis
    proof (cases "ps_paused ?v = p")
      case True
      then have "pause_step x m = x" using XSet by (simp add: pause_step_def Let_def set_paused_def)
      then show ?thesis using inv by (auto simp: pause_inv_def Let_def)
    next
      case False
      then have step: "pause_step x m = x\<lparr>px_viewer := ?v\<lparr>ps_paused := p, ps_revision := ps_revision ?v + 1,
          ps_acknowledged := False, ps_last_sent := None\<rparr>\<rparr>"
        using XSet by (simp add: pause_step_def Let_def set_paused_def)
      have old: "\<forall>q\<in>set (px_requests x). fst q \<le> ps_revision ?v"
        "\<forall>q\<in>set (px_acks x). fst q \<le> ps_revision ?v \<and> fst q \<le> sb_revision s" "sb_revision s \<le> ps_revision ?v"
        using inv s by (auto simp: pause_inv_def Let_def case_prod_beta)
      have "\<forall>q\<in>set (px_requests x). fst q \<le> ps_revision ?v + 1 \<and> fst q \<noteq> ps_revision ?v + 1"
        "\<forall>q\<in>set (px_acks x). fst q \<le> ps_revision ?v + 1 \<and> fst q \<noteq> ps_revision ?v + 1 \<and> fst q \<le> sb_revision s"
        "sb_revision s \<le> ps_revision ?v + 1 \<and> sb_revision s \<noteq> ps_revision ?v + 1"
        using old grow by blast+
      then show ?thesis
        unfolding step pause_inv_def Let_def using up c s by (auto simp: case_prod_beta)
    qed
  next
    case (XSend now)
    then show ?thesis
      using inv by (auto simp: pause_inv_def pause_step_def Let_def take_request_def split: if_splits option.splits)
  next
    case (XRequest i)
    show ?thesis
    proof (cases "i < length (px_requests x) \<and> \<not> cn_versioned_control (px_host x)")
      case True
      obtain r p where rp: "px_requests x ! i = (r, p)" by force
      then have mem: "(r, p) \<in> set (px_requests x)" using True by (metis nth_mem)
      obtain s' where s': "sub_of (fst (set_media_paused (ps_session_id ?v) r p (px_host x))) (ps_session_id ?v) = Some s'"
          "snd (set_media_paused (ps_session_id ?v) r p (px_host x)) =
             Some (CM_MediaPauseState (ps_session_id ?v) (sb_revision s') (st_paused (sb_settings s')))"
          "if r > sb_revision s then sb_revision s' = r \<and> st_paused (sb_settings s') = p
           else sb_revision s' = sb_revision s \<and> st_paused (sb_settings s') = st_paused (sb_settings s)"
        using host_applies_pause [OF s] True by blast
      have step: "pause_step x m = x\<lparr>px_host := fst (set_media_paused (ps_session_id ?v) r p (px_host x)),
          px_acks := (sb_revision s', st_paused (sb_settings s')) # px_acks x\<rparr>"
        using s'(2) True rp XRequest
        by (cases "set_media_paused (ps_session_id ?v) r p (px_host x)") (simp add: pause_step_def Let_def)
      show ?thesis
        unfolding step pause_inv_def Let_def
        using inv s s'(1,3) mem conn_inv_paused [OF c] by (force simp: pause_inv_def Let_def split: if_splits)
    next
      case False
      then have "pause_step x m = x"
        using XRequest by (auto simp: pause_step_def Let_def versioned_inert split: prod.split)
      then show ?thesis using inv by (auto simp: pause_inv_def Let_def)
    qed
  next
    case (XAck i)
    show ?thesis
    proof (cases "i < length (px_acks x) \<and> px_acks x ! i = (ps_revision ?v, ps_paused ?v)")
      case True
      then have mem: "(ps_revision ?v, ps_paused ?v) \<in> set (px_acks x)" by (metis nth_mem)
      then have now: "sb_revision s = ps_revision ?v" using inv s by (force simp: pause_inv_def Let_def)
      have "pause_step x m = x\<lparr>px_viewer := ?v\<lparr>ps_acknowledged := True\<rparr>\<rparr>"
        using True XAck by (simp add: pause_step_def Let_def acknowledge_def)
      then show ?thesis using inv s now by (simp add: pause_inv_def Let_def)
    next
      case False
      then have "pause_step x m = x"
        using XAck by (auto simp: pause_step_def Let_def acknowledge_def split: prod.split)
      then show ?thesis using inv by (auto simp: pause_inv_def Let_def)
    qed
  next
    case (XHost y)
    show ?thesis
    proof (cases "\<not> is_activity y \<and> sub_of (conn_step (px_host x) y) (ps_session_id ?v) \<noteq> None")
      case True
      then obtain s' where s': "sub_of (conn_step (px_host x) y) (ps_session_id ?v) = Some s'" by auto
      have "same_activity s s'" using conn_step_keeps [OF c _ s s'] True by simp
      then show ?thesis
        using inv s s' XHost True conn_step_inv [OF c]
        by (auto simp: pause_inv_def pause_step_def Let_def same_activity_def)
    next
      case False
      then show ?thesis using inv XHost by (auto simp: pause_inv_def pause_step_def Let_def)
    qed
  qed
qed

lemma pause_run_inv:
  "pause_inv k x \<Longrightarrow> k + length ms < 2 ^ 64 \<Longrightarrow> pause_inv (k + length ms) (foldl pause_step x ms)"
proof (induction ms arbitrary: k x)
  case (Cons m ms)
  then show ?case using pause_step_inv [of k x m] Cons.IH [of "Suc k" "pause_step x m"] by simp
qed simp

lemma pause_step_session: "ps_session_id (px_viewer (pause_step x m)) = ps_session_id (px_viewer x)"
  by (cases m) (auto simp: pause_step_def Let_def set_paused_def take_request_def acknowledge_def
      split: option.splits prod.splits ControlMessage.splits if_splits)

lemma exchange_settles:
  assumes versioned: "\<not> cn_versioned_control (px_host y)" and due: "retry_wait now (Some (px_viewer y)) = Some 0"
    and t: "sub_of (px_host y) (ps_session_id (px_viewer y)) = Some t" "sb_revision t \<le> ps_revision (px_viewer y)"
      "sb_revision t = ps_revision (px_viewer y) \<longrightarrow> st_paused (sb_settings t) = ps_paused (px_viewer y)"
  shows "\<not> is_pending (Some (px_viewer (foldl pause_step y [XSend now, XRequest 0, XAck 0])))"
proof -
  let ?v = "px_viewer y" and ?i = "ps_session_id (px_viewer y)"
  let ?y1 = "y\<lparr>px_viewer := ?v\<lparr>ps_last_sent := Some now\<rparr>, px_requests := (ps_revision ?v, ps_paused ?v) # px_requests y\<rparr>"
  have "\<not> ps_acknowledged ?v" "case ps_last_sent ?v of None \<Rightarrow> True | Some t \<Rightarrow> PAUSE_RETRY \<le> now - t"
    using due by (auto simp: retry_wait_def PAUSE_RETRY_def split: if_splits option.splits)
  then have one: "pause_step y (XSend now) = ?y1"
    by (auto simp: pause_step_def take_request_def Let_def split: option.splits)
  obtain s' :: Subscription where s': "snd (set_media_paused ?i (ps_revision ?v) (ps_paused ?v) (px_host y)) =
        Some (CM_MediaPauseState ?i (sb_revision s') (st_paused (sb_settings s')))"
    and applied: "if ps_revision ?v > sb_revision t then sb_revision s' = ps_revision ?v \<and> st_paused (sb_settings s') = ps_paused ?v
      else sb_revision s' = sb_revision t \<and> st_paused (sb_settings s') = st_paused (sb_settings t)"
    using host_applies_pause [OF t(1) versioned, of "ps_revision ?v" "ps_paused ?v"] by blast
  have t': "sb_revision s' = ps_revision ?v" "st_paused (sb_settings s') = ps_paused ?v"
    using applied t(2,3) by (cases "ps_revision ?v > sb_revision t"; simp)+
  have two: "pause_step ?y1 (XRequest 0) =
      ?y1\<lparr>px_host := fst (set_media_paused ?i (ps_revision ?v) (ps_paused ?v) (px_host y)),
        px_acks := (ps_revision ?v, ps_paused ?v) # px_acks y\<rparr>"
    using s' t' by (cases "set_media_paused ?i (ps_revision ?v) (ps_paused ?v) (px_host y)") (simp add: pause_step_def Let_def)
  have "ps_acknowledged (px_viewer (pause_step (?y1\<lparr>px_host := h, px_acks := (ps_revision ?v, ps_paused ?v) # as\<rparr>) (XAck 0)))" for h as
    by (simp add: pause_step_def Let_def acknowledge_def)
  then show ?thesis by (simp add: one two is_pending_def)
qed

section \<open>Properties\<close>

text \<open>
  C26. A connection stays within its limits.  Whatever commands arrive and however its tasks end, it has at most
  eight captures, at most 4103 receipts, identifiers in range, and every capture with audio has a running
  group.
\<close>

theorem host_connection_bounded:
  fixes ops :: "conn_op list" and i :: u32
  defines "c \<equiv> foldl conn_step (connection_new i) ops"
  shows "length (cn_subscriptions c) \<le> 8 \<and> length (cn_retired c) \<le> 4103 \<and> distinct (map fst (cn_subscriptions c)) \<and>
    (\<forall>(j, s) \<in> set (cn_subscriptions c). sub_id (sb_request s) = j \<and> 0 < j \<and> j < 0x10000000 \<and>
       (case sb_audio_group s of None \<Rightarrow> True | Some k \<Rightarrow> k \<in> fst ` set (cn_audio_groups c)))"
proof -
  have inv: "conn_inv c" unfolding c_def by (rule connection.run_inv [OF connection_new_inv])
  then have wf: "hash_wf (cn_subscriptions c)" "hash_wf (cn_retired c)" and card: "card (known_ids c) \<le> 4103" "finite (known_ids c)"
    by (simp_all add: conn_inv_def)
  have "card (dom (map_of (cn_retired c))) \<le> card (known_ids c)"
    using card(2) by (intro card_mono) (auto simp: known_ids_def)
  then have "length (cn_retired c) \<le> 4103" using card(1) hash.size_dom [OF wf(2)] by simp
  moreover have "sub_ok c j s" if "(j, s) \<in> set (cn_subscriptions c)" for j s
    using inv that hash.in_set_iff [OF wf(1)] by (simp add: conn_inv_def)
  then have "\<forall>(j, s) \<in> set (cn_subscriptions c). sub_id (sb_request s) = j \<and> 0 < j \<and> j < 0x10000000 \<and>
       (case sb_audio_group s of None \<Rightarrow> True | Some k \<Rightarrow> k \<in> fst ` set (cn_audio_groups c))"
    by (fastforce simp: sub_ok_def word_gt_0 map_of_eq_None_iff split: option.split)
  ultimately show ?thesis using inv by (simp add: conn_inv_def hash_wf_def MAX_SUBSCRIPTIONS_def)
qed

text \<open>
  C25. Ending a capture is final.  After an unsubscribe the verdict, confirmed or not, never changes whatever
  happens next, every further unsubscribe reports that verdict, and after a confirmed one no capture ever
  runs under that identifier again.
\<close>

theorem unsubscribe_is_final:
  fixes more :: "conn_op list" and i :: u32 and e e' :: unsub_env
  assumes inv: "conn_inv c" and known: "sub_of c i \<noteq> None"
  defines "r \<equiv> snd (unsubscribe e i c)"
  defines "c' \<equiv> foldl conn_step (fst (unsubscribe e i c)) more"
  shows "is_ok (snd (unsubscribe e' i c')) = is_ok r \<and> (is_ok r \<longrightarrow> sub_of c' i = None)"
proof -
  let ?c = "fst (unsubscribe e i c)"
  have c: "conn_inv ?c" by (rule conn_inv_unsubscribe [OF inv])
  have "map_of (cn_retired ?c) i = Some r"
    using known by (auto simp: unsubscribe_def r_def Let_def split: option.splits prod.splits)
  then have s: "settled i (is_ok r) ?c" by (simp add: settled_def)
  then have "conn_inv c'" and s': "settled i (is_ok r) c'"
    using settled_ids.run_inv [of ?c i "is_ok r" more] c by (simp_all add: c'_def)
  then obtain r' where r': "map_of (cn_retired c') i = Some r'" "is_ok r' = is_ok r" by (auto simp: settled_def)
  then have "is_ok r \<longrightarrow> sub_of c' i = None" using \<open>conn_inv c'\<close> by (cases r') (auto simp: conn_inv_def)
  then show ?thesis using unsubscribe_receipts(2) [OF r'(1)] r'(2) by simp
qed



text \<open>
  C24. Viewer and host agree on what is paused.  Start from a new session whose capture runs unpaused; let the
  viewer pause and resume, let requests and answers be lost, repeated and reordered, and let the host serve
  any other command in between (as long as the capture lives).  Whenever the viewer's control is not
  pending, the host's capture is paused exactly if the viewer wants it; and from any state one undisturbed
  exchange of request and answer settles it.
\<close>

theorem pause_agreement:
  fixes x :: "'a pause_system" and ms :: "pause_op list"
  assumes viewer: "Some (px_viewer x) = begin_session target i" and flight: "px_requests x = []" "px_acks x = []"
    and host: "conn_inv (px_host x)" "sub_of (px_host x) i = Some s" "sb_revision s = 0" "\<not> st_paused (sb_settings s)"
    and len: "length ms + 3 < 2 ^ 64"
  defines "y \<equiv> foldl pause_step x ms"
  shows "\<exists>t. sub_of (px_host y) i = Some t \<and>
    (\<not> is_pending (Some (px_viewer y)) \<longrightarrow> st_paused (sb_settings t) = is_paused (Some (px_viewer y))) \<and>
    (\<forall>now. \<not> cn_versioned_control (px_host y) \<longrightarrow> retry_wait now (Some (px_viewer y)) = Some 0 \<longrightarrow>
       \<not> is_pending (Some (px_viewer (foldl pause_step y [XSend now, XRequest 0, XAck 0]))))"
proof -
  have v: "px_viewer x = \<lparr>ps_target = target, ps_session_id = i, ps_revision = 0, ps_paused = False,
      ps_acknowledged = True, ps_last_sent = None\<rparr>"
    using viewer by (simp add: begin_session_def)
  have "pause_inv 0 x" using host flight by (simp add: pause_inv_def v Let_def)
  then have inv: "pause_inv (length ms) y" using pause_run_inv [of 0 x ms] len by (simp add: y_def)
  have id: "ps_session_id (px_viewer (foldl pause_step z ns)) = ps_session_id (px_viewer z)" for z :: "'a pause_system" and ns
    by (induction ns arbitrary: z) (simp_all add: pause_step_session)
  then have yi: "ps_session_id (px_viewer y) = i" by (simp add: y_def v)
  obtain t where t: "sub_of (px_host y) i = Some t" "sb_revision t \<le> ps_revision (px_viewer y)"
      "sb_revision t = ps_revision (px_viewer y) \<longrightarrow> st_paused (sb_settings t) = ps_paused (px_viewer y)"
      "ps_acknowledged (px_viewer y) \<longrightarrow> sb_revision t = ps_revision (px_viewer y)"
    using inv by (auto simp: pause_inv_def Let_def yi)
  have "\<not> is_pending (Some (px_viewer (foldl pause_step y [XSend now, XRequest 0, XAck 0])))"
    if versioned: "\<not> cn_versioned_control (px_host y)" and due: "retry_wait now (Some (px_viewer y)) = Some 0" for now
    using exchange_settles [OF versioned due] t yi by auto
  then show ?thesis using t by (auto simp: is_pending_def is_paused_def)
qed


text \<open>
  Input reaches only the source it was meant for.  A packet is accepted only while its subscription
  captures, is not paused and may be controlled, for the connection, source revision and target of its
  binding; so once the source has moved on, no packet bound to an earlier revision is ever accepted again,
  for as long as the subscription lives.
\<close>

theorem input_fenced_by_source:
  assumes inv: "conn_inv c" and s: "sub_of c i = Some s"
    and alive: "\<And>k. k \<le> length ops \<Longrightarrow> sub_of (foldl conn_step c (take k ops)) i \<noteq> None"
    and packet: "subscription_id (ri_binding packet) = i" "source_revision (ri_binding packet) < sb_source_revision s"
  shows "snd (accept_input probe now inst recv_inst packet (foldl conn_step c ops)) = None"
proof -
  have mono: "\<exists>t. sub_of (foldl conn_step c (take k ops)) i = Some t \<and> sb_source_revision s \<le> sb_source_revision t"
    if "k \<le> length ops" for k
    using that
  proof (induction k)
    case (Suc k)
    then obtain t where t: "sub_of (foldl conn_step c (take k ops)) i = Some t" "sb_source_revision s \<le> sb_source_revision t"
      by auto
    obtain t' where t': "sub_of (foldl conn_step c (take (Suc k) ops)) i = Some t'" using alive [OF Suc.prems] by auto
    have "conn_inv (foldl conn_step c (take k ops))" by (rule connection.run_inv [OF inv])
    moreover have "foldl conn_step c (take (Suc k) ops) = conn_step (foldl conn_step c (take k ops)) (ops ! k)"
      using Suc.prems by (simp add: take_Suc_conv_app_nth)
    ultimately have "sb_source_revision t \<le> sb_source_revision t'"
      using conn_step_source_revision t(1) t' by metis
    then show ?case using t' t(2) by (auto intro: order_trans)
  qed (use s in simp)
  then obtain t where t: "sub_of (foldl conn_step c ops) i = Some t" "sb_source_revision s \<le> sb_source_revision t"
    using mono [of "length ops"] by auto
  show ?thesis
  proof (rule ccontr)
    assume "snd (accept_input probe now inst recv_inst packet (foldl conn_step c ops)) \<noteq> None"
    then obtain c' ev where "accept_input probe now inst recv_inst packet (foldl conn_step c ops) = (c', Some ev)"
      by (metis option.exhaust prod.collapse)
    from accept_input_Some [OF this] have "source_revision (ri_binding packet) = sb_source_revision t"
      using t(1) packet(1) by auto
    then show False using packet(2) t(2) by simp
  qed
qed

text \<open>
  The receipt of an unconfirmed unsubscribe is not immutable, though its verdict is: when the task that
  could not be joined in time turns out to have panicked, the sweep replaces the reason.
\<close>

lemma receipt_reason_changes:
  "\<exists>c e i. conn_inv c \<and> snd (unsubscribe e i (conn_step (conn_step (fst (unsubscribe e i c)) (OTaskEnds i JoinPanicked)) OPrune)) \<noteq>
     snd (unsubscribe e i c)"
proof -
  let ?s = "\<lparr>sb_settings_revision = 0, sb_request = \<lparr>sub_id = 1, sub_source = MainDisplay, sub_width = 640,
      sub_height = 480, sub_fps = 30, sub_bitrate_kbps = 1000, sub_audio = False\<rparr>,
    sb_settings = \<lparr>st_width = 640, st_height = 480, st_fps = 30, st_bitrate_kbps = 1000, st_paused = False\<rparr>,
    sb_revision = 0, sb_keyframe = True, sb_cancelled = False, sb_task = None, sb_task_joined = False,
    sb_audio_group = None, sb_audio_active = True, sb_supports_input = False, sb_input_target = None,
    sb_source_revision = 0, sb_video_sequence = 0\<rparr>"
  let ?c = "(connection_new 7)\<lparr>cn_subscriptions := [(1, ?s)]\<rparr>"
  let ?e = "\<lparr>ue_join = None, ue_retiring = [], ue_stops_done = True, ue_stop_errors = 0\<rparr>"
  have "conn_inv ?c"
    by (auto simp: conn_inv_def connection_new_def known_ids_def hash_wf_def sub_ok_def MAX_SUBSCRIPTIONS_def split: if_splits)
  moreover have "snd (unsubscribe ?e 1 (conn_step (conn_step (fst (unsubscribe ?e 1 ?c)) (OTaskEnds 1 JoinPanicked)) OPrune)) \<noteq>
      snd (unsubscribe ?e 1 ?c)"
    by (simp add: unsubscribe_def unsubscribe_owned_def connection_new_def conn_step_def task_ends_def
        prune_finished_subscriptions_def refresh_audio_def is_finished_def Let_def)
  ultimately show ?thesis by blast
qed

section \<open>Witnesses\<close>

definition demo_request :: SubscriptionRequest where
  "demo_request = \<lparr>sub_id = 1, sub_source = MainDisplay, sub_width = 640, sub_height = 480, sub_fps = 30,
     sub_bitrate_kbps = 1000, sub_audio = False\<rparr>"

definition demo_sub_env :: sub_env where
  "demo_sub_env = \<lparr>se_preflight = Ok (), se_catalog = Ok [], se_join = Some JoinCancelled, se_stops_done = True,
     se_stop_errors = 0, se_delivery_ended = False, se_sequence = 0, se_audio_tasks = [], se_microphone = False,
     se_probe = \<lambda>_. Ok ()\<rparr>"

definition demo_connection :: Connection where
  "demo_connection = fst (subscribe demo_sub_env demo_request False (connection_new 7))"

lemma demo_connection_inv: "conn_inv demo_connection"
  unfolding demo_connection_def by (rule conn_inv_subscribe [OF connection_new_inv])

lemma demo_connection_sub:
  "\<exists>s. sub_of demo_connection 1 = Some s \<and> sb_revision s = 0 \<and> \<not> st_paused (sb_settings s) \<and> \<not> sb_task_joined s"
proof -
  have "\<not> (0x10000000 :: u32) \<le> 1" by (simp add: word_le_nat_alt)
  then show ?thesis
    by (simp add: demo_connection_def subscribe_def subscribe_refusal_def demo_request_def demo_sub_env_def
        connection_new_def validate_video_settings_def oversize_def running_capture_def replace_capture_def
        stop_existing_def start_capture_def Let_def MAX_SUBSCRIPTIONS_def)
qed

theorem unsubscribe_is_final_witness:
  "\<not> is_ok (snd (unsubscribe \<lparr>ue_join = Some JoinOk, ue_retiring = [], ue_stops_done = True, ue_stop_errors = 0\<rparr> 1
     (foldl conn_step (fst (unsubscribe \<lparr>ue_join = None, ue_retiring = [], ue_stops_done = True, ue_stop_errors = 0\<rparr> 1 demo_connection))
       [OTaskEnds 1 JoinOk, OPrune])))"
proof -
  let ?e = "\<lparr>ue_join = None, ue_retiring = [], ue_stops_done = True, ue_stop_errors = 0\<rparr>"
  obtain s where s: "sub_of demo_connection 1 = Some s" "\<not> sb_task_joined s" using demo_connection_sub by blast
  have "cn_retired demo_connection = []"
    by (simp add: demo_connection_def subscribe_keeps connection_new_def)
  then have "\<not> is_ok (snd (unsubscribe ?e 1 demo_connection))"
    using s by (simp add: unsubscribe_def unsubscribe_owned_def Let_def)
  moreover have "sub_of demo_connection 1 \<noteq> None" using s by simp
  ultimately show ?thesis by (simp only: conjunct1 [OF unsubscribe_is_final [OF demo_connection_inv]] not_False_eq_True)
qed

text \<open>A packet for source revision 3 at a subscription that has moved on to revision 9.\<close>

theorem input_fenced_by_source_witness:
  "snd (accept_input (\<lambda>_. Ok ()) 1000 0 0
     \<lparr>ri_binding = \<lparr>connection_id = 7, subscription_id = 1, source_revision = 3, epoch = []\<rparr>, ri_sequence = 1,
      ri_created_host_ms = 999, ri_payload = PayloadRelease\<rparr>
     (foldl conn_step (put_sub 1 (the (sub_of demo_connection 1)\<lparr>sb_source_revision := 9\<rparr>) demo_connection) [])) = None"
proof -
  obtain s where s: "sub_of demo_connection 1 = Some s" using demo_connection_sub by blast
  let ?t = "s\<lparr>sb_source_revision := 9\<rparr>"
  have c: "conn_inv (put_sub 1 ?t demo_connection)"
    by (rule conn_inv_put [OF demo_connection_inv s]) simp_all
  have t: "sub_of (put_sub 1 ?t demo_connection) 1 = Some ?t" by simp
  have "(3 :: u32) < sb_source_revision ?t" by (simp add: word_less_nat_alt)
  then show ?thesis
    unfolding s option.sel using input_fenced_by_source [OF c t, of "[]"] by simp
qed

text \<open>A pause that reaches the host, whose answer reaches the viewer.\<close>

theorem pause_agreement_witness:
  "\<exists>t. sub_of (px_host (foldl pause_step
      \<lparr>px_viewer = the (begin_session (0 :: nat) 1), px_host = demo_connection, px_requests = [], px_acks = []\<rparr>
      [XSet True, XSend 5, XRequest 0, XAck 0])) 1 = Some t"
proof -
  obtain s where s: "sub_of demo_connection 1 = Some s" "sb_revision s = 0" "\<not> st_paused (sb_settings s)"
    using demo_connection_sub by blast
  let ?x = "\<lparr>px_viewer = the (begin_session (0 :: nat) 1), px_host = demo_connection, px_requests = [], px_acks = []\<rparr>"
  have h: "conn_inv (px_host ?x)" "sub_of (px_host ?x) 1 = Some s" using demo_connection_inv s by simp_all
  have v: "Some (px_viewer ?x) = begin_session 0 1" "px_requests ?x = []" "px_acks ?x = []"
    by (simp_all add: begin_session_def)
  have l: "length [XSet True, XSend 5, XRequest 0, XAck 0] + 3 < 2 ^ 64" by simp
  from pause_agreement [OF v h s(2,3) l] show ?thesis by blast
qed


theorem host_connection_bounded_witness:
  "length (cn_subscriptions (foldl conn_step (connection_new 7) [OSubscribe demo_sub_env demo_request False, OPrune])) \<le> 8"
  using host_connection_bounded [of 7 "[OSubscribe demo_sub_env demo_request False, OPrune]"] by blast

end
