(* ===== verification/Jitter_Buffer.thy ===== *)
theory Jitter_Buffer
  imports Wire_Types
begin

text \<open>
  The reorder buffer of \<open>remote_core/src/jitter_buffer.rs\<close>: a binary heap of RTP packets ordered by
  wrapping 16-bit sequence distance, the expected sequence number, two drop counters, and the operations
  \<open>push\<close>, \<open>push_with_timing\<close>, \<open>pop_at\<close> and \<open>next_ready_in\<close>.  Readings of the microsecond clock are
  arguments.  The loop of \<open>pop_at\<close> is the recursive function \<open>pop_loop\<close>, which terminates because each
  round removes an element of the heap.
\<close>

definition MAX_BUFFER_DEPTH :: nat where "MAX_BUFFER_DEPTH = 16"
definition MAX_REORDER_WAIT_US :: u64 where "MAX_REORDER_WAIT_US = 20000"

record JitterPacket =
  jp_packet :: RtpPacket
  jp_timing :: FrameTimingCheckpoints
  jp_enter_ts_us :: u64

record JitterBuffer =
  jb_heap :: "JitterPacket list"
  jb_expected_seq :: "u16 option"
  jb_late_frames_dropped :: u64
  jb_queue_full_dropped :: u64

abbreviation rtp_seq :: "RtpPacket \<Rightarrow> u16" where
  "rtp_seq p \<equiv> rtp_sequence_number (rtp_header p)"

abbreviation jp_seq :: "JitterPacket \<Rightarrow> u16" where
  "jp_seq p \<equiv> rtp_seq (jp_packet p)"

text \<open>\<open>Ord::cmp\<close> yields \<open>Less\<close>; the subtraction wraps and the difference is read as \<open>i16\<close>.\<close>

definition jp_lt :: "JitterPacket \<Rightarrow> JitterPacket \<Rightarrow> bool" where
  "jp_lt a b = (sint (jp_seq b - jp_seq a) < 0)"

section \<open>Operations\<close>

definition jb_new :: "u16 \<Rightarrow> JitterBuffer" where
  "jb_new start_seq = \<lparr>jb_heap = [], jb_expected_seq = None, jb_late_frames_dropped = 0,
     jb_queue_full_dropped = 0\<rparr>"

definition jb_enter_timing :: "u64 \<Rightarrow> FrameTimingCheckpoints \<Rightarrow> FrameTimingCheckpoints" where
  "jb_enter_timing now timing =
     (if jitter_enter_ts_us timing = 0 then
        if recv_ts_us timing > 0 then timing\<lparr>jitter_enter_ts_us := recv_ts_us timing\<rparr>
        else if capture_ts_us timing > 0
        then timing\<lparr>jitter_enter_ts_us := client_stage_offset_us (capture_ts_us timing) now 0\<rparr>
        else timing
      else timing)"

definition jb_insert :: "JitterPacket \<Rightarrow> JitterBuffer \<Rightarrow> JitterBuffer" where
  "jb_insert item b =
     (if \<exists>x \<in> set (jb_heap b). jp_seq x = jp_seq item then b
      else let h = item # jb_heap b in
        if length h > MAX_BUFFER_DEPTH
        then case heap_pop jp_lt h of
            Some (discarded, h') \<Rightarrow>
              b\<lparr>jb_heap := h', jb_expected_seq := Some (jp_seq discarded + 1),
                jb_queue_full_dropped := jb_queue_full_dropped b + 1\<rparr>
          | None \<Rightarrow> b
        else b\<lparr>jb_heap := h\<rparr>)"

definition push_with_timing ::
  "u64 \<Rightarrow> RtpPacket \<Rightarrow> FrameTimingCheckpoints \<Rightarrow> JitterBuffer \<Rightarrow> JitterBuffer" where
  "push_with_timing now packet timing b =
     (let item = \<lparr>jp_packet = packet, jp_timing = jb_enter_timing now timing, jp_enter_ts_us = now\<rparr> in
      case jb_expected_seq b of
        Some expected \<Rightarrow>
          let diff = sint (rtp_seq packet - expected) in
          if diff < 0 then b\<lparr>jb_late_frames_dropped := jb_late_frames_dropped b + 1\<rparr>
          else if diff > 1000
          then jb_insert item (b\<lparr>jb_heap := [], jb_expected_seq := Some (rtp_seq packet)\<rparr>)
          else jb_insert item b
      | None \<Rightarrow> jb_insert item (b\<lparr>jb_expected_seq := Some (rtp_seq packet)\<rparr>))"

definition jb_push :: "u64 \<Rightarrow> u64 \<Rightarrow> RtpPacket \<Rightarrow> JitterBuffer \<Rightarrow> JitterBuffer" where
  "jb_push now1 now2 packet b =
     (let capture = (if rtp_timestamp (rtp_header packet) > 0
                     then ucast (rtp_timestamp (rtp_header packet)) * 1000 else now1)
      in push_with_timing now2 packet (checkpoints_new capture) b)"

definition jb_exit_timing :: "u64 \<Rightarrow> JitterPacket \<Rightarrow> FrameTimingCheckpoints" where
  "jb_exit_timing exit_ts item =
     (let residency = ucast (min (saturating_sub exit_ts (jp_enter_ts_us item)) 0xffffffff)
      in (jp_timing item)\<lparr>jitter_exit_ts_us :=
           saturating_add (jitter_enter_ts_us (jp_timing item)) residency\<rparr>)"

function pop_loop :: "u16 \<Rightarrow> u64 \<Rightarrow> JitterBuffer \<Rightarrow>
    JitterBuffer \<times> (RtpPacket \<times> FrameTimingCheckpoints) option" where
  "pop_loop expected exit_ts b =
     (case heap_pop jp_lt (jb_heap b) of
        None \<Rightarrow> (b, None)
      | Some (item, rest) \<Rightarrow>
          let diff = sint (jp_seq item - expected) in
          if diff = 0 then
            (b\<lparr>jb_heap := rest, jb_expected_seq := Some (expected + 1)\<rparr>,
             Some (jp_packet item, jb_exit_timing exit_ts item))
          else if diff < 0 then
            pop_loop expected exit_ts
              (b\<lparr>jb_heap := rest, jb_late_frames_dropped := jb_late_frames_dropped b + 1\<rparr>)
          else if length (jb_heap b) \<ge> MAX_BUFFER_DEPTH
               \<or> saturating_sub exit_ts (jp_enter_ts_us item) \<ge> MAX_REORDER_WAIT_US then
            (if length rest + 1 \<ge> MAX_BUFFER_DEPTH
             then b\<lparr>jb_heap := rest, jb_expected_seq := Some (jp_seq item + 1),
                    jb_queue_full_dropped := jb_queue_full_dropped b + 1\<rparr>
             else b\<lparr>jb_heap := rest, jb_expected_seq := Some (jp_seq item + 1),
                    jb_late_frames_dropped := jb_late_frames_dropped b + word_of_int diff\<rparr>,
             Some (jp_packet item, jb_exit_timing exit_ts item))
          else (b, None))"
  by auto

termination
  by (relation "measure (\<lambda>(_, _, b). length (jb_heap b))") (auto dest: heap_pop_length)

declare pop_loop.simps [simp del]

definition pop_at :: "u64 \<Rightarrow> JitterBuffer \<Rightarrow>
    JitterBuffer \<times> (RtpPacket \<times> FrameTimingCheckpoints) option" where
  "pop_at exit_ts b =
     (case jb_expected_seq b of None \<Rightarrow> (b, None) | Some expected \<Rightarrow> pop_loop expected exit_ts b)"

definition next_ready_in :: "u64 \<Rightarrow> JitterBuffer \<Rightarrow> u64 option" where
  "next_ready_in now b =
     (case heap_peek jp_lt (jb_heap b) of
        None \<Rightarrow> None
      | Some item \<Rightarrow>
          let ready = (Some (jp_seq item) = jb_expected_seq b \<or> length (jb_heap b) \<ge> MAX_BUFFER_DEPTH)
          in Some (if ready then 0
                   else saturating_sub MAX_REORDER_WAIT_US (saturating_sub now (jp_enter_ts_us item))))"

section \<open>Sequence distance\<close>

definition seq_dist :: "u16 \<Rightarrow> JitterPacket \<Rightarrow> nat" where
  "seq_dist e p = unat (jp_seq p - e)"

lemma sint_u16: "sint w = (if unat w < 32768 then int (unat w) else int (unat w) - 65536)" for w :: u16
proof -
  have "uint w mod 65536 = uint w" using uint_bounded [of w] by (intro mod_pos_pos_trivial) simp_all
  then have "sint w = uint w - 65536 * of_bool (bit (uint w) 15)"
    by (simp add: sint_uint signed_take_bit_eq_take_bit_minus take_bit_eq_mod)
  moreover have "bit (uint w) 15 \<longleftrightarrow> \<not> uint w < 32768"
  proof -
    have "0 \<le> uint w" "uint w < 65536" using uint_bounded [of w] by simp_all
    then have "uint w div 32768 = 0 \<or> uint w div 32768 = 1" "uint w div 32768 = 0 \<longleftrightarrow> uint w < 32768"
      by (auto simp: zdiv_eq_0_iff)
    then show ?thesis by (auto simp: bit_iff_odd)
  qed
  moreover have "int (unat w) = uint w" by simp
  then have "unat w < 32768 \<longleftrightarrow> uint w < 32768" by linarith
  ultimately show ?thesis by simp
qed

lemma unat_diff_cases:
  "unat (a - b) = (if unat b \<le> unat a then unat a - unat b else unat a + 65536 - unat b)" for a b :: u16
  using unat_less_exp [of a] unat_less_exp [of b] by (simp add: unat_sub_if_size word_size word_le_nat_alt)

lemma sint_dist_less:
  fixes e x y :: u16
  assumes "unat (x - e) < 32768" "unat (y - e) < 32768"
  shows "sint (y - x) < 0 \<longleftrightarrow> unat (y - e) < unat (x - e)"
proof -
  have "y - x = (y - e) - (x - e)" by simp
  then have "unat (y - x) = (if unat (x - e) \<le> unat (y - e) then unat (y - e) - unat (x - e)
      else unat (y - e) + 65536 - unat (x - e))"
    using unat_diff_cases [of "y - e" "x - e"] by simp
  then show ?thesis using assms by (auto simp: sint_u16)
qed

lemma dist_advance:
  fixes e x y :: u16
  assumes "unat (x - e) < unat (y - e)" "unat (y - e) < 32768"
  shows "unat (y - (x + 1)) = unat (y - e) - unat (x - e) - 1"
proof -
  have eq: "y - (x + 1) = (y - e) - ((x - e) + 1)" by simp
  have "unat ((x - e) + 1) = unat (x - e) + 1"
    using assms by (simp add: unat_add_no_overflow)
  then show ?thesis using assms unat_diff_cases [of "y - e" "(x - e) + 1"] unfolding eq by simp
qed

lemma dist_shift:
  fixes s e x :: u16
  assumes "unat (e - s) + unat (x - e) < 65536"
  shows "unat (x - s) = unat (e - s) + unat (x - e)"
proof -
  have "x - s = (e - s) + (x - e)" by simp
  then show ?thesis using unat_add_no_overflow [of "e - s" "x - e"] assms by simp
qed

lemma next_position:
  fixes s x :: u16
  assumes "unat (x - s) < 32768"
  shows "unat (x + 1 - s) = unat (x - s) + 1"
proof -
  have eq: "x + 1 - s = (x - s) + 1" by simp
  show ?thesis unfolding eq using unat_add_no_overflow [of "x - s" 1] assms by simp
qed

lemma seq_dist_inj: "seq_dist e p = seq_dist e q \<longleftrightarrow> jp_seq p = jp_seq q"
  by (metis diff_add_cancel seq_dist_def unsigned_word_eqI)

lemma seq_dist_0: "seq_dist e p = 0 \<longleftrightarrow> jp_seq p = e"
  by (simp add: seq_dist_def unsigned_eq_0_iff)

interpretation jitter_heap: ranked_heap jp_lt "seq_dist e" "{p. seq_dist e p < 32768}" for e
  by unfold_locales (simp add: jp_lt_def seq_dist_def sint_dist_less)

section \<open>The window invariant\<close>

definition window_ok :: "u16 \<Rightarrow> JitterPacket list \<Rightarrow> bool" where
  "window_ok e h = (distinct (map jp_seq h) \<and> (\<forall>p \<in> set h. seq_dist e p \<le> 1000))"

definition jb_inv :: "JitterBuffer \<Rightarrow> bool" where
  "jb_inv b = (case jb_expected_seq b of
       None \<Rightarrow> jb_heap b = []
     | Some e \<Rightarrow> length (jb_heap b) \<le> MAX_BUFFER_DEPTH \<and> window_ok e (jb_heap b))"

lemma window_carrier: "window_ok e h \<Longrightarrow> set h \<subseteq> {p. seq_dist e p < 32768}"
  by (force simp: window_ok_def)

lemma pop_window:
  assumes w: "window_ok e h" and pop: "heap_pop jp_lt h = Some (m, rest)"
  shows "m \<in> set h" "seq_dist e m \<le> 1000" "length h = Suc (length rest)"
    "z \<in> set rest \<Longrightarrow> seq_dist e m < seq_dist e z"
    "window_ok (jp_seq m + 1) rest"
proof -
  have m: "m \<in> set h" and rest: "rest = remove1 m h"
    using pop by (auto simp: heap_pop_Some dest: heap_peek_in)
  show "m \<in> set h" "length h = Suc (length rest)" using m heap_pop_length [OF pop] by simp_all
  show "seq_dist e m \<le> 1000" using w m by (simp add: window_ok_def)
  have dist: "distinct (map jp_seq h)" using w by (simp add: window_ok_def)
  have less: "seq_dist e m < seq_dist e z" if "z \<in> set rest" for z
  proof -
    have "z \<in> set h" "z \<noteq> m" using that dist by (auto simp: rest distinct_map)
    moreover from this have "jp_seq z \<noteq> jp_seq m" using dist m by (auto simp: distinct_map inj_on_def)
    moreover have "seq_dist e m \<le> seq_dist e z"
      using jitter_heap.pop_least [OF window_carrier [OF w] pop] calculation(1) .
    ultimately show ?thesis using seq_dist_inj [of e m z] by (simp add: less_le)
  qed
  then show "z \<in> set rest \<Longrightarrow> seq_dist e m < seq_dist e z" .
  have "distinct (map jp_seq rest)" using dist by (simp add: rest distinct_map inj_on_def)
  moreover have "seq_dist (jp_seq m + 1) z \<le> 1000" if "z \<in> set rest" for z
  proof -
    have "z \<in> set h" using that set_remove1_subset [of m h] by (auto simp: rest)
    then show ?thesis using dist_advance [of "jp_seq m" e "jp_seq z"] less [OF that] w
      by (auto simp: window_ok_def seq_dist_def)
  qed
  ultimately show "window_ok (jp_seq m + 1) rest" by (simp add: window_ok_def)
qed

lemma jb_insert_cases:
  assumes "jb_inv b" "jb_expected_seq b = Some e" "seq_dist e item \<le> 1000"
  obtains (dup) "jb_insert item b = b"
  | (stored) "jb_insert item b = b\<lparr>jb_heap := item # jb_heap b\<rparr>"
      "window_ok e (item # jb_heap b)" "length (jb_heap b) < MAX_BUFFER_DEPTH"
  | (evicted) m rest where "heap_pop jp_lt (item # jb_heap b) = Some (m, rest)"
      "window_ok e (item # jb_heap b)" "length rest = MAX_BUFFER_DEPTH"
      "jb_insert item b = b\<lparr>jb_heap := rest, jb_expected_seq := Some (jp_seq m + 1),
         jb_queue_full_dropped := jb_queue_full_dropped b + 1\<rparr>"
proof (cases "\<exists>x \<in> set (jb_heap b). jp_seq x = jp_seq item")
  case False
  then have w: "window_ok e (item # jb_heap b)"
    using assms by (auto simp: jb_inv_def window_ok_def)
  have len: "length (jb_heap b) \<le> MAX_BUFFER_DEPTH" using assms by (simp add: jb_inv_def)
  obtain m rest where pop: "heap_pop jp_lt (item # jb_heap b) = Some (m, rest)"
    using heap_pop_None by (metis list.distinct(1) not_None_eq surj_pair)
  show ?thesis
    using False w len pop heap_pop_length [OF pop] stored evicted [OF pop]
    by (cases "length (jb_heap b) < MAX_BUFFER_DEPTH") (auto simp: jb_insert_def Let_def)
qed (use dup in \<open>simp add: jb_insert_def\<close>)

lemma jb_insert_inv:
  assumes "jb_inv b" "jb_expected_seq b = Some e" "seq_dist e item \<le> 1000"
  shows "jb_inv (jb_insert item b)"
  using assms
proof (cases rule: jb_insert_cases)
  case (evicted m rest)
  then show ?thesis using pop_window(5) by (auto simp: jb_inv_def)
qed (use assms in \<open>auto simp: jb_inv_def\<close>)

lemma sint_cases:
  fixes w :: u16
  shows "sint w < 0 \<longleftrightarrow> 32768 \<le> unat w" "0 \<le> sint w \<Longrightarrow> sint w \<le> 1000 \<Longrightarrow> unat w \<le> 1000"
proof -
  have u: "unat w < 65536" using unat_less_exp [of w] by simp
  have sint_disj: "sint w = int (unat w) \<or> sint w = int (unat w) - 65536"
    using sint_u16 [of w] by presburger
  show "sint w < 0 \<longleftrightarrow> 32768 \<le> unat w" unfolding sint_u16 using u by (simp only: split: if_split) linarith
  show "0 \<le> sint w \<Longrightarrow> sint w \<le> 1000 \<Longrightarrow> unat w \<le> 1000"
    using u sint_disj by linarith
qed

lemma push_inv:
  assumes "jb_inv b"
  shows "jb_inv (push_with_timing now p t b)"
proof (cases "jb_expected_seq b")
  case None
  with assms show ?thesis
    by (auto simp: push_with_timing_def Let_def intro!: jb_insert_inv)
      (simp_all add: jb_inv_def window_ok_def seq_dist_def)
next
  case (Some e)
  let ?d = "sint (rtp_seq p - e)"
  consider "?d < 0" | "?d > 1000" | "0 \<le> ?d" "?d \<le> 1000" by linarith
  then show ?thesis
  proof cases
    case 2
    then show ?thesis using Some assms
      by (auto simp: push_with_timing_def Let_def intro!: jb_insert_inv)
        (simp_all add: jb_inv_def window_ok_def seq_dist_def)
  next
    case 3
    then show ?thesis using Some assms sint_cases(2) [of "rtp_seq p - e"]
      by (auto simp: push_with_timing_def Let_def seq_dist_def intro!: jb_insert_inv)
  qed (use Some assms in \<open>simp add: push_with_timing_def Let_def jb_inv_def\<close>)
qed

text \<open>With the invariant the discard branch of the loop is never taken and \<open>pop_at\<close> needs one round.\<close>

definition release :: "u64 \<Rightarrow> JitterPacket \<Rightarrow> u16 \<Rightarrow> JitterPacket list \<Rightarrow> JitterBuffer \<Rightarrow> JitterBuffer" where
  "release exit_ts item e rest b =
     (let b' = b\<lparr>jb_heap := rest, jb_expected_seq := Some (jp_seq item + 1)\<rparr> in
      if jp_seq item = e then b'
      else if length (jb_heap b) \<ge> MAX_BUFFER_DEPTH
      then b'\<lparr>jb_queue_full_dropped := jb_queue_full_dropped b + 1\<rparr>
      else b'\<lparr>jb_late_frames_dropped := jb_late_frames_dropped b + word_of_nat (seq_dist e item)\<rparr>)"

lemma pop_at_one_round:
  assumes inv: "jb_inv b" and e: "jb_expected_seq b = Some e"
    and pop: "heap_pop jp_lt (jb_heap b) = Some (item, rest)"
  shows "pop_at t b =
    (if jp_seq item = e \<or> length (jb_heap b) \<ge> MAX_BUFFER_DEPTH
        \<or> saturating_sub t (jp_enter_ts_us item) \<ge> MAX_REORDER_WAIT_US
     then (release t item e rest b, Some (jp_packet item, jb_exit_timing t item))
     else (b, None))"
proof -
  have w: "window_ok e (jb_heap b)" using inv e by (simp add: jb_inv_def)
  have "\<not> sint (jp_seq item - e) < 0"
    using pop_window(2) [OF w pop] sint_cases(1) [of "jp_seq item - e"] by (simp add: seq_dist_def)
  moreover have "sint (jp_seq item - e) = int (seq_dist e item)"
    using pop_window(2) [OF w pop] sint_u16 [of "jp_seq item - e"]
    by (simp only: seq_dist_def) (simp del: of_nat_unat)
  ultimately show ?thesis
    using e pop pop_window(3) [OF w pop]
    by (auto simp: pop_at_def pop_loop.simps [of e t b] release_def Let_def seq_dist_0)
qed

lemma pop_at_cases:
  assumes "jb_inv b"
  obtains (none) "pop_at t b = (b, None)"
  | (some) e item rest where "jb_expected_seq b = Some e"
      "heap_pop jp_lt (jb_heap b) = Some (item, rest)"
      "pop_at t b = (release t item e rest b, Some (jp_packet item, jb_exit_timing t item))"
proof (cases "jb_expected_seq b")
  case None
  then show ?thesis using none by (simp add: pop_at_def)
next
  case e: (Some e)
  show ?thesis
  proof (cases "heap_pop jp_lt (jb_heap b)")
    case None
    then show ?thesis using none e by (simp add: pop_at_def pop_loop.simps)
  next
    case (Some p)
    then show ?thesis
      using none some [OF e] pop_at_one_round [OF assms e] by (cases p) (metis (full_types))
  qed
qed

lemma release_fields [simp]:
  "jb_heap (release t item e rest b) = rest"
  "jb_expected_seq (release t item e rest b) = Some (jp_seq item + 1)"
  by (simp_all add: release_def Let_def)

lemma pop_inv:
  assumes inv: "jb_inv b"
  shows "jb_inv (fst (pop_at t b))"
  using inv
proof (cases rule: pop_at_cases [where t = t])
  case (some e item rest)
  then have w: "window_ok e (jb_heap b)" using inv by (simp add: jb_inv_def)
  then show ?thesis
    using some inv pop_window(3,5) [OF w some(2)] by (auto simp: jb_inv_def)
qed (use inv in simp)

datatype JitterOp = Push u64 RtpPacket FrameTimingCheckpoints | PushPlain u64 u64 RtpPacket | Pop u64

fun jb_step :: "JitterBuffer \<Rightarrow> JitterOp \<Rightarrow> JitterBuffer \<times> RtpPacket option" where
  "jb_step b (Push now p t) = (push_with_timing now p t b, None)"
| "jb_step b (PushPlain now1 now2 p) = (jb_push now1 now2 p b, None)"
| "jb_step b (Pop t) = (case pop_at t b of (b', r) \<Rightarrow> (b', map_option fst r))"

fun pushed_packet :: "JitterOp \<Rightarrow> RtpPacket option" where
  "pushed_packet (Push now p t) = Some p"
| "pushed_packet (PushPlain now1 now2 p) = Some p"
| "pushed_packet (Pop t) = None"

fun jb_run :: "JitterBuffer \<Rightarrow> JitterOp list \<Rightarrow> JitterBuffer \<times> RtpPacket list" where
  "jb_run b [] = (b, [])"
| "jb_run b (x # xs) =
     (case jb_step b x of (b', r) \<Rightarrow> case jb_run b' xs of (b'', out) \<Rightarrow>
        (b'', (case r of None \<Rightarrow> [] | Some p \<Rightarrow> [p]) @ out))"

interpretation jitter_ops: op_machine "\<lambda>b x. fst (jb_step b x)" jb_inv
proof
  fix b x assume "jb_inv b"
  then show "jb_inv (fst (jb_step b x))"
    using push_inv pop_inv by (cases x) (auto simp: jb_push_def Let_def split: prod.splits, metis fst_conv)
qed

lemma jb_run_fst: "fst (jb_run b xs) = foldl (\<lambda>b x. fst (jb_step b x)) b xs"
  by (induction xs arbitrary: b) (auto split: prod.splits, metis fst_conv)

lemma jb_new_inv: "jb_inv (jb_new q)"
  by (simp add: jb_inv_def jb_new_def)

section \<open>Delivery order\<close>

text \<open>
  Positions relative to a start \<open>s\<close>: the buffer's expected position \<open>lo\<close>, with every buffered packet
  at or behind it in the same half of the sequence space.
\<close>

definition placed :: "u16 \<Rightarrow> nat \<Rightarrow> JitterBuffer \<Rightarrow> bool" where
  "placed s lo b = (jb_inv b \<and> (\<forall>p \<in> set (jb_heap b). unat (jp_seq p - s) < 32768) \<and>
     (case jb_expected_seq b of None \<Rightarrow> lo = 0 | Some e \<Rightarrow> unat (e - s) = lo \<and> lo \<le> 32768))"

lemma placed_dist:
  assumes "placed s lo b" "jb_expected_seq b = Some e" "p \<in> set (jb_heap b)"
  shows "unat (jp_seq p - s) = lo + seq_dist e p"
  using assms dist_shift [of e s "jp_seq p"]
  by (auto simp: placed_def jb_inv_def window_ok_def seq_dist_def)

lemma placed_pop:
  assumes pl: "placed s lo b"
  shows "\<exists>lo'. placed s lo' (fst (pop_at t b)) \<and>
    (case snd (pop_at t b) of None \<Rightarrow> lo' = lo
     | Some (p, _) \<Rightarrow> lo \<le> unat (rtp_seq p - s) \<and> lo' = unat (rtp_seq p - s) + 1)"
proof -
  have inv: "jb_inv b" using pl by (simp add: placed_def)
  then show ?thesis
  proof (cases rule: pop_at_cases [where t = t])
    case (some e item rest)
    have w: "window_ok e (jb_heap b)" using inv some(1) by (simp add: jb_inv_def)
    note pw = pop_window [OF w some(2)]
    have rest: "set rest \<subseteq> set (jb_heap b)"
      using some(2) set_remove1_subset [of item "jb_heap b"] by (auto simp: heap_pop_Some)
    have lt: "unat (jp_seq item - s) < 32768" using pl pw(1) by (simp add: placed_def)
    then have "placed s (unat (jp_seq item - s) + 1) (fst (pop_at t b))"
      using pl pop_inv [OF inv, of t] some(3) rest next_position [OF lt] by (auto simp: placed_def)
    then show ?thesis using placed_dist [OF pl some(1) pw(1)] some(3) by auto
  qed (use pl in auto)
qed

lemma placed_insert:
  assumes pl: "placed s lo b" and e: "jb_expected_seq b = Some e"
    and item: "seq_dist e item \<le> 1000" "unat (jp_seq item - s) < 32768"
  shows "\<exists>lo'. placed s lo' (jb_insert item b) \<and> lo \<le> lo'"
proof -
  have inv: "jb_inv b" using pl by (simp add: placed_def)
  note inv' = jb_insert_inv [OF inv e item(1)]
  from inv e item(1) show ?thesis
  proof (cases rule: jb_insert_cases)
    case stored
    then have "placed s lo (jb_insert item b)" using pl inv' item(2) e by (auto simp: placed_def)
    then show ?thesis by blast
  next
    case (evicted m rest)
    note pw = pop_window [OF evicted(2,1)]
    have rest: "set rest \<subseteq> set (item # jb_heap b)"
      using evicted(1) set_remove1_subset [of m "item # jb_heap b"] by (auto simp only: heap_pop_Some)
    have lt: "unat (jp_seq m - s) < 32768" using pl pw(1) item(2) by (auto simp: placed_def)
    have "placed s (unat (jp_seq m - s) + 1) (jb_insert item b)"
      using pl inv' evicted(4) rest lt next_position [OF lt] item(2) by (auto simp: placed_def)
    moreover have "lo \<le> unat (jp_seq m - s) + 1"
      using pl e pw(2) dist_shift [of e s "jp_seq m"] by (simp add: placed_def seq_dist_def)
    ultimately show ?thesis by blast
  qed (use pl in auto)
qed

lemma placed_restart:
  assumes "unat (q - s) < 32768"
  shows "placed s (unat (q - s)) (b\<lparr>jb_heap := [], jb_expected_seq := Some q\<rparr>)"
  using assms by (simp add: placed_def jb_inv_def window_ok_def)

lemma placed_push:
  assumes pl: "placed s lo b" and near: "unat (rtp_seq p - s) < 32768"
  shows "\<exists>lo'. placed s lo' (push_with_timing now p t b) \<and> lo \<le> lo'"
proof -
  let ?item = "\<lparr>jp_packet = p, jp_timing = jb_enter_timing now t, jp_enter_ts_us = now\<rparr>"
  let ?restart = "b\<lparr>jb_heap := [], jb_expected_seq := Some (rtp_seq p)\<rparr>"
  have fresh: "\<exists>lo'. placed s lo' (jb_insert ?item ?restart) \<and> unat (rtp_seq p - s) \<le> lo'"
    using placed_insert [OF placed_restart [OF near, of b], of "rtp_seq p" ?item] near
      seq_dist_0 [of "rtp_seq p" ?item] by simp
  show ?thesis
  proof (cases "jb_expected_seq b")
    case None
    then have empty: "jb_heap b = []" and lo: "lo = 0" using pl by (auto simp: placed_def jb_inv_def)
    have "b\<lparr>jb_heap := []\<rparr> = b" using empty by simp
    then have "?restart = b\<lparr>jb_expected_seq := Some (rtp_seq p)\<rparr>" by metis
    then show ?thesis using fresh None lo by (auto simp: push_with_timing_def)
  next
    case (Some e)
    let ?d = "rtp_seq p - e"
    consider "sint ?d < 0" | "sint ?d > 1000" | "0 \<le> sint ?d" "sint ?d \<le> 1000" by linarith
    then show ?thesis
    proof cases
      case 1
      then show ?thesis using pl Some
        by (intro exI [of _ lo]) (simp add: push_with_timing_def placed_def jb_inv_def)
    next
      case 2
      then have "unat ?d < 32768" using sint_cases(1) [of ?d] by linarith
      then have "lo \<le> unat (rtp_seq p - s)"
        using pl Some dist_shift [of e s "rtp_seq p"] by (simp add: placed_def)
      then show ?thesis using fresh 2 Some by (auto simp: push_with_timing_def intro: order_trans)
    next
      case 3
      then have "seq_dist e ?item \<le> 1000" using sint_cases(2) by (simp add: seq_dist_def)
      then show ?thesis
        using 3 Some placed_insert [OF pl Some, of ?item] near by (simp add: push_with_timing_def)
    qed
  qed
qed

lemma placed_step:
  assumes "placed s lo b" "\<And>p. pushed_packet x = Some p \<Longrightarrow> unat (rtp_seq p - s) < 32768"
  shows "\<exists>lo'. placed s lo' (fst (jb_step b x)) \<and> lo \<le> lo' \<and>
    (case snd (jb_step b x) of None \<Rightarrow> True
     | Some p \<Rightarrow> lo \<le> unat (rtp_seq p - s) \<and> unat (rtp_seq p - s) < lo')"
proof (cases x)
  case (Pop t)
  then show ?thesis using placed_pop [OF assms(1), of t]
    by (cases "pop_at t b"; cases "snd (pop_at t b)") auto
next
  case (Push now p t)
  then show ?thesis using placed_push [OF assms(1), of p now t] assms(2) [of p] by auto
next
  case (PushPlain now1 now2 p)
  then show ?thesis using placed_push [OF assms(1), of p now2] assms(2) [of p]
    by (auto simp: jb_push_def Let_def)
qed

lemma placed_run:
  assumes "placed s lo b" "\<And>x p. x \<in> set xs \<Longrightarrow> pushed_packet x = Some p \<Longrightarrow> unat (rtp_seq p - s) < 32768"
  shows "sorted_wrt (<) (map (\<lambda>p. unat (rtp_seq p - s)) (snd (jb_run b xs))) \<and>
    (\<forall>p \<in> set (snd (jb_run b xs)). lo \<le> unat (rtp_seq p - s))"
  using assms
proof (induction xs arbitrary: b lo)
  case (Cons x xs)
  obtain lo' where lo': "placed s lo' (fst (jb_step b x))" "lo \<le> lo'"
    "case snd (jb_step b x) of None \<Rightarrow> True
     | Some p \<Rightarrow> lo \<le> unat (rtp_seq p - s) \<and> unat (rtp_seq p - s) < lo'"
    using placed_step [OF Cons.prems(1), of x] Cons.prems(2) [of x] by auto
  have IH: "sorted_wrt (<) (map (\<lambda>p. unat (rtp_seq p - s)) (snd (jb_run (fst (jb_step b x)) xs)))"
    "\<forall>p \<in> set (snd (jb_run (fst (jb_step b x)) xs)). lo' \<le> unat (rtp_seq p - s)"
    using Cons.IH [OF lo'(1)] Cons.prems(2) by auto
  have "snd (jb_run b (x # xs)) =
      (case snd (jb_step b x) of None \<Rightarrow> [] | Some p \<Rightarrow> [p]) @ snd (jb_run (fst (jb_step b x)) xs)"
    by (simp split: prod.splits)
  then show ?case using IH lo'(2,3) by (cases "snd (jb_step b x)") force+
qed simp

section \<open>Reordering\<close>

lemma push_one:
  assumes inv: "jb_inv b" and e: "jb_expected_seq b = Some e" and near: "unat (rtp_seq p - e) \<le> 1000"
    and new: "rtp_seq p \<notin> jp_seq ` set (jb_heap b)" and room: "length (jb_heap b) < MAX_BUFFER_DEPTH"
  shows "push_with_timing now p t b = b\<lparr>jb_heap :=
    \<lparr>jp_packet = p, jp_timing = jb_enter_timing now t, jp_enter_ts_us = now\<rparr> # jb_heap b\<rparr>"
proof -
  have "sint (rtp_seq p - e) = int (unat (rtp_seq p - e))" using near by (simp add: sint_u16)
  then have "\<not> sint (rtp_seq p - e) < 0" "\<not> sint (rtp_seq p - e) > 1000" using near by linarith+
  moreover have "\<not> (\<exists>x \<in> set (jb_heap b). jp_seq x = rtp_seq p)" using new by force
  ultimately show ?thesis using e room by (simp add: push_with_timing_def jb_insert_def)
qed

lemma push_run:
  assumes "jb_inv b" "jb_expected_seq b = Some e" "distinct (map rtp_seq (ps @ map jp_packet (jb_heap b)))"
    "\<And>p. p \<in> set ps \<Longrightarrow> unat (rtp_seq p - e) \<le> 1000" "length (jb_heap b) + length ps \<le> MAX_BUFFER_DEPTH"
  shows "\<exists>b'. jb_run b (map (\<lambda>p. Push now p t) ps @ xs) = jb_run b' xs \<and> jb_inv b' \<and>
    jb_expected_seq b' = Some e \<and> map jp_packet (jb_heap b') = rev ps @ map jp_packet (jb_heap b)"
  using assms
proof (induction ps arbitrary: b)
  case (Cons p ps)
  let ?b = "push_with_timing now p t b"
  have one: "?b = b\<lparr>jb_heap :=
    \<lparr>jp_packet = p, jp_timing = jb_enter_timing now t, jp_enter_ts_us = now\<rparr> # jb_heap b\<rparr>"
    using Cons.prems by (intro push_one) (auto simp: image_image)
  have "\<exists>b'. jb_run ?b (map (\<lambda>p. Push now p t) ps @ xs) = jb_run b' xs \<and> jb_inv b' \<and>
    jb_expected_seq b' = Some e \<and> map jp_packet (jb_heap b') = rev ps @ map jp_packet (jb_heap ?b)"
    using push_inv [OF Cons.prems(1), of now p t] Cons.prems(2-5)
    by (intro Cons.IH) (auto simp: one image_image)
  then show ?case by (auto simp: one split: prod.splits)
qed auto

lemma word_seq_shift:
  "map (\<lambda>i. e + word_of_nat i) [0..<Suc n] = e # map (\<lambda>i. (e + 1) + word_of_nat i) [0..<n]" for e :: u16
  by (simp add: map_upt_Suc add.assoc del: upt_Suc)

lemma pop_run:
  assumes "jb_inv b" "jb_expected_seq b = Some e"
    "mset (map jp_seq (jb_heap b)) = mset (map (\<lambda>i. e + word_of_nat i) [0..<n])"
  shows "map rtp_seq (snd (jb_run b (replicate n (Pop t)))) = map (\<lambda>i. e + word_of_nat i) [0..<n] \<and>
    mset (snd (jb_run b (replicate n (Pop t)))) = mset (map jp_packet (jb_heap b))"
  using assms
proof (induction n arbitrary: b e)
  case (Suc n)
  have w: "window_ok e (jb_heap b)" using Suc.prems(1,2) by (simp add: jb_inv_def)
  have seqs: "mset (map jp_seq (jb_heap b)) = add_mset e (mset (map (\<lambda>i. (e + 1) + word_of_nat i) [0..<n]))"
    using Suc.prems(3) unfolding word_seq_shift by simp
  then have "e \<in> set (map jp_seq (jb_heap b))" by (metis set_mset_mset union_single_eq_member)
  then obtain z where z: "z \<in> set (jb_heap b)" "jp_seq z = e" by auto
  obtain item rest where pop: "heap_pop jp_lt (jb_heap b) = Some (item, rest)"
    using z heap_pop_None by (metis empty_iff list.set(1) not_None_eq surj_pair)
  have "seq_dist e item \<le> seq_dist e z"
    using jitter_heap.pop_least [OF window_carrier [OF w] pop z(1)] .
  then have item: "jp_seq item = e" using z(2) seq_dist_0 [of e item] seq_dist_0 [of e z] by simp
  have at: "pop_at t b = (release t item e rest b, Some (jp_packet item, jb_exit_timing t item))"
    using pop_at_one_round [OF Suc.prems(1,2) pop] item by simp
  have hp: "mset (jb_heap b) = add_mset item (mset rest)" using heap_pop_mset [OF pop] .
  have "mset (map jp_seq rest) = mset (map (\<lambda>i. (e + 1) + word_of_nat i) [0..<n])"
    using seqs hp item by simp
  then have IH: "map rtp_seq (snd (jb_run (release t item e rest b) (replicate n (Pop t)))) =
      map (\<lambda>i. (e + 1) + word_of_nat i) [0..<n]"
    "mset (snd (jb_run (release t item e rest b) (replicate n (Pop t)))) = mset (map jp_packet rest)"
    using Suc.IH [of "release t item e rest b" "e + 1"] pop_inv [OF Suc.prems(1), of t] at item by auto
  have "snd (jb_run b (replicate (Suc n) (Pop t))) =
      jp_packet item # snd (jb_run (release t item e rest b) (replicate n (Pop t)))"
    using at by (simp add: split_beta)
  then show ?case unfolding word_seq_shift using IH item hp by simp
qed simp

section \<open>Properties\<close>

text \<open>
  However packets arrive and whenever the buffer is polled, it stays a bounded window: at most
  sixteen packets, no sequence number twice, every packet at most 1000 ahead of the expected one.
\<close>

theorem jitter_window_invariant: "jb_inv (fst (jb_run (jb_new q) xs))"
  unfolding jb_run_fst by (rule jitter_ops.run_inv [OF jb_new_inv])

text \<open>
  C5. In-order, at-most-once delivery within one half of the sequence space.  For any interleaving of arrivals
  and polls, with any loss, duplication and reordering, in which all sequence numbers pushed lie within the
  32768 numbers from some \<open>s\<close> on (wrap-around included), the delivered packets have strictly increasing
  positions.  The condition is needed: over a longer span the reset for a distance of more than 1000 starts the
  order anew.
\<close>

theorem jitter_delivers_in_order:
  assumes "list_all (\<lambda>x. case pushed_packet x of None \<Rightarrow> True
     | Some p \<Rightarrow> unat (rtp_seq p - s) < 32768) xs"
  shows "sorted_wrt (<) (map (\<lambda>p. unat (rtp_seq p - s)) (snd (jb_run (jb_new q) xs)))"
proof -
  have "placed s 0 (jb_new q)" by (simp add: placed_def jb_new_inv) (simp add: jb_new_def)
  then show ?thesis
    using placed_run [of s 0 "jb_new q" xs] assms by (fastforce simp: list_all_iff split: option.splits)
qed

definition sample_packet :: "u16 \<Rightarrow> RtpPacket" where
  "sample_packet q = \<lparr>rtp_header = \<lparr>rtp_version = 2, rtp_payload_type = 96, rtp_sequence_number = q,
     rtp_timestamp = 1, rtp_ssrc = 0\<rparr>, rtp_payload = []\<rparr>"

lemma jitter_delivers_in_order_witness:
  "sorted_wrt (<) (map (\<lambda>p. unat (rtp_seq p - 65535)) (snd (jb_run (jb_new 0)
     [PushPlain 0 0 (sample_packet 65535), PushPlain 0 0 (sample_packet 1),
      PushPlain 0 0 (sample_packet 0), Pop 5, Pop 5, Pop 5])))"
  using jitter_delivers_in_order [of "65535"
      "[PushPlain 0 0 (sample_packet 65535), PushPlain 0 0 (sample_packet 1),
        PushPlain 0 0 (sample_packet 0), Pop 5, Pop 5, Pop 5]" 0]
  by (simp only: list.pred_inject pushed_packet.simps option.case) (simp add: sample_packet_def)

text \<open>
  Reordering up to the buffer depth is undone.  From an empty buffer expecting \<open>e\<close>, any
  permutation of the next \<open>n \<le> 16\<close> packets followed by \<open>n\<close> polls yields exactly those packets,
  in sequence order, without waiting.
\<close>

theorem jitter_reorders:
  fixes now t' :: u64 and t :: FrameTimingCheckpoints
  assumes "jb_heap b = []" "jb_expected_seq b = Some e" "n \<le> MAX_BUFFER_DEPTH"
    and perm: "mset (map rtp_seq ps) = mset (map (\<lambda>i. e + word_of_nat i) [0..<n])"
  defines "out \<equiv> snd (jb_run b (map (\<lambda>p. Push now p t) ps @ replicate n (Pop t')))"
  shows "map rtp_seq out = map (\<lambda>i. e + word_of_nat i) [0..<n] \<and> mset out = mset ps"
proof -
  have n: "n \<le> 16" "length ps = n" using assms(3) arg_cong [OF perm, of size]
    by (simp_all add: MAX_BUFFER_DEPTH_def)
  have unat [simp]: "unat (word_of_nat i :: u16) = i" if "i < n" for i
    using that n(1) by (simp add: unat_of_nat)
  have "inj_on (\<lambda>i. e + word_of_nat i) {0..<n}"
    by (rule inj_on_inverseI [of _ "\<lambda>w. unat (w - e)"]) (simp add: unat)
  then have "distinct (map (\<lambda>i. e + word_of_nat i) [0..<n])" by (simp add: distinct_map)
  then have dist: "distinct (map rtp_seq ps)" using mset_eq_imp_distinct_iff [OF perm] by simp
  have near: "unat (rtp_seq p - e) \<le> 1000" if "p \<in> set ps" for p
  proof -
    have "rtp_seq p \<in> set (map rtp_seq ps)" using that by simp
    then obtain i where "i < n" "rtp_seq p = e + word_of_nat i"
      unfolding mset_eq_setD [OF perm] by auto
    then show ?thesis using n(1) by simp
  qed
  have inv: "jb_inv b" using assms(1,2) by (simp add: jb_inv_def window_ok_def)
  obtain b' where b': "jb_run b (map (\<lambda>p. Push now p t) ps @ replicate n (Pop t')) =
      jb_run b' (replicate n (Pop t'))" "jb_inv b'" "jb_expected_seq b' = Some e"
    "map jp_packet (jb_heap b') = rev ps"
    using push_run [OF inv assms(2), of ps now t "replicate n (Pop t')"] assms(1,3) dist near n(2) by auto
  have "map jp_seq (jb_heap b') = rev (map rtp_seq ps)"
    using arg_cong [OF b'(4), of "map rtp_seq"] by (simp add: rev_map comp_def)
  then have "mset (map jp_seq (jb_heap b')) = mset (map (\<lambda>i. e + word_of_nat i) [0..<n])"
    using perm by simp
  from pop_run [OF b'(2,3) this, of t'] show ?thesis
    unfolding out_def b'(1) b'(4) by simp
qed

lemma jitter_reorders_witness:
  "map rtp_seq (snd (jb_run ((jb_new 0)\<lparr>jb_expected_seq := Some 65535\<rparr>)
     (map (\<lambda>p. Push 0 p (checkpoints_new 0)) [sample_packet 1, sample_packet 65535, sample_packet 0] @
      replicate 3 (Pop 9)))) = [65535, 0, 1]"
proof -
  have seqs: "map (\<lambda>i. 65535 + word_of_nat i) [0..<3] = [65535, 0, 1 :: u16]" by (simp add: upt_rec)
  show ?thesis
    using jitter_reorders [of "(jb_new 0)\<lparr>jb_expected_seq := Some 65535\<rparr>" "65535" 3
        "[sample_packet 1, sample_packet 65535, sample_packet 0]" 0 "checkpoints_new 0" 9]
    unfolding seqs by (simp add: jb_new_def MAX_BUFFER_DEPTH_def sample_packet_def)
qed

text \<open>
  \<open>next_ready_in\<close> tells the truth.  When no packet entered after the current clock reading, a
  poll now yields a packet exactly when the announced wait is zero, and a poll after the announced wait
  always yields one, even if nothing else arrives; no wait is announced exactly when nothing is buffered.
\<close>

theorem jitter_next_ready:
  assumes inv: "jb_inv b" and clock: "\<forall>p \<in> set (jb_heap b). jp_enter_ts_us p \<le> now"
  shows "case next_ready_in now b of
      None \<Rightarrow> jb_heap b = []
    | Some d \<Rightarrow> d \<le> MAX_REORDER_WAIT_US \<and> (snd (pop_at now b) \<noteq> None \<longleftrightarrow> d = 0) \<and>
        (unat now + unat d < 2 ^ 64 \<longrightarrow> snd (pop_at (now + d) b) \<noteq> None)"
proof (cases "heap_peek jp_lt (jb_heap b)")
  case (Some item)
  then obtain e where e: "jb_expected_seq b = Some e" using inv by (cases "jb_expected_seq b") (auto simp: jb_inv_def)
  let ?rest = "remove1 item (jb_heap b)"
  have pop: "heap_pop jp_lt (jb_heap b) = Some (item, ?rest)" using Some by (simp add: heap_pop_Some)
  have enter: "unat (jp_enter_ts_us item) \<le> unat now"
    using clock heap_peek_in [OF Some] by (simp add: word_le_nat_alt)
  note one = pop_at_one_round [OF inv e pop]
  show ?thesis
  proof (cases "jp_seq item = e \<or> length (jb_heap b) \<ge> MAX_BUFFER_DEPTH")
    case True
    then show ?thesis using Some e one by (auto simp: next_ready_in_def)
  next
    case False
    let ?d = "saturating_sub MAX_REORDER_WAIT_US (saturating_sub now (jp_enter_ts_us item))"
    have d: "next_ready_in now b = Some ?d" using False Some e by (simp add: next_ready_in_def)
    have zero: "?d = 0 \<longleftrightarrow> unat ?d = 0" by (simp add: unsigned_eq_0_iff)
    have "MAX_REORDER_WAIT_US \<le> saturating_sub now (jp_enter_ts_us item) \<longleftrightarrow> ?d = 0"
      unfolding zero by (simp add: word_le_nat_alt unat_saturating_sub)
    moreover have "MAX_REORDER_WAIT_US \<le> saturating_sub (now + ?d) (jp_enter_ts_us item)"
      if "unat now + unat ?d < 2 ^ 64"
      using that enter unat_add_no_overflow [of now ?d]
      by (simp add: word_le_nat_alt unat_saturating_sub)
    moreover have "?d \<le> MAX_REORDER_WAIT_US" by (simp add: word_le_nat_alt unat_saturating_sub)
    ultimately show ?thesis using d one False by auto
  qed
qed (simp add: next_ready_in_def)

lemma jitter_next_ready_witness:
  "next_ready_in 7 (push_with_timing 5 (sample_packet 4) (checkpoints_new 0)
      ((jb_new 0)\<lparr>jb_expected_seq := Some 3\<rparr>)) = Some 19998 \<and>
   snd (pop_at 20005 (push_with_timing 5 (sample_packet 4) (checkpoints_new 0)
      ((jb_new 0)\<lparr>jb_expected_seq := Some 3\<rparr>))) \<noteq> None"
proof -
  let ?b = "push_with_timing 5 (sample_packet 4) (checkpoints_new 0) ((jb_new 0)\<lparr>jb_expected_seq := Some 3\<rparr>)"
  have b: "jb_heap ?b = [\<lparr>jp_packet = sample_packet 4, jp_timing = checkpoints_new 0, jp_enter_ts_us = 5\<rparr>]"
    "jb_expected_seq ?b = Some 3"
    by (simp_all add: push_with_timing_def jb_insert_def jb_new_def sample_packet_def
        MAX_BUFFER_DEPTH_def jb_enter_timing_def checkpoints_new_def)
  have "jb_inv ?b" by (rule push_inv) (simp add: jb_inv_def jb_new_def window_ok_def)
  moreover have "next_ready_in 7 ?b = Some 19998"
    unfolding next_ready_in_def b
    by (simp add: MAX_BUFFER_DEPTH_def MAX_REORDER_WAIT_US_def sample_packet_def
        saturating_sub_def word_le_nat_alt)
  ultimately show ?thesis using jitter_next_ready [of ?b 7] by (simp add: b word_le_nat_alt)
qed

end
