(* ===== verification/Lane_Scheduler.thy ===== *)
theory Lane_Scheduler
  imports Wire_Types "HOL-Library.Product_Lexorder"
begin

text \<open>
  The lane scheduler of \<open>remote_core/src/data_plane.rs\<close> and the worker of
  \<open>remote_core/src/scheduled_sender.rs\<close> that drives it.  Realtime envelopes wait in a binary heap
  ordered by priority, deadline and sequence number; reliable envelopes wait in a FIFO; both are bounded.
  Millisecond clock readings, what the channels deliver and whether a datagram is sent are arguments.
\<close>

section \<open>Envelopes for the scheduler\<close>

record RealtimePacketSpec =
  rps_lane :: DataLane
  rps_kind :: ContentKind
  rps_stream_id :: u32
  rps_sequence_number :: u64
  rps_timestamp_ms :: u64
  rps_deadline_ms :: u64

definition spec_video :: "u32 \<Rightarrow> u64 \<Rightarrow> u64 \<Rightarrow> u64 \<Rightarrow> RealtimePacketSpec" where
  "spec_video sid seq ts deadline = \<lparr>rps_lane = Lane_Realtime, rps_kind = Kind_VideoH265,
     rps_stream_id = sid, rps_sequence_number = seq, rps_timestamp_ms = ts, rps_deadline_ms = deadline\<rparr>"

definition spec_audio :: "u32 \<Rightarrow> u64 \<Rightarrow> u64 \<Rightarrow> u64 \<Rightarrow> RealtimePacketSpec" where
  "spec_audio sid seq ts deadline = \<lparr>rps_lane = Lane_Realtime, rps_kind = Kind_AudioOpus,
     rps_stream_id = sid, rps_sequence_number = seq, rps_timestamp_ms = ts, rps_deadline_ms = deadline\<rparr>"

text \<open>\<open>None\<close> is the panic of \<open>assert_eq!\<close>.\<close>

definition make_realtime_envelope :: "RealtimePacketSpec \<Rightarrow> bytes \<Rightarrow> DataEnvelope option" where
  "make_realtime_envelope spec payload =
     (if rps_lane spec \<noteq> Lane_Realtime then None
      else let e = envelope_new (rps_lane spec) (rps_kind spec) (rps_stream_id spec)
                     (rps_sequence_number spec) (rps_timestamp_ms spec) payload
           in Some (e\<lparr>env_header := env_header e\<lparr>dh_deadline_ms := Some (rps_deadline_ms spec)\<rparr>\<rparr>))"

definition is_stale :: "DataEnvelope \<Rightarrow> u64 \<Rightarrow> bool" where
  "is_stale e now_ms = (envelope_allows_stale_drop e \<and>
     (case dh_deadline_ms (env_header e) of None \<Rightarrow> False | Some d \<Rightarrow> d < now_ms))"

datatype ordering = Less | Equal | Greater

definition ord_cmp :: "'a::linorder \<Rightarrow> 'a \<Rightarrow> ordering" where
  "ord_cmp a b = (if a < b then Less else if a = b then Equal else Greater)"

fun ord_reverse :: "ordering \<Rightarrow> ordering" where
  "ord_reverse Less = Greater"
| "ord_reverse Equal = Equal"
| "ord_reverse Greater = Less"

definition deadline_or_max :: "DataEnvelope \<Rightarrow> u64" where
  "deadline_or_max e = (case dh_deadline_ms (env_header e) of None \<Rightarrow> - 1 | Some d \<Rightarrow> d)"

definition realtime_send_order :: "DataEnvelope \<Rightarrow> DataEnvelope \<Rightarrow> ordering" where
  "realtime_send_order left right =
     (let priority_order = ord_cmp (dh_priority (env_header right)) (dh_priority (env_header left)) in
      if priority_order \<noteq> Equal then priority_order
      else let deadline_order = ord_cmp (deadline_or_max left) (deadline_or_max right) in
      if deadline_order \<noteq> Equal then deadline_order
      else ord_cmp (dh_sequence_number (env_header left)) (dh_sequence_number (env_header right)))"

definition should_preempt_bulk :: "DataEnvelope \<Rightarrow> DataEnvelope \<Rightarrow> bool" where
  "should_preempt_bulk realtime bulk =
     (dh_priority (env_header realtime) > dh_priority (env_header bulk) \<and>
      lane_is_realtime (dh_lane (env_header realtime)) \<and>
      \<not> lane_is_realtime (dh_lane (env_header bulk)))"

fun default_realtime_priority :: "DataLane \<Rightarrow> DataPriority" where
  "default_realtime_priority Lane_Realtime = Prio_Realtime"
| "default_realtime_priority Lane_Interactive = Prio_Interactive"
| "default_realtime_priority Lane_Reliable = Prio_Normal"
| "default_realtime_priority Lane_Background = Prio_Background"

section \<open>The scheduler\<close>

record SchedulerStats =
  st_queued_realtime :: nat
  st_queued_reliable :: nat
  st_dropped_stale_realtime :: u64
  st_dropped_realtime_capacity :: u64
  st_rejected_reliable_capacity :: u64

record LaneSchedulerConfig =
  max_realtime_queued :: nat
  max_reliable_queued :: nat

definition config_default :: LaneSchedulerConfig where
  "config_default = \<lparr>max_realtime_queued = 256, max_reliable_queued = 64\<rparr>"

datatype SchedulerPushResult =
  Queued | DroppedStaleRealtime | DroppedRealtimeForCapacity | RejectedReliableForCapacity

text \<open>\<open>RealtimeQueueEntry::cmp\<close> is the reversed send order.\<close>

definition entry_cmp :: "DataEnvelope \<Rightarrow> DataEnvelope \<Rightarrow> ordering" where
  "entry_cmp a b = ord_reverse (realtime_send_order a b)"

definition entry_lt :: "DataEnvelope \<Rightarrow> DataEnvelope \<Rightarrow> bool" where
  "entry_lt a b = (entry_cmp a b = Less)"

record LaneScheduler =
  ls_realtime :: "DataEnvelope list"
  ls_reliable :: "DataEnvelope list"
  ls_config :: LaneSchedulerConfig
  ls_dropped_stale_realtime :: u64
  ls_dropped_realtime_capacity :: u64
  ls_rejected_reliable_capacity :: u64

definition with_config :: "LaneSchedulerConfig \<Rightarrow> LaneScheduler" where
  "with_config c = \<lparr>ls_realtime = [], ls_reliable = [], ls_config = c,
     ls_dropped_stale_realtime = 0, ls_dropped_realtime_capacity = 0,
     ls_rejected_reliable_capacity = 0\<rparr>"

text \<open>
  \<open>iter().enumerate().min_by(cmp)\<close> yields the index of the first least element;
  \<open>swap_remove(i)\<close> moves the last element into the hole.
\<close>

fun min_index_from :: "('a \<Rightarrow> 'a \<Rightarrow> bool) \<Rightarrow> nat \<Rightarrow> 'a \<Rightarrow> nat \<Rightarrow> 'a list \<Rightarrow> nat" where
  "min_index_from lt best b i [] = best"
| "min_index_from lt best b i (x # xs) =
     (if lt x b then min_index_from lt i x (Suc i) xs else min_index_from lt best b (Suc i) xs)"

fun min_index :: "('a \<Rightarrow> 'a \<Rightarrow> bool) \<Rightarrow> 'a list \<Rightarrow> nat option" where
  "min_index lt [] = None"
| "min_index lt (x # xs) = Some (min_index_from lt 0 x 1 xs)"

definition swap_remove :: "nat \<Rightarrow> 'a list \<Rightarrow> 'a list" where
  "swap_remove i xs = (if Suc i = length xs then butlast xs else (butlast xs)[i := last xs])"

definition ls_push :: "DataEnvelope \<Rightarrow> u64 \<Rightarrow> LaneScheduler \<Rightarrow> LaneScheduler \<times> SchedulerPushResult" where
  "ls_push e now_ms s =
     (if lane_is_realtime (dh_lane (env_header e)) then
        if is_stale e now_ms then
          (s\<lparr>ls_dropped_stale_realtime := ls_dropped_stale_realtime s + 1\<rparr>, DroppedStaleRealtime)
        else let queued = e # ls_realtime s in
          if length queued > max_realtime_queued (ls_config s) then
            (case min_index entry_lt queued of
               Some worst \<Rightarrow>
                 (s\<lparr>ls_realtime := swap_remove worst queued,
                    ls_dropped_realtime_capacity := ls_dropped_realtime_capacity s + 1\<rparr>,
                  DroppedRealtimeForCapacity)
             | None \<Rightarrow> (s, Queued))
          else (s\<lparr>ls_realtime := queued\<rparr>, Queued)
      else if length (ls_reliable s) \<ge> max_reliable_queued (ls_config s) then
        (s\<lparr>ls_rejected_reliable_capacity := ls_rejected_reliable_capacity s + 1\<rparr>,
         RejectedReliableForCapacity)
      else (s\<lparr>ls_reliable := ls_reliable s @ [e]\<rparr>, Queued))"

function drop_stale :: "u64 \<Rightarrow> LaneScheduler \<Rightarrow> LaneScheduler" where
  "drop_stale now_ms s =
     (case heap_pop entry_lt (ls_realtime s) of
        None \<Rightarrow> s
      | Some (e, rest) \<Rightarrow>
          if \<not> is_stale e now_ms then s
          else drop_stale now_ms (s\<lparr>ls_realtime := rest,
                 ls_dropped_stale_realtime := ls_dropped_stale_realtime s + 1\<rparr>))"
  by auto

termination
  by (relation "measure (\<lambda>(_, s). length (ls_realtime s))") (auto dest: heap_pop_length)

declare drop_stale.simps [simp del]

definition pop_next :: "u64 \<Rightarrow> LaneScheduler \<Rightarrow> LaneScheduler \<times> DataEnvelope option" where
  "pop_next now_ms s =
     (let s = drop_stale now_ms s in
      case heap_pop entry_lt (ls_realtime s) of
        Some (e, rest) \<Rightarrow> (s\<lparr>ls_realtime := rest\<rparr>, Some e)
      | None \<Rightarrow> (case ls_reliable s of
            [] \<Rightarrow> (s, None)
          | e # rest \<Rightarrow> (s\<lparr>ls_reliable := rest\<rparr>, Some e)))"

definition ls_stats :: "LaneScheduler \<Rightarrow> SchedulerStats" where
  "ls_stats s = \<lparr>st_queued_realtime = length (ls_realtime s),
     st_queued_reliable = length (ls_reliable s),
     st_dropped_stale_realtime = ls_dropped_stale_realtime s,
     st_dropped_realtime_capacity = ls_dropped_realtime_capacity s,
     st_rejected_reliable_capacity = ls_rejected_reliable_capacity s\<rparr>"

definition ls_is_empty :: "LaneScheduler \<Rightarrow> bool" where
  "ls_is_empty s = (ls_realtime s = [] \<and> ls_reliable s = [])"

section \<open>The sender worker\<close>

record SenderCounters =
  entrance_enqueued :: u64
  entrance_full :: u64
  entrance_closed :: u64
  scheduler_dropped_stale_realtime :: u64
  scheduler_dropped_realtime_capacity :: u64
  scheduler_rejected_reliable_capacity :: u64
  sent_realtime :: u64
  sent_reliable :: u64
  send_errors :: u64

definition counters_default :: SenderCounters where
  "counters_default = \<lparr>entrance_enqueued = 0, entrance_full = 0, entrance_closed = 0,
     scheduler_dropped_stale_realtime = 0, scheduler_dropped_realtime_capacity = 0,
     scheduler_rejected_reliable_capacity = 0, sent_realtime = 0, sent_reliable = 0, send_errors = 0\<rparr>"

definition record_push_result :: "SchedulerPushResult \<Rightarrow> SenderCounters \<Rightarrow> SenderCounters" where
  "record_push_result r c =
     (case r of
        Queued \<Rightarrow> c
      | DroppedStaleRealtime \<Rightarrow>
          c\<lparr>scheduler_dropped_stale_realtime := scheduler_dropped_stale_realtime c + 1\<rparr>
      | DroppedRealtimeForCapacity \<Rightarrow>
          c\<lparr>scheduler_dropped_realtime_capacity := scheduler_dropped_realtime_capacity c + 1\<rparr>
      | RejectedReliableForCapacity \<Rightarrow>
          c\<lparr>scheduler_rejected_reliable_capacity := scheduler_rejected_reliable_capacity c + 1\<rparr>)"

text \<open>The loop ends when the channel has nothing more: the list is what it delivered, each with its clock reading.\<close>

fun drain_realtime_ingress ::
  "(DataEnvelope \<times> u64) list \<Rightarrow> LaneScheduler \<Rightarrow> SenderCounters \<Rightarrow> LaneScheduler \<times> SenderCounters" where
  "drain_realtime_ingress [] s c = (s, c)"
| "drain_realtime_ingress ((e, now) # rest) s c =
     (case ls_push e now s of (s', r) \<Rightarrow> drain_realtime_ingress rest s' (record_push_result r c))"

text \<open>\<open>sent\<close>: whether the datagram left; an error ends the worker.\<close>

definition send_scheduled_envelope ::
  "bool \<Rightarrow> DataEnvelope \<Rightarrow> SenderCounters \<Rightarrow> SenderCounters \<times> (unit, unit) result" where
  "send_scheduled_envelope sent e c =
     (if \<not> sent then (c\<lparr>send_errors := send_errors c + 1\<rparr>, Err ())
      else if lane_is_realtime (dh_lane (env_header e))
      then (c\<lparr>sent_realtime := sent_realtime c + 1\<rparr>, Ok ())
      else (c\<lparr>sent_reliable := sent_reliable c + 1\<rparr>, Ok ()))"

text \<open>One turn of \<open>run_sender_worker\<close>: ingest what is waiting, pop, and send what was popped.\<close>

definition worker_turn ::
  "(DataEnvelope \<times> u64) list \<Rightarrow> u64 \<Rightarrow> bool \<Rightarrow> LaneScheduler \<Rightarrow> SenderCounters \<Rightarrow>
     LaneScheduler \<times> SenderCounters \<times> (unit, unit) result" where
  "worker_turn waiting now sent s c =
     (case drain_realtime_ingress waiting s c of (s1, c1) \<Rightarrow>
      case pop_next now s1 of
        (s2, None) \<Rightarrow> (s2, c1, Ok ())
      | (s2, Some e) \<Rightarrow> (case send_scheduled_envelope sent e c1 of (c2, r) \<Rightarrow> (s2, c2, r)))"

section \<open>Urgency\<close>

definition rank :: "DataEnvelope \<Rightarrow> nat \<times> nat \<times> nat" where
  "rank e = (3 - unat (priority_wire_id (dh_priority (env_header e))), unat (deadline_or_max e),
     unat (dh_sequence_number (env_header e)))"

lemma priority_rank:
  "p < q \<longleftrightarrow> 3 - unat (priority_wire_id q) < 3 - unat (priority_wire_id p)"
  "p = q \<longleftrightarrow> 3 - unat (priority_wire_id q) = 3 - unat (priority_wire_id p)"
  by (cases p; cases q; simp add: less_DataPriority_def word_less_nat_alt)+

lemma ord_cmp_simps:
  "ord_cmp a b = Less \<longleftrightarrow> a < b" "ord_cmp a b = Equal \<longleftrightarrow> a = b" "ord_cmp a b = Greater \<longleftrightarrow> b < a"
  by (auto simp: ord_cmp_def)

lemma word_eq_unat: "a = b \<longleftrightarrow> unat a = unat b" for a b :: "'a::len word"
  using unsigned_word_eqI by blast

lemma send_order_rank:
  "realtime_send_order a b = Greater \<longleftrightarrow> rank b < rank a"
  unfolding realtime_send_order_def Let_def rank_def less_prod_def' ord_cmp_simps
  by (simp add: ord_cmp_simps priority_rank word_less_nat_alt word_eq_unat [of "deadline_or_max a"])

lemma entry_lt_rank: "entry_lt a b \<longleftrightarrow> rank b < rank a"
proof -
  have "entry_lt a b \<longleftrightarrow> realtime_send_order a b = Greater"
    by (cases "realtime_send_order a b") (simp_all add: entry_lt_def entry_cmp_def)
  then show ?thesis by (simp add: send_order_rank)
qed

interpretation send_queue: ranked_heap entry_lt rank UNIV
  by unfold_locales (simp add: entry_lt_rank)

lemma min_index_from_bounds:
  "best < i \<Longrightarrow> i + length xs = n \<Longrightarrow> min_index_from lt best b i xs < n"
  by (induction lt best b i xs rule: min_index_from.induct) auto

lemma swap_remove_mset:
  assumes "i < length xs"
  shows "add_mset (xs ! i) (mset (swap_remove i xs)) = mset xs"
proof -
  obtain ys y where xs: "xs = ys @ [y]" using assms by (cases xs rule: rev_cases) auto
  show ?thesis
  proof (cases "i < length ys")
    case True
    then show ?thesis
      by (simp add: xs swap_remove_def nth_append mset_update)
  qed (use assms in \<open>simp add: xs swap_remove_def nth_append\<close>)
qed

context ranked_heap
begin

lemma min_index_from_worst:
  assumes "xs ! best = b" "best < i" "drop i xs = ys" "set xs \<subseteq> carrier"
    "\<forall>k < i. k < length xs \<longrightarrow> rank (xs ! k) \<le> rank b" "i \<le> length xs"
  shows "\<forall>k < length xs. rank (xs ! k) \<le> rank (xs ! min_index_from lt best b i ys)"
  using assms
proof (induction ys arbitrary: best b i)
  case (Cons y ys)
  have len: "i < length xs" using Cons.prems(3) by (metis drop_all list.distinct(1) not_le)
  then have i: "xs ! i = y" "drop (Suc i) xs = ys"
    using Cons.prems(3) by (metis Cons_nth_drop_Suc list.inject)+
  have carr: "y \<in> carrier" "b \<in> carrier"
    using Cons.prems len i(1) by (auto intro: nth_mem)
  have below: "rank (xs ! k) \<le> max (rank b) (rank y)" if "k < Suc i" for k
    using that Cons.prems(5) len i(1) by (auto simp: less_Suc_eq le_max_iff_disj)
  show ?case
  proof (cases "lt y b")
    case True
    then have "rank b \<le> rank y" using lt_rank carr by (blast intro: less_imp_le)
    then show ?thesis
      using Cons.IH [of i y "Suc i"] i len Cons.prems(4) below True by (simp add: max_def)
  next
    case False
    then have "rank y \<le> rank b" using lt_rank carr by force
    then show ?thesis
      using Cons.IH [of best b "Suc i"] i len Cons.prems(1,2,4) below False by (simp add: max_def split: if_splits)
  qed
qed auto

lemma min_index_worst:
  assumes "min_index lt xs = Some i" "set xs \<subseteq> carrier" "z \<in> set xs"
  shows "i < length xs \<and> rank z \<le> rank (xs ! i)"
proof (cases xs)
  case (Cons x ys)
  then have i: "i = min_index_from lt 0 x 1 ys" using assms(1) by simp
  then have "i < length xs" using min_index_from_bounds [of 0 1 ys "length xs" lt x] Cons by simp
  moreover have "\<forall>k < length xs. rank (xs ! k) \<le> rank (xs ! i)"
    using min_index_from_worst [of xs 0 x 1 ys] Cons assms(2) i by (simp add: less_Suc_eq)
  ultimately show ?thesis using assms(3) by (auto simp: in_set_conv_nth)
qed (use assms in simp)

end

section \<open>Runs\<close>

datatype SchedulerOp = PushOp DataEnvelope u64 | PopOp u64

fun ls_step :: "LaneScheduler \<Rightarrow> SchedulerOp \<Rightarrow> LaneScheduler \<times> DataEnvelope option" where
  "ls_step s (PushOp e now) = (fst (ls_push e now s), None)"
| "ls_step s (PopOp now) = pop_next now s"

fun ls_run :: "LaneScheduler \<Rightarrow> SchedulerOp list \<Rightarrow> LaneScheduler \<times> DataEnvelope list" where
  "ls_run s [] = (s, [])"
| "ls_run s (x # xs) =
     (case ls_step s x of (s', r) \<Rightarrow> case ls_run s' xs of (s'', out) \<Rightarrow>
        (s'', (case r of None \<Rightarrow> [] | Some e \<Rightarrow> [e]) @ out))"

text \<open>The reliable envelopes a run accepts, in order.\<close>

fun accepted_reliable :: "LaneScheduler \<Rightarrow> SchedulerOp list \<Rightarrow> DataEnvelope list" where
  "accepted_reliable s [] = []"
| "accepted_reliable s (x # xs) =
     (case x of
        PushOp e now \<Rightarrow> (if \<not> lane_is_realtime (dh_lane (env_header e)) \<and> snd (ls_push e now s) = Queued
                         then [e] else [])
      | PopOp now \<Rightarrow> []) @ accepted_reliable (fst (ls_step s x)) xs"

abbreviation is_rt :: "DataEnvelope \<Rightarrow> bool" where
  "is_rt e \<equiv> lane_is_realtime (dh_lane (env_header e))"

definition ls_inv :: "LaneScheduler \<Rightarrow> bool" where
  "ls_inv s = (length (ls_realtime s) \<le> max_realtime_queued (ls_config s) \<and>
     length (ls_reliable s) \<le> max_reliable_queued (ls_config s) \<and>
     list_all is_rt (ls_realtime s) \<and> list_all (\<lambda>e. \<not> is_rt e) (ls_reliable s))"

definition total_dropped :: "LaneScheduler \<Rightarrow> u64" where
  "total_dropped s = ls_dropped_stale_realtime s + ls_dropped_realtime_capacity s
     + ls_rejected_reliable_capacity s"

definition queued_count :: "LaneScheduler \<Rightarrow> nat" where
  "queued_count s = length (ls_realtime s) + length (ls_reliable s)"

text \<open>What one push does: the four outcomes.\<close>

lemma ls_push_cases:
  obtains (stale) "is_rt e" "is_stale e now" "ls_push e now s =
      (s\<lparr>ls_dropped_stale_realtime := ls_dropped_stale_realtime s + 1\<rparr>, DroppedStaleRealtime)"
  | (evict) worst where "is_rt e" "\<not> is_stale e now" "worst \<in> set (e # ls_realtime s)"
      "\<forall>z \<in> set (e # ls_realtime s). rank z \<le> rank worst"
      "length (ls_realtime s) \<ge> max_realtime_queued (ls_config s)"
      "snd (ls_push e now s) = DroppedRealtimeForCapacity"
      "mset (e # ls_realtime s) = add_mset worst (mset (ls_realtime (fst (ls_push e now s))))"
      "fst (ls_push e now s) = s\<lparr>ls_realtime := ls_realtime (fst (ls_push e now s)),
         ls_dropped_realtime_capacity := ls_dropped_realtime_capacity s + 1\<rparr>"
  | (queued_rt) "is_rt e" "\<not> is_stale e now" "length (ls_realtime s) < max_realtime_queued (ls_config s)"
      "ls_push e now s = (s\<lparr>ls_realtime := e # ls_realtime s\<rparr>, Queued)"
  | (rejected) "\<not> is_rt e" "length (ls_reliable s) \<ge> max_reliable_queued (ls_config s)"
      "ls_push e now s = (s\<lparr>ls_rejected_reliable_capacity := ls_rejected_reliable_capacity s + 1\<rparr>,
         RejectedReliableForCapacity)"
  | (queued_rel) "\<not> is_rt e" "length (ls_reliable s) < max_reliable_queued (ls_config s)"
      "ls_push e now s = (s\<lparr>ls_reliable := ls_reliable s @ [e]\<rparr>, Queued)"
proof -
  consider "is_rt e" "is_stale e now"
    | "\<not> is_rt e" "length (ls_reliable s) < max_reliable_queued (ls_config s)"
    | "\<not> is_rt e" "length (ls_reliable s) \<ge> max_reliable_queued (ls_config s)"
    | "is_rt e" "\<not> is_stale e now" "length (ls_realtime s) < max_realtime_queued (ls_config s)"
    | "is_rt e" "\<not> is_stale e now" "length (ls_realtime s) \<ge> max_realtime_queued (ls_config s)"
    by linarith
  then show thesis
  proof cases
    case 5
    let ?q = "e # ls_realtime s"
    obtain i where i: "min_index entry_lt ?q = Some i" by simp
    have w: "i < length ?q" "\<forall>z \<in> set ?q. rank z \<le> rank (?q ! i)"
      using send_queue.min_index_worst [OF i] by auto
    have "ls_push e now s = (s\<lparr>ls_realtime := swap_remove i ?q,
        ls_dropped_realtime_capacity := ls_dropped_realtime_capacity s + 1\<rparr>, DroppedRealtimeForCapacity)"
      using 5 i by (simp add: ls_push_def)
    then show thesis using evict [of "?q ! i"] 5 w swap_remove_mset [OF w(1)] nth_mem [OF w(1)] by simp
  qed (use stale queued_rt rejected queued_rel in \<open>auto simp: ls_push_def Let_def not_le\<close>)
qed

lemma drop_stale_spec:
  "\<exists>n gone. drop_stale now s = s\<lparr>ls_realtime := ls_realtime (drop_stale now s),
       ls_dropped_stale_realtime := ls_dropped_stale_realtime s + word_of_nat n\<rparr> \<and>
     mset (ls_realtime s) = mset gone + mset (ls_realtime (drop_stale now s)) \<and> length gone = n \<and>
     (\<forall>e \<in> set gone. is_stale e now) \<and>
     (\<forall>e rest. heap_pop entry_lt (ls_realtime (drop_stale now s)) = Some (e, rest) \<longrightarrow> \<not> is_stale e now)"
proof (induction now s rule: drop_stale.induct)
  case (1 now s)
  show ?case
  proof (cases "heap_pop entry_lt (ls_realtime s)")
    case None
    then show ?thesis by (intro exI [of _ 0] exI [of _ "[]"]) (simp add: drop_stale.simps [of now s])
  next
    case (Some p)
    obtain e rest where p: "p = (e, rest)" by force
    show ?thesis
    proof (cases "is_stale e now")
      case True
      let ?s = "s\<lparr>ls_realtime := rest, ls_dropped_stale_realtime := ls_dropped_stale_realtime s + 1\<rparr>"
      have step: "drop_stale now s = drop_stale now ?s" using Some p True by (simp add: drop_stale.simps [of now s])
      obtain n gone where IH: "drop_stale now ?s = ?s\<lparr>ls_realtime := ls_realtime (drop_stale now ?s),
         ls_dropped_stale_realtime := ls_dropped_stale_realtime ?s + word_of_nat n\<rparr>"
        "mset rest = mset gone + mset (ls_realtime (drop_stale now ?s))" "length gone = n"
        "\<forall>e \<in> set gone. is_stale e now"
        "\<forall>e rest. heap_pop entry_lt (ls_realtime (drop_stale now ?s)) = Some (e, rest) \<longrightarrow> \<not> is_stale e now"
        using "1.IH" [OF Some p [symmetric]] True by auto
      have "drop_stale now s = s\<lparr>ls_realtime := ls_realtime (drop_stale now s),
         ls_dropped_stale_realtime := ls_dropped_stale_realtime s + word_of_nat (Suc n)\<rparr>"
        using IH(1) by (simp add: step algebra_simps)
      moreover have "mset (ls_realtime s) = mset (e # gone) + mset (ls_realtime (drop_stale now s))"
        using heap_pop_mset [of entry_lt "ls_realtime s" e rest] Some p IH(2) step by simp
      ultimately show ?thesis using IH(3-5) True step
        by (intro exI [of _ "Suc n"] exI [of _ "e # gone"]) simp
    next
      case False
      then show ?thesis using Some p
        by (intro exI [of _ 0] exI [of _ "[]"]) (simp add: drop_stale.simps [of now s])
    qed
  qed
qed

text \<open>What one pop does: stale realtime envelopes go first, then a realtime one, else the oldest reliable one.\<close>

lemma pop_next_cases:
  obtains (realtime) gone e rest where "mset (ls_realtime s) = mset gone + add_mset e (mset rest)"
      "\<forall>z \<in> set gone. is_stale z now" "\<not> is_stale e now" "\<forall>z \<in> set rest. rank e \<le> rank z"
      "pop_next now s = (s\<lparr>ls_realtime := rest,
         ls_dropped_stale_realtime := ls_dropped_stale_realtime s + word_of_nat (length gone)\<rparr>, Some e)"
  | (bulk) e rest where "\<forall>z \<in> set (ls_realtime s). is_stale z now" "ls_reliable s = e # rest"
      "pop_next now s = (s\<lparr>ls_realtime := [], ls_reliable := rest, ls_dropped_stale_realtime :=
         ls_dropped_stale_realtime s + word_of_nat (length (ls_realtime s))\<rparr>, Some e)"
  | (idle) "\<forall>z \<in> set (ls_realtime s). is_stale z now" "ls_reliable s = []"
      "pop_next now s = (s\<lparr>ls_realtime := [], ls_dropped_stale_realtime :=
         ls_dropped_stale_realtime s + word_of_nat (length (ls_realtime s))\<rparr>, None)"
proof -
  let ?d = "drop_stale now s"
  obtain n gone where d: "?d = s\<lparr>ls_realtime := ls_realtime ?d,
       ls_dropped_stale_realtime := ls_dropped_stale_realtime s + word_of_nat n\<rparr>"
    "mset (ls_realtime s) = mset gone + mset (ls_realtime ?d)" "length gone = n"
    "\<forall>e \<in> set gone. is_stale e now"
    "\<forall>e rest. heap_pop entry_lt (ls_realtime ?d) = Some (e, rest) \<longrightarrow> \<not> is_stale e now"
    using drop_stale_spec [of now s] by blast
  show thesis
  proof (cases "heap_pop entry_lt (ls_realtime ?d)")
    case (Some p)
    obtain e rest where p: "p = (e, rest)" by force
    note hp = heap_pop_mset [OF Some [unfolded p]]
    have least: "\<forall>z \<in> set rest. rank e \<le> rank z"
      using send_queue.pop_least [OF _ Some [unfolded p]] arg_cong [OF hp, of set_mset] by auto
    have "pop_next now s = (s\<lparr>ls_realtime := rest,
        ls_dropped_stale_realtime := ls_dropped_stale_realtime s + word_of_nat (length gone)\<rparr>, Some e)"
    proof -
      define h where "h = ls_realtime ?d"
      have "?d = s\<lparr>ls_realtime := h, ls_dropped_stale_realtime :=
          ls_dropped_stale_realtime s + word_of_nat (length gone)\<rparr>"
        using d(1,3) by (simp add: h_def)
      then show ?thesis using Some p by (simp add: pop_next_def)
    qed
    then show thesis using realtime [of gone e rest] d(2,4,5) hp least Some p by auto
  next
    case None
    then have empty: "ls_realtime ?d = []" by simp
    then have gone: "mset (ls_realtime s) = mset gone" using d(2) by simp
    have all: "\<forall>z \<in> set (ls_realtime s). is_stale z now" using d(4) mset_eq_setD [OF gone] by simp
    have len: "length (ls_realtime s) = n" using arg_cong [OF gone, of size] d(3) by simp
    have dd: "?d = s\<lparr>ls_realtime := [], ls_dropped_stale_realtime :=
        ls_dropped_stale_realtime s + word_of_nat (length (ls_realtime s))\<rparr>"
      using d(1) unfolding empty len .
    show thesis
      by (cases "ls_reliable s") (use bulk idle all in \<open>auto simp: pop_next_def dd\<close>)
  qed
qed

lemma sched_push_inv:
  assumes "ls_inv s"
  shows "ls_inv (fst (ls_push e now s))"
proof (cases rule: ls_push_cases [of e now s])
  case (evict worst)
  let ?s = "fst (ls_push e now s)"
  have len: "length (ls_realtime ?s) = length (ls_realtime s)"
    using arg_cong [OF evict(7), of size] by simp
  have "set (ls_realtime ?s) \<subseteq> set (e # ls_realtime s)"
    using arg_cong [OF evict(7), of set_mset] by auto
  then have "list_all is_rt (ls_realtime ?s)" using assms evict(1) by (auto simp: ls_inv_def list_all_iff)
  moreover have "ls_reliable ?s = ls_reliable s" "ls_config ?s = ls_config s"
    by (subst evict(8), simp)+
  ultimately show ?thesis using assms len by (simp add: ls_inv_def)
qed (use assms in \<open>auto simp: ls_inv_def\<close>)

lemma pop_next_inv:
  assumes "ls_inv s"
  shows "ls_inv (fst (pop_next now s))"
proof (cases rule: pop_next_cases [of s now])
  case (realtime gone e rest)
  have "length rest \<le> length (ls_realtime s)" "set rest \<subseteq> set (ls_realtime s)"
    using arg_cong [OF realtime(1), of size] arg_cong [OF realtime(1), of set_mset] by auto
  then show ?thesis using assms realtime(5) by (auto simp: ls_inv_def list_all_iff)
qed (use assms in \<open>auto simp: ls_inv_def\<close>)

interpretation scheduler_ops: op_machine "\<lambda>s x. fst (ls_step s x)" ls_inv
proof
  fix s x assume "ls_inv s"
  then show "ls_inv (fst (ls_step s x))" using sched_push_inv pop_next_inv by (cases x) auto
qed

lemma ls_run_fst: "fst (ls_run s xs) = foldl (\<lambda>s x. fst (ls_step s x)) s xs"
  by (induction xs arbitrary: s) (auto split: prod.splits, metis fst_conv)

lemma ls_run_Cons:
  "snd (ls_run s (x # xs)) = (case snd (ls_step s x) of None \<Rightarrow> [] | Some e \<Rightarrow> [e]) @
     snd (ls_run (fst (ls_step s x)) xs)"
  "fst (ls_run s (x # xs)) = fst (ls_run (fst (ls_step s x)) xs)"
  by (simp_all add: split_beta)

text \<open>Envelopes entering and leaving in one step; counters are 64-bit and wrap.\<close>

definition pushes :: "SchedulerOp list \<Rightarrow> nat" where
  "pushes xs = length (filter (\<lambda>x. case x of PushOp _ _ \<Rightarrow> True | PopOp _ \<Rightarrow> False) xs)"

lemma step_accounting:
  "word_of_nat (queued_count s) + total_dropped s + word_of_nat (pushes [x]) =
   word_of_nat (queued_count (fst (ls_step s x))) + total_dropped (fst (ls_step s x)) +
   (case snd (ls_step s x) of None \<Rightarrow> 0 | Some _ \<Rightarrow> 1)"
proof (cases x)
  case (PushOp e now)
  show ?thesis
  proof (cases rule: ls_push_cases [of e now s])
    case (evict worst)
    have "length (ls_realtime (fst (ls_push e now s))) = length (ls_realtime s)"
      using arg_cong [OF evict(7), of size] by simp
    then show ?thesis using PushOp
      by (simp add: queued_count_def total_dropped_def pushes_def) (subst evict(8), simp)+
  qed (use PushOp in \<open>auto simp: queued_count_def total_dropped_def pushes_def\<close>)
next
  case (PopOp now)
  show ?thesis
  proof (cases rule: pop_next_cases [of s now])
    case (realtime gone e rest)
    have "length (ls_realtime s) = Suc (length gone + length rest)"
      using arg_cong [OF realtime(1), of size] by simp
    then show ?thesis using PopOp realtime(5)
      by (simp add: queued_count_def total_dropped_def pushes_def)
  qed (use PopOp in \<open>auto simp: queued_count_def total_dropped_def pushes_def\<close>)
qed

lemma run_accounting:
  "word_of_nat (queued_count s) + total_dropped s + word_of_nat (pushes xs) =
   word_of_nat (queued_count (fst (ls_run s xs))) + total_dropped (fst (ls_run s xs)) +
   word_of_nat (length (snd (ls_run s xs)))"
proof (induction xs arbitrary: s)
  case (Cons x xs)
  let ?s = "fst (ls_step s x)"
  let ?r = "(case snd (ls_step s x) of None \<Rightarrow> 0 | Some _ \<Rightarrow> 1) :: u64"
  have p: "word_of_nat (pushes (x # xs)) = (word_of_nat (pushes [x]) + word_of_nat (pushes xs) :: u64)"
    by (simp add: pushes_def)
  have out: "word_of_nat (length (snd (ls_run s (x # xs)))) = ?r + word_of_nat (length (snd (ls_run ?s xs)))"
    unfolding ls_run_Cons by (simp split: option.splits)
  have "word_of_nat (queued_count s) + total_dropped s + word_of_nat (pushes (x # xs)) =
      word_of_nat (queued_count ?s) + total_dropped ?s + word_of_nat (pushes xs) + ?r"
    using step_accounting [of s x] unfolding p by (metis (no_types, lifting) add.assoc add.commute)
  then show ?case unfolding Cons [of ?s] out ls_run_Cons(2) by (simp only: ac_simps)
qed (simp add: pushes_def)

lemma step_fifo:
  assumes "ls_inv s"
  shows "filter (\<lambda>e. \<not> is_rt e) (case snd (ls_step s x) of None \<Rightarrow> [] | Some e \<Rightarrow> [e]) @
     ls_reliable (fst (ls_step s x)) = ls_reliable s @ accepted_reliable s [x]"
proof (cases x)
  case (PushOp e now)
  show ?thesis
  proof (cases rule: ls_push_cases [of e now s])
    case (evict worst)
    have "ls_reliable (fst (ls_push e now s)) = ls_reliable s" by (subst evict(8), simp)
    then show ?thesis using PushOp evict(1) by simp
  qed (use PushOp in auto)
next
  case (PopOp now)
  show ?thesis
  proof (cases rule: pop_next_cases [of s now])
    case (realtime gone e rest)
    have "e \<in> set (ls_realtime s)" using arg_cong [OF realtime(1), of set_mset] by auto
    then have "is_rt e" using assms by (auto simp: ls_inv_def list_all_iff)
    then show ?thesis using PopOp realtime(5) by simp
  qed (use PopOp assms in \<open>auto simp: ls_inv_def\<close>)
qed

lemma run_fifo:
  "ls_inv s \<Longrightarrow> filter (\<lambda>e. \<not> is_rt e) (snd (ls_run s xs)) @ ls_reliable (fst (ls_run s xs)) =
     ls_reliable s @ accepted_reliable s xs"
proof (induction xs arbitrary: s)
  case (Cons x xs)
  have "accepted_reliable s (x # xs) = accepted_reliable s [x] @ accepted_reliable (fst (ls_step s x)) xs"
    by simp
  then show ?case
    using Cons.IH [OF scheduler_ops.keeps [OF Cons.prems], of x] step_fifo [OF Cons.prems, of x]
    unfolding ls_run_Cons by (metis append.assoc filter_append)
qed simp

section \<open>Properties\<close>

text \<open>
  Both queues stay within their configured bounds and every envelope waits in the queue of its
  lane, for any sequence of pushes and pops.
\<close>

theorem scheduler_bounded: "ls_inv (fst (ls_run (with_config c) xs))"
  unfolding ls_run_fst by (rule scheduler_ops.run_inv) (simp add: ls_inv_def with_config_def)

text \<open>
  C9. A pop sends the most urgent fresh envelope.  While a realtime envelope that is not stale waits,
  the pop returns a fresh realtime envelope of least rank (highest priority, then earliest deadline,
  then lowest sequence number) among all fresh ones; only when every realtime envelope is stale does it
  return the oldest reliable envelope, and it returns nothing only when there is none.
\<close>

theorem pop_next_most_urgent:
  "case snd (pop_next now s) of
     None \<Rightarrow> filter (\<lambda>z. \<not> is_stale z now) (ls_realtime s) = [] \<and> ls_reliable s = []
   | Some e \<Rightarrow>
       if filter (\<lambda>z. \<not> is_stale z now) (ls_realtime s) = []
       then \<exists>rest. ls_reliable s = e # rest \<and> ls_reliable (fst (pop_next now s)) = rest
       else e \<in> set (ls_realtime s) \<and> \<not> is_stale e now \<and>
         rank e = Min (rank ` {z \<in> set (ls_realtime s). \<not> is_stale z now}) \<and>
         ls_reliable (fst (pop_next now s)) = ls_reliable s"
proof (cases rule: pop_next_cases [of s now])
  case (realtime gone e rest)
  have set: "set (ls_realtime s) = set gone \<union> insert e (set rest)"
    using arg_cong [OF realtime(1), of set_mset] by simp
  have "rank e = Min (rank ` {z \<in> set (ls_realtime s). \<not> is_stale z now})"
    by (rule sym, rule Min_eqI) (use set realtime(2-4) in auto)
  then show ?thesis using realtime set by (auto simp: filter_empty_conv)
qed (auto simp: filter_empty_conv)

text \<open>
  Overload evicts the least urgent.  A push into a full realtime queue keeps the queue at its size
  and removes exactly one envelope of greatest rank among the queued ones and the new one.
\<close>

theorem overload_evicts_least_urgent:
  assumes "is_rt e" "\<not> is_stale e now" "length (ls_realtime s) = max_realtime_queued (ls_config s)"
  shows "snd (ls_push e now s) = DroppedRealtimeForCapacity \<and>
    (\<exists>worst. mset (e # ls_realtime s) = add_mset worst (mset (ls_realtime (fst (ls_push e now s)))) \<and>
       rank worst = Max (rank ` set (e # ls_realtime s)))"
proof (cases rule: ls_push_cases [of e now s])
  case (evict worst)
  have "rank worst = Max (rank ` set (e # ls_realtime s))"
    by (rule sym, rule Max_eqI) (use evict(3,4) in auto)
  then show ?thesis using evict(6,7) by blast
qed (use assms in auto)

lemma overload_evicts_least_urgent_witness:
  "snd (ls_push (realtime_audio 1 2 3 []) 0
      ((with_config \<lparr>max_realtime_queued = 1, max_reliable_queued = 1\<rparr>)
        \<lparr>ls_realtime := [realtime_video 1 1 0 5 []]\<rparr>)) = DroppedRealtimeForCapacity"
  using overload_evicts_least_urgent [of "realtime_audio 1 2 3 []" 0
      "(with_config \<lparr>max_realtime_queued = 1, max_reliable_queued = 1\<rparr>)
        \<lparr>ls_realtime := [realtime_video 1 1 0 5 []]\<rparr>"]
  by (simp add: realtime_audio_def envelope_new_def lane_is_realtime_def is_stale_def
      envelope_allows_stale_drop_def with_config_def)

text \<open>
  Nothing is lost unaccounted.  For any run from a fresh scheduler, the number of pushed envelopes
  equals the number sent plus the number still queued plus the three drop counters (modulo the 64-bit
  width of the counters), and the reliable envelopes sent, followed by those still queued, are exactly
  the accepted reliable pushes in their order.
\<close>

theorem scheduler_accounts_for_all:
  "word_of_nat (pushes xs) =
     word_of_nat (length (snd (ls_run (with_config c) xs))) +
     word_of_nat (queued_count (fst (ls_run (with_config c) xs))) +
     total_dropped (fst (ls_run (with_config c) xs)) \<and>
   filter (\<lambda>e. \<not> is_rt e) (snd (ls_run (with_config c) xs)) @
     ls_reliable (fst (ls_run (with_config c) xs)) = accepted_reliable (with_config c) xs"
proof
  have z: "queued_count (with_config c) = 0" "total_dropped (with_config c) = 0"
    by (simp_all add: queued_count_def total_dropped_def with_config_def)
  show "word_of_nat (pushes xs) =
     word_of_nat (length (snd (ls_run (with_config c) xs))) +
     word_of_nat (queued_count (fst (ls_run (with_config c) xs))) +
     total_dropped (fst (ls_run (with_config c) xs))"
    using run_accounting [of "with_config c" xs] unfolding z by (simp add: ac_simps)
  have "ls_inv (with_config c)" "ls_reliable (with_config c) = []"
    by (simp_all add: ls_inv_def with_config_def)
  then show "filter (\<lambda>e. \<not> is_rt e) (snd (ls_run (with_config c) xs)) @
     ls_reliable (fst (ls_run (with_config c) xs)) = accepted_reliable (with_config c) xs"
    using run_fifo [of "with_config c" xs] by simp
qed

text \<open>
  The sender's stale counter misses what the scheduler drops while popping.  A video envelope
  that is fresh when it is ingested and past its deadline when the worker pops is discarded, the
  scheduler counts it, and the sender's \<open>scheduler_dropped_stale_realtime\<close> stays zero.
\<close>

theorem pop_drops_not_reported:
  "\<exists>s c. worker_turn [(realtime_video 1 1 0 5 [], 0)] 9 True (with_config config_default)
       counters_default = (s, c, Ok ()) \<and>
     ls_is_empty s \<and> ls_dropped_stale_realtime s = 1 \<and> scheduler_dropped_stale_realtime c = 0"
proof -
  let ?e = "realtime_video 1 1 0 5 []"
  have push: "ls_push ?e 0 (with_config config_default) =
      ((with_config config_default)\<lparr>ls_realtime := [?e]\<rparr>, Queued)"
    by (simp add: ls_push_def realtime_video_def envelope_new_def lane_is_realtime_def is_stale_def
        with_config_def config_default_def envelope_allows_stale_drop_def)
  have stale: "is_stale ?e 9"
    by (simp add: is_stale_def realtime_video_def envelope_new_def envelope_allows_stale_drop_def
        lane_allows_stale_drop_def word_less_nat_alt)
  let ?s = "(with_config config_default)\<lparr>ls_realtime := [?e]\<rparr>"
  have pop: "pop_next 9 ?s = (?s\<lparr>ls_realtime := [], ls_dropped_stale_realtime := 1\<rparr>, None)"
    using stale by (simp add: pop_next_def drop_stale.simps heap_pop_def with_config_def)
  show ?thesis
    by (simp add: worker_turn_def push record_push_result_def pop)
      (simp add: ls_is_empty_def with_config_def counters_default_def)
qed

end
