(* ===== verification/Role_Machine.thy ===== *)
theory Role_Machine
  imports Base
begin

text \<open>
  The role of a device (\<open>remote_core/src/role.rs\<close>): idle, connecting to a host, viewing it, or serving
  a viewer, with the conflict policy and the timeouts.

  A Rust \<open>String\<close> is the list of its Unicode scalar values.  The socket address of a peer is a type
  parameter, and its \<open>to_string\<close> is an argument of the constructors that use it.
\<close>

type_synonym scalars = "nat list"

section \<open>Peers and sessions\<close>

text \<open>\<open>char::is_whitespace\<close>: the code points with the Unicode property \<open>White_Space\<close>.\<close>

definition is_whitespace :: "nat \<Rightarrow> bool" where
  "is_whitespace c \<longleftrightarrow> 0x09 \<le> c \<and> c \<le> 0x0d \<or> c = 0x20 \<or> c = 0x85 \<or> c = 0xa0 \<or> c = 0x1680 \<or>
     0x2000 \<le> c \<and> c \<le> 0x200a \<or> c = 0x2028 \<or> c = 0x2029 \<or> c = 0x202f \<or> c = 0x205f \<or> c = 0x3000"

definition str_trim :: "scalars \<Rightarrow> scalars" where
  "str_trim s = rev (dropWhile is_whitespace (rev (dropWhile is_whitespace s)))"

definition str_lit :: "string \<Rightarrow> scalars" where
  "str_lit s = map of_char s"

definition non_empty_or :: "scalars \<Rightarrow> scalars \<Rightarrow> scalars" where
  "non_empty_or v fallback = (let trimmed = str_trim v in if trimmed = [] then fallback else trimmed)"

record 'a RolePeer =
  device_id :: scalars
  display_name :: scalars
  endpoint :: 'a

definition peer_new :: "('a \<Rightarrow> scalars) \<Rightarrow> scalars \<Rightarrow> scalars \<Rightarrow> 'a \<Rightarrow> 'a RolePeer" where
  "peer_new to_string did name ep =
     (let endpoint_label = to_string ep in
      \<lparr>device_id = non_empty_or did (str_lit ''endpoint:'' @ endpoint_label),
       display_name = non_empty_or name endpoint_label, endpoint = ep\<rparr>)"

definition endpoint_only :: "('a \<Rightarrow> scalars) \<Rightarrow> 'a \<Rightarrow> 'a RolePeer" where
  "endpoint_only to_string ep = peer_new to_string [] [] ep"

definition same_device :: "'a RolePeer \<Rightarrow> 'a RolePeer \<Rightarrow> bool" where
  "same_device p q = (device_id p = device_id q)"

record 'a RoleSession =
  peer :: "'a RolePeer"
  rs_session_id :: u32
  started_at_ms :: u64
  last_activity_ms :: u64

definition session_new :: "'a RolePeer \<Rightarrow> u32 \<Rightarrow> u64 \<Rightarrow> 'a RoleSession" where
  "session_new p sid now_ms = \<lparr>peer = p, rs_session_id = sid, started_at_ms = now_ms, last_activity_ms = now_ms\<rparr>"

definition touch :: "u64 \<Rightarrow> 'a RoleSession \<Rightarrow> 'a RoleSession" where
  "touch now_ms s = s\<lparr>last_activity_ms := now_ms\<rparr>"

definition age_ms :: "'a RoleSession \<Rightarrow> u64 \<Rightarrow> u64" where
  "age_ms s now_ms = saturating_sub now_ms (started_at_ms s)"

definition idle_ms :: "'a RoleSession \<Rightarrow> u64 \<Rightarrow> u64" where
  "idle_ms s now_ms = saturating_sub now_ms (last_activity_ms s)"

section \<open>States\<close>

datatype RoleKind = KIdle | KConnecting | KViewing | KServing

definition kind_as_str :: "RoleKind \<Rightarrow> string" where
  "kind_as_str k = (case k of KIdle \<Rightarrow> ''idle'' | KConnecting \<Rightarrow> ''connecting'' | KViewing \<Rightarrow> ''viewing'' | KServing \<Rightarrow> ''serving'')"

datatype 'a RoleState =
  Idle | Connecting "'a RoleSession" | Viewing "'a RoleSession" | Serving "'a RoleSession"

definition kind :: "'a RoleState \<Rightarrow> RoleKind" where
  "kind s = (case s of Idle \<Rightarrow> KIdle | Connecting _ \<Rightarrow> KConnecting | Viewing _ \<Rightarrow> KViewing | Serving _ \<Rightarrow> KServing)"

definition is_idle :: "'a RoleState \<Rightarrow> bool" where
  "is_idle s = (case s of Idle \<Rightarrow> True | _ \<Rightarrow> False)"

definition state_session :: "'a RoleState \<Rightarrow> 'a RoleSession option" where
  "state_session s = (case s of Idle \<Rightarrow> None | Connecting x \<Rightarrow> Some x | Viewing x \<Rightarrow> Some x | Serving x \<Rightarrow> Some x)"

definition state_session_id :: "'a RoleState \<Rightarrow> u32 option" where
  "state_session_id s = map_option rs_session_id (state_session s)"

definition state_peer :: "'a RoleState \<Rightarrow> 'a RolePeer option" where
  "state_peer s = map_option peer (state_session s)"

datatype InboundConflictPolicy = PolicyReject | StopActiveAndServe

record RoleStateMachineConfig =
  connecting_timeout_ms :: u64
  session_timeout_ms :: u64
  inbound_conflict_policy :: InboundConflictPolicy

definition role_config_default :: RoleStateMachineConfig where
  "role_config_default = \<lparr>connecting_timeout_ms = 10000, session_timeout_ms = 15000, inbound_conflict_policy = PolicyReject\<rparr>"

datatype RoleChangeReason = StartViewing | ViewingConnected | AcceptServing | Activity | Stop | Timeout

record 'a RoleChange =
  previous :: "'a RoleState"
  current :: "'a RoleState"
  reason :: RoleChangeReason

datatype RoleStateError =
  Busy RoleKind scalars u32
| WrongSession RoleKind u32 u32
| NoActiveSession
| NotConnecting RoleKind

record 'a RoleStateMachine =
  rm_state :: "'a RoleState"
  rm_config :: RoleStateMachineConfig

section \<open>Operations\<close>

definition role_with_config :: "RoleStateMachineConfig \<Rightarrow> 'a RoleStateMachine" where
  "role_with_config c = \<lparr>rm_state = Idle, rm_config = c\<rparr>"

definition role_new :: "'a RoleStateMachine" where
  "role_new = role_with_config role_config_default"

definition can_start_viewing :: "'a RoleStateMachine \<Rightarrow> 'a RolePeer \<Rightarrow> bool" where
  "can_start_viewing m p = (case rm_state m of
     Idle \<Rightarrow> True
   | Connecting s \<Rightarrow> same_device (peer s) p
   | Viewing s \<Rightarrow> same_device (peer s) p
   | Serving _ \<Rightarrow> False)"

definition can_accept_serving :: "'a RoleStateMachine \<Rightarrow> 'a RolePeer \<Rightarrow> bool" where
  "can_accept_serving m p = (case rm_state m of
     Idle \<Rightarrow> True
   | Serving s \<Rightarrow> same_device (peer s) p
   | _ \<Rightarrow> inbound_conflict_policy (rm_config m) = StopActiveAndServe)"

definition replace_state :: "'a RoleStateMachine \<Rightarrow> 'a RoleState \<Rightarrow> RoleChangeReason \<Rightarrow> 'a RoleStateMachine \<times> 'a RoleChange" where
  "replace_state m s r = (m\<lparr>rm_state := s\<rparr>, \<lparr>previous = rm_state m, current = s, reason = r\<rparr>)"

type_synonym 'a role_result = "'a RoleStateMachine \<times> ('a RoleChange, RoleStateError) result"

definition changed :: "'a RoleStateMachine \<times> 'a RoleChange \<Rightarrow> 'a role_result" where
  "changed mc = (fst mc, Ok (snd mc))"

definition busy_error :: "'a RoleStateMachine \<Rightarrow> RoleStateError" where
  "busy_error m = (case state_session (rm_state m) of
     None \<Rightarrow> NoActiveSession
   | Some s \<Rightarrow> Busy (kind (rm_state m)) (device_id (peer s)) (rs_session_id s))"

definition wrong_session :: "RoleKind \<Rightarrow> 'a RoleSession \<Rightarrow> u32 \<Rightarrow> RoleStateError" where
  "wrong_session k s actual = WrongSession k (rs_session_id s) actual"

definition start_viewing :: "'a RoleStateMachine \<Rightarrow> 'a RolePeer \<Rightarrow> u32 \<Rightarrow> u64 \<Rightarrow> 'a role_result" where
  "start_viewing m p sid now_ms =
     (let next = Connecting (session_new p sid now_ms) in
      case rm_state m of
        Idle \<Rightarrow> changed (replace_state m next StartViewing)
      | Connecting s \<Rightarrow> if same_device (peer s) p then changed (replace_state m next StartViewing) else (m, Err (busy_error m))
      | Viewing s \<Rightarrow> if same_device (peer s) p then changed (replace_state m next StartViewing) else (m, Err (busy_error m))
      | _ \<Rightarrow> (m, Err (busy_error m)))"

definition record_activity :: "'a RoleStateMachine \<Rightarrow> u32 \<Rightarrow> u64 \<Rightarrow> 'a role_result" where
  "record_activity m sid now_ms = (case rm_state m of
     Idle \<Rightarrow> (m, Err NoActiveSession)
   | Connecting s \<Rightarrow>
       if rs_session_id s \<noteq> sid then (m, Err (wrong_session (kind (rm_state m)) s sid))
       else changed (replace_state m (Connecting (touch now_ms s)) Activity)
   | Viewing s \<Rightarrow>
       if rs_session_id s \<noteq> sid then (m, Err (wrong_session (kind (rm_state m)) s sid))
       else changed (replace_state m (Viewing (touch now_ms s)) Activity)
   | Serving s \<Rightarrow>
       if rs_session_id s \<noteq> sid then (m, Err (wrong_session (kind (rm_state m)) s sid))
       else changed (replace_state m (Serving (touch now_ms s)) Activity))"

definition mark_viewing_connected :: "'a RoleStateMachine \<Rightarrow> u32 \<Rightarrow> u64 \<Rightarrow> 'a role_result" where
  "mark_viewing_connected m sid now_ms = (case rm_state m of
     Connecting s \<Rightarrow>
       if rs_session_id s = sid then changed (replace_state m (Viewing (touch now_ms s)) ViewingConnected)
       else (m, Err (WrongSession (kind (rm_state m)) (rs_session_id s) sid))
   | Viewing s \<Rightarrow>
       if rs_session_id s = sid then record_activity m sid now_ms
       else (m, Err (WrongSession (kind (rm_state m)) (rs_session_id s) sid))
   | _ \<Rightarrow> (m, Err (NotConnecting (kind (rm_state m)))))"

definition accept_serving :: "'a RoleStateMachine \<Rightarrow> 'a RolePeer \<Rightarrow> u32 \<Rightarrow> u64 \<Rightarrow> 'a role_result" where
  "accept_serving m p sid now_ms =
     (let next = Serving (session_new p sid now_ms) in
      case rm_state m of
        Idle \<Rightarrow> changed (replace_state m next AcceptServing)
      | Serving s \<Rightarrow>
          if same_device (peer s) p \<and> rs_session_id s = sid then record_activity m sid now_ms
          else if same_device (peer s) p then changed (replace_state m next AcceptServing)
          else (m, Err (busy_error m))
      | _ \<Rightarrow>
          if inbound_conflict_policy (rm_config m) = StopActiveAndServe then changed (replace_state m next AcceptServing)
          else (m, Err (busy_error m)))"

definition stop_active :: "'a RoleStateMachine \<Rightarrow> 'a RoleStateMachine \<times> 'a RoleChange option" where
  "stop_active m = (if is_idle (rm_state m) then (m, None)
     else (case replace_state m Idle Stop of (m', c) \<Rightarrow> (m', Some c)))"

definition stop_session :: "'a RoleStateMachine \<Rightarrow> u32 \<Rightarrow> 'a RoleStateMachine \<times> ('a RoleChange option, RoleStateError) result" where
  "stop_session m sid = (case state_session (rm_state m) of
     None \<Rightarrow> (m, Ok None)
   | Some s \<Rightarrow>
       if rs_session_id s \<noteq> sid then (m, Err (wrong_session (kind (rm_state m)) s sid))
       else (case stop_active m of (m', c) \<Rightarrow> (m', Ok c)))"

definition timed_out :: "'a RoleStateMachine \<Rightarrow> u64 \<Rightarrow> bool" where
  "timed_out m now_ms = (case rm_state m of
     Idle \<Rightarrow> False
   | Connecting s \<Rightarrow> age_ms s now_ms > connecting_timeout_ms (rm_config m)
   | Viewing s \<Rightarrow> idle_ms s now_ms > session_timeout_ms (rm_config m)
   | Serving s \<Rightarrow> idle_ms s now_ms > session_timeout_ms (rm_config m))"

definition expire_timed_out :: "'a RoleStateMachine \<Rightarrow> u64 \<Rightarrow> 'a RoleStateMachine \<times> 'a RoleChange option" where
  "expire_timed_out m now_ms =
     (if timed_out m now_ms then (case replace_state m Idle Timeout of (m', c) \<Rightarrow> (m', Some c)) else (m, None))"

section \<open>The transition system\<close>

datatype 'a role_event =
  EvStart "'a RolePeer" u32 u64 | EvConnected u32 u64 | EvAccept "'a RolePeer" u32 u64
| EvActivity u32 u64 | EvStop | EvStopSession u32 | EvExpire u64

definition role_op :: "'a RoleStateMachine \<Rightarrow> 'a role_event \<Rightarrow> 'a RoleStateMachine" where
  "role_op m e = (case e of
     EvStart p sid now \<Rightarrow> fst (start_viewing m p sid now)
   | EvConnected sid now \<Rightarrow> fst (mark_viewing_connected m sid now)
   | EvAccept p sid now \<Rightarrow> fst (accept_serving m p sid now)
   | EvActivity sid now \<Rightarrow> fst (record_activity m sid now)
   | EvStop \<Rightarrow> fst (stop_active m)
   | EvStopSession sid \<Rightarrow> fst (stop_session m sid)
   | EvExpire now \<Rightarrow> fst (expire_timed_out m now))"

definition role_op_ok :: "'a RoleStateMachine \<Rightarrow> 'a role_event \<Rightarrow> bool" where
  "role_op_ok m e = (case e of
     EvStart p sid now \<Rightarrow> is_ok (snd (start_viewing m p sid now))
   | EvConnected sid now \<Rightarrow> is_ok (snd (mark_viewing_connected m sid now))
   | EvAccept p sid now \<Rightarrow> is_ok (snd (accept_serving m p sid now))
   | EvActivity sid now \<Rightarrow> is_ok (snd (record_activity m sid now))
   | EvStop \<Rightarrow> True
   | EvStopSession sid \<Rightarrow> is_ok (snd (stop_session m sid))
   | EvExpire now \<Rightarrow> True)"

text \<open>
  The abstract machine.  A role is nothing, or a kind with the device and the session it belongs to and
  the last millisecond at which it is still alive.  Each step is labelled with the request and with
  whether it is granted: connecting takes a free machine or a viewer of the same device; serving takes a
  free machine, a server of the same device, or, under the policy that gives way, a viewer; a session is
  confirmed, kept alive and stopped by its own identifier only; activity renews the deadline except
  while connecting; and an expiry check ends exactly what is past its deadline.
\<close>

type_synonym role_view = "(RoleKind \<times> scalars \<times> u32 \<times> nat) option"

definition connect_by :: "RoleStateMachineConfig \<Rightarrow> u64 \<Rightarrow> nat" where
  "connect_by c now = unat now + unat (connecting_timeout_ms c)"

definition alive_until :: "RoleStateMachineConfig \<Rightarrow> u64 \<Rightarrow> nat" where
  "alive_until c now = unat now + unat (session_timeout_ms c)"

inductive role_step :: "RoleStateMachineConfig \<Rightarrow> role_view \<Rightarrow> 'a role_event \<Rightarrow> bool \<Rightarrow> role_view \<Rightarrow> bool" for c where
  view_free:
    "role_step c None (EvStart p sid now) True (Some (KConnecting, device_id p, sid, connect_by c now))"
| view_again: "k \<noteq> KServing \<Longrightarrow>
    role_step c (Some (k, device_id p, i, t)) (EvStart p sid now) True (Some (KConnecting, device_id p, sid, connect_by c now))"
| view_busy: "k = KServing \<or> d \<noteq> device_id p \<Longrightarrow>
    role_step c (Some (k, d, i, t)) (EvStart p sid now) False (Some (k, d, i, t))"
| connected: "k \<noteq> KServing \<Longrightarrow>
    role_step c (Some (k, d, sid, t)) (EvConnected sid now) True (Some (KViewing, d, sid, alive_until c now))"
| connected_other: "k = KServing \<or> i \<noteq> sid \<Longrightarrow>
    role_step c (Some (k, d, i, t)) (EvConnected sid now) False (Some (k, d, i, t))"
| connected_free: "role_step c None (EvConnected sid now) False None"
| serve_free:
    "role_step c None (EvAccept p sid now) True (Some (KServing, device_id p, sid, alive_until c now))"
| serve_again:
    "role_step c (Some (KServing, device_id p, i, t)) (EvAccept p sid now) True (Some (KServing, device_id p, sid, alive_until c now))"
| serve_displaces: "k \<noteq> KServing \<Longrightarrow> inbound_conflict_policy c = StopActiveAndServe \<Longrightarrow>
    role_step c (Some (k, d, i, t)) (EvAccept p sid now) True (Some (KServing, device_id p, sid, alive_until c now))"
| serve_busy: "k = KServing \<and> d \<noteq> device_id p \<or> k \<noteq> KServing \<and> inbound_conflict_policy c = PolicyReject \<Longrightarrow>
    role_step c (Some (k, d, i, t)) (EvAccept p sid now) False (Some (k, d, i, t))"
| active_connecting:
    "role_step c (Some (KConnecting, d, sid, t)) (EvActivity sid now) True (Some (KConnecting, d, sid, t))"
| active: "k \<noteq> KConnecting \<Longrightarrow>
    role_step c (Some (k, d, sid, t)) (EvActivity sid now) True (Some (k, d, sid, alive_until c now))"
| active_other: "i \<noteq> sid \<Longrightarrow>
    role_step c (Some (k, d, i, t)) (EvActivity sid now) False (Some (k, d, i, t))"
| active_free: "role_step c None (EvActivity sid now) False None"
| stop: "role_step c v EvStop True None"
| stop_own: "role_step c (Some (k, d, sid, t)) (EvStopSession sid) True None"
| stop_other: "i \<noteq> sid \<Longrightarrow> role_step c (Some (k, d, i, t)) (EvStopSession sid) False (Some (k, d, i, t))"
| stop_free: "role_step c None (EvStopSession sid) True None"
| expire: "t < unat now \<Longrightarrow> role_step c (Some (k, d, i, t)) (EvExpire now) True None"
| not_due: "unat now \<le> t \<Longrightarrow> role_step c (Some (k, d, i, t)) (EvExpire now) True (Some (k, d, i, t))"
| expire_free: "role_step c None (EvExpire now) True None"

inductive_simps role_step_view: "role_step c v (EvStart p sid now) ok v'"
inductive_simps role_step_connected: "role_step c v (EvConnected sid now) ok v'"
inductive_simps role_step_serve: "role_step c v (EvAccept p sid now) ok v'"
inductive_simps role_step_active: "role_step c v (EvActivity sid now) ok v'"
inductive_simps role_step_stop: "role_step c v EvStop ok v'"
inductive_simps role_step_stop_session: "role_step c v (EvStopSession sid) ok v'"
inductive_simps role_step_expire: "role_step c v (EvExpire now) ok v'"

lemmas role_step_simps = role_step_view role_step_connected role_step_serve role_step_active role_step_stop
  role_step_stop_session role_step_expire

text \<open>A history of the abstract machine: requests with their verdicts, one step each.\<close>

inductive role_path :: "RoleStateMachineConfig \<Rightarrow> role_view \<Rightarrow> ('a role_event \<times> bool) list \<Rightarrow> role_view \<Rightarrow> bool" for c where
  path_nil: "role_path c v [] v"
| path_cons: "role_step c v e ok v1 \<Longrightarrow> role_path c v1 es v2 \<Longrightarrow> role_path c v ((e, ok) # es) v2"

inductive_simps role_path_Nil [simp]: "role_path c v [] v'"
inductive_simps role_path_Cons: "role_path c v (x # es) v'"

text \<open>What the machine answers to a sequence of requests.\<close>

fun role_log :: "'a RoleStateMachine \<Rightarrow> 'a role_event list \<Rightarrow> ('a role_event \<times> bool) list" where
  "role_log m [] = []"
| "role_log m (e # es) = (e, role_op_ok m e) # role_log (role_op m e) es"

definition role_deadline :: "'a RoleStateMachine \<Rightarrow> nat" where
  "role_deadline m = (case rm_state m of
     Idle \<Rightarrow> 0
   | Connecting s \<Rightarrow> connect_by (rm_config m) (started_at_ms s)
   | Viewing s \<Rightarrow> alive_until (rm_config m) (last_activity_ms s)
   | Serving s \<Rightarrow> alive_until (rm_config m) (last_activity_ms s))"

definition role_abs :: "'a RoleStateMachine \<Rightarrow> role_view" where
  "role_abs m = map_option (\<lambda>s. (kind (rm_state m), device_id (peer s), rs_session_id s, role_deadline m))
     (state_session (rm_state m))"

lemmas role_defs = start_viewing_def mark_viewing_connected_def accept_serving_def record_activity_def
  stop_active_def stop_session_def expire_timed_out_def replace_state_def changed_def Let_def

lemma role_op_config [simp]: "rm_config (role_op m e) = rm_config m"
  by (auto simp: role_op_def role_defs split: role_event.splits RoleState.splits option.splits)

lemma timed_out_deadline: "timed_out m now \<longleftrightarrow> rm_state m \<noteq> Idle \<and> role_deadline m < unat now"
  by (cases "rm_state m")
    (auto simp: timed_out_def role_deadline_def connect_by_def alive_until_def age_ms_def idle_ms_def
      word_less_nat_alt machine_simps)

lemmas role_view_defs = role_abs_def role_deadline_def kind_def state_session_def

lemma role_op_refines:
  "role_step (rm_config m) (role_abs m) e (role_op_ok m e) (role_abs (role_op m e))"
proof (cases e)
  case (EvStart p sid now)
  then show ?thesis
    by (cases "rm_state m")
      (auto simp: role_op_def role_op_ok_def role_defs role_view_defs session_new_def same_device_def
        intro: role_step.intros)
next
  case (EvConnected sid now)
  then show ?thesis
    by (cases "rm_state m")
      (auto simp: role_op_def role_op_ok_def role_defs role_view_defs touch_def intro: role_step.intros)
next
  case (EvAccept p sid now)
  then show ?thesis
    by (cases "rm_state m"; cases "inbound_conflict_policy (rm_config m)")
      (auto simp: role_op_def role_op_ok_def role_defs role_view_defs touch_def session_new_def same_device_def
        intro: role_step.intros)
next
  case (EvActivity sid now)
  then show ?thesis
    by (cases "rm_state m")
      (auto simp: role_op_def role_op_ok_def role_defs role_view_defs touch_def intro: role_step.intros)
next
  case EvStop
  then show ?thesis
    by (cases "rm_state m")
      (auto simp: role_op_def role_op_ok_def role_defs is_idle_def role_view_defs intro: role_step.intros)
next
  case (EvStopSession sid)
  then show ?thesis
    by (cases "rm_state m")
      (auto simp: role_op_def role_op_ok_def role_defs is_idle_def role_view_defs intro: role_step.intros)
next
  case (EvExpire now)
  then show ?thesis
    by (cases "rm_state m")
      (auto simp: role_op_def role_op_ok_def expire_timed_out_def replace_state_def timed_out_deadline role_view_defs
        not_less intro: role_step.intros)
qed

lemma role_step_deterministic:
  "role_step c v e ok v1 \<Longrightarrow> role_step c v e ok' v2 \<Longrightarrow> ok' = ok \<and> v2 = v1"
  by (cases e) (auto simp: role_step_simps)

lemma role_history_path:
  "role_path (rm_config m) (role_abs m) (role_log m es) (role_abs (foldl role_op m es))"
proof (induction es arbitrary: m)
  case (Cons e es)
  from path_cons [OF role_op_refines Cons.IH [of "role_op m e", simplified]] show ?case by simp
qed simp

lemma role_path_deterministic:
  "role_path c v es v1 \<Longrightarrow> role_path c v es' v2 \<Longrightarrow> map fst es' = map fst es \<Longrightarrow> es' = es \<and> v2 = v1"
proof (induction arbitrary: es' rule: role_path.induct)
  case (path_cons v e ok v1 es v2')
  from path_cons.prems(2) obtain ok' rest where es': "es' = (e, ok') # rest" "map fst rest = map fst es" by auto
  from path_cons.prems(1) es' obtain w where "role_step c v e ok' w" "role_path c w rest v2"
    by (auto simp: role_path_Cons)
  then show ?case
    using role_step_deterministic [OF path_cons.hyps(1)] path_cons.IH [of rest] es' by auto
qed (auto simp: role_path_Nil)

text \<open>
  C12. The abstract machine allows exactly one history for each sequence of requests, and it is the one of
  the implementation: the verdicts are those the operations return, and the role at the end, its kind,
  device, session and deadline, is the one the operations leave behind.
\<close>

theorem role_history_refines:
  "map fst hist = es \<and> role_path c None hist v \<longleftrightarrow>
     hist = role_log (role_with_config c) es \<and> v = role_abs (foldl role_op (role_with_config c) es)"
proof -
  let ?m = "role_with_config c"
  have p: "role_path c None (role_log ?m es) (role_abs (foldl role_op ?m es))"
    using role_history_path [of ?m es] by (simp add: role_with_config_def role_view_defs)
  have f: "map fst (role_log m es) = es" for m :: "'a RoleStateMachine"
    by (induction es arbitrary: m) simp_all
  show ?thesis
  proof
    assume "map fst hist = es \<and> role_path c None hist v"
    then show "hist = role_log ?m es \<and> v = role_abs (foldl role_op ?m es)"
      using role_path_deterministic [OF p, of hist v] by (simp add: f)
  next
    assume "hist = role_log ?m es \<and> v = role_abs (foldl role_op ?m es)"
    then show "map fst hist = es \<and> role_path c None hist v" using p by (simp add: f)
  qed
qed

definition reports_truly :: "'a RoleStateMachine \<Rightarrow> 'a role_result \<Rightarrow> bool" where
  "reports_truly m r = (case snd r of Inl _ \<Rightarrow> fst r = m
     | Inr c \<Rightarrow> previous c = rm_state m \<and> current c = rm_state (fst r) \<and> rm_config (fst r) = rm_config m)"

text \<open>
  The admission predicates are exact: they hold precisely when the operation succeeds; and a failing
  operation of any kind leaves the machine as it was, a succeeding one reports the true previous and
  current states.
\<close>

theorem role_admission_exact:
  "is_ok (snd (start_viewing m p sid now)) = can_start_viewing m p \<and>
   is_ok (snd (accept_serving m p sid now)) = can_accept_serving m p \<and>
   reports_truly m (start_viewing m p sid now) \<and> reports_truly m (accept_serving m p sid now) \<and>
   reports_truly m (mark_viewing_connected m sid now) \<and> reports_truly m (record_activity m sid now)"
  by (cases "rm_state m")
    (auto simp: role_defs can_start_viewing_def can_accept_serving_def reports_truly_def)

section \<open>Sessions are kept, and end\<close>

definition ends :: "'a role_event \<Rightarrow> bool" where
  "ends e = (case e of EvStop \<Rightarrow> True | EvStopSession _ \<Rightarrow> True | EvExpire _ \<Rightarrow> True | _ \<Rightarrow> False)"

lemma role_op_not_idle:
  "rm_state m \<noteq> Idle \<Longrightarrow> \<not> ends e \<Longrightarrow> rm_state (role_op m e) \<noteq> Idle"
  by (cases e; cases "rm_state m") (auto simp: role_op_def role_defs ends_def)

lemma role_op_side:
  assumes "rm_state m \<noteq> Idle" "\<not> ends e"
    and "kind (rm_state m) = KServing \<or> inbound_conflict_policy (rm_config m) = PolicyReject"
  shows "(kind (rm_state (role_op m e)) = KServing) = (kind (rm_state m) = KServing) \<and>
    map_option device_id (state_peer (rm_state (role_op m e))) = map_option device_id (state_peer (rm_state m))"
  using assms
  by (cases e; cases "rm_state m")
    (auto simp: role_op_def role_defs ends_def kind_def state_peer_def state_session_def session_new_def same_device_def
      touch_def)

text \<open>
  Until it is stopped or times out, an active session stays with its device and on its side: a host
  that serves keeps serving that device whatever other devices ask, and a viewer keeps connecting to
  or viewing its host, unless the policy is to give way to inbound requests.
\<close>

theorem active_session_not_displaced:
  assumes "rm_state m \<noteq> Idle" "list_all (\<lambda>e. \<not> ends e) es"
    and "kind (rm_state m) = KServing \<or> inbound_conflict_policy (rm_config m) = PolicyReject"
  shows "(kind (rm_state (foldl role_op m es)) = KServing) = (kind (rm_state m) = KServing) \<and>
    rm_state (foldl role_op m es) \<noteq> Idle \<and>
    map_option device_id (state_peer (rm_state (foldl role_op m es))) = map_option device_id (state_peer (rm_state m))"
  using assms
proof (induction es arbitrary: m)
  case (Cons e es)
  have "rm_state (role_op m e) \<noteq> Idle" using Cons.prems role_op_not_idle [of m e] by simp
  then show ?case using Cons.IH [of "role_op m e"] role_op_side [of m e] Cons.prems by auto
qed simp

lemma connecting_activity:
  assumes "rm_state m = Connecting s" "list_all (\<lambda>e. case e of EvActivity _ _ \<Rightarrow> True | _ \<Rightarrow> False) es"
  shows "\<exists>s'. rm_state (foldl role_op m es) = Connecting s' \<and> started_at_ms s' = started_at_ms s \<and>
    rm_config (foldl role_op m es) = rm_config m"
  using assms
proof (induction es arbitrary: m s)
  case (Cons e es)
  then obtain sid now where e: "e = EvActivity sid now" by (auto split: role_event.splits)
  have "\<exists>s1. rm_state (role_op m e) = Connecting s1 \<and> started_at_ms s1 = started_at_ms s"
    using Cons.prems(1) by (simp add: e role_op_def role_defs touch_def)
  then obtain s1 where s1: "rm_state (role_op m e) = Connecting s1" "started_at_ms s1 = started_at_ms s" by blast
  from Cons.IH [OF s1(1)] Cons.prems(2) s1(2) show ?case by simp
qed simp

text \<open>
  Activity does not postpone the connection deadline: an attempt that is still connecting when more
  than the connecting timeout has passed since it started is ended by the next expiry check.
\<close>

theorem connecting_deadline_not_extended:
  assumes "rm_state m = Connecting s" "list_all (\<lambda>e. case e of EvActivity _ _ \<Rightarrow> True | _ \<Rightarrow> False) es"
    and "unat (started_at_ms s) + unat (connecting_timeout_ms (rm_config m)) < unat now"
  shows "rm_state (fst (expire_timed_out (foldl role_op m es) now)) = Idle"
proof -
  from connecting_activity [OF assms(1,2)] obtain s' where
    s': "rm_state (foldl role_op m es) = Connecting s'" "started_at_ms s' = started_at_ms s"
    "rm_config (foldl role_op m es) = rm_config m" by blast
  have "connecting_timeout_ms (rm_config m) < age_ms s' now"
    using assms(3) s'(2) by (simp add: age_ms_def word_less_nat_alt machine_simps)
  then show ?thesis using s' by (simp add: expire_timed_out_def timed_out_def replace_state_def)
qed

section \<open>Examples\<close>

definition demo_peer :: "nat \<Rightarrow> nat RolePeer" where
  "demo_peer n = peer_new (\<lambda>k. [k]) [32, n, 32] [] n"

definition demo_connecting :: "nat RoleStateMachine" where
  "demo_connecting = fst (start_viewing role_new (demo_peer 65) 7 1000)"

theorem active_session_not_displaced_witness:
  "map_option device_id (state_peer (rm_state
     (foldl role_op demo_connecting [EvAccept (demo_peer 66) 8 1001, EvConnected 7 1002]))) = Some [65]"
  using active_session_not_displaced [of demo_connecting "[EvAccept (demo_peer 66) 8 1001, EvConnected 7 1002]"]
  by (simp add: demo_connecting_def start_viewing_def role_new_def role_with_config_def changed_def replace_state_def
      ends_def role_config_default_def state_peer_def state_session_def session_new_def demo_peer_def peer_new_def
      non_empty_or_def str_trim_def is_whitespace_def kind_def Let_def)

theorem connecting_deadline_not_extended_witness:
  "rm_state (fst (expire_timed_out (foldl role_op demo_connecting [EvActivity 7 10500]) 11001)) = Idle"
  using connecting_deadline_not_extended [of demo_connecting "session_new (demo_peer 65) 7 1000" "[EvActivity 7 10500]" 11001]
  by (simp add: demo_connecting_def start_viewing_def role_new_def role_with_config_def changed_def replace_state_def
      role_config_default_def session_new_def Let_def)

end
