(* ===== verification/Spec2Isabelle.thy ===== *)
theory Spec2Isabelle
  imports File_Delivery P2p_Tunnel Hevc_Sequence Workspace_Input Profile_Store Directed_Delivery Udp_Transport Session_Tabs Clock_Sync Clipboard Media_Plane Host_Connection Jitter_Buffer Lane_Scheduler File_Transfer Session_Auth Input_Lease Role_Machine
begin

text \<open>
  A verification library for the core of Weavelo, a remote desktop program: the crates \<open>protocol\<close> and
  \<open>remote_core\<close> and the state machines of \<open>host\<close>, \<open>client\<close> and \<open>app\<close> that do not touch the platform.  A host
  captures its screen and audio and sends them to a viewer over UDP; the viewer sends input, and both ends
  exchange files and clipboard objects.  What passes between the parts:

  \<^item> devices of a group share a secret, which one device passes to another in an invitation code and keeps
    in its profile (\<open>mesh.rs\<close>); with it the two ends run the authenticated handshake (\<open>session_auth.rs\<close>),
    which gives each a \<open>SessionCrypto\<close> with directional keys; every later record is sealed and opened by it
    (\<open>session_crypto.rs\<close>);
  \<^item> payloads travel as envelopes with a lane, a priority and an optional deadline (\<open>protocol/src/lib.rs\<close>);
    realtime envelopes have a compact wire form that can carry the frame's timing checkpoints
    (\<open>protocol/src/timing.rs\<close>, stamped by the trackers of \<open>remote_core/src/timing.rs\<close>); envelopes, control
    messages, RTP packets and clock probes share one socket, sealed and fragmented by the multiplexer
    (\<open>net.rs\<close>); two devices that cannot reach each other on their network use a direct tunnel through
    address translation (\<open>p2p.rs\<close>) or the relay (\<open>relay.rs\<close>), both behind one router (\<open>routed_relay.rs\<close>);
  \<^item> the sender queues envelopes in the lane scheduler (\<open>data_plane.rs\<close>, driven by \<open>scheduled_sender.rs\<close>); the
    receiver puts video packets back in order in the jitter buffer (\<open>jitter_buffer.rs\<close>), and objects, files
    and clipboard bundles back together in the chunk assemblers (\<open>data_plane.rs\<close>, \<open>file_transfer.rs\<close>,
    \<open>clipboard_plane.rs\<close>);
  \<^item> the viewer seals input events (\<open>workspace_input.rs\<close>), and the host admits them through the input lease
    (\<open>protocol/src/realtime_input.rs\<close>) before they reach the operating system;
  \<^item> the host keeps subscriptions, pauses and deliveries per connection (\<open>service.rs\<close>,
    \<open>directed_delivery.rs\<close>), the viewer keeps its tabs and connection attempts (\<open>session_tabs.rs\<close>), and the
    role machine (\<open>role.rs\<close>) decides whether a device is idle, connecting, viewing or serving.

  \<^bold>\<open>Theories.\<close>

  \<^item> \<open>Base\<close>: machine words, Rust's checked and saturating arithmetic, big-endian bytes, results,
    \<open>BinaryHeap\<close>, \<open>BTreeMap\<close> and \<open>HashMap\<close>, and the interfaces as locales: \<open>fixed_codec\<close>,
    \<open>at_most_once\<close>, \<open>op_machine\<close>, \<open>ranked_heap\<close>, \<open>map_store\<close>.  Every component that provides one of them
    interprets it on its own definitions and takes its theorems from the interpretation.
    \<open>Hash_Tables\<close>, \<open>Bit_Lists\<close> and \<open>Utf8_Text\<close> hold what is shared about tables, bit accumulators and Rust
    text, \<open>Socket_Addr\<close> the socket addresses.
  \<^item> \<open>Frame_Timing\<close>: stages, checkpoints, durations, the 52- and 24-byte wire forms, trace spans, host and
    client trackers.  Shown: both wire forms are exact; a frame stamped by both trackers has ordered
    checkpoints whose stage durations add up to the end-to-end latency.
  \<^item> \<open>Wire_Types\<close>, \<open>Control_Messages\<close>: lanes, content kinds, priorities, headers, envelopes, manifests, input
    events and control messages, with their wire numbers and constructors.
  \<^item> \<open>Compact_Realtime\<close>: the bit-packed header codec.  Shown: encode then decode is the identity, decode
    then encode is the identity on accepted packets, both for the current wire version, and exactly which
    envelopes are encodable.
  \<^item> \<open>Udp_Transport\<close>: key tables, sealing, fragmentation, reassembly with its cache.  Shown: what is sent
    between two ends of a session arrives, a peer with a key is heard only through sealed packets, the
    fragment cache is bounded and evicts its oldest entries.
  \<^item> \<open>Jitter_Buffer\<close>: the 16-packet reorder window on wrapping 16-bit sequence numbers.  Shown: a bounded
    window, in-order at-most-once delivery as long as all sequence numbers lie in one half of the sequence
    space, reordering undone, truthful wake-up times.
  \<^item> \<open>Lane_Scheduler\<close>: the two bounded queues with eviction and stale drops, and the sender's worker turn
    and counters.  Shown: bounds, urgency of what is sent and of what is evicted, conservation.
  \<^item> \<open>Object_Assembly\<close>: CRC-32 and the chunk assembler for reliable objects.  Shown: reassembly in any
    order, soundness of \<open>finish\<close>.
  \<^item> \<open>File_Transfer\<close>: manifests, name and path checks, the reader, the receiver with its bitmap, and
    publication, without overwriting unless it is permitted.  Shown: the whole round trip under loss of order and duplication,
    the receiver's invariant, safe publication, confinement to the target directory, manifest and control
    round trips.
  \<^item> \<open>File_Inbound\<close>: the receiving half of the transfer runtime, \<open>InboundFileTransfers\<close>: manifests, chunks,
    groups of files, cancellation, deferred configuration and the acknowledgement of every envelope.
    Shown: a file whose chunks were all acknowledged, none rejected, was committed; every table but the
    two of cancelled identifiers is bounded, and those hold exactly what was cancelled (the code limits
    groups to 32 on admission only, so that there can be 47); cleaning up removes directories only below the receive directory.
  \<^item> \<open>File_Delivery\<close>: the selective-repeat window of \<open>file_delivery.rs\<close> with the tracker that routes
    acknowledgements to it, and the loop that sends a file through it.  Shown: a file reported completed was
    confirmed chunk by chunk and, against the receiver of \<open>File_Inbound\<close>, is committed there; a wait ends
    with its deadline; a group whose files were all committed has the announced size and checksum.
  \<^item> \<open>Clipboard\<close>: bundles, the plane that sends and receives them, echo suppression.  Shown: what one end
    copies the other pastes once, later duplicates included, nothing echoes, memory is bounded.
  \<^item> \<open>Session_Crypto\<close>: the replay window kept in 64 words, \<open>seal\<close>, \<open>open\<close>.  Shown: the window refines a set
    of seen numbers, records are accepted at most once, nonces never repeat, the failure limit closes the
    session, what one end seals the other opens under loss and reordering, reflection is refused.
  \<^item> \<open>Session_Auth\<close>: both handshake state machines.  Shown: what is authenticated is unambiguous, the table
    of pending handshakes stays bounded, sessions are established once and only for challenged
    transcripts, repeated messages get the same answer and renew nothing, the four flights complete.
  \<^item> \<open>Input_Lease\<close>, \<open>Workspace_Input\<close>: held presses, admission and expiry on the host, leases, sealing and
    snapshots on the viewer.  Shown: the recorded presses are exactly those the operating system holds, both
    ends hold the same, sequence numbers take effect once, snapshots only release, other traffic does not
    extend a press, requests are granted once.
  \<^item> \<open>Clock_Sync\<close>: probes, samples and the least-squares fit.  Shown: the tables are bounded, samples
    are exact, a reply counts once; in exact arithmetic the estimate is within its allowance of the truth.
  \<^item> \<open>Media_Plane\<close>, \<open>Media_Control\<close>: RTP packets as envelopes, keyframes, pacing; recovery, demand, settings
    and pause on the viewer.  Shown: the envelopes decode to the packets, the keyframe test is the one of
    the Annex B grammar, a decoder attempt counts until a reset, a required keyframe or its failure
    abandons it and is inert from then on, recovery ends with output.
  \<^item> \<open>Host_Connection\<close>: subscriptions, audio groups, source switches, input admission, pause control and
    receipts of one connection.  Shown: bounds, finality of an unsubscribe, agreement about pauses, input
    fenced by the source.
  \<^item> \<open>Directed_Delivery\<close>: tickets, offers and claims of directed file delivery.  Shown: one delivery at a
    time, ended deliveries do not revive, claims are exclusive.
  \<^item> \<open>Session_Tabs\<close>, \<open>Role_Machine\<close>: tabs with connection attempts; the role machine, refined to an abstract
    labelled step relation.  Shown: attempts complete once and not after they were cancelled, the verdicts
    and the role of every history are those of the abstract machine, sessions are not displaced, deadlines
    not extended.
  \<^item> \<open>Device_Group\<close>, \<open>Profile_Store\<close>: invitation codes and metadata; the profile on a Unix file system with
    failing calls and interference.  Shown: codes are read back with the confusions of letters,
    case and spacing that people make, a saved
    configuration is loaded, private writes are atomic and leave no temporary file, foreign profiles are left alone.
  \<^item> \<open>Hevc_Sequence\<close>: the bit reader and the parser of sequence parameter sets.  Shown: what an encoder
    writes is read back, and what is read is in bounds whatever bytes arrive.
  \<^item> \<open>Relay_Server\<close>: identifiers, the packet codec and its TCP frames, the UDP server, the tunnels, and the TCP
    and WebSocket server with its bounded channels.  Shown: the codec is exact; what one tunnel sends, the
    tunnel of a peer in the group delivers to its local socket; a forwarded frame carries the identity its
    sender registered and stays in its group; groups, connections and queues stay within their limits.
  \<^item> \<open>Routed_Relay\<close>: the authenticated envelope, listeners, route tables and event loop of the router that
    runs over the relay or a direct tunnel.  Shown: the envelope is exact; the first and every later
    datagram of an application reaches the other device's host, and answers the application that asked; nothing else leaves on a local socket; routes
    never share a token and the tables stay within their limits.
  \<^item> \<open>P2p_Rendezvous\<close>, \<open>P2p_Tunnel\<close>: the packets of the direct tunnel, with their fields as instances of the
    locale \<open>wire_field\<close>, the rendezvous server, and the tunnel with its candidates, timers and snapshot.
    Shown: the codec is exact; the server is bounded and tells devices only about their own group; two
    devices that register are introduced to each other and, in whatever order introductions, punches and
    answers arrive, get a confirmed path that their routers use; control is never
    delivered as data; application data goes to a confirmed address once there is one.  With a pool full of
    observed addresses a peer can be reported reachable without a confirmed one
    (\<open>full_pool_ready_without_path\<close>).

  \<^bold>\<open>Conventions.\<close>  A \<open>usize\<close> is a \<open>nat\<close>, a \<open>u8\<close> to \<open>u64\<close> a word (plain \<open>+\<close> wraps, as in an optimised build).
  A \<open>Result\<close> is a sum with the error on the left, a panic is \<open>None\<close>.  Text is a list of characters where
  only ASCII matters (\<open>string\<close>) and a list of code points with its UTF-8 form where it travels or is trimmed
  (\<open>rstring\<close>).  The \<open>f64\<close> of clock synchronisation is a real number, computed exactly.  Clock readings,
  random bytes, answers of the file system and of sockets, and what other tasks do in between are
  arguments; times are natural numbers.  Mutexes and atomics are modelled by making each operation one
  step, so an interleaving of calls is a list of steps.  Where the source has platform branches the model
  has the one without the Linux portal and Windows, with Unix paths.  Code outside the repository
  (bincode, HMAC-SHA-256, ChaCha20-Poly1305) is a parameter; what is relied on is stated as a hypothesis
  (decoding inverts encoding, opening inverts sealing with a 16-byte tag, an authentication code has 32
  bytes), and each theorem with such a hypothesis is applied to a concrete instance.

  \<^bold>\<open>Fuel.\<close>  Only loops whose source bound is a constant carry a counter: \<open>publish_loop\<close> tries the 100,000
  candidate names of the source, and \<open>read_chunks\<close> is run for one step more than the number of chunks,
  which the round-trip theorem shows to be enough.

  \<^bold>\<open>Not modelled.\<close>  User interfaces, platform capture, encoding, decoding and injection (foreign function
  interfaces), the asynchronous runtime loops around the modelled operations, local discovery, the
  event loop of the transfer runtime, its directory walk and its exchange of shared files, telemetry reports, the bindings
  for Android and the web, vendored crates, tests, examples and benches: they either call the platform or schedule the
  operations modelled here.
\<close>

section \<open>From the handshake to delivered records\<close>

text \<open>
  C1. An authenticated channel works end to end.  After the four flights of the handshake, whatever the
  client then seals the server opens to the same plaintexts, and the other way round, with records lost
  at will and reordered by fewer than 4096 positions.
\<close>

theorem authenticated_channel_delivers:
  fixes cs :: "('k, 'm) crypto_suite_scheme" and s :: "'a ServerHandshake"
  assumes suite: "suite_ok cs" "\<And>m. aead_key cs (hmac_sha256 cs key m) \<noteq> None" and sid: "length sid = 16"
    and inv: "server_inv s"
    and slot: "map_of (server_expire t1 s) addr = None" "n \<notin> set (nonces (server_expire t1 s))"
      "length (server_expire t1 s) < MAX_HANDSHAKES"
    and time: "fresh_at t0 t2" "fresh_at t0 t4" "fresh_at t1 t3"
  shows "\<exists>s1 r1 c1 s2 r2 c2 cc es.
     server_receive cs key s (client_message cs key (client_new n t0)) addr t1 True (sn, sid) = (s1, Ok r1) \<and>
     client_receive cs key (client_new n t0) (sr_message r1) t2 = (c1, Ok None) \<and>
     server_receive cs key s1 (client_message cs key c1) addr t3 True rnd = (s2, Ok r2) \<and>
     client_receive cs key c1 (sr_message r2) t4 = (c2, Ok (Some cc)) \<and> sr_established r2 = Some es \<and>
     (\<forall>a b. (a, b) \<in> {(cc, es_crypto es), (es_crypto es, cc)} \<longrightarrow>
       (\<forall>ps rs order. seal_all cs a ps = map Ok rs \<longrightarrow> distinct order \<longrightarrow> set order \<subseteq> {..<length ps} \<longrightarrow>
          sorted_wrt (\<lambda>i j. i < j + 4096) order \<longrightarrow>
          open_all cs b (map (nth rs) order) = Some (map (\<lambda>i. Ok (ps ! i)) order)))"
proof -
  obtain s1 r1 c1 s2 r2 c2 cc es tr where ex:
    "server_receive cs key s (client_message cs key (client_new n t0)) addr t1 True (sn, sid) = (s1, Ok r1)"
    "client_receive cs key (client_new n t0) (sr_message r1) t2 = (c1, Ok None)"
    "server_receive cs key s1 (client_message cs key c1) addr t3 True rnd = (s2, Ok r2)"
    "client_receive cs key c1 (sr_message r2) t4 = (c2, Ok (Some cc))" "sr_established r2 = Some es"
    and c: "for_session cs key tr sid Client = Ok cc" and h: "for_session cs key tr sid Host = Ok (es_crypto es)"
    using handshake_flights [OF inv suite(2) slot time, of sn sid rnd] by blast
  have "open_all cs b (map (nth rs) order) = Some (map (\<lambda>i. Ok (ps ! i)) order)"
    if "(a, b) \<in> {(cc, es_crypto es), (es_crypto es, cc)}" "seal_all cs a ps = map Ok rs" "distinct order"
      "set order \<subseteq> {..<length ps}" "sorted_wrt (\<lambda>i j. i < j + 4096) order" for a b ps rs order
    using that(1) sealed_delivery [OF suite(1) sid _ c h _ that(3-5)] sealed_delivery [OF suite(1) sid _ h c _ that(3-5)] that(2)
    by auto
  with ex show ?thesis by blast
qed

text \<open>The channel of the demonstration suite on an empty server.\<close>

theorem authenticated_channel_delivers_witness:
  "\<exists>s1 r1. server_receive demo_suite [1] [] demo_hello (0 :: nat) \<lparr>monotonic = 1, wall = 1\<rparr> True ([1], replicate 16 2) = (s1, Ok r1)"
proof -
  let ?t = "\<lambda>k. \<lparr>monotonic = k, wall = k\<rparr>"
  let ?s = "[] :: nat ServerHandshake"
  have t: "fresh_at (?t 0) (?t 2)" "fresh_at (?t 0) (?t 4)" "fresh_at (?t 1) (?t 3)"
    by (simp_all add: fresh_at_def HANDSHAKE_LIFETIME_def SECOND_def)
  have k: "\<And>m. aead_key demo_suite (hmac_sha256 demo_suite [1] m) \<noteq> None" by (simp add: demo_suite_def)
  have l: "length (replicate 16 (2 :: u8)) = 16" by simp
  have i: "server_inv ?s" by (simp add: server_inv_def hash_wf_def column_def)
  have e: "map_of (server_expire (?t 1) ?s) 0 = None" "replicate 16 5 \<notin> set (nonces (server_expire (?t 1) ?s))"
    "length (server_expire (?t 1) ?s) < MAX_HANDSHAKES"
    by (simp_all add: server_expire_def column_def MAX_HANDSHAKES_def)
  show ?thesis
    using authenticated_channel_delivers [OF demo_suite_ok k l i e t, of "[1]" "([], [])"]
    unfolding demo_hello_def by (elim exE conjE) (intro exI)
qed

end
